(* ===== verification/SI_Prelude.thy ===== *)
theory SI_Prelude
  imports Complex_Main "HOL-Library.Word" "HOL-Library.Char_ord" "HOL-Library.List_Lexorder"
    "HOL-Library.Sublist" "HOL-Library.Multiset"
begin

text \<open>
  Shared material of the development: how values of the Go language and of its standard library
  are represented, and the generic lemmas the component theories use.

  \<^item> A Go \<open>string\<close> is a \<^typ>\<open>string\<close> (a list of bytes); \<open><\<close> on strings is Go's bytewise order.
  \<^item> A \<open>*big.Rat\<close> is a \<^typ>\<open>rat\<close>, a \<open>*big.Int\<close> an \<^typ>\<open>int\<close>; a pointer that may be nil is an
    \<open>option\<close>.
  \<^item> An \<open>error\<close> result is a sum: \<open>Inl\<close> the error, \<open>Inr\<close> the value.
  \<^item> A \<open>float64\<close> that the code only compares is an \<open>f64\<close>: the IEEE classes with a rational as
    the finite value, and the IEEE order in which every comparison with NaN is false.
  \<^item> A \<open>time.Time\<close> is the number of nanoseconds since the zero time (January 1, year 1, UTC); a
    \<open>time.Duration\<close> is an int64 number of nanoseconds, kept in range where it is computed.
\<close>

section \<open>Collections of rules\<close>

named_theorems price_simps \<open>unfolding rules of the exact price arithmetic\<close>
named_theorems order_stat \<open>facts on sorted lists and order statistics\<close>
named_theorems step_inv \<open>every operation keeps its component's invariant\<close>

section \<open>Go's float64, as far as it is compared\<close>

datatype f64 = FNaN | FNegInf | FFin rat | FPosInf

instantiation f64 :: ord
begin

fun less_eq_f64 :: "f64 \<Rightarrow> f64 \<Rightarrow> bool" where
  "less_eq_f64 FNaN _ = False"
| "less_eq_f64 _ FNaN = False"
| "less_eq_f64 FNegInf _ = True"
| "less_eq_f64 _ FPosInf = True"
| "less_eq_f64 (FFin a) (FFin b) = (a \<le> b)"
| "less_eq_f64 _ _ = False"

definition less_f64 :: "f64 \<Rightarrow> f64 \<Rightarrow> bool" where
  "less_f64 a b = (a \<le> b \<and> \<not> b \<le> a)"

instance ..

end

text \<open>\<open>a == b\<close> of the language: NaN equals nothing, itself included.\<close>

fun f64_eq :: "f64 \<Rightarrow> f64 \<Rightarrow> bool" where
  "f64_eq FNaN _ = False"
| "f64_eq a b = (a = b)"

text \<open>\<open>new(big.Rat).SetFloat64\<close>: exact on a finite value, nil on NaN and the infinities.\<close>

fun SetFloat64 :: "f64 \<Rightarrow> rat option" where
  "SetFloat64 (FFin r) = Some r"
| "SetFloat64 _ = None"

section \<open>Time and durations\<close>

type_synonym gotime = int
type_synonym duration = int

definition max_int64 :: int where
  "max_int64 = 2 ^ 63 - 1"

definition min_int64 :: int where
  "min_int64 = - (2 ^ 63)"

text \<open>Reduction of a mathematical integer to int64, two's complement.\<close>

definition wrap64 :: "int \<Rightarrow> int" where
  "wrap64 x = (x + 2 ^ 63) mod 2 ^ 64 - 2 ^ 63"

text \<open>\<open>t.Sub(u)\<close> saturates at the ends of the Duration range.\<close>

definition time_Sub :: "gotime \<Rightarrow> gotime \<Rightarrow> duration" where
  "time_Sub t u = max min_int64 (min max_int64 (t - u))"

definition time_IsZero :: "gotime \<Rightarrow> bool" where
  "time_IsZero t = (t = 0)"

text \<open>\<open>t.Truncate(d)\<close> rounds down to a multiple of \<open>d\<close> since the zero time; \<open>d \<le> 0\<close> leaves \<open>t\<close>.\<close>

definition time_Truncate :: "gotime \<Rightarrow> duration \<Rightarrow> gotime" where
  "time_Truncate t d = (if d \<le> 0 then t else t - t mod d)"

text \<open>Seconds from the zero time to the Unix epoch, and the conversions that use it.\<close>

definition unix_epoch_seconds :: int where
  "unix_epoch_seconds = 62135596800"

definition time_Unix :: "gotime \<Rightarrow> int" where
  "time_Unix t = t div 1000000000 - unix_epoch_seconds"

definition time_UnixMilli :: "gotime \<Rightarrow> int" where
  "time_UnixMilli t = t div 1000000 - unix_epoch_seconds * 1000"

definition time_UnixNano :: "gotime \<Rightarrow> int" where
  "time_UnixNano t = wrap64 (t - unix_epoch_seconds * 1000000000)"

definition time_of_unix :: "int \<Rightarrow> gotime" where
  "time_of_unix s = (s + unix_epoch_seconds) * 1000000000"

definition time_of_unix_milli :: "int \<Rightarrow> gotime" where
  "time_of_unix_milli m = (m + unix_epoch_seconds * 1000) * 1000000"

definition go_second :: duration where
  "go_second = 1000000000"

definition go_minute :: duration where
  "go_minute = 60 * go_second"

definition go_hour :: duration where
  "go_hour = 60 * go_minute"

section \<open>Integer division that truncates towards zero\<close>

definition go_quo :: "int \<Rightarrow> int \<Rightarrow> int" where
  "go_quo a b = sgn a * sgn b * (\<bar>a\<bar> div \<bar>b\<bar>)"

definition go_rem :: "int \<Rightarrow> int \<Rightarrow> int" where
  "go_rem a b = a - b * go_quo a b"

section \<open>Lemmas on the language's values\<close>

lemma f64_le_NaN [simp]: "\<not> a \<le> FNaN"
  by (cases a) auto

lemma less_f64_NaN [simp]: "\<not> FNaN < b" "\<not> a < FNaN"
  by (simp_all add: less_f64_def)

lemma less_f64_FFin [simp]: "(FFin x < FFin y) = (x < y)"
  by (auto simp: less_f64_def)

lemma f64_le_refl: "a \<noteq> FNaN \<Longrightarrow> a \<le> (a :: f64)"
  by (cases a) auto

lemma f64_le_trans: "a \<le> b \<Longrightarrow> b \<le> c \<Longrightarrow> a \<le> (c :: f64)"
  by (cases a; cases b; cases c) auto

lemma f64_le_total: "a \<noteq> FNaN \<Longrightarrow> b \<noteq> FNaN \<Longrightarrow> a \<le> b \<or> b \<le> (a :: f64)"
  by (cases a; cases b) auto

lemma wrap64_range: "min_int64 \<le> wrap64 x \<and> wrap64 x \<le> max_int64"
proof -
  have "0 \<le> (x + 2 ^ 63) mod (2 ^ 64 :: int)" "(x + 2 ^ 63) mod (2 ^ 64 :: int) < 2 ^ 64"
    by simp_all
  then show ?thesis by (simp add: wrap64_def min_int64_def max_int64_def)
qed

lemma wrap64_id: "min_int64 \<le> x \<Longrightarrow> x \<le> max_int64 \<Longrightarrow> wrap64 x = x"
  by (simp add: wrap64_def min_int64_def max_int64_def)

lemma time_Sub_range: "min_int64 \<le> time_Sub t u \<and> time_Sub t u \<le> max_int64"
  by (simp add: time_Sub_def min_int64_def max_int64_def)

lemma time_Sub_pos_iff [simp]: "(0 < time_Sub t u) = (u < t)"
  by (auto simp: time_Sub_def min_int64_def max_int64_def)

lemma time_Sub_nonneg_iff [simp]: "(0 \<le> time_Sub t u) = (u \<le> t)"
  by (auto simp: time_Sub_def min_int64_def max_int64_def)

lemma go_quo_nonneg: "0 \<le> a \<Longrightarrow> 0 < b \<Longrightarrow> go_quo a b = a div b"
  by (cases "a = 0") (auto simp: go_quo_def sgn_if)

lemma go_rem_nonneg: "0 \<le> a \<Longrightarrow> 0 < b \<Longrightarrow> go_rem a b = a mod b"
  by (simp add: go_rem_def go_quo_nonneg minus_mult_div_eq_mod)

section \<open>Lemmas on lists\<close>

lemma sorted_below_count:
  assumes "sorted s" "k < length s" "s ! k < (a :: 'a :: linorder)"
  shows "length (filter (\<lambda>x. a \<le> x) s) \<le> length s - Suc k"
proof -
  have "filter (\<lambda>x. a \<le> x) (take (Suc k) s) = []"
    unfolding filter_empty_conv
  proof
    fix x assume "x \<in> set (take (Suc k) s)"
    then obtain j where "j \<le> k" "x = s ! j" using assms(2)
      by (auto simp: in_set_conv_nth less_Suc_eq_le)
    then have "x \<le> s ! k" using assms by (simp add: sorted_nth_mono)
    then show "\<not> a \<le> x" using assms(3) by simp
  qed
  then have "filter (\<lambda>x. a \<le> x) s = filter (\<lambda>x. a \<le> x) (drop (Suc k) s)"
    using filter_append [of "\<lambda>x. a \<le> x" "take (Suc k) s" "drop (Suc k) s"] by simp
  then show ?thesis
    using length_filter_le [of "\<lambda>x. a \<le> x" "drop (Suc k) s"] by simp
qed

lemma sorted_above_count:
  assumes "sorted s" "k < length s" "(b :: 'a :: linorder) < s ! k"
  shows "length (filter (\<lambda>x. x \<le> b) s) \<le> k"
proof -
  have "filter (\<lambda>x. x \<le> b) (drop k s) = []"
    unfolding filter_empty_conv
  proof
    fix x assume "x \<in> set (drop k s)"
    then obtain j where "j < length s - k" "x = s ! (k + j)"
      by (auto simp: in_set_conv_nth)
    then have "k + j < length s" "x = s ! (k + j)" by simp_all
    then have "s ! k \<le> x" using assms by (simp add: sorted_nth_mono)
    then show "\<not> x \<le> b" using assms(3) by simp
  qed
  then have "filter (\<lambda>x. x \<le> b) s = filter (\<lambda>x. x \<le> b) (take k s)"
    using filter_append [of "\<lambda>x. x \<le> b" "take k s" "drop k s"] by simp
  then show ?thesis
    using length_filter_le [of "\<lambda>x. x \<le> b" "take k s"] assms(2) by simp
qed

text \<open>The element at position \<open>k\<close> of the sorted list, when enough elements satisfy a bound.\<close>

lemma sorted_nth_lower [order_stat]:
  assumes "sorted s" "k < length s" "length s - Suc k < length (filter (\<lambda>x. a \<le> x) s)"
  shows "a \<le> (s ! k :: 'a :: linorder)"
  using sorted_below_count [OF assms(1,2), of a] assms(3) by (cases "s ! k < a") auto

lemma sorted_nth_upper [order_stat]:
  assumes "sorted s" "k < length s" "k < length (filter (\<lambda>x. x \<le> b) s)"
  shows "(s ! k :: 'a :: linorder) \<le> b"
  using sorted_above_count [OF assms(1,2), of b] assms(3) by (cases "b < s ! k") auto

lemma length_filter_sort [simp]: "length (filter P (sort xs)) = length (filter P xs)"
proof -
  have "mset (filter P (sort xs)) = mset (filter P xs)" by (simp add: mset_filter)
  then show ?thesis by (metis size_mset)
qed

lemma length_filter_mono:
  "(\<And>x. x \<in> set xs \<Longrightarrow> P x \<Longrightarrow> Q x) \<Longrightarrow> length (filter P xs) \<le> length (filter Q xs)"
  by (induction xs) (auto intro: le_SucI)

lemma subseq_filter_of_list: "subseq (filter P xs) xs"
  by (rule subseq_filter_left)

lemma map_nth_filter_upt: "map (nth vs) (filter (\<lambda>k. keep (vs ! k)) [0..<length vs]) = filter keep vs"
proof -
  have "filter keep (map (nth vs) [0..<length vs]) = map (nth vs) (filter (keep \<circ> nth vs) [0..<length vs])"
    by (rule filter_map)
  then show ?thesis by (simp add: map_nth o_def)
qed

lemma sum_list_filter_le:
  "(\<And>x. x \<in> set xs \<Longrightarrow> 0 \<le> f x) \<Longrightarrow> sum_list (map f (filter P xs)) \<le> sum_list (map f (xs :: 'a list) :: 'b :: ordered_comm_monoid_add list)"
  by (induction xs) (auto intro: add_mono add_increasing)

lemma set_map_filter: "set (List.map_filter f xs) = {y. \<exists>x \<in> set xs. f x = Some y}"
  by (force simp: List.map_filter_def)

end
