(* ===== verification/RobustStat.thy ===== *)
theory RobustStat
  imports SI_Prelude
begin

text \<open>
  The leaf package \<open>internal/robuststat\<close>: exact median, median absolute deviation and the
  ratio-symmetric deviation (\<open>robust.go\<close>), and the guard of the closed-bucket serving path
  (\<open>served_guard.go\<close>). The locale \<open>central_statistic\<close> is the contract the served-price code
  relies on; both medians of the package are interpretations of it.
\<close>

section \<open>robust.go\<close>

definition madToStd :: rat where
  "madToStd = 7413 / 5000"

definition Median :: "rat list \<Rightarrow> rat option" where
  "Median vals =
     (if vals = [] then None
      else let s = sort vals; n = length s in
        if n mod 2 = 1 then Some (s ! (n div 2))
        else Some ((s ! (n div 2 - 1) + s ! (n div 2)) / 2))"

definition MedianMember :: "rat list \<Rightarrow> rat option" where
  "MedianMember vals =
     (if vals = [] then None
      else let s = sort vals in Some (s ! ((length s - 1) div 2)))"

definition MAD :: "rat list \<Rightarrow> rat \<Rightarrow> rat option" where
  "MAD vals centre = Median (map (\<lambda>v. \<bar>v - centre\<bar>) vals)"

text \<open>The closure \<open>at\<close> of \<open>WeightedMedian\<close>: the value covering position \<open>pos\<close> of the expansion.\<close>

fun weighted_at :: "(rat \<times> int) list \<Rightarrow> int \<Rightarrow> int \<Rightarrow> rat \<Rightarrow> rat" where
  "weighted_at [] cum pos fallback = fallback"
| "weighted_at ((v, k) # ps) cum pos fallback =
     (let cum' = cum + k in if pos < cum' then v else weighted_at ps cum' pos fallback)"

definition WeightedMedian :: "rat list \<Rightarrow> int list option \<Rightarrow> rat option" where
  "WeightedMedian vals w =
     (case w of
        None \<Rightarrow> Median vals
      | Some ws \<Rightarrow>
          if vals = [] then None
          else let ps = sort_key fst (zip vals ws);
                   total = sum_list ws;
                   lo = weighted_at ps 0 ((total - 1) div 2) (fst (last ps));
                   hi = weighted_at ps 0 (total div 2) (fst (last ps))
               in Some ((lo + hi) / 2))"

definition zeroScaleRelFloor :: rat where
  "zeroScaleRelFloor = 1 / 200"

definition WeightedCentreScale :: "rat list \<Rightarrow> int list option \<Rightarrow> (rat \<times> rat) option" where
  "WeightedCentreScale vals w =
     (if vals = [] then None
      else case WeightedMedian vals w of
        None \<Rightarrow> None
      | Some centre \<Rightarrow>
          (case WeightedMedian (map (\<lambda>v. \<bar>v - centre\<bar>) vals) w of
             None \<Rightarrow> None
           | Some mad \<Rightarrow>
               let scale = madToStd * mad;
                   floor = \<bar>zeroScaleRelFloor * centre\<bar>
               in Some (centre, if scale = 0 \<and> 0 < floor then floor else scale)))"

definition CentreScale :: "rat list \<Rightarrow> (rat \<times> rat) option" where
  "CentreScale vals = WeightedCentreScale vals None"

definition SymmetricDev :: "rat option \<Rightarrow> rat option \<Rightarrow> rat option" where
  "SymmetricDev p centre =
     (case (p, centre) of
        (Some x, Some c) \<Rightarrow>
          if c \<le> 0 \<or> c \<le> x then Some \<bar>x - c\<bar>
          else if x \<le> 0 then None
          else Some ((c - x) * c / x)
      | _ \<Rightarrow> None)"

section \<open>served\_guard.go\<close>

definition guardMinSamples :: nat where
  "guardMinSamples = 5"

definition guardRatioBound :: rat where
  "guardRatioBound = 3"

definition guardThinRatioBound :: rat where
  "guardThinRatioBound = 10"

definition guardMADFactor :: rat where
  "guardMADFactor = 10"

text \<open>The positive, non-nil trailing values.\<close>

definition usable_trailing :: "rat option list \<Rightarrow> rat list" where
  "usable_trailing trailing = filter (\<lambda>v. 0 < v) (List.map_filter id trailing)"

definition robustBand :: "rat option list \<Rightarrow> (rat \<times> rat) option" where
  "robustBand trailing =
     (let vals = usable_trailing trailing in
      if vals = [] then None
      else case Median vals of
        None \<Rightarrow> None
      | Some centre \<Rightarrow>
          if centre \<le> 0 then None
          else if length vals < guardMinSamples
          then Some (centre / guardThinRatioBound, centre * guardThinRatioBound)
          else case MAD vals centre of
            None \<Rightarrow> None
          | Some mad \<Rightarrow>
              let lo = centre / guardRatioBound;
                  hi = centre * guardRatioBound;
                  half = guardMADFactor * (madToStd * mad);
                  madHi = centre + half;
                  madLo = centre * centre / madHi
              in Some (if madLo < lo then madLo else lo, if hi < madHi then madHi else hi))"

definition withinBand :: "rat option \<Rightarrow> rat option \<Rightarrow> rat option \<Rightarrow> bool" where
  "withinBand v lo hi =
     (case (v, lo, hi) of
        (Some x, Some l, Some h) \<Rightarrow> l \<le> x \<and> x \<le> h
      | _ \<Rightarrow> True)"

text \<open>The newest-first walk for the last clean bucket.\<close>

fun guard_walk :: "nat \<Rightarrow> rat option list \<Rightarrow> rat \<Rightarrow> rat \<Rightarrow> nat option" where
  "guard_walk i [] lo hi = None"
| "guard_walk i (v # vs) lo hi =
     (if v \<noteq> None \<and> withinBand v (Some lo) (Some hi) then Some i
      else guard_walk (Suc i) vs lo hi)"

definition GuardServedVWAP :: "rat option \<Rightarrow> rat option list \<Rightarrow> bool \<times> int" where
  "GuardServedVWAP candidate trailing =
     (case robustBand trailing of
        None \<Rightarrow> (True, -1)
      | Some (lo, hi) \<Rightarrow>
          if candidate = None then (True, -1)
          else if withinBand candidate (Some lo) (Some hi) then (True, -1)
          else case guard_walk 0 trailing lo hi of
            Some i \<Rightarrow> (False, int i)
          | None \<Rightarrow> (True, -1))"

definition ServedBaselineValidated :: "rat option list \<Rightarrow> bool" where
  "ServedBaselineValidated trailing = (robustBand trailing \<noteq> None)"

section \<open>The contract of a central statistic\<close>

text \<open>
  What a served-price guard asks of its centre: it exists for every non-empty input, and a strict
  majority of the values inside an interval keeps it inside, whatever the others are.
\<close>

locale central_statistic =
  fixes stat :: "rat list \<Rightarrow> rat option"
  assumes stat_None: "stat xs = None \<longleftrightarrow> xs = []"
    and stat_majority: "stat xs = Some m \<Longrightarrow>
      length xs < 2 * length (filter (\<lambda>x. a \<le> x \<and> x \<le> b) xs) \<Longrightarrow> a \<le> m \<and> m \<le> b"
begin

lemma stat_exists: "xs \<noteq> [] \<Longrightarrow> \<exists>m. stat xs = Some m"
  using stat_None [of xs] by auto

lemma stat_bounds:
  assumes "stat xs = Some m" "\<And>x. x \<in> set xs \<Longrightarrow> a \<le> x \<and> x \<le> b"
  shows "a \<le> m \<and> m \<le> b"
proof (rule stat_majority [OF assms(1)])
  have "xs \<noteq> []" using assms(1) stat_None [of xs] by auto
  moreover have "filter (\<lambda>x. a \<le> x \<and> x \<le> b) xs = xs" using assms(2) by (simp add: filter_id_conv)
  ultimately show "length xs < 2 * length (filter (\<lambda>x. a \<le> x \<and> x \<le> b) xs)" by simp
qed

lemma stat_lower:
  assumes "stat xs = Some m" "\<And>x. x \<in> set xs \<Longrightarrow> a \<le> x"
  shows "a \<le> m"
  using stat_bounds [OF assms(1), of a "Max (set xs)"] assms(2) by auto

lemma stat_pos:
  assumes "stat xs = Some m" "\<And>x. x \<in> set xs \<Longrightarrow> 0 < x"
  shows "0 < m"
proof -
  have ne: "xs \<noteq> []" using assms(1) stat_None [of xs] by auto
  then have "Min (set xs) \<le> m" using stat_lower [OF assms(1), of "Min (set xs)"] by simp
  moreover have "0 < Min (set xs)" using ne assms(2) by simp
  ultimately show ?thesis by simp
qed

lemma stat_const: "stat xs = Some m \<Longrightarrow> (\<And>x. x \<in> set xs \<Longrightarrow> x = c) \<Longrightarrow> m = c"
  using stat_bounds [of xs m c c] by force

end

section \<open>The two medians satisfy it\<close>

lemma Median_None [simp]: "Median xs = None \<longleftrightarrow> xs = []"
  by (simp add: Median_def Let_def del: not_None_eq)

lemma MedianMember_None [simp]: "MedianMember xs = None \<longleftrightarrow> xs = []"
  by (simp add: MedianMember_def Let_def)

text \<open>Both central positions of the sorted list lie inside an interval that holds a majority.\<close>

lemma central_positions:
  fixes xs :: "rat list"
  assumes maj: "length xs < 2 * length (filter (\<lambda>x. a \<le> x \<and> x \<le> b) xs)"
    and k: "(length xs - 1) div 2 \<le> k" "k \<le> length xs div 2"
  shows "a \<le> sort xs ! k \<and> sort xs ! k \<le> b"
proof
  have ne: "xs \<noteq> []" using maj by auto
  have kl: "k < length (sort xs)" using k ne by (cases "length xs") auto
  have lo: "length (filter (\<lambda>x. a \<le> x \<and> x \<le> b) xs) \<le> length (filter (\<lambda>x. a \<le> x) xs)"
    and hi: "length (filter (\<lambda>x. a \<le> x \<and> x \<le> b) xs) \<le> length (filter (\<lambda>x. x \<le> b) xs)"
    by (auto intro: length_filter_mono)
  show "a \<le> sort xs ! k"
    by (rule sorted_nth_lower [OF _ kl]) (use lo maj k in auto)
  show "sort xs ! k \<le> b"
    by (rule sorted_nth_upper [OF _ kl]) (use hi maj k in auto)
qed

lemma Median_cases:
  assumes "Median xs = Some m"
  obtains (odd) "length xs mod 2 = 1" "m = sort xs ! (length xs div 2)"
        | (even) "length xs mod 2 = 0" "0 < length xs"
            "m = (sort xs ! (length xs div 2 - 1) + sort xs ! (length xs div 2)) / 2"
  using assms by (auto simp: Median_def Let_def split: if_splits)

lemma Median_majority:
  assumes m: "Median xs = Some m"
    and maj: "length xs < 2 * length (filter (\<lambda>x. a \<le> x \<and> x \<le> b) xs)"
  shows "a \<le> m \<and> m \<le> b"
  using m
proof (cases rule: Median_cases)
  case odd
  then show ?thesis using central_positions [OF maj, of "length xs div 2"] by simp
next
  case even
  have "a \<le> sort xs ! (length xs div 2 - 1) \<and> sort xs ! (length xs div 2 - 1) \<le> b"
    by (rule central_positions [OF maj]) (use even in auto)
  moreover have "a \<le> sort xs ! (length xs div 2) \<and> sort xs ! (length xs div 2) \<le> b"
    by (rule central_positions [OF maj]) auto
  ultimately show ?thesis using even by (auto simp: field_simps)
qed

lemma MedianMember_majority:
  assumes "MedianMember xs = Some m"
    and "length xs < 2 * length (filter (\<lambda>x. a \<le> x \<and> x \<le> b) xs)"
  shows "a \<le> m \<and> m \<le> b"
  using assms(1) central_positions [OF assms(2), of "(length xs - 1) div 2"]
  by (auto simp: MedianMember_def Let_def split: if_splits)

interpretation median: central_statistic Median
  by unfold_locales (auto dest: Median_majority)

interpretation member_median: central_statistic MedianMember
  by unfold_locales (auto dest: MedianMember_majority)

lemma MedianMember_in: "MedianMember xs = Some m \<Longrightarrow> m \<in> set xs"
  by (auto simp: MedianMember_def Let_def split: if_splits)
    (metis One_nat_def diff_less div_le_dividend le_less_trans length_greater_0_conv length_sort
      less_Suc_eq_0_disj nth_mem set_sort)

section \<open>Members close to the median\<close>

text \<open>
  The upper central element is at least the median, and no element lies closer to it.
\<close>

lemma Median_upper_central:
  assumes m: "Median xs = Some c"
  obtains u where "u \<in> set xs" "c \<le> u" "\<And>x. x \<in> set xs \<Longrightarrow> u - c \<le> \<bar>x - c\<bar>"
    "\<exists>l \<in> set xs. u = 2 * c - l"
  using m
proof (cases rule: Median_cases)
  case odd
  then have l: "length xs div 2 < length (sort xs)" by (cases xs) auto
  have "c \<in> set xs" using odd nth_mem [OF l] by simp
  then show ?thesis by (intro that [of c]) auto
next
  case even
  let ?s = "sort xs" let ?h = "length xs div 2"
  have "?h < length xs \<and> ?h - 1 < length xs \<and> 0 < ?h" using even(1,2) by presburger
  then have h: "?h < length ?s" "?h - 1 < length ?s" "0 < ?h" by simp_all
  have mem: "?s ! ?h \<in> set xs" "?s ! (?h - 1) \<in> set xs"
    using nth_mem [OF h(1)] nth_mem [OF h(2)] by simp_all
  have le: "?s ! (?h - 1) \<le> ?s ! ?h" by (rule sorted_nth_mono) (use h in auto)
  have near: "?s ! ?h - c \<le> \<bar>x - c\<bar>" if "x \<in> set xs" for x
  proof -
    obtain j where j: "j < length ?s" "x = ?s ! j" using \<open>x \<in> set xs\<close>
      by (metis in_set_conv_nth set_sort)
    have "?s ! ?h \<le> x \<or> x \<le> ?s ! (?h - 1)"
    proof (cases "?h \<le> j")
      case True
      then show ?thesis using j sorted_nth_mono [of ?s ?h j] by simp
    next
      case False
      then show ?thesis using j h sorted_nth_mono [of ?s j "?h - 1"] by simp
    qed
    then show ?thesis using even(3) le by (auto simp: field_simps abs_if)
  qed
  have c: "c \<le> ?s ! ?h" "?s ! ?h = 2 * c - ?s ! (?h - 1)" using even(3) le by simp_all
  show ?thesis by (rule that [OF mem(1) c(1) near]) (use mem(2) c(2) in blast)+
qed

lemma Median_near_member:
  assumes "Median xs = Some c" "MAD xs c = Some d"
  obtains u where "u \<in> set xs" "c \<le> u" "u - c \<le> d"
proof -
  obtain u where u: "u \<in> set xs" "c \<le> u" "\<And>x. x \<in> set xs \<Longrightarrow> u - c \<le> \<bar>x - c\<bar>"
    by (rule Median_upper_central [OF assms(1)]) blast
  have "u - c \<le> d"
    by (rule median.stat_lower [OF assms(2) [unfolded MAD_def]]) (use u in auto)
  then show ?thesis using u that by blast
qed

lemma Median_pos_double:
  assumes "Median xs = Some c" "\<And>x. x \<in> set xs \<Longrightarrow> 0 < x"
  obtains u where "u \<in> set xs" "c \<le> u" "u < 2 * c"
proof -
  obtain u l where "u \<in> set xs" "c \<le> u" "l \<in> set xs" "u = 2 * c - l"
    by (rule Median_upper_central [OF assms(1)]) blast
  then show ?thesis using assms(2) [of l] that by force
qed

section \<open>The weighted median is the median of the expansion\<close>

definition expansion :: "(rat \<times> int) list \<Rightarrow> rat list" where
  "expansion ps = concat (map (\<lambda>(v, k). replicate (nat k) v) ps)"

lemma length_expansion:
  "\<forall>p \<in> set ps. 1 \<le> snd p \<Longrightarrow> int (length (expansion ps)) = sum_list (map snd ps)"
  by (induction ps) (auto simp: expansion_def)

lemma weighted_at_expansion:
  assumes "\<forall>p \<in> set ps. 1 \<le> snd p" "cum \<le> pos" "pos < cum + sum_list (map snd ps)"
  shows "weighted_at ps cum pos z = expansion ps ! nat (pos - cum)"
  using assms
proof (induction ps cum pos z rule: weighted_at.induct)
  case (1 cum pos z)
  then show ?case by simp
next
  case (2 v k ps cum pos z)
  have k: "1 \<le> k" using 2 by simp
  show ?case
  proof (cases "pos < cum + k")
    case True
    then show ?thesis using 2 k by (simp add: expansion_def nth_append)
  next
    case False
    then have "weighted_at ps (cum + k) pos z = expansion ps ! nat (pos - (cum + k))"
      using 2 by simp
    moreover have "nat (pos - cum) = nat k + nat (pos - (cum + k))" using False k by simp
    ultimately show ?thesis using False by (simp add: expansion_def nth_append)
  qed
qed

lemma sorted_expansion: "sorted (map fst ps) \<Longrightarrow> sorted (expansion ps)"
  by (induction ps) (auto simp: expansion_def sorted_append)

lemma mset_expansion: "mset ps = mset qs \<Longrightarrow> mset (expansion ps) = mset (expansion qs)"
  unfolding expansion_def mset_concat map_map
  by (metis (no_types, lifting) mset_map sum_mset_sum_list)

lemma sort_expansion: "sort (expansion ps) = expansion (sort_key fst ps)"
  by (rule properties_for_sort) (auto intro!: sorted_expansion mset_expansion)

lemma sort_central:
  assumes "0 < length xs"
  shows "Median xs = Some ((sort xs ! ((length xs - 1) div 2) + sort xs ! (length xs div 2)) / 2)"
proof (cases "length xs mod 2 = 1")
  case True
  then have "(length xs - 1) div 2 = length xs div 2" by presburger
  then show ?thesis using True assms by (simp add: Median_def Let_def)
next
  case False
  then have "(length xs - 1) div 2 = length xs div 2 - 1" by presburger
  then show ?thesis using False assms by (simp add: Median_def Let_def)
qed

text \<open>
  \<open>WeightedMedian\<close> of values with counts (each at least 1) is exactly \<open>Median\<close> of the list that
  repeats every value by its count, so a per-minute summary row weighs as its trades.
\<close>

theorem WeightedMedian_expansion:
  assumes "length ws = length vals" "\<forall>k \<in> set ws. 1 \<le> k"
  shows "WeightedMedian vals (Some ws) = Median (expansion (zip vals ws))"
proof (cases "vals = []")
  case True
  then show ?thesis by (simp add: WeightedMedian_def expansion_def Median_def)
next
  case False
  let ?ps = "sort_key fst (zip vals ws)" let ?xs = "expansion (zip vals ws)"
  have pos: "\<forall>p \<in> set (zip vals ws). 1 \<le> snd p" "\<forall>p \<in> set ?ps. 1 \<le> snd p"
    using assms(2) by (auto dest: set_zip_rightD)
  have total: "sum_list (map snd ?ps) = sum_list ws"
  proof -
    have "mset (map snd ?ps) = mset ws" using assms(1) by (metis map_snd_zip mset_map mset_sort)
    then show ?thesis by (metis sum_mset_sum_list)
  qed
  have len: "int (length ?xs) = sum_list ws"
    using length_expansion [OF pos(1)] assms(1) by simp
  have ne: "0 < sum_list ws"
    using False assms by (cases ws) (auto intro!: add_pos_nonneg sum_list_nonneg)
  have at: "weighted_at ?ps 0 j z = sort ?xs ! nat j" if "0 \<le> j" "j < sum_list ws" for j z
    using weighted_at_expansion [OF pos(2), of 0 j z] that total by (simp add: sort_expansion)
  have halves: "nat ((sum_list ws - 1) div 2) = (length ?xs - 1) div 2"
    "nat (sum_list ws div 2) = length ?xs div 2"
    using len ne by linarith+
  have "0 < length ?xs" using len ne by linarith
  then show ?thesis
    using False ne sort_central [of ?xs]
    by (simp add: WeightedMedian_def Let_def at halves)
qed

theorem WeightedMedian_expansion_witness:
  "WeightedMedian [5, 1] (Some [1, 3]) = Median (expansion (zip [5, 1] [1, 3]))"
  by (rule WeightedMedian_expansion) auto

section \<open>Centre and scale\<close>

lemma CentreScale_exists: "vals \<noteq> [] \<Longrightarrow> \<exists>c sc. CentreScale vals = Some (c, sc)"
proof -
  assume ne: "vals \<noteq> []"
  obtain c where c: "Median vals = Some c" using ne by (cases "Median vals") simp_all
  obtain m where "Median (map (\<lambda>v. \<bar>v - c\<bar>) vals) = Some m"
    using ne by (cases "Median (map (\<lambda>v. \<bar>v - c\<bar>) vals)") simp_all
  then show ?thesis using ne c by (simp add: CentreScale_def WeightedCentreScale_def WeightedMedian_def Let_def)
qed

section \<open>The served-price guard\<close>

lemma usable_trailing_pos: "v \<in> set (usable_trailing ts) \<Longrightarrow> 0 < v"
  by (simp add: usable_trailing_def)

lemma usable_trailing_mem: "v \<in> set (usable_trailing ts) \<Longrightarrow> Some v \<in> set ts"
  by (auto simp: usable_trailing_def map_filter_def)

lemma MAD_nonneg: "MAD xs c = Some d \<Longrightarrow> 0 \<le> d"
  unfolding MAD_def by (erule median.stat_lower) auto

text \<open>What the acceptance band is, once there is a usable baseline.\<close>

lemma robustBand_cases:
  assumes "robustBand ts = Some (lo, hi)"
  obtains (thin) c where "Median (usable_trailing ts) = Some c" "0 < c"
            "length (usable_trailing ts) < guardMinSamples" "lo = c / 10" "hi = c * 10"
        | (full) c d where "Median (usable_trailing ts) = Some c" "0 < c" "0 \<le> d"
            "guardMinSamples \<le> length (usable_trailing ts)" "MAD (usable_trailing ts) c = Some d"
            "lo = min (c / 3) (c * c / (c + 10 * (madToStd * d)))"
            "hi = max (c * 3) (c + 10 * (madToStd * d))"
proof -
  obtain c where c: "Median (usable_trailing ts) = Some c" "0 < c"
    using assms by (auto simp: robustBand_def Let_def split: if_splits option.splits)
  show ?thesis
  proof (cases "length (usable_trailing ts) < guardMinSamples")
    case True
    then show ?thesis using assms c
      by (intro thin [OF c]) (auto simp: robustBand_def Let_def guardThinRatioBound_def split: if_splits)
  next
    case False
    then obtain d where d: "MAD (usable_trailing ts) c = Some d"
      using assms c by (auto simp: robustBand_def Let_def split: if_splits option.splits)
    show ?thesis
      by (rule full [OF c MAD_nonneg [OF d] _ d])
        (use False assms c d in \<open>auto simp: robustBand_def Let_def guardRatioBound_def guardMADFactor_def
          min_def max_def split: if_splits\<close>)
  qed
qed

lemma band_around_centre:
  assumes "robustBand ts = Some (lo, hi)" "Median (usable_trailing ts) = Some c"
  shows "lo \<le> c \<and> 2 * c \<le> hi \<and> 0 < lo \<and> 0 < c"
  using assms(1)
proof (cases rule: robustBand_cases)
  case (thin c')
  then show ?thesis using assms(2) by simp
next
  case (full c' d)
  have c: "c' = c" using full(1) assms(2) by simp
  have "0 < c + 10 * (madToStd * d)" using full c by (auto simp: madToStd_def intro: add_pos_nonneg)
  then have "0 < lo" "c * 3 \<le> hi" using full c by simp_all
  moreover have "lo \<le> c / 3" by (simp only: full(6) c min.cobounded1)
  ultimately show ?thesis using full(2) c by simp
qed

lemma guard_walk_Some:
  "guard_walk i ts lo hi = Some k \<longleftrightarrow>
     (\<exists>j < length ts. k = i + j \<and> (\<exists>v. ts ! j = Some v \<and> lo \<le> v \<and> v \<le> hi) \<and>
        (\<forall>j' < j. \<not> (\<exists>v. ts ! j' = Some v \<and> lo \<le> v \<and> v \<le> hi)))"
proof (induction ts arbitrary: i)
  case Nil
  then show ?case by simp
next
  case (Cons t ts)
  show ?case
  proof (cases "\<exists>v. t = Some v \<and> lo \<le> v \<and> v \<le> hi")
    case True
    then have "guard_walk i (t # ts) lo hi = Some i" by (auto simp: withinBand_def)
    then show ?thesis using True by (auto simp: less_Suc_eq_0_disj)
  next
    case False
    then have "guard_walk i (t # ts) lo hi = guard_walk (Suc i) ts lo hi"
      by (cases t) (auto simp: withinBand_def)
    then show ?thesis using False Cons.IH [of "Suc i"]
      by (simp add: Ex_less_Suc2 All_less_Suc2) blast
  qed
qed

lemma guard_walk_None:
  "guard_walk i ts lo hi = None \<longleftrightarrow> \<not> (\<exists>v. Some v \<in> set ts \<and> lo \<le> v \<and> v \<le> hi)"
  by (induction ts arbitrary: i) (auto simp: withinBand_def split: option.splits)

text \<open>The comment's "unreachable" branch: some trailing value always lies in the band.\<close>

lemma band_has_member:
  assumes "robustBand ts = Some (lo, hi)"
  shows "\<exists>v. Some v \<in> set ts \<and> lo \<le> v \<and> v \<le> hi"
proof -
  obtain c where c: "Median (usable_trailing ts) = Some c"
    using assms by (auto simp: robustBand_def Let_def split: if_splits option.splits)
  obtain u where u: "u \<in> set (usable_trailing ts)" "c \<le> u" "u < 2 * c"
    by (rule Median_pos_double [OF c usable_trailing_pos]) blast
  then show ?thesis using band_around_centre [OF assms c] usable_trailing_mem [OF u(1)]
    by (intro exI [of _ u]) auto
qed

lemma guard_walk_finds:
  assumes "robustBand ts = Some (lo, hi)"
  obtains k where "guard_walk 0 ts lo hi = Some k"
  using band_has_member [OF assms] guard_walk_None [of 0 ts lo hi] by fastforce

lemma guard_accepts_below:
  assumes "robustBand ts = Some (lo, hi)" "GuardServedVWAP (Some c) ts = (True, -1)"
  shows "lo \<le> c \<and> c \<le> hi"
  by (rule guard_walk_finds [OF assms(1)])
    (use assms in \<open>auto simp: GuardServedVWAP_def withinBand_def split: if_splits\<close>)

text \<open>
  Once there is a usable trailing baseline, \<open>GuardServedVWAP\<close> accepts a candidate exactly when it
  lies in the acceptance band; a rejection always names a fallback: the newest trailing value that is
  itself inside the band. The fail-open branch after the walk is never taken.
\<close>

theorem GuardServedVWAP_decides:
  assumes "robustBand trailing = Some (lo, hi)"
  shows "if lo \<le> c \<and> c \<le> hi then GuardServedVWAP (Some c) trailing = (True, -1)
    else \<exists>i < length trailing. GuardServedVWAP (Some c) trailing = (False, int i) \<and>
      (\<exists>v. trailing ! i = Some v \<and> lo \<le> v \<and> v \<le> hi) \<and>
      (\<forall>j < i. \<not> (\<exists>v. trailing ! j = Some v \<and> lo \<le> v \<and> v \<le> hi))"
proof (cases "lo \<le> c \<and> c \<le> hi")
  case True
  then show ?thesis using assms by (simp add: GuardServedVWAP_def withinBand_def)
next
  case False
  obtain k where k: "guard_walk 0 trailing lo hi = Some k" by (rule guard_walk_finds [OF assms])
  then have "GuardServedVWAP (Some c) trailing = (False, int k)"
    using False assms by (auto simp: GuardServedVWAP_def withinBand_def)
  then show ?thesis using False k [unfolded guard_walk_Some] by auto
qed

theorem GuardServedVWAP_decides_witness:
  "\<exists>i < 3. GuardServedVWAP (Some 90) [Some 40, Some 4, Some 5] = (False, int i) \<and>
     (\<exists>v. [Some 40, Some 4, Some (5::rat)] ! i = Some v \<and> 1 / 2 \<le> v \<and> v \<le> 50) \<and>
     (\<forall>j < i. \<not> (\<exists>v. [Some 40, Some 4, Some (5::rat)] ! j = Some v \<and> 1 / 2 \<le> v \<and> v \<le> 50))"
proof -
  have "robustBand [Some 40, Some 4, Some 5] = Some (1 / 2, 50)"
    by code_simp
  from GuardServedVWAP_decides [OF this, of 90] show ?thesis by (simp add: numeral_3_eq_3)
qed

text \<open>
  Manipulation resistance of the guard: when a strict majority of the usable trailing buckets lies
  in [a, b], no candidate above the bound below is ever accepted, whatever the other buckets hold and
  however the attacker placed them.
\<close>

theorem GuardServedVWAP_resists_minority:
  assumes maj: "length (usable_trailing trailing) <
      2 * length (filter (\<lambda>v. a \<le> v \<and> v \<le> b) (usable_trailing trailing))"
    and ab: "0 < a" "a \<le> b"
    and acc: "GuardServedVWAP (Some c) trailing = (True, -1)"
  shows "c \<le> max (10 * b) (b + 10 * (madToStd * (b - a)))"
proof -
  let ?us = "usable_trailing trailing"
  have "?us \<noteq> []" using maj by auto
  then obtain m where m: "Median ?us = Some m" using median.stat_exists by blast
  have mb: "a \<le> m" "m \<le> b" using median.stat_majority [OF m maj] by auto
  have "robustBand trailing \<noteq> None"
    using \<open>?us \<noteq> []\<close> m mb ab by (auto simp: robustBand_def Let_def MAD_def split: option.splits)
  then obtain lo hi where band: "robustBand trailing = Some (lo, hi)" by auto
  have "c \<le> hi" using guard_accepts_below [OF band acc] by simp
  moreover have "hi \<le> max (10 * b) (b + 10 * (madToStd * (b - a)))"
    using band
  proof (cases rule: robustBand_cases)
    case (thin c')
    then show ?thesis using m mb by auto
  next
    case (full c' d)
    have "length (map (\<lambda>v. \<bar>v - m\<bar>) ?us) <
        2 * length (filter (\<lambda>x. 0 \<le> x \<and> x \<le> b - a) (map (\<lambda>v. \<bar>v - m\<bar>) ?us))"
    proof -
      have "length (filter (\<lambda>v. a \<le> v \<and> v \<le> b) ?us) \<le>
          length (filter (\<lambda>x. 0 \<le> x \<and> x \<le> b - a) (map (\<lambda>v. \<bar>v - m\<bar>) ?us))"
        unfolding filter_map length_map comp_def
        by (rule length_filter_mono) (use mb in auto)
      then show ?thesis using maj by simp
    qed
    then have "d \<le> b - a"
      using median.stat_majority [of "map (\<lambda>v. \<bar>v - m\<bar>) ?us" d 0 "b - a"] full m
      by (simp add: MAD_def)
    then have "10 * (madToStd * d) \<le> 10 * (madToStd * (b - a))" by (simp add: madToStd_def)
    then show ?thesis using full m mb ab by auto
  qed
  ultimately show ?thesis by simp
qed

theorem GuardServedVWAP_resists_minority_witness:
  "(11 :: rat) \<le> max (10 * 6) (6 + 10 * (madToStd * (6 - 4)))"
  by (rule GuardServedVWAP_resists_minority [of "[Some 4, Some 900, Some 5, Some 6, Some 5]" 4 6 11])
    code_simp+

end
