(* ===== verification/GoText.thy ===== *)
theory GoText
  imports SI_Prelude
begin

text \<open>
  Decimal text of the Go standard library as the sources use it: \<open>(*big.Int).String\<close>,
  \<open>(*big.Int).SetString(s, 10)\<close>, the string helpers of package \<open>strings\<close>, and the fact that
  printing and parsing an integer are inverse.
\<close>

section \<open>Decimal integers\<close>

definition digit_char :: "nat \<Rightarrow> char" where
  "digit_char d = char_of (48 + d)"

definition is_digit_char :: "char \<Rightarrow> bool" where
  "is_digit_char c = (48 \<le> (of_char c :: nat) \<and> (of_char c :: nat) \<le> 57)"

definition digit_value :: "char \<Rightarrow> nat" where
  "digit_value c = of_char c - 48"

fun nat_String :: "nat \<Rightarrow> string" where
  "nat_String n = (if n < 10 then [digit_char n] else nat_String (n div 10) @ [digit_char (n mod 10)])"

declare nat_String.simps [simp del]

definition int_String :: "int \<Rightarrow> string" where
  "int_String i = (if i < 0 then CHR ''-'' # nat_String (nat (- i)) else nat_String (nat i))"

definition parse_nat :: "string \<Rightarrow> nat option" where
  "parse_nat s =
     (if s \<noteq> [] \<and> list_all is_digit_char s
      then Some (foldl (\<lambda>n c. 10 * n + digit_value c) 0 s) else None)"

text \<open>\<open>new(big.Int).SetString(s, 10)\<close>: an optional sign, then at least one decimal digit.\<close>

definition SetString10 :: "string \<Rightarrow> int option" where
  "SetString10 s =
     (case s of
        [] \<Rightarrow> None
      | c # r \<Rightarrow>
          if c = CHR ''-'' then map_option (\<lambda>n. - int n) (parse_nat r)
          else if c = CHR ''+'' then map_option int (parse_nat r)
          else map_option int (parse_nat s))"

section \<open>Package strings\<close>

definition HasPrefix :: "string \<Rightarrow> string \<Rightarrow> bool" where
  "HasPrefix s p = (take (length p) s = p)"

text \<open>\<open>strings.CutPrefix\<close>: the rest after the prefix, when it is there.\<close>

definition CutPrefix :: "string \<Rightarrow> string \<Rightarrow> string option" where
  "CutPrefix s p = (if HasPrefix s p then Some (drop (length p) s) else None)"

text \<open>\<open>strings.IndexAny\<close>: the position of the first character of \<open>s\<close> that is one of \<open>cs\<close>.\<close>

fun IndexAny :: "string \<Rightarrow> string \<Rightarrow> nat option" where
  "IndexAny [] cs = None"
| "IndexAny (c # s) cs = (if c \<in> set cs then Some 0 else map_option Suc (IndexAny s cs))"

text \<open>\<open>strings.LastIndex\<close> for a one-character separator.\<close>

fun LastIndex :: "string \<Rightarrow> char \<Rightarrow> nat option" where
  "LastIndex [] c = None"
| "LastIndex (x # s) c =
     (case LastIndex s c of Some i \<Rightarrow> Some (Suc i) | None \<Rightarrow> if x = c then Some 0 else None)"

text \<open>ASCII lower case; \<open>strings.EqualFold\<close> against a literal whose letters fold only within ASCII.\<close>

definition ascii_lower :: "char \<Rightarrow> char" where
  "ascii_lower c =
     (if 65 \<le> (of_char c :: nat) \<and> (of_char c :: nat) \<le> 90 then char_of ((of_char c :: nat) + 32) else c)"

definition EqualFold :: "string \<Rightarrow> string \<Rightarrow> bool" where
  "EqualFold s t = (map ascii_lower s = map ascii_lower t)"

text \<open>\<open>strings.TrimSpace\<close> on ASCII text.\<close>

definition space_char :: "char \<Rightarrow> bool" where
  "space_char c = (let n = (of_char c :: nat) in n = 32 \<or> (9 \<le> n \<and> n \<le> 13))"

definition TrimSpace :: "string \<Rightarrow> string" where
  "TrimSpace s = rev (dropWhile space_char (rev (dropWhile space_char s)))"

section \<open>Lemmas\<close>

lemma digit_char_range: "d < 10 \<Longrightarrow> is_digit_char (digit_char d)"
  by (simp add: is_digit_char_def digit_char_def)

lemma digit_value_char [simp]: "d < 10 \<Longrightarrow> digit_value (digit_char d) = d"
  by (simp add: digit_value_def digit_char_def)

lemma nat_String_digits: "list_all is_digit_char (nat_String n)"
proof (induction n rule: nat_String.induct)
  case (1 n)
  then show ?case by (subst nat_String.simps) (auto simp: digit_char_range)
qed

lemma nat_String_nonempty [simp]: "nat_String n \<noteq> []"
  by (subst nat_String.simps) simp

lemma nat_String_value: "foldl (\<lambda>m c. 10 * m + digit_value c) 0 (nat_String n) = n"
proof (induction n rule: nat_String.induct)
  case (1 n)
  then show ?case by (subst nat_String.simps) auto
qed

lemma parse_nat_String [simp]: "parse_nat (nat_String n) = Some n"
  by (simp add: parse_nat_def nat_String_digits nat_String_value)

lemma nat_String_hd: "\<exists>c r. nat_String n = c # r \<and> is_digit_char c"
  using nat_String_digits [of n] by (cases "nat_String n") auto

lemma SetString10_nat_String: "SetString10 (nat_String n) = Some (int n)"
proof -
  obtain c r where c: "nat_String n = c # r" "is_digit_char c" using nat_String_hd by blast
  then have "c \<noteq> CHR ''-''" "c \<noteq> CHR ''+''" by (auto simp: is_digit_char_def)
  then have "SetString10 (c # r) = map_option int (parse_nat (c # r))" by (simp add: SetString10_def)
  then show ?thesis using parse_nat_String [of n] by (simp add: c)
qed

lemma SetString10_int_String: "SetString10 (int_String i) = Some i"
  by (cases "i < 0") (auto simp: int_String_def SetString10_nat_String SetString10_def [of "CHR ''-'' # _"])

lemma int_String_inject: "int_String i = int_String j \<longleftrightarrow> i = j"
  by (metis option.inject SetString10_int_String)

lemma length_nat_String: "n < 10 ^ k \<Longrightarrow> 0 < k \<Longrightarrow> length (nat_String n) \<le> k"
proof (induction n arbitrary: k rule: nat_String.induct)
  case (1 n)
  show ?case
  proof (cases "n < 10")
    case True
    then show ?thesis using 1 by (subst nat_String.simps) simp
  next
    case False
    obtain k' where k': "k = Suc k'" using 1(3) by (cases k) auto
    then have k: "k = Suc k'" "0 < k'" using False 1(2) by (cases k'; simp)+
    then have "n div 10 < 10 ^ k'" using 1(2) by (simp add: less_mult_imp_div_less mult.commute)
    then show ?thesis using False 1(1) [OF False _ k(2)] k
      by (subst nat_String.simps) simp
  qed
qed

lemma length_int_String:
  assumes "\<bar>i\<bar> < 10 ^ k" "0 < k"
  shows "length (int_String i) \<le> Suc k"
proof -
  have "int (nat \<bar>i\<bar>) < int (10 ^ k)" using assms(1) by simp
  then have "nat \<bar>i\<bar> < 10 ^ k" by (simp only: of_nat_less_iff)
  from length_nat_String [OF this assms(2)] show ?thesis by (auto simp: int_String_def)
qed

lemma HasPrefix_append [simp]: "HasPrefix (p @ s) p"
  by (simp add: HasPrefix_def)

lemma CutPrefix_append [simp]: "CutPrefix (p @ s) p = Some s"
  by (simp add: CutPrefix_def)

lemma IndexAny_skip: "set xs \<inter> set cs = {} \<Longrightarrow> c \<in> set cs \<Longrightarrow> IndexAny (xs @ c # ys) cs = Some (length xs)"
  by (induction xs) auto

lemma LastIndex_None: "LastIndex s c = None \<longleftrightarrow> c \<notin> set s"
  by (induction s) (auto split: option.splits)

lemma LastIndex_split: "c \<notin> set ys \<Longrightarrow> LastIndex (xs @ c # ys) c = Some (length xs)"
  by (induction xs) (auto simp: LastIndex_None [THEN iffD2])

end
