(* ===== verification/Amounts.thy ===== *)
theory Amounts
  imports GoText
begin

text \<open>
  \<open>internal/canonical/amount.go\<close> and the error taxonomy of \<open>errors.go\<close>: the precision-safe
  wrapper of every token quantity, its reconstruction from Soroban's 64-bit words, and its text,
  JSON and SQL forms. JSON and SQL inputs are modelled after decoding by \<open>encoding/json\<close> and
  \<open>database/sql\<close>: the kind of the value and its text.
\<close>

section \<open>errors.go\<close>

datatype sentinel = ErrInvalidAmount | ErrI128Overflow | ErrUnknownAsset | ErrPairMismatch
  | ErrInvalidAsset | ErrInvalidStrkey | ErrInvalidTrade | ErrInvalidOracle

text \<open>
  An error value is the list of sentinels it wraps, outermost first, which is what \<open>errors.Is\<close>
  sees; the message text is not modelled. An empty list is an error that wraps no sentinel.
\<close>

type_synonym error = "sentinel list"

definition errors_Is :: "error \<Rightarrow> sentinel \<Rightarrow> bool" where
  "errors_Is e s = (s \<in> set e)"

section \<open>amount.go\<close>

record Amount =
  amt_value :: "int option"

definition NewAmount :: "int option \<Rightarrow> Amount" where
  "NewAmount v = (case v of None \<Rightarrow> \<lparr>amt_value = Some 0\<rparr> | Some x \<Rightarrow> \<lparr>amt_value = Some x\<rparr>)"

definition FromInt128Parts :: "64 word \<Rightarrow> 64 word \<Rightarrow> Amount" where
  "FromInt128Parts hi lo = \<lparr>amt_value = Some (sint hi * 2 ^ 64 + uint lo)\<rparr>"

definition FromUInt128Parts :: "64 word \<Rightarrow> 64 word \<Rightarrow> Amount" where
  "FromUInt128Parts hi lo = \<lparr>amt_value = Some (uint hi * 2 ^ 64 + uint lo)\<rparr>"

definition FromUInt256Parts :: "64 word \<Rightarrow> 64 word \<Rightarrow> 64 word \<Rightarrow> 64 word \<Rightarrow> Amount" where
  "FromUInt256Parts hiHi hiLo loHi loLo =
     (let r = uint hiHi; r = r * 2 ^ 64 + uint hiLo; r = r * 2 ^ 64 + uint loHi;
          r = r * 2 ^ 64 + uint loLo
      in \<lparr>amt_value = Some r\<rparr>)"

definition FromInt256Parts :: "64 word \<Rightarrow> 64 word \<Rightarrow> 64 word \<Rightarrow> 64 word \<Rightarrow> Amount" where
  "FromInt256Parts hiHi hiLo loHi loLo =
     (let r = sint hiHi; r = r * 2 ^ 64 + uint hiLo; r = r * 2 ^ 64 + uint loHi;
          r = r * 2 ^ 64 + uint loLo
      in \<lparr>amt_value = Some r\<rparr>)"

definition MaxAmountStringLen :: nat where
  "MaxAmountStringLen = 512"

definition FromString :: "string \<Rightarrow> error + Amount" where
  "FromString s =
     (if s = [] then Inr \<lparr>amt_value = Some 0\<rparr>
      else if MaxAmountStringLen < length s then Inl [ErrInvalidAmount]
      else case SetString10 s of
        None \<Rightarrow> Inl [ErrInvalidAmount]
      | Some v \<Rightarrow> Inr \<lparr>amt_value = Some v\<rparr>)"

definition BigInt :: "Amount \<Rightarrow> int" where
  "BigInt a = (case amt_value a of None \<Rightarrow> 0 | Some v \<Rightarrow> v)"

definition Amount_String :: "Amount \<Rightarrow> string" where
  "Amount_String a = (case amt_value a of None \<Rightarrow> ''0'' | Some v \<Rightarrow> int_String v)"

definition Amount_IsZero :: "Amount \<Rightarrow> bool" where
  "Amount_IsZero a = (case amt_value a of None \<Rightarrow> True | Some v \<Rightarrow> sgn v = 0)"

definition Amount_Sign :: "Amount \<Rightarrow> int" where
  "Amount_Sign a = (case amt_value a of None \<Rightarrow> 0 | Some v \<Rightarrow> sgn v)"

definition Amount_Cmp :: "Amount \<Rightarrow> Amount \<Rightarrow> int" where
  "Amount_Cmp a b =
     (if BigInt a < BigInt b then -1 else if BigInt a = BigInt b then 0 else 1)"

definition Amount_Equal :: "Amount \<Rightarrow> Amount \<Rightarrow> bool" where
  "Amount_Equal a b = (Amount_Cmp a b = 0)"

text \<open>A JSON value as \<open>json.Unmarshal\<close> hands it to the two attempts of \<open>UnmarshalJSON\<close>.\<close>

datatype json_value = JNull | JString string | JNumber string | JOther

definition Amount_MarshalJSON :: "Amount \<Rightarrow> json_value" where
  "Amount_MarshalJSON a = JString (Amount_String a)"

definition Amount_UnmarshalJSON :: "json_value \<Rightarrow> error + Amount" where
  "Amount_UnmarshalJSON b =
     (case b of
        JNull \<Rightarrow> Inl [ErrInvalidAmount]
      | JString s \<Rightarrow> FromString s
      | JNumber n \<Rightarrow> FromString n
      | JOther \<Rightarrow> Inl [ErrInvalidAmount])"

datatype sql_value = SqlNull | SqlString string | SqlBytes string | SqlInt64 "64 word" | SqlOther

definition Amount_Value :: "Amount \<Rightarrow> sql_value" where
  "Amount_Value a = SqlString (Amount_String a)"

definition Amount_Scan :: "sql_value \<Rightarrow> error + Amount" where
  "Amount_Scan src =
     (case src of
        SqlNull \<Rightarrow> Inl [ErrInvalidAmount]
      | SqlString s \<Rightarrow> FromString s
      | SqlBytes s \<Rightarrow> FromString s
      | SqlInt64 v \<Rightarrow> Inr \<lparr>amt_value = Some (sint v)\<rparr>
      | SqlOther \<Rightarrow> Inl [ErrInvalidAmount])"

section \<open>Words\<close>

lemma uint64_range: "0 \<le> uint (w :: 64 word)" "uint (w :: 64 word) < 2 ^ 64"
  using uint_lt2p [of w] by simp_all

lemma sint64_range: "- (2 ^ 63) \<le> sint (w :: 64 word)" "sint (w :: 64 word) < 2 ^ 63"
  using sint_range_size [of w] by (simp_all add: word_size)

lemma int128_range:
  fixes h l :: int
  assumes "- (2 ^ 63) \<le> h" "h < 2 ^ 63" "0 \<le> l" "l < 2 ^ 64"
  shows "- (2 ^ 127) \<le> h * 2 ^ 64 + l \<and> h * 2 ^ 64 + l < 2 ^ 127"
  using assms by auto

lemma split64_unique:
  fixes a b :: int
  assumes "a * 2 ^ 64 + uint (l :: 64 word) = b * 2 ^ 64 + uint (m :: 64 word)"
  shows "a = b \<and> l = m"
proof -
  have "(a * 2 ^ 64 + uint l) div 2 ^ 64 = a" "(b * 2 ^ 64 + uint m) div 2 ^ 64 = b"
    using uint64_range [of l] uint64_range [of m] by simp_all
  then have "a = b" using assms by simp
  then show ?thesis using assms by (simp add: word_uint_eq_iff)
qed

lemma sint64_eq_iff: "sint (a :: 64 word) = sint b \<longleftrightarrow> a = b"
proof
  assume "sint a = sint b"
  then have "(of_int (sint a) :: 64 word) = of_int (sint b)" by simp
  then show "a = b" by simp
qed simp

lemma BigInt_simps [simp]:
  "BigInt \<lparr>amt_value = Some v\<rparr> = v" "BigInt \<lparr>amt_value = None\<rparr> = 0"
  "BigInt (NewAmount (Some v)) = v" "BigInt (NewAmount None) = 0"
  by (simp_all add: BigInt_def NewAmount_def)

lemma Amount_Sign_BigInt: "Amount_Sign a = sgn (BigInt a)"
  by (simp add: Amount_Sign_def BigInt_def split: option.splits)

lemma FromString_Amount_String:
  assumes "length (Amount_String a) \<le> MaxAmountStringLen"
  shows "FromString (Amount_String a) = Inr \<lparr>amt_value = Some (BigInt a)\<rparr>"
proof (cases "amt_value a")
  case None
  then show ?thesis by (simp add: Amount_String_def BigInt_def) code_simp
next
  case (Some v)
  have "int_String v \<noteq> []" by (simp add: int_String_def)
  then show ?thesis using Some assms
    by (simp add: FromString_def Amount_String_def BigInt_def SetString10_int_String)
qed

section \<open>Properties\<close>

text \<open>
  The i128 reconstruction is exact: the value is the two's complement reading of the 128-bit
  concatenation of the words, so it lies in the signed 128-bit range, and different words give
  different amounts (nothing is truncated to 64 bits).
\<close>

theorem FromInt128Parts_exact:
  "BigInt (FromInt128Parts hi lo) = sint (word_cat hi lo :: 128 word) \<and>
   - (2 ^ 127) \<le> BigInt (FromInt128Parts hi lo) \<and> BigInt (FromInt128Parts hi lo) < 2 ^ 127 \<and>
   (Amount_Equal (FromInt128Parts hi lo) (FromInt128Parts hi' lo') = (hi = hi' \<and> lo = lo'))"
proof -
  let ?v = "sint hi * 2 ^ 64 + uint lo"
  have range: "- (2 ^ 127) \<le> ?v" "?v < 2 ^ 127"
    using int128_range [OF sint64_range uint64_range] by blast+
  have hi_mod: "sint hi mod 2 ^ 64 = uint hi"
    using uint_sint [of hi] by (simp add: take_bit_eq_mod)
  have cat: "(word_cat hi lo :: 128 word) = word_of_int (uint hi * 2 ^ 64 + uint lo)"
    using uint64_range [of lo]
    by (simp add: word_cat_eq' concat_bit_eq push_bit_eq_mult take_bit_eq_mod)
  have "?v = (uint hi * 2 ^ 64 + uint lo) + (sint hi div 2 ^ 64) * 2 ^ 128"
    using hi_mod div_mult_mod_eq [of "sint hi" "2 ^ 64"] by simp
  then have "take_bit 128 ?v = take_bit 128 (uint hi * 2 ^ 64 + uint lo)"
    by (simp only: take_bit_eq_mod mod_mult_self1)
  then have "(word_cat hi lo :: 128 word) = word_of_int ?v"
    unfolding cat by (subst word_of_int_eq_iff) simp
  then have "sint (word_cat hi lo :: 128 word) = signed_take_bit 127 ?v"
    by (simp only: signed_of_int) simp
  then have "sint (word_cat hi lo :: 128 word) = ?v"
    using range by (simp only: signed_take_bit_int_eq_self)
  then show ?thesis
    using range split64_unique [of "sint hi" lo "sint hi'" lo']
    by (auto simp: FromInt128Parts_def Amount_Equal_def Amount_Cmp_def sint64_eq_iff split: if_splits)
qed

text \<open>
  Every amount of at most 511 decimal digits (far beyond 256 bits) survives the JSON and the SQL
  wire form unchanged: both directions are total there and give back an equal amount.
\<close>

theorem Amount_wire_roundtrip:
  assumes "\<bar>BigInt a\<bar> < 10 ^ 511"
  shows "\<exists>b. Amount_UnmarshalJSON (Amount_MarshalJSON a) = Inr b \<and> Amount_Scan (Amount_Value a) = Inr b \<and>
    Amount_Equal a b"
proof -
  have "length (Amount_String a) \<le> MaxAmountStringLen"
  proof (cases "amt_value a")
    case None
    then show ?thesis by (simp add: Amount_String_def MaxAmountStringLen_def)
  next
    case (Some v)
    then have "BigInt a = v" by (simp add: BigInt_def)
    then have "\<bar>v\<bar> < 10 ^ 511" using assms by (simp only:)
    from length_int_String [OF this] Some show ?thesis
      by (simp add: Amount_String_def MaxAmountStringLen_def)
  qed
  from FromString_Amount_String [OF this] show ?thesis
    by (simp add: Amount_UnmarshalJSON_def Amount_MarshalJSON_def Amount_Scan_def Amount_Value_def
        Amount_Equal_def Amount_Cmp_def)
qed

theorem Amount_wire_roundtrip_witness:
  "\<exists>b. Amount_UnmarshalJSON (Amount_MarshalJSON (FromInt128Parts (-1) 7)) = Inr b \<and>
     Amount_Scan (Amount_Value (FromInt128Parts (-1) 7)) = Inr b \<and>
     Amount_Equal (FromInt128Parts (-1) 7) b"
proof (rule Amount_wire_roundtrip)
  have "\<bar>BigInt (FromInt128Parts (-1) 7)\<bar> < 10 ^ 20" by (simp add: FromInt128Parts_def)
  also have "(10 :: int) ^ 20 \<le> 10 ^ 511" by (rule power_increasing) simp_all
  finally show "\<bar>BigInt (FromInt128Parts (-1) 7)\<bar> < 10 ^ 511" .
qed

end
