(* ===== verification/Assets.thy ===== *)
theory Assets
  imports Amounts
begin

text \<open>
  Asset identity (\<open>internal/canonical/asset.go\<close>, \<open>asset_fiat.go\<close>, \<open>asset_crypto.go\<close>,
  \<open>asset_rwa.go\<close>, \<open>asset_raw.go\<close>, \<open>asset_xdr.go\<close>, \<open>strkey.go\<close>): the seven asset shapes, their
  validators, the wire identifier and its parser. The Stellar SDK (strkey codec, XDR asset and its
  contract id) is a parameter, the record \<open>sdk\<close>; what the theorems need of it is \<open>strkey_ok\<close>,
  SEP-23's alphabet and length of a strkey. \<open>asset_identity\<close> is the central property.
\<close>

section \<open>The SDK, a parameter\<close>

datatype version_byte = VersionByteAccountID | VersionByteContract | VersionByteMuxedAccount
  | VersionByteMuxedContract | VersionByteClaimableBalance | VersionByteLiquidityPool

text \<open>The union of the XDR schema: code bytes (zero padded) and the 32 bytes of the issuer key.\<close>

datatype xdr_Asset = XdrNative | XdrAlphaNum4 string string | XdrAlphaNum12 string string
  | XdrOtherAsset nat

record sdk =
  strkey_Decode :: "version_byte \<Rightarrow> string \<Rightarrow> string option"
  strkey_Encode :: "version_byte \<Rightarrow> string \<Rightarrow> string option"
  xdr_NewCreditAsset :: "string \<Rightarrow> string \<Rightarrow> xdr_Asset option"
  xdr_ContractID :: "xdr_Asset \<Rightarrow> string \<Rightarrow> string option"

definition base32_char :: "char \<Rightarrow> bool" where
  "base32_char c =
     ((65 \<le> (of_char c :: nat) \<and> (of_char c :: nat) \<le> 90) \<or>
      (50 \<le> (of_char c :: nat) \<and> (of_char c :: nat) \<le> 55))"

text \<open>SEP-23: a strkey is base32 text, and account and contract strkeys have 56 characters.\<close>

definition strkey_ok :: "sdk \<Rightarrow> bool" where
  "strkey_ok k \<longleftrightarrow>
     (\<forall>v s. strkey_Decode k v s \<noteq> None \<longrightarrow> list_all base32_char s) \<and>
     (\<forall>v s. v \<in> {VersionByteAccountID, VersionByteContract} \<longrightarrow> strkey_Decode k v s \<noteq> None \<longrightarrow>
        length s = 56)"

section \<open>strkey.go\<close>

definition IsAccountID :: "sdk \<Rightarrow> string \<Rightarrow> bool" where
  "IsAccountID k s = (strkey_Decode k VersionByteAccountID s \<noteq> None)"

definition IsContractID :: "sdk \<Rightarrow> string \<Rightarrow> bool" where
  "IsContractID k s = (strkey_Decode k VersionByteContract s \<noteq> None)"

definition IsMuxedAccount :: "sdk \<Rightarrow> string \<Rightarrow> bool" where
  "IsMuxedAccount k s = (strkey_Decode k VersionByteMuxedAccount s \<noteq> None)"

definition MuxedAccountID :: "sdk \<Rightarrow> string \<Rightarrow> string option" where
  "MuxedAccountID k m =
     (case strkey_Decode k VersionByteMuxedAccount m of
        None \<Rightarrow> None
      | Some raw \<Rightarrow> if length raw < 32 then None else strkey_Encode k VersionByteAccountID (take 32 raw))"

definition IsMuxedContract :: "sdk \<Rightarrow> string \<Rightarrow> bool" where
  "IsMuxedContract k s = (strkey_Decode k VersionByteMuxedContract s \<noteq> None)"

definition MuxedContractID :: "sdk \<Rightarrow> string \<Rightarrow> string option" where
  "MuxedContractID k w =
     (case strkey_Decode k VersionByteMuxedContract w of
        None \<Rightarrow> None
      | Some raw \<Rightarrow> if length raw < 32 then None else strkey_Encode k VersionByteContract (take 32 raw))"

definition IsClaimableBalance :: "sdk \<Rightarrow> string \<Rightarrow> bool" where
  "IsClaimableBalance k s = (strkey_Decode k VersionByteClaimableBalance s \<noteq> None)"

definition IsLiquidityPool :: "sdk \<Rightarrow> string \<Rightarrow> bool" where
  "IsLiquidityPool k s = (strkey_Decode k VersionByteLiquidityPool s \<noteq> None)"

definition IsAnyHolder :: "sdk \<Rightarrow> string \<Rightarrow> bool" where
  "IsAnyHolder k s =
     (IsAccountID k s \<or> IsContractID k s \<or> IsMuxedAccount k s \<or>
      IsClaimableBalance k s \<or> IsLiquidityPool k s)"

definition validateAccountID :: "sdk \<Rightarrow> string \<Rightarrow> error option" where
  "validateAccountID k s = (if \<not> IsAccountID k s then Some [ErrInvalidStrkey] else None)"

definition validateAddress :: "sdk \<Rightarrow> string \<Rightarrow> error option" where
  "validateAddress k s = (if \<not> IsAnyHolder k s then Some [ErrInvalidStrkey] else None)"

definition validateContractID :: "sdk \<Rightarrow> string \<Rightarrow> error option" where
  "validateContractID k s = (if \<not> IsContractID k s then Some [ErrInvalidStrkey] else None)"

section \<open>asset.go: the data\<close>

text \<open>The type tag is a Go string; any value that is not one of the seven constants is the last one.\<close>

datatype AssetType = AssetNative | AssetClassic | AssetSoroban | AssetFiat | AssetCrypto | AssetRWA
  | AssetOracleRaw | AssetTypeUnknown string

record Asset =
  Type :: AssetType
  Code :: string
  Issuer :: string
  ContractID :: string

definition zeroAsset :: Asset where
  "zeroAsset = \<lparr>Type = AssetTypeUnknown [], Code = [], Issuer = [], ContractID = []\<rparr>"

definition NativeAsset :: Asset where
  "NativeAsset = zeroAsset\<lparr>Type := AssetNative\<rparr>"

definition alnum_char :: "char \<Rightarrow> bool" where
  "alnum_char c =
     ((97 \<le> (of_char c :: nat) \<and> (of_char c :: nat) \<le> 122) \<or>
      (65 \<le> (of_char c :: nat) \<and> (of_char c :: nat) \<le> 90) \<or>
      (48 \<le> (of_char c :: nat) \<and> (of_char c :: nat) \<le> 57))"

definition validateClassicAssetCode :: "string \<Rightarrow> error option" where
  "validateClassicAssetCode code =
     (let l = length code in
      if l = 0 \<or> 12 < l then Some [ErrInvalidAsset]
      else if \<not> list_all alnum_char code then Some [ErrInvalidAsset]
      else None)"

definition NewClassicAsset :: "sdk \<Rightarrow> string \<Rightarrow> string \<Rightarrow> error + Asset" where
  "NewClassicAsset k code issuer =
     (case validateClassicAssetCode code of
        Some e \<Rightarrow> Inl e
      | None \<Rightarrow>
          (case validateAccountID k issuer of
             Some e \<Rightarrow> Inl e
           | None \<Rightarrow> Inr (zeroAsset\<lparr>Type := AssetClassic, Code := code, Issuer := issuer\<rparr>)))"

definition NewSorobanAsset :: "sdk \<Rightarrow> string \<Rightarrow> error + Asset" where
  "NewSorobanAsset k contractID =
     (case validateContractID k contractID of
        Some e \<Rightarrow> Inl e
      | None \<Rightarrow> Inr (zeroAsset\<lparr>Type := AssetSoroban, ContractID := contractID\<rparr>))"

section \<open>The allow-lists\<close>

definition knownFiatCodes :: "string list" where
  "knownFiatCodes = [
    ''AED'', ''ALL'', ''ARS'', ''AUD'', ''AWG'', ''BAM'', ''BBD'', ''BDT'', ''BGN'', ''BHD'',
    ''BIF'', ''BND'', ''BOB'', ''BRL'', ''BSD'', ''BWP'', ''BZD'', ''CAD'', ''CDF'', ''CHF'',
    ''CLP'', ''CNH'', ''CNY'', ''COP'', ''CRC'', ''CUP'', ''CVE'', ''CYP'', ''CZK'', ''DJF'',
    ''DKK'', ''DOP'', ''DZD'', ''EEK'', ''EGP'', ''ETB'', ''EUR'', ''FJD'', ''GBP'', ''GHS'',
    ''GMD'', ''GNF'', ''GTQ'', ''GYD'', ''HKD'', ''HNL'', ''HRK'', ''HTG'', ''HUF'', ''IDR'',
    ''ILS'', ''INR'', ''IQD'', ''ISK'', ''JMD'', ''JPY'', ''KES'', ''KHR'', ''KMF'', ''KRW'',
    ''KWD'', ''KYD'', ''KZT'', ''LAK'', ''LBP'', ''LKR'', ''LRD'', ''LSL'', ''LTL'', ''LVL'',
    ''LYD'', ''MAD'', ''MDL'', ''MGA'', ''MKD'', ''MOP'', ''MTL'', ''MUR'', ''MVR'', ''MWK'',
    ''MXN'', ''MYR'', ''MZN'', ''NAD'', ''NGN'', ''NIO'', ''NOK'', ''NPR'', ''NZD'', ''OMR'',
    ''PAB'', ''PEN'', ''PGK'', ''PHP'', ''PKR'', ''PLN'', ''PYG'', ''QAR'', ''ROL'', ''RON'',
    ''RSD'', ''RUB'', ''RWF'', ''SAR'', ''SCR'', ''SDG'', ''SEK'', ''SGD'', ''SIT'', ''SKK'',
    ''SOS'', ''SVC'', ''SZL'', ''THB'', ''TJS'', ''TMT'', ''TND'', ''TRL'', ''TRY'', ''TTD'',
    ''TWD'', ''TZS'', ''UAH'', ''UGX'', ''USD'', ''UYU'', ''UZS'', ''VES'', ''VND'', ''XPF'',
    ''YER'', ''ZAR'', ''ZMW'']"

definition IsKnownFiat :: "string \<Rightarrow> bool" where
  "IsKnownFiat code = (code \<in> set knownFiatCodes)"

definition KnownFiatCodes :: "string list" where
  "KnownFiatCodes = sort knownFiatCodes"

definition NewFiatAsset :: "string \<Rightarrow> error + Asset" where
  "NewFiatAsset code =
     (if \<not> IsKnownFiat code then Inl [ErrInvalidAsset]
      else Inr (zeroAsset\<lparr>Type := AssetFiat, Code := code\<rparr>))"

definition knownCryptoCodes :: "string list" where
  "knownCryptoCodes = [
    ''ADA'', ''ATOM'', ''AVAX'', ''BCH'', ''BNB'', ''BTC'', ''DASH'', ''DOGE'', ''DOT'',
    ''ETH'', ''LINK'', ''LTC'', ''MATIC'', ''NEAR'', ''SHIB'', ''SOL'', ''TON'', ''TRX'',
    ''UNI'', ''USDC'', ''USDT'', ''XLM'', ''XRP'', ''DAI'', ''PYUSD'', ''USDP'', ''USDT0'',
    ''EURC'', ''EUROC'', ''EUROB'', ''MXNe'', ''SolvBTC'', ''SolvBTC_FUNDAMENTAL'',
    ''SolvBTC.BBN_FUNDAMENTAL'', ''USDe'', ''sUSDe'', ''savUSD_FUNDAMENTAL'',
    ''SolvBTC_FUNDAMENTAL_USD'', ''SolvBTC.BBN_FUNDAMENTAL_USD'']"

definition IsKnownCrypto :: "string \<Rightarrow> bool" where
  "IsKnownCrypto code = (code \<in> set knownCryptoCodes)"

definition NewCryptoAsset :: "string \<Rightarrow> error + Asset" where
  "NewCryptoAsset code =
     (if \<not> IsKnownCrypto code then Inl [ErrInvalidAsset]
      else Inr (zeroAsset\<lparr>Type := AssetCrypto, Code := code\<rparr>))"

definition knownRWACodes :: "string list" where
  "knownRWACodes = [
    ''BENJI'', ''iBENJI'', ''GILTS'', ''CETES'', ''KTB'', ''TESOURO'', ''USTRY'', ''SPXU'',
    ''USDY'', ''USST'', ''XAUm'', ''deJAAA'', ''deJTRSY'', ''XAU'']"

definition IsKnownRWA :: "string \<Rightarrow> bool" where
  "IsKnownRWA code = (code \<in> set knownRWACodes)"

definition KnownRWACodes :: "string list" where
  "KnownRWACodes = sort knownRWACodes"

definition NewRWAAsset :: "string \<Rightarrow> error + Asset" where
  "NewRWAAsset code =
     (if \<not> IsKnownRWA code then Inl [ErrInvalidAsset]
      else Inr (zeroAsset\<lparr>Type := AssetRWA, Code := code\<rparr>))"

section \<open>asset\_raw.go\<close>

definition rawSymbolMaxLen :: nat where
  "rawSymbolMaxLen = 64"

definition validateRawSymbol :: "string \<Rightarrow> error option" where
  "validateRawSymbol code =
     (let l = length code in
      if l = 0 \<or> rawSymbolMaxLen < l then Some [ErrInvalidAsset]
      else if \<not> list_all (\<lambda>c. 33 \<le> (of_char c :: nat) \<and> (of_char c :: nat) \<le> 126) code
      then Some [ErrInvalidAsset]
      else None)"

definition NewOracleRawAsset :: "string \<Rightarrow> error + Asset" where
  "NewOracleRawAsset symbol =
     (case validateRawSymbol symbol of
        Some e \<Rightarrow> Inl e
      | None \<Rightarrow> Inr (zeroAsset\<lparr>Type := AssetOracleRaw, Code := symbol\<rparr>))"

definition IsMapped :: "Asset \<Rightarrow> bool" where
  "IsMapped a = (Type a \<noteq> AssetOracleRaw)"

definition MapOracleSymbol :: "string \<Rightarrow> error + Asset" where
  "MapOracleSymbol symb =
     (if IsKnownFiat symb then NewFiatAsset symb
      else if IsKnownCrypto symb then NewCryptoAsset symb
      else if IsKnownRWA symb then NewRWAAsset symb
      else NewOracleRawAsset symb)"

section \<open>asset.go: the wire form\<close>

definition Asset_String :: "Asset \<Rightarrow> string" where
  "Asset_String a =
     (case Type a of
        AssetNative \<Rightarrow> ''native''
      | AssetClassic \<Rightarrow> Code a @ ''-'' @ Issuer a
      | AssetSoroban \<Rightarrow> ContractID a
      | AssetFiat \<Rightarrow> ''fiat:'' @ Code a
      | AssetCrypto \<Rightarrow> ''crypto:'' @ Code a
      | AssetRWA \<Rightarrow> ''rwa:'' @ Code a
      | AssetOracleRaw \<Rightarrow> ''raw:'' @ Code a
      | AssetTypeUnknown t \<Rightarrow> ''invalid-asset'')"

definition Asset_IsZero :: "Asset \<Rightarrow> bool" where
  "Asset_IsZero a = (Type a = AssetTypeUnknown [] \<and> Code a = [] \<and> Issuer a = [] \<and> ContractID a = [])"

definition Asset_Validate :: "sdk \<Rightarrow> Asset \<Rightarrow> error option" where
  "Asset_Validate k a =
     (case Type a of
        AssetNative \<Rightarrow>
          if Code a \<noteq> [] \<or> Issuer a \<noteq> [] \<or> ContractID a \<noteq> [] then Some [ErrInvalidAsset] else None
      | AssetClassic \<Rightarrow>
          if ContractID a \<noteq> [] then Some [ErrInvalidAsset]
          else (case validateClassicAssetCode (Code a) of
                  Some e \<Rightarrow> Some e
                | None \<Rightarrow> validateAccountID k (Issuer a))
      | AssetSoroban \<Rightarrow>
          if Code a \<noteq> [] \<or> Issuer a \<noteq> [] then Some [ErrInvalidAsset]
          else validateContractID k (ContractID a)
      | AssetFiat \<Rightarrow>
          if Issuer a \<noteq> [] \<or> ContractID a \<noteq> [] then Some [ErrInvalidAsset]
          else if \<not> IsKnownFiat (Code a) then Some [ErrInvalidAsset] else None
      | AssetCrypto \<Rightarrow>
          if Issuer a \<noteq> [] \<or> ContractID a \<noteq> [] then Some [ErrInvalidAsset]
          else if \<not> IsKnownCrypto (Code a) then Some [ErrInvalidAsset] else None
      | AssetRWA \<Rightarrow>
          if Issuer a \<noteq> [] \<or> ContractID a \<noteq> [] then Some [ErrInvalidAsset]
          else if \<not> IsKnownRWA (Code a) then Some [ErrInvalidAsset] else None
      | AssetOracleRaw \<Rightarrow>
          if Issuer a \<noteq> [] \<or> ContractID a \<noteq> [] then Some [ErrInvalidAsset]
          else validateRawSymbol (Code a)
      | AssetTypeUnknown t \<Rightarrow> Some [ErrInvalidAsset])"

definition Asset_Equal :: "Asset \<Rightarrow> Asset \<Rightarrow> bool" where
  "Asset_Equal a b =
     (Type a = Type b \<and> Code a = Code b \<and> Issuer a = Issuer b \<and> ContractID a = ContractID b)"

text \<open>The loop over the three allow-listed prefixes: the first that matches decides.\<close>

fun prefix_dispatch :: "sdk \<Rightarrow> string \<Rightarrow> (string \<times> (string \<Rightarrow> error + Asset)) list \<Rightarrow> (error + Asset) option" where
  "prefix_dispatch k s [] = None"
| "prefix_dispatch k s ((p, ctor) # ps) =
     (case CutPrefix s p of
        Some rest \<Rightarrow> if \<not> IsAccountID k rest then Some (ctor rest) else prefix_dispatch k s ps
      | None \<Rightarrow> prefix_dispatch k s ps)"

definition ParseAsset :: "sdk \<Rightarrow> string \<Rightarrow> error + Asset" where
  "ParseAsset k s =
     (if s = [] then Inl [ErrInvalidAsset]
      else if s = ''native'' then Inr NativeAsset
      else if EqualFold s ''XLM'' \<or> EqualFold s ''native'' then Inr NativeAsset
      else case prefix_dispatch k s
             [(''fiat:'', NewFiatAsset), (''crypto:'', NewCryptoAsset), (''rwa:'', NewRWAAsset)] of
        Some r \<Rightarrow> r
      | None \<Rightarrow>
          (case CutPrefix s ''raw:'' of
             Some rest \<Rightarrow> NewOracleRawAsset rest
           | None \<Rightarrow>
               if IsContractID k s then NewSorobanAsset k s
               else case IndexAny s ''-:'' of
                 Some sep \<Rightarrow>
                   if 0 < sep \<and> sep < length s - 1
                   then NewClassicAsset k (take sep s) (drop (Suc sep) s)
                   else Inl [ErrInvalidAsset]
               | None \<Rightarrow> Inl [ErrInvalidAsset]))"

text \<open>JSON input of an asset: the string form, the object form (its decoded fields), null or other.\<close>

datatype asset_json = AJString string | AJObject Asset | AJNull | AJOther

definition Asset_MarshalJSON :: "Asset \<Rightarrow> asset_json" where
  "Asset_MarshalJSON a = AJString (Asset_String a)"

text \<open>\<open>json.Unmarshal\<close> of null into a string succeeds and leaves it empty.\<close>

definition Asset_UnmarshalJSON :: "sdk \<Rightarrow> asset_json \<Rightarrow> error + Asset" where
  "Asset_UnmarshalJSON k b =
     (case b of
        AJString s \<Rightarrow> ParseAsset k s
      | AJNull \<Rightarrow> ParseAsset k []
      | AJObject r \<Rightarrow> (case Asset_Validate k r of Some e \<Rightarrow> Inl e | None \<Rightarrow> Inr r)
      | AJOther \<Rightarrow> Inl [ErrInvalidAsset])"

definition Asset_Value :: "sdk \<Rightarrow> Asset \<Rightarrow> error + sql_value" where
  "Asset_Value k a =
     (case Asset_Validate k a of Some e \<Rightarrow> Inl e | None \<Rightarrow> Inr (SqlString (Asset_String a)))"

definition Asset_Scan :: "sdk \<Rightarrow> sql_value \<Rightarrow> error + Asset" where
  "Asset_Scan k src =
     (case src of
        SqlNull \<Rightarrow> Inl [ErrInvalidAsset]
      | SqlString s \<Rightarrow> ParseAsset k s
      | SqlBytes s \<Rightarrow> ParseAsset k s
      | _ \<Rightarrow> Inl [ErrInvalidAsset])"

section \<open>asset\_xdr.go\<close>

definition TrimTrailingNulls :: "string \<Rightarrow> string" where
  "TrimTrailingNulls b = rev (dropWhile (\<lambda>c. (of_char c :: nat) = 0) (rev b))"

definition AssetFromXDR :: "sdk \<Rightarrow> xdr_Asset \<Rightarrow> error + Asset" where
  "AssetFromXDR k a =
     (case a of
        XdrNative \<Rightarrow> Inr NativeAsset
      | XdrAlphaNum4 code issuer \<Rightarrow>
          (case strkey_Encode k VersionByteAccountID issuer of
             None \<Rightarrow> Inl []
           | Some g \<Rightarrow> NewClassicAsset k (TrimTrailingNulls code) g)
      | XdrAlphaNum12 code issuer \<Rightarrow>
          (case strkey_Encode k VersionByteAccountID issuer of
             None \<Rightarrow> Inl []
           | Some g \<Rightarrow> NewClassicAsset k (TrimTrailingNulls code) g)
      | XdrOtherAsset n \<Rightarrow> Inl [])"

section \<open>Lemmas on the allow-lists and validators\<close>

definition short_code :: "string \<Rightarrow> bool" where
  "short_code c = (length c < 56 \<and> CHR ''/'' \<notin> set c \<and> CHR 0x00 \<notin> set c)"

lemma fiat_codes_short: "IsKnownFiat c \<Longrightarrow> short_code c"
proof -
  have "list_all short_code knownFiatCodes" by code_simp
  then show "IsKnownFiat c \<Longrightarrow> short_code c" by (auto simp: IsKnownFiat_def list_all_iff)
qed

lemma crypto_codes_short: "IsKnownCrypto c \<Longrightarrow> short_code c"
proof -
  have "list_all short_code knownCryptoCodes" by code_simp
  then show "IsKnownCrypto c \<Longrightarrow> short_code c" by (auto simp: IsKnownCrypto_def list_all_iff)
qed

lemma rwa_codes_short: "IsKnownRWA c \<Longrightarrow> short_code c"
proof -
  have "list_all short_code knownRWACodes" by code_simp
  then show "IsKnownRWA c \<Longrightarrow> short_code c" by (auto simp: IsKnownRWA_def list_all_iff)
qed

lemma IsAccountID_strkey:
  "strkey_ok k \<Longrightarrow> IsAccountID k s \<Longrightarrow> list_all base32_char s \<and> length s = 56"
  unfolding strkey_ok_def IsAccountID_def by blast

lemma IsContractID_strkey:
  "strkey_ok k \<Longrightarrow> IsContractID k s \<Longrightarrow> list_all base32_char s \<and> length s = 56"
  unfolding strkey_ok_def IsContractID_def by blast

lemma short_not_account: "strkey_ok k \<Longrightarrow> short_code c \<Longrightarrow> \<not> IsAccountID k c"
  using IsAccountID_strkey by (auto simp: short_code_def)

lemma base32_excludes:
  "list_all base32_char s \<Longrightarrow> (of_char c :: nat) < 50 \<or> 58 \<le> (of_char c :: nat) \<and> (of_char c :: nat) < 65 \<Longrightarrow> c \<notin> set s"
  by (auto simp: list_all_iff base32_char_def)

lemma alnum_excludes:
  "list_all alnum_char s \<Longrightarrow> (of_char c :: nat) < 48 \<or> 58 \<le> (of_char c :: nat) \<and> (of_char c :: nat) < 65 \<Longrightarrow> c \<notin> set s"
  by (auto simp: list_all_iff alnum_char_def)

lemma HasPrefix_char: "HasPrefix s p \<Longrightarrow> c \<in> set p \<Longrightarrow> c \<in> set s"
  unfolding HasPrefix_def by (metis in_set_takeD)

lemma CutPrefix_missing: "c \<in> set p \<Longrightarrow> c \<notin> set s \<Longrightarrow> CutPrefix s p = None"
  using HasPrefix_char by (auto simp: CutPrefix_def)

lemma EqualFold_length: "EqualFold s t \<Longrightarrow> length s = length t"
  unfolding EqualFold_def by (metis length_map)

lemma EqualFold_dash: "CHR ''-'' \<in> set s \<Longrightarrow> \<not> EqualFold s ''XLM'' \<and> \<not> EqualFold s ''native''"
proof -
  have dash: "ascii_lower CHR ''-'' = CHR ''-''" by code_simp
  assume "CHR ''-'' \<in> set s"
  then have in_map: "CHR ''-'' \<in> set (map ascii_lower s)" using dash by (force simp: image_iff)
  have "CHR ''-'' \<notin> set (map ascii_lower ''XLM'')" "CHR ''-'' \<notin> set (map ascii_lower ''native'')"
    by code_simp+
  then show ?thesis using in_map unfolding EqualFold_def by metis
qed

lemma EqualFold_hd:
  "EqualFold (c # s) (d # t) \<Longrightarrow> ascii_lower c = ascii_lower d"
  by (simp add: EqualFold_def)

section \<open>Parsing each wire form\<close>

lemma parse_prefixed:
  assumes "\<not> IsAccountID k c"
  shows "ParseAsset k (''fiat:'' @ c) = NewFiatAsset c"
    and "ParseAsset k (''crypto:'' @ c) = NewCryptoAsset c"
    and "ParseAsset k (''rwa:'' @ c) = NewRWAAsset c"
  using assms by (simp_all add: ParseAsset_def EqualFold_def CutPrefix_def HasPrefix_def ascii_lower_def)

lemma parse_raw: "ParseAsset k (''raw:'' @ c) = NewOracleRawAsset c"
  by (simp add: ParseAsset_def EqualFold_def CutPrefix_def HasPrefix_def ascii_lower_def)

lemma parse_no_colon:
  assumes "CHR '':'' \<notin> set s" "s \<noteq> []" "s \<noteq> ''native''" "\<not> EqualFold s ''XLM''" "\<not> EqualFold s ''native''"
  shows "ParseAsset k s =
    (if IsContractID k s then NewSorobanAsset k s
     else case IndexAny s ''-:'' of
       Some sep \<Rightarrow> if 0 < sep \<and> sep < length s - 1
         then NewClassicAsset k (take sep s) (drop (Suc sep) s) else Inl [ErrInvalidAsset]
     | None \<Rightarrow> Inl [ErrInvalidAsset])"
  using assms CutPrefix_missing [of "CHR '':''" _ s] by (simp add: ParseAsset_def)

lemma parse_soroban:
  assumes "strkey_ok k" "IsContractID k s"
  shows "ParseAsset k s = NewSorobanAsset k s"
proof -
  have s: "list_all base32_char s" "length s = 56" using IsContractID_strkey [OF assms] by auto
  have "\<not> EqualFold s ''XLM''" "\<not> EqualFold s ''native''" using s(2) EqualFold_length by fastforce+
  moreover have "CHR '':'' \<notin> set s" by (rule base32_excludes [OF s(1)]) simp
  moreover have "s \<noteq> []" "s \<noteq> ''native''" using s(2) by auto
  ultimately show ?thesis using assms(2) by (simp add: parse_no_colon)
qed

lemma parse_classic:
  assumes "strkey_ok k" "validateClassicAssetCode code = None" "IsAccountID k issuer"
  shows "ParseAsset k (code @ ''-'' @ issuer) = NewClassicAsset k code issuer"
proof -
  let ?s = "code @ ''-'' @ issuer"
  have c: "list_all alnum_char code" "0 < length code"
    using assms(2) by (auto simp: validateClassicAssetCode_def Let_def split: if_splits)
  have i: "list_all base32_char issuer" "length issuer = 56" using IsAccountID_strkey [OF assms(1,3)] by auto
  have nc: "CHR '':'' \<notin> set code" "CHR ''-'' \<notin> set code" by (rule alnum_excludes [OF c(1)]; simp)+
  have ni: "CHR '':'' \<notin> set issuer" by (rule base32_excludes [OF i(1)]) simp
  have dash: "CHR ''-'' \<in> set ?s" by simp
  have "\<not> IsContractID k ?s"
  proof
    assume "IsContractID k ?s"
    then have "list_all base32_char ?s" using IsContractID_strkey [OF assms(1)] by blast
    from base32_excludes [OF this, of "CHR ''-''"] dash show False by simp
  qed
  moreover have "IndexAny ?s ''-:'' = Some (length code)" using nc by (auto intro!: IndexAny_skip)
  moreover have "?s \<noteq> ''native''" using dash by (metis (no_types, lifting) EqualFold_dash EqualFold_def)
  ultimately show ?thesis
    using nc ni c i EqualFold_dash [OF dash] by (subst parse_no_colon) auto
qed

section \<open>Properties of asset identity\<close>

lemma asset_parse_string:
  assumes "strkey_ok k" "Asset_Validate k a = None"
  shows "ParseAsset k (Asset_String a) = Inr a"
proof (cases "Type a")
  case AssetNative
  then show ?thesis using assms(2)
    by (simp add: Asset_Validate_def Asset_String_def ParseAsset_def NativeAsset_def zeroAsset_def split: if_splits)
next
  case AssetClassic
  then have v: "validateClassicAssetCode (Code a) = None" "IsAccountID k (Issuer a)" "ContractID a = []"
    using assms(2) by (auto simp: Asset_Validate_def validateAccountID_def split: if_splits option.splits)
  then show ?thesis using AssetClassic parse_classic [OF assms(1) v(1,2)]
    by (simp add: Asset_String_def NewClassicAsset_def validateAccountID_def zeroAsset_def)
next
  case AssetSoroban
  then have v: "IsContractID k (ContractID a)" "Code a = []" "Issuer a = []"
    using assms(2) by (auto simp: Asset_Validate_def validateContractID_def split: if_splits)
  then show ?thesis using AssetSoroban parse_soroban [OF assms(1) v(1)]
    by (simp add: Asset_String_def NewSorobanAsset_def validateContractID_def zeroAsset_def)
next
  case AssetFiat
  then have v: "IsKnownFiat (Code a)" "ContractID a = []" "Issuer a = []"
    using assms(2) by (auto simp: Asset_Validate_def split: if_splits)
  then show ?thesis
    using AssetFiat parse_prefixed(1) [OF short_not_account [OF assms(1) fiat_codes_short [OF v(1)]]]
    by (simp add: Asset_String_def NewFiatAsset_def zeroAsset_def)
next
  case AssetCrypto
  then have v: "IsKnownCrypto (Code a)" "ContractID a = []" "Issuer a = []"
    using assms(2) by (auto simp: Asset_Validate_def split: if_splits)
  then show ?thesis
    using AssetCrypto parse_prefixed(2) [OF short_not_account [OF assms(1) crypto_codes_short [OF v(1)]]]
    by (simp add: Asset_String_def NewCryptoAsset_def zeroAsset_def)
next
  case AssetRWA
  then have v: "IsKnownRWA (Code a)" "ContractID a = []" "Issuer a = []"
    using assms(2) by (auto simp: Asset_Validate_def split: if_splits)
  then show ?thesis
    using AssetRWA parse_prefixed(3) [OF short_not_account [OF assms(1) rwa_codes_short [OF v(1)]]]
    by (simp add: Asset_String_def NewRWAAsset_def zeroAsset_def)
next
  case AssetOracleRaw
  then have v: "validateRawSymbol (Code a) = None" "ContractID a = []" "Issuer a = []"
    using assms(2) by (auto simp: Asset_Validate_def split: if_splits)
  then show ?thesis using AssetOracleRaw
    by (simp add: Asset_String_def parse_raw [simplified] NewOracleRawAsset_def zeroAsset_def)
next
  case (AssetTypeUnknown t)
  then show ?thesis using assms(2) by (simp add: Asset_Validate_def)
qed

lemma constructors_valid:
  "NewClassicAsset k c i = Inr a \<Longrightarrow> Asset_Validate k a = None"
  "NewSorobanAsset k s = Inr a \<Longrightarrow> Asset_Validate k a = None"
  "NewFiatAsset s = Inr a \<Longrightarrow> Asset_Validate k a = None"
  "NewCryptoAsset s = Inr a \<Longrightarrow> Asset_Validate k a = None"
  "NewRWAAsset s = Inr a \<Longrightarrow> Asset_Validate k a = None"
  "NewOracleRawAsset s = Inr a \<Longrightarrow> Asset_Validate k a = None"
  subgoal by (auto simp: NewClassicAsset_def Asset_Validate_def zeroAsset_def split: option.splits)
  subgoal by (auto simp: NewSorobanAsset_def Asset_Validate_def zeroAsset_def split: option.splits)
  subgoal by (auto simp: NewFiatAsset_def Asset_Validate_def zeroAsset_def split: if_splits)
  subgoal by (auto simp: NewCryptoAsset_def Asset_Validate_def zeroAsset_def split: if_splits)
  subgoal by (auto simp: NewRWAAsset_def Asset_Validate_def zeroAsset_def split: if_splits)
  subgoal by (auto simp: NewOracleRawAsset_def Asset_Validate_def zeroAsset_def split: option.splits)
  done

lemma NativeAsset_valid: "Asset_Validate k NativeAsset = None"
  by (simp add: Asset_Validate_def NativeAsset_def zeroAsset_def)

lemma prefix_dispatch_valid:
  assumes "prefix_dispatch k s ps = Some (Inr a)"
    and "\<And>p ctor t b. (p, ctor) \<in> set ps \<Longrightarrow> ctor t = Inr b \<Longrightarrow> Asset_Validate k b = None"
  shows "Asset_Validate k a = None"
  using assms
proof (induction ps)
  case Nil
  then show ?case by simp
next
  case (Cons p ps)
  obtain q ctor where p: "p = (q, ctor)" by (cases p)
  show ?case
  proof (cases "\<exists>rest. CutPrefix s q = Some rest \<and> \<not> IsAccountID k rest")
    case True
    then obtain rest where "ctor rest = Inr a" using Cons.prems(1) by (auto simp: p)
    then show ?thesis using Cons.prems(2) [of q ctor] by (simp add: p)
  next
    case False
    then have "prefix_dispatch k s ps = Some (Inr a)" using Cons.prems(1)
      by (auto simp: p split: option.splits if_splits)
    then show ?thesis by (rule Cons.IH) (use Cons.prems(2) in \<open>auto simp: p\<close>)
  qed
qed

lemma parsed_asset_valid:
  assumes "ParseAsset k s = Inr a"
  shows "Asset_Validate k a = None"
proof (cases "prefix_dispatch k s
    [(''fiat:'', NewFiatAsset), (''crypto:'', NewCryptoAsset), (''rwa:'', NewRWAAsset)]")
  case (Some r)
  show ?thesis
  proof (cases "r = Inr a")
    case True
    show ?thesis
      by (rule prefix_dispatch_valid [OF Some [unfolded True]]) (auto dest: constructors_valid)
  next
    case False
    then show ?thesis using assms Some NativeAsset_valid
      by (auto simp: ParseAsset_def simp del: prefix_dispatch.simps split: if_splits)
  qed
next
  case None
  then show ?thesis using assms NativeAsset_valid
    by (auto simp: ParseAsset_def simp del: prefix_dispatch.simps dest: constructors_valid
        split: if_splits option.splits)
qed

lemma asset_wire_injective:
  assumes "strkey_ok k" "Asset_Validate k a = None" "Asset_Validate k b = None"
    "Asset_String a = Asset_String b"
  shows "a = b"
proof -
  have "(Inr a :: error + Asset) = ParseAsset k (Asset_String a)" by (rule asset_parse_string [OF assms(1,2), symmetric])
  also have "\<dots> = ParseAsset k (Asset_String b)" by (simp only: assms(4))
  also have "\<dots> = Inr b" by (rule asset_parse_string [OF assms(1,3)])
  finally show ?thesis by (simp only: sum.inject)
qed

text \<open>A concrete SDK for witnesses: 56 base32 characters with the prefix letter of the version.\<close>

definition sample_prefix :: "version_byte \<Rightarrow> char" where
  "sample_prefix v =
     (case v of VersionByteAccountID \<Rightarrow> CHR ''G'' | VersionByteContract \<Rightarrow> CHR ''C''
      | VersionByteMuxedAccount \<Rightarrow> CHR ''M'' | VersionByteMuxedContract \<Rightarrow> CHR ''W''
      | VersionByteClaimableBalance \<Rightarrow> CHR ''B'' | VersionByteLiquidityPool \<Rightarrow> CHR ''L'')"

definition sample_sdk :: sdk where
  "sample_sdk = \<lparr>
     strkey_Decode = (\<lambda>v s. if length s = 56 \<and> list_all base32_char s \<and> hd s = sample_prefix v
       then Some (take 32 s) else None),
     strkey_Encode = (\<lambda>v raw. Some (sample_prefix v # take 55 (raw @ replicate 55 (CHR ''A'')))),
     xdr_NewCreditAsset = (\<lambda>code issuer. Some (XdrAlphaNum12 code issuer)),
     xdr_ContractID = (\<lambda>a pass. Some (case a of XdrAlphaNum12 code issuer \<Rightarrow> code | _ \<Rightarrow> ''NATIVE''))\<rparr>"

definition sample_issuer :: string where
  "sample_issuer = CHR ''G'' # replicate 55 (CHR ''A'')"

definition sample_usdc :: Asset where
  "sample_usdc = zeroAsset\<lparr>Type := AssetClassic, Code := ''USDC'', Issuer := sample_issuer\<rparr>"

lemma sample_sdk_ok: "strkey_ok sample_sdk"
  by (auto simp: strkey_ok_def sample_sdk_def split: if_splits)

lemma sample_usdc_valid: "Asset_Validate sample_sdk sample_usdc = None"
  by code_simp

text \<open>
  C38. The wire identifier is a faithful key: a valid asset of any of the seven shapes parses back to
  itself, everything the parser accepts is valid, and two valid assets with one identifier are the
  same asset.
\<close>

theorem asset_identity:
  assumes "strkey_ok k"
  shows "(Asset_Validate k a = None \<longrightarrow> ParseAsset k (Asset_String a) = Inr a) \<and>
    (ParseAsset k s = Inr b \<longrightarrow> Asset_Validate k b = None) \<and>
    (Asset_Validate k a = None \<and> Asset_Validate k b = None \<and> Asset_String a = Asset_String b \<longrightarrow>
      Asset_Equal a b)"
proof (intro conjI impI)
  show "Asset_Validate k a = None \<Longrightarrow> ParseAsset k (Asset_String a) = Inr a"
    by (rule asset_parse_string [OF assms])
  show "ParseAsset k s = Inr b \<Longrightarrow> Asset_Validate k b = None" by (rule parsed_asset_valid)
  assume "Asset_Validate k a = None \<and> Asset_Validate k b = None \<and> Asset_String a = Asset_String b"
  then have "a = b" using asset_wire_injective [OF assms] by blast
  then show "Asset_Equal a b" by (simp add: Asset_Equal_def)
qed

theorem asset_identity_witness:
  "strkey_ok sample_sdk \<and> Asset_Validate sample_sdk sample_usdc = None \<and>
   ParseAsset sample_sdk (Asset_String sample_usdc) = Inr sample_usdc"
  using asset_identity [OF sample_sdk_ok, of sample_usdc] sample_sdk_ok sample_usdc_valid by blast

end
