(* ===== verification/Trades.thy ===== *)
theory Trades
  imports Assets
begin

text \<open>
  The records the pipeline carries: directed pairs (\<open>internal/canonical/pair.go\<close>), executed trades
  (\<open>trade.go\<close>), oracle observations (\<open>oracle.go\<close>) and the sanitised timestamps (\<open>safetime.go\<close>).
  The lemmas show that the pair text and the trade id are faithful keys, that the fan-out of the
  operation index never collides, and that a decoded timestamp stays in its window.
\<close>

unbundle bit_operations_syntax

section \<open>pair.go\<close>

record Pair =
  Base :: Asset
  Quote :: Asset

definition Pair_Validate :: "sdk \<Rightarrow> Pair \<Rightarrow> error option" where
  "Pair_Validate k p =
     (case Asset_Validate k (Base p) of
        Some e \<Rightarrow> Some e
      | None \<Rightarrow>
          (case Asset_Validate k (Quote p) of
             Some e \<Rightarrow> Some e
           | None \<Rightarrow>
               if \<not> IsMapped (Base p) then Some [ErrInvalidAsset]
               else if \<not> IsMapped (Quote p) then Some [ErrInvalidAsset]
               else if Asset_Equal (Base p) (Quote p) then Some [ErrPairMismatch]
               else None))"

definition NewPair :: "sdk \<Rightarrow> Asset \<Rightarrow> Asset \<Rightarrow> error + Pair" where
  "NewPair k base quote =
     (let p = \<lparr>Base = base, Quote = quote\<rparr> in
      case Pair_Validate k p of Some e \<Rightarrow> Inl e | None \<Rightarrow> Inr p)"

definition Pair_String :: "Pair \<Rightarrow> string" where
  "Pair_String p = Asset_String (Base p) @ ''/'' @ Asset_String (Quote p)"

definition Flip :: "Pair \<Rightarrow> Pair" where
  "Flip p = \<lparr>Base = Quote p, Quote = Base p\<rparr>"

definition Pair_Equal :: "Pair \<Rightarrow> Pair \<Rightarrow> bool" where
  "Pair_Equal p q = (Asset_Equal (Base p) (Base q) \<and> Asset_Equal (Quote p) (Quote q))"

definition EqualEitherWay :: "Pair \<Rightarrow> Pair \<Rightarrow> bool" where
  "EqualEitherWay p q = (Pair_Equal p q \<or> Pair_Equal p (Flip q))"

definition ParsePair :: "sdk \<Rightarrow> string \<Rightarrow> error + Pair" where
  "ParsePair k s =
     (case LastIndex s (CHR ''/'') of
        None \<Rightarrow> Inl [ErrPairMismatch]
      | Some idx \<Rightarrow>
          if idx = 0 \<or> idx = length s - 1 then Inl [ErrPairMismatch]
          else (case ParseAsset k (take idx s) of
                  Inl e \<Rightarrow> Inl e
                | Inr base \<Rightarrow>
                    (case ParseAsset k (drop (Suc idx) s) of
                       Inl e \<Rightarrow> Inl e
                     | Inr quote \<Rightarrow> NewPair k base quote)))"

section \<open>trade.go\<close>

record Trade =
  Source :: string
  Ledger :: "32 word"
  TxHash :: string
  OpIndex :: "32 word"
  Timestamp :: gotime
  TPair :: Pair
  BaseAmount :: Amount
  QuoteAmount :: Amount
  Maker :: string
  Taker :: string
  RoutedVia :: string

text \<open>A call out of range panics, which is \<open>None\<close>.\<close>

definition FanoutOpIndex :: "int \<Rightarrow> int \<Rightarrow> 32 word option" where
  "FanoutOpIndex opIndex eventIndex =
     (if opIndex < 0 \<or> 0xFFFF < opIndex then None
      else if eventIndex < 0 \<or> 0xFFFF < eventIndex then None
      else Some (push_bit 16 (word_of_int opIndex) OR word_of_int eventIndex))"

definition Trade_ID :: "Trade \<Rightarrow> string" where
  "Trade_ID t =
     Source t @ '':'' @ nat_String (unat (Ledger t)) @ '':'' @ TxHash t @ '':'' @
     nat_String (unat (OpIndex t)) @ '':'' @ int_String (time_UnixNano (Timestamp t))"

definition validTxHash :: "string \<Rightarrow> bool" where
  "validTxHash s =
     (length s = 64 \<and>
      list_all (\<lambda>c. \<not> (((of_char c :: nat) < 48 \<or> 57 < (of_char c :: nat)) \<and>
                        ((of_char c :: nat) < 97 \<or> 102 < (of_char c :: nat)))) s)"

definition Trade_Validate :: "sdk \<Rightarrow> Trade \<Rightarrow> error option" where
  "Trade_Validate k t =
     (if Source t = [] then Some [ErrInvalidTrade]
      else if \<not> validTxHash (TxHash t) then Some [ErrInvalidTrade]
      else if time_IsZero (Timestamp t) then Some [ErrInvalidTrade]
      else case Pair_Validate k (TPair t) of
        Some e \<Rightarrow> Some (ErrInvalidTrade # e)
      | None \<Rightarrow>
          let bs = Amount_Sign (BaseAmount t); qs = Amount_Sign (QuoteAmount t) in
          if bs < 0 then Some [ErrInvalidTrade]
          else if qs < 0 then Some [ErrInvalidTrade]
          else if bs = 0 \<and> qs = 0 then Some [ErrInvalidTrade]
          else None)"

definition PriceRatio :: "Trade \<Rightarrow> int \<times> int" where
  "PriceRatio t = (BigInt (QuoteAmount t), BigInt (BaseAmount t))"

definition Trade_Equal :: "Trade \<Rightarrow> Trade \<Rightarrow> bool" where
  "Trade_Equal t u =
     (Source t = Source u \<and> Ledger t = Ledger u \<and> TxHash t = TxHash u \<and> OpIndex t = OpIndex u \<and>
      Timestamp t = Timestamp u)"

section \<open>oracle.go\<close>

record OracleUpdate =
  u_Source :: string
  u_ContractID :: string
  u_Ledger :: "32 word"
  u_TxHash :: string
  u_OpIndex :: "32 word"
  u_Timestamp :: gotime
  u_Asset :: Asset
  u_Quote :: Asset
  u_Price :: Amount
  u_PublishedPrice :: "Amount option"
  u_Decimals :: "8 word"
  u_Confidence :: f64
  u_Observer :: string

definition OracleUpdate_ID :: "OracleUpdate \<Rightarrow> string" where
  "OracleUpdate_ID u =
     u_Source u @ '':'' @ nat_String (unat (u_Ledger u)) @ '':'' @ u_TxHash u @ '':'' @
     nat_String (unat (u_OpIndex u))"

definition maxOraclePriceWholeExp :: nat where
  "maxOraclePriceWholeExp = 15"

definition maxOraclePriceRaw :: "8 word \<Rightarrow> int" where
  "maxOraclePriceRaw decimals = 10 ^ (maxOraclePriceWholeExp + unat decimals)"

definition validatePublishedPrice :: "OracleUpdate \<Rightarrow> error option" where
  "validatePublishedPrice u =
     (case u_PublishedPrice u of
        None \<Rightarrow> None
      | Some p \<Rightarrow>
          if Amount_Sign p \<le> 0 then Some [ErrInvalidOracle]
          else if maxOraclePriceRaw (u_Decimals u) < BigInt p then Some [ErrInvalidOracle]
          else None)"

definition validateAttribution :: "sdk \<Rightarrow> OracleUpdate \<Rightarrow> error option" where
  "validateAttribution k u =
     (case (if u_Observer u \<noteq> [] then validateAddress k (u_Observer u) else None) of
        Some e \<Rightarrow> Some (ErrInvalidOracle # e)
      | None \<Rightarrow>
          (case (if u_ContractID u \<noteq> [] then validateContractID k (u_ContractID u) else None) of
             Some e \<Rightarrow> Some (ErrInvalidOracle # e)
           | None \<Rightarrow> None))"

definition OracleUpdate_Validate :: "sdk \<Rightarrow> OracleUpdate \<Rightarrow> error option" where
  "OracleUpdate_Validate k u =
     (if u_Source u = [] then Some [ErrInvalidOracle]
      else if u_TxHash u = [] then Some [ErrInvalidOracle]
      else if \<not> validTxHash (u_TxHash u) then Some [ErrInvalidOracle]
      else if time_IsZero (u_Timestamp u) then Some [ErrInvalidOracle]
      else case Asset_Validate k (u_Asset u) of
        Some e \<Rightarrow> Some (ErrInvalidOracle # e)
      | None \<Rightarrow>
          (case Asset_Validate k (u_Quote u) of
             Some e \<Rightarrow> Some (ErrInvalidOracle # e)
           | None \<Rightarrow>
               if Asset_Equal (u_Asset u) (u_Quote u) then Some [ErrInvalidOracle]
               else if Amount_Sign (u_Price u) \<le> 0 then Some [ErrInvalidOracle]
               else (case validatePublishedPrice u of
                       Some e \<Rightarrow> Some e
                     | None \<Rightarrow>
                         if 38 < unat (u_Decimals u) then Some [ErrInvalidOracle]
                         else if maxOraclePriceRaw (u_Decimals u) < BigInt (u_Price u)
                         then Some [ErrInvalidOracle]
                         else if u_Confidence u = FNaN \<or> u_Confidence u < FFin 0 \<or> FFin 1 < u_Confidence u
                         then Some [ErrInvalidOracle]
                         else validateAttribution k u)))"

definition OracleUpdate_Equal :: "OracleUpdate \<Rightarrow> OracleUpdate \<Rightarrow> bool" where
  "OracleUpdate_Equal u v =
     (u_Source u = u_Source v \<and> u_Ledger u = u_Ledger v \<and> u_TxHash u = u_TxHash v \<and>
      u_OpIndex u = u_OpIndex v)"

section \<open>safetime.go\<close>

definition SafeUnixFutureWindow :: duration where
  "SafeUnixFutureWindow = 24 * go_hour"

definition safeUnixEpochFloorSeconds :: int where
  "safeUnixEpochFloorSeconds = 1000000000"

definition SafeUnixSeconds :: "64 word \<Rightarrow> gotime \<Rightarrow> gotime" where
  "SafeUnixSeconds raw closedAt =
     (let ceil = time_Unix (closedAt + SafeUnixFutureWindow) in
      if ceil < 0 then closedAt
      else if uint raw < safeUnixEpochFloorSeconds \<or> ceil < uint raw then closedAt
      else time_of_unix (uint raw))"

definition UnboundedUnixSeconds :: "64 word \<Rightarrow> gotime option" where
  "UnboundedUnixSeconds raw = (if max_int64 < uint raw then None else Some (time_of_unix (uint raw)))"

definition SafeUnixMillis :: "64 word \<Rightarrow> gotime \<Rightarrow> gotime" where
  "SafeUnixMillis raw closedAt =
     (let ceil = time_UnixMilli (closedAt + SafeUnixFutureWindow) in
      if ceil < 0 then closedAt
      else if uint raw < safeUnixEpochFloorSeconds * 1000 \<or> ceil < uint raw then closedAt
      else time_of_unix_milli (uint raw))"

section \<open>Pairs\<close>

lemma Asset_Equal_iff: "Asset_Equal a b \<longleftrightarrow> a = b"
  by (auto simp: Asset_Equal_def intro: Asset.equality)

lemma mapped_no_slash:
  assumes "strkey_ok k" "Asset_Validate k a = None" "IsMapped a"
  shows "CHR ''/'' \<notin> set (Asset_String a)"
proof (cases "Type a")
  case AssetClassic
  then have "list_all alnum_char (Code a)" "IsAccountID k (Issuer a)"
    using assms(2) by (auto simp: Asset_Validate_def validateClassicAssetCode_def validateAccountID_def
        Let_def split: if_splits option.splits)
  then have "CHR ''/'' \<notin> set (Code a)" "CHR ''/'' \<notin> set (Issuer a)"
    using IsAccountID_strkey [OF assms(1)] alnum_excludes [of "Code a" "CHR ''/''"]
      base32_excludes [of "Issuer a" "CHR ''/''"] by simp_all
  then show ?thesis using AssetClassic by (simp add: Asset_String_def)
next
  case AssetSoroban
  then show ?thesis using assms IsContractID_strkey [OF assms(1), of "ContractID a"]
    by (auto simp: Asset_String_def Asset_Validate_def validateContractID_def
        dest: base32_excludes [of _ "CHR ''/''"] split: if_splits)
next
  case AssetFiat
  then show ?thesis using assms fiat_codes_short [of "Code a"]
    by (auto simp: Asset_String_def Asset_Validate_def short_code_def split: if_splits)
next
  case AssetCrypto
  then show ?thesis using assms crypto_codes_short [of "Code a"]
    by (auto simp: Asset_String_def Asset_Validate_def short_code_def split: if_splits)
next
  case AssetRWA
  then show ?thesis using assms rwa_codes_short [of "Code a"]
    by (auto simp: Asset_String_def Asset_Validate_def short_code_def split: if_splits)
qed (use assms in \<open>auto simp: Asset_String_def IsMapped_def Asset_Validate_def\<close>)

lemma Asset_String_nonempty:
  "strkey_ok k \<Longrightarrow> Asset_Validate k a = None \<Longrightarrow> Asset_String a \<noteq> []"
  using asset_parse_string [of k a] by (auto simp: ParseAsset_def)

lemma Pair_Validate_None:
  "Pair_Validate k p = None \<longleftrightarrow>
     Asset_Validate k (Base p) = None \<and> Asset_Validate k (Quote p) = None \<and>
     IsMapped (Base p) \<and> IsMapped (Quote p) \<and> Base p \<noteq> Quote p"
  by (auto simp: Pair_Validate_def Asset_Equal_iff split: option.splits if_splits)

lemma Pair_eta: "\<lparr>Base = Base p, Quote = Quote p\<rparr> = p"
  by simp

text \<open>
  The pair text is a faithful key: a valid pair parses back to itself from \<open>base/quote\<close>, in its
  direction, and whatever \<open>ParsePair\<close> accepts is a valid pair (two distinct mapped assets).
\<close>

theorem pair_roundtrip:
  assumes "strkey_ok k"
  shows "(Pair_Validate k p = None \<longrightarrow> ParsePair k (Pair_String p) = Inr p) \<and>
    (ParsePair k s = Inr q \<longrightarrow> Pair_Validate k q = None)"
proof (intro conjI impI)
  assume v: "Pair_Validate k p = None"
  note pv = v [unfolded Pair_Validate_None]
  let ?b = "Asset_String (Base p)" and ?q = "Asset_String (Quote p)"
  have idx: "LastIndex (?b @ CHR ''/'' # ?q) (CHR ''/'') = Some (length ?b)"
    by (rule LastIndex_split) (use mapped_no_slash [OF assms] pv in blast)
  have "?b \<noteq> []" "?q \<noteq> []" using Asset_String_nonempty [OF assms] pv by auto
  then show "ParsePair k (Pair_String p) = Inr p"
    using idx asset_parse_string [OF assms] pv v
    by (simp add: ParsePair_def Pair_String_def NewPair_def Let_def Pair_eta)
next
  show "ParsePair k s = Inr q \<Longrightarrow> Pair_Validate k q = None"
    by (auto simp: ParsePair_def NewPair_def Let_def split: option.splits if_splits sum.splits)
qed

definition sample_pair :: Pair where
  "sample_pair = \<lparr>Base = NativeAsset, Quote = sample_usdc\<rparr>"

lemma sample_pair_valid: "Pair_Validate sample_sdk sample_pair = None"
  by code_simp

theorem pair_roundtrip_witness:
  "Pair_Validate sample_sdk sample_pair = None \<and>
   ParsePair sample_sdk (Pair_String sample_pair) = Inr sample_pair"
  using pair_roundtrip [OF sample_sdk_ok, of sample_pair] sample_pair_valid by blast

section \<open>Trade identity\<close>

lemma split_last_colon:
  assumes "xs @ CHR '':'' # ys = us @ CHR '':'' # vs" "CHR '':'' \<notin> set ys" "CHR '':'' \<notin> set vs"
  shows "xs = us \<and> ys = vs"
proof -
  have "length xs = length us"
    using LastIndex_split [OF assms(2), of xs] LastIndex_split [OF assms(3), of us] assms(1) by simp
  then show ?thesis using assms(1) by simp
qed

lemma digits_no_colon: "list_all is_digit_char s \<Longrightarrow> CHR '':'' \<notin> set s"
  by (auto simp: list_all_iff is_digit_char_def)

lemma nat_String_no_colon [simp]: "CHR '':'' \<notin> set (nat_String n)"
  by (rule digits_no_colon [OF nat_String_digits])

lemma int_String_no_colon [simp]: "CHR '':'' \<notin> set (int_String i)"
  by (simp add: int_String_def)

lemma nat_String_inject: "nat_String m = nat_String n \<longleftrightarrow> m = n"
  by (metis option.inject parse_nat_String)

lemma txhash_no_colon: "validTxHash s \<Longrightarrow> CHR '':'' \<notin> set s"
  by (auto simp: validTxHash_def list_all_iff)

lemma unixnano_inject:
  assumes "\<bar>t - unix_epoch_seconds * 1000000000\<bar> < 2 ^ 63" "\<bar>u - unix_epoch_seconds * 1000000000\<bar> < 2 ^ 63"
  shows "time_UnixNano t = time_UnixNano u \<longleftrightarrow> t = u"
proof -
  have "time_UnixNano x = x - unix_epoch_seconds * 1000000000"
    if "\<bar>x - unix_epoch_seconds * 1000000000\<bar> < 2 ^ 63" for x
    unfolding time_UnixNano_def by (rule wrap64_id) (use that in \<open>auto simp: min_int64_def max_int64_def\<close>)
  then show ?thesis using assms by simp
qed

text \<open>
  The trade id is a faithful key of storage identity: for trades with valid transaction hashes and
  timestamps a UnixNano can hold (years 1678 to 2262), equal ids mean equal source, ledger, hash,
  operation index and time, whatever characters the source name contains.
\<close>

theorem Trade_ID_identity:
  assumes "validTxHash (TxHash t)" "validTxHash (TxHash u)"
    and "\<bar>Timestamp t - unix_epoch_seconds * 1000000000\<bar> < 2 ^ 63"
    and "\<bar>Timestamp u - unix_epoch_seconds * 1000000000\<bar> < 2 ^ 63"
  shows "Trade_ID t = Trade_ID u \<longleftrightarrow> Trade_Equal t u"
proof
  assume eq: "Trade_ID t = Trade_ID u"
  let ?l = "\<lambda>t. nat_String (unat (Ledger t))" and ?o = "\<lambda>t. nat_String (unat (OpIndex t))"
    and ?n = "\<lambda>t. int_String (time_UnixNano (Timestamp t))"
  have 1: "(((Source t @ CHR '':'' # ?l t) @ CHR '':'' # TxHash t) @ CHR '':'' # ?o t) @ CHR '':'' # ?n t =
      (((Source u @ CHR '':'' # ?l u) @ CHR '':'' # TxHash u) @ CHR '':'' # ?o u) @ CHR '':'' # ?n u"
    using eq by (simp add: Trade_ID_def)
  note 2 = split_last_colon [OF 1 int_String_no_colon int_String_no_colon]
  note 3 = split_last_colon [OF conjunct1 [OF 2] nat_String_no_colon nat_String_no_colon]
  note 4 = split_last_colon [OF conjunct1 [OF 3] txhash_no_colon [OF assms(1)] txhash_no_colon [OF assms(2)]]
  note 5 = split_last_colon [OF conjunct1 [OF 4] nat_String_no_colon nat_String_no_colon]
  show "Trade_Equal t u"
    using 2 3 4 5 unixnano_inject [OF assms(3,4)]
    by (simp add: Trade_Equal_def nat_String_inject int_String_inject word_unat_eq_iff)
qed (simp add: Trade_ID_def Trade_Equal_def)

definition sample_trade :: Trade where
  "sample_trade = \<lparr>Source = ''sdex'', Ledger = 7, TxHash = replicate 64 (CHR ''a''), OpIndex = 1,
     Timestamp = time_of_unix 1700000000, TPair = sample_pair, BaseAmount = NewAmount (Some 200),
     QuoteAmount = NewAmount (Some 50), Maker = [], Taker = [], RoutedVia = []\<rparr>"

theorem Trade_ID_identity_witness:
  "Trade_ID sample_trade = Trade_ID (sample_trade\<lparr>OpIndex := 2\<rparr>) \<longleftrightarrow>
   Trade_Equal sample_trade (sample_trade\<lparr>OpIndex := 2\<rparr>)"
  by (rule Trade_ID_identity) code_simp+

lemma fanout_unat:
  assumes "0 \<le> a" "a \<le> 0xFFFF" "0 \<le> b" "b \<le> 0xFFFF"
  shows "uint (push_bit 16 (word_of_int a) OR word_of_int b :: 32 word) = a * 65536 + b"
proof -
  have disj: "push_bit 16 (word_of_int a) AND word_of_int b = (0 :: 32 word)"
  proof (rule bit_word_eqI)
    fix n assume "n < LENGTH(32)"
    have "\<not> bit b n" if "16 \<le> n"
    proof -
      have "b < 2 ^ n" using assms(4) power_increasing [of 16 n "2 :: int"] that by simp
      then have "b div 2 ^ n = 0" using assms(3) by simp
      then show ?thesis by (simp add: bit_iff_odd)
    qed
    then show "bit (push_bit 16 (word_of_int a) AND word_of_int b :: 32 word) n = bit (0 :: 32 word) n"
      by (auto simp: bit_simps)
  qed
  have "(push_bit 16 (word_of_int a) OR word_of_int b :: 32 word) = push_bit 16 (word_of_int a) + word_of_int b"
    using disj by (simp add: disjunctive_add_eq_or [symmetric])
  also have "\<dots> = word_of_int (a * 65536 + b)"
    by (simp add: push_bit_eq_mult)
  finally have eq: "(push_bit 16 (word_of_int a) OR word_of_int b :: 32 word) = word_of_int (a * 65536 + b)" .
  show ?thesis unfolding eq by (subst uint_word_of_int) (use assms in simp)
qed

text \<open>
  \<open>FanoutOpIndex\<close> never collides: inside the accepted range it is injective in both indices (so two
  events of one operation, or of two operations, keep distinct primary keys), and it panics exactly
  outside that range.
\<close>

theorem FanoutOpIndex_injective:
  "(FanoutOpIndex op ev = None \<longleftrightarrow> \<not> (0 \<le> op \<and> op \<le> 65535 \<and> 0 \<le> ev \<and> ev \<le> 65535)) \<and>
   (FanoutOpIndex op ev = Some w \<and> FanoutOpIndex op' ev' = Some w \<longrightarrow> op = op' \<and> ev = ev')"
proof (intro conjI impI)
  show "FanoutOpIndex op ev = None \<longleftrightarrow> \<not> (0 \<le> op \<and> op \<le> 65535 \<and> 0 \<le> ev \<and> ev \<le> 65535)"
    by (auto simp: FanoutOpIndex_def)
next
  assume a: "FanoutOpIndex op ev = Some w \<and> FanoutOpIndex op' ev' = Some w"
  then have r: "0 \<le> op" "op \<le> 65535" "0 \<le> ev" "ev \<le> 65535" "0 \<le> op'" "op' \<le> 65535" "0 \<le> ev'" "ev' \<le> 65535"
    by (auto simp: FanoutOpIndex_def split: if_splits)
  then have "op * 65536 + ev = op' * 65536 + ev'"
    using a fanout_unat [of op ev] fanout_unat [of op' ev']
    by (auto simp: FanoutOpIndex_def split: if_splits)
  then have "(op * 65536 + ev) div 65536 = (op' * 65536 + ev') div 65536"
    "(op * 65536 + ev) mod 65536 = (op' * 65536 + ev') mod 65536" by simp_all
  then show "op = op'" "ev = ev'" using r by simp_all
qed

theorem FanoutOpIndex_injective_witness:
  "FanoutOpIndex 3 4 = Some 196612 \<and> FanoutOpIndex 3 4 = Some 196612 \<and> (3 :: int) = 3 \<and> (4 :: int) = 4"
  using FanoutOpIndex_injective [of 3 4 196612 3 4] by (simp add: FanoutOpIndex_def push_bit_eq_mult)

section \<open>Sanitised timestamps\<close>

text \<open>
  A decoded unsigned timestamp can never place an observation outside its sanity window: the result
  of \<open>SafeUnixSeconds\<close> is the ledger close time, or the decoded instant, which is then between
  September 2001 and 24 hours after the close; no raw 64-bit value wraps around.
\<close>

theorem SafeUnixSeconds_window:
  "SafeUnixSeconds raw closedAt = closedAt \<or>
   (SafeUnixSeconds raw closedAt = time_of_unix (uint raw) \<and>
    time_of_unix 1000000000 \<le> SafeUnixSeconds raw closedAt \<and>
    SafeUnixSeconds raw closedAt \<le> closedAt + SafeUnixFutureWindow)"
proof -
  have "(c div 1000000000) * 1000000000 \<le> (c :: int)" for c
    using minus_mod_eq_div_mult [of c 1000000000] pos_mod_sign [of 1000000000 c] by linarith
  from this [of "closedAt + SafeUnixFutureWindow"] show ?thesis
    by (auto simp: SafeUnixSeconds_def Let_def time_of_unix_def time_Unix_def safeUnixEpochFloorSeconds_def)
qed

end
