(* ===== verification/PriceWindow.thy ===== *)
theory PriceWindow
  imports Trades "HOL-Library.AList"
begin

text \<open>
  The exact price arithmetic of a trade window (internal/aggregate: vwap.go, scale.go, twap.go,
  ohlc.go, decimals.go, triangulate.go): the volume weighted price and its per-source shares, the
  lift of amounts to one scale, the time weighted price with its fixed-point accumulator, the OHLC
  bar, the decimals correction and the triangulated product.

  The errors are the package's sentinels. Go's \<open>int\<close> scales and counts are \<open>int\<close> and \<open>nat\<close>; the
  per-source scale and the decimals table are arguments, as they are in the code. The map a Go
  function fills is an association list in order of first insertion; no theorem depends on that
  order.
\<close>

section \<open>vwap.go\<close>

datatype aggregate_error = ErrNoTrades | ErrUnsortedTrades | ErrTriangulateZero

text \<open>\<open>new(big.Rat).SetFrac\<close>; the callers only divide by a positive denominator.\<close>

definition SetFrac :: "int \<Rightarrow> int \<Rightarrow> rat" where
  [price_simps]: "SetFrac a b = of_int a / of_int b"

definition priceable :: "Trade \<Rightarrow> bool" where
  "priceable t = (0 < BigInt (BaseAmount t) \<and> 0 < BigInt (QuoteAmount t))"

record ScaledWindow =
  sw_trades :: "Trade list"
  sw_decimals :: int

fun vwap_sums :: "Trade list \<Rightarrow> int \<Rightarrow> int \<Rightarrow> int \<times> int" where
  "vwap_sums [] sumBase sumQuote = (sumBase, sumQuote)"
| "vwap_sums (t # ts) sumBase sumQuote =
     (if \<not> priceable t then vwap_sums ts sumBase sumQuote
      else vwap_sums ts (sumBase + BigInt (BaseAmount t)) (sumQuote + BigInt (QuoteAmount t)))"

definition VWAP :: "ScaledWindow \<Rightarrow> aggregate_error + rat" where
  "VWAP w =
     (if sw_trades w = [] then Inl ErrNoTrades
      else case vwap_sums (sw_trades w) 0 0 of (sumBase, sumQuote) \<Rightarrow>
        if sumBase = 0 then Inl ErrNoTrades else Inr (SetFrac sumQuote sumBase))"

fun total_volume :: "(Trade \<Rightarrow> Amount) \<Rightarrow> Trade list \<Rightarrow> int \<Rightarrow> int" where
  "total_volume leg [] acc = acc"
| "total_volume leg (t # ts) acc =
     total_volume leg ts (if priceable t then acc + BigInt (leg t) else acc)"

definition TotalBaseVolume :: "Trade list \<Rightarrow> Amount" where
  "TotalBaseVolume ts = NewAmount (Some (total_volume BaseAmount ts 0))"

definition TotalQuoteVolume :: "Trade list \<Rightarrow> Amount" where
  "TotalQuoteVolume ts = NewAmount (Some (total_volume QuoteAmount ts 0))"

record SourceContribution =
  sc_Source :: string
  sc_Weight :: rat
  sc_BaseVolume :: int
  sc_QuoteVolume :: int
  sc_TradeCount :: nat

type_synonym accum = "int \<times> int \<times> nat"

fun contribution_loop :: "Trade list \<Rightarrow> (string \<times> accum) list \<Rightarrow> int \<Rightarrow> (string \<times> accum) list \<times> int" where
  "contribution_loop [] bySource totalQuote = (bySource, totalQuote)"
| "contribution_loop (t # ts) bySource totalQuote =
     (if \<not> priceable t then contribution_loop ts bySource totalQuote
      else
        let b = BigInt (BaseAmount t); q = BigInt (QuoteAmount t);
            a = (case map_of bySource (Source t) of None \<Rightarrow> (0, 0, 0) | Some a \<Rightarrow> a)
        in contribution_loop ts
             (AList.update (Source t) (fst a + b, fst (snd a) + q, snd (snd a) + 1) bySource)
             (totalQuote + q))"

definition SourceContributions :: "Trade list \<Rightarrow> SourceContribution list" where
  "SourceContributions ts =
     (if ts = [] then []
      else case contribution_loop ts [] 0 of (bySource, totalQuote) \<Rightarrow>
        if totalQuote = 0 then []
        else map (\<lambda>(source, base, quote, count).
                    \<lparr>sc_Source = source, sc_Weight = SetFrac quote totalQuote, sc_BaseVolume = base,
                     sc_QuoteVolume = quote, sc_TradeCount = count\<rparr>) bySource)"

section \<open>scale.go\<close>

text \<open>
  \<open>decimalsFor\<close> is a pure lookup, so the per-source cache of the code is not visible; nor is the cache
  of the powers of ten.
\<close>

fun max_decimals :: "(string \<Rightarrow> int) \<Rightarrow> Trade list \<Rightarrow> int \<Rightarrow> int" where
  "max_decimals dec [] maxDec = maxDec"
| "max_decimals dec (t # ts) maxDec =
     max_decimals dec ts (if maxDec < dec (Source t) then dec (Source t) else maxDec)"

definition lift_trade :: "int \<Rightarrow> (string \<Rightarrow> int) \<Rightarrow> Trade \<Rightarrow> Trade" where
  "lift_trade maxDec dec t =
     (let exp = maxDec - dec (Source t) in
      if exp \<le> 0 then t
      else let factor = 10 ^ nat exp in
        t\<lparr>BaseAmount := NewAmount (Some (BigInt (BaseAmount t) * factor)),
          QuoteAmount := NewAmount (Some (BigInt (QuoteAmount t) * factor))\<rparr>)"

definition NormalizeAmountScale :: "Trade list \<Rightarrow> (string \<Rightarrow> int) \<Rightarrow> ScaledWindow" where
  "NormalizeAmountScale ts decimalsFor =
     (if ts = [] then \<lparr>sw_trades = ts, sw_decimals = 0\<rparr>
      else let maxDec = max_decimals decimalsFor ts 0 in
        \<lparr>sw_trades = map (lift_trade maxDec decimalsFor) ts, sw_decimals = maxDec\<rparr>)"

section \<open>twap.go\<close>

definition twapScale :: int where
  "twapScale = 10 ^ 40"

text \<open>The scan \<open>for j < len(trades) && trades[j].Timestamp.Equal(trades[i].Timestamp)\<close>.\<close>

function instant_scan :: "Trade list \<Rightarrow> nat \<Rightarrow> nat \<Rightarrow> nat" where
  "instant_scan trades i j =
     (if j < length trades \<and> Timestamp (trades ! j) = Timestamp (trades ! i)
      then instant_scan trades i (j + 1) else j)"
  by pat_completeness auto
termination by (relation "measure (\<lambda>(trades, i, j). length trades - j)") auto

definition instantEnd :: "Trade list \<Rightarrow> nat \<Rightarrow> aggregate_error + nat" where
  "instantEnd trades i =
     (if 0 < i \<and> Timestamp (trades ! i) < Timestamp (trades ! (i - 1)) then Inl ErrUnsortedTrades
      else Inr (instant_scan trades i (i + 1)))"

fun instant_volumes_loop :: "Trade list \<Rightarrow> int \<Rightarrow> int \<Rightarrow> nat \<Rightarrow> int \<times> int \<times> nat" where
  "instant_volumes_loop [] base quote priced = (base, quote, priced)"
| "instant_volumes_loop (t # ts) base quote priced =
     (if \<not> priceable t then instant_volumes_loop ts base quote priced
      else instant_volumes_loop ts (base + BigInt (BaseAmount t)) (quote + BigInt (QuoteAmount t)) (priced + 1))"

definition instantVolumes :: "Trade list \<Rightarrow> int \<times> int \<times> nat" where
  "instantVolumes grp = instant_volumes_loop grp 0 0 0"

text \<open>
  The variables of \<open>TWAPWithCount\<close>. The \<open>pending\<close> variables of the code are one optional instant
  (its base and quote sums, its start and its number of priced trades); the option is
  \<open>havePending\<close>.
\<close>

record twap_state =
  weightedSum :: int
  totalNanos :: int
  weighted :: nat
  pending :: "(int \<times> int \<times> gotime \<times> nat) option"

definition accrueTWAPSlot :: "int \<Rightarrow> int \<Rightarrow> duration \<Rightarrow> twap_state \<Rightarrow> twap_state" where
  "accrueTWAPSlot base quote dur s =
     (if dur \<le> 0 then s
      else s\<lparr>weightedSum := weightedSum s + go_quo (quote * twapScale * dur) base,
             totalNanos := totalNanos s + dur\<rparr>)"

text \<open>Close the pending slot at \<open>until\<close>: the block that the loop and its epilogue share.\<close>

definition close_slot :: "gotime \<Rightarrow> twap_state \<Rightarrow> twap_state" where
  "close_slot until s =
     (case pending s of
        None \<Rightarrow> s
      | Some (base, quote, start, priced) \<Rightarrow>
          let dur = time_Sub until start in
          if 0 < dur then (accrueTWAPSlot base quote dur s)\<lparr>weighted := weighted s + priced\<rparr> else s)"

declare instant_scan.simps [simp del]

lemma instant_scan_ge: "j \<le> instant_scan trades i j"
  proof (induction trades i j rule: instant_scan.induct)
  case (1 trades i j)
  then show ?case by (subst instant_scan.simps) auto
qed

function twap_loop :: "Trade list \<Rightarrow> nat \<Rightarrow> twap_state \<Rightarrow> aggregate_error + twap_state" where
  "twap_loop trades i s =
     (if length trades \<le> i then Inr s
      else case instantEnd trades i of
        Inl e \<Rightarrow> Inl e
      | Inr j \<Rightarrow>
          (case instantVolumes (take (j - i) (drop i trades)) of (base, quote, priced) \<Rightarrow>
             twap_loop trades j
               (if 0 < priced
                then (close_slot (Timestamp (trades ! i)) s)
                       \<lparr>pending := Some (base, quote, Timestamp (trades ! i), priced)\<rparr>
                else s)))"
  by pat_completeness auto
termination
proof (relation "measure (\<lambda>(trades, i, s). length trades - i)", goal_cases)
  case (2 trades i s j)
  then have "i + 1 \<le> j" using instant_scan_ge [of "i + 1" trades i]
    by (auto simp: instantEnd_def split: if_splits)
  then show ?case using 2 by simp
qed simp

definition TWAPWithCount :: "Trade list \<Rightarrow> gotime \<Rightarrow> aggregate_error + (rat \<times> nat)" where
  "TWAPWithCount trades windowEnd =
     (if trades = [] then Inl ErrNoTrades
      else case twap_loop trades 0 \<lparr>weightedSum = 0, totalNanos = 0, weighted = 0, pending = None\<rparr> of
        Inl e \<Rightarrow> Inl e
      | Inr s0 \<Rightarrow>
          let s = close_slot windowEnd s0 in
          if totalNanos s \<le> 0 then Inl ErrNoTrades
          else Inr (SetFrac (weightedSum s) (totalNanos s * twapScale), weighted s))"

definition TWAP :: "Trade list \<Rightarrow> gotime \<Rightarrow> aggregate_error + rat" where
  "TWAP trades windowEnd =
     (case TWAPWithCount trades windowEnd of Inl e \<Rightarrow> Inl e | Inr (price, _) \<Rightarrow> Inr price)"

section \<open>ohlc.go\<close>

record OHLC =
  Open :: rat
  High :: rat
  Low :: rat
  Close :: rat
  BaseVolume :: Amount
  QuoteVolume :: Amount
  TradeCount :: nat

text \<open>The bar under construction: nothing yet, or open, high, low, close and the trade count.\<close>

type_synonym ohlc_bar = "(rat \<times> rat \<times> rat \<times> rat \<times> nat) option"

fun ohlc_loop :: "Trade list \<Rightarrow> ohlc_bar \<Rightarrow> int \<Rightarrow> int \<Rightarrow> ohlc_bar \<times> int \<times> int" where
  "ohlc_loop [] bar totalBase totalQuote = (bar, totalBase, totalQuote)"
| "ohlc_loop (t # ts) bar totalBase totalQuote =
     (let b = BigInt (BaseAmount t) in
      if b \<le> 0 then ohlc_loop ts bar totalBase totalQuote
      else let q = BigInt (QuoteAmount t) in
        if q \<le> 0 then ohlc_loop ts bar totalBase totalQuote
        else
          let price = SetFrac q b;
              bar' = (case bar of
                        None \<Rightarrow> (price, price, price, price, 1)
                      | Some (op, hi, lo, cl, n) \<Rightarrow>
                          (op, if hi < price then price else hi, if price < lo then price else lo, price, n + 1))
          in ohlc_loop ts (Some bar') (totalBase + b) (totalQuote + q))"

definition ComputeOHLC :: "Trade list \<Rightarrow> aggregate_error + OHLC" where
  "ComputeOHLC ts =
     (if ts = [] then Inl ErrNoTrades
      else case ohlc_loop ts None 0 0 of (bar, totalBase, totalQuote) \<Rightarrow>
        (case bar of
           None \<Rightarrow> Inl ErrNoTrades
         | Some (op, hi, lo, cl, n) \<Rightarrow>
             Inr \<lparr>Open = op, High = hi, Low = lo, Close = cl, BaseVolume = NewAmount (Some totalBase),
                  QuoteVolume = NewAmount (Some totalQuote), TradeCount = n\<rparr>))"

section \<open>decimals.go\<close>

definition StandardDecimals :: int where
  "StandardDecimals = 7"

text \<open>A \<open>DecimalsLookup\<close> that may be nil; its rows come from the registry outside this package.\<close>

type_synonym DecimalsLookup = "(string \<Rightarrow> int option) option"

definition ResolveDecimals :: "DecimalsLookup \<Rightarrow> Asset \<Rightarrow> int" where
  "ResolveDecimals lookup asset =
     (case lookup of
        None \<Rightarrow> StandardDecimals
      | Some f \<Rightarrow> (case f (Asset_String asset) of Some d \<Rightarrow> d | None \<Rightarrow> StandardDecimals))"

definition DecimalsAdjustment :: "int \<Rightarrow> int \<Rightarrow> rat" where
  "DecimalsAdjustment baseDecimals quoteDecimals =
     (let delta = baseDecimals - quoteDecimals in
      if delta = 0 then 1
      else let scale = 10 ^ nat \<bar>delta\<bar> in
        if 0 < delta then of_int scale else SetFrac 1 scale)"

definition AdjustPrice :: "rat option \<Rightarrow> int \<Rightarrow> int \<Rightarrow> rat option" where
  "AdjustPrice raw baseDecimals quoteDecimals =
     (case raw of
        None \<Rightarrow> None
      | Some r \<Rightarrow>
          if baseDecimals = quoteDecimals then Some r
          else Some (r * DecimalsAdjustment baseDecimals quoteDecimals))"

section \<open>triangulate.go\<close>

definition Triangulate :: "rat option \<Rightarrow> rat option \<Rightarrow> aggregate_error + rat" where
  "Triangulate aToB bToC =
     (case (aToB, bToC) of
        (Some x, Some y) \<Rightarrow> if x \<le> 0 \<or> y \<le> 0 then Inl ErrTriangulateZero else Inr (x * y)
      | _ \<Rightarrow> Inl ErrTriangulateZero)"

fun triangulate_loop :: "rat option list \<Rightarrow> rat \<Rightarrow> aggregate_error + rat" where
  "triangulate_loop [] out = Inr out"
| "triangulate_loop (p # ps) out =
     (case p of
        None \<Rightarrow> Inl ErrTriangulateZero
      | Some x \<Rightarrow> if x \<le> 0 then Inl ErrTriangulateZero else triangulate_loop ps (out * x))"

definition TriangulateChain :: "rat option list \<Rightarrow> aggregate_error + rat" where
  "TriangulateChain prices =
     (if prices = [] then Inl ErrTriangulateZero else triangulate_loop prices 1)"

declare twap_loop.simps [simp del]

section \<open>The priced population\<close>

text \<open>
  Every sum over a window is the sum of one leg over its priceable trades. The interface below says so
  of a volume function; merging windows, reordering trades and signs follow for each of them.
\<close>

abbreviation priced :: "Trade list \<Rightarrow> Trade list" where
  "priced ts \<equiv> filter priceable ts"

abbreviation base_of :: "Trade \<Rightarrow> int" where
  "base_of t \<equiv> BigInt (BaseAmount t)"

abbreviation quote_of :: "Trade \<Rightarrow> int" where
  "quote_of t \<equiv> BigInt (QuoteAmount t)"

definition trade_price :: "Trade \<Rightarrow> rat" where
  "trade_price t = SetFrac (quote_of t) (base_of t)"

locale volume_sum =
  fixes leg :: "Trade \<Rightarrow> int" and total :: "Trade list \<Rightarrow> Amount"
  assumes total_is_sum: "BigInt (total ts) = sum_list (map leg (priced ts))"
    and leg_pos: "priceable t \<Longrightarrow> 0 < leg t"
begin

lemma total_append: "BigInt (total (xs @ ys)) = BigInt (total xs) + BigInt (total ys)"
  by (simp add: total_is_sum)

lemma total_nonneg: "0 \<le> BigInt (total ts)"
  unfolding total_is_sum by (rule sum_list_nonneg) (auto dest: leg_pos)

lemma total_pos_iff: "0 < BigInt (total ts) \<longleftrightarrow> priced ts \<noteq> []"
proof
  assume "priced ts \<noteq> []"
  then have "sum_list (map (\<lambda>_. 0) (priced ts)) < sum_list (map leg (priced ts))"
    by (rule sum_list_strict_mono) (auto dest: leg_pos)
  then show "0 < BigInt (total ts)" by (simp add: total_is_sum)
qed (auto simp: total_is_sum)

lemma total_zero_iff: "BigInt (total ts) = 0 \<longleftrightarrow> priced ts = []"
  using total_pos_iff [of ts] total_nonneg [of ts] by auto

lemma total_permute:
  assumes "mset xs = mset ys" shows "BigInt (total xs) = BigInt (total ys)"
proof -
  have "sum_mset (image_mset leg (filter_mset priceable (mset xs))) =
        sum_mset (image_mset leg (filter_mset priceable (mset ys)))" by (simp add: assms)
  then show ?thesis by (simp add: total_is_sum sum_mset_sum_list flip: mset_filter mset_map)
qed

end

lemma total_volume_eq: "total_volume leg ts acc = acc + sum_list (map (\<lambda>t. BigInt (leg t)) (priced ts))"
  by (induction ts arbitrary: acc) auto

interpretation base_vol: volume_sum base_of TotalBaseVolume
  by unfold_locales (auto simp: TotalBaseVolume_def NewAmount_def total_volume_eq priceable_def BigInt_def)

interpretation quote_vol: volume_sum quote_of TotalQuoteVolume
  by unfold_locales (auto simp: TotalQuoteVolume_def NewAmount_def total_volume_eq priceable_def BigInt_def)

lemma vwap_sums_eq:
  "vwap_sums ts sb sq = (sb + BigInt (TotalBaseVolume ts), sq + BigInt (TotalQuoteVolume ts))"
  unfolding base_vol.total_is_sum quote_vol.total_is_sum
  by (induction ts arbitrary: sb sq) auto

lemma VWAP_eq:
  "VWAP w = (if priced (sw_trades w) = [] then Inl ErrNoTrades
             else Inr (SetFrac (BigInt (TotalQuoteVolume (sw_trades w))) (BigInt (TotalBaseVolume (sw_trades w)))))"
  using base_vol.total_zero_iff [of "sw_trades w"] by (auto simp: VWAP_def vwap_sums_eq)

lemma trade_price_pos: "priceable t \<Longrightarrow> 0 < trade_price t"
  by (simp add: trade_price_def SetFrac_def priceable_def)

lemma of_int_sum_list_map: "(of_int (sum_list (map f ts)) :: 'b :: ring_1) = sum_list (map (\<lambda>t. of_int (f t)) ts)"
  by (induction ts) auto

text \<open>A ratio of sums lies between the extreme ratios.\<close>

lemma mediant_le:
  fixes b q :: "'a \<Rightarrow> int"
  assumes "ts \<noteq> []" and b: "\<And>t. t \<in> set ts \<Longrightarrow> 0 < b t"
  shows "\<exists>t\<in>set ts. SetFrac (q t) (b t) \<le> SetFrac (sum_list (map q ts)) (sum_list (map b ts))"
    and "\<exists>t\<in>set ts. SetFrac (sum_list (map q ts)) (sum_list (map b ts)) \<le> SetFrac (q t) (b t)"
proof -
  define B Q where "B = (of_int (sum_list (map b ts)) :: rat)" and "Q = (of_int (sum_list (map q ts)) :: rat)"
  have "sum_list (map (\<lambda>_. 0) ts) < sum_list (map b ts)"
    using assms by (intro sum_list_strict_mono) auto
  then have B: "0 < B" by (simp add: B_def)
  have sums: "sum_list (map (\<lambda>t. of_int (q t) * B) ts) = Q * B" "sum_list (map (\<lambda>t. Q * of_int (b t)) ts) = Q * B"
    by (simp_all add: B_def Q_def sum_list_mult_const sum_list_const_mult of_int_sum_list_map)
  have QB: "SetFrac (sum_list (map q ts)) (sum_list (map b ts)) = Q / B"
    by (simp add: SetFrac_def B_def Q_def)
  have frac: "SetFrac (q t) (b t) \<le> Q / B \<longleftrightarrow> of_int (q t) * B \<le> Q * of_int (b t)"
    "Q / B \<le> SetFrac (q t) (b t) \<longleftrightarrow> Q * of_int (b t) \<le> of_int (q t) * B" if "t \<in> set ts" for t
    using b [OF that] B by (simp_all add: SetFrac_def divide_le_eq le_divide_eq mult.commute)
  show "\<exists>t\<in>set ts. SetFrac (q t) (b t) \<le> SetFrac (sum_list (map q ts)) (sum_list (map b ts))"
  proof (rule ccontr)
    assume "\<not> ?thesis"
    then have "\<forall>t\<in>set ts. Q * of_int (b t) < of_int (q t) * B"
      using frac by (simp add: QB flip: not_le)
    then have "sum_list (map (\<lambda>t. Q * of_int (b t)) ts) < sum_list (map (\<lambda>t. of_int (q t) * B) ts)"
      using assms(1) by (intro sum_list_strict_mono) auto
    then show False using sums by simp
  qed
  show "\<exists>t\<in>set ts. SetFrac (sum_list (map q ts)) (sum_list (map b ts)) \<le> SetFrac (q t) (b t)"
  proof (rule ccontr)
    assume "\<not> ?thesis"
    then have "\<forall>t\<in>set ts. of_int (q t) * B < Q * of_int (b t)"
      using frac by (simp add: QB flip: not_le)
    then have "sum_list (map (\<lambda>t. of_int (q t) * B) ts) < sum_list (map (\<lambda>t. Q * of_int (b t)) ts)"
      using assms(1) by (intro sum_list_strict_mono) auto
    then show False using sums by simp
  qed
qed

lemma VWAP_between:
  assumes "VWAP w = Inr p"
  shows "\<exists>t\<in>set (priced (sw_trades w)). trade_price t \<le> p"
    and "\<exists>t\<in>set (priced (sw_trades w)). p \<le> trade_price t"
proof -
  have ne: "priced (sw_trades w) \<noteq> []" and
    p: "p = SetFrac (sum_list (map quote_of (priced (sw_trades w)))) (sum_list (map base_of (priced (sw_trades w))))"
    using assms by (auto simp: VWAP_eq base_vol.total_is_sum quote_vol.total_is_sum split: if_splits)
  have pos: "\<And>t. t \<in> set (priced (sw_trades w)) \<Longrightarrow> 0 < base_of t" by (auto simp: priceable_def)
  show "\<exists>t\<in>set (priced (sw_trades w)). trade_price t \<le> p"
    "\<exists>t\<in>set (priced (sw_trades w)). p \<le> trade_price t"
    using mediant_le [OF ne, of base_of quote_of] pos unfolding p trade_price_def by blast+
qed

lemma VWAP_pos: "VWAP w = Inr p \<Longrightarrow> 0 < p"
  using VWAP_between(1) [of w p] trade_price_pos by (fastforce intro: less_le_trans)

section \<open>Lifting to one scale\<close>

text \<open>The volume in whole units of the asset that an amount of a source with the given scale stands for.\<close>

definition whole_units :: "(string \<Rightarrow> int) \<Rightarrow> Trade \<Rightarrow> int \<Rightarrow> rat" where
  "whole_units dec t n = of_int n / 10 powi dec (Source t)"

lemma max_decimals_start: "maxDec \<le> max_decimals dec ts maxDec"
  by (induction ts arbitrary: maxDec) (auto intro: order_trans [OF less_imp_le])

lemma max_decimals_ge: "t \<in> set ts \<Longrightarrow> dec (Source t) \<le> max_decimals dec ts maxDec"
proof (induction ts arbitrary: maxDec)
  case (Cons u us)
  then show ?case
    using max_decimals_start [of maxDec dec us] max_decimals_start [of "dec (Source u)" dec us] by auto
qed simp

lemma lift_trade_legs:
  assumes "dec (Source t) \<le> m"
  shows "(of_int (base_of (lift_trade m dec t)) :: rat) = 10 powi m * whole_units dec t (base_of t)"
    and "(of_int (quote_of (lift_trade m dec t)) :: rat) = 10 powi m * whole_units dec t (quote_of t)"
    and "priceable (lift_trade m dec t) = priceable t"
    and "Source (lift_trade m dec t) = Source t"
proof -
  have "(10 :: rat) powi m / 10 powi dec (Source t) = 10 powi (m - dec (Source t))"
    by (simp add: power_int_diff)
  also have "\<dots> = 10 ^ nat (m - dec (Source t))" using assms by (simp add: power_int_def)
  finally have pow: "(10 :: rat) powi m / 10 powi dec (Source t) = 10 ^ nat (m - dec (Source t))" .
  have scale: "10 powi m * whole_units dec t n = of_int n * (10 ^ nat (m - dec (Source t)))" for n
    unfolding whole_units_def pow [symmetric] by simp
  show "(of_int (base_of (lift_trade m dec t)) :: rat) = 10 powi m * whole_units dec t (base_of t)"
    "(of_int (quote_of (lift_trade m dec t)) :: rat) = 10 powi m * whole_units dec t (quote_of t)"
    "priceable (lift_trade m dec t) = priceable t" "Source (lift_trade m dec t) = Source t"
    unfolding scale using assms
    by (auto simp: lift_trade_def Let_def NewAmount_def priceable_def zero_less_mult_iff)
qed

lemma priced_lift:
  assumes "\<forall>t\<in>set ts. dec (Source t) \<le> m"
  shows "priced (map (lift_trade m dec) ts) = map (lift_trade m dec) (priced ts)"
  using assms by (induction ts) (auto simp: lift_trade_legs)

lemma lifted_sums:
  assumes "\<forall>t\<in>set ts. dec (Source t) \<le> m"
  shows "(of_int (BigInt (TotalBaseVolume (map (lift_trade m dec) ts))) :: rat)
           = 10 powi m * (\<Sum>t\<leftarrow>priced ts. whole_units dec t (base_of t))"
    and "(of_int (BigInt (TotalQuoteVolume (map (lift_trade m dec) ts))) :: rat)
           = 10 powi m * (\<Sum>t\<leftarrow>priced ts. whole_units dec t (quote_of t))"
proof -
  have m: "\<forall>t\<in>set (priced ts). dec (Source t) \<le> m" using assms by auto
  have "(\<Sum>t\<leftarrow>priced ts. of_int (base_of (lift_trade m dec t)) :: rat)
      = (\<Sum>t\<leftarrow>priced ts. 10 powi m * whole_units dec t (base_of t))"
    "(\<Sum>t\<leftarrow>priced ts. of_int (quote_of (lift_trade m dec t)) :: rat)
      = (\<Sum>t\<leftarrow>priced ts. 10 powi m * whole_units dec t (quote_of t))"
    using m by (auto intro!: arg_cong [where f = sum_list] simp: lift_trade_legs)
  then show "(of_int (BigInt (TotalBaseVolume (map (lift_trade m dec) ts))) :: rat)
           = 10 powi m * (\<Sum>t\<leftarrow>priced ts. whole_units dec t (base_of t))"
    "(of_int (BigInt (TotalQuoteVolume (map (lift_trade m dec) ts))) :: rat)
           = 10 powi m * (\<Sum>t\<leftarrow>priced ts. whole_units dec t (quote_of t))"
    by (simp_all add: base_vol.total_is_sum quote_vol.total_is_sum priced_lift [OF assms] of_int_sum_list_map
        o_def sum_list_const_mult)
qed

lemma VWAP_normalized:
  "VWAP (NormalizeAmountScale ts dec) =
     (if priced ts = [] then Inl ErrNoTrades
      else Inr ((\<Sum>t\<leftarrow>priced ts. whole_units dec t (quote_of t)) /
                (\<Sum>t\<leftarrow>priced ts. whole_units dec t (base_of t))))"
proof (cases "ts = []")
  case True
  then show ?thesis by (simp add: NormalizeAmountScale_def VWAP_def)
next
  case False
  define m where "m = max_decimals dec ts 0"
  have m: "\<forall>t\<in>set ts. dec (Source t) \<le> m" by (simp add: m_def max_decimals_ge)
  have "sw_trades (NormalizeAmountScale ts dec) = map (lift_trade m dec) ts"
    using False by (simp add: NormalizeAmountScale_def Let_def m_def)
  then show ?thesis
    by (simp add: VWAP_eq SetFrac_def priced_lift [OF m] lifted_sums [OF m])
qed

text \<open>
  C7. The published price of a window that mixes sources of different scales is the ratio of the
  volumes in whole units, every source weighing by what it really traded, whatever the scales are;
  the window has no price exactly when no trade has two positive legs.
\<close>

theorem NormalizeAmountScale_VWAP:
  "VWAP (NormalizeAmountScale ts dec) =
     (if priced ts = [] then Inl ErrNoTrades
      else Inr ((\<Sum>t\<leftarrow>priced ts. whole_units dec t (quote_of t)) /
                (\<Sum>t\<leftarrow>priced ts. whole_units dec t (base_of t))))"
  by (rule VWAP_normalized)

text \<open>
  The volume weighted price is an exact, positive mean: it times the base volume is the quote
  volume, and it lies between the prices of two trades of the window; \<open>ErrNoTrades\<close> is returned
  exactly when the window holds no trade with two positive legs.
\<close>

theorem VWAP_sound:
  "(VWAP w = Inl ErrNoTrades \<longleftrightarrow> priced (sw_trades w) = []) \<and>
   (VWAP w = Inr p \<longrightarrow>
      0 < p \<and> p * of_int (BigInt (TotalBaseVolume (sw_trades w))) = of_int (BigInt (TotalQuoteVolume (sw_trades w))) \<and>
      (\<exists>t\<in>set (priced (sw_trades w)). trade_price t \<le> p) \<and>
      (\<exists>t\<in>set (priced (sw_trades w)). p \<le> trade_price t))"
proof (intro conjI impI)
  assume p: "VWAP w = Inr p"
  then have "0 < BigInt (TotalBaseVolume (sw_trades w))"
    by (auto simp: VWAP_eq base_vol.total_pos_iff split: if_splits)
  then show "p * of_int (BigInt (TotalBaseVolume (sw_trades w))) = of_int (BigInt (TotalQuoteVolume (sw_trades w)))"
    using p by (auto simp: VWAP_eq SetFrac_def split: if_splits)
next
  show "VWAP w = Inl ErrNoTrades \<longleftrightarrow> priced (sw_trades w) = []" by (simp add: VWAP_eq)
qed (fact VWAP_pos VWAP_between)+

definition sample_window :: "Trade list" where
  "sample_window =
     [sample_trade\<lparr>Source := ''sdex'', BaseAmount := NewAmount (Some 1000), QuoteAmount := NewAmount (Some 120), Timestamp := 100\<rparr>,
      sample_trade\<lparr>Source := ''binance'', BaseAmount := NewAmount (Some 500), QuoteAmount := NewAmount (Some 50), Timestamp := 100\<rparr>,
      sample_trade\<lparr>Source := ''sdex'', BaseAmount := NewAmount (Some 0), QuoteAmount := NewAmount (Some 7), Timestamp := 150\<rparr>,
      sample_trade\<lparr>Source := ''sdex'', BaseAmount := NewAmount (Some 200), QuoteAmount := NewAmount (Some 30), Timestamp := 200\<rparr>]"

theorem VWAP_sound_witness:
  "VWAP \<lparr>sw_trades = sample_window, sw_decimals = 7\<rparr> = Inr (2 / 17) \<and> (0 :: rat) < 2 / 17 \<and>
   (\<exists>t\<in>set (priced sample_window). trade_price t \<le> 2 / 17) \<and>
   (\<exists>t\<in>set (priced sample_window). 2 / 17 \<le> trade_price t)"
proof -
  have p: "VWAP \<lparr>sw_trades = sample_window, sw_decimals = 7\<rparr> = Inr (2 / 17)" by code_simp
  show ?thesis
    using VWAP_sound [of "\<lparr>sw_trades = sample_window, sw_decimals = 7\<rparr>" "2 / 17"] p by simp
qed

section \<open>Per-source shares\<close>

abbreviation priced_of :: "string \<Rightarrow> Trade list \<Rightarrow> Trade list" where
  "priced_of s ts \<equiv> filter (\<lambda>t. Source t = s) (priced ts)"

definition source_accum :: "string \<Rightarrow> Trade list \<Rightarrow> accum" where
  "source_accum s ts =
     (sum_list (map base_of (priced_of s ts)), sum_list (map quote_of (priced_of s ts)), length (priced_of s ts))"

definition accum_add :: "accum option \<Rightarrow> accum \<Rightarrow> accum" where
  "accum_add a b = (let a = (case a of None \<Rightarrow> (0, 0, 0) | Some a \<Rightarrow> a) in
     (fst a + fst b, fst (snd a) + fst (snd b), snd (snd a) + snd (snd b)))"

lemma contribution_loop_total:
  "snd (contribution_loop ts bs tq) = tq + BigInt (TotalQuoteVolume ts)"
  unfolding quote_vol.total_is_sum by (induction ts arbitrary: bs tq) (auto simp: Let_def)

lemma contribution_loop_keys:
  "distinct (map fst bs) \<Longrightarrow> distinct (map fst (fst (contribution_loop ts bs tq)))"
  "fst ` set (fst (contribution_loop ts bs tq)) = fst ` set bs \<union> Source ` set (priced ts)"
  by (induction ts arbitrary: bs tq) (auto simp: Let_def distinct_update dom_update)

lemma contribution_loop_lookup:
  "map_of (fst (contribution_loop ts bs tq)) s =
     (if priced_of s ts = [] then map_of bs s else Some (accum_add (map_of bs s) (source_accum s ts)))"
proof (induction ts arbitrary: bs tq)
  case (Cons t ts)
  show ?case
  proof (cases "priceable t")
    case True
    show ?thesis
      by (cases "Source t = s"; cases "map_of bs s")
        (simp_all add: True Cons.IH Let_def update_conv' accum_add_def source_accum_def)
  qed (simp add: Cons.IH source_accum_def)
qed simp

lemma sum_update_alist:
  "distinct (map fst al) \<Longrightarrow>
   sum_list (map (g \<circ> snd) (AList.update k v al)) + (case map_of al k of None \<Rightarrow> 0 | Some w \<Rightarrow> g w)
     = sum_list (map (g \<circ> snd) al) + (g v :: int)"
  by (induction al) (auto split: option.splits)

lemma contribution_loop_quotes:
  "distinct (map fst bs) \<Longrightarrow>
   sum_list (map ((fst \<circ> snd) \<circ> snd) (fst (contribution_loop ts bs tq)))
     = sum_list (map ((fst \<circ> snd) \<circ> snd) bs) + BigInt (TotalQuoteVolume ts)"
proof (induction ts arbitrary: bs tq)
  case (Cons t ts)
  show ?case
  proof (cases "priceable t")
    case True
    let ?a = "case map_of bs (Source t) of None \<Rightarrow> (0, 0, 0) | Some a \<Rightarrow> a"
    let ?v = "(fst ?a + base_of t, fst (snd ?a) + quote_of t, snd (snd ?a) + 1)"
    have "sum_list (map ((fst \<circ> snd) \<circ> snd) (AList.update (Source t) ?v bs))
        = sum_list (map ((fst \<circ> snd) \<circ> snd) bs) + quote_of t"
      using sum_update_alist [OF Cons.prems, of "fst \<circ> snd" "Source t" ?v] by (auto split: option.splits)
    then show ?thesis
      using True Cons by (simp add: Let_def distinct_update quote_vol.total_is_sum o_def)
  next
    case False
    then show ?thesis using Cons by (simp add: quote_vol.total_is_sum)
  qed
qed (simp add: quote_vol.total_is_sum)

lemma contribution_loop_row:
  assumes "e \<in> set (fst (contribution_loop ts [] 0))"
  shows "snd e = source_accum (fst e) ts"
proof -
  have "map_of (fst (contribution_loop ts [] 0)) (fst e) = Some (snd e)"
    using assms contribution_loop_keys(1) [of "[]" ts 0] by (auto intro: map_of_is_SomeI)
  then show ?thesis
    by (auto simp: contribution_loop_lookup accum_add_def split: if_splits)
qed

lemma SourceContributions_eq:
  "SourceContributions ts =
     map (\<lambda>s. case source_accum s ts of (b, q, n) \<Rightarrow>
            \<lparr>sc_Source = s, sc_Weight = SetFrac q (BigInt (TotalQuoteVolume ts)), sc_BaseVolume = b,
             sc_QuoteVolume = q, sc_TradeCount = n\<rparr>)
       (map fst (fst (contribution_loop ts [] 0)))"
proof (cases "priced ts = []")
  case True
  have "fst ` set (fst (contribution_loop ts [] 0)) = {}"
    by (simp only: contribution_loop_keys True) simp
  then have "fst (contribution_loop ts [] 0) = []" by simp
  moreover have "snd (contribution_loop ts [] 0) = 0"
    by (simp add: contribution_loop_total quote_vol.total_is_sum True)
  ultimately show ?thesis by (simp add: SourceContributions_def split_beta)
next
  case False
  have tq: "snd (contribution_loop ts [] 0) \<noteq> 0"
    using False quote_vol.total_zero_iff [of ts] by (simp add: contribution_loop_total)
  then show ?thesis using False contribution_loop_row [of _ ts]
    by (auto simp: SourceContributions_def split_beta contribution_loop_total)
qed

lemma contribution_quotes_sum:
  "sum_list (map sc_QuoteVolume (SourceContributions ts)) = BigInt (TotalQuoteVolume ts)"
proof -
  let ?bs = "fst (contribution_loop ts [] 0)"
  have "snd e = source_accum (fst e) ts" if "e \<in> set ?bs" for e
    using that by (rule contribution_loop_row)
  then have "map sc_QuoteVolume (SourceContributions ts) = map ((fst \<circ> snd) \<circ> snd) ?bs"
    by (auto simp: SourceContributions_eq split_beta)
  then show ?thesis using contribution_loop_quotes [of "[]" ts 0] by simp
qed

lemma contribution_weight_sum:
  "sum_list (map sc_Weight (SourceContributions ts))
     = SetFrac (sum_list (map sc_QuoteVolume (SourceContributions ts))) (BigInt (TotalQuoteVolume ts))"
  by (simp add: SourceContributions_eq SetFrac_def o_def split_beta of_int_sum_list_map divide_inverse
      sum_list_mult_const)

text \<open>
  The contribution table has one row per source with a priced trade, each row holding that
  source's exact volumes, trade count and share of the quote volume, every share is in \<open>(0, 1]\<close>, and
  the shares of a priced window sum to exactly 1.
\<close>

theorem SourceContributions_partition:
  "distinct (map sc_Source (SourceContributions ts)) \<and>
   sc_Source ` set (SourceContributions ts) = Source ` set (priced ts) \<and>
   (c \<in> set (SourceContributions ts) \<longrightarrow>
      (sc_BaseVolume c, sc_QuoteVolume c, sc_TradeCount c) = source_accum (sc_Source c) ts \<and>
      sc_Weight c = SetFrac (sc_QuoteVolume c) (BigInt (TotalQuoteVolume ts)) \<and>
      0 < sc_Weight c \<and> sc_Weight c \<le> 1) \<and>
   (priced ts \<noteq> [] \<longrightarrow> sum_list (map sc_Weight (SourceContributions ts)) = 1)"
proof (intro conjI impI)
  let ?ks = "map fst (fst (contribution_loop ts [] 0))"
  have keys: "map sc_Source (SourceContributions ts) = ?ks"
    by (simp add: SourceContributions_eq o_def split_beta source_accum_def)
  show "distinct (map sc_Source (SourceContributions ts))"
    unfolding keys by (rule contribution_loop_keys) simp
  have "set ?ks = Source ` set (priced ts)" using contribution_loop_keys(2) [of ts "[]" 0] by simp
  then show srcs: "sc_Source ` set (SourceContributions ts) = Source ` set (priced ts)"
    unfolding keys [symmetric] by simp
  show "sum_list (map sc_Weight (SourceContributions ts)) = 1" if ne: "priced ts \<noteq> []"
    using contribution_quotes_sum [of ts] quote_vol.total_zero_iff [of ts] ne
    by (simp add: contribution_weight_sum SetFrac_def)
  assume c: "c \<in> set (SourceContributions ts)"
  then show row: "(sc_BaseVolume c, sc_QuoteVolume c, sc_TradeCount c) = source_accum (sc_Source c) ts"
    and w: "sc_Weight c = SetFrac (sc_QuoteVolume c) (BigInt (TotalQuoteVolume ts))"
    by (auto simp: SourceContributions_eq source_accum_def)
  have "sc_Source c \<in> Source ` set (priced ts)" using c srcs by blast
  then have ne: "priced_of (sc_Source c) ts \<noteq> []" by (auto simp: filter_empty_conv)
  have "sum_list (map (\<lambda>_. 0) (priced_of (sc_Source c) ts)) < sum_list (map quote_of (priced_of (sc_Source c) ts))"
    using ne by (rule sum_list_strict_mono) (auto simp: priceable_def)
  then have q: "0 < sc_QuoteVolume c" using row by (simp add: source_accum_def)
  have "sc_QuoteVolume c \<le> BigInt (TotalQuoteVolume ts)"
    using row sum_list_filter_le [of "priced ts" quote_of "\<lambda>t. Source t = sc_Source c"]
    by (simp add: source_accum_def quote_vol.total_is_sum priceable_def)
  then show "0 < sc_Weight c" "sc_Weight c \<le> 1" using q by (auto simp: w SetFrac_def)
qed

section \<open>OHLC bars\<close>

definition bar_of :: "rat list \<Rightarrow> ohlc_bar" where
  "bar_of ps = (if ps = [] then None
     else Some (hd ps, Max (set ps), Min (set ps), last ps, length ps))"

lemma running_max: "(if h < x then x else h) = max x (h :: rat)"
  and running_min: "(if x < l then x else l) = min x (l :: rat)"
  by (auto simp: max_def min_def)

lemma ohlc_loop_eq:
  "ohlc_loop ts (bar_of ps) tb tq =
     (bar_of (ps @ map trade_price (priced ts)), tb + BigInt (TotalBaseVolume ts), tq + BigInt (TotalQuoteVolume ts))"
proof (induction ts arbitrary: ps tb tq)
  case (Cons t ts)
  show ?case
  proof (cases "priceable t")
    case True
    have "(case bar_of ps of
              None \<Rightarrow> (trade_price t, trade_price t, trade_price t, trade_price t, 1)
            | Some (op, hi, lo, cl, n) \<Rightarrow>
                (op, if hi < trade_price t then trade_price t else hi,
                 if trade_price t < lo then trade_price t else lo, trade_price t, n + 1))
        = the (bar_of (ps @ [trade_price t]))"
      unfolding running_max running_min by (cases "ps = []") (simp_all add: bar_of_def)
    moreover have "Some (the (bar_of (ps @ [trade_price t]))) = bar_of (ps @ [trade_price t])"
      by (simp add: bar_of_def)
    ultimately show ?thesis
      using True Cons.IH [of "ps @ [trade_price t]" "tb + base_of t" "tq + quote_of t"]
      by (simp add: Let_def priceable_def trade_price_def [symmetric] base_vol.total_is_sum quote_vol.total_is_sum)
  next
    case False
    then show ?thesis using Cons.IH [of ps tb tq]
      by (auto simp: Let_def priceable_def base_vol.total_is_sum quote_vol.total_is_sum)
  qed
qed (simp add: base_vol.total_is_sum quote_vol.total_is_sum)

lemma NewAmount_BigInt_total:
  "NewAmount (Some (BigInt (TotalBaseVolume ts))) = TotalBaseVolume ts"
  "NewAmount (Some (BigInt (TotalQuoteVolume ts))) = TotalQuoteVolume ts"
  by (simp_all add: TotalBaseVolume_def TotalQuoteVolume_def NewAmount_def)

lemma ComputeOHLC_eq:
  "ComputeOHLC ts =
     (if priced ts = [] then Inl ErrNoTrades
      else Inr \<lparr>Open = trade_price (hd (priced ts)), High = Max (trade_price ` set (priced ts)),
        Low = Min (trade_price ` set (priced ts)), Close = trade_price (last (priced ts)),
        BaseVolume = TotalBaseVolume ts, QuoteVolume = TotalQuoteVolume ts, TradeCount = length (priced ts)\<rparr>)"
proof (cases "ts = []")
  case False
  have "ohlc_loop ts None 0 0 =
      (bar_of (map trade_price (priced ts)), BigInt (TotalBaseVolume ts), BigInt (TotalQuoteVolume ts))"
    using ohlc_loop_eq [of ts "[]" 0 0] by (simp add: bar_of_def [of "[]"])
  then show ?thesis using False
    by (simp add: ComputeOHLC_def bar_of_def NewAmount_BigInt_total hd_map last_map)
qed (simp add: ComputeOHLC_def)

text \<open>
  The bar of a window is exact: open and close are the first and last priced trade, high and low
  the extreme prices, the volumes the numerator and denominator of the volume weighted price, which
  lies between low and high; the bar exists exactly when the window has a price.
\<close>

theorem ComputeOHLC_exact:
  "(ComputeOHLC ts = Inl ErrNoTrades \<longleftrightarrow> priced ts = []) \<and>
   (ComputeOHLC ts = Inr bar \<longrightarrow>
      Open bar = trade_price (hd (priced ts)) \<and> Close bar = trade_price (last (priced ts)) \<and>
      High bar = Max (trade_price ` set (priced ts)) \<and> Low bar = Min (trade_price ` set (priced ts)) \<and>
      BaseVolume bar = TotalBaseVolume ts \<and> QuoteVolume bar = TotalQuoteVolume ts \<and>
      TradeCount bar = length (priced ts) \<and>
      (\<exists>p. VWAP \<lparr>sw_trades = ts, sw_decimals = d\<rparr> = Inr p \<and> Low bar \<le> p \<and> p \<le> High bar))"
proof (intro conjI impI)
  show "ComputeOHLC ts = Inl ErrNoTrades \<longleftrightarrow> priced ts = []" by (simp add: ComputeOHLC_eq)
  assume "ComputeOHLC ts = Inr bar"
  then have ne: "priced ts \<noteq> []"
    and b: "bar = \<lparr>Open = trade_price (hd (priced ts)), High = Max (trade_price ` set (priced ts)),
      Low = Min (trade_price ` set (priced ts)), Close = trade_price (last (priced ts)),
      BaseVolume = TotalBaseVolume ts, QuoteVolume = TotalQuoteVolume ts, TradeCount = length (priced ts)\<rparr>"
    by (simp_all add: ComputeOHLC_eq split: if_splits)
  then show "Open bar = trade_price (hd (priced ts))" "Close bar = trade_price (last (priced ts))"
    "High bar = Max (trade_price ` set (priced ts))" "Low bar = Min (trade_price ` set (priced ts))"
    "BaseVolume bar = TotalBaseVolume ts" "QuoteVolume bar = TotalQuoteVolume ts"
    "TradeCount bar = length (priced ts)"
    by simp_all
  obtain p where p: "VWAP \<lparr>sw_trades = ts, sw_decimals = d\<rparr> = Inr p" using ne by (simp add: VWAP_eq)
  then show "\<exists>p. VWAP \<lparr>sw_trades = ts, sw_decimals = d\<rparr> = Inr p \<and> Low bar \<le> p \<and> p \<le> High bar"
    using VWAP_between [OF p] by (auto simp: b intro!: Min_le_iff [THEN iffD2] Max_ge_iff [THEN iffD2])
qed

theorem SourceContributions_partition_witness:
  "(\<lparr>sc_Source = ''binance'', sc_Weight = 1 / 4, sc_BaseVolume = 500, sc_QuoteVolume = 50, sc_TradeCount = 1\<rparr>
      \<in> set (SourceContributions sample_window)) \<and>
   sum_list (map sc_Weight (SourceContributions sample_window)) = 1"
proof -
  have "\<lparr>sc_Source = ''binance'', sc_Weight = 1 / 4, sc_BaseVolume = 500, sc_QuoteVolume = 50, sc_TradeCount = 1\<rparr>
      \<in> set (SourceContributions sample_window)" "priced sample_window \<noteq> []" by code_simp+
  then show ?thesis using SourceContributions_partition [of sample_window] by blast
qed

theorem ComputeOHLC_exact_witness:
  "\<exists>bar. ComputeOHLC sample_window = Inr bar \<and> High bar = Max (trade_price ` set (priced sample_window)) \<and>
     BaseVolume bar = TotalBaseVolume sample_window \<and> TradeCount bar = 3"
proof -
  obtain bar where bar: "ComputeOHLC sample_window = Inr bar"
    by (cases "ComputeOHLC sample_window") (simp_all add: ComputeOHLC_eq sample_window_def NewAmount_def priceable_def)
  have "length (priced sample_window) = 3" by code_simp
  then show ?thesis using ComputeOHLC_exact [of sample_window bar] bar by auto
qed

section \<open>The time weighted price\<close>

text \<open>
  Reference semantics: the trades grouped by instant, the instants with a priced trade, and the slot
  each of them is current for, up to the next priced instant or the end of the window.
\<close>

function instants :: "Trade list \<Rightarrow> (gotime \<times> Trade list) list" where
  "instants [] = []"
| "instants (t # ts) =
     (Timestamp t, priced (t # takeWhile (\<lambda>u. Timestamp u = Timestamp t) ts)) #
     instants (dropWhile (\<lambda>u. Timestamp u = Timestamp t) ts)"
  by pat_completeness auto
termination by (relation "measure length") (auto simp: le_imp_less_Suc length_dropWhile_le)

definition priced_instants :: "Trade list \<Rightarrow> (gotime \<times> Trade list) list" where
  "priced_instants ts = filter (\<lambda>(_, g). g \<noteq> []) (instants ts)"

fun slots :: "(gotime \<times> Trade list) list \<Rightarrow> gotime \<Rightarrow> (Trade list \<times> duration) list" where
  "slots [] windowEnd = []"
| "slots [(start, g)] windowEnd = [(g, time_Sub windowEnd start)]"
| "slots ((start, g) # (start', g') # is) windowEnd =
     (g, time_Sub start' start) # slots ((start', g') # is) windowEnd"

definition open_slots :: "Trade list \<Rightarrow> gotime \<Rightarrow> (Trade list \<times> duration) list" where
  "open_slots ts windowEnd = filter (\<lambda>(_, dur). 0 < dur) (slots (priced_instants ts) windowEnd)"

definition instant_price :: "Trade list \<Rightarrow> rat" where
  "instant_price g = SetFrac (sum_list (map quote_of g)) (sum_list (map base_of g))"

definition exact_twap :: "(Trade list \<times> duration) list \<Rightarrow> rat" where
  "exact_twap ss = (\<Sum>(g, d)\<leftarrow>ss. instant_price g * of_int d) / of_int (\<Sum>(g, d)\<leftarrow>ss. d)"

definition absorb :: "gotime \<times> Trade list \<Rightarrow> twap_state \<Rightarrow> twap_state" where
  "absorb i s = (close_slot (fst i) s)
     \<lparr>pending := Some (sum_list (map base_of (snd i)), sum_list (map quote_of (snd i)), fst i, length (snd i))\<rparr>"

lemma instantVolumes_eq:
  "instantVolumes ts = (sum_list (map base_of (priced ts)), sum_list (map quote_of (priced ts)), length (priced ts))"
proof -
  have "instant_volumes_loop ts b q n =
      (b + sum_list (map base_of (priced ts)), q + sum_list (map quote_of (priced ts)), n + length (priced ts))" for b q n
    by (induction ts arbitrary: b q n) auto
  then show ?thesis by (simp add: instantVolumes_def)
qed

lemma instant_scan_eq:
  "j \<le> length trades \<Longrightarrow>
   instant_scan trades i j = j + length (takeWhile (\<lambda>u. Timestamp u = Timestamp (trades ! i)) (drop j trades))"
proof (induction trades i j rule: instant_scan.induct)
  case (1 trades i j)
  then show ?case
    by (cases "j < length trades"; subst instant_scan.simps)
      (auto simp: Cons_nth_drop_Suc [symmetric])
qed

lemma take_takeWhile_length: "take (length (takeWhile P xs)) xs = takeWhile P xs"
  by (metis takeWhile_eq_take)

lemma instantEnd_Inr:
  assumes "i < length trades" "\<not> (0 < i \<and> Timestamp (trades ! i) < Timestamp (trades ! (i - 1)))"
  defines "same \<equiv> \<lambda>u. Timestamp u = Timestamp (trades ! i)"
  shows "\<exists>j. instantEnd trades i = Inr j \<and> i < j \<and> j \<le> length trades \<and>
     take (j - i) (drop i trades) = trades ! i # takeWhile same (drop (Suc i) trades) \<and>
     drop j trades = dropWhile same (drop (Suc i) trades)"
proof (intro exI conjI)
  let ?j = "Suc i + length (takeWhile same (drop (Suc i) trades))"
  show "instantEnd trades i = Inr ?j"
    using assms(1,2) instant_scan_eq [of "Suc i" trades i] by (auto simp: instantEnd_def same_def)
  show "?j \<le> length trades" using assms(1) length_takeWhile_le [of same "drop (Suc i) trades"] by simp
  show "take (?j - i) (drop i trades) = trades ! i # takeWhile same (drop (Suc i) trades)"
    using assms(1) by (simp add: Cons_nth_drop_Suc [symmetric] take_takeWhile_length)
  show "drop ?j trades = dropWhile same (drop (Suc i) trades)"
    by (simp add: dropWhile_eq_drop add.commute)
qed simp

lemma twap_loop_step:
  assumes "i < length trades" "\<not> (0 < i \<and> Timestamp (trades ! i) < Timestamp (trades ! (i - 1)))"
  shows "\<exists>j. i < j \<and> j \<le> length trades \<and> (\<forall>k. i \<le> k \<and> k < j \<longrightarrow> Timestamp (trades ! k) = Timestamp (trades ! i)) \<and>
    (\<exists>g. instants (drop i trades) = (Timestamp (trades ! i), g) # instants (drop j trades) \<and>
     twap_loop trades i s = twap_loop trades j (if g \<noteq> [] then absorb (Timestamp (trades ! i), g) s else s))"
proof -
  obtain j where j: "instantEnd trades i = Inr j" "i < j" "j \<le> length trades"
    "take (j - i) (drop i trades) = trades ! i # takeWhile (\<lambda>u. Timestamp u = Timestamp (trades ! i)) (drop (Suc i) trades)"
    "drop j trades = dropWhile (\<lambda>u. Timestamp u = Timestamp (trades ! i)) (drop (Suc i) trades)"
    using instantEnd_Inr [OF assms] by blast
  have "Timestamp (trades ! k) = Timestamp (trades ! i)" if "i \<le> k" "k < j" for k
  proof -
    have "trades ! k = take (j - i) (drop i trades) ! (k - i)" using that j(3) by simp
    also have "\<dots> \<in> set (take (j - i) (drop i trades))" using that j(3) by (intro nth_mem) simp
    finally show ?thesis unfolding j(4) by (auto dest: set_takeWhileD)
  qed
  moreover have "instants (drop i trades) = (Timestamp (trades ! i), priced (take (j - i) (drop i trades))) # instants (drop j trades)"
    using assms(1) unfolding j(4) j(5) by (simp add: Cons_nth_drop_Suc [symmetric])
  moreover have "twap_loop trades i s = twap_loop trades j
     (if priced (take (j - i) (drop i trades)) \<noteq> [] then absorb (Timestamp (trades ! i), priced (take (j - i) (drop i trades))) s else s)"
    using assms(1) j(1) by (subst twap_loop.simps) (simp add: instantVolumes_eq absorb_def)
  ultimately show ?thesis using j(2,3) by blast
qed

lemma twap_loop_sorted:
  assumes "sorted (map Timestamp trades)" "i \<le> length trades"
  shows "twap_loop trades i s = Inr (fold absorb (priced_instants (drop i trades)) s)"
  using assms(2)
proof (induction "length trades - i" arbitrary: i s rule: less_induct)
  case less
  show ?case
  proof (cases "i < length trades")
    case True
    have "\<not> (0 < i \<and> Timestamp (trades ! i) < Timestamp (trades ! (i - 1)))"
      using sorted_nth_mono [OF assms(1), of "i - 1" i] True by auto
    from twap_loop_step [OF True this, of s] obtain j g where j: "i < j" "j \<le> length trades"
      "instants (drop i trades) = (Timestamp (trades ! i), g) # instants (drop j trades)"
      "twap_loop trades i s = twap_loop trades j (if g \<noteq> [] then absorb (Timestamp (trades ! i), g) s else s)"
      by blast
    have "length trades - j < length trades - i" using j(1,2) by simp
    from less.hyps [OF this j(2)] show ?thesis
      unfolding j(4) by (simp add: priced_instants_def j(3))
  qed (use less.prems in \<open>simp add: twap_loop.simps priced_instants_def\<close>)
qed

lemma twap_loop_unsorted:
  assumes "max 1 i \<le> k" "k < length trades" "Timestamp (trades ! k) < Timestamp (trades ! (k - 1))"
  shows "twap_loop trades i s = Inl ErrUnsortedTrades"
  using assms(1)
proof (induction "length trades - i" arbitrary: i s rule: less_induct)
  case less
  then have i: "i < length trades" using assms(2) by simp
  show ?case
  proof (cases "0 < i \<and> Timestamp (trades ! i) < Timestamp (trades ! (i - 1))")
    case True
    then show ?thesis using i by (subst twap_loop.simps) (simp add: instantEnd_def)
  next
    case False
    from twap_loop_step [OF i this, of s] obtain j g where j: "i < j" "j \<le> length trades"
      "\<forall>k. i \<le> k \<and> k < j \<longrightarrow> Timestamp (trades ! k) = Timestamp (trades ! i)"
      "twap_loop trades i s = twap_loop trades j (if g \<noteq> [] then absorb (Timestamp (trades ! i), g) s else s)"
      by blast
    have "\<not> k < j"
    proof
      assume "k < j"
      show False
      proof (cases "k = i")
        case False
        then have "i \<le> k - 1" "k - 1 < j" using less.prems \<open>k < j\<close> by auto
        then show False using j(3) \<open>k < j\<close> assms(3) less.prems by (metis less_irrefl max.bounded_iff)
      qed (use assms(3) False less.prems in auto)
    qed
    then show ?thesis unfolding j(4) using less.hyps [of j] j(1,2) less.prems by simp
  qed
qed

lemma time_Sub_nonpos [simp]: "time_Sub t u \<le> 0 \<longleftrightarrow> t \<le> u"
  by (auto simp: time_Sub_def min_int64_def max_int64_def)

definition slot_term :: "Trade list \<times> duration \<Rightarrow> int" where
  "slot_term = (\<lambda>(g, d). go_quo (sum_list (map quote_of g) * twapScale * d) (sum_list (map base_of g)))"

definition slot_sums :: "(Trade list \<times> duration) list \<Rightarrow> twap_state \<Rightarrow> int \<times> int \<times> nat" where
  "slot_sums ss s =
     (weightedSum s + sum_list (map slot_term ss), totalNanos s + sum_list (map snd ss),
      weighted s + sum_list (map (length \<circ> fst) ss))"

definition totals :: "twap_state \<Rightarrow> int \<times> int \<times> nat" where
  "totals s = (weightedSum s, totalNanos s, weighted s)"

text \<open>Folding the instants and closing the last slot accrues exactly the slots of positive length.\<close>

lemma close_fold_pending:
  "pending s = Some (sum_list (map base_of g), sum_list (map quote_of g), start, length g) \<Longrightarrow>
   totals (close_slot e (fold absorb is s)) = slot_sums (filter (\<lambda>(_, d). 0 < d) (slots ((start, g) # is) e)) s"
proof (induction "is" arbitrary: s start g)
  case Nil
  then show ?case
    by (auto simp: totals_def slot_sums_def close_slot_def accrueTWAPSlot_def slot_term_def Let_def)
next
  case (Cons i "is")
  obtain start' g' where i: "i = (start', g')" by (cases i)
  have "pending (absorb i s) = Some (sum_list (map base_of g'), sum_list (map quote_of g'), start', length g')"
    by (simp add: absorb_def i)
  from Cons.IH [OF this] show ?case using Cons.prems
    by (auto simp: i slot_sums_def absorb_def close_slot_def accrueTWAPSlot_def slot_term_def Let_def)
qed

lemma close_fold:
  assumes "pending s = None"
  shows "totals (close_slot e (fold absorb is s)) = slot_sums (filter (\<lambda>(_, d). 0 < d) (slots is e)) s"
proof (cases "is")
  case Nil
  then show ?thesis using assms by (simp add: totals_def slot_sums_def close_slot_def)
next
  case (Cons i is')
  obtain start g where i: "i = (start, g)" by (cases i)
  have "absorb i s = s\<lparr>pending := Some (sum_list (map base_of g), sum_list (map quote_of g), start, length g)\<rparr>"
    using assms by (simp add: absorb_def close_slot_def i)
  then show ?thesis unfolding Cons i
    using close_fold_pending [of "absorb i s" g start e is'] by (simp add: slot_sums_def i)
qed

lemma open_nanos_pos: "int (length (open_slots ts e)) \<le> sum_list (map snd (open_slots ts e))"
  and open_nanos_nonempty: "open_slots ts e \<noteq> [] \<Longrightarrow> 0 < sum_list (map snd (open_slots ts e))"
proof -
  have "sum_list (map (\<lambda>_. 1) (open_slots ts e)) \<le> sum_list (map snd (open_slots ts e))"
    by (rule sum_list_mono) (auto simp: open_slots_def)
  then show le: "int (length (open_slots ts e)) \<le> sum_list (map snd (open_slots ts e))"
    by (simp add: sum_list_triv)
  then show "0 < sum_list (map snd (open_slots ts e))" if "open_slots ts e \<noteq> []"
    using that length_greater_0_conv [of "open_slots ts e"] by linarith
qed

lemma TWAPWithCount_sorted:
  assumes "sorted (map Timestamp ts)"
  shows "TWAPWithCount ts e =
    (let ss = open_slots ts e in
     if ss = [] then Inl ErrNoTrades
     else Inr (SetFrac (sum_list (map slot_term ss)) (sum_list (map snd ss) * twapScale),
               sum_list (map (length \<circ> fst) ss)))"
proof (cases "ts = []")
  case False
  let ?init = "\<lparr>weightedSum = 0, totalNanos = 0, weighted = 0, pending = None\<rparr>"
  let ?s = "close_slot e (fold absorb (priced_instants ts) ?init)"
  have tot: "totals ?s = slot_sums (open_slots ts e) ?init"
    unfolding open_slots_def by (rule close_fold) simp
  have nn: "sum_list (map snd (open_slots ts e)) \<le> 0 \<longleftrightarrow> open_slots ts e = []"
    using open_nanos_nonempty [of ts e] by (cases "open_slots ts e = []") auto
  show ?thesis using False tot nn twap_loop_sorted [OF assms, of 0 ?init]
    by (auto simp: TWAPWithCount_def totals_def slot_sums_def Let_def)
qed (simp add: TWAPWithCount_def open_slots_def priced_instants_def)

lemma open_slot_base:
  assumes "(g, d) \<in> set (open_slots ts e)"
  shows "0 < d" "0 < sum_list (map base_of g)" "0 \<le> sum_list (map quote_of g)"
proof -
  have sub: "set (map fst (slots xs e)) \<subseteq> set (map snd xs)" for xs
    by (induction xs e rule: slots.induct) auto
  have inst: "\<forall>i\<in>set (instants us). \<forall>t\<in>set (snd i). priceable t" for us
    by (induction us rule: instants.induct) auto
  show "0 < d" using assms by (auto simp: open_slots_def)
  have "(g, d) \<in> set (slots (priced_instants ts) e)" using assms by (simp add: open_slots_def)
  then have "g \<in> set (map snd (priced_instants ts))" using sub [of "priced_instants ts"] by force
  then obtain st where "(st, g) \<in> set (instants ts)" "g \<noteq> []" by (auto simp: priced_instants_def)
  then have g: "g \<noteq> []" "\<forall>t\<in>set g. priceable t" using inst [of ts] by auto
  have "sum_list (map (\<lambda>_. 0) g) < sum_list (map base_of g)"
    using g by (intro sum_list_strict_mono) (auto simp: priceable_def)
  then show "0 < sum_list (map base_of g)" by simp
  show "0 \<le> sum_list (map quote_of g)"
    using g by (intro sum_list_nonneg) (auto simp: priceable_def)
qed

lemma slot_term_bounds:
  assumes "gd \<in> set (open_slots ts e)"
  shows "0 \<le> slot_term gd" "of_int (slot_term gd) \<le> instant_price (fst gd) * of_int (snd gd) * of_int twapScale"
    and "instant_price (fst gd) * of_int (snd gd) * of_int twapScale < of_int (slot_term gd) + 1"
proof -
  obtain g d where gd: "gd = (g, d)" by (cases gd)
  define B Q where "B = sum_list (map base_of g)" and "Q = sum_list (map quote_of g)"
  have pos: "0 < d" "0 < B" "0 \<le> Q"
    using open_slot_base [of g d ts e] assms by (simp_all add: gd B_def Q_def)
  then have nn: "0 \<le> Q * twapScale * d" by (simp add: twapScale_def)
  then have st: "slot_term gd = (Q * twapScale * d) div B"
    using pos by (simp add: slot_term_def gd B_def Q_def go_quo_nonneg)
  show "0 \<le> slot_term gd" using nn pos by (simp add: st pos_imp_zdiv_nonneg_iff)
  have "(Q * twapScale * d) div B * B \<le> Q * twapScale * d" "Q * twapScale * d < (Q * twapScale * d) div B * B + B"
    using div_mult_mod_eq [of "Q * twapScale * d" B] pos_mod_bound [OF pos(2), of "Q * twapScale * d"]
      pos_mod_sign [OF pos(2), of "Q * twapScale * d"] by linarith+
  then have "(of_int (slot_term gd * B) :: rat) \<le> of_int (Q * twapScale * d)"
    "(of_int (Q * twapScale * d) :: rat) < of_int (slot_term gd * B + B)"
    unfolding st by (simp_all only: of_int_le_iff of_int_less_iff)
  then show "of_int (slot_term gd) \<le> instant_price (fst gd) * of_int (snd gd) * of_int twapScale"
    "instant_price (fst gd) * of_int (snd gd) * of_int twapScale < of_int (slot_term gd) + 1"
    using pos(2) by (simp_all add: gd instant_price_def SetFrac_def field_simps B_def Q_def)
qed

text \<open>
  The fixed-point sum is below the exact weighted sum by less than one unit per slot, hence by less
  than the total duration.
\<close>

lemma slot_terms_close:
  fixes ts e
  defines "ss \<equiv> open_slots ts e"
  assumes "ss \<noteq> []"
  shows "of_int (sum_list (map slot_term ss)) \<le> (\<Sum>(g, d)\<leftarrow>ss. instant_price g * of_int d) * of_int twapScale"
    and "(\<Sum>(g, d)\<leftarrow>ss. instant_price g * of_int d) * of_int twapScale
          < of_int (sum_list (map slot_term ss)) + of_int (sum_list (map snd ss))"
proof -
  have ex: "(\<Sum>(g, d)\<leftarrow>ss. instant_price g * of_int d) * of_int twapScale
      = (\<Sum>gd\<leftarrow>ss. instant_price (fst gd) * of_int (snd gd) * of_int twapScale)"
    by (simp add: case_prod_unfold sum_list_mult_const)
  have b: "of_int (slot_term gd) \<le> instant_price (fst gd) * of_int (snd gd) * of_int twapScale"
    "instant_price (fst gd) * of_int (snd gd) * of_int twapScale < of_int (slot_term gd) + 1"
    if "gd \<in> set ss" for gd using slot_term_bounds [of gd ts e] that by (simp_all add: ss_def)
  show "of_int (sum_list (map slot_term ss)) \<le> (\<Sum>(g, d)\<leftarrow>ss. instant_price g * of_int d) * of_int twapScale"
    unfolding ex of_int_sum_list_map by (rule sum_list_mono) (rule b)
  have "(\<Sum>gd\<leftarrow>ss. instant_price (fst gd) * of_int (snd gd) * of_int twapScale) < (\<Sum>gd\<leftarrow>ss. of_int (slot_term gd) + 1)"
    using assms(2) b(2) by (rule sum_list_strict_mono)
  also have "\<dots> = of_int (sum_list (map slot_term ss)) + of_int (int (length ss))"
    by (simp add: of_int_sum_list_map sum_list_addf sum_list_triv)
  also have "\<dots> \<le> of_int (sum_list (map slot_term ss)) + of_int (sum_list (map snd ss))"
    using open_nanos_pos [of ts e] assms(2) unfolding ss_def by (simp only: add_le_cancel_left of_int_le_iff)
  finally show "(\<Sum>(g, d)\<leftarrow>ss. instant_price g * of_int d) * of_int twapScale
          < of_int (sum_list (map slot_term ss)) + of_int (sum_list (map snd ss))" unfolding ex .
qed

text \<open>
  C37. The time weighted price is the duration-weighted mean of the instants' volume weighted prices,
  rounded down by less than \<open>10\<^sup>-\<^sup>4\<^sup>0\<close>, with the count of the trades that carried weight: each priced
  instant is current until the next priced one or the window's end. An unsorted input, and only
  that, is refused as unsorted; a window in which no priced instant has a positive slot has no price.
\<close>

theorem TWAPWithCount_accurate:
  "(TWAPWithCount ts e = Inl ErrUnsortedTrades \<longleftrightarrow> \<not> sorted (map Timestamp ts)) \<and>
   (sorted (map Timestamp ts) \<longrightarrow>
      (if open_slots ts e = [] then TWAPWithCount ts e = Inl ErrNoTrades
       else \<exists>p. TWAPWithCount ts e = Inr (p, sum_list (map (length \<circ> fst) (open_slots ts e))) \<and> 0 \<le> p \<and>
              p \<le> exact_twap (open_slots ts e) \<and> exact_twap (open_slots ts e) < p + 1 / 10 ^ 40))"
proof (intro conjI impI)
  show unsorted: "TWAPWithCount ts e = Inl ErrUnsortedTrades \<longleftrightarrow> \<not> sorted (map Timestamp ts)"
  proof (cases "sorted (map Timestamp ts)")
    case True
    then show ?thesis by (simp add: TWAPWithCount_sorted Let_def)
  next
    case False
    then obtain k where "Suc k < length ts" "\<not> Timestamp (ts ! k) \<le> Timestamp (ts ! Suc k)"
      by (auto simp: sorted_iff_nth_Suc)
    then have "twap_loop ts 0 s = Inl ErrUnsortedTrades" for s
      by (intro twap_loop_unsorted [of 0 "Suc k"]) auto
    then show ?thesis using False by (auto simp: TWAPWithCount_def)
  qed
  assume sorted: "sorted (map Timestamp ts)"
  show "if open_slots ts e = [] then TWAPWithCount ts e = Inl ErrNoTrades
       else \<exists>p. TWAPWithCount ts e = Inr (p, sum_list (map (length \<circ> fst) (open_slots ts e))) \<and> 0 \<le> p \<and>
              p \<le> exact_twap (open_slots ts e) \<and> exact_twap (open_slots ts e) < p + 1 / 10 ^ 40"
  proof (cases "open_slots ts e = []")
    case True
    then show ?thesis using sorted by (simp add: TWAPWithCount_sorted Let_def)
  next
    case False
    define W T X where "W = (of_int (sum_list (map slot_term (open_slots ts e))) :: rat)"
      and "T = (of_int (sum_list (map snd (open_slots ts e))) :: rat)"
      and "X = (\<Sum>(g, d)\<leftarrow>open_slots ts e. instant_price g * of_int d)"
    define S :: rat where "S = 10 ^ 40"
    have S: "0 < S" "of_int twapScale = S" by (simp_all add: S_def twapScale_def)
    have T: "0 < T" using open_nanos_nonempty [OF False] by (simp add: T_def)
    have W: "0 \<le> W" unfolding W_def of_int_0_le_iff by (rule sum_list_nonneg) (auto intro: slot_term_bounds)
    have le: "W \<le> X * S" and lt: "X * S < W + T"
      using slot_terms_close [OF False] by (simp_all add: W_def T_def X_def S(2))
    have "TWAPWithCount ts e = Inr (W / (T * S), sum_list (map (length \<circ> fst) (open_slots ts e)))"
      using sorted False by (simp add: TWAPWithCount_sorted Let_def SetFrac_def W_def T_def flip: S(2))
    moreover have "exact_twap (open_slots ts e) = X / T" by (simp add: exact_twap_def X_def T_def case_prod_unfold)
    moreover have "0 \<le> W / (T * S)" using W T S by simp
    moreover have "W / (T * S) \<le> X / T" using le T S by (simp add: divide_simps mult_ac)
    moreover have "X / T < W / (T * S) + 1 / S" using lt T S by (simp add: divide_simps mult_ac distrib_right)
    ultimately show ?thesis using False by (simp add: S_def)
  qed
qed

theorem TWAPWithCount_accurate_witness:
  "sorted (map Timestamp sample_window) \<and> open_slots sample_window 400 \<noteq> [] \<and>
   (\<exists>p. TWAPWithCount sample_window 400 = Inr (p, 3) \<and> p \<le> exact_twap (open_slots sample_window 400) \<and>
        exact_twap (open_slots sample_window 400) < p + 1 / 10 ^ 40)"
proof -
  have "sorted (map Timestamp sample_window)" "open_slots sample_window 400 \<noteq> []"
    "sum_list (map (length \<circ> fst) (open_slots sample_window 400)) = 3" by code_simp+
  then show ?thesis using TWAPWithCount_accurate [of sample_window 400] by auto
qed

definition tiny_price_trade :: Trade where
  "tiny_price_trade = sample_trade\<lparr>BaseAmount := NewAmount (Some (3 * 10 ^ 37)), QuoteAmount := NewAmount (Some 1), Timestamp := 5\<rparr>"

text \<open>
  The truncation bound of the time weighted price is absolute, not relative: one trade of
  \<open>3 \<sqdot> 10\<^sup>3\<^sup>7\<close> base units (an i128 amount) for one quote unit, current for one nanosecond, is served at a
  price that is too low by a thousandth.
\<close>

lemma twap_relative_error:
  "TWAP [tiny_price_trade] 6 = Inr (333 / 10 ^ 40) \<and> exact_twap (open_slots [tiny_price_trade] 6) = 1 / (3 * 10 ^ 37) \<and>
   exact_twap (open_slots [tiny_price_trade] 6) - 333 / 10 ^ 40 = exact_twap (open_slots [tiny_price_trade] 6) / 10 ^ 3"
proof -
  have legs: "base_of tiny_price_trade = 3 * 10 ^ 37" "quote_of tiny_price_trade = 1" "Timestamp tiny_price_trade = 5"
    by (simp_all add: tiny_price_trade_def NewAmount_def)
  then have "open_slots [tiny_price_trade] 6 = [([tiny_price_trade], 1)]"
    by (simp add: open_slots_def priced_instants_def priceable_def time_Sub_def max_int64_def min_int64_def)
  moreover have "slot_term ([tiny_price_trade], 1) = 333"
    by (simp add: slot_term_def legs twapScale_def go_quo_def)
  ultimately have t: "TWAP [tiny_price_trade] 6 = Inr (SetFrac 333 twapScale)"
    and x: "exact_twap (open_slots [tiny_price_trade] 6) = SetFrac 1 (3 * 10 ^ 37)"
    by (simp_all add: TWAP_def TWAPWithCount_sorted Let_def exact_twap_def instant_price_def legs)
  define z :: rat where "z = 10 ^ 37"
  have z: "0 < z" and p40: "(10 :: rat) ^ 40 = 1000 * z"
    using power_add [of "10 :: rat" 3 37] by (simp_all add: z_def)
  have "SetFrac 333 twapScale = 333 / (1000 * z)" "SetFrac 1 (3 * 10 ^ 37) = 1 / (3 * z)"
    unfolding SetFrac_def twapScale_def of_int_mult of_int_power of_int_numeral of_int_1 p40 z_def by (rule refl)+
  then show ?thesis unfolding t x p40 z_def [symmetric] using z by (simp add: field_simps)
qed

section \<open>Decimals and triangulation\<close>

lemma DecimalsAdjustment_powi: "DecimalsAdjustment a b = 10 powi a / 10 powi b"
proof -
  have "DecimalsAdjustment a b = 10 powi (a - b)"
    by (auto simp: DecimalsAdjustment_def Let_def power_int_def SetFrac_def field_simps)
  then show ?thesis by (simp add: power_int_diff)
qed

text \<open>
  The decimals correction multiplies by exactly \<open>10\<^sup>base / 10\<^sup>quote\<close> for every pair of scales, so
  correcting the inverse way restores the price and corrections compose along a chain of assets.
\<close>

theorem AdjustPrice_exact:
  "AdjustPrice (Some r) a b = Some (r * 10 powi a / 10 powi b) \<and>
   AdjustPrice (AdjustPrice x a b) b a = x \<and>
   AdjustPrice (AdjustPrice x a b) b c = AdjustPrice x a c"
  by (cases x) (auto simp: AdjustPrice_def DecimalsAdjustment_powi)

lemma triangulate_loop_eq:
  "triangulate_loop ps out =
     (if \<exists>x\<in>set ps. x = None \<or> the x \<le> 0 then Inl ErrTriangulateZero
      else Inr (out * prod_list (map the ps)))"
  by (induction ps arbitrary: out) (auto split: option.splits simp: mult.assoc)

text \<open>
  A triangulated price is the exact product of its legs and fails closed: no legs, a missing leg
  or a leg that is not positive gives \<open>ErrTriangulateZero\<close>, never a price. The two-leg form is the chain
  of two.
\<close>

theorem TriangulateChain_product:
  "TriangulateChain ps =
     (if ps = [] \<or> (\<exists>x\<in>set ps. x = None \<or> the x \<le> 0) then Inl ErrTriangulateZero
      else Inr (prod_list (map the ps))) \<and>
   Triangulate a b = TriangulateChain [a, b]"
  by (auto simp: TriangulateChain_def Triangulate_def triangulate_loop_eq split: option.splits)

end
