(* ===== verification/FreezeLifecycle.thy ===== *)
theory FreezeLifecycle
  imports SI_Prelude
begin

text \<open>
  The lifecycle of a price freeze (internal/aggregate/freeze/lifecycle.go): a hold with a minimum, a
  ladder of extensions, an escalation that only an operator ends, and a release that needs a streak of
  healthy corroborated buckets.

  The policy, the state, the signal of one bucket and the outcome are records with the fields of the
  structs; \<open>Evaluate\<close> is the whole function. Times and durations are nanoseconds; \<open>float64\<close> values are
  only compared. The last part drives \<open>Evaluate\<close> over a history of buckets and operator overrides, in
  the way internal/aggregate/orchestrator/phase2_freeze.go keeps the state of one window.
\<close>

section \<open>Policy\<close>

record Policy =
  InitialHold :: duration
  UncorroboratedInitialHold :: duration
  Extension :: duration
  MaxExtensions :: int
  UnfreezeConfidenceMin :: f64
  UnfreezeZScoreMax :: f64
  UnfreezeBuckets :: int
  MarkerGrace :: duration
  OverrideMemory :: duration

definition DefaultInitialHold :: duration where
  "DefaultInitialHold = 30 * go_minute"

definition DefaultUncorroboratedInitialHold :: duration where
  "DefaultUncorroboratedInitialHold = 10 * go_minute"

definition DefaultExtension :: duration where
  "DefaultExtension = 30 * go_minute"

definition DefaultMaxExtensions :: int where
  "DefaultMaxExtensions = 4"

text \<open>The constant 0.30 is the float64 nearest to it.\<close>

definition DefaultUnfreezeConfidenceMin :: f64 where
  "DefaultUnfreezeConfidenceMin = FFin (5404319552844595 / 18014398509481984)"

definition DefaultUnfreezeZScoreMax :: f64 where
  "DefaultUnfreezeZScoreMax = FFin 3"

definition DefaultUnfreezeBuckets :: int where
  "DefaultUnfreezeBuckets = 2"

definition DefaultOverrideMemory :: duration where
  "DefaultOverrideMemory = 2 * go_hour"

definition FreezeTTL :: duration where
  "FreezeTTL = 5 * go_minute"

definition DefaultMarkerGrace :: duration where
  "DefaultMarkerGrace = FreezeTTL"

definition WithDefaults :: "Policy \<Rightarrow> Policy" where
  "WithDefaults p =
     (let p = (if InitialHold p \<le> 0 then p\<lparr>InitialHold := DefaultInitialHold\<rparr> else p);
          p = (if UncorroboratedInitialHold p \<le> 0
               then p\<lparr>UncorroboratedInitialHold := DefaultUncorroboratedInitialHold\<rparr> else p);
          p = (if Extension p \<le> 0 then p\<lparr>Extension := DefaultExtension\<rparr> else p);
          p = (if MaxExtensions p = 0 then p\<lparr>MaxExtensions := DefaultMaxExtensions\<rparr> else p);
          p = (if f64_eq (UnfreezeConfidenceMin p) (FFin 0)
               then p\<lparr>UnfreezeConfidenceMin := DefaultUnfreezeConfidenceMin\<rparr> else p);
          p = (if f64_eq (UnfreezeZScoreMax p) (FFin 0)
               then p\<lparr>UnfreezeZScoreMax := DefaultUnfreezeZScoreMax\<rparr> else p);
          p = (if UnfreezeBuckets p = 0 then p\<lparr>UnfreezeBuckets := DefaultUnfreezeBuckets\<rparr> else p);
          p = (if OverrideMemory p \<le> 0 then p\<lparr>OverrideMemory := DefaultOverrideMemory\<rparr> else p);
          p = (if MarkerGrace p \<le> 0 then p\<lparr>MarkerGrace := DefaultMarkerGrace\<rparr> else p)
      in p)"

section \<open>State, signal and outcome\<close>

record State =
  FiredAt :: gotime
  HoldUntil :: gotime
  ExtensionsUsed :: int
  Escalated :: bool
  UnfreezeStreak :: int
  Corroborated :: bool
  OverriddenAt :: gotime

definition zeroState :: State where
  "zeroState = \<lparr>FiredAt = 0, HoldUntil = 0, ExtensionsUsed = 0, Escalated = False, UnfreezeStreak = 0,
     Corroborated = False, OverriddenAt = 0\<rparr>"

definition Overridden :: "State \<Rightarrow> gotime \<Rightarrow> State" where
  "Overridden s now = zeroState\<lparr>ExtensionsUsed := ExtensionsUsed s, Escalated := Escalated s, OverriddenAt := now\<rparr>"

definition Active :: "State \<Rightarrow> bool" where
  "Active s = (\<not> time_IsZero (FiredAt s))"

record Signal =
  Now :: gotime
  Fires :: bool
  Scored :: bool
  Confidence :: f64
  ZScore :: f64
  SigCorroborated :: bool
  ReleaseCorroborated :: bool

datatype Transition = TransitionNone | TransitionFired | TransitionHeld | TransitionExtended
  | TransitionHeldUnscored | TransitionEscalated | TransitionReleased | TransitionOverridden

record Outcome =
  Frozen :: bool
  OTransition :: Transition
  OState :: State
  MarkerTTL :: duration

section \<open>Evaluate\<close>

definition initialHold :: "Policy \<Rightarrow> bool \<Rightarrow> duration" where
  "initialHold p corroborated = (if corroborated then InitialHold p else UncorroboratedInitialHold p)"

definition minimumServed :: "Policy \<Rightarrow> State \<Rightarrow> gotime \<Rightarrow> bool" where
  "minimumServed p st now = (\<not> now < FiredAt st + initialHold p (Corroborated st))"

definition streak :: "Policy \<Rightarrow> int \<Rightarrow> Signal \<Rightarrow> int" where
  "streak p prev sig =
     (if \<not> Scored sig \<or> Fires sig then 0
      else if \<not> ReleaseCorroborated sig then 0
      else if UnfreezeConfidenceMin p < Confidence sig \<and> ZScore sig < UnfreezeZScoreMax p
      then (if UnfreezeBuckets p \<le> prev then prev else prev + 1)
      else 0)"

definition frozen :: "Policy \<Rightarrow> State \<Rightarrow> Transition \<Rightarrow> gotime \<Rightarrow> Outcome" where
  "frozen p st tr now =
     (let remaining = time_Sub (HoldUntil st) now;
          remaining = (if remaining < 0 then 0 else remaining)
      in \<lparr>Frozen = True, OTransition = tr, OState = st, MarkerTTL = wrap64 (remaining + MarkerGrace p)\<rparr>)"

definition not_frozen :: "Transition \<Rightarrow> Outcome" where
  "not_frozen tr = \<lparr>Frozen = False, OTransition = tr, OState = zeroState, MarkerTTL = 0\<rparr>"

definition fire :: "Policy \<Rightarrow> State \<Rightarrow> Signal \<Rightarrow> Outcome" where
  "fire p prev sig =
     (let st = zeroState\<lparr>FiredAt := Now sig, HoldUntil := Now sig + initialHold p (SigCorroborated sig),
                 Corroborated := SigCorroborated sig\<rparr>
      in if time_IsZero (OverriddenAt prev) \<or> \<not> Now sig < OverriddenAt prev + OverrideMemory p
         then frozen p st TransitionFired (Now sig)
         else let st = st\<lparr>ExtensionsUsed := ExtensionsUsed prev, OverriddenAt := OverriddenAt prev\<rparr> in
           if Escalated prev
           then frozen p (st\<lparr>Escalated := True, HoldUntil := Now sig + Extension p\<rparr>) TransitionEscalated (Now sig)
           else frozen p st TransitionFired (Now sig))"

definition Evaluate :: "Policy \<Rightarrow> State \<Rightarrow> Signal \<Rightarrow> Outcome" where
  "Evaluate p0 prev sig =
     (let p = WithDefaults p0 in
      if \<not> Active prev then
        (if \<not> Fires sig then not_frozen TransitionNone else fire p prev sig)
      else
        let st = prev\<lparr>UnfreezeStreak := streak p (UnfreezeStreak prev) sig\<rparr> in
        if Escalated st then
          frozen p (st\<lparr>HoldUntil := Now sig + Extension p\<rparr>) TransitionHeld (Now sig)
        else if UnfreezeBuckets p \<le> UnfreezeStreak st \<and> minimumServed p st (Now sig) then
          not_frozen TransitionReleased
        else if Now sig < HoldUntil st then
          frozen p st TransitionHeld (Now sig)
        else if \<not> Scored sig then
          frozen p (st\<lparr>HoldUntil := Now sig + Extension p\<rparr>) TransitionHeldUnscored (Now sig)
        else if ExtensionsUsed st < MaxExtensions p then
          frozen p (st\<lparr>ExtensionsUsed := ExtensionsUsed st + 1, HoldUntil := Now sig + Extension p\<rparr>)
            TransitionExtended (Now sig)
        else
          frozen p (st\<lparr>Escalated := True, HoldUntil := Now sig + Extension p\<rparr>) TransitionEscalated (Now sig))"

section \<open>Histories\<close>

text \<open>
  The state of one window over time. A bucket is evaluated and the outcome's state kept; a release of a
  live freeze leaves the zero state, a quiet bucket leaves an inactive state as it is, and an operator
  override remembers the ladder it ended.
\<close>

datatype event = Bucket Signal | Override gotime

definition advance :: "Policy \<Rightarrow> State \<Rightarrow> event \<Rightarrow> State" where
  "advance p st ev =
     (case ev of
        Bucket sig \<Rightarrow>
          let out = Evaluate p st sig in
          if Frozen out then OState out else if Active st then zeroState else st
      | Override now \<Rightarrow> if Active st then Overridden st now else st)"

text \<open>The reachable states with the history that led to them, the latest event first.\<close>

inductive lifecycle :: "Policy \<Rightarrow> event list \<Rightarrow> State \<Rightarrow> bool" for p where
  start: "lifecycle p [] zeroState"
| step: "lifecycle p evs st \<Longrightarrow> lifecycle p (ev # evs) (advance p st ev)"

inductive_cases lifecycle_ConsE: "lifecycle p (ev # evs) st"

definition healthy :: "Policy \<Rightarrow> Signal \<Rightarrow> bool" where
  "healthy p sig =
     (Scored sig \<and> \<not> Fires sig \<and> ReleaseCorroborated sig \<and>
      UnfreezeConfidenceMin (WithDefaults p) < Confidence sig \<and> ZScore sig < UnfreezeZScoreMax (WithDefaults p))"

definition policy_ok :: "Policy \<Rightarrow> bool" where
  "policy_ok p = (0 \<le> UnfreezeBuckets p \<and> 0 \<le> MaxExtensions p)"

lemma WithDefaults_positive [simp]:
  "0 < InitialHold (WithDefaults p)" "0 < UncorroboratedInitialHold (WithDefaults p)"
  "0 < Extension (WithDefaults p)" "0 < OverrideMemory (WithDefaults p)" "0 < MarkerGrace (WithDefaults p)"
  by (auto simp: WithDefaults_def Let_def DefaultInitialHold_def DefaultUncorroboratedInitialHold_def
      DefaultExtension_def DefaultOverrideMemory_def DefaultMarkerGrace_def FreezeTTL_def go_minute_def
      go_hour_def go_second_def)

lemma WithDefaults_ok: "policy_ok p \<Longrightarrow> 0 < UnfreezeBuckets (WithDefaults p) \<and> 0 < MaxExtensions (WithDefaults p)"
  by (auto simp: WithDefaults_def Let_def policy_ok_def DefaultUnfreezeBuckets_def DefaultMaxExtensions_def)

lemma streak_healthy:
  "streak (WithDefaults p) n sig =
     (if healthy p sig then (if UnfreezeBuckets (WithDefaults p) \<le> n then n else n + 1) else 0)"
  by (auto simp: streak_def healthy_def)

lemma frozen_simps [simp]:
  "Frozen (frozen p st tr now)" "OState (frozen p st tr now) = st" "OTransition (frozen p st tr now) = tr"
  by (simp_all add: frozen_def Let_def)

lemma not_frozen_simps [simp]:
  "\<not> Frozen (not_frozen tr)" "OState (not_frozen tr) = zeroState" "OTransition (not_frozen tr) = tr"
  by (simp_all add: not_frozen_def)

lemma zeroState_simps [simp]:
  "\<not> Active zeroState" "FiredAt zeroState = 0" "UnfreezeStreak zeroState = 0" "ExtensionsUsed zeroState = 0"
  "\<not> Escalated zeroState" "OverriddenAt zeroState = 0" "\<not> Corroborated zeroState"
  by (simp_all add: zeroState_def Active_def time_IsZero_def)

lemma fire_state:
  "Frozen (fire p prev sig)" "FiredAt (OState (fire p prev sig)) = Now sig"
  "UnfreezeStreak (OState (fire p prev sig)) = 0" "Corroborated (OState (fire p prev sig)) = SigCorroborated sig"
  "ExtensionsUsed (OState (fire p prev sig)) \<in> {0, ExtensionsUsed prev}"
  by (auto simp: fire_def Let_def)

text \<open>What one bucket does to a live freeze.\<close>

lemma Evaluate_active:
  fixes p :: Policy and sig :: Signal
  assumes "Active st"
  defines "st' \<equiv> OState (Evaluate p st sig)" and "pd \<equiv> WithDefaults p"
  shows "Frozen (Evaluate p st sig) \<longleftrightarrow>
      Escalated st \<or> \<not> (UnfreezeBuckets pd \<le> streak pd (UnfreezeStreak st) sig \<and> minimumServed pd st (Now sig))"
    and "\<not> Frozen (Evaluate p st sig) \<Longrightarrow> OTransition (Evaluate p st sig) = TransitionReleased"
    and "Frozen (Evaluate p st sig) \<Longrightarrow> FiredAt st' = FiredAt st \<and> Corroborated st' = Corroborated st \<and>
      UnfreezeStreak st' = streak pd (UnfreezeStreak st) sig \<and> Active st' \<and> (Escalated st \<longrightarrow> Escalated st')"
    and "Frozen (Evaluate p st sig) \<Longrightarrow>
      ExtensionsUsed st' = ExtensionsUsed st \<or>
      ExtensionsUsed st' = ExtensionsUsed st + 1 \<and> ExtensionsUsed st < MaxExtensions pd"
  using assms(1)
  by (auto simp: Evaluate_def Let_def st'_def pd_def minimumServed_def Active_def split: if_splits)

text \<open>The invariant: a live freeze was opened by a firing bucket, and its streak counts the healthy
  buckets since the last unhealthy one; the ladder stays within its bound.\<close>

definition ladder_inv :: "Policy \<Rightarrow> event list \<Rightarrow> State \<Rightarrow> bool" where
  "ladder_inv p evs st \<longleftrightarrow>
     0 \<le> ExtensionsUsed st \<and> ExtensionsUsed st \<le> MaxExtensions (WithDefaults p) \<and>
     0 \<le> UnfreezeStreak st \<and> UnfreezeStreak st \<le> UnfreezeBuckets (WithDefaults p) \<and>
     (Active st \<longrightarrow>
        (\<exists>ss f rest. evs = map Bucket ss @ Bucket f # rest \<and> Fires f \<and> FiredAt st = Now f \<and>
           Corroborated st = SigCorroborated f \<and> nat (UnfreezeStreak st) \<le> length ss \<and>
           list_all (healthy p) (take (nat (UnfreezeStreak st)) ss)))"

lemma streak_history:
  fixes sig :: Signal
  assumes "policy_ok p" "0 \<le> n" "n \<le> UnfreezeBuckets (WithDefaults p)"
    "nat n \<le> length ss" "list_all (healthy p) (take (nat n) ss)"
  defines "n' \<equiv> streak (WithDefaults p) n sig"
  shows "0 \<le> n'" "n' \<le> UnfreezeBuckets (WithDefaults p)" "nat n' \<le> length (sig # ss)"
    "list_all (healthy p) (take (nat n') (sig # ss))"
proof -
  have cases: "n' = 0 \<or> healthy p sig \<and> (n' = n + 1 \<and> n < UnfreezeBuckets (WithDefaults p) \<or> n' = n \<and> 0 < n)"
    using WithDefaults_ok [OF assms(1)] assms(2,3) by (auto simp: n'_def streak_healthy)
  then show "0 \<le> n'" "n' \<le> UnfreezeBuckets (WithDefaults p)" "nat n' \<le> length (sig # ss)"
    using assms(2,3,4) by auto
  from cases show "list_all (healthy p) (take (nat n') (sig # ss))"
  proof (elim disjE conjE)
    assume "healthy p sig" "n' = n" "0 < n"
    then obtain m where m: "nat n = Suc m" by (cases "nat n") auto
    then have "list_all (healthy p) (take m ss)" using assms(5) by (auto simp: list_all_length)
    then show ?thesis using \<open>healthy p sig\<close> \<open>n' = n\<close> m by simp
  qed (use assms(2,5) in \<open>simp_all add: nat_add_distrib\<close>)
qed

lemma ladder_inv_bucket:
  assumes "policy_ok p" "ladder_inv p evs st"
  shows "ladder_inv p (Bucket sig # evs) (advance p st (Bucket sig))"
proof (cases "Active st")
  case False
  show ?thesis
  proof (cases "Fires sig")
    case True
    then have "advance p st (Bucket sig) = OState (fire (WithDefaults p) st sig)"
      using False by (simp add: advance_def Evaluate_def Let_def fire_state)
    moreover have "Bucket sig # evs = map Bucket [] @ Bucket sig # evs" by simp
    ultimately show ?thesis
      using assms(2) True fire_state [of "WithDefaults p" st sig] WithDefaults_ok [OF assms(1)]
      unfolding ladder_inv_def by fastforce
  qed (use assms(2) False in \<open>simp add: advance_def Evaluate_def ladder_inv_def Let_def\<close>)
next
  case active: True
  show ?thesis
  proof (cases "Frozen (Evaluate p st sig)")
    case True
    let ?st = "OState (Evaluate p st sig)"
    obtain ss f rest where h: "Bucket sig # evs = map Bucket (sig # ss) @ Bucket f # rest" "Fires f" "FiredAt st = Now f"
      "Corroborated st = SigCorroborated f" "nat (UnfreezeStreak st) \<le> length ss"
      "list_all (healthy p) (take (nat (UnfreezeStreak st)) ss)"
      using assms(2) active unfolding ladder_inv_def by auto
    have n: "0 \<le> UnfreezeStreak st" "UnfreezeStreak st \<le> UnfreezeBuckets (WithDefaults p)"
      using assms(2) by (simp_all add: ladder_inv_def)
    have "0 \<le> ExtensionsUsed ?st" "ExtensionsUsed ?st \<le> MaxExtensions (WithDefaults p)"
      using Evaluate_active(4) [OF active True] assms(2) by (auto simp: ladder_inv_def)
    moreover have "advance p st (Bucket sig) = ?st" using True by (simp add: advance_def)
    ultimately show ?thesis
      using streak_history [OF assms(1) n h(5,6), of sig] Evaluate_active(3) [OF active True] h(1-4)
      unfolding ladder_inv_def by metis
  qed (use active WithDefaults_ok [OF assms(1)] in \<open>simp add: advance_def Let_def ladder_inv_def\<close>)
qed

lemma ladder_inv_override:
  "policy_ok p \<Longrightarrow> ladder_inv p evs st \<Longrightarrow> ladder_inv p (Override now # evs) (advance p st (Override now))"
  using WithDefaults_ok [of p]
  by (auto simp: ladder_inv_def advance_def Overridden_def zeroState_def Active_def time_IsZero_def)

lemma lifecycle_inv:
  assumes "policy_ok p" "lifecycle p evs st" shows "ladder_inv p evs st"
  using assms(2)
proof (induction rule: lifecycle.induct)
  case start
  then show ?case using WithDefaults_ok [OF assms(1)] by (simp add: ladder_inv_def)
next
  case (step evs st ev)
  then show ?case using ladder_inv_bucket [OF assms(1)] ladder_inv_override [OF assms(1)] by (cases ev) auto
qed

section \<open>Properties of the lifecycle\<close>

text \<open>
  C1. A live freeze ends by itself only on positive evidence. In every history, a bucket that finds a
  live freeze and does not keep it frozen is a release of an unescalated freeze, the firing bucket of
  that freeze is at least the initial hold in the past, and the last \<open>UnfreezeBuckets\<close> buckets, this
  one included, were all scored, not firing, corroborated and inside the health limits, with no
  override in between.
\<close>

theorem release_needs_evidence:
  assumes "policy_ok p" "lifecycle p evs st" "Active st" "\<not> Frozen (Evaluate p st sig)"
  shows "OTransition (Evaluate p st sig) = TransitionReleased \<and> \<not> Escalated st \<and>
    (\<exists>ss f rest. evs = map Bucket ss @ Bucket f # rest \<and> Fires f \<and>
       Now f + initialHold (WithDefaults p) (SigCorroborated f) \<le> Now sig \<and>
       UnfreezeBuckets (WithDefaults p) \<le> int (length (sig # ss)) \<and>
       list_all (healthy p) (take (nat (UnfreezeBuckets (WithDefaults p))) (sig # ss)))"
proof -
  have inv: "ladder_inv p evs st" by (rule lifecycle_inv) fact+
  then obtain ss f rest where h: "evs = map Bucket ss @ Bucket f # rest" "Fires f" "FiredAt st = Now f"
    "Corroborated st = SigCorroborated f" "nat (UnfreezeStreak st) \<le> length ss"
    "list_all (healthy p) (take (nat (UnfreezeStreak st)) ss)"
    using assms(3) unfolding ladder_inv_def by blast
  have n: "0 \<le> UnfreezeStreak st" "UnfreezeStreak st \<le> UnfreezeBuckets (WithDefaults p)"
    using inv by (simp_all add: ladder_inv_def)
  note sh = streak_history [OF assms(1) n h(5,6), of sig]
  have rel: "\<not> Escalated st" "UnfreezeBuckets (WithDefaults p) \<le> streak (WithDefaults p) (UnfreezeStreak st) sig"
    "minimumServed (WithDefaults p) st (Now sig)"
    using Evaluate_active(1) [OF assms(3), of p sig] assms(4) by auto
  then have eq: "streak (WithDefaults p) (UnfreezeStreak st) sig = UnfreezeBuckets (WithDefaults p)"
    using sh(2) by simp
  have "UnfreezeBuckets (WithDefaults p) \<le> int (length (sig # ss))" using sh(3) unfolding eq by linarith
  moreover have "Now f + initialHold (WithDefaults p) (SigCorroborated f) \<le> Now sig"
    using rel(3) by (simp add: minimumServed_def h)
  ultimately show ?thesis
    using Evaluate_active(2) [OF assms(3,4)] rel(1) h(1,2) sh(4) unfolding eq by blast
qed

definition sample_policy :: Policy where
  "sample_policy = \<lparr>InitialHold = 0, UncorroboratedInitialHold = 0, Extension = 0, MaxExtensions = 0,
     UnfreezeConfidenceMin = FFin 0, UnfreezeZScoreMax = FFin 0, UnfreezeBuckets = 0, MarkerGrace = 0,
     OverrideMemory = 0\<rparr>"

definition firing_signal :: "gotime \<Rightarrow> Signal" where
  "firing_signal t = \<lparr>Now = t, Fires = True, Scored = True, Confidence = FFin (1 / 10), ZScore = FFin 8,
     SigCorroborated = False, ReleaseCorroborated = False\<rparr>"

definition calm_signal :: "gotime \<Rightarrow> Signal" where
  "calm_signal t = \<lparr>Now = t, Fires = False, Scored = True, Confidence = FFin (9 / 10), ZScore = FFin 1,
     SigCorroborated = True, ReleaseCorroborated = True\<rparr>"

definition sample_frozen :: State where
  "sample_frozen = advance sample_policy (advance sample_policy zeroState (Bucket (firing_signal 1)))
     (Bucket (calm_signal (9 * go_minute)))"

lemma sample_history:
  "lifecycle sample_policy [Bucket (calm_signal (9 * go_minute)), Bucket (firing_signal 1)] sample_frozen"
  unfolding sample_frozen_def by (intro lifecycle.intros)

theorem release_needs_evidence_witness:
  "OTransition (Evaluate sample_policy sample_frozen (calm_signal (11 * go_minute))) = TransitionReleased \<and>
   \<not> Escalated sample_frozen"
  by (rule release_needs_evidence [OF _ sample_history, THEN conjunct1, THEN conjI]) code_simp+

text \<open>A run of scored, unhealthy buckets that each find the hold expired.\<close>

fun expires :: "Policy \<Rightarrow> State \<Rightarrow> Signal list \<Rightarrow> bool" where
  "expires p st [] = True"
| "expires p st (sig # sigs) =
     (Scored sig \<and> \<not> healthy p sig \<and> HoldUntil st \<le> Now sig \<and> expires p (advance p st (Bucket sig)) sigs)"

lemma expiry_step:
  assumes "policy_ok p" "Active st" "\<not> Escalated st" "Scored sig" "\<not> healthy p sig" "HoldUntil st \<le> Now sig"
  defines "st' \<equiv> advance p st (Bucket sig)"
  shows "Active st'" "Escalated st' \<longleftrightarrow> MaxExtensions (WithDefaults p) \<le> ExtensionsUsed st"
    "\<not> Escalated st' \<longrightarrow> ExtensionsUsed st' = ExtensionsUsed st + 1" "HoldUntil st' = Now sig + Extension (WithDefaults p)"
  using assms WithDefaults_ok [OF assms(1)]
  by (auto simp: advance_def Evaluate_def Let_def streak_healthy Active_def)

lemma escalated_stays:
  assumes "Active st" "Escalated st"
  shows "Frozen (Evaluate p st sig)" "OTransition (Evaluate p st sig) = TransitionHeld"
    "Active (advance p st (Bucket sig))" "Escalated (advance p st (Bucket sig))"
    "FiredAt (advance p st (Bucket sig)) = FiredAt st"
    "HoldUntil (advance p st (Bucket sig)) = Now sig + Extension (WithDefaults p)"
  using assms by (auto simp: advance_def Evaluate_def Let_def Active_def)

lemma escalated_run:
  "Active st \<Longrightarrow> Escalated st \<Longrightarrow>
   Active (foldl (advance p) st (map Bucket sigs)) \<and> Escalated (foldl (advance p) st (map Bucket sigs)) \<and>
   FiredAt (foldl (advance p) st (map Bucket sigs)) = FiredAt st"
proof (induction sigs arbitrary: st)
  case (Cons sig sigs)
  then show ?case using escalated_stays [OF Cons.prems, of p sig] by auto
qed simp

text \<open>
  The ladder ends at an operator: a live freeze with \<open>n\<close> extensions used, whose buckets keep being
  unhealthy at every expiry, is escalated after exactly \<open>MaxExtensions - n + 1\<close> expiries and not before,
  every earlier expiry costing one extension.
\<close>

theorem ladder_escalates:
  "policy_ok p \<Longrightarrow> Active st \<Longrightarrow> \<not> Escalated st \<Longrightarrow> ExtensionsUsed st \<le> MaxExtensions (WithDefaults p) \<Longrightarrow>
   expires p st sigs \<Longrightarrow>
   int (length sigs) \<le> MaxExtensions (WithDefaults p) - ExtensionsUsed st + 1 \<Longrightarrow>
   (let st' = foldl (advance p) st (map Bucket sigs) in
    Active st' \<and>
    (Escalated st' \<longleftrightarrow> int (length sigs) = MaxExtensions (WithDefaults p) - ExtensionsUsed st + 1) \<and>
    (\<not> Escalated st' \<longrightarrow> ExtensionsUsed st' = ExtensionsUsed st + int (length sigs)))"
proof (induction sigs arbitrary: st)
  case (Cons sig sigs)
  let ?st = "advance p st (Bucket sig)"
  have sig: "Scored sig" "\<not> healthy p sig" "HoldUntil st \<le> Now sig" "expires p ?st sigs"
    using Cons.prems(5) by simp_all
  note step = expiry_step [OF Cons.prems(1-3) sig(1-3)]
  show ?case
  proof (cases "Escalated ?st")
    case True
    then have "sigs = []" using step(2) Cons.prems(4,6) by simp
    then show ?thesis using True step Cons.prems(4) by (simp add: Let_def)
  next
    case False
    then have "ExtensionsUsed ?st = ExtensionsUsed st + 1" "ExtensionsUsed ?st \<le> MaxExtensions (WithDefaults p)"
      using step(2,3) by simp_all
    then show ?thesis
      using Cons.IH [OF Cons.prems(1) step(1) False _ sig(4)] Cons.prems(6) by (simp add: Let_def algebra_simps)
  qed
qed (simp add: Let_def)

theorem ladder_escalates_witness:
  "let st = advance sample_policy zeroState (Bucket (firing_signal 1));
       sigs = map (\<lambda>k. firing_signal (k * go_hour)) [1, 2, 3, 4, 5];
       st' = foldl (advance sample_policy) st (map Bucket sigs)
   in expires sample_policy st sigs \<and> Active st' \<and> Escalated st'"
proof -
  let ?st = "advance sample_policy zeroState (Bucket (firing_signal 1))"
  let ?sigs = "map (\<lambda>k. firing_signal (k * go_hour)) [1, 2, 3, 4, 5]"
  have h: "policy_ok sample_policy" "Active ?st" "\<not> Escalated ?st"
    "ExtensionsUsed ?st \<le> MaxExtensions (WithDefaults sample_policy)" "expires sample_policy ?st ?sigs"
    "int (length ?sigs) \<le> MaxExtensions (WithDefaults sample_policy) - ExtensionsUsed ?st + 1" by code_simp+
  have eq: "int (length ?sigs) = MaxExtensions (WithDefaults sample_policy) - ExtensionsUsed ?st + 1" by code_simp
  from ladder_escalates [OF h] eq h(5) show ?thesis unfolding Let_def by blast
qed

text \<open>
  Escalation is for an operator alone. Whatever buckets follow, an escalated freeze stays live,
  escalated and frozen; and when an operator ends it, a bucket that fires within \<open>OverrideMemory\<close> of the
  override escalates again at once.
\<close>

theorem escalated_needs_operator:
  "Active st \<and> Escalated st \<longrightarrow>
   (let st' = foldl (advance p) st (map Bucket sigs) in
    Active st' \<and> Escalated st' \<and> FiredAt st' = FiredAt st \<and> Frozen (Evaluate p st' sig) \<and>
    (t \<noteq> 0 \<and> Fires sig \<and> Now sig < t + OverrideMemory (WithDefaults p) \<longrightarrow>
       OTransition (Evaluate p (advance p st' (Override t)) sig) = TransitionEscalated \<and>
       Frozen (Evaluate p (advance p st' (Override t)) sig)))"
proof
  assume a: "Active st \<and> Escalated st"
  let ?e = "foldl (advance p) st (map Bucket sigs)"
  have e: "Active ?e" "Escalated ?e" "FiredAt ?e = FiredAt st" using escalated_run [of st p sigs] a by auto
  have "OTransition (Evaluate p (advance p ?e (Override t)) sig) = TransitionEscalated \<and>
      Frozen (Evaluate p (advance p ?e (Override t)) sig)"
    if "t \<noteq> 0" "Fires sig" "Now sig < t + OverrideMemory (WithDefaults p)"
    using that e by (simp add: advance_def Overridden_def Evaluate_def Let_def Active_def time_IsZero_def zeroState_def fire_def)
  then show "let st' = ?e in Active st' \<and> Escalated st' \<and> FiredAt st' = FiredAt st \<and> Frozen (Evaluate p st' sig) \<and>
    (t \<noteq> 0 \<and> Fires sig \<and> Now sig < t + OverrideMemory (WithDefaults p) \<longrightarrow>
       OTransition (Evaluate p (advance p st' (Override t)) sig) = TransitionEscalated \<and>
       Frozen (Evaluate p (advance p st' (Override t)) sig))"
    using e escalated_stays(1) [OF e(1,2)] by (simp add: Let_def)
qed

definition sample_escalated :: State where
  "sample_escalated = zeroState\<lparr>FiredAt := 5, HoldUntil := 6, ExtensionsUsed := 4, Escalated := True\<rparr>"

theorem escalated_needs_operator_witness:
  "Frozen (Evaluate sample_policy (foldl (advance sample_policy) sample_escalated [Bucket (calm_signal 100)]) (firing_signal (1 * go_hour))) \<and>
   OTransition (Evaluate sample_policy (advance sample_policy (foldl (advance sample_policy) sample_escalated [Bucket (calm_signal 100)]) (Override 200))
     (firing_signal (1 * go_hour))) = TransitionEscalated"
proof -
  have "Active sample_escalated \<and> Escalated sample_escalated" "Fires (firing_signal (1 * go_hour))"
    "Now (firing_signal (1 * go_hour)) < 200 + OverrideMemory (WithDefaults sample_policy)" by code_simp+
  then show ?thesis
    using escalated_needs_operator [of sample_escalated sample_policy "[calm_signal 100]" "firing_signal (1 * go_hour)" 200]
    by (simp add: Let_def)
qed

text \<open>
  Every outcome is consistent, and the marker outlives the hold: a frozen outcome carries a live
  state and a marker that lasts until the hold's end plus the grace (as long as the sum fits a
  Duration), never less than the grace; an outcome that is not frozen carries the zero state and no
  marker.
\<close>

theorem Evaluate_marker:
  "(\<not> Frozen (Evaluate p st sig) \<longrightarrow> OState (Evaluate p st sig) = zeroState \<and> MarkerTTL (Evaluate p st sig) = 0) \<and>
   (Frozen (Evaluate p st sig) \<and> Now sig \<noteq> 0 \<longrightarrow> Active (OState (Evaluate p st sig))) \<and>
   (Frozen (Evaluate p st sig) \<and>
    max 0 (HoldUntil (OState (Evaluate p st sig)) - Now sig) + MarkerGrace (WithDefaults p) \<le> max_int64 \<longrightarrow>
      Now sig + MarkerTTL (Evaluate p st sig) =
        max (Now sig) (HoldUntil (OState (Evaluate p st sig))) + MarkerGrace (WithDefaults p) \<and>
      MarkerGrace (WithDefaults p) \<le> MarkerTTL (Evaluate p st sig))"
proof -
  define P where "P = (\<lambda>out. (\<exists>st' tr. out = frozen (WithDefaults p) st' tr (Now sig) \<and> (Now sig \<noteq> 0 \<longrightarrow> Active st')) \<or>
      (\<exists>tr. out = not_frozen tr))"
  have P: "P (not_frozen tr)" "(Now sig \<noteq> 0 \<Longrightarrow> FiredAt st' \<noteq> 0) \<Longrightarrow> P (frozen (WithDefaults p) st' tr (Now sig))" for st' tr
    by (auto simp: P_def Active_def time_IsZero_def)
  have form: "P (Evaluate p st sig)"
    by (auto simp: Evaluate_def fire_def Let_def Active_def time_IsZero_def P)
  have ttl: "MarkerTTL (frozen q st' tr now) = max 0 (HoldUntil st' - now) + MarkerGrace q"
    if "max 0 (HoldUntil st' - now) + MarkerGrace q \<le> max_int64" "0 < MarkerGrace q" for q st' tr now
  proof -
    have "(if time_Sub (HoldUntil st') now < 0 then 0 else time_Sub (HoldUntil st') now) = max 0 (HoldUntil st' - now)"
      using that by (auto simp: time_Sub_def min_int64_def max_int64_def)
    then show ?thesis using that by (simp add: frozen_def Let_def wrap64_def max_int64_def)
  qed
  show ?thesis using form unfolding P_def
  proof (elim disjE exE conjE)
    fix st' tr assume "Evaluate p st sig = frozen (WithDefaults p) st' tr (Now sig)" "Now sig \<noteq> 0 \<longrightarrow> Active st'"
    then show ?thesis using ttl [of st' "Now sig" "WithDefaults p" tr] by auto
  qed (simp add: not_frozen_def)
qed

theorem Evaluate_marker_witness:
  "Frozen (Evaluate sample_policy zeroState (firing_signal 7)) \<and>
   7 + MarkerTTL (Evaluate sample_policy zeroState (firing_signal 7)) = 7 + 10 * go_minute + 5 * go_minute"
proof -
  have h: "Frozen (Evaluate sample_policy zeroState (firing_signal 7))" "Now (firing_signal 7) = 7"
    "HoldUntil (OState (Evaluate sample_policy zeroState (firing_signal 7))) = 7 + 10 * go_minute"
    "MarkerGrace (WithDefaults sample_policy) = 5 * go_minute"
    "max 0 (7 + 10 * go_minute - 7) + 5 * go_minute \<le> max_int64" "max 7 (7 + 10 * go_minute) = 7 + 10 * go_minute"
    by code_simp+
  from Evaluate_marker [of sample_policy zeroState "firing_signal 7", unfolded h(2-4), unfolded h(6)] h(1,5)
  show ?thesis by blast
qed

end
