(* ===== verification/RouteGraph.thy ===== *)
theory RouteGraph
  imports PriceWindow
begin

text \<open>
  The exchange graph of the cross-rate router (internal/aggregate/router.go, first half): the edges
  built from pair quotes, the depth-first search for routes, and the exact rate and weakest-link
  confidence of a route.

  A price that may be nil is an option. Confidences are \<open>float64\<close> values that are only compared. The
  search is the recursion of the closure \<open>dfs\<close>, with the path and the visited set as arguments; it
  ends because the path grows towards \<open>maxHops\<close>. Sorting is by Go's bytewise string order and stable.
\<close>

section \<open>Edges\<close>

datatype router_error = ErrNoRoute | ErrEmptyRoute | ErrRouteBroken | ErrLegNonPositive

record RouteLeg =
  From :: Asset
  To :: Asset
  Price :: "rat option"
  LegConfidence :: f64
  Provenance :: "string list"

record Quote =
  q_Pair :: Pair
  q_Price :: "rat option"
  q_Confidence :: f64
  q_Provenance :: "string list"

fun sanitizeConfidence :: "f64 \<Rightarrow> f64" where
  "sanitizeConfidence (FFin c) = FFin c"
| "sanitizeConfidence _ = FFin 0"

definition undirectedEdgeKey :: "Asset \<Rightarrow> Asset \<Rightarrow> string" where
  "undirectedEdgeKey a b =
     (let sa = Asset_String a; sb = Asset_String b in
      if sa \<le> sb then sa @ CHR 0x00 # sb else sb @ CHR 0x00 # sa)"

definition quote_edges :: "Quote \<Rightarrow> rat \<Rightarrow> RouteLeg list" where
  "quote_edges q p =
     (let conf = sanitizeConfidence (q_Confidence q) in
      [\<lparr>From = Base (q_Pair q), To = Pair.Quote (q_Pair q), Price = Some p, LegConfidence = conf,
        Provenance = q_Provenance q\<rparr>,
       \<lparr>From = Pair.Quote (q_Pair q), To = Base (q_Pair q), Price = Some (inverse p), LegConfidence = conf,
        Provenance = q_Provenance q\<rparr>])"

fun build_edges_loop :: "Quote list \<Rightarrow> string set \<Rightarrow> RouteLeg list \<Rightarrow> router_error + RouteLeg list" where
  "build_edges_loop [] seen edges = Inr edges"
| "build_edges_loop (q # qs) seen edges =
     (case q_Price q of
        None \<Rightarrow> Inl ErrLegNonPositive
      | Some p \<Rightarrow>
          if p \<le> 0 then Inl ErrLegNonPositive
          else if Asset_Equal (Base (q_Pair q)) (Pair.Quote (q_Pair q)) then build_edges_loop qs seen edges
          else let mkey = undirectedEdgeKey (Base (q_Pair q)) (Pair.Quote (q_Pair q)) in
            if mkey \<in> seen then build_edges_loop qs seen edges
            else build_edges_loop qs (insert mkey seen) (edges @ quote_edges q p))"

definition BuildEdges :: "Quote list \<Rightarrow> router_error + RouteLeg list" where
  "BuildEdges quotes =
     (case build_edges_loop (sort_key (\<lambda>q. Pair_String (q_Pair q)) quotes) {} [] of
        Inl e \<Rightarrow> Inl e
      | Inr edges \<Rightarrow> Inr (sort_key (\<lambda>e. [Asset_String (From e), Asset_String (To e)]) edges))"

section \<open>Search\<close>

fun adjacency_loop :: "RouteLeg list \<Rightarrow> (Asset \<Rightarrow> RouteLeg list) \<Rightarrow> Asset \<Rightarrow> RouteLeg list" where
  "adjacency_loop [] adj = adj"
| "adjacency_loop (e # es) adj =
     (if Asset_Equal (From e) (To e) then adjacency_loop es adj
      else adjacency_loop es (adj(From e := adj (From e) @ [e])))"

definition buildAdjacency :: "RouteLeg list \<Rightarrow> Asset \<Rightarrow> RouteLeg list" where
  "buildAdjacency edges = adjacency_loop edges (\<lambda>_. [])"

function dfs :: "(Asset \<Rightarrow> RouteLeg list) \<Rightarrow> Asset \<Rightarrow> nat \<Rightarrow> Asset \<Rightarrow> RouteLeg list \<Rightarrow> Asset list \<Rightarrow> RouteLeg list list" where
  "dfs adj quote maxHops current path visited =
     (if maxHops \<le> length path then []
      else concat (map (\<lambda>e.
        if To e \<in> set visited then []
        else if Asset_Equal (To e) quote then [path @ [e]]
        else dfs adj quote maxHops (To e) (path @ [e]) (To e # visited)) (adj current)))"
  by pat_completeness auto
termination by (relation "measure (\<lambda>(adj, quote, maxHops, current, path, visited). maxHops - length path)") auto

declare dfs.simps [simp del]

fun min_length :: "RouteLeg list list \<Rightarrow> nat \<Rightarrow> nat" where
  "min_length [] minLen = minLen"
| "min_length (p # ps) minLen = min_length ps (if length p < minLen then length p else minLen)"

definition keepShortest :: "RouteLeg list list \<Rightarrow> RouteLeg list list" where
  "keepShortest paths =
     (case paths of
        [] \<Rightarrow> paths
      | p # _ \<Rightarrow> let minLen = min_length paths (length p) in filter (\<lambda>q. length q = minLen) paths)"

definition FindRoutes :: "RouteLeg list \<Rightarrow> Asset \<Rightarrow> Asset \<Rightarrow> int \<Rightarrow> bool \<Rightarrow> RouteLeg list list" where
  "FindRoutes edges base quote maxHops shortestOnly =
     (if maxHops < 1 \<or> Asset_Equal base quote then []
      else let paths = dfs (buildAdjacency edges) quote (nat maxHops) base [] [base] in
        if shortestOnly then keepShortest paths else paths)"

section \<open>Rate and confidence of a route\<close>

fun composite_loop :: "RouteLeg list \<Rightarrow> RouteLeg option \<Rightarrow> rat \<Rightarrow> router_error + rat" where
  "composite_loop [] prev out = Inr out"
| "composite_loop (leg # legs) prev out =
     (case Price leg of
        None \<Rightarrow> Inl ErrLegNonPositive
      | Some p \<Rightarrow>
          if p \<le> 0 then Inl ErrLegNonPositive
          else if (case prev of None \<Rightarrow> False | Some e \<Rightarrow> \<not> Asset_Equal (From leg) (To e)) then Inl ErrRouteBroken
          else composite_loop legs (Some leg) (out * p))"

definition CompositeRate :: "RouteLeg list \<Rightarrow> router_error + rat" where
  "CompositeRate path = (if path = [] then Inl ErrEmptyRoute else composite_loop path None 1)"

fun min_confidence :: "RouteLeg list \<Rightarrow> f64 \<Rightarrow> f64" where
  "min_confidence [] minConf = minConf"
| "min_confidence (leg # legs) minConf =
     min_confidence legs (if LegConfidence leg < minConf then LegConfidence leg else minConf)"

definition RouteConfidence :: "RouteLeg list \<Rightarrow> f64" where
  "RouteConfidence path = (case path of [] \<Rightarrow> FFin 0 | leg # legs \<Rightarrow> min_confidence legs (LegConfidence leg))"

section \<open>The edges form a reciprocal graph\<close>

definition direction :: "RouteLeg \<Rightarrow> Asset \<times> Asset" where
  "direction e = (From e, To e)"

definition edge_ok :: "RouteLeg list \<Rightarrow> RouteLeg \<Rightarrow> bool" where
  "edge_ok es e \<longleftrightarrow>
     From e \<noteq> To e \<and> (\<exists>c. LegConfidence e = FFin c) \<and>
     (\<exists>p>0. Price e = Some p \<and>
        (\<exists>r\<in>set es. From r = To e \<and> To r = From e \<and> Price r = Some (inverse p) \<and> LegConfidence r = LegConfidence e))"

definition graph_ok :: "RouteLeg list \<Rightarrow> bool" where
  "graph_ok es \<longleftrightarrow> (\<forall>e\<in>set es. edge_ok es e) \<and> distinct (map direction es)"

lemma undirectedEdgeKey_commute: "undirectedEdgeKey a b = undirectedEdgeKey b a"
  by (auto simp: undirectedEdgeKey_def Let_def)

lemma quote_edges_ok:
  assumes "0 < p" "Base (q_Pair q) \<noteq> Pair.Quote (q_Pair q)"
  shows "graph_ok (quote_edges q p)"
proof -
  have "\<exists>c. sanitizeConfidence (q_Confidence q) = FFin c" by (cases "q_Confidence q") auto
  then show ?thesis using assms
    by (auto simp: graph_ok_def edge_ok_def quote_edges_def Let_def direction_def)
qed

lemma graph_ok_append:
  assumes "graph_ok es" "graph_ok fs" "direction ` set es \<inter> direction ` set fs = {}"
  shows "graph_ok (es @ fs)"
proof -
  have "edge_ok es e \<Longrightarrow> set es \<subseteq> set gs \<Longrightarrow> edge_ok gs e" for es gs e
    unfolding edge_ok_def by blast
  then have "\<forall>e\<in>set (es @ fs). edge_ok (es @ fs) e" using assms(1,2) by (auto simp: graph_ok_def)
  then show ?thesis using assms by (simp add: graph_ok_def)
qed

abbreviation edge_keys :: "RouteLeg list \<Rightarrow> string set" where
  "edge_keys es \<equiv> (\<lambda>e. undirectedEdgeKey (From e) (To e)) ` set es"

lemma build_edges_loop_ok:
  "build_edges_loop qs seen edges = Inr es \<Longrightarrow> graph_ok edges \<Longrightarrow> edge_keys edges = seen \<Longrightarrow>
   graph_ok es \<and> seen \<subseteq> edge_keys es \<and>
   (\<forall>q\<in>set qs. Base (q_Pair q) \<noteq> Pair.Quote (q_Pair q) \<longrightarrow>
      undirectedEdgeKey (Base (q_Pair q)) (Pair.Quote (q_Pair q)) \<in> edge_keys es)"
proof (induction qs seen edges rule: build_edges_loop.induct)
  case (2 q qs seen edges)
  obtain p where p: "q_Price q = Some p" "0 < p" using "2.prems"(1) by (auto split: option.splits if_splits)
  let ?k = "undirectedEdgeKey (Base (q_Pair q)) (Pair.Quote (q_Pair q))"
  consider (self) "Base (q_Pair q) = Pair.Quote (q_Pair q)" | (dup) "Base (q_Pair q) \<noteq> Pair.Quote (q_Pair q)" "?k \<in> seen"
    | (new) "Base (q_Pair q) \<noteq> Pair.Quote (q_Pair q)" "?k \<notin> seen" by blast
  then show ?case
  proof cases
    case self
    then show ?thesis using 2 p by (auto simp: Asset_Equal_iff)
  next
    case dup
    then show ?thesis using "2.IH"(2) [OF p(1)] "2.prems" p by (auto simp: Asset_Equal_iff Let_def)
  next
    case new
    have k: "edge_keys (quote_edges q p) = {?k}"
      by (auto simp: quote_edges_def Let_def undirectedEdgeKey_commute)
    have "direction e \<noteq> direction f" if "e \<in> set edges" "f \<in> set (quote_edges q p)" for e f
    proof
      assume "direction e = direction f"
      then have "undirectedEdgeKey (From e) (To e) = undirectedEdgeKey (From f) (To f)" by (simp add: direction_def)
      moreover have "undirectedEdgeKey (From e) (To e) \<in> seen" using that(1) "2.prems"(3) by blast
      moreover have "undirectedEdgeKey (From f) (To f) = ?k" using that(2) k by blast
      ultimately show False using new(2) by simp
    qed
    then have "direction ` set edges \<inter> direction ` set (quote_edges q p) = {}" by blast
    then have "graph_ok (edges @ quote_edges q p)"
      using "2.prems"(2) quote_edges_ok [OF p(2) new(1)] by (intro graph_ok_append)
    moreover have "edge_keys (edges @ quote_edges q p) = insert ?k seen"
      using k "2.prems"(3) by (simp add: image_Un)
    ultimately show ?thesis
      using "2.IH"(3) [OF p(1)] "2.prems"(1) p new by (auto simp: Asset_Equal_iff Let_def)
  qed
qed auto

lemma build_edges_loop_error:
  "(\<exists>e. build_edges_loop qs seen edges = Inl e) \<longleftrightarrow> (\<exists>q\<in>set qs. \<not> (\<exists>p>0. q_Price q = Some p))"
  "build_edges_loop qs seen edges = Inl e \<Longrightarrow> e = ErrLegNonPositive"
  by (induction qs seen edges rule: build_edges_loop.induct) (auto simp: Let_def not_le split: option.splits if_splits)

lemma graph_ok_permute: "mset es = mset fs \<Longrightarrow> graph_ok es \<Longrightarrow> graph_ok fs"
proof -
  assume m: "mset es = mset fs" and "graph_ok es"
  then have "set es = set fs" "distinct (map direction es) = distinct (map direction fs)"
    by (auto dest: mset_eq_setD intro!: mset_eq_imp_distinct_iff)
  then show "graph_ok fs" using \<open>graph_ok es\<close> by (simp add: graph_ok_def edge_ok_def)
qed

text \<open>
  The exchange graph is well formed: building it fails exactly when some quote has no positive
  price; otherwise every edge has a positive price, a finite confidence and a reverse edge at the exact
  reciprocal, no market has two edges in one direction and no asset one to itself, and every quoted
  market is in the graph.
\<close>

theorem BuildEdges_reciprocal:
  "(BuildEdges qs = Inl ErrLegNonPositive \<longleftrightarrow> (\<exists>q\<in>set qs. \<not> (\<exists>p>0. q_Price q = Some p))) \<and>
   (BuildEdges qs = Inr es \<longrightarrow>
      graph_ok es \<and>
      (\<forall>q\<in>set qs. Base (q_Pair q) \<noteq> Pair.Quote (q_Pair q) \<longrightarrow>
         undirectedEdgeKey (Base (q_Pair q)) (Pair.Quote (q_Pair q)) \<in> edge_keys es))"
proof (intro conjI impI)
  let ?loop = "build_edges_loop (sort_key (\<lambda>q. Pair_String (q_Pair q)) qs) {} []"
  show "BuildEdges qs = Inl ErrLegNonPositive \<longleftrightarrow> (\<exists>q\<in>set qs. \<not> (\<exists>p>0. q_Price q = Some p))"
    using build_edges_loop_error [of "sort_key (\<lambda>q. Pair_String (q_Pair q)) qs" "{}" "[]"]
    by (auto simp: BuildEdges_def split: sum.splits)
  assume "BuildEdges qs = Inr es"
  then obtain es' where es': "?loop = Inr es'"
    and es: "es = sort_key (\<lambda>e. [Asset_String (From e), Asset_String (To e)]) es'"
    by (auto simp: BuildEdges_def split: sum.splits)
  have ok: "graph_ok es'" "\<forall>q\<in>set qs. Base (q_Pair q) \<noteq> Pair.Quote (q_Pair q) \<longrightarrow>
      undirectedEdgeKey (Base (q_Pair q)) (Pair.Quote (q_Pair q)) \<in> edge_keys es'"
    using build_edges_loop_ok [OF es'] by (simp_all add: graph_ok_def)
  show "graph_ok es" by (rule graph_ok_permute [OF _ ok(1)]) (simp add: es)
  show "\<forall>q\<in>set qs. Base (q_Pair q) \<noteq> Pair.Quote (q_Pair q) \<longrightarrow>
      undirectedEdgeKey (Base (q_Pair q)) (Pair.Quote (q_Pair q)) \<in> edge_keys es" using ok(2) by (simp add: es)
qed

text \<open>
  The graph does not depend on the order in which the quotes arrive, so every region builds the
  same one: two arrangements of the same quotes, one per pair text, give the same edges in the same
  order.
\<close>

theorem BuildEdges_order_independent:
  assumes "mset qs = mset qs'" "distinct (map (Pair_String \<circ> q_Pair) qs)"
  shows "BuildEdges qs = BuildEdges qs'"
proof -
  have "inj_on (\<lambda>q. Pair_String (q_Pair q)) (set qs)" using assms(2) by (auto simp: distinct_map o_def inj_on_def)
  then have "sort_key (\<lambda>q. Pair_String (q_Pair q)) qs = sort_key (\<lambda>q. Pair_String (q_Pair q)) qs'"
    using assms(1) by (intro sort_key_inj_key_eq) simp_all
  then show ?thesis by (simp add: BuildEdges_def)
qed

section \<open>The search finds exactly the simple routes\<close>

fun chain :: "Asset \<Rightarrow> RouteLeg list \<Rightarrow> bool" where
  "chain a [] = True"
| "chain a (e # p) = (From e = a \<and> chain (To e) p)"

definition simple_route :: "RouteLeg list \<Rightarrow> Asset \<Rightarrow> Asset \<Rightarrow> RouteLeg list \<Rightarrow> bool" where
  "simple_route edges base quote p \<longleftrightarrow>
     p \<noteq> [] \<and> set p \<subseteq> set edges \<and> chain base p \<and> distinct (base # map To p) \<and> To (last p) = quote"

lemma buildAdjacency_eq: "buildAdjacency edges a = filter (\<lambda>e. From e = a \<and> From e \<noteq> To e) edges"
proof -
  have "adjacency_loop edges adj a = adj a @ filter (\<lambda>e. From e = a \<and> From e \<noteq> To e) edges" for adj
    by (induction edges arbitrary: adj) (auto simp: Asset_Equal_iff)
  then show ?thesis by (simp add: buildAdjacency_def)
qed

fun walk :: "(Asset \<Rightarrow> RouteLeg list) \<Rightarrow> Asset \<Rightarrow> Asset \<Rightarrow> Asset list \<Rightarrow> RouteLeg list \<Rightarrow> bool" where
  "walk adj quote cur visited [] = False"
| "walk adj quote cur visited (e # q) =
     (e \<in> set (adj cur) \<and> To e \<notin> set visited \<and>
      (if To e = quote then q = [] else walk adj quote (To e) (To e # visited) q))"

lemma dfs_walk:
  "r \<in> set (dfs adj quote n cur path visited) \<longleftrightarrow>
   (\<exists>q. r = path @ q \<and> walk adj quote cur visited q \<and> length path + length q \<le> n)"
proof (induction adj quote n cur path visited rule: dfs.induct)
  case (1 adj quote n cur path visited)
  show ?case
  proof (cases "n \<le> length path")
    case True
    have "\<not> (\<exists>q. r = path @ q \<and> walk adj quote cur visited q \<and> length path + length q \<le> n)"
    proof
      assume "\<exists>q. r = path @ q \<and> walk adj quote cur visited q \<and> length path + length q \<le> n"
      then obtain q where "walk adj quote cur visited q" "length path + length q \<le> n" by blast
      then show False using True by (cases q) auto
    qed
    then show ?thesis using True by (simp add: dfs.simps)
  next
    case False
    have "r \<in> set (dfs adj quote n cur path visited) \<longleftrightarrow>
        (\<exists>e\<in>set (adj cur). To e \<notin> set visited \<and>
          (if To e = quote then r = path @ [e] else r \<in> set (dfs adj quote n (To e) (path @ [e]) (To e # visited))))"
      using False by (subst dfs.simps) (auto simp: Asset_Equal_iff split: if_splits)
    also have "\<dots> \<longleftrightarrow> (\<exists>e\<in>set (adj cur). To e \<notin> set visited \<and>
          (if To e = quote then r = path @ [e]
           else \<exists>q. r = path @ e # q \<and> walk adj quote (To e) (To e # visited) q \<and> length path + length (e # q) \<le> n))"
      using 1 False by (intro bex_cong refl conj_cong if_cong) (auto simp: Asset_Equal_iff)
    also have "\<dots> \<longleftrightarrow> (\<exists>e q. r = path @ (e # q) \<and> walk adj quote cur visited (e # q) \<and> length path + length (e # q) \<le> n)"
      (is "?L \<longleftrightarrow> ?R")
    proof
      assume ?L
      then obtain e where e: "e \<in> set (adj cur)" "To e \<notin> set visited"
        "if To e = quote then r = path @ [e]
         else \<exists>q. r = path @ e # q \<and> walk adj quote (To e) (To e # visited) q \<and> length path + length (e # q) \<le> n" by blast
      show ?R
      proof (cases "To e = quote")
        case True
        then show ?thesis using e False by (intro exI [of _ e] exI [of _ "[]"]) simp
      qed (use e in auto)
    qed (auto split: if_splits)
    also have "\<dots> \<longleftrightarrow> (\<exists>q. r = path @ q \<and> walk adj quote cur visited q \<and> length path + length q \<le> n)"
      by (metis neq_Nil_conv walk.simps(1))
    finally show ?thesis .
  qed
qed

lemma walk_iff:
  assumes "cur \<in> set visited"
  shows "walk (buildAdjacency edges) quote cur visited q \<longleftrightarrow>
     q \<noteq> [] \<and> set q \<subseteq> set edges \<and> chain cur q \<and> distinct (map To q) \<and> To ` set q \<inter> set visited = {} \<and> To (last q) = quote"
  using assms
proof (induction q arbitrary: cur visited)
  case (Cons e q)
  have "q \<noteq> [] \<Longrightarrow> To (last q) \<in> To ` set q" by simp
  then show ?case using Cons.IH [of "To e" "To e # visited"] Cons.prems
    by (cases "q = []") (auto simp: buildAdjacency_eq)
qed simp

lemma FindRoutes_all:
  "p \<in> set (FindRoutes edges base quote maxHops False) \<longleftrightarrow>
   base \<noteq> quote \<and> simple_route edges base quote p \<and> int (length p) \<le> maxHops"
proof (cases "maxHops < 1 \<or> base = quote")
  case True
  then show ?thesis by (cases p) (auto simp: FindRoutes_def Asset_Equal_iff simple_route_def)
next
  case False
  then show ?thesis
    using dfs_walk [of p "buildAdjacency edges" quote "nat maxHops" base "[]" "[base]"] walk_iff [of base "[base]" edges quote p]
    by (auto simp: FindRoutes_def Asset_Equal_iff simple_route_def)
qed

lemma min_length_eq: "min_length ps m = Min (insert m (length ` set ps))"
proof (induction ps arbitrary: m)
  case (Cons p ps)
  have "(if length p < m then length p else m) = min (length p) m" by simp
  then show ?case by (cases "ps = []") (simp_all add: Cons.IH min.left_commute min.assoc min.commute)
qed simp

lemma keepShortest_iff: "p \<in> set (keepShortest ps) \<longleftrightarrow> p \<in> set ps \<and> length p = Min (length ` set ps)"
  by (cases ps) (auto simp: keepShortest_def Let_def min_length_eq)

text \<open>
  The search is sound and complete: for distinct assets it returns exactly the routes of at most
  \<open>maxHops\<close> edges of the graph that chain from base to quote without visiting an asset twice; with
  \<open>shortestOnly\<close> exactly the shortest of them.
\<close>

theorem FindRoutes_complete:
  "(p \<in> set (FindRoutes edges base quote maxHops False) \<longleftrightarrow>
      base \<noteq> quote \<and> simple_route edges base quote p \<and> int (length p) \<le> maxHops) \<and>
   (p \<in> set (FindRoutes edges base quote maxHops True) \<longleftrightarrow>
      p \<in> set (FindRoutes edges base quote maxHops False) \<and>
      length p = Min (length ` set (FindRoutes edges base quote maxHops False)))"
proof
  show "p \<in> set (FindRoutes edges base quote maxHops False) \<longleftrightarrow>
      base \<noteq> quote \<and> simple_route edges base quote p \<and> int (length p) \<le> maxHops" by (rule FindRoutes_all)
  have "FindRoutes edges base quote maxHops True = keepShortest (FindRoutes edges base quote maxHops False)"
    by (cases "maxHops < 1 \<or> Asset_Equal base quote") (auto simp: FindRoutes_def keepShortest_def [of "[]"])
  then show "p \<in> set (FindRoutes edges base quote maxHops True) \<longleftrightarrow>
      p \<in> set (FindRoutes edges base quote maxHops False) \<and>
      length p = Min (length ` set (FindRoutes edges base quote maxHops False))"
    by (simp add: keepShortest_iff)
qed

section \<open>The rate of a route\<close>

definition priced_leg :: "RouteLeg \<Rightarrow> bool" where
  "priced_leg e = (case Price e of None \<Rightarrow> False | Some p \<Rightarrow> 0 < p)"

abbreviation leg_rate :: "RouteLeg \<Rightarrow> rat" where
  "leg_rate e \<equiv> the (Price e)"

lemma composite_loop_Inr:
  "composite_loop path prev out = Inr r \<longleftrightarrow>
   list_all priced_leg path \<and> (path \<noteq> [] \<longrightarrow> chain (case prev of None \<Rightarrow> From (hd path) | Some e \<Rightarrow> To e) path) \<and>
   r = out * prod_list (map leg_rate path)"
proof (induction path arbitrary: prev out)
  case (Cons e path)
  show ?case
  proof (cases "priced_leg e \<and> (case prev of None \<Rightarrow> True | Some f \<Rightarrow> From e = To f)")
    case True
    then obtain p where p: "Price e = Some p" "0 < p" by (auto simp: priced_leg_def split: option.splits)
    then have "composite_loop (e # path) prev out = composite_loop path (Some e) (out * p)"
      using True by (auto simp: Asset_Equal_iff split: option.splits)
    then show ?thesis using True p Cons.IH [of "Some e" "out * p"]
      by (cases path) (auto simp: mult.assoc split: option.splits)
  next
    case False
    then show ?thesis by (auto simp: priced_leg_def Asset_Equal_iff split: option.splits)
  qed
qed auto

lemma CompositeRate_Inr:
  "CompositeRate path = Inr r \<longleftrightarrow>
   path \<noteq> [] \<and> chain (From (hd path)) path \<and> list_all priced_leg path \<and> r = prod_list (map leg_rate path)"
  by (auto simp: CompositeRate_def composite_loop_Inr)

lemma CompositeRate_pos: "CompositeRate path = Inr r \<Longrightarrow> 0 < r"
proof -
  have "list_all priced_leg path \<Longrightarrow> 0 < prod_list (map leg_rate path)"
    by (induction path) (auto simp: priced_leg_def split: option.splits)
  then show "CompositeRate path = Inr r \<Longrightarrow> 0 < r" by (simp add: CompositeRate_Inr)
qed

definition mirror :: "RouteLeg \<Rightarrow> RouteLeg" where
  "mirror e = e\<lparr>From := To e, To := From e, Price := map_option inverse (Price e)\<rparr>"

lemma chain_append: "chain a (p @ q) \<longleftrightarrow> chain a p \<and> chain (if p = [] then a else To (last p)) q"
  by (induction p arbitrary: a) auto

lemma chain_hd: "chain a p \<Longrightarrow> p \<noteq> [] \<Longrightarrow> From (hd p) = a"
  by (cases p) auto

lemma chain_mirror: "p \<noteq> [] \<Longrightarrow> chain a p \<Longrightarrow> chain (To (last p)) (rev (map mirror p))"
proof (induction p arbitrary: a)
  case (Cons e p)
  then show ?case
    by (cases "p = []") (auto simp: chain_append mirror_def last_rev hd_map list.map_sel dest: chain_hd)
qed simp

text \<open>
  The rate of a route is the exact product of its legs and fails closed: it exists exactly when the
  route is not empty, chains, and every leg has a positive price, and it is then positive; the mirrored
  route, the one that leads back, has exactly the reciprocal rate.
\<close>

theorem CompositeRate_exact:
  "(CompositeRate path = Inr r \<longleftrightarrow>
      path \<noteq> [] \<and> chain (From (hd path)) path \<and> list_all priced_leg path \<and> r = prod_list (map leg_rate path)) \<and>
   (CompositeRate path = Inr r \<longrightarrow> 0 < r \<and> CompositeRate (rev (map mirror path)) = Inr (inverse r))"
proof (intro conjI impI)
  show "CompositeRate path = Inr r \<longleftrightarrow>
      path \<noteq> [] \<and> chain (From (hd path)) path \<and> list_all priced_leg path \<and> r = prod_list (map leg_rate path)"
    by (rule CompositeRate_Inr)
next
  assume "CompositeRate path = Inr r"
  then show "0 < r" by (rule CompositeRate_pos)
next
  assume "CompositeRate path = Inr r"
  then have h: "path \<noteq> []" "chain (From (hd path)) path" "list_all priced_leg path" "r = prod_list (map leg_rate path)"
    by (simp_all add: CompositeRate_Inr)
  have "list_all priced_leg (rev (map mirror path))"
    using h(3) by (auto simp: list_all_iff priced_leg_def mirror_def split: option.splits)
  moreover have "prod_list (map leg_rate (map mirror path)) = inverse (prod_list (map leg_rate path))"
    using h(3) by (induction path) (auto simp: priced_leg_def mirror_def split: option.splits)
  moreover have "From (hd (rev (map mirror path))) = To (last path)"
    using h(1) by (simp add: hd_rev last_map mirror_def)
  moreover have "prod_list (map leg_rate (rev (map mirror path))) = prod_list (map leg_rate (map mirror path))"
    by (simp only: mset_map mset_rev flip: prod_mset_prod_list)
  ultimately show "CompositeRate (rev (map mirror path)) = Inr (inverse r)"
    using h(1,4) chain_mirror [OF h(1,2)] unfolding CompositeRate_Inr by simp
qed

section \<open>Sample graph\<close>

definition usd :: Asset where
  "usd = zeroAsset\<lparr>Type := AssetFiat, Code := ''USD''\<rparr>"

definition btc :: Asset where
  "btc = zeroAsset\<lparr>Type := AssetCrypto, Code := ''BTC''\<rparr>"

definition sample_quote :: "Asset \<Rightarrow> Asset \<Rightarrow> rat \<Rightarrow> rat \<Rightarrow> Quote" where
  "sample_quote b q p c = \<lparr>q_Pair = \<lparr>Base = b, Quote = q\<rparr>, q_Price = Some p, q_Confidence = FFin c, q_Provenance = []\<rparr>"

definition sample_quotes :: "Quote list" where
  "sample_quotes = [sample_quote btc usd 50000 (9 / 10), sample_quote NativeAsset btc (1 / 400000) (8 / 10),
     sample_quote NativeAsset usd (1 / 10) (7 / 10)]"

theorem BuildEdges_reciprocal_witness:
  "\<exists>es. BuildEdges sample_quotes = Inr es \<and> graph_ok es \<and> length es = 6"
proof -
  have "case BuildEdges sample_quotes of Inl _ \<Rightarrow> False | Inr es \<Rightarrow> length es = 6" by code_simp
  then obtain es where "BuildEdges sample_quotes = Inr es" "length es = 6" by (auto split: sum.splits)
  then show ?thesis using BuildEdges_reciprocal [of sample_quotes es] by blast
qed

theorem BuildEdges_order_independent_witness:
  "BuildEdges sample_quotes = BuildEdges (rev sample_quotes)"
proof (rule BuildEdges_order_independent)
  show "mset sample_quotes = mset (rev sample_quotes)" by simp
  show "distinct (map (Pair_String \<circ> q_Pair) sample_quotes)" by code_simp
qed

definition sample_route :: "RouteLeg list" where
  "sample_route = [\<lparr>From = NativeAsset, To = btc, Price = Some (1 / 4), LegConfidence = FFin 1, Provenance = []\<rparr>,
     \<lparr>From = btc, To = usd, Price = Some 6, LegConfidence = FFin (1 / 2), Provenance = []\<rparr>]"

theorem CompositeRate_exact_witness:
  "CompositeRate sample_route = Inr (3 / 2) \<and> CompositeRate (rev (map mirror sample_route)) = Inr (inverse (3 / 2))"
proof -
  have r: "CompositeRate sample_route = Inr (3 / 2)" by code_simp
  then show ?thesis using CompositeRate_exact [of sample_route "3 / 2"] by blast
qed

end
