(* ===== verification/Router.thy ===== *)
theory Router
  imports RouteGraph RobustStat
begin

text \<open>
  Choosing the served cross rate (internal/aggregate/router.go, second half): outlier omission over
  route rates, the confidence gate, the served member median of the top-confidence tier, the
  divergence signals and the count of independent corroborating routes.

  \<open>CombineRoutes\<close> is \<open>None\<close> where the code would dereference a nil rate, and otherwise an error or the
  tuple of results as a record; that it is never \<open>None\<close> is proved.
\<close>

section \<open>Outlier omission\<close>

definition routerOutlierPermitPct :: int where
  "routerOutlierPermitPct = 40"

definition routerDivergenceSpreadPct :: int where
  "routerDivergenceSpreadPct = 40"

definition routerCorroborationAgreePct :: int where
  "routerCorroborationAgreePct = 3"

definition maxCorroborationRoutes :: nat where
  "maxCorroborationRoutes = 16"

definition RouteTrustFloor :: f64 where
  "RouteTrustFloor = FFin (1 / 2)"

definition ClearsRouteTrustFloor :: "f64 \<Rightarrow> bool" where
  "ClearsRouteTrustFloor weakestLink = (RouteTrustFloor < weakestLink)"

text \<open>The median of at least three rates is never nil.\<close>

definition omitOutlierIndices :: "rat list \<Rightarrow> int \<Rightarrow> nat list" where
  "omitOutlierIndices rates permitDivergentPct =
     (let all = [0..<length rates] in
      if length rates < 3 then all
      else case Median rates of
        None \<Rightarrow> all
      | Some med \<Rightarrow>
          if \<bar>med\<bar> = 0 then all
          else let rhs = \<bar>med\<bar> * of_int permitDivergentPct;
                   keep = filter (\<lambda>i. \<bar>rates ! i - med\<bar> * 100 \<le> rhs) all
               in if keep = [] then all else keep)"

definition OmitOutliers :: "rat list \<Rightarrow> int \<Rightarrow> rat list" where
  "OmitOutliers rates permitDivergentPct = map ((!) rates) (omitOutlierIndices rates permitDivergentPct)"

section \<open>Scoring, gating and the served tier\<close>

record scoredRoute =
  sr_legs :: "RouteLeg list"
  sr_price :: rat
  sr_confidence :: f64

fun scoreRoutes :: "RouteLeg list list \<Rightarrow> router_error + scoredRoute list" where
  "scoreRoutes [] = Inr []"
| "scoreRoutes (r # rs) =
     (case CompositeRate r of
        Inl e \<Rightarrow> Inl e
      | Inr p \<Rightarrow>
          (case scoreRoutes rs of
             Inl e \<Rightarrow> Inl e
           | Inr out \<Rightarrow> Inr (\<lparr>sr_legs = r, sr_price = p, sr_confidence = sanitizeConfidence (RouteConfidence r)\<rparr> # out)))"

definition gateByConfidence :: "scoredRoute list \<Rightarrow> f64 \<Rightarrow> scoredRoute list \<times> bool" where
  "gateByConfidence scored minConfidence =
     (let kept = filter (\<lambda>s. minConfidence \<le> sr_confidence s) scored in
      if kept = [] then (scored, True) else (kept, False))"

definition pricesOf :: "scoredRoute list \<Rightarrow> rat list" where
  "pricesOf scored = map sr_price scored"

fun max_confidence_loop :: "scoredRoute list \<Rightarrow> f64 \<Rightarrow> f64" where
  "max_confidence_loop [] best = best"
| "max_confidence_loop (s # ss) best =
     max_confidence_loop ss (if best < sr_confidence s then sr_confidence s else best)"

definition maxConfidence :: "scoredRoute list \<Rightarrow> f64" where
  "maxConfidence scored = (case scored of [] \<Rightarrow> FFin 0 | s # ss \<Rightarrow> max_confidence_loop ss (sr_confidence s))"

definition highestConfidencePrice :: "scoredRoute list \<Rightarrow> rat option \<times> nat" where
  "highestConfidencePrice routes =
     (let best = maxConfidence routes;
          top = map sr_price (filter (\<lambda>s. f64_eq (sr_confidence s) best) routes);
          top = OmitOutliers top routerOutlierPermitPct
      in (MedianMember top, length top))"

fun extremes :: "rat list \<Rightarrow> rat \<Rightarrow> rat \<Rightarrow> rat \<times> rat" where
  "extremes [] lo hi = (lo, hi)"
| "extremes (v # vs) lo hi = extremes vs (if v < lo then v else lo) (if hi < v then v else hi)"

definition spreadExceeds :: "rat list \<Rightarrow> int \<Rightarrow> bool" where
  "spreadExceeds vals pct =
     (if length vals < 2 then False
      else case Median vals of
        None \<Rightarrow> False
      | Some med \<Rightarrow>
          if \<bar>med\<bar> = 0 then False
          else case extremes vals (hd vals) (hd vals) of (lo, hi) \<Rightarrow>
            \<bar>med\<bar> * of_int pct < (hi - lo) * 100)"

section \<open>Corroboration\<close>

definition pricesAgreeWithin :: "rat \<Rightarrow> rat \<Rightarrow> int \<Rightarrow> bool" where
  "pricesAgreeWithin a b pct =
     (if a \<le> 0 \<or> b \<le> 0 then False
      else let smaller = (if b < a then b else a) in \<bar>a - b\<bar> * 100 \<le> \<bar>smaller\<bar> * of_int pct)"

definition provenanceEdgeKey :: "string \<Rightarrow> string" where
  "provenanceEdgeKey p = ''provenance'' @ CHR 0x00 # p"

fun routeEdgeSet :: "RouteLeg list \<Rightarrow> string set" where
  "routeEdgeSet [] = {}"
| "routeEdgeSet (leg # legs) =
     insert (undirectedEdgeKey (From leg) (To leg)) (set (map provenanceEdgeKey (Provenance leg)) \<union> routeEdgeSet legs)"

definition edgeSetsDisjoint :: "string set \<Rightarrow> string set \<Rightarrow> bool" where
  "edgeSetsDisjoint a b =
     (case (if card b < card a then (b, a) else (a, b)) of (a, b) \<Rightarrow> \<forall>k\<in>a. k \<notin> b)"

text \<open>\<open>bits.OnesCount\<close>.\<close>

fun OnesCount :: "nat \<Rightarrow> nat" where
  "OnesCount msk = (if msk = 0 then 0 else msk mod 2 + OnesCount (msk div 2))"

declare OnesCount.simps [simp del]

lemma drop_bit_next: "drop_bit (Suc i) m = drop_bit i m div 2" for m :: nat
  by (metis div_mult2_eq drop_bit_eq_div mult.commute power_Suc)

text \<open>The loop over the set bits of a mask, while \<open>mask >> i\<close> is not zero.\<close>

function mask_members :: "nat \<Rightarrow> nat \<Rightarrow> nat list" where
  "mask_members msk i =
     (if drop_bit i msk = 0 then []
      else if bit msk i then i # mask_members msk (i + 1) else mask_members msk (i + 1))"
  by pat_completeness auto
termination
  by (relation "measure (\<lambda>(msk, i). drop_bit i msk)") (auto simp: drop_bit_next)

fun all_pairs :: "(nat \<Rightarrow> nat \<Rightarrow> bool) \<Rightarrow> nat list \<Rightarrow> bool" where
  "all_pairs conn [] = True"
| "all_pairs conn (a # members) = (list_all (conn a) members \<and> all_pairs conn members)"

definition maskIsClique :: "nat \<Rightarrow> (nat \<Rightarrow> nat \<Rightarrow> bool) \<Rightarrow> bool" where
  "maskIsClique msk conn = all_pairs conn (mask_members msk 0)"

fun greedy_loop :: "(nat \<Rightarrow> nat \<Rightarrow> bool) \<Rightarrow> nat list \<Rightarrow> nat list \<Rightarrow> nat list" where
  "greedy_loop conn [] chosen = chosen"
| "greedy_loop conn (i # is) chosen =
     greedy_loop conn is (if list_all (\<lambda>j. conn i j) chosen then chosen @ [i] else chosen)"

definition greedyCliqueSize :: "nat \<Rightarrow> (nat \<Rightarrow> nat \<Rightarrow> bool) \<Rightarrow> nat" where
  "greedyCliqueSize n conn = length (greedy_loop conn [0..<n] [])"

fun clique_loop :: "(nat \<Rightarrow> nat \<Rightarrow> bool) \<Rightarrow> nat list \<Rightarrow> nat \<Rightarrow> nat" where
  "clique_loop conn [] best = best"
| "clique_loop conn (msk # msks) best =
     (let size = OnesCount msk in
      if size \<le> best then clique_loop conn msks best
      else if maskIsClique msk conn then clique_loop conn msks size
      else clique_loop conn msks best)"

definition maxCliqueSize :: "nat \<Rightarrow> (nat \<Rightarrow> nat \<Rightarrow> bool) \<Rightarrow> nat" where
  "maxCliqueSize n conn =
     (if n = 0 then 0
      else if maxCorroborationRoutes < n then greedyCliqueSize n conn
      else clique_loop conn [1..<2 ^ n] 0)"

definition MaxEdgeDisjointRoutes :: "RouteLeg list list \<Rightarrow> nat" where
  "MaxEdgeDisjointRoutes routes =
     (let n = length routes in
      if n \<le> 1 then n
      else let edgeSets = map routeEdgeSet routes in
        maxCliqueSize n (\<lambda>i j. edgeSetsDisjoint (edgeSets ! i) (edgeSets ! j)))"

definition routes_agree :: "scoredRoute list \<Rightarrow> nat \<Rightarrow> nat \<Rightarrow> bool" where
  "routes_agree survivors i j =
     (ClearsRouteTrustFloor (sr_confidence (survivors ! i)) \<and> ClearsRouteTrustFloor (sr_confidence (survivors ! j)) \<and>
      pricesAgreeWithin (sr_price (survivors ! i)) (sr_price (survivors ! j)) routerCorroborationAgreePct)"

definition corroboratingRouteCount :: "scoredRoute list \<Rightarrow> bool \<Rightarrow> nat" where
  "corroboratingRouteCount survivors diverged =
     (if diverged then 0
      else let n = length survivors in
        if n \<le> 1 then n
        else if maxCliqueSize n (routes_agree survivors) < 2 then 0
        else let edgeSets = map (routeEdgeSet \<circ> sr_legs) survivors in
          maxCliqueSize n (\<lambda>i j. routes_agree survivors i j \<and> edgeSetsDisjoint (edgeSets ! i) (edgeSets ! j)))"

section \<open>CombineRoutes\<close>

fun next_tier :: "RouteLeg list list \<Rightarrow> nat \<Rightarrow> nat \<Rightarrow> nat" where
  "next_tier [] shortest nxt = nxt"
| "next_tier (r # rs) shortest nxt =
     next_tier rs shortest (if shortest < length r \<and> (nxt = 0 \<or> length r < nxt) then length r else nxt)"

definition nextTierDisagrees ::
  "rat option \<Rightarrow> RouteLeg list list \<Rightarrow> nat \<Rightarrow> f64 \<Rightarrow> (router_error + bool) option" where
  "nextTierDisagrees composite all shortest minConfidence =
     (let nxt = next_tier all shortest 0 in
      if nxt = 0 then Some (Inr False)
      else case scoreRoutes (filter (\<lambda>r. length r = nxt) all) of
        Inl e \<Rightarrow> Some (Inl e)
      | Inr scored \<Rightarrow>
          let prices = pricesOf (fst (gateByConfidence scored minConfidence));
              kept = OmitOutliers prices routerOutlierPermitPct
          in if kept = [] then Some (Inr False)
             else case (composite, MedianMember kept) of
               (Some c, Some m) \<Rightarrow> Some (Inr (spreadExceeds [c, m] routerDivergenceSpreadPct))
             | _ \<Rightarrow> None)"

record combined =
  composite :: "rat option"
  combinedConfidence :: f64
  servedRouteCount :: nat
  pathCount :: nat
  corroborationCount :: nat
  diverged :: bool
  lowConfidence :: bool

definition CombineRoutes ::
  "RouteLeg list \<Rightarrow> Asset \<Rightarrow> Asset \<Rightarrow> int \<Rightarrow> f64 \<Rightarrow> (router_error + combined) option" where
  "CombineRoutes edges base quote maxHops minConfidence =
     (let all = FindRoutes edges base quote maxHops False;
          routes = keepShortest all
      in if routes = [] then Some (Inl ErrNoRoute)
         else case scoreRoutes routes of
           Inl e \<Rightarrow> Some (Inl e)
         | Inr scored \<Rightarrow>
             (case gateByConfidence scored minConfidence of (gated, lowConf) \<Rightarrow>
              case highestConfidencePrice gated of (price, served) \<Rightarrow>
              let survivors = map ((!) gated) (omitOutlierIndices (pricesOf gated) routerOutlierPermitPct);
                  rejected = length gated - length survivors;
                  div1 = (0 < rejected \<or> spreadExceeds (pricesOf survivors) routerDivergenceSpreadPct);
                  div2 = (if div1 then Some (Inr True) else nextTierDisagrees price all (length (hd routes)) minConfidence)
              in case div2 of
                   None \<Rightarrow> None
                 | Some (Inl e) \<Rightarrow> Some (Inl e)
                 | Some (Inr dv) \<Rightarrow>
                     Some (Inr \<lparr>composite = price, combinedConfidence = maxConfidence gated, servedRouteCount = served,
                       pathCount = length survivors, corroborationCount = corroboratingRouteCount survivors dv,
                       diverged = dv, lowConfidence = lowConf\<rparr>)))"

declare mask_members.simps [simp del]

section \<open>Cliques\<close>

definition is_clique :: "nat \<Rightarrow> (nat \<Rightarrow> nat \<Rightarrow> bool) \<Rightarrow> nat set \<Rightarrow> bool" where
  "is_clique n conn S \<longleftrightarrow> S \<subseteq> {..<n} \<and> (\<forall>i\<in>S. \<forall>j\<in>S. i < j \<longrightarrow> conn i j)"

lemma mask_members_set: "set (mask_members m i) = {j. i \<le> j \<and> bit m j}"
proof (induction m i rule: mask_members.induct)
  case (1 m i)
  have none: "drop_bit i m = 0 \<Longrightarrow> i \<le> j \<Longrightarrow> \<not> bit m j" for j
  proof
    assume z: "drop_bit i m = 0" and j: "i \<le> j" "bit m j"
    have "bit (drop_bit i m) (j - i)" using j by (simp add: bit_drop_bit_eq)
    then show False by (simp add: z)
  qed
  show ?case
  proof (cases "drop_bit i m = 0")
    case True
    then show ?thesis using none by (subst mask_members.simps) auto
  next
    case False
    then have IH: "set (mask_members m (i + 1)) = {j. i + 1 \<le> j \<and> bit m j}" using 1 by (cases "bit m i") auto
    have "set (mask_members m i) = (if bit m i then {i} else {}) \<union> set (mask_members m (i + 1))"
      using False by (subst mask_members.simps) simp
    also have "\<dots> = {j. i \<le> j \<and> bit m j}" unfolding IH by (auto simp: le_less Suc_le_eq)
    finally show ?thesis .
  qed
qed

lemma mask_members_sorted: "sorted_wrt (<) (mask_members m i)"
proof (induction m i rule: mask_members.induct)
  case (1 m i)
  then show ?case by (subst mask_members.simps) (auto simp: mask_members_set)
qed

lemma all_pairs_sorted: "all_pairs conn xs \<longleftrightarrow> sorted_wrt conn xs"
  by (induction xs) (auto simp: list_all_iff)

lemma sorted_wrt_less_set:
  fixes xs :: "nat list"
  assumes "sorted_wrt (<) xs"
  shows "sorted_wrt conn xs \<longleftrightarrow> (\<forall>i\<in>set xs. \<forall>j\<in>set xs. i < j \<longrightarrow> conn i j)"
  using assms by (induction xs) auto

lemma maskIsClique_iff: "maskIsClique m conn \<longleftrightarrow> (\<forall>i j. bit m i \<and> bit m j \<and> i < j \<longrightarrow> conn i j)"
  unfolding maskIsClique_def all_pairs_sorted sorted_wrt_less_set [OF mask_members_sorted]
  by (auto simp: mask_members_set)

lemma bit_less: "m < 2 ^ n \<Longrightarrow> bit m i \<Longrightarrow> i < n" for m :: nat
proof (rule ccontr)
  assume "m < 2 ^ n" "bit m i" "\<not> i < n"
  moreover have "(2 :: nat) ^ n \<le> 2 ^ i" using \<open>\<not> i < n\<close> by (intro power_increasing) auto
  ultimately have "m < 2 ^ i" by linarith
  then show False using \<open>bit m i\<close> by (simp add: bit_iff_odd)
qed

lemma OnesCount_card: "OnesCount m = card {i. bit m i}"
proof (induction m rule: OnesCount.induct)
  case (1 m)
  show ?case
  proof (cases "m = 0")
    case False
    have bits: "{i. bit m i} = (if odd m then {0} else {}) \<union> Suc ` {i. bit (m div 2) i}"
    proof (intro set_eqI)
      fix i show "i \<in> {i. bit m i} \<longleftrightarrow> i \<in> (if odd m then {0} else {}) \<union> Suc ` {i. bit (m div 2) i}"
        by (cases i) (auto simp: bit_0 bit_Suc)
    qed
    have fin: "finite {i. bit (m div 2) i}"
      by (rule finite_subset [of _ "{..<m div 2}"]) (use bit_less [OF less_exp] in auto)
    have "card {i. bit m i} = (if odd m then 1 else 0) + card {i. bit (m div 2) i}"
      using fin unfolding bits by (simp add: card_image card_insert_if image_iff)
    then show ?thesis using 1 False by (subst OnesCount.simps) (auto simp: odd_iff_mod_2_eq_one)
  qed (simp add: OnesCount.simps)
qed

lemma mask_exists: "S \<subseteq> {..<n} \<Longrightarrow> \<exists>m. m < (2 :: nat) ^ n \<and> {i. bit m i} = S"
proof (intro exI conjI)
  assume S: "S \<subseteq> {..<n}"
  let ?bs = "map (\<lambda>i. i \<in> S) [0..<n]"
  show "horner_sum of_bool 2 ?bs < (2 ^ n :: nat)" using horner_sum_of_bool_2_less [of ?bs, where 'a = nat] by simp
  show "{i. bit (horner_sum of_bool 2 ?bs :: nat) i} = S"
    using S by (auto simp: bit_horner_sum_bit_iff)
qed

lemma clique_loop_eq:
  "clique_loop conn ms best = Max (insert best (OnesCount ` {m \<in> set ms. maskIsClique m conn}))"
proof (induction ms arbitrary: best)
  case (Cons m ms)
  let ?T = "OnesCount ` {m \<in> set ms. maskIsClique m conn}"
  have fin: "finite ?T" by simp
  have "{k \<in> set (m # ms). maskIsClique k conn}
      = (if maskIsClique m conn then {m} else {}) \<union> {m \<in> set ms. maskIsClique m conn}" by auto
  then have T: "OnesCount ` {k \<in> set (m # ms). maskIsClique k conn}
      = (if maskIsClique m conn then {OnesCount m} else {}) \<union> ?T" by (simp add: image_Un)
  have Mx: "Max (insert best (insert c U)) = Max (insert (max best c) U)" if "finite U" for c U
    using that by (cases "U = {}") (simp_all add: max.assoc)
  show ?case unfolding T using Cons.IH Mx [OF fin, of "OnesCount m"]
    by (auto simp: Let_def max_def)
qed simp

lemma clique_masks:
  "insert 0 (OnesCount ` {m \<in> set [1..<2 ^ n]. maskIsClique m conn}) = card ` {S. is_clique n conn S}"
proof (intro set_eqI iffI)
  fix c assume "c \<in> insert 0 (OnesCount ` {m \<in> set [1..<2 ^ n]. maskIsClique m conn})"
  then consider "c = 0" | m :: nat where "m < 2 ^ n" "maskIsClique m conn" "c = OnesCount m" by auto
  then show "c \<in> card ` {S. is_clique n conn S}"
  proof cases
    case 1
    moreover have "is_clique n conn {}" by (simp add: is_clique_def)
    ultimately show ?thesis by (intro image_eqI [of _ _ "{}"]) auto
  next
    case 2
    then have "is_clique n conn {i. bit m i}" using bit_less [OF 2(1)] by (auto simp: is_clique_def maskIsClique_iff)
    then show ?thesis using 2 OnesCount_card [of m] by blast
  qed
next
  fix c assume "c \<in> card ` {S. is_clique n conn S}"
  then obtain S where S: "is_clique n conn S" "c = card S" by blast
  then obtain m :: nat where m: "m < 2 ^ n" "{i. bit m i} = S" using mask_exists [of S n] by (auto simp: is_clique_def)
  then have "maskIsClique m conn" "OnesCount m = c"
    using S OnesCount_card [of m] by (auto simp: is_clique_def maskIsClique_iff)
  then show "c \<in> insert 0 (OnesCount ` {m \<in> set [1..<2 ^ n]. maskIsClique m conn})"
  proof (cases "m = 0")
    case True
    then show ?thesis using \<open>OnesCount m = c\<close> by (simp add: OnesCount_card)
  next
    case False
    then have "m \<in> {m \<in> set [1..<2 ^ n]. maskIsClique m conn}" using m(1) \<open>maskIsClique m conn\<close> by simp
    then show ?thesis using \<open>OnesCount m = c\<close> by blast
  qed
qed

lemma greedy_loop_clique:
  assumes "\<And>i j. conn i j \<Longrightarrow> conn j i"
  shows "sorted_wrt (<) (chosen @ is) \<Longrightarrow> sorted_wrt conn chosen \<Longrightarrow>
    sorted_wrt (<) (greedy_loop conn is chosen) \<and> sorted_wrt conn (greedy_loop conn is chosen) \<and>
    set (greedy_loop conn is chosen) \<subseteq> set chosen \<union> set is"
proof (induction "is" arbitrary: chosen)
  case (Cons i "is")
  have "sorted_wrt (<) (chosen @ is)" "sorted_wrt (<) ((chosen @ [i]) @ is)"
    using Cons.prems(1) by (auto simp: sorted_wrt_append)
  moreover have "sorted_wrt conn (chosen @ [i])" if "list_all (\<lambda>j. conn i j) chosen"
    using that Cons.prems(2) assms by (auto simp: sorted_wrt_append list_all_iff)
  ultimately show ?case using Cons.IH [of chosen] Cons.IH [of "chosen @ [i]"] Cons.prems(2) by auto
qed (auto simp: sorted_wrt_append)

lemma maxCliqueSize_small:
  "n \<le> maxCorroborationRoutes \<Longrightarrow> maxCliqueSize n conn = Max (card ` {S. is_clique n conn S})"
proof (cases "n = 0")
  case True
  then have "{S. is_clique n conn S} = {{}}" by (auto simp: is_clique_def)
  then show ?thesis using True by (simp add: maxCliqueSize_def)
next
  case False
  assume n: "n \<le> maxCorroborationRoutes"
  have "clique_loop conn [1..<2 ^ n] 0 = Max (card ` {S. is_clique n conn S})"
    unfolding clique_loop_eq by (simp only: clique_masks)
  then show ?thesis using False n by (simp add: maxCliqueSize_def)
qed

lemma finite_cliques: "finite {S. is_clique n conn S}"
  by (rule finite_subset [of _ "Pow {..<n}"]) (auto simp: is_clique_def)

lemma maxCliqueSize_attained:
  assumes "\<And>i j. conn i j \<Longrightarrow> conn j i"
  shows "\<exists>S. is_clique n conn S \<and> card S = maxCliqueSize n conn"
proof (cases "n \<le> maxCorroborationRoutes")
  case True
  have "is_clique n conn {}" by (simp add: is_clique_def)
  then have "maxCliqueSize n conn \<in> card ` {S. is_clique n conn S}"
    unfolding maxCliqueSize_small [OF True] using finite_cliques by (intro Max_in) auto
  then show ?thesis by auto
next
  case False
  let ?g = "greedy_loop conn [0..<n] []"
  have g: "sorted_wrt (<) ?g" "sorted_wrt conn ?g" "set ?g \<subseteq> {..<n}"
    using greedy_loop_clique [of conn "[]" "[0..<n]"] assms by auto
  have "is_clique n conn (set ?g)" using g sorted_wrt_less_set [OF g(1)] by (simp add: is_clique_def)
  moreover have "distinct ?g" using g(1) strict_sorted_iff by blast
  then have "card (set ?g) = maxCliqueSize n conn"
    using False by (simp add: maxCliqueSize_def greedyCliqueSize_def distinct_card)
  ultimately show ?thesis by blast
qed

text \<open>
  The corroboration search is right: for a symmetric relation it returns the size of a set whose
  members are pairwise related, so the greedy estimate for large inputs can only under-count, and for at
  most 16 routes no larger such set exists.
\<close>

theorem maxCliqueSize_exact:
  assumes "\<And>i j. conn i j \<Longrightarrow> conn j i"
  shows "(\<exists>S. is_clique n conn S \<and> card S = maxCliqueSize n conn) \<and>
    (n \<le> 16 \<longrightarrow> (\<forall>S. is_clique n conn S \<longrightarrow> card S \<le> maxCliqueSize n conn))"
proof
  show "\<exists>S. is_clique n conn S \<and> card S = maxCliqueSize n conn" using assms by (rule maxCliqueSize_attained)
  show "n \<le> 16 \<longrightarrow> (\<forall>S. is_clique n conn S \<longrightarrow> card S \<le> maxCliqueSize n conn)"
    using finite_cliques by (auto simp: maxCliqueSize_small maxCorroborationRoutes_def intro!: Max_ge)
qed

theorem maxCliqueSize_exact_witness:
  "is_clique 4 (\<lambda>i j. i + j \<noteq> 3) {0, 1} \<and> card {0, 1 :: nat} \<le> maxCliqueSize 4 (\<lambda>i j. i + j \<noteq> 3) \<and>
   maxCliqueSize 4 (\<lambda>i j. i + j \<noteq> 3) = 2"
proof -
  have c: "is_clique 4 (\<lambda>i j. i + j \<noteq> 3) {0, 1}" by (auto simp: is_clique_def)
  have "maxCliqueSize 4 (\<lambda>i j. i + j \<noteq> 3) = 2" by code_simp
  then show ?thesis using maxCliqueSize_exact [of "\<lambda>i j. i + j \<noteq> 3" 4] c by (auto simp: add.commute)
qed

section \<open>Independent corroboration\<close>

lemma finite_routeEdgeSet: "finite (routeEdgeSet r)"
  by (induction r) auto

lemma edgeSetsDisjoint_iff: "edgeSetsDisjoint a b \<longleftrightarrow> a \<inter> b = {}"
  by (auto simp: edgeSetsDisjoint_def)

lemma pricesAgreeWithin_commute: "pricesAgreeWithin a b pct = pricesAgreeWithin b a pct"
proof -
  have "(if b < a then b else a) = min a b" "(if a < b then a else b) = min a b" by auto
  then show ?thesis by (auto simp: pricesAgreeWithin_def Let_def abs_minus_commute)
qed

lemma routes_agree_commute: "routes_agree survivors i j = routes_agree survivors j i"
  by (auto simp: routes_agree_def pricesAgreeWithin_commute)

definition independent_routes :: "scoredRoute \<Rightarrow> scoredRoute \<Rightarrow> bool" where
  "independent_routes r s \<longleftrightarrow>
     RouteTrustFloor < sr_confidence r \<and> RouteTrustFloor < sr_confidence s \<and>
     0 < sr_price r \<and> 0 < sr_price s \<and>
     \<bar>sr_price r - sr_price s\<bar> * 100 \<le> min (sr_price r) (sr_price s) * 3 \<and>
     routeEdgeSet (sr_legs r) \<inter> routeEdgeSet (sr_legs s) = {}"

lemma routes_agree_independent:
  assumes "routes_agree survivors i j" "edgeSetsDisjoint (routeEdgeSet (sr_legs (survivors ! i))) (routeEdgeSet (sr_legs (survivors ! j)))"
  shows "independent_routes (survivors ! i) (survivors ! j)"
  using assms
  by (auto simp: routes_agree_def independent_routes_def edgeSetsDisjoint_iff pricesAgreeWithin_def
      ClearsRouteTrustFloor_def routerCorroborationAgreePct_def Let_def min_def split: if_splits)

text \<open>
  A corroboration count of two or more cannot be faked with one market: there are that many
  surviving routes, any two of which have confidences above the trust floor, positive prices within 3
  percent of the smaller, and no market or provenance row in common; and a diverged set counts nothing.
\<close>

theorem corroboration_is_independent:
  "(dv \<longrightarrow> corroboratingRouteCount survivors dv = 0) \<and>
   (2 \<le> corroboratingRouteCount survivors dv \<longrightarrow>
      (\<exists>S. S \<subseteq> {..<length survivors} \<and> card S = corroboratingRouteCount survivors dv \<and>
         (\<forall>i\<in>S. \<forall>j\<in>S. i < j \<longrightarrow> independent_routes (survivors ! i) (survivors ! j))))"
proof (intro conjI impI)
  show "dv \<Longrightarrow> corroboratingRouteCount survivors dv = 0" by (simp add: corroboratingRouteCount_def)
  assume two: "2 \<le> corroboratingRouteCount survivors dv"
  let ?n = "length survivors"
  let ?c = "\<lambda>i j. routes_agree survivors i j \<and>
     edgeSetsDisjoint (map (routeEdgeSet \<circ> sr_legs) survivors ! i) (map (routeEdgeSet \<circ> sr_legs) survivors ! j)"
  have count: "corroboratingRouteCount survivors dv = maxCliqueSize ?n ?c"
    using two by (auto simp: corroboratingRouteCount_def Let_def split: if_splits)
  have "\<exists>S. is_clique ?n ?c S \<and> card S = maxCliqueSize ?n ?c"
    by (rule maxCliqueSize_attained) (auto simp: routes_agree_commute edgeSetsDisjoint_iff)
  then obtain S where S: "is_clique ?n ?c S" "card S = maxCliqueSize ?n ?c" by blast
  have "independent_routes (survivors ! i) (survivors ! j)" if "i \<in> S" "j \<in> S" "i < j" for i j
    using S(1) that by (intro routes_agree_independent) (auto simp: is_clique_def subset_iff)
  then show "\<exists>S. S \<subseteq> {..<?n} \<and> card S = corroboratingRouteCount survivors dv \<and>
      (\<forall>i\<in>S. \<forall>j\<in>S. i < j \<longrightarrow> independent_routes (survivors ! i) (survivors ! j))"
    using S unfolding count is_clique_def by blast
qed

definition sample_survivors :: "scoredRoute list" where
  "sample_survivors =
     [\<lparr>sr_legs = sample_route, sr_price = 3 / 2, sr_confidence = FFin (9 / 10)\<rparr>,
      \<lparr>sr_legs = [\<lparr>From = NativeAsset, To = usd, Price = Some (151 / 100), LegConfidence = FFin 1, Provenance = [''fx:1'']\<rparr>],
       sr_price = 151 / 100, sr_confidence = FFin (8 / 10)\<rparr>]"

theorem corroboration_is_independent_witness:
  "corroboratingRouteCount sample_survivors False = 2 \<and>
   (\<exists>S. S \<subseteq> {..<2} \<and> card S = 2 \<and>
      (\<forall>i\<in>S. \<forall>j\<in>S. i < j \<longrightarrow> independent_routes (sample_survivors ! i) (sample_survivors ! j)))"
proof -
  have "corroboratingRouteCount sample_survivors False = 2" "length sample_survivors = 2" by code_simp+
  then show ?thesis using corroboration_is_independent [of False sample_survivors] by simp
qed

section \<open>The served rate\<close>

lemma sanitized_finite: "\<exists>c. sanitizeConfidence x = FFin c"
  by (cases x) auto

lemma scoreRoutes_Inr:
  "scoreRoutes rs = Inr ss \<Longrightarrow>
   ss = map (\<lambda>r. \<lparr>sr_legs = r, sr_price = sum.projr (CompositeRate r),
      sr_confidence = sanitizeConfidence (RouteConfidence r)\<rparr>) rs \<and>
   (\<forall>r\<in>set rs. \<exists>p. CompositeRate r = Inr p)"
  by (induction rs arbitrary: ss) (auto split: sum.splits)

abbreviation finite_confidences :: "scoredRoute list \<Rightarrow> bool" where
  "finite_confidences ss \<equiv> \<forall>s\<in>set ss. \<exists>c. sr_confidence s = FFin c"

lemma FFin_less_iff [simp]: "FFin a < FFin b \<longleftrightarrow> a < b"
  by (auto simp: less_f64_def)

lemma max_confidence_loop_max:
  "finite_confidences ss \<Longrightarrow> best = FFin b \<Longrightarrow>
   (max_confidence_loop ss best = best \<or> max_confidence_loop ss best \<in> sr_confidence ` set ss) \<and>
   best \<le> max_confidence_loop ss best \<and> (\<forall>s\<in>set ss. sr_confidence s \<le> max_confidence_loop ss best)"
proof (induction ss arbitrary: best b)
  case (Cons s ss)
  obtain c where c: "sr_confidence s = FFin c" using Cons.prems(1) by auto
  let ?best = "if best < sr_confidence s then sr_confidence s else best"
  have b: "?best = FFin (max b c)" using Cons.prems(2) c by (auto simp: max_def)
  let ?r = "max_confidence_loop ss ?best"
  have le: "FFin x \<le> FFin y \<Longrightarrow> FFin y \<le> z \<Longrightarrow> FFin x \<le> z" for x y z by (cases z) auto
  have IH: "?r = ?best \<or> ?r \<in> sr_confidence ` set ss" "?best \<le> ?r" "\<forall>s\<in>set ss. sr_confidence s \<le> ?r"
    using Cons.IH [OF _ b] Cons.prems(1) by simp_all
  have "FFin (max b c) \<le> ?r" using IH(2) unfolding b .
  then have "best \<le> ?r" "sr_confidence s \<le> ?r"
    unfolding Cons.prems(2) c using le [of b "max b c"] le [of c "max b c"] by (simp_all only: less_eq_f64.simps max.cobounded1 max.cobounded2 simp_thms)
  moreover have "?best = best \<or> ?best = sr_confidence s" by simp
  then have "?r = best \<or> ?r \<in> sr_confidence ` set (s # ss)" using IH(1) by (elim disjE) (simp_all only: list.set image_insert insert_iff simp_thms)
  ultimately show ?case using IH(3) unfolding max_confidence_loop.simps list.set by (simp only: ball_simps simp_thms)
qed simp

lemma maxConfidence_max:
  assumes "finite_confidences ss" "ss \<noteq> []"
  shows "maxConfidence ss \<in> sr_confidence ` set ss" "\<forall>s\<in>set ss. sr_confidence s \<le> maxConfidence ss"
proof -
  obtain s rest where ss: "ss = s # rest" using assms(2) by (cases ss) auto
  obtain b where b: "sr_confidence s = FFin b" using assms(1) ss by auto
  have "finite_confidences rest" using assms(1) ss by simp
  from max_confidence_loop_max [OF this b]
  show "maxConfidence ss \<in> sr_confidence ` set ss" "\<forall>s\<in>set ss. sr_confidence s \<le> maxConfidence ss"
    by (auto simp: maxConfidence_def ss)
qed

lemma omitOutlierIndices_sub: "set (omitOutlierIndices rates pct) \<subseteq> {..<length rates}"
  "rates \<noteq> [] \<Longrightarrow> omitOutlierIndices rates pct \<noteq> []"
  by (auto simp: omitOutlierIndices_def Let_def split: option.splits if_splits)

lemma OmitOutliers_sub: "set (OmitOutliers rates pct) \<subseteq> set rates" "rates \<noteq> [] \<Longrightarrow> OmitOutliers rates pct \<noteq> []"
  using omitOutlierIndices_sub [of rates pct] by (auto simp: OmitOutliers_def)

lemma list_nonempty: "x \<in> set xs \<Longrightarrow> xs \<noteq> []"
  by auto

lemma highestConfidencePrice_member:
  assumes "finite_confidences ss" "ss \<noteq> []"
  shows "\<exists>s\<in>set ss. fst (highestConfidencePrice ss) = Some (sr_price s) \<and> sr_confidence s = maxConfidence ss"
proof -
  let ?tier = "filter (\<lambda>s. f64_eq (sr_confidence s) (maxConfidence ss)) ss"
  obtain s where s: "s \<in> set ss" "sr_confidence s = maxConfidence ss" using maxConfidence_max(1) [OF assms] by auto
  obtain c where c: "maxConfidence ss = FFin c" using s assms(1) by metis
  have "s \<in> set ?tier" using s c by simp
  then have "?tier \<noteq> []" by (rule list_nonempty)
  then have "OmitOutliers (map sr_price ?tier) routerOutlierPermitPct \<noteq> []" by (intro OmitOutliers_sub(2)) simp
  then obtain m where m: "MedianMember (OmitOutliers (map sr_price ?tier) routerOutlierPermitPct) = Some m" by fastforce
  then have "m \<in> set (map sr_price ?tier)" using MedianMember_in OmitOutliers_sub(1) by blast
  moreover have "f64_eq x (maxConfidence ss) \<longleftrightarrow> x = maxConfidence ss" for x unfolding c by (cases x) auto
  ultimately show ?thesis using m by (auto simp: highestConfidencePrice_def Let_def)
qed

lemma gateByConfidence_max:
  assumes "finite_confidences ss" "ss \<noteq> []" "gateByConfidence ss mc = (gated, low)"
  shows "gated \<noteq> []" "set gated \<subseteq> set ss" "\<forall>s\<in>set ss. sr_confidence s \<le> maxConfidence gated"
    "low \<longleftrightarrow> (\<forall>s\<in>set ss. \<not> mc \<le> sr_confidence s)"
proof -
  show g: "gated \<noteq> []" "set gated \<subseteq> set ss" and low: "low \<longleftrightarrow> (\<forall>s\<in>set ss. \<not> mc \<le> sr_confidence s)"
    using assms(2,3) by (auto simp: gateByConfidence_def Let_def filter_empty_conv split: if_splits)
  have fin: "finite_confidences gated" using assms(1) g(2) by blast
  note mx = maxConfidence_max [OF fin g(1)]
  show "\<forall>s\<in>set ss. sr_confidence s \<le> maxConfidence gated"
  proof
    fix s assume s: "s \<in> set ss"
    obtain t where t: "t \<in> set gated" "sr_confidence t = maxConfidence gated" using mx(1) by auto
    obtain c d where cd: "sr_confidence s = FFin c" "sr_confidence t = FFin d" using s t g(2) assms(1) by (metis subsetD)
    show "sr_confidence s \<le> maxConfidence gated"
    proof (cases "s \<in> set gated")
      case False
      then have "\<not> low" "\<not> mc \<le> sr_confidence s" "mc \<le> sr_confidence t"
        using assms(3) s t(1) by (auto simp: gateByConfidence_def Let_def split: if_splits)
      then have "c \<le> d" unfolding cd by (cases mc) auto
      then have "sr_confidence s \<le> sr_confidence t" unfolding cd by simp
      then show ?thesis using t(2) by simp
    qed (use mx(2) in blast)
  qed
qed

lemma nextTierDisagrees_total: "nextTierDisagrees (Some c) all n mc \<noteq> None"
proof -
  have "\<exists>m. MedianMember kept = Some m" if "kept \<noteq> []" for kept :: "rat list"
    using that by (cases "MedianMember kept") simp_all
  then show ?thesis by (auto simp: nextTierDisagrees_def Let_def split: sum.splits option.splits)
qed

lemma scoreRoutes_error: "scoreRoutes rs = Inl e \<Longrightarrow> e \<noteq> ErrNoRoute"
proof -
  have loop: "composite_loop p prev out = Inl e \<Longrightarrow> e \<noteq> ErrNoRoute" for p prev out
    by (induction p prev out rule: composite_loop.induct) (auto split: option.splits if_splits)
  then show "scoreRoutes rs = Inl e \<Longrightarrow> e \<noteq> ErrNoRoute"
    by (induction rs) (auto simp: CompositeRate_def split: sum.splits if_splits)
qed

lemma nextTierDisagrees_error: "nextTierDisagrees c all n mc = Some (Inl e) \<Longrightarrow> e \<noteq> ErrNoRoute"
  by (auto simp: nextTierDisagrees_def Let_def dest: scoreRoutes_error split: sum.splits option.splits if_splits)

lemma CombineRoutes_cases:
  fixes edges base quote h mc
  defines "routes \<equiv> FindRoutes edges base quote h True"
  shows "routes = [] \<and> CombineRoutes edges base quote h mc = Some (Inl ErrNoRoute) \<or>
    routes \<noteq> [] \<and> (\<exists>e. e \<noteq> ErrNoRoute \<and> CombineRoutes edges base quote h mc = Some (Inl e)) \<or>
    (\<exists>scored gated low res. routes \<noteq> [] \<and> scoreRoutes routes = Inr scored \<and> gateByConfidence scored mc = (gated, low) \<and>
       CombineRoutes edges base quote h mc = Some (Inr res) \<and> composite res = fst (highestConfidencePrice gated) \<and>
       combinedConfidence res = maxConfidence gated \<and> lowConfidence res = low)"
proof -
  have routes: "keepShortest (FindRoutes edges base quote h False) = routes"
    by (cases "h < 1 \<or> Asset_Equal base quote") (auto simp: routes_def FindRoutes_def keepShortest_def [of "[]"])
  show ?thesis
  proof (cases "routes = []")
    case True
    then show ?thesis by (simp add: CombineRoutes_def routes)
  next
    case ne: False
    show ?thesis
    proof (cases "scoreRoutes routes")
      case (Inl e)
      then show ?thesis using ne scoreRoutes_error [OF Inl] by (simp add: CombineRoutes_def routes)
    next
      case (Inr scored)
      obtain gated low where gl: "gateByConfidence scored mc = (gated, low)" by fastforce
      have sc: "scored \<noteq> []" "finite_confidences scored"
        using scoreRoutes_Inr [OF Inr] ne by (auto simp: sanitized_finite)
      note g = gateByConfidence_max [OF sc(2,1) gl]
      have "finite_confidences gated" using sc(2) g(2) by blast
      then obtain c where c: "fst (highestConfidencePrice gated) = Some c"
        using highestConfidencePrice_member [OF _ g(1)] by blast
      obtain served where hp: "highestConfidencePrice gated = (Some c, served)" using c by (cases "highestConfidencePrice gated") auto
      let ?surv = "map ((!) gated) (omitOutlierIndices (pricesOf gated) routerOutlierPermitPct)"
      define d2 where "d2 = (if 0 < length gated - length ?surv \<or> spreadExceeds (pricesOf ?surv) routerDivergenceSpreadPct
        then Some (Inr True) else nextTierDisagrees (Some c) (FindRoutes edges base quote h False) (length (hd routes)) mc)"
      have eq: "CombineRoutes edges base quote h mc = (case d2 of None \<Rightarrow> None | Some (Inl e) \<Rightarrow> Some (Inl e)
         | Some (Inr dv) \<Rightarrow> Some (Inr \<lparr>composite = Some c, combinedConfidence = maxConfidence gated, servedRouteCount = served,
                       pathCount = length ?surv, corroborationCount = corroboratingRouteCount ?surv dv,
                       diverged = dv, lowConfidence = low\<rparr>))"
        using ne Inr gl hp by (simp add: CombineRoutes_def routes Let_def d2_def)
      have "d2 \<noteq> None" unfolding d2_def by (simp add: nextTierDisagrees_total del: not_None_eq)
      then obtain x where x: "d2 = Some x" by blast
      have err: "e \<noteq> ErrNoRoute" if "x = Inl e" for e
        using x that nextTierDisagrees_error by (auto simp: d2_def split: if_splits)
      show ?thesis using eq ne Inr gl hp c err by (cases x) (simp_all add: x)
    qed
  qed
qed

text \<open>
  C12. What the router serves. It never dereferences a missing rate; it reports \<open>ErrNoRoute\<close> exactly when
  no route connects the assets; and a served composite is the exact, positive rate of one of the
  shortest routes, whose weakest-link confidence is the highest of all shortest routes (so routes of
  lower confidence never set the price), with \<open>lowConfidence\<close> raised exactly when none of them reaches
  the floor.
\<close>

theorem CombineRoutes_serves_a_route:
  "CombineRoutes edges base quote h mc \<noteq> None \<and>
   (CombineRoutes edges base quote h mc = Some (Inl ErrNoRoute) \<longleftrightarrow> FindRoutes edges base quote h True = []) \<and>
   (CombineRoutes edges base quote h mc = Some (Inr res) \<longrightarrow>
      (\<exists>r c. r \<in> set (FindRoutes edges base quote h True) \<and> CompositeRate r = Inr c \<and> composite res = Some c \<and> 0 < c \<and>
         sanitizeConfidence (RouteConfidence r) = combinedConfidence res) \<and>
      (\<forall>r\<in>set (FindRoutes edges base quote h True). sanitizeConfidence (RouteConfidence r) \<le> combinedConfidence res) \<and>
      (lowConfidence res \<longleftrightarrow>
         (\<forall>r\<in>set (FindRoutes edges base quote h True). \<not> mc \<le> sanitizeConfidence (RouteConfidence r))))"
proof (intro conjI impI)
  note cases = CombineRoutes_cases [of edges base quote h mc]
  show "CombineRoutes edges base quote h mc \<noteq> None" using cases by auto
  show "CombineRoutes edges base quote h mc = Some (Inl ErrNoRoute) \<longleftrightarrow> FindRoutes edges base quote h True = []"
    using cases by auto
  let ?routes = "FindRoutes edges base quote h True"
  assume "CombineRoutes edges base quote h mc = Some (Inr res)"
  then obtain scored gated low where a: "?routes \<noteq> []" "scoreRoutes ?routes = Inr scored"
    "gateByConfidence scored mc = (gated, low)" "composite res = fst (highestConfidencePrice gated)"
    "combinedConfidence res = maxConfidence gated" "lowConfidence res = low"
    using cases by auto
  have sc: "scored = map (\<lambda>r. \<lparr>sr_legs = r, sr_price = sum.projr (CompositeRate r),
      sr_confidence = sanitizeConfidence (RouteConfidence r)\<rparr>) ?routes" "\<forall>r\<in>set ?routes. \<exists>p. CompositeRate r = Inr p"
    using scoreRoutes_Inr [OF a(2)] by auto
  have fin: "finite_confidences scored" "scored \<noteq> []" using sc a(1) by (auto simp: sanitized_finite)
  note g = gateByConfidence_max [OF fin a(3)]
  have "finite_confidences gated" using fin(1) g(2) by blast
  from highestConfidencePrice_member [OF this g(1)]
  obtain s where s: "s \<in> set gated" "composite res = Some (sr_price s)" "sr_confidence s = combinedConfidence res"
    using a(4,5) by auto
  then obtain r where r: "r \<in> set ?routes" "sr_price s = sum.projr (CompositeRate r)" "sr_confidence s = sanitizeConfidence (RouteConfidence r)"
    using g(2) sc(1) by auto
  obtain c where c: "CompositeRate r = Inr c" using sc(2) r(1) by blast
  then show "\<exists>r c. r \<in> set ?routes \<and> CompositeRate r = Inr c \<and> composite res = Some c \<and> 0 < c \<and>
      sanitizeConfidence (RouteConfidence r) = combinedConfidence res"
    using r s CompositeRate_pos [OF c] by (intro exI [of _ r] exI [of _ c]) simp
  show "\<forall>r\<in>set ?routes. sanitizeConfidence (RouteConfidence r) \<le> combinedConfidence res"
    using g(3) by (simp add: sc(1) a(5))
  show "lowConfidence res \<longleftrightarrow> (\<forall>r\<in>set ?routes. \<not> mc \<le> sanitizeConfidence (RouteConfidence r))"
    using g(4) by (simp add: sc(1) a(6))
qed

theorem CombineRoutes_serves_a_route_witness:
  "\<exists>res. CombineRoutes sample_route NativeAsset usd 3 (FFin (4 / 10)) = Some (Inr res) \<and> composite res = Some (3 / 2) \<and>
     \<not> lowConfidence res \<and>
     (\<exists>r c. r \<in> set (FindRoutes sample_route NativeAsset usd 3 True) \<and> CompositeRate r = Inr c \<and> composite res = Some c \<and> 0 < c)"
proof -
  have "case CombineRoutes sample_route NativeAsset usd 3 (FFin (4 / 10)) of
      Some (Inr res) \<Rightarrow> composite res = Some (3 / 2) \<and> \<not> lowConfidence res | _ \<Rightarrow> False" by code_simp
  then obtain res where "CombineRoutes sample_route NativeAsset usd 3 (FFin (4 / 10)) = Some (Inr res)"
    "composite res = Some (3 / 2)" "\<not> lowConfidence res" by (auto split: option.splits sum.splits)
  then show ?thesis using CombineRoutes_serves_a_route [of sample_route NativeAsset usd 3 "FFin (4 / 10)" res] by blast
qed

end
