(* ===== verification/Outliers.thy ===== *)
theory Outliers
  imports PriceWindow RobustStat "HOL-Library.Product_Lexorder"
begin

text \<open>
  Outlier trimming before a price is published (internal/aggregate/outliers.go, outliers\_local.go and
  the filter method of scale.go): the whole-window filter, the time-local filter with its anchored
  references, and the base-volume vote both end with.

  The mutable index of the local filter is a record passed through the calls that advance its anchor
  chain. Positions are \<open>nat\<close>; trade counts (int64) are \<open>int\<close>. A reference is built from at least one
  price, so the nil pair of an empty input does not arise. A stable sort by \<open>TradeOrderLess\<close> is the
  stable sort by the tuple it compares.
\<close>

section \<open>outliers.go\<close>

definition priceRat :: "Trade \<Rightarrow> rat option" where
  "priceRat t =
     (let b = BigInt (BaseAmount t) in
      if b \<le> 0 then None
      else let q = BigInt (QuoteAmount t) in
        if q \<le> 0 then None else Some (SetFrac q b))"

text \<open>The loop that collects the usable prices with their trade indices.\<close>

fun usable_prices :: "Trade list \<Rightarrow> nat \<Rightarrow> (nat \<times> rat) list" where
  "usable_prices [] i = []"
| "usable_prices (t # ts) i =
     (case priceRat t of None \<Rightarrow> usable_prices ts (i + 1) | Some p \<Rightarrow> (i, p) # usable_prices ts (i + 1))"

definition keepByIndex :: "Trade list \<Rightarrow> nat list \<Rightarrow> Trade list" where
  "keepByIndex trades idx = map ((!) trades) idx"

definition keepIfVolumeMajority :: "Trade list \<Rightarrow> nat list \<Rightarrow> nat list \<Rightarrow> (string \<Rightarrow> int) option \<Rightarrow> Trade list" where
  "keepIfVolumeMajority trades validIdx kept scaleOf =
     (if length kept = length validIdx then keepByIndex trades kept
      else let vol = (case scaleOf of None \<Rightarrow> trades | Some f \<Rightarrow> sw_trades (NormalizeAmountScale trades f));
               total = sum_list (map (\<lambda>i. BigInt (BaseAmount (vol ! i))) validIdx);
               keptVol = sum_list (map (\<lambda>i. BigInt (BaseAmount (vol ! i))) kept)
           in if 2 * keptVol < total then [] else keepByIndex trades kept)"

definition localScaleRelFloor :: rat where
  "localScaleRelFloor = 1 / 400"

definition FilterOutliers :: "Trade list \<Rightarrow> f64 \<Rightarrow> Trade list" where
  "FilterOutliers trades sigma =
     (if sigma \<le> FFin 0 \<or> length trades < 3 then trades
      else let usable = usable_prices trades 0;
               validIdx = map fst usable;
               prices = map snd usable
           in if length prices < 3 then keepByIndex trades validIdx
              else case CentreScale prices of
                None \<Rightarrow> keepByIndex trades validIdx
              | Some (centre, scale0) \<Rightarrow>
                  let floor = \<bar>localScaleRelFloor * centre\<bar>;
                      scale = (if scale0 < floor then floor else scale0)
                  in (case SetFloat64 sigma of
                        None \<Rightarrow> keepByIndex trades validIdx
                      | Some sigmaRat \<Rightarrow>
                          let threshold = sigmaRat * scale;
                              kept = map fst (filter (\<lambda>(i, p).
                                case SymmetricDev (Some p) (Some centre) of
                                  None \<Rightarrow> False
                                | Some dev \<Rightarrow> \<not> threshold < dev) usable)
                          in keepIfVolumeMajority trades validIdx kept None))"

definition ScaledWindow_FilterOutliers :: "ScaledWindow \<Rightarrow> f64 \<Rightarrow> ScaledWindow" where
  "ScaledWindow_FilterOutliers w sigma =
     \<lparr>sw_trades = FilterOutliers (sw_trades w) sigma, sw_decimals = sw_decimals w\<rparr>"

section \<open>outliers\_local.go\<close>

definition DefaultOutlierBucket :: duration where
  "DefaultOutlierBucket = go_minute"

definition DefaultOutlierMinBucket :: int where
  "DefaultOutlierMinBucket = 3"

definition DefaultOutlierNeighbours :: int where
  "DefaultOutlierNeighbours = 5"

record LocalOutlierOptions =
  Sigma :: f64
  Bucket :: duration
  MinBucket :: int
  Neighbours :: int
  Weight :: "(Trade \<Rightarrow> int) option"
  AmountScaleDecimals :: "(string \<Rightarrow> int) option"

definition opts_withDefaults :: "LocalOutlierOptions \<Rightarrow> LocalOutlierOptions" where
  "opts_withDefaults o0 =
     (let o1 = (if Bucket o0 \<le> 0 then o0\<lparr>Bucket := DefaultOutlierBucket\<rparr> else o0);
          o2 = (if MinBucket o1 \<le> 0 then o1\<lparr>MinBucket := DefaultOutlierMinBucket\<rparr> else o1);
          o3 = (if Neighbours o2 \<le> 0 then o2\<lparr>Neighbours := DefaultOutlierNeighbours\<rparr> else o2)
      in o3)"

record robustRef =
  centre :: rat
  scale :: rat

definition localScaleRelCeiling :: rat where
  "localScaleRelCeiling = 1 / 100"

definition newRobustRef :: "rat list \<Rightarrow> int list option \<Rightarrow> robustRef" where
  "newRobustRef prices w =
     (case WeightedCentreScale prices w of
        Some (c, s) \<Rightarrow> \<lparr>centre = c, scale = s\<rparr>
      | None \<Rightarrow> \<lparr>centre = 0, scale = 0\<rparr>)"

definition newLocalRef :: "rat list \<Rightarrow> int list option \<Rightarrow> robustRef" where
  "newLocalRef prices w =
     (let r = newRobustRef prices w;
          floor = \<bar>localScaleRelFloor * centre r\<bar>;
          r = (if scale r < floor then r\<lparr>scale := floor\<rparr> else r);
          ceiling = \<bar>localScaleRelCeiling * centre r\<bar>;
          r = (if 0 < ceiling \<and> ceiling < scale r then r\<lparr>scale := ceiling\<rparr> else r)
      in r)"

definition ref_score :: "robustRef \<Rightarrow> rat \<Rightarrow> rat option" where
  "ref_score r p =
     (case SymmetricDev (Some p) (Some (centre r)) of
        None \<Rightarrow> None
      | Some dev \<Rightarrow>
          if scale r = 0 then (if dev = 0 then Some 0 else None)
          else Some (dev / scale r))"

definition minScore :: "rat option \<Rightarrow> robustRef \<Rightarrow> rat \<Rightarrow> rat option" where
  "minScore best r p =
     (case ref_score r p of
        None \<Rightarrow> best
      | Some s \<Rightarrow> (case best of None \<Rightarrow> Some s | Some b \<Rightarrow> if s < b then Some s else best))"

record priceBucket =
  members :: "nat list"
  bref :: "robustRef option"

record localIndex =
  ix_opts :: LocalOutlierOptions
  ix_prices :: "rat list"
  ix_weights :: "int list option"
  ix_order :: "nat list"
  ix_bucketOf :: "nat list"
  ix_buckets :: "priceBucket list"
  ix_window :: robustRef
  ix_anchorTol :: rat
  ix_lastAnchored :: "rat option"

definition TradeOrderLess :: "Trade \<Rightarrow> Trade \<Rightarrow> bool" where
  "TradeOrderLess a b =
     (if Timestamp a \<noteq> Timestamp b then Timestamp a < Timestamp b
      else if Ledger a \<noteq> Ledger b then Ledger a < Ledger b
      else if TxHash a \<noteq> TxHash b then TxHash a < TxHash b
      else if OpIndex a \<noteq> OpIndex b then OpIndex a < OpIndex b
      else Source a < Source b)"

definition order_key :: "Trade \<Rightarrow> gotime \<times> 32 word \<times> string \<times> 32 word \<times> string" where
  "order_key t = (Timestamp t, Ledger t, TxHash t, OpIndex t, Source t)"

definition anchorTolerance :: "robustRef \<Rightarrow> f64 \<Rightarrow> rat" where
  "anchorTolerance window sigma =
     (let tol = \<bar>localScaleRelCeiling * centre window\<bar>;
          tol = (if tol < scale window then scale window else tol)
      in case SetFloat64 sigma of None \<Rightarrow> tol | Some sigmaRat \<Rightarrow> tol * sigmaRat)"

definition withinTol :: "rat \<Rightarrow> rat \<Rightarrow> rat \<Rightarrow> bool" where
  "withinTol a b tol = (\<bar>a - b\<bar> \<le> tol)"

definition anchored :: "localIndex \<Rightarrow> rat \<Rightarrow> bool \<times> localIndex" where
  "anchored ix c =
     (let ok = (withinTol c (centre (ix_window ix)) (ix_anchorTol ix) \<or>
                (case ix_lastAnchored ix of None \<Rightarrow> False | Some l \<Rightarrow> withinTol c l (ix_anchorTol ix)))
      in (ok, if ok then ix\<lparr>ix_lastAnchored := Some c\<rparr> else ix))"

definition ix_weight :: "localIndex \<Rightarrow> nat \<Rightarrow> int" where
  "ix_weight ix pos = (case ix_weights ix of None \<Rightarrow> 1 | Some ws \<Rightarrow> ws ! pos)"

fun anchor_loop :: "priceBucket list \<Rightarrow> localIndex \<Rightarrow> priceBucket list \<times> localIndex" where
  "anchor_loop [] ix = ([], ix)"
| "anchor_loop (b # bs) ix =
     (let poss = map ((!) (ix_order ix)) (members b);
          n = sum_list (map (ix_weight ix) poss)
      in if n < MinBucket (ix_opts ix) then
           (case anchor_loop bs ix of (bs', ix') \<Rightarrow> (b # bs', ix'))
         else
           let ps = map ((!) (ix_prices ix)) poss;
               ws = map_option (\<lambda>w. map ((!) w) poss) (ix_weights ix);
               r = newLocalRef ps ws
           in case anchored ix (centre r) of (ok, ix1) \<Rightarrow>
                (case anchor_loop bs ix1 of (bs', ix') \<Rightarrow> ((if ok then b\<lparr>bref := Some r\<rparr> else b) # bs', ix')))"

definition anchorBuckets :: "localIndex \<Rightarrow> localIndex" where
  "anchorBuckets ix =
     (case anchor_loop (ix_buckets ix) (ix\<lparr>ix_lastAnchored := None\<rparr>) of (bs, ix') \<Rightarrow>
        ix'\<lparr>ix_buckets := bs, ix_lastAnchored := None\<rparr>)"

text \<open>The partition loop: one bucket per run of equal truncated timestamps, over the time order.\<close>

fun bucket_loop :: "(nat \<times> int) list \<Rightarrow> int \<Rightarrow> priceBucket list \<Rightarrow> nat list \<Rightarrow> priceBucket list \<times> nat list" where
  "bucket_loop [] lastKey bs bucketOf = (bs, bucketOf)"
| "bucket_loop ((k, key) # rest) lastKey bs bucketOf =
     (let bs1 = (if bs = [] \<or> key \<noteq> lastKey then bs @ [\<lparr>members = [], bref = None\<rparr>] else bs);
          b = last bs1;
          bs2 = butlast bs1 @ [b\<lparr>members := members b @ [k]\<rparr>]
      in bucket_loop rest key bs2 (bucketOf @ [length bs2 - 1]))"

definition newLocalIndex ::
  "Trade list \<Rightarrow> nat list \<Rightarrow> rat list \<Rightarrow> int list option \<Rightarrow> LocalOutlierOptions \<Rightarrow> localIndex" where
  "newLocalIndex trades validIdx prices weights opts =
     (let order = sort_key (\<lambda>k. order_key (trades ! (validIdx ! k))) [0..<length prices];
          keys = map (\<lambda>pos. time_UnixNano (time_Truncate (Timestamp (trades ! (validIdx ! pos))) (Bucket opts))) order
      in case bucket_loop (zip [0..<length order] keys) 0 [] [] of (bs, bucketOf) \<Rightarrow>
        let window = newRobustRef prices weights in
        anchorBuckets
          \<lparr>ix_opts = opts, ix_prices = prices, ix_weights = weights, ix_order = order, ix_bucketOf = bucketOf,
           ix_buckets = bs, ix_window = window, ix_anchorTol = anchorTolerance window (Sigma opts),
           ix_lastAnchored = None\<rparr>)"

definition bucketRef :: "localIndex \<Rightarrow> int \<Rightarrow> robustRef option" where
  "bucketRef ix bi =
     (if bi < 0 \<or> int (length (ix_buckets ix)) \<le> bi then None else bref (ix_buckets ix ! nat bi))"

text \<open>One side of the neighbourhood: the order positions it visits, until its budget is spent.\<close>

fun side_loop :: "localIndex \<Rightarrow> nat list \<Rightarrow> int \<Rightarrow> (nat \<times> int) list" where
  "side_loop ix [] budget = []"
| "side_loop ix (j # js) budget =
     (if 0 < budget then
        let n = min (ix_weight ix (ix_order ix ! j)) budget in
        (ix_order ix ! j, n) # side_loop ix js (budget - n)
      else [])"

definition neighbourhoodRef :: "localIndex \<Rightarrow> nat \<Rightarrow> robustRef option \<times> localIndex" where
  "neighbourhoodRef ix k =
     (let per = Neighbours (ix_opts ix);
          own = ix_weight ix (ix_order ix ! k) - 1;
          ownL = min (go_quo own 2) per;
          ownR = min (own - go_quo own 2) per;
          neigh = (if 0 < ownL + ownR then [(ix_order ix ! k, ownL + ownR)] else []) @
                  side_loop ix (rev [0..<k]) (per - ownL) @
                  side_loop ix [k + 1..<length (ix_order ix)] (per - ownR)
      in if neigh = [] then (None, ix)
         else
           let ws = (if ix_weights ix = None then None else Some (map snd neigh));
               r = newLocalRef (map (\<lambda>(pos, n). ix_prices ix ! pos) neigh) ws
           in case anchored ix (centre r) of (ok, ix') \<Rightarrow> (if ok then Some r else None, ix'))"

definition ix_score :: "localIndex \<Rightarrow> nat \<Rightarrow> rat option \<times> localIndex" where
  "ix_score ix k =
     (let p = ix_prices ix ! (ix_order ix ! k);
          best0 = minScore None (ix_window ix) p;
          bi = int (ix_bucketOf ix ! k);
          own = bucketRef ix bi;
          ix1 = (case own of None \<Rightarrow> ix | Some r \<Rightarrow> ix\<lparr>ix_lastAnchored := Some (centre r)\<rparr>);
          best1 = foldl (\<lambda>best ref. case ref of None \<Rightarrow> best | Some r \<Rightarrow> minScore best r p) best0
                    [own, bucketRef ix (bi - 1), bucketRef ix (bi + 1)]
      in if own = None then
           (case neighbourhoodRef ix1 k of (ref, ix2) \<Rightarrow>
              (case ref of None \<Rightarrow> best1 | Some r \<Rightarrow> minScore best1 r p, ix2))
         else (best1, ix1))"

text \<open>The scoring loop in time order, which writes \<open>z[pos]\<close>.\<close>

fun score_loop :: "nat list \<Rightarrow> localIndex \<Rightarrow> rat option list \<Rightarrow> rat option list" where
  "score_loop [] ix z = z"
| "score_loop (k # ks) ix z =
     (case ix_score ix k of (s, ix') \<Rightarrow> score_loop ks ix' (z[ix_order ix ! k := s]))"

definition outlierScores :: "Trade list \<Rightarrow> LocalOutlierOptions \<Rightarrow> nat list \<times> rat option list option" where
  "outlierScores trades opts0 =
     (let opts = opts_withDefaults opts0;
          usable = usable_prices trades 0;
          validIdx = map fst usable;
          prices = map snd usable;
          weights = map_option (\<lambda>f. map (\<lambda>i. max (f (trades ! i)) 1) validIdx) (Weight opts);
          total = (case weights of None \<Rightarrow> int (length validIdx) | Some ws \<Rightarrow> sum_list ws)
      in if total < 3 then (validIdx, None)
         else let ix = newLocalIndex trades validIdx prices weights opts in
           (validIdx, Some (score_loop [0..<length (ix_order ix)] ix (replicate (length prices) None))))"

definition FilterOutliersLocal :: "Trade list \<Rightarrow> LocalOutlierOptions \<Rightarrow> Trade list" where
  "FilterOutliersLocal trades opts =
     (if Sigma opts \<le> FFin 0 \<or> (length trades < 3 \<and> Weight opts = None) then trades
      else case outlierScores trades opts of (validIdx, zopt) \<Rightarrow>
        (case zopt of
           None \<Rightarrow> keepByIndex trades validIdx
         | Some z \<Rightarrow>
             (case SetFloat64 (Sigma opts) of
                None \<Rightarrow> keepByIndex trades validIdx
              | Some sigmaRat \<Rightarrow>
                  let kept = map fst (filter (\<lambda>(i, s). case s of None \<Rightarrow> False | Some x \<Rightarrow> \<not> sigmaRat < x) (zip validIdx z))
                  in keepIfVolumeMajority trades validIdx kept (AmountScaleDecimals opts))))"

section \<open>The contract of a trade filter\<close>

lemma subseq_set: "subseq xs ys \<Longrightarrow> set xs \<subseteq> set ys"
  by (auto elim: list_emb_set)

text \<open>
  What the price path relies on: a filter returns some of its trades in their order, and either nothing
  or trades that carry at least half of the base volume of the usable ones, in whole units under the
  scale \<open>dec\<close> of each source.
\<close>

abbreviation base_units :: "(string \<Rightarrow> int) \<Rightarrow> Trade list \<Rightarrow> rat" where
  "base_units dec ts \<equiv> \<Sum>t\<leftarrow>priced ts. whole_units dec t (base_of t)"

locale trade_filter =
  fixes flt :: "Trade list \<Rightarrow> Trade list" and dec :: "string \<Rightarrow> int"
  assumes keeps_order: "subseq (flt ts) ts"
    and volume_vote: "flt ts = [] \<or> base_units dec ts \<le> 2 * base_units dec (flt ts)"
begin

lemma filtered_subset: "set (flt ts) \<subseteq> set ts"
  using keeps_order by (rule subseq_set)

lemma filtered_length: "length (flt ts) \<le> length ts"
  using keeps_order list_emb_length by blast

lemma filtered_priced: "flt ts \<noteq> [] \<Longrightarrow> priced ts \<noteq> [] \<Longrightarrow> priced (flt ts) \<noteq> []"
proof
  assume ne: "flt ts \<noteq> []" "priced ts \<noteq> []" and "priced (flt ts) = []"
  then have "base_units dec ts \<le> 0" using volume_vote [of ts] by simp
  moreover have "(\<Sum>t\<leftarrow>priced ts. 0) < base_units dec ts"
    using ne(2) by (rule sum_list_strict_mono) (auto simp: whole_units_def priceable_def)
  ultimately show False by simp
qed

lemma filtered_price:
  assumes "flt ts \<noteq> []" "priced ts \<noteq> []"
  shows "\<exists>p. VWAP \<lparr>sw_trades = flt ts, sw_decimals = d\<rparr> = Inr p \<and>
    (\<exists>t\<in>set (priced ts). trade_price t \<le> p) \<and> (\<exists>t\<in>set (priced ts). p \<le> trade_price t)"
proof -
  obtain p where p: "VWAP \<lparr>sw_trades = flt ts, sw_decimals = d\<rparr> = Inr p"
    using filtered_priced [OF assms] by (simp add: VWAP_eq)
  then show ?thesis using VWAP_between [OF p] filtered_subset by fastforce
qed

end

section \<open>Both filters keep the contract\<close>

lemma priceRat_eq: "priceRat t = (if priceable t then Some (trade_price t) else None)"
  by (auto simp: priceRat_def priceable_def trade_price_def Let_def)

lemma usable_prices_eq:
  "usable_prices ts i = map (\<lambda>(j, t). (j, trade_price t)) (filter (\<lambda>(j, t). priceable t) (enumerate i ts))"
  by (induction ts arbitrary: i) (auto simp: priceRat_eq)

abbreviation valid_idx :: "Trade list \<Rightarrow> nat list" where
  "valid_idx ts \<equiv> map fst (usable_prices ts 0)"

lemma valid_idx_eq: "valid_idx ts = filter (\<lambda>i. priceable (ts ! i)) [0..<length ts]"
proof -
  have "enumerate 0 ts = map (\<lambda>i. (i, ts ! i)) [0..<length ts]"
    by (rule nth_equalityI) (simp_all add: nth_enumerate_eq)
  then show ?thesis by (simp add: usable_prices_eq filter_map o_def split_beta)
qed

lemma usable_values: "map snd (usable_prices ts 0) = map trade_price (priced ts)"
proof -
  have "map snd (usable_prices ts i) = map trade_price (priced ts)" for i
    by (induction ts arbitrary: i) (auto simp: priceRat_eq)
  then show ?thesis .
qed

lemma keep_valid: "keepByIndex ts (valid_idx ts) = priced ts"
  unfolding keepByIndex_def valid_idx_eq by (rule map_nth_filter_upt)

lemma kept_subseq:
  assumes "subseq kept (valid_idx ts)"
  shows "subseq (keepByIndex ts kept) ts" "priced (keepByIndex ts kept) = keepByIndex ts kept"
proof -
  have "subseq (keepByIndex ts kept) (keepByIndex ts (valid_idx ts))"
    unfolding keepByIndex_def by (rule subseq_map [OF assms])
  then have sub: "subseq (keepByIndex ts kept) (priced ts)" unfolding keep_valid .
  show "subseq (keepByIndex ts kept) ts" by (rule subseq_order.trans [OF sub]) (rule subseq_filter_left)
  have "set (keepByIndex ts kept) \<subseteq> set (priced ts)" using sub by (rule subseq_set)
  then show "priced (keepByIndex ts kept) = keepByIndex ts kept" by (auto simp: filter_id_conv)
qed

definition vote_dec :: "(string \<Rightarrow> int) option \<Rightarrow> string \<Rightarrow> int" where
  "vote_dec scaleOf = (case scaleOf of None \<Rightarrow> \<lambda>_. 0 | Some f \<Rightarrow> f)"

text \<open>The volumes the vote compares are the whole-unit volumes up to one common factor.\<close>

lemma vote_volumes:
  fixes scaleOf :: "(string \<Rightarrow> int) option"
  assumes "ts \<noteq> []"
  defines "vol \<equiv> (case scaleOf of None \<Rightarrow> ts | Some f \<Rightarrow> sw_trades (NormalizeAmountScale ts f))"
  shows "\<exists>k>0. \<forall>idx. set idx \<subseteq> {..<length ts} \<longrightarrow>
    (of_int (sum_list (map (\<lambda>i. BigInt (BaseAmount (vol ! i))) idx)) :: rat) =
      k * (\<Sum>t\<leftarrow>keepByIndex ts idx. whole_units (vote_dec scaleOf) t (base_of t))"
proof (cases scaleOf)
  case None
  then show ?thesis
    by (intro exI [of _ 1]) (auto simp: vol_def vote_dec_def whole_units_def keepByIndex_def of_int_sum_list_map o_def)
next
  case (Some f)
  define m where "m = max_decimals f ts 0"
  have vol: "vol = map (lift_trade m f) ts"
    using Some assms(1) by (simp add: vol_def NormalizeAmountScale_def Let_def m_def)
  have unit: "(of_int (base_of (vol ! i)) :: rat) = 10 powi m * whole_units f (ts ! i) (base_of (ts ! i))"
    if "i < length ts" for i
    using that lift_trade_legs(1) [of f "ts ! i" m] max_decimals_ge [of "ts ! i" ts f 0] by (simp add: vol m_def)
  show ?thesis
  proof (intro exI [of _ "10 powi m"] conjI allI impI)
    fix idx assume "set idx \<subseteq> {..<length ts}"
    then show "(of_int (sum_list (map (\<lambda>i. BigInt (BaseAmount (vol ! i))) idx)) :: rat) =
      10 powi m * (\<Sum>t\<leftarrow>keepByIndex ts idx. whole_units (vote_dec scaleOf) t (base_of t))"
      by (induction idx) (auto simp: keepByIndex_def vote_dec_def Some unit distrib_left)
  qed simp
qed

lemma keepIfVolumeMajority_contract:
  fixes scaleOf :: "(string \<Rightarrow> int) option"
  assumes "subseq kept (valid_idx ts)"
  defines "R \<equiv> keepIfVolumeMajority ts (valid_idx ts) kept scaleOf"
  shows "subseq R ts" "R = [] \<or> base_units (vote_dec scaleOf) ts \<le> 2 * base_units (vote_dec scaleOf) R"
proof -
  note sub = kept_subseq [OF assms(1)]
  have R: "R = [] \<or> R = keepByIndex ts kept" by (auto simp: R_def keepIfVolumeMajority_def Let_def)
  then show "subseq R ts" using sub(1) by auto
  show "R = [] \<or> base_units (vote_dec scaleOf) ts \<le> 2 * base_units (vote_dec scaleOf) R"
  proof (cases "length kept = length (valid_idx ts) \<or> R = []")
    case True
    then show ?thesis
    proof
      assume "length kept = length (valid_idx ts)"
      then have "kept = valid_idx ts" using assms(1) by (simp add: subseq_same_length)
      moreover have "0 \<le> base_units (vote_dec scaleOf) ts"
        by (rule sum_list_nonneg) (auto simp: whole_units_def priceable_def)
      ultimately show ?thesis using R by (auto simp: keep_valid)
    qed simp
  next
    case False
    let ?vol = "case scaleOf of None \<Rightarrow> ts | Some f \<Rightarrow> sw_trades (NormalizeAmountScale ts f)"
    have ne: "ts \<noteq> []" using False assms(1) by auto
    have vote: "\<not> 2 * sum_list (map (\<lambda>i. BigInt (BaseAmount (?vol ! i))) kept)
        < sum_list (map (\<lambda>i. BigInt (BaseAmount (?vol ! i))) (valid_idx ts))"
      using False by (auto simp: R_def keepIfVolumeMajority_def Let_def split: if_splits)
    have valid: "set (valid_idx ts) \<subseteq> {..<length ts}" by (auto simp: valid_idx_eq)
    then have kept: "set kept \<subseteq> {..<length ts}" using subseq_set [OF assms(1)] by blast
    obtain k where k: "0 < k" "\<And>idx. set idx \<subseteq> {..<length ts} \<Longrightarrow>
      (of_int (sum_list (map (\<lambda>i. BigInt (BaseAmount (?vol ! i))) idx)) :: rat) =
      k * (\<Sum>t\<leftarrow>keepByIndex ts idx. whole_units (vote_dec scaleOf) t (base_of t))"
      using vote_volumes [OF ne, of scaleOf] by blast
    have "(of_int (sum_list (map (\<lambda>i. BigInt (BaseAmount (?vol ! i))) (valid_idx ts))) :: rat)
        \<le> 2 * of_int (sum_list (map (\<lambda>i. BigInt (BaseAmount (?vol ! i))) kept))"
      using vote by (metis not_less of_int_le_iff of_int_mult of_int_numeral)
    then have "k * base_units (vote_dec scaleOf) ts \<le> k * (2 * base_units (vote_dec scaleOf) (keepByIndex ts kept))"
      unfolding k(2) [OF valid] k(2) [OF kept] keep_valid sub(2) by (simp add: mult.left_commute)
    then show ?thesis using k(1) R False by auto
  qed
qed

lemma subseq_fst_filter: "subseq (map fst (filter P xs)) (map fst xs)"
  by (intro subseq_map subseq_filter_left)

lemma no_op_contract: "subseq ts ts" "ts = [] \<or> base_units dec ts \<le> 2 * base_units dec ts"
proof -
  have "0 \<le> base_units dec ts" by (rule sum_list_nonneg) (auto simp: whole_units_def priceable_def)
  then show "ts = [] \<or> base_units dec ts \<le> 2 * base_units dec ts" by simp
qed simp

lemma usable_contract:
  "subseq (keepByIndex ts (valid_idx ts)) ts"
  "keepByIndex ts (valid_idx ts) = [] \<or> base_units dec ts \<le> 2 * base_units dec (keepByIndex ts (valid_idx ts))"
proof -
  have "0 \<le> base_units dec ts" by (rule sum_list_nonneg) (auto simp: whole_units_def priceable_def)
  then show "subseq (keepByIndex ts (valid_idx ts)) ts"
    "keepByIndex ts (valid_idx ts) = [] \<or> base_units dec ts \<le> 2 * base_units dec (keepByIndex ts (valid_idx ts))"
    by (simp_all add: keep_valid subseq_filter_left)
qed

text \<open>The three ways a filter returns.\<close>

lemma FilterOutliers_cases:
  "FilterOutliers ts sigma = ts \<or> FilterOutliers ts sigma = keepByIndex ts (valid_idx ts) \<or>
   (\<exists>kept. subseq kept (valid_idx ts) \<and>
      FilterOutliers ts sigma = keepIfVolumeMajority ts (valid_idx ts) kept None)"
  unfolding FilterOutliers_def Let_def
  by (auto split: option.splits intro: subseq_fst_filter)

lemma score_loop_length: "length (score_loop ks ix z) = length z"
  by (induction ks arbitrary: ix z) (auto split: prod.splits)

lemma outlierScores_valid:
  "outlierScores ts opts = (idx, zopt) \<Longrightarrow> idx = valid_idx ts \<and> (\<forall>z. zopt = Some z \<longrightarrow> length z = length (valid_idx ts))"
  by (auto simp: outlierScores_def Let_def score_loop_length split: if_splits)

lemma FilterOutliersLocal_cases:
  "FilterOutliersLocal ts opts = ts \<or> FilterOutliersLocal ts opts = keepByIndex ts (valid_idx ts) \<or>
   (\<exists>kept. subseq kept (valid_idx ts) \<and>
      FilterOutliersLocal ts opts = keepIfVolumeMajority ts (valid_idx ts) kept (AmountScaleDecimals opts))"
proof -
  obtain idx zopt where sc: "outlierScores ts opts = (idx, zopt)" by fastforce
  have "subseq (map fst (filter P (zip (valid_idx ts) z))) (valid_idx ts)"
    if "zopt = Some z" for P :: "nat \<times> rat option \<Rightarrow> bool" and z
  proof -
    have "map fst (zip (valid_idx ts) z) = valid_idx ts" using outlierScores_valid [OF sc] that by simp
    then show ?thesis using subseq_fst_filter [of P "zip (valid_idx ts) z"] by simp
  qed
  then show ?thesis using outlierScores_valid [OF sc]
    by (simp add: FilterOutliersLocal_def sc Let_def split: option.split) blast
qed

interpretation window_filter: trade_filter "\<lambda>ts. FilterOutliers ts sigma" "\<lambda>_. 0" for sigma
proof unfold_locales
  fix ts
  have "vote_dec None = (\<lambda>_. 0)" by (simp add: vote_dec_def)
  then show "subseq (FilterOutliers ts sigma) ts"
    "FilterOutliers ts sigma = [] \<or> base_units (\<lambda>_. 0) ts \<le> 2 * base_units (\<lambda>_. 0) (FilterOutliers ts sigma)"
    using FilterOutliers_cases [of ts sigma] no_op_contract(1) [of ts] no_op_contract(2) [of ts "\<lambda>_. 0"]
      usable_contract(1) [of ts] usable_contract(2) [of ts "\<lambda>_. 0"]
      keepIfVolumeMajority_contract [where ts = ts and scaleOf = None] by (elim disjE exE conjE; simp)+
qed

interpretation local_filter: trade_filter "\<lambda>ts. FilterOutliersLocal ts opts" "vote_dec (AmountScaleDecimals opts)" for opts
proof unfold_locales
  fix ts
  show "subseq (FilterOutliersLocal ts opts) ts"
    "FilterOutliersLocal ts opts = [] \<or> base_units (vote_dec (AmountScaleDecimals opts)) ts
       \<le> 2 * base_units (vote_dec (AmountScaleDecimals opts)) (FilterOutliersLocal ts opts)"
    using FilterOutliersLocal_cases [of ts opts] no_op_contract(1) [of ts] no_op_contract(2) [of ts "vote_dec (AmountScaleDecimals opts)"]
      usable_contract(1) [of ts] usable_contract(2) [of ts "vote_dec (AmountScaleDecimals opts)"]
      keepIfVolumeMajority_contract [where ts = ts and scaleOf = "AmountScaleDecimals opts"] by (elim disjE exE conjE; simp)+
qed

text \<open>
  Trimming is safe for the published price. The time-local filter returns some of its trades in
  their order; it withholds the window, or the trades it keeps carry at least half of the usable base
  volume in whole units (a count majority of dust cannot delete the money traded), and then the volume
  weighted price of what is kept exists and lies between prices of usable input trades.
\<close>

theorem FilterOutliersLocal_safe:
  "subseq (FilterOutliersLocal ts opts) ts \<and>
   (FilterOutliersLocal ts opts = [] \<or>
      base_units (vote_dec (AmountScaleDecimals opts)) ts
        \<le> 2 * base_units (vote_dec (AmountScaleDecimals opts)) (FilterOutliersLocal ts opts)) \<and>
   (FilterOutliersLocal ts opts \<noteq> [] \<and> priced ts \<noteq> [] \<longrightarrow>
      (\<exists>p. VWAP \<lparr>sw_trades = FilterOutliersLocal ts opts, sw_decimals = d\<rparr> = Inr p \<and>
         (\<exists>t\<in>set (priced ts). trade_price t \<le> p) \<and> (\<exists>t\<in>set (priced ts). p \<le> trade_price t)))"
  using local_filter.keeps_order [of ts opts] local_filter.volume_vote [of ts opts] local_filter.filtered_price [of ts opts d]
  by blast

section \<open>What the whole-window filter keeps\<close>

lemma filter_enumerate_keep:
  "keepByIndex ts (map fst (filter (\<lambda>(i, p). Q p) (usable_prices ts 0))) = filter (\<lambda>t. priceable t \<and> Q (trade_price t)) ts"
proof -
  have gen: "map snd (filter (\<lambda>(i, t). R t) (enumerate n ts)) = filter R ts" for R n
    by (induction ts arbitrary: n) auto
  have "map fst (filter (\<lambda>(i, p). Q p) (usable_prices ts 0))
      = map fst (filter (\<lambda>(i, t). priceable t \<and> Q (trade_price t)) (enumerate 0 ts))"
    by (simp add: usable_prices_eq filter_map o_def case_prod_unfold conj_commute)
  moreover have "map (\<lambda>e. ts ! fst e) (filter (\<lambda>(i, t). priceable t \<and> Q (trade_price t)) (enumerate 0 ts))
      = map snd (filter (\<lambda>(i, t). priceable t \<and> Q (trade_price t)) (enumerate 0 ts))"
    by (auto simp: in_set_enumerate_eq)
  ultimately show ?thesis by (simp add: keepByIndex_def gen o_def)
qed

definition window_band :: "Trade list \<Rightarrow> rat \<Rightarrow> Trade \<Rightarrow> bool" where
  "window_band ts sigma t \<longleftrightarrow>
     (case CentreScale (map trade_price (priced ts)) of
        None \<Rightarrow> True
      | Some (c, sc) \<Rightarrow>
          (case SymmetricDev (Some (trade_price t)) (Some c) of
             None \<Rightarrow> False | Some dev \<Rightarrow> dev \<le> sigma * max sc \<bar>c / 400\<bar>))"

text \<open>
  On a window of at least three usable prices and a positive sigma, the whole-window filter keeps
  exactly the usable trades whose ratio-symmetric deviation from the median is within sigma times the
  spread (floored at a 400th of the median), unless those carry less than half of the usable base
  volume, in which case it withholds the window.
\<close>

theorem FilterOutliers_exact:
  "0 < sigma \<and> 3 \<le> length (priced ts) \<longrightarrow>
   (let kept = filter (\<lambda>t. priceable t \<and> window_band ts sigma t) ts in
    FilterOutliers ts (FFin sigma) =
      (if kept \<noteq> priced ts \<and> 2 * BigInt (TotalBaseVolume kept) < BigInt (TotalBaseVolume ts) then [] else kept))"
proof
  assume a: "0 < sigma \<and> 3 \<le> length (priced ts)"
  obtain c sc where cs: "CentreScale (map trade_price (priced ts)) = Some (c, sc)"
    using a CentreScale_exists [of "map trade_price (priced ts)"] by fastforce
  define Q where "Q = (\<lambda>p. case SymmetricDev (Some p) (Some c) of None \<Rightarrow> False | Some dev \<Rightarrow> dev \<le> sigma * max sc \<bar>c / 400\<bar>)"
  let ?kept = "map fst (filter (\<lambda>(i, p). Q p) (usable_prices ts 0))"
  define K where "K = keepByIndex ts ?kept"
  have K: "K = filter (\<lambda>t. priceable t \<and> window_band ts sigma t) ts"
    unfolding K_def filter_enumerate_keep by (simp add: window_band_def cs Q_def)
  have n: "length (usable_prices ts 0) = length (priced ts)" using usable_values [of ts] by (metis length_map)
  have len: "\<not> length ts < 3" using a length_filter_le [of priceable ts] by linarith
  define sc' where "sc' = (if sc < \<bar>localScaleRelFloor * c\<bar> then \<bar>localScaleRelFloor * c\<bar> else sc)"
  have "FilterOutliers ts (FFin sigma) = keepIfVolumeMajority ts (valid_idx ts)
      (map fst (filter (\<lambda>(i, p). case SymmetricDev (Some p) (Some c) of None \<Rightarrow> False | Some dev \<Rightarrow> \<not> sigma * sc' < dev)
         (usable_prices ts 0))) None"
    using a n cs len by (simp add: FilterOutliers_def Let_def usable_values sc'_def cong: option.case_cong)
  moreover have "sc' = max sc \<bar>c / 400\<bar>" by (simp add: sc'_def localScaleRelFloor_def max_def)
  ultimately have F: "FilterOutliers ts (FFin sigma) = keepIfVolumeMajority ts (valid_idx ts) ?kept None"
    by (simp only: Q_def not_less cong: option.case_cong)
  have sub: "subseq ?kept (valid_idx ts)" by (rule subseq_fst_filter)
  have same: "length ?kept = length (valid_idx ts) \<longleftrightarrow> K = priced ts"
  proof
    assume "length ?kept = length (valid_idx ts)"
    then have "?kept = valid_idx ts" using sub by (simp only: subseq_same_length)
    then show "K = priced ts" unfolding K_def by (simp only: keep_valid)
  next
    assume "K = priced ts"
    then have "length K = length (priced ts)" by simp
    then show "length ?kept = length (valid_idx ts)" by (simp add: K_def keepByIndex_def n)
  qed
  have vols: "sum_list (map (\<lambda>i. BigInt (BaseAmount (ts ! i))) ?kept) = BigInt (TotalBaseVolume K)"
    "sum_list (map (\<lambda>i. BigInt (BaseAmount (ts ! i))) (valid_idx ts)) = BigInt (TotalBaseVolume ts)"
    using kept_subseq(2) [OF sub] keep_valid [of ts]
    unfolding base_vol.total_is_sum K_def by (simp_all add: keepByIndex_def o_def flip: keep_valid)
  show "let kept = filter (\<lambda>t. priceable t \<and> window_band ts sigma t) ts in
    FilterOutliers ts (FFin sigma) =
      (if kept \<noteq> priced ts \<and> 2 * BigInt (TotalBaseVolume kept) < BigInt (TotalBaseVolume ts) then [] else kept)"
    unfolding K [symmetric] Let_def F
    by (simp only: keepIfVolumeMajority_def Let_def option.case same vols K_def [symmetric]) simp
qed

section \<open>What the time-local filter keeps\<close>

definition same_index :: "localIndex \<Rightarrow> localIndex \<Rightarrow> bool" where
  "same_index ix ix' \<longleftrightarrow> (\<exists>l. ix' = ix\<lparr>ix_lastAnchored := l\<rparr>)"

lemma same_index_refl [simp]: "same_index ix ix"
  unfolding same_index_def by (rule exI [of _ "ix_lastAnchored ix"]) simp

lemma same_index_trans: "same_index a b \<Longrightarrow> same_index b c \<Longrightarrow> same_index a c"
  by (auto simp: same_index_def)

lemma same_index_set [simp]: "same_index ix (ix\<lparr>ix_lastAnchored := l\<rparr>)"
  by (auto simp: same_index_def)

lemma same_index_fields:
  "same_index ix ix' \<Longrightarrow> ix_window ix' = ix_window ix \<and> ix_prices ix' = ix_prices ix \<and> ix_order ix' = ix_order ix"
  by (auto simp: same_index_def)

lemma anchored_same: "same_index ix (snd (anchored ix c))"
  by (simp add: anchored_def Let_def)

lemma neighbourhoodRef_same: "same_index ix (snd (neighbourhoodRef ix k))"
  by (auto simp: neighbourhoodRef_def Let_def split_beta anchored_same)

lemma ix_score_same: "same_index ix (snd (ix_score ix k))"
  by (auto simp: ix_score_def Let_def split_beta split: option.split
      intro: same_index_trans [OF _ neighbourhoodRef_same])

lemma minScore_le: "best = Some b \<Longrightarrow> \<exists>s\<le>b. minScore best r p = Some s"
  by (auto simp: minScore_def split: option.splits)

lemma minScore_fold_le:
  "best = Some b \<Longrightarrow> \<exists>s\<le>b. foldl (\<lambda>best ref. case ref of None \<Rightarrow> best | Some r \<Rightarrow> minScore best r p) best refs = Some s"
proof (induction refs arbitrary: best b)
  case (Cons ref refs)
  obtain b' where b': "(case ref of None \<Rightarrow> best | Some r \<Rightarrow> minScore best r p) = Some b'" "b' \<le> b"
    using Cons.prems minScore_le [OF Cons.prems, of _ p] by (cases ref) auto
  then show ?case using Cons.IH [OF b'(1)] by (fastforce intro: order_trans)
qed simp

lemma ix_score_le:
  assumes "ref_score (ix_window ix) (ix_prices ix ! (ix_order ix ! k)) = Some w"
  shows "\<exists>s\<le>w. fst (ix_score ix k) = Some s"
proof -
  let ?p = "ix_prices ix ! (ix_order ix ! k)"
  let ?refs = "[bucketRef ix (int (ix_bucketOf ix ! k)), bucketRef ix (int (ix_bucketOf ix ! k) - 1), bucketRef ix (int (ix_bucketOf ix ! k) + 1)]"
  have w: "minScore None (ix_window ix) ?p = Some w" using assms by (simp add: minScore_def)
  define B where "B = foldl (\<lambda>best ref. case ref of None \<Rightarrow> best | Some r \<Rightarrow> minScore best r ?p)
    (minScore None (ix_window ix) ?p) ?refs"
  obtain b where b: "b \<le> w" "B = Some b" using minScore_fold_le [OF w, of ?p ?refs] unfolding B_def by blast
  have "\<exists>ref. fst (ix_score ix k) = (case ref of None \<Rightarrow> B | Some r \<Rightarrow> minScore B r ?p)"
  proof (cases "bucketRef ix (int (ix_bucketOf ix ! k))")
    case None
    then have "fst (ix_score ix k) = (case fst (neighbourhoodRef ix k) of None \<Rightarrow> B | Some r \<Rightarrow> minScore B r ?p)"
      unfolding ix_score_def Let_def B_def by (simp only: split_beta simp_thms if_True option.case fst_conv)
    then show ?thesis by blast
  next
    case (Some r)
    then have "fst (ix_score ix k) = B"
      unfolding ix_score_def Let_def B_def by (simp only: option.distinct simp_thms if_False fst_conv)
    then show ?thesis by (intro exI [of _ None]) simp
  qed
  moreover have "\<exists>s\<le>b. (case ref of None \<Rightarrow> Some b | Some r \<Rightarrow> minScore (Some b) r ?p) = Some s" for ref
    using minScore_le [of "Some b" b _ ?p] by (cases ref) auto
  ultimately show ?thesis using b by (metis order_trans)
qed

lemma score_loop_le:
  "distinct (map ((!) (ix_order ix)) ks) \<Longrightarrow> \<forall>k\<in>set ks. ix_order ix ! k < length z \<Longrightarrow>
   (k \<in> set ks \<and> ref_score (ix_window ix) (ix_prices ix ! (ix_order ix ! k)) = Some w \<longrightarrow>
      (\<exists>s\<le>w. score_loop ks ix z ! (ix_order ix ! k) = Some s)) \<and>
   (\<forall>pos. pos \<notin> (!) (ix_order ix) ` set ks \<longrightarrow> score_loop ks ix z ! pos = z ! pos)"
proof (induction ks arbitrary: ix z)
  case (Cons j ks)
  let ?ix = "snd (ix_score ix j)"
  let ?z = "z[ix_order ix ! j := fst (ix_score ix j)]"
  have f: "ix_window ?ix = ix_window ix" "ix_prices ?ix = ix_prices ix" "ix_order ?ix = ix_order ix"
    using same_index_fields [OF ix_score_same [of ix j]] by simp_all
  have IH: "k \<in> set ks \<and> ref_score (ix_window ix) (ix_prices ix ! (ix_order ix ! k)) = Some w \<longrightarrow>
      (\<exists>s\<le>w. score_loop ks ?ix ?z ! (ix_order ix ! k) = Some s)"
    "\<forall>pos. pos \<notin> (!) (ix_order ix) ` set ks \<longrightarrow> score_loop ks ?ix ?z ! pos = ?z ! pos"
    using Cons.IH [of ?ix ?z] Cons.prems unfolding f by simp_all
  have step: "score_loop (j # ks) ix z = score_loop ks ?ix ?z" by (simp add: split_beta)
  have j: "ix_order ix ! j \<notin> (!) (ix_order ix) ` set ks" "ix_order ix ! j < length z" using Cons.prems by auto
  then have "score_loop (j # ks) ix z ! (ix_order ix ! j) = fst (ix_score ix j)" unfolding step using IH(2) by simp
  moreover have "score_loop (j # ks) ix z ! pos = z ! pos" if "pos \<notin> (!) (ix_order ix) ` set (j # ks)" for pos
    unfolding step using IH(2) that by auto
  ultimately show ?case using IH(1) ix_score_le [of ix j w] unfolding step by auto
qed simp

lemma anchor_loop_same: "same_index ix (snd (anchor_loop bs ix))"
proof (induction bs arbitrary: ix)
  case (Cons b bs)
  then show ?case
    by (auto simp: Let_def split_beta intro: same_index_trans [OF anchored_same])
qed simp

lemma newLocalIndex_fields:
  fixes ts vi prices weights opts
  defines "ix \<equiv> newLocalIndex ts vi prices weights opts"
  shows "ix_window ix = newRobustRef prices weights" "ix_prices ix = prices"
    "ix_order ix = sort_key (\<lambda>k. order_key (ts ! (vi ! k))) [0..<length prices]"
proof -
  have "ix_window (anchorBuckets i) = ix_window i \<and> ix_prices (anchorBuckets i) = ix_prices i \<and> ix_order (anchorBuckets i) = ix_order i" for i
    using same_index_fields [OF anchor_loop_same [of "i\<lparr>ix_lastAnchored := None\<rparr>" "ix_buckets i"]]
    by (simp add: anchorBuckets_def split_beta)
  then show "ix_window ix = newRobustRef prices weights" "ix_prices ix = prices"
    "ix_order ix = sort_key (\<lambda>k. order_key (ts ! (vi ! k))) [0..<length prices]"
    by (simp_all add: ix_def newLocalIndex_def Let_def split_beta)
qed

lemma keepByIndex_mem: "i \<in> set idx \<Longrightarrow> ts ! i \<in> set (keepByIndex ts idx)"
  by (simp add: keepByIndex_def)

definition row_weights :: "LocalOutlierOptions \<Rightarrow> Trade list \<Rightarrow> int list option" where
  "row_weights opts ts = map_option (\<lambda>f. map (\<lambda>t. max (f t) 1) (priced ts)) (Weight opts)"

lemma outlierScores_le:
  assumes "outlierScores ts opts = (idx, Some z)" "pos < length (priced ts)"
    "ref_score (newRobustRef (map trade_price (priced ts)) (row_weights opts ts)) (trade_price (priced ts ! pos)) = Some w"
  shows "\<exists>s\<le>w. z ! pos = Some s"
proof -
  let ?prices = "map trade_price (priced ts)"
  have W: "Weight (opts_withDefaults opts) = Weight opts" by (simp add: opts_withDefaults_def Let_def)
  have "map (\<lambda>i. max (f (ts ! i)) 1) (valid_idx ts) = map (\<lambda>t. max (f t) 1) (priced ts)" for f :: "Trade \<Rightarrow> int"
    by (simp add: o_def flip: keep_valid) (simp add: keepByIndex_def o_def)
  then have w: "map_option (\<lambda>f. map (\<lambda>i. max (f (ts ! i)) 1) (valid_idx ts)) (Weight (opts_withDefaults opts)) = row_weights opts ts"
    by (simp add: row_weights_def W cong: option.map_cong)
  define ix where "ix = newLocalIndex ts (valid_idx ts) ?prices (row_weights opts ts) (opts_withDefaults opts)"
  note f = newLocalIndex_fields [of ts "valid_idx ts" ?prices "row_weights opts ts" "opts_withDefaults opts", folded ix_def]
  have z: "z = score_loop [0..<length (ix_order ix)] ix (replicate (length ?prices) None)"
    using assms(1) unfolding outlierScores_def Let_def w usable_values ix_def [symmetric] by (auto split: if_splits)
  have set_order: "set (ix_order ix) = {..<length (priced ts)}" "length (ix_order ix) = length (priced ts)" "distinct (ix_order ix)"
    unfolding f(3) by (auto simp: lessThan_atLeast0)
  then obtain k where k: "k < length (ix_order ix)" "ix_order ix ! k = pos"
    using assms(2) by (metis in_set_conv_nth lessThan_iff)
  have d: "distinct (map ((!) (ix_order ix)) [0..<length (ix_order ix)])" using set_order(3) by (simp add: map_nth)
  have l: "\<forall>k\<in>set [0..<length (ix_order ix)]. ix_order ix ! k < length (replicate (length ?prices) (None :: rat option))"
    using set_order nth_mem by fastforce
  show ?thesis
    using score_loop_le [OF d l, of k w] k assms(2,3) unfolding z by (simp add: f(1,2))
qed

text \<open>
  The time-local filter only ever widens the whole-window band: unless the volume vote withholds
  the window, every usable print whose score against the window's own reference (trade-count weighted
  where rows carry weights) is within sigma is kept, whatever its time-local references say.
\<close>

theorem FilterOutliersLocal_keeps_band:
  assumes "Sigma opts = FFin sigma" "t \<in> set (priced ts)"
    "ref_score (newRobustRef (map trade_price (priced ts)) (row_weights opts ts)) (trade_price t) = Some w" "w \<le> sigma"
  shows "FilterOutliersLocal ts opts = [] \<or> t \<in> set (FilterOutliersLocal ts opts)"
proof -
  obtain pos where pos: "pos < length (priced ts)" "priced ts ! pos = t" using assms(2) by (metis in_set_conv_nth)
  have usable: "t \<in> set (keepByIndex ts (valid_idx ts))" using assms(2) by (simp only: keep_valid)
  obtain idx zopt where sc: "outlierScores ts opts = (idx, zopt)" by fastforce
  have idx: "idx = valid_idx ts" using outlierScores_valid [OF sc] by simp
  show ?thesis
  proof (cases zopt)
    case None
    then show ?thesis using usable assms(2) by (simp add: FilterOutliersLocal_def sc idx)
  next
    case (Some z)
    then obtain s where s: "z ! pos = Some s" "s \<le> w" using outlierScores_le [of ts opts idx z pos w] sc pos assms(3) by auto
    have len: "length z = length (valid_idx ts)" "length (valid_idx ts) = length (priced ts)"
      using outlierScores_valid [OF sc] Some arg_cong [OF usable_values, of length ts] by simp_all
    let ?kept = "map fst (filter (\<lambda>(i, s). case s of None \<Rightarrow> False | Some x \<Rightarrow> \<not> sigma < x) (zip (valid_idx ts) z))"
    have "(valid_idx ts ! pos, z ! pos) \<in> set (zip (valid_idx ts) z)"
      using pos(1) len unfolding in_set_zip by (intro exI [of _ pos]) simp
    then have "(valid_idx ts ! pos, z ! pos) \<in> set (filter (\<lambda>(i, s). case s of None \<Rightarrow> False | Some x \<Rightarrow> \<not> sigma < x) (zip (valid_idx ts) z))"
      using s assms(4) by simp
    from imageI [OF this, of fst] have "valid_idx ts ! pos \<in> set ?kept" by (simp only: set_map fst_conv)
    then have "ts ! (valid_idx ts ! pos) \<in> set (keepByIndex ts ?kept)" by (rule keepByIndex_mem)
    moreover have "ts ! (valid_idx ts ! pos) = t"
      using pos len(2) arg_cong [OF keep_valid [of ts], of "\<lambda>l. l ! pos"] by (simp add: keepByIndex_def)
    ultimately show ?thesis using assms(1,2) sc Some
      by (auto simp: FilterOutliersLocal_def idx keepIfVolumeMajority_def Let_def)
  qed
qed

section \<open>The order of trades\<close>

lemma TradeOrderLess_key: "TradeOrderLess a b \<longleftrightarrow> order_key a < order_key b"
  by (auto simp: TradeOrderLess_def order_key_def)

text \<open>
  \<open>TradeOrderLess\<close> is the strict lexicographic order of close time, ledger, transaction, operation
  and source: irreflexive, transitive, and total up to storage identity, so that a stable sort by it
  does not depend on how the trades were merged.
\<close>

theorem TradeOrderLess_total:
  "\<not> TradeOrderLess a a \<and> (TradeOrderLess a b \<and> TradeOrderLess b c \<longrightarrow> TradeOrderLess a c) \<and>
   (\<not> TradeOrderLess a b \<and> \<not> TradeOrderLess b a \<longleftrightarrow> Trade_Equal a b)"
proof -
  have "Trade_Equal a b \<longleftrightarrow> order_key a = order_key b" by (auto simp: Trade_Equal_def order_key_def)
  then show ?thesis by (auto simp: TradeOrderLess_key)
qed

definition sample_options :: LocalOutlierOptions where
  "sample_options = \<lparr>Sigma = FFin 4, Bucket = 0, MinBucket = 0, Neighbours = 0, Weight = None, AmountScaleDecimals = None\<rparr>"

definition outlier_window :: "Trade list" where
  "outlier_window = map (\<lambda>(q, ts). sample_trade\<lparr>BaseAmount := NewAmount (Some 100), QuoteAmount := NewAmount (Some q), Timestamp := ts\<rparr>)
     [(50, 1), (51, 2), (50, 3), (900, 4)]"

theorem FilterOutliersLocal_safe_witness:
  "length (FilterOutliersLocal outlier_window sample_options) = 3 \<and>
   (\<exists>p. VWAP \<lparr>sw_trades = FilterOutliersLocal outlier_window sample_options, sw_decimals = 7\<rparr> = Inr p \<and>
      (\<exists>t\<in>set (priced outlier_window). p \<le> trade_price t))"
proof -
  have l: "length (FilterOutliersLocal outlier_window sample_options) = 3" and "priced outlier_window \<noteq> []" by code_simp+
  then have "FilterOutliersLocal outlier_window sample_options \<noteq> []" by auto
  then show ?thesis using FilterOutliersLocal_safe [of outlier_window sample_options 7] l \<open>priced outlier_window \<noteq> []\<close> by blast
qed

theorem FilterOutliers_exact_witness:
  "3 \<le> length (priced outlier_window) \<and>
   (let kept = filter (\<lambda>t. priceable t \<and> window_band outlier_window 4 t) outlier_window in
    FilterOutliers outlier_window (FFin 4) =
      (if kept \<noteq> priced outlier_window \<and> 2 * BigInt (TotalBaseVolume kept) < BigInt (TotalBaseVolume outlier_window)
       then [] else kept))"
proof -
  have "3 \<le> length (priced outlier_window)" by code_simp
  then show ?thesis using FilterOutliers_exact [of 4 outlier_window] by simp
qed

theorem FilterOutliersLocal_keeps_band_witness:
  "FilterOutliersLocal outlier_window sample_options = [] \<or>
   hd outlier_window \<in> set (FilterOutliersLocal outlier_window sample_options)"
proof -
  have "case ref_score (newRobustRef (map trade_price (priced outlier_window)) (row_weights sample_options outlier_window))
      (trade_price (hd outlier_window)) of None \<Rightarrow> False | Some w \<Rightarrow> w \<le> 4" by code_simp
  then obtain w where "ref_score (newRobustRef (map trade_price (priced outlier_window)) (row_weights sample_options outlier_window))
      (trade_price (hd outlier_window)) = Some w" "w \<le> 4" by (auto split: option.splits)
  moreover have "Sigma sample_options = FFin 4" "hd outlier_window \<in> set (priced outlier_window)" by code_simp+
  ultimately show ?thesis by (intro FilterOutliersLocal_keeps_band)
qed

theorem TradeOrderLess_total_witness:
  "TradeOrderLess sample_trade (sample_trade\<lparr>OpIndex := 2\<rparr>) \<and>
   TradeOrderLess (sample_trade\<lparr>OpIndex := 2\<rparr>) (sample_trade\<lparr>Ledger := 8\<rparr>) \<and>
   TradeOrderLess sample_trade (sample_trade\<lparr>Ledger := 8\<rparr>)"
proof -
  have "TradeOrderLess sample_trade (sample_trade\<lparr>OpIndex := 2\<rparr>)"
    "TradeOrderLess (sample_trade\<lparr>OpIndex := 2\<rparr>) (sample_trade\<lparr>Ledger := 8\<rparr>)" by code_simp+
  then show ?thesis using TradeOrderLess_total [of sample_trade "sample_trade\<lparr>OpIndex := 2\<rparr>" "sample_trade\<lparr>Ledger := 8\<rparr>"] by blast
qed

end
