(* ===== verification/Aliases.thy ===== *)
theory Aliases
  imports Trades "HOL-Library.AList"
begin

text \<open>
  The identities of one asset (internal/canonical/sac.go, alias.go, network.go, orientation.go): the
  contract a classic asset is wrapped by, the registry of equivalent forms, the process-wide network
  settings, and the orientation of a market.

  The four atomic pointers of the package are a record, passed and returned. A Go map that is built and
  read is an association list, looked up by \<open>map_of\<close>. Errors without a sentinel are the empty list of
  sentinels; \<open>strkey.MustEncode\<close>, which panics when the SDK refuses the payload, is such an error here.
\<close>

section \<open>sac.go\<close>

definition PubnetPassphrase :: string where
  "PubnetPassphrase = ''Public Global Stellar Network ; September 2015''"

definition sacContractIDOn :: "sdk \<Rightarrow> Asset \<Rightarrow> string \<Rightarrow> error + string" where
  "sacContractIDOn k a passphrase =
     (case (case Type a of
              AssetNative \<Rightarrow> Some XdrNative
            | AssetClassic \<Rightarrow> xdr_NewCreditAsset k (Code a) (Issuer a)
            | _ \<Rightarrow> None) of
        None \<Rightarrow> Inl []
      | Some x \<Rightarrow>
          (case xdr_ContractID k x passphrase of
             None \<Rightarrow> Inl []
           | Some raw \<Rightarrow>
               (case strkey_Encode k VersionByteContract raw of None \<Rightarrow> Inl [] | Some s \<Rightarrow> Inr s)))"

section \<open>alias.go: registries\<close>

record AliasRegistry =
  families :: "(string \<times> Asset list) list"

text \<open>The process-wide settings: the four atomic pointers.\<close>

record network =
  installedPassphrase :: "string option"
  installedNativeSAC :: "string option"
  networkBaseRegistry :: "AliasRegistry option"
  activeRegistry :: "AliasRegistry option"

definition NetworkPassphrase :: "network \<Rightarrow> string" where
  "NetworkPassphrase n = (case installedPassphrase n of Some p \<Rightarrow> p | None \<Rightarrow> PubnetPassphrase)"

definition SacContractID :: "sdk \<Rightarrow> network \<Rightarrow> Asset \<Rightarrow> error + string" where
  "SacContractID k n a = sacContractIDOn k a (NetworkPassphrase n)"

definition ContractAddress :: "sdk \<Rightarrow> network \<Rightarrow> Asset \<Rightarrow> string option" where
  "ContractAddress k n a =
     (if ContractID a \<noteq> [] then Some (ContractID a)
      else if Type a \<noteq> AssetClassic \<and> Type a \<noteq> AssetNative then None
      else case SacContractID k n a of Inl _ \<Rightarrow> None | Inr sac \<Rightarrow> Some sac)"

definition SEP11SACAsset :: "sdk \<Rightarrow> network \<Rightarrow> string \<Rightarrow> string \<Rightarrow> Asset option" where
  "SEP11SACAsset k n name contractID =
     (case (if name = ''native'' then Some NativeAsset
            else case IndexAny name '':'' of
              None \<Rightarrow> None
            | Some i \<Rightarrow> (case NewClassicAsset k (take i name) (drop (Suc i) name) of Inl _ \<Rightarrow> None | Inr a \<Rightarrow> Some a)) of
        None \<Rightarrow> None
      | Some asset \<Rightarrow>
          (case SacContractID k n asset of
             Inl _ \<Rightarrow> None
           | Inr derived \<Rightarrow> if derived \<noteq> contractID then None else Some asset))"

definition XLMSacContractID :: string where
  "XLMSacContractID = ''CAS3J7GYLGXMF6TDJBBYYSE3HQ6BBSMLNUQ34T6TZMYMW2EVH34XOWMA''"

definition xlmAliasFamilyFor :: "string \<Rightarrow> Asset list" where
  "xlmAliasFamilyFor sac =
     [zeroAsset\<lparr>Type := AssetNative\<rparr>, zeroAsset\<lparr>Type := AssetCrypto, Code := ''XLM''\<rparr>,
      zeroAsset\<lparr>Type := AssetSoroban, ContractID := sac\<rparr>]"

definition eurcAliasFamily :: "Asset list" where
  "eurcAliasFamily = [zeroAsset\<lparr>Type := AssetCrypto, Code := ''EURC''\<rparr>, zeroAsset\<lparr>Type := AssetCrypto, Code := ''EUROC''\<rparr>]"

text \<open>\<open>m[a.String()] = fam\<close> for every member of a family.\<close>

definition register_family :: "Asset list \<Rightarrow> (string \<times> Asset list) list \<Rightarrow> (string \<times> Asset list) list" where
  "register_family fam m = foldl (\<lambda>m a. AList.update (Asset_String a) fam m) m fam"

definition baseAliasFamiliesFor :: "string \<Rightarrow> (string \<times> Asset list) list" where
  "baseAliasFamiliesFor xlmSAC = foldl (\<lambda>m fam. register_family fam m) [] [xlmAliasFamilyFor xlmSAC, eurcAliasFamily]"

definition defaultAliasRegistry :: AliasRegistry where
  "defaultAliasRegistry = \<lparr>families = baseAliasFamiliesFor XLMSacContractID\<rparr>"

definition InstallAliasRegistry :: "AliasRegistry option \<Rightarrow> network \<Rightarrow> network" where
  "InstallAliasRegistry r n = n\<lparr>activeRegistry := r\<rparr>"

definition baselineAliasRegistry :: "network \<Rightarrow> AliasRegistry" where
  "baselineAliasRegistry n = (case networkBaseRegistry n of Some r \<Rightarrow> r | None \<Rightarrow> defaultAliasRegistry)"

definition activeAliasRegistry :: "network \<Rightarrow> AliasRegistry" where
  "activeAliasRegistry n = (case activeRegistry n of Some r \<Rightarrow> r | None \<Rightarrow> baselineAliasRegistry n)"

definition familyMap :: "network \<Rightarrow> AliasRegistry option \<Rightarrow> (string \<times> Asset list) list" where
  "familyMap n r = (case r of None \<Rightarrow> families (baselineAliasRegistry n) | Some r \<Rightarrow> families r)"

definition addSACWrapperFamily ::
  "sdk \<Rightarrow> (string \<times> Asset list) list \<Rightarrow> string \<Rightarrow> string \<Rightarrow> string \<Rightarrow> error + (string \<times> Asset list) list" where
  "addSACWrapperFamily k fams passphrase sacID classicKey =
     (case NewSorobanAsset k sacID of
        Inl e \<Rightarrow> Inl e
      | Inr sac \<Rightarrow>
          (case ParseAsset k classicKey of
             Inl e \<Rightarrow> Inl e
           | Inr classic \<Rightarrow>
               let sacStr = Asset_String sac; classicStr = Asset_String classic in
               if sacStr = classicStr then Inr fams
               else case sacContractIDOn k classic passphrase of
                 Inl e \<Rightarrow> Inl e
               | Inr derived \<Rightarrow>
                   if derived \<noteq> sacStr then Inl []
                   else if Type classic = AssetNative then Inr fams
                   else if map_of fams sacStr \<noteq> None then Inl []
                   else if map_of fams classicStr \<noteq> None then Inl []
                   else let family = [classic, sac] in
                     Inr (AList.update sacStr family (AList.update classicStr family fams))))"

fun add_wrappers ::
  "sdk \<Rightarrow> string \<Rightarrow> (string \<times> string) list \<Rightarrow> string list \<Rightarrow> (string \<times> Asset list) list \<Rightarrow> error + (string \<times> Asset list) list" where
  "add_wrappers k passphrase wrappers [] fams = Inr fams"
| "add_wrappers k passphrase wrappers (sacID # ids) fams =
     (case addSACWrapperFamily k fams passphrase sacID (case map_of wrappers sacID of Some c \<Rightarrow> c | None \<Rightarrow> []) of
        Inl e \<Rightarrow> Inl e
      | Inr fams' \<Rightarrow> add_wrappers k passphrase wrappers ids fams')"

definition NewAliasRegistry :: "sdk \<Rightarrow> string \<Rightarrow> (string \<times> string) list \<Rightarrow> error + AliasRegistry" where
  "NewAliasRegistry k passphrase sacWrappers =
     (if passphrase = [] then Inl []
      else case sacContractIDOn k NativeAsset passphrase of
        Inl e \<Rightarrow> Inl e
      | Inr xlmSAC \<Rightarrow>
          (case add_wrappers k passphrase sacWrappers (sort (remdups (map fst sacWrappers))) (baseAliasFamiliesFor xlmSAC) of
             Inl e \<Rightarrow> Inl e
           | Inr fams \<Rightarrow> Inr \<lparr>families = fams\<rparr>))"

definition Registry_Aliases :: "network \<Rightarrow> AliasRegistry option \<Rightarrow> Asset \<Rightarrow> Asset list" where
  "Registry_Aliases n r asset =
     (case map_of (familyMap n r) (Asset_String asset) of
        None \<Rightarrow> [asset]
      | Some family \<Rightarrow> asset # filter (\<lambda>f. Asset_String f \<noteq> Asset_String asset) family)"

definition Registry_Canonical :: "network \<Rightarrow> AliasRegistry option \<Rightarrow> Asset \<Rightarrow> Asset" where
  "Registry_Canonical n r asset =
     (case map_of (familyMap n r) (Asset_String asset) of
        Some (f # _) \<Rightarrow> f
      | _ \<Rightarrow> asset)"

definition AliasForms :: "network \<Rightarrow> AliasRegistry option \<Rightarrow> (string \<times> string) list" where
  "AliasForms n r =
     List.map_filter (\<lambda>(form, family).
       case family of
         [] \<Rightarrow> None
       | f # _ \<Rightarrow> let canon = Asset_String f in if form = canon then None else Some (form, canon)) (familyMap n r)"

definition AliasStrings :: "network \<Rightarrow> AliasRegistry option \<Rightarrow> Asset \<Rightarrow> string list" where
  "AliasStrings n r asset = map Asset_String (Registry_Aliases n r asset)"

definition AssetAliases :: "network \<Rightarrow> Asset \<Rightarrow> Asset list" where
  "AssetAliases n asset = Registry_Aliases n (Some (activeAliasRegistry n)) asset"

definition AssetAliasStrings :: "network \<Rightarrow> Asset \<Rightarrow> string list" where
  "AssetAliasStrings n asset = AliasStrings n (Some (activeAliasRegistry n)) asset"

definition AllAliasForms :: "network \<Rightarrow> (string \<times> string) list" where
  "AllAliasForms n = AliasForms n (Some (activeAliasRegistry n))"

definition CanonicalAsset :: "network \<Rightarrow> Asset \<Rightarrow> Asset" where
  "CanonicalAsset n asset = Registry_Canonical n (Some (activeAliasRegistry n)) asset"

section \<open>network.go\<close>

definition InstallNetworkPassphrase :: "sdk \<Rightarrow> string \<Rightarrow> network \<Rightarrow> network" where
  "InstallNetworkPassphrase k p n =
     (if p = [] then n\<lparr>installedPassphrase := None, installedNativeSAC := None, networkBaseRegistry := None\<rparr>
      else let n = n\<lparr>installedPassphrase := Some p\<rparr> in
        (case sacContractIDOn k NativeAsset p of
           Inl _ \<Rightarrow> n\<lparr>installedNativeSAC := None, networkBaseRegistry := None\<rparr>
         | Inr sac \<Rightarrow>
             n\<lparr>installedNativeSAC := Some sac, networkBaseRegistry := Some \<lparr>families = baseAliasFamiliesFor sac\<rparr>\<rparr>))"

definition NativeSACContractID :: "network \<Rightarrow> string" where
  "NativeSACContractID n = (case installedNativeSAC n of Some s \<Rightarrow> s | None \<Rightarrow> XLMSacContractID)"

definition InstallNetwork :: "sdk \<Rightarrow> string \<Rightarrow> (string \<times> string) list \<Rightarrow> network \<Rightarrow> error + network" where
  "InstallNetwork k passphrase sacWrappers n =
     (case NewAliasRegistry k passphrase sacWrappers of
        Inl e \<Rightarrow> Inl e
      | Inr reg \<Rightarrow> Inr (InstallNetworkPassphrase k passphrase (InstallAliasRegistry (Some reg) n)))"

section \<open>orientation.go\<close>

definition StablecoinCodes :: "string list" where
  "StablecoinCodes = [''USDT'', ''USDC'', ''DAI'', ''PYUSD'', ''USDP'', ''EURC'', ''EUROC'', ''EUROB'', ''MXNe'']"

definition TrimPrefix :: "string \<Rightarrow> string \<Rightarrow> string" where
  "TrimPrefix s p = (case CutPrefix s p of Some rest \<Rightarrow> rest | None \<Rightarrow> s)"

definition assetCode :: "string \<Rightarrow> string" where
  "assetCode assetID =
     (let code = (case IndexAny assetID ''-'' of
                    Some i \<Rightarrow> if 0 < i then take i assetID else assetID
                  | None \<Rightarrow> assetID)
      in TrimPrefix code ''crypto:'')"

definition isXLMQuoteForm :: "network \<Rightarrow> string \<Rightarrow> bool" where
  "isXLMQuoteForm n assetID = (assetID = ''native'' \<or> assetID = ''crypto:XLM'' \<or> assetID = NativeSACContractID n)"

definition isStablecoinSACForm :: "network \<Rightarrow> string \<Rightarrow> bool" where
  "isStablecoinSACForm n assetID =
     (case map_of (families (activeAliasRegistry n)) assetID of
        None \<Rightarrow> False
      | Some [] \<Rightarrow> False
      | Some (head # _) \<Rightarrow>
          if Asset_String head = assetID then False
          else Type head = AssetClassic \<and> Code head \<in> set StablecoinCodes)"

definition StablecoinSACForms :: "network \<Rightarrow> string list" where
  "StablecoinSACForms n =
     sort (filter (isStablecoinSACForm n) (remdups (map fst (families (activeAliasRegistry n)))))"

definition quoteRank :: "network \<Rightarrow> string \<Rightarrow> int" where
  "quoteRank n assetID =
     (if HasPrefix assetID ''fiat:'' then 4
      else if assetCode assetID \<in> set StablecoinCodes \<or> isStablecoinSACForm n assetID then 3
      else if isXLMQuoteForm n assetID then 2
      else 1)"

definition Orient :: "network \<Rightarrow> string \<Rightarrow> string \<Rightarrow> string \<times> string \<times> bool" where
  "Orient n a b =
     (let ra = quoteRank n a; rb = quoteRank n b;
          bIsQuote = (ra < rb \<or> (rb = ra \<and> a < b))
      in if bIsQuote then (a, b, False) else (b, a, True))"

definition Pair_Canonical :: "network \<Rightarrow> Pair \<Rightarrow> Pair \<times> bool" where
  "Pair_Canonical n p =
     (case Orient n (Asset_String (Base p)) (Asset_String (Quote p)) of (_, _, flipped) \<Rightarrow>
        if \<not> flipped then (p, False) else (\<lparr>Base = Quote p, Quote = Base p\<rparr>, True))"

section \<open>Tables of equivalent forms\<close>

text \<open>
  What a table of families promises: a key is a form of its own family, every form of a family is a key
  of that family, and no family lists a form twice. The lookups below need nothing else.
\<close>

locale alias_table =
  fixes tbl :: "string \<Rightarrow> Asset list option"
  assumes key_form: "tbl s = Some fam \<Longrightarrow> s \<in> Asset_String ` set fam"
    and form_key: "tbl s = Some fam \<Longrightarrow> a \<in> set fam \<Longrightarrow> tbl (Asset_String a) = Some fam"
    and forms_distinct: "tbl s = Some fam \<Longrightarrow> distinct (map Asset_String fam)"
begin

lemma family_head: "tbl s = Some fam \<Longrightarrow> \<exists>f rest. fam = f # rest \<and> tbl (Asset_String f) = Some fam"
  using key_form [of s fam] form_key [of s fam] by (cases fam) auto

lemma lookup_AliasStrings:
  assumes "map_of (familyMap n r) = tbl"
  shows "set (AliasStrings n r a) =
    (case tbl (Asset_String a) of None \<Rightarrow> {Asset_String a} | Some fam \<Rightarrow> Asset_String ` set fam)"
  using key_form [of "Asset_String a"]
  by (auto simp: AliasStrings_def Registry_Aliases_def assms split: option.splits)

lemma AliasStrings_distinct:
  assumes "map_of (familyMap n r) = tbl"
  shows "distinct (AliasStrings n r a) \<and> hd (Registry_Aliases n r a) = a"
proof (cases "tbl (Asset_String a)")
  case None
  then show ?thesis by (simp add: AliasStrings_def Registry_Aliases_def assms)
next
  case (Some fam)
  then have "distinct (map Asset_String fam)" by (rule forms_distinct)
  then have "distinct (map Asset_String (filter (\<lambda>f. Asset_String f \<noteq> Asset_String a) fam))"
    by (rule distinct_map_filter)
  then show ?thesis using Some by (auto simp: AliasStrings_def Registry_Aliases_def assms)
qed

lemma alias_same_class:
  assumes "map_of (familyMap n r) = tbl" "b \<in> set (Registry_Aliases n r a)"
  shows "tbl (Asset_String b) = tbl (Asset_String a)"
proof (cases "tbl (Asset_String a)")
  case None
  then show ?thesis using assms(2) by (simp add: Registry_Aliases_def assms(1))
next
  case (Some fam)
  then have "b = a \<or> b \<in> set fam" using assms(2) by (auto simp: Registry_Aliases_def assms(1))
  then show ?thesis using Some form_key [OF Some, of b] by metis
qed

lemma alias_class:
  assumes "map_of (familyMap n r) = tbl" "b \<in> set (Registry_Aliases n r a)"
  shows "set (AliasStrings n r b) = set (AliasStrings n r a) \<and> Registry_Canonical n r b = Registry_Canonical n r a"
proof (cases "tbl (Asset_String a)")
  case None
  then have "b = a" using assms(2) by (simp add: Registry_Aliases_def assms(1))
  then show ?thesis by simp
next
  case (Some fam)
  then obtain f rest where "fam = f # rest" using family_head by blast
  then show ?thesis using Some alias_same_class [OF assms]
    by (simp add: lookup_AliasStrings [OF assms(1)] Registry_Canonical_def assms(1))
qed

lemma Canonical_in_class:
  assumes "map_of (familyMap n r) = tbl"
  shows "Asset_String (Registry_Canonical n r a) \<in> set (AliasStrings n r a) \<and>
    Registry_Canonical n r (Registry_Canonical n r a) = Registry_Canonical n r a"
proof (cases "tbl (Asset_String a)")
  case None
  then show ?thesis by (simp add: Registry_Canonical_def lookup_AliasStrings [OF assms] assms)
next
  case (Some fam)
  then obtain f rest where "fam = f # rest" "tbl (Asset_String f) = Some fam" using family_head by blast
  then show ?thesis using Some by (simp add: Registry_Canonical_def lookup_AliasStrings [OF assms] assms)
qed

lemma AliasForms_canonical:
  assumes "map_of (familyMap n r) = tbl" "distinct (map fst (familyMap n r))"
  shows "map_of (AliasForms n r) (Asset_String a) =
    (if Asset_String (Registry_Canonical n r a) = Asset_String a then None
     else Some (Asset_String (Registry_Canonical n r a)))"
proof -
  have *: "map_of (List.map_filter (\<lambda>(form, family). case family of [] \<Rightarrow> None
        | f # _ \<Rightarrow> let canon = Asset_String f in if form = canon then None else Some (form, canon)) m) s =
      (case map_of m s of Some (f # _) \<Rightarrow> if s = Asset_String f then None else Some (Asset_String f) | _ \<Rightarrow> None)"
    if "distinct (map fst m)" for m :: "(string \<times> Asset list) list" and s
    using that
  proof (induction m)
    case Nil
    then show ?case by (simp add: map_filter_simps)
  next
    case (Cons x m)
    have "map_of m (fst x) = None" using Cons.prems by (simp add: map_of_eq_None_iff)
    then show ?case using Cons
      by (cases x) (auto simp: map_filter_simps Let_def split: list.splits option.splits if_splits)
  qed
  show ?thesis using * [OF assms(2)]
    by (auto simp: AliasForms_def Registry_Canonical_def split: option.splits list.splits)
qed

end

section \<open>Registries that the constructor accepts\<close>

text \<open>SEP-23, the other direction of the codec: what the SDK encodes as a contract decodes as one.\<close>

definition strkey_codec :: "sdk \<Rightarrow> bool" where
  "strkey_codec k \<longleftrightarrow> (\<forall>raw s. strkey_Encode k VersionByteContract raw = Some s \<longrightarrow> IsContractID k s)"

text \<open>The families a registry of one network can hold.\<close>

definition wrapper_family :: "sdk \<Rightarrow> string \<Rightarrow> string \<Rightarrow> Asset list \<Rightarrow> bool" where
  "wrapper_family k passphrase xlmSAC fam \<longleftrightarrow>
     (\<exists>classic sac. fam = [classic, sac] \<and> Type classic = AssetClassic \<and> Asset_Validate k classic = None \<and>
        Type sac = AssetSoroban \<and> Asset_Validate k sac = None \<and> ContractID sac \<noteq> xlmSAC \<and>
        sacContractIDOn k classic passphrase = Inr (ContractID sac))"

definition network_table :: "sdk \<Rightarrow> string \<Rightarrow> string \<Rightarrow> (string \<times> Asset list) list \<Rightarrow> bool" where
  "network_table k passphrase xlmSAC m \<longleftrightarrow>
     alias_table (map_of m) \<and> distinct (map fst m) \<and>
     map_of m ''native'' = Some (xlmAliasFamilyFor xlmSAC) \<and>
     (\<forall>s fam. map_of m s = Some fam \<longrightarrow>
        fam = xlmAliasFamilyFor xlmSAC \<or> fam = eurcAliasFamily \<or> wrapper_family k passphrase xlmSAC fam)"

lemma base_families:
  assumes "sac \<notin> {''native'', ''crypto:XLM'', ''crypto:EURC'', ''crypto:EUROC''}"
  shows "baseAliasFamiliesFor sac =
    [(''native'', xlmAliasFamilyFor sac), (''crypto:XLM'', xlmAliasFamilyFor sac), (sac, xlmAliasFamilyFor sac),
     (''crypto:EURC'', eurcAliasFamily), (''crypto:EUROC'', eurcAliasFamily)]"
  using assms
  by (auto simp: baseAliasFamiliesFor_def register_family_def xlmAliasFamilyFor_def eurcAliasFamily_def
      Asset_String_def zeroAsset_def)

lemma base_alias_table:
  assumes "sac \<notin> {''native'', ''crypto:XLM'', ''crypto:EURC'', ''crypto:EUROC''}"
  shows "alias_table (map_of (baseAliasFamiliesFor sac))"
proof -
  have keys: "map_of (baseAliasFamiliesFor sac) s = Some fam \<Longrightarrow>
      s \<in> {''native'', ''crypto:XLM'', sac} \<and> fam = xlmAliasFamilyFor sac \<or>
      s \<in> {''crypto:EURC'', ''crypto:EUROC''} \<and> fam = eurcAliasFamily" for s fam
    unfolding base_families [OF assms] by (simp split: if_splits)
  have xlm: "map Asset_String (xlmAliasFamilyFor sac) = [''native'', ''crypto:XLM'', sac]"
    and eurc: "map Asset_String eurcAliasFamily = [''crypto:EURC'', ''crypto:EUROC'']"
    by (simp_all add: xlmAliasFamilyFor_def eurcAliasFamily_def Asset_String_def zeroAsset_def)
  have img: "Asset_String ` set fam = set (map Asset_String fam)" for fam by simp
  show ?thesis
  proof (rule alias_table.intro)
    fix s fam assume f: "map_of (baseAliasFamiliesFor sac) s = Some fam"
    show "s \<in> Asset_String ` set fam" unfolding img using keys [OF f]
      by (elim disjE conjE) (simp_all only: xlm eurc, auto)
    show "distinct (map Asset_String fam)" using keys [OF f] assms
      by (elim disjE conjE) (simp_all only: xlm eurc, auto)
    fix a assume "a \<in> set fam"
    then have "Asset_String a \<in> set (map Asset_String fam)" by simp
    then show "map_of (baseAliasFamiliesFor sac) (Asset_String a) = Some fam"
      using keys [OF f] assms unfolding base_families [OF assms]
      by (elim disjE conjE) (simp_all only: xlm eurc, auto)
  qed
qed

lemma XLMSac_not_symbolic: "XLMSacContractID \<notin> {''native'', ''crypto:XLM'', ''crypto:EURC'', ''crypto:EUROC''}"
  by (simp add: XLMSacContractID_def)

interpretation pubnet_table: alias_table "map_of (families defaultAliasRegistry)"
  unfolding defaultAliasRegistry_def AliasRegistry.simps by (rule base_alias_table [OF XLMSac_not_symbolic])

lemma strkey_not_symbolic:
  assumes "strkey_ok k" "IsContractID k s"
  shows "s \<notin> {''native'', ''crypto:XLM'', ''crypto:EURC'', ''crypto:EUROC''}"
  using IsContractID_strkey [OF assms] by auto

lemma derived_contract:
  assumes "strkey_codec k" "sacContractIDOn k a passphrase = Inr s"
  shows "IsContractID k s"
  using assms by (auto simp: sacContractIDOn_def strkey_codec_def split: option.splits)

lemma base_network_table:
  assumes "strkey_ok k" "IsContractID k sac"
  shows "network_table k passphrase sac (baseAliasFamiliesFor sac)"
  using base_alias_table [OF strkey_not_symbolic [OF assms]] strkey_not_symbolic [OF assms]
  by (auto simp: network_table_def base_families [OF strkey_not_symbolic [OF assms]] split: if_splits)

text \<open>Adding a family of two new forms keeps the table law.\<close>

lemma alias_table_update:
  assumes "alias_table tbl" "tbl (Asset_String a) = None" "tbl (Asset_String b) = None"
    "Asset_String a \<noteq> Asset_String b"
  shows "alias_table (tbl(Asset_String a \<mapsto> [a, b], Asset_String b \<mapsto> [a, b]))" (is "alias_table ?t")
proof (rule alias_table.intro)
  fix s fam assume f: "?t s = Some fam"
  have split: "fam = [a, b] \<and> s \<in> {Asset_String a, Asset_String b} \<or> tbl s = Some fam"
    using f by (auto split: if_splits)
  show "s \<in> Asset_String ` set fam" using split alias_table.key_form [OF assms(1)] by auto
  show "distinct (map Asset_String fam)" using split assms(4) alias_table.forms_distinct [OF assms(1)] by auto
  fix c assume c: "c \<in> set fam"
  show "?t (Asset_String c) = Some fam"
  proof (cases "tbl s = Some fam")
    case True
    then have "tbl (Asset_String c) = Some fam" using c by (rule alias_table.form_key [OF assms(1)])
    then show ?thesis using assms(2,3) by (metis fun_upd_other option.distinct(1))
  next
    case False
    then show ?thesis using split c by auto
  qed
qed

lemma addSACWrapperFamily_Inr:
  assumes "addSACWrapperFamily k m passphrase sacID classicKey = Inr m'" "m' \<noteq> m"
  shows "\<exists>classic sac. ParseAsset k classicKey = Inr classic \<and> NewSorobanAsset k sacID = Inr sac \<and>
    Asset_String sac \<noteq> Asset_String classic \<and> Type classic \<noteq> AssetNative \<and>
    sacContractIDOn k classic passphrase = Inr (Asset_String sac) \<and>
    map_of m (Asset_String sac) = None \<and> map_of m (Asset_String classic) = None \<and>
    m' = AList.update (Asset_String sac) [classic, sac] (AList.update (Asset_String classic) [classic, sac] m)"
  using assms by (auto simp: addSACWrapperFamily_def Let_def split: sum.splits if_splits)

lemma sac_of_classic:
  "sacContractIDOn k a passphrase = Inr s \<Longrightarrow> Type a \<noteq> AssetNative \<Longrightarrow> Type a = AssetClassic"
  by (auto simp: sacContractIDOn_def split: AssetType.splits)

lemma NewSorobanAsset_Inr:
  "NewSorobanAsset k s = Inr a \<Longrightarrow> Type a = AssetSoroban \<and> ContractID a = s \<and> Asset_String a = s"
  by (auto simp: NewSorobanAsset_def zeroAsset_def Asset_String_def split: option.splits)

lemma addSACWrapperFamily_table:
  assumes tbl: "network_table k passphrase xlmSAC m"
    and add: "addSACWrapperFamily k m passphrase sacID classicKey = Inr m'"
  shows "network_table k passphrase xlmSAC m'"
proof (cases "m' = m")
  case False
  from addSACWrapperFamily_Inr [OF add False] obtain classic sac where
    w: "ParseAsset k classicKey = Inr classic" "NewSorobanAsset k sacID = Inr sac"
      "Asset_String sac \<noteq> Asset_String classic" "Type classic \<noteq> AssetNative"
      "sacContractIDOn k classic passphrase = Inr (Asset_String sac)"
      "map_of m (Asset_String sac) = None" "map_of m (Asset_String classic) = None"
      "m' = AList.update (Asset_String sac) [classic, sac] (AList.update (Asset_String classic) [classic, sac] m)"
    by blast
  note t = tbl [unfolded network_table_def]
  have m': "map_of m' = (map_of m)(Asset_String classic \<mapsto> [classic, sac], Asset_String sac \<mapsto> [classic, sac])"
    by (simp add: w(8) update_conv')
  have law: "alias_table (map_of m')" unfolding m' using t w by (intro alias_table_update) auto
  have "\<exists>a \<in> set (xlmAliasFamilyFor xlmSAC). Asset_String a = xlmSAC"
    by (simp add: xlmAliasFamilyFor_def Asset_String_def zeroAsset_def)
  then have "map_of m xlmSAC = Some (xlmAliasFamilyFor xlmSAC)"
    using t alias_table.form_key [of "map_of m"] by metis
  then have "ContractID sac \<noteq> xlmSAC" using w(6) NewSorobanAsset_Inr [OF w(2)] by auto
  then have shape: "wrapper_family k passphrase xlmSAC [classic, sac]"
    using w(5) NewSorobanAsset_Inr [OF w(2)] sac_of_classic [OF w(5,4)] parsed_asset_valid [OF w(1)]
      constructors_valid(2) [OF w(2)] by (auto simp: wrapper_family_def)
  have "''native'' \<noteq> Asset_String sac" "''native'' \<noteq> Asset_String classic" using t w(6,7) by auto
  then have native: "map_of m' ''native'' = Some (xlmAliasFamilyFor xlmSAC)" using t by (simp add: m')
  have "fam = [classic, sac] \<or> map_of m s = Some fam" if "map_of m' s = Some fam" for s fam
    using that by (auto simp: m' split: if_splits)
  moreover have "distinct (map fst m')" using t by (simp add: w(8) distinct_update)
  ultimately show ?thesis using law native shape t unfolding network_table_def by blast
qed (simp add: tbl)

lemma add_wrappers_table:
  assumes "network_table k passphrase xlmSAC m" "add_wrappers k passphrase ws ids m = Inr m'"
  shows "network_table k passphrase xlmSAC m'"
  using assms
  by (induction ids arbitrary: m) (auto intro: addSACWrapperFamily_table split: sum.splits)

lemma NewAliasRegistry_table:
  assumes "strkey_ok k" "strkey_codec k" "NewAliasRegistry k passphrase ws = Inr reg"
  shows "\<exists>xlmSAC. passphrase \<noteq> [] \<and> sacContractIDOn k NativeAsset passphrase = Inr xlmSAC \<and> IsContractID k xlmSAC \<and>
    network_table k passphrase xlmSAC (families reg)"
proof -
  obtain xlmSAC m where x: "passphrase \<noteq> []" "sacContractIDOn k NativeAsset passphrase = Inr xlmSAC"
    "add_wrappers k passphrase ws (sort (remdups (map fst ws))) (baseAliasFamiliesFor xlmSAC) = Inr m"
    "reg = \<lparr>families = m\<rparr>"
    using assms(3) by (auto simp: NewAliasRegistry_def split: if_splits sum.splits)
  have c: "IsContractID k xlmSAC" by (rule derived_contract [OF assms(2) x(2)])
  show ?thesis using x c add_wrappers_table [OF base_network_table [OF assms(1) c] x(3)] by auto
qed

lemma InstallNetwork_state:
  assumes "strkey_ok k" "strkey_codec k" "InstallNetwork k passphrase ws n = Inr n'"
  shows "NetworkPassphrase n' = passphrase \<and> sacContractIDOn k NativeAsset passphrase = Inr (NativeSACContractID n') \<and>
    IsContractID k (NativeSACContractID n') \<and>
    network_table k passphrase (NativeSACContractID n') (families (activeAliasRegistry n'))"
proof -
  obtain reg where r: "NewAliasRegistry k passphrase ws = Inr reg"
    "n' = InstallNetworkPassphrase k passphrase (InstallAliasRegistry (Some reg) n)"
    using assms(3) by (auto simp: InstallNetwork_def split: sum.splits)
  from NewAliasRegistry_table [OF assms(1,2) r(1)] obtain xlmSAC where
    x: "passphrase \<noteq> []" "sacContractIDOn k NativeAsset passphrase = Inr xlmSAC" "IsContractID k xlmSAC"
      "network_table k passphrase xlmSAC (families reg)" by blast
  then show ?thesis
    by (simp add: r(2) InstallNetworkPassphrase_def InstallAliasRegistry_def NetworkPassphrase_def
        NativeSACContractID_def activeAliasRegistry_def)
qed

text \<open>The laws of the table in force on an installed network, and of the classes it gives.\<close>

lemma network_laws:
  assumes "strkey_ok k" "strkey_codec k" "InstallNetwork k passphrase ws n0 = Inr n"
  shows "network_table k (NetworkPassphrase n) (NativeSACContractID n) (familyMap n (Some (activeAliasRegistry n)))"
  using InstallNetwork_state [OF assms] by (simp add: familyMap_def)

lemma alias_class_of:
  assumes "strkey_ok k" "strkey_codec k" "InstallNetwork k passphrase ws n0 = Inr n"
    and "b \<in> set (AssetAliases n a)"
  shows "set (AssetAliasStrings n b) = set (AssetAliasStrings n a)" "CanonicalAsset n b = CanonicalAsset n a"
  using network_laws [OF assms(1-3)] assms(4) alias_table.alias_class [OF _ refl]
  unfolding network_table_def AssetAliases_def AssetAliasStrings_def CanonicalAsset_def by blast+

section \<open>Properties of the registry\<close>

text \<open>A network for witnesses: the sample SDK with an encoder that refuses what is not base32.\<close>

definition alias_sdk :: sdk where
  "alias_sdk = sample_sdk\<lparr>strkey_Encode := (\<lambda>v raw.
     if list_all base32_char raw then Some (sample_prefix v # take 55 (raw @ replicate 55 (CHR ''A''))) else None)\<rparr>"

definition no_network :: network where
  "no_network = \<lparr>installedPassphrase = None, installedNativeSAC = None, networkBaseRegistry = None, activeRegistry = None\<rparr>"

definition sample_wrappers :: "(string \<times> string) list" where
  "sample_wrappers = [(''CUSDC'' @ replicate 51 (CHR ''A''), Asset_String sample_usdc)]"

definition sample_network :: network where
  "sample_network =
     (case InstallNetwork alias_sdk ''Test'' sample_wrappers no_network of Inr n \<Rightarrow> n | Inl _ \<Rightarrow> no_network)"

lemma alias_sdk_ok: "strkey_ok alias_sdk" "strkey_codec alias_sdk"
proof -
  show "strkey_ok alias_sdk" using sample_sdk_ok by (simp add: strkey_ok_def alias_sdk_def)
  show "strkey_codec alias_sdk"
    by (auto simp: strkey_codec_def IsContractID_def alias_sdk_def sample_sdk_def sample_prefix_def
        list_all_iff base32_char_def dest!: in_set_takeD split: if_splits)
qed

definition sample_sac :: Asset where
  "sample_sac = zeroAsset\<lparr>Type := AssetSoroban, ContractID := ''CUSDC'' @ replicate 51 (CHR ''A'')\<rparr>"

lemma sample_registry:
  "case NewAliasRegistry alias_sdk ''Test'' sample_wrappers of
     Inl _ \<Rightarrow> False
   | Inr reg \<Rightarrow> map_of (families reg) (Asset_String sample_usdc) = Some [sample_usdc, sample_sac]"
  by code_simp

lemma sample_network_installed: "InstallNetwork alias_sdk ''Test'' sample_wrappers no_network = Inr sample_network"
  using sample_registry by (auto simp: sample_network_def InstallNetwork_def split: sum.splits)

lemma sample_usdc_family:
  "map_of (families (activeAliasRegistry sample_network)) (Asset_String sample_usdc) = Some [sample_usdc, sample_sac]"
proof -
  have keep: "activeRegistry (InstallNetworkPassphrase k p n) = activeRegistry n" for k p n
    by (simp add: InstallNetworkPassphrase_def Let_def split: sum.splits)
  show ?thesis using sample_registry
    by (auto simp: sample_network_def InstallNetwork_def activeAliasRegistry_def keep InstallAliasRegistry_def
        split: sum.splits)
qed

lemma sample_sac_alias: "sample_sac \<in> set (AssetAliases sample_network sample_usdc)"
  by (simp add: AssetAliases_def Registry_Aliases_def familyMap_def sample_usdc_family)
    (simp add: sample_sac_def sample_usdc_def sample_issuer_def Asset_String_def zeroAsset_def)

text \<open>
  On a network that start-up has installed, the forms of an asset are one class: the list starts with
  the form asked for and repeats none, every form in it lists the same forms, the canonical form is one of
  them, is the same from every form and is its own canonical form, and \<open>AllAliasForms\<close> maps a form to the
  canonical one exactly when they differ.
\<close>

theorem alias_classes:
  assumes "strkey_ok k" "strkey_codec k" "InstallNetwork k passphrase ws n = Inr n'"
  shows "hd (AssetAliases n' a) = a \<and> distinct (AssetAliasStrings n' a) \<and>
    (\<forall>b \<in> set (AssetAliases n' a).
       set (AssetAliasStrings n' b) = set (AssetAliasStrings n' a) \<and> CanonicalAsset n' b = CanonicalAsset n' a) \<and>
    Asset_String (CanonicalAsset n' a) \<in> set (AssetAliasStrings n' a) \<and>
    CanonicalAsset n' (CanonicalAsset n' a) = CanonicalAsset n' a \<and>
    map_of (AllAliasForms n') (Asset_String a) =
      (if Asset_String (CanonicalAsset n' a) = Asset_String a then None
       else Some (Asset_String (CanonicalAsset n' a)))"
proof -
  let ?r = "Some (activeAliasRegistry n')"
  have m: "familyMap n' ?r = families (activeAliasRegistry n')" by (simp add: familyMap_def)
  then have "network_table k passphrase (NativeSACContractID n') (familyMap n' ?r)"
    using InstallNetwork_state [OF assms] by simp
  then have law: "alias_table (map_of (familyMap n' ?r))" and d: "distinct (map fst (familyMap n' ?r))"
    by (simp_all add: network_table_def)
  show ?thesis
    using alias_table.AliasStrings_distinct [OF law refl, of a] alias_table.alias_class [OF law refl, of _ a]
      alias_table.Canonical_in_class [OF law refl, of a] alias_table.AliasForms_canonical [OF law refl d, of a]
    unfolding AssetAliases_def AssetAliasStrings_def CanonicalAsset_def AllAliasForms_def by blast
qed

theorem alias_classes_witness:
  "InstallNetwork alias_sdk ''Test'' sample_wrappers no_network = Inr sample_network \<and>
   sample_sac \<in> set (AssetAliases sample_network sample_usdc) \<and>
   CanonicalAsset sample_network sample_sac = CanonicalAsset sample_network sample_usdc"
  using alias_classes [OF alias_sdk_ok sample_network_installed, of sample_usdc] sample_network_installed
    sample_sac_alias by blast

text \<open>
  The rank of each kind of form. Derived and declared contracts are strkeys, so no contract text is
  mistaken for a code, and a classic identifier carries its code before the dash.
\<close>

lemma strkey_not_code:
  assumes "list_all base32_char s" "length s = 56"
  shows "\<not> HasPrefix s ''fiat:''" "assetCode s \<notin> set StablecoinCodes"
proof -
  have nc: "CHR '':'' \<notin> set s" "CHR ''-'' \<notin> set s" using base32_excludes [OF assms(1)] by simp_all
  then show "\<not> HasPrefix s ''fiat:''" using HasPrefix_char [of s "''fiat:''" "CHR '':''"] by auto
  have "IndexAny s ''-'' = None" using nc(2) by (induction s) auto
  then have "assetCode s = s"
    using CutPrefix_missing [of "CHR '':''" "''crypto:''" s] nc(1) by (simp add: assetCode_def TrimPrefix_def)
  then show "assetCode s \<notin> set StablecoinCodes" using assms(2) by (auto simp: StablecoinCodes_def)
qed

lemma classic_identifier:
  assumes "strkey_ok k" "Type a = AssetClassic" "Asset_Validate k a = None"
  shows "\<not> HasPrefix (Asset_String a) ''fiat:''" "assetCode (Asset_String a) = Code a"
    "CHR ''-'' \<in> set (Asset_String a)"
proof -
  have v: "list_all alnum_char (Code a)" "Code a \<noteq> []" "IsAccountID k (Issuer a)"
    using assms(2,3) by (auto simp: Asset_Validate_def validateClassicAssetCode_def validateAccountID_def
        Let_def split: if_splits option.splits)
  have s: "Asset_String a = Code a @ CHR ''-'' # Issuer a" by (simp add: Asset_String_def assms(2))
  have nc: "CHR '':'' \<notin> set (Code a)" "CHR ''-'' \<notin> set (Code a)" "CHR '':'' \<notin> set (Issuer a)"
    using alnum_excludes [OF v(1)] base32_excludes [of "Issuer a" "CHR '':''"] IsAccountID_strkey [OF assms(1) v(3)]
    by simp_all
  have "CHR '':'' \<notin> set (Asset_String a)" using nc by (simp add: s)
  then show "\<not> HasPrefix (Asset_String a) ''fiat:''"
    using HasPrefix_char [of "Asset_String a" "''fiat:''" "CHR '':''"] by auto
  have "IndexAny (Asset_String a) ''-'' = Some (length (Code a))" unfolding s by (rule IndexAny_skip) (use nc in auto)
  moreover have "CutPrefix (Code a) ''crypto:'' = None" using nc(1) by (intro CutPrefix_missing [of "CHR '':''"]) auto
  ultimately show "assetCode (Asset_String a) = Code a" using v(2)
    by (simp add: assetCode_def TrimPrefix_def s)
  show "CHR ''-'' \<in> set (Asset_String a)" by (simp add: s)
qed

lemma symbolic_rank:
  "\<not> HasPrefix ''native'' ''fiat:''  \<and> assetCode ''native'' \<notin> set StablecoinCodes"
  "\<not> HasPrefix ''crypto:XLM'' ''fiat:'' \<and> assetCode ''crypto:XLM'' \<notin> set StablecoinCodes"
  "\<not> HasPrefix ''crypto:EURC'' ''fiat:'' \<and> assetCode ''crypto:EURC'' \<in> set StablecoinCodes"
  "\<not> HasPrefix ''crypto:EUROC'' ''fiat:'' \<and> assetCode ''crypto:EUROC'' \<in> set StablecoinCodes"
  by code_simp+

lemma xlm_rank:
  assumes "list_all base32_char (NativeSACContractID n)" "length (NativeSACContractID n) = 56"
    and fam: "map_of (families (activeAliasRegistry n)) (Asset_String b) = Some (xlmAliasFamilyFor (NativeSACContractID n))"
    and b: "b \<in> set (xlmAliasFamilyFor (NativeSACContractID n))"
  shows "quoteRank n (Asset_String b) = 2"
proof -
  have s: "Asset_String b \<in> {''native'', ''crypto:XLM'', NativeSACContractID n}"
    using b by (auto simp: xlmAliasFamilyFor_def Asset_String_def zeroAsset_def)
  have "\<not> isStablecoinSACForm n (Asset_String b)"
    using fam by (simp add: isStablecoinSACForm_def xlmAliasFamilyFor_def zeroAsset_def)
  moreover have "\<not> HasPrefix (Asset_String b) ''fiat:''" "assetCode (Asset_String b) \<notin> set StablecoinCodes"
    using s strkey_not_code [OF assms(1,2)] symbolic_rank(1,2) by auto
  ultimately show ?thesis using s by (auto simp: quoteRank_def isXLMQuoteForm_def)
qed

lemma eurc_rank: "b \<in> set eurcAliasFamily \<Longrightarrow> quoteRank n (Asset_String b) = 3"
  using symbolic_rank(3,4) by (auto simp: eurcAliasFamily_def Asset_String_def zeroAsset_def quoteRank_def)

lemma wrapper_rank:
  assumes k: "strkey_ok k" and native: "IsContractID k (NativeSACContractID n)"
    and w: "wrapper_family k passphrase (NativeSACContractID n) fam"
    and fam: "\<And>c. c \<in> set fam \<Longrightarrow> map_of (families (activeAliasRegistry n)) (Asset_String c) = Some fam"
    and b: "b \<in> set fam"
  shows "quoteRank n (Asset_String b) = (if Code (hd fam) \<in> set StablecoinCodes then 3 else 1)"
proof -
  from w obtain classic sac where f: "fam = [classic, sac]" and cl: "Type classic = AssetClassic"
      "Asset_Validate k classic = None" and sc: "Type sac = AssetSoroban" "Asset_Validate k sac = None"
      "ContractID sac \<noteq> NativeSACContractID n"
    by (auto simp: wrapper_family_def)
  note id = classic_identifier [OF k cl]
  have str: "Asset_String sac = ContractID sac" using sc(1) by (simp add: Asset_String_def)
  have "IsContractID k (ContractID sac)"
    using sc(1,2) by (auto simp: Asset_Validate_def validateContractID_def split: if_splits)
  then have sk: "list_all base32_char (Asset_String sac)" "length (Asset_String sac) = 56"
    using IsContractID_strkey [OF k] by (simp_all add: str)
  have dash: "CHR ''-'' \<notin> set (Asset_String sac)" "CHR ''-'' \<notin> set (NativeSACContractID n)"
    using base32_excludes [OF sk(1)] base32_excludes [of "NativeSACContractID n"] IsContractID_strkey [OF k native]
    by simp_all
  then have ne: "Asset_String classic \<noteq> Asset_String sac" "Asset_String classic \<noteq> NativeSACContractID n"
    using id(3) by auto
  have "\<not> isXLMQuoteForm n (Asset_String classic)" using id(3) ne by (auto simp: isXLMQuoteForm_def)
  then have 1: "quoteRank n (Asset_String classic) = (if Code classic \<in> set StablecoinCodes then 3 else 1)"
    using id(1,2) fam [of classic] by (simp add: quoteRank_def isStablecoinSACForm_def f)
  have "\<not> isXLMQuoteForm n (Asset_String sac)" using sk(2) sc(3) by (auto simp: isXLMQuoteForm_def str)
  then have 2: "quoteRank n (Asset_String sac) = (if Code classic \<in> set StablecoinCodes then 3 else 1)"
    using strkey_not_code [OF sk] fam [of sac] ne cl(1) by (simp add: quoteRank_def isStablecoinSACForm_def f)
  show ?thesis using 1 2 b f by auto
qed

text \<open>
  Every form of an asset is ranked alike on an installed network, so a market is oriented the same way
  whichever alias of its legs is used: a contract declared as a wrapper ranks as the classic asset it wraps,
  and the three forms of XLM rank as XLM.
\<close>

theorem quoteRank_respects_aliases:
  assumes "strkey_ok k" "strkey_codec k" "InstallNetwork k passphrase ws n = Inr n'"
    and "b \<in> set (AssetAliases n' a)"
  shows "quoteRank n' (Asset_String b) = quoteRank n' (Asset_String a)"
proof (cases "map_of (families (activeAliasRegistry n')) (Asset_String a)")
  case None
  then show ?thesis using assms(4) by (simp add: AssetAliases_def Registry_Aliases_def familyMap_def)
next
  case (Some fam)
  note st = InstallNetwork_state [OF assms(1-3)]
  have law: "alias_table (map_of (families (activeAliasRegistry n')))"
    and shape: "fam = xlmAliasFamilyFor (NativeSACContractID n') \<or> fam = eurcAliasFamily \<or>
      wrapper_family k passphrase (NativeSACContractID n') fam"
    using st Some unfolding network_table_def by blast+
  have closed: "c \<in> set fam \<Longrightarrow> map_of (families (activeAliasRegistry n')) (Asset_String c) = Some fam" for c
    by (rule alias_table.form_key [OF law Some])
  have sac: "list_all base32_char (NativeSACContractID n')" "length (NativeSACContractID n') = 56"
    using IsContractID_strkey [OF assms(1)] st by blast+
  have one: "quoteRank n' (Asset_String c) = quoteRank n' (Asset_String d)" if "c \<in> set fam" "d \<in> set fam" for c d
    using shape xlm_rank [OF sac] eurc_rank [of _ n'] wrapper_rank [OF assms(1), of n' passphrase fam] st closed that
    by metis
  have "\<exists>c \<in> set fam. Asset_String c = Asset_String a" using alias_table.key_form [OF law Some] by auto
  moreover have "b = a \<or> b \<in> set fam" using assms(4) Some
    by (auto simp: AssetAliases_def Registry_Aliases_def familyMap_def)
  ultimately show ?thesis using one by metis
qed

theorem quoteRank_respects_aliases_witness:
  "sample_sac \<in> set (AssetAliases sample_network sample_usdc) \<and>
   quoteRank sample_network (Asset_String sample_sac) = quoteRank sample_network (Asset_String sample_usdc)"
  using quoteRank_respects_aliases [OF alias_sdk_ok sample_network_installed sample_sac_alias] sample_sac_alias
  by blast

section \<open>The network settings\<close>

text \<open>The states start-up code can reach: the setters of the package in any order from the zero state.\<close>

inductive installs :: "sdk \<Rightarrow> network \<Rightarrow> bool" for k where
  start: "installs k no_network"
| passphrase: "installs k n \<Longrightarrow> installs k (InstallNetworkPassphrase k p n)"
| registry: "installs k n \<Longrightarrow> installs k (InstallAliasRegistry r n)"
| network: "installs k n \<Longrightarrow> InstallNetwork k p ws n = Inr n' \<Longrightarrow> installs k n'"

lemma InstallNetworkPassphrase_cases:
  "InstallNetworkPassphrase k p n =
     n\<lparr>installedPassphrase := (if p = [] then None else Some p),
       installedNativeSAC := (if p = [] then None else case sacContractIDOn k NativeAsset p of Inl _ \<Rightarrow> None | Inr s \<Rightarrow> Some s),
       networkBaseRegistry := (if p = [] then None else case sacContractIDOn k NativeAsset p of Inl _ \<Rightarrow> None
         | Inr s \<Rightarrow> Some \<lparr>families = baseAliasFamiliesFor s\<rparr>)\<rparr>"
  by (simp add: InstallNetworkPassphrase_def Let_def split: sum.splits)

lemma installs_settings:
  assumes "installs k n"
  shows "installedNativeSAC n =
      (case installedPassphrase n of None \<Rightarrow> None
       | Some p \<Rightarrow> (case sacContractIDOn k NativeAsset p of Inl _ \<Rightarrow> None | Inr s \<Rightarrow> Some s)) \<and>
    networkBaseRegistry n = map_option (\<lambda>s. \<lparr>families = baseAliasFamiliesFor s\<rparr>) (installedNativeSAC n)"
  using assms
proof induction
  case (network n p ws n')
  then show ?case
    by (auto simp: InstallNetwork_def InstallNetworkPassphrase_cases InstallAliasRegistry_def split: sum.splits)
qed (auto simp: no_network_def InstallNetworkPassphrase_cases InstallAliasRegistry_def split: sum.splits)

text \<open>An SDK that derives the pinned contract of XLM on pubnet.\<close>

definition pubnet_sdk :: sdk where
  "pubnet_sdk = alias_sdk\<lparr>xdr_ContractID := (\<lambda>a pass.
     Some (if pass = PubnetPassphrase then drop 1 XLMSacContractID else ''NATIVE''))\<rparr>"

text \<open>
  However the setters are called, the baseline family of XLM is the one of \<open>NativeSACContractID\<close>, and
  that is the contract derived for the native asset on the configured network whenever one can be derived.
  The hypothesis is that the constant \<open>XLMSacContractID\<close> is the pubnet derivation.
\<close>

theorem native_contract_agrees:
  assumes "installs k n" "sacContractIDOn k NativeAsset PubnetPassphrase = Inr XLMSacContractID"
  shows "families (baselineAliasRegistry n) = baseAliasFamiliesFor (NativeSACContractID n) \<and>
    (\<forall>s. SacContractID k n NativeAsset = Inr s \<longrightarrow> NativeSACContractID n = s)"
  using installs_settings [OF assms(1)] assms(2)
  by (auto simp: baselineAliasRegistry_def NativeSACContractID_def SacContractID_def NetworkPassphrase_def
      defaultAliasRegistry_def split: option.splits sum.splits)

theorem native_contract_agrees_witness:
  "SacContractID pubnet_sdk (InstallNetworkPassphrase pubnet_sdk ''Test'' no_network) NativeAsset =
     Inr (NativeSACContractID (InstallNetworkPassphrase pubnet_sdk ''Test'' no_network))"
proof -
  let ?n = "InstallNetworkPassphrase pubnet_sdk ''Test'' no_network"
  have "sacContractIDOn pubnet_sdk NativeAsset PubnetPassphrase = Inr XLMSacContractID" by code_simp
  moreover have "installs pubnet_sdk ?n" by (intro installs.intros)
  moreover have "\<not> isl (SacContractID pubnet_sdk ?n NativeAsset)" by code_simp
  ultimately show ?thesis using native_contract_agrees [of pubnet_sdk ?n] unfolding isl_def by (metis sum.exhaust)
qed

text \<open>
  A SEP-11 name is believed exactly when the contract is the derived one: an accepted name gives a valid
  asset whose contract on the installed network is the emitter, and every valid classic asset (and the native
  one) is resolved from its own name by its own contract.
\<close>

theorem SEP11SACAsset_exact:
  assumes "Asset_Validate k a = None" "Type a = AssetClassic \<or> Type a = AssetNative"
  shows "(SEP11SACAsset k n (if Type a = AssetNative then ''native'' else Code a @ '':'' @ Issuer a) contract = Some a
      \<longleftrightarrow> SacContractID k n a = Inr contract) \<and>
    (\<forall>name c b. SEP11SACAsset k n name c = Some b \<longrightarrow>
       Asset_Validate k b = None \<and> SacContractID k n b = Inr c \<and> ContractAddress k n b = Some c)"
proof
  have nat: "a = NativeAsset" if "Type a = AssetNative"
    using that assms(1) by (auto simp: Asset_Validate_def NativeAsset_def zeroAsset_def split: if_splits intro: Asset.equality)
  have cl: "NewClassicAsset k (Code a) (Issuer a) = Inr a \<and> CHR '':'' \<notin> set (Code a)" if "Type a = AssetClassic"
  proof -
    have "validateClassicAssetCode (Code a) = None" "validateAccountID k (Issuer a) = None" "ContractID a = []"
      using that assms(1) by (auto simp: Asset_Validate_def split: if_splits option.splits)
    moreover from this have "list_all alnum_char (Code a)"
      by (auto simp: validateClassicAssetCode_def Let_def split: if_splits)
    ultimately show ?thesis using that alnum_excludes [of "Code a" "CHR '':''"]
      by (auto simp: NewClassicAsset_def zeroAsset_def intro: Asset.equality)
  qed
  show "SEP11SACAsset k n (if Type a = AssetNative then ''native'' else Code a @ '':'' @ Issuer a) contract = Some a
      \<longleftrightarrow> SacContractID k n a = Inr contract"
  proof (cases "Type a = AssetNative")
    case True
    then show ?thesis by (auto simp: nat [OF True] SEP11SACAsset_def NativeAsset_def zeroAsset_def split: sum.splits)
  next
    case False
    then have c: "NewClassicAsset k (Code a) (Issuer a) = Inr a" "CHR '':'' \<notin> set (Code a)"
      using cl assms(2) by auto
    have "IndexAny (Code a @ CHR '':'' # Issuer a) '':'' = Some (length (Code a))"
      by (rule IndexAny_skip) (use c(2) in auto)
    moreover have "Code a @ CHR '':'' # Issuer a \<noteq> ''native''"
    proof
      assume "Code a @ CHR '':'' # Issuer a = ''native''"
      then have "CHR '':'' \<in> set ''native''" by (metis in_set_conv_decomp)
      then show False by simp
    qed
    ultimately show ?thesis using False c(1) by (auto simp: SEP11SACAsset_def split: sum.splits)
  qed
  have "ContractID b = []" if "Asset_Validate k b = None" "SacContractID k n b = Inr c" for b c
    using that by (auto simp: Asset_Validate_def SacContractID_def sacContractIDOn_def split: AssetType.splits if_splits)
  moreover have "Type b = AssetClassic \<or> Type b = AssetNative" if "SacContractID k n b = Inr c" for b c
    using that by (auto simp: SacContractID_def dest: sac_of_classic)
  ultimately show "\<forall>name c b. SEP11SACAsset k n name c = Some b \<longrightarrow>
       Asset_Validate k b = None \<and> SacContractID k n b = Inr c \<and> ContractAddress k n b = Some c"
    using NativeAsset_valid constructors_valid(1) [of k]
    by (auto simp: SEP11SACAsset_def ContractAddress_def split: if_splits option.splits sum.splits)
qed

theorem SEP11SACAsset_exact_witness:
  "Asset_Validate alias_sdk sample_usdc = None \<and>
   SEP11SACAsset alias_sdk no_network (Code sample_usdc @ '':'' @ Issuer sample_usdc) (ContractID sample_sac) = Some sample_usdc"
proof -
  have v: "Asset_Validate alias_sdk sample_usdc = None" "SacContractID alias_sdk no_network sample_usdc = Inr (ContractID sample_sac)"
    by code_simp+
  have t: "Type sample_usdc = AssetClassic" by (simp add: sample_usdc_def zeroAsset_def)
  show ?thesis using SEP11SACAsset_exact [OF v(1), of no_network "ContractID sample_sac"] v t by simp
qed

section \<open>Properties of orientation\<close>

lemma Orient_cases:
  "a \<noteq> b \<Longrightarrow> Orient n a b = (if quoteRank n a < quoteRank n b \<or> quoteRank n a = quoteRank n b \<and> a < b
     then (a, b, False) else (b, a, True))"
  by (auto simp: Orient_def Let_def)

lemma Orient_swap:
  assumes "a \<noteq> (b :: string)"
  shows "Orient n b a = (fst (Orient n a b), fst (snd (Orient n a b)), \<not> snd (snd (Orient n a b)))"
  using assms by (auto simp: Orient_cases)

text \<open>
  Every market has one orientation: for two distinct assets both input orders give the same base and
  quote, marked flipped in exactly one of them; the quote never ranks below the base, so a fiat is the quote
  of anything that is not fiat; and orienting a pair keeps its market, is the same for the flipped pair and
  changes nothing the second time.
\<close>

theorem Orient_canonical:
  assumes "Asset_String (Base p) \<noteq> Asset_String (Quote p)"
  shows "(\<exists>base quote flipped.
      Orient n (Asset_String (Base p)) (Asset_String (Quote p)) = (base, quote, flipped) \<and>
      Orient n (Asset_String (Quote p)) (Asset_String (Base p)) = (base, quote, \<not> flipped) \<and>
      quoteRank n base \<le> quoteRank n quote \<and>
      (HasPrefix base ''fiat:'' \<longrightarrow> HasPrefix quote ''fiat:'') \<and>
      Pair_Canonical n p = (if flipped then Flip p else p, flipped)) \<and>
    EqualEitherWay p (fst (Pair_Canonical n p)) \<and>
    fst (Pair_Canonical n (Flip p)) = fst (Pair_Canonical n p) \<and>
    Pair_Canonical n (fst (Pair_Canonical n p)) = (fst (Pair_Canonical n p), False)"
proof -
  let ?a = "Asset_String (Base p)" and ?b = "Asset_String (Quote p)"
  obtain base qt fl where o: "Orient n ?a ?b = (base, qt, fl)" by (metis prod_cases3)
  then have o': "Orient n ?b ?a = (base, qt, \<not> fl)" using Orient_swap [OF assms, of n] by simp
  have r: "quoteRank n base \<le> quoteRank n qt" using o by (auto simp: Orient_cases [OF assms] split: if_splits)
  have "HasPrefix base ''fiat:'' \<longrightarrow> HasPrefix qt ''fiat:''"
    using r by (auto simp: quoteRank_def split: if_splits)
  moreover have c: "Pair_Canonical n p = (if fl then Flip p else p, fl)"
    using o by (simp add: Pair_Canonical_def Flip_def)
  moreover have c': "Pair_Canonical n (Flip p) = (if fl then Flip p else p, \<not> fl)"
    using o' by (simp add: Pair_Canonical_def Flip_def)
  ultimately show ?thesis using o o' r
    by (auto simp: EqualEitherWay_def Pair_Equal_def Flip_def Asset_Equal_iff)
qed

theorem Orient_canonical_witness:
  "Asset_String (Base sample_pair) \<noteq> Asset_String (Quote sample_pair) \<and>
   EqualEitherWay sample_pair (fst (Pair_Canonical no_network sample_pair))"
proof -
  have "Asset_String (Base sample_pair) \<noteq> Asset_String (Quote sample_pair)" by code_simp
  then show ?thesis using Orient_canonical [of sample_pair no_network] by blast
qed

end
