(* ===== verification/Stablecoin.thy ===== *)
theory Stablecoin
  imports Aliases
begin

text \<open>
  Stablecoin policy of the aggregator (internal/aggregate/stablecoin.go): the peg table, the rewriting of
  a stablecoin quote into its fiat, and the list of markets fetched for a target pair. The central property
  is that fetching and rewriting are inverse: a target's list is what the rewriting maps onto it.
\<close>

section \<open>stablecoin.go\<close>

definition stablecoinFiatProxy :: "(string \<times> string) list" where
  "stablecoinFiatProxy =
     [(''USDT'', ''USD''), (''USDC'', ''USD''), (''DAI'', ''USD''), (''PYUSD'', ''USD''), (''USDP'', ''USD''),
      (''EURC'', ''EUR''), (''EUROC'', ''EUR''), (''EUROB'', ''EUR''), (''MXNe'', ''MXN'')]"

definition FiatProxy :: "Asset \<Rightarrow> Asset option" where
  "FiatProxy a =
     (if Type a \<noteq> AssetCrypto then None
      else case map_of stablecoinFiatProxy (Code a) of
        None \<Rightarrow> None
      | Some fiat \<Rightarrow> (case NewFiatAsset fiat of Inl _ \<Rightarrow> None | Inr proxy \<Rightarrow> Some proxy))"

definition IsFiatProxyFor :: "Asset \<Rightarrow> string \<Rightarrow> bool" where
  "IsFiatProxyFor a fiatCode = (case FiatProxy a of None \<Rightarrow> False | Some proxy \<Rightarrow> Code proxy = fiatCode)"

definition ProxyPair :: "sdk \<Rightarrow> Pair \<Rightarrow> Pair option" where
  "ProxyPair k p =
     (case FiatProxy (Quote p) of
        None \<Rightarrow> None
      | Some proxy \<Rightarrow> (case NewPair k (Base p) proxy of Inl _ \<Rightarrow> None | Inr rewritten \<Rightarrow> Some rewritten))"

definition ProxyTrade :: "sdk \<Rightarrow> Trade \<Rightarrow> Trade \<times> bool" where
  "ProxyTrade k t =
     (case ProxyPair k (TPair t) of None \<Rightarrow> (t, False) | Some p \<Rightarrow> (t\<lparr>TPair := p\<rparr>, True))"

definition FiatBackers :: "string \<Rightarrow> string list" where
  "FiatBackers fiat = sort (map fst (filter (\<lambda>(stab, target). target = fiat) stablecoinFiatProxy))"

text \<open>The two loops that append the pairs that can be built.\<close>

fun backer_pairs :: "sdk \<Rightarrow> Asset \<Rightarrow> string list \<Rightarrow> Pair list" where
  "backer_pairs k base [] = []"
| "backer_pairs k base (ticker # ts) =
     (case NewCryptoAsset ticker of
        Inl _ \<Rightarrow> backer_pairs k base ts
      | Inr stab \<Rightarrow>
          (case NewPair k base stab of
             Inl _ \<Rightarrow> backer_pairs k base ts
           | Inr src \<Rightarrow> src # backer_pairs k base ts))"

fun peg_pairs :: "sdk \<Rightarrow> Asset \<Rightarrow> Asset list \<Rightarrow> Pair list" where
  "peg_pairs k base [] = []"
| "peg_pairs k base (classic # ps) =
     (if Type classic \<noteq> AssetClassic then peg_pairs k base ps
      else case NewPair k base classic of
        Inl _ \<Rightarrow> peg_pairs k base ps
      | Inr src \<Rightarrow> src # peg_pairs k base ps)"

definition ExpandTargetPairWithClassicPegs :: "sdk \<Rightarrow> Pair \<Rightarrow> Asset list \<Rightarrow> error + Pair list" where
  "ExpandTargetPairWithClassicPegs k target classicUSDPegs =
     (case Pair_Validate k target of
        Some e \<Rightarrow> Inl e
      | None \<Rightarrow>
          if Type (Quote target) \<noteq> AssetFiat then Inr [target]
          else Inr (target # backer_pairs k (Base target) (FiatBackers (Code (Quote target))) @
                 (if Code (Quote target) = ''USD'' then peg_pairs k (Base target) classicUSDPegs else [])))"

definition ExpandTargetPair :: "sdk \<Rightarrow> Pair \<Rightarrow> error + Pair list" where
  "ExpandTargetPair k target = ExpandTargetPairWithClassicPegs k target []"

section \<open>The peg table\<close>

lemma proxy_table_sound:
  "list_all (\<lambda>(s, f). IsKnownCrypto s \<and> IsKnownFiat f \<and> f \<noteq> []) stablecoinFiatProxy"
  "distinct (map fst stablecoinFiatProxy)"
  "set (map fst stablecoinFiatProxy) = set StablecoinCodes"
  by code_simp+

lemma proxy_entry:
  assumes "map_of stablecoinFiatProxy s = Some f"
  shows "IsKnownCrypto s" "IsKnownFiat f"
  using proxy_table_sound(1) map_of_SomeD [OF assms] by (auto simp: list_all_iff)

definition fiat_asset :: "string \<Rightarrow> Asset" where
  "fiat_asset c = zeroAsset\<lparr>Type := AssetFiat, Code := c\<rparr>"

definition crypto_asset :: "string \<Rightarrow> Asset" where
  "crypto_asset c = zeroAsset\<lparr>Type := AssetCrypto, Code := c\<rparr>"

lemma FiatProxy_eq:
  "FiatProxy a = (if Type a = AssetCrypto then map_option fiat_asset (map_of stablecoinFiatProxy (Code a)) else None)"
  by (auto simp: FiatProxy_def NewFiatAsset_def fiat_asset_def dest: proxy_entry split: option.splits)

lemma NewCryptoAsset_eq: "IsKnownCrypto c \<Longrightarrow> NewCryptoAsset c = Inr (crypto_asset c)"
  by (simp add: NewCryptoAsset_def crypto_asset_def)

lemma NewPair_Inr: "NewPair k b q = Inr p \<longleftrightarrow> p = \<lparr>Base = b, Quote = q\<rparr> \<and> Pair_Validate k p = None"
  by (auto simp: NewPair_def Let_def split: option.splits)

lemma valid_crypto:
  assumes "Asset_Validate k a = None" "Type a = AssetCrypto"
  shows "a = crypto_asset (Code a)"
  using assms by (auto simp: Asset_Validate_def crypto_asset_def zeroAsset_def split: if_splits intro: Asset.equality)

lemma valid_fiat:
  assumes "Asset_Validate k a = None" "Type a = AssetFiat"
  shows "a = fiat_asset (Code a)"
  using assms by (auto simp: Asset_Validate_def fiat_asset_def zeroAsset_def split: if_splits intro: Asset.equality)

lemma FiatBackers_mem: "s \<in> set (FiatBackers f) \<longleftrightarrow> map_of stablecoinFiatProxy s = Some f"
  using proxy_table_sound(2) by (auto simp: FiatBackers_def image_iff map_of_eq_Some_iff)

lemma backer_pairs_mem:
  assumes "list_all IsKnownCrypto ts"
  shows "set (backer_pairs k b ts) = {p. \<exists>s \<in> set ts. p = \<lparr>Base = b, Quote = crypto_asset s\<rparr> \<and> Pair_Validate k p = None}"
  using assms
proof (induction ts)
  case (Cons t ts)
  then show ?case
    by (cases "NewPair k b (crypto_asset t)")
      (auto simp: NewCryptoAsset_eq NewPair_Inr NewPair_def Let_def split: option.splits)
qed simp

lemma peg_pairs_mem:
  "set (peg_pairs k b ps) = {p. \<exists>c \<in> set ps. Type c = AssetClassic \<and> p = \<lparr>Base = b, Quote = c\<rparr> \<and> Pair_Validate k p = None}"
proof (induction ps)
  case (Cons c ps)
  then show ?case
    by (cases "NewPair k b c") (auto simp: NewPair_Inr NewPair_def Let_def split: option.splits)
qed simp

lemma backers_known: "list_all IsKnownCrypto (FiatBackers f)"
  using FiatBackers_mem proxy_entry(1) by (auto simp: list_all_iff)

lemma crypto_asset_inject: "crypto_asset s = crypto_asset t \<longleftrightarrow> s = t"
  by (auto simp: crypto_asset_def dest: arg_cong [of _ _ Code])

lemma distinct_backer_pairs: "distinct ts \<Longrightarrow> list_all IsKnownCrypto ts \<Longrightarrow> distinct (backer_pairs k b ts)"
proof (induction ts)
  case (Cons t ts)
  then have "\<lparr>Base = b, Quote = crypto_asset t\<rparr> \<notin> set (backer_pairs k b ts)"
    using backer_pairs_mem [of ts k b] by (auto simp: crypto_asset_inject)
  then show ?case using Cons
    by (auto simp: NewCryptoAsset_eq NewPair_def Let_def split: option.splits)
qed simp

lemma distinct_peg_pairs: "distinct ps \<Longrightarrow> distinct (peg_pairs k b ps)"
proof (induction ps)
  case (Cons c ps)
  then show ?case using peg_pairs_mem [of k b ps]
    by (auto simp: NewPair_def Let_def split: option.splits)
qed simp

lemma distinct_FiatBackers: "distinct (FiatBackers f)"
proof -
  have "distinct (map fst (filter P stablecoinFiatProxy))" for P
    using proxy_table_sound(2) by (rule distinct_map_filter)
  then show ?thesis by (simp add: FiatBackers_def)
qed

section \<open>Properties\<close>

text \<open>
  Fetching and rewriting are inverse: for a valid target the list fetched starts with the target, has
  no market twice, and holds exactly the target, the valid markets that \<open>ProxyPair\<close> rewrites into it, and,
  for a USD target, the valid markets quoted in a declared classic peg. A malformed target is the only
  error, and a rewritten market is never itself rewritten.
\<close>

theorem ExpandTargetPair_inverse:
  assumes "distinct pegs"
  shows "(Pair_Validate k target = None \<longrightarrow>
     (\<exists>rest. ExpandTargetPairWithClassicPegs k target pegs = Inr (target # rest) \<and> distinct (target # rest) \<and>
        set (target # rest) = {p. Pair_Validate k p = None \<and>
          (p = target \<or> ProxyPair k p = Some target \<or>
           Base p = Base target \<and> Quote target = fiat_asset ''USD'' \<and>
           Quote p \<in> set pegs \<and> Type (Quote p) = AssetClassic)})) \<and>
    (Pair_Validate k target \<noteq> None \<longrightarrow> (\<exists>e. ExpandTargetPairWithClassicPegs k target pegs = Inl e)) \<and>
    (\<forall>p q. ProxyPair k p = Some q \<longrightarrow> Base q = Base p \<and> Pair_Validate k q = None \<and> ProxyPair k q = None)"
proof (intro conjI impI allI)
  assume v: "Pair_Validate k target = None"
  have tv: "Asset_Validate k (Quote target) = None" using v by (simp add: Pair_Validate_None)
  have proxied: "ProxyPair k p = Some target \<longleftrightarrow> Type (Quote p) = AssetCrypto \<and> Base p = Base target \<and>
      map_option fiat_asset (map_of stablecoinFiatProxy (Code (Quote p))) = Some (Quote target)" for p
    using v
    by (auto simp: ProxyPair_def FiatProxy_eq NewPair_def Let_def Pair_eta split: option.splits sum.splits)
  show "\<exists>rest. ExpandTargetPairWithClassicPegs k target pegs = Inr (target # rest) \<and> distinct (target # rest) \<and>
        set (target # rest) = {p. Pair_Validate k p = None \<and>
          (p = target \<or> ProxyPair k p = Some target \<or>
           Base p = Base target \<and> Quote target = fiat_asset ''USD'' \<and>
           Quote p \<in> set pegs \<and> Type (Quote p) = AssetClassic)}"
  proof (cases "Type (Quote target) = AssetFiat")
    case False
    then have "Quote target \<noteq> fiat_asset c" for c by (auto simp: fiat_asset_def)
    then have "Quote target \<noteq> fiat_asset c" "fiat_asset c \<noteq> Quote target" for c by metis+
    then show ?thesis using False v
      by (auto simp: ExpandTargetPairWithClassicPegs_def proxied)
  next
    case True
    note q = valid_fiat [OF tv True]
    let ?f = "Code (Quote target)"
    let ?bs = "backer_pairs k (Base target) (FiatBackers ?f)"
    let ?ps = "if ?f = ''USD'' then peg_pairs k (Base target) pegs else []"
    have inj: "fiat_asset c = Quote target \<longleftrightarrow> c = ?f" for c
      using q by (metis fiat_asset_def Asset.select_convs(2) Asset.update_convs(2) Asset.surjective)
    have bs: "set ?bs = {p. Pair_Validate k p = None \<and> ProxyPair k p = Some target}"
    proof (intro set_eqI iffI)
      fix p assume "p \<in> set ?bs"
      then obtain s where "map_of stablecoinFiatProxy s = Some ?f" "p = \<lparr>Base = Base target, Quote = crypto_asset s\<rparr>"
        "Pair_Validate k p = None"
        unfolding backer_pairs_mem [OF backers_known] using FiatBackers_mem by blast
      then show "p \<in> {p. Pair_Validate k p = None \<and> ProxyPair k p = Some target}"
        by (simp add: proxied inj) (simp add: crypto_asset_def)
    next
      fix p assume p: "p \<in> {p. Pair_Validate k p = None \<and> ProxyPair k p = Some target}"
      then have "Quote p = crypto_asset (Code (Quote p))"
        by (intro valid_crypto [of k]) (simp_all add: Pair_Validate_None proxied)
      then have "p = \<lparr>Base = Base target, Quote = crypto_asset (Code (Quote p))\<rparr>"
        using p Pair_eta [of p] by (simp add: proxied)
      moreover have "map_of stablecoinFiatProxy (Code (Quote p)) = Some ?f" using p by (auto simp: proxied inj)
      ultimately show "p \<in> set ?bs" unfolding backer_pairs_mem [OF backers_known] using p FiatBackers_mem by blast
    qed
    have ps: "set ?ps = {p. Pair_Validate k p = None \<and> Base p = Base target \<and> Quote target = fiat_asset ''USD'' \<and>
           Quote p \<in> set pegs \<and> Type (Quote p) = AssetClassic}"
      using inj [of "''USD''"] by (auto simp: peg_pairs_mem)
    have types: "p \<in> set ?bs \<Longrightarrow> Type (Quote p) = AssetCrypto" "p \<in> set ?ps \<Longrightarrow> Type (Quote p) = AssetClassic" for p
      unfolding bs ps by (auto simp: proxied)
    have "set ?bs \<inter> set ?ps = {}" "target \<notin> set ?bs \<union> set ?ps" using types True by fastforce+
    then have "distinct (target # ?bs @ ?ps)"
      using distinct_backer_pairs [OF distinct_FiatBackers backers_known]
        distinct_peg_pairs [OF assms] by auto
    moreover have "ExpandTargetPairWithClassicPegs k target pegs = Inr (target # ?bs @ ?ps)"
      using v True by (simp add: ExpandTargetPairWithClassicPegs_def)
    moreover have "set (target # ?bs @ ?ps) = {p. Pair_Validate k p = None \<and>
          (p = target \<or> ProxyPair k p = Some target \<or>
           Base p = Base target \<and> Quote target = fiat_asset ''USD'' \<and>
           Quote p \<in> set pegs \<and> Type (Quote p) = AssetClassic)}"
      using v by (simp only: set_append list.set bs ps) auto
    ultimately show ?thesis by blast
  qed
next
  show "Pair_Validate k target \<noteq> None \<Longrightarrow> \<exists>e. ExpandTargetPairWithClassicPegs k target pegs = Inl e"
    by (auto simp: ExpandTargetPairWithClassicPegs_def)
next
  fix p q assume p: "ProxyPair k p = Some q"
  then obtain f where "NewPair k (Base p) (fiat_asset f) = Inr q"
    by (auto simp: ProxyPair_def FiatProxy_eq split: option.splits sum.splits if_splits)
  then have "q = \<lparr>Base = Base p, Quote = fiat_asset f\<rparr>" "Pair_Validate k q = None" unfolding NewPair_Inr by blast+
  then show "Base q = Base p" "Pair_Validate k q = None" "ProxyPair k q = None"
    by (simp_all add: ProxyPair_def FiatProxy_eq fiat_asset_def)
qed

definition xlm_usd :: Pair where
  "xlm_usd = \<lparr>Base = NativeAsset, Quote = fiat_asset ''USD''\<rparr>"

theorem ExpandTargetPair_inverse_witness:
  "Pair_Validate sample_sdk xlm_usd = None \<and>
   (\<exists>rest. ExpandTargetPairWithClassicPegs sample_sdk xlm_usd [sample_usdc] = Inr (xlm_usd # rest) \<and>
      \<lparr>Base = NativeAsset, Quote = sample_usdc\<rparr> \<in> set (xlm_usd # rest))"
proof -
  have v: "Pair_Validate sample_sdk xlm_usd = None" by code_simp
  have d: "distinct [sample_usdc]" by simp
  have p: "Pair_Validate sample_sdk \<lparr>Base = NativeAsset, Quote = sample_usdc\<rparr> = None"
    using sample_pair_valid by (simp add: sample_pair_def)
  have "Type sample_usdc = AssetClassic" by (simp add: sample_usdc_def zeroAsset_def)
  then have mem: "\<lparr>Base = NativeAsset, Quote = sample_usdc\<rparr> \<in> {p. Pair_Validate sample_sdk p = None \<and>
     (p = xlm_usd \<or> ProxyPair sample_sdk p = Some xlm_usd \<or> Base p = Base xlm_usd \<and>
      Quote xlm_usd = fiat_asset ''USD'' \<and> Quote p \<in> set [sample_usdc] \<and> Type (Quote p) = AssetClassic)}"
    using p by (simp add: xlm_usd_def)
  from ExpandTargetPair_inverse [OF d, of sample_sdk xlm_usd, THEN conjunct1, THEN mp, OF v] obtain rest where
    e: "ExpandTargetPairWithClassicPegs sample_sdk xlm_usd [sample_usdc] = Inr (xlm_usd # rest)"
    and s: "set (xlm_usd # rest) = {p. Pair_Validate sample_sdk p = None \<and>
     (p = xlm_usd \<or> ProxyPair sample_sdk p = Some xlm_usd \<or> Base p = Base xlm_usd \<and>
      Quote xlm_usd = fiat_asset ''USD'' \<and> Quote p \<in> set [sample_usdc] \<and> Type (Quote p) = AssetClassic)}"
    by (elim exE conjE)
  show ?thesis using v e mem [folded s] by (intro conjI exI [of _ rest])
qed

end
