(* ===== verification/GlobalPrice.thy ===== *)
theory GlobalPrice
  imports Aliases PriceWindow RobustStat
begin

text \<open>
  The global price of an asset (internal/aggregate/global.go): the fallback chain from the closed-bucket
  VWAP through the aggregator average and the triangulated price to a stale VWAP, the consensus filter of
  the aggregator tier, and the one rounding of its average.

  The storage seam is a record of functions, whose errors are opaque. The clock is read once per alias in
  the first two tiers; each tier gets the readings by the position of the alias. The context is not modelled.
\<close>

section \<open>global.go: data\<close>

datatype PriceAuthority = AuthorityVWAPNative | AuthorityAggregatorAvg | AuthorityTriangulated
  | AuthorityReferenceRate | AuthorityIdentity | AuthorityOnChainListing

record GlobalPriceResult =
  g_Price :: string
  g_Authority :: PriceAuthority
  g_Sources :: "string list"
  g_AsOf :: gotime
  g_TradeCount :: int

record 'e GlobalPriceReader =
  LatestVWAP :: "Asset \<Rightarrow> Asset \<Rightarrow> 'e + string \<times> gotime \<times> int \<times> string list \<times> bool"
  LatestAggregatorPrices :: "Asset \<Rightarrow> Asset \<Rightarrow> string list \<Rightarrow> 'e + OracleUpdate list"
  LookupTriangulated :: "Asset \<Rightarrow> Asset \<Rightarrow> duration \<Rightarrow> 'e + string \<times> gotime \<times> bool"

record GlobalPriceOptions =
  VWAPMinTradeCount :: int
  AggregatorSources :: "string list"
  TriangulationWindow :: duration
  MaxAggregatorAge :: duration
  MaxVWAPAge :: duration

definition DefaultGlobalPriceOptions :: GlobalPriceOptions where
  "DefaultGlobalPriceOptions =
     \<lparr>VWAPMinTradeCount = 5, AggregatorSources = [], TriangulationWindow = 5 * go_minute,
      MaxAggregatorAge = 10 * go_minute, MaxVWAPAge = 10 * go_minute\<rparr>"

datatype 'e global_error = ErrNoPrice | NilReader | ReaderError 'e

section \<open>The aggregator tier\<close>

definition filterFreshAggregatorRows :: "OracleUpdate list \<Rightarrow> duration \<Rightarrow> gotime \<Rightarrow> OracleUpdate list" where
  "filterFreshAggregatorRows rows maxAge now =
     (if maxAge \<le> 0 then rows
      else let cutoff = now - maxAge in filter (\<lambda>u. cutoff < u_Timestamp u) rows)"

definition aggregatorCommonDecimals :: int where
  "aggregatorCommonDecimals = 14"

definition aggregatorMinForOutlierReject :: nat where
  "aggregatorMinForOutlierReject = 3"

definition aggregatorMADFactor :: rat where
  "aggregatorMADFactor = 5"

definition pow10 :: "int \<Rightarrow> int" where
  "pow10 n = 10 ^ nat n"

definition scaledAggregatorRat :: "OracleUpdate \<Rightarrow> rat option" where
  "scaledAggregatorRat u =
     (let bi = BigInt (u_Price u) in
      if bi \<le> 0 then None
      else let diff = aggregatorCommonDecimals - uint (u_Decimals u)
           in Some (of_int (if 0 < diff then bi * pow10 diff
                            else if diff < 0 then go_quo bi (pow10 (- diff)) else bi)))"

text \<open>The collecting loop keeps each usable value with its row.\<close>

fun usable_rows :: "OracleUpdate list \<Rightarrow> (OracleUpdate \<times> rat) list" where
  "usable_rows [] = []"
| "usable_rows (u # us) =
     (case scaledAggregatorRat u of None \<Rightarrow> usable_rows us | Some v \<Rightarrow> (u, v) # usable_rows us)"

definition rejectAggregatorOutliers :: "OracleUpdate list \<Rightarrow> OracleUpdate list" where
  "rejectAggregatorOutliers rows =
     (if length rows < aggregatorMinForOutlierReject then rows
      else let vals = usable_rows rows in
        if length vals < aggregatorMinForOutlierReject then rows
        else case CentreScale (map snd vals) of
          None \<Rightarrow> rows
        | Some (centre, scale) \<Rightarrow>
            let half = aggregatorMADFactor * scale;
                kept = map fst (filter (\<lambda>(u, v).
                  case SymmetricDev (Some v) (Some centre) of None \<Rightarrow> False | Some dev \<Rightarrow> \<not> half < dev) vals)
            in if kept = [] then rows else kept)"

text \<open>The padding loop of the fractional part, and the rendering.\<close>

function pad_zeros :: "nat \<Rightarrow> string \<Rightarrow> string" where
  "pad_zeros decimals s = (if length s < decimals then pad_zeros decimals (CHR ''0'' # s) else s)"
  by pat_completeness auto
termination by (relation "measure (\<lambda>(decimals, s). decimals - length s)") auto

declare pad_zeros.simps [simp del]

definition formatScaledDecimal :: "int \<Rightarrow> int \<Rightarrow> nat \<Rightarrow> string" where
  "formatScaledDecimal avg p decimals =
     (let intPart = go_quo avg p; frac = go_rem avg p;
          frac = (if frac < 0 then - frac else frac)
      in int_String intPart @ ''.'' @ pad_zeros decimals (int_String frac))"

text \<open>The accumulating loop of the average: sum, latest observation, number of contributors.\<close>

fun average_loop :: "OracleUpdate list \<Rightarrow> rat \<Rightarrow> gotime \<Rightarrow> nat \<Rightarrow> rat \<times> gotime \<times> nat" where
  "average_loop [] acc latest contributed = (acc, latest, contributed)"
| "average_loop (u # us) acc latest contributed =
     (if BigInt (u_Price u) \<le> 0 then average_loop us acc latest contributed
      else average_loop us (acc + SetFrac (BigInt (u_Price u)) (pow10 (uint (u_Decimals u))))
             (if latest < u_Timestamp u then u_Timestamp u else latest) (contributed + 1))"

definition averageAggregatorPrices :: "OracleUpdate list \<Rightarrow> (string \<times> gotime) option" where
  "averageAggregatorPrices rows =
     (if rows = [] then None
      else let target = 10 ^ 14 in
        case average_loop rows 0 0 0 of (acc, latest, contributed) \<Rightarrow>
          if contributed = 0 then None
          else case quotient_of (acc * SetFrac target (int contributed)) of (num, denom) \<Rightarrow>
            let avgScaled = go_quo (2 * num + denom) (2 * denom) in
            if avgScaled \<le> 0 then None
            else Some (formatScaledDecimal avgScaled target 14, latest))"

section \<open>The three tiers\<close>

fun vwap_loop ::
  "'e GlobalPriceReader \<Rightarrow> GlobalPriceOptions \<Rightarrow> Asset \<Rightarrow> (nat \<Rightarrow> gotime) \<Rightarrow> nat \<Rightarrow> Asset list \<Rightarrow>
   GlobalPriceResult option \<Rightarrow> 'e global_error + GlobalPriceResult option \<times> GlobalPriceResult option" where
  "vwap_loop reader opts quote clock i [] stale = Inr (None, stale)"
| "vwap_loop reader opts quote clock i (b # bs) stale =
     (case LatestVWAP reader b quote of
        Inl e \<Rightarrow> Inl (ReaderError e)
      | Inr (vwap, asOf, tradeCount, sources, ok) \<Rightarrow>
          if \<not> ok \<or> tradeCount < VWAPMinTradeCount opts
          then vwap_loop reader opts quote clock (i + 1) bs stale
          else let res = \<lparr>g_Price = vwap, g_Authority = AuthorityVWAPNative, g_Sources = sources,
                          g_AsOf = asOf, g_TradeCount = tradeCount\<rparr>
            in if MaxVWAPAge opts \<le> 0 \<or> clock i - MaxVWAPAge opts < asOf then Inr (Some res, None)
               else vwap_loop reader opts quote clock (i + 1) bs (if stale = None then Some res else stale))"

definition tryVWAPTier ::
  "network \<Rightarrow> (nat \<Rightarrow> gotime) \<Rightarrow> Asset \<Rightarrow> Asset \<Rightarrow> 'e GlobalPriceReader \<Rightarrow> GlobalPriceOptions \<Rightarrow>
   'e global_error + GlobalPriceResult option \<times> GlobalPriceResult option" where
  "tryVWAPTier n clock base quote reader opts =
     vwap_loop reader opts quote clock 0 (AssetAliases n base) None"

fun aggregator_loop ::
  "'e GlobalPriceReader \<Rightarrow> GlobalPriceOptions \<Rightarrow> Asset \<Rightarrow> (nat \<Rightarrow> gotime) \<Rightarrow> nat \<Rightarrow> Asset list \<Rightarrow>
   'e global_error + GlobalPriceResult option" where
  "aggregator_loop reader opts quote clock i [] = Inr None"
| "aggregator_loop reader opts quote clock i (b # bs) =
     (case LatestAggregatorPrices reader b quote (AggregatorSources opts) of
        Inl e \<Rightarrow> Inl (ReaderError e)
      | Inr rows \<Rightarrow>
          if rows = [] then aggregator_loop reader opts quote clock (i + 1) bs
          else let fresh = filterFreshAggregatorRows rows (MaxAggregatorAge opts) (clock i) in
            if fresh = [] then aggregator_loop reader opts quote clock (i + 1) bs
            else let kept = rejectAggregatorOutliers fresh in
              (case averageAggregatorPrices kept of
                 None \<Rightarrow> aggregator_loop reader opts quote clock (i + 1) bs
               | Some (avgPrice, latest) \<Rightarrow>
                   Inr (Some \<lparr>g_Price = avgPrice, g_Authority = AuthorityAggregatorAvg,
                     g_Sources = map u_Source kept, g_AsOf = latest, g_TradeCount = 0\<rparr>)))"

definition tryAggregatorTier ::
  "network \<Rightarrow> (nat \<Rightarrow> gotime) \<Rightarrow> Asset \<Rightarrow> Asset \<Rightarrow> 'e GlobalPriceReader \<Rightarrow> GlobalPriceOptions \<Rightarrow>
   'e global_error + GlobalPriceResult option" where
  "tryAggregatorTier n clock base quote reader opts =
     (if AggregatorSources opts = [] then Inr None
      else aggregator_loop reader opts quote clock 0 (AssetAliases n base))"

fun triangulated_loop ::
  "'e GlobalPriceReader \<Rightarrow> GlobalPriceOptions \<Rightarrow> Asset \<Rightarrow> Asset list \<Rightarrow> 'e global_error + GlobalPriceResult option" where
  "triangulated_loop reader opts quote [] = Inr None"
| "triangulated_loop reader opts quote (b # bs) =
     (case LookupTriangulated reader b quote (TriangulationWindow opts) of
        Inl e \<Rightarrow> Inl (ReaderError e)
      | Inr (price, asOf, ok) \<Rightarrow>
          if \<not> ok then triangulated_loop reader opts quote bs
          else Inr (Some \<lparr>g_Price = price, g_Authority = AuthorityTriangulated, g_Sources = [], g_AsOf = asOf,
                          g_TradeCount = 0\<rparr>))"

definition tryTriangulatedTier ::
  "network \<Rightarrow> Asset \<Rightarrow> Asset \<Rightarrow> 'e GlobalPriceReader \<Rightarrow> GlobalPriceOptions \<Rightarrow> 'e global_error + GlobalPriceResult option" where
  "tryTriangulatedTier n base quote reader opts =
     triangulated_loop reader opts quote (AssetAliases n base)"

definition ComputeGlobalPrice ::
  "network \<Rightarrow> (nat \<Rightarrow> gotime) \<Rightarrow> (nat \<Rightarrow> gotime) \<Rightarrow> Asset \<Rightarrow> Asset \<Rightarrow> 'e GlobalPriceReader option \<Rightarrow>
   GlobalPriceOptions \<Rightarrow> 'e global_error + GlobalPriceResult" where
  "ComputeGlobalPrice n clock1 clock2 base quote reader opts =
     (case reader of
        None \<Rightarrow> Inl NilReader
      | Some rd \<Rightarrow>
          (case tryVWAPTier n clock1 base quote rd opts of
             Inl e \<Rightarrow> Inl e
           | Inr (Some res, _) \<Rightarrow> Inr res
           | Inr (None, stale) \<Rightarrow>
               (case tryAggregatorTier n clock2 base quote rd opts of
                  Inl e \<Rightarrow> Inl e
                | Inr (Some res) \<Rightarrow> Inr res
                | Inr None \<Rightarrow>
                    (case tryTriangulatedTier n base quote rd opts of
                       Inl e \<Rightarrow> Inl e
                     | Inr (Some res) \<Rightarrow> Inr res
                     | Inr None \<Rightarrow> (case stale of Some res \<Rightarrow> Inr res | None \<Rightarrow> Inl ErrNoPrice)))))"

section \<open>The consensus filter\<close>

lemma CentreScale_parts:
  assumes "CentreScale vals = Some (c, sc)"
  obtains d where "Median vals = Some c" "MAD vals c = Some d" "0 \<le> d"
    "sc = (if d = 0 then \<bar>zeroScaleRelFloor * c\<bar> else madToStd * d)"
proof -
  obtain d where "Median vals = Some c" "MAD vals c = Some d"
    "sc = (if madToStd * d = 0 \<and> 0 < \<bar>zeroScaleRelFloor * c\<bar> then \<bar>zeroScaleRelFloor * c\<bar> else madToStd * d)"
    using assms by (auto simp: CentreScale_def WeightedCentreScale_def WeightedMedian_def MAD_def Let_def
        split: if_splits option.splits)
  then show ?thesis using that MAD_nonneg by (auto simp: madToStd_def zeroScaleRelFloor_def)
qed

definition row_value :: "OracleUpdate \<Rightarrow> rat" where
  "row_value u = (case scaledAggregatorRat u of Some v \<Rightarrow> v | None \<Rightarrow> 0)"

lemma usable_rows_eq:
  "usable_rows rows = map (\<lambda>u. (u, row_value u)) (filter (\<lambda>u. scaledAggregatorRat u \<noteq> None) rows)"
  by (induction rows) (auto simp: row_value_def split: option.splits)

lemma row_value_nonneg: "0 \<le> row_value u"
  by (auto simp: row_value_def scaledAggregatorRat_def Let_def pow10_def go_quo_nonneg pos_imp_zdiv_nonneg_iff
      split: option.splits if_splits)

text \<open>The acceptance band of a set of rows.\<close>

definition consensus_band :: "OracleUpdate list \<Rightarrow> OracleUpdate \<Rightarrow> bool" where
  "consensus_band us u \<longleftrightarrow>
     (case CentreScale (map row_value us) of
        None \<Rightarrow> True
      | Some (c, sc) \<Rightarrow>
          (case SymmetricDev (Some (row_value u)) (Some c) of None \<Rightarrow> False | Some dev \<Rightarrow> dev \<le> 5 * sc))"

lemma consensus_nonempty:
  assumes "us \<noteq> []" "\<And>u. u \<in> set us \<Longrightarrow> 0 \<le> row_value u"
  shows "\<exists>u \<in> set us. consensus_band us u"
proof -
  obtain c sc where cs: "CentreScale (map row_value us) = Some (c, sc)"
    using assms(1) CentreScale_exists [of "map row_value us"] by auto
  then obtain d where m: "Median (map row_value us) = Some c" "MAD (map row_value us) c = Some d" "0 \<le> d"
    "sc = (if d = 0 then \<bar>zeroScaleRelFloor * c\<bar> else madToStd * d)" by (rule CentreScale_parts)
  obtain v where v: "v \<in> set (map row_value us)" "c \<le> v" "v - c \<le> d" by (rule Median_near_member [OF m(1,2)])
  then obtain u where u: "u \<in> set us" "row_value u = v" by auto
  have "d \<le> 5 * sc" using m(3,4) by (auto simp: madToStd_def)
  then have "consensus_band us u" using v(2,3) u(2) by (simp add: consensus_band_def cs SymmetricDev_def)
  then show ?thesis using u(1) by blast
qed

lemma rejectAggregatorOutliers_eq:
  fixes rows :: "OracleUpdate list"
  defines "us \<equiv> filter (\<lambda>u. scaledAggregatorRat u \<noteq> None) rows"
  shows "rejectAggregatorOutliers rows = (if length us < 3 then rows else filter (consensus_band us) us)"
proof (cases "length us < 3")
  case True
  then show ?thesis by (simp add: rejectAggregatorOutliers_def usable_rows_eq us_def aggregatorMinForOutlierReject_def)
next
  case False
  then obtain c sc where cs: "CentreScale (map row_value us) = Some (c, sc)"
    using CentreScale_exists [of "map row_value us"] by force
  have band: "consensus_band us u \<longleftrightarrow>
      (case SymmetricDev (Some (row_value u)) (Some c) of None \<Rightarrow> False | Some dev \<Rightarrow> \<not> aggregatorMADFactor * sc < dev)" for u
    by (simp add: consensus_band_def cs aggregatorMADFactor_def not_less cong: option.case_cong)
  have "map fst (filter (\<lambda>(u, v). case SymmetricDev (Some v) (Some c) of None \<Rightarrow> False
      | Some dev \<Rightarrow> \<not> aggregatorMADFactor * sc < dev) (usable_rows rows)) = filter (consensus_band us) us"
    unfolding band by (simp add: usable_rows_eq us_def filter_map o_def conj_commute)
  moreover have "filter (consensus_band us) us \<noteq> []"
    using consensus_nonempty [of us] row_value_nonneg False by (force simp: filter_empty_conv)
  moreover have "map snd (usable_rows rows) = map row_value us" by (simp add: usable_rows_eq us_def o_def)
  moreover have "length (usable_rows rows) = length us" by (simp add: usable_rows_eq us_def)
  moreover have "\<not> length rows < 3" using False length_filter_le [of "\<lambda>u. scaledAggregatorRat u \<noteq> None" rows]
    unfolding us_def by linarith
  ultimately show ?thesis using False cs
    by (simp add: rejectAggregatorOutliers_def aggregatorMinForOutlierReject_def Let_def) (metis list.simps(8))
qed

text \<open>
  The consensus filter of the aggregator tier never empties a non-empty set, so its fallback for an
  empty result is not needed; it returns some of the rows in order. With three or more usable prices of
  which a strict majority lies in [a, b] (0 < a), every row it keeps is at most
  \<open>b + 5 * max (1.4826 * (b - a)) (b / 200)\<close>: no minority of bad prints, however extreme, reaches the average.
\<close>

theorem rejectAggregatorOutliers_bounds:
  fixes rows :: "OracleUpdate list"
  defines "us \<equiv> filter (\<lambda>u. scaledAggregatorRat u \<noteq> None) rows"
  assumes "3 \<le> length us" "0 < a"
    "length us < 2 * length (filter (\<lambda>u. a \<le> row_value u \<and> row_value u \<le> b) us)"
  shows "subseq (rejectAggregatorOutliers rows) rows \<and> rejectAggregatorOutliers rows \<noteq> [] \<and>
    (\<forall>u \<in> set (rejectAggregatorOutliers rows). row_value u \<le> b + 5 * max (madToStd * (b - a)) (b / 200))"
proof -
  have eq: "rejectAggregatorOutliers rows = filter (consensus_band us) us"
    using assms(2) rejectAggregatorOutliers_eq [of rows] by (simp add: us_def)
  have ne: "rejectAggregatorOutliers rows \<noteq> []"
    using consensus_nonempty [of us] row_value_nonneg assms(2) unfolding eq by (force simp: filter_empty_conv)
  have sub: "subseq (rejectAggregatorOutliers rows) rows"
    unfolding eq us_def filter_filter by (rule subseq_filter_of_list)
  have maj: "length (map row_value us) < 2 * length (filter (\<lambda>v. a \<le> v \<and> v \<le> b) (map row_value us))"
    using assms(4) by (simp add: filter_map o_def)
  have "row_value u \<le> b + 5 * max (madToStd * (b - a)) (b / 200)" if "u \<in> set (rejectAggregatorOutliers rows)" for u
  proof -
    obtain c sc where cs: "CentreScale (map row_value us) = Some (c, sc)"
      using assms(2) CentreScale_exists [of "map row_value us"] by force
    then obtain d where m: "Median (map row_value us) = Some c" "MAD (map row_value us) c = Some d" "0 \<le> d"
      "sc = (if d = 0 then \<bar>zeroScaleRelFloor * c\<bar> else madToStd * d)" by (rule CentreScale_parts)
    have c: "a \<le> c \<and> c \<le> b" by (rule median.stat_majority [OF m(1) maj])
    have imp: "length (filter (\<lambda>u. a \<le> row_value u \<and> row_value u \<le> b) us)
        \<le> length (filter (\<lambda>u. 0 \<le> \<bar>row_value u - c\<bar> \<and> \<bar>row_value u - c\<bar> \<le> b - a) us)"
      by (rule length_filter_mono) (use c in auto)
    have "0 \<le> d \<and> d \<le> b - a"
      by (rule median.stat_majority [OF m(2) [unfolded MAD_def]]) (use imp assms(4) in \<open>simp add: filter_map o_def\<close>)
    then have "sc \<le> max (madToStd * (b - a)) (b / 200)"
      using m(4) c assms(3) by (auto simp: madToStd_def zeroScaleRelFloor_def max_def abs_if)
    moreover have "consensus_band us u" using that by (simp add: eq)
    then have "row_value u \<le> c + 5 * sc \<or> row_value u \<le> c"
      by (auto simp: consensus_band_def cs SymmetricDev_def split: if_splits)
    moreover have "0 \<le> sc" using m(3,4) by (auto simp: madToStd_def)
    ultimately show ?thesis using c by linarith
  qed
  then show ?thesis using sub ne by blast
qed

section \<open>The average and its text\<close>

text \<open>The number a plain decimal with a point stands for.\<close>

definition decimal_value :: "string \<Rightarrow> rat option" where
  "decimal_value s =
     (case LastIndex s (CHR ''.'') of
        None \<Rightarrow> None
      | Some i \<Rightarrow>
          (case (parse_nat (take i s), parse_nat (drop (Suc i) s)) of
             (Some w, Some f) \<Rightarrow> Some (of_nat w + of_nat f / 10 ^ (length s - Suc i))
           | _ \<Rightarrow> None))"

lemma pad_zeros_eq: "pad_zeros d s = replicate (d - length s) (CHR ''0'') @ s"
proof (induction d s rule: pad_zeros.induct)
  case (1 d s)
  show ?case
  proof (cases "length s < d")
    case True
    then have "d - length s = Suc (d - Suc (length s))" by simp
    then show ?thesis using True 1 by (subst pad_zeros.simps) (simp add: replicate_append_same [symmetric])
  next
    case False
    then show ?thesis by (subst pad_zeros.simps) simp
  qed
qed

lemma parse_nat_zeros:
  assumes "parse_nat s = Some m"
  shows "parse_nat (replicate n (CHR ''0'') @ s) = Some m"
proof -
  have z: "foldl (\<lambda>m c. 10 * m + digit_value c) 0 (replicate n (CHR ''0'')) = 0"
    by (induction n) (simp_all add: digit_value_def)
  have "list_all is_digit_char (replicate n (CHR ''0''))" by (induction n) (simp_all add: is_digit_char_def)
  then show ?thesis using assms z by (auto simp: parse_nat_def split: if_splits)
qed

lemma digits_no_point: "list_all is_digit_char s \<Longrightarrow> CHR ''.'' \<notin> set s"
  by (auto simp: list_all_iff is_digit_char_def)

text \<open>Rendering loses nothing: the text of a positive scaled number reads back as that number.\<close>

lemma formatScaledDecimal_value:
  assumes "0 \<le> v" "0 < d"
  shows "decimal_value (formatScaledDecimal v (10 ^ d) d) = Some (of_int v / 10 ^ d)"
proof -
  let ?w = "nat (v div 10 ^ d)" and ?f = "nat (v mod 10 ^ d)"
  have lt: "?f < 10 ^ d" using assms(1) by (simp add: nat_less_iff)
  have len: "length (nat_String ?f) \<le> d" by (rule length_nat_String [OF lt assms(2)])
  let ?frac = "replicate (d - length (nat_String ?f)) (CHR ''0'') @ nat_String ?f"
  have fmt: "formatScaledDecimal v (10 ^ d) d = nat_String ?w @ CHR ''.'' # ?frac"
  proof -
    have "0 \<le> v mod 10 ^ d" "0 \<le> v div 10 ^ d" using assms(1) by (simp_all add: pos_imp_zdiv_nonneg_iff)
    then have "\<not> v mod 10 ^ d < 0" "\<not> v div 10 ^ d < 0" by linarith+
    then show ?thesis using assms(1)
      by (simp add: formatScaledDecimal_def Let_def go_quo_nonneg go_rem_nonneg int_String_def pad_zeros_eq)
  qed
  have nop: "CHR ''.'' \<notin> set ?frac" using digits_no_point [OF nat_String_digits] by simp
  have idx: "LastIndex (nat_String ?w @ CHR ''.'' # ?frac) (CHR ''.'') = Some (length (nat_String ?w))"
    by (rule LastIndex_split [OF nop])
  have pf: "parse_nat ?frac = Some ?f" by (rule parse_nat_zeros) simp
  have "(of_nat ?w :: rat) + of_nat ?f / 10 ^ d = of_int v / 10 ^ d"
  proof -
    have n: "(of_nat ?w :: rat) = of_int (v div 10 ^ d)" "(of_nat ?f :: rat) = of_int (v mod 10 ^ d)"
      using assms(1) by (simp_all add: of_nat_nat pos_imp_zdiv_nonneg_iff)
    have "(of_int v :: rat) = of_int (v div 10 ^ d * 10 ^ d + v mod 10 ^ d)" by (simp only: div_mult_mod_eq)
    then have "(of_int v :: rat) = of_int (v div 10 ^ d) * 10 ^ d + of_int (v mod 10 ^ d)" by simp
    then show ?thesis unfolding n by (simp add: field_simps)
  qed
  then show ?thesis unfolding fmt decimal_value_def idx using len pf by simp
qed

definition row_price :: "OracleUpdate \<Rightarrow> rat" where
  "row_price u = of_int (BigInt (u_Price u)) / 10 ^ unat (u_Decimals u)"

abbreviation positive_rows :: "OracleUpdate list \<Rightarrow> OracleUpdate list" where
  "positive_rows rows \<equiv> filter (\<lambda>u. 0 < BigInt (u_Price u)) rows"

definition mean_price :: "OracleUpdate list \<Rightarrow> rat" where
  "mean_price rows = sum_list (map row_price (positive_rows rows)) / of_nat (length (positive_rows rows))"

lemma average_loop_eq:
  "average_loop rows acc latest n =
     (acc + sum_list (map row_price (positive_rows rows)),
      foldl max latest (map u_Timestamp (positive_rows rows)), n + length (positive_rows rows))"
  by (induction rows arbitrary: acc latest n)
    (auto simp: row_price_def SetFrac_def pow10_def max_def)

lemma half_up_round:
  assumes "quotient_of r = (num, denom)" "0 \<le> r"
  shows "go_quo (2 * num + denom) (2 * denom) = round r"
proof -
  have d: "0 < denom" using quotient_of_denom_pos [OF assms(1)] .
  have r: "r = of_int num / of_int denom" using quotient_of_div [OF assms(1)] .
  then have n: "0 \<le> num" using assms(2) d by (simp add: zero_le_divide_iff)
  have "r + 1 / 2 = of_int (2 * num + denom) / of_int (2 * denom)" using d by (simp add: r field_simps)
  then show ?thesis using n d by (simp add: round_def floor_divide_of_int_eq go_quo_nonneg del: of_int_add of_int_mult)
qed

lemma foldl_max_Max: "foldl max l xs = Max (insert l (set xs))" for l :: int
proof (induction xs arbitrary: l)
  case (Cons x xs)
  show ?case unfolding foldl_Cons Cons by (cases "set xs = {}") (auto simp: ac_simps)
qed simp

text \<open>
  The aggregator average is the mean of the real prices rounded once: for rows with a positive price the
  text served reads back as the mean of the positive prices rounded half up to 14 places (so within
  half a unit of the fourteenth place), with the latest contributing observation time; it is refused exactly
  when no row has a positive price or the rounded mean is zero.
\<close>

theorem averageAggregatorPrices_exact:
  "(positive_rows rows = [] \<or> round (mean_price rows * 10 ^ 14) = 0 \<longleftrightarrow> averageAggregatorPrices rows = None) \<and>
   (\<forall>s latest. averageAggregatorPrices rows = Some (s, latest) \<longrightarrow>
      decimal_value s = Some (of_int (round (mean_price rows * 10 ^ 14)) / 10 ^ 14) \<and>
      \<bar>of_int (round (mean_price rows * 10 ^ 14)) / 10 ^ 14 - mean_price rows\<bar> \<le> 1 / (2 * 10 ^ 14) \<and>
      latest = Max (insert 0 (u_Timestamp ` set (positive_rows rows))))"
proof (cases "positive_rows rows = []")
  case True
  then show ?thesis by (simp add: averageAggregatorPrices_def average_loop_eq)
next
  case False
  let ?ps = "positive_rows rows" and ?m = "mean_price rows * 10 ^ 14"
  have ne: "rows \<noteq> []" using False by auto
  have pos: "0 \<le> ?m" unfolding mean_price_def
    by (intro mult_nonneg_nonneg divide_nonneg_nonneg sum_list_nonneg) (auto simp: row_price_def)
  have scaled: "sum_list (map row_price ?ps) * SetFrac (10 ^ 14) (int (length ?ps)) = ?m"
    by (simp add: mean_price_def SetFrac_def)
  obtain num denom where q: "quotient_of ?m = (num, denom)" by fastforce
  have v: "go_quo (2 * num + denom) (2 * denom) = round ?m" by (rule half_up_round [OF q pos])
  have r0: "0 \<le> round ?m" using pos by (simp add: round_def)
  have avg: "averageAggregatorPrices rows =
      (if round ?m \<le> 0 then None
       else Some (formatScaledDecimal (round ?m) (10 ^ 14) 14, foldl max 0 (map u_Timestamp ?ps)))"
    using ne False by (simp add: averageAggregatorPrices_def average_loop_eq scaled [simplified] q [simplified] v [simplified] Let_def)
  have near: "\<bar>of_int (round ?m) / 10 ^ 14 - mean_price rows\<bar> \<le> 1 / (2 * 10 ^ 14)"
  proof -
    have "\<bar>of_int (round ?m) - ?m\<bar> \<le> 1 / 2" by (rule of_int_round_abs_le)
    moreover have "of_int (round ?m) / 10 ^ 14 - mean_price rows = (of_int (round ?m) - ?m) / 10 ^ 14"
      by (simp add: field_simps)
    ultimately show ?thesis by (simp only: abs_divide) (simp add: field_simps)
  qed
  show ?thesis using False avg r0 near formatScaledDecimal_value [OF r0, of 14]
    by (auto simp: foldl_max_Max)
qed

section \<open>The fallback chain\<close>

text \<open>
  What each tier can offer: a qualifying VWAP row of a form, the average of a form's fresh consensus rows,
  a published triangulated price of a form.
\<close>

definition vwap_offer :: "'e GlobalPriceReader \<Rightarrow> GlobalPriceOptions \<Rightarrow> Asset \<Rightarrow> Asset \<Rightarrow> GlobalPriceResult option" where
  "vwap_offer rd opts quote b =
     (case LatestVWAP rd b quote of
        Inr (vwap, asOf, tradeCount, sources, ok) \<Rightarrow>
          if ok \<and> VWAPMinTradeCount opts \<le> tradeCount
          then Some \<lparr>g_Price = vwap, g_Authority = AuthorityVWAPNative, g_Sources = sources, g_AsOf = asOf, g_TradeCount = tradeCount\<rparr>
          else None
      | Inl _ \<Rightarrow> None)"

definition fresh_at :: "GlobalPriceOptions \<Rightarrow> gotime \<Rightarrow> GlobalPriceResult \<Rightarrow> bool" where
  "fresh_at opts now r \<longleftrightarrow> MaxVWAPAge opts \<le> 0 \<or> now - MaxVWAPAge opts < g_AsOf r"

definition aggregator_offer ::
  "'e GlobalPriceReader \<Rightarrow> GlobalPriceOptions \<Rightarrow> Asset \<Rightarrow> gotime \<Rightarrow> Asset \<Rightarrow> GlobalPriceResult option" where
  "aggregator_offer rd opts quote now b =
     (case LatestAggregatorPrices rd b quote (AggregatorSources opts) of
        Inr rows \<Rightarrow>
          let kept = rejectAggregatorOutliers (filterFreshAggregatorRows rows (MaxAggregatorAge opts) now) in
          map_option (\<lambda>(p, latest). \<lparr>g_Price = p, g_Authority = AuthorityAggregatorAvg, g_Sources = map u_Source kept,
            g_AsOf = latest, g_TradeCount = 0\<rparr>) (averageAggregatorPrices kept)
      | Inl _ \<Rightarrow> None)"

definition triangulated_offer :: "'e GlobalPriceReader \<Rightarrow> GlobalPriceOptions \<Rightarrow> Asset \<Rightarrow> Asset \<Rightarrow> GlobalPriceResult option" where
  "triangulated_offer rd opts quote b =
     (case LookupTriangulated rd b quote (TriangulationWindow opts) of
        Inr (price, asOf, ok) \<Rightarrow>
          if ok then Some \<lparr>g_Price = price, g_Authority = AuthorityTriangulated, g_Sources = [], g_AsOf = asOf, g_TradeCount = 0\<rparr>
          else None
      | Inl _ \<Rightarrow> None)"

text \<open>The first offer of a list of positions.\<close>

fun first_offer :: "(nat \<Rightarrow> 'a \<Rightarrow> 'b option) \<Rightarrow> nat \<Rightarrow> 'a list \<Rightarrow> 'b option" where
  "first_offer f i [] = None"
| "first_offer f i (x # xs) = (case f i x of Some y \<Rightarrow> Some y | None \<Rightarrow> first_offer f (i + 1) xs)"

definition fresh_offer :: "'e GlobalPriceReader \<Rightarrow> GlobalPriceOptions \<Rightarrow> Asset \<Rightarrow> (nat \<Rightarrow> gotime) \<Rightarrow> nat \<Rightarrow> Asset \<Rightarrow> GlobalPriceResult option" where
  "fresh_offer rd opts quote clock i b =
     (case vwap_offer rd opts quote b of Some r \<Rightarrow> if fresh_at opts (clock i) r then Some r else None | None \<Rightarrow> None)"

lemma average_empty [simp]: "averageAggregatorPrices [] = None"
  by (simp add: averageAggregatorPrices_def)

lemma reject_empty [simp]: "rejectAggregatorOutliers [] = []"
  by (simp add: rejectAggregatorOutliers_def aggregatorMinForOutlierReject_def)

lemma fresh_empty [simp]: "filterFreshAggregatorRows [] age now = []"
  by (simp add: filterFreshAggregatorRows_def)

lemma vwap_loop_step:
  "vwap_loop rd opts quote clock i (b # bs) stale =
     (case LatestVWAP rd b quote of
        Inl e \<Rightarrow> Inl (ReaderError e)
      | Inr _ \<Rightarrow>
          (case vwap_offer rd opts quote b of
             None \<Rightarrow> vwap_loop rd opts quote clock (i + 1) bs stale
           | Some r \<Rightarrow>
               if fresh_at opts (clock i) r then Inr (Some r, None)
               else vwap_loop rd opts quote clock (i + 1) bs (case stale of Some s \<Rightarrow> Some s | None \<Rightarrow> Some r)))"
  by (cases "LatestVWAP rd b quote") (auto simp: vwap_offer_def fresh_at_def Let_def not_less split: option.splits)

lemma vwap_loop_Inr:
  assumes "vwap_loop rd opts quote clock i bs stale = Inr (fr, st)"
  shows "fr = first_offer (fresh_offer rd opts quote clock) i bs \<and>
    (fr = None \<longrightarrow> st = (case stale of Some s \<Rightarrow> Some s | None \<Rightarrow> first_offer (\<lambda>_. vwap_offer rd opts quote) i bs))"
  using assms
proof (induction bs arbitrary: i stale)
  case Nil
  then show ?case by (auto split: option.splits)
next
  case (Cons b bs)
  show ?case
  proof (cases "vwap_offer rd opts quote b")
    case None
    then have "vwap_loop rd opts quote clock (i + 1) bs stale = Inr (fr, st)"
      using Cons.prems unfolding vwap_loop_step by (simp split: sum.splits)
    then show ?thesis using Cons.IH None by (simp add: fresh_offer_def cong: option.case_cong)
  next
    case (Some r)
    show ?thesis
    proof (cases "fresh_at opts (clock i) r")
      case True
      then show ?thesis using Cons.prems Some unfolding vwap_loop_step by (auto simp: fresh_offer_def split: sum.splits)
    next
      case False
      then have "vwap_loop rd opts quote clock (i + 1) bs (case stale of Some s \<Rightarrow> Some s | None \<Rightarrow> Some r) = Inr (fr, st)"
        using Cons.prems Some unfolding vwap_loop_step by (simp split: sum.splits)
      then show ?thesis using Cons.IH [of "i + 1" "case stale of Some s \<Rightarrow> Some s | None \<Rightarrow> Some r"] Some False
        by (simp add: fresh_offer_def split: option.splits)
    qed
  qed
qed

lemma aggregator_loop_Inr:
  assumes "aggregator_loop rd opts quote clock i bs = Inr r"
  shows "r = first_offer (\<lambda>i. aggregator_offer rd opts quote (clock i)) i bs"
  using assms
proof (induction bs arbitrary: i)
  case (Cons b bs)
  obtain rows where rows: "LatestAggregatorPrices rd b quote (AggregatorSources opts) = Inr rows"
    using Cons.prems by (auto split: sum.splits)
  let ?k = "rejectAggregatorOutliers (filterFreshAggregatorRows rows (MaxAggregatorAge opts) (clock i))"
  have offer: "aggregator_offer rd opts quote (clock i) b =
      map_option (\<lambda>(p, latest). \<lparr>g_Price = p, g_Authority = AuthorityAggregatorAvg, g_Sources = map u_Source ?k,
            g_AsOf = latest, g_TradeCount = 0\<rparr>) (averageAggregatorPrices ?k)"
    by (simp add: aggregator_offer_def rows Let_def)
  show ?case
  proof (cases "averageAggregatorPrices ?k")
    case None
    then have "aggregator_loop rd opts quote clock (i + 1) bs = Inr r"
      using Cons.prems by (auto simp: rows Let_def split: if_splits)
    then show ?thesis using Cons.IH None by (simp add: offer)
  next
    case (Some pl)
    then have "rows \<noteq> []" "filterFreshAggregatorRows rows (MaxAggregatorAge opts) (clock i) \<noteq> []" by auto
    then show ?thesis using Cons.prems Some by (auto simp: rows Let_def offer split: prod.splits)
  qed
qed simp

lemma triangulated_loop_Inr:
  "triangulated_loop rd opts quote bs = Inr r \<Longrightarrow> r = first_offer (\<lambda>_. triangulated_offer rd opts quote) i bs"
  by (induction bs arbitrary: i) (auto simp: triangulated_offer_def split: sum.splits prod.splits if_splits)

text \<open>The failures a tier reports are failures of its reader.\<close>

definition reader_fails :: "'e GlobalPriceReader \<Rightarrow> GlobalPriceOptions \<Rightarrow> Asset \<Rightarrow> Asset list \<Rightarrow> 'e \<Rightarrow> bool" where
  "reader_fails rd opts quote forms e \<longleftrightarrow>
     (\<exists>b \<in> set forms. LatestVWAP rd b quote = Inl e \<or>
        LatestAggregatorPrices rd b quote (AggregatorSources opts) = Inl e \<or>
        LookupTriangulated rd b quote (TriangulationWindow opts) = Inl e)"

lemma reader_fails_Cons: "reader_fails rd opts quote bs e \<Longrightarrow> reader_fails rd opts quote (b # bs) e"
  by (simp add: reader_fails_def)

lemma reader_fails_head:
  "LatestVWAP rd b quote = Inl e \<Longrightarrow> reader_fails rd opts quote (b # bs) e"
  "LatestAggregatorPrices rd b quote (AggregatorSources opts) = Inl e \<Longrightarrow> reader_fails rd opts quote (b # bs) e"
  "LookupTriangulated rd b quote (TriangulationWindow opts) = Inl e \<Longrightarrow> reader_fails rd opts quote (b # bs) e"
  by (simp_all add: reader_fails_def)

lemmas reader_fails_intros = reader_fails_Cons reader_fails_head

lemma vwap_loop_Inl:
  "vwap_loop rd opts quote clock i bs st = Inl e \<Longrightarrow> \<exists>x. e = ReaderError x \<and> reader_fails rd opts quote bs x"
  by (induction bs arbitrary: i st)
    (fastforce simp: Let_def intro: reader_fails_intros split: sum.splits prod.splits if_splits)+

lemma aggregator_loop_Inl:
  "aggregator_loop rd opts quote clock i bs = Inl e \<Longrightarrow> \<exists>x. e = ReaderError x \<and> reader_fails rd opts quote bs x"
  by (induction bs arbitrary: i)
    (fastforce simp: Let_def intro: reader_fails_intros split: sum.splits prod.splits if_splits option.splits)+

lemma triangulated_loop_Inl:
  "triangulated_loop rd opts quote bs = Inl e \<Longrightarrow> \<exists>x. e = ReaderError x \<and> reader_fails rd opts quote bs x"
  by (induction bs) (fastforce intro: reader_fails_intros split: sum.splits prod.splits if_splits)+

definition or_else :: "'a option \<Rightarrow> 'a option \<Rightarrow> 'a option" where
  "or_else a b = (case a of Some x \<Rightarrow> Some x | None \<Rightarrow> b)"

lemma or_else_simps [simp]: "or_else (Some x) b = Some x" "or_else None b = b"
  by (simp_all add: or_else_def)

text \<open>The specification: the best offer of the four classes, in their order.\<close>

definition best_offer ::
  "(nat \<Rightarrow> gotime) \<Rightarrow> (nat \<Rightarrow> gotime) \<Rightarrow> Asset list \<Rightarrow> Asset \<Rightarrow> 'e GlobalPriceReader \<Rightarrow> GlobalPriceOptions \<Rightarrow> GlobalPriceResult option" where
  "best_offer clock1 clock2 forms quote rd opts =
     or_else (first_offer (fresh_offer rd opts quote clock1) 0 forms)
       (or_else (if AggregatorSources opts = [] then None
                 else first_offer (\<lambda>i. aggregator_offer rd opts quote (clock2 i)) 0 forms)
         (or_else (first_offer (\<lambda>_. triangulated_offer rd opts quote) 0 forms)
            (first_offer (\<lambda>_. vwap_offer rd opts quote) 0 forms)))"

text \<open>
  C13. The price served is the best one on offer: \<open>ComputeGlobalPrice\<close> refines the specification that takes
  the first fresh VWAP over the trade floor among the forms of the asset in their order, otherwise the first
  fresh consensus average, otherwise the first triangulated price, otherwise the first stale VWAP over the
  floor, and has no price exactly when no form offers any of them. The only other outcome is the error of a
  reader call for one of those forms.
\<close>

theorem ComputeGlobalPrice_refines:
  "(case ComputeGlobalPrice n clock1 clock2 base quote (Some rd) opts of
      Inl (ReaderError e) \<Rightarrow> reader_fails rd opts quote (AssetAliases n base) e
    | res \<Rightarrow> res = (case best_offer clock1 clock2 (AssetAliases n base) quote rd opts of
                     Some r \<Rightarrow> Inr r | None \<Rightarrow> Inl ErrNoPrice))"
proof -
  let ?fs = "AssetAliases n base"
  note defs = ComputeGlobalPrice_def best_offer_def tryVWAPTier_def tryAggregatorTier_def tryTriangulatedTier_def
  show ?thesis
  proof (cases "vwap_loop rd opts quote clock1 0 ?fs None")
    case (Inl e)
    then show ?thesis using vwap_loop_Inl [OF Inl] by (auto simp: defs)
  next
    case (Inr p)
    obtain fr st where p: "p = (fr, st)" by (cases p)
    have v: "first_offer (fresh_offer rd opts quote clock1) 0 ?fs = fr"
      and st: "fr = None \<Longrightarrow> first_offer (\<lambda>_. vwap_offer rd opts quote) 0 ?fs = st"
      using vwap_loop_Inr [OF Inr [unfolded p]] by auto
    show ?thesis
    proof (cases fr)
      case (Some r)
      then show ?thesis by (simp add: defs Inr p v)
    next
      case None
      show ?thesis
      proof (cases "if AggregatorSources opts = [] then Inr None else aggregator_loop rd opts quote clock2 0 ?fs")
        case (Inl e)
        then show ?thesis using None aggregator_loop_Inl [of rd opts quote clock2 0 ?fs e]
          by (auto simp: defs Inr p split: if_splits)
      next
        case agg: (Inr ar)
        have a: "(if AggregatorSources opts = [] then None
            else first_offer (\<lambda>i. aggregator_offer rd opts quote (clock2 i)) 0 ?fs) = ar"
          using agg aggregator_loop_Inr [of rd opts quote clock2 0 ?fs ar] by (auto split: if_splits)
        show ?thesis
        proof (cases "triangulated_loop rd opts quote ?fs")
          case (Inl e)
          then show ?thesis using triangulated_loop_Inl [OF Inl] None
            by (cases ar) (auto simp only: defs Inr p agg a v option.case sum.case prod.case or_else_simps global_error.case)
        next
          case tri: (Inr tr)
          have t: "first_offer (\<lambda>_. triangulated_offer rd opts quote) 0 ?fs = tr"
            by (rule triangulated_loop_Inr [OF tri, symmetric])
          show ?thesis using None st
            by (cases ar; cases tr; cases st)
              (simp_all only: defs Inr p agg a t tri v option.case sum.case prod.case or_else_simps global_error.case)
        qed
      qed
    qed
  qed
qed

section \<open>Concrete inputs\<close>

definition sample_row :: "int \<Rightarrow> 8 word \<Rightarrow> OracleUpdate" where
  "sample_row price decimals =
     \<lparr>u_Source = ''coingecko'', u_ContractID = [], u_Ledger = 0, u_TxHash = replicate 64 (CHR ''0''), u_OpIndex = 0,
      u_Timestamp = 1, u_Asset = NativeAsset, u_Quote = zeroAsset\<lparr>Type := AssetFiat, Code := ''USD''\<rparr>,
      u_Price = NewAmount (Some price), u_PublishedPrice = None, u_Decimals = decimals, u_Confidence = FFin 1, u_Observer = []\<rparr>"

lemma sample_row_value: "0 < v \<Longrightarrow> row_value (sample_row v 14) = of_int v \<and> scaledAggregatorRat (sample_row v 14) = Some (of_int v)"
  by (simp add: row_value_def scaledAggregatorRat_def sample_row_def aggregatorCommonDecimals_def NewAmount_def BigInt_def Let_def)

theorem rejectAggregatorOutliers_bounds_witness:
  "row_value (last (rejectAggregatorOutliers (map (\<lambda>v. sample_row v 14) [100, 101, 10 ^ 9]))) \<le>
     101 + 5 * max (madToStd * (101 - 100)) (101 / 200)"
proof -
  let ?rows = "map (\<lambda>v. sample_row v 14) [100, 101, 10 ^ 9]"
  have us: "filter (\<lambda>u. scaledAggregatorRat u \<noteq> None) ?rows = ?rows" by (simp add: sample_row_value)
  have "length ?rows < 2 * length (filter (\<lambda>u. 100 \<le> row_value u \<and> row_value u \<le> 101) ?rows)"
    by (simp add: sample_row_value)
  then show ?thesis using rejectAggregatorOutliers_bounds [of ?rows 100 101] last_in_set unfolding us by auto
qed

theorem averageAggregatorPrices_exact_witness:
  "\<exists>s latest. averageAggregatorPrices [sample_row 3 0] = Some (s, latest) \<and> decimal_value s = Some 3"
proof -
  have p: "positive_rows [sample_row 3 0] = [sample_row 3 0]" by (simp add: sample_row_def NewAmount_def BigInt_def)
  have m: "mean_price [sample_row 3 0] = 3"
    by (simp add: mean_price_def p row_price_def) (simp add: sample_row_def NewAmount_def BigInt_def)
  have r: "round (3 * 10 ^ 14 :: rat) = 3 * 10 ^ 14" using round_of_int [of "3 * 10 ^ 14", where 'a = rat] by simp
  have "averageAggregatorPrices [sample_row 3 0] \<noteq> None"
    using averageAggregatorPrices_exact [of "[sample_row 3 0]"] p m r by simp
  then obtain s l where sl: "averageAggregatorPrices [sample_row 3 0] = Some (s, l)" by auto
  then have "decimal_value s = Some (of_int (round (mean_price [sample_row 3 0] * 10 ^ 14)) / 10 ^ 14)"
    using averageAggregatorPrices_exact [of "[sample_row 3 0]"] by blast
  then show ?thesis using sl m r by simp
qed

text \<open>
  The median centre does not keep half of the sources, as the comment on the unreachable fallback says:
  of five sources at 1, 1, 100, 1000000 and 1000000 the filter keeps the one at 100, which is then the
  served average. (That the fallback is unreachable is true, see above.)
\<close>

theorem consensus_of_one:
  "map row_value (rejectAggregatorOutliers (map (\<lambda>v. sample_row v 14) [1, 1, 100, 1000000, 1000000])) = [100]"
proof -
  have vals: "usable_rows (map (\<lambda>v. sample_row v 14) [1, 1, 100, 1000000, 1000000]) =
      map (\<lambda>v. (sample_row v 14, of_int v)) [1, 1, 100, 1000000, 1000000]"
    by (simp add: usable_rows_eq sample_row_value)
  have "CentreScale [1, 1, 100, 1000000, 1000000] = Some (100, 7413 * 99 / 5000)" by code_simp
  then show ?thesis
    by (simp add: rejectAggregatorOutliers_def aggregatorMinForOutlierReject_def vals Let_def SymmetricDev_def
        aggregatorMADFactor_def sample_row_value)
qed

end
