(* ===== verification/NetIP.thy ===== *)
theory NetIP
  imports GoText
begin

text \<open>
  What the rate limiter uses of Go's packages \<open>net/netip\<close> and \<open>net/url\<close>: the address type, \<open>ParseAddr\<close>,
  the prefix mask, the RFC 5952 text of an address, and \<open>url.QueryEscape\<close>.

  An address is a 32-bit IPv4 value or the eight 16-bit groups of an IPv6 address with its zone. Errors of
  the parser are \<open>None\<close>: the callers only ask whether there is one.
\<close>

section \<open>Addresses\<close>

datatype addr = V4 "nat list" | V6 "nat list" string

text \<open>\<open>Is4In6\<close>: the prefix \<open>::ffff:0:0/96\<close>.\<close>

fun Is4 :: "addr \<Rightarrow> bool" where
  "Is4 (V4 _) = True" | "Is4 (V6 _ _) = False"

fun Is6 :: "addr \<Rightarrow> bool" where
  "Is6 (V4 _) = False" | "Is6 (V6 _ _) = True"

fun Is4In6 :: "addr \<Rightarrow> bool" where
  "Is4In6 (V4 _) = False"
| "Is4In6 (V6 gs _) = (take 6 gs = [0, 0, 0, 0, 0, 65535])"

text \<open>The four bytes in the last two groups.\<close>

definition low_bytes :: "nat list \<Rightarrow> nat list" where
  "low_bytes gs = [gs ! 6 div 256, gs ! 6 mod 256, gs ! 7 div 256, gs ! 7 mod 256]"

fun Unmap :: "addr \<Rightarrow> addr" where
  "Unmap (V4 bs) = V4 bs"
| "Unmap (V6 gs zone) = (if Is4In6 (V6 gs zone) then V4 (low_bytes gs) else V6 gs zone)"

text \<open>\<open>PrefixFrom(a.WithZone(""), n).Masked().Addr()\<close> of an IPv6 address for a whole number of groups.\<close>

fun mask_groups :: "nat \<Rightarrow> addr \<Rightarrow> addr" where
  "mask_groups n (V6 gs zone) = V6 (take n gs @ replicate (length gs - n) 0) []"
| "mask_groups n (V4 bs) = V4 bs"

section \<open>ParseAddr\<close>

text \<open>
  Four decimal fields of at most 255 without leading zeros. State of the loop: the finished fields, the
  value of the open field and its number of digits.
\<close>

fun parse_v4_fields :: "string \<Rightarrow> nat list \<Rightarrow> nat \<Rightarrow> nat \<Rightarrow> nat list option" where
  "parse_v4_fields [] fields val digLen =
     (if length fields = 3 \<and> 0 < digLen then Some (fields @ [val]) else None)"
| "parse_v4_fields (c # s) fields val digLen =
     (if is_digit_char c then
        (if digLen = 1 \<and> val = 0 then None
         else let val' = val * 10 + digit_value c in
           if 255 < val' then None else parse_v4_fields s fields val' (digLen + 1))
      else if c = CHR ''.'' then
        (if digLen = 0 \<or> s = [] \<or> length fields = 3 then None
         else parse_v4_fields s (fields @ [val]) 0 0)
      else None)"

definition hex_value :: "char \<Rightarrow> nat option" where
  "hex_value c =
     (let n = of_char c in
      if is_digit_char c then Some (digit_value c)
      else if 97 \<le> n \<and> n \<le> 102 then Some (n - 87)
      else if 65 \<le> n \<and> n \<le> 70 then Some (n - 55)
      else None)"

text \<open>One group: its value, its number of digits and the rest; more than four digits is an error.\<close>

fun parse_hex_group :: "string \<Rightarrow> nat \<Rightarrow> nat \<Rightarrow> (nat \<times> nat \<times> string) option" where
  "parse_hex_group [] acc off = Some (acc, off, [])"
| "parse_hex_group (c # s) acc off =
     (case hex_value c of
        None \<Rightarrow> Some (acc, off, c # s)
      | Some d \<Rightarrow> if 3 < off then None else parse_hex_group s (acc * 16 + d) (off + 1))"

text \<open>
  The loop over the groups, at most eight: the groups so far, the position of \<open>::\<close> and the text left.
  The result is the groups read, the position and the unread text.
\<close>

fun parse_v6_groups :: "nat \<Rightarrow> nat list \<Rightarrow> nat option \<Rightarrow> string \<Rightarrow> (nat list \<times> nat option \<times> string) option" where
  "parse_v6_groups 0 gs ell s = Some (gs, ell, s)"
| "parse_v6_groups (Suc n) gs ell s =
     (case parse_hex_group s 0 0 of
        None \<Rightarrow> None
      | Some (acc, off, rest) \<Rightarrow>
          if off = 0 then None
          else (case rest of
            CHR ''.'' # _ \<Rightarrow>
              if ell = None \<and> length gs \<noteq> 6 then None
              else if 6 < length gs then None
              else (case parse_v4_fields s [] 0 0 of
                      Some [a, b, c, d] \<Rightarrow> Some (gs @ [a * 256 + b, c * 256 + d], ell, [])
                    | _ \<Rightarrow> None)
          | [] \<Rightarrow> Some (gs @ [acc], ell, [])
          | c # rest' \<Rightarrow>
              if c \<noteq> CHR '':'' \<or> rest' = [] then None
              else if hd rest' = CHR '':'' then
                (if ell \<noteq> None then None
                 else if tl rest' = [] then Some (gs @ [acc], Some (length gs + 1), [])
                 else parse_v6_groups n (gs @ [acc]) (Some (length gs + 1)) (tl rest'))
              else parse_v6_groups n (gs @ [acc]) ell rest'))"

definition finish_v6 :: "nat list \<Rightarrow> nat option \<Rightarrow> string \<Rightarrow> nat list option" where
  "finish_v6 gs ell rest =
     (if rest \<noteq> [] then None
      else if length gs < 8
      then (case ell of
              None \<Rightarrow> None
            | Some e \<Rightarrow> Some (take e gs @ replicate (8 - length gs) 0 @ drop e gs))
      else if ell \<noteq> None then None else Some gs)"

definition parse_v6 :: "string \<Rightarrow> addr option" where
  "parse_v6 s0 =
     (let (s, zone, bad) = (case IndexAny s0 ''%'' of
              Some i \<Rightarrow> (take i s0, drop (Suc i) s0, drop (Suc i) s0 = [])
            | None \<Rightarrow> (s0, [], False))
      in if bad then None
         else if take 2 s = ''::'' then
           (if drop 2 s = [] then Some (V6 (replicate 8 0) zone)
            else (case parse_v6_groups 8 [] (Some 0) (drop 2 s) of
                    None \<Rightarrow> None
                  | Some (gs, ell, rest) \<Rightarrow> map_option (\<lambda>g. V6 g zone) (finish_v6 gs ell rest)))
         else (case parse_v6_groups 8 [] None s of
                 None \<Rightarrow> None
               | Some (gs, ell, rest) \<Rightarrow> map_option (\<lambda>g. V6 g zone) (finish_v6 gs ell rest)))"

text \<open>The first of \<open>.\<close>, \<open>:\<close> and \<open>%\<close> decides the family.\<close>

definition ParseAddr :: "string \<Rightarrow> addr option" where
  "ParseAddr s =
     (case IndexAny s ''.:%'' of
        None \<Rightarrow> None
      | Some i \<Rightarrow>
          if s ! i = CHR ''.'' then map_option V4 (parse_v4_fields s [] 0 0)
          else if s ! i = CHR '':'' then parse_v6 s
          else None)"

section \<open>Text of an address\<close>

fun join_with :: "char \<Rightarrow> string list \<Rightarrow> string" where
  "join_with c [] = []"
| "join_with c [x] = x"
| "join_with c (x # y # xs) = x @ c # join_with c (y # xs)"

definition hex_digit :: "nat \<Rightarrow> char" where
  "hex_digit d = (if d < 10 then char_of (48 + d) else char_of (87 + d))"

fun hex_String :: "nat \<Rightarrow> string" where
  "hex_String n = (if n < 16 then [hex_digit n] else hex_String (n div 16) @ [hex_digit (n mod 16)])"

declare hex_String.simps [simp del]

definition v4_String :: "nat list \<Rightarrow> string" where
  "v4_String bs = join_with (CHR ''.'') (map nat_String bs)"

text \<open>The length of the run of zero groups at the head.\<close>

fun zero_run :: "nat list \<Rightarrow> nat" where
  "zero_run [] = 0"
| "zero_run (g # gs) = (if g = 0 then Suc (zero_run gs) else 0)"

text \<open>Start and end of the first longest run of at least two zero groups.\<close>

definition longest_zero_run :: "nat list \<Rightarrow> (nat \<times> nat) option" where
  "longest_zero_run gs =
     foldl (\<lambda>best i. let l = zero_run (drop i gs) in
       if 2 \<le> l \<and> (case best of None \<Rightarrow> True | Some (a, b) \<Rightarrow> b - a < l) then Some (i, i + l) else best)
       None [0..<length gs]"

definition v6_String :: "nat list \<Rightarrow> string" where
  "v6_String gs =
     (case longest_zero_run gs of
        None \<Rightarrow> join_with (CHR '':'') (map hex_String gs)
      | Some (a, b) \<Rightarrow>
          join_with (CHR '':'') (map hex_String (take a gs)) @ ''::'' @
          join_with (CHR '':'') (map hex_String (drop b gs)))"

definition with_zone :: "string \<Rightarrow> string \<Rightarrow> string" where
  "with_zone s zone = (if zone = [] then s else s @ ''%'' @ zone)"

fun Addr_String :: "addr \<Rightarrow> string" where
  "Addr_String (V4 bs) = v4_String bs"
| "Addr_String (V6 gs zone) =
     (if Is4In6 (V6 gs zone) then with_zone (''::ffff:'' @ v4_String (low_bytes gs)) zone
      else with_zone (v6_String gs) zone)"

section \<open>url.QueryEscape\<close>

definition query_safe :: "char \<Rightarrow> bool" where
  "query_safe c =
     (let n = (of_char c :: nat) in
      (97 \<le> n \<and> n \<le> 122) \<or> (65 \<le> n \<and> n \<le> 90) \<or> (48 \<le> n \<and> n \<le> 57) \<or> c \<in> set ''-_.~'')"

definition upper_hex :: "nat \<Rightarrow> char" where
  "upper_hex d = (if d < 10 then char_of (48 + d) else char_of (55 + d))"

definition escape_char :: "char \<Rightarrow> string" where
  "escape_char c =
     (if query_safe c then [c]
      else if c = CHR '' '' then ''+''
      else [CHR ''%'', upper_hex (of_char c div 16), upper_hex (of_char c mod 16)])"

definition QueryEscape :: "string \<Rightarrow> string" where
  "QueryEscape s = concat (map escape_char s)"

lemma upper_hex_inj: "a < 16 \<Longrightarrow> b < 16 \<Longrightarrow> upper_hex a = upper_hex b \<Longrightarrow> a = b"
  by (auto simp: upper_hex_def split: if_splits)

lemma upper_hex_no_colon: "a < 16 \<Longrightarrow> upper_hex a \<noteq> CHR '':''"
proof
  assume "a < 16" "upper_hex a = CHR '':''"
  then have "of_char (upper_hex a) = (58 :: nat)" by simp
  with \<open>a < 16\<close> show False by (simp add: upper_hex_def split: if_splits)
qed

lemma char_hex_bounds: "(of_char c :: nat) div 16 < 16" "(of_char c :: nat) mod 16 < 16"
  using nat_of_char_less_256 [of c] by (simp_all add: less_mult_imp_div_less)

lemma escape_char_prefix_free:
  assumes "escape_char c @ s = escape_char d @ t"
  shows "c = d \<and> s = t"
proof -
  have inj: "(of_char c :: nat) = of_char d"
    if "(of_char c :: nat) div 16 = of_char d div 16" "(of_char c :: nat) mod 16 = of_char d mod 16"
    using that by (metis div_mult_mod_eq)
  have neq: "\<not> query_safe (CHR ''%'')" "\<not> query_safe (CHR ''+'')" "\<not> query_safe (CHR '' '')"
    by (simp_all add: query_safe_def Let_def)
  show ?thesis
  proof (cases "query_safe c \<or> c = CHR '' ''")
    case True
    then show ?thesis using assms neq by (auto simp: escape_char_def split: if_splits)
  next
    case False
    then have "\<not> (query_safe d \<or> d = CHR '' '')" using assms neq by (auto simp: escape_char_def split: if_splits)
    then have "upper_hex (of_char c div 16) = upper_hex (of_char d div 16)"
      "upper_hex (of_char c mod 16) = upper_hex (of_char d mod 16)" "s = t"
      using assms False by (auto simp: escape_char_def)
    then show ?thesis using upper_hex_inj char_hex_bounds inj by (metis char_of_char)
  qed
qed

lemma escape_char_nonempty: "escape_char c \<noteq> []"
  by (simp add: escape_char_def)

lemma QueryEscape_inject: "QueryEscape s = QueryEscape t \<longleftrightarrow> s = t"
proof (induction s arbitrary: t)
  case Nil
  then show ?case by (cases t) (simp_all add: QueryEscape_def escape_char_nonempty)
next
  case (Cons c s)
  show ?case
  proof (cases t)
    case Nil
    then show ?thesis by (simp add: QueryEscape_def escape_char_nonempty)
  next
    case (Cons d u)
    then show ?thesis using Cons.IH escape_char_prefix_free [of c "QueryEscape s" d "QueryEscape u"]
      by (auto simp: QueryEscape_def)
  qed
qed

lemma QueryEscape_no_colon: "CHR '':'' \<notin> set (QueryEscape s)"
proof -
  have "CHR '':'' \<notin> set (escape_char c)" for c
    using upper_hex_no_colon [OF char_hex_bounds(1), of c] upper_hex_no_colon [OF char_hex_bounds(2), of c]
    by (auto simp: escape_char_def query_safe_def Let_def split: if_splits)
  then show ?thesis by (auto simp: QueryEscape_def)
qed

end
