(* ===== verification/RateLimit.thy ===== *)
theory RateLimit
  imports NetIP "HOL-Library.AList"
begin

text \<open>
  The request limiter (internal/ratelimit): the fixed-window bucket over Redis with its fail-open dwell
  clock, the in-process store behind it when there is no Redis, the throttle identity of an address, and
  the counters of the auth throttles.

  A Go map is an association list with distinct keys. The clock is read where the code reads it: every
  reading is an argument. Redis is a parameter: a call of the script is the function \<open>run\<close> from the
  script's arguments to its reply, and the Lua text of the script is \<open>lua\<close>, over the three commands it
  uses. \<open>int64(window.Seconds())\<close> is the number of whole seconds, which the conversion through float64
  gives for every window below \<open>2^24\<close> seconds. Locks are not modelled: every method holds the mutex over
  its whole body. Counters are unbounded integers.
\<close>

section \<open>inprocess.go\<close>

record localEntry =
  le_window :: int
  le_count :: int

record localStore =
  entries :: "(string \<times> localEntry) list"
  lastGC :: gotime
  lastSweptWindow :: int
  maxKeys :: int
  per48 :: "(string \<times> localEntry) list"
  maxPer48 :: int
  sweeps :: int

definition localStoreMaxKeys :: int where
  "localStoreMaxKeys = 100000"

definition localStoreMaxKeysPer48 :: int where
  "localStoreMaxKeysPer48 = 1024"

definition localPer48BucketTag :: string where
  "localPer48BucketTag = CHR 0x00 # ''per48'' @ [CHR 0x00]"

definition localOverflowKey :: string where
  "localOverflowKey = CHR 0x00 # ''overflow'' @ [CHR 0x00]"

definition newLocalStore :: localStore where
  "newLocalStore =
     \<lparr>entries = [], lastGC = 0, lastSweptWindow = 0, maxKeys = localStoreMaxKeys, per48 = [],
      maxPer48 = localStoreMaxKeysPer48, sweeps = 0\<rparr>"

text \<open>A map read of a missing key is the zero entry.\<close>

definition entry_of :: "(string \<times> localEntry) list \<Rightarrow> string \<Rightarrow> localEntry" where
  "entry_of m k = (case map_of m k of Some e \<Rightarrow> e | None \<Rightarrow> \<lparr>le_window = 0, le_count = 0\<rparr>)"

definition gcLocked :: "int \<Rightarrow> gotime \<Rightarrow> duration \<Rightarrow> localStore \<Rightarrow> localStore" where
  "gcLocked current now windowDur s =
     (if current = lastSweptWindow s then s
      else if time_Sub now (lastGC s) < windowDur \<and> int (length (entries s)) < maxKeys s then s
      else s\<lparr>entries := filter (\<lambda>(k, e). \<not> le_window e < current) (entries s),
             per48 := filter (\<lambda>(k, c). \<not> le_window c < current) (per48 s),
             lastGC := now, lastSweptWindow := current, sweeps := sweeps s + 1\<rparr>)"

text \<open>The loop over the positions where an address may start: the text before and after the position.\<close>

fun slash48_loop :: "string \<Rightarrow> string \<Rightarrow> string option" where
  "slash48_loop pre [] = None"
| "slash48_loop pre (c # s) =
     (if pre \<noteq> [] \<and> last pre \<noteq> CHR '':'' then slash48_loop (pre @ [c]) s
      else case ParseAddr (c # s) of
        None \<Rightarrow> slash48_loop (pre @ [c]) s
      | Some addr \<Rightarrow>
          if \<not> Is6 addr \<or> Is4In6 addr then None
          else Some (pre @ Addr_String (mask_groups 3 addr)))"

definition slash48Key :: "string \<Rightarrow> string option" where
  "slash48Key key = slash48_loop [] key"

definition admitLocked :: "string \<Rightarrow> int \<Rightarrow> localStore \<Rightarrow> localStore \<times> string" where
  "admitLocked key0 window s0 =
     (let (s, key) =
        (case slash48Key key0 of
           None \<Rightarrow> (s0, key0)
         | Some p48 \<Rightarrow>
             let c0 = entry_of (per48 s0) p48;
                 c = (if le_window c0 \<noteq> window then \<lparr>le_window = window, le_count = 0\<rparr> else c0)
             in if maxPer48 s0 \<le> le_count c then (s0, localPer48BucketTag @ p48)
                else if int (length (entries s0)) < maxKeys s0
                then (s0\<lparr>per48 := AList.update p48 (c\<lparr>le_count := le_count c + 1\<rparr>) (per48 s0)\<rparr>, key0)
                else (s0, key0))
      in if map_of (entries s) key = None \<and> maxKeys s \<le> int (length (entries s))
         then (s, localOverflowKey) else (s, key))"

definition take_key :: "string \<Rightarrow> int \<Rightarrow> gotime \<Rightarrow> duration \<Rightarrow> localStore \<Rightarrow> localStore \<times> string" where
  "take_key key window now windowDur s =
     (let s1 = gcLocked window now windowDur s in
      if map_of (entries s1) key \<noteq> None then (s1, key) else admitLocked key window s1)"

definition local_take ::
  "string \<Rightarrow> int \<Rightarrow> int \<Rightarrow> gotime \<Rightarrow> duration \<Rightarrow> localStore \<Rightarrow> localStore \<times> int \<times> bool" where
  "local_take key window limit now windowDur s =
     (case take_key key window now windowDur s of (s2, k) \<Rightarrow>
        let e0 = entry_of (entries s2) k;
            e1 = (if le_window e0 \<noteq> window then \<lparr>le_window = window, le_count = 0\<rparr> else e0);
            e = e1\<lparr>le_count := le_count e1 + 1\<rparr>
        in (s2\<lparr>entries := AList.update k e (entries s2)\<rparr>, le_count e, le_count e \<le> limit))"

section \<open>throttlekey.go\<close>

definition ThrottleIPKey :: "string \<Rightarrow> string" where
  "ThrottleIPKey ip =
     (case ParseAddr ip of
        None \<Rightarrow> ip
      | Some addr \<Rightarrow>
          if Is4 addr \<or> Is4In6 addr then Addr_String (Unmap addr)
          else Addr_String (mask_groups 4 addr))"

section \<open>bucket.go\<close>

definition DefaultDwellTime :: duration where
  "DefaultDwellTime = 30 * go_second"

record Bucket =
  b_max :: int
  b_window :: duration
  keyPrefix :: string
  dwellTime :: duration
  b_local :: "localStore option"
  redisErrorSince :: gotime
  healthySince :: gotime
  lastFailure :: gotime

record Result =
  Allowed :: bool
  Remaining :: int
  RetryAfter :: duration
  Count :: int

definition WithKeyPrefix :: "string \<Rightarrow> Bucket \<Rightarrow> Bucket" where
  "WithKeyPrefix p b = b\<lparr>keyPrefix := p\<rparr>"

definition WithDwellTime :: "duration \<Rightarrow> Bucket \<Rightarrow> Bucket" where
  "WithDwellTime d b = b\<lparr>dwellTime := d\<rparr>"

text \<open>The constructor: \<open>None\<close> is the panic; the flag says whether the Redis client is nil.\<close>

definition New :: "bool \<Rightarrow> int \<Rightarrow> duration \<Rightarrow> (Bucket \<Rightarrow> Bucket) list \<Rightarrow> Bucket option" where
  "New rdbNil limit window opts =
     (if limit \<le> 0 then None
      else if window < go_second then None
      else let b = foldl (\<lambda>b opt. opt b)
                 \<lparr>b_max = limit, b_window = window, keyPrefix = ''rl:'', dwellTime = DefaultDwellTime, b_local = None,
                  redisErrorSince = 0, healthySince = 0, lastFailure = 0\<rparr> opts
           in Some (if rdbNil then b\<lparr>b_local := Some newLocalStore\<rparr> else b))"

definition InProcess :: "Bucket \<Rightarrow> bool" where
  "InProcess b = (b_local b \<noteq> None)"

definition observeRedisFailure :: "gotime \<Rightarrow> Bucket \<Rightarrow> Bucket \<times> bool" where
  "observeRedisFailure now b =
     (if dwellTime b < 0 then (b, False)
      else let b1 = b\<lparr>healthySince := 0, lastFailure := now\<rparr> in
        if time_IsZero (redisErrorSince b1) then (b1\<lparr>redisErrorSince := now\<rparr>, False)
        else (b1, dwellTime b < time_Sub now (redisErrorSince b1)))"

definition observeRedisSuccess :: "gotime \<Rightarrow> Bucket \<Rightarrow> Bucket" where
  "observeRedisSuccess now b =
     (if time_IsZero (redisErrorSince b) then b
      else let b1 = (if time_IsZero (healthySince b) then b\<lparr>healthySince := now\<rparr> else b) in
        if dwellTime b \<le> time_Sub now (healthySince b1) \<or> dwellTime b < time_Sub now (lastFailure b1)
        then b1\<lparr>redisErrorSince := 0, healthySince := 0\<rparr> else b1)"

text \<open>The script, over the commands of the Redis it runs in.\<close>

record 's redis =
  INCRBY :: "string \<Rightarrow> int \<Rightarrow> 's \<Rightarrow> 's \<times> int"
  EXPIRE :: "string \<Rightarrow> int \<Rightarrow> 's \<Rightarrow> 's"
  TTL :: "string \<Rightarrow> 's \<Rightarrow> int"

definition lua :: "'s redis \<Rightarrow> string \<Rightarrow> int \<Rightarrow> int \<Rightarrow> int \<Rightarrow> 's \<Rightarrow> 's \<times> int \<times> int" where
  "lua r key ttlSeconds max_count cost st =
     (case INCRBY r key cost st of (st1, current) \<Rightarrow>
        let st2 = (if current = cost then EXPIRE r key ttlSeconds st1 else st1) in
        if max_count < current
        then (let ttl = TTL r key st2 in (st2, current, if ttl < 0 then 0 else ttl))
        else (st2, current, 0))"

definition clampCost :: "int \<Rightarrow> int \<Rightarrow> int" where
  "clampCost cost effectiveMax = (if cost < 1 then 1 else if effectiveMax < cost then effectiveMax else cost)"

definition window_seconds :: "duration \<Rightarrow> int" where
  "window_seconds w = w div go_second"

definition retry_after :: "duration \<Rightarrow> int \<Rightarrow> gotime \<Rightarrow> duration" where
  "retry_after window minute now =
     (let windowSec = window_seconds window;
          elapsed = time_Unix now - minute * windowSec;
          remainingSec = windowSec - elapsed
      in (if remainingSec < 1 then 1 else remainingSec) * go_second)"

definition local_take_n ::
  "nat \<Rightarrow> string \<Rightarrow> int \<Rightarrow> int \<Rightarrow> gotime \<Rightarrow> duration \<Rightarrow> localStore \<times> int \<times> bool \<Rightarrow> localStore \<times> int \<times> bool" where
  "local_take_n n key window limit now windowDur st =
     ((\<lambda>(s, _, _). local_take key window limit now windowDur s) ^^ n) st"

definition localCharge :: "string \<Rightarrow> int \<Rightarrow> int \<Rightarrow> int \<Rightarrow> gotime \<Rightarrow> duration \<Rightarrow> localStore \<Rightarrow> localStore \<times> Result" where
  "localCharge key cost effectiveMax minute now window s =
     (case local_take_n (nat cost) key minute effectiveMax now window (s, 0, False) of (s', cnt, allowed) \<Rightarrow>
        let remaining = effectiveMax - cnt in
        (s', \<lparr>Allowed = allowed, Remaining = (if remaining < 0 then 0 else remaining),
              RetryAfter = (if \<not> allowed then retry_after window minute now else 0), Count = cnt\<rparr>))"

text \<open>A reply of the client: an error (with whether the caller aborted), or a decoded value.\<close>

datatype redis_value = RInt int | RArray "redis_value list" | ROther

datatype charge_error = ErrThrottleUnavailable | EvalError | ShapeError

definition rate_key :: "Bucket \<Rightarrow> string \<Rightarrow> int \<Rightarrow> string" where
  "rate_key b key minute = keyPrefix b @ QueryEscape key @ '':'' @ int_String minute"

definition Charge ::
  "(string \<Rightarrow> int \<Rightarrow> int \<Rightarrow> int \<Rightarrow> bool + redis_value) \<Rightarrow> gotime \<Rightarrow> gotime \<Rightarrow> gotime \<Rightarrow> string \<Rightarrow> int \<Rightarrow> int \<Rightarrow> Bucket \<Rightarrow>
   Bucket \<times> (charge_error + Result)" where
  "Charge run now1 now2 now3 key cost0 limit b =
     (let effectiveMax = (if 0 < limit then limit else b_max b);
          cost = clampCost cost0 effectiveMax;
          minute = go_quo (time_Unix now1) (window_seconds (b_window b))
      in case b_local b of
        Some s \<Rightarrow>
          (case localCharge key cost effectiveMax minute now2 (b_window b) s of (s', res) \<Rightarrow>
             (b\<lparr>b_local := Some s'\<rparr>, Inr res))
      | None \<Rightarrow>
          let ttlSeconds = 2 * b_window b div go_second;
              ttlSeconds = (if ttlSeconds < 1 then 1 else ttlSeconds)
          in (case run (rate_key b key minute) ttlSeconds effectiveMax cost of
                Inl aborted \<Rightarrow>
                  if aborted then (b, Inl EvalError)
                  else (case observeRedisFailure now2 b of (b', elapsed) \<Rightarrow>
                          (b', Inl (if elapsed then ErrThrottleUnavailable else EvalError)))
              | Inr v \<Rightarrow>
                  let b' = observeRedisSuccess now2 b in
                  (case v of
                     RArray [RInt cnt, RInt retryTTL] \<Rightarrow>
                       let allowed = (cnt \<le> effectiveMax); remaining = effectiveMax - cnt in
                       (b', Inr \<lparr>Allowed = allowed, Remaining = (if remaining < 0 then 0 else remaining),
                                 RetryAfter = (if \<not> allowed then retry_after (b_window b) minute now3 else 0),
                                 Count = cnt\<rparr>)
                   | _ \<Rightarrow> (b', Inl ShapeError))))"

definition Take ::
  "(string \<Rightarrow> int \<Rightarrow> int \<Rightarrow> int \<Rightarrow> bool + redis_value) \<Rightarrow> gotime \<Rightarrow> gotime \<Rightarrow> gotime \<Rightarrow> string \<Rightarrow> Bucket \<Rightarrow>
   Bucket \<times> (charge_error + Result)" where
  "Take run now1 now2 now3 key b = Charge run now1 now2 now3 key 1 0 b"

section \<open>fixedwindow.go\<close>

definition incrLua :: "'s redis \<Rightarrow> string \<Rightarrow> int \<Rightarrow> 's \<Rightarrow> 's \<times> int" where
  "incrLua r key ttlSeconds st =
     (case INCRBY r key 1 st of (st1, current) \<Rightarrow>
        (if current = 1 then EXPIRE r key ttlSeconds st1 else st1, current))"

definition FixedWindow_Incr ::
  "(string \<Rightarrow> int \<Rightarrow> bool + redis_value) \<Rightarrow> duration \<Rightarrow> gotime \<Rightarrow> string \<Rightarrow> int option" where
  "FixedWindow_Incr run window now keyBase =
     (let windowStart = go_quo (time_Unix now) (window_seconds window);
          key = keyBase @ '':'' @ int_String windowStart;
          ttlSeconds = 2 * window div go_second;
          ttlSeconds = (if ttlSeconds < 1 then 1 else ttlSeconds)
      in case run key ttlSeconds of Inr (RInt cnt) \<Rightarrow> Some cnt | _ \<Rightarrow> None)"

definition LocalFixedWindow_Allow :: "duration \<Rightarrow> gotime \<Rightarrow> string \<Rightarrow> int \<Rightarrow> localStore \<Rightarrow> localStore \<times> bool" where
  "LocalFixedWindow_Allow window now keyBase limit s =
     (case local_take keyBase (go_quo (time_Unix now) (window_seconds window)) limit now window s of
        (s', _, allowed) \<Rightarrow> (s', allowed))"

section \<open>The in-process store admits at most the limit\<close>

text \<open>The counter of a bucket in a window.\<close>

definition count_at :: "(string \<times> localEntry) list \<Rightarrow> string \<Rightarrow> int \<Rightarrow> int" where
  "count_at m k w = (case map_of m k of Some e \<Rightarrow> if le_window e = w then le_count e else 0 | None \<Rightarrow> 0)"

definition plain_key :: "string \<Rightarrow> bool" where
  "plain_key k \<longleftrightarrow> (k = [] \<or> hd k \<noteq> CHR 0x00)"

text \<open>The bucket an untracked key asks for: its own, or its /48's once that is out of allowance.\<close>

definition candidate :: "localStore \<Rightarrow> int \<Rightarrow> string \<Rightarrow> string" where
  "candidate s w k =
     (case slash48Key k of
        None \<Rightarrow> k
      | Some p \<Rightarrow> if maxPer48 s \<le> count_at (per48 s) p w then localPer48BucketTag @ p else k)"

text \<open>What a key has already spent in a window, in whichever bucket it is counted.\<close>

definition spent :: "localStore \<Rightarrow> int \<Rightarrow> string \<Rightarrow> int" where
  "spent s w k =
     (if map_of (entries s) k \<noteq> None then count_at (entries s) k w
      else let c = candidate s w k in
        if map_of (entries s) c \<noteq> None then count_at (entries s) c w
        else if maxKeys s \<le> int (length (entries s)) \<and> lastSweptWindow s = w
        then count_at (entries s) localOverflowKey w else 0)"

definition store_ok :: "int \<Rightarrow> localStore \<Rightarrow> bool" where
  "store_ok w s \<longleftrightarrow>
     distinct (map fst (entries s)) \<and> distinct (map fst (per48 s)) \<and>
     (\<forall>(k, e) \<in> set (entries s). le_window e \<le> w \<and> 0 \<le> le_count e)"

lemma store_ok_mono: "store_ok w s \<Longrightarrow> w \<le> w' \<Longrightarrow> store_ok w' s"
  by (auto simp: store_ok_def)

lemma count_at_nonneg: "store_ok w s \<Longrightarrow> 0 \<le> count_at (entries s) k v"
  by (auto simp: store_ok_def count_at_def dest: map_of_SomeD split: option.splits)

lemma count_at_future: "store_ok w s \<Longrightarrow> w < v \<Longrightarrow> count_at (entries s) k v = 0"
  by (auto simp: store_ok_def count_at_def dest: map_of_SomeD split: option.splits)

lemma spent_nonneg: "store_ok w s \<Longrightarrow> 0 \<le> spent s v k"
  by (auto simp: spent_def Let_def count_at_nonneg)

lemma spent_future: "store_ok w s \<Longrightarrow> w < v \<Longrightarrow> spent s v k = 0"
  by (auto simp: spent_def Let_def count_at_future)

lemma map_of_filter_window:
  assumes "distinct (map fst m)"
  shows "map_of (filter (\<lambda>(k, e). \<not> le_window e < w) m) k =
    (case map_of m k of Some e \<Rightarrow> if le_window e < w then None else Some e | None \<Rightarrow> None)"
  using assms
proof (induction m)
  case (Cons x m)
  then show ?case by (cases x) (auto simp: map_of_eq_None_iff image_iff split: option.splits if_splits)
qed simp

lemma count_at_filter:
  assumes "distinct (map fst m)"
  shows "count_at (filter (\<lambda>(k, e). \<not> le_window e < w) m) k w = count_at m k w"
  unfolding count_at_def map_of_filter_window [OF assms] by (auto split: option.splits)

lemma distinct_filter_fst: "distinct (map fst m) \<Longrightarrow> distinct (map fst (filter P m))"
  by (rule distinct_map_filter)

lemma gcLocked_ok [step_inv]: "store_ok w s \<Longrightarrow> store_ok w (gcLocked v now d s)"
  by (auto simp: gcLocked_def store_ok_def distinct_filter_fst)

lemma gcLocked_params [simp]:
  "maxKeys (gcLocked v now d s) = maxKeys s" "maxPer48 (gcLocked v now d s) = maxPer48 s"
  by (simp_all add: gcLocked_def)

lemma gcLocked_full:
  "maxKeys s \<le> int (length (entries (gcLocked w now d s))) \<Longrightarrow> lastSweptWindow (gcLocked w now d s) = w"
  by (auto simp: gcLocked_def split: if_splits)

lemma gcLocked_candidate: "store_ok w s \<Longrightarrow> candidate (gcLocked w now d s) w k = candidate s w k"
  by (auto simp: candidate_def gcLocked_def count_at_filter store_ok_def split: option.splits)

lemma gcLocked_count: "store_ok w s \<Longrightarrow> count_at (entries (gcLocked w now d s)) k w = count_at (entries s) k w"
  by (auto simp: gcLocked_def count_at_filter store_ok_def)

lemma gcLocked_untracked:
  assumes "store_ok w s" "map_of (entries (gcLocked w now d s)) k = None"
  shows "count_at (entries s) k w = 0"
  using assms(2) gcLocked_count [OF assms(1), of now d k] by (simp add: count_at_def)

lemma gcLocked_tracked:
  assumes "store_ok w s" "map_of (entries (gcLocked w now d s)) k \<noteq> None"
  shows "map_of (entries s) k \<noteq> None"
  using assms by (auto simp: gcLocked_def map_of_filter_window store_ok_def split: if_splits option.splits)

lemma gcLocked_spent:
  assumes "store_ok w s"
  shows "spent s w k \<le> spent (gcLocked w now d s) w k"
proof -
  let ?g = "gcLocked w now d s"
  note c = gcLocked_count [OF assms, of now d] and nn = spent_nonneg [OF gcLocked_ok [OF assms]]
  show ?thesis
  proof (cases "spent s w k = 0")
    case True
    then show ?thesis using nn by simp
  next
    case False
    show ?thesis
    proof (cases "w = lastSweptWindow s")
      case True
      then show ?thesis by (simp add: gcLocked_def)
    next
      case swept: False
      have keep: "map_of (entries ?g) x \<noteq> None" if "count_at (entries s) x w \<noteq> 0" for x
        using gcLocked_untracked [OF assms, of now d x] that by blast
      have "map_of (entries s) k \<noteq> None \<and> count_at (entries s) k w \<noteq> 0 \<or>
          map_of (entries s) k = None \<and> count_at (entries s) (candidate s w k) w \<noteq> 0"
        using False swept by (auto simp: spent_def Let_def split: if_splits)
      then show ?thesis
      proof
        assume "map_of (entries s) k \<noteq> None \<and> count_at (entries s) k w \<noteq> 0"
        then show ?thesis using keep [of k] c by (simp add: spent_def)
      next
        assume a: "map_of (entries s) k = None \<and> count_at (entries s) (candidate s w k) w \<noteq> 0"
        then have "map_of (entries ?g) k = None" using gcLocked_tracked [OF assms, of now d k] by blast
        moreover have "map_of (entries s) (candidate s w k) \<noteq> None" using a by (auto simp: count_at_def split: option.splits)
        ultimately show ?thesis using a keep [of "candidate s w k"] c
          by (simp add: spent_def Let_def gcLocked_candidate [OF assms])
      qed
    qed
  qed
qed

text \<open>Admission only touches the per-/48 allowances, and only while there is room.\<close>

lemma admitLocked_cases:
  assumes "admitLocked k w s = (s', r)"
  shows "entries s' = entries s" "maxKeys s' = maxKeys s" "maxPer48 s' = maxPer48 s"
    "lastSweptWindow s' = lastSweptWindow s"
    "r = (if map_of (entries s) (candidate s w k) = None \<and> maxKeys s \<le> int (length (entries s))
          then localOverflowKey else candidate s w k)"
    "s' = s \<or> int (length (entries s)) < maxKeys s \<and> candidate s w k = k \<and>
       (\<exists>p. slash48Key k = Some p \<and> count_at (per48 s) p w < maxPer48 s \<and>
          per48 s' = AList.update p \<lparr>le_window = w, le_count = count_at (per48 s) p w + 1\<rparr> (per48 s))"
proof -
  have c: "le_count (if le_window (entry_of m p) \<noteq> w then \<lparr>le_window = w, le_count = 0\<rparr> else entry_of m p) = count_at m p w"
    and c': "(if le_window (entry_of m p) \<noteq> w then \<lparr>le_window = w, le_count = 0\<rparr> else entry_of m p)\<lparr>le_count := x\<rparr> =
      \<lparr>le_window = w, le_count = x\<rparr>" for m p x
    by (auto simp: entry_of_def count_at_def split: option.splits)
  note d = assms [unfolded admitLocked_def Let_def c c']
  show "entries s' = entries s" "maxKeys s' = maxKeys s" "maxPer48 s' = maxPer48 s"
    "lastSweptWindow s' = lastSweptWindow s"
    using d by (auto split: option.splits if_splits)
  show "r = (if map_of (entries s) (candidate s w k) = None \<and> maxKeys s \<le> int (length (entries s))
          then localOverflowKey else candidate s w k)"
    using d by (auto simp: candidate_def split: option.splits if_splits)
  show "s' = s \<or> int (length (entries s)) < maxKeys s \<and> candidate s w k = k \<and>
       (\<exists>p. slash48Key k = Some p \<and> count_at (per48 s) p w < maxPer48 s \<and>
          per48 s' = AList.update p \<lparr>le_window = w, le_count = count_at (per48 s) p w + 1\<rparr> (per48 s))"
    using d by (auto simp: candidate_def split: option.splits if_splits)
qed

lemma count_at_update: "count_at (AList.update r e m) k w = (if k = r then (if le_window e = w then le_count e else 0) else count_at m k w)"
  by (simp add: count_at_def update_conv')

lemma admitLocked_candidate:
  assumes "admitLocked k w s = (s', r)"
  shows "candidate s' w x = candidate s w x \<or> int (length (entries s)) < maxKeys s \<and> candidate s w x = x"
  using admitLocked_cases(6) [OF assms] admitLocked_cases(3) [OF assms]
  by (auto simp: candidate_def count_at_update split: option.splits if_splits)

lemma admitLocked_spent:
  assumes "admitLocked k w s = (s', r)" "store_ok w s"
  shows "spent s w x \<le> spent s' w x"
proof (cases "candidate s' w x = candidate s w x")
  case True
  then show ?thesis by (simp add: spent_def Let_def admitLocked_cases(1,2,4) [OF assms(1)])
next
  case False
  then have c: "int (length (entries s)) < maxKeys s" "candidate s w x = x"
    using admitLocked_candidate [OF assms(1)] by blast+
  have "store_ok w s'" if "distinct (map fst (per48 s'))"
    using that assms(2) admitLocked_cases(1) [OF assms(1)] by (simp add: store_ok_def)
  moreover have "distinct (map fst (per48 s'))"
    using admitLocked_cases(6) [OF assms(1)] assms(2) by (auto simp: store_ok_def distinct_update)
  ultimately have "0 \<le> spent s' w x" by (intro spent_nonneg) auto
  then show ?thesis using c by (auto simp: spent_def Let_def admitLocked_cases(1) [OF assms(1)])
qed

text \<open>The bucket that is charged, with everything the take does before the increment.\<close>

lemma tag_not_overflow: "localPer48BucketTag @ p \<noteq> localOverflowKey"
  by (simp add: localPer48BucketTag_def localOverflowKey_def)

lemma plain_not_shared: "plain_key k \<Longrightarrow> k \<noteq> localOverflowKey" "plain_key k \<Longrightarrow> k \<noteq> localPer48BucketTag @ p"
  by (auto simp: plain_key_def localPer48BucketTag_def localOverflowKey_def)

lemma candidate_not_overflow: "plain_key k \<Longrightarrow> candidate s w k \<noteq> localOverflowKey"
  using plain_not_shared(1) tag_not_overflow by (auto simp: candidate_def split: option.splits)

lemma candidate_plain: "plain_key x \<Longrightarrow> candidate s w k = x \<Longrightarrow> k = x"
  using plain_not_shared(2) by (fastforce simp: candidate_def split: option.splits if_splits)

definition charge_entry :: "string \<Rightarrow> int \<Rightarrow> localStore \<Rightarrow> localStore" where
  "charge_entry r w s = s\<lparr>entries := AList.update r \<lparr>le_window = w, le_count = count_at (entries s) r w + 1\<rparr> (entries s)\<rparr>"

lemma local_take_eq:
  "local_take k w limit now d s =
     (let (s2, r) = take_key k w now d s; n = count_at (entries s2) r w + 1
      in (charge_entry r w s2, n, n \<le> limit))"
proof -
  have "(if le_window (entry_of m r) \<noteq> w then \<lparr>le_window = w, le_count = 0\<rparr> else entry_of m r) =
      \<lparr>le_window = w, le_count = count_at m r w\<rparr>" for m r
    by (auto simp: entry_of_def count_at_def split: option.splits)
  then show ?thesis
    unfolding local_take_def charge_entry_def Let_def by (simp split: prod.splits)
qed

lemma charge_entry_simps [simp]:
  "maxKeys (charge_entry r w s) = maxKeys s" "maxPer48 (charge_entry r w s) = maxPer48 s"
  "per48 (charge_entry r w s) = per48 s" "lastSweptWindow (charge_entry r w s) = lastSweptWindow s"
  "candidate (charge_entry r w s) v k = candidate s v k"
  by (simp_all add: charge_entry_def candidate_def cong: option.case_cong)

lemma charge_entry_entries:
  "entries (charge_entry r w s) = AList.update r \<lparr>le_window = w, le_count = count_at (entries s) r w + 1\<rparr> (entries s)"
  by (simp add: charge_entry_def)

lemma charge_entry_count:
  "count_at (entries (charge_entry r w s)) k w = (if k = r then count_at (entries s) r w + 1 else count_at (entries s) k w)"
  by (simp add: charge_entry_def count_at_update)

lemma charge_entry_tracked: "map_of (entries (charge_entry r w s)) k \<noteq> None \<longleftrightarrow> k = r \<or> map_of (entries s) k \<noteq> None"
  by (simp add: charge_entry_def update_conv')

lemma charge_entry_length: "length (entries s) \<le> length (entries (charge_entry r w s))"
proof -
  have "length m \<le> length (AList.update r e m)" for e :: localEntry and m
    by (induction m) auto
  then show ?thesis by (simp add: charge_entry_def)
qed

text \<open>The state of a take just before the increment: the bucket is tracked, or new and there is room, or the overflow.\<close>

lemma take_key_cases:
  assumes ok: "store_ok w s" and tk: "take_key k w now d s = (s2, r)" and plain: "plain_key k"
  shows "store_ok w s2" "\<And>x. spent s w x \<le> spent s2 w x \<or> x = r \<and> spent s w x = 0"
    "map_of (entries s2) r \<noteq> None \<or> r = localOverflowKey \<or> int (length (entries s2)) < maxKeys s2"
    "spent s w k \<le> count_at (entries s2) r w"
    "r = k \<or> map_of (entries s2) k = None \<and>
      (r = candidate s2 w k \<or> map_of (entries s2) (candidate s2 w k) = None \<and> r = localOverflowKey \<and>
        maxKeys s2 \<le> int (length (entries s2)) \<and> lastSweptWindow s2 = w)"
    "plain_key r \<Longrightarrow> r = k"
proof -
  define s1 where "s1 = gcLocked w now d s"
  have ok1: "store_ok w s1" unfolding s1_def by (rule gcLocked_ok [OF ok])
  have le1: "spent s w x \<le> spent s1 w x" for x unfolding s1_def by (rule gcLocked_spent [OF ok])
  have full1: "maxKeys s1 \<le> int (length (entries s1)) \<Longrightarrow> lastSweptWindow s1 = w"
    using gcLocked_full [of s w now d] by (simp add: s1_def)
  let ?all = "store_ok w s2 \<and> (\<forall>x. spent s w x \<le> spent s2 w x \<or> x = r \<and> spent s w x = 0) \<and>
    (map_of (entries s2) r \<noteq> None \<or> r = localOverflowKey \<or> int (length (entries s2)) < maxKeys s2) \<and>
    spent s w k \<le> count_at (entries s2) r w \<and>
    (r = k \<or> map_of (entries s2) k = None \<and>
      (r = candidate s2 w k \<or> map_of (entries s2) (candidate s2 w k) = None \<and> r = localOverflowKey \<and>
        maxKeys s2 \<le> int (length (entries s2)) \<and> lastSweptWindow s2 = w)) \<and> (plain_key r \<longrightarrow> r = k)"
  have ?all
  proof (cases "map_of (entries s1) k = None")
    case False
    then have "s2 = s1" "r = k" using tk by (auto simp: take_key_def s1_def [symmetric] Let_def split: if_splits)
    then show ?thesis using False ok1 le1 le1 [of k] by (auto simp: spent_def split: if_splits)
  next
    case True
    then have ad: "admitLocked k w s1 = (s2, r)" using tk by (simp add: take_key_def s1_def [symmetric] Let_def)
    note a = admitLocked_cases [OF ad]
    have ok2: "store_ok w s2" using ok1 a(1,6) by (auto simp: store_ok_def distinct_update)
    have le2: "spent s w x \<le> spent s2 w x" for x using le1 [of x] admitLocked_spent [OF ad ok1, of x] by linarith
    let ?c = "candidate s1 w k"
    show ?thesis
    proof (cases "map_of (entries s1) ?c = None \<and> maxKeys s1 \<le> int (length (entries s1))")
      case over: True
      then have r: "r = localOverflowKey" "s2 = s1" using a(5,6) by auto
      have "spent s1 w k = count_at (entries s1) localOverflowKey w"
        using over True full1 by (simp add: spent_def Let_def)
      then show ?thesis using r over True full1 ok2 le2 le1 [of k] plain_not_shared(1) by auto
    next
      case room: False
      then have r: "r = ?c" using a(5) by auto
      have sp: "spent s1 w k \<le> count_at (entries s2) r w"
        using True room r count_at_nonneg [OF ok1] by (auto simp: spent_def Let_def a(1))
      have tr: "map_of (entries s2) r \<noteq> None \<or> int (length (entries s2)) < maxKeys s2" using room r a(1,2) by auto
      have "r = k \<or> map_of (entries s2) k = None \<and> r = candidate s2 w k"
        using True r a(1,6) admitLocked_candidate [OF ad, of k] by auto
      moreover have "plain_key r \<longrightarrow> r = k" using candidate_plain [of r s1 w k] r by blast
      ultimately show ?thesis using ok2 le2 tr sp le1 [of k] by auto
    qed
  qed
  then show "store_ok w s2" "\<And>x. spent s w x \<le> spent s2 w x \<or> x = r \<and> spent s w x = 0"
    "map_of (entries s2) r \<noteq> None \<or> r = localOverflowKey \<or> int (length (entries s2)) < maxKeys s2"
    "spent s w k \<le> count_at (entries s2) r w"
    "r = k \<or> map_of (entries s2) k = None \<and>
      (r = candidate s2 w k \<or> map_of (entries s2) (candidate s2 w k) = None \<and> r = localOverflowKey \<and>
        maxKeys s2 \<le> int (length (entries s2)) \<and> lastSweptWindow s2 = w)"
    "plain_key r \<Longrightarrow> r = k"
    by blast+
qed

lemma charge_entry_ok: "store_ok w s \<Longrightarrow> store_ok w (charge_entry r w s)"
proof -
  assume ok: "store_ok w s"
  have "x \<in> set (AList.update r e m) \<Longrightarrow> x = (r, e) \<or> x \<in> set m" for x and e :: localEntry and m
    by (induction m) (auto split: if_splits)
  then show ?thesis using ok count_at_nonneg [OF ok, of r w]
    by (fastforce simp: store_ok_def charge_entry_def distinct_update)
qed

lemma charge_entry_spent_other:
  assumes ok: "store_ok w s2" and x: "plain_key x" "x \<noteq> r"
    and r: "map_of (entries s2) r \<noteq> None \<or> r = localOverflowKey \<or> int (length (entries s2)) < maxKeys s2"
  shows "spent s2 w x \<le> spent (charge_entry r w s2) w x"
proof -
  let ?s = "charge_entry r w s2" and ?c = "candidate s2 w x"
  have mono: "count_at (entries s2) y w \<le> count_at (entries ?s) y w" for y
    by (simp add: charge_entry_count)
  have nn: "0 \<le> spent ?s w x" by (rule spent_nonneg [OF charge_entry_ok [OF ok]])
  have tx: "map_of (entries ?s) x \<noteq> None \<longleftrightarrow> map_of (entries s2) x \<noteq> None" using x(2) charge_entry_tracked [of r w s2 x] by simp
  show ?thesis
  proof (cases "map_of (entries s2) x \<noteq> None \<or> map_of (entries s2) ?c \<noteq> None")
    case True
    then have "map_of (entries s2) x \<noteq> None \<or> map_of (entries ?s) ?c \<noteq> None" using charge_entry_tracked by blast
    then show ?thesis using True mono tx by (auto simp: spent_def Let_def)
  next
    case False
    show ?thesis
    proof (cases "map_of (entries ?s) ?c = None")
      case True
      then show ?thesis using False tx mono [of localOverflowKey] charge_entry_length [of s2 r w] count_at_nonneg [OF charge_entry_ok [OF ok]]
        by (auto simp: spent_def Let_def)
    next
      case new: False
      then have "r = ?c" using False charge_entry_tracked [of r w s2 ?c] by blast
      then have "int (length (entries s2)) < maxKeys s2" using r False candidate_not_overflow [OF x(1)] by auto
      then have "spent s2 w x = 0" using False by (simp add: spent_def Let_def)
      then show ?thesis using nn by simp
    qed
  qed
qed

lemma charge_entry_spent_own:
  assumes k: "plain_key k"
    and r: "r = k \<or> map_of (entries s2) k = None \<and>
      (r = candidate s2 w k \<or> map_of (entries s2) (candidate s2 w k) = None \<and> r = localOverflowKey \<and>
        maxKeys s2 \<le> int (length (entries s2)) \<and> lastSweptWindow s2 = w)"
  shows "spent (charge_entry r w s2) w k = count_at (entries s2) r w + 1"
proof (cases "r = k")
  case True
  then show ?thesis using charge_entry_tracked [of r w s2 k] by (simp add: spent_def charge_entry_count)
next
  case False
  let ?s = "charge_entry r w s2"
  have unt: "map_of (entries ?s) k = None" using False r charge_entry_tracked [of r w s2 k] by auto
  show ?thesis
  proof (cases "r = candidate s2 w k")
    case True
    then have "map_of (entries ?s) (candidate s2 w k) \<noteq> None" using charge_entry_tracked by blast
    then show ?thesis using unt True by (simp add: spent_def Let_def charge_entry_count)
  next
    case over: False
    then have o: "map_of (entries s2) (candidate s2 w k) = None" "r = localOverflowKey"
      "maxKeys s2 \<le> int (length (entries s2))" "lastSweptWindow s2 = w" using r False by auto
    then have "map_of (entries ?s) (candidate s2 w k) = None"
      using charge_entry_tracked [of r w s2 "candidate s2 w k"] over by auto
    moreover have "maxKeys s2 \<le> int (length (entries ?s))" using o(3) charge_entry_length [of s2 r w] by linarith
    ultimately show ?thesis using unt o by (simp add: spent_def Let_def charge_entry_count)
  qed
qed

lemma local_take_spent:
  assumes ok: "store_ok w s" and t: "local_take k w limit now d s = (s', n, al)" and k: "plain_key k"
  shows "store_ok w s'" "\<And>x. plain_key x \<Longrightarrow> spent s w x \<le> spent s' w x" "spent s w k < n" "n = spent s' w k" "al \<longleftrightarrow> n \<le> limit"
proof -
  obtain s2 r where tk: "take_key k w now d s = (s2, r)" by fastforce
  note c = take_key_cases [OF ok tk k]
  have s': "s' = charge_entry r w s2" and n: "n = count_at (entries s2) r w + 1" and al: "al \<longleftrightarrow> n \<le> limit"
    using t by (auto simp: local_take_eq tk Let_def)
  show "store_ok w s'" unfolding s' by (rule charge_entry_ok [OF c(1)])
  show "spent s w k < n" using c(4) n by simp
  show own: "n = spent s' w k" using charge_entry_spent_own [OF k c(5)] n s' by simp
  show "al \<longleftrightarrow> n \<le> limit" by (rule al)
  fix x assume x: "plain_key x"
  show "spent s w x \<le> spent s' w x"
  proof (cases "x = r")
    case True
    then have "x = k" using c(6) x by simp
    then show ?thesis using own c(4) n by simp
  next
    case False
    then have "spent s w x \<le> spent s2 w x" using c(2) [of x] by blast
    also have "\<dots> \<le> spent s' w x" unfolding s' by (rule charge_entry_spent_other [OF c(1) x False c(3)])
    finally show ?thesis .
  qed
qed

text \<open>A history of takes with one limit: the answers.\<close>

fun takes :: "int \<Rightarrow> duration \<Rightarrow> localStore \<Rightarrow> (string \<times> int \<times> gotime) list \<Rightarrow> bool list" where
  "takes limit d s [] = []"
| "takes limit d s ((k, w, now) # ops) =
     (case local_take k w limit now d s of (s', _, al) \<Rightarrow> al # takes limit d s' ops)"

definition admitted :: "string \<Rightarrow> int \<Rightarrow> (string \<times> int \<times> gotime) list \<Rightarrow> bool list \<Rightarrow> nat" where
  "admitted k w ops answers = length (filter (\<lambda>((k', w', _), al). k' = k \<and> w' = w \<and> al) (zip ops answers))"

lemma admitted_later: "\<forall>(k', w', now) \<in> set ops. w < w' \<Longrightarrow> admitted k w ops answers = 0"
  by (auto simp: admitted_def filter_empty_conv dest: set_zip_leftD)

lemma admitted_bound:
  assumes "store_ok w0 s" "sorted (w0 # map (\<lambda>(k, w, now). w) ops)" "\<forall>(k, w, now) \<in> set ops. plain_key k" "plain_key k"
  shows "int (admitted k w ops (takes limit d s ops)) \<le> max 0 (limit - spent s w k)"
  using assms
proof (induction ops arbitrary: s w0)
  case Nil
  then show ?case by (simp add: admitted_def)
next
  case (Cons op ops)
  obtain k' w' now where op: "op = (k', w', now)" by (cases op)
  obtain s' n al where t: "local_take k' w' limit now d s = (s', n, al)" by (metis prod_cases3)
  have ok: "store_ok w' s" using Cons.prems(1,2) by (auto simp: op intro: store_ok_mono)
  have pk: "plain_key k'" using Cons.prems(3) by (simp add: op)
  note l = local_take_spent [OF ok t pk]
  have ih: "int (admitted k w ops (takes limit d s' ops)) \<le> max 0 (limit - spent s' w k)"
    using Cons.prems by (intro Cons.IH [OF l(1)]) (auto simp: op)
  have split: "admitted k w (op # ops) (takes limit d s (op # ops)) =
      (if k' = k \<and> w' = w \<and> al then 1 else 0) + admitted k w ops (takes limit d s' ops)"
    by (simp add: op t admitted_def)
  show ?case
  proof (cases "w' = w")
    case True
    have "spent s w k \<le> spent s' w k" using l(2) [OF Cons.prems(4)] True by simp
    then show ?thesis using split ih l(3,4,5) True by (auto split: if_splits)
  next
    case False
    show ?thesis
    proof (cases "w' < w")
      case True
      have "spent s w k = 0" "spent s' w k = 0" using spent_future [OF ok True] spent_future [OF l(1) True] by auto
      then show ?thesis using split ih False by simp
    next
      case later: False
      have "admitted k w ops (takes limit d s' ops) = 0"
        by (rule admitted_later) (use Cons.prems(2) later False in \<open>fastforce simp: op\<close>)
      then show ?thesis using split False by simp
    qed
  qed
qed

lemma empty_store_ok: "entries s = [] \<Longrightarrow> per48 s = [] \<Longrightarrow> store_ok w s \<and> spent s v k = 0"
  by (simp add: store_ok_def spent_def Let_def count_at_def)

text \<open>
  C29. The in-process limiter never fails open: over any history of takes with windows that do not go back,
  from a new store of any capacity, no client key is admitted more than \<open>limit\<close> times in one window,
  whatever other keys do: sweeping, the shared bucket of a /48 and the overflow bucket never give a key
  a second budget.
\<close>

theorem local_limit_enforced:
  assumes "sorted (map (\<lambda>(k, w, now). w) ops)" "\<forall>(k, w, now) \<in> set ops. plain_key k" "0 \<le> limit"
  shows "int (admitted k w ops (takes limit d (newLocalStore\<lparr>maxKeys := mk, maxPer48 := mp\<rparr>) ops)) \<le> limit"
proof (cases "ops = [] \<or> \<not> plain_key k")
  case True
  then have "admitted k w ops (takes limit d (newLocalStore\<lparr>maxKeys := mk, maxPer48 := mp\<rparr>) ops) = 0"
    using assms(2) by (auto simp: admitted_def filter_empty_conv dest: set_zip_leftD)
  then show ?thesis using assms(3) by simp
next
  case False
  let ?s = "newLocalStore\<lparr>maxKeys := mk, maxPer48 := mp\<rparr>"
  let ?w0 = "(case hd ops of (k, w, now) \<Rightarrow> w)"
  have e: "store_ok ?w0 ?s \<and> spent ?s w k = 0" by (rule empty_store_ok) (simp_all add: newLocalStore_def)
  have "sorted (?w0 # map (\<lambda>(k, w, now). w) ops)" using assms(1) False by (cases ops) auto
  then show ?thesis using admitted_bound [of ?w0 ?s ops k w limit d] e assms False by auto
qed

section \<open>The in-process store is bounded\<close>

fun run_takes :: "int \<Rightarrow> duration \<Rightarrow> localStore \<Rightarrow> (string \<times> int \<times> gotime) list \<Rightarrow> localStore" where
  "run_takes limit d s [] = s"
| "run_takes limit d s ((k, w, now) # ops) = run_takes limit d (fst (local_take k w limit now d s)) ops"

definition private_buckets :: "localStore \<Rightarrow> nat" where
  "private_buckets s = length (filter (\<lambda>(k, e). k \<noteq> localOverflowKey) (entries s))"

lemma length_overflow_entries:
  "distinct (map fst m) \<Longrightarrow> length m \<le> length (filter (\<lambda>(k, e). k \<noteq> o') m) + 1"
proof (induction m)
  case (Cons x m)
  show ?case
  proof (cases "fst x = o'")
    case True
    then have "filter (\<lambda>(k, e). k \<noteq> o') m = m" using Cons.prems by (auto intro!: filter_True) (metis fst_conv image_eqI)
    then show ?thesis using True by (cases x) simp
  next
    case False
    then show ?thesis using Cons by (cases x) simp
  qed
qed simp

lemma private_buckets_update:
  "length (filter (\<lambda>(k, e). k \<noteq> o') (AList.update r e m)) \<le>
     (if map_of m r \<noteq> None \<or> r = o' then length (filter (\<lambda>(k, e). k \<noteq> o') m) else length m + 1)"
  by (induction m) (auto split: if_splits)

lemma local_take_private:
  assumes "store_ok w s" "plain_key k" "int (private_buckets s) \<le> maxKeys s" "local_take k w limit now d s = (s', n, al)"
  shows "int (private_buckets s') \<le> maxKeys s' \<and> maxKeys s' = maxKeys s"
proof -
  obtain s2 r where tk: "take_key k w now d s = (s2, r)" by fastforce
  have sub: "private_buckets s2 \<le> private_buckets s \<and> maxKeys s2 = maxKeys s"
  proof -
    let ?g = "gcLocked w now d s"
    have "private_buckets ?g \<le> private_buckets s"
      by (auto simp: private_buckets_def gcLocked_def filter_filter intro!: length_filter_mono)
    moreover have "entries s2 = entries ?g \<and> maxKeys s2 = maxKeys s"
      using tk admitLocked_cases(1,2) [of k w ?g s2 r]
      by (auto simp: take_key_def Let_def split: if_splits)
    ultimately show ?thesis by (simp add: private_buckets_def)
  qed
  have s': "s' = charge_entry r w s2" using assms(4) by (auto simp: local_take_eq tk Let_def)
  have "private_buckets s' \<le> (if map_of (entries s2) r \<noteq> None \<or> r = localOverflowKey
      then private_buckets s2 else length (entries s2) + 1)"
    unfolding s' private_buckets_def charge_entry_entries by (rule private_buckets_update)
  then show ?thesis using take_key_cases(3) [OF assms(1) tk assms(2)] sub assms(3) by (auto simp: s' split: if_splits)
qed

text \<open>
  The store is bounded whatever keys arrive: after any history of takes with windows that do not go
  back it holds at most \<open>maxKeys\<close> buckets and the shared overflow bucket.
\<close>

theorem local_store_bounded:
  assumes "sorted (map (\<lambda>(k, w, now). w) ops)" "\<forall>(k, w, now) \<in> set ops. plain_key k" "0 \<le> mk"
  shows "int (length (entries (run_takes limit d (newLocalStore\<lparr>maxKeys := mk, maxPer48 := mp\<rparr>) ops))) \<le> mk + 1"
proof -
  have *: "int (length (entries (run_takes limit d s ops))) \<le> maxKeys s + 1"
    if "store_ok w0 s" "sorted (w0 # map (\<lambda>(k, w, now). w) ops)" "\<forall>(k, w, now) \<in> set ops. plain_key k"
      "int (private_buckets s) \<le> maxKeys s" for w0 s ops
    using that
  proof (induction ops arbitrary: s w0)
    case Nil
    then show ?case using length_overflow_entries [of "entries s" localOverflowKey]
      by (simp add: store_ok_def private_buckets_def)
  next
    case (Cons op ops)
    obtain k w now where op: "op = (k, w, now)" by (cases op)
    obtain s' n al where t: "local_take k w limit now d s = (s', n, al)" by (metis prod_cases3)
    have ok: "store_ok w s" using Cons.prems(1,2) by (auto simp: op intro: store_ok_mono)
    have pk: "plain_key k" using Cons.prems(3) by (simp add: op)
    have "store_ok w s'" by (rule local_take_spent(1) [OF ok t pk])
    then have "int (length (entries (run_takes limit d s' ops))) \<le> maxKeys s' + 1"
      using Cons.prems local_take_private [OF ok pk Cons.prems(4) t] by (intro Cons.IH) (auto simp: op)
    then show ?case using local_take_private [OF ok pk Cons.prems(4) t] by (simp add: op t)
  qed
  let ?s = "newLocalStore\<lparr>maxKeys := mk, maxPer48 := mp\<rparr>"
  let ?w0 = "(case ops of [] \<Rightarrow> 0 | op # _ \<Rightarrow> (case op of (k, w, now) \<Rightarrow> w))"
  have "store_ok ?w0 ?s" using empty_store_ok [of ?s] by (simp add: newLocalStore_def)
  moreover have "sorted (?w0 # map (\<lambda>(k, w, now). w) ops)" using assms(1) by (cases ops) auto
  ultimately show ?thesis using * [of ?w0 ?s ops] assms(2,3) by (simp add: private_buckets_def newLocalStore_def)
qed

section \<open>The two backends give one verdict\<close>

text \<open>Documented behaviour of the commands: INCRBY adds to the stored number (absent is 0); EXPIRE keeps it.\<close>

definition redis_counts :: "'s redis \<Rightarrow> ('s \<Rightarrow> string \<Rightarrow> int) \<Rightarrow> bool" where
  "redis_counts r val \<longleftrightarrow>
     (\<forall>key n st. snd (INCRBY r key n st) = val st key + n \<and>
        val (fst (INCRBY r key n st)) = (val st)(key := val st key + n)) \<and>
     (\<forall>key ttl st. val (EXPIRE r key ttl st) = val st)"

lemma lua_counts:
  assumes "redis_counts r val"
  shows "fst (snd (lua r key ttl mx cost st)) = val st key + cost \<and>
    val (fst (lua r key ttl mx cost st)) = (val st)(key := val st key + cost)"
proof -
  obtain st1 cur where i: "INCRBY r key cost st = (st1, cur)" by fastforce
  have inc: "snd (INCRBY r key cost st) = val st key + cost" "val (fst (INCRBY r key cost st)) = (val st)(key := val st key + cost)"
    and exp: "val (EXPIRE r key ttl st1) = val st1"
    using assms unfolding redis_counts_def by blast+
  then show ?thesis by (simp add: lua_def i Let_def)
qed

definition own_bucket :: "localStore \<Rightarrow> int \<Rightarrow> gotime \<Rightarrow> duration \<Rightarrow> string \<Rightarrow> bool" where
  "own_bucket s w now d k \<longleftrightarrow> snd (take_key k w now d s) = k"

lemma own_bucket_take:
  assumes ok: "store_ok w s" and own: "own_bucket s w now d k"
  shows "\<exists>s'. local_take k w limit now d s = (s', count_at (entries s) k w + 1, count_at (entries s) k w + 1 \<le> limit) \<and>
    store_ok w s' \<and> own_bucket s' w now d k \<and> count_at (entries s') k w = count_at (entries s) k w + 1"
proof -
  obtain s2 where tk: "take_key k w now d s = (s2, k)" using own by (metis own_bucket_def prod.collapse)
  let ?g = "gcLocked w now d s"
  have e: "entries s2 = entries ?g \<and> distinct (map fst (per48 s2))"
    using tk admitLocked_cases(1,6) [of k w ?g s2 k] gcLocked_ok [OF ok, of w now d]
    by (auto simp: take_key_def Let_def store_ok_def distinct_update split: if_splits)
  then have ok2: "store_ok w s2" using gcLocked_ok [OF ok, of w now d] by (simp add: store_ok_def)
  have c: "count_at (entries s2) k w = count_at (entries s) k w" using e gcLocked_count [OF ok] by simp
  let ?s = "charge_entry k w s2"
  have ok3: "store_ok w ?s" by (rule charge_entry_ok [OF ok2])
  have "count_at (entries ?s) k w \<noteq> 0" using count_at_nonneg [OF ok2, of k w] by (simp add: charge_entry_count)
  then have "map_of (entries (gcLocked w now d ?s)) k \<noteq> None" using gcLocked_untracked [OF ok3] by blast
  then have "own_bucket ?s w now d k" by (simp add: own_bucket_def take_key_def Let_def)
  then show ?thesis using ok3 c by (simp add: local_take_eq tk Let_def charge_entry_count)
qed

lemma own_bucket_take_n:
  assumes "store_ok w s" "own_bucket s w now d k"
  shows "\<exists>s'. local_take_n (Suc n) k w limit now d (s, c, al) =
      (s', count_at (entries s) k w + int (Suc n), count_at (entries s) k w + int (Suc n) \<le> limit) \<and>
    store_ok w s' \<and> own_bucket s' w now d k \<and> count_at (entries s') k w = count_at (entries s) k w + int (Suc n)"
  using assms
proof (induction n)
  case 0
  then show ?case using own_bucket_take [of w s now d k limit] by (simp add: local_take_n_def)
next
  case (Suc n)
  then obtain s1 where s1: "local_take_n (Suc n) k w limit now d (s, c, al) =
      (s1, count_at (entries s) k w + int (Suc n), count_at (entries s) k w + int (Suc n) \<le> limit)"
    "store_ok w s1" "own_bucket s1 w now d k" "count_at (entries s1) k w = count_at (entries s) k w + int (Suc n)" by blast
  from own_bucket_take [OF s1(2,3), of limit] s1(4) show ?case
    using s1(1) by (auto simp: local_take_n_def algebra_simps)
qed

text \<open>
  The in-process fallback is equivalent to Redis: when the stored counts agree and the key is counted in
  its own bucket, a charge through the script and the same charge in process give the same result (count,
  verdict, remaining budget and retry time), and leave counts that agree again. The Redis is any store whose
  INCRBY adds and whose EXPIRE keeps the number.
\<close>

theorem charge_backends_agree:
  fixes b :: Bucket and cost limit :: int
  defines "m \<equiv> (if 0 < limit then limit else b_max b)"
  assumes redis: "redis_counts r val"
    and max: "0 < b_max b" "b_local b = None"
    and w: "w = go_quo (time_Unix now1) (window_seconds (b_window b))"
    and s: "store_ok w s" "own_bucket s w now (b_window b) key"
    and agree: "val st (rate_key b key w) = count_at (entries s) key w"
    and run: "run = (\<lambda>k ttl mx c. case lua r k ttl mx c st of (_, cur, t) \<Rightarrow> Inr (RArray [RInt cur, RInt t]))"
  shows "snd (Charge run now1 now2 now key cost limit b) = snd (Charge run' now1 now now3 key cost limit (b\<lparr>b_local := Some s\<rparr>)) \<and>
    (\<exists>s'. b_local (fst (Charge run' now1 now now3 key cost limit (b\<lparr>b_local := Some s\<rparr>))) = Some s' \<and>
      count_at (entries s') key w = val (fst (lua r (rate_key b key w) ttl m (clampCost cost m) st)) (rate_key b key w))"
proof -
  let ?c = "clampCost cost m" and ?k = "rate_key b key w" and ?n = "count_at (entries s) key w"
  have m: "0 < m" using max by (simp add: m_def)
  then have c: "0 < ?c" by (simp add: clampCost_def)
  then obtain j where j: "nat ?c = Suc j" "?c = int (Suc j)" by (metis gr0_implies_Suc zero_less_nat_eq int_nat_eq less_le_not_le)
  obtain s' where s': "local_take_n (nat ?c) key w m now (b_window b) (s, 0, False) = (s', ?n + ?c, ?n + ?c \<le> m)"
    "count_at (entries s') key w = ?n + ?c"
    using own_bucket_take_n [OF s, of j m 0 False] j by auto
  have lua: "fst (snd (lua r ?k t m ?c st)) = ?n + ?c" "val (fst (lua r ?k t m ?c st)) ?k = ?n + ?c" for t
    using lua_counts [OF redis, of ?k t m ?c st] agree by simp_all
  let ?ttl = "if 2 * b_window b div go_second < 1 then 1 else 2 * b_window b div go_second"
  obtain st' cur T where l: "lua r ?k ?ttl m ?c st = (st', cur, T)" by (metis prod_cases3)
  then have "cur = ?n + ?c" using lua(1) [of ?ttl] by simp
  then have reply: "run ?k ?ttl m ?c = Inr (RArray [RInt (?n + ?c), RInt T])" unfolding run l by simp
  have "snd (Charge run now1 now2 now key cost limit b) =
      Inr \<lparr>Allowed = ?n + ?c \<le> m, Remaining = (if m - (?n + ?c) < 0 then 0 else m - (?n + ?c)),
        RetryAfter = (if \<not> ?n + ?c \<le> m then retry_after (b_window b) w now else 0), Count = ?n + ?c\<rparr>"
    using max(2) reply unfolding Charge_def m_def [symmetric] w [symmetric] Let_def by simp
  moreover have "Charge run' now1 now now3 key cost limit (b\<lparr>b_local := Some s\<rparr>) =
      (b\<lparr>b_local := Some s'\<rparr>, Inr \<lparr>Allowed = ?n + ?c \<le> m, Remaining = (if m - (?n + ?c) < 0 then 0 else m - (?n + ?c)),
        RetryAfter = (if \<not> ?n + ?c \<le> m then retry_after (b_window b) w now else 0), Count = ?n + ?c\<rparr>)"
  proof -
    have eq: "(if 0 < limit then limit else b_max (b\<lparr>b_local := Some s\<rparr>)) = m" "b_window (b\<lparr>b_local := Some s\<rparr>) = b_window b"
      by (simp_all add: m_def)
    show ?thesis unfolding Charge_def Let_def eq w [symmetric] localCharge_def by (simp add: s'(1))
  qed
  ultimately show ?thesis using s'(2) lua(2) by simp
qed

section \<open>The fail-open clock\<close>

text \<open>A history of Redis calls: whether each succeeded, and when. The answers are those of the failures.\<close>

fun health :: "Bucket \<Rightarrow> (bool \<times> gotime) list \<Rightarrow> (gotime \<times> bool) list" where
  "health b [] = []"
| "health b ((True, t) # es) = health (observeRedisSuccess t b) es"
| "health b ((False, t) # es) = (case observeRedisFailure t b of (b', unavailable) \<Rightarrow> (t, unavailable) # health b' es)"

text \<open>Every success comes less than a dwell time after the latest failure.\<close>

fun flapping :: "duration \<Rightarrow> gotime \<Rightarrow> (bool \<times> gotime) list \<Rightarrow> bool" where
  "flapping d f [] = True"
| "flapping d f ((True, t) # es) = (f \<le> t \<and> t - f < d \<and> flapping d f es)"
| "flapping d f ((False, t) # es) = (f \<le> t \<and> flapping d t es)"

lemma time_Sub_small: "0 \<le> t - f \<Longrightarrow> t - f < d \<Longrightarrow> d \<le> max_int64 \<Longrightarrow> time_Sub t f = t - f"
  by (simp add: time_Sub_def min_int64_def max_int64_def)

lemma flapping_answers:
  assumes "0 \<le> dwellTime b" "dwellTime b \<le> max_int64" "redisErrorSince b = t0" "0 < t0" "t0 \<le> lastFailure b"
    "healthySince b = 0 \<or> lastFailure b \<le> healthySince b" "flapping (dwellTime b) (lastFailure b) es" "(t, u) \<in> set (health b es)"
  shows "u \<longleftrightarrow> dwellTime b < time_Sub t t0"
  using assms
proof (induction es arbitrary: b)
  case (Cons e es)
  obtain ok n where e: "e = (ok, n)" by (cases e)
  show ?case
  proof (cases ok)
    case True
    have n: "lastFailure b \<le> n" "n - lastFailure b < dwellTime b" using Cons.prems(7) by (simp_all add: e True)
    let ?h = "if time_IsZero (healthySince b) then n else healthySince b"
    have h: "lastFailure b \<le> ?h" using n(1) Cons.prems(6) by (auto simp: time_IsZero_def)
    have a: "time_Sub n ?h < dwellTime b"
      using n(2) h Cons.prems(1,2) by (auto simp: time_Sub_def min_int64_def max_int64_def)
    have b: "\<not> dwellTime b < time_Sub n (lastFailure b)" using n time_Sub_small [of n "lastFailure b" "dwellTime b"] Cons.prems(2) by simp
    have b': "observeRedisSuccess n b = b\<lparr>healthySince := ?h\<rparr>"
      using a b Cons.prems(3,4) by (auto simp: observeRedisSuccess_def time_IsZero_def Let_def)
    show ?thesis using Cons.prems h by (intro Cons.IH [of "observeRedisSuccess n b", unfolded b', simplified]) (auto simp: e True b')
  next
    case False
    let ?b = "b\<lparr>healthySince := 0, lastFailure := n\<rparr>"
    have f: "observeRedisFailure n b = (?b, dwellTime b < time_Sub n t0)"
      using Cons.prems(1,3,4) by (simp add: observeRedisFailure_def time_IsZero_def Let_def)
    have "t0 \<le> n" "flapping (dwellTime b) n es" using Cons.prems(5,7) by (auto simp: e False)
    then show ?thesis using Cons.prems Cons.IH [of ?b] by (auto simp: e False f)
  qed
qed simp

text \<open>
  C33. A sustained outage fails closed and a blip fails open, however Redis flaps. From a healthy limiter, when
  a first failure at \<open>t0\<close> is followed by any mix of calls in which every success comes less than a dwell time
  after the latest failure, exactly the failures more than a dwell time after \<open>t0\<close> are answered
  "unavailable"; the first is not. A success with no failure in the dwell time before it resets the clock, so
  the next failure is let through again.
\<close>

theorem outage_fails_closed:
  assumes "0 \<le> dwellTime b" "dwellTime b \<le> max_int64" "redisErrorSince b = 0" "0 < t0"
    "flapping (dwellTime b) t0 es" "(t, u) \<in> set (health b ((False, t0) # es))"
  shows "(u \<longleftrightarrow> dwellTime b < time_Sub t t0) \<and>
    (\<forall>b' now later. dwellTime b' < time_Sub now (lastFailure b') \<longrightarrow>
       snd (observeRedisFailure later (observeRedisSuccess now b')) = False)"
proof
  let ?b = "b\<lparr>healthySince := 0, lastFailure := t0, redisErrorSince := t0\<rparr>"
  have f: "observeRedisFailure t0 b = (?b, False)"
    using assms(1,3) by (simp add: observeRedisFailure_def time_IsZero_def Let_def)
  have "\<not> dwellTime b < time_Sub t0 t0" using assms(1) by (simp add: time_Sub_def min_int64_def max_int64_def)
  then show "u \<longleftrightarrow> dwellTime b < time_Sub t t0"
    using assms flapping_answers [of ?b t0 es t u] by (auto simp: f)
  show "\<forall>b' now later. dwellTime b' < time_Sub now (lastFailure b') \<longrightarrow>
       snd (observeRedisFailure later (observeRedisSuccess now b')) = False"
    by (auto simp: observeRedisFailure_def observeRedisSuccess_def time_IsZero_def Let_def)
qed

section \<open>Keys\<close>

text \<open>
  Clients do not share budgets by accident: two requests are counted in one Redis key exactly when client
  key and window agree, whatever bytes the client key holds; and the throttle identity of an address is one
  for both spellings of an IPv4 address and for all addresses of an IPv6 /64.
\<close>

theorem rate_keys_separate:
  "(rate_key b k1 w1 = rate_key b k2 w2 \<longleftrightarrow> k1 = k2 \<and> w1 = w2) \<and>
   (ParseAddr ip1 = Some (V6 gs1 z1) \<and> ParseAddr ip2 = Some (V6 gs2 z2) \<and> length gs1 = length gs2 \<and> take 4 gs1 = take 4 gs2 \<and>
      \<not> Is4In6 (V6 gs1 z1) \<and> \<not> Is4In6 (V6 gs2 z2) \<longrightarrow> ThrottleIPKey ip1 = ThrottleIPKey ip2) \<and>
   (ParseAddr ip1 = Some (V4 bs) \<and> ParseAddr ip2 = Some (V6 gs2 z2) \<and> Is4In6 (V6 gs2 z2) \<and> low_bytes gs2 = bs \<longrightarrow>
      ThrottleIPKey ip1 = ThrottleIPKey ip2)"
proof (intro conjI)
  have split: "a @ CHR '':'' # x = c @ CHR '':'' # y \<Longrightarrow> CHR '':'' \<notin> set a \<Longrightarrow> CHR '':'' \<notin> set c \<Longrightarrow> a = c \<and> x = y"
    for a c x y :: string
  proof (induction a arbitrary: c)
    case Nil
    then show ?case by (cases c) auto
  next
    case (Cons z a)
    then show ?case by (cases c) auto
  qed
  have inj: "int_String i = int_String j \<Longrightarrow> i = j" for i j using SetString10_int_String by (metis option.inject)
  show "rate_key b k1 w1 = rate_key b k2 w2 \<longleftrightarrow> k1 = k2 \<and> w1 = w2"
  proof
    assume "rate_key b k1 w1 = rate_key b k2 w2"
    then have "QueryEscape k1 @ CHR '':'' # int_String w1 = QueryEscape k2 @ CHR '':'' # int_String w2"
      by (simp add: rate_key_def)
    then have "QueryEscape k1 = QueryEscape k2" "int_String w1 = int_String w2"
      using split QueryEscape_no_colon by blast+
    then show "k1 = k2 \<and> w1 = w2" using inj QueryEscape_inject by blast
  qed simp
qed (auto simp: ThrottleIPKey_def)

section \<open>Concrete inputs\<close>

definition sample_takes :: "(string \<times> int \<times> gotime) list" where
  "sample_takes = [(''alice'', 1, 60), (''bob'', 1, 61), (''alice'', 1, 62), (''alice'', 2, 120)]"

lemma sample_takes_ok: "sorted (map (\<lambda>(k, w, now). w) sample_takes)" "\<forall>(k, w, now) \<in> set sample_takes. plain_key k"
  by (simp_all add: sample_takes_def plain_key_def)

theorem local_limit_enforced_witness:
  "int (admitted ''alice'' 1 sample_takes (takes 1 60 (newLocalStore\<lparr>maxKeys := 1, maxPer48 := 1\<rparr>) sample_takes)) \<le> 1"
  by (rule local_limit_enforced [OF sample_takes_ok]) simp

theorem local_store_bounded_witness:
  "int (length (entries (run_takes 1 60 (newLocalStore\<lparr>maxKeys := 1, maxPer48 := 1\<rparr>) sample_takes))) \<le> 1 + 1"
  by (rule local_store_bounded [OF sample_takes_ok]) simp

definition map_redis :: "(string \<Rightarrow> int) redis" where
  "map_redis = \<lparr>INCRBY = (\<lambda>k n st. (st(k := st k + n), st k + n)), EXPIRE = (\<lambda>k ttl st. st), TTL = (\<lambda>k st. 1)\<rparr>"

definition sample_bucket :: Bucket where
  "sample_bucket = \<lparr>b_max = 5, b_window = 60 * go_second, keyPrefix = ''rl:'', dwellTime = DefaultDwellTime, b_local = None,
     redisErrorSince = 0, healthySince = 0, lastFailure = 0\<rparr>"

theorem charge_backends_agree_witness:
  "snd (Charge (\<lambda>k ttl mx c. case lua map_redis k ttl mx c (\<lambda>_. 0) of (_, cur, t) \<Rightarrow> Inr (RArray [RInt cur, RInt t]))
      0 0 0 ''alice'' 3 0 sample_bucket) =
   snd (Charge (\<lambda>_ _ _ _. Inl False) 0 0 0 ''alice'' 3 0 (sample_bucket\<lparr>b_local := Some newLocalStore\<rparr>))"
proof -
  let ?w = "go_quo (time_Unix 0) (window_seconds (b_window sample_bucket))"
  have r: "redis_counts map_redis (\<lambda>st. st)" by (simp add: redis_counts_def map_redis_def)
  have m: "0 < b_max sample_bucket" "b_local sample_bucket = None" by (simp_all add: sample_bucket_def)
  have s: "store_ok ?w newLocalStore" using empty_store_ok [of newLocalStore] by (simp add: newLocalStore_def)
  have o: "own_bucket newLocalStore ?w 0 (b_window sample_bucket) ''alice''"
  proof -
    have n: "slash48Key ''alice'' = None" by code_simp
    have g: "entries (gcLocked v 0 d newLocalStore) = []" "maxKeys newLocalStore = 100000" for v d
      by (simp_all add: gcLocked_def newLocalStore_def localStoreMaxKeys_def)
    show ?thesis by (simp add: own_bucket_def take_key_def Let_def g admitLocked_def n)
  qed
  define zero :: "string \<Rightarrow> int" where "zero = (\<lambda>_. 0)"
  have z: "zero (rate_key sample_bucket ''alice'' ?w) = count_at (entries newLocalStore) ''alice'' ?w"
    by (simp add: count_at_def newLocalStore_def zero_def)
  show ?thesis
    using charge_backends_agree [where st = zero, OF r m refl s o z refl, of 0 3 0 "\<lambda>_ _ _ _. Inl False" 0]
    unfolding zero_def by blast
qed

theorem outage_fails_closed_witness:
  "(61 * go_second, True) \<in> set (health sample_bucket [(False, go_second), (False, 20 * go_second), (True, 21 * go_second), (False, 61 * go_second)]) \<and>
   dwellTime sample_bucket < time_Sub (61 * go_second) go_second"
proof -
  let ?es = "[(False, 20 * go_second), (True, 21 * go_second), (False, 61 * go_second)]"
  have h: "(61 * go_second, True) \<in> set (health sample_bucket ((False, go_second) # ?es))" by code_simp
  have "0 \<le> dwellTime sample_bucket" "dwellTime sample_bucket \<le> max_int64" "redisErrorSince sample_bucket = 0" "(0 :: int) < go_second"
    "flapping (dwellTime sample_bucket) go_second ?es" by code_simp+
  from outage_fails_closed [OF this h] h show ?thesis by blast
qed

theorem rate_keys_separate_witness:
  "ParseAddr ''1:2:3:4::5'' = Some (V6 [1, 2, 3, 4, 0, 0, 0, 5] []) \<and>
   ParseAddr ''1:2:3:4:5::'' = Some (V6 [1, 2, 3, 4, 5, 0, 0, 0] []) \<and>
   ThrottleIPKey ''1:2:3:4::5'' = ThrottleIPKey ''1:2:3:4:5::''"
proof -
  have p: "ParseAddr ''1:2:3:4::5'' = Some (V6 [1, 2, 3, 4, 0, 0, 0, 5] [])"
    "ParseAddr ''1:2:3:4:5::'' = Some (V6 [1, 2, 3, 4, 5, 0, 0, 0] [])" by code_simp+
  show ?thesis
    using p rate_keys_separate [of sample_bucket "[]" 0 "[]" 0 "''1:2:3:4::5''" "[1, 2, 3, 4, 0, 0, 0, 5]" "[]"
      "''1:2:3:4:5::''" "[1, 2, 3, 4, 5, 0, 0, 0]" "[]"] by simp
qed

end
