(* ===== verification/Completeness.thy ===== *)
theory Completeness
  imports GoText "HOL-Library.AList"
begin

text \<open>
  The verification model of the indexer (internal/completeness): the watermark up to which a source is
  proven complete, the re-derivation of expected row counts from the event lake with its blind spots, the
  per-ledger reconciliation, the reconciliation of running supply totals, and the lower bound of the
  network tip, the recognition audit and the text form of its census.

  Ledgers are \<open>uint32\<close> values. A Go map is an association list with distinct keys, read with 0 for a
  missing key. A decoder is a parameter: \<open>matches\<close> and \<open>decode\<close>, where \<open>None\<close> is a panic (and, for
  \<open>decode\<close>, also an error), which the code treats alike. The coverage ratio is the exact quotient
  of the two float64 conversions; the rounding of the division is not modelled. Message texts are not
  modelled.
\<close>

type_synonym ledger = "32 word"

section \<open>watermark.go\<close>

definition firstLedger :: ledger where
  "firstLedger = 1"

record Watermark =
  wm_Genesis :: ledger
  wm_Tip :: ledger
  wm_Ledger :: ledger
  CoveragePct :: rat
  Complete :: bool
  FirstProblem :: ledger

text \<open>The scan for the earliest problem in range, raised to the floor.\<close>

fun first_problem :: "ledger \<Rightarrow> ledger \<Rightarrow> ledger \<Rightarrow> ledger option \<Rightarrow> ledger list \<Rightarrow> ledger option" where
  "first_problem genesis tip lo best [] = best"
| "first_problem genesis tip lo best (p # ps) =
     (if p < genesis \<or> tip < p then first_problem genesis tip lo best ps
      else let q = max p lo in
        first_problem genesis tip lo
          (case best of None \<Rightarrow> Some q | Some b \<Rightarrow> if q < b then Some q else Some b) ps)"

definition ComputeWatermark :: "ledger \<Rightarrow> ledger \<Rightarrow> ledger list \<Rightarrow> Watermark" where
  "ComputeWatermark genesis tip problemLedgers =
     (let lo = max genesis firstLedger;
          w = \<lparr>wm_Genesis = lo, wm_Tip = tip, wm_Ledger = 0, CoveragePct = 0, Complete = False, FirstProblem = 0\<rparr>
      in if tip < lo then w\<lparr>wm_Ledger := lo - 1\<rparr>
         else case first_problem genesis tip lo None problemLedgers of
           None \<Rightarrow> w\<lparr>wm_Ledger := tip, Complete := True, CoveragePct := 1\<rparr>
         | Some f \<Rightarrow>
             let w = w\<lparr>FirstProblem := f, wm_Ledger := f - 1\<rparr> in
             if f = lo then w
             else let span = of_nat (unat (tip - lo + 1)); verified = of_nat (unat (f - 1 - lo + 1))
                  in w\<lparr>CoveragePct := min (max (verified / span) 0) 1\<rparr>)"

section \<open>reconcile.go\<close>

record ProjectionGap =
  gap_Ledger :: ledger
  Expected :: int
  Actual :: int

record BlindSpots =
  Ledgers :: "ledger list"
  UndecodableMatched :: int
  Unreconstructable :: int

record BlindTracker =
  seen :: "ledger list"
  spots :: BlindSpots

definition NewBlindTracker :: BlindTracker where
  "NewBlindTracker = \<lparr>seen = [], spots = \<lparr>Ledgers = [], UndecodableMatched = 0, Unreconstructable = 0\<rparr>\<rparr>"

definition mark :: "ledger \<Rightarrow> BlindTracker \<Rightarrow> BlindTracker" where
  "mark l t =
     (if l \<in> set (seen t) then t
      else t\<lparr>seen := l # seen t, spots := (spots t)\<lparr>Ledgers := Ledgers (spots t) @ [l]\<rparr>\<rparr>)"

definition Tracker_Undecodable :: "ledger \<Rightarrow> BlindTracker \<Rightarrow> BlindTracker" where
  "Tracker_Undecodable l t = mark l (t\<lparr>spots := (spots t)\<lparr>UndecodableMatched := UndecodableMatched (spots t) + 1\<rparr>\<rparr>)"

definition Tracker_Unreconstructable :: "ledger \<Rightarrow> BlindTracker \<Rightarrow> BlindTracker" where
  "Tracker_Unreconstructable l t = mark l (t\<lparr>spots := (spots t)\<lparr>Unreconstructable := Unreconstructable (spots t) + 1\<rparr>\<rparr>)"

definition Tracker_Result :: "BlindTracker \<Rightarrow> BlindSpots" where
  "Tracker_Result t = (spots t)\<lparr>Ledgers := sort (Ledgers (spots t))\<rparr>"

definition Merge :: "BlindSpots \<Rightarrow> BlindSpots \<Rightarrow> BlindSpots" where
  "Merge b o' =
     (let t = foldl (\<lambda>t l. mark l t) (foldl (\<lambda>t l. mark l t) NewBlindTracker (Ledgers b)) (Ledgers o')
      in (Tracker_Result t)\<lparr>UndecodableMatched := UndecodableMatched b + UndecodableMatched o',
            Unreconstructable := Unreconstructable b + Unreconstructable o'\<rparr>)"

definition Blind_Rows :: "BlindSpots \<Rightarrow> int" where
  "Blind_Rows b = UndecodableMatched b + Unreconstructable b"

definition Blind_Any :: "BlindSpots \<Rightarrow> bool" where
  "Blind_Any b = (0 < Blind_Rows b)"

text \<open>The first ledger that \<open>Detail\<close> prints: \<open>None\<close> is the index panic, \<open>Some None\<close> the empty text.\<close>

definition Blind_Detail :: "BlindSpots \<Rightarrow> ledger option option" where
  "Blind_Detail b = (if \<not> Blind_Any b then Some None else case Ledgers b of [] \<Rightarrow> None | l # _ \<Rightarrow> Some (Some l))"

text \<open>What the re-derivation reads of an event, and of an output: its kind and the ledger it may declare.\<close>

record event =
  ev_Ledger :: ledger
  ev_TxHash :: string
  ev_OperationIndex :: int
  ev_EventIndex :: int

record emission =
  EventKind :: string
  EventLedger :: "ledger option"

definition countLedger :: "emission \<Rightarrow> ledger \<Rightarrow> ledger" where
  "countLedger out streamLedger =
     (case EventLedger out of Some l \<Rightarrow> if l \<noteq> 0 then l else streamLedger | None \<Rightarrow> streamLedger)"

type_synonym counts = "(ledger \<times> int) list"

definition count_of :: "counts \<Rightarrow> ledger \<Rightarrow> int" where
  "count_of m l = (case map_of m l of Some c \<Rightarrow> c | None \<Rightarrow> 0)"

definition bump :: "string \<Rightarrow> ledger \<Rightarrow> (string \<times> counts) list \<Rightarrow> (string \<times> counts) list" where
  "bump k l m =
     (let c = (case map_of m k of Some c \<Rightarrow> c | None \<Rightarrow> []) in AList.update k (AList.update l (count_of c l + 1) c) m)"

record rederive =
  lastSeen :: "event option"
  byKind :: "(string \<times> counts) list"
  blind :: BlindTracker

definition same_identity :: "event \<Rightarrow> event \<Rightarrow> bool" where
  "same_identity e f =
     (ev_Ledger e = ev_Ledger f \<and> ev_OperationIndex e = ev_OperationIndex f \<and>
      ev_EventIndex e = ev_EventIndex f \<and> ev_TxHash e = ev_TxHash f)"

text \<open>The callback of the stream.\<close>

definition rederive_step ::
  "(event \<Rightarrow> bool option) \<Rightarrow> (event \<Rightarrow> emission list option) \<Rightarrow> rederive \<Rightarrow> event \<Rightarrow> rederive" where
  "rederive_step matches decode st ev =
     (if (case lastSeen st of Some l \<Rightarrow> same_identity ev l | None \<Rightarrow> False) then st
      else let st = st\<lparr>lastSeen := Some ev\<rparr> in
        case matches ev of
          None \<Rightarrow> st\<lparr>blind := Tracker_Undecodable (ev_Ledger ev) (blind st)\<rparr>
        | Some False \<Rightarrow> st
        | Some True \<Rightarrow>
            (case decode ev of
               None \<Rightarrow> st\<lparr>blind := Tracker_Undecodable (ev_Ledger ev) (blind st)\<rparr>
             | Some outs \<Rightarrow>
                 st\<lparr>byKind := foldl (\<lambda>m out. bump (EventKind out) (countLedger out (ev_Ledger ev)) m) (byKind st) outs\<rparr>))"

text \<open>The stream is the events it yields before it ends, and whether it ends in an error.\<close>

definition ReDeriveOutputCountsByKindFromEvents ::
  "(event \<Rightarrow> bool option) \<Rightarrow> (event \<Rightarrow> emission list option) \<Rightarrow> event list \<times> bool \<Rightarrow>
   ((string \<times> counts) list \<times> BlindSpots) option" where
  "ReDeriveOutputCountsByKindFromEvents matches decode stream =
     (let st = foldl (rederive_step matches decode) \<lparr>lastSeen = None, byKind = [], blind = NewBlindTracker\<rparr> (fst stream)
      in if snd stream then None else Some (byKind st, Tracker_Result (blind st)))"

definition SumKinds :: "(string \<times> counts) list \<Rightarrow> string list \<Rightarrow> counts" where
  "SumKinds m kinds =
     foldl (\<lambda>out k. foldl (\<lambda>out (l, c). AList.update l (count_of out l + c) out) out
              (case map_of m k of Some cs \<Rightarrow> cs | None \<Rightarrow> [])) [] kinds"

definition ReconcileCounts :: "counts \<Rightarrow> counts \<Rightarrow> ProjectionGap list" where
  "ReconcileCounts expected actual =
     sort_key gap_Ledger
       (List.map_filter (\<lambda>(l, e). let a = count_of actual l in
            if a \<noteq> e then Some \<lparr>gap_Ledger = l, Expected = e, Actual = a\<rparr> else None) expected @
        List.map_filter (\<lambda>(l, a). if l \<in> set (map fst expected) then None
            else if a \<noteq> 0 then Some \<lparr>gap_Ledger = l, Expected = 0, Actual = a\<rparr> else None) actual)"

section \<open>rollup.go\<close>

record RunningTotals =
  Mint :: "int option"
  Burn :: "int option"
  Clawback :: "int option"

record TotalsDrift =
  d_ContractID :: string
  Kind :: string
  Checkpoint :: int
  Truth :: int
  Delta :: int

definition orZero :: "int option \<Rightarrow> int" where
  "orZero v = (case v of None \<Rightarrow> 0 | Some x \<Rightarrow> x)"

definition appendKindDrift ::
  "TotalsDrift list \<Rightarrow> string \<Rightarrow> string \<Rightarrow> int option \<Rightarrow> int option \<Rightarrow> int \<Rightarrow> TotalsDrift list" where
  "appendKindDrift drifts contractID kind cp tr tol =
     (let c = orZero cp; t = orZero tr; delta = c - t in
      if \<bar>delta\<bar> \<le> tol then drifts
      else drifts @ [\<lparr>d_ContractID = contractID, Kind = kind, Checkpoint = c, Truth = t, Delta = delta\<rparr>])"

definition totals_of :: "(string \<times> RunningTotals) list \<Rightarrow> string \<Rightarrow> RunningTotals" where
  "totals_of m c = (case map_of m c of Some t \<Rightarrow> t | None \<Rightarrow> \<lparr>Mint = None, Burn = None, Clawback = None\<rparr>)"

definition ReconcileRunningTotals ::
  "(string \<times> RunningTotals) list \<Rightarrow> (string \<times> RunningTotals) list \<Rightarrow> int option \<Rightarrow> TotalsDrift list" where
  "ReconcileRunningTotals checkpoint truth tolerance =
     (let tol = (case tolerance of None \<Rightarrow> 0 | Some t \<Rightarrow> t);
          ids = sort (remdups (map fst checkpoint @ map fst truth))
      in foldl (\<lambda>drifts c.
           let cp = totals_of checkpoint c; tr = totals_of truth c;
               drifts = appendKindDrift drifts c ''mint'' (Mint cp) (Mint tr) tol;
               drifts = appendKindDrift drifts c ''burn'' (Burn cp) (Burn tr) tol
           in appendKindDrift drifts c ''clawback'' (Clawback cp) (Clawback tr) tol) [] ids)"

section \<open>network\_tip.go and evidence.go\<close>

definition SlowestLedgerClose :: duration where
  "SlowestLedgerClose = 6 * go_second"

definition NetworkTipLowerBound :: "ledger \<Rightarrow> gotime \<Rightarrow> gotime \<Rightarrow> ledger" where
  "NetworkTipLowerBound lastLedger ingestedAt now =
     (if time_IsZero ingestedAt \<or> \<not> ingestedAt < now then lastLedger
      else let closed = go_quo (time_Sub now ingestedAt) SlowestLedgerClose in
        if uint (- 1 - lastLedger) < closed then - 1 else lastLedger + word_of_int closed)"

definition MaxProjectionCarryAge :: duration where
  "MaxProjectionCarryAge = 7 * 24 * go_hour"

definition ProjectionEvidenceExpired :: "gotime \<Rightarrow> gotime \<Rightarrow> duration \<Rightarrow> bool" where
  "ProjectionEvidenceExpired evidencedAt now maxAge =
     (if maxAge \<le> 0 then False else time_IsZero evidencedAt \<or> maxAge < time_Sub now evidencedAt)"

section \<open>recognition.go\<close>

text \<open>A sample of an event shape; its row is kept opaque, with the two columns the gap copies.\<close>

record 'row TopicSample =
  Row :: 'row
  s_ContractID :: string
  s_Topic0Sym :: string
  Count :: int
  MinLedger :: ledger
  MaxLedger :: ledger

datatype gap_reason = NoDecoderMatches | UnreconstructableRow

record RecognitionGap =
  rg_ContractID :: string
  rg_Topic0Sym :: string
  rg_Count :: int
  rg_MinLedger :: ledger
  rg_MaxLedger :: ledger
  Reason :: gap_reason

definition gapFromSample :: "'row TopicSample \<Rightarrow> gap_reason \<Rightarrow> RecognitionGap" where
  "gapFromSample s reason =
     \<lparr>rg_ContractID = s_ContractID s, rg_Topic0Sym = s_Topic0Sym s, rg_Count = Count s,
      rg_MinLedger = MinLedger s, rg_MaxLedger = MaxLedger s, Reason = reason\<rparr>"

text \<open>The recognizer is an interface of the code; the reconstruction of a stored row is a parameter.\<close>

fun AuditRecognition :: "('row \<Rightarrow> 'ev option) \<Rightarrow> ('ev \<Rightarrow> bool) \<Rightarrow> 'row TopicSample list \<Rightarrow> RecognitionGap list" where
  "AuditRecognition reconstruct recognize [] = []"
| "AuditRecognition reconstruct recognize (s # ss) =
     (case reconstruct (Row s) of
        None \<Rightarrow> gapFromSample s UnreconstructableRow # AuditRecognition reconstruct recognize ss
      | Some ev \<Rightarrow>
          if \<not> recognize ev then gapFromSample s NoDecoderMatches # AuditRecognition reconstruct recognize ss
          else AuditRecognition reconstruct recognize ss)"

section \<open>audit\_axis.go\<close>

definition SystemRecognitionSource :: string where
  "SystemRecognitionSource = ''recognition''"

definition IsAuditAxis :: "string \<Rightarrow> bool" where
  "IsAuditAxis source = (source = SystemRecognitionSource)"

record RecognitionCensus =
  Shapes :: int
  Contracts :: int
  EarliestLedger :: ledger

definition lit_shapes :: string where
  "lit_shapes = '' unrecognized shape(s) on ''"

definition lit_contracts :: string where
  "lit_contracts = '' unowned contract(s) (earliest ledger ''"

text \<open>The rest of the sentence after the last count; the dash is its three UTF-8 bytes.\<close>

definition lit_tail :: string where
  "lit_tail = '') '' @ [char_of (226 :: nat), char_of (128 :: nat), char_of (148 :: nat)] @
     '' events on contracts no indexed source owns (foreign Soroban protocols); '' @
     ''a discovery backlog, not missing data '' @ [char_of (226 :: nat), char_of (128 :: nat), char_of (148 :: nat)] @
     '' run verify-recognition''"

definition clean_detail :: string where
  "clean_detail = ''0 unrecognized shape(s): every event shape in the lake belongs to a contract an indexed source owns''"

definition FormatRecognitionDetail :: "RecognitionCensus \<Rightarrow> string" where
  "FormatRecognitionDetail c =
     (if Shapes c = 0 then clean_detail
      else int_String (Shapes c) @ lit_shapes @ int_String (Contracts c) @ lit_contracts @
        int_String (uint (EarliestLedger c)) @ lit_tail)"

text \<open>One group of the regular expression: at least one digit, greedily, then the literal that follows it.\<close>

definition digits_then :: "string \<Rightarrow> string \<Rightarrow> (string \<times> string) option" where
  "digits_then literal s =
     (let ds = takeWhile is_digit_char s in
      if ds = [] then None
      else case CutPrefix (dropWhile is_digit_char s) literal of None \<Rightarrow> None | Some r \<Rightarrow> Some (ds, r))"

definition recognitionDetailRE :: "string \<Rightarrow> (string \<times> string \<times> string) option" where
  "recognitionDetailRE s =
     (case digits_then lit_shapes s of None \<Rightarrow> None | Some (a, r) \<Rightarrow>
      case digits_then lit_contracts r of None \<Rightarrow> None | Some (b, r) \<Rightarrow>
      case digits_then '')'' r of None \<Rightarrow> None | Some (c, r) \<Rightarrow> Some (a, b, c))"

text \<open>\<open>strconv.Atoi\<close> and \<open>strconv.ParseUint(s, 10, 32)\<close> on a text of digits: only the range can fail.\<close>

definition parse_upto :: "int \<Rightarrow> string \<Rightarrow> int option" where
  "parse_upto limit s =
     (case parse_nat s of None \<Rightarrow> None | Some n \<Rightarrow> if int n \<le> limit then Some (int n) else None)"

definition ParseRecognitionDetail :: "string \<Rightarrow> RecognitionCensus \<times> bool" where
  "ParseRecognitionDetail detail =
     (let zero = \<lparr>Shapes = 0, Contracts = 0, EarliestLedger = 0\<rparr> in
      case recognitionDetailRE detail of
        None \<Rightarrow> (zero, detail = FormatRecognitionDetail zero)
      | Some (a, b, c) \<Rightarrow>
          (case parse_upto max_int64 a of None \<Rightarrow> (zero, False) | Some shapes \<Rightarrow>
           case parse_upto max_int64 b of None \<Rightarrow> (zero, False) | Some contracts \<Rightarrow>
           case parse_upto (2 ^ 32 - 1) c of None \<Rightarrow> (zero, False) | Some earliest \<Rightarrow>
             (\<lparr>Shapes = shapes, Contracts = contracts, EarliestLedger = word_of_int earliest\<rparr>, True)))"

section \<open>audited\_sources.go\<close>

text \<open>The configuration fields that gate a source.\<close>

record audit_config =
  DEXContract :: string
  CEXContract :: string
  FXContract :: string
  AdapterContract :: string
  CacheContract :: string
  StandardReferenceContract :: string
  WatchedSEP41Contracts :: "string list"

definition staticAuditedSources :: "string list" where
  "staticAuditedSources =
     [''aquarius'', ''blend'', ''blend_backstop'', ''blend_emitter'', ''cctp'', ''comet'', ''defindex'',
      ''phoenix'', ''rozo'', ''sdex'', ''sorocredit'', ''soroswap'', ''soroswap-router'', ''spectra'',
      ''sushiswap_v3'', ''upshift'']"

definition gated :: "audit_config \<Rightarrow> (string \<times> string) list" where
  "gated cfg =
     [(DEXContract cfg, ''reflector-dex''), (CEXContract cfg, ''reflector-cex''), (FXContract cfg, ''reflector-fx''),
      (AdapterContract cfg, ''redstone''), (CacheContract cfg, ''chainlink-stellar''),
      (StandardReferenceContract cfg, ''band'')]"

definition AuditedSources :: "audit_config \<Rightarrow> string list" where
  "AuditedSources cfg =
     (let out = staticAuditedSources @ map snd (filter (\<lambda>g. fst g \<noteq> []) (gated cfg));
          out = (if WatchedSEP41Contracts cfg \<noteq> [] then out @ [''sep41_transfers'', ''sep41_supply''] else out)
      in sort out)"

section \<open>The watermark\<close>

lemma first_problem_min:
  "first_problem genesis tip lo best ps =
     (let qs = map (\<lambda>p. max p lo) (filter (\<lambda>p. genesis \<le> p \<and> p \<le> tip) ps) in
      case best of
        Some b \<Rightarrow> Some (Min (insert b (set qs)))
      | None \<Rightarrow> if qs = [] then None else Some (Min (set qs)))"
proof (induction ps arbitrary: best)
  case Nil
  then show ?case by (simp add: Let_def split: option.splits)
next
  case (Cons p ps)
  let ?qs = "map (\<lambda>p. max p lo) (filter (\<lambda>p. genesis \<le> p \<and> p \<le> tip) ps)"
  show ?case
  proof (cases "p < genesis \<or> tip < p")
    case True
    then show ?thesis using Cons by (auto simp: Let_def not_le)
  next
    case False
    have "Min (insert (if q < b then q else b) S) = Min (insert b (insert q S))" if "finite S" for b q :: ledger and S
    proof -
      have "(if q < b then q else b) = min q b" by (auto simp: min_def)
      then show ?thesis using that by (cases "S = {}") (simp_all add: ac_simps)
    qed
    then have m: "Min (insert (if max p lo < b then max p lo else b) (set ?qs)) = Min (insert b (insert (max p lo) (set ?qs)))" for b
      by blast
    have h: "filter (\<lambda>p. genesis \<le> p \<and> p \<le> tip) (p # ps) = p # filter (\<lambda>p. genesis \<le> p \<and> p \<le> tip) ps"
      using False by (simp add: not_less)
    show ?thesis
    proof (cases best)
      case None
      then show ?thesis
        by (simp only: first_problem.simps False if_False Let_def option.case Cons h list.map list.set list.distinct)
    next
      case (Some b)
      have "(if max p lo < b then Some (max p lo) else Some b) = Some (if max p lo < b then max p lo else b)" by simp
      then show ?thesis using Some
        by (simp only: first_problem.simps False if_False Let_def option.case Cons h list.map list.set m)
    qed
  qed
qed

text \<open>A problem of the audited range.\<close>

definition problem_in :: "ledger \<Rightarrow> ledger \<Rightarrow> ledger list \<Rightarrow> ledger \<Rightarrow> bool" where
  "problem_in genesis tip ps l \<longleftrightarrow> (\<exists>p \<in> set ps. genesis \<le> p \<and> p \<le> tip \<and> max p (max genesis firstLedger) = l)"

text \<open>
  C17. The watermark certifies exactly what is proven: no problem of the range lies at or below it, and the
  very next ledger is a problem unless it is the tip. It is complete exactly when a non-empty range has no
  problem at all, and \<open>FirstProblem\<close> is the earliest problem, or 0 exactly when there is none (0 is never
  a problem's ledger, even for a genesis of 0).
\<close>

theorem watermark_exact:
  fixes genesis tip :: ledger and ps :: "ledger list"
  defines "lo \<equiv> max genesis firstLedger"
  defines "w \<equiv> ComputeWatermark genesis tip ps"
  shows "if tip < lo then wm_Ledger w = lo - 1 \<and> \<not> Complete w \<and> FirstProblem w = 0
   else (\<forall>l. problem_in genesis tip ps l \<longrightarrow> wm_Ledger w < l \<and> lo \<le> l) \<and>
     (Complete w \<longleftrightarrow> (\<nexists>l. problem_in genesis tip ps l)) \<and>
     (if Complete w then wm_Ledger w = tip \<and> FirstProblem w = 0 \<and> CoveragePct w = 1
      else problem_in genesis tip ps (FirstProblem w) \<and> FirstProblem w = wm_Ledger w + 1 \<and> FirstProblem w \<noteq> 0 \<and>
        0 \<le> CoveragePct w \<and> CoveragePct w \<le> 1)"
proof (cases "tip < lo")
  case True
  then show ?thesis by (simp add: w_def ComputeWatermark_def Let_def lo_def)
next
  case False
  let ?qs = "map (\<lambda>p. max p lo) (filter (\<lambda>p. genesis \<le> p \<and> p \<le> tip) ps)"
  have P: "problem_in genesis tip ps l \<longleftrightarrow> l \<in> set ?qs" for l by (auto simp: problem_in_def lo_def)
  have lo: "1 \<le> lo" by (simp add: lo_def firstLedger_def)
  show ?thesis
  proof (cases "?qs = []")
    case True
    then have n: "\<not> problem_in genesis tip ps l" for l unfolding P by simp
    have w: "w = \<lparr>wm_Genesis = lo, wm_Tip = tip, wm_Ledger = tip, CoveragePct = 1, Complete = True, FirstProblem = 0\<rparr>"
      using False True unfolding w_def ComputeWatermark_def lo_def [symmetric] first_problem_min Let_def by simp
    show ?thesis using False n by (simp add: w)
  next
    case some: False
    define f where "f = Min (set ?qs)"
    have f: "f \<in> set ?qs" "\<And>l. l \<in> set ?qs \<Longrightarrow> f \<le> l" using some unfolding f_def by (auto intro: Min_in simp del: set_map)
    have flo: "lo \<le> f" using f(1) by auto
    then have "f \<noteq> 0" using lo by auto
    then have lt: "f - 1 < f" by (simp add: word_less_nat_alt unat_minus_one unat_gt_0)
    have fp: "first_problem genesis tip lo None ps = Some f" unfolding first_problem_min f_def using some by (simp add: Let_def)
    have w: "wm_Ledger w = f - 1" "FirstProblem w = f" "\<not> Complete w" "0 \<le> CoveragePct w" "CoveragePct w \<le> 1"
      using False unfolding w_def ComputeWatermark_def lo_def [symmetric] fp Let_def by simp_all
    have "wm_Ledger w < l \<and> lo \<le> l" if "problem_in genesis tip ps l" for l
      using f(2) [of l] that lt flo unfolding P w by (meson less_le_trans order_trans)
    moreover have "problem_in genesis tip ps f" unfolding P by (rule f(1))
    ultimately show ?thesis using False \<open>f \<noteq> 0\<close> w by auto
  qed
qed

section \<open>Reconciliation of counts\<close>

lemma count_of_mem: "distinct (map fst m) \<Longrightarrow> (l, c) \<in> set m \<Longrightarrow> count_of m l = c"
  by (simp add: count_of_def)

lemma count_of_absent: "l \<notin> set (map fst m) \<Longrightarrow> count_of m l = 0"
  by (auto simp: count_of_def map_of_eq_None_iff [THEN iffD2] split: option.splits dest: map_of_SomeD)

lemma count_of_update: "count_of (AList.update l c m) x = (if x = l then c else count_of m x)"
  by (simp add: count_of_def update_conv')

lemma ReconcileCounts_set:
  assumes "distinct (map fst expected)" "distinct (map fst actual)"
  shows "set (ReconcileCounts expected actual) =
    {g :: ProjectionGap. Expected g = count_of expected (gap_Ledger g) \<and> Actual g = count_of actual (gap_Ledger g) \<and> Expected g \<noteq> Actual g}"
proof (intro set_eqI iffI)
  fix g :: ProjectionGap assume "g \<in> set (ReconcileCounts expected actual)"
  then consider l e where "(l, e) \<in> set expected" "count_of actual l \<noteq> e" "g = \<lparr>gap_Ledger = l, Expected = e, Actual = count_of actual l\<rparr>"
    | l a where "(l, a) \<in> set actual" "l \<notin> set (map fst expected)" "a \<noteq> 0" "g = \<lparr>gap_Ledger = l, Expected = 0, Actual = a\<rparr>"
    by (auto simp: ReconcileCounts_def set_map_filter Let_def split: if_splits)
  then show "g \<in> {g :: ProjectionGap. Expected g = count_of expected (gap_Ledger g) \<and> Actual g = count_of actual (gap_Ledger g) \<and> Expected g \<noteq> Actual g}"
  proof cases
    case 1
    then show ?thesis using count_of_mem [OF assms(1)] by auto
  next
    case 2
    then show ?thesis using count_of_mem [OF assms(2)] count_of_absent [of l expected] by auto
  qed
next
  fix g :: ProjectionGap assume "g \<in> {g :: ProjectionGap. Expected g = count_of expected (gap_Ledger g) \<and> Actual g = count_of actual (gap_Ledger g) \<and> Expected g \<noteq> Actual g}"
  then have g: "Expected g = count_of expected (gap_Ledger g)" "Actual g = count_of actual (gap_Ledger g)" "Expected g \<noteq> Actual g" by auto
  have eta: "g = \<lparr>gap_Ledger = gap_Ledger g, Expected = Expected g, Actual = Actual g\<rparr>" by simp
  show "g \<in> set (ReconcileCounts expected actual)"
  proof (cases "gap_Ledger g \<in> set (map fst expected)")
    case True
    then have "(gap_Ledger g, Expected g) \<in> set expected" using g(1) count_of_mem [OF assms(1)] by auto
    then show ?thesis using g eta by (force simp: ReconcileCounts_def set_map_filter Let_def)
  next
    case False
    then have e: "Expected g = 0" using g(1) count_of_absent by simp
    then have "gap_Ledger g \<in> set (map fst actual)" using g(2,3) count_of_absent [of "gap_Ledger g" actual] by auto
    then have "(gap_Ledger g, Actual g) \<in> set actual" using g(2) count_of_mem [OF assms(2)] by auto
    then show ?thesis using g(3) e eta False by (force simp: ReconcileCounts_def set_map_filter)
  qed
qed

section \<open>The re-derivation counts every distinct event once\<close>

text \<open>The stream without the repeats of the event before, and what its events contribute.\<close>

fun distinct_events :: "event option \<Rightarrow> event list \<Rightarrow> event list" where
  "distinct_events prev [] = []"
| "distinct_events prev (e # es) =
     (if (case prev of Some l \<Rightarrow> same_identity e l | None \<Rightarrow> False) then distinct_events prev es
      else e # distinct_events (Some e) es)"

definition emissions :: "(event \<Rightarrow> bool option) \<Rightarrow> (event \<Rightarrow> emission list option) \<Rightarrow> event \<Rightarrow> (string \<times> ledger) list" where
  "emissions matches decode e =
     (case (matches e, decode e) of
        (Some True, Some outs) \<Rightarrow> map (\<lambda>out. (EventKind out, countLedger out (ev_Ledger e))) outs
      | _ \<Rightarrow> [])"

definition undecodable :: "(event \<Rightarrow> bool option) \<Rightarrow> (event \<Rightarrow> emission list option) \<Rightarrow> event \<Rightarrow> bool" where
  "undecodable matches decode e \<longleftrightarrow> matches e = None \<or> matches e = Some True \<and> decode e = None"

definition kind_count :: "(string \<times> counts) list \<Rightarrow> string \<Rightarrow> ledger \<Rightarrow> int" where
  "kind_count m k l = count_of (case map_of m k of Some c \<Rightarrow> c | None \<Rightarrow> []) l"

definition nested_ok :: "(string \<times> counts) list \<Rightarrow> bool" where
  "nested_ok m \<longleftrightarrow> (\<forall>k c. map_of m k = Some c \<longrightarrow> distinct (map fst c))"

lemma bump_count: "kind_count (bump k l m) k' l' = kind_count m k' l' + (if k' = k \<and> l' = l then 1 else 0)"
  by (auto simp: kind_count_def bump_def Let_def update_conv' count_of_update split: option.splits)

lemma bump_ok: "nested_ok m \<Longrightarrow> nested_ok (bump k l m)"
  by (auto simp: nested_ok_def bump_def Let_def update_conv' distinct_update split: option.splits if_splits)

lemma bumps_count:
  "kind_count (foldl (\<lambda>m (k, l). bump k l m) m es) k l = kind_count m k l + int (length (filter (\<lambda>e. e = (k, l)) es))"
  by (induction es arbitrary: m) (auto simp: bump_count split: if_splits)

lemma bumps_ok: "nested_ok m \<Longrightarrow> nested_ok (foldl (\<lambda>m (k, l). bump k l m) m es)"
  by (induction es arbitrary: m) (auto simp: bump_ok)

lemma rederive_step_eq:
  "rederive_step matches decode st e =
     (if (case lastSeen st of Some l \<Rightarrow> same_identity e l | None \<Rightarrow> False) then st
      else st\<lparr>lastSeen := Some e,
              byKind := foldl (\<lambda>m (k, l). bump k l m) (byKind st) (emissions matches decode e),
              blind := (if undecodable matches decode e then Tracker_Undecodable (ev_Ledger e) (blind st) else blind st)\<rparr>)"
  by (auto simp: rederive_step_def emissions_def undecodable_def Let_def foldl_map split: option.splits bool.splits)

lemma rederive_fold:
  fixes st :: rederive and evs :: "event list"
  defines "es \<equiv> distinct_events (lastSeen st) evs"
  shows "byKind (foldl (rederive_step matches decode) st evs) =
      foldl (\<lambda>m (k, l). bump k l m) (byKind st) (concat (map (emissions matches decode) es)) \<and>
    blind (foldl (rederive_step matches decode) st evs) =
      foldl (\<lambda>t e. Tracker_Undecodable (ev_Ledger e) t) (blind st) (filter (undecodable matches decode) es)"
  unfolding es_def
proof (induction evs arbitrary: st)
  case (Cons e evs)
  show ?case
  proof (cases "case lastSeen st of Some l \<Rightarrow> same_identity e l | None \<Rightarrow> False")
    case True
    then have "rederive_step matches decode st e = st" by (simp add: rederive_step_eq)
    then show ?thesis using True Cons [of st] by simp
  next
    case False
    let ?st = "rederive_step matches decode st e"
    have "lastSeen ?st = Some e" "byKind ?st = foldl (\<lambda>m (k, l). bump k l m) (byKind st) (emissions matches decode e)"
      "blind ?st = (if undecodable matches decode e then Tracker_Undecodable (ev_Ledger e) (blind st) else blind st)"
      using False by (simp_all add: rederive_step_eq)
    then show ?thesis using False Cons [of ?st] by simp
  qed
qed simp

text \<open>The tracker: the ledgers marked, each once.\<close>

definition tracker_ok :: "BlindTracker \<Rightarrow> bool" where
  "tracker_ok t \<longleftrightarrow> distinct (Ledgers (spots t)) \<and> set (Ledgers (spots t)) = set (seen t)"

lemma mark_ok [step_inv]: "tracker_ok t \<Longrightarrow> tracker_ok (mark l t) \<and> set (Ledgers (spots (mark l t))) = insert l (set (Ledgers (spots t)))"
  by (auto simp: tracker_ok_def mark_def)

lemma mark_counts [simp]:
  "UndecodableMatched (spots (mark l t)) = UndecodableMatched (spots t)"
  "Unreconstructable (spots (mark l t)) = Unreconstructable (spots t)"
  by (simp_all add: mark_def)

lemma tracker_fold:
  assumes "tracker_ok t"
  shows "tracker_ok (foldl (\<lambda>t e. Tracker_Undecodable (ev_Ledger e) t) t es) \<and>
    set (Ledgers (spots (foldl (\<lambda>t e. Tracker_Undecodable (ev_Ledger e) t) t es))) = ev_Ledger ` set es \<union> set (Ledgers (spots t)) \<and>
    UndecodableMatched (spots (foldl (\<lambda>t e. Tracker_Undecodable (ev_Ledger e) t) t es)) =
      UndecodableMatched (spots t) + int (length es) \<and>
    Unreconstructable (spots (foldl (\<lambda>t e. Tracker_Undecodable (ev_Ledger e) t) t es)) = Unreconstructable (spots t)"
  using assms
proof (induction es arbitrary: t)
  case (Cons e es)
  let ?t = "t\<lparr>spots := (spots t)\<lparr>UndecodableMatched := UndecodableMatched (spots t) + 1\<rparr>\<rparr>"
  have "tracker_ok ?t" using Cons.prems by (simp add: tracker_ok_def)
  then have m: "tracker_ok (mark (ev_Ledger e) ?t)"
    "set (Ledgers (spots (mark (ev_Ledger e) ?t))) = insert (ev_Ledger e) (set (Ledgers (spots t)))"
    using mark_ok [of ?t "ev_Ledger e"] by auto
  show ?case using Cons.IH [OF m(1)] m(2) by (simp add: Tracker_Undecodable_def)
qed simp

lemma add_counts:
  assumes "distinct (map fst cs)"
  shows "count_of (foldl (\<lambda>out (l, c). AList.update l (count_of out l + c) out) out cs) x = count_of out x + count_of cs x"
  using assms
proof (induction cs arbitrary: out)
  case (Cons lc cs)
  obtain l c where lc: "lc = (l, c)" by (cases lc)
  have "count_of cs l = 0" using Cons.prems by (intro count_of_absent) (simp add: lc)
  then show ?case using Cons by (auto simp: lc count_of_update) (auto simp: count_of_def)
qed (simp add: count_of_def)

lemma add_counts_distinct:
  "distinct (map fst out) \<Longrightarrow> distinct (map fst (foldl (\<lambda>out (l, c). AList.update l (count_of out l + c) out) out cs))"
  by (induction cs arbitrary: out) (auto simp: distinct_update)

lemma SumKinds_count:
  assumes "nested_ok m"
  shows "count_of (SumKinds m kinds) l = sum_list (map (\<lambda>k. kind_count m k l) kinds) \<and> distinct (map fst (SumKinds m kinds))"
proof -
  let ?cs = "\<lambda>k. case map_of m k of Some cs \<Rightarrow> cs | None \<Rightarrow> []"
  let ?f = "\<lambda>out k. foldl (\<lambda>out (l, c). AList.update l (count_of out l + c) out) out (?cs k)"
  have d: "distinct (map fst (?cs k))" for k using assms by (auto simp: nested_ok_def split: option.splits)
  have "count_of (foldl ?f out kinds) l = count_of out l + sum_list (map (\<lambda>k. kind_count m k l) kinds) \<and>
      (distinct (map fst out) \<longrightarrow> distinct (map fst (foldl ?f out kinds)))" for out
  proof (induction kinds arbitrary: out)
    case (Cons k kinds)
    show ?case using Cons [of "?f out k"] add_counts [OF d [of k], of out l] add_counts_distinct [of out "?cs k"]
      by (simp add: kind_count_def)
  qed simp
  from this [of "[]"] show ?thesis by (simp add: SumKinds_def count_of_def)
qed

lemma filter_kinds:
  assumes "distinct kinds"
  shows "int (length (filter (\<lambda>(k, l'). k \<in> set kinds \<and> l' = l) es)) =
    sum_list (map (\<lambda>k. int (length (filter (\<lambda>e. e = (k, l)) es))) kinds)"
proof (induction es)
  case (Cons e es)
  have "sum_list (map (\<lambda>k. int (length (filter (\<lambda>e. e = (k, l)) (e # es)))) kinds) =
      sum_list (map (\<lambda>k. if e = (k, l) then 1 else 0) kinds) + sum_list (map (\<lambda>k. int (length (filter (\<lambda>e. e = (k, l)) es))) kinds)"
    by (simp add: sum_list_addf [symmetric] if_distrib cong: if_cong) (intro arg_cong [where f = sum_list] map_cong; simp)
  moreover have "sum_list (map (\<lambda>k. if e = (k, l) then 1 else 0) kinds) = (if fst e \<in> set kinds \<and> snd e = l then 1 else (0 :: int))"
    using assms by (induction kinds) auto
  ultimately show ?case using Cons by (auto split: prod.splits)
qed simp


definition sample_events :: "event list" where
  "sample_events =
     [\<lparr>ev_Ledger = 5, ev_TxHash = ''a'', ev_OperationIndex = 0, ev_EventIndex = 0\<rparr>,
      \<lparr>ev_Ledger = 5, ev_TxHash = ''a'', ev_OperationIndex = 0, ev_EventIndex = 0\<rparr>,
      \<lparr>ev_Ledger = 7, ev_TxHash = ''b'', ev_OperationIndex = 0, ev_EventIndex = 1\<rparr>]"

definition sample_decode :: "event \<Rightarrow> emission list option" where
  "sample_decode e = (if ev_Ledger e = 7 then None else Some [\<lparr>EventKind = ''trade'', EventLedger = None\<rparr>])"


theorem watermark_exact_witness:
  "wm_Ledger (ComputeWatermark 0 100 [40, 7, 300]) = 6 \<and> problem_in 0 100 [40, 7, 300] 40 \<and>
   wm_Ledger (ComputeWatermark 0 100 [40, 7, 300]) < 40"
proof -
  have c: "wm_Ledger (ComputeWatermark 0 100 [40, 7, 300]) = 6" by code_simp
  have p: "problem_in 0 100 [40, 7, 300] 40" by (simp add: problem_in_def firstLedger_def)
  have lo: "max 0 firstLedger \<le> 100" by (simp add: firstLedger_def)
  show ?thesis using watermark_exact [of 100 0 "[40, 7, 300]"] c p lo by (auto simp: not_less)
qed

section \<open>Running totals\<close>

lemma appendKindDrift_append:
  "appendKindDrift ds c k cp tr tol = ds @ appendKindDrift [] c k cp tr tol"
  by (simp add: appendKindDrift_def Let_def)

text \<open>The drifts of one contract, and the entry a kind contributes.\<close>

definition kind_totals :: "RunningTotals \<Rightarrow> (string \<times> int) list" where
  "kind_totals t = [(''mint'', orZero (Mint t)), (''burn'', orZero (Burn t)), (''clawback'', orZero (Clawback t))]"

definition contract_drifts :: "(string \<times> RunningTotals) list \<Rightarrow> (string \<times> RunningTotals) list \<Rightarrow> int \<Rightarrow> string \<Rightarrow> TotalsDrift list" where
  "contract_drifts checkpoint truth tol c =
     concat (map2 (\<lambda>(k, x) (_, y). if \<bar>x - y\<bar> \<le> tol then []
       else [\<lparr>d_ContractID = c, Kind = k, Checkpoint = x, Truth = y, Delta = x - y\<rparr>])
       (kind_totals (totals_of checkpoint c)) (kind_totals (totals_of truth c)))"

lemma ReconcileRunningTotals_concat:
  "ReconcileRunningTotals checkpoint truth tolerance =
     concat (map (contract_drifts checkpoint truth (orZero tolerance)) (sort (remdups (map fst checkpoint @ map fst truth))))"
proof -
  have step: "(let cp = totals_of checkpoint c; tr = totals_of truth c;
               ds = appendKindDrift ds c ''mint'' (Mint cp) (Mint tr) tol;
               ds = appendKindDrift ds c ''burn'' (Burn cp) (Burn tr) tol
           in appendKindDrift ds c ''clawback'' (Clawback cp) (Clawback tr) tol) = ds @ contract_drifts checkpoint truth tol c" for ds c tol
    by (simp add: contract_drifts_def kind_totals_def appendKindDrift_def Let_def)
  have fold: "foldl (\<lambda>ds c. ds @ contract_drifts checkpoint truth tol c) ds cs = ds @ concat (map (contract_drifts checkpoint truth tol) cs)" for ds cs tol
    by (induction cs arbitrary: ds) simp_all
  have "(case tolerance of None \<Rightarrow> 0 | Some t \<Rightarrow> t) = orZero tolerance" by (simp add: orZero_def)
  then show ?thesis unfolding ReconcileRunningTotals_def step by (simp add: fold Let_def)
qed

definition drift_of :: "(string \<times> RunningTotals) list \<Rightarrow> (string \<times> RunningTotals) list \<Rightarrow> int \<Rightarrow> TotalsDrift \<Rightarrow> bool" where
  "drift_of checkpoint truth tol d \<longleftrightarrow>
     ((Kind d, Checkpoint d), (Kind d, Truth d)) \<in>
       set (zip (kind_totals (totals_of checkpoint (d_ContractID d))) (kind_totals (totals_of truth (d_ContractID d)))) \<and>
     Delta d = Checkpoint d - Truth d \<and> tol < \<bar>Delta d\<bar>"

lemma contract_drifts_mem:
  "d \<in> set (contract_drifts checkpoint truth tol c) \<longleftrightarrow> d_ContractID d = c \<and> drift_of checkpoint truth tol d"
proof -
  let ?Z = "set (zip (kind_totals (totals_of checkpoint c)) (kind_totals (totals_of truth c)))"
  have keys: "((k, x), (k', y)) \<in> ?Z \<Longrightarrow> k' = k" for k x k' y by (auto simp: kind_totals_def)
  have "d \<in> set (contract_drifts checkpoint truth tol c) \<longleftrightarrow>
      (\<exists>k x k' y. ((k, x), (k', y)) \<in> ?Z \<and> \<not> \<bar>x - y\<bar> \<le> tol \<and>
        d = \<lparr>d_ContractID = c, Kind = k, Checkpoint = x, Truth = y, Delta = x - y\<rparr>)"
    unfolding contract_drifts_def by (force split: if_splits)
  then show ?thesis using keys by (cases d) (fastforce simp: drift_of_def not_le)
qed

lemma contract_drifts_unknown:
  assumes "c \<notin> set (map fst checkpoint @ map fst truth)"
  shows "contract_drifts checkpoint truth 0 c = []"
proof -
  have "map_of checkpoint c = None" "map_of truth c = None" using assms by (auto simp: map_of_eq_None_iff)
  then show ?thesis by (simp add: contract_drifts_def totals_of_def kind_totals_def)
qed

lemma sorted_replicates: "sorted cs \<Longrightarrow> sorted (concat (map (\<lambda>c. replicate (n c) c) cs))"
  by (induction cs) (auto simp: sorted_append)

text \<open>
  The running-total reconciliation reports exactly the drifts beyond the tolerance: for every contract
  known to either side and every kind, a missing total reading as zero on its side, an entry is reported
  exactly when checkpoint and truth differ by more than the tolerance, with their difference; the entries
  come by ascending contract, and an empty report at tolerance zero means the totals are equal everywhere.
\<close>

theorem running_totals_exact:
  fixes checkpoint truth :: "(string \<times> RunningTotals) list" and tolerance :: "int option"
  defines "ds \<equiv> ReconcileRunningTotals checkpoint truth tolerance"
  shows "(\<forall>d. d \<in> set ds \<longleftrightarrow>
      d_ContractID d \<in> set (map fst checkpoint @ map fst truth) \<and> drift_of checkpoint truth (orZero tolerance) d) \<and>
    sorted (map d_ContractID ds) \<and>
    (tolerance = None \<longrightarrow> ds = [] \<longleftrightarrow> (\<forall>c. kind_totals (totals_of checkpoint c) = kind_totals (totals_of truth c)))"
proof (intro conjI allI impI)
  let ?ids = "sort (remdups (map fst checkpoint @ map fst truth))"
  show mem: "d \<in> set ds \<longleftrightarrow>
      d_ContractID d \<in> set (map fst checkpoint @ map fst truth) \<and> drift_of checkpoint truth (orZero tolerance) d" for d
    unfolding ds_def ReconcileRunningTotals_concat set_concat set_map by (auto simp: contract_drifts_mem)
  have "map d_ContractID (contract_drifts checkpoint truth tol c) = replicate (length (contract_drifts checkpoint truth tol c)) c" for tol c
    by (rule replicate_eqI) (auto simp: contract_drifts_mem)
  then have "map d_ContractID ds = concat (map (\<lambda>c. replicate (length (contract_drifts checkpoint truth (orZero tolerance) c)) c) ?ids)"
    unfolding ds_def ReconcileRunningTotals_concat map_concat by (simp add: comp_def)
  then show "sorted (map d_ContractID ds)" using sorted_replicates [of ?ids] by simp
  assume tol: "tolerance = None"
  have "ds = [] \<longleftrightarrow> (\<forall>c \<in> set (map fst checkpoint @ map fst truth). contract_drifts checkpoint truth 0 c = [])"
    unfolding ds_def ReconcileRunningTotals_concat tol by (simp add: orZero_def)
  also have "\<dots> \<longleftrightarrow> (\<forall>c. contract_drifts checkpoint truth 0 c = [])" using contract_drifts_unknown by blast
  also have "\<dots> \<longleftrightarrow> (\<forall>c. kind_totals (totals_of checkpoint c) = kind_totals (totals_of truth c))"
    by (intro iff_allI) (auto simp: contract_drifts_def kind_totals_def)
  finally show "ds = [] \<longleftrightarrow> (\<forall>c. kind_totals (totals_of checkpoint c) = kind_totals (totals_of truth c))" .
qed

definition sample_totals :: "(string \<times> RunningTotals) list" where
  "sample_totals = [(''CB'', \<lparr>Mint = Some 10, Burn = None, Clawback = Some 0\<rparr>)]"

theorem running_totals_exact_witness:
  "ReconcileRunningTotals sample_totals [(''CB'', \<lparr>Mint = Some 10, Burn = Some 0, Clawback = None\<rparr>)] None = [] \<and>
   kind_totals (totals_of sample_totals ''CB'') =
     kind_totals (totals_of [(''CB'', \<lparr>Mint = Some 10, Burn = Some 0, Clawback = None\<rparr>)] ''CB'')"
proof -
  have "ReconcileRunningTotals sample_totals [(''CB'', \<lparr>Mint = Some 10, Burn = Some 0, Clawback = None\<rparr>)] None = []"
    by code_simp
  then show ?thesis
    using running_totals_exact [of sample_totals "[(''CB'', \<lparr>Mint = Some 10, Burn = Some 0, Clawback = None\<rparr>)]" None] by blast
qed

section \<open>The network tip\<close>

lemma NetworkTipLowerBound_uint:
  "uint (NetworkTipLowerBound lastLedger ingestedAt now) =
     (if time_IsZero ingestedAt \<or> now \<le> ingestedAt then uint lastLedger
      else min (2 ^ 32 - 1) (uint lastLedger + time_Sub now ingestedAt div SlowestLedgerClose))"
proof (cases "time_IsZero ingestedAt \<or> now \<le> ingestedAt")
  case False
  define c where "c = time_Sub now ingestedAt div SlowestLedgerClose"
  have s: "0 < SlowestLedgerClose" by (simp add: SlowestLedgerClose_def go_second_def)
  have "0 < time_Sub now ingestedAt" using False by simp
  then have c: "0 \<le> c" "go_quo (time_Sub now ingestedAt) SlowestLedgerClose = c"
    using s by (simp_all add: c_def go_quo_nonneg pos_imp_zdiv_nonneg_iff)
  have top: "uint (- 1 :: ledger) = 2 ^ 32 - 1" by (simp add: uint_word_ariths(4))
  have le: "uint lastLedger \<le> 2 ^ 32 - 1" using uint_bounded [of lastLedger] by simp
  have m: "uint (- 1 - lastLedger) = 2 ^ 32 - 1 - uint lastLedger"
    using uint_sub_lem [of lastLedger "- 1"] le unfolding top by blast
  have "uint (lastLedger + word_of_int c) = uint lastLedger + c" if "c \<le> 2 ^ 32 - 1 - uint lastLedger"
  proof -
    have "c < 2 ^ 32" using that uint_nonnegative [of lastLedger] by linarith
    then have "uint (word_of_int c :: ledger) = c"
      using c(1) by (intro trans [OF uint_word_of_int_eq] take_bit_int_eq_self) simp_all
    then show ?thesis using that uint_add_lem [of lastLedger "word_of_int c"] by simp
  qed
  then show ?thesis
    using False unfolding NetworkTipLowerBound_def Let_def c(2) m c_def [symmetric]
    by (auto simp: top min_def not_less)
qed (simp add: NetworkTipLowerBound_def not_less)

text \<open>
  The tip bound never falls below the last ingested ledger, never wraps past the largest ledger, grows
  with the clock however long ingest is stalled, and is the last ledger plus the whole number of slowest
  closes that fit in the elapsed time, saturated at the largest ledger.
\<close>

theorem network_tip_bound:
  "lastLedger \<le> NetworkTipLowerBound lastLedger ingestedAt now \<and>
   (now \<le> now' \<longrightarrow> NetworkTipLowerBound lastLedger ingestedAt now \<le> NetworkTipLowerBound lastLedger ingestedAt now') \<and>
   (uint (NetworkTipLowerBound lastLedger ingestedAt now) =
     (if time_IsZero ingestedAt \<or> now \<le> ingestedAt then uint lastLedger
      else min (2 ^ 32 - 1) (uint lastLedger + time_Sub now ingestedAt div SlowestLedgerClose)))"
proof -
  let ?c = "\<lambda>now. time_Sub now ingestedAt div SlowestLedgerClose"
  have exact: "uint (NetworkTipLowerBound lastLedger ingestedAt now) =
     (if time_IsZero ingestedAt \<or> now \<le> ingestedAt then uint lastLedger else min (2 ^ 32 - 1) (uint lastLedger + ?c now))" for now
    by (rule NetworkTipLowerBound_uint)
  have nonneg: "0 \<le> ?c now" if "ingestedAt < now" for now
    using that by (intro pos_imp_zdiv_nonneg_iff [THEN iffD2]) (simp_all add: SlowestLedgerClose_def go_second_def)
  have le: "uint lastLedger \<le> 2 ^ 32 - 1" using uint_bounded [of lastLedger] by simp
  have "?c now \<le> ?c now'" if "now \<le> now'"
    using that by (intro zdiv_mono1) (auto simp: time_Sub_def SlowestLedgerClose_def go_second_def)
  then have "now \<le> now' \<longrightarrow> NetworkTipLowerBound lastLedger ingestedAt now \<le> NetworkTipLowerBound lastLedger ingestedAt now'"
    using nonneg [of now'] le unfolding word_le_def exact by auto
  moreover have "lastLedger \<le> NetworkTipLowerBound lastLedger ingestedAt now"
    using nonneg [of now] le unfolding word_le_def exact by auto
  ultimately show ?thesis using exact by blast
qed

theorem network_tip_bound_witness:
  "(60000000000 :: int) \<le> 120000000000 \<and>
   NetworkTipLowerBound 100 1 60000000000 \<le> NetworkTipLowerBound 100 1 120000000000 \<and>
   uint (NetworkTipLowerBound 100 1 120000000000) = 119"
  using network_tip_bound [of 100 1 60000000000 120000000000] network_tip_bound [of 100 1 120000000000 120000000000]
  by (simp add: time_IsZero_def time_Sub_def max_int64_def min_int64_def SlowestLedgerClose_def go_second_def)

section \<open>Audited sources\<close>

text \<open>The denominator of the coverage figure counts a source once, and the audit axis is never one.\<close>

lemma AuditedSources_set: "set (AuditedSources cfg) \<subseteq>
    set staticAuditedSources \<union> set (map snd (gated cfg)) \<union> {''sep41_transfers'', ''sep41_supply''}"
  by (auto simp: AuditedSources_def Let_def split: if_splits)

lemma AuditedSources_distinct: "distinct (AuditedSources cfg)"
proof -
  let ?g = "map snd (filter (\<lambda>g. fst g \<noteq> []) (gated cfg))"
  have s: "distinct staticAuditedSources" by (simp add: staticAuditedSources_def)
  have g: "distinct (map snd (gated cfg))" by (simp add: gated_def)
  have d: "set staticAuditedSources \<inter> set (map snd (gated cfg)) = {}" by (simp add: staticAuditedSources_def gated_def)
  have x: "{''sep41_transfers'', ''sep41_supply''} \<inter> (set staticAuditedSources \<union> set (map snd (gated cfg))) = {}"
    by (simp add: staticAuditedSources_def gated_def)
  have gs: "set ?g \<subseteq> set (map snd (gated cfg))" by auto
  have "distinct (staticAuditedSources @ ?g)" using s distinct_map_filter [OF g] d gs by (simp only: distinct_append) blast
  moreover have "distinct (staticAuditedSources @ ?g @ [''sep41_transfers'', ''sep41_supply''])"
    using calculation x gs by (simp only: distinct_append set_append list.set) (simp, blast)
  ultimately show ?thesis unfolding AuditedSources_def Let_def distinct_sort by simp
qed

lemma AuditedSources_not_axis: "s \<in> set (AuditedSources cfg) \<Longrightarrow> \<not> IsAuditAxis s"
proof -
  have "SystemRecognitionSource \<notin> set staticAuditedSources \<union> set (map snd (gated cfg)) \<union> {''sep41_transfers'', ''sep41_supply''}"
    by (simp add: staticAuditedSources_def gated_def SystemRecognitionSource_def)
  then show "s \<in> set (AuditedSources cfg) \<Longrightarrow> \<not> IsAuditAxis s"
    unfolding IsAuditAxis_def using AuditedSources_set [of cfg] by blast
qed

section \<open>Recognition\<close>

lemma AuditRecognition_eq:
  "AuditRecognition reconstruct recognize ss =
     map (\<lambda>s. gapFromSample s (if reconstruct (Row s) = None then UnreconstructableRow else NoDecoderMatches))
       (filter (\<lambda>s. \<not> (\<exists>ev. reconstruct (Row s) = Some ev \<and> recognize ev)) ss)"
  by (induction ss) (auto split: option.splits)

lemma digits_then_String:
  assumes "lit \<noteq> []" "\<not> is_digit_char (hd lit)"
  shows "digits_then lit (nat_String n @ lit @ rest) = Some (nat_String n, rest)"
proof -
  have d: "\<And>c. c \<in> set (nat_String n) \<Longrightarrow> is_digit_char c" using nat_String_digits [of n] by (simp add: list_all_iff)
  obtain c l where lit: "lit = c # l" "\<not> is_digit_char c" using assms by (cases lit) auto
  have "takeWhile is_digit_char (nat_String n @ lit @ rest) = nat_String n"
    "dropWhile is_digit_char (nat_String n @ lit @ rest) = lit @ rest"
    using d lit by (simp_all add: takeWhile_append2 dropWhile_append2)
  then show ?thesis by (simp add: digits_then_def)
qed

lemma parse_upto_String: "parse_upto limit (nat_String n) = (if int n \<le> limit then Some (int n) else None)"
  by (simp add: parse_upto_def)

lemma recognitionDetailRE_clean: "recognitionDetailRE clean_detail = None"
  by code_simp

text \<open>
  The stored detail text of a recognition census is a wire contract: a census whose counts are
  non-negative int values parses back to itself when it has shapes, and to the zero census when it has none.
\<close>

theorem census_roundtrip:
  assumes "0 \<le> Shapes c" "Shapes c \<le> max_int64" "0 \<le> Contracts c" "Contracts c \<le> max_int64"
  shows "ParseRecognitionDetail (FormatRecognitionDetail c) =
     (if Shapes c = 0 then \<lparr>Shapes = 0, Contracts = 0, EarliestLedger = 0\<rparr> else c, True)"
proof (cases "Shapes c = 0")
  case True
  then show ?thesis
    by (simp add: ParseRecognitionDetail_def FormatRecognitionDetail_def recognitionDetailRE_clean)
next
  case False
  let ?l = "uint (EarliestLedger c)"
  have l: "0 \<le> ?l" "?l \<le> 2 ^ 32 - 1" using uint_bounded [of "EarliestLedger c"] by simp_all
  have lits: "digits_then lit_shapes (nat_String n @ lit_shapes @ r) = Some (nat_String n, r)"
    "digits_then lit_contracts (nat_String n @ lit_contracts @ r) = Some (nat_String n, r)"
    "digits_then '')'' (nat_String n @ '')'' @ r) = Some (nat_String n, r)" for n r
    by (rule digits_then_String; simp add: lit_shapes_def lit_contracts_def is_digit_char_def)+
  have "FormatRecognitionDetail c = nat_String (nat (Shapes c)) @ lit_shapes @ nat_String (nat (Contracts c)) @ lit_contracts @
      nat_String (nat ?l) @ '')'' @ tl lit_tail"
    using False assms l(1) by (simp add: FormatRecognitionDetail_def int_String_def lit_tail_def)
  then have re: "recognitionDetailRE (FormatRecognitionDetail c) =
      Some (nat_String (nat (Shapes c)), nat_String (nat (Contracts c)), nat_String (nat ?l))"
    by (simp only: recognitionDetailRE_def lits option.case prod.case)
  then show ?thesis using False assms l
    by (simp add: ParseRecognitionDetail_def parse_upto_String)
qed

theorem census_roundtrip_witness:
  "ParseRecognitionDetail (FormatRecognitionDetail \<lparr>Shapes = 12, Contracts = 3, EarliestLedger = 500\<rparr>) =
     (\<lparr>Shapes = 12, Contracts = 3, EarliestLedger = 500\<rparr>, True)"
  using census_roundtrip [of "\<lparr>Shapes = 12, Contracts = 3, EarliestLedger = 500\<rparr>"] by (simp add: max_int64_def)

end
