(* ===== verification/MEVInputs.thy ===== *)
theory MEVInputs
  imports Aliases "HOL-Library.AList"
begin

text \<open>
  Inputs and shared helpers of the MEV detectors (internal/aggregate/mev/inputs.go, and the records of
  internal/aggregate/mev/detector.go and internal/domain that all detectors use), with the lookup of the
  transactions whose order the sandwich detectors need.

  A pair of Go variables \<open>groups\<close> (a map from key to indices) and \<open>order\<close> (its keys as first seen) is one
  association list in insertion order. A map from transaction hash to index is an association list with
  distinct keys. A set of strings built to be sorted is a list without repetition. The process-wide network
  settings are the argument \<open>n\<close>. The parser behind \<open>big.Rat.SetString\<close> is an argument: nothing the detectors
  promise depends on which texts it accepts. The fixed note texts of the evidence payloads are left out.
\<close>

section \<open>Records\<close>

record MEVOracleRef =
  o_Source :: string
  o_ContractID :: string
  o_Ledger :: "32 word"
  o_TxHash :: string
  o_OpIndex :: "32 word"
  o_Asset :: string
  o_Quote :: string
  o_Timestamp :: gotime

record MEVAuctionFill =
  Pool :: string
  User :: string
  Filler :: string
  AuctionType :: "16 word"
  f_Ledger :: "32 word"
  f_TxHash :: string
  f_OpIndex :: "32 word"
  f_Timestamp :: gotime
  f_Assets :: "string list"

record MEVLegUSD =
  Value :: string
  Estimated :: bool

record OpRef =
  r_OpIndex :: "32 word option"
  r_SubIndex :: "32 word option"
  TradeOpIndex :: "32 word"

section \<open>inputs.go\<close>

definition sdexOpIndexStride :: "32 word" where
  "sdexOpIndexStride = 1024"

definition amm_sources :: "string list" where
  "amm_sources = [''aquarius'', ''comet'', ''phoenix'', ''soroswap'', ''sushiswap_v3'']"

definition opRefOf :: "Trade \<Rightarrow> OpRef" where
  "opRefOf t =
     (if Source t = ''sdex''
      then \<lparr>r_OpIndex = Some (OpIndex t div sdexOpIndexStride), r_SubIndex = Some (OpIndex t mod sdexOpIndexStride),
            TradeOpIndex = OpIndex t\<rparr>
      else if Source t \<in> set amm_sources
      then \<lparr>r_OpIndex = Some (drop_bit 16 (OpIndex t)), r_SubIndex = Some (take_bit 16 (OpIndex t)), TradeOpIndex = OpIndex t\<rparr>
      else \<lparr>r_OpIndex = None, r_SubIndex = None, TradeOpIndex = OpIndex t\<rparr>)"

definition sortKey :: "OpRef \<Rightarrow> 32 word \<times> 32 word" where
  "sortKey r = (case (r_OpIndex r, r_SubIndex r) of (Some op, Some sub) \<Rightarrow> (op, sub) | _ \<Rightarrow> (TradeOpIndex r, 0))"

definition before :: "OpRef \<Rightarrow> OpRef \<Rightarrow> bool" where
  "before r r' =
     (let (rOp, rSub) = sortKey r; (oOp, oSub) = sortKey r' in
      if rOp \<noteq> oOp then rOp < oOp else rSub < oSub)"

definition normAsset :: "network \<Rightarrow> string \<Rightarrow> string" where
  "normAsset n a = (if a = NativeSACContractID n then ''native'' else a)"

definition base_text :: "Trade \<Rightarrow> string" where
  "base_text t = Asset_String (Base (TPair t))"

definition quote_text :: "Trade \<Rightarrow> string" where
  "quote_text t = Asset_String (Quote (TPair t))"

definition pairIDs :: "network \<Rightarrow> Trade \<Rightarrow> string \<times> string" where
  "pairIDs n t =
     (let lo = normAsset n (base_text t); hi = normAsset n (quote_text t) in if hi < lo then (hi, lo) else (lo, hi))"

definition unorderedPairKey :: "network \<Rightarrow> Trade \<Rightarrow> string" where
  "unorderedPairKey n t = (case pairIDs n t of (lo, hi) \<Rightarrow> lo @ ''|'' @ hi)"

definition tradeTouches :: "network \<Rightarrow> Trade \<Rightarrow> string \<Rightarrow> bool" where
  "tradeTouches n t asset =
     (let a = normAsset n asset in normAsset n (base_text t) = a \<or> normAsset n (quote_text t) = a)"

definition orderableTrade :: "Trade \<Rightarrow> bool" where
  "orderableTrade t = (0 < Ledger t \<and> TxHash t \<noteq> [] \<and> Taker t \<noteq> [])"

text \<open>The ten decimal digits of a ledger, most significant first, and a colon.\<close>

fun ledger_digits :: "nat \<Rightarrow> 32 word \<Rightarrow> string" where
  "ledger_digits 0 l = []"
| "ledger_digits (Suc i) l = ledger_digits i (l div 10) @ [digit_char (unat (l mod 10))]"

definition ledgerKey :: "32 word \<Rightarrow> string" where
  "ledgerKey l = ledger_digits 10 l @ '':''"

text \<open>The step of a loop that collects indices under a key, keeping the keys in the order first seen.\<close>

definition add_to_group :: "'k \<Rightarrow> 'i \<Rightarrow> ('k \<times> 'i list) list \<Rightarrow> ('k \<times> 'i list) list" where
  "add_to_group key i groups = AList.update key ((case map_of groups key of Some is' \<Rightarrow> is' | None \<Rightarrow> []) @ [i]) groups"

fun group_loop :: "('i \<Rightarrow> 'k option) \<Rightarrow> 'i list \<Rightarrow> ('k \<times> 'i list) list \<Rightarrow> ('k \<times> 'i list) list" where
  "group_loop key [] groups = groups"
| "group_loop key (i # is) groups =
     (case key i of None \<Rightarrow> group_loop key is groups | Some k \<Rightarrow> group_loop key is (add_to_group k i groups))"

definition group_key :: "network \<Rightarrow> Trade \<Rightarrow> string" where
  "group_key n t = ledgerKey (Ledger t) @ unorderedPairKey n t"

text \<open>
  \<open>collectSandwichHashes\<close>: the groups with their trades; the takers of a group and the number of distinct
  transactions of each are read off its trades.
\<close>

definition sandwich_shaped :: "Trade list \<Rightarrow> bool" where
  "sandwich_shaped ts =
     (3 \<le> length ts \<and> 2 \<le> length (remdups (map Taker ts)) \<and>
      (\<exists>a \<in> set (map Taker ts). 2 \<le> length (remdups (map TxHash (filter (\<lambda>t. Taker t = a) ts)))))"

definition collectSandwichHashes :: "network \<Rightarrow> Trade list \<Rightarrow> string list" where
  "collectSandwichHashes n trades =
     concat (map (\<lambda>(key, ts). if sandwich_shaped ts then map TxHash ts else [])
       (group_loop (\<lambda>t. if orderableTrade t then Some (group_key n t) else None) trades []))"

definition collectOracleHashes :: "network \<Rightarrow> Trade list \<Rightarrow> MEVOracleRef list \<Rightarrow> string list" where
  "collectOracleHashes n trades oracles =
     (let usable = filter (\<lambda>r. o_Ledger r \<noteq> 0 \<and> o_TxHash r \<noteq> []) oracles in
      concat (map (\<lambda>t. if \<not> orderableTrade t then []
        else concat (map (\<lambda>r. if tradeTouches n t (o_Asset r) then [TxHash t, o_TxHash r] else [])
               (filter (\<lambda>r. o_Ledger r = Ledger t) usable))) trades))"

definition OrderingTxHashes :: "network \<Rightarrow> Trade list \<Rightarrow> MEVOracleRef list \<Rightarrow> string list" where
  "OrderingTxHashes n trades oracles =
     sort (remdups (collectSandwichHashes n trades @ collectOracleHashes n trades oracles))"

section \<open>Helpers of detector.go and sandwich.go\<close>

text \<open>\<open>(*big.Rat).FloatString(2)\<close>: two decimals, a half rounded away from zero.\<close>

definition FloatString2 :: "rat \<Rightarrow> string" where
  "FloatString2 x =
     (let m = nat \<lfloor>\<bar>x\<bar> * 100 + 1 / 2\<rfloor>; s = nat_String (m div 100) @ ''.'' @ [digit_char (m mod 100 div 10), digit_char (m mod 10)]
      in if x < 0 then CHR ''-'' # s else s)"

fun sum_loop :: "(string \<Rightarrow> rat option) \<Rightarrow> MEVLegUSD list \<Rightarrow> nat list \<Rightarrow> rat \<times> bool \<times> bool \<times> bool \<Rightarrow> rat \<times> bool \<times> bool \<times> bool" where
  "sum_loop parse usd [] st = st"
| "sum_loop parse usd (i # is) (sofar, priced, unpriced, estimated) =
     (if length usd \<le> i \<or> Value (usd ! i) = [] then sum_loop parse usd is (sofar, priced, True, estimated)
      else case parse (Value (usd ! i)) of
        None \<Rightarrow> sum_loop parse usd is (sofar, priced, True, estimated)
      | Some v \<Rightarrow> sum_loop parse usd is (sofar + v, True, unpriced, estimated \<or> Estimated (usd ! i)))"

definition sumUSD :: "(string \<Rightarrow> rat option) \<Rightarrow> MEVLegUSD list \<Rightarrow> nat list \<Rightarrow> string \<times> bool \<times> bool" where
  "sumUSD parse usdVolume idxs =
     (case sum_loop parse usdVolume idxs (0, False, False, False) of (tot, priced, unpriced, estimated) \<Rightarrow>
        if \<not> priced then ([], False, False) else (FloatString2 tot, unpriced, estimated))"

definition sortedKeys :: "string list \<Rightarrow> string list" where
  "sortedKeys ks = sort (remdups ks)"

text \<open>Repetitions after the first are dropped.\<close>

fun first_seen :: "'a list \<Rightarrow> 'a list \<Rightarrow> 'a list" where
  "first_seen seen [] = []"
| "first_seen seen (x # xs) = (if x \<in> set seen then first_seen seen xs else x # first_seen (x # seen) xs)"

definition distinctTxHashes :: "Trade list \<Rightarrow> nat list \<Rightarrow> string list" where
  "distinctTxHashes trades idxs = first_seen [] (map (\<lambda>i. TxHash (trades ! i)) idxs)"

definition distinctAccounts :: "Trade list \<Rightarrow> nat list \<Rightarrow> string \<Rightarrow> string list" where
  "distinctAccounts trades idxs primary =
     primary # first_seen [primary] (filter (\<lambda>a. a \<noteq> []) (map (\<lambda>i. Taker (trades ! i)) idxs))"

definition distinctSources :: "Trade list \<Rightarrow> nat list \<Rightarrow> string list" where
  "distinctSources trades idxs = sortedKeys (map (\<lambda>i. Source (trades ! i)) idxs)"

definition pairAssets :: "Trade \<Rightarrow> string list" where
  "pairAssets t = sort [base_text t, quote_text t]"

text \<open>\<open>Candidate\<close>; its evidence payload has the kinds of the package.\<close>

record Leg =
  l_Source :: string
  l_Base :: string
  l_Quote :: string
  l_BaseAmount :: string
  l_QuoteAmount :: string
  l_Ref :: OpRef

record OrderedLeg =
  ol_Source :: string
  ol_TxHash :: string
  ol_TxIndex :: "32 word"
  ol_Ref :: OpRef
  ol_Account :: string
  ol_Base :: string
  ol_Quote :: string
  ol_BaseAmount :: string
  ol_QuoteAmount :: string
  Role :: string

record washLeg =
  wl_Source :: string
  wl_Ledger :: "32 word"
  wl_TxHash :: string
  wl_Ref :: OpRef
  wl_Maker :: string
  wl_Taker :: string
  wl_Base :: string
  wl_Quote :: string
  wl_BaseAmount :: string
  wl_QuoteAmount :: string

record cascadeFillRef =
  cf_Pool :: string
  Liquidated :: string
  cf_Filler :: string
  cf_AuctionType :: "16 word"
  cf_Assets :: "string list"
  cf_Ledger :: "32 word"
  cf_TxHash :: string
  cf_OpIndex :: "32 word"

record cascadeOracleRef =
  co_Source :: string
  co_ContractID :: string
  co_Asset :: string
  co_Ledger :: "32 word"
  co_TxHash :: string

datatype detail =
    NoDetail
  | SandwichDetail string string "OrderedLeg list" string bool bool
  | OracleSandwichDetail string string string "32 word" string string string "OrderedLeg list" string bool bool
  | WashDetail string string "string list" "washLeg list" string bool bool
  | CascadeDetail int cascadeFillRef "cascadeFillRef list" "cascadeOracleRef list"

record Candidate =
  c_Kind :: string
  c_Ledger :: "32 word"
  DetectedAtLedger :: "32 word"
  c_Timestamp :: gotime
  c_TxHash :: string
  c_Taker :: string
  TxHashes :: "string list option"
  Accounts :: "string list option"
  c_Assets :: "string list"
  c_Sources :: "string list"
  AssetID :: string
  QuoteID :: string
  Legs :: "Leg list"
  NotionalUSD :: string
  NotionalLowerBound :: bool
  NotionalEstimated :: bool
  Dedup :: string
  Detail :: detail

definition zeroCandidate :: Candidate where
  "zeroCandidate =
     \<lparr>c_Kind = [], c_Ledger = 0, DetectedAtLedger = 0, c_Timestamp = 0, c_TxHash = [], c_Taker = [], TxHashes = None,
      Accounts = None, c_Assets = [], c_Sources = [], AssetID = [], QuoteID = [], Legs = [], NotionalUSD = [],
      NotionalLowerBound = False, NotionalEstimated = False, Dedup = [], Detail = NoDetail\<rparr>"

definition DedupKey :: "Candidate \<Rightarrow> string" where
  "DedupKey c = (if Dedup c \<noteq> [] then Dedup c else c_Kind c @ '':'' @ c_TxHash c @ '':'' @ c_Taker c)"

section \<open>Grouping in the order first seen\<close>

definition keys_seen :: "('i \<Rightarrow> 'k option) \<Rightarrow> 'i list \<Rightarrow> 'k list" where
  "keys_seen key xs = first_seen [] (List.map_filter key xs)"

lemma first_seen_set: "set (first_seen seen xs) = set xs - set seen"
  by (induction xs arbitrary: seen) auto

lemma first_seen_distinct: "distinct (first_seen seen xs)"
  by (induction xs arbitrary: seen) (auto simp: first_seen_set)

lemma first_seen_filter: "filter P (first_seen seen xs) = first_seen (filter P seen) (filter P xs)"
  by (induction xs arbitrary: seen) auto

lemma first_seen_cong: "\<forall>x \<in> set xs. x \<in> set seen \<longleftrightarrow> x \<in> set seen' \<Longrightarrow> first_seen seen xs = first_seen seen' xs"
proof (induction xs arbitrary: seen seen')
  case (Cons x xs)
  then show ?case using Cons.IH [of seen seen'] Cons.IH [of "x # seen" "x # seen'"] by simp
qed simp

lemma AList_update_keys: "map fst (AList.update k v al) = (if k \<in> set (map fst al) then map fst al else map fst al @ [k])"
  by (induction al) auto

lemma add_to_group_keys:
  "map fst (add_to_group k i groups) = (if k \<in> set (map fst groups) then map fst groups else map fst groups @ [k])"
  by (simp add: add_to_group_def AList_update_keys)

lemma add_to_group_map_of:
  "map_of (add_to_group k i groups) k' =
     (if k' = k then Some ((case map_of groups k of Some is \<Rightarrow> is | None \<Rightarrow> []) @ [i]) else map_of groups k')"
  by (simp add: add_to_group_def update_conv')

lemma group_loop_keys:
  "map fst (group_loop key xs groups) = map fst groups @ first_seen (map fst groups) (List.map_filter key xs)"
proof (induction xs arbitrary: groups)
  case (Cons i xs)
  show ?case
  proof (cases "key i")
    case (Some k)
    have "first_seen (map fst groups @ [k]) ys = first_seen (k # map fst groups) ys" for ys by (rule first_seen_cong) auto
    then show ?thesis using Some Cons [of "add_to_group k i groups"] by (simp add: add_to_group_keys map_filter_simps)
  qed (simp add: Cons map_filter_simps)
qed (simp add: map_filter_simps)

lemma group_loop_map_of:
  "map_of (group_loop key xs groups) k =
     (case map_of groups k of
        Some is \<Rightarrow> Some (is @ filter (\<lambda>i. key i = Some k) xs)
      | None \<Rightarrow> if \<exists>i \<in> set xs. key i = Some k then Some (filter (\<lambda>i. key i = Some k) xs) else None)"
proof (induction xs arbitrary: groups)
  case Nil
  show ?case by (simp split: option.splits)
next
  case (Cons i xs)
  show ?case
  proof (cases "key i")
    case None
    then show ?thesis by (simp add: Cons cong: option.case_cong)
  next
    case (Some k0)
    show ?thesis
    proof (cases "k0 = k")
      case True
      then show ?thesis using Some by (simp add: Cons add_to_group_map_of split: option.splits)
    next
      case False
      then show ?thesis using Some by (simp add: Cons add_to_group_map_of cong: option.case_cong)
    qed
  qed
qed

lemma group_loop_eq:
  "group_loop key xs [] = map (\<lambda>k. (k, filter (\<lambda>i. key i = Some k) xs)) (keys_seen key xs)"
proof -
  let ?g = "group_loop key xs []"
  have g: "map fst ?g = keys_seen key xs" by (simp add: group_loop_keys keys_seen_def)
  then have d: "distinct (map fst ?g)" by (simp add: keys_seen_def first_seen_distinct)
  have "snd e = filter (\<lambda>i. key i = Some (fst e)) xs" if "e \<in> set ?g" for e
  proof -
    have "map_of ?g (fst e) = Some (snd e)" using that d by simp
    then show ?thesis by (simp add: group_loop_map_of split: if_splits)
  qed
  then have "?g = map (\<lambda>e. (fst e, filter (\<lambda>i. key i = Some (fst e)) xs)) ?g" by (auto intro!: map_idI [symmetric] prod_eqI)
  also have "\<dots> = map (\<lambda>k. (k, filter (\<lambda>i. key i = Some k) xs)) (map fst ?g)" by simp
  finally show ?thesis unfolding g .
qed

lemma keys_seen_set: "set (keys_seen key xs) = {k. \<exists>i \<in> set xs. key i = Some k}"
  by (simp add: keys_seen_def first_seen_set set_map_filter)

lemma keys_seen_distinct: "distinct (keys_seen key xs)"
  by (simp add: keys_seen_def first_seen_distinct)

lemma keys_seen_filter: "filter P (keys_seen key xs) = keys_seen (\<lambda>i. case key i of Some k \<Rightarrow> if P k then Some k else None | None \<Rightarrow> None) xs"
proof -
  have "filter P (List.map_filter key xs) =
      List.map_filter (\<lambda>i. case key i of Some k \<Rightarrow> if P k then Some k else None | None \<Rightarrow> None) xs"
    by (induction xs) (auto simp: map_filter_simps split: option.splits)
  then show ?thesis by (simp add: keys_seen_def first_seen_filter)
qed

text \<open>Keys whose groups contribute nothing can be left out before grouping.\<close>

lemma concat_groups_cong:
  assumes "\<And>k. \<not> P k \<Longrightarrow> f k = []" "\<And>k. \<not> P k \<Longrightarrow> g k = []"
    and "\<And>k. P k \<Longrightarrow> f k = g k"
    and "\<And>i k. i \<in> set xs \<Longrightarrow> P k \<Longrightarrow> key i = Some k \<longleftrightarrow> key' i = Some k"
  shows "concat (map f (keys_seen key xs)) = concat (map g (keys_seen key' xs))"
proof -
  have drop: "concat (map h ks) = concat (map h (filter P ks))" if "\<And>k. \<not> P k \<Longrightarrow> h k = []" for h and ks
    using that by (induction ks) auto
  have "filter P (keys_seen key xs) = filter P (keys_seen key' xs)"
    unfolding keys_seen_filter unfolding keys_seen_def
  proof (intro arg_cong2 [where f = first_seen] refl)
    show "List.map_filter (\<lambda>i. case key i of Some k \<Rightarrow> if P k then Some k else None | None \<Rightarrow> None) xs =
        List.map_filter (\<lambda>i. case key' i of Some k \<Rightarrow> if P k then Some k else None | None \<Rightarrow> None) xs"
      using assms(4)
    proof (induction xs)
      case (Cons i xs)
      have tl: "List.map_filter (\<lambda>i. case key i of Some k \<Rightarrow> if P k then Some k else None | None \<Rightarrow> None) xs =
        List.map_filter (\<lambda>i. case key' i of Some k \<Rightarrow> if P k then Some k else None | None \<Rightarrow> None) xs"
        by (rule Cons.IH) (simp add: Cons.prems)
      have "(case key i of Some k \<Rightarrow> if P k then Some k else None | None \<Rightarrow> None) =
          (case key' i of Some k \<Rightarrow> if P k then Some k else None | None \<Rightarrow> None)"
        using Cons.prems [of i] by (fastforce split: option.splits)
      then show ?case by (simp only: map_filter_simps tl)
    qed (simp add: map_filter_simps)
  qed
  then show ?thesis
    using drop [of f, OF assms(1)] drop [of g, OF assms(2)] assms(3)
    by (metis (mono_tags, lifting) map_cong mem_Collect_eq set_filter)
qed

text \<open>A text is cut uniquely at the first occurrence of a separator.\<close>

lemma cut_inject: "a @ c # x = b @ c # y \<Longrightarrow> c \<notin> set a \<Longrightarrow> c \<notin> set b \<Longrightarrow> a = b \<and> x = y"
proof (induction a arbitrary: b)
  case Nil
  then show ?case by (cases b) auto
next
  case (Cons d a)
  then show ?case by (cases b) auto
qed

end
