(* ===== verification/MEVArb.thy ===== *)
theory MEVArb
  imports MEVInputs
begin

text \<open>
  The atomic-arbitrage detector (internal/aggregate/mev/detector.go): one candidate per transaction and taker
  whose trades contain a cycle, judged on the connected components of the graph of the traded assets, which a
  union-find structure with path compression computes.

  The parent map is an association list; \<open>find\<close> recurses along it and is a \<open>partial_function\<close> whose \<open>None\<close>
  is a recursion that does not return.
\<close>

definition KindArbitrage :: string where
  "KindArbitrage = ''arbitrage''"

definition minLegs :: nat where
  "minLegs = 2"

section \<open>assetComponents\<close>

type_synonym parents = "(string \<times> string) list"

partial_function (option) find_root :: "string \<Rightarrow> parents \<Rightarrow> (parents \<times> string) option" where
  "find_root a parent =
     (case map_of parent a of
        None \<Rightarrow> Some (AList.update a a parent, a)
      | Some p \<Rightarrow>
          if p = a then Some (AList.update a a parent, a)
          else Option.bind (find_root p parent) (\<lambda>(parent, r). Some (AList.update a r parent, r)))"

declare find_root.simps [code]

text \<open>\<open>parent[find(base)] = find(quote)\<close>: both calls in order, then the assignment.\<close>

definition union_edge :: "string \<Rightarrow> string \<Rightarrow> parents \<Rightarrow> parents option" where
  "union_edge b q parent =
     Option.bind (find_root b parent) (\<lambda>(parent, rb).
     Option.bind (find_root q parent) (\<lambda>(parent, rq). Some (AList.update rb rq parent)))"

fun union_loop :: "Trade list \<Rightarrow> nat list \<Rightarrow> parents \<Rightarrow> parents option" where
  "union_loop trades [] parent = Some parent"
| "union_loop trades (i # is) parent =
     Option.bind (union_edge (base_text (trades ! i)) (quote_text (trades ! i)) parent) (union_loop trades is)"

text \<open>\<open>byRoot\<close> and \<open>out\<close>: the components in the order their roots are first met.\<close>

fun component_loop :: "Trade list \<Rightarrow> nat list \<Rightarrow> parents \<Rightarrow> (string \<times> nat list) list \<Rightarrow> (string \<times> nat list) list option" where
  "component_loop trades [] parent out = Some out"
| "component_loop trades (i # is) parent out =
     Option.bind (find_root (base_text (trades ! i)) parent) (\<lambda>(parent, r).
       component_loop trades is parent (add_to_group r i out))"

definition assetComponents :: "Trade list \<Rightarrow> nat list \<Rightarrow> nat list list option" where
  "assetComponents trades idxs =
     Option.bind (union_loop trades idxs []) (\<lambda>parent.
       map_option (map snd) (component_loop trades idxs parent []))"

section \<open>Cycles\<close>

definition hopKey :: "string \<Rightarrow> string \<Rightarrow> string \<Rightarrow> string" where
  "hopKey source a b =
     (let (a, b) = (if b < a then (b, a) else (a, b)) in source @ [char_of (0 :: nat)] @ a @ [char_of (0 :: nat)] @ b)"

definition trade_hop :: "Trade \<Rightarrow> string" where
  "trade_hop t = hopKey (Source t) (base_text t) (quote_text t)"

definition trade_assets :: "Trade list \<Rightarrow> nat list \<Rightarrow> string list" where
  "trade_assets trades idxs = concat (map (\<lambda>i. [base_text (trades ! i), quote_text (trades ! i)]) idxs)"

definition isArbCycle :: "Trade list \<Rightarrow> nat list \<Rightarrow> bool" where
  "isArbCycle trades idxs =
     (let nNodes = length (remdups (trade_assets trades idxs));
          hops = length (remdups (map (\<lambda>i. trade_hop (trades ! i)) idxs));
          sources = length (remdups (map (\<lambda>i. Source (trades ! i)) idxs))
      in if hops < nNodes then False
         else 2 \<le> sources \<or> (2 < nNodes \<and> length idxs \<le> nNodes))"

definition leg_of :: "Trade \<Rightarrow> Leg" where
  "leg_of t =
     \<lparr>l_Source = Source t, l_Base = base_text t, l_Quote = quote_text t, l_BaseAmount = Amount_String (BaseAmount t),
      l_QuoteAmount = Amount_String (QuoteAmount t), l_Ref = opRefOf t\<rparr>"

text \<open>The stable insertion sort that \<open>sort.SliceStable\<close> amounts to.\<close>

fun insert_leg :: "Leg \<Rightarrow> Leg list \<Rightarrow> Leg list" where
  "insert_leg l [] = [l]"
| "insert_leg l (m # ms) = (if before (l_Ref m) (l_Ref l) then m # insert_leg l ms else l # m # ms)"

definition sort_legs :: "Leg list \<Rightarrow> Leg list" where
  "sort_legs legs = foldr insert_leg legs []"

definition buildArbCandidate ::
  "(string \<Rightarrow> rat option) \<Rightarrow> Trade list \<Rightarrow> MEVLegUSD list \<Rightarrow> nat list \<Rightarrow> Candidate option option" where
  "buildArbCandidate parse trades usdVolume idxs =
     map_option (\<lambda>comps.
       let kept = sort (concat (filter (isArbCycle trades) comps)) in
       if kept = [] then None
       else let fst_trade = trades ! hd kept;
                (notional, lowerBound, estimated) = sumUSD parse usdVolume kept
         in Some (zeroCandidate\<lparr>c_Kind := KindArbitrage, c_Ledger := Ledger fst_trade, DetectedAtLedger := Ledger fst_trade,
              c_Timestamp := Timestamp fst_trade, c_TxHash := TxHash fst_trade, c_Taker := Taker fst_trade,
              c_Assets := sortedKeys (trade_assets trades kept), c_Sources := distinctSources trades kept,
              Legs := sort_legs (map (\<lambda>i. leg_of (trades ! i)) kept), NotionalUSD := notional,
              NotionalLowerBound := lowerBound, NotionalEstimated := estimated\<rparr>))
       (assetComponents trades idxs)"

definition arb_key :: "Trade \<Rightarrow> string option" where
  "arb_key t =
     (if Ledger t = 0 \<or> Taker t = [] \<or> TxHash t = [] then None else Some (TxHash t @ [char_of (0 :: nat)] @ Taker t))"

fun arb_groups :: "(string \<Rightarrow> rat option) \<Rightarrow> Trade list \<Rightarrow> MEVLegUSD list \<Rightarrow> (string \<times> nat list) list \<Rightarrow> Candidate list option" where
  "arb_groups parse trades usd [] = Some []"
| "arb_groups parse trades usd ((key, idxs) # groups) =
     (if length idxs < minLegs then arb_groups parse trades usd groups
      else Option.bind (buildArbCandidate parse trades usd idxs) (\<lambda>c.
        map_option (\<lambda>out. (case c of None \<Rightarrow> out | Some c \<Rightarrow> c # out)) (arb_groups parse trades usd groups)))"

definition DetectArbitrage :: "(string \<Rightarrow> rat option) \<Rightarrow> Trade list \<Rightarrow> MEVLegUSD list \<Rightarrow> Candidate list option" where
  "DetectArbitrage parse trades usdVolume =
     arb_groups parse trades usdVolume (group_loop (\<lambda>i. arb_key (trades ! i)) [0..<length trades] [])"

section \<open>Union-find\<close>

text \<open>The representative of an asset; it exists exactly when the walk along the parents ends.\<close>

inductive has_root :: "parents \<Rightarrow> string \<Rightarrow> string \<Rightarrow> bool" for m where
  root_self: "map_of m a = None \<or> map_of m a = Some a \<Longrightarrow> has_root m a a"
| root_step: "map_of m a = Some p \<Longrightarrow> p \<noteq> a \<Longrightarrow> has_root m p r \<Longrightarrow> has_root m a r"

lemma root_det: "has_root m a r \<Longrightarrow> has_root m a s \<Longrightarrow> r = s"
proof (induction arbitrary: s rule: has_root.induct)
  case (root_self a)
  from root_self.prems root_self.hyps show ?case by cases auto
next
  case (root_step a p r)
  from root_step.prems show ?case
  proof cases
    case root_self
    then show ?thesis using root_step.hyps by auto
  next
    case (root_step p')
    then show ?thesis using root_step.hyps root_step.IH \<open>map_of m a = Some p\<close> by auto
  qed
qed

lemma root_end: "has_root m a r \<Longrightarrow> map_of m r = None \<or> map_of m r = Some r"
  by (induction rule: has_root.induct) auto

lemma root_root: "has_root m a r \<Longrightarrow> has_root m r r"
  by (auto intro: root_self dest: root_end)

definition forest :: "parents \<Rightarrow> bool" where
  "forest m \<longleftrightarrow> (\<forall>a. \<exists>r. has_root m a r)"

text \<open>Pointing an asset at its representative changes no representative.\<close>

lemma root_compress:
  assumes "has_root m x s" "has_root m a r"
  shows "has_root (AList.update a r m) x s"
  using assms(1)
proof (induction rule: has_root.induct)
  case (root_self x)
  show ?case
  proof (cases "x = a")
    case True
    then have "r = x" using root_det [OF assms(2)] has_root.root_self [OF root_self] by blast
    then show ?thesis using True by (auto intro: has_root.root_self simp: update_conv')
  qed (use root_self in \<open>auto intro: has_root.root_self simp: update_conv'\<close>)
next
  case (root_step x p s)
  show ?case
  proof (cases "x = a")
    case True
    have "has_root m x s" using root_step.hyps by (rule has_root.root_step)
    then have r: "s = r" using assms(2) root_det True by blast
    then have e: "map_of m r = None \<or> map_of m r = Some r" using root_end [OF assms(2)] by simp
    then have "r \<noteq> x" using root_step.hyps by auto
    then have "has_root (AList.update a r m) r r" using e True by (auto intro: has_root.root_self simp: update_conv')
    then show ?thesis using True r \<open>r \<noteq> x\<close> by (auto intro: has_root.root_step simp: update_conv')
  next
    case False
    then show ?thesis using root_step by (auto intro: has_root.root_step simp: update_conv')
  qed
qed

lemma find_root_correct:
  assumes "has_root m a r"
  shows "\<exists>m'. find_root a m = Some (m', r) \<and> (\<forall>x s. has_root m x s \<longrightarrow> has_root m' x s)"
  using assms
proof (induction rule: has_root.induct)
  case (root_self a)
  have "has_root m a a" using root_self by (rule has_root.root_self)
  then show ?case using root_self by (subst find_root.simps) (auto intro: root_compress)
next
  case (root_step a p r)
  from root_step.IH obtain m' where m': "find_root p m = Some (m', r)" "\<forall>x s. has_root m x s \<longrightarrow> has_root m' x s" by blast
  have "has_root m' a r" using m'(2) root_step.hyps by (blast intro: has_root.root_step)
  then show ?case using root_step.hyps m' by (subst find_root.simps) (auto intro: root_compress)
qed

text \<open>Hanging one representative under another joins exactly their two classes.\<close>

lemma root_link:
  assumes "has_root m x s" "has_root m rb rb" "has_root m rq rq"
  shows "has_root (AList.update rb rq m) x (if s = rb then rq else s)"
proof (cases "rb = rq")
  case True
  then show ?thesis using root_compress [OF assms(1,2)] by auto
next
  case ne: False
  let ?m = "AList.update rb rq m"
  have eb: "map_of m rb = None \<or> map_of m rb = Some rb" "map_of m rq = None \<or> map_of m rq = Some rq"
    using root_end assms(2,3) by blast+
  have q: "has_root ?m rq rq" using eb(2) ne by (auto intro: root_self simp: update_conv')
  then have b: "has_root ?m rb rq" using ne by (auto intro: root_step simp: update_conv')
  show ?thesis using assms(1)
  proof (induction rule: has_root.induct)
    case (root_self x)
    then show ?case using b by (auto intro: has_root.root_self simp: update_conv')
  next
    case (root_step x p s)
    have "x \<noteq> rb" using root_step.hyps eb(1) by auto
    then show ?case using root_step by (auto intro: has_root.root_step simp: update_conv')
  qed
qed

section \<open>Connected assets\<close>

definition joined :: "(string \<times> string) set \<Rightarrow> string \<Rightarrow> string \<Rightarrow> bool" where
  "joined E x y \<longleftrightarrow> (x, y) \<in> (E \<union> E\<inverse>)\<^sup>*"

lemma joined_refl [simp]: "joined E x x"
  by (simp add: joined_def)

lemma joined_sym: "joined E x y \<Longrightarrow> joined E y x"
proof -
  have "sym ((E \<union> E\<inverse>)\<^sup>*)" by (rule sym_rtrancl) (auto simp: sym_def)
  then show "joined E x y \<Longrightarrow> joined E y x" unfolding joined_def by (rule symD)
qed

lemma joined_trans: "joined E x y \<Longrightarrow> joined E y z \<Longrightarrow> joined E x z"
  unfolding joined_def by (rule rtrancl_trans)

lemma joined_edge: "(x, y) \<in> E \<Longrightarrow> joined E x y"
  unfolding joined_def by auto

lemma joined_mono: "joined E x y \<Longrightarrow> E \<subseteq> F \<Longrightarrow> joined F x y"
  unfolding joined_def using rtrancl_mono [of "E \<union> E\<inverse>" "F \<union> F\<inverse>"] by blast

lemma joined_empty [simp]: "joined {} x y \<longleftrightarrow> x = y"
  by (simp add: joined_def)

lemma joined_insert:
  "joined (insert (b, q) E) x y \<longleftrightarrow> joined E x y \<or> (joined E x b \<and> joined E q y) \<or> (joined E x q \<and> joined E b y)"
proof
  assume "joined (insert (b, q) E) x y"
  then have "(x, y) \<in> (insert (b, q) E \<union> (insert (b, q) E)\<inverse>)\<^sup>*" by (simp add: joined_def)
  then show "joined E x y \<or> (joined E x b \<and> joined E q y) \<or> (joined E x q \<and> joined E b y)"
  proof (induction rule: rtrancl_induct)
    case (step y z)
    then consider "(y, z) \<in> E \<union> E\<inverse>" | "y = b" "z = q" | "y = q" "z = b" by auto
    then show ?case
    proof cases
      case 1
      then have "joined E y z" by (auto intro: joined_edge joined_sym)
      then show ?thesis using step.IH by (meson joined_trans)
    qed (use step.IH joined_sym joined_trans joined_refl in meson)+
  qed simp
next
  assume a: "joined E x y \<or> (joined E x b \<and> joined E q y) \<or> (joined E x q \<and> joined E b y)"
  have m: "joined E u v \<Longrightarrow> joined (insert (b, q) E) u v" for u v by (rule joined_mono) auto
  have "joined (insert (b, q) E) b q" by (rule joined_edge) simp
  then show "joined (insert (b, q) E) x y" using a m by (meson joined_trans joined_sym)
qed

definition trade_edges :: "Trade list \<Rightarrow> nat list \<Rightarrow> (string \<times> string) set" where
  "trade_edges trades idxs = (\<lambda>i. (base_text (trades ! i), quote_text (trades ! i))) ` set idxs"

text \<open>The parent map represents a graph: every walk ends, and two assets end alike exactly when joined.\<close>

definition represents :: "parents \<Rightarrow> (string \<times> string) set \<Rightarrow> bool" where
  "represents m E \<longleftrightarrow> forest m \<and> (\<forall>x y r s. has_root m x r \<longrightarrow> has_root m y s \<longrightarrow> (r = s \<longleftrightarrow> joined E x y))"

definition rep :: "parents \<Rightarrow> string \<Rightarrow> string" where
  "rep m x = (THE r. has_root m x r)"

lemma rep_root: "has_root m x r \<Longrightarrow> rep m x = r"
  unfolding rep_def using root_det by blast

lemma represents_rep:
  assumes "represents m E"
  shows "has_root m x (rep m x)" and "rep m x = rep m y \<longleftrightarrow> joined E x y"
proof -
  have r: "has_root m x (rep m x)" for x
    using assms unfolding represents_def forest_def by (metis rep_root)
  show "has_root m x (rep m x)" by (rule r)
  show "rep m x = rep m y \<longleftrightarrow> joined E x y" using assms r unfolding represents_def by blast
qed

lemma represents_same_roots:
  assumes "represents m E" "\<forall>x s. has_root m x s \<longrightarrow> has_root m' x s"
  shows "represents m' E \<and> rep m' = rep m"
proof -
  have r: "has_root m' x (rep m x)" for x using represents_rep(1) [OF assms(1)] assms(2) by blast
  then have eq: "rep m' x = rep m x" for x using rep_root by blast
  have "represents m' E"
    unfolding represents_def forest_def
  proof (intro conjI allI impI)
    show "\<exists>r. has_root m' a r" for a using r by blast
    show "r = s \<longleftrightarrow> joined E x y" if "has_root m' x r" "has_root m' y s" for x y r s
      using that r root_det represents_rep(2) [OF assms(1), of x y] by metis
  qed
  then show ?thesis using eq by auto
qed

lemma find_root_represents:
  assumes "represents m E"
  shows "\<exists>m'. find_root a m = Some (m', rep m a) \<and> represents m' E \<and> rep m' = rep m"
  using find_root_correct [OF represents_rep(1) [OF assms], of a] represents_same_roots [OF assms] by blast

lemma union_edge_represents:
  assumes "represents m E"
  shows "\<exists>m'. union_edge b q m = Some m' \<and> represents m' (insert (b, q) E)"
proof -
  obtain m1 where m1: "find_root b m = Some (m1, rep m b)" "represents m1 E" "rep m1 = rep m"
    using find_root_represents [OF assms] by blast
  obtain m2 where m2: "find_root q m1 = Some (m2, rep m q)" "represents m2 E" "rep m2 = rep m"
    using find_root_represents [OF m1(2), of q] m1(3) by auto
  let ?m = "AList.update (rep m b) (rep m q) m2"
  have rt: "has_root m2 x (rep m x)" for x using represents_rep(1) [OF m2(2), of x] m2(3) by simp
  have j: "rep m x = rep m y \<longleftrightarrow> joined E x y" for x y using represents_rep(2) [OF assms] .
  have r: "has_root ?m x (if rep m x = rep m b then rep m q else rep m x)" for x
    using root_link [OF rt] rt root_root by blast
  have "represents ?m (insert (b, q) E)"
    unfolding represents_def forest_def
  proof (intro conjI allI impI)
    show "\<exists>r. has_root ?m a r" for a using r by blast
    show "u = v \<longleftrightarrow> joined (insert (b, q) E) x y" if "has_root ?m x u" "has_root ?m y v" for x y u v
    proof -
      have "u = (if rep m x = rep m b then rep m q else rep m x)" "v = (if rep m y = rep m b then rep m q else rep m y)"
        using that r root_det by blast+
      then show ?thesis unfolding joined_insert j [symmetric] by auto
    qed
  qed
  then show ?thesis using m1(1) m2(1) by (simp add: union_edge_def)
qed

lemma union_loop_represents:
  "represents m E \<Longrightarrow> \<exists>m'. union_loop trades is m = Some m' \<and> represents m' (trade_edges trades is \<union> E)"
proof (induction "is" arbitrary: m E)
  case (Cons i "is")
  obtain m1 where m1: "union_edge (base_text (trades ! i)) (quote_text (trades ! i)) m = Some m1"
      "represents m1 (insert (base_text (trades ! i), quote_text (trades ! i)) E)"
    using union_edge_represents [OF Cons.prems] by blast
  from Cons.IH [OF m1(2)] show ?case using m1(1) by (simp add: trade_edges_def)
qed (simp add: trade_edges_def)

lemma component_loop_represents:
  "represents m E \<Longrightarrow>
   component_loop trades is m out = Some (group_loop (\<lambda>i. Some (rep m (base_text (trades ! i)))) is out)"
proof (induction "is" arbitrary: m out)
  case (Cons i "is")
  obtain m1 where "find_root (base_text (trades ! i)) m = Some (m1, rep m (base_text (trades ! i)))" "represents m1 E" "rep m1 = rep m"
    using find_root_represents [OF Cons.prems] by blast
  then show ?case using Cons.IH [of m1] by simp
qed simp

text \<open>The component of an index: all indices whose base is joined to its base.\<close>

definition component :: "Trade list \<Rightarrow> nat list \<Rightarrow> nat \<Rightarrow> nat list" where
  "component trades idxs i = filter (\<lambda>j. joined (trade_edges trades idxs) (base_text (trades ! i)) (base_text (trades ! j))) idxs"

lemma assetComponents_some:
  "\<exists>comps. assetComponents trades idxs = Some comps \<and> distinct comps \<and>
     set comps = component trades idxs ` set idxs"
proof -
  let ?E = "trade_edges trades idxs"
  have nil: "has_root [] x s \<longleftrightarrow> s = x" for x s
    by (auto intro: root_self elim: has_root.cases)
  have "represents [] {}"
    unfolding represents_def forest_def nil by auto
  from union_loop_represents [OF this] obtain m where m: "union_loop trades idxs [] = Some m" "represents m ?E" by auto
  let ?k = "\<lambda>i. rep m (base_text (trades ! i))"
  let ?comps = "map (\<lambda>k. filter (\<lambda>i. ?k i = k) idxs) (keys_seen (\<lambda>i. Some (?k i)) idxs)"
  have e: "assetComponents trades idxs = Some ?comps"
    using component_loop_represents [OF m(2), of trades idxs "[]"] by (simp add: assetComponents_def m(1) group_loop_eq comp_def)
  have j: "?k i = ?k j \<longleftrightarrow> joined ?E (base_text (trades ! i)) (base_text (trades ! j))" for i j by (rule represents_rep(2) [OF m(2)])
  have c: "filter (\<lambda>j. ?k j = ?k i) idxs = component trades idxs i" for i
    unfolding component_def using j by (intro filter_cong) (auto intro: joined_sym)
  have "set ?comps = component trades idxs ` set idxs"
    by (auto simp: keys_seen_set c [symmetric])
  moreover have "distinct ?comps"
  proof (subst distinct_map, intro conjI keys_seen_distinct inj_onI)
    fix k l assume k: "k \<in> set (keys_seen (\<lambda>i. Some (?k i)) idxs)" and eq: "filter (\<lambda>i. ?k i = k) idxs = filter (\<lambda>i. ?k i = l) idxs"
    from k obtain i where i: "i \<in> set idxs" "?k i = k" by (auto simp: keys_seen_set)
    then have "i \<in> set (filter (\<lambda>i. ?k i = l) idxs)" unfolding eq [symmetric] by simp
    then show "k = l" using i by simp
  qed
  ultimately show ?thesis using e by blast
qed

section \<open>A component with as many hops as assets has a cycle\<close>

text \<open>An edge of a list that joins two assets the edges before it already join.\<close>

lemma redundant_edge:
  assumes "finite V" "\<forall>e \<in> set es. fst e \<in> V \<and> snd e \<in> V" "card V \<le> length es" "es \<noteq> []"
  shows "\<exists>i < length es. joined (set (take i es)) (fst (es ! i)) (snd (es ! i))"
proof (rule ccontr)
  assume "\<not> ?thesis"
  then have no: "\<not> joined (set (take i es)) (fst (es ! i)) (snd (es ! i))" if "i < length es" for i using that by blast
  have "k \<le> length es \<Longrightarrow> \<exists>f. (\<forall>x \<in> V. \<forall>y \<in> V. f x = (f y :: string) \<longleftrightarrow> joined (set (take k es)) x y) \<and> card (f ` V) + k = card V" for k
  proof (induction k)
    case 0
    then show ?case by (intro exI [of _ "\<lambda>x. x"]) simp
  next
    case (Suc k)
    then obtain f :: "string \<Rightarrow> string" where f: "\<forall>x \<in> V. \<forall>y \<in> V. f x = f y \<longleftrightarrow> joined (set (take k es)) x y" "card (f ` V) + k = card V"
      by auto
    obtain b q where bq: "es ! k = (b, q)" by (cases "es ! k")
    have V: "b \<in> V" "q \<in> V" using assms(2) Suc.prems nth_mem [of k es] bq by auto
    have ne: "f b \<noteq> f q" using no [of k] f(1) V Suc.prems bq by auto
    let ?g = "\<lambda>x. if f x = f b then f q else f x"
    have "set (take (Suc k) es) = insert (b, q) (set (take k es))" using Suc.prems bq by (simp add: take_Suc_conv_app_nth)
    moreover have j: "joined (set (take k es)) x y \<longleftrightarrow> f x = f y" if "x \<in> V" "y \<in> V" for x y using f(1) that by blast
    ultimately have "\<forall>x \<in> V. \<forall>y \<in> V. ?g x = ?g y \<longleftrightarrow> joined (set (take (Suc k) es)) x y"
      using V by (simp add: joined_insert j)
    moreover have "?g ` V = f ` V - {f b}" using V ne by (auto simp: image_iff split: if_splits)
    then have "card (?g ` V) = card (f ` V) - 1" using V assms(1) by simp
    moreover have "0 < card (f ` V)" using V assms(1) by (auto simp: card_gt_0_iff)
    ultimately show ?case using f(2) by (intro exI [of _ ?g]) auto
  qed
  from this [of "length es"] obtain f :: "string \<Rightarrow> string" where "card (f ` V) + length es = card V" by auto
  then have "card (f ` V) = 0" using assms(3) by simp
  then have "V = {}" using assms(1) by simp
  then show False using assms(2,4) by (cases es) auto
qed

text \<open>
  A trade of the component whose two assets are also joined by other hops (another venue or another pair)
  of the component: a closed tour.
\<close>

definition closes_cycle :: "Trade list \<Rightarrow> nat list \<Rightarrow> nat \<Rightarrow> bool" where
  "closes_cycle trades idxs i \<longleftrightarrow> i \<in> set idxs \<and>
     joined (trade_edges trades (filter (\<lambda>j. trade_hop (trades ! j) \<noteq> trade_hop (trades ! i)) idxs))
       (base_text (trades ! i)) (quote_text (trades ! i))"

lemma distinct_representatives: "\<exists>ys. set ys \<subseteq> set xs \<and> distinct (map f ys) \<and> set (map f ys) = f ` set xs"
proof (induction xs)
  case (Cons x xs)
  then obtain ys where ys: "set ys \<subseteq> set xs" "distinct (map f ys)" "set (map f ys) = f ` set xs" by blast
  show ?case
  proof (cases "f x \<in> f ` set xs")
    case True
    then have "f ` set (x # xs) = f ` set xs" by auto
    then show ?thesis using ys by (intro exI [of _ ys]) auto
  next
    case False
    have "f x \<notin> set (map f ys)" using False ys(3) by blast
    then show ?thesis using ys by (intro exI [of _ "x # ys"]) auto
  qed
qed simp

lemma isArbCycle_closes:
  assumes "isArbCycle trades idxs" "idxs \<noteq> []"
  shows "\<exists>i. closes_cycle trades idxs i"
proof -
  let ?V = "set (trade_assets trades idxs)"
  let ?e = "\<lambda>i. (base_text (trades ! i), quote_text (trades ! i))"
  let ?h = "\<lambda>i. trade_hop (trades ! i)"
  obtain ys where ys: "set ys \<subseteq> set idxs" "distinct (map ?h ys)" "set (map ?h ys) = ?h ` set idxs"
    using distinct_representatives [of idxs ?h] by blast
  have "card ?V \<le> length (remdups (map ?h idxs))"
    using assms(1) by (simp add: isArbCycle_def Let_def length_remdups_card_conv split: if_splits)
  also have "\<dots> = length ys"
    using ys distinct_card [OF ys(2)] by (simp add: length_remdups_card_conv)
  finally have len: "card ?V \<le> length (map ?e ys)" by simp
  have V: "\<forall>e \<in> set (map ?e ys). fst e \<in> ?V \<and> snd e \<in> ?V" using ys(1) by (auto simp: trade_assets_def)
  have "ys \<noteq> []" using ys(3) assms(2) by (metis image_is_empty list.set(1) list.map(1) set_empty)
  then obtain k where k: "k < length ys" "joined (set (take k (map ?e ys))) (fst (?e (ys ! k))) (snd (?e (ys ! k)))"
    using redundant_edge [OF _ V len] by auto
  have "?h j \<noteq> ?h (ys ! k)" if j: "j \<in> set (take k ys)" for j
  proof -
    obtain l where "l < length (take k ys)" "take k ys ! l = j" using j by (meson in_set_conv_nth)
    then have l: "l < k" "j = ys ! l" by auto
    then show ?thesis using nth_eq_iff_index_eq [OF ys(2), of l k] k(1) by auto
  qed
  then have "set (take k ys) \<subseteq> set (filter (\<lambda>j. ?h j \<noteq> ?h (ys ! k)) idxs)"
    using ys(1) set_take_subset [of k ys] by auto
  then have "set (take k (map ?e ys)) \<subseteq> trade_edges trades (filter (\<lambda>j. ?h j \<noteq> ?h (ys ! k)) idxs)"
    unfolding trade_edges_def take_map set_map by (rule image_mono)
  then have "closes_cycle trades idxs (ys ! k)"
    unfolding closes_cycle_def using k ys(1) nth_mem [OF k(1)] joined_mono [OF k(2)] by auto
  then show ?thesis by blast
qed

section \<open>The detector\<close>

text \<open>The indices of one transaction and taker, and those of them in a cyclic component.\<close>

definition arb_group :: "Trade list \<Rightarrow> string \<Rightarrow> string \<Rightarrow> nat list" where
  "arb_group trades tx a =
     filter (\<lambda>i. arb_key (trades ! i) \<noteq> None \<and> TxHash (trades ! i) = tx \<and> Taker (trades ! i) = a) [0..<length trades]"

definition cyclic :: "Trade list \<Rightarrow> nat list \<Rightarrow> nat list" where
  "cyclic trades g = filter (\<lambda>i. isArbCycle trades (component trades g i)) g"

lemma component_self: "i \<in> set g \<Longrightarrow> i \<in> set (component trades g i)"
  by (simp add: component_def)

lemma component_eq: "i \<in> set (component trades g j) \<Longrightarrow> component trades g i = component trades g j"
  unfolding component_def by (intro filter_cong refl) (auto intro: joined_trans joined_sym)

lemma kept_eq:
  assumes "distinct comps" "set comps = component trades g ` set g" "sorted g" "distinct g"
  shows "sort (concat (filter (isArbCycle trades) comps)) = cyclic trades g"
proof (rule sorted_distinct_set_unique)
  show "sorted (cyclic trades g)" "distinct (cyclic trades g)"
    using assms by (simp_all add: cyclic_def sorted_wrt_filter)
  have sub: "c \<in> set comps \<Longrightarrow> \<exists>i \<in> set g. c = component trades g i" for c using assms(2) by auto
  have "distinct (concat (filter (isArbCycle trades) comps))"
  proof (rule distinct_concat)
    show "distinct (filter (isArbCycle trades) comps)" using assms(1) by simp
    show "distinct c" if "c \<in> set (filter (isArbCycle trades) comps)" for c
      using sub [of c] that assms(4) by (auto simp: component_def)
    show "set c \<inter> set d = {}" if "c \<in> set (filter (isArbCycle trades) comps)" "d \<in> set (filter (isArbCycle trades) comps)" "c \<noteq> d" for c d
      using sub [of c] sub [of d] that component_eq [of _ trades g] by (auto, metis)
  qed
  then show "distinct (sort (concat (filter (isArbCycle trades) comps)))" by simp
  have "i \<in> set (concat (filter (isArbCycle trades) comps)) \<longleftrightarrow> i \<in> set (cyclic trades g)" for i
  proof
    assume "i \<in> set (concat (filter (isArbCycle trades) comps))"
    then obtain c where c: "c \<in> set comps" "isArbCycle trades c" "i \<in> set c" by auto
    then obtain j where j: "c = component trades g j" using sub by blast
    then have "component trades g i = c" using component_eq c(3) by simp
    then show "i \<in> set (cyclic trades g)" using c j by (auto simp: cyclic_def component_def)
  next
    assume "i \<in> set (cyclic trades g)"
    then show "i \<in> set (concat (filter (isArbCycle trades) comps))"
      using assms(2) component_self [of i g trades] by (auto simp: cyclic_def)
  qed
  then show "set (sort (concat (filter (isArbCycle trades) comps))) = set (cyclic trades g)" by auto
qed simp

lemma insert_leg_mset [simp]: "mset (insert_leg l ms) = add_mset l (mset ms)"
  by (induction ms) auto

lemma sort_legs_mset [simp]: "mset (sort_legs ls) = mset ls"
  by (induction ls) (simp_all add: sort_legs_def)

definition arb_candidate :: "(string \<Rightarrow> rat option) \<Rightarrow> Trade list \<Rightarrow> MEVLegUSD list \<Rightarrow> nat list \<Rightarrow> Candidate" where
  "arb_candidate parse trades usd g = the (the (buildArbCandidate parse trades usd g))"

lemma buildArbCandidate_eq:
  assumes "sorted g" "distinct g"
  shows "buildArbCandidate parse trades usd g =
     Some (if cyclic trades g = [] then None else Some (arb_candidate parse trades usd g))"
    and "cyclic trades g \<noteq> [] \<Longrightarrow>
      c_TxHash (arb_candidate parse trades usd g) = TxHash (trades ! hd (cyclic trades g)) \<and>
      c_Taker (arb_candidate parse trades usd g) = Taker (trades ! hd (cyclic trades g)) \<and>
      mset (Legs (arb_candidate parse trades usd g)) = mset (map (\<lambda>i. leg_of (trades ! i)) (cyclic trades g))"
proof -
  obtain comps where c: "assetComponents trades g = Some comps" "distinct comps" "set comps = component trades g ` set g"
    using assetComponents_some by blast
  note k = kept_eq [OF c(2,3) assms]
  show "buildArbCandidate parse trades usd g =
     Some (if cyclic trades g = [] then None else Some (arb_candidate parse trades usd g))"
    by (simp add: arb_candidate_def buildArbCandidate_def c(1) k Let_def case_prod_unfold)
  show "cyclic trades g \<noteq> [] \<Longrightarrow>
      c_TxHash (arb_candidate parse trades usd g) = TxHash (trades ! hd (cyclic trades g)) \<and>
      c_Taker (arb_candidate parse trades usd g) = Taker (trades ! hd (cyclic trades g)) \<and>
      mset (Legs (arb_candidate parse trades usd g)) = mset (map (\<lambda>i. leg_of (trades ! i)) (cyclic trades g))"
    by (simp add: arb_candidate_def buildArbCandidate_def c(1) k Let_def case_prod_unfold)
qed

text \<open>A single trade is never a cycle, so the floor on legs only skips work.\<close>

lemma cyclic_short: "length g < minLegs \<Longrightarrow> cyclic trades g = []"
proof (cases g)
  case (Cons i g')
  moreover assume "length g < minLegs"
  ultimately have g: "g = [i]" by (simp add: minLegs_def)
  have "component trades [i] i = [i]" by (simp add: component_def)
  moreover have "\<not> isArbCycle trades [i]" by (simp add: isArbCycle_def trade_assets_def)
  ultimately show ?thesis by (simp add: cyclic_def g)
qed (simp add: cyclic_def)

lemma arb_groups_eq:
  assumes "\<forall>(k, g) \<in> set groups. sorted g \<and> distinct g"
  shows "arb_groups parse trades usd groups =
    Some (map (arb_candidate parse trades usd) (filter (\<lambda>g. cyclic trades g \<noteq> []) (map snd groups)))"
  using assms
proof (induction groups)
  case (Cons kg groups)
  obtain k g where kg: "kg = (k, g)" by (cases kg)
  have g: "sorted g" "distinct g" using Cons.prems kg by auto
  show ?case using Cons cyclic_short [of g trades] by (auto simp: kg buildArbCandidate_eq(1) [OF g])
qed simp

lemma DetectArbitrage_eq:
  "DetectArbitrage parse trades usd =
    Some (map (arb_candidate parse trades usd) (filter (\<lambda>g. cyclic trades g \<noteq> [])
      (map (\<lambda>k. filter (\<lambda>i. arb_key (trades ! i) = Some k) [0..<length trades])
        (keys_seen (\<lambda>i. arb_key (trades ! i)) [0..<length trades]))))"
  unfolding DetectArbitrage_def by (subst arb_groups_eq) (auto simp: group_loop_eq comp_def sorted_wrt_filter)

lemma arb_key_text: "arb_key t = Some k \<Longrightarrow> k = TxHash t @ char_of (0 :: nat) # Taker t"
  by (simp add: arb_key_def split: if_splits)

definition hashes_ok :: "Trade list \<Rightarrow> bool" where
  "hashes_ok trades \<longleftrightarrow> (\<forall>t \<in> set trades. char_of (0 :: nat) \<notin> set (TxHash t))"

abbreviation key_group :: "Trade list \<Rightarrow> string \<Rightarrow> nat list" where
  "key_group trades k \<equiv> filter (\<lambda>i. arb_key (trades ! i) = Some k) [0..<length trades]"

lemma arb_group_eq:
  assumes "hashes_ok trades" "i < length trades" "arb_key (trades ! i) = Some k"
  shows "key_group trades k = arb_group trades (TxHash (trades ! i)) (Taker (trades ! i))"
proof -
  have "arb_key (trades ! j) = Some k \<longleftrightarrow>
      arb_key (trades ! j) \<noteq> None \<and> TxHash (trades ! j) = TxHash (trades ! i) \<and> Taker (trades ! j) = Taker (trades ! i)"
    if "j < length trades" for j
  proof (cases "arb_key (trades ! j)")
    case (Some k')
    have "char_of (0 :: nat) \<notin> set (TxHash (trades ! j))" "char_of (0 :: nat) \<notin> set (TxHash (trades ! i))"
      using assms(1,2) that by (simp_all add: hashes_ok_def)
    then have "k' = k \<longleftrightarrow> TxHash (trades ! j) = TxHash (trades ! i) \<and> Taker (trades ! j) = Taker (trades ! i)"
      unfolding arb_key_text [OF Some] arb_key_text [OF assms(3)] by (metis cut_inject)
    then show ?thesis using Some by simp
  qed simp
  then show ?thesis unfolding arb_group_def by (intro filter_cong) auto
qed

lemma arb_candidate_of_key:
  fixes parse usd trades k
  defines "c \<equiv> arb_candidate parse trades usd (key_group trades k)"
  assumes "hashes_ok trades" "cyclic trades (key_group trades k) \<noteq> []"
  shows "k = c_TxHash c @ char_of (0 :: nat) # c_Taker c \<and> char_of (0 :: nat) \<notin> set (c_TxHash c)"
    and "key_group trades k = arb_group trades (c_TxHash c) (c_Taker c)"
    and "mset (Legs c) = mset (map (\<lambda>i. leg_of (trades ! i)) (cyclic trades (key_group trades k)))"
proof -
  let ?i = "hd (cyclic trades (key_group trades k))"
  have "?i \<in> set (key_group trades k)" using hd_in_set [OF assms(3)] by (simp add: cyclic_def)
  then have i: "?i < length trades" "arb_key (trades ! ?i) = Some k" by auto
  have "sorted (key_group trades k)" "distinct (key_group trades k)" by (simp_all add: sorted_wrt_filter)
  from buildArbCandidate_eq(2) [OF this assms(3), of parse usd]
  have c: "c_TxHash c = TxHash (trades ! ?i)" "c_Taker c = Taker (trades ! ?i)"
    "mset (Legs c) = mset (map (\<lambda>i. leg_of (trades ! i)) (cyclic trades (key_group trades k)))" by (simp_all add: c_def)
  show "k = c_TxHash c @ char_of (0 :: nat) # c_Taker c \<and> char_of (0 :: nat) \<notin> set (c_TxHash c)"
    using arb_key_text [OF i(2)] c assms(2) i(1) by (simp add: hashes_ok_def)
  show "key_group trades k = arb_group trades (c_TxHash c) (c_Taker c)" using arb_group_eq [OF assms(2) i] c by simp
  show "mset (Legs c) = mset (map (\<lambda>i. leg_of (trades ! i)) (cyclic trades (key_group trades k)))" by (rule c(3))
qed

lemma cyclic_group_key:
  assumes "hashes_ok trades" "cyclic trades (arb_group trades tx a) \<noteq> []"
  shows "\<exists>k \<in> set (keys_seen (\<lambda>i. arb_key (trades ! i)) [0..<length trades]).
    key_group trades k = arb_group trades tx a \<and> k = tx @ char_of (0 :: nat) # a"
proof -
  obtain i where "i \<in> set (arb_group trades tx a)" using assms(2) by (auto simp: cyclic_def filter_empty_conv)
  then obtain k where k: "i < length trades" "arb_key (trades ! i) = Some k" "TxHash (trades ! i) = tx" "Taker (trades ! i) = a"
    by (auto simp: arb_group_def)
  have "key_group trades k = arb_group trades tx a" using arb_group_eq [OF assms(1) k(1,2)] k(3,4) by simp
  moreover have "k \<in> set (keys_seen (\<lambda>i. arb_key (trades ! i)) [0..<length trades])"
    unfolding keys_seen_set using k(1,2) by (intro CollectI bexI [of _ i]) auto
  ultimately show ?thesis using arb_key_text [OF k(2)] k(3,4) by (intro bexI [of _ k]) simp_all
qed


text \<open>
  C34. The component search terminates and is right: on every set of trades the recursion of \<open>find\<close> returns,
  although it follows a parent map that it rewrites as it goes, and the result lists each connected component
  of the asset graph once, as the indices whose assets are joined, in their order.
\<close>

theorem assetComponents_exact:
  "\<exists>comps. assetComponents trades idxs = Some comps \<and> distinct comps \<and>
     (\<forall>c. c \<in> set comps \<longleftrightarrow> (\<exists>i \<in> set idxs. c = filter (\<lambda>j. joined (trade_edges trades idxs) (base_text (trades ! i)) (base_text (trades ! j))) idxs))"
  using assetComponents_some [of trades idxs] unfolding component_def by (auto simp: image_iff)

section \<open>Concrete inputs\<close>

definition sample_leg :: "string \<Rightarrow> 32 word \<Rightarrow> Trade" where
  "sample_leg source op =
     \<lparr>Source = source, Ledger = 7, TxHash = ''aa'', OpIndex = op, Timestamp = 1, TPair = sample_pair,
      BaseAmount = NewAmount (Some 10), QuoteAmount = NewAmount (Some 20), Maker = [], Taker = ''GA'', RoutedVia = []\<rparr>"


end
