(* ===== verification/MEVSandwich.thy ===== *)
theory MEVSandwich
  imports MEVInputs
begin

text \<open>
  The two detectors that need the order of transactions inside a ledger
  (internal/aggregate/mev/sandwich.go and oracle\_sandwich.go): an account whose outermost trades on a pair
  bracket another account's trade in opposite directions, and an account whose nearest trades around an
  oracle update run in opposite directions on its asset.

  The proofs show what a published candidate proves and that looking up the order of the transactions that
  \<open>OrderingTxHashes\<close> selects loses no candidate.
\<close>

section \<open>Directions\<close>

definition KindSandwich :: string where
  "KindSandwich = ''sandwich''"

definition takerBaseIsReceived :: "string \<Rightarrow> bool option" where
  "takerBaseIsReceived source =
     (if source = ''sdex'' then Some True else if source \<in> set amm_sources then Some False else None)"

definition takerReceivesLowAsset :: "network \<Rightarrow> Trade \<Rightarrow> bool option" where
  "takerReceivesLowAsset n t =
     (case takerBaseIsReceived (Source t) of
        None \<Rightarrow> None
      | Some received \<Rightarrow> Some (received = (normAsset n (base_text t) \<le> normAsset n (quote_text t))))"

definition takerReceivesAsset :: "network \<Rightarrow> Trade \<Rightarrow> string \<Rightarrow> bool option" where
  "takerReceivesAsset n t asset =
     (case takerBaseIsReceived (Source t) of
        None \<Rightarrow> None
      | Some baseReceived \<Rightarrow>
          if normAsset n asset = normAsset n (base_text t) then Some baseReceived
          else if normAsset n asset = normAsset n (quote_text t) then Some (\<not> baseReceived)
          else None)"

definition opposite :: "bool option \<Rightarrow> bool option \<Rightarrow> bool" where
  "opposite a b = (case (a, b) of (Some x, Some y) \<Rightarrow> x \<noteq> y | _ \<Rightarrow> False)"

definition oppositeDirection :: "network \<Rightarrow> Trade \<Rightarrow> Trade \<Rightarrow> bool" where
  "oppositeDirection n front back = opposite (takerReceivesLowAsset n front) (takerReceivesLowAsset n back)"

definition oppositeOnAsset :: "network \<Rightarrow> Trade \<Rightarrow> Trade \<Rightarrow> string \<Rightarrow> bool" where
  "oppositeOnAsset n a b asset = opposite (takerReceivesAsset n a asset) (takerReceivesAsset n b asset)"

section \<open>sandwich.go\<close>

type_synonym tx_order = "(string \<times> 32 word) list"

text \<open>\<open>txIdx[h]\<close>: a missing key reads as 0.\<close>

definition tx_at :: "tx_order \<Rightarrow> string \<Rightarrow> 32 word" where
  "tx_at txIdx h = (case map_of txIdx h of Some i \<Rightarrow> i | None \<Rightarrow> 0)"

fun bracket_loop :: "Trade list \<Rightarrow> tx_order \<Rightarrow> nat list \<Rightarrow> nat \<Rightarrow> nat \<Rightarrow> nat \<times> nat" where
  "bracket_loop trades txIdx [] front back = (front, back)"
| "bracket_loop trades txIdx (i # is) front back =
     bracket_loop trades txIdx is
       (if tx_at txIdx (TxHash (trades ! i)) < tx_at txIdx (TxHash (trades ! front)) then i else front)
       (if tx_at txIdx (TxHash (trades ! back)) < tx_at txIdx (TxHash (trades ! i)) then i else back)"

text \<open>The index list is never empty where it is called; on an empty one the code panics.\<close>

definition bracketTrades :: "Trade list \<Rightarrow> tx_order \<Rightarrow> nat list \<Rightarrow> (nat \<times> nat) option" where
  "bracketTrades trades txIdx idxs =
     (case idxs of [] \<Rightarrow> None | i # is \<Rightarrow>
        let (front, back) = bracket_loop trades txIdx is i i in
        if TxHash (trades ! front) = TxHash (trades ! back) then None else Some (front, back))"

definition orderedLegFrom :: "tx_order \<Rightarrow> string \<Rightarrow> Trade \<Rightarrow> OrderedLeg" where
  "orderedLegFrom txIdx role t =
     \<lparr>ol_Source = Source t, ol_TxHash = TxHash t, ol_TxIndex = tx_at txIdx (TxHash t), ol_Ref = opRefOf t,
      ol_Account = Taker t, ol_Base = base_text t, ol_Quote = quote_text t,
      ol_BaseAmount = Amount_String (BaseAmount t), ol_QuoteAmount = Amount_String (QuoteAmount t), Role = role\<rparr>"

definition sandwich_candidate ::
  "network \<Rightarrow> (string \<Rightarrow> rat option) \<Rightarrow> Trade list \<Rightarrow> MEVLegUSD list \<Rightarrow> tx_order \<Rightarrow> string \<Rightarrow> nat \<Rightarrow> nat list \<Rightarrow> nat \<Rightarrow> Candidate" where
  "sandwich_candidate n parse trades usd txIdx attacker front victims back =
     (let involved = front # victims @ [back];
          legs = orderedLegFrom txIdx ''bracket'' (trades ! front) #
                 map (\<lambda>i. orderedLegFrom txIdx ''victim'' (trades ! i)) victims @ [orderedLegFrom txIdx ''bracket'' (trades ! back)];
          t0 = trades ! front; pair = unorderedPairKey n t0; (assetID, quoteID) = pairIDs n t0;
          (notional, lowerBound, estimated) = sumUSD parse usd involved
      in zeroCandidate\<lparr>AssetID := assetID, QuoteID := quoteID, c_Kind := KindSandwich, c_Ledger := Ledger t0,
           DetectedAtLedger := Ledger t0, c_Timestamp := Timestamp t0, c_TxHash := TxHash t0, c_Taker := attacker,
           TxHashes := Some (distinctTxHashes trades involved), Accounts := Some (distinctAccounts trades involved attacker),
           c_Assets := pairAssets t0, c_Sources := distinctSources trades involved, NotionalUSD := notional,
           NotionalLowerBound := lowerBound, NotionalEstimated := estimated,
           Dedup := KindSandwich @ '':'' @ TxHash t0 @ '':'' @ attacker @ '':'' @ pair,
           Detail := SandwichDetail pair attacker legs notional lowerBound estimated\<rparr>)"

definition buildSandwichCandidate ::
  "network \<Rightarrow> (string \<Rightarrow> rat option) \<Rightarrow> Trade list \<Rightarrow> MEVLegUSD list \<Rightarrow> tx_order \<Rightarrow> nat list \<Rightarrow> string \<Rightarrow> nat list \<Rightarrow> Candidate option" where
  "buildSandwichCandidate n parse trades usd txIdx groupIdxs attacker attackerIdxs =
     (case bracketTrades trades txIdx attackerIdxs of
        None \<Rightarrow> None
      | Some (front, back) \<Rightarrow>
          if \<not> oppositeDirection n (trades ! front) (trades ! back) then None
          else let frontIdx = tx_at txIdx (TxHash (trades ! front)); backIdx = tx_at txIdx (TxHash (trades ! back));
                   victims = filter (\<lambda>i. Taker (trades ! i) \<noteq> attacker \<and>
                     frontIdx < tx_at txIdx (TxHash (trades ! i)) \<and> tx_at txIdx (TxHash (trades ! i)) < backIdx) groupIdxs
            in if victims = [] then None
               else Some (sandwich_candidate n parse trades usd txIdx attacker front victims back))"

definition sandwichesInGroup ::
  "network \<Rightarrow> (string \<Rightarrow> rat option) \<Rightarrow> Trade list \<Rightarrow> MEVLegUSD list \<Rightarrow> tx_order \<Rightarrow> nat list \<Rightarrow> Candidate list" where
  "sandwichesInGroup n parse trades usd txIdx idxs =
     (let byTaker = group_loop (\<lambda>i. Some (Taker (trades ! i))) idxs [] in
      if length byTaker < 2 then []
      else List.map_filter (\<lambda>(attacker, is). buildSandwichCandidate n parse trades usd txIdx idxs attacker is) byTaker)"

definition ordered_key :: "network \<Rightarrow> tx_order \<Rightarrow> Trade \<Rightarrow> string option" where
  "ordered_key n txIdx t =
     (if \<not> orderableTrade t \<or> map_of txIdx (TxHash t) = None then None else Some (group_key n t))"

definition DetectSandwiches ::
  "network \<Rightarrow> (string \<Rightarrow> rat option) \<Rightarrow> Trade list \<Rightarrow> MEVLegUSD list \<Rightarrow> tx_order \<Rightarrow> Candidate list" where
  "DetectSandwiches n parse trades usd txIdx =
     (if txIdx = [] then []
      else concat (map (\<lambda>(key, idxs). sandwichesInGroup n parse trades usd txIdx idxs)
             (group_loop (\<lambda>i. ordered_key n txIdx (trades ! i)) [0..<length trades] [])))"

section \<open>oracle\_sandwich.go\<close>

definition KindOracleSandwich :: string where
  "KindOracleSandwich = ''oracle_sandwich''"

text \<open>The nearest trades on each side; \<open>-1\<close> is \<open>None\<close>.\<close>

fun nearest_loop :: "Trade list \<Rightarrow> tx_order \<Rightarrow> 32 word \<Rightarrow> nat list \<Rightarrow> nat option \<Rightarrow> nat option \<Rightarrow> nat option \<times> nat option" where
  "nearest_loop trades txIdx oIdx [] bef aft = (bef, aft)"
| "nearest_loop trades txIdx oIdx (i # is) bef aft =
     (let ti = tx_at txIdx (TxHash (trades ! i)) in
      if ti < oIdx then
        nearest_loop trades txIdx oIdx is
          (case bef of None \<Rightarrow> Some i | Some b \<Rightarrow> if tx_at txIdx (TxHash (trades ! b)) < ti then Some i else bef) aft
      else if oIdx < ti then
        nearest_loop trades txIdx oIdx is bef
          (case aft of None \<Rightarrow> Some i | Some a \<Rightarrow> if ti < tx_at txIdx (TxHash (trades ! a)) then Some i else aft)
      else nearest_loop trades txIdx oIdx is bef aft)"

definition oracle_candidate ::
  "network \<Rightarrow> (string \<Rightarrow> rat option) \<Rightarrow> Trade list \<Rightarrow> MEVLegUSD list \<Rightarrow> tx_order \<Rightarrow> MEVOracleRef \<Rightarrow> 32 word \<Rightarrow> string \<Rightarrow> nat \<Rightarrow> nat \<Rightarrow> Candidate" where
  "oracle_candidate n parse trades usd txIdx ref oIdx taker bef aft =
     (let involved = [bef, aft]; tb = trades ! bef;
          legs = [orderedLegFrom txIdx ''before'' (trades ! bef), orderedLegFrom txIdx ''after'' (trades ! aft)];
          (notional, lowerBound, estimated) = sumUSD parse usd involved
      in zeroCandidate\<lparr>c_Kind := KindOracleSandwich, c_Ledger := o_Ledger ref, DetectedAtLedger := o_Ledger ref,
           c_Timestamp := Timestamp tb, c_TxHash := o_TxHash ref, c_Taker := taker,
           TxHashes := Some [TxHash tb, o_TxHash ref, TxHash (trades ! aft)], Accounts := Some [taker],
           c_Assets := [normAsset n (o_Asset ref)], AssetID := normAsset n (o_Asset ref), QuoteID := o_Quote ref,
           c_Sources := distinctSources trades involved, NotionalUSD := notional, NotionalLowerBound := lowerBound,
           NotionalEstimated := estimated,
           Dedup := KindOracleSandwich @ '':'' @ o_TxHash ref @ '':'' @ nat_String (unat (o_OpIndex ref)) @ '':'' @
             taker @ '':'' @ normAsset n (o_Asset ref),
           Detail := OracleSandwichDetail (o_Source ref) (o_ContractID ref) (o_TxHash ref) oIdx (o_Asset ref)
             (o_Quote ref) taker legs notional lowerBound estimated\<rparr>)"

definition buildOracleSandwichCandidate ::
  "network \<Rightarrow> (string \<Rightarrow> rat option) \<Rightarrow> Trade list \<Rightarrow> MEVLegUSD list \<Rightarrow> tx_order \<Rightarrow> MEVOracleRef \<Rightarrow> 32 word \<Rightarrow> string \<Rightarrow> nat list \<Rightarrow> Candidate option" where
  "buildOracleSandwichCandidate n parse trades usd txIdx ref oIdx taker idxs =
     (case nearest_loop trades txIdx oIdx idxs None None of
        (Some bef, Some aft) \<Rightarrow>
          if \<not> oppositeOnAsset n (trades ! bef) (trades ! aft) (o_Asset ref) then None
          else Some (oracle_candidate n parse trades usd txIdx ref oIdx taker bef aft)
      | _ \<Rightarrow> None)"

definition update_key :: "network \<Rightarrow> MEVOracleRef \<Rightarrow> Trade \<Rightarrow> string option" where
  "update_key n ref t = (if TxHash t = o_TxHash ref \<or> \<not> tradeTouches n t (o_Asset ref) then None else Some (Taker t))"

definition oracleSandwichesForUpdate ::
  "network \<Rightarrow> (string \<Rightarrow> rat option) \<Rightarrow> Trade list \<Rightarrow> MEVLegUSD list \<Rightarrow> tx_order \<Rightarrow> MEVOracleRef \<Rightarrow> 32 word \<Rightarrow> nat list \<Rightarrow> Candidate list" where
  "oracleSandwichesForUpdate n parse trades usd txIdx ref oIdx ledgerTrades =
     List.map_filter (\<lambda>(taker, is). buildOracleSandwichCandidate n parse trades usd txIdx ref oIdx taker is)
       (group_loop (\<lambda>i. update_key n ref (trades ! i)) ledgerTrades [])"

definition ledger_key :: "tx_order \<Rightarrow> Trade \<Rightarrow> 32 word option" where
  "ledger_key txIdx t = (if \<not> orderableTrade t \<or> map_of txIdx (TxHash t) = None then None else Some (Ledger t))"

definition DetectOracleSandwiches ::
  "network \<Rightarrow> (string \<Rightarrow> rat option) \<Rightarrow> Trade list \<Rightarrow> MEVLegUSD list \<Rightarrow> MEVOracleRef list \<Rightarrow> tx_order \<Rightarrow> Candidate list" where
  "DetectOracleSandwiches n parse trades usd oracles txIdx =
     (if txIdx = [] \<or> oracles = [] then []
      else let tradesByLedger = group_loop (\<lambda>i. ledger_key txIdx (trades ! i)) [0..<length trades] []
        in concat (map (\<lambda>ref.
             if o_Ledger ref = 0 \<or> o_TxHash ref = [] then []
             else case map_of txIdx (o_TxHash ref) of
               None \<Rightarrow> []
             | Some oIdx \<Rightarrow> oracleSandwichesForUpdate n parse trades usd txIdx ref oIdx
                 (case map_of tradesByLedger (o_Ledger ref) of Some is \<Rightarrow> is | None \<Rightarrow> [])) oracles))"

section \<open>Group keys\<close>

lemma unat_lt_32: "unat (l :: 32 word) < 4294967296"
  using unsigned_less [of l] by simp

lemma unat_div10: "unat (l div 10 :: 32 word) = unat l div 10" "unat (l mod 10 :: 32 word) = unat l mod 10"
  by (simp_all add: unat_div unat_mod)

lemma ledger_digits_length [simp]: "length (ledger_digits k l) = k"
  by (induction k arbitrary: l) simp_all

lemma ledger_digits_value: "foldl (\<lambda>m c. 10 * m + digit_value c) 0 (ledger_digits k l) = unat l mod 10 ^ k"
proof (induction k arbitrary: l)
  case (Suc k)
  have "unat l mod 10 ^ Suc k = unat l mod 10 + 10 * (unat l div 10 mod 10 ^ k)" by (simp add: mod_mult2_eq)
  then show ?case using Suc by (simp add: unat_div10 algebra_simps)
qed simp

lemma ledgerKey_inject: "ledgerKey l @ x = ledgerKey l' @ y \<longleftrightarrow> l = l' \<and> x = y"
proof
  assume "ledgerKey l @ x = ledgerKey l' @ y"
  then have d: "ledger_digits 10 l = ledger_digits 10 l'" and xy: "x = y" by (simp_all add: ledgerKey_def)
  have "unat l < 10 ^ 10" for l :: "32 word" by (rule less_trans [OF unat_lt_32]) simp
  then have "unat l = unat l'" using ledger_digits_value [of 10 l] ledger_digits_value [of 10 l'] d by (metis mod_less)
  then show "l = l' \<and> x = y" using xy by (simp add: word_unat_eq_iff)
qed simp

lemma group_key_eq: "group_key n t = group_key n t' \<longleftrightarrow> Ledger t = Ledger t' \<and> unorderedPairKey n t = unorderedPairKey n t'"
  by (simp add: group_key_def ledgerKey_inject)

section \<open>What a sandwich candidate proves\<close>

text \<open>The trades of one ledger and pair whose place in the ledger is known.\<close>

definition market :: "network \<Rightarrow> tx_order \<Rightarrow> Trade list \<Rightarrow> 32 word \<Rightarrow> string \<Rightarrow> nat list" where
  "market n txIdx trades l pk =
     filter (\<lambda>i. orderableTrade (trades ! i) \<and> map_of txIdx (TxHash (trades ! i)) \<noteq> None \<and> Ledger (trades ! i) = l \<and>
       unorderedPairKey n (trades ! i) = pk) [0..<length trades]"

abbreviation place :: "tx_order \<Rightarrow> Trade list \<Rightarrow> nat \<Rightarrow> 32 word" where
  "place txIdx trades i \<equiv> tx_at txIdx (TxHash (trades ! i))"

text \<open>
  \<open>front\<close> and \<open>back\<close> are the account's first and last trade on the market (the first listed one where a
  transaction holds several), and \<open>victims\<close> the trades of other accounts strictly between.
\<close>

definition first_min :: "(nat \<Rightarrow> 32 word) \<Rightarrow> nat list \<Rightarrow> nat \<Rightarrow> bool" where
  "first_min p is m \<longleftrightarrow> m \<in> set is \<and> (\<forall>i \<in> set is. p m < p i \<or> p m = p i \<and> m \<le> i)"

definition first_max :: "(nat \<Rightarrow> 32 word) \<Rightarrow> nat list \<Rightarrow> nat \<Rightarrow> bool" where
  "first_max p is m \<longleftrightarrow> m \<in> set is \<and> (\<forall>i \<in> set is. p i < p m \<or> p i = p m \<and> m \<le> i)"

definition outermost :: "tx_order \<Rightarrow> Trade list \<Rightarrow> nat list \<Rightarrow> nat \<Rightarrow> nat \<Rightarrow> bool" where
  "outermost txIdx trades is front back \<longleftrightarrow>
     first_min (\<lambda>i. tx_at txIdx (TxHash (trades ! i))) is front \<and> first_max (\<lambda>i. tx_at txIdx (TxHash (trades ! i))) is back"

definition sandwich ::
  "network \<Rightarrow> tx_order \<Rightarrow> Trade list \<Rightarrow> 32 word \<Rightarrow> string \<Rightarrow> string \<Rightarrow> nat \<Rightarrow> nat list \<Rightarrow> nat \<Rightarrow> bool" where
  "sandwich n txIdx trades l pk attacker front victims back \<longleftrightarrow>
     outermost txIdx trades (filter (\<lambda>i. Taker (trades ! i) = attacker) (market n txIdx trades l pk)) front back \<and>
     TxHash (trades ! front) \<noteq> TxHash (trades ! back) \<and> oppositeDirection n (trades ! front) (trades ! back) \<and>
     victims = filter (\<lambda>i. Taker (trades ! i) \<noteq> attacker \<and> place txIdx trades front < place txIdx trades i \<and>
       place txIdx trades i < place txIdx trades back) (market n txIdx trades l pk) \<and> victims \<noteq> []"

lemma first_min_snoc:
  assumes "first_min p seen m" "\<forall>j \<in> set seen. j \<le> i"
  shows "first_min p (seen @ [i]) (if p i < p m then i else m)"
proof (cases "p i < p m")
  case True
  have "p i < p j" if "j \<in> set seen" for j using assms(1) that True unfolding first_min_def by (metis less_trans)
  then show ?thesis using True by (simp add: first_min_def)
next
  case False
  then show ?thesis using assms by (auto simp: first_min_def not_less order_le_less)
qed

lemma first_max_snoc:
  assumes "first_max p seen m" "\<forall>j \<in> set seen. j \<le> i"
  shows "first_max p (seen @ [i]) (if p m < p i then i else m)"
proof (cases "p m < p i")
  case True
  have "p j < p i" if "j \<in> set seen" for j using assms(1) that True unfolding first_max_def by (metis less_trans)
  then show ?thesis using True by (simp add: first_max_def)
next
  case False
  then show ?thesis using assms by (auto simp: first_max_def not_less order_le_less)
qed

lemma first_min_unique: "first_min p is m \<Longrightarrow> first_min p is m' \<Longrightarrow> m = m'"
  unfolding first_min_def by (metis antisym order.asym)

lemma first_max_unique: "first_max p is m \<Longrightarrow> first_max p is m' \<Longrightarrow> m = m'"
  unfolding first_max_def by (metis antisym order.asym)

lemma bracket_loop_outermost:
  assumes "outermost txIdx trades seen f b" "sorted (seen @ is)" "bracket_loop trades txIdx is f b = (f', b')"
  shows "outermost txIdx trades (seen @ is) f' b'"
  using assms
proof (induction "is" arbitrary: seen f b)
  case (Cons i "is")
  let ?f = "if place txIdx trades i < place txIdx trades f then i else f"
  let ?b = "if place txIdx trades b < place txIdx trades i then i else b"
  have le: "\<forall>j \<in> set seen. j \<le> i" using Cons.prems(2) by (simp add: sorted_append)
  have "outermost txIdx trades (seen @ [i]) ?f ?b"
    using Cons.prems(1) first_min_snoc [OF _ le] first_max_snoc [OF _ le] unfolding outermost_def by blast
  from Cons.IH [OF this] Cons.prems(2,3) show ?case by simp
qed simp

lemma outermost_unique: "outermost txIdx trades is f b \<Longrightarrow> outermost txIdx trades is f' b' \<Longrightarrow> f = f' \<and> b = b'"
  unfolding outermost_def using first_min_unique first_max_unique by blast

lemma bracketTrades_iff:
  assumes "sorted is"
  shows "bracketTrades trades txIdx is = Some (f, b) \<longleftrightarrow> outermost txIdx trades is f b \<and> TxHash (trades ! f) \<noteq> TxHash (trades ! b)"
proof (cases "is")
  case Nil
  then show ?thesis by (simp add: bracketTrades_def outermost_def first_min_def)
next
  case (Cons i js)
  obtain f' b' where fb: "bracket_loop trades txIdx js i i = (f', b')" by (cases "bracket_loop trades txIdx js i i")
  have "outermost txIdx trades [i] i i" by (simp add: outermost_def first_min_def first_max_def)
  then have o: "outermost txIdx trades is f' b'" using bracket_loop_outermost [of txIdx trades "[i]" i i js] assms fb Cons by simp
  then show ?thesis using outermost_unique [OF o, of f b] Cons fb by (auto simp: bracketTrades_def)
qed

lemma ordered_key_market:
  assumes "ordered_key n txIdx (trades ! i) = Some k"
  shows "filter (\<lambda>j. ordered_key n txIdx (trades ! j) = Some k) [0..<length trades] =
    market n txIdx trades (Ledger (trades ! i)) (unorderedPairKey n (trades ! i))"
proof -
  have k: "k = group_key n (trades ! i)" using assms by (simp add: ordered_key_def split: if_splits)
  show ?thesis unfolding market_def by (intro filter_cong) (auto simp: ordered_key_def k group_key_eq)
qed

text \<open>The groups of the detector are the markets that have a trade.\<close>

lemma DetectSandwiches_groups:
  "DetectSandwiches n parse trades usd txIdx =
     concat (map (\<lambda>k. sandwichesInGroup n parse trades usd txIdx
         (filter (\<lambda>i. ordered_key n txIdx (trades ! i) = Some k) [0..<length trades]))
       (keys_seen (\<lambda>i. ordered_key n txIdx (trades ! i)) [0..<length trades]))"
proof (cases "txIdx = []")
  case True
  then have "set (keys_seen (\<lambda>i. ordered_key n txIdx (trades ! i)) [0..<length trades]) = {}"
    by (auto simp: keys_seen_set ordered_key_def)
  then show ?thesis by (simp add: DetectSandwiches_def True)
next
  case False
  then show ?thesis by (simp add: DetectSandwiches_def group_loop_eq comp_def)
qed

lemma market_sorted: "sorted (market n txIdx trades l pk)"
  by (simp add: market_def sorted_wrt_filter)

lemma sandwichesInGroup_mem:
  assumes "idxs = market n txIdx trades l pk"
  shows "c \<in> set (sandwichesInGroup n parse trades usd txIdx idxs) \<longleftrightarrow>
    (\<exists>a f vs b. sandwich n txIdx trades l pk a f vs b \<and> c = sandwich_candidate n parse trades usd txIdx a f vs b)"
proof -
  let ?takers = "keys_seen (\<lambda>i. Some (Taker (trades ! i))) idxs"
  let ?of = "\<lambda>a. filter (\<lambda>i. Taker (trades ! i) = a) idxs"
  have groups: "group_loop (\<lambda>i. Some (Taker (trades ! i))) idxs [] = map (\<lambda>a. (a, ?of a)) ?takers"
    by (simp add: group_loop_eq)
  have s: "sorted (?of a)" for a using market_sorted assms by (simp add: sorted_wrt_filter)
  have build: "buildSandwichCandidate n parse trades usd txIdx idxs a (?of a) = Some c \<longleftrightarrow>
      (\<exists>f vs b. sandwich n txIdx trades l pk a f vs b \<and> c = sandwich_candidate n parse trades usd txIdx a f vs b)" for a
  proof -
    have sw: "sandwich n txIdx trades l pk a f vs b \<longleftrightarrow>
        bracketTrades trades txIdx (?of a) = Some (f, b) \<and> oppositeDirection n (trades ! f) (trades ! b) \<and>
        vs = filter (\<lambda>i. Taker (trades ! i) \<noteq> a \<and> place txIdx trades f < place txIdx trades i \<and>
          place txIdx trades i < place txIdx trades b) idxs \<and> vs \<noteq> []" for f vs b
      unfolding sandwich_def assms [symmetric] bracketTrades_iff [OF s] by blast
    show ?thesis unfolding buildSandwichCandidate_def sw Let_def
      by (cases "bracketTrades trades txIdx (?of a)") (auto split: if_splits)
  qed
  have takers: "a \<in> set ?takers \<and> 2 \<le> length ?takers" if sw: "sandwich n txIdx trades l pk a f vs b" for a f vs b
  proof -
    have "f \<in> set (?of a)" using sw by (simp add: sandwich_def outermost_def first_min_def assms)
    then have a: "a \<in> set ?takers" by (auto simp: keys_seen_set)
    have "vs \<noteq> []" using sw unfolding sandwich_def by blast
    then obtain v where "v \<in> set vs" by (cases vs) auto
    then have v: "v \<in> set idxs" "Taker (trades ! v) \<noteq> a" using sw by (auto simp: sandwich_def assms)
    then have "{a, Taker (trades ! v)} \<subseteq> set ?takers" using a by (auto simp: keys_seen_set)
    from card_mono [OF _ this] have "2 \<le> card (set ?takers)" using v(2) by simp
    then show ?thesis using a distinct_card [OF keys_seen_distinct] by metis
  qed
  have "c \<in> set (sandwichesInGroup n parse trades usd txIdx idxs) \<longleftrightarrow>
      2 \<le> length ?takers \<and> (\<exists>a \<in> set ?takers. buildSandwichCandidate n parse trades usd txIdx idxs a (?of a) = Some c)"
    unfolding sandwichesInGroup_def groups by (auto simp: Let_def set_map_filter)
  then show ?thesis unfolding build using takers by blast
qed

text \<open>
  C26. A published sandwich is exactly what it claims. The detector reports a candidate for a ledger, pair and
  account exactly when the account's first and last trades on that pair in that ledger lie in two different
  transactions, run in opposite directions under conventions known for both venues, and at least one trade of
  another account lies strictly between them in the transaction order; the evidence lists those two trades
  and all such trades between them. A trade whose place is unknown is never used.
\<close>

theorem sandwich_exact:
  "c \<in> set (DetectSandwiches n parse trades usd txIdx) \<longleftrightarrow>
     (\<exists>l pk a f vs b. sandwich n txIdx trades l pk a f vs b \<and> c = sandwich_candidate n parse trades usd txIdx a f vs b)"
proof
  assume "c \<in> set (DetectSandwiches n parse trades usd txIdx)"
  then obtain i k where i: "ordered_key n txIdx (trades ! i) = Some k"
    "c \<in> set (sandwichesInGroup n parse trades usd txIdx (filter (\<lambda>i. ordered_key n txIdx (trades ! i) = Some k) [0..<length trades]))"
    by (auto simp: DetectSandwiches_groups keys_seen_set)
  then show "\<exists>l pk a f vs b. sandwich n txIdx trades l pk a f vs b \<and> c = sandwich_candidate n parse trades usd txIdx a f vs b"
    using sandwichesInGroup_mem [OF ordered_key_market [OF i(1)]] by blast
next
  assume "\<exists>l pk a f vs b. sandwich n txIdx trades l pk a f vs b \<and> c = sandwich_candidate n parse trades usd txIdx a f vs b"
  then obtain l pk a f vs b where s: "sandwich n txIdx trades l pk a f vs b" "c = sandwich_candidate n parse trades usd txIdx a f vs b"
    by blast
  then have "f \<in> set (market n txIdx trades l pk)" by (simp add: sandwich_def outermost_def first_min_def)
  then have f: "f < length trades" "ordered_key n txIdx (trades ! f) = Some (group_key n (trades ! f))"
    "Ledger (trades ! f) = l" "unorderedPairKey n (trades ! f) = pk" by (auto simp: market_def ordered_key_def)
  have "c \<in> set (sandwichesInGroup n parse trades usd txIdx
      (filter (\<lambda>i. ordered_key n txIdx (trades ! i) = Some (group_key n (trades ! f))) [0..<length trades]))"
    using sandwichesInGroup_mem [OF ordered_key_market [OF f(2)]] s f(3,4) by blast
  then show "c \<in> set (DetectSandwiches n parse trades usd txIdx)"
    unfolding DetectSandwiches_groups set_concat set_map keys_seen_set using f(1,2) by fastforce
qed

section \<open>What an oracle-sandwich candidate proves\<close>

text \<open>The trades of one account around an update: same ledger, placed, in another transaction, on its asset.\<close>

definition around :: "network \<Rightarrow> tx_order \<Rightarrow> Trade list \<Rightarrow> MEVOracleRef \<Rightarrow> string \<Rightarrow> nat list" where
  "around n txIdx trades ref a =
     filter (\<lambda>i. orderableTrade (trades ! i) \<and> map_of txIdx (TxHash (trades ! i)) \<noteq> None \<and> Ledger (trades ! i) = o_Ledger ref \<and>
       TxHash (trades ! i) \<noteq> o_TxHash ref \<and> tradeTouches n (trades ! i) (o_Asset ref) \<and> Taker (trades ! i) = a) [0..<length trades]"

definition oracle_sandwich :: "network \<Rightarrow> tx_order \<Rightarrow> Trade list \<Rightarrow> MEVOracleRef \<Rightarrow> 32 word \<Rightarrow> string \<Rightarrow> nat \<Rightarrow> nat \<Rightarrow> bool" where
  "oracle_sandwich n txIdx trades ref oIdx a bef aft \<longleftrightarrow>
     o_Ledger ref \<noteq> 0 \<and> o_TxHash ref \<noteq> [] \<and> map_of txIdx (o_TxHash ref) = Some oIdx \<and>
     first_max (\<lambda>i. place txIdx trades i) (filter (\<lambda>i. place txIdx trades i < oIdx) (around n txIdx trades ref a)) bef \<and>
     first_min (\<lambda>i. place txIdx trades i) (filter (\<lambda>i. oIdx < place txIdx trades i) (around n txIdx trades ref a)) aft \<and>
     oppositeOnAsset n (trades ! bef) (trades ! aft) (o_Asset ref)"

definition nearest :: "(nat list \<Rightarrow> nat \<Rightarrow> bool) \<Rightarrow> nat list \<Rightarrow> nat option \<Rightarrow> bool" where
  "nearest sel is r \<longleftrightarrow> (case r of None \<Rightarrow> is = [] | Some m \<Rightarrow> sel is m)"

lemma nearest_loop_spec:
  fixes txIdx trades
  defines "p \<equiv> \<lambda>i. place txIdx trades i"
  assumes "nearest (first_max p) (filter (\<lambda>i. p i < oIdx) seen) bef" "nearest (first_min p) (filter (\<lambda>i. oIdx < p i) seen) aft"
    and "sorted (seen @ is)" "nearest_loop trades txIdx oIdx is bef aft = (bef', aft')"
  shows "nearest (first_max p) (filter (\<lambda>i. p i < oIdx) (seen @ is)) bef' \<and> nearest (first_min p) (filter (\<lambda>i. oIdx < p i) (seen @ is)) aft'"
  using assms(2-)
proof (induction "is" arbitrary: seen bef aft)
  case (Cons i "is")
  have le: "\<forall>j \<in> set (filter P seen). j \<le> i" for P using Cons.prems(3) by (simp add: sorted_append)
  have s: "sorted ((seen @ [i]) @ is)" using Cons.prems(3) by simp
  let ?b = "if p i < oIdx then case bef of None \<Rightarrow> Some i | Some b \<Rightarrow> if p b < p i then Some i else bef else bef"
  let ?a = "if oIdx < p i then case aft of None \<Rightarrow> Some i | Some a \<Rightarrow> if p i < p a then Some i else aft else aft"
  have b: "nearest (first_max p) (filter (\<lambda>i. p i < oIdx) (seen @ [i])) ?b"
  proof (cases bef)
    case None
    then show ?thesis using Cons.prems(1) by (auto simp: nearest_def first_max_def)
  next
    case (Some m)
    then have "first_max p (filter (\<lambda>i. p i < oIdx) seen) m" using Cons.prems(1) by (simp add: nearest_def)
    from this first_max_snoc [OF this le] show ?thesis using Some by (auto simp: nearest_def split: if_splits)
  qed
  have a: "nearest (first_min p) (filter (\<lambda>i. oIdx < p i) (seen @ [i])) ?a"
  proof (cases aft)
    case None
    then show ?thesis using Cons.prems(2) by (auto simp: nearest_def first_min_def)
  next
    case (Some m)
    then have "first_min p (filter (\<lambda>i. oIdx < p i) seen) m" using Cons.prems(2) by (simp add: nearest_def)
    from this first_min_snoc [OF this le] show ?thesis using Some by (auto simp: nearest_def split: if_splits)
  qed
  have "nearest_loop trades txIdx oIdx is ?b ?a = (bef', aft')"
    using Cons.prems(4) unfolding p_def by (auto simp: Let_def split: if_splits)
  from Cons.IH [OF b a s this] show ?case by simp
qed simp

lemma buildOracle_iff:
  fixes txIdx trades
  defines "p \<equiv> \<lambda>i. place txIdx trades i"
  assumes "sorted is"
  shows "buildOracleSandwichCandidate n parse trades usd txIdx ref oIdx a is = Some c \<longleftrightarrow>
    (\<exists>bef aft. first_max p (filter (\<lambda>i. p i < oIdx) is) bef \<and> first_min p (filter (\<lambda>i. oIdx < p i) is) aft \<and>
       oppositeOnAsset n (trades ! bef) (trades ! aft) (o_Asset ref) \<and>
       c = oracle_candidate n parse trades usd txIdx ref oIdx a bef aft)"
proof -
  obtain b a where ba: "nearest_loop trades txIdx oIdx is None None = (b, a)" by fastforce
  have sp: "nearest (first_max p) (filter (\<lambda>i. p i < oIdx) is) b" "nearest (first_min p) (filter (\<lambda>i. oIdx < p i) is) a"
    using nearest_loop_spec [of txIdx trades oIdx "[]" None None "is" b a] assms(2) ba by (simp_all add: p_def nearest_def)
  have "first_max p (filter (\<lambda>i. p i < oIdx) is) m \<longleftrightarrow> b = Some m" for m
    using sp(1) first_max_unique [of p "filter (\<lambda>i. p i < oIdx) is"] by (cases b) (auto simp: nearest_def first_max_def)
  moreover have "first_min p (filter (\<lambda>i. oIdx < p i) is) m \<longleftrightarrow> a = Some m" for m
    using sp(2) first_min_unique [of p "filter (\<lambda>i. oIdx < p i) is"] by (cases a) (auto simp: nearest_def first_min_def)
  ultimately show ?thesis
    by (auto simp: buildOracleSandwichCandidate_def ba split: option.splits if_splits)
qed

text \<open>Selecting indices before grouping is selecting them by the key.\<close>

lemma group_loop_filter: "group_loop key (filter Q xs) gs = group_loop (\<lambda>i. if Q i then key i else None) xs gs"
  by (induction xs arbitrary: gs) (auto split: option.splits)

definition placed_update_key :: "network \<Rightarrow> tx_order \<Rightarrow> MEVOracleRef \<Rightarrow> Trade \<Rightarrow> string option" where
  "placed_update_key n txIdx ref t = (if ledger_key txIdx t = Some (o_Ledger ref) then update_key n ref t else None)"

lemma DetectOracleSandwiches_eq:
  "DetectOracleSandwiches n parse trades usd oracles txIdx =
     concat (map (\<lambda>ref.
       if o_Ledger ref = 0 \<or> o_TxHash ref = [] then []
       else case map_of txIdx (o_TxHash ref) of None \<Rightarrow> []
         | Some oIdx \<Rightarrow> List.map_filter (\<lambda>a. buildOracleSandwichCandidate n parse trades usd txIdx ref oIdx a
               (filter (\<lambda>i. placed_update_key n txIdx ref (trades ! i) = Some a) [0..<length trades]))
             (keys_seen (\<lambda>i. placed_update_key n txIdx ref (trades ! i)) [0..<length trades])) oracles)"
proof (cases "txIdx = []")
  case True
  have "concat (map (\<lambda>ref. if P ref then [] else []) rs) = []" for P and rs :: "MEVOracleRef list" by (induction rs) auto
  then show ?thesis by (auto simp: DetectOracleSandwiches_def True)
next
  case False
  let ?tl = "group_loop (\<lambda>i. ledger_key txIdx (trades ! i)) [0..<length trades] []"
  have tl: "(case map_of ?tl l of Some is \<Rightarrow> is | None \<Rightarrow> []) = filter (\<lambda>i. ledger_key txIdx (trades ! i) = Some l) [0..<length trades]" for l
    unfolding group_loop_map_of by (auto simp: filter_empty_conv split: option.splits)
  have upd: "oracleSandwichesForUpdate n parse trades usd txIdx ref oIdx
        (filter (\<lambda>i. ledger_key txIdx (trades ! i) = Some (o_Ledger ref)) [0..<length trades]) =
      List.map_filter (\<lambda>a. buildOracleSandwichCandidate n parse trades usd txIdx ref oIdx a
               (filter (\<lambda>i. placed_update_key n txIdx ref (trades ! i) = Some a) [0..<length trades]))
             (keys_seen (\<lambda>i. placed_update_key n txIdx ref (trades ! i)) [0..<length trades])" for ref oIdx
  proof -
    have g: "group_loop (\<lambda>i. update_key n ref (trades ! i)) (filter (\<lambda>i. ledger_key txIdx (trades ! i) = Some (o_Ledger ref)) [0..<length trades]) [] =
        group_loop (\<lambda>i. placed_update_key n txIdx ref (trades ! i)) [0..<length trades] []"
      by (simp add: group_loop_filter placed_update_key_def)
    show ?thesis unfolding oracleSandwichesForUpdate_def g unfolding group_loop_eq by (simp add: List.map_filter_def filter_map comp_def)
  qed
  show ?thesis unfolding DetectOracleSandwiches_def Let_def tl upd using False by (cases "oracles = []") simp_all
qed

text \<open>
  A published oracle sandwich is exactly what it claims: there is a candidate for an update and an account
  exactly when the update's place in its ledger is known and the account's nearest placed trades on the
  update's asset before and after it, in other transactions of that ledger, both exist and run in opposite
  directions on that asset.
\<close>

theorem oracle_sandwich_exact:
  "c \<in> set (DetectOracleSandwiches n parse trades usd oracles txIdx) \<longleftrightarrow>
     (\<exists>ref oIdx a bef aft. ref \<in> set oracles \<and> oracle_sandwich n txIdx trades ref oIdx a bef aft \<and>
        c = oracle_candidate n parse trades usd txIdx ref oIdx a bef aft)"
proof -
  let ?is = "\<lambda>ref a. filter (\<lambda>i. placed_update_key n txIdx ref (trades ! i) = Some a) [0..<length trades]"
  have ar: "?is ref a = around n txIdx trades ref a" for ref a
    unfolding around_def by (intro filter_cong) (auto simp: placed_update_key_def update_key_def ledger_key_def)
  have seen: "a \<in> set (keys_seen (\<lambda>i. placed_update_key n txIdx ref (trades ! i)) [0..<length trades])"
    if "i \<in> set (?is ref a)" for ref a i using that by (auto simp: keys_seen_set)
  have b: "buildOracleSandwichCandidate n parse trades usd txIdx ref oIdx a (?is ref a) = Some c \<longleftrightarrow>
      (\<exists>bef aft. first_max (\<lambda>i. place txIdx trades i) (filter (\<lambda>i. place txIdx trades i < oIdx) (around n txIdx trades ref a)) bef \<and>
         first_min (\<lambda>i. place txIdx trades i) (filter (\<lambda>i. oIdx < place txIdx trades i) (around n txIdx trades ref a)) aft \<and>
         oppositeOnAsset n (trades ! bef) (trades ! aft) (o_Asset ref) \<and>
         c = oracle_candidate n parse trades usd txIdx ref oIdx a bef aft)" for ref oIdx a
    unfolding ar by (rule buildOracle_iff) (simp add: around_def sorted_wrt_filter)
  have "c \<in> set (DetectOracleSandwiches n parse trades usd oracles txIdx) \<longleftrightarrow>
      (\<exists>ref \<in> set oracles. o_Ledger ref \<noteq> 0 \<and> o_TxHash ref \<noteq> [] \<and> (\<exists>oIdx. map_of txIdx (o_TxHash ref) = Some oIdx \<and>
         (\<exists>a \<in> set (keys_seen (\<lambda>i. placed_update_key n txIdx ref (trades ! i)) [0..<length trades]).
            buildOracleSandwichCandidate n parse trades usd txIdx ref oIdx a (?is ref a) = Some c)))"
  proof -
    have mem: "x \<in> set (if A then [] else case m of None \<Rightarrow> [] | Some v \<Rightarrow> L v) \<longleftrightarrow> \<not> A \<and> (\<exists>v. m = Some v \<and> x \<in> set (L v))"
      for x :: Candidate and A and m :: "32 word option" and L by (auto split: option.splits)
    show ?thesis unfolding DetectOracleSandwiches_eq set_concat set_map image_image UN_iff mem set_map_filter mem_Collect_eq by blast
  qed
  also have "\<dots> \<longleftrightarrow> (\<exists>ref oIdx a bef aft. ref \<in> set oracles \<and> oracle_sandwich n txIdx trades ref oIdx a bef aft \<and>
        c = oracle_candidate n parse trades usd txIdx ref oIdx a bef aft)"
  proof -
    have "a \<in> set (keys_seen (\<lambda>i. placed_update_key n txIdx ref (trades ! i)) [0..<length trades])"
      if "oracle_sandwich n txIdx trades ref oIdx a bef aft" for ref oIdx a bef aft
      using that seen [of bef ref a] unfolding ar by (simp add: oracle_sandwich_def first_max_def)
    then show ?thesis unfolding b oracle_sandwich_def by blast
  qed
  finally show ?thesis .
qed

section \<open>The transactions whose order is needed\<close>

text \<open>The order map with the selected transactions only.\<close>

definition restrict_order :: "string list \<Rightarrow> tx_order \<Rightarrow> tx_order" where
  "restrict_order hs txIdx = filter (\<lambda>(h, i). h \<in> set hs) txIdx"

lemma restrict_order_map_of: "map_of (restrict_order hs txIdx) h = (if h \<in> set hs then map_of txIdx h else None)"
  by (induction txIdx) (auto simp: restrict_order_def)

text \<open>All on-chain trades of a group, whether placed or not.\<close>

definition key_trades :: "network \<Rightarrow> Trade list \<Rightarrow> string \<Rightarrow> Trade list" where
  "key_trades n trades k = filter (\<lambda>t. orderableTrade t \<and> group_key n t = k) trades"

lemma filter_nth: "filter P xs = map (nth xs) (filter (\<lambda>i. P (xs ! i)) [0..<length xs])"
  using filter_map [of P "nth xs" "[0..<length xs]"] by (simp add: map_nth comp_def)

lemma collectSandwichHashes_set:
  "h \<in> set (collectSandwichHashes n trades) \<longleftrightarrow>
     (\<exists>t \<in> set trades. orderableTrade t \<and> TxHash t = h \<and> sandwich_shaped (key_trades n trades (group_key n t)))"
proof -
  have g: "filter (\<lambda>t. (if orderableTrade t then Some (group_key n t) else None) = Some k) trades = key_trades n trades k" for k
    unfolding key_trades_def by (intro filter_cong) auto
  have "h \<in> set (collectSandwichHashes n trades) \<longleftrightarrow>
      (\<exists>k. (\<exists>t \<in> set trades. orderableTrade t \<and> group_key n t = k) \<and> sandwich_shaped (key_trades n trades k) \<and> h \<in> TxHash ` set (key_trades n trades k))"
    unfolding collectSandwichHashes_def group_loop_eq g by (auto simp: keys_seen_set split: if_splits)
  then show ?thesis by (auto simp: key_trades_def)
qed

lemma sandwich_needs_shape:
  assumes "sandwich n txIdx trades l pk a f vs b"
  shows "sandwich_shaped (key_trades n trades (group_key n (trades ! f)))"
proof -
  define G where "G = filter (\<lambda>i. orderableTrade (trades ! i) \<and> group_key n (trades ! i) = group_key n (trades ! f)) [0..<length trades]"
  have G: "key_trades n trades (group_key n (trades ! f)) = map (nth trades) G" unfolding key_trades_def G_def by (rule filter_nth)
  have "vs \<noteq> []" using assms unfolding sandwich_def by blast
  then obtain v where v: "v \<in> set vs" by (cases vs) auto
  have o: "outermost txIdx trades (filter (\<lambda>i. Taker (trades ! i) = a) (market n txIdx trades l pk)) f b"
    and ne: "TxHash (trades ! f) \<noteq> TxHash (trades ! b)"
    and vs: "vs = filter (\<lambda>i. Taker (trades ! i) \<noteq> a \<and> place txIdx trades f < place txIdx trades i \<and>
       place txIdx trades i < place txIdx trades b) (market n txIdx trades l pk)"
    using assms unfolding sandwich_def by blast+
  have fm: "f \<in> set (market n txIdx trades l pk)" "Taker (trades ! f) = a"
    and bm: "b \<in> set (market n txIdx trades l pk)" "Taker (trades ! b) = a"
    using o by (simp_all add: outermost_def first_min_def first_max_def)
  have vm: "v \<in> set (market n txIdx trades l pk)" "Taker (trades ! v) \<noteq> a" using v by (simp_all add: vs)
  have in_G: "i \<in> set G" if "i \<in> set (market n txIdx trades l pk)" for i
    using that fm(1) by (auto simp: market_def group_key_eq G_def)
  have sub: "{f, b, v} \<subseteq> set G" using in_G [OF fm(1)] in_G [OF bm(1)] in_G [OF vm(1)] by blast
  have "3 \<le> card (set G)"
  proof -
    have "f \<noteq> b" "f \<noteq> v" "b \<noteq> v" using fm(2) bm(2) vm(2) ne by auto
    then have "card {f, b, v} = 3" by simp
    then show ?thesis using card_mono [OF _ sub] by simp
  qed
  then have "3 \<le> length G" using card_length le_trans by blast
  moreover have "{a, Taker (trades ! v)} \<subseteq> set (map Taker (map (nth trades) G))"
    using in_G [OF fm(1)] in_G [OF vm(1)] fm(2) by force
  from card_mono [OF _ this] have "2 \<le> length (remdups (map Taker (map (nth trades) G)))"
    using vm(2) by (simp add: length_remdups_card_conv)
  moreover have "{TxHash (trades ! f), TxHash (trades ! b)} \<subseteq> set (map TxHash (filter (\<lambda>t. Taker t = a) (map (nth trades) G)))"
    using in_G [OF fm(1)] in_G [OF bm(1)] fm(2) bm(2) by force
  from card_mono [OF _ this] have "2 \<le> length (remdups (map TxHash (filter (\<lambda>t. Taker t = a) (map (nth trades) G))))"
    using ne by (simp add: length_remdups_card_conv)
  moreover have "a \<in> set (map Taker (map (nth trades) G))" using in_G [OF fm(1)] fm(2) by force
  ultimately show ?thesis unfolding G sandwich_shaped_def by (metis length_map)
qed

text \<open>A detector reads the order of the trades of its group only.\<close>

lemma bracket_loop_cong:
  "\<forall>i \<in> set (f # b # is). place x trades i = place y trades i \<Longrightarrow> bracket_loop trades x is f b = bracket_loop trades y is f b"
  by (induction "is" arbitrary: f b) auto

lemma bracket_loop_mem: "bracket_loop trades x is f b = (f', b') \<Longrightarrow> f' \<in> insert f (set is) \<and> b' \<in> insert b (set is)"
  by (induction "is" arbitrary: f b) (fastforce split: if_splits)+

lemma sandwichesInGroup_cong:
  assumes "\<forall>i \<in> set idxs. place x trades i = place y trades i"
  shows "sandwichesInGroup n parse trades usd x idxs = sandwichesInGroup n parse trades usd y idxs"
proof -
  have b: "buildSandwichCandidate n parse trades usd x idxs a is = buildSandwichCandidate n parse trades usd y idxs a is"
    if "set is \<subseteq> set idxs" for a "is"
  proof -
    have p: "place x trades i = place y trades i" if "i \<in> set idxs" for i using assms that by blast
    have br: "bracketTrades trades x is = bracketTrades trades y is"
    proof (cases "is")
      case (Cons i js)
      have "bracket_loop trades x js i i = bracket_loop trades y js i i"
        by (rule bracket_loop_cong) (use that p Cons in auto)
      then show ?thesis using Cons by (simp add: bracketTrades_def)
    qed (simp add: bracketTrades_def)
    show ?thesis
    proof (cases "bracketTrades trades y is")
      case (Some fb)
      obtain f b where fb: "fb = (f, b)" by (cases fb)
      have "f \<in> set is \<and> b \<in> set is"
        using Some fb bracket_loop_mem by (auto simp: bracketTrades_def split: list.splits prod.splits if_splits)
      then have fi: "f \<in> set idxs" "b \<in> set idxs" using that by auto
      let ?V = "\<lambda>x. filter (\<lambda>i. Taker (trades ! i) \<noteq> a \<and> place x trades f < place x trades i \<and> place x trades i < place x trades b) idxs"
      have V: "?V x = ?V y" using p fi by (intro filter_cong) auto
      have leg: "orderedLegFrom x r (trades ! i) = orderedLegFrom y r (trades ! i)" if "i \<in> set idxs" for r i
        using p [OF that] by (simp add: orderedLegFrom_def)
      have "map (\<lambda>i. orderedLegFrom x r (trades ! i)) (?V y) = map (\<lambda>i. orderedLegFrom y r (trades ! i)) (?V y)" for r
        using leg by (intro map_cong) auto
      then have "sandwich_candidate n parse trades usd x a f (?V y) b = sandwich_candidate n parse trades usd y a f (?V y) b"
        unfolding sandwich_candidate_def by (simp only: leg [OF fi(1)] leg [OF fi(2)])
      then show ?thesis by (simp only: buildSandwichCandidate_def br Some fb option.case prod.case Let_def V)
    qed (simp add: buildSandwichCandidate_def br)
  qed
  show ?thesis unfolding sandwichesInGroup_def group_loop_eq Let_def
    by (auto simp: List.map_filter_def filter_map comp_def b intro!: map_cong filter_cong)
qed

lemma sandwichesInGroup_unshaped:
  assumes "\<not> sandwich_shaped (key_trades n trades k)"
  shows "sandwichesInGroup n parse trades usd x (filter (\<lambda>i. ordered_key n x (trades ! i) = Some k) [0..<length trades]) = []"
proof -
  let ?is = "filter (\<lambda>i. ordered_key n x (trades ! i) = Some k) [0..<length trades]"
  have "c \<notin> set (sandwichesInGroup n parse trades usd x ?is)" for c
  proof
    assume c: "c \<in> set (sandwichesInGroup n parse trades usd x ?is)"
    then have "?is \<noteq> []" by (auto simp: sandwichesInGroup_def)
    then obtain i where "i \<in> set ?is" by (cases ?is) auto
    then have i: "ordered_key n x (trades ! i) = Some k" by simp
    then obtain a f vs b where s: "sandwich n x trades (Ledger (trades ! i)) (unorderedPairKey n (trades ! i)) a f vs b"
      using sandwichesInGroup_mem [OF ordered_key_market [OF i]] c by blast
    then have "f \<in> set (market n x trades (Ledger (trades ! i)) (unorderedPairKey n (trades ! i)))"
      by (simp add: sandwich_def outermost_def first_min_def)
    then have "group_key n (trades ! f) = group_key n (trades ! i)" by (simp add: market_def group_key_eq)
    also have "\<dots> = k" using i by (simp add: ordered_key_def split: if_splits)
    finally show False using sandwich_needs_shape [OF s] assms by simp
  qed
  then show ?thesis by (metis list.set_intros(1) neq_Nil_conv)
qed

lemma sandwiches_restrict:
  assumes "set (collectSandwichHashes n trades) \<subseteq> set hs"
  shows "DetectSandwiches n parse trades usd (restrict_order hs txIdx) = DetectSandwiches n parse trades usd txIdx"
proof -
  let ?x = "restrict_order hs txIdx"
  have m: "map_of ?x (TxHash t) = map_of txIdx (TxHash t)"
    if "t \<in> set trades" "orderableTrade t" "sandwich_shaped (key_trades n trades (group_key n t))" for t
  proof -
    have "TxHash t \<in> set (collectSandwichHashes n trades)" unfolding collectSandwichHashes_set using that by blast
    then show ?thesis using assms by (auto simp: restrict_order_map_of)
  qed
  have key: "ordered_key n ?x (trades ! i) = Some k \<longleftrightarrow> ordered_key n txIdx (trades ! i) = Some k"
    if "i < length trades" "sandwich_shaped (key_trades n trades k)" for i k
    using m [of "trades ! i"] that by (auto simp: ordered_key_def)
  show ?thesis unfolding DetectSandwiches_groups
  proof (rule concat_groups_cong [where P = "\<lambda>k. sandwich_shaped (key_trades n trades k)"])
    fix k assume k: "sandwich_shaped (key_trades n trades k)"
    have "filter (\<lambda>i. ordered_key n ?x (trades ! i) = Some k) [0..<length trades] =
        filter (\<lambda>i. ordered_key n txIdx (trades ! i) = Some k) [0..<length trades]"
      using key k by (intro filter_cong) auto
    moreover have "\<forall>i \<in> set (filter (\<lambda>i. ordered_key n txIdx (trades ! i) = Some k) [0..<length trades]). place ?x trades i = place txIdx trades i"
    proof
      fix i assume i: "i \<in> set (filter (\<lambda>i. ordered_key n txIdx (trades ! i) = Some k) [0..<length trades])"
      then have "orderableTrade (trades ! i)" "group_key n (trades ! i) = k" "i < length trades"
        by (auto simp: ordered_key_def split: if_splits)
      then show "place ?x trades i = place txIdx trades i" using m [of "trades ! i"] k by (simp add: tx_at_def)
    qed
    ultimately show "sandwichesInGroup n parse trades usd ?x (filter (\<lambda>i. ordered_key n ?x (trades ! i) = Some k) [0..<length trades]) =
      sandwichesInGroup n parse trades usd txIdx (filter (\<lambda>i. ordered_key n txIdx (trades ! i) = Some k) [0..<length trades])"
      by (simp only: sandwichesInGroup_cong)
  qed (auto simp: sandwichesInGroup_unshaped key)
qed

lemma nearest_loop_cong:
  "\<forall>i \<in> set is \<union> set_option bef \<union> set_option aft. place x trades i = place y trades i \<Longrightarrow>
   nearest_loop trades x oIdx is bef aft = nearest_loop trades y oIdx is bef aft"
proof (induction "is" arbitrary: bef aft)
  case (Cons i "is")
  then have IH: "nearest_loop trades x oIdx is b a = nearest_loop trades y oIdx is b a" if "set_option b \<union> set_option a \<subseteq> set (i # is) \<union> set_option bef \<union> set_option aft" for b a
    using that by (intro Cons.IH) auto
  have i: "place x trades i = place y trades i" using Cons.prems by simp
  have b: "bef = Some j \<Longrightarrow> place x trades j = place y trades j" "aft = Some j \<Longrightarrow> place x trades j = place y trades j" for j
    using Cons.prems by auto
  show ?case
    using IH by (cases bef; cases aft) (auto simp: Let_def i b)
qed simp

lemma nearest_loop_mem:
  "nearest_loop trades x oIdx is bef aft = (b, a) \<Longrightarrow> set_option b \<subseteq> set is \<union> set_option bef \<and> set_option a \<subseteq> set is \<union> set_option aft"
proof (induction "is" arbitrary: bef aft)
  case (Cons i "is")
  let ?t = "place x trades i"
  let ?b = "if ?t < oIdx then case bef of None \<Rightarrow> Some i | Some b \<Rightarrow> if place x trades b < ?t then Some i else bef else bef"
  let ?a = "if oIdx < ?t then case aft of None \<Rightarrow> Some i | Some a \<Rightarrow> if ?t < place x trades a then Some i else aft else aft"
  have "nearest_loop trades x oIdx is ?b ?a = (b, a)" using Cons.prems by (auto simp: Let_def split: if_splits)
  from Cons.IH [OF this] show ?case by (auto split: option.splits if_splits)
qed simp

lemma buildOracle_cong:
  assumes "\<forall>i \<in> set is. place x trades i = place y trades i"
  shows "buildOracleSandwichCandidate n parse trades usd x ref oIdx a is = buildOracleSandwichCandidate n parse trades usd y ref oIdx a is"
proof -
  have eq: "nearest_loop trades x oIdx is None None = nearest_loop trades y oIdx is None None"
    by (rule nearest_loop_cong) (use assms in simp)
  obtain b c where bc: "nearest_loop trades y oIdx is None None = (b, c)" by fastforce
  have "set_option b \<subseteq> set is" "set_option c \<subseteq> set is" using nearest_loop_mem [OF bc] by auto
  then have "orderedLegFrom x r (trades ! i) = orderedLegFrom y r (trades ! i)" if "b = Some i \<or> c = Some i" for r i
    using assms that by (auto simp: orderedLegFrom_def)
  then have "oracle_candidate n parse trades usd x ref oIdx a i j = oracle_candidate n parse trades usd y ref oIdx a i j"
    if "b = Some i" "c = Some j" for i j using that by (simp add: oracle_candidate_def)
  then show ?thesis unfolding buildOracleSandwichCandidate_def eq bc by (auto split: option.splits)
qed

lemma collectOracleHashes_mem:
  assumes "t \<in> set trades" "orderableTrade t" "ref \<in> set oracles" "o_Ledger ref = Ledger t" "o_TxHash ref \<noteq> []" "tradeTouches n t (o_Asset ref)"
  shows "TxHash t \<in> set (collectOracleHashes n trades oracles) \<and> o_TxHash ref \<in> set (collectOracleHashes n trades oracles)"
proof -
  have "o_Ledger ref \<noteq> 0" using assms(2,4) by (auto simp: orderableTrade_def)
  then have "ref \<in> set (filter (\<lambda>r. o_Ledger r = Ledger t) (filter (\<lambda>r. o_Ledger r \<noteq> 0 \<and> o_TxHash r \<noteq> []) oracles))" using assms by simp
  then have "set [TxHash t, o_TxHash ref] \<subseteq> set (concat (map (\<lambda>r. if tradeTouches n t (o_Asset r) then [TxHash t, o_TxHash r] else [])
      (filter (\<lambda>r. o_Ledger r = Ledger t) (filter (\<lambda>r. o_Ledger r \<noteq> 0 \<and> o_TxHash r \<noteq> []) oracles))))"
    using assms(6) by (force simp del: filter_filter)
  moreover have "set (f t) \<subseteq> set (concat (map (\<lambda>t. if \<not> orderableTrade t then [] else f t) trades))" for f :: "Trade \<Rightarrow> string list"
    using assms(1,2) by force
  ultimately show ?thesis unfolding collectOracleHashes_def Let_def by (meson insert_subset list.set_intros order_trans subsetD)
qed

lemma oracle_sandwiches_restrict:
  assumes "set (collectOracleHashes n trades oracles) \<subseteq> set hs"
  shows "DetectOracleSandwiches n parse trades usd oracles (restrict_order hs txIdx) = DetectOracleSandwiches n parse trades usd oracles txIdx"
proof -
  let ?x = "restrict_order hs txIdx"
  define F where "F = (\<lambda>x ref. if o_Ledger ref = 0 \<or> o_TxHash ref = [] then []
       else case map_of x (o_TxHash ref) of None \<Rightarrow> []
         | Some oIdx \<Rightarrow> List.map_filter (\<lambda>a. buildOracleSandwichCandidate n parse trades usd x ref oIdx a
               (filter (\<lambda>i. placed_update_key n x ref (trades ! i) = Some a) [0..<length trades]))
             (keys_seen (\<lambda>i. placed_update_key n x ref (trades ! i)) [0..<length trades]))"
  have "F ?x ref = F txIdx ref" if ref: "ref \<in> set oracles" for ref
  proof (cases "o_Ledger ref \<noteq> 0 \<and> o_TxHash ref \<noteq> [] \<and>
      (\<exists>t \<in> set trades. orderableTrade t \<and> Ledger t = o_Ledger ref \<and> tradeTouches n t (o_Asset ref))")
    case True
    have m: "map_of ?x (TxHash t) = map_of txIdx (TxHash t) \<and> map_of ?x (o_TxHash ref) = map_of txIdx (o_TxHash ref)"
      if "t \<in> set trades" "orderableTrade t" "Ledger t = o_Ledger ref" "tradeTouches n t (o_Asset ref)" for t
      using collectOracleHashes_mem [OF that(1,2) ref] that(3,4) True assms by (auto simp: restrict_order_map_of)
    then have o: "map_of ?x (o_TxHash ref) = map_of txIdx (o_TxHash ref)" using True by blast
    have k: "placed_update_key n ?x ref (trades ! i) = placed_update_key n txIdx ref (trades ! i)" if "i < length trades" for i
      using m [of "trades ! i"] that by (auto simp: placed_update_key_def ledger_key_def update_key_def)
    have ks: "keys_seen (\<lambda>i. placed_update_key n ?x ref (trades ! i)) [0..<length trades] =
        keys_seen (\<lambda>i. placed_update_key n txIdx ref (trades ! i)) [0..<length trades]"
      unfolding keys_seen_def List.map_filter_def using k by (auto intro!: arg_cong2 [where f = first_seen] map_cong filter_cong)
    have sel: "filter (\<lambda>i. placed_update_key n ?x ref (trades ! i) = Some a) [0..<length trades] =
        filter (\<lambda>i. placed_update_key n txIdx ref (trades ! i) = Some a) [0..<length trades]" for a
      using k by (intro filter_cong) auto
    have bld: "buildOracleSandwichCandidate n parse trades usd ?x ref oIdx a (filter (\<lambda>i. placed_update_key n txIdx ref (trades ! i) = Some a) [0..<length trades]) =
        buildOracleSandwichCandidate n parse trades usd txIdx ref oIdx a (filter (\<lambda>i. placed_update_key n txIdx ref (trades ! i) = Some a) [0..<length trades])" for oIdx a
    proof (rule buildOracle_cong, rule ballI)
      fix i assume "i \<in> set (filter (\<lambda>i. placed_update_key n txIdx ref (trades ! i) = Some a) [0..<length trades])"
      then have "i < length trades" "orderableTrade (trades ! i)" "Ledger (trades ! i) = o_Ledger ref" "tradeTouches n (trades ! i) (o_Asset ref)"
        by (auto simp: placed_update_key_def ledger_key_def update_key_def split: if_splits)
      then show "place ?x trades i = place txIdx trades i" using m [of "trades ! i"] by (simp add: tx_at_def)
    qed
    show ?thesis unfolding F_def o ks sel bld by (rule refl)
  next
    case False
    then have "keys_seen (\<lambda>i. placed_update_key n x ref (trades ! i)) [0..<length trades] = []"
      if "o_Ledger ref \<noteq> 0" "o_TxHash ref \<noteq> []" for x
      using that by (auto simp: set_empty [symmetric] keys_seen_set placed_update_key_def ledger_key_def update_key_def simp del: set_empty split: if_splits)
    then show ?thesis by (auto simp: F_def List.map_filter_def split: option.splits)
  qed
  then show ?thesis unfolding DetectOracleSandwiches_eq F_def by (intro arg_cong [where f = concat] map_cong refl)
qed

text \<open>
  C24. The bounded lookup of the transaction order loses nothing: whatever the full order of the lake is, both
  order-dependent detectors find the same candidates, in the same sequence and with the same evidence, on the
  order of only the transactions that \<open>OrderingTxHashes\<close> selects.
\<close>

theorem prefilter_lossless:
  fixes n trades oracles txIdx
  defines "x \<equiv> restrict_order (OrderingTxHashes n trades oracles) txIdx"
  shows "DetectSandwiches n parse trades usd x = DetectSandwiches n parse trades usd txIdx \<and>
    DetectOracleSandwiches n parse trades usd oracles x = DetectOracleSandwiches n parse trades usd oracles txIdx"
  unfolding x_def by (intro conjI sandwiches_restrict oracle_sandwiches_restrict) (auto simp: OrderingTxHashes_def)

end
