(* ===== verification/GoTime.thy ===== *)
theory GoTime
  imports GoText
begin

text \<open>
  The RFC 3339 text of a UTC time of Go's package \<open>time\<close>, for times from year 1 on: the civil date of a day
  number, the zero-padded fields, and the fact that the text determines the time to the second.
\<close>

section \<open>Civil dates\<close>

text \<open>Year and day of the year of a day number, counted from January 1, year 1.\<close>

definition year_yday :: "nat \<Rightarrow> nat \<times> nat" where
  "year_yday d =
     (let n400 = d div 146097; r = d mod 146097;
          n100 = min 3 (r div 36524); r1 = r - 36524 * n100;
          n4 = r1 div 1461; r2 = r1 mod 1461;
          n1 = min 3 (r2 div 365)
      in (400 * n400 + 100 * n100 + 4 * n4 + n1 + 1, r2 - 365 * n1))"

definition leap_year :: "nat \<Rightarrow> bool" where
  "leap_year y = (y mod 4 = 0 \<and> (y mod 100 \<noteq> 0 \<or> y mod 400 = 0))"

definition month_lengths :: "bool \<Rightarrow> nat list" where
  "month_lengths leap = [31, if leap then 29 else 28, 31, 30, 31, 30, 31, 31, 30, 31, 30, 31]"

fun month_day :: "nat list \<Rightarrow> nat \<Rightarrow> nat \<Rightarrow> nat \<times> nat" where
  "month_day [] m yd = (m, yd + 1)"
| "month_day (l # ls) m yd = (if yd < l then (m, yd + 1) else month_day ls (m + 1) (yd - l))"

section \<open>The text\<close>

definition pad :: "nat \<Rightarrow> nat \<Rightarrow> string" where
  "pad w n = replicate (w - length (nat_String n)) (CHR ''0'') @ nat_String n"

definition Format_RFC3339 :: "gotime \<Rightarrow> string" where
  "Format_RFC3339 t =
     (let s = nat (t div 1000000000); (y, yd) = year_yday (s div 86400); (m, d) = month_day (month_lengths (leap_year y)) 1 yd;
          r = s mod 86400
      in pad 4 y @ ''-'' @ pad 2 m @ ''-'' @ pad 2 d @ ''T'' @ pad 2 (r div 3600) @ '':'' @ pad 2 (r mod 3600 div 60) @ '':'' @
         pad 2 (r mod 60) @ ''Z'')"

section \<open>Lemmas\<close>

lemma pad_digits: "c \<in> set (pad w n) \<Longrightarrow> is_digit_char c"
  using nat_String_digits [of n] by (auto simp: pad_def list_all_iff is_digit_char_def)

lemma pad_value: "foldl (\<lambda>m c. 10 * m + digit_value c) 0 (pad w n) = n"
proof -
  have z: "foldl (\<lambda>m c. 10 * m + digit_value c) 0 (replicate k (CHR ''0'') @ s) = foldl (\<lambda>m c. 10 * m + digit_value c) 0 s" for k s
    by (induction k) (simp_all add: digit_value_def)
  show ?thesis unfolding pad_def z by (rule nat_String_value)
qed

lemma pad_inject: "pad w n = pad w n' \<longleftrightarrow> n = n'"
  using pad_value by metis

lemma pad_sep:
  assumes "\<not> is_digit_char c"
  shows "pad w n @ c # x = pad w n' @ c # y \<longleftrightarrow> n = n' \<and> x = y"
proof
  assume eq: "pad w n @ c # x = pad w n' @ c # y"
  have d: "takeWhile is_digit_char (pad w k @ c # z) = pad w k" "dropWhile is_digit_char (pad w k @ c # z) = c # z" for k z
    using pad_digits assms by (simp_all add: takeWhile_append2 dropWhile_append2)
  show "n = n' \<and> x = y" using arg_cong [OF eq, of "takeWhile is_digit_char"] arg_cong [OF eq, of "dropWhile is_digit_char"]
    unfolding d by (simp add: pad_inject)
qed simp

lemma month_day_inverse:
  "month_day ls m yd = (m', d') \<Longrightarrow> m \<le> m' \<and> yd + 1 = sum_list (take (m' - m) ls) + d'"
proof (induction ls arbitrary: m yd)
  case (Cons l ls)
  show ?case
  proof (cases "yd < l")
    case False
    then have IH: "Suc m \<le> m' \<and> yd - l + 1 = sum_list (take (m' - Suc m) ls) + d'" using Cons by simp
    then obtain k where "m' - m = Suc k" "m' - Suc m = k" by (metis Suc_diff_Suc Suc_le_eq)
    then show ?thesis using IH False by (simp only: take_Suc_Cons sum_list.Cons) linarith
  qed (use Cons.prems in auto)
qed simp

lemma month_day_inject: "month_day ls m yd = month_day ls m yd' \<longleftrightarrow> yd = yd'"
proof
  obtain m' d where m: "month_day ls m yd = (m', d)" by fastforce
  assume "month_day ls m yd = month_day ls m yd'"
  then show "yd = yd'" using month_day_inverse [OF m] month_day_inverse [of ls m yd' m' d] m by simp
qed simp

lemma year_yday_inverse:
  assumes "year_yday d = (y, yd)"
  shows "d = 365 * (y - 1) + (y - 1) div 4 + (y - 1) div 400 - (y - 1) div 100 + yd"
proof -
  define a r where "a = d div 146097" and "r = d mod 146097"
  define b r1 where "b = min 3 (r div 36524)" and "r1 = r - 36524 * b"
  define c r2 where "c = r1 div 1461" and "r2 = r1 mod 1461"
  define e where "e = min 3 (r2 div 365)"
  have "year_yday d = (400 * a + 100 * b + 4 * c + e + 1, r2 - 365 * e)"
    by (simp only: year_yday_def Let_def a_def r_def b_def r1_def c_def r2_def e_def)
  then have y: "y - 1 = 400 * a + 100 * b + 4 * c + e" "yd = r2 - 365 * e" using assms by simp_all
  have d: "d = 146097 * a + r" "r < 146097" by (simp_all add: a_def r_def)
  have b: "b \<le> 3" "r = 36524 * b + r1" "r1 \<le> 36524" using d(2) unfolding b_def r1_def by (auto simp: min_def)
  have c: "r1 = 1461 * c + r2" "r2 < 1461" "c \<le> 24" using b(3) unfolding c_def r2_def by auto
  have e: "e \<le> 3" "r2 = 365 * e + yd" using c(2) y(2) unfolding e_def by (auto simp: min_def)
  have "(y - 1) div 4 = 100 * a + 25 * b + c" "(y - 1) div 100 = 4 * a + b" "(y - 1) div 400 = a"
    unfolding y(1) by (rule div_nat_eqI; use b(1) c(3) e(1) in simp)+
  then show ?thesis unfolding y(1) using d(1) b(2) c(1) e(2) by simp
qed

lemma year_yday_inject: "year_yday d = year_yday d' \<longleftrightarrow> d = d'"
proof
  obtain y yd where y: "year_yday d = (y, yd)" by fastforce
  assume "year_yday d = year_yday d'"
  then have y': "year_yday d' = (y, yd)" using y by simp
  show "d = d'" by (rule trans [OF year_yday_inverse [OF y] year_yday_inverse [OF y', symmetric]])
qed simp

lemma div_mod_eq_iff: "(a :: nat) = b \<longleftrightarrow> a div k = b div k \<and> a mod k = b mod k"
  by (metis div_mult_mod_eq)

text \<open>The text of two times is the same exactly when they fall in the same second.\<close>

theorem Format_RFC3339_inject:
  assumes "0 \<le> t" "0 \<le> t'"
  shows "Format_RFC3339 t @ x = Format_RFC3339 t' @ x' \<longleftrightarrow> t div 1000000000 = t' div 1000000000 \<and> x = x'"
proof -
  define s where "s = nat (t div 1000000000)"
  define s' where "s' = nat (t' div 1000000000)"
  obtain y yd where y: "year_yday (s div 86400) = (y, yd)" by fastforce
  obtain y' yd' where y': "year_yday (s' div 86400) = (y', yd')" by fastforce
  obtain m d where m: "month_day (month_lengths (leap_year y)) 1 yd = (m, d)" by fastforce
  obtain m' d' where m': "month_day (month_lengths (leap_year y')) 1 yd' = (m', d')" by fastforce
  have nd: "\<not> is_digit_char (CHR ''-'')" "\<not> is_digit_char (CHR ''T'')" "\<not> is_digit_char (CHR '':'')" "\<not> is_digit_char (CHR ''Z'')"
    by (simp_all add: is_digit_char_def)
  let ?r = "s mod 86400" and ?r' = "s' mod 86400"
  have fields: "Format_RFC3339 t @ x = Format_RFC3339 t' @ x' \<longleftrightarrow>
      y = y' \<and> m = m' \<and> d = d' \<and> ?r div 3600 = ?r' div 3600 \<and> ?r mod 3600 div 60 = ?r' mod 3600 div 60 \<and> ?r mod 60 = ?r' mod 60 \<and> x = x'"
    unfolding Format_RFC3339_def Let_def s_def [symmetric] s'_def [symmetric] y y' m m' prod.case
    by (simp add: pad_sep nd)
  have cancel: "r mod 3600 mod 60 = r mod 60" for r :: nat by (rule mod_mod_cancel) simp
  have hms: "?r = ?r' \<longleftrightarrow> ?r div 3600 = ?r' div 3600 \<and> ?r mod 3600 div 60 = ?r' mod 3600 div 60 \<and> ?r mod 60 = ?r' mod 60"
    using div_mod_eq_iff [of ?r ?r' 3600] div_mod_eq_iff [of "?r mod 3600" "?r' mod 3600" 60] unfolding cancel by blast
  have ymd: "s div 86400 = s' div 86400 \<longleftrightarrow> y = y' \<and> m = m' \<and> d = d'"
    using m m' y y' month_day_inject [of "month_lengths (leap_year y)" 1 yd yd'] year_yday_inject [of "s div 86400" "s' div 86400"] by auto
  have "s = s' \<longleftrightarrow> t div 1000000000 = t' div 1000000000"
    unfolding s_def s'_def using assms by (intro eq_nat_nat_iff pos_imp_zdiv_nonneg_iff [THEN iffD2]) simp_all
  then show ?thesis using fields hms ymd div_mod_eq_iff [of s s' 86400] by blast
qed

end
