(* ===== verification/MEVWash.thy ===== *)
theory MEVWash
  imports MEVInputs GoTime "HOL-Library.Product_Lexorder"
begin

text \<open>
  The wash-trade detector (internal/aggregate/mev/washtrade.go): an account that is maker and taker of a trade,
  and two accounts that repeatedly take each other's offers on one pair within a quarter of an hour.

  \<open>sort.Slice\<close> orders the evidence by ledger, transaction and operation; rows equal in all three keep their
  order here, where Go leaves it open.
\<close>

definition KindWashTrade :: string where
  "KindWashTrade = ''wash_trade''"

definition roundTripMinPerDirection :: nat where
  "roundTripMinPerDirection = 2"

definition roundTripBucket :: duration where
  "roundTripBucket = 15 * go_minute"

definition accountMaker :: "sdk \<Rightarrow> Trade \<Rightarrow> bool" where
  "accountMaker k t = IsAccountID k (Maker t)"

definition washLegs :: "Trade list \<Rightarrow> nat list \<Rightarrow> washLeg list" where
  "washLegs trades idxs =
     map (\<lambda>i. let t = trades ! i in
       \<lparr>wl_Source = Source t, wl_Ledger = Ledger t, wl_TxHash = TxHash t, wl_Ref = opRefOf t, wl_Maker = Maker t,
        wl_Taker = Taker t, wl_Base = base_text t, wl_Quote = quote_text t,
        wl_BaseAmount = Amount_String (BaseAmount t), wl_QuoteAmount = Amount_String (QuoteAmount t)\<rparr>) (take 20 idxs)"

section \<open>Self trades\<close>

definition self_key :: "sdk \<Rightarrow> Trade \<Rightarrow> string option" where
  "self_key k t =
     (if \<not> orderableTrade t \<or> \<not> accountMaker k t \<or> Maker t \<noteq> Taker t then None
      else Some (TxHash t @ [char_of (0 :: nat)] @ Taker t))"

definition self_candidate :: "network \<Rightarrow> (string \<Rightarrow> rat option) \<Rightarrow> Trade list \<Rightarrow> MEVLegUSD list \<Rightarrow> nat list \<Rightarrow> Candidate" where
  "self_candidate n parse trades usd idxs =
     (let t0 = trades ! hd idxs; (notional, lowerBound, estimated) = sumUSD parse usd idxs; (assetID, quoteID) = pairIDs n t0
      in zeroCandidate\<lparr>c_Kind := KindWashTrade, c_Ledger := Ledger t0, DetectedAtLedger := Ledger t0, c_Timestamp := Timestamp t0,
           c_TxHash := TxHash t0, c_Taker := Taker t0, c_Assets := pairAssets t0, AssetID := assetID, QuoteID := quoteID,
           c_Sources := distinctSources trades idxs, NotionalUSD := notional, NotionalLowerBound := lowerBound,
           NotionalEstimated := estimated,
           Detail := WashDetail ''self_trade'' (unorderedPairKey n t0) [Taker t0] (washLegs trades idxs) notional lowerBound estimated\<rparr>)"

definition detectSelfTrades :: "sdk \<Rightarrow> network \<Rightarrow> (string \<Rightarrow> rat option) \<Rightarrow> Trade list \<Rightarrow> MEVLegUSD list \<Rightarrow> Candidate list" where
  "detectSelfTrades k n parse trades usd =
     map (\<lambda>(key, idxs). self_candidate n parse trades usd idxs)
       (group_loop (\<lambda>i. self_key k (trades ! i)) [0..<length trades] [])"

section \<open>Round trips\<close>

definition round_trip_key :: "sdk \<Rightarrow> network \<Rightarrow> Trade \<Rightarrow> string option" where
  "round_trip_key k n t =
     (if \<not> orderableTrade t \<or> \<not> accountMaker k t \<or> Maker t = Taker t then None
      else let (a, b) = (if Taker t < Maker t then (Taker t, Maker t) else (Maker t, Taker t));
               bucket = Format_RFC3339 (time_Truncate (Timestamp t) roundTripBucket)
        in Some (bucket @ '':'' @ unorderedPairKey n t @ '':'' @ a @ ''|'' @ b))"

definition round_trip_candidate ::
  "network \<Rightarrow> (string \<Rightarrow> rat option) \<Rightarrow> Trade list \<Rightarrow> MEVLegUSD list \<Rightarrow> string \<Rightarrow> nat list \<Rightarrow> Candidate" where
  "round_trip_candidate n parse trades usd key idxs =
     (let t0 = trades ! hd idxs; accounts = sortedKeys [Maker t0, Taker t0];
          (notional, lowerBound, estimated) = sumUSD parse usd idxs; (assetID, quoteID) = pairIDs n t0
      in zeroCandidate\<lparr>AssetID := assetID, QuoteID := quoteID, c_Kind := KindWashTrade, c_Ledger := Ledger t0,
           DetectedAtLedger := Ledger t0, c_Timestamp := Timestamp t0, c_TxHash := TxHash t0,
           TxHashes := Some (distinctTxHashes trades idxs), Accounts := Some accounts, c_Assets := pairAssets t0,
           c_Sources := distinctSources trades idxs, NotionalUSD := notional, NotionalLowerBound := lowerBound,
           NotionalEstimated := estimated, Dedup := KindWashTrade @ '':rt:'' @ key,
           Detail := WashDetail ''round_trip'' (unorderedPairKey n t0) accounts (washLegs trades idxs) notional lowerBound estimated\<rparr>)"

definition chain_order :: "Trade list \<Rightarrow> nat list \<Rightarrow> nat list" where
  "chain_order trades idxs = sort_key (\<lambda>i. (Ledger (trades ! i), TxHash (trades ! i), OpIndex (trades ! i))) idxs"

definition buildRoundTripCandidate ::
  "network \<Rightarrow> (string \<Rightarrow> rat option) \<Rightarrow> Trade list \<Rightarrow> MEVLegUSD list \<Rightarrow> string \<Rightarrow> nat list \<Rightarrow> Candidate option" where
  "buildRoundTripCandidate n parse trades usd key idxs =
     (let takers = remdups (map (\<lambda>i. Taker (trades ! i)) idxs);
          fills = (\<lambda>a. length (filter (\<lambda>i. Taker (trades ! i) = a) idxs))
      in if length takers \<noteq> 2 then None
         else if list_ex (\<lambda>a. fills a < roundTripMinPerDirection) takers then None
         else Some (round_trip_candidate n parse trades usd key (chain_order trades idxs)))"

definition detectRoundTrips :: "sdk \<Rightarrow> network \<Rightarrow> (string \<Rightarrow> rat option) \<Rightarrow> Trade list \<Rightarrow> MEVLegUSD list \<Rightarrow> Candidate list" where
  "detectRoundTrips k n parse trades usd =
     List.map_filter (\<lambda>(key, idxs). buildRoundTripCandidate n parse trades usd key idxs)
       (group_loop (\<lambda>i. round_trip_key k n (trades ! i)) [0..<length trades] [])"

definition DetectWashTrades :: "sdk \<Rightarrow> network \<Rightarrow> (string \<Rightarrow> rat option) \<Rightarrow> Trade list \<Rightarrow> MEVLegUSD list \<Rightarrow> Candidate list" where
  "DetectWashTrades k n parse trades usd = detectSelfTrades k n parse trades usd @ detectRoundTrips k n parse trades usd"

section \<open>What a wash-trade candidate proves\<close>

text \<open>
  Well-formed rows: a hash without the separator byte, account texts without the two separators of the key,
  and a timestamp from year 1 on.
\<close>

definition wash_row :: "Trade \<Rightarrow> bool" where
  "wash_row t = (char_of (0 :: nat) \<notin> set (TxHash t) \<and> 0 \<le> Timestamp t \<and>
     (\<forall>c \<in> {CHR '':'', CHR ''|''}. c \<notin> set (Maker t) \<and> c \<notin> set (Taker t)))"

definition self_trades :: "sdk \<Rightarrow> Trade list \<Rightarrow> string \<Rightarrow> string \<Rightarrow> nat list" where
  "self_trades k trades tx a =
     filter (\<lambda>i. let t = trades ! i in orderableTrade t \<and> accountMaker k t \<and> Maker t = a \<and> Taker t = a \<and> TxHash t = tx) [0..<length trades]"

definition bucket_of :: "Trade \<Rightarrow> gotime" where
  "bucket_of t = time_Truncate (Timestamp t) roundTripBucket"

text \<open>The fills between two accounts on a pair in one bucket.\<close>

definition mutual_fills :: "sdk \<Rightarrow> network \<Rightarrow> Trade list \<Rightarrow> gotime \<Rightarrow> string \<Rightarrow> string \<Rightarrow> string \<Rightarrow> nat list" where
  "mutual_fills k n trades bucket pk a b =
     filter (\<lambda>i. let t = trades ! i in orderableTrade t \<and> accountMaker k t \<and> bucket_of t = bucket \<and> unorderedPairKey n t = pk \<and>
       (Maker t = a \<and> Taker t = b \<or> Maker t = b \<and> Taker t = a)) [0..<length trades]"

lemma bucket_seconds:
  assumes "0 \<le> t" "0 \<le> t'"
  shows "Format_RFC3339 (time_Truncate t roundTripBucket) @ x = Format_RFC3339 (time_Truncate t' roundTripBucket) @ y \<longleftrightarrow>
    time_Truncate t roundTripBucket = time_Truncate t' roundTripBucket \<and> x = y"
proof -
  have b: "time_Truncate s roundTripBucket = 900000000000 * (s div 900000000000)" for s
    by (simp add: time_Truncate_def roundTripBucket_def go_minute_def go_second_def minus_mod_eq_mult_div)
  have "0 \<le> time_Truncate t roundTripBucket" "0 \<le> time_Truncate t' roundTripBucket" unfolding b using assms by (simp_all add: pos_imp_zdiv_nonneg_iff)
  from Format_RFC3339_inject [OF this] show ?thesis unfolding b by (auto simp: div_mult2_eq)
qed

lemma cut_last_inject:
  assumes "x @ c # a = y @ c # b" "c \<notin> set a" "c \<notin> set b"
  shows "x = y \<and> a = b"
proof -
  have "rev a @ c # rev x = rev b @ c # rev y" using arg_cong [OF assms(1), of rev] by simp
  then show ?thesis using cut_inject [of "rev a" c "rev x" "rev b" "rev y"] assms(2,3) by simp
qed

definition parties :: "Trade \<Rightarrow> string \<times> string" where
  "parties t = (if Taker t < Maker t then (Taker t, Maker t) else (Maker t, Taker t))"

lemma round_trip_key_text:
  "round_trip_key k n t = Some key \<longleftrightarrow> orderableTrade t \<and> accountMaker k t \<and> Maker t \<noteq> Taker t \<and>
     key = Format_RFC3339 (bucket_of t) @ '':'' @ (unorderedPairKey n t @ '':'' @ fst (parties t)) @ ''|'' @ snd (parties t)"
  by (auto simp: round_trip_key_def bucket_of_def Let_def parties_def)

lemma round_trip_key_eq:
  assumes "wash_row t" "wash_row t'" "round_trip_key k n t = Some key"
  shows "round_trip_key k n t' = Some key \<longleftrightarrow> orderableTrade t' \<and> accountMaker k t' \<and> bucket_of t' = bucket_of t \<and>
    unorderedPairKey n t' = unorderedPairKey n t \<and> (Maker t' = Maker t \<and> Taker t' = Taker t \<or> Maker t' = Taker t \<and> Taker t' = Maker t)"
proof -
  note k = assms(3) [unfolded round_trip_key_text]
  let ?rest = "\<lambda>t. (unorderedPairKey n t @ '':'' @ fst (parties t)) @ ''|'' @ snd (parties t)"
  have ok: "CHR ''|'' \<notin> set (snd (parties u))" "CHR '':'' \<notin> set (fst (parties u))" if "wash_row u" for u
    using that by (auto simp: wash_row_def parties_def)
  have b: "Format_RFC3339 (bucket_of t') @ '':'' @ ?rest t' = key \<longleftrightarrow> bucket_of t' = bucket_of t \<and> ?rest t' = ?rest t"
    using k bucket_seconds [of "Timestamp t'" "Timestamp t" "'':'' @ ?rest t'" "'':'' @ ?rest t"] assms(1,2)
    unfolding wash_row_def bucket_of_def by simp
  have "?rest t' = ?rest t \<longleftrightarrow> unorderedPairKey n t' = unorderedPairKey n t \<and> parties t' = parties t"
  proof
    assume r: "?rest t' = ?rest t"
    then have "unorderedPairKey n t' @ '':'' @ fst (parties t') = unorderedPairKey n t @ '':'' @ fst (parties t)" "snd (parties t') = snd (parties t)"
      using cut_last_inject [of "unorderedPairKey n t' @ '':'' @ fst (parties t')" "CHR ''|''" "snd (parties t')"
        "unorderedPairKey n t @ '':'' @ fst (parties t)" "snd (parties t)"] ok(1) [OF assms(1)] ok(1) [OF assms(2)] by simp_all
    then show "unorderedPairKey n t' = unorderedPairKey n t \<and> parties t' = parties t"
      using cut_last_inject [of "unorderedPairKey n t'" "CHR '':''" "fst (parties t')" "unorderedPairKey n t" "fst (parties t)"]
        ok(2) [OF assms(1)] ok(2) [OF assms(2)] by (simp add: prod_eq_iff)
  qed simp
  moreover have "parties t' = parties t \<and> Maker t' \<noteq> Taker t' \<longleftrightarrow> (Maker t' = Maker t \<and> Taker t' = Taker t \<or> Maker t' = Taker t \<and> Taker t' = Maker t)"
    using k by (auto simp: parties_def split: if_splits)
  ultimately show ?thesis unfolding round_trip_key_text using b by blast
qed

lemma mutual_fills_eq:
  assumes "\<forall>t \<in> set trades. wash_row t" "i < length trades" "round_trip_key k n (trades ! i) = Some key"
  shows "filter (\<lambda>j. round_trip_key k n (trades ! j) = Some key) [0..<length trades] =
    mutual_fills k n trades (bucket_of (trades ! i)) (unorderedPairKey n (trades ! i)) (Maker (trades ! i)) (Taker (trades ! i))"
  unfolding mutual_fills_def Let_def
  by (intro filter_cong refl round_trip_key_eq [OF _ _ assms(3)]) (use assms(1,2) in auto)

lemma self_trades_eq:
  assumes "\<forall>t \<in> set trades. wash_row t" "i < length trades" "self_key k (trades ! i) = Some key"
  shows "filter (\<lambda>j. self_key k (trades ! j) = Some key) [0..<length trades] = self_trades k trades (TxHash (trades ! i)) (Taker (trades ! i))"
proof -
  have key: "key = TxHash (trades ! i) @ char_of (0 :: nat) # Taker (trades ! i)" using assms(3) by (simp add: self_key_def split: if_splits)
  have "self_key k (trades ! j) = Some key \<longleftrightarrow> orderableTrade (trades ! j) \<and> accountMaker k (trades ! j) \<and>
      Maker (trades ! j) = Taker (trades ! i) \<and> Taker (trades ! j) = Taker (trades ! i) \<and> TxHash (trades ! j) = TxHash (trades ! i)"
    if "j < length trades" for j
  proof -
    have "char_of (0 :: nat) \<notin> set (TxHash (trades ! j))" "char_of (0 :: nat) \<notin> set (TxHash (trades ! i))"
      using assms(1,2) that by (auto simp: wash_row_def)
    then have "TxHash (trades ! j) @ char_of (0 :: nat) # Taker (trades ! j) = key \<longleftrightarrow>
        TxHash (trades ! j) = TxHash (trades ! i) \<and> Taker (trades ! j) = Taker (trades ! i)"
      unfolding key by (metis cut_inject)
    then show ?thesis by (auto simp: self_key_def)
  qed
  then show ?thesis unfolding self_trades_def Let_def by (intro filter_cong) auto
qed

lemma two_sides:
  assumes "\<forall>i \<in> set is. f i = a \<or> f i = b" "a \<noteq> b"
  shows "length (remdups (map f is)) = 2 \<and> \<not> list_ex (\<lambda>x. length (filter (\<lambda>i. f i = x) is) < 2) (remdups (map f is)) \<longleftrightarrow>
    2 \<le> length (filter (\<lambda>i. f i = a) is) \<and> 2 \<le> length (filter (\<lambda>i. f i = b) is)"
proof -
  have sub: "f ` set is \<subseteq> {a, b}" using assms(1) by auto
  have ab: "card {a, b} = 2" using assms(2) by simp
  have "length (remdups (map f is)) = 2 \<longleftrightarrow> card (f ` set is) = card {a, b}"
    unfolding ab by (simp add: length_remdups_card_conv)
  also have "\<dots> \<longleftrightarrow> f ` set is = {a, b}" using card_subset_eq [OF _ sub] by auto
  finally have two: "length (remdups (map f is)) = 2 \<longleftrightarrow> f ` set is = {a, b}" .
  have mem: "x \<in> f ` set is" if "2 \<le> length (filter (\<lambda>i. f i = x) is)" for x
  proof -
    have "filter (\<lambda>i. f i = x) is \<noteq> []" using that by auto
    then show ?thesis by (auto simp: filter_empty_conv)
  qed
  have ex: "\<not> list_ex (\<lambda>x. length (filter (\<lambda>i. f i = x) is) < 2) (remdups (map f is)) \<longleftrightarrow>
      (\<forall>x \<in> f ` set is. 2 \<le> length (filter (\<lambda>i. f i = x) is))" by (auto simp: list_ex_iff not_less)
  show ?thesis
  proof (cases "a \<in> f ` set is \<and> b \<in> f ` set is")
    case True
    then have "f ` set is = {a, b}" using sub by blast
    then show ?thesis unfolding two ex by simp
  next
    case False
    then have "f ` set is \<noteq> {a, b}" by blast
    then show ?thesis unfolding two using False mem by blast
  qed
qed

lemma self_mem:
  assumes "\<forall>t \<in> set trades. wash_row t"
  shows "c \<in> set (detectSelfTrades k n parse trades usd) \<longleftrightarrow>
    (\<exists>tx a. self_trades k trades tx a \<noteq> [] \<and> c = self_candidate n parse trades usd (self_trades k trades tx a))" (is "_ \<longleftrightarrow> ?S")
proof
  assume "c \<in> set (detectSelfTrades k n parse trades usd)"
  then obtain i key where i: "i < length trades" "self_key k (trades ! i) = Some key"
      "c = self_candidate n parse trades usd (filter (\<lambda>j. self_key k (trades ! j) = Some key) [0..<length trades])"
    by (auto simp: detectSelfTrades_def group_loop_eq keys_seen_set)
  have "i \<in> set (filter (\<lambda>j. self_key k (trades ! j) = Some key) [0..<length trades])" using i by simp
  then show ?S using i(3) unfolding self_trades_eq [OF assms i(1,2)] by (metis empty_iff list.set(1))
next
  assume ?S
  then obtain tx a i where i: "i \<in> set (self_trades k trades tx a)" "c = self_candidate n parse trades usd (self_trades k trades tx a)"
    by (metis hd_in_set)
  then obtain key where k: "i < length trades" "self_key k (trades ! i) = Some key" "TxHash (trades ! i) = tx" "Taker (trades ! i) = a"
    by (auto simp: self_trades_def self_key_def Let_def)
  have "key \<in> set (keys_seen (\<lambda>i. self_key k (trades ! i)) [0..<length trades])" using k by (auto simp: keys_seen_set)
  then show "c \<in> set (detectSelfTrades k n parse trades usd)"
    unfolding detectSelfTrades_def group_loop_eq using i(2) self_trades_eq [OF assms k(1,2)] k(3,4) by force
qed

definition round_trip :: "sdk \<Rightarrow> network \<Rightarrow> Trade list \<Rightarrow> gotime \<Rightarrow> string \<Rightarrow> string \<Rightarrow> string \<Rightarrow> bool" where
  "round_trip k n trades bucket pk a b \<longleftrightarrow> a \<noteq> b \<and>
     2 \<le> length (filter (\<lambda>i. Taker (trades ! i) = a) (mutual_fills k n trades bucket pk a b)) \<and>
     2 \<le> length (filter (\<lambda>i. Taker (trades ! i) = b) (mutual_fills k n trades bucket pk a b))"

lemma mutual_fills_mem:
  "i \<in> set (mutual_fills k n trades bucket pk a b) \<longleftrightarrow> i < length trades \<and> orderableTrade (trades ! i) \<and> accountMaker k (trades ! i) \<and>
     bucket_of (trades ! i) = bucket \<and> unorderedPairKey n (trades ! i) = pk \<and>
     (Maker (trades ! i) = a \<and> Taker (trades ! i) = b \<or> Maker (trades ! i) = b \<and> Taker (trades ! i) = a)"
  by (simp add: mutual_fills_def Let_def)

lemma mutual_fills_sym: "mutual_fills k n trades bucket pk a b = mutual_fills k n trades bucket pk b a"
  unfolding mutual_fills_def by (intro filter_cong) (auto simp: Let_def)

lemma buildRoundTrip_iff:
  assumes "a \<noteq> b"
  shows "buildRoundTripCandidate n parse trades usd key (mutual_fills k n trades bucket pk a b) = Some c \<longleftrightarrow>
    round_trip k n trades bucket pk a b \<and> c = round_trip_candidate n parse trades usd key (chain_order trades (mutual_fills k n trades bucket pk a b))"
proof -
  let ?g = "mutual_fills k n trades bucket pk a b"
  have "\<forall>i \<in> set ?g. Taker (trades ! i) = a \<or> Taker (trades ! i) = b" by (auto simp: mutual_fills_def Let_def)
  from two_sides [OF this assms] show ?thesis
    using assms by (auto simp: buildRoundTripCandidate_def round_trip_def roundTripMinPerDirection_def Let_def)
qed

lemma round_trip_mem:
  assumes "\<forall>t \<in> set trades. wash_row t"
  shows "c \<in> set (detectRoundTrips k n parse trades usd) \<longleftrightarrow>
    (\<exists>bucket pk a b. round_trip k n trades bucket pk a b \<and>
       c = round_trip_candidate n parse trades usd (the (round_trip_key k n (trades ! hd (mutual_fills k n trades bucket pk a b))))
         (chain_order trades (mutual_fills k n trades bucket pk a b)))" (is "_ \<longleftrightarrow> ?R")
proof
  let ?F = "\<lambda>key. filter (\<lambda>j. round_trip_key k n (trades ! j) = Some key) [0..<length trades]"
  assume "c \<in> set (detectRoundTrips k n parse trades usd)"
  then obtain i key where i: "i < length trades" "round_trip_key k n (trades ! i) = Some key"
      "buildRoundTripCandidate n parse trades usd key (?F key) = Some c"
    by (auto simp: detectRoundTrips_def group_loop_eq keys_seen_set set_map_filter)
  have ne: "Maker (trades ! i) \<noteq> Taker (trades ! i)" using i(2) by (simp add: round_trip_key_def split: if_splits)
  have "i \<in> set (?F key)" using i by simp
  then have "?F key \<noteq> []" by (metis empty_iff list.set(1))
  then have "hd (?F key) \<in> set (?F key)" by (rule hd_in_set)
  then have "round_trip_key k n (trades ! hd (?F key)) = Some key" by simp
  then show ?R using i(3) unfolding mutual_fills_eq [OF assms i(1,2)] buildRoundTrip_iff [OF ne] by (intro exI conjI) auto
next
  let ?F = "\<lambda>key. filter (\<lambda>j. round_trip_key k n (trades ! j) = Some key) [0..<length trades]"
  assume ?R
  then obtain bucket pk a b where r: "round_trip k n trades bucket pk a b"
      "c = round_trip_candidate n parse trades usd (the (round_trip_key k n (trades ! hd (mutual_fills k n trades bucket pk a b))))
         (chain_order trades (mutual_fills k n trades bucket pk a b))" by blast
  let ?g = "mutual_fills k n trades bucket pk a b"
  have ab: "a \<noteq> b" using r(1) by (simp add: round_trip_def)
  have "?g \<noteq> []" using r(1) by (auto simp: round_trip_def)
  then have j: "hd ?g \<in> set ?g" by (rule hd_in_set)
  note m = j [unfolded mutual_fills_mem]
  have "Maker (trades ! hd ?g) \<noteq> Taker (trades ! hd ?g)" using m ab by metis
  then obtain key where key: "hd ?g < length trades" "round_trip_key k n (trades ! hd ?g) = Some key"
    using m by (simp add: round_trip_key_text)
  have g: "?F key = ?g"
    using mutual_fills_eq [OF assms key] m mutual_fills_sym [of k n trades bucket pk a b] by metis
  have "buildRoundTripCandidate n parse trades usd key ?g = Some c" unfolding buildRoundTrip_iff [OF ab] using r key(2) by simp
  moreover have "key \<in> set (keys_seen (\<lambda>i. round_trip_key k n (trades ! i)) [0..<length trades])" using key by (auto simp: keys_seen_set)
  ultimately show "c \<in> set (detectRoundTrips k n parse trades usd)"
    unfolding detectRoundTrips_def group_loop_eq set_map_filter using g by force
qed

text \<open>
  The wash detector reports exactly two shapes, both only where the maker is an account. A self trade: one
  candidate for every transaction and account that is maker and taker of a trade there, with all such trades.
  A round trip: one candidate for every quarter of an hour, pair and two different accounts each of which took
  at least two offers of the other, with all the fills between them in chain order; never for one direction
  alone.
\<close>

theorem wash_exact:
  assumes "\<forall>t \<in> set trades. wash_row t"
  shows "c \<in> set (DetectWashTrades k n parse trades usd) \<longleftrightarrow>
    (\<exists>tx a. self_trades k trades tx a \<noteq> [] \<and> c = self_candidate n parse trades usd (self_trades k trades tx a)) \<or>
    (\<exists>bucket pk a b. round_trip k n trades bucket pk a b \<and>
       c = round_trip_candidate n parse trades usd (the (round_trip_key k n (trades ! hd (mutual_fills k n trades bucket pk a b))))
         (chain_order trades (mutual_fills k n trades bucket pk a b)))"
  unfolding DetectWashTrades_def set_append Un_iff self_mem [OF assms] round_trip_mem [OF assms] by (rule refl)

section \<open>Concrete inputs\<close>

definition sample_fill :: "string \<Rightarrow> string \<Rightarrow> 32 word \<Rightarrow> Trade" where
  "sample_fill maker taker op =
     \<lparr>Source = ''sdex'', Ledger = 7, TxHash = ''aa'', OpIndex = op, Timestamp = 5, TPair = sample_pair,
      BaseAmount = NewAmount (Some 10), QuoteAmount = NewAmount (Some 20), Maker = maker, Taker = taker, RoutedVia = []\<rparr>"

definition any_account :: sdk where
  "any_account = sample_sdk\<lparr>strkey_Decode := (\<lambda>v s. Some [])\<rparr>"

text \<open>Two accounts take two offers of each other, and one of them also crosses itself.\<close>

definition sample_fills :: "Trade list" where
  "sample_fills = [sample_fill ''GA'' ''GB'' 1, sample_fill ''GB'' ''GA'' 2, sample_fill ''GA'' ''GB'' 3,
     sample_fill ''GB'' ''GA'' 4, sample_fill ''GA'' ''GA'' 5]"

theorem wash_exact_witness:
  "self_trades any_account sample_fills ''aa'' ''GA'' = [4] \<and>
   self_candidate no_network (\<lambda>_. None) sample_fills [] [4] \<in> set (DetectWashTrades any_account no_network (\<lambda>_. None) sample_fills [])"
proof
  have ok: "\<forall>t \<in> set sample_fills. wash_row t" by code_simp
  show s: "self_trades any_account sample_fills ''aa'' ''GA'' = [4]" by code_simp
  then show "self_candidate no_network (\<lambda>_. None) sample_fills [] [4] \<in> set (DetectWashTrades any_account no_network (\<lambda>_. None) sample_fills [])"
    using wash_exact [OF ok] by (metis list.distinct(1))
qed

end
