(* ===== verification/MEVWorker.thy ===== *)
theory MEVWorker
  imports MEVArb MEVSandwich MEVWash
begin

text \<open>
  The liquidation-cascade detector (internal/aggregate/mev/cascade.go) and the worker that runs all detectors
  over a scanned window (internal/aggregate/mev/worker.go).

  The scanners, the order lookup and the sink of the worker are arguments: a scan is its result, an optional
  seam that is not wired is \<open>None\<close>, the lookup and the sink are functions, the sink with an explicit state.
  The JSON text of a candidate's evidence is the argument \<open>marshal\<close> (\<open>None\<close> is its error). Logging and the
  observer are not modelled; the heartbeat is its flag.
\<close>

section \<open>cascade.go\<close>

definition KindLiquidationCascade :: string where
  "KindLiquidationCascade = ''liquidation_cascade''"

definition cascadeWindowLedgers :: "32 word" where
  "cascadeWindowLedgers = 12"

definition positionAssetSet :: "sdk \<Rightarrow> network \<Rightarrow> string list \<Rightarrow> string list" where
  "positionAssetSet k n assets =
     concat (map (\<lambda>s. normAsset n s #
       (case ParseAsset k s of Inl _ \<Rightarrow> [] | Inr a \<Rightarrow> map (normAsset n) (AssetAliasStrings n a))) assets)"

definition oracleRefIsMapped :: "sdk \<Rightarrow> MEVOracleRef \<Rightarrow> bool" where
  "oracleRefIsMapped k ref = (case ParseAsset k (o_Asset ref) of Inl _ \<Rightarrow> False | Inr a \<Rightarrow> IsMapped a)"

definition correlatedOracles :: "sdk \<Rightarrow> network \<Rightarrow> MEVAuctionFill \<Rightarrow> 32 word \<Rightarrow> MEVOracleRef list \<Rightarrow> cascadeOracleRef list" where
  "correlatedOracles k n f lowLedger oracles =
     (let position = positionAssetSet k n (f_Assets f) in
      map (\<lambda>r. \<lparr>co_Source = o_Source r, co_ContractID = o_ContractID r, co_Asset = o_Asset r, co_Ledger = o_Ledger r, co_TxHash = o_TxHash r\<rparr>)
        (filter (\<lambda>r. \<not> (o_Ledger r = 0 \<or> o_Ledger r + cascadeWindowLedgers < lowLedger \<or> f_Ledger f < o_Ledger r) \<and>
           oracleRefIsMapped k r \<and> normAsset n (o_Asset r) \<in> set position) oracles))"

definition fillRef :: "MEVAuctionFill \<Rightarrow> cascadeFillRef" where
  "fillRef f =
     \<lparr>cf_Pool = Pool f, Liquidated = User f, cf_Filler = Filler f, cf_AuctionType = AuctionType f,
      cf_Assets = sortedKeys (f_Assets f), cf_Ledger = f_Ledger f, cf_TxHash = f_TxHash f, cf_OpIndex = f_OpIndex f\<rparr>"

definition assembleCascadeCandidate :: "MEVAuctionFill \<Rightarrow> MEVAuctionFill list \<Rightarrow> cascadeOracleRef list \<Rightarrow> Candidate" where
  "assembleCascadeCandidate f priors0 correlated0 =
     (let priors = take 10 priors0; correlated = take 10 correlated0 in
      zeroCandidate\<lparr>c_Kind := KindLiquidationCascade, c_Ledger := f_Ledger f, DetectedAtLedger := f_Ledger f,
        c_Timestamp := f_Timestamp f, c_TxHash := f_TxHash f, c_Taker := Filler f,
        TxHashes := Some (f_TxHash f # first_seen [f_TxHash f] (map f_TxHash priors)),
        Accounts := Some (first_seen [] (filter (\<lambda>a. a \<noteq> []) (map Filler (f # priors)))),
        c_Assets := sortedKeys (f_Assets f), c_Sources := [''blend''],
        Dedup := KindLiquidationCascade @ '':'' @ f_TxHash f @ '':'' @ Pool f @ '':'' @ User f @ '':'' @ nat_String (unat (f_OpIndex f)),
        Detail := CascadeDetail (uint cascadeWindowLedgers) (fillRef f) (map fillRef priors) correlated\<rparr>)"

text \<open>The backward scan from a fill over the fills before it, the latest first.\<close>

fun prior_loop :: "MEVAuctionFill \<Rightarrow> MEVAuctionFill list \<Rightarrow> MEVAuctionFill list" where
  "prior_loop f [] = []"
| "prior_loop f (p # ps) =
     (if cascadeWindowLedgers < f_Ledger f - f_Ledger p then []
      else if Pool p = Pool f \<and> User p = User f then prior_loop f ps
      else if f_TxHash p = f_TxHash f then prior_loop f ps
      else p # prior_loop f ps)"

definition buildCascadeCandidate :: "sdk \<Rightarrow> network \<Rightarrow> MEVAuctionFill list \<Rightarrow> MEVOracleRef list \<Rightarrow> nat \<Rightarrow> Candidate option" where
  "buildCascadeCandidate k n fills oracles i =
     (let f = fills ! i; priors = prior_loop f (rev (take i fills)) in
      if priors = [] then None
      else let correlated = correlatedOracles k n f (f_Ledger (last priors)) oracles in
        if correlated = [] then None else Some (assembleCascadeCandidate f priors correlated))"

definition fill_order :: "MEVAuctionFill list \<Rightarrow> MEVAuctionFill list" where
  "fill_order fills = sort_key (\<lambda>f. (f_Ledger f, f_TxHash f, f_OpIndex f)) fills"

definition DetectLiquidationCascades :: "sdk \<Rightarrow> network \<Rightarrow> MEVAuctionFill list \<Rightarrow> MEVOracleRef list \<Rightarrow> Candidate list" where
  "DetectLiquidationCascades k n fills oracles =
     (if length fills < 2 then []
      else List.map_filter (buildCascadeCandidate k n (fill_order fills) oracles) [1..<length fills])"

section \<open>worker.go\<close>

record 'j StoredEvent =
  se_Kind :: string
  se_Ledger :: "32 word"
  se_DetectedAtLedger :: "32 word"
  se_Timestamp :: gotime
  se_AssetID :: string
  se_QuoteID :: string
  se_TxHashes :: "string list"
  se_Accounts :: "string list"
  se_DedupKey :: string
  DetailJSON :: 'j

definition storedFrom :: "(Candidate \<Rightarrow> 'j option) \<Rightarrow> Candidate \<Rightarrow> 'j StoredEvent option" where
  "storedFrom marshal c =
     (case marshal c of
        None \<Rightarrow> None
      | Some dj \<Rightarrow>
          let txs = (case TxHashes c of None \<Rightarrow> [] | Some t \<Rightarrow> t) in
          if txs = [] \<and> c_TxHash c = [] then None
          else Some \<lparr>se_Kind = c_Kind c, se_Ledger = c_Ledger c, se_DetectedAtLedger = DetectedAtLedger c,
            se_Timestamp = c_Timestamp c, se_AssetID = AssetID c, se_QuoteID = QuoteID c,
            se_TxHashes = (if txs = [] then [c_TxHash c] else txs),
            se_Accounts = (case Accounts c of None \<Rightarrow> [c_Taker c] | Some a \<Rightarrow> a),
            se_DedupKey = DedupKey c, DetailJSON = dj\<rparr>)"

text \<open>A scan that hit the cap loses its oldest ledger, which the cap may have cut inside a transaction.\<close>

definition scanTrades :: "nat \<Rightarrow> 'e + Trade list \<times> MEVLegUSD list \<Rightarrow> 'e + Trade list \<times> MEVLegUSD list" where
  "scanTrades scanLimit scanned =
     (case scanned of
        Inl e \<Rightarrow> Inl e
      | Inr (trades, usd) \<Rightarrow>
          if length trades < scanLimit then Inr (trades, usd)
          else let cut = length (takeWhile (\<lambda>t. Ledger t = Ledger (trades ! 0)) trades) in
            if length usd < cut then Inr (drop cut trades, []) else Inr (drop cut trades, drop cut usd))"

definition scanOracles :: "('e + MEVOracleRef list) option \<Rightarrow> MEVOracleRef list" where
  "scanOracles seam = (case seam of Some (Inr oracles) \<Rightarrow> oracles | _ \<Rightarrow> [])"

definition orderedCandidates ::
  "network \<Rightarrow> (string \<Rightarrow> rat option) \<Rightarrow> (string list \<Rightarrow> 'e + tx_order) option \<Rightarrow> Trade list \<Rightarrow> MEVLegUSD list \<Rightarrow> MEVOracleRef list \<Rightarrow>
   Candidate list \<times> bool" where
  "orderedCandidates n parse order trades usd oracles =
     (case order of
        None \<Rightarrow> ([], False)
      | Some TxIndexes \<Rightarrow>
          let hashes = OrderingTxHashes n trades oracles in
          if hashes = [] then ([], True)
          else case TxIndexes hashes of
            Inl e \<Rightarrow> ([], False)
          | Inr txIdx \<Rightarrow>
              (DetectSandwiches n parse trades usd txIdx @ DetectOracleSandwiches n parse trades usd oracles txIdx,
               length hashes \<le> length txIdx))"

definition cascadeCandidates ::
  "sdk \<Rightarrow> network \<Rightarrow> ('e + MEVAuctionFill list) option \<Rightarrow> MEVOracleRef list \<Rightarrow> Candidate list" where
  "cascadeCandidates k n seam oracles =
     (case seam of
        None \<Rightarrow> []
      | Some scanned \<Rightarrow>
          if oracles = [] then []
          else case scanned of Inl e \<Rightarrow> [] | Inr fills \<Rightarrow> DetectLiquidationCascades k n fills oracles)"

text \<open>The insertion loop: candidates that cannot be stored are skipped, the first sink error ends the run.\<close>

fun insert_loop ::
  "(Candidate \<Rightarrow> 'j option) \<Rightarrow> ('j StoredEvent \<Rightarrow> 's \<Rightarrow> 's \<times> ('e + bool)) \<Rightarrow> Candidate list \<Rightarrow> nat \<Rightarrow> 's \<Rightarrow> 's \<times> nat \<times> 'e option" where
  "insert_loop marshal ins [] inserted s = (s, inserted, None)"
| "insert_loop marshal ins (c # cs) inserted s =
     (case storedFrom marshal c of
        None \<Rightarrow> insert_loop marshal ins cs inserted s
      | Some ev \<Rightarrow>
          (case ins ev s of
             (s', Inl e) \<Rightarrow> (s', inserted, Some e)
           | (s', Inr ok) \<Rightarrow> insert_loop marshal ins cs (if ok then inserted + 1 else inserted) s'))"

record ('e, 's, 'j) worker =
  w_sdk :: sdk
  w_net :: network
  w_parse :: "string \<Rightarrow> rat option"
  w_marshal :: "Candidate \<Rightarrow> 'j option"
  w_insert :: "'j StoredEvent \<Rightarrow> 's \<Rightarrow> 's \<times> ('e + bool)"
  w_order :: "(string list \<Rightarrow> 'e + tx_order) option"
  w_scanLimit :: nat

text \<open>
  \<open>RunOnce\<close> on the results of the window's scans: sink state, detected, inserted, error, and the heartbeat of
  a completed run. \<open>None\<close> is an arbitrage search that does not return.
\<close>

definition RunOnce ::
  "('e, 's, 'j) worker \<Rightarrow> 'e + Trade list \<times> MEVLegUSD list \<Rightarrow> ('e + MEVOracleRef list) option \<Rightarrow> ('e + MEVAuctionFill list) option \<Rightarrow> 's \<Rightarrow>
   ('s \<times> nat \<times> nat \<times> 'e option \<times> bool option) option" where
  "RunOnce w tradeScan oracleScan auctionScan s =
     (case scanTrades (w_scanLimit w) tradeScan of
        Inl e \<Rightarrow> Some (s, 0, 0, Some e, None)
      | Inr (trades, usd) \<Rightarrow>
          Option.bind (DetectArbitrage (w_parse w) trades usd) (\<lambda>arb.
            let oracles = scanOracles oracleScan;
                (ordered, full) = orderedCandidates (w_net w) (w_parse w) (w_order w) trades usd oracles;
                cands = arb @ DetectWashTrades (w_sdk w) (w_net w) (w_parse w) trades usd @ ordered @
                  cascadeCandidates (w_sdk w) (w_net w) auctionScan oracles;
                (s', inserted, err) = insert_loop (w_marshal w) (w_insert w) cands 0 s
            in Some (s', length cands, inserted, err, if err = None then Some full else None)))"

section \<open>What a cascade candidate proves\<close>

text \<open>A fill at most a window earlier, against another position and in another transaction.\<close>

definition cascade_prior :: "MEVAuctionFill \<Rightarrow> MEVAuctionFill \<Rightarrow> bool" where
  "cascade_prior f p \<longleftrightarrow> unat (f_Ledger f) \<le> unat (f_Ledger p) + 12 \<and> (Pool p, User p) \<noteq> (Pool f, User f) \<and> f_TxHash p \<noteq> f_TxHash f"

lemma window_unat:
  assumes "f_Ledger p \<le> f_Ledger f"
  shows "cascadeWindowLedgers < f_Ledger f - f_Ledger p \<longleftrightarrow> unat (f_Ledger p) + 12 < unat (f_Ledger f)"
proof -
  have "unat (f_Ledger f - f_Ledger p) = unat (f_Ledger f) - unat (f_Ledger p)" using assms by (rule unat_sub)
  moreover have "unat (f_Ledger p) \<le> unat (f_Ledger f)" using assms by (simp add: word_le_nat_alt)
  ultimately show ?thesis by (auto simp: word_less_nat_alt cascadeWindowLedgers_def)
qed

lemma prior_loop_eq:
  "\<forall>p \<in> set ps. f_Ledger p \<le> f_Ledger f \<Longrightarrow> sorted_wrt (\<lambda>p q. f_Ledger q \<le> f_Ledger p) ps \<Longrightarrow>
   prior_loop f ps = filter (cascade_prior f) ps"
proof (induction ps)
  case (Cons p ps)
  show ?case
  proof (cases "cascadeWindowLedgers < f_Ledger f - f_Ledger p")
    case True
    have w: "unat (f_Ledger p) + 12 < unat (f_Ledger f)" using True window_unat [of p f] Cons.prems(1) by simp
    have "\<not> cascade_prior f q" if "q \<in> set (p # ps)" for q
    proof -
      have "f_Ledger q \<le> f_Ledger p" using that Cons.prems(2) by auto
      then show ?thesis using w by (simp add: cascade_prior_def word_le_nat_alt)
    qed
    then have "filter (cascade_prior f) (p # ps) = []" by (simp add: filter_empty_conv)
    then show ?thesis using True by simp
  next
    case False
    have "unat (f_Ledger f) \<le> unat (f_Ledger p) + 12" using False window_unat [of p f] Cons.prems(1) by simp
    then show ?thesis using False Cons by (auto simp: cascade_prior_def)
  qed
qed simp

lemma fill_order_ledgers: "sorted_wrt (\<lambda>p q. f_Ledger p \<le> f_Ledger q) (fill_order fills)"
proof -
  have "sorted (map (\<lambda>f. (f_Ledger f, f_TxHash f, f_OpIndex f)) (fill_order fills))" unfolding fill_order_def by (rule sorted_sort_key)
  then have "sorted_wrt (\<lambda>p q. (f_Ledger p, f_TxHash p, f_OpIndex p) \<le> (f_Ledger q, f_TxHash q, f_OpIndex q)) (fill_order fills)"
    by (simp add: sorted_wrt_map)
  then show ?thesis by (rule sorted_wrt_mono_rel [rotated]) (auto simp: less_eq_prod_simp)
qed

lemma priors_eq:
  assumes "i < length fills"
  shows "prior_loop (fill_order fills ! i) (rev (take i (fill_order fills))) = filter (cascade_prior (fill_order fills ! i)) (rev (take i (fill_order fills)))"
proof (rule prior_loop_eq)
  have len: "length (fill_order fills) = length fills" by (simp add: fill_order_def)
  show "\<forall>p \<in> set (rev (take i (fill_order fills))). f_Ledger p \<le> f_Ledger (fill_order fills ! i)"
  proof
    fix p assume "p \<in> set (rev (take i (fill_order fills)))"
    then obtain j where "j < i" "p = fill_order fills ! j" using assms len by (auto simp: in_set_conv_nth)
    then show "f_Ledger p \<le> f_Ledger (fill_order fills ! i)" using sorted_wrt_nth_less [OF fill_order_ledgers] assms len by simp
  qed
  show "sorted_wrt (\<lambda>p q. f_Ledger q \<le> f_Ledger p) (rev (take i (fill_order fills)))"
    unfolding sorted_wrt_rev by (rule sorted_wrt_take [OF fill_order_ledgers])
qed

definition cascade :: "sdk \<Rightarrow> network \<Rightarrow> MEVAuctionFill list \<Rightarrow> MEVOracleRef list \<Rightarrow> nat \<Rightarrow> MEVAuctionFill list \<Rightarrow> cascadeOracleRef list \<Rightarrow> bool" where
  "cascade k n fills oracles i priors correlated \<longleftrightarrow> i < length fills \<and>
     priors = filter (cascade_prior (fill_order fills ! i)) (rev (take i (fill_order fills))) \<and> priors \<noteq> [] \<and>
     correlated = correlatedOracles k n (fill_order fills ! i) (f_Ledger (last priors)) oracles \<and> correlated \<noteq> []"

lemma buildCascade_iff:
  assumes "i < length fills"
  shows "buildCascadeCandidate k n (fill_order fills) oracles i = Some c \<longleftrightarrow>
    (\<exists>priors correlated. cascade k n fills oracles i priors correlated \<and> c = assembleCascadeCandidate (fill_order fills ! i) priors correlated)"
  unfolding buildCascadeCandidate_def Let_def priors_eq [OF assms] cascade_def using assms by auto

text \<open>
  A published liquidation cascade is exactly what it claims: in ledger order, a fill with an earlier fill of
  another position in another transaction at most twelve ledgers before it, and an on-chain update of a
  mapped oracle for one of its own assets (in any alias form) in the bracket; the backward scan that stops at
  the first older fill misses none. The accounts published are fillers, so the liquidated owner is named as
  an account only if it is a filler too.
\<close>

theorem cascade_exact:
  "c \<in> set (DetectLiquidationCascades k n fills oracles) \<longleftrightarrow>
     (\<exists>i priors correlated accts. cascade k n fills oracles i priors correlated \<and>
        c = assembleCascadeCandidate (fill_order fills ! i) priors correlated \<and>
        Accounts c = Some accts \<and> set accts \<subseteq> Filler ` set fills - {[]})"
proof -
  have range: "1 \<le> i \<and> i < length fills \<and> 2 \<le> length fills" if "cascade k n fills oracles i priors correlated" for i priors correlated
    using that by (cases i) (auto simp: cascade_def)
  have "c \<in> set (DetectLiquidationCascades k n fills oracles) \<longleftrightarrow>
      2 \<le> length fills \<and> (\<exists>i. 1 \<le> i \<and> i < length fills \<and> buildCascadeCandidate k n (fill_order fills) oracles i = Some c)"
    unfolding DetectLiquidationCascades_def by (auto simp: set_map_filter)
  also have "\<dots> \<longleftrightarrow> (\<exists>i priors correlated. cascade k n fills oracles i priors correlated \<and>
      c = assembleCascadeCandidate (fill_order fills ! i) priors correlated)"
    using buildCascade_iff range by metis
  also have "\<dots> \<longleftrightarrow> (\<exists>i priors correlated accts. cascade k n fills oracles i priors correlated \<and>
        c = assembleCascadeCandidate (fill_order fills ! i) priors correlated \<and>
        Accounts c = Some accts \<and> set accts \<subseteq> Filler ` set fills - {[]})"
  proof -
    have "\<exists>accts. Accounts (assembleCascadeCandidate (fill_order fills ! i) priors correlated) = Some accts \<and> set accts \<subseteq> Filler ` set fills - {[]}"
      if c: "cascade k n fills oracles i priors correlated" for i priors correlated
    proof -
      have st: "set (fill_order fills) = set fills" "length (fill_order fills) = length fills" by (simp_all add: fill_order_def)
      have "fill_order fills ! i \<in> set fills" using c st nth_mem [of i "fill_order fills"] by (simp add: cascade_def)
      moreover have "set priors \<subseteq> set fills" using c st(1) by (auto simp: cascade_def dest: in_set_takeD)
      ultimately show ?thesis using set_take_subset [of 10 priors] by (auto simp: assembleCascadeCandidate_def Let_def first_seen_set)
    qed
    then show ?thesis by blast
  qed
  finally show ?thesis .
qed

section \<open>A run of the worker\<close>

text \<open>The lake knows the place of some transactions and answers a lookup with those it is asked for.\<close>

definition answers_from :: "(string list \<Rightarrow> 'e + tx_order) \<Rightarrow> tx_order \<Rightarrow> bool" where
  "answers_from TxIndexes lake \<longleftrightarrow> distinct (map fst lake) \<and> (\<forall>hs. TxIndexes hs = Inr (restrict_order hs lake))"

lemma restrict_order_length:
  assumes "distinct (map fst lake)" "distinct hs"
  shows "length hs \<le> length (restrict_order hs lake) \<longleftrightarrow> (\<forall>h \<in> set hs. map_of lake h \<noteq> None)"
proof -
  let ?K = "set (map fst (restrict_order hs lake))"
  have K: "?K = {h \<in> set hs. map_of lake h \<noteq> None}"
    by (auto simp: restrict_order_def map_of_eq_None_iff)
  have "distinct (map fst (restrict_order hs lake))" unfolding restrict_order_def using assms(1) by (simp add: distinct_map_filter)
  then have "length (restrict_order hs lake) = card ?K" by (metis distinct_card length_map)
  moreover have "length hs = card (set hs)" using assms(2) by (simp add: distinct_card)
  moreover have "?K \<subseteq> set hs" unfolding K by blast
  ultimately have "length hs \<le> length (restrict_order hs lake) \<longleftrightarrow> ?K = set hs"
    by (metis List.finite_set card_mono card_subset_eq dual_order.antisym order_refl)
  then show ?thesis unfolding K by blast
qed

lemma orderedCandidates_lake:
  assumes "answers_from TxIndexes lake"
  shows "orderedCandidates n parse (Some TxIndexes) trades usd oracles =
    (DetectSandwiches n parse trades usd lake @ DetectOracleSandwiches n parse trades usd oracles lake,
     \<forall>h \<in> set (OrderingTxHashes n trades oracles). map_of lake h \<noteq> None)"
proof -
  let ?hs = "OrderingTxHashes n trades oracles"
  have r: "DetectSandwiches n parse trades usd (restrict_order ?hs lake) = DetectSandwiches n parse trades usd lake"
    "DetectOracleSandwiches n parse trades usd oracles (restrict_order ?hs lake) = DetectOracleSandwiches n parse trades usd oracles lake"
    by (rule sandwiches_restrict oracle_sandwiches_restrict; simp add: OrderingTxHashes_def)+
  have d: "distinct ?hs" by (simp add: OrderingTxHashes_def)
  show ?thesis
  proof (cases "?hs = []")
    case True
    then have "restrict_order ?hs lake = []" by (simp add: restrict_order_def)
    then have "DetectSandwiches n parse trades usd lake = []" "DetectOracleSandwiches n parse trades usd oracles lake = []"
      using r by (simp_all add: DetectSandwiches_def DetectOracleSandwiches_def)
    then show ?thesis using True by (simp add: orderedCandidates_def)
  next
    case False
    then show ?thesis using assms r restrict_order_length [of lake ?hs] d
      by (simp add: orderedCandidates_def answers_from_def Let_def)
  qed
qed

text \<open>A sink that is idempotent on the dedup key.\<close>

definition idempotent_sink :: "('j StoredEvent \<Rightarrow> 's \<Rightarrow> 's \<times> ('e + bool)) \<Rightarrow> ('s \<Rightarrow> string set) \<Rightarrow> bool" where
  "idempotent_sink ins keys \<longleftrightarrow>
     (\<forall>ev s. \<exists>s'. ins ev s = (s', Inr (se_DedupKey ev \<notin> keys s)) \<and> keys s' = insert (se_DedupKey ev) (keys s))"

definition stored_keys :: "(Candidate \<Rightarrow> 'j option) \<Rightarrow> Candidate list \<Rightarrow> string set" where
  "stored_keys marshal cs = {DedupKey c | c. c \<in> set cs \<and> storedFrom marshal c \<noteq> None}"

lemma storedFrom_key: "storedFrom marshal c = Some ev \<Longrightarrow> se_DedupKey ev = DedupKey c"
  by (auto simp: storedFrom_def Let_def split: option.splits if_splits)

lemma insert_loop_keys:
  assumes "idempotent_sink ins keys" "finite (keys s)"
  shows "\<exists>s'. insert_loop marshal ins cs m s = (s', m + card (stored_keys marshal cs - keys s), None) \<and>
    keys s' = keys s \<union> stored_keys marshal cs"
  using assms(2)
proof (induction cs arbitrary: m s)
  case (Cons c cs)
  show ?case
  proof (cases "storedFrom marshal c")
    case None
    then have "stored_keys marshal (c # cs) = stored_keys marshal cs" by (auto simp: stored_keys_def)
    then show ?thesis using Cons None by simp
  next
    case (Some ev)
    have K: "stored_keys marshal (c # cs) = insert (DedupKey c) (stored_keys marshal cs)" using Some by (auto simp: stored_keys_def)
    have f: "finite (stored_keys marshal cs)" by (simp add: stored_keys_def setcompr_eq_image)
    obtain s1 where s1: "ins ev s = (s1, Inr (DedupKey c \<notin> keys s))" "keys s1 = insert (DedupKey c) (keys s)"
      using assms(1) storedFrom_key [OF Some] unfolding idempotent_sink_def by metis
    obtain s' where s': "insert_loop marshal ins cs (if DedupKey c \<notin> keys s then m + 1 else m) s1 =
        (s', (if DedupKey c \<notin> keys s then m + 1 else m) + card (stored_keys marshal cs - keys s1), None)"
      "keys s' = keys s1 \<union> stored_keys marshal cs"
      using Cons.IH [of s1 "if DedupKey c \<notin> keys s then m + 1 else m"] Cons.prems unfolding s1(2) by blast
    have "(if DedupKey c \<notin> keys s then m + 1 else m) + card (stored_keys marshal cs - keys s1) = m + card (stored_keys marshal (c # cs) - keys s)"
    proof (cases "DedupKey c \<in> keys s")
      case True
      then show ?thesis by (simp add: K s1(2) insert_absorb)
    next
      case False
      have "stored_keys marshal (c # cs) - keys s = insert (DedupKey c) (stored_keys marshal cs - keys s1)" using False by (auto simp: K s1(2))
      moreover have "DedupKey c \<notin> stored_keys marshal cs - keys s1" by (simp add: s1(2))
      ultimately show ?thesis using False f by simp
    qed
    then show ?thesis using Some s1 s' K by auto
  qed
qed (simp add: stored_keys_def)

text \<open>The candidates a run hands to the sink when the place of every transaction in the lake is known to it.\<close>

definition window_candidates ::
  "('e, 's, 'j) worker \<Rightarrow> tx_order \<Rightarrow> Trade list \<Rightarrow> MEVLegUSD list \<Rightarrow> MEVOracleRef list \<Rightarrow> ('e + MEVAuctionFill list) option \<Rightarrow> Candidate list" where
  "window_candidates w lake trades usd oracles auctions =
     the (DetectArbitrage (w_parse w) trades usd) @ DetectWashTrades (w_sdk w) (w_net w) (w_parse w) trades usd @
     DetectSandwiches (w_net w) (w_parse w) trades usd lake @ DetectOracleSandwiches (w_net w) (w_parse w) trades usd oracles lake @
     cascadeCandidates (w_sdk w) (w_net w) auctions oracles"

lemma RunOnce_lake:
  assumes "w_order w = Some TxIndexes" "answers_from TxIndexes lake" "length trades < w_scanLimit w"
    "idempotent_sink (w_insert w) keys" "finite (keys s)"
  shows "\<exists>s'. RunOnce w (Inr (trades, usd)) os as s =
    Some (s', length (window_candidates w lake trades usd (scanOracles os) as),
      card (stored_keys (w_marshal w) (window_candidates w lake trades usd (scanOracles os) as) - keys s), None,
      Some (\<forall>h \<in> set (OrderingTxHashes (w_net w) trades (scanOracles os)). map_of lake h \<noteq> None)) \<and>
    keys s' = keys s \<union> stored_keys (w_marshal w) (window_candidates w lake trades usd (scanOracles os) as)"
proof -
  let ?cs = "window_candidates w lake trades usd (scanOracles os) as"
  obtain arb where arb: "DetectArbitrage (w_parse w) trades usd = Some arb" by (auto simp: DetectArbitrage_eq)
  obtain s' where s': "insert_loop (w_marshal w) (w_insert w) ?cs 0 s = (s', card (stored_keys (w_marshal w) ?cs - keys s), None)"
    "keys s' = keys s \<union> stored_keys (w_marshal w) ?cs"
    using insert_loop_keys [OF assms(4,5), of "w_marshal w" ?cs 0] by auto
  have cs: "arb @ DetectWashTrades (w_sdk w) (w_net w) (w_parse w) trades usd @
     (DetectSandwiches (w_net w) (w_parse w) trades usd lake @ DetectOracleSandwiches (w_net w) (w_parse w) trades usd (scanOracles os) lake) @
     cascadeCandidates (w_sdk w) (w_net w) as (scanOracles os) = ?cs"
    by (simp add: window_candidates_def arb)
  have len: "length arb + (length (DetectWashTrades (w_sdk w) (w_net w) (w_parse w) trades usd) +
      (length (DetectSandwiches (w_net w) (w_parse w) trades usd lake) + length (DetectOracleSandwiches (w_net w) (w_parse w) trades usd (scanOracles os) lake) +
       length (cascadeCandidates (w_sdk w) (w_net w) as (scanOracles os)))) = length ?cs" unfolding cs [symmetric] by simp
  show ?thesis
    using assms(3) s'(2)
    by (simp add: len RunOnce_def scanTrades_def arb assms(1) orderedCandidates_lake [OF assms(2)] cs s'(1) Let_def del: append_assoc)
qed

text \<open>
  C23. A run over a complete window publishes everything once. With a lake that answers for the transactions it
  knows and a sink idempotent on the dedup key, a run hands the sink the candidates of all five detectors on
  the full order of the lake, although it asks for the order of a few transactions only; the keys of all
  storable candidates are in the sink afterwards, the inserted count is the number of new ones, the heartbeat
  is full exactly when every needed place was known, and a second run over the same window inserts nothing
  and leaves the keys unchanged.
\<close>

theorem run_publishes_once:
  fixes w :: "('e, 's, 'j) worker" and usd :: "MEVLegUSD list" and os as
  assumes "w_order w = Some TxIndexes" "answers_from TxIndexes lake" "length trades < w_scanLimit w"
    "idempotent_sink (w_insert w) keys" "finite (keys s)"
  defines "cs \<equiv> window_candidates w lake trades usd (scanOracles os) as"
    and "full \<equiv> \<forall>h \<in> set (OrderingTxHashes (w_net w) trades (scanOracles os)). map_of lake h \<noteq> None"
  shows "\<exists>s' s''. RunOnce w (Inr (trades, usd)) os as s =
      Some (s', length cs, card (stored_keys (w_marshal w) cs - keys s), None, Some full) \<and>
    keys s' = keys s \<union> stored_keys (w_marshal w) cs \<and>
    RunOnce w (Inr (trades, usd)) os as s' = Some (s'', length cs, 0, None, Some full) \<and> keys s'' = keys s'"
proof -
  obtain s' where s': "RunOnce w (Inr (trades, usd)) os as s =
      Some (s', length cs, card (stored_keys (w_marshal w) cs - keys s), None, Some full)" "keys s' = keys s \<union> stored_keys (w_marshal w) cs"
    using RunOnce_lake [OF assms(1-5), of usd os as] unfolding cs_def full_def by blast
  have "finite (keys s')" unfolding s'(2) using assms(5) by (simp add: stored_keys_def setcompr_eq_image)
  then obtain s'' where s'': "RunOnce w (Inr (trades, usd)) os as s' =
      Some (s'', length cs, card (stored_keys (w_marshal w) cs - keys s'), None, Some full)" "keys s'' = keys s' \<union> stored_keys (w_marshal w) cs"
    using RunOnce_lake [OF assms(1-4), of s' usd os as] unfolding cs_def full_def by blast
  have "stored_keys (w_marshal w) cs - keys s' = {}" "keys s' \<union> stored_keys (w_marshal w) cs = keys s'" using s'(2) by auto
  then show ?thesis using s' s'' by (intro exI [of _ s'] exI [of _ s''] conjI) (simp_all only: card.empty)
qed

definition set_sink :: "unit StoredEvent \<Rightarrow> string list \<Rightarrow> string list \<times> (unit + bool)" where
  "set_sink ev s = (List.insert (se_DedupKey ev) s, Inr (se_DedupKey ev \<notin> set s))"

definition sample_worker :: "(unit, string list, unit) worker" where
  "sample_worker =
     \<lparr>w_sdk = any_account, w_net = no_network, w_parse = (\<lambda>_. None), w_marshal = (\<lambda>_. Some ()), w_insert = set_sink,
      w_order = Some (\<lambda>hs. Inr (restrict_order hs [(''aa'', 3)])), w_scanLimit = 100\<rparr>"

text \<open>A window with one arbitrage, run twice on an empty sink.\<close>

theorem run_publishes_once_witness:
  "\<exists>s' s'' full. let w = sample_worker; ts = [sample_leg ''sdex'' 0, sample_leg ''soroswap'' 1];
      cs = window_candidates w [(''aa'', 3)] ts [] [] None in
    RunOnce w (Inr (ts, [])) None None [] = Some (s', length cs, card (stored_keys (w_marshal w) cs), None, Some full) \<and>
    RunOnce w (Inr (ts, [])) None None s' = Some (s'', length cs, 0, None, Some full) \<and> set s'' = set s'"
proof -
  let ?w = sample_worker and ?ts = "[sample_leg ''sdex'' 0, sample_leg ''soroswap'' 1]"
  have o: "w_order ?w = Some (\<lambda>hs. Inr (restrict_order hs [(''aa'', 3)]))" by (simp add: sample_worker_def)
  have a: "answers_from (\<lambda>hs. Inr (restrict_order hs [(''aa'', 3)]) :: unit + tx_order) [(''aa'', 3)]" by (simp add: answers_from_def)
  have l: "length ?ts < w_scanLimit ?w" by (simp add: sample_worker_def)
  have i: "idempotent_sink (w_insert ?w) set" by (auto simp: idempotent_sink_def sample_worker_def set_sink_def)
  have f: "finite (set [])" by simp
  from run_publishes_once [OF o a l i f, of "[]" None None] show ?thesis
    unfolding Let_def scanOracles_def option.case by (simp only: list.set Diff_empty) blast
qed

end
