(* ===== verification/GoErr.thy ===== *)
theory GoErr
  imports SI_Prelude
begin

text \<open>
  The idiom of the error paths: \<open>v, err := f(); if err != nil { return zero, err }\<close> is \<open>err_bind\<close>, a
  guard that returns an error is \<open>err_guard\<close>, and a loop that stops at the first error is \<open>err_list\<close>.
  The collection \<open>returns\<close> says when such a computation returns a value and when it returns an error.
\<close>

named_theorems returns \<open>when a fallible computation returns\<close>

definition err_bind :: "'e + 'a \<Rightarrow> ('a \<Rightarrow> 'e + 'b) \<Rightarrow> 'e + 'b" where
  "err_bind m f = (case m of Inl e \<Rightarrow> Inl e | Inr a \<Rightarrow> f a)"

definition err_guard :: "'e option \<Rightarrow> 'e + 'a \<Rightarrow> 'e + 'a" where
  "err_guard e r = (case e of Some x \<Rightarrow> Inl x | None \<Rightarrow> r)"

fun err_list :: "('a \<Rightarrow> 'e + 'b) \<Rightarrow> 'a list \<Rightarrow> 'e + 'b list" where
  "err_list f [] = Inr []"
| "err_list f (x # xs) = err_bind (f x) (\<lambda>y. err_bind (err_list f xs) (\<lambda>ys. Inr (y # ys)))"

text \<open>A running sum over fallible reads, stopping at the first error.\<close>

fun err_sum :: "('a \<Rightarrow> 'e + int) \<Rightarrow> 'a list \<Rightarrow> int \<Rightarrow> 'e + int" where
  "err_sum f [] acc = Inr acc"
| "err_sum f (x # xs) acc = err_bind (f x) (\<lambda>v. err_sum f xs (acc + v))"

lemma err_bind_simps [simp]: "err_bind (Inl e) f = Inl e" "err_bind (Inr a) f = f a"
  by (simp_all add: err_bind_def)

lemma err_guard_simps [simp]: "err_guard (Some e) r = Inl e" "err_guard None r = r"
  by (simp_all add: err_guard_def)

lemma err_bind_Inr [returns]: "err_bind m f = Inr b \<longleftrightarrow> (\<exists>a. m = Inr a \<and> f a = Inr b)"
  by (cases m) auto

lemma err_bind_Inl [returns]: "err_bind m f = Inl e \<longleftrightarrow> m = Inl e \<or> (\<exists>a. m = Inr a \<and> f a = Inl e)"
  by (cases m) auto

lemma err_guard_Inr [returns]: "err_guard e r = Inr b \<longleftrightarrow> e = None \<and> r = Inr b"
  by (cases e) auto

lemma err_guard_Inl [returns]: "err_guard e r = Inl x \<longleftrightarrow> e = Some x \<or> (e = None \<and> r = Inl x)"
  by (cases e) auto

lemma err_list_Inr [returns]: "err_list f xs = Inr ys \<longleftrightarrow> list_all2 (\<lambda>x y. f x = Inr y) xs ys"
proof (induction xs arbitrary: ys)
  case Nil
  show ?case by (simp add: eq_commute)
next
  case (Cons x xs)
  show ?case by (cases ys) (auto simp: returns Cons.IH)
qed

lemma err_list_Inl: "err_list f xs = Inl e \<Longrightarrow> \<exists>x \<in> set xs. f x = Inl e"
  by (induction xs) (auto simp: returns)

lemma err_list_total: "\<forall>x \<in> set xs. f x = Inr (g x) \<Longrightarrow> err_list f xs = Inr (map g xs)"
  by (induction xs) auto

lemma err_list_fails: "x \<in> set xs \<Longrightarrow> f x = Inl e \<Longrightarrow> \<exists>e'. err_list f xs = Inl e'"
  by (induction xs) (auto simp: err_bind_def split: sum.splits)

lemma err_sum_list: "err_sum f xs t = err_bind (err_list f xs) (\<lambda>vs. Inr (t + sum_list vs))"
  by (induction xs arbitrary: t) (auto simp: err_bind_def add.assoc split: sum.splits)

lemma err_sum_Inr [returns]: "err_sum f xs t = Inr v \<longleftrightarrow> (\<exists>vs. list_all2 (\<lambda>x y. f x = Inr y) xs vs \<and> v = t + sum_list vs)"
  by (auto simp: err_sum_list returns)

end
