(* ===== verification/Supply.thy ===== *)
theory Supply
  imports GoErr Aliases
begin

text \<open>
  Supply derivation (internal/supply): the snapshot with its basis, the keys snapshots are stored under, the
  operator policy, and the three algorithms: native XLM minus the reserve accounts, classic assets summed
  over their holding domains, and SEP-41 tokens from their mint, burn and clawback flows. Storage readers are
  arguments. A \<open>*big.Int\<close> that the code tests for nil is an \<open>int option\<close>; an error is the list of
  sentinels \<open>errors.Is\<close> finds in it. A Go map is an association list with distinct keys.
\<close>

section \<open>supply.go\<close>

text \<open>The basis is a Go string; the zero value is the last constructor.\<close>

datatype Basis = BasisXLMSDFReserveExclusion | BasisXLMSDFReserveExclusionStatic | BasisXLMTotalOnly
  | BasisIssuerExclusion | BasisAdminExclusion | BasisSEP41TotalOnly | BasisOverride | BasisSEP1DeclaredMax
  | BasisSEP41LakeFlows | BasisClassicLakeFlows | BasisClassicTrustlineSum | BasisContractStorageBalances
  | BasisNoMetadata | BasisUnset

definition Basis_String :: "Basis \<Rightarrow> string" where
  "Basis_String b =
     (case b of
        BasisXLMSDFReserveExclusion \<Rightarrow> ''xlm_sdf_reserve_exclusion''
      | BasisXLMSDFReserveExclusionStatic \<Rightarrow> ''xlm_sdf_reserve_exclusion_static''
      | BasisXLMTotalOnly \<Rightarrow> ''xlm_total_only''
      | BasisIssuerExclusion \<Rightarrow> ''issuer_exclusion''
      | BasisAdminExclusion \<Rightarrow> ''admin_exclusion''
      | BasisSEP41TotalOnly \<Rightarrow> ''sep41_total_only''
      | BasisOverride \<Rightarrow> ''override''
      | BasisSEP1DeclaredMax \<Rightarrow> ''sep1_declared_max''
      | BasisSEP41LakeFlows \<Rightarrow> ''sep41_lake_flows''
      | BasisClassicLakeFlows \<Rightarrow> ''classic_lake_flows''
      | BasisClassicTrustlineSum \<Rightarrow> ''classic_trustline_sum''
      | BasisContractStorageBalances \<Rightarrow> ''contract_storage_balances''
      | BasisNoMetadata \<Rightarrow> ''no_metadata''
      | BasisUnset \<Rightarrow> [])"

definition LowerBound :: "Basis \<Rightarrow> bool" where
  "LowerBound b = (b = BasisClassicTrustlineSum \<or> b = BasisContractStorageBalances)"

record Supply =
  s_AssetKey :: string
  s_TotalSupply :: "int option"
  s_CirculatingSupply :: "int option"
  s_MaxSupply :: "int option"
  s_Basis :: Basis
  s_MaxSupplyBasis :: Basis
  s_LedgerSequence :: "32 word"
  s_ObservedAt :: gotime
  s_MinComponentLedger :: "32 word"
  s_SACWrappedStroops :: "int option"

definition zeroSupply :: Supply where
  "zeroSupply =
     \<lparr>s_AssetKey = [], s_TotalSupply = None, s_CirculatingSupply = None, s_MaxSupply = None, s_Basis = BasisUnset,
      s_MaxSupplyBasis = BasisUnset, s_LedgerSequence = 0, s_ObservedAt = 0, s_MinComponentLedger = 0,
      s_SACWrappedStroops = None\<rparr>"

section \<open>The package's error values\<close>

datatype supply_sentinel = ErrUnknownNetwork | ErrNilReader | ErrNoObservation | ErrStaticReserveSnapshotExpired
  | ErrNotClassic | ErrNotSoroban | ErrNegativeTotalSupply | ErrNegativeTotalMissingBaseline
  | ErrGenesisBaselineNotSeeded | errNativePolicyKey | ErrCrossCheckNilSupply | ErrCrossCheckMisaligned
  | ErrNoSnapshot | CanonicalErr sentinel

type_synonym supply_error = "supply_sentinel list"

abbreviation wraps_error :: "error \<Rightarrow> supply_error" where
  "wraps_error \<equiv> map CanonicalErr"

section \<open>key.go\<close>

definition nativeAssetKey :: string where
  "nativeAssetKey = ''XLM''"

definition AssetKey :: "Asset \<Rightarrow> supply_error + string" where
  "AssetKey a =
     (case Type a of
        AssetNative \<Rightarrow> Inr nativeAssetKey
      | AssetClassic \<Rightarrow> Inr (Code a @ '':'' @ Issuer a)
      | AssetSoroban \<Rightarrow> Inr (ContractID a)
      | _ \<Rightarrow> Inl [])"

definition watched_classic :: "sdk \<Rightarrow> string \<Rightarrow> supply_error + string" where
  "watched_classic k e =
     (case ParseAsset k e of
        Inl err \<Rightarrow> Inl (wraps_error err)
      | Inr a \<Rightarrow> if Type a \<noteq> AssetClassic then Inl [] else Inr (Code a @ '':'' @ Issuer a))"

definition CanonicalizeWatchedClassic :: "sdk \<Rightarrow> string list \<Rightarrow> supply_error + string list" where
  "CanonicalizeWatchedClassic k entries = err_list (watched_classic k) entries"

definition ContainsAny :: "string \<Rightarrow> string \<Rightarrow> bool" where
  "ContainsAny s chars = (\<exists>c \<in> set s. c \<in> set chars)"

definition SACWrapperAssetKey :: "sdk \<Rightarrow> string \<Rightarrow> supply_error + string \<times> bool" where
  "SACWrapperAssetKey k v =
     (if \<not> ContainsAny v ''-:'' then Inr (v, False)
      else err_bind (CanonicalizeWatchedClassic k [v]) (\<lambda>canon. Inr (hd canon, True)))"

definition SACClassicKeys :: "sdk \<Rightarrow> (string \<times> string) list \<Rightarrow> supply_error + (string \<times> string) list" where
  "SACClassicKeys k wrappers =
     err_bind (err_list (\<lambda>(cid, v). err_bind (SACWrapperAssetKey k v) (\<lambda>(key, classic). Inr (cid, key, classic))) wrappers)
       (\<lambda>rows. Inr (map (\<lambda>(cid, key, classic). (cid, key)) (filter (\<lambda>(cid, key, classic). classic) rows)))"

definition ParseAssetKey :: "sdk \<Rightarrow> string \<Rightarrow> supply_error + string" where
  "ParseAssetKey k raw = (case ParseAsset k raw of Inl e \<Rightarrow> Inl (wraps_error e) | Inr a \<Rightarrow> AssetKey a)"

text \<open>The loop over the sorted spellings; \<open>out\<close> is the new table, whose keys are those of \<open>spelledAs\<close>.\<close>

fun canonicalize_loop :: "sdk \<Rightarrow> (string \<times> 'v) list \<Rightarrow> (string \<times> 'v) list \<Rightarrow> supply_error + (string \<times> 'v) list" where
  "canonicalize_loop k [] out = Inr out"
| "canonicalize_loop k ((raw, v) # rows) out =
     err_bind (ParseAssetKey k raw) (\<lambda>key.
       if key \<in> set (map fst out) then Inl [] else canonicalize_loop k rows (out @ [(key, v)]))"

definition canonicalizeAssetKeys :: "sdk \<Rightarrow> (string \<times> 'v) list \<Rightarrow> supply_error + (string \<times> 'v) list" where
  "canonicalizeAssetKeys k byAsset = canonicalize_loop k (sort_key fst byAsset) []"

definition CanonicalizeStaleComponentLedgers :: "sdk \<Rightarrow> (string \<times> 32 word) list \<Rightarrow> supply_error + (string \<times> 32 word) list" where
  "CanonicalizeStaleComponentLedgers k byAsset = canonicalizeAssetKeys k byAsset"

definition CanonicalizePolicyKeys :: "sdk \<Rightarrow> (string \<times> 'v) list \<Rightarrow> supply_error + (string \<times> 'v) list" where
  "CanonicalizePolicyKeys k byAsset =
     err_bind (canonicalizeAssetKeys k byAsset) (\<lambda>out.
       if nativeAssetKey \<in> set (map fst out) then Inl [errNativePolicyKey] else Inr out)"

definition validatePolicyKey :: "sdk \<Rightarrow> string \<Rightarrow> supply_error option" where
  "validatePolicyKey k key =
     (case ParseAssetKey k key of
        Inl e \<Rightarrow> Some e
      | Inr canon \<Rightarrow>
          if canon = nativeAssetKey then Some [errNativePolicyKey]
          else if canon \<noteq> key then Some []
          else None)"

section \<open>policy.go\<close>

record LockedSet =
  l_Accounts :: "string list"
  l_Contracts :: "string list"

definition LockedSet_IsEmpty :: "LockedSet \<Rightarrow> bool" where
  "LockedSet_IsEmpty l = (l_Accounts l = [] \<and> l_Contracts l = [])"

record Policy =
  SDFReserveAccounts :: "string list"
  PerAsset :: "(string \<times> LockedSet) list"
  MaxSupplyOverrides :: "(string \<times> string) list"

text \<open>The lookup in a map yields the zero value of a missing key.\<close>

definition locked_of :: "Policy \<Rightarrow> string \<Rightarrow> LockedSet" where
  "locked_of p key = (case map_of (PerAsset p) key of Some l \<Rightarrow> l | None \<Rightarrow> \<lparr>l_Accounts = [], l_Contracts = []\<rparr>)"

definition MaxSupplyOverride :: "Policy \<Rightarrow> string \<Rightarrow> supply_error + int option" where
  "MaxSupplyOverride p key =
     (case map_of (MaxSupplyOverrides p) key of
        None \<Rightarrow> Inr None
      | Some raw \<Rightarrow>
          if raw = [] then Inr None
          else (case SetString10 raw of
                  None \<Rightarrow> Inl []
                | Some n \<Rightarrow> if n < 0 then Inl [] else Inr (Some n)))"

fun distinct_loop :: "string list \<Rightarrow> string list \<Rightarrow> supply_error list" where
  "distinct_loop [] seen = []"
| "distinct_loop (v # vs) seen =
     (if v = [] then [] # distinct_loop vs seen
      else if v \<in> set seen then [] # distinct_loop vs seen
      else distinct_loop vs (v # seen))"

definition validateDistinctNonEmpty :: "string list \<Rightarrow> supply_error list" where
  "validateDistinctNonEmpty items = distinct_loop items []"

definition validateStrkeys :: "(string \<Rightarrow> bool) \<Rightarrow> string list \<Rightarrow> supply_error list" where
  "validateStrkeys valid items =
     validateDistinctNonEmpty items @ map (\<lambda>_. []) (filter (\<lambda>v. v \<noteq> [] \<and> \<not> valid v) items)"

definition error_list :: "supply_error option \<Rightarrow> supply_error list" where
  "error_list e = (case e of None \<Rightarrow> [] | Some x \<Rightarrow> [x])"

definition override_errors :: "sdk \<Rightarrow> Policy \<Rightarrow> string \<times> string \<Rightarrow> supply_error list" where
  "override_errors k p = (\<lambda>(key, override).
     error_list (validatePolicyKey k key) @
     (if override = [] then []
      else (case MaxSupplyOverride p key of Inl e \<Rightarrow> [e] | Inr _ \<Rightarrow> [])))"

definition locked_errors :: "sdk \<Rightarrow> string \<times> LockedSet \<Rightarrow> supply_error list" where
  "locked_errors k = (\<lambda>(key, locked).
     error_list (validatePolicyKey k key) @
     validateStrkeys (IsAccountID k) (l_Accounts locked) @
     validateStrkeys (IsContractID k) (l_Contracts locked))"

text \<open>\<open>errors.Join\<close>: nil when every error is nil.\<close>

definition errors_Join :: "supply_error list \<Rightarrow> supply_error option" where
  "errors_Join es = (if es = [] then None else Some (concat es))"

definition Policy_Validate :: "sdk \<Rightarrow> Policy \<Rightarrow> supply_error option" where
  "Policy_Validate k p =
     errors_Join (validateStrkeys (IsAccountID k) (SDFReserveAccounts p) @
       concat (map (override_errors k p) (MaxSupplyOverrides p)) @
       concat (map (locked_errors k) (PerAsset p)))"

section \<open>xlm.go\<close>

definition TestnetPassphrase :: string where
  "TestnetPassphrase = ''Test SDF Network ; September 2015''"

definition FuturenetPassphrase :: string where
  "FuturenetPassphrase = ''Test SDF Future Network ; October 2022''"

definition xlmTotalSupplyStroops :: int where
  "xlmTotalSupplyStroops = 50001806812 * 10000000"

definition xlmTestNetworkTotalSupplyStroops :: int where
  "xlmTestNetworkTotalSupplyStroops = 100000000000 * 10000000"

definition XLMTotalSupplyStroopsForNetwork :: "string \<Rightarrow> supply_error + int" where
  "XLMTotalSupplyStroopsForNetwork passphrase =
     (if passphrase = PubnetPassphrase then Inr xlmTotalSupplyStroops
      else if passphrase = TestnetPassphrase \<or> passphrase = FuturenetPassphrase
      then Inr xlmTestNetworkTotalSupplyStroops
      else Inl [ErrUnknownNetwork])"

text \<open>
  A reserve reader: the required method, and the two optional interfaces the code probes by type assertion.
\<close>

datatype ReserveSource = ReserveSourceLive | ReserveSourceStatic

record reserve_reader =
  r_Total :: "string list \<Rightarrow> 32 word \<Rightarrow> supply_error + int option"
  r_Sourced :: "(string list \<Rightarrow> 32 word \<Rightarrow> supply_error + int option \<times> ReserveSource) option"
  r_Freshness :: "(string list \<Rightarrow> 32 word \<Rightarrow> supply_error + 32 word) option"

definition readReserveTotal :: "reserve_reader \<Rightarrow> string list \<Rightarrow> 32 word \<Rightarrow> supply_error + int option \<times> ReserveSource" where
  "readReserveTotal r accounts ledger =
     (case r_Sourced r of
        Some sourced \<Rightarrow> sourced accounts ledger
      | None \<Rightarrow> err_bind (r_Total r accounts ledger) (\<lambda>v. Inr (v, ReserveSourceLive)))"

record XLMComputer =
  reserveAccounts :: "string list"
  xlm_reader :: "reserve_reader option"
  xlm_total :: int

definition NewXLMComputerForNetwork :: "string \<Rightarrow> string list \<Rightarrow> reserve_reader option \<Rightarrow> supply_error + XLMComputer" where
  "NewXLMComputerForNetwork passphrase accounts reader =
     err_bind (XLMTotalSupplyStroopsForNetwork passphrase) (\<lambda>t.
       if accounts \<noteq> [] \<and> reader = None then Inl [ErrNilReader]
       else Inr \<lparr>reserveAccounts = accounts, xlm_reader = reader, xlm_total = t\<rparr>)"

definition NewXLMComputer :: "string list \<Rightarrow> reserve_reader option \<Rightarrow> supply_error + XLMComputer" where
  "NewXLMComputer accounts reader = NewXLMComputerForNetwork PubnetPassphrase accounts reader"

text \<open>
  \<open>XLMComputer.Compute\<close>. The read of the reserves; \<open>None\<close> is the nil dereference of a computer with accounts
  and no reader, which the constructor excludes.
\<close>

definition reserve_read :: "XLMComputer \<Rightarrow> 32 word \<Rightarrow> (supply_error + int \<times> ReserveSource) option" where
  "reserve_read c ledger =
     (if reserveAccounts c = [] then Some (Inr (0, ReserveSourceLive))
      else case xlm_reader c of
        None \<Rightarrow> None
      | Some r \<Rightarrow>
          Some (err_bind (readReserveTotal r (reserveAccounts c) ledger) (\<lambda>(v, source).
            case v of None \<Rightarrow> Inl [] | Some reserved \<Rightarrow> Inr (reserved, source))))"

definition xlm_basis :: "XLMComputer \<Rightarrow> ReserveSource \<Rightarrow> Basis" where
  "xlm_basis c source =
     (if reserveAccounts c = [] then BasisXLMTotalOnly
      else if source = ReserveSourceStatic then BasisXLMSDFReserveExclusionStatic
      else BasisXLMSDFReserveExclusion)"

definition xlm_min_ledger :: "XLMComputer \<Rightarrow> 32 word \<Rightarrow> ReserveSource \<Rightarrow> 32 word" where
  "xlm_min_ledger c ledger source =
     (case Option.bind (xlm_reader c) r_Freshness of
        Some fresh \<Rightarrow>
          if reserveAccounts c \<noteq> [] \<and> source = ReserveSourceLive
          then (case fresh (reserveAccounts c) ledger of Inr got \<Rightarrow> got | Inl _ \<Rightarrow> 0)
          else 0
      | None \<Rightarrow> 0)"

definition clamp_zero :: "int \<Rightarrow> int" where
  "clamp_zero x = (if x < 0 then 0 else x)"

definition XLM_Compute :: "XLMComputer \<Rightarrow> 32 word \<Rightarrow> gotime \<Rightarrow> (supply_error + Supply) option" where
  "XLM_Compute c ledger observedAt =
     map_option (\<lambda>read. err_bind read (\<lambda>(reserved, source).
       Inr (zeroSupply\<lparr>
         s_AssetKey := nativeAssetKey,
         s_TotalSupply := Some (xlm_total c),
         s_CirculatingSupply := Some (clamp_zero (xlm_total c - reserved)),
         s_MaxSupply := Some (xlm_total c),
         s_Basis := xlm_basis c source,
         s_LedgerSequence := ledger,
         s_ObservedAt := observedAt,
         s_MinComponentLedger := xlm_min_ledger c ledger source\<rparr>))) (reserve_read c ledger)"

section \<open>classic.go\<close>

record ClassicSupplyComponents =
  cc_Trustline :: "int option"
  cc_Claimable :: "int option"
  cc_LPReserve :: "int option"
  cc_SACWrapped :: "int option"
  cc_SACObserved :: bool
  cc_IssuerBalance :: "int option"
  cc_LockedAccountBalances :: "int option"
  cc_LockedContractBalances :: "int option"
  cc_MinComponentLedger :: "32 word"

type_synonym classic_reader = "Asset \<Rightarrow> LockedSet \<Rightarrow> 32 word \<Rightarrow> supply_error + ClassicSupplyComponents"

record ClassicComputer =
  cl_policy :: Policy
  cl_reader :: classic_reader

definition NewClassicComputer :: "Policy \<Rightarrow> classic_reader option \<Rightarrow> supply_error + ClassicComputer" where
  "NewClassicComputer p reader =
     (case reader of None \<Rightarrow> Inl [ErrNilReader] | Some r \<Rightarrow> Inr \<lparr>cl_policy = p, cl_reader = r\<rparr>)"

text \<open>The loop over the fields: the first nil or negative one is the error.\<close>

definition first_bad :: "int option list \<Rightarrow> supply_error option" where
  "first_bad vs = (if list_all (\<lambda>v. case v of None \<Rightarrow> False | Some x \<Rightarrow> 0 \<le> x) vs then None else Some [])"

definition validateClassicComponents :: "ClassicSupplyComponents \<Rightarrow> supply_error option" where
  "validateClassicComponents c =
     first_bad [cc_Trustline c, cc_Claimable c, cc_LPReserve c, cc_SACWrapped c, cc_IssuerBalance c,
       cc_LockedAccountBalances c, cc_LockedContractBalances c]"

definition sacWrappedStroops :: "ClassicSupplyComponents \<Rightarrow> int option" where
  "sacWrappedStroops c = (if \<not> cc_SACObserved c then None else cc_SACWrapped c)"

text \<open>\<open>ClassicComputer.Compute\<close>; the components are dereferenced after validation only.\<close>

definition Classic_Compute :: "ClassicComputer \<Rightarrow> Asset \<Rightarrow> 32 word \<Rightarrow> gotime \<Rightarrow> supply_error + Supply" where
  "Classic_Compute c asset ledger observedAt =
     (if Type asset \<noteq> AssetClassic then Inl [ErrNotClassic]
      else
       err_bind (AssetKey asset) (\<lambda>key.
       let locked = locked_of (cl_policy c) key in
       err_bind (cl_reader c asset locked ledger) (\<lambda>comps.
       err_guard (validateClassicComponents comps) (
       let t = the (cc_Trustline comps) + the (cc_Claimable comps) + the (cc_LPReserve comps) + the (cc_SACWrapped comps);
           circulating = clamp_zero (t - the (cc_IssuerBalance comps) - the (cc_LockedAccountBalances comps)
             - the (cc_LockedContractBalances comps)) in
       err_bind (MaxSupplyOverride (cl_policy c) key) (\<lambda>override.
       let basis = (if override \<noteq> None then BasisOverride else BasisIssuerExclusion);
           basis = (if \<not> LockedSet_IsEmpty locked \<and> basis = BasisIssuerExclusion then BasisOverride else basis) in
       Inr (zeroSupply\<lparr>
         s_AssetKey := key,
         s_TotalSupply := Some t,
         s_CirculatingSupply := Some circulating,
         s_MaxSupply := override,
         s_Basis := basis,
         s_LedgerSequence := ledger,
         s_ObservedAt := observedAt,
         s_SACWrappedStroops := sacWrappedStroops comps,
         s_MinComponentLedger := cc_MinComponentLedger comps\<rparr>))))))"

section \<open>sep41.go\<close>

record SEP41SupplyComponents =
  sc_MintTotal :: "int option"
  sc_BurnTotal :: "int option"
  sc_ClawbackTotal :: "int option"
  sc_AdminBalance :: "int option"
  sc_LockedAccountBalances :: "int option"
  sc_LockedContractBalances :: "int option"
  sc_MinComponentLedger :: "32 word"
  sc_GenesisBaselineSeeded :: bool

type_synonym sep41_reader = "Asset \<Rightarrow> LockedSet \<Rightarrow> 32 word \<Rightarrow> supply_error + SEP41SupplyComponents"

record SEP41Computer =
  sp_policy :: Policy
  sp_reader :: sep41_reader

definition NewSEP41Computer :: "Policy \<Rightarrow> sep41_reader option \<Rightarrow> supply_error + SEP41Computer" where
  "NewSEP41Computer p reader =
     (case reader of None \<Rightarrow> Inl [ErrNilReader] | Some r \<Rightarrow> Inr \<lparr>sp_policy = p, sp_reader = r\<rparr>)"

definition validateSEP41Components :: "SEP41SupplyComponents \<Rightarrow> supply_error option" where
  "validateSEP41Components c =
     first_bad [sc_MintTotal c, sc_BurnTotal c, sc_ClawbackTotal c, sc_AdminBalance c,
       sc_LockedAccountBalances c, sc_LockedContractBalances c]"

definition SEP41_Compute :: "network \<Rightarrow> SEP41Computer \<Rightarrow> Asset \<Rightarrow> 32 word \<Rightarrow> gotime \<Rightarrow> supply_error + Supply" where
  "SEP41_Compute n c asset ledger observedAt =
     (if Type asset \<noteq> AssetSoroban then Inl [ErrNotSoroban]
      else
       err_bind (AssetKey asset) (\<lambda>key.
       let locked = locked_of (sp_policy c) key in
       err_bind (sp_reader c asset locked ledger) (\<lambda>comps.
       err_guard (validateSEP41Components comps) (
       let t = the (sc_MintTotal comps) - the (sc_BurnTotal comps) - the (sc_ClawbackTotal comps) in
       if t < 0 then
         Inl [if \<not> sc_GenesisBaselineSeeded comps then ErrNegativeTotalMissingBaseline else ErrNegativeTotalSupply]
       else if \<not> sc_GenesisBaselineSeeded comps \<and> Type (CanonicalAsset n asset) = AssetClassic then
         Inl [ErrGenesisBaselineNotSeeded]
       else
       let circulating = clamp_zero (t - the (sc_AdminBalance comps) - the (sc_LockedAccountBalances comps)
             - the (sc_LockedContractBalances comps)) in
       err_bind (MaxSupplyOverride (sp_policy c) key) (\<lambda>override.
       let basis = (if override \<noteq> None then BasisOverride else BasisAdminExclusion);
           basis = (if \<not> LockedSet_IsEmpty locked \<and> basis = BasisAdminExclusion then BasisOverride else basis);
           basis = (if basis = BasisAdminExclusion \<and> the (sc_AdminBalance comps) = 0 then BasisSEP41TotalOnly else basis) in
       Inr (zeroSupply\<lparr>
         s_AssetKey := key,
         s_TotalSupply := Some t,
         s_CirculatingSupply := Some circulating,
         s_MaxSupply := override,
         s_Basis := basis,
         s_LedgerSequence := ledger,
         s_ObservedAt := observedAt,
         s_MinComponentLedger := sc_MinComponentLedger comps\<rparr>))))))"

section \<open>overlay.go\<close>

type_synonym metadata_resolver = "Asset \<Rightarrow> supply_error + string \<times> bool"

text \<open>The result is the snapshot, whether the overlay applied, and the resolver's error.\<close>

definition Overlay :: "Supply \<Rightarrow> Asset \<Rightarrow> metadata_resolver option \<Rightarrow> Supply \<times> bool \<times> supply_error option" where
  "Overlay snap asset resolver =
     (if s_AssetKey snap = nativeAssetKey \<or> s_MaxSupply snap \<noteq> None then (snap, False, None)
      else case resolver of
        None \<Rightarrow> (snap, False, None)
      | Some SEP1MaxSupply \<Rightarrow>
          (case SEP1MaxSupply asset of
             Inl e \<Rightarrow> (snap, False, Some e)
           | Inr (raw, ok) \<Rightarrow>
               if \<not> ok \<or> raw = [] then (snap, False, None)
               else (case SetString10 raw of
                       None \<Rightarrow> (snap, False, None)
                     | Some v \<Rightarrow>
                         if v \<le> 0 then (snap, False, None)
                         else if (case s_TotalSupply snap of Some t \<Rightarrow> v < t | None \<Rightarrow> False) then (snap, False, None)
                         else if (case s_CirculatingSupply snap of Some t \<Rightarrow> v < t | None \<Rightarrow> False) then (snap, False, None)
                         else (snap\<lparr>s_MaxSupply := Some v, s_MaxSupplyBasis := BasisSEP1DeclaredMax\<rparr>, True, None))))"

section \<open>Supply keys\<close>

text \<open>
  The assets that have a supply key of their own, and the one family among them whose key the parser reads as
  something else: a classic asset with the code \<open>raw\<close>.
\<close>

definition on_chain :: "Asset \<Rightarrow> bool" where
  "on_chain a = (Type a \<in> {AssetNative, AssetClassic, AssetSoroban})"

definition raw_token :: "Asset \<Rightarrow> bool" where
  "raw_token a = (Type a = AssetClassic \<and> Code a = ''raw'')"

lemma AssetKey_on_chain: "(\<exists>key. AssetKey a = Inr key) \<longleftrightarrow> on_chain a"
  by (cases "Type a") (simp_all add: AssetKey_def on_chain_def)

lemma CutPrefix_colon:
  assumes "CHR '':'' \<notin> set code" "CHR '':'' \<notin> set p" "CutPrefix (code @ CHR '':'' # issuer) (p @ '':'') = Some rest"
  shows "code = p \<and> rest = issuer"
proof -
  let ?s = "code @ CHR '':'' # issuer"
  from assms(3) have "take (length (p @ '':'')) ?s = p @ '':''" "rest = drop (length (p @ '':'')) ?s"
    by (simp_all add: CutPrefix_def HasPrefix_def split: if_splits)
  then have "?s = (p @ '':'') @ rest" by (metis append_take_drop_id)
  with assms(1,2) show ?thesis by (auto simp: append_eq_append_conv2 append_eq_Cons_conv Cons_eq_append_conv)
qed

lemma parse_colon:
  assumes "strkey_ok k" "validateClassicAssetCode code = None" "IsAccountID k issuer"
  shows "ParseAsset k (code @ '':'' @ issuer) =
    (if code = ''raw'' then NewOracleRawAsset issuer else NewClassicAsset k code issuer)"
proof -
  let ?s = "code @ CHR '':'' # issuer"
  have c: "list_all alnum_char code" "0 < length code"
    using assms(2) by (auto simp: validateClassicAssetCode_def Let_def split: if_splits)
  have i: "list_all base32_char issuer" "length issuer = 56" using IsAccountID_strkey [OF assms(1,3)] by auto
  have nc: "CHR '':'' \<notin> set code" "CHR ''-'' \<notin> set code" by (rule alnum_excludes [OF c(1)]; simp)+
  have notcontract: "\<not> IsContractID k ?s"
  proof
    assume "IsContractID k ?s"
    then have "list_all base32_char ?s" using IsContractID_strkey [OF assms(1)] by blast
    from base32_excludes [OF this, of "CHR '':''"] show False by simp
  qed
  have len: "length ?s > 6" using i(2) by simp
  have fold: "\<not> EqualFold ?s ''XLM''" "\<not> EqualFold ?s ''native''" "?s \<noteq> ''native''" "?s \<noteq> []"
    using len EqualFold_length [of ?s] by fastforce+
  have skip: "case CutPrefix ?s (p @ '':'') of None \<Rightarrow> True | Some rest \<Rightarrow> IsAccountID k rest" if "CHR '':'' \<notin> set p" for p
    using CutPrefix_colon [OF nc(1) that] assms(3) by (auto split: option.splits)
  have disp: "prefix_dispatch k ?s [(''fiat:'', NewFiatAsset), (''crypto:'', NewCryptoAsset), (''rwa:'', NewRWAAsset)] = None"
    using skip [of "''fiat''"] skip [of "''crypto''"] skip [of "''rwa''"] by (auto split: option.splits)
  have idx: "IndexAny ?s ''-:'' = Some (length code)" using nc by (auto intro!: IndexAny_skip)
  show ?thesis
  proof (cases "code = ''raw''")
    case True
    then have "CutPrefix ?s ''raw:'' = Some issuer" by (simp add: CutPrefix_def HasPrefix_def)
    then show ?thesis using fold disp True by (simp add: ParseAsset_def del: prefix_dispatch.simps)
  next
    case False
    then have "CutPrefix ?s ''raw:'' = None"
      using CutPrefix_colon [OF nc(1), of "''raw''" issuer] by (cases "CutPrefix ?s ''raw:''") auto
    then show ?thesis using fold disp False notcontract idx c i
      by (simp add: ParseAsset_def del: prefix_dispatch.simps)
  qed
qed

lemma key_parses:
  assumes "strkey_ok k" "Asset_Validate k a = None" "AssetKey a = Inr key" "\<not> raw_token a"
  shows "ParseAsset k key = Inr a"
proof (cases "Type a")
  case AssetNative
  then show ?thesis using assms(2,3)
    by (auto simp: Asset_Validate_def AssetKey_def nativeAssetKey_def ParseAsset_def EqualFold_def NativeAsset_def zeroAsset_def split: if_splits)
next
  case AssetClassic
  then have v: "validateClassicAssetCode (Code a) = None" "IsAccountID k (Issuer a)" "ContractID a = []"
    using assms(2) by (auto simp: Asset_Validate_def validateAccountID_def split: if_splits option.splits)
  have key: "key = Code a @ '':'' @ Issuer a" using assms(3) AssetClassic by (simp add: AssetKey_def)
  have "Code a \<noteq> ''raw''" using assms(4) AssetClassic by (simp add: raw_token_def)
  then show ?thesis unfolding key parse_colon [OF assms(1) v(1,2)] using AssetClassic v
    by (simp add: NewClassicAsset_def validateAccountID_def zeroAsset_def)
next
  case AssetSoroban
  then have v: "IsContractID k (ContractID a)" "Code a = []" "Issuer a = []"
    using assms(2) by (auto simp: Asset_Validate_def validateContractID_def split: if_splits)
  then show ?thesis using AssetSoroban assms(3) parse_soroban [OF assms(1) v(1)]
    by (simp add: AssetKey_def NewSorobanAsset_def validateContractID_def zeroAsset_def)
qed (use assms(3) in \<open>simp_all add: AssetKey_def\<close>)

lemma raw_key_rejected:
  assumes "strkey_ok k" "Asset_Validate k a = None" "raw_token a" "AssetKey a = Inr key"
  shows "\<exists>e. ParseAssetKey k key = Inl e"
proof -
  have v: "validateClassicAssetCode (Code a) = None" "IsAccountID k (Issuer a)"
    using assms(2,3) by (auto simp: raw_token_def Asset_Validate_def validateAccountID_def split: if_splits option.splits)
  have key: "key = Code a @ '':'' @ Issuer a" using assms(3,4) by (simp add: AssetKey_def raw_token_def)
  have "ParseAsset k key = NewOracleRawAsset (Issuer a)"
    unfolding key parse_colon [OF assms(1) v] using assms(3) by (simp add: raw_token_def)
  then show ?thesis
    by (auto simp: ParseAssetKey_def NewOracleRawAsset_def AssetKey_def split: option.splits)
qed

lemma AssetKey_inject:
  assumes "strkey_ok k" "Asset_Validate k a = None" "Asset_Validate k b = None" "AssetKey a = Inr key" "AssetKey b = Inr key"
  shows "a = b"
proof (cases "raw_token a \<longleftrightarrow> raw_token b")
  case True
  show ?thesis
  proof (cases "raw_token a")
    case raw: True
    with True assms(2-5) show ?thesis
      by (auto simp: raw_token_def AssetKey_def Asset_Validate_def split: if_splits option.splits)
  next
    case False
    then have "ParseAsset k key = Inr a" "ParseAsset k key = Inr b" using True key_parses [OF assms(1)] assms(2-5) by blast+
    then show ?thesis by simp
  qed
next
  case False
  have "\<exists>key'. ParseAssetKey k key = Inr key'" if "Asset_Validate k x = None" "AssetKey x = Inr key" "\<not> raw_token x" for x
    using key_parses [OF assms(1) that] that(2) by (simp add: ParseAssetKey_def)
  then show ?thesis using False raw_key_rejected [OF assms(1)] assms(2-5) by (metis sum.distinct(1))
qed

lemma ParseAssetKey_key:
  assumes "strkey_ok k" "Asset_Validate k a = None" "AssetKey a = Inr key"
  shows "ParseAssetKey k key = Inr key \<longleftrightarrow> \<not> raw_token a"
  using key_parses [OF assms] raw_key_rejected [OF assms(1,2) _ assms(3)] assms(3) by (auto simp: ParseAssetKey_def)

lemma ParseAssetKey_Inr: "ParseAssetKey k raw = Inr key \<longleftrightarrow> (\<exists>a. ParseAsset k raw = Inr a \<and> AssetKey a = Inr key)"
  by (auto simp: ParseAssetKey_def split: sum.splits)

lemma AssetKey_native:
  assumes "strkey_ok k" "Asset_Validate k a = None" "AssetKey a = Inr key"
  shows "key = nativeAssetKey \<longleftrightarrow> a = NativeAsset"
  using AssetKey_inject [OF assms(1,2) NativeAsset_valid assms(3)] assms(3)
  by (auto simp: AssetKey_def NativeAsset_def)

lemma validatePolicyKey_None:
  assumes "strkey_ok k"
  shows "validatePolicyKey k key = None \<longleftrightarrow>
    (\<exists>a. Asset_Validate k a = None \<and> AssetKey a = Inr key \<and> a \<noteq> NativeAsset \<and> \<not> raw_token a)"
proof
  assume "validatePolicyKey k key = None"
  then have key: "ParseAssetKey k key = Inr key" "key \<noteq> nativeAssetKey"
    by (auto simp: validatePolicyKey_def split: sum.splits if_splits)
  then obtain a where a: "ParseAsset k key = Inr a" "AssetKey a = Inr key" by (auto simp: ParseAssetKey_Inr)
  have v: "Asset_Validate k a = None" by (rule parsed_asset_valid [OF a(1)])
  show "\<exists>a. Asset_Validate k a = None \<and> AssetKey a = Inr key \<and> a \<noteq> NativeAsset \<and> \<not> raw_token a"
    using v a(2) key ParseAssetKey_key [OF assms v a(2)] AssetKey_native [OF assms v a(2)] by blast
next
  assume "\<exists>a. Asset_Validate k a = None \<and> AssetKey a = Inr key \<and> a \<noteq> NativeAsset \<and> \<not> raw_token a"
  then obtain a where a: "Asset_Validate k a = None" "AssetKey a = Inr key" "a \<noteq> NativeAsset" "\<not> raw_token a" by blast
  then show "validatePolicyKey k key = None"
    using ParseAssetKey_key [OF assms a(1,2)] AssetKey_native [OF assms a(1,2)] by (simp add: validatePolicyKey_def)
qed

text \<open>
  C35. The supply key is a faithful identity: two valid assets with one key are the same asset, and the key of
  a valid on-chain asset parses back to the asset and canonicalises to itself, unless the asset is a classic
  one with the code \<open>raw\<close>. The policy accepts a key exactly when it is the key of such an asset other than
  native XLM, that is, a key the computers look up, so no accepted entry is silently without effect.
\<close>

theorem supply_key_identity:
  assumes "strkey_ok k"
  shows "(Asset_Validate k a = None \<and> AssetKey a = Inr key \<and> \<not> raw_token a \<longrightarrow>
      ParseAsset k key = Inr a \<and> ParseAssetKey k key = Inr key) \<and>
    (Asset_Validate k a = None \<and> Asset_Validate k b = None \<and> AssetKey a = Inr key \<and> AssetKey b = Inr key \<longrightarrow> a = b) \<and>
    (validatePolicyKey k key = None \<longleftrightarrow>
      (\<exists>c. Asset_Validate k c = None \<and> AssetKey c = Inr key \<and> c \<noteq> NativeAsset \<and> \<not> raw_token c))"
  using key_parses [OF assms] ParseAssetKey_key [OF assms] AssetKey_inject [OF assms] validatePolicyKey_None [OF assms]
  by blast

theorem supply_key_identity_witness:
  "AssetKey sample_usdc = Inr (''USDC:'' @ sample_issuer) \<and>
   ParseAssetKey sample_sdk (''USDC:'' @ sample_issuer) = Inr (''USDC:'' @ sample_issuer) \<and>
   validatePolicyKey sample_sdk (''USDC:'' @ sample_issuer) = None"
proof -
  have a: "AssetKey sample_usdc = Inr (''USDC:'' @ sample_issuer)" by (simp add: AssetKey_def sample_usdc_def)
  have b: "\<not> raw_token sample_usdc" "sample_usdc \<noteq> NativeAsset" by (simp_all add: raw_token_def sample_usdc_def NativeAsset_def zeroAsset_def)
  show ?thesis
    using supply_key_identity [OF sample_sdk_ok, of sample_usdc "''USDC:'' @ sample_issuer" sample_usdc]
      sample_usdc_valid a b by blast
qed

section \<open>Re-keyed tables\<close>

lemma canonicalize_loop_Inr:
  assumes "distinct (map fst out)"
  shows "canonicalize_loop k rows out = Inr out' \<longleftrightarrow>
    (\<exists>keys. list_all2 (\<lambda>row key. ParseAssetKey k (fst row) = Inr key) rows keys \<and>
       distinct (map fst out @ keys) \<and> out' = out @ zip keys (map snd rows))"
  using assms
proof (induction rows arbitrary: out)
  case Nil
  then show ?case by auto
next
  case (Cons row rows)
  obtain raw v where row: "row = (raw, v)" by (cases row)
  have step: "canonicalize_loop k (row # rows) out = Inr out' \<longleftrightarrow>
      (\<exists>key. ParseAssetKey k raw = Inr key \<and> key \<notin> set (map fst out) \<and> canonicalize_loop k rows (out @ [(key, v)]) = Inr out')"
    by (auto simp: row returns)
  have IH: "canonicalize_loop k rows (out @ [(key, v)]) = Inr out' \<longleftrightarrow>
      (\<exists>keys. list_all2 (\<lambda>row key. ParseAssetKey k (fst row) = Inr key) rows keys \<and>
       distinct (map fst out @ key # keys) \<and> out' = out @ zip (key # keys) (map snd (row # rows)))"
    if "key \<notin> set (map fst out)" for key
    using Cons.IH [of "out @ [(key, v)]"] Cons.prems that by (simp add: row)
  show ?case unfolding step
  proof
    assume "\<exists>key. ParseAssetKey k raw = Inr key \<and> key \<notin> set (map fst out) \<and> canonicalize_loop k rows (out @ [(key, v)]) = Inr out'"
    then obtain key where key: "ParseAssetKey k raw = Inr key" "key \<notin> set (map fst out)"
      "canonicalize_loop k rows (out @ [(key, v)]) = Inr out'" by blast
    from key(3) [unfolded IH [OF key(2)]] obtain keys where
      "list_all2 (\<lambda>row key. ParseAssetKey k (fst row) = Inr key) rows keys"
      "distinct (map fst out @ key # keys)" "out' = out @ zip (key # keys) (map snd (row # rows))" by blast
    then show "\<exists>keys. list_all2 (\<lambda>row key. ParseAssetKey k (fst row) = Inr key) (row # rows) keys \<and>
       distinct (map fst out @ keys) \<and> out' = out @ zip keys (map snd (row # rows))"
      using key(1) by (intro exI [of _ "key # keys"]) (simp add: row)
  next
    assume "\<exists>keys. list_all2 (\<lambda>row key. ParseAssetKey k (fst row) = Inr key) (row # rows) keys \<and>
       distinct (map fst out @ keys) \<and> out' = out @ zip keys (map snd (row # rows))"
    then obtain key keys where ks: "ParseAssetKey k raw = Inr key" "list_all2 (\<lambda>row key. ParseAssetKey k (fst row) = Inr key) rows keys"
       "distinct (map fst out @ key # keys)" "out' = out @ zip (key # keys) (map snd (row # rows))"
      by (auto simp: row list_all2_Cons1)
    then have "key \<notin> set (map fst out)" by simp
    then show "\<exists>key. ParseAssetKey k raw = Inr key \<and> key \<notin> set (map fst out) \<and> canonicalize_loop k rows (out @ [(key, v)]) = Inr out'"
      using IH ks by blast
  qed
qed

lemma canonicalizeAssetKeys_table:
  assumes "canonicalizeAssetKeys k t = Inr out"
  shows "distinct (map fst out)" "set out = {(key, v). \<exists>raw. (raw, v) \<in> set t \<and> ParseAssetKey k raw = Inr key}"
proof -
  let ?rows = "sort_key fst t"
  obtain keys where keys: "list_all2 (\<lambda>row key. ParseAssetKey k (fst row) = Inr key) ?rows keys"
    "distinct keys" "out = zip keys (map snd ?rows)"
    using assms by (auto simp: canonicalizeAssetKeys_def canonicalize_loop_Inr)
  have len: "length ?rows = length keys" using keys(1) by (rule list_all2_lengthD)
  show "distinct (map fst out)" using keys(2,3) len by simp
  have "(key, v) \<in> set out \<longleftrightarrow> (\<exists>row \<in> set ?rows. ParseAssetKey k (fst row) = Inr key \<and> v = snd row)" for key v
  proof -
    have "(key, v) \<in> set out \<longleftrightarrow> (\<exists>i < length ?rows. key = keys ! i \<and> v = snd (?rows ! i))"
      using len by (auto simp: keys(3) set_zip)
    also have "\<dots> \<longleftrightarrow> (\<exists>i < length ?rows. ParseAssetKey k (fst (?rows ! i)) = Inr key \<and> v = snd (?rows ! i))"
      using keys(1) len by (auto simp: list_all2_conv_all_nth)
    finally show ?thesis unfolding Bex_def in_set_conv_nth by blast
  qed
  then show "set out = {(key, v). \<exists>raw. (raw, v) \<in> set t \<and> ParseAssetKey k raw = Inr key}" by force
qed

lemma CanonicalizePolicyKeys_table:
  assumes "CanonicalizePolicyKeys k t = Inr out" "(raw, v) \<in> set t"
  obtains a key where "ParseAsset k raw = Inr a" "AssetKey a = Inr key" "key \<noteq> nativeAssetKey" "map_of out key = Some v"
proof -
  have c: "canonicalizeAssetKeys k t = Inr out" "nativeAssetKey \<notin> fst ` set out"
    using assms(1) by (auto simp: CanonicalizePolicyKeys_def returns split: if_splits)
  have "\<exists>key. ParseAssetKey k raw = Inr key"
  proof -
    obtain keys where keys: "list_all2 (\<lambda>row key. ParseAssetKey k (fst row) = Inr key) (sort_key fst t) keys"
      using c(1) by (auto simp: canonicalizeAssetKeys_def canonicalize_loop_Inr)
    have "(raw, v) \<in> set (sort_key fst t)" using assms(2) by simp
    then obtain i where "i < length (sort_key fst t)" "sort_key fst t ! i = (raw, v)"
      unfolding in_set_conv_nth by blast
    then have "ParseAssetKey k (fst (raw, v)) = Inr (keys ! i)" using list_all2_nthD [OF keys] by metis
    then show ?thesis by simp
  qed
  then obtain a key where a: "ParseAsset k raw = Inr a" "AssetKey a = Inr key" "ParseAssetKey k raw = Inr key"
    by (auto simp: ParseAssetKey_Inr)
  have "(key, v) \<in> set out" using canonicalizeAssetKeys_table(2) [OF c(1)] a(3) assms(2) by auto
  moreover from this have "map_of out key = Some v" using canonicalizeAssetKeys_table(1) [OF c(1)] by simp
  ultimately show ?thesis using that a c(2) by (metis fst_conv imageI)
qed

section \<open>Accepted policies\<close>

lemma distinct_loop_Nil: "distinct_loop vs seen = [] \<longleftrightarrow> distinct vs \<and> [] \<notin> set vs \<and> set vs \<inter> set seen = {}"
  by (induction vs seen rule: distinct_loop.induct) auto

lemma validateStrkeys_Nil: "validateStrkeys valid items = [] \<longleftrightarrow> distinct items \<and> (\<forall>v \<in> set items. v \<noteq> [] \<and> valid v)"
  by (auto simp: validateStrkeys_def validateDistinctNonEmpty_def distinct_loop_Nil filter_empty_conv)

lemma Policy_Validate_locked:
  assumes "Policy_Validate k p = None"
  shows "distinct (l_Accounts (locked_of p key))" "distinct (l_Contracts (locked_of p key))"
    "\<forall>v \<in> set (l_Accounts (locked_of p key)). v \<noteq> [] \<and> IsAccountID k v"
    "\<forall>v \<in> set (l_Contracts (locked_of p key)). v \<noteq> [] \<and> IsContractID k v"
proof -
  have ok: "locked_errors k row = []" if "row \<in> set (PerAsset p)" for row
    using assms that by (auto simp: Policy_Validate_def errors_Join_def split: if_splits)
  have "validateStrkeys (IsAccountID k) (l_Accounts (locked_of p key)) = [] \<and>
      validateStrkeys (IsContractID k) (l_Contracts (locked_of p key)) = []"
  proof (cases "map_of (PerAsset p) key")
    case None
    then show ?thesis by (simp add: locked_of_def validateStrkeys_Nil)
  next
    case (Some l)
    then show ?thesis using ok [of "(key, l)"] map_of_SomeD [of "PerAsset p" key l] by (simp add: locked_of_def locked_errors_def)
  qed
  then show "distinct (l_Accounts (locked_of p key))" "distinct (l_Contracts (locked_of p key))"
    "\<forall>v \<in> set (l_Accounts (locked_of p key)). v \<noteq> [] \<and> IsAccountID k v"
    "\<forall>v \<in> set (l_Contracts (locked_of p key)). v \<noteq> [] \<and> IsContractID k v"
    by (simp_all add: validateStrkeys_Nil)
qed

lemma Policy_Validate_override:
  assumes "Policy_Validate k p = None"
  shows "\<exists>n. MaxSupplyOverride p key = Inr n"
proof (cases "map_of (MaxSupplyOverrides p) key")
  case None
  then show ?thesis by (simp add: MaxSupplyOverride_def)
next
  case (Some raw)
  then have "override_errors k p (key, raw) = []"
    using assms map_of_SomeD [OF Some] by (auto simp: Policy_Validate_def errors_Join_def split: if_splits)
  then have "raw = [] \<or> (\<exists>n. MaxSupplyOverride p key = Inr n)" by (auto simp: override_errors_def split: if_splits sum.splits)
  then show ?thesis using Some by (auto simp: MaxSupplyOverride_def)
qed

section \<open>Well-formed snapshots\<close>

text \<open>
  The type every stored and served snapshot has: total and circulating are present, circulating is neither
  negative nor above the total, a maximum is not negative, the wrapped part is at most the total, and the
  basis is named.
\<close>

definition wf_supply :: "Supply \<Rightarrow> bool" where
  "wf_supply s =
     (case (s_TotalSupply s, s_CirculatingSupply s) of
        (Some t, Some c) \<Rightarrow>
          0 \<le> c \<and> c \<le> t \<and>
          (case s_MaxSupply s of None \<Rightarrow> True | Some m \<Rightarrow> 0 \<le> m) \<and>
          (case s_SACWrappedStroops s of None \<Rightarrow> True | Some w \<Rightarrow> 0 \<le> w \<and> w \<le> t) \<and>
          s_Basis s \<noteq> BasisUnset
      | _ \<Rightarrow> False)"

lemma first_bad_None: "first_bad vs = None \<longleftrightarrow> (\<forall>v \<in> set vs. \<exists>x. v = Some x \<and> 0 \<le> x)"
  by (auto simp: first_bad_def list_all_iff split: option.splits if_splits)

lemma clamp_zero_max: "clamp_zero x = max 0 x"
  by (simp add: clamp_zero_def)

lemma MaxSupplyOverride_range: "MaxSupplyOverride p key = Inr (Some n) \<Longrightarrow> 0 \<le> n"
  by (auto simp: MaxSupplyOverride_def split: option.splits if_splits)

lemma Classic_Compute_wf:
  assumes "Classic_Compute c asset ledger now = Inr s"
  shows "wf_supply s \<and> AssetKey asset = Inr (s_AssetKey s) \<and> s_LedgerSequence s = ledger \<and> s_ObservedAt s = now"
proof -
  from assms obtain key comps ov where r: "AssetKey asset = Inr key" "validateClassicComponents comps = None"
    "MaxSupplyOverride (cl_policy c) key = Inr ov"
    and s: "s_AssetKey s = key" "s_LedgerSequence s = ledger" "s_ObservedAt s = now"
      "s_TotalSupply s = Some (the (cc_Trustline comps) + the (cc_Claimable comps) + the (cc_LPReserve comps) + the (cc_SACWrapped comps))"
      "s_CirculatingSupply s = Some (clamp_zero (the (cc_Trustline comps) + the (cc_Claimable comps) + the (cc_LPReserve comps) +
         the (cc_SACWrapped comps) - the (cc_IssuerBalance comps) - the (cc_LockedAccountBalances comps) - the (cc_LockedContractBalances comps)))"
      "s_MaxSupply s = ov" "s_SACWrappedStroops s = sacWrappedStroops comps" "s_Basis s \<noteq> BasisUnset"
    unfolding Classic_Compute_def Let_def by (auto simp: returns split: if_splits)
  from r(2) obtain a b d e f g h where "cc_Trustline comps = Some a" "cc_Claimable comps = Some b" "cc_LPReserve comps = Some d"
    "cc_SACWrapped comps = Some e" "cc_IssuerBalance comps = Some f" "cc_LockedAccountBalances comps = Some g"
    "cc_LockedContractBalances comps = Some h" "0 \<le> a" "0 \<le> b" "0 \<le> d" "0 \<le> e" "0 \<le> f" "0 \<le> g" "0 \<le> h"
    unfolding validateClassicComponents_def first_bad_None by auto
  then show ?thesis using s r(1) MaxSupplyOverride_range [of "cl_policy c" key] r(3)
    by (auto simp: wf_supply_def clamp_zero_max sacWrappedStroops_def split: option.splits)
qed

lemma SEP41_Compute_wf:
  assumes "SEP41_Compute n c asset ledger now = Inr s"
  shows "wf_supply s \<and> AssetKey asset = Inr (s_AssetKey s) \<and> s_LedgerSequence s = ledger \<and> s_ObservedAt s = now"
proof -
  from assms obtain key comps ov where r: "AssetKey asset = Inr key" "validateSEP41Components comps = None"
    "MaxSupplyOverride (sp_policy c) key = Inr ov" "0 \<le> the (sc_MintTotal comps) - the (sc_BurnTotal comps) - the (sc_ClawbackTotal comps)"
    and s: "s_AssetKey s = key" "s_LedgerSequence s = ledger" "s_ObservedAt s = now"
      "s_TotalSupply s = Some (the (sc_MintTotal comps) - the (sc_BurnTotal comps) - the (sc_ClawbackTotal comps))"
      "s_CirculatingSupply s = Some (clamp_zero (the (sc_MintTotal comps) - the (sc_BurnTotal comps) - the (sc_ClawbackTotal comps) -
         the (sc_AdminBalance comps) - the (sc_LockedAccountBalances comps) - the (sc_LockedContractBalances comps)))"
      "s_MaxSupply s = ov" "s_SACWrappedStroops s = None" "s_Basis s \<noteq> BasisUnset"
    unfolding SEP41_Compute_def Let_def by (auto simp: returns zeroSupply_def split: if_splits)
  from r(2) obtain f g h where "sc_AdminBalance comps = Some f" "sc_LockedAccountBalances comps = Some g"
    "sc_LockedContractBalances comps = Some h" "0 \<le> f" "0 \<le> g" "0 \<le> h"
    unfolding validateSEP41Components_def first_bad_None by auto
  then show ?thesis using s r(1,4) MaxSupplyOverride_range [of "sp_policy c" key] r(3)
    by (auto simp: wf_supply_def clamp_zero_max split: option.splits)
qed

text \<open>What a reserve reader promises: a total it returns is not negative.\<close>

definition reserves_nonneg :: "reserve_reader \<Rightarrow> bool" where
  "reserves_nonneg r = (\<forall>accounts ledger v source. readReserveTotal r accounts ledger = Inr (Some v, source) \<longrightarrow> 0 \<le> v)"

lemma NewXLMComputer_total:
  assumes "NewXLMComputerForNetwork passphrase accounts reader = Inr c"
  shows "0 \<le> xlm_total c" "xlm_reader c = reader" "reserveAccounts c = accounts" "accounts \<noteq> [] \<Longrightarrow> reader \<noteq> None"
  using assms by (auto simp: NewXLMComputerForNetwork_def XLMTotalSupplyStroopsForNetwork_def xlmTotalSupplyStroops_def
      xlmTestNetworkTotalSupplyStroops_def returns split: if_splits)

lemma XLM_Compute_wf:
  assumes "NewXLMComputerForNetwork passphrase accounts reader = Inr c"
    and "\<And>r. reader = Some r \<Longrightarrow> reserves_nonneg r"
  shows "\<exists>res. XLM_Compute c ledger now = Some res \<and>
    (\<forall>s. res = Inr s \<longrightarrow> wf_supply s \<and> s_AssetKey s = nativeAssetKey \<and> s_LedgerSequence s = ledger \<and> s_ObservedAt s = now)"
proof -
  note c = NewXLMComputer_total [OF assms(1)]
  obtain read where read: "reserve_read c ledger = Some read"
    using c(2-4) by (cases "accounts = []"; cases reader) (auto simp: reserve_read_def)
  have nn: "0 \<le> v" if "read = Inr (v, source)" for v source
  proof (cases "accounts = []")
    case True
    then show ?thesis using that read c(3) by (simp add: reserve_read_def)
  next
    case False
    then obtain r where "reader = Some r" using c(4) by blast
    then have "readReserveTotal r accounts ledger = Inr (Some v, source)" "reserves_nonneg r"
      using that read False c(2,3) assms(2) by (auto simp: reserve_read_def returns split: option.splits)
    then show ?thesis unfolding reserves_nonneg_def by blast
  qed
  have basis: "xlm_basis c source \<noteq> BasisUnset" for source by (simp add: xlm_basis_def)
  show ?thesis
    using c(1) nn basis by (auto simp: XLM_Compute_def read returns wf_supply_def clamp_zero_max zeroSupply_def)
qed

lemma Overlay_wf:
  assumes "wf_supply s"
  shows "wf_supply (fst (Overlay s asset resolver))"
  using assms by (auto simp: Overlay_def wf_supply_def split: option.splits sum.splits prod.splits if_splits)

lemma Overlay_max:
  assumes "fst (snd (Overlay s asset resolver))"
  shows "\<exists>m. s_MaxSupply (fst (Overlay s asset resolver)) = Some m \<and> 0 < m \<and> (\<forall>t. s_TotalSupply s = Some t \<longrightarrow> t \<le> m)"
  using assms by (auto simp: Overlay_def split: option.splits sum.splits prod.splits if_splits)



text \<open>
  C40. A classic asset with the code \<open>raw\<close> cannot be configured: the loader accepts its \<open>raw-ISSUER\<close> spelling
  and re-keys it onto the supply key, but that key parses as an oracle symbol, so the policy it loaded fails
  validation as a whole.
\<close>

theorem raw_token_policy_rejected:
  assumes "strkey_ok k" "Asset_Validate k a = None" "raw_token a"
  shows "\<exists>key. AssetKey a = Inr key \<and> CanonicalizePolicyKeys k [(Asset_String a, l)] = Inr [(key, l)] \<and>
    Policy_Validate k \<lparr>SDFReserveAccounts = accounts, PerAsset = [(key, l)], MaxSupplyOverrides = []\<rparr> \<noteq> None"
proof -
  obtain key where key: "AssetKey a = Inr key" using assms(3) by (simp add: AssetKey_def raw_token_def)
  have "ParseAssetKey k (Asset_String a) = Inr key" using asset_parse_string [OF assms(1,2)] key by (simp add: ParseAssetKey_def)
  moreover have "key \<noteq> nativeAssetKey" using AssetKey_native [OF assms(1,2) key] assms(3) by (auto simp: raw_token_def NativeAsset_def)
  moreover have "validatePolicyKey k key \<noteq> None" using raw_key_rejected [OF assms key] by (auto simp: validatePolicyKey_def)
  ultimately show ?thesis using key
    by (auto simp: CanonicalizePolicyKeys_def canonicalizeAssetKeys_def Policy_Validate_def errors_Join_def locked_errors_def error_list_def
        split: option.splits)
qed

theorem raw_token_policy_rejected_witness:
  "\<exists>key. CanonicalizePolicyKeys sample_sdk [(''raw-'' @ sample_issuer, \<lparr>l_Accounts = [], l_Contracts = []\<rparr>)] =
      Inr [(key, \<lparr>l_Accounts = [], l_Contracts = []\<rparr>)] \<and>
    Policy_Validate sample_sdk
      \<lparr>SDFReserveAccounts = [], PerAsset = [(key, \<lparr>l_Accounts = [], l_Contracts = []\<rparr>)], MaxSupplyOverrides = []\<rparr> \<noteq> None"
proof -
  let ?a = "zeroAsset\<lparr>Type := AssetClassic, Code := ''raw'', Issuer := sample_issuer\<rparr>"
  have v: "Asset_Validate sample_sdk ?a = None" by code_simp
  have r: "raw_token ?a" by (simp add: raw_token_def)
  have t: "Asset_String ?a = ''raw-'' @ sample_issuer" by (simp add: Asset_String_def)
  show ?thesis using raw_token_policy_rejected [OF sample_sdk_ok v r, of "\<lparr>l_Accounts = [], l_Contracts = []\<rparr>" "[]"] unfolding t by blast
qed

end
