(* ===== verification/SupplyReaders.thy ===== *)
theory SupplyReaders
  imports Supply
begin

text \<open>
  The readers behind the supply computers (internal/supply): the operator's dated balance map, the live account
  observations, the chain of the two, the readers over the classic and SEP-41 tables, and the computer that
  seeds a missing genesis baseline. The tables are records of functions: what a query returns, or its error.
\<close>

section \<open>config\_reader.go\<close>

record ConfigReserveBalanceReader =
  cfg_balances :: "(string \<times> int) list"
  cfg_asOf :: gotime
  cfg_maxAge :: duration

definition parse_balance :: "string \<times> string \<Rightarrow> supply_error + string \<times> int" where
  "parse_balance = (\<lambda>(acc, raw).
     if acc = [] then Inl []
     else (case SetString10 raw of
             None \<Rightarrow> Inl []
           | Some v \<Rightarrow> if v < 0 then Inl [] else Inr (acc, v)))"

definition NewConfigReserveBalanceReader :: "(string \<times> string) list \<Rightarrow> gotime \<Rightarrow> duration \<Rightarrow> supply_error + ConfigReserveBalanceReader" where
  "NewConfigReserveBalanceReader balancesStroops asOf maxAge =
     (if maxAge \<le> 0 then Inl []
      else err_bind (err_list parse_balance balancesStroops) (\<lambda>parsed.
        Inr \<lparr>cfg_balances = parsed, cfg_asOf = asOf, cfg_maxAge = maxAge\<rparr>))"

definition checkAge :: "ConfigReserveBalanceReader \<Rightarrow> gotime \<Rightarrow> supply_error option" where
  "checkAge r now =
     (if time_IsZero (cfg_asOf r) then Some [ErrStaticReserveSnapshotExpired]
      else if cfg_maxAge r < time_Sub now (cfg_asOf r) then Some [ErrStaticReserveSnapshotExpired]
      else None)"

definition configured_balance :: "ConfigReserveBalanceReader \<Rightarrow> string \<Rightarrow> supply_error + int" where
  "configured_balance r acc = (case map_of (cfg_balances r) acc of None \<Rightarrow> Inl [] | Some v \<Rightarrow> Inr v)"

definition Config_ReserveBalanceTotal :: "ConfigReserveBalanceReader \<Rightarrow> gotime \<Rightarrow> string list \<Rightarrow> supply_error + int" where
  "Config_ReserveBalanceTotal r now accounts =
     err_guard (if accounts \<noteq> [] then checkAge r now else None) (err_sum (configured_balance r) accounts 0)"

definition Config_ReserveBalanceTotalSourced :: "ConfigReserveBalanceReader \<Rightarrow> gotime \<Rightarrow> string list \<Rightarrow> supply_error + int \<times> ReserveSource" where
  "Config_ReserveBalanceTotalSourced r now accounts =
     err_bind (Config_ReserveBalanceTotal r now accounts) (\<lambda>v. Inr (v, ReserveSourceStatic))"

text \<open>The methods as the interfaces see them; the clock is read at the call.\<close>

definition config_reader :: "ConfigReserveBalanceReader \<Rightarrow> gotime \<Rightarrow> reserve_reader" where
  "config_reader r now =
     \<lparr>r_Total = (\<lambda>accounts _. err_bind (Config_ReserveBalanceTotal r now accounts) (\<lambda>v. Inr (Some v))),
      r_Sourced = Some (\<lambda>accounts _. err_bind (Config_ReserveBalanceTotalSourced r now accounts) (\<lambda>(v, src). Inr (Some v, src))),
      r_Freshness = None\<rparr>"

section \<open>lcm\_reader.go\<close>

record AccountObservationRow =
  ob_Balance :: "int option"
  ob_IsRemoval :: bool
  ob_Ledger :: "32 word"

record AccountObservationLookup =
  LatestAccountObservationAtOrBefore :: "string \<Rightarrow> 32 word \<Rightarrow> supply_error + AccountObservationRow"
  MaxAccountObservationLedger :: "32 word \<Rightarrow> supply_error + 32 word"

definition observed_balance :: "AccountObservationLookup \<Rightarrow> 32 word \<Rightarrow> string \<Rightarrow> supply_error + int" where
  "observed_balance store ledger acc =
     (case LatestAccountObservationAtOrBefore store acc ledger of
        Inl e \<Rightarrow> Inl (ErrNoObservation # e)
      | Inr row \<Rightarrow>
          if ob_IsRemoval row then Inr 0
          else (case ob_Balance row of None \<Rightarrow> Inl [ErrNoObservation] | Some b \<Rightarrow> Inr b))"

definition LCM_ReserveBalanceTotal :: "AccountObservationLookup \<Rightarrow> string list \<Rightarrow> 32 word \<Rightarrow> supply_error + int" where
  "LCM_ReserveBalanceTotal store accounts ledger = err_sum (observed_balance store ledger) accounts 0"

fun min_ledger_loop :: "AccountObservationLookup \<Rightarrow> string list \<Rightarrow> 32 word \<Rightarrow> supply_error + 32 word" where
  "min_ledger_loop store [] asOf = MaxAccountObservationLedger store asOf"
| "min_ledger_loop store (acc # accounts) asOf =
     (case LatestAccountObservationAtOrBefore store acc asOf of
        Inl e \<Rightarrow> Inl (ErrNoObservation # e)
      | Inr row \<Rightarrow> if ob_Ledger row = 0 then Inr 0 else min_ledger_loop store accounts asOf)"

definition LCM_MinReserveAccountLedger :: "AccountObservationLookup \<Rightarrow> string list \<Rightarrow> 32 word \<Rightarrow> supply_error + 32 word" where
  "LCM_MinReserveAccountLedger store accounts asOf = (if accounts = [] then Inr 0 else min_ledger_loop store accounts asOf)"

definition lcm_reader :: "AccountObservationLookup \<Rightarrow> reserve_reader" where
  "lcm_reader store =
     \<lparr>r_Total = (\<lambda>accounts ledger. err_bind (LCM_ReserveBalanceTotal store accounts ledger) (\<lambda>v. Inr (Some v))),
      r_Sourced = None,
      r_Freshness = Some (LCM_MinReserveAccountLedger store)\<rparr>"

section \<open>chained\_reserve\_reader.go\<close>

definition Chained_ReserveBalanceTotalSourced ::
  "reserve_reader \<Rightarrow> reserve_reader \<Rightarrow> string list \<Rightarrow> 32 word \<Rightarrow> supply_error + int option \<times> ReserveSource" where
  "Chained_ReserveBalanceTotalSourced live static accounts ledger =
     (case r_Total live accounts ledger of
        Inr v \<Rightarrow> Inr (v, ReserveSourceLive)
      | Inl e \<Rightarrow>
          if ErrNoObservation \<notin> set e then Inl e
          else err_bind (r_Total static accounts ledger) (\<lambda>v. Inr (v, ReserveSourceStatic)))"

definition Chained_ReserveBalanceTotal :: "reserve_reader \<Rightarrow> reserve_reader \<Rightarrow> string list \<Rightarrow> 32 word \<Rightarrow> supply_error + int option" where
  "Chained_ReserveBalanceTotal live static accounts ledger =
     err_bind (Chained_ReserveBalanceTotalSourced live static accounts ledger) (\<lambda>(v, _). Inr v)"

definition Chained_MinReserveAccountLedger :: "reserve_reader \<Rightarrow> string list \<Rightarrow> 32 word \<Rightarrow> supply_error + 32 word" where
  "Chained_MinReserveAccountLedger live accounts ledger =
     (case r_Freshness live of
        None \<Rightarrow> Inr 0
      | Some fresh \<Rightarrow>
          (case fresh accounts ledger of
             Inl e \<Rightarrow> if ErrNoObservation \<in> set e then Inr 0 else Inl e
           | Inr got \<Rightarrow> Inr got))"

definition chained_reader :: "reserve_reader \<Rightarrow> reserve_reader \<Rightarrow> reserve_reader" where
  "chained_reader live static =
     \<lparr>r_Total = Chained_ReserveBalanceTotal live static,
      r_Sourced = Some (Chained_ReserveBalanceTotalSourced live static),
      r_Freshness = Some (Chained_MinReserveAccountLedger live)\<rparr>"

section \<open>storage\_classic\_reader.go\<close>

record ClassicSupplyStore =
  SumTrustlineBalances :: "string \<Rightarrow> 32 word \<Rightarrow> supply_error + int"
  SumClaimableBalances :: "string \<Rightarrow> 32 word \<Rightarrow> supply_error + int"
  SumLPReserves :: "string \<Rightarrow> 32 word \<Rightarrow> supply_error + int"
  SumSACBalances :: "string \<Rightarrow> 32 word \<Rightarrow> supply_error + int"
  SACBalanceObservationsExist :: "string \<Rightarrow> 32 word \<Rightarrow> supply_error + bool"
  TrustlineBalanceForAccount :: "string \<Rightarrow> string \<Rightarrow> 32 word \<Rightarrow> supply_error + int"
  SACBalanceForContract :: "string \<Rightarrow> string \<Rightarrow> 32 word \<Rightarrow> supply_error + int"
  MinClassicComponentLedger :: "string \<Rightarrow> 32 word \<Rightarrow> supply_error + 32 word"

definition sumPerAccountTrustlines :: "ClassicSupplyStore \<Rightarrow> string list \<Rightarrow> string \<Rightarrow> 32 word \<Rightarrow> supply_error + int" where
  "sumPerAccountTrustlines store accounts key ledger =
     err_sum (\<lambda>acc. if acc = [] then Inl [] else TrustlineBalanceForAccount store acc key ledger) accounts 0"

definition sumPerContractSAC :: "ClassicSupplyStore \<Rightarrow> string list \<Rightarrow> string \<Rightarrow> 32 word \<Rightarrow> supply_error + int" where
  "sumPerContractSAC store contracts key ledger =
     err_sum (\<lambda>c. if c = [] then Inl [] else SACBalanceForContract store c key ledger) contracts 0"

definition Storage_ClassicSupplyAt :: "ClassicSupplyStore \<Rightarrow> classic_reader" where
  "Storage_ClassicSupplyAt store asset locked ledger =
     (if Type asset \<noteq> AssetClassic then Inl [ErrNotClassic]
      else
       err_bind (AssetKey asset) (\<lambda>key.
       err_bind (SumTrustlineBalances store key ledger) (\<lambda>trustline.
       err_bind (SumClaimableBalances store key ledger) (\<lambda>claimable.
       err_bind (SumLPReserves store key ledger) (\<lambda>lpReserve.
       err_bind (SumSACBalances store key ledger) (\<lambda>sacWrapped.
       err_bind (SACBalanceObservationsExist store key ledger) (\<lambda>sacObserved.
       err_bind (TrustlineBalanceForAccount store (Issuer asset) key ledger) (\<lambda>issuerBalance.
       err_bind (sumPerAccountTrustlines store (l_Accounts locked) key ledger) (\<lambda>lockedAccounts.
       err_bind (sumPerContractSAC store (l_Contracts locked) key ledger) (\<lambda>lockedContracts.
       let minLedger = (case MinClassicComponentLedger store key ledger of Inl _ \<Rightarrow> 0 | Inr l \<Rightarrow> l) in
       Inr \<lparr>cc_Trustline = Some trustline, cc_Claimable = Some claimable, cc_LPReserve = Some lpReserve,
         cc_SACWrapped = Some sacWrapped, cc_SACObserved = sacObserved, cc_IssuerBalance = Some issuerBalance,
         cc_LockedAccountBalances = Some lockedAccounts, cc_LockedContractBalances = Some lockedContracts,
         cc_MinComponentLedger = minLedger\<rparr>))))))))))"

definition AssetBoundClassic_Compute :: "ClassicComputer \<Rightarrow> Asset \<Rightarrow> 32 word \<Rightarrow> gotime \<Rightarrow> supply_error + Supply" where
  "AssetBoundClassic_Compute inner asset ledger observedAt = Classic_Compute inner asset ledger observedAt"

section \<open>storage\_sep41\_reader.go\<close>

record SEP41KindTotals =
  kt_Mint :: "int option"
  kt_Burn :: "int option"
  kt_Clawback :: "int option"

record SEP41SupplyStore =
  SEP41KindTotalsAtOrBefore :: "string \<Rightarrow> 32 word \<Rightarrow> supply_error + SEP41KindTotals"
  sep41_SACBalance :: "string \<Rightarrow> string \<Rightarrow> 32 word \<Rightarrow> supply_error + int"
  sep41_TrustlineBalance :: "string \<Rightarrow> string \<Rightarrow> 32 word \<Rightarrow> supply_error + int"
  MinSEP41ComponentLedger :: "string \<Rightarrow> 32 word \<Rightarrow> supply_error + 32 word"
  SEP41GenesisBaselineSeeded :: "string \<Rightarrow> supply_error + bool"

definition holderBalance ::
  "sdk \<Rightarrow> SEP41SupplyStore \<Rightarrow> (string \<times> string) list \<Rightarrow> string \<Rightarrow> 32 word \<Rightarrow> string \<Rightarrow> supply_error + int" where
  "holderBalance k store sacClassicKeys contractID ledger holder =
     (case map_of sacClassicKeys contractID of
        None \<Rightarrow> sep41_SACBalance store holder contractID ledger
      | Some classicKey \<Rightarrow>
          if IsAccountID k holder then sep41_TrustlineBalance store holder classicKey ledger
          else sep41_SACBalance store holder classicKey ledger)"

definition sumPerHolder ::
  "sdk \<Rightarrow> SEP41SupplyStore \<Rightarrow> (string \<times> string) list \<Rightarrow> string list \<Rightarrow> string \<Rightarrow> 32 word \<Rightarrow> supply_error + int" where
  "sumPerHolder k store sacClassicKeys holders contractID ledger =
     err_sum (\<lambda>h. if h = [] then Inl [] else holderBalance k store sacClassicKeys contractID ledger h) holders 0"

definition Storage_SEP41SupplyAt :: "sdk \<Rightarrow> SEP41SupplyStore \<Rightarrow> (string \<times> string) list \<Rightarrow> sep41_reader" where
  "Storage_SEP41SupplyAt k store sacClassicKeys asset locked ledger =
     (if Type asset \<noteq> AssetSoroban then Inl [ErrNotSoroban]
      else if ContractID asset = [] then Inl []
      else
       let contractID = ContractID asset in
       err_bind (SEP41KindTotalsAtOrBefore store contractID ledger) (\<lambda>totals.
       err_bind (sumPerHolder k store sacClassicKeys (l_Accounts locked) contractID ledger) (\<lambda>lockedAccounts.
       err_bind (sumPerHolder k store sacClassicKeys (l_Contracts locked) contractID ledger) (\<lambda>lockedContracts.
       let minLedger = (case MinSEP41ComponentLedger store contractID ledger of Inl _ \<Rightarrow> 0 | Inr l \<Rightarrow> l);
           genesisSeeded = (case SEP41GenesisBaselineSeeded store contractID of Inl _ \<Rightarrow> False | Inr b \<Rightarrow> b) in
       Inr \<lparr>sc_MintTotal = kt_Mint totals, sc_BurnTotal = kt_Burn totals, sc_ClawbackTotal = kt_Clawback totals,
         sc_AdminBalance = Some 0, sc_LockedAccountBalances = Some lockedAccounts,
         sc_LockedContractBalances = Some lockedContracts, sc_MinComponentLedger = minLedger,
         sc_GenesisBaselineSeeded = genesisSeeded\<rparr>))))"

definition AssetBoundSEP41_Compute :: "network \<Rightarrow> SEP41Computer \<Rightarrow> Asset \<Rightarrow> 32 word \<Rightarrow> gotime \<Rightarrow> supply_error + Supply" where
  "AssetBoundSEP41_Compute n inner asset ledger observedAt = SEP41_Compute n inner asset ledger observedAt"

section \<open>genesis\_autoseed.go\<close>

text \<open>
  The seeding computer. The inner computer reads a store that the seeder writes, so both take the state of the
  store; \<open>lastFailure\<close> is the zero time until a seed has failed. The two clock reads are arguments.
\<close>

record 's GenesisSeedingComputer =
  gs_inner :: "'s \<Rightarrow> 32 word \<Rightarrow> gotime \<Rightarrow> supply_error + Supply"
  gs_seed :: "'s \<Rightarrow> 's \<times> supply_error option"
  gs_retryAfter :: duration

definition mayAttempt :: "'s GenesisSeedingComputer \<Rightarrow> gotime \<Rightarrow> gotime \<Rightarrow> bool" where
  "mayAttempt g lastFailure now = (time_IsZero lastFailure \<or> gs_retryAfter g \<le> time_Sub now lastFailure)"

definition needs_baseline :: "supply_error + Supply \<Rightarrow> bool" where
  "needs_baseline r =
     (case r of
        Inl e \<Rightarrow> ErrGenesisBaselineNotSeeded \<in> set e \<or> ErrNegativeTotalMissingBaseline \<in> set e
      | Inr _ \<Rightarrow> False)"

definition Genesis_Compute ::
  "'s GenesisSeedingComputer \<Rightarrow> gotime \<Rightarrow> gotime \<Rightarrow> 's \<times> gotime \<Rightarrow> 32 word \<Rightarrow> gotime \<Rightarrow> ('s \<times> gotime) \<times> (supply_error + Supply)" where
  "Genesis_Compute g now now' = (\<lambda>(st, lastFailure) ledger observedAt.
     let r = gs_inner g st ledger observedAt in
     if \<not> needs_baseline r then ((st, lastFailure), r)
     else if \<not> mayAttempt g lastFailure now then ((st, lastFailure), r)
     else (case gs_seed g st of
             (st', Some _) \<Rightarrow> ((st', now'), r)
           | (st', None) \<Rightarrow> ((st', lastFailure), gs_inner g st' ledger observedAt)))"

section \<open>Classic supply against the holdings of the ledger\<close>

text \<open>
  The specification: who holds the asset at a ledger. Claimable balances and pool reserves are held by no
  account.
\<close>

record holdings =
  h_trustlines :: "string \<rightharpoonup> int"
  h_claimable :: int
  h_pools :: int
  h_contracts :: "string \<rightharpoonup> int"

definition balance_of :: "(string \<rightharpoonup> int) \<Rightarrow> string \<Rightarrow> int" where
  "balance_of m a = (case m a of None \<Rightarrow> 0 | Some b \<Rightarrow> b)"

definition held_by :: "(string \<rightharpoonup> int) \<Rightarrow> string set \<Rightarrow> int" where
  "held_by m A = (\<Sum>a \<in> A. balance_of m a)"

definition all_held :: "holdings \<Rightarrow> int" where
  "all_held h = held_by (h_trustlines h) (dom (h_trustlines h)) + h_claimable h + h_pools h +
     held_by (h_contracts h) (dom (h_contracts h))"

text \<open>What is held outside a set of accounts and a set of contracts.\<close>

definition held_outside :: "holdings \<Rightarrow> string set \<Rightarrow> string set \<Rightarrow> int" where
  "held_outside h A C = held_by (h_trustlines h) (dom (h_trustlines h) - A) + h_claimable h + h_pools h +
     held_by (h_contracts h) (dom (h_contracts h) - C)"

text \<open>
  The tables answer for the holdings: the sums are removal-aware sums over the holders, and a lookup of one
  holder reads the same rows, zero when there is none.
\<close>

definition answers_for :: "ClassicSupplyStore \<Rightarrow> string \<Rightarrow> 32 word \<Rightarrow> holdings \<Rightarrow> bool" where
  "answers_for store key ledger h =
     (finite (dom (h_trustlines h)) \<and> finite (dom (h_contracts h)) \<and>
      (\<forall>a. 0 \<le> balance_of (h_trustlines h) a) \<and> (\<forall>c. 0 \<le> balance_of (h_contracts h) c) \<and>
      0 \<le> h_claimable h \<and> 0 \<le> h_pools h \<and>
      SumTrustlineBalances store key ledger = Inr (held_by (h_trustlines h) (dom (h_trustlines h))) \<and>
      SumClaimableBalances store key ledger = Inr (h_claimable h) \<and>
      SumLPReserves store key ledger = Inr (h_pools h) \<and>
      SumSACBalances store key ledger = Inr (held_by (h_contracts h) (dom (h_contracts h))) \<and>
      SACBalanceObservationsExist store key ledger = Inr (dom (h_contracts h) \<noteq> {}) \<and>
      (\<forall>a. TrustlineBalanceForAccount store a key ledger = Inr (balance_of (h_trustlines h) a)) \<and>
      (\<forall>c. SACBalanceForContract store c key ledger = Inr (balance_of (h_contracts h) c)))"

lemma err_sum_set:
  assumes "distinct xs" "\<And>x. x \<in> set xs \<Longrightarrow> f x = Inr (g x)"
  shows "err_sum f xs 0 = Inr (\<Sum>x \<in> set xs. g x)"
proof -
  have "err_list f xs = Inr (map g xs)" using assms(2) by (simp add: err_list_total)
  then show ?thesis using assms(1) by (simp add: err_sum_list sum_list_distinct_conv_sum_set)
qed

lemma held_by_nonneg: "(\<And>a. 0 \<le> balance_of m a) \<Longrightarrow> 0 \<le> held_by m A"
  by (simp add: held_by_def sum_nonneg)

lemma held_by_outside:
  assumes "finite (dom m)" "finite A"
  shows "held_by m (dom m - A) = held_by m (dom m) - held_by m A"
proof -
  have "held_by m A = held_by m (A \<inter> dom m)"
    unfolding held_by_def using assms(2) by (intro sum.mono_neutral_right) (auto simp: balance_of_def split: option.splits)
  moreover have "held_by m (dom m) = held_by m (dom m - A) + held_by m (A \<inter> dom m)"
    unfolding held_by_def using assms(1) by (subst sum.union_disjoint [symmetric]) (auto intro: sum.cong)
  ultimately show ?thesis by simp
qed

lemma Storage_ClassicSupplyAt_view:
  assumes "answers_for store key ledger h" "Type asset = AssetClassic" "AssetKey asset = Inr key"
    "distinct (l_Accounts l)" "distinct (l_Contracts l)" "[] \<notin> set (l_Accounts l)" "[] \<notin> set (l_Contracts l)"
  shows "\<exists>m. Storage_ClassicSupplyAt store asset l ledger = Inr
    \<lparr>cc_Trustline = Some (held_by (h_trustlines h) (dom (h_trustlines h))), cc_Claimable = Some (h_claimable h),
     cc_LPReserve = Some (h_pools h), cc_SACWrapped = Some (held_by (h_contracts h) (dom (h_contracts h))),
     cc_SACObserved = (dom (h_contracts h) \<noteq> {}), cc_IssuerBalance = Some (balance_of (h_trustlines h) (Issuer asset)),
     cc_LockedAccountBalances = Some (held_by (h_trustlines h) (set (l_Accounts l))),
     cc_LockedContractBalances = Some (held_by (h_contracts h) (set (l_Contracts l))), cc_MinComponentLedger = m\<rparr>"
proof -
  have "sumPerAccountTrustlines store (l_Accounts l) key ledger = Inr (held_by (h_trustlines h) (set (l_Accounts l)))"
    unfolding sumPerAccountTrustlines_def held_by_def using assms(1,4,6) by (intro err_sum_set) (auto simp: answers_for_def)
  moreover have "sumPerContractSAC store (l_Contracts l) key ledger = Inr (held_by (h_contracts h) (set (l_Contracts l)))"
    unfolding sumPerContractSAC_def held_by_def using assms(1,5,7) by (intro err_sum_set) (auto simp: answers_for_def)
  ultimately show ?thesis using assms(1-3) by (simp add: Storage_ClassicSupplyAt_def answers_for_def Let_def)
qed


definition sample_holder :: string where
  "sample_holder = CHR ''G'' # replicate 55 (CHR ''B'')"

definition sample_policy :: Policy where
  "sample_policy = \<lparr>SDFReserveAccounts = [],
     PerAsset = [(''USDC:'' @ sample_issuer, \<lparr>l_Accounts = [sample_holder], l_Contracts = []\<rparr>)], MaxSupplyOverrides = []\<rparr>"

definition sample_holdings :: holdings where
  "sample_holdings = \<lparr>h_trustlines = [sample_holder \<mapsto> 5, ''GB'' \<mapsto> 7], h_claimable = 1, h_pools = 2, h_contracts = [''CC'' \<mapsto> 3]\<rparr>"

definition sample_store :: ClassicSupplyStore where
  "sample_store =
     \<lparr>SumTrustlineBalances = (\<lambda>_ _. Inr 12), SumClaimableBalances = (\<lambda>_ _. Inr 1), SumLPReserves = (\<lambda>_ _. Inr 2),
      SumSACBalances = (\<lambda>_ _. Inr 3), SACBalanceObservationsExist = (\<lambda>_ _. Inr True),
      TrustlineBalanceForAccount = (\<lambda>a _ _. Inr (balance_of (h_trustlines sample_holdings) a)),
      SACBalanceForContract = (\<lambda>c _ _. Inr (balance_of (h_contracts sample_holdings) c)),
      MinClassicComponentLedger = (\<lambda>_ l. Inr l)\<rparr>"


section \<open>Native reserves through the chain of readers\<close>

lemma observed_balance_error: "observed_balance store ledger a = Inl e \<Longrightarrow> ErrNoObservation \<in> set e"
  by (auto simp: observed_balance_def split: sum.splits if_splits option.splits)

lemma LCM_total:
  "LCM_ReserveBalanceTotal store accounts ledger = err_bind (err_list (observed_balance store ledger) accounts) (\<lambda>bs. Inr (sum_list bs))"
  by (simp add: LCM_ReserveBalanceTotal_def err_sum_list)

lemma chained_lcm_config:
  "readReserveTotal (chained_reader (lcm_reader store) (config_reader cfg clock)) accounts ledger =
     (case err_list (observed_balance store ledger) accounts of
        Inr bs \<Rightarrow> Inr (Some (sum_list bs), ReserveSourceLive)
      | Inl _ \<Rightarrow> err_bind (Config_ReserveBalanceTotal cfg clock accounts) (\<lambda>v. Inr (Some v, ReserveSourceStatic)))"
proof (cases "err_list (observed_balance store ledger) accounts")
  case (Inl e)
  have "ErrNoObservation \<in> set e" using err_list_Inl [OF Inl] observed_balance_error by blast
  then show ?thesis using Inl
    by (cases "Config_ReserveBalanceTotal cfg clock accounts")
      (simp_all add: readReserveTotal_def chained_reader_def Chained_ReserveBalanceTotalSourced_def lcm_reader_def config_reader_def LCM_total)
next
  case (Inr bs)
  then show ?thesis
    by (simp add: readReserveTotal_def chained_reader_def Chained_ReserveBalanceTotalSourced_def lcm_reader_def LCM_total)
qed

lemma Config_total:
  "accounts \<noteq> [] \<Longrightarrow> Config_ReserveBalanceTotal cfg clock accounts =
     err_guard (checkAge cfg clock) (err_bind (err_list (configured_balance cfg) accounts) (\<lambda>bs. Inr (sum_list bs)))"
  by (simp add: Config_ReserveBalanceTotal_def err_sum_list)

lemma checkAge_error: "checkAge cfg clock = Some e \<Longrightarrow> e = [ErrStaticReserveSnapshotExpired]"
  by (simp add: checkAge_def split: if_splits)

lemma configured_balance_error: "configured_balance cfg a = Inl e \<Longrightarrow> e = []"
  by (simp add: configured_balance_def split: option.splits)

text \<open>An account the live reader cannot answer for.\<close>

definition unobserved :: "AccountObservationLookup \<Rightarrow> 32 word \<Rightarrow> string \<Rightarrow> bool" where
  "unobserved store ledger a = (case observed_balance store ledger a of Inl _ \<Rightarrow> True | Inr _ \<Rightarrow> False)"

lemma err_list_unobserved: "err_list (observed_balance store ledger) accounts = Inl e \<Longrightarrow> \<exists>a \<in> set accounts. unobserved store ledger a"
  by (drule err_list_Inl) (force simp: unobserved_def)

text \<open>
  Native supply is computed from one source of reserve balances. With the live observations over the dated
  operator map, a published figure subtracts either the observed balances of all reserve accounts, or, when
  some account is unobserved, the configured balances of all of them from a map that is not out of date, and
  then says so in its basis and carries no freshness anchor. When neither can answer the result is an error,
  and never the one that reads as a missing observation.
\<close>

theorem xlm_reserves_one_source:
  assumes "NewXLMComputerForNetwork passphrase accounts (Some (chained_reader (lcm_reader store) (config_reader cfg clock))) = Inr c"
    "accounts \<noteq> []"
  shows "\<exists>res. XLM_Compute c ledger now = Some res \<and>
    (\<forall>s. res = Inr s \<longrightarrow>
      (\<exists>bs. list_all2 (\<lambda>a b. observed_balance store ledger a = Inr b) accounts bs \<and>
         s_Basis s = BasisXLMSDFReserveExclusion \<and> s_CirculatingSupply s = Some (max 0 (xlm_total c - sum_list bs))) \<or>
      (\<exists>bs. list_all2 (\<lambda>a b. map_of (cfg_balances cfg) a = Some b) accounts bs \<and> list_ex (unobserved store ledger) accounts \<and>
         checkAge cfg clock = None \<and> s_MinComponentLedger s = 0 \<and>
         s_Basis s = BasisXLMSDFReserveExclusionStatic \<and> s_CirculatingSupply s = Some (max 0 (xlm_total c - sum_list bs)))) \<and>
    (\<forall>e. res = Inl e \<longrightarrow> ErrNoObservation \<notin> set e \<and> list_ex (unobserved store ledger) accounts \<and>
      (checkAge cfg clock \<noteq> None \<or> list_ex (\<lambda>a. map_of (cfg_balances cfg) a = None) accounts))"
proof -
  let ?r = "chained_reader (lcm_reader store) (config_reader cfg clock)"
  have c: "xlm_reader c = Some ?r" "reserveAccounts c = accounts" using NewXLMComputer_total [OF assms(1)] by simp_all
  have read: "reserve_read c ledger = Some (err_bind (readReserveTotal ?r accounts ledger) (\<lambda>(v, source).
      case v of None \<Rightarrow> Inl [] | Some reserved \<Rightarrow> Inr (reserved, source)))"
    using assms(2) c by (simp add: reserve_read_def)
  show ?thesis
  proof (cases "err_list (observed_balance store ledger) accounts")
    case (Inr bs)
    then have "list_all2 (\<lambda>a b. observed_balance store ledger a = Inr b) accounts bs" by (simp add: returns)
    then show ?thesis using assms(2) c(2)
      by (auto simp: XLM_Compute_def read chained_lcm_config Inr xlm_basis_def clamp_zero_max)
  next
    case un: (Inl e)
    have u: "list_ex (unobserved store ledger) accounts" using err_list_unobserved [OF un] by (simp add: list_ex_iff)
    show ?thesis
    proof (cases "Config_ReserveBalanceTotal cfg clock accounts")
      case (Inl e')
      then have "checkAge cfg clock = Some e' \<or> (\<exists>a \<in> set accounts. configured_balance cfg a = Inl e')"
        unfolding Config_total [OF assms(2)] by (auto simp: returns dest: err_list_Inl)
      then have "ErrNoObservation \<notin> set e' \<and> (checkAge cfg clock \<noteq> None \<or> list_ex (\<lambda>a. map_of (cfg_balances cfg) a = None) accounts)"
        using checkAge_error [of cfg clock e'] configured_balance_error [of cfg _ e']
        by (auto simp: list_ex_iff configured_balance_def split: option.splits)
      then show ?thesis using u by (simp add: XLM_Compute_def read chained_lcm_config un Inl)
    next
      case (Inr v)
      then obtain bs where bs: "checkAge cfg clock = None" "v = sum_list bs" "list_all2 (\<lambda>a b. configured_balance cfg a = Inr b) accounts bs"
        unfolding Config_total [OF assms(2)] by (auto simp: returns)
      have "list_all2 (\<lambda>a b. map_of (cfg_balances cfg) a = Some b) accounts bs"
        using bs(3) by (rule list_all2_mono) (simp add: configured_balance_def split: option.splits)
      moreover have "xlm_min_ledger c ledger ReserveSourceStatic = 0" by (simp add: xlm_min_ledger_def split: option.splits)
      ultimately show ?thesis using u bs(1,2) assms(2) c(2)
        by (auto simp: XLM_Compute_def read chained_lcm_config un Inr xlm_basis_def clamp_zero_max)
    qed
  qed
qed

definition sample_observations :: AccountObservationLookup where
  "sample_observations =
     \<lparr>LatestAccountObservationAtOrBefore = (\<lambda>a l. if a = ''GA'' then Inr \<lparr>ob_Balance = Some 5, ob_IsRemoval = False, ob_Ledger = 3\<rparr> else Inl []),
      MaxAccountObservationLedger = (\<lambda>l. Inr l)\<rparr>"

definition sample_config :: ConfigReserveBalanceReader where
  "sample_config = \<lparr>cfg_balances = [(''GA'', 6), (''GB'', 7)], cfg_asOf = 1, cfg_maxAge = 10\<rparr>"

text \<open>One of the two accounts is unobserved, so both balances come from the map.\<close>

theorem xlm_reserves_one_source_witness:
  "\<exists>c s. NewXLMComputerForNetwork PubnetPassphrase [''GA'', ''GB'']
        (Some (chained_reader (lcm_reader sample_observations) (config_reader sample_config 4))) = Inr c \<and>
     XLM_Compute c 9 0 = Some (Inr s) \<and> s_Basis s = BasisXLMSDFReserveExclusionStatic \<and>
     s_CirculatingSupply s = Some (500018068120000000 - 13) \<and> s_MinComponentLedger s = 0"
proof -
  let ?r = "Some (chained_reader (lcm_reader sample_observations) (config_reader sample_config 4))"
  let ?c = "\<lparr>reserveAccounts = [''GA'', ''GB''], xlm_reader = ?r, xlm_total = 500018068120000000\<rparr>"
  have new: "NewXLMComputerForNetwork PubnetPassphrase [''GA'', ''GB''] ?r = Inr ?c"
    by (simp add: NewXLMComputerForNetwork_def XLMTotalSupplyStroopsForNetwork_def xlmTotalSupplyStroops_def)
  have obs: "observed_balance sample_observations 9 ''GB'' = Inl [ErrNoObservation]"
    by (simp add: observed_balance_def sample_observations_def)
  have cfg: "map_of (cfg_balances sample_config) ''GA'' = Some 6" "map_of (cfg_balances sample_config) ''GB'' = Some 7"
    "checkAge sample_config 4 = None"
    by (simp_all add: sample_config_def checkAge_def time_IsZero_def time_Sub_def min_int64_def max_int64_def)
  obtain res where res: "XLM_Compute ?c 9 0 = Some res" and
    ok: "\<And>s. res = Inr s \<Longrightarrow> (\<exists>bs. list_all2 (\<lambda>a b. observed_balance sample_observations 9 a = Inr b) [''GA'', ''GB''] bs \<and>
         s_Basis s = BasisXLMSDFReserveExclusion \<and> s_CirculatingSupply s = Some (max 0 (xlm_total ?c - sum_list bs))) \<or>
      (\<exists>bs. list_all2 (\<lambda>a b. map_of (cfg_balances sample_config) a = Some b) [''GA'', ''GB''] bs \<and> s_MinComponentLedger s = 0 \<and>
         s_Basis s = BasisXLMSDFReserveExclusionStatic \<and> s_CirculatingSupply s = Some (max 0 (xlm_total ?c - sum_list bs)))"
    and err: "\<And>e. res = Inl e \<Longrightarrow> checkAge sample_config 4 \<noteq> None \<or> list_ex (\<lambda>a. map_of (cfg_balances sample_config) a = None) [''GA'', ''GB'']"
    using xlm_reserves_one_source [OF new, of 9 0] by blast
  obtain s where s: "res = Inr s" using err cfg by (cases res) auto
  have "s_MinComponentLedger s = 0 \<and> s_Basis s = BasisXLMSDFReserveExclusionStatic \<and> s_CirculatingSupply s = Some (500018068120000000 - 13)"
    using ok [OF s] obs cfg by (auto simp: list_all2_Cons1)
  then show ?thesis using new res s by blast
qed

end
