(* ===== verification/SupplyRefresh.thy ===== *)
theory SupplyRefresh
  imports SupplyReaders
begin

text \<open>
  The supply refresher with its freshness gates and the cross-check of a classic asset against its contract
  (internal/supply refresher.go, crosscheck.go, crosscheck\_refresher.go). The database a refresher writes to
  is a state with an insert operation; metrics are the sequence of calls on the emitter.
\<close>

section \<open>refresher.go\<close>

datatype OutcomeKind = OutcomeOK | OutcomeNoLedger | OutcomeNoObservation | OutcomeComputeError | OutcomeStaleComponent
  | OutcomeMissingFreshness | OutcomeMissingBaseline | OutcomeDormant | OutcomeWriteError | OutcomeStaticReserve

datatype band = BandInside | BandUp | BandDown

record Outcome =
  o_Kind :: OutcomeKind
  o_Snapshot :: Supply
  o_Err :: "supply_error option"
  o_BandBreach :: band

definition DefaultStaleComponentLedgers :: "32 word" where
  "DefaultStaleComponentLedgers = 1000"

definition DefaultMaxDormantComponentLedgers :: "32 word" where
  "DefaultMaxDormantComponentLedgers = 17280"

definition WriteBandFactor :: int where
  "WriteBandFactor = 10"

text \<open>The configuration of a refresher, and what it remembers between ticks.\<close>

record Refresher =
  staleComponentLedger :: "32 word"
  staleComponentByAsset :: "(string \<times> 32 word) list"
  strictFreshnessRequired :: bool
  maxDormantComponentLedger :: "32 word"

record memory =
  lastComponentLedger :: "string \<rightharpoonup> 32 word"
  lastWrittenTotal :: "string \<rightharpoonup> int"

definition WithStaleComponentLedgers :: "32 word \<Rightarrow> Refresher \<Rightarrow> Refresher" where
  "WithStaleComponentLedgers maxLag r = r\<lparr>staleComponentLedger := maxLag\<rparr>"

definition WithStaleComponentLedgersFor :: "string \<Rightarrow> 32 word \<Rightarrow> Refresher \<Rightarrow> Refresher" where
  "WithStaleComponentLedgersFor key maxLag r =
     r\<lparr>staleComponentByAsset := (key, maxLag) # filter (\<lambda>(k, _). k \<noteq> key) (staleComponentByAsset r)\<rparr>"

definition WithMaxDormantComponentLedgers :: "32 word \<Rightarrow> Refresher \<Rightarrow> Refresher" where
  "WithMaxDormantComponentLedgers maxDormant r = r\<lparr>maxDormantComponentLedger := maxDormant\<rparr>"

definition WithStrictFreshnessRequired :: "bool \<Rightarrow> Refresher \<Rightarrow> Refresher" where
  "WithStrictFreshnessRequired strict r = r\<lparr>strictFreshnessRequired := strict\<rparr>"

definition NewRefresher :: "(Refresher \<Rightarrow> Refresher) list \<Rightarrow> Refresher \<times> memory" where
  "NewRefresher opts =
     (fold (\<lambda>opt r. opt r) opts
        \<lparr>staleComponentLedger = DefaultStaleComponentLedgers, staleComponentByAsset = [], strictFreshnessRequired = False,
         maxDormantComponentLedger = DefaultMaxDormantComponentLedgers\<rparr>,
      \<lparr>lastComponentLedger = Map.empty, lastWrittenTotal = Map.empty\<rparr>)"

definition checkWriteBand :: "Supply \<Rightarrow> memory \<Rightarrow> band \<times> memory" where
  "checkWriteBand snap m =
     (case s_TotalSupply snap of
        None \<Rightarrow> (BandInside, m)
      | Some t \<Rightarrow>
          let prev = lastWrittenTotal m (s_AssetKey snap);
              m = m\<lparr>lastWrittenTotal := (lastWrittenTotal m)(s_AssetKey snap \<mapsto> t)\<rparr> in
          (case prev of
             None \<Rightarrow> (BandInside, m)
           | Some p \<Rightarrow>
               if p \<le> 0 then (BandInside, m)
               else if p * WriteBandFactor < t then (BandUp, m)
               else if t * WriteBandFactor < p then (BandDown, m)
               else (BandInside, m)))"

type_synonym 'db inserter = "Supply \<Rightarrow> 'db \<Rightarrow> 'db \<times> supply_error option"

definition threshold_of :: "Refresher \<Rightarrow> string \<Rightarrow> 32 word" where
  "threshold_of r key = (case map_of (staleComponentByAsset r) key of Some t \<Rightarrow> t | None \<Rightarrow> staleComponentLedger r)"

definition failed :: "OutcomeKind \<Rightarrow> supply_error \<Rightarrow> Supply \<Rightarrow> Outcome" where
  "failed kind e snap = \<lparr>o_Kind = kind, o_Snapshot = snap, o_Err = Some e, o_BandBreach = BandInside\<rparr>"

definition written :: "OutcomeKind \<Rightarrow> Supply \<Rightarrow> band \<Rightarrow> Outcome" where
  "written kind snap breach = \<lparr>o_Kind = kind, o_Snapshot = snap, o_Err = None, o_BandBreach = breach\<rparr>"

text \<open>The gate; \<open>None\<close> is its "no opinion".\<close>

definition applyStaleComponentGate ::
  "Refresher \<Rightarrow> 'db inserter \<Rightarrow> Supply \<Rightarrow> memory \<times> 'db \<Rightarrow> Outcome option \<times> memory \<times> 'db" where
  "applyStaleComponentGate r InsertSupply snap = (\<lambda>(m, db).
     let threshold = threshold_of r (s_AssetKey snap) in
     if threshold = 0 \<or> s_MinComponentLedger snap = 0 then (None, m, db)
     else
       let last = lastComponentLedger m (s_AssetKey snap);
           m = m\<lparr>lastComponentLedger := (lastComponentLedger m)(s_AssetKey snap \<mapsto> s_MinComponentLedger snap)\<rparr>;
           gap = s_LedgerSequence snap - s_MinComponentLedger snap in
       if s_LedgerSequence snap \<le> s_MinComponentLedger snap \<or> gap \<le> threshold then (None, m, db)
       else if last \<noteq> Some (s_MinComponentLedger snap) then (Some (failed OutcomeStaleComponent [] snap), m, db)
       else if 0 < maxDormantComponentLedger r \<and> maxDormantComponentLedger r < gap
       then (Some (failed OutcomeStaleComponent [] snap), m, db)
       else (case InsertSupply snap db of
               (db, Some e) \<Rightarrow> (Some (failed OutcomeWriteError e snap), m, db)
             | (db, None) \<Rightarrow>
                 let (breach, m) = checkWriteBand snap m in (Some (written OutcomeDormant snap breach), m, db)))"

definition compute_error_kind :: "supply_error \<Rightarrow> OutcomeKind" where
  "compute_error_kind e =
     (if ErrNoObservation \<in> set e then OutcomeNoObservation
      else if ErrNegativeTotalMissingBaseline \<in> set e \<or> ErrGenesisBaselineNotSeeded \<in> set e then OutcomeMissingBaseline
      else OutcomeComputeError)"

definition Tick ::
  "Refresher \<Rightarrow> 'db inserter \<Rightarrow> supply_error + 32 word \<times> gotime \<Rightarrow> (32 word \<Rightarrow> gotime \<Rightarrow> supply_error + Supply) \<Rightarrow>
    memory \<times> 'db \<Rightarrow> Outcome \<times> memory \<times> 'db" where
  "Tick r InsertSupply latest Compute = (\<lambda>(m, db).
     (case latest of
        Inl e \<Rightarrow> (failed OutcomeNoLedger e zeroSupply, m, db)
      | Inr (ledger, observedAt) \<Rightarrow>
          (case Compute ledger observedAt of
             Inl e \<Rightarrow> (failed (compute_error_kind e) e zeroSupply, m, db)
           | Inr snap \<Rightarrow>
               let staticReserve = (s_Basis snap = BasisXLMSDFReserveExclusionStatic) in
               if strictFreshnessRequired r \<and> (s_MinComponentLedger snap = 0 \<or> staticReserve)
               then (failed OutcomeMissingFreshness [] snap, m, db)
               else (case applyStaleComponentGate r InsertSupply snap (m, db) of
                       (Some outcome, m, db) \<Rightarrow> (outcome, m, db)
                     | (None, m, db) \<Rightarrow>
                         (case InsertSupply snap db of
                            (db, Some e) \<Rightarrow> (failed OutcomeWriteError e snap, m, db)
                          | (db, None) \<Rightarrow>
                              let (breach, m) = checkWriteBand snap m in
                              (written (if staticReserve then OutcomeStaticReserve else OutcomeOK) snap breach, m, db))))))"

section \<open>crosscheck.go\<close>

definition CrossCheckTolerance :: int where
  "CrossCheckTolerance = 1"

datatype WrapClass = WrapClassPartial | WrapClassFull | WrapClassOther string

definition normalizeWrapClass :: "WrapClass \<Rightarrow> WrapClass" where
  "normalizeWrapClass c = (if c = WrapClassFull then WrapClassFull else WrapClassPartial)"

record CrossCheckResult =
  x_ClassicKey :: string
  x_SACKey :: string
  x_ClassicTotal :: "int option"
  x_SACTotal :: "int option"
  x_DivergenceStroops :: "int option"
  x_WithinTolerance :: bool
  x_WrapClass :: WrapClass
  x_ClassicLedger :: "32 word"
  x_SACLedger :: "32 word"
  x_OverMintStroops :: "int option"
  x_SACWrapped :: "int option"
  x_SubsetBoundChecked :: bool
  x_EscrowExcessStroops :: "int option"

definition zeroCrossCheckResult :: CrossCheckResult where
  "zeroCrossCheckResult =
     \<lparr>x_ClassicKey = [], x_SACKey = [], x_ClassicTotal = None, x_SACTotal = None, x_DivergenceStroops = None,
      x_WithinTolerance = False, x_WrapClass = WrapClassOther [], x_ClassicLedger = 0, x_SACLedger = 0,
      x_OverMintStroops = None, x_SACWrapped = None, x_SubsetBoundChecked = False, x_EscrowExcessStroops = None\<rparr>"

definition CrossCheckLedgerTolerance :: "32 word" where
  "CrossCheckLedgerTolerance = 1000"

definition ledgerGap :: "32 word \<Rightarrow> 32 word \<Rightarrow> 32 word" where
  "ledgerGap a b = (if b < a then a - b else b - a)"

definition checkLedgerAlignment :: "Supply \<Rightarrow> Supply \<Rightarrow> supply_error option" where
  "checkLedgerAlignment classic sac =
     (if s_LedgerSequence classic = 0 \<or> s_LedgerSequence sac = 0 then None
      else if CrossCheckLedgerTolerance < ledgerGap (s_LedgerSequence classic) (s_LedgerSequence sac)
      then Some [ErrCrossCheckMisaligned] else None)"

definition excessOver :: "int \<Rightarrow> int \<Rightarrow> int" where
  "excessOver held bound = (let excess = held - bound in if excess < 0 then 0 else excess)"

definition CrossCheck :: "Supply \<Rightarrow> Supply \<Rightarrow> supply_error + CrossCheckResult" where
  "CrossCheck classic sac =
     (case (s_TotalSupply classic, s_TotalSupply sac) of
        (Some ct, Some st) \<Rightarrow>
          let d = \<bar>ct - st\<bar> in
          Inr (zeroCrossCheckResult\<lparr>x_ClassicKey := s_AssetKey classic, x_SACKey := s_AssetKey sac,
            x_ClassicTotal := Some ct, x_SACTotal := Some st, x_DivergenceStroops := Some d,
            x_WithinTolerance := (d \<le> CrossCheckTolerance), x_WrapClass := WrapClassFull,
            x_ClassicLedger := s_LedgerSequence classic, x_SACLedger := s_LedgerSequence sac\<rparr>)
      | _ \<Rightarrow> Inl [ErrCrossCheckNilSupply])"

definition CrossCheckSubsetBound :: "Supply \<Rightarrow> Supply \<Rightarrow> supply_error + CrossCheckResult" where
  "CrossCheckSubsetBound classic sac =
     (case (s_TotalSupply classic, s_TotalSupply sac) of
        (Some ct, Some st) \<Rightarrow>
          let res = zeroCrossCheckResult\<lparr>x_ClassicKey := s_AssetKey classic, x_SACKey := s_AssetKey sac,
                x_ClassicTotal := Some ct, x_SACTotal := Some st, x_OverMintStroops := Some (excessOver st ct),
                x_DivergenceStroops := Some 0, x_WrapClass := WrapClassPartial,
                x_ClassicLedger := s_LedgerSequence classic, x_SACLedger := s_LedgerSequence sac\<rparr>;
              (res, d) = (case s_SACWrappedStroops classic of
                 None \<Rightarrow> (res, 0)
               | Some w \<Rightarrow>
                   let escrowExcess = excessOver w st;
                       d = (if 0 < escrowExcess then escrowExcess else 0) in
                   (res\<lparr>x_SACWrapped := Some w, x_SubsetBoundChecked := True, x_EscrowExcessStroops := Some escrowExcess,
                        x_DivergenceStroops := Some d\<rparr>, d)) in
          Inr (res\<lparr>x_WithinTolerance := (d \<le> CrossCheckTolerance)\<rparr>)
      | _ \<Rightarrow> Inl [ErrCrossCheckNilSupply])"

definition CrossCheckForClass :: "Supply \<Rightarrow> Supply \<Rightarrow> WrapClass \<Rightarrow> supply_error + CrossCheckResult" where
  "CrossCheckForClass classic sac class =
     err_guard (checkLedgerAlignment classic sac)
       (if normalizeWrapClass class = WrapClassFull then CrossCheck classic sac else CrossCheckSubsetBound classic sac)"

section \<open>crosscheck\_refresher.go\<close>

record CrossCheckPair =
  p_ClassicKey :: string
  p_SACKey :: string
  p_WrapClass :: WrapClass

datatype CrossCheckOutcomeKind = CrossCheckWithin | CrossCheckOver | CrossCheckMissing | CrossCheckReadError
  | CrossCheckMisaligned | CrossCheckUnchecked

record CrossCheckOutcome =
  xo_Pair :: CrossCheckPair
  xo_Kind :: CrossCheckOutcomeKind
  xo_Result :: CrossCheckResult
  xo_Err :: "supply_error option"

text \<open>The calls on the emitter; the divergence is exact here, the exporter rounds it to a float64.\<close>

datatype emitted = EmitOutcome CrossCheckOutcomeKind WrapClass | EmitDivergence string WrapClass int
  | EmitClearDivergence string WrapClass

type_synonym snapshot_reader = "string \<Rightarrow> supply_error + Supply"

definition NewCrossCheckRefresher :: "CrossCheckPair list \<Rightarrow> supply_error + CrossCheckPair list" where
  "NewCrossCheckRefresher pairs =
     (if list_ex (\<lambda>p. p_ClassicKey p = [] \<or> p_SACKey p = []) pairs then Inl []
      else let sorted_pairs = sort_key p_ClassicKey pairs in
        if list_ex (\<lambda>i. p_ClassicKey (sorted_pairs ! i) = p_ClassicKey (sorted_pairs ! (i - 1))) [1..<length sorted_pairs]
        then Inl [] else Inr sorted_pairs)"

definition read_failed :: "CrossCheckPair \<Rightarrow> supply_error \<Rightarrow> CrossCheckOutcome" where
  "read_failed p e =
     \<lparr>xo_Pair = p, xo_Kind = (if ErrNoSnapshot \<in> set e then CrossCheckMissing else CrossCheckReadError),
      xo_Result = zeroCrossCheckResult, xo_Err = Some e\<rparr>"

definition tickOne :: "snapshot_reader \<Rightarrow> CrossCheckPair \<Rightarrow> CrossCheckOutcome" where
  "tickOne LatestSupply p =
     (case LatestSupply (p_ClassicKey p) of
        Inl e \<Rightarrow> read_failed p e
      | Inr classic \<Rightarrow>
          (case LatestSupply (p_SACKey p) of
             Inl e \<Rightarrow> read_failed p e
           | Inr sac \<Rightarrow>
               (case CrossCheckForClass classic sac (p_WrapClass p) of
                  Inl e \<Rightarrow>
                    \<lparr>xo_Pair = p, xo_Kind = (if ErrCrossCheckMisaligned \<in> set e then CrossCheckMisaligned else CrossCheckReadError),
                     xo_Result = zeroCrossCheckResult, xo_Err = Some e\<rparr>
                | Inr res \<Rightarrow>
                    \<lparr>xo_Pair = p,
                     xo_Kind = (if x_WrapClass res = WrapClassPartial \<and> \<not> x_SubsetBoundChecked res then CrossCheckUnchecked
                       else if x_WithinTolerance res then CrossCheckWithin else CrossCheckOver),
                     xo_Result = res, xo_Err = None\<rparr>)))"

definition emit_outcome :: "CrossCheckPair \<Rightarrow> CrossCheckOutcome \<Rightarrow> emitted list" where
  "emit_outcome p outcome =
     (let wrapClass = normalizeWrapClass (p_WrapClass p) in
      [EmitOutcome (xo_Kind outcome) wrapClass,
       if xo_Kind outcome \<in> {CrossCheckWithin, CrossCheckOver}
       then EmitDivergence (p_ClassicKey p) wrapClass (the (x_DivergenceStroops (xo_Result outcome)))
       else EmitClearDivergence (p_ClassicKey p) wrapClass])"

definition CrossCheck_Tick :: "snapshot_reader \<Rightarrow> CrossCheckPair list \<Rightarrow> CrossCheckOutcome list \<times> emitted list" where
  "CrossCheck_Tick LatestSupply pairs =
     (let outs = map (tickOne LatestSupply) pairs in
      (outs, concat (map2 emit_outcome pairs outs)))"

section \<open>What a tick writes\<close>

text \<open>The lag of a snapshot behind its oldest component, in ledgers.\<close>

definition lag :: "Supply \<Rightarrow> nat" where
  "lag s = unat (s_LedgerSequence s) - unat (s_MinComponentLedger s)"

definition writes :: "OutcomeKind \<Rightarrow> bool" where
  "writes kind = (kind \<in> {OutcomeOK, OutcomeDormant, OutcomeStaticReserve, OutcomeWriteError})"

text \<open>
  The gate's contract. A snapshot may be written when strict mode has its anchor, and when the gate is off, has
  nothing to compare, sees a lag within the threshold, or sees the anchor of the previous evaluation again
  within the dormancy horizon.
\<close>

definition strict_ok :: "Refresher \<Rightarrow> Supply \<Rightarrow> bool" where
  "strict_ok r s = (strictFreshnessRequired r \<longrightarrow>
     s_MinComponentLedger s \<noteq> 0 \<and> s_Basis s \<noteq> BasisXLMSDFReserveExclusionStatic)"

definition gated :: "Refresher \<Rightarrow> Supply \<Rightarrow> bool" where
  "gated r s = (threshold_of r (s_AssetKey s) \<noteq> 0 \<and> s_MinComponentLedger s \<noteq> 0)"

definition lagging :: "Refresher \<Rightarrow> Supply \<Rightarrow> bool" where
  "lagging r s = (gated r s \<and> unat (threshold_of r (s_AssetKey s)) < lag s)"

definition in_horizon :: "Refresher \<Rightarrow> Supply \<Rightarrow> bool" where
  "in_horizon r s = (maxDormantComponentLedger r = 0 \<or> lag s \<le> unat (maxDormantComponentLedger r))"

definition admissible :: "Refresher \<Rightarrow> memory \<Rightarrow> Supply \<Rightarrow> bool" where
  "admissible r m s = (strict_ok r s \<and>
     (lagging r s \<longrightarrow> lastComponentLedger m (s_AssetKey s) = Some (s_MinComponentLedger s) \<and> in_horizon r s))"

lemma lag_word:
  assumes "\<not> s_LedgerSequence s \<le> s_MinComponentLedger s"
  shows "unat (s_LedgerSequence s - s_MinComponentLedger s) = lag s"
  using assms by (simp add: lag_def unat_sub)

lemma checkWriteBand_ledgers [simp]: "lastComponentLedger (snd (checkWriteBand s m)) = lastComponentLedger m"
  by (simp add: checkWriteBand_def Let_def split: option.splits)

lemma lagging_word:
  "lagging r s \<longleftrightarrow> gated r s \<and> \<not> (s_LedgerSequence s \<le> s_MinComponentLedger s \<or>
     s_LedgerSequence s - s_MinComponentLedger s \<le> threshold_of r (s_AssetKey s))"
proof (cases "s_LedgerSequence s \<le> s_MinComponentLedger s")
  case True
  then show ?thesis by (simp add: lagging_def lag_def word_le_nat_alt)
next
  case False
  then show ?thesis using lag_word [OF False] by (auto simp: lagging_def word_le_nat_alt)
qed

lemma in_horizon_word:
  assumes "lagging r s"
  shows "in_horizon r s \<longleftrightarrow> \<not> (0 < maxDormantComponentLedger r \<and>
     maxDormantComponentLedger r < s_LedgerSequence s - s_MinComponentLedger s)"
proof -
  have "\<not> s_LedgerSequence s \<le> s_MinComponentLedger s" using assms by (simp add: lagging_word)
  then show ?thesis using lag_word [of s]
    by (auto simp: in_horizon_def word_less_nat_alt word_neq_0_conv not_less unat_eq_zero)
qed

text \<open>The memory of anchors after a gate decision.\<close>

definition remember :: "Refresher \<Rightarrow> Supply \<Rightarrow> memory \<Rightarrow> memory" where
  "remember r s m =
     (if gated r s then m\<lparr>lastComponentLedger := (lastComponentLedger m)(s_AssetKey s \<mapsto> s_MinComponentLedger s)\<rparr> else m)"

lemma gate_cases:
  "applyStaleComponentGate r ins s (m, db) =
     (if \<not> lagging r s then (None, remember r s m, db)
      else if lastComponentLedger m (s_AssetKey s) \<noteq> Some (s_MinComponentLedger s) \<or> \<not> in_horizon r s
      then (Some (failed OutcomeStaleComponent [] s), remember r s m, db)
      else (case ins s db of
              (db, Some e) \<Rightarrow> (Some (failed OutcomeWriteError e s), remember r s m, db)
            | (db, None) \<Rightarrow> (Some (written OutcomeDormant s (fst (checkWriteBand s (remember r s m)))),
                snd (checkWriteBand s (remember r s m)), db)))"
proof (cases "lagging r s")
  case True
  then have g: "gated r s" "threshold_of r (s_AssetKey s) \<noteq> 0" "s_MinComponentLedger s \<noteq> 0"
    and l: "\<not> (s_LedgerSequence s \<le> s_MinComponentLedger s \<or> s_LedgerSequence s - s_MinComponentLedger s \<le> threshold_of r (s_AssetKey s))"
    by (simp_all add: lagging_word gated_def)
  obtain db1 e where i: "ins s db = (db1, e)" by (cases "ins s db")
  show ?thesis
    unfolding applyStaleComponentGate_def Let_def prod.case remember_def in_horizon_word [OF True] i
    using True g l by (cases e) (auto simp: case_prod_beta)
next
  case False
  then show ?thesis
    by (auto simp: applyStaleComponentGate_def Let_def remember_def gated_def lagging_word)
qed

lemma writes_simps [simp]:
  "writes OutcomeOK" "writes OutcomeDormant" "writes OutcomeStaticReserve" "writes OutcomeWriteError"
  "\<not> writes OutcomeStaleComponent" "\<not> writes OutcomeMissingFreshness" "\<not> writes OutcomeNoLedger"
  "\<not> writes OutcomeNoObservation" "\<not> writes OutcomeComputeError" "\<not> writes OutcomeMissingBaseline"
  by (simp_all add: writes_def)

lemma outcome_simps [simp]:
  "o_Kind (failed kind e s) = kind" "o_Snapshot (failed kind e s) = s"
  "o_Kind (written kind s b) = kind" "o_Snapshot (written kind s b) = s"
  by (simp_all add: failed_def written_def)

lemma Tick_snapshot:
  assumes "latest = Inr (ledger, now)" "calc ledger now = Inr s" "Tick r ins latest calc (m, db) = (out, m', db')"
  shows "writes (o_Kind out) \<longleftrightarrow> admissible r m s"
    "o_Snapshot out = s"
    "db' = (if admissible r m s then fst (ins s db) else db)"
    "o_Kind out = OutcomeWriteError \<longleftrightarrow> admissible r m s \<and> snd (ins s db) \<noteq> None"
    "lastComponentLedger m' = lastComponentLedger (if strict_ok r s then remember r s m else m)"
    "o_Kind out = OutcomeStaleComponent \<longleftrightarrow> strict_ok r s \<and> \<not> admissible r m s"
    "o_Kind out = OutcomeDormant \<longleftrightarrow> admissible r m s \<and> lagging r s \<and> snd (ins s db) = None"
proof -
  obtain db1 e where i: "ins s db = (db1, e)" by (cases "ins s db")
  define c where "c \<longleftrightarrow> (writes (o_Kind out) \<longleftrightarrow> admissible r m s) \<and> o_Snapshot out = s \<and>
    db' = (if admissible r m s then fst (ins s db) else db) \<and>
    (o_Kind out = OutcomeWriteError \<longleftrightarrow> admissible r m s \<and> snd (ins s db) \<noteq> None) \<and>
    lastComponentLedger m' = lastComponentLedger (if strict_ok r s then remember r s m else m) \<and>
    (o_Kind out = OutcomeStaleComponent \<longleftrightarrow> strict_ok r s \<and> \<not> admissible r m s) \<and>
    (o_Kind out = OutcomeDormant \<longleftrightarrow> admissible r m s \<and> lagging r s \<and> snd (ins s db) = None)"
  have t: "Tick r ins latest calc (m, db) =
     (if \<not> strict_ok r s then (failed OutcomeMissingFreshness [] s, m, db)
      else if lagging r s \<and> \<not> admissible r m s then (failed OutcomeStaleComponent [] s, remember r s m, db)
      else (case e of
              Some x \<Rightarrow> (failed OutcomeWriteError x s, remember r s m, db1)
            | None \<Rightarrow> (written (if lagging r s then OutcomeDormant
                  else if s_Basis s = BasisXLMSDFReserveExclusionStatic then OutcomeStaticReserve else OutcomeOK) s
                  (fst (checkWriteBand s (remember r s m))), snd (checkWriteBand s (remember r s m)), db1)))"
    unfolding Tick_def prod.case assms(1,2) sum.case gate_cases strict_ok_def admissible_def Let_def
    by (cases e) (auto simp: i case_prod_beta)
  have "c"
  proof (cases "strict_ok r s")
    case False
    then show ?thesis using assms(3) unfolding c_def t by (auto simp: admissible_def)
  next
    case ok: True
    show ?thesis
    proof (cases "lagging r s \<and> \<not> admissible r m s")
      case True
      then show ?thesis using assms(3) ok unfolding c_def t by auto
    next
      case False
      then have "admissible r m s" using ok by (auto simp: admissible_def)
      then show ?thesis using assms(3) ok unfolding c_def t i by (cases e) (auto split: if_splits)
    qed
  qed
  then show "writes (o_Kind out) \<longleftrightarrow> admissible r m s"
    "o_Snapshot out = s"
    "db' = (if admissible r m s then fst (ins s db) else db)"
    "o_Kind out = OutcomeWriteError \<longleftrightarrow> admissible r m s \<and> snd (ins s db) \<noteq> None"
    "lastComponentLedger m' = lastComponentLedger (if strict_ok r s then remember r s m else m)"
    "o_Kind out = OutcomeStaleComponent \<longleftrightarrow> strict_ok r s \<and> \<not> admissible r m s"
    "o_Kind out = OutcomeDormant \<longleftrightarrow> admissible r m s \<and> lagging r s \<and> snd (ins s db) = None"
    unfolding c_def by blast+
qed

lemma compute_error_kind_range:
  "compute_error_kind e \<in> {OutcomeNoObservation, OutcomeMissingBaseline, OutcomeComputeError}"
  by (simp add: compute_error_kind_def)

lemma Tick_no_snapshot:
  assumes "\<And>ledger now s. latest = Inr (ledger, now) \<Longrightarrow> calc ledger now \<noteq> Inr s"
    "Tick r ins latest calc (m, db) = (out, m', db')"
  shows "m' = m" "db' = db" "o_Kind out \<in> {OutcomeNoLedger, OutcomeNoObservation, OutcomeMissingBaseline, OutcomeComputeError}"
    "o_Snapshot out = zeroSupply"
proof -
  consider e where "latest = Inl e" | ledger now e where "latest = Inr (ledger, now)" "calc ledger now = Inl e"
    using assms(1) by (metis obj_sumE surj_pair)
  then have "m' = m \<and> db' = db \<and> o_Snapshot out = zeroSupply \<and>
      o_Kind out \<in> {OutcomeNoLedger, OutcomeNoObservation, OutcomeMissingBaseline, OutcomeComputeError}"
  proof cases
    case 1
    then show ?thesis using assms(2) by (auto simp: Tick_def)
  next
    case (2 ledger now e)
    then show ?thesis using assms(2) compute_error_kind_range [of e] by (auto simp: Tick_def)
  qed
  then show "m' = m" "db' = db" "o_Kind out \<in> {OutcomeNoLedger, OutcomeNoObservation, OutcomeMissingBaseline, OutcomeComputeError}"
    "o_Snapshot out = zeroSupply" by simp_all
qed

section \<open>Histories of a refresher\<close>

type_synonym tick = "(supply_error + 32 word \<times> gotime) \<times> (32 word \<Rightarrow> gotime \<Rightarrow> supply_error + Supply)"

fun run_ticks :: "Refresher \<Rightarrow> 'db inserter \<Rightarrow> tick list \<Rightarrow> memory \<times> 'db \<Rightarrow> Outcome list \<times> memory \<times> 'db" where
  "run_ticks r ins [] st = ([], st)"
| "run_ticks r ins ((latest, calc) # ticks) st =
     (let (out, st) = Tick r ins latest calc st; (outs, st) = run_ticks r ins ticks st in (out # outs, st))"

lemma run_ticks_one: "run_ticks r ins [t] st = (let (out, st) = Tick r ins (fst t) (snd t) st in ([out], st))"
  by (cases t) (simp split: prod.splits)

text \<open>The snapshot a tick computes, if any.\<close>

definition computed :: "tick \<Rightarrow> Supply option" where
  "computed t = (case fst t of Inl _ \<Rightarrow> None | Inr (ledger, now) \<Rightarrow> (case snd t ledger now of Inl _ \<Rightarrow> None | Inr s \<Rightarrow> Some s))"

lemma computed_Some: "computed t = Some s \<longleftrightarrow> (\<exists>ledger now. fst t = Inr (ledger, now) \<and> snd t ledger now = Inr s)"
  by (auto simp: computed_def split: sum.splits)

lemma computed_None: "computed t = None \<longleftrightarrow> (\<forall>ledger now s. fst t = Inr (ledger, now) \<longrightarrow> snd t ledger now \<noteq> Inr s)"
  by (auto simp: computed_def split: sum.splits)

lemma run_ticks_length: "run_ticks r ins ticks st = (outs, st') \<Longrightarrow> length outs = length ticks"
  by (induction ticks arbitrary: st outs) (auto split: prod.splits)

text \<open>The anchor a refresher remembers is one that an evaluated snapshot of the asset reported.\<close>

lemma Tick_remembers:
  assumes "Tick r ins (fst t) (snd t) (m, db) = (out, m', db')" "lastComponentLedger m' key = Some v"
  shows "lastComponentLedger m key = Some v \<or> (\<exists>s. computed t = Some s \<and> s_AssetKey s = key \<and> s_MinComponentLedger s = v)"
proof (cases "computed t")
  case None
  then have "m' = m" using Tick_no_snapshot(1) [OF _ assms(1)] by (auto simp: computed_None)
  then show ?thesis using assms(2) by simp
next
  case (Some s)
  then obtain ledger now where "fst t = Inr (ledger, now)" "snd t ledger now = Inr s" by (auto simp: computed_Some)
  from Tick_snapshot(5) [OF this assms(1)] assms(2) Some show ?thesis
    by (auto simp: remember_def split: if_splits)
qed

lemma run_ticks_remembers:
  assumes "run_ticks r ins ticks (m, db) = (outs, m', db')" "lastComponentLedger m' key = Some v"
  shows "lastComponentLedger m key = Some v \<or>
    (\<exists>t \<in> set ticks. \<exists>s. computed t = Some s \<and> s_AssetKey s = key \<and> s_MinComponentLedger s = v)"
  using assms
proof (induction ticks arbitrary: m db outs)
  case Nil
  then show ?case by simp
next
  case (Cons t ticks)
  obtain out m1 db1 where t: "Tick r ins (fst t) (snd t) (m, db) = (out, m1, db1)" by (metis prod_cases3)
  then obtain outs' where "run_ticks r ins ticks (m1, db1) = (outs', m', db')"
    using Cons.prems(1) by (cases t) (auto split: prod.splits)
  from Cons.IH [OF this Cons.prems(2)] Tick_remembers [OF t] show ?case by auto
qed

lemma run_ticks_append:
  "run_ticks r ins (ts @ us) st = (let (outs, st) = run_ticks r ins ts st; (outs', st) = run_ticks r ins us st in (outs @ outs', st))"
  by (induction ts arbitrary: st) (auto split: prod.splits)

text \<open>The state before the \<open>i\<close>-th tick of a run.\<close>

lemma run_ticks_nth:
  assumes "run_ticks r ins ticks st = (outs, st')" "i < length ticks"
  obtains outs1 m db m' db' where "run_ticks r ins (take i ticks) st = (outs1, m, db)"
    "Tick r ins (fst (ticks ! i)) (snd (ticks ! i)) (m, db) = (outs ! i, m', db')"
    "run_ticks r ins (drop (Suc i) ticks) (m', db') = (drop (Suc i) outs, st')"
proof -
  let ?t = "ticks ! i"
  obtain outs1 m db where 1: "run_ticks r ins (take i ticks) st = (outs1, m, db)" by (metis prod_cases3)
  obtain out m' db' where 2: "Tick r ins (fst ?t) (snd ?t) (m, db) = (out, m', db')" by (metis prod_cases3)
  obtain outs2 st2 where 3: "run_ticks r ins (drop (Suc i) ticks) (m', db') = (outs2, st2)" by (metis surj_pair)
  have "ticks = take i ticks @ (fst ?t, snd ?t) # drop (Suc i) ticks" using assms(2) by (simp add: id_take_nth_drop)
  then have "run_ticks r ins ticks st = (outs1 @ out # outs2, st2)"
    using 1 2 3 by (metis (no_types, lifting) run_ticks_append run_ticks.simps(2) case_prod_conv)
  moreover have "length outs1 = i" using run_ticks_length [OF 1] assms(2) by simp
  ultimately have "outs ! i = out" "drop (Suc i) outs = outs2" "st' = st2" using assms(1) by auto
  then show ?thesis using that 1 2 3 by blast
qed


definition sample_snapshot :: "32 word \<Rightarrow> Supply" where
  "sample_snapshot ledger = zeroSupply\<lparr>s_AssetKey := ''CA'', s_TotalSupply := Some 5, s_CirculatingSupply := Some 5,
     s_Basis := BasisSEP41TotalOnly, s_LedgerSequence := ledger, s_MinComponentLedger := 100\<rparr>"

text \<open>A component frozen at ledger 100: the lag passes the threshold, then the horizon.\<close>

definition sample_ticks :: "tick list" where
  "sample_ticks = map (\<lambda>l. (Inr (l, 0), \<lambda>l now. Inr (sample_snapshot l))) [1100, 1200, 1300, 20000]"

definition log_rows :: "Supply list inserter" where
  "log_rows s db = (s # db, None)"

lemma sample_run:
  "map o_Kind (fst (run_ticks (fst (NewRefresher [])) log_rows sample_ticks (snd (NewRefresher []), []))) =
     [OutcomeOK, OutcomeDormant, OutcomeDormant, OutcomeStaleComponent]"
  by code_simp


lemma run_ticks_anchor:
  assumes "run_ticks r ins (take (Suc j) ticks) (m, db) = (outs, m', db')" "j < length ticks" "computed (ticks ! j) = Some s"
    "strict_ok r s" "gated r s"
  shows "lastComponentLedger m' (s_AssetKey s) = Some (s_MinComponentLedger s)"
proof -
  obtain outs1 m1 db1 where pre: "run_ticks r ins (take j ticks) (m, db) = (outs1, m1, db1)" by (metis prod_cases3)
  obtain out m2 db2 where t: "Tick r ins (fst (ticks ! j)) (snd (ticks ! j)) (m1, db1) = (out, m2, db2)" by (metis prod_cases3)
  obtain ledger now where c: "fst (ticks ! j) = Inr (ledger, now)" "snd (ticks ! j) ledger now = Inr s"
    using assms(3) by (auto simp: computed_Some)
  have "take (Suc j) ticks = take j ticks @ [ticks ! j]" using assms(2) by (simp add: take_Suc_conv_app_nth)
  then have "run_ticks r ins (take (Suc j) ticks) (m, db) = (outs1 @ [out], m2, db2)"
    using pre t by (simp add: run_ticks_append run_ticks_one)
  then show ?thesis using assms(1,4,5) Tick_snapshot(5) [OF c t] by (simp add: remember_def)
qed

text \<open>
  A dormant asset is served and a dead observer is not. While an asset's component anchor stays frozen and
  lags past the threshold, every tick after the first publishes it again as dormant as long as the lag is
  within the horizon, and refuses it as stale beyond, provided the database takes the rows.
\<close>

theorem dormant_then_stale:
  assumes "run_ticks r ins ticks (m, db) = (outs, st')"
    "\<forall>t \<in> set ticks. \<exists>s. computed t = Some s \<and> s_AssetKey s = key \<and> s_MinComponentLedger s = v \<and> lagging r s \<and> strict_ok r s"
    "\<forall>s d. snd (ins s d) = None" "0 < i" "i < length ticks" "computed (ticks ! i) = Some s"
  shows "o_Kind (outs ! i) = (if maxDormantComponentLedger r = 0 \<or> lag s \<le> unat (maxDormantComponentLedger r)
    then OutcomeDormant else OutcomeStaleComponent)"
proof -
  from run_ticks_nth [OF assms(1,5)] obtain outs1 m1 db1 m2 db2 where
    pre: "run_ticks r ins (take i ticks) (m, db) = (outs1, m1, db1)" and
    t: "Tick r ins (fst (ticks ! i)) (snd (ticks ! i)) (m1, db1) = (outs ! i, m2, db2)" by metis
  obtain j where j: "i = Suc j" using assms(4) by (cases i) auto
  have at: "\<exists>s. computed (ticks ! l) = Some s \<and> s_AssetKey s = key \<and> s_MinComponentLedger s = v \<and> lagging r s \<and> strict_ok r s"
    if "l < length ticks" for l using assms(2) that by simp
  have s: "s_AssetKey s = key" "s_MinComponentLedger s = v" "lagging r s" "strict_ok r s" using at [OF assms(5)] assms(6) by auto
  obtain s' where s': "computed (ticks ! j) = Some s'" "s_AssetKey s' = key" "s_MinComponentLedger s' = v" "lagging r s'" "strict_ok r s'"
    using at [of j] assms(5) j by auto
  have "lastComponentLedger m1 key = Some v"
    using run_ticks_anchor [OF pre [unfolded j] _ s'(1,5)] assms(5) j s'(2-4) by (simp add: lagging_def)
  then have adm: "admissible r m1 s \<longleftrightarrow> in_horizon r s" using s by (simp add: admissible_def)
  obtain ledger now where c: "fst (ticks ! i) = Inr (ledger, now)" "snd (ticks ! i) ledger now = Inr s"
    using assms(6) by (auto simp: computed_Some)
  show ?thesis
    using Tick_snapshot(6,7) [OF c t] adm s assms(3) by (auto simp: in_horizon_def)
qed

theorem dormant_then_stale_witness:
  "\<exists>outs st'. run_ticks (fst (NewRefresher [])) log_rows (tl sample_ticks) (snd (NewRefresher []), []) = (outs, st') \<and>
     o_Kind (outs ! 1) = OutcomeDormant \<and> o_Kind (outs ! 2) = OutcomeStaleComponent"
proof -
  let ?r = "fst (NewRefresher [])"
  obtain outs st' where run: "run_ticks ?r log_rows (tl sample_ticks) (snd (NewRefresher []), []) = (outs, st')" by (metis surj_pair)
  have c: "computed (tl sample_ticks ! 0) = Some (sample_snapshot 1200)" "computed (tl sample_ticks ! 1) = Some (sample_snapshot 1300)"
    "computed (tl sample_ticks ! 2) = Some (sample_snapshot 20000)" by code_simp+
  have len: "length (tl sample_ticks) = 3" by (simp add: sample_ticks_def)
  have lag: "lagging ?r (sample_snapshot l) \<and> strict_ok ?r (sample_snapshot l)" if "l \<in> {1200, 1300, 20000}" for l
    using that by (auto simp: lagging_def strict_ok_def gated_def lag_def sample_snapshot_def NewRefresher_def threshold_of_def
        DefaultStaleComponentLedgers_def)
  have all: "\<forall>t \<in> set (tl sample_ticks). \<exists>s. computed t = Some s \<and> s_AssetKey s = ''CA'' \<and> s_MinComponentLedger s = 100 \<and> lagging ?r s \<and> strict_ok ?r s"
    using lag by (auto simp: sample_ticks_def computed_def sample_snapshot_def)
  have ok: "\<forall>s d. snd (log_rows s d) = None" by (simp add: log_rows_def)
  have d: "maxDormantComponentLedger ?r = 17280" by (simp add: NewRefresher_def DefaultMaxDormantComponentLedgers_def)
  have l: "lag (sample_snapshot 1300) = 1200" "lag (sample_snapshot 20000) = 19900" by (simp_all add: lag_def sample_snapshot_def)
  have "o_Kind (outs ! 1) = OutcomeDormant" "o_Kind (outs ! 2) = OutcomeStaleComponent"
    using dormant_then_stale [OF run all ok, of 1] dormant_then_stale [OF run all ok, of 2] c len d l by simp_all
  then show ?thesis using run by blast
qed

section \<open>What the database is handed\<close>

text \<open>
  What the history table accepts (migration 0005): present, non-negative amounts and a positive ledger.
\<close>

definition storable :: "Supply \<Rightarrow> bool" where
  "storable s = (wf_supply s \<and> s_LedgerSequence s \<noteq> 0)"

definition ledger_known :: "tick \<Rightarrow> bool" where
  "ledger_known t = (case fst t of Inl _ \<Rightarrow> True | Inr (ledger, _) \<Rightarrow> ledger \<noteq> 0)"

text \<open>
  The contract between a refresher and its computer: a returned snapshot is well formed and carries the ledger
  it was asked for. A database that takes every storable row then takes every row.
\<close>

locale snapshot_computer =
  fixes calc :: "32 word \<Rightarrow> gotime \<Rightarrow> supply_error + Supply"
  assumes computed_wf: "calc ledger now = Inr s \<Longrightarrow> wf_supply s \<and> s_LedgerSequence s = ledger"
begin

lemma row_storable:
  assumes "snd t = calc" "ledger_known t" "computed t = Some s"
  shows "storable s"
  using assms computed_wf by (auto simp: computed_Some storable_def ledger_known_def)

lemma Tick_no_write_error:
  assumes "\<And>s db. storable s \<Longrightarrow> snd (ins s db) = None" "snd t = calc" "ledger_known t"
    "Tick r ins (fst t) (snd t) (m, db) = (out, m', db')"
  shows "o_Kind out \<noteq> OutcomeWriteError"
proof (cases "computed t")
  case None
  then show ?thesis using Tick_no_snapshot(3) [OF _ assms(4)] by (auto simp: computed_None)
next
  case (Some s)
  then obtain ledger now where c: "fst t = Inr (ledger, now)" "snd t ledger now = Inr s" by (auto simp: computed_Some)
  show ?thesis using Tick_snapshot(4) [OF c assms(4)] row_storable [OF assms(2,3) Some] assms(1) by simp
qed

lemma run_no_write_error:
  assumes "\<And>s db. storable s \<Longrightarrow> snd (ins s db) = None" "\<forall>t \<in> set ticks. snd t = calc" "\<forall>t \<in> set ticks. ledger_known t"
    "run_ticks r ins ticks (m, db) = (outs, st')"
  shows "OutcomeWriteError \<notin> o_Kind ` set outs"
proof
  assume "OutcomeWriteError \<in> o_Kind ` set outs"
  then obtain i where i: "i < length outs" "o_Kind (outs ! i) = OutcomeWriteError" by (auto simp: in_set_conv_nth)
  then have l: "i < length ticks" using run_ticks_length [OF assms(4)] by simp
  from run_ticks_nth [OF assms(4) l] obtain m1 db1 m2 db2 where
    t: "Tick r ins (fst (ticks ! i)) (snd (ticks ! i)) (m1, db1) = (outs ! i, m2, db2)" by metis
  show False using Tick_no_write_error [OF assms(1) _ _ t] assms(2,3) l i(2) by simp
qed

end

interpretation classic_source: snapshot_computer "AssetBoundClassic_Compute c asset" for c asset
  by unfold_locales (auto simp: AssetBoundClassic_Compute_def dest: Classic_Compute_wf)

interpretation sep41_source: snapshot_computer "AssetBoundSEP41_Compute n c asset" for n c asset
  by unfold_locales (auto simp: AssetBoundSEP41_Compute_def dest: SEP41_Compute_wf)

definition sample_token :: Asset where
  "sample_token = zeroAsset\<lparr>Type := AssetSoroban, ContractID := ''CA''\<rparr>"

definition sample_flows :: SEP41SupplyComponents where
  "sample_flows = \<lparr>sc_MintTotal = Some 1, sc_BurnTotal = Some 3, sc_ClawbackTotal = Some 0, sc_AdminBalance = Some 0,
     sc_LockedAccountBalances = Some 0, sc_LockedContractBalances = Some 0, sc_MinComponentLedger = 8, sc_GenesisBaselineSeeded = False\<rparr>"

definition sample_token_computer :: SEP41Computer where
  "sample_token_computer = \<lparr>sp_policy = sample_policy, sp_reader = (\<lambda>_ _ _. Inr sample_flows)\<rparr>"

text \<open>
  The history table never refuses a computed row: against a database that takes every storable snapshot
  (well formed, at a positive ledger), no tick at a positive ledger of a refresher for a classic or a SEP-41
  asset ends in a write error, whatever the readers and the policy hold.
\<close>

theorem rows_never_refused:
  assumes "\<forall>s d. storable s \<longrightarrow> snd (ins s d) = None" "\<forall>t \<in> set ticks. ledger_known t"
    "(\<forall>t \<in> set ticks. snd t = AssetBoundClassic_Compute c asset) \<or> (\<forall>t \<in> set ticks. snd t = AssetBoundSEP41_Compute n c' asset)"
    "run_ticks r ins ticks (m, db) = (outs, st')"
  shows "OutcomeWriteError \<notin> o_Kind ` set outs"
  using assms classic_source.run_no_write_error [of ins ticks c asset r m db outs st']
    sep41_source.run_no_write_error [of ins ticks n c' asset r m db outs st'] by blast

definition checked_rows :: "Supply list inserter" where
  "checked_rows s db = (if storable s then (s # db, None) else (db, Some []))"

theorem rows_never_refused_witness:
  "\<exists>outs st'. run_ticks (fst (NewRefresher [])) checked_rows
      [(Inr (9, 0), AssetBoundClassic_Compute \<lparr>cl_policy = sample_policy, cl_reader = Storage_ClassicSupplyAt sample_store\<rparr> sample_usdc)]
      (snd (NewRefresher []), []) = (outs, st') \<and> OutcomeWriteError \<notin> o_Kind ` set outs"
proof -
  let ?c = "\<lparr>cl_policy = sample_policy, cl_reader = Storage_ClassicSupplyAt sample_store\<rparr>"
  let ?ts = "[(Inr (9, 0), AssetBoundClassic_Compute ?c sample_usdc)] :: tick list"
  obtain outs st' where run: "run_ticks (fst (NewRefresher [])) checked_rows ?ts (snd (NewRefresher []), []) = (outs, st')" by (metis surj_pair)
  have "\<forall>s d. storable s \<longrightarrow> snd (checked_rows s d) = None" by (simp add: checked_rows_def)
  moreover have "\<forall>t \<in> set ?ts. ledger_known t" by (simp add: ledger_known_def)
  moreover have "(\<forall>t \<in> set ?ts. snd t = AssetBoundClassic_Compute ?c sample_usdc) \<or>
      (\<forall>t \<in> set ?ts. snd t = AssetBoundSEP41_Compute no_network sample_token_computer sample_usdc)" by simp
  ultimately show ?thesis using rows_never_refused [OF _ _ _ run] run by blast
qed

text \<open>
  A missing genesis baseline is never mistaken for corruption, nor published. With readable SEP-41
  components the tick reports a missing baseline exactly when none is seeded and the net flow is negative or
  the contract wraps a classic asset; it reports a compute error when a seeded baseline still leaves the net
  negative; in all these cases the database is left as it was.
\<close>

theorem baseline_outcomes:
  assumes "Type asset = AssetSoroban" "sp_reader c asset (locked_of (sp_policy c) (ContractID asset)) ledger = Inr comps"
    "validateSEP41Components comps = None"
    "Tick r ins (Inr (ledger, now)) (SEP41_Compute n c asset) (m, db) = (out, m', db')"
  defines "net \<equiv> the (sc_MintTotal comps) - the (sc_BurnTotal comps) - the (sc_ClawbackTotal comps)"
    and "seeded \<equiv> sc_GenesisBaselineSeeded comps" and "wrapper \<equiv> Type (CanonicalAsset n asset) = AssetClassic"
  shows "(o_Kind out = OutcomeMissingBaseline \<longleftrightarrow> \<not> seeded \<and> (net < 0 \<or> wrapper)) \<and>
    (seeded \<and> net < 0 \<longrightarrow> o_Kind out = OutcomeComputeError) \<and>
    (net < 0 \<or> \<not> seeded \<and> wrapper \<longrightarrow> db' = db)"
proof -
  have key: "AssetKey asset = Inr (ContractID asset)" using assms(1) by (simp add: AssetKey_def)
  have neg: "SEP41_Compute n c asset ledger now =
      Inl [if seeded then ErrNegativeTotalSupply else ErrNegativeTotalMissingBaseline]" if "net < 0"
    using that assms(1-3) key by (simp add: SEP41_Compute_def net_def seeded_def Let_def)
  have unseeded: "SEP41_Compute n c asset ledger now = Inl [ErrGenesisBaselineNotSeeded]" if "\<not> net < 0" "\<not> seeded \<and> wrapper"
    using that assms(1-3) key by (simp add: SEP41_Compute_def net_def seeded_def wrapper_def Let_def)
  have rest: "(\<exists>s. SEP41_Compute n c asset ledger now = Inr s) \<or> SEP41_Compute n c asset ledger now = Inl []"
    if "\<not> net < 0" "\<not> (\<not> seeded \<and> wrapper)"
  proof -
    have "MaxSupplyOverride (sp_policy c) (ContractID asset) = Inl e \<Longrightarrow> e = []" for e
      by (auto simp: MaxSupplyOverride_def split: option.splits if_splits)
    then show ?thesis
      using that assms(1-3) key unfolding SEP41_Compute_def net_def seeded_def wrapper_def Let_def
      by (cases "MaxSupplyOverride (sp_policy c) (ContractID asset)") auto
  qed
  consider "net < 0" | "\<not> net < 0" "\<not> seeded \<and> wrapper" | "\<not> net < 0" "\<not> (\<not> seeded \<and> wrapper)" by blast
  then show ?thesis
  proof cases
    case 1
    then show ?thesis using assms(4) by (auto simp: Tick_def neg compute_error_kind_def)
  next
    case 2
    then show ?thesis using assms(4) by (auto simp: Tick_def unseeded compute_error_kind_def)
  next
    case 3
    from rest [OF this] show ?thesis
    proof
      assume "\<exists>s. SEP41_Compute n c asset ledger now = Inr s"
      then obtain s where s: "SEP41_Compute n c asset ledger now = Inr s" by blast
      from Tick_snapshot(1,6) [OF refl s assms(4)] have "o_Kind out \<noteq> OutcomeMissingBaseline"
      proof (cases "admissible r m s \<or> strict_ok r s")
        case True
        then show ?thesis using Tick_snapshot(1,6) [OF refl s assms(4)] by auto
      next
        case False
        then show ?thesis using s assms(4) by (auto simp: Tick_def strict_ok_def)
      qed
      then show ?thesis using 3 by auto
    next
      assume "SEP41_Compute n c asset ledger now = Inl []"
      then show ?thesis using 3 assms(4) by (auto simp: Tick_def compute_error_kind_def)
    qed
  qed
qed

theorem baseline_outcomes_witness:
  "\<exists>out m' db'. Tick (fst (NewRefresher [])) log_rows (Inr (9, 0)) (SEP41_Compute no_network sample_token_computer sample_token)
      (snd (NewRefresher []), []) = (out, m', db') \<and> o_Kind out = OutcomeMissingBaseline \<and> db' = []"
proof -
  have t: "Type sample_token = AssetSoroban" by (simp add: sample_token_def)
  have r: "sp_reader sample_token_computer sample_token (locked_of (sp_policy sample_token_computer) (ContractID sample_token)) 9 = Inr sample_flows"
    by (simp add: sample_token_computer_def)
  have v: "validateSEP41Components sample_flows = None"
    by (simp add: validateSEP41Components_def first_bad_def sample_flows_def)
  obtain out m' db' where tick: "Tick (fst (NewRefresher [])) log_rows (Inr (9, 0)) (SEP41_Compute no_network sample_token_computer sample_token)
      (snd (NewRefresher []), []) = (out, m', db')" by (metis prod_cases3)
  from baseline_outcomes [OF t r v tick] show ?thesis using tick by (auto simp: sample_flows_def)
qed

section \<open>The cross-check gauge\<close>

type_synonym gauge = "string \<times> WrapClass \<rightharpoonup> int"

fun apply_emit :: "emitted \<Rightarrow> gauge \<Rightarrow> gauge" where
  "apply_emit (EmitOutcome _ _) g = g"
| "apply_emit (EmitDivergence key class d) g = g((key, class) \<mapsto> d)"
| "apply_emit (EmitClearDivergence key class) g = g((key, class) := None)"

definition gauge_after :: "emitted list \<Rightarrow> gauge \<Rightarrow> gauge" where
  "gauge_after es g = fold apply_emit es g"

text \<open>
  What the gauge should show for a pair: the divergence the class of the pair defines, and nothing when the two
  latest snapshots do not support a verdict.
\<close>

definition verdict :: "snapshot_reader \<Rightarrow> CrossCheckPair \<Rightarrow> int option" where
  "verdict LatestSupply p =
     (case (LatestSupply (p_ClassicKey p), LatestSupply (p_SACKey p)) of
        (Inr classic, Inr sac) \<Rightarrow>
          if checkLedgerAlignment classic sac \<noteq> None then None
          else (case (s_TotalSupply classic, s_TotalSupply sac) of
                  (Some ct, Some st) \<Rightarrow>
                    if p_WrapClass p = WrapClassFull then Some \<bar>ct - st\<bar>
                    else map_option (\<lambda>w. max 0 (w - st)) (s_SACWrappedStroops classic)
                | _ \<Rightarrow> None)
      | _ \<Rightarrow> None)"

definition evaluated :: "CrossCheckOutcomeKind \<Rightarrow> bool" where
  "evaluated kind = (kind \<in> {CrossCheckWithin, CrossCheckOver})"

lemma CrossCheck_verdict:
  assumes "LatestSupply (p_ClassicKey p) = Inr classic" "LatestSupply (p_SACKey p) = Inr sac"
    "CrossCheckForClass classic sac (p_WrapClass p) = Inr res"
  shows "verdict LatestSupply p =
      (if x_WrapClass res = WrapClassPartial \<and> \<not> x_SubsetBoundChecked res then None else x_DivergenceStroops res)"
    "\<exists>d. x_DivergenceStroops res = Some d \<and> x_WithinTolerance res = (d \<le> CrossCheckTolerance)"
  using assms
  by (auto simp: verdict_def CrossCheckForClass_def returns normalizeWrapClass_def CrossCheck_def CrossCheckSubsetBound_def
      excessOver_def zeroCrossCheckResult_def Let_def split: option.splits if_splits)

lemma CrossCheck_no_verdict:
  assumes "LatestSupply (p_ClassicKey p) = Inr classic" "LatestSupply (p_SACKey p) = Inr sac"
    "CrossCheckForClass classic sac (p_WrapClass p) = Inl e"
  shows "verdict LatestSupply p = None"
  using assms
  by (auto simp: verdict_def CrossCheckForClass_def returns normalizeWrapClass_def CrossCheck_def CrossCheckSubsetBound_def Let_def
      split: option.splits if_splits)

lemma tickOne_verdict:
  "(evaluated (xo_Kind (tickOne LatestSupply p)) \<longleftrightarrow> verdict LatestSupply p \<noteq> None) \<and>
   (evaluated (xo_Kind (tickOne LatestSupply p)) \<longrightarrow> x_DivergenceStroops (xo_Result (tickOne LatestSupply p)) = verdict LatestSupply p) \<and>
   (xo_Kind (tickOne LatestSupply p) = CrossCheckOver \<longleftrightarrow> (\<exists>d. verdict LatestSupply p = Some d \<and> CrossCheckTolerance < d))"
proof (cases "LatestSupply (p_ClassicKey p)")
  case (Inl e)
  then show ?thesis by (simp add: tickOne_def read_failed_def verdict_def evaluated_def)
next
  case c: (Inr classic)
  show ?thesis
  proof (cases "LatestSupply (p_SACKey p)")
    case (Inl e)
    then show ?thesis using c by (simp add: tickOne_def read_failed_def verdict_def evaluated_def)
  next
    case s: (Inr sac)
    show ?thesis
    proof (cases "CrossCheckForClass classic sac (p_WrapClass p)")
      case (Inl e)
      then show ?thesis using CrossCheck_no_verdict [OF c s Inl] c s by (simp add: tickOne_def evaluated_def)
    next
      case (Inr res)
      then show ?thesis using CrossCheck_verdict [OF c s Inr] c s by (auto simp: tickOne_def evaluated_def)
    qed
  qed
qed

lemma emit_outcome_gauge:
  "gauge_after (emit_outcome p (tickOne LatestSupply p)) g =
     g((p_ClassicKey p, normalizeWrapClass (p_WrapClass p)) := verdict LatestSupply p)"
  using tickOne_verdict [of LatestSupply p]
  by (auto simp: gauge_after_def emit_outcome_def Let_def evaluated_def)

lemma gauge_after_pairs:
  assumes "distinct (map p_ClassicKey pairs)"
  shows "gauge_after (snd (CrossCheck_Tick LatestSupply pairs)) g x =
    (case find (\<lambda>p. (p_ClassicKey p, normalizeWrapClass (p_WrapClass p)) = x) pairs of
       Some p \<Rightarrow> verdict LatestSupply p | None \<Rightarrow> g x)"
  using assms
proof (induction pairs arbitrary: g)
  case Nil
  show ?case by (simp add: CrossCheck_Tick_def gauge_after_def)
next
  case (Cons p ps)
  let ?x = "(p_ClassicKey p, normalizeWrapClass (p_WrapClass p))"
  have step: "gauge_after (snd (CrossCheck_Tick LatestSupply (p # ps))) g =
      gauge_after (snd (CrossCheck_Tick LatestSupply ps)) (g(?x := verdict LatestSupply p))"
    using emit_outcome_gauge [of p LatestSupply g]
    by (simp add: CrossCheck_Tick_def Let_def gauge_after_def)
  have "find (\<lambda>p. (p_ClassicKey p, normalizeWrapClass (p_WrapClass p)) = ?x) ps = None"
    using Cons.prems by (auto simp: find_None_iff image_iff)
  then show ?case using Cons.prems by (auto simp: step Cons.IH split: option.split)
qed

lemma sorted_adjacent_distinct:
  fixes xs :: "'a :: linorder list"
  assumes "sorted xs" "\<And>i. 1 \<le> i \<Longrightarrow> i < length xs \<Longrightarrow> xs ! i \<noteq> xs ! (i - 1)"
  shows "distinct xs"
  unfolding distinct_conv_nth
proof (intro allI impI)
  fix i j assume ij: "i < length xs" "j < length xs" "i \<noteq> j"
  have "xs ! a \<noteq> xs ! b" if "a < b" "b < length xs" for a b
  proof -
    have "xs ! a \<le> xs ! (b - 1)" "xs ! (b - 1) \<le> xs ! b" using assms(1) that by (auto intro: sorted_nth_mono)
    moreover have "xs ! b \<noteq> xs ! (b - 1)" using assms(2) [of b] that by simp
    ultimately show ?thesis by auto
  qed
  then show "xs ! i \<noteq> xs ! j" using ij by (metis linorder_neqE_nat)
qed

lemma NewCrossCheckRefresher_pairs:
  assumes "NewCrossCheckRefresher pairs = Inr ps"
  shows "distinct (map p_ClassicKey ps)" "set ps = set pairs"
proof -
  have ps: "ps = sort_key p_ClassicKey pairs" and adj: "\<not> list_ex (\<lambda>i. p_ClassicKey (ps ! i) = p_ClassicKey (ps ! (i - 1))) [1..<length ps]"
    using assms by (auto simp: NewCrossCheckRefresher_def Let_def split: if_splits)
  show "set ps = set pairs" by (simp add: ps)
  have "sorted (map p_ClassicKey ps)" by (simp add: ps)
  then show "distinct (map p_ClassicKey ps)"
    by (rule sorted_adjacent_distinct) (use adj in \<open>auto simp: list_ex_iff\<close>)
qed

text \<open>
  The cross-check gauge never shows a stale or unfounded agreement. After a tick, for every configured pair
  and whatever the gauge showed before, it shows exactly the verdict of this tick: the absolute difference of
  the totals for a fully wrapped asset, the wrapped amount in excess of the contract's total otherwise, and
  no series at all when a snapshot is missing, unreadable or without a total, the two are more than the
  tolerance apart, or the wrapped part was never observed. The pair is reported over exactly when that figure
  exceeds one stroop.
\<close>

theorem cross_check_gauge_exact:
  assumes "NewCrossCheckRefresher pairs = Inr ps" "p \<in> set pairs"
  shows "gauge_after (snd (CrossCheck_Tick LatestSupply ps)) g (p_ClassicKey p, normalizeWrapClass (p_WrapClass p)) = verdict LatestSupply p \<and>
    (\<exists>out \<in> set (fst (CrossCheck_Tick LatestSupply ps)). xo_Pair out = p \<and>
       (xo_Kind out = CrossCheckOver \<longleftrightarrow> (\<exists>d. verdict LatestSupply p = Some d \<and> CrossCheckTolerance < d)))"
proof -
  note ps = NewCrossCheckRefresher_pairs [OF assms(1)]
  have p: "p \<in> set ps" using assms(2) ps(2) by simp
  let ?x = "(p_ClassicKey p, normalizeWrapClass (p_WrapClass p))"
  have "find (\<lambda>q. (p_ClassicKey q, normalizeWrapClass (p_WrapClass q)) = ?x) ps = Some p"
  proof -
    obtain q where q: "find (\<lambda>q. (p_ClassicKey q, normalizeWrapClass (p_WrapClass q)) = ?x) ps = Some q"
      using p by (metis (mono_tags, lifting) find_None_iff not_None_eq)
    then have "q \<in> set ps" "p_ClassicKey q = p_ClassicKey p" by (auto simp: find_Some_iff)
    then have "q = p" using ps(1) p by (auto simp: distinct_map dest: inj_onD)
    then show ?thesis using q by simp
  qed
  moreover have "xo_Pair (tickOne LatestSupply p) = p"
    by (simp add: tickOne_def read_failed_def split: sum.splits)
  moreover have "tickOne LatestSupply p \<in> set (fst (CrossCheck_Tick LatestSupply ps))"
    using p by (simp add: CrossCheck_Tick_def Let_def)
  ultimately show ?thesis using tickOne_verdict [of LatestSupply p] gauge_after_pairs [OF ps(1)] by fastforce
qed

definition sample_pair_check :: CrossCheckPair where
  "sample_pair_check = \<lparr>p_ClassicKey = ''A:G'', p_SACKey = ''CA'', p_WrapClass = WrapClassPartial\<rparr>"

definition sample_latest :: snapshot_reader where
  "sample_latest key = Inr (zeroSupply\<lparr>s_AssetKey := key, s_TotalSupply := Some 10, s_LedgerSequence := 5,
     s_SACWrappedStroops := (if key = ''A:G'' then Some 14 else None)\<rparr>)"

theorem cross_check_gauge_exact_witness:
  "gauge_after (snd (CrossCheck_Tick sample_latest [sample_pair_check])) [(''A:G'', WrapClassPartial) \<mapsto> 0]
     (''A:G'', WrapClassPartial) = Some 4"
proof -
  have n: "NewCrossCheckRefresher [sample_pair_check] = Inr [sample_pair_check]"
    by (simp add: NewCrossCheckRefresher_def sample_pair_check_def)
  have v: "verdict sample_latest sample_pair_check = Some 4" by code_simp
  from cross_check_gauge_exact [OF n, of sample_pair_check sample_latest "[(''A:G'', WrapClassPartial) \<mapsto> 0]"] v
  show ?thesis by (simp add: sample_pair_check_def normalizeWrapClass_def)
qed

end
