(* ===== verification/PricingGuard.thy ===== *)
theory PricingGuard
  imports RobustStat
begin

text \<open>
  \<open>internal/pricingguard/guard.go\<close>: the guard every reader of raw one-minute buckets passes before
  it serves one. The rational parser \<open>big.Rat.SetString\<close> and the two storage reads are arguments;
  each guard also returns the metric increments it makes. Logging is left out. A slice index out of
  range is the value \<open>None\<close>.
\<close>

section \<open>Data\<close>

record Vwap1mRow =
  v_Bucket :: gotime
  v_BaseAsset :: string
  v_QuoteAsset :: string
  v_VWAP :: string
  v_TradeCount :: int
  v_Sources :: "string list"

definition zeroRow :: Vwap1mRow where
  "zeroRow = \<lparr>v_Bucket = 0, v_BaseAsset = [], v_QuoteAsset = [], v_VWAP = [], v_TradeCount = 0,
     v_Sources = []\<rparr>"

definition SampleFetch :: nat where
  "SampleFetch = 40"

definition BaselineMaxAge :: duration where
  "BaselineMaxAge = 24 * go_hour"

datatype guard_metric =
    TrailingFetchFailed string
  | Degraded string string

section \<open>The pure decisions\<close>

text \<open>The rows of the baseline: strictly older than the candidate and within \<open>BaselineMaxAge\<close>.\<close>

definition trailingRows :: "Vwap1mRow \<Rightarrow> Vwap1mRow list \<Rightarrow> Vwap1mRow list" where
  "trailingRows candidate rows =
     filter (\<lambda>r. \<not> (\<not> v_Bucket r < v_Bucket candidate \<or>
       BaselineMaxAge < time_Sub (v_Bucket candidate) (v_Bucket r))) rows"

definition selectGuardedVWAP1m ::
  "(string \<Rightarrow> rat option) \<Rightarrow> Vwap1mRow \<Rightarrow> Vwap1mRow list \<Rightarrow> (Vwap1mRow \<times> bool \<times> bool) option" where
  "selectGuardedVWAP1m parse candidate rows =
     (case parse (v_VWAP candidate) of
        None \<Rightarrow> Some (candidate, False, False)
      | Some cand \<Rightarrow>
          let kept = trailingRows candidate rows;
              trailing = map (\<lambda>r. parse (v_VWAP r)) kept;
              (accept, lkgIdx) = GuardServedVWAP (Some cand) trailing
          in if accept then Some (candidate, False, \<not> ServedBaselineValidated trailing)
             else if 0 \<le> lkgIdx \<and> nat lkgIdx < length kept then Some (kept ! nat lkgIdx, True, False)
             else None)"

definition selectGuardedVWAP1mAt ::
  "(string \<Rightarrow> rat option) \<Rightarrow> Vwap1mRow \<Rightarrow> Vwap1mRow list \<Rightarrow> gotime \<Rightarrow> duration \<Rightarrow>
     (Vwap1mRow \<times> bool \<times> bool \<times> bool) option" where
  "selectGuardedVWAP1mAt parse candidate rows ts maxStaleness =
     (case selectGuardedVWAP1m parse candidate rows of
        None \<Rightarrow> None
      | Some (served, rejected, lowConfidence) \<Rightarrow>
          if lowConfidence then Some (zeroRow, False, False, True)
          else if \<not> rejected then Some (served, True, False, False)
          else if maxStaleness < time_Sub ts (v_Bucket served + go_minute)
          then Some (zeroRow, False, True, False)
          else Some (served, True, True, False))"

definition countDegraded :: "string \<Rightarrow> bool \<Rightarrow> bool \<Rightarrow> guard_metric list" where
  "countDegraded path rejected lowConfidence =
     (if rejected then [Degraded path ''outlier'']
      else if lowConfidence then [Degraded path ''unvalidated'']
      else [])"

section \<open>The guards\<close>

text \<open>
  \<open>fetch p limit\<close> is the reader's \<open>RecentClosedVWAP1mCombined\<close>, \<open>fetch_before p before limit\<close> its
  \<open>ClosedVWAP1mCombinedBefore\<close>; an error is \<open>None\<close>.
\<close>

definition GuardServedVWAP1mConfidence ::
  "(string \<Rightarrow> rat option) \<Rightarrow> ('p \<Rightarrow> nat \<Rightarrow> Vwap1mRow list option) \<Rightarrow> 'p \<Rightarrow> Vwap1mRow \<Rightarrow>
     ((Vwap1mRow \<times> bool \<times> bool) \<times> guard_metric list) option" where
  "GuardServedVWAP1mConfidence parse fetch p candidate =
     (case fetch p SampleFetch of
        None \<Rightarrow> Some ((candidate, False, False), [TrailingFetchFailed ''latest''])
      | Some rows \<Rightarrow>
          (case selectGuardedVWAP1m parse candidate rows of
             None \<Rightarrow> None
           | Some (served, rejected, lowConfidence) \<Rightarrow>
               Some ((served, lowConfidence, rejected), countDegraded ''latest'' rejected lowConfidence)))"

definition GuardServedVWAP1mAt ::
  "(string \<Rightarrow> rat option) \<Rightarrow> ('p \<Rightarrow> gotime \<Rightarrow> nat \<Rightarrow> Vwap1mRow list option) \<Rightarrow> 'p \<Rightarrow> Vwap1mRow \<Rightarrow>
     gotime \<Rightarrow> duration \<Rightarrow> ((Vwap1mRow \<times> bool) \<times> guard_metric list) option" where
  "GuardServedVWAP1mAt parse fetch_before p candidate ts maxStaleness =
     (case fetch_before p (v_Bucket candidate) SampleFetch of
        None \<Rightarrow> Some ((candidate, True), [TrailingFetchFailed ''at''])
      | Some rows \<Rightarrow>
          (case selectGuardedVWAP1mAt parse candidate rows ts maxStaleness of
             None \<Rightarrow> None
           | Some (served, ok, rejected, lowConfidence) \<Rightarrow>
               Some ((served, ok), countDegraded ''at'' rejected lowConfidence)))"

text \<open>The loop of the series guard over the first \<open>n\<close> rows, newest first.\<close>

fun series_loop ::
  "(string \<Rightarrow> rat option) \<Rightarrow> nat \<Rightarrow> Vwap1mRow list \<Rightarrow> (Vwap1mRow list \<times> guard_metric list) option" where
  "series_loop parse 0 rows = Some ([], [])"
| "series_loop parse (Suc n) [] = None"
| "series_loop parse (Suc n) (r # rest) =
     (case selectGuardedVWAP1m parse r (take SampleFetch rest) of
        None \<Rightarrow> None
      | Some (_, rejected, lowConfidence) \<Rightarrow>
          (case series_loop parse n rest of
             None \<Rightarrow> None
           | Some (out, ms) \<Rightarrow>
               Some (if rejected \<or> lowConfidence then out else r # out,
                 countDegraded ''series'' rejected lowConfidence @ ms)))"

text \<open>\<open>make\<close> panics on a negative capacity.\<close>

definition GuardServedVWAP1mSeries ::
  "(string \<Rightarrow> rat option) \<Rightarrow> Vwap1mRow list \<Rightarrow> int \<Rightarrow> (Vwap1mRow list \<times> guard_metric list) option" where
  "GuardServedVWAP1mSeries parse rows n =
     (let m = if int (length rows) < n then int (length rows) else n
      in if m < 0 then None else series_loop parse (nat m) rows)"

section \<open>What the selection decides\<close>

text \<open>A row the band accepts; a row that is none of the baseline's values.\<close>

definition row_within :: "(string \<Rightarrow> rat option) \<Rightarrow> rat \<Rightarrow> rat \<Rightarrow> Vwap1mRow \<Rightarrow> bool" where
  "row_within parse lo hi r = (case parse (v_VWAP r) of None \<Rightarrow> False | Some v \<Rightarrow> lo \<le> v \<and> v \<le> hi)"

definition row_band :: "(string \<Rightarrow> rat option) \<Rightarrow> Vwap1mRow \<Rightarrow> Vwap1mRow list \<Rightarrow> (rat \<times> rat) option" where
  "row_band parse candidate rows = robustBand (map (\<lambda>r. parse (v_VWAP r)) (trailingRows candidate rows))"

lemma trailingRows_mem:
  "r \<in> set (trailingRows c rows) \<longleftrightarrow>
     r \<in> set rows \<and> v_Bucket r < v_Bucket c \<and> v_Bucket c - v_Bucket r \<le> BaselineMaxAge"
  by (auto simp: trailingRows_def time_Sub_def BaselineMaxAge_def go_hour_def go_minute_def
    go_second_def max_int64_def min_int64_def)

lemma select_unparsed:
  "parse (v_VWAP c) = None \<Longrightarrow> selectGuardedVWAP1m parse c rows = Some (c, False, False)"
  by (simp add: selectGuardedVWAP1m_def)

lemma select_no_band:
  "parse (v_VWAP c) = Some x \<Longrightarrow> row_band parse c rows = None \<Longrightarrow>
     selectGuardedVWAP1m parse c rows = Some (c, False, True)"
  by (simp add: selectGuardedVWAP1m_def row_band_def GuardServedVWAP_def ServedBaselineValidated_def)

lemma select_in_band:
  "row_band parse c rows = Some (lo, hi) \<Longrightarrow> row_within parse lo hi c \<Longrightarrow>
     selectGuardedVWAP1m parse c rows = Some (c, False, False)"
  by (auto simp: selectGuardedVWAP1m_def row_band_def row_within_def GuardServedVWAP_def
    ServedBaselineValidated_def withinBand_def split: option.splits)

text \<open>A rejected candidate: the newest row of the baseline inside the band stands in.\<close>

lemma select_rejected:
  assumes x: "parse (v_VWAP c) = Some x" and band: "row_band parse c rows = Some (lo, hi)"
    and out: "\<not> row_within parse lo hi c"
  obtains r where "selectGuardedVWAP1m parse c rows = Some (r, True, False)"
    "find (row_within parse lo hi) (trailingRows c rows) = Some r"
proof -
  let ?kept = "trailingRows c rows"
  let ?ts = "map (\<lambda>r. parse (v_VWAP r)) ?kept"
  have b: "robustBand ?ts = Some (lo, hi)" using band by (simp add: row_band_def)
  obtain k where k: "guard_walk 0 ?ts lo hi = Some k" by (rule guard_walk_finds [OF b])
  have kl: "k < length ?kept" and here: "row_within parse lo hi (?kept ! k)"
    and before: "\<forall>j < k. \<not> row_within parse lo hi (?kept ! j)"
    using k [unfolded guard_walk_Some] by (auto simp: row_within_def split: option.splits)
  have "GuardServedVWAP (Some x) ?ts = (False, int k)"
    using b k out x by (simp add: GuardServedVWAP_def withinBand_def row_within_def)
  then have "selectGuardedVWAP1m parse c rows = Some (?kept ! k, True, False)"
    using x kl by (simp add: selectGuardedVWAP1m_def Let_def)
  moreover have "find (row_within parse lo hi) ?kept = Some (?kept ! k)"
    using kl here before by (auto simp: find_Some_iff)
  ultimately show ?thesis by (rule that)
qed

text \<open>The cases of the selection, from which every guard below is judged.\<close>

lemma select_cases:
  obtains (unparsed) "parse (v_VWAP c) = None" "selectGuardedVWAP1m parse c rows = Some (c, False, False)"
  | (unvalidated) "row_band parse c rows = None" "selectGuardedVWAP1m parse c rows = Some (c, False, True)"
  | (accepted) lo hi where "row_band parse c rows = Some (lo, hi)" "row_within parse lo hi c"
      "selectGuardedVWAP1m parse c rows = Some (c, False, False)"
  | (rejected) lo hi r where "row_band parse c rows = Some (lo, hi)" "\<not> row_within parse lo hi c"
      "find (row_within parse lo hi) (trailingRows c rows) = Some r"
      "selectGuardedVWAP1m parse c rows = Some (r, True, False)"
proof (cases "parse (v_VWAP c)")
  case None
  then show ?thesis by (intro unparsed select_unparsed)
next
  case (Some x)
  show ?thesis
  proof (cases "row_band parse c rows")
    case None
    then show ?thesis using Some by (intro unvalidated select_no_band)
  next
    case band: (Some b)
    obtain lo hi where b: "row_band parse c rows = Some (lo, hi)" using band by (cases b) simp
    show ?thesis
    proof (cases "row_within parse lo hi c")
      case True
      then show ?thesis by (rule accepted [OF b _ select_in_band [OF b True]])
    next
      case False
      show ?thesis by (rule select_rejected [where parse = parse, OF Some b False]) (rule rejected [OF b False])
    qed
  qed
qed

lemma find_in_baseline:
  assumes "find P (trailingRows c rows) = Some r"
  shows "r \<in> set rows \<and> P r \<and> v_Bucket r < v_Bucket c \<and> v_Bucket c - v_Bucket r \<le> BaselineMaxAge"
proof -
  have "r \<in> set (trailingRows c rows)" "P r" using assms by (auto simp: find_Some_iff)
  then show ?thesis by (simp add: trailingRows_mem)
qed


section \<open>Theorems\<close>

definition newest_first :: "Vwap1mRow list \<Rightarrow> bool" where
  "newest_first rows = sorted_wrt (\<lambda>a b. v_Bucket b < v_Bucket a) rows"

lemma newest_first_filter: "newest_first rows \<Longrightarrow> newest_first (filter P rows)"
  by (simp add: newest_first_def sorted_wrt_filter)

text \<open>In a newest-first list the first row with a property is the newest one.\<close>

lemma find_newest:
  assumes "newest_first rows" "find P rows = Some r" "r' \<in> set rows" "P r'"
  shows "v_Bucket r' \<le> v_Bucket r"
  using assms by (induction rows) (auto simp: newest_first_def split: if_splits)

lemma time_Sub_antimono: "u \<le> v \<Longrightarrow> time_Sub t v \<le> time_Sub t u"
  by (auto simp: time_Sub_def)


text \<open>A history of five minutes around 10 with a print of 900 as its newest row.\<close>

definition sample_row :: "int \<Rightarrow> string \<Rightarrow> Vwap1mRow" where
  "sample_row i v = zeroRow \<lparr>v_Bucket := i * go_minute, v_VWAP := v\<rparr>"

definition sample_rows :: "Vwap1mRow list" where
  "sample_rows = [sample_row 9 ''900'', sample_row 8 ''10'', sample_row 7 ''11'', sample_row 6 ''10'']"

definition sample_parse :: "string \<Rightarrow> rat option" where
  "sample_parse s = (if s = ''10'' then Some 10 else if s = ''11'' then Some 11
     else if s = ''900'' then Some 900 else None)"

definition sample_before :: "unit \<Rightarrow> gotime \<Rightarrow> nat \<Rightarrow> Vwap1mRow list option" where
  "sample_before p b k = Some (take k (filter (\<lambda>r. v_Bucket r < b) sample_rows))"

lemma sample_newest_first: "newest_first sample_rows"
  by (simp add: newest_first_def sample_rows_def sample_row_def go_minute_def go_second_def)


text \<open>Whether the point-in-time guard serves the bucket itself depends on no time bound.\<close>

lemma at_serves_itself:
  assumes fetch: "fetch_before p (v_Bucket r) SampleFetch = Some rows"
  shows "(\<exists>ms. GuardServedVWAP1mAt parse fetch_before p r ts maxStaleness = Some ((r, True), ms)) \<longleftrightarrow>
    (\<exists>served. selectGuardedVWAP1m parse r rows = Some (served, False, False))"
proof (cases rule: select_cases [of parse r rows])
  case (rejected lo hi r')
  have "r' \<noteq> r" using find_in_baseline [OF rejected(3)] by auto
  then show ?thesis using rejected(4) fetch by (simp add: GuardServedVWAP1mAt_def selectGuardedVWAP1mAt_def)
qed (use fetch in \<open>auto simp: GuardServedVWAP1mAt_def selectGuardedVWAP1mAt_def\<close>)

lemma series_loop_filter:
  assumes "newest_first rows" "n \<le> length rows"
    "\<And>pre r rest. rows = pre @ r # rest \<Longrightarrow>
       keep r \<longleftrightarrow> (\<exists>served. selectGuardedVWAP1m parse r (take SampleFetch rest) = Some (served, False, False))"
  shows "\<exists>ms. series_loop parse n rows = Some (filter keep (take n rows), ms)"
  using assms
proof (induction n arbitrary: rows)
  case 0
  then show ?case by simp
next
  case (Suc n)
  then obtain r rest where rows: "rows = r # rest" by (cases rows) auto
  have "\<exists>ms. series_loop parse n rest = Some (filter keep (take n rest), ms)"
  proof (rule Suc.IH)
    show "newest_first rest" using Suc.prems(1) by (simp add: rows newest_first_def)
    show "n \<le> length rest" using Suc.prems(2) by (simp add: rows)
    show "keep r' \<longleftrightarrow> (\<exists>served. selectGuardedVWAP1m parse r' (take SampleFetch rest') = Some (served, False, False))"
      if "rest = pre @ r' # rest'" for pre r' rest'
      using Suc.prems(3) [of "r # pre" r' rest'] that by (simp add: rows)
  qed
  moreover have "keep r \<longleftrightarrow> (\<exists>served. selectGuardedVWAP1m parse r (take SampleFetch rest) = Some (served, False, False))"
    using Suc.prems(3) [of "[]" r rest] by (simp add: rows)
  ultimately show ?case unfolding rows
    by (cases rule: select_cases [of parse r "take SampleFetch rest"]) auto
qed

lemma older_rows:
  assumes "newest_first (pre @ r # rest)"
  shows "filter (\<lambda>s. v_Bucket s < v_Bucket r) (pre @ r # rest) = rest"
  using assms by (auto simp: newest_first_def sorted_wrt_append intro!: filter_True filter_False)

text \<open>
  The series read and the point-in-time read publish the same buckets: over a stored history,
  newest first, the series of the first \<open>n\<close> rows never panics and keeps exactly those that the
  point-in-time guard would serve as themselves, whatever instant and staleness bound it is asked with.
\<close>

theorem series_matches_point_in_time:
  assumes order: "newest_first rows" and n: "0 \<le> n"
    and store: "\<And>b k. fetch_before p b k = Some (take k (filter (\<lambda>r. v_Bucket r < b) rows))"
  shows "\<exists>ms. GuardServedVWAP1mSeries parse rows n =
    Some (filter (\<lambda>r. \<exists>m. GuardServedVWAP1mAt parse fetch_before p r ts maxStaleness = Some ((r, True), m))
      (take (nat n) rows), ms)"
proof -
  let ?keep = "\<lambda>r. \<exists>m. GuardServedVWAP1mAt parse fetch_before p r ts maxStaleness = Some ((r, True), m)"
  let ?m = "min (nat n) (length rows)"
  have "\<exists>ms. series_loop parse ?m rows = Some (filter ?keep (take ?m rows), ms)"
  proof (rule series_loop_filter [OF order])
    show "?keep r \<longleftrightarrow> (\<exists>served. selectGuardedVWAP1m parse r (take SampleFetch rest) = Some (served, False, False))"
      if "rows = pre @ r # rest" for pre r rest
    proof (rule at_serves_itself)
      show "fetch_before p (v_Bucket r) SampleFetch = Some (take SampleFetch rest)"
        unfolding store that by (simp only: older_rows [OF order [unfolded that]])
    qed
  qed simp
  moreover have "take ?m rows = take (nat n) rows" by (cases "nat n \<le> length rows") auto
  moreover have "GuardServedVWAP1mSeries parse rows n = series_loop parse ?m rows"
    using n by (auto simp: GuardServedVWAP1mSeries_def Let_def min_def intro: arg_cong)
  ultimately show ?thesis by simp
qed

theorem series_matches_point_in_time_witness:
  "\<exists>ms. GuardServedVWAP1mSeries sample_parse sample_rows 3 =
    Some (filter (\<lambda>r. \<exists>m. GuardServedVWAP1mAt sample_parse sample_before () r 0 0 = Some ((r, True), m))
      (take (nat 3) sample_rows), ms)"
  by (rule series_matches_point_in_time [OF sample_newest_first]) (simp_all add: sample_before_def)

end
