(* ===== verification/SubstanceGate.thy ===== *)
theory SubstanceGate
  imports Aliases GoErr "HOL-Library.AList"
begin

text \<open>
  \<open>internal/pricingguard/substance.go\<close>, the thin-market gate, with the bucket granularities of
  \<open>internal/storage/timescale/aggregates.go\<close> it measures at and the \<open>[pricing_guard]\<close> section of
  \<open>internal/config/config.go\<close> it is configured by.

  The clock is an argument; the two SQL measurements and \<open>big.Rat.SetString\<close> are parameters; a Go
  map is an association list, and a nil rational met by \<open>Cmp\<close> is the value \<open>None\<close>. A call of
  \<open>Measure\<close> takes the mutex twice, around its cache lookup and around its publication, so the two
  halves are separate steps that calls of other goroutines may come between.
\<close>

section \<open>Bucket granularities\<close>

type_synonym HistoryGranularity = string

abbreviation Granularity1m :: HistoryGranularity where
  "Granularity1m \<equiv> ''1m''"

abbreviation Granularity1h :: HistoryGranularity where
  "Granularity1h \<equiv> ''1h''"

definition AllHistoryGranularities :: "HistoryGranularity list" where
  "AllHistoryGranularities = [''1m'', ''15m'', ''1h'', ''4h'', ''1d'', ''1w'', ''1mo'']"

definition Granularity_Validate :: "HistoryGranularity \<Rightarrow> bool" where
  "Granularity_Validate g = list_ex (\<lambda>known. g = known) AllHistoryGranularities"

definition BucketDuration :: "HistoryGranularity \<Rightarrow> duration" where
  "BucketDuration g =
     (if g = ''1m'' then go_minute
      else if g = ''15m'' then 15 * go_minute
      else if g = ''1h'' then go_hour
      else if g = ''4h'' then 4 * go_hour
      else if g = ''1d'' then 24 * go_hour
      else if g = ''1w'' then 7 * 24 * go_hour
      else if g = ''1mo'' then 30 * 24 * go_hour
      else 0)"

definition Granularity_Seconds :: "HistoryGranularity \<Rightarrow> int" where
  "Granularity_Seconds g = go_quo (BucketDuration g) go_second"

definition PriceAtMinuteRungMaxAge :: duration where
  "PriceAtMinuteRungMaxAge = 48 * go_hour"

definition priceAtResolutionLadder :: "duration \<Rightarrow> HistoryGranularity list" where
  "priceAtResolutionLadder age =
     (if age \<le> PriceAtMinuteRungMaxAge then [''1m'', ''15m'', ''1h'', ''4h'', ''1d'']
      else if age \<le> 45 * 24 * go_hour then [''1h'', ''4h'', ''1d'']
      else [''1d''])"

record VWAPAtRow =
  at_VWAP :: string
  at_Bucket :: gotime
  at_Resolution :: HistoryGranularity

text \<open>
  \<open>closed g\<close> is the nearest closed bucket of one resolution at or before the instant: an error, none,
  or its start and VWAP (\<open>closedVWAPAtOrBeforeRes\<close>, one SQL read). \<open>Inl None\<close> is \<open>sql.ErrNoRows\<close>.
\<close>

fun ladder_walk ::
  "(HistoryGranularity \<Rightarrow> 'e + (gotime \<times> string) option) \<Rightarrow> gotime \<Rightarrow> duration \<Rightarrow>
     HistoryGranularity list \<Rightarrow> 'e option + VWAPAtRow" where
  "ladder_walk clsd ts maxStaleness [] = Inl None"
| "ladder_walk clsd ts maxStaleness (g # gs) =
     (case clsd g of
        Inl e \<Rightarrow> Inl (Some e)
      | Inr None \<Rightarrow> ladder_walk clsd ts maxStaleness gs
      | Inr (Some (bucket, vwap)) \<Rightarrow>
          if time_Sub ts (bucket + BucketDuration g) \<le> maxStaleness
          then Inr \<lparr>at_VWAP = vwap, at_Bucket = bucket, at_Resolution = g\<rparr>
          else ladder_walk clsd ts maxStaleness gs)"

definition ClosedVWAPAtOrBefore ::
  "(HistoryGranularity \<Rightarrow> 'e + (gotime \<times> string) option) \<Rightarrow> gotime \<Rightarrow> gotime \<Rightarrow> duration \<Rightarrow>
     'e option + VWAPAtRow" where
  "ClosedVWAPAtOrBefore clsd now ts maxStaleness =
     (let age = time_Sub now ts; age = if age < 0 then 0 else age
      in ladder_walk clsd ts maxStaleness (priceAtResolutionLadder age))"

section \<open>The policy\<close>

record SubstancePolicy =
  MinVolumeUSD :: "rat option"
  MinBuckets :: int
  MinSpan :: duration
  Window :: duration

definition DefaultSubstanceMinVolumeUSD :: int where
  "DefaultSubstanceMinVolumeUSD = 1000"

definition DefaultSubstanceMinBuckets :: int where
  "DefaultSubstanceMinBuckets = 20"

definition DefaultSubstanceMinSpan :: duration where
  "DefaultSubstanceMinSpan = 6 * go_hour"

definition DefaultSubstanceWindow :: duration where
  "DefaultSubstanceWindow = 24 * go_hour"

definition withDefaults :: "SubstancePolicy \<Rightarrow> SubstancePolicy" where
  "withDefaults p =
     \<lparr>MinVolumeUSD = (if MinVolumeUSD p = None then Some (of_int DefaultSubstanceMinVolumeUSD) else MinVolumeUSD p),
      MinBuckets = (if MinBuckets p = 0 then DefaultSubstanceMinBuckets else MinBuckets p),
      MinSpan = (if MinSpan p = 0 then DefaultSubstanceMinSpan else MinSpan p),
      Window = (if Window p = 0 then DefaultSubstanceWindow else Window p)\<rparr>"

definition durationOrZero :: "int \<Rightarrow> duration \<Rightarrow> duration" where
  "durationOrZero n unit =
     (if go_quo max_int64 unit < n \<or> n < go_quo min_int64 unit then 0 else wrap64 (n * unit))"

definition SubstancePolicyFromValues :: "f64 \<Rightarrow> int \<Rightarrow> int \<Rightarrow> int \<Rightarrow> SubstancePolicy" where
  "SubstancePolicyFromValues minVolumeUSD minBuckets minSpanMinutes windowHours =
     \<lparr>MinVolumeUSD = (if FFin 0 < minVolumeUSD then SetFloat64 minVolumeUSD else None),
      MinBuckets = minBuckets,
      MinSpan = durationOrZero minSpanMinutes go_minute,
      Window = durationOrZero windowHours go_hour\<rparr>"

section \<open>The floors\<close>

datatype SubstanceFloor = FloorNone | FloorBuckets | FloorSpan | FloorVolume | FloorVolumeUnvalued

fun floorRank :: "SubstanceFloor \<Rightarrow> nat" where
  "floorRank FloorNone = 0"
| "floorRank FloorBuckets = 1"
| "floorRank FloorSpan = 2"
| "floorRank FloorVolume = 3"
| "floorRank FloorVolumeUnvalued = 4"

definition furthestFloor :: "SubstanceFloor \<Rightarrow> SubstanceFloor \<Rightarrow> SubstanceFloor" where
  "furthestFloor a b = (if floorRank a < floorRank b then b else a)"

definition FailedFloor ::
  "rat option \<Rightarrow> int \<Rightarrow> int \<Rightarrow> int \<Rightarrow> SubstancePolicy \<Rightarrow> SubstanceFloor option" where
  "FailedFloor volumeUSD buckets valuedBuckets spanSeconds policy =
     (let volume = (case volumeUSD of None \<Rightarrow> 0 | Some v \<Rightarrow> v) in
      if buckets < MinBuckets policy then Some FloorBuckets
      else if wrap64 (spanSeconds * go_second) < MinSpan policy then Some FloorSpan
      else case MinVolumeUSD policy of
        None \<Rightarrow> None
      | Some least \<Rightarrow>
          if volume < least
          then Some (if wrap64 (2 * valuedBuckets) < buckets then FloorVolumeUnvalued else FloorVolume)
          else Some FloorNone)"

definition SubstanceOK :: "rat option \<Rightarrow> int \<Rightarrow> int \<Rightarrow> SubstancePolicy \<Rightarrow> bool option" where
  "SubstanceOK volumeUSD buckets spanSeconds policy =
     map_option (\<lambda>f. f = FloorNone) (FailedFloor volumeUSD buckets buckets spanSeconds policy)"

definition hourGrainPolicy :: "SubstancePolicy \<Rightarrow> SubstancePolicy" where
  "hourGrainPolicy p =
     (let buckets = go_quo (wrap64 (MinBuckets p + 60 - 1)) 60;
          span = MinSpan p - go_rem (MinSpan p) go_hour
      in p\<lparr>MinBuckets := (if go_hour \<le> span \<and> buckets < 2 then 2 else buckets), MinSpan := span\<rparr>)"

section \<open>The [pricing\_guard] configuration\<close>

record PricingGuardConfig =
  DisableSubstanceGate :: bool
  SubstanceMinVolumeUSD :: f64
  SubstanceMinBuckets :: int
  SubstanceMinSpanMinutes :: int
  SubstanceWindowHours :: int
  FXCrossMaxAgeHours :: int
  DisableFiatBasis :: bool
  FiatPeggedClassicAssets :: "(string \<times> string) list"

definition defaultPricingGuardConfig :: PricingGuardConfig where
  "defaultPricingGuardConfig =
     \<lparr>DisableSubstanceGate = False, SubstanceMinVolumeUSD = FFin 1000, SubstanceMinBuckets = 20,
      SubstanceMinSpanMinutes = 360, SubstanceWindowHours = 24, FXCrossMaxAgeHours = 76,
      DisableFiatBasis = False, FiatPeggedClassicAssets = []\<rparr>"

definition maxSubstanceWindowHours :: int where
  "maxSubstanceWindowHours = 400 * 24"

definition cmp_Or :: "int \<Rightarrow> int \<Rightarrow> int" where
  "cmp_Or a b = (if a \<noteq> 0 then a else b)"

datatype config_error =
    NegativeFloor string
  | WindowTooLong
  | SpanUnsatisfiable
  | BucketsUnsatisfiable
  | PegKey string error
  | PegKeyNotClassic string
  | PegTicker string error

definition validateSubstanceSatisfiable :: "PricingGuardConfig \<Rightarrow> config_error option" where
  "validateSubstanceSatisfiable pg =
     (let windowHours = cmp_Or (SubstanceWindowHours pg) (SubstanceWindowHours defaultPricingGuardConfig);
          spanMinutes = cmp_Or (SubstanceMinSpanMinutes pg) (SubstanceMinSpanMinutes defaultPricingGuardConfig);
          buckets = cmp_Or (SubstanceMinBuckets pg) (SubstanceMinBuckets defaultPricingGuardConfig)
      in if maxSubstanceWindowHours < windowHours then Some WindowTooLong
         else let windowMinutes = windowHours * 60
         in if windowMinutes - 2 < spanMinutes then Some SpanUnsatisfiable
            else if windowMinutes - 1 < buckets then Some BucketsUnsatisfiable
            else None)"

text \<open>The map of pegs is ranged over in an order of the runtime's choosing: the list's.\<close>

fun validate_pegs :: "sdk \<Rightarrow> (string \<times> string) list \<Rightarrow> config_error option" where
  "validate_pegs k [] = None"
| "validate_pegs k ((rawAsset, ticker) # rest) =
     (case ParseAsset k rawAsset of
        Inl e \<Rightarrow> Some (PegKey rawAsset e)
      | Inr asset \<Rightarrow>
          if Type asset \<noteq> AssetClassic then Some (PegKeyNotClassic rawAsset)
          else (case NewFiatAsset ticker of
                  Inl e \<Rightarrow> Some (PegTicker rawAsset e)
                | Inr _ \<Rightarrow> validate_pegs k rest))"

definition PricingGuardConfig_validate :: "sdk \<Rightarrow> PricingGuardConfig \<Rightarrow> config_error option" where
  "PricingGuardConfig_validate k pg =
     (if SubstanceMinVolumeUSD pg < FFin 0 then Some (NegativeFloor ''substance_min_volume_usd'')
      else if SubstanceMinBuckets pg < 0 then Some (NegativeFloor ''substance_min_buckets'')
      else if SubstanceMinSpanMinutes pg < 0 then Some (NegativeFloor ''substance_min_span_minutes'')
      else if SubstanceWindowHours pg < 0 then Some (NegativeFloor ''substance_window_hours'')
      else case validateSubstanceSatisfiable pg of
        Some e \<Rightarrow> Some e
      | None \<Rightarrow>
          if FXCrossMaxAgeHours pg < 0 then Some (NegativeFloor ''fx_cross_max_age_hours'')
          else validate_pegs k (FiatPeggedClassicAssets pg))"

section \<open>The gate's state\<close>

record SubstanceEvidence =
  ev_Base :: Asset
  ev_Quote :: Asset
  ev_Window :: duration
  ev_MeasuredAt :: gotime
  ev_WindowEnd :: gotime
  ev_VolumeUSD :: string
  ev_Buckets :: int
  ev_ValuedBuckets :: int
  ev_SpanSeconds :: int
  ev_Policy :: SubstancePolicy
  ev_Floor :: SubstanceFloor

record substanceVerdict =
  sv_allowed :: bool
  sv_floor :: SubstanceFloor
  sv_evidence :: SubstanceEvidence
  sv_expires :: gotime

record SubstanceVerdict =
  sub_Allowed :: bool
  sub_Measured :: bool
  sub_Floor :: SubstanceFloor
  sub_Evidence :: "SubstanceEvidence option"

record MarketSubstance =
  ms_VolumeUSD :: string
  ms_Buckets :: int
  ms_SpanSeconds :: int
  ms_ValuedBuckets :: int

type_synonym verdict_cache = "(string \<times> substanceVerdict) list"

record SubstanceGate =
  sg_policy :: SubstancePolicy
  sg_cache :: verdict_cache
  sg_atCache :: verdict_cache
  sg_logged :: "(string \<times> bool) list"

text \<open>What the gate reads through: the aliases in force, the parser, and the two measurements.\<close>

record substance_env =
  se_network :: network
  se_parse :: "string \<Rightarrow> rat option"
  PairMarketSubstance :: "Asset list \<Rightarrow> Asset list \<Rightarrow> duration \<Rightarrow> MarketSubstance option"
  PairMarketSubstanceAt ::
    "Asset list \<Rightarrow> Asset list \<Rightarrow> gotime \<Rightarrow> duration \<Rightarrow> HistoryGranularity \<Rightarrow> MarketSubstance option"

definition substanceCacheTTL :: duration where
  "substanceCacheTTL = 60 * go_second"

definition substanceCacheMax :: nat where
  "substanceCacheMax = 8192"

definition substanceLoggedMax :: nat where
  "substanceLoggedMax = 2 ^ 16"

definition NewSubstanceGate :: "SubstancePolicy \<Rightarrow> SubstanceGate" where
  "NewSubstanceGate opts_policy =
     \<lparr>sg_policy = withDefaults opts_policy, sg_cache = [], sg_atCache = [], sg_logged = []\<rparr>"

definition gate_Policy :: "SubstanceGate option \<Rightarrow> SubstancePolicy" where
  "gate_Policy g =
     (case g of
        None \<Rightarrow> withDefaults \<lparr>MinVolumeUSD = None, MinBuckets = 0, MinSpan = 0, Window = 0\<rparr>
      | Some g \<Rightarrow> sg_policy g)"

definition entry_verdict :: "substanceVerdict \<Rightarrow> SubstanceVerdict" where
  "entry_verdict e =
     \<lparr>sub_Allowed = sv_allowed e, sub_Measured = True, sub_Floor = sv_floor e,
      sub_Evidence = Some (sv_evidence e)\<rparr>"

definition onChain :: "Asset \<Rightarrow> bool" where
  "onChain a = (Type a \<in> {AssetNative, AssetClassic, AssetSoroban})"

definition SubstanceGated :: "Asset \<Rightarrow> Asset \<Rightarrow> bool" where
  "SubstanceGated base quote = (onChain base \<or> onChain quote)"

definition pairCacheKey :: "Asset \<Rightarrow> Asset \<Rightarrow> string" where
  "pairCacheKey base quote =
     (let b = Asset_String base; q = Asset_String quote in
      if q < b then q @ [CHR 0x00] @ b else b @ [CHR 0x00] @ q)"

definition sweepOrReset :: "verdict_cache \<Rightarrow> gotime \<Rightarrow> verdict_cache" where
  "sweepOrReset m now =
     (if length m < substanceCacheMax then m
      else let live = filter (\<lambda>(k, v). now < sv_expires v) m
      in if substanceCacheMax \<le> length live then [] else live)"

section \<open>Measuring\<close>

text \<open>\<open>None\<close>: a panic; \<open>Some None\<close>: no verdict, the store failed; else the entry, its expiry unset.\<close>

definition measureUnion ::
  "substance_env \<Rightarrow> Asset \<Rightarrow> Asset \<Rightarrow> SubstancePolicy \<Rightarrow> gotime \<Rightarrow> gotime \<Rightarrow>
     (Asset list \<Rightarrow> Asset list \<Rightarrow> MarketSubstance option) \<Rightarrow> substanceVerdict option option" where
  "measureUnion env base quote pol measuredAt windowEnd read =
     (case read (AssetAliases (se_network env) base) (AssetAliases (se_network env) quote) of
        None \<Rightarrow> Some None
      | Some m \<Rightarrow>
          let vol = (case se_parse env (ms_VolumeUSD m) of None \<Rightarrow> 0 | Some v \<Rightarrow> v) in
          (case FailedFloor (Some vol) (ms_Buckets m) (ms_ValuedBuckets m) (ms_SpanSeconds m) pol of
             None \<Rightarrow> None
           | Some failed \<Rightarrow>
               Some (Some \<lparr>sv_allowed = (failed = FloorNone), sv_floor = failed,
                 sv_evidence = \<lparr>ev_Base = base, ev_Quote = quote, ev_Window = Window pol,
                   ev_MeasuredAt = measuredAt, ev_WindowEnd = windowEnd, ev_VolumeUSD = ms_VolumeUSD m,
                   ev_Buckets = ms_Buckets m, ev_ValuedBuckets = ms_ValuedBuckets m,
                   ev_SpanSeconds = ms_SpanSeconds m, ev_Policy = pol, ev_Floor = failed\<rparr>,
                 sv_expires = 0\<rparr>)))"

definition cached :: "verdict_cache \<Rightarrow> string \<Rightarrow> gotime \<Rightarrow> SubstanceVerdict option" where
  "cached cache key now =
     (case map_of cache key of
        Some prior \<Rightarrow> if now < sv_expires prior then Some (entry_verdict prior) else None
      | None \<Rightarrow> None)"

definition unmeasured :: SubstanceVerdict where
  "unmeasured = \<lparr>sub_Allowed = False, sub_Measured = False, sub_Floor = FloorNone, sub_Evidence = None\<rparr>"

definition out_of_scope :: SubstanceVerdict where
  "out_of_scope = \<lparr>sub_Allowed = True, sub_Measured = True, sub_Floor = FloorNone, sub_Evidence = None\<rparr>"

text \<open>The second critical section of \<open>Measure\<close> and of \<open>MeasureAt\<close>.\<close>

definition publish_live :: "Asset \<Rightarrow> Asset \<Rightarrow> gotime \<Rightarrow> substanceVerdict \<Rightarrow> SubstanceGate \<Rightarrow> SubstanceGate" where
  "publish_live base quote now entry g =
     (let key = pairCacheKey base quote;
          entry = entry\<lparr>sv_expires := now + substanceCacheTTL\<rparr>
      in g\<lparr>sg_cache := AList.update key entry (sweepOrReset (sg_cache g) now),
           sg_logged := AList.update key (sv_allowed entry)
             (if substanceLoggedMax \<le> length (sg_logged g) then [] else sg_logged g)\<rparr>)"

definition Measure ::
  "substance_env \<Rightarrow> SubstanceGate option \<Rightarrow> gotime \<Rightarrow> Asset \<Rightarrow> Asset \<Rightarrow>
     (SubstanceVerdict \<times> SubstanceGate option) option" where
  "Measure env gate now base quote =
     (case gate of
        None \<Rightarrow> Some (out_of_scope, gate)
      | Some g \<Rightarrow>
          if \<not> SubstanceGated base quote then Some (out_of_scope, gate)
          else case cached (sg_cache g) (pairCacheKey base quote) now of
            Some v \<Rightarrow> Some (v, gate)
          | None \<Rightarrow>
              (case measureUnion env base quote (sg_policy g) now now
                 (\<lambda>bases quotes. PairMarketSubstance env bases quotes (Window (sg_policy g))) of
                 None \<Rightarrow> None
               | Some None \<Rightarrow> Some (unmeasured, gate)
               | Some (Some entry) \<Rightarrow>
                   Some (entry_verdict entry, Some (publish_live base quote now entry g))))"

definition policyAt :: "SubstanceGate \<Rightarrow> duration \<Rightarrow> HistoryGranularity \<times> SubstancePolicy" where
  "policyAt g age =
     (if age \<le> PriceAtMinuteRungMaxAge then (Granularity1m, sg_policy g)
      else (Granularity1h, hourGrainPolicy (sg_policy g)))"

definition at_key :: "Asset \<Rightarrow> Asset \<Rightarrow> HistoryGranularity \<Rightarrow> gotime \<Rightarrow> string" where
  "at_key base quote grain asOf =
     pairCacheKey base quote @ [CHR 0x00] @ grain @ [CHR 0x00] @ int_String (time_Unix asOf)"

text \<open>What a point-in-time question at \<open>moment\<close> is measured over: grain, policy, window end.\<close>

definition at_question :: "SubstanceGate \<Rightarrow> gotime \<Rightarrow> gotime \<Rightarrow> HistoryGranularity \<times> SubstancePolicy \<times> gotime" where
  "at_question g now moment =
     (let asOf = (if now < moment then now else moment);
          (grain, pol) = policyAt g (time_Sub now asOf)
      in (grain, pol, time_Truncate asOf (BucketDuration grain)))"

definition publish_at :: "string \<Rightarrow> gotime \<Rightarrow> substanceVerdict \<Rightarrow> SubstanceGate \<Rightarrow> SubstanceGate" where
  "publish_at key now entry g =
     g\<lparr>sg_atCache := AList.update key (entry\<lparr>sv_expires := now + substanceCacheTTL\<rparr>)
         (sweepOrReset (sg_atCache g) now)\<rparr>"

definition MeasureAt ::
  "substance_env \<Rightarrow> SubstanceGate option \<Rightarrow> gotime \<Rightarrow> Asset \<Rightarrow> Asset \<Rightarrow> gotime \<Rightarrow>
     (SubstanceVerdict \<times> SubstanceGate option) option" where
  "MeasureAt env gate now base quote moment =
     (case gate of
        None \<Rightarrow> Some (out_of_scope, gate)
      | Some g \<Rightarrow>
          if \<not> SubstanceGated base quote then Some (out_of_scope, gate)
          else let (grain, pol, asOf) = at_question g now moment;
                   key = at_key base quote grain asOf
          in case cached (sg_atCache g) key now of
            Some v \<Rightarrow> Some (v, gate)
          | None \<Rightarrow>
              (case measureUnion env base quote pol now asOf
                 (\<lambda>bases quotes. PairMarketSubstanceAt env bases quotes asOf (Window pol) grain) of
                 None \<Rightarrow> None
               | Some None \<Rightarrow> Some (unmeasured, gate)
               | Some (Some entry) \<Rightarrow>
                   Some (entry_verdict entry, Some (publish_at key now entry g))))"

section \<open>The questions asked of the gate\<close>

datatype substance_metric = SubstanceUnmeasured string | SubstanceWithheld string SubstanceFloor
  | ThinAdmitted string SubstanceFloor

definition countVerdict :: "string \<Rightarrow> bool \<Rightarrow> bool \<Rightarrow> SubstanceFloor \<Rightarrow> substance_metric list" where
  "countVerdict surface allowed measured failed =
     (if \<not> measured then [SubstanceUnmeasured surface]
      else if \<not> allowed then [SubstanceWithheld surface failed]
      else [])"

definition Probe ::
  "substance_env \<Rightarrow> gotime \<Rightarrow> Asset \<Rightarrow> Asset \<Rightarrow> SubstanceGate option \<Rightarrow>
     ((bool \<times> bool \<times> SubstanceFloor) \<times> SubstanceGate option) option" where
  "Probe env now base quote gate =
     map_option (\<lambda>(v, g). ((sub_Allowed v, sub_Measured v, sub_Floor v), g)) (Measure env gate now base quote)"

definition gate_Verdict ::
  "substance_env \<Rightarrow> gotime \<Rightarrow> Asset \<Rightarrow> Asset \<Rightarrow> string \<Rightarrow> SubstanceGate option \<Rightarrow>
     ((bool \<times> bool) \<times> substance_metric list \<times> SubstanceGate option) option" where
  "gate_Verdict env now base quote surface gate =
     map_option (\<lambda>((allowed, measured, failed), g).
       ((allowed, measured), countVerdict surface allowed measured failed, g)) (Probe env now base quote gate)"

definition Allowed ::
  "substance_env \<Rightarrow> gotime \<Rightarrow> Asset \<Rightarrow> Asset \<Rightarrow> string \<Rightarrow> SubstanceGate option \<Rightarrow>
     (bool \<times> substance_metric list \<times> SubstanceGate option) option" where
  "Allowed env now base quote surface gate =
     map_option (\<lambda>((allowed, measured), r). (allowed \<or> \<not> measured, r)) (gate_Verdict env now base quote surface gate)"

definition AllowedAt ::
  "substance_env \<Rightarrow> gotime \<Rightarrow> Asset \<Rightarrow> Asset \<Rightarrow> gotime \<Rightarrow> string \<Rightarrow> SubstanceGate option \<Rightarrow>
     (bool \<times> substance_metric list \<times> SubstanceGate option) option" where
  "AllowedAt env now base quote moment surface gate =
     map_option (\<lambda>(v, g). (sub_Allowed v \<or> \<not> sub_Measured v,
       countVerdict surface (sub_Allowed v) (sub_Measured v) (sub_Floor v), g))
       (MeasureAt env gate now base quote moment)"

text \<open>
  The asset-level fold goes through an interface: \<open>prb\<close> is any \<open>SubstanceVerdicter.Probe\<close>, threading
  the state of its implementation.
\<close>

type_synonym 's prober = "Asset \<Rightarrow> Asset \<Rightarrow> 's \<Rightarrow> ((bool \<times> bool \<times> SubstanceFloor) \<times> 's) option"

definition fiatUSD :: Asset where
  "fiatUSD = zeroAsset\<lparr>Type := AssetFiat, Code := ''USD''\<rparr>"

fun asset_loop ::
  "'s prober \<Rightarrow> Asset \<Rightarrow> Asset list \<Rightarrow> bool \<Rightarrow> SubstanceFloor \<Rightarrow> 's \<Rightarrow>
     ((bool \<times> bool \<times> SubstanceFloor) \<times> 's) option" where
  "asset_loop prb asset [] measured furthest s = Some ((False, measured, furthest), s)"
| "asset_loop prb asset (q # qs) measured furthest s =
     (if Asset_Equal asset q then asset_loop prb asset qs measured furthest s
      else case prb asset q s of
        None \<Rightarrow> None
      | Some ((ok, m, f), s') \<Rightarrow>
          if ok \<and> m then Some ((True, True, FloorNone), s')
          else asset_loop prb asset qs (measured \<and> m) (furthestFloor furthest f) s')"

definition assetSubstance ::
  "'s prober option \<Rightarrow> Asset \<Rightarrow> Asset list \<Rightarrow> 's \<Rightarrow> ((bool \<times> bool \<times> SubstanceFloor) \<times> 's) option" where
  "assetSubstance gate asset usdPegs s =
     (case gate of
        None \<Rightarrow> Some ((True, True, FloorNone), s)
      | Some prb \<Rightarrow>
          if Type asset \<in> {AssetClassic, AssetSoroban}
          then asset_loop prb asset ([NativeAsset, fiatUSD] @ usdPegs) True FloorNone s
          else Some ((True, True, FloorNone), s))"

definition AssetSubstanceVerdict ::
  "'s prober option \<Rightarrow> Asset \<Rightarrow> Asset list \<Rightarrow> string \<Rightarrow> 's \<Rightarrow>
     ((bool \<times> bool) \<times> substance_metric list \<times> 's) option" where
  "AssetSubstanceVerdict gate asset usdPegs surface s =
     map_option (\<lambda>((allowed, measured, failed), s).
       ((allowed, measured), (if \<not> allowed then countVerdict surface False measured failed else []), s))
       (assetSubstance gate asset usdPegs s)"

definition AssetSubstanceVerdictThinServed ::
  "'s prober option \<Rightarrow> Asset \<Rightarrow> Asset list \<Rightarrow> string \<Rightarrow> 's \<Rightarrow>
     ((bool \<times> bool \<times> SubstanceFloor) \<times> substance_metric list \<times> 's) option" where
  "AssetSubstanceVerdictThinServed gate asset usdPegs surface s =
     map_option (\<lambda>((allowed, measured, failed), s).
       ((allowed, measured, failed),
        (if \<not> allowed \<and> \<not> measured then countVerdict surface False False failed else []), s))
       (assetSubstance gate asset usdPegs s)"

section \<open>Floors at minute and at hour grain\<close>

text \<open>
  A market's footprint in a window is the set of minutes it traded in, numbered from any hour; the
  minute table counts those, the hour table the hours they fall in. \<open>spread\<close> is the distance from the
  first to the last bucket.
\<close>

definition spread :: "int set \<Rightarrow> int" where
  "spread B = (if B = {} then 0 else Max B - Min B)"

definition hours_of :: "int set \<Rightarrow> int set" where
  "hours_of M = (\<lambda>m. m div 60) ` M"

definition minutes_of :: "int set \<Rightarrow> int set" where
  "minutes_of H = (\<Union>h \<in> H. {60 * h .. 60 * h + 59})"

lemma FailedFloor_none:
  "FailedFloor vol b w s p = Some FloorNone \<longleftrightarrow>
     MinBuckets p \<le> b \<and> MinSpan p \<le> wrap64 (s * go_second) \<and>
     (\<exists>f. MinVolumeUSD p = Some f \<and> f \<le> (case vol of None \<Rightarrow> 0 | Some v \<Rightarrow> v))"
  by (auto simp: FailedFloor_def Let_def not_less split: option.splits)

lemma hour_minutes: "(60 * h \<le> m \<and> m \<le> 60 * h + 59) = (m div 60 = (h :: int))"
  by linarith

lemma hour_count: "(m + 59) div 60 < 2 \<longleftrightarrow> m \<le> (60 :: int)"
  by linarith

lemma hour_last: "60 * (k div 60) \<le> 60 * d \<longleftrightarrow> k \<le> 60 * d + (59 :: int)"
  using div_mult_mod_eq [of k 60] pos_mod_bound [of 60 k] pos_mod_sign [of 60 k] by auto

lemma minute_in_hours: "m \<in> minutes_of H \<longleftrightarrow> m div 60 \<in> H"
  by (simp add: minutes_of_def hour_minutes)

lemma hours_of_minutes: "hours_of (minutes_of H) = H"
proof
  show "hours_of (minutes_of H) \<subseteq> H" by (auto simp: hours_of_def minute_in_hours)
  show "H \<subseteq> hours_of (minutes_of H)"
    by (auto simp: hours_of_def minute_in_hours intro!: image_eqI [where x = "60 * _"])
qed

lemma minutes_within: "M \<subseteq> minutes_of (hours_of M)"
  by (auto simp: minute_in_hours hours_of_def)

lemma finite_minutes_of: "finite H \<Longrightarrow> finite (minutes_of H)"
  by (simp add: minutes_of_def)

lemma card_minutes_of:
  assumes "finite H"
  shows "card (minutes_of H) = 60 * card H"
proof -
  have "card (minutes_of H) = (\<Sum>h \<in> H. card {60 * h .. 60 * h + 59})"
    unfolding minutes_of_def using assms by (intro card_UN_disjoint) auto
  then show ?thesis by simp
qed

lemma spread_minutes_of:
  assumes "finite H" "H \<noteq> {}"
  shows "spread (minutes_of H) = 60 * spread H + 59"
proof -
  have "Max (minutes_of H) = 60 * Max H + 59"
  proof (rule Max_eqI [OF finite_minutes_of [OF assms(1)]])
    show "m \<le> 60 * Max H + 59" if "m \<in> minutes_of H" for m
      using Max_ge [OF assms(1) that [unfolded minute_in_hours]] by linarith
    show "60 * Max H + 59 \<in> minutes_of H" using Max_in [OF assms] by (simp add: minute_in_hours)
  qed
  moreover have "Min (minutes_of H) = 60 * Min H"
  proof (rule Min_eqI [OF finite_minutes_of [OF assms(1)]])
    show "60 * Min H \<le> m" if "m \<in> minutes_of H" for m
      using Min_le [OF assms(1) that [unfolded minute_in_hours]] by linarith
    show "60 * Min H \<in> minutes_of H" using Min_in [OF assms] by (simp add: minute_in_hours)
  qed
  moreover have "minutes_of H \<noteq> {}" using assms(2) by (auto simp: minutes_of_def)
  ultimately show ?thesis using assms(2) by (simp add: spread_def)
qed

lemma spread_mono:
  assumes "A \<subseteq> B" "finite B"
  shows "spread A \<le> spread B"
proof (cases "A = {}")
  case True
  then show ?thesis using assms by (simp add: spread_def)
next
  case False
  then show ?thesis using assms Max_mono [of A B] Min_antimono [of A B]
    by (auto simp: spread_def)
qed

lemma spread_nonneg: "finite B \<Longrightarrow> 0 \<le> spread B"
  by (simp add: spread_def)

lemma spread_pos_card:
  assumes "finite B" "0 < spread B"
  shows "2 \<le> card B"
proof -
  have ne: "B \<noteq> {}" and "Min B \<noteq> Max B" using assms(2) by (auto simp: spread_def split: if_splits)
  then have "card {Min B, Max B} \<le> card B" using assms(1) by (intro card_mono) auto
  then show ?thesis using \<open>Min B \<noteq> Max B\<close> by simp
qed

lemma go_hour_pos: "0 < go_hour"
  by (simp add: go_hour_def go_minute_def go_second_def)

lemma hourGrainPolicy_values:
  assumes "0 \<le> MinBuckets p" "MinBuckets p \<le> max_int64 - 60" "0 \<le> MinSpan p"
  shows "MinBuckets (hourGrainPolicy p) =
      (if go_hour \<le> MinSpan p \<and> MinBuckets p \<le> 60 then 2 else (MinBuckets p + 59) div 60)"
    "MinSpan (hourGrainPolicy p) = go_hour * (MinSpan p div go_hour)"
    "MinVolumeUSD (hourGrainPolicy p) = MinVolumeUSD p"
proof -
  have w: "wrap64 (MinBuckets p + 60 - 1) = MinBuckets p + 59"
    using assms(1,2) by (subst wrap64_id) (auto simp: min_int64_def max_int64_def)
  have s: "MinSpan p - go_rem (MinSpan p) go_hour = go_hour * (MinSpan p div go_hour)"
    using assms(3) by (simp add: go_rem_nonneg go_hour_def go_minute_def go_second_def minus_mod_eq_mult_div)
  have "go_hour \<le> go_hour * (MinSpan p div go_hour) \<longleftrightarrow> go_hour \<le> MinSpan p"
    using pos_imp_zdiv_pos_iff [of go_hour "MinSpan p"] go_hour_pos
    by (simp add: mult_le_cancel_left1 int_one_le_iff_zero_less)
  moreover note hour_count [of "MinBuckets p"]
  ultimately show "MinBuckets (hourGrainPolicy p) =
      (if go_hour \<le> MinSpan p \<and> MinBuckets p \<le> 60 then 2 else (MinBuckets p + 59) div 60)"
    using assms(1) unfolding hourGrainPolicy_def Let_def w s by (simp add: go_quo_nonneg)
  show "MinSpan (hourGrainPolicy p) = go_hour * (MinSpan p div go_hour)"
    "MinVolumeUSD (hourGrainPolicy p) = MinVolumeUSD p"
    by (simp_all add: hourGrainPolicy_def Let_def s)
qed

text \<open>A span of less than two million hours is exact in nanoseconds.\<close>

lemma span_exact:
  assumes "0 \<le> s" "s < 2000000 * 3600"
  shows "wrap64 (s * go_second) = s * go_second"
  using assms by (intro wrap64_id) (auto simp: go_second_def min_int64_def max_int64_def)

text \<open>In whole minutes, the hour floor of a span is met exactly when its last minute can be.\<close>

lemma hour_span_iff:
  assumes "go_minute dvd s"
  shows "go_hour * (s div go_hour) \<le> d * 3600 * go_second \<longleftrightarrow> s \<le> (60 * d + 59) * 60 * go_second"
proof -
  obtain k where k: "s = go_minute * k" using assms by blast
  have h: "go_hour = go_minute * 60" and m: "0 < go_minute" by (simp_all add: go_hour_def go_minute_def go_second_def)
  have "s div go_hour = k div 60" using m by (simp add: k h zdiv_zmult2_eq)
  then have "go_hour * (s div go_hour) \<le> d * 3600 * go_second \<longleftrightarrow> go_minute * (60 * (k div 60)) \<le> go_minute * (60 * d)"
    by (simp add: h go_minute_def algebra_simps)
  also have "\<dots> \<longleftrightarrow> 60 * (k div 60) \<le> 60 * d" using m by (rule mult_le_cancel_left_pos)
  also have "\<dots> \<longleftrightarrow> k \<le> 60 * d + 59" by (rule hour_last)
  also have "\<dots> \<longleftrightarrow> go_minute * k \<le> go_minute * (60 * d + 59)" using m by (rule mult_le_cancel_left_pos [symmetric])
  also have "\<dots> \<longleftrightarrow> s \<le> (60 * d + 59) * 60 * go_second" by (simp add: k go_minute_def algebra_simps)
  finally show ?thesis .
qed

lemma hour_grain_iff:
  assumes vol: "MinVolumeUSD p = Some f"
    and buckets: "0 \<le> MinBuckets p" "MinBuckets p \<le> max_int64 - 60"
    and span: "0 \<le> MinSpan p" "go_minute dvd MinSpan p"
    and H: "finite H" "H \<noteq> {}" "spread H < 1000000"
  shows "FailedFloor v (int (card H)) w (spread H * 3600) (hourGrainPolicy p) = Some FloorNone \<longleftrightarrow>
    (\<exists>M w'. finite M \<and> hours_of M = H \<and>
       FailedFloor v (int (card M)) w' (spread M * 60) p = Some FloorNone)"
    (is "?hour \<longleftrightarrow> ?minute")
proof
  note pol = hourGrainPolicy_values [OF buckets span(1)]
  have s0: "0 \<le> spread H" by (rule spread_nonneg [OF H(1)])
  have sh: "wrap64 (spread H * 3600 * go_second) = spread H * 3600 * go_second"
    using H(3) s0 by (intro span_exact) auto
  {
    assume hour: ?hour
    let ?M = "minutes_of H"
    have c: "int (card ?M) = 60 * int (card H)" by (simp add: card_minutes_of [OF H(1)])
    have sp: "spread ?M = 60 * spread H + 59" by (rule spread_minutes_of [OF H(1,2)])
    have sm: "wrap64 (spread ?M * 60 * go_second) = (60 * spread H + 59) * 60 * go_second"
      unfolding sp using H(3) s0 by (intro span_exact) auto
    have "MinBuckets p \<le> int (card ?M)"
      using hour buckets(1) unfolding FailedFloor_none pol c by (auto split: if_splits)
    moreover have "MinSpan p \<le> wrap64 (spread ?M * 60 * go_second)"
      using hour unfolding FailedFloor_none pol sh sm hour_span_iff [OF span(2)] by simp
    ultimately have "FailedFloor v (int (card ?M)) w (spread ?M * 60) p = Some FloorNone"
      using hour by (simp add: FailedFloor_none pol)
    then show ?minute using finite_minutes_of [OF H(1)] hours_of_minutes [of H] by blast
  }
  assume ?minute
  then obtain M w' where M: "finite M" "hours_of M = H"
    and minute: "FailedFloor v (int (card M)) w' (spread M * 60) p = Some FloorNone" by blast
  have sub: "M \<subseteq> minutes_of H" using minutes_within [of M] M(2) by simp
  have c: "int (card M) \<le> 60 * int (card H)"
    using card_mono [OF finite_minutes_of [OF H(1)] sub] card_minutes_of [OF H(1)] by simp
  have sp: "0 \<le> spread M" "spread M \<le> 60 * spread H + 59"
    using spread_nonneg [OF M(1)] spread_mono [OF sub finite_minutes_of [OF H(1)]] spread_minutes_of [OF H(1,2)]
    by simp_all
  have "MinSpan p \<le> spread M * 60 * go_second"
    using minute sp H(3) unfolding FailedFloor_none by (subst (asm) span_exact) auto
  also have "\<dots> \<le> (60 * spread H + 59) * 60 * go_second"
    using sp(2) by (simp add: go_second_def)
  finally have meets: "go_hour * (MinSpan p div go_hour) \<le> spread H * 3600 * go_second"
    by (simp only: hour_span_iff [OF span(2)])
  have two: "2 \<le> card H" if "go_hour \<le> MinSpan p"
  proof (rule spread_pos_card [OF H(1)])
    have "0 < go_hour * (MinSpan p div go_hour)"
      using that go_hour_pos pos_imp_zdiv_pos_iff [OF go_hour_pos, of "MinSpan p"] by simp
    then show "0 < spread H" using meets by (simp add: go_second_def)
  qed
  have "MinBuckets (hourGrainPolicy p) \<le> int (card H)"
    using two minute c unfolding FailedFloor_none pol by auto
  then show ?hour using meets minute by (simp add: FailedFloor_none pol sh)
qed

text \<open>
  C27. The hour-grain floor is exactly as strict as it can be: for a policy in whole minutes, a set of
  traded hours clears it if and only if some set of traded minutes that falls in precisely those hours,
  with the same volume, clears the minute-grain policy. So an old point-in-time price is never withheld
  for a market the live policy admits, and only hour counts no admissible market can have are refused.
\<close>

theorem hour_grain_exact:
  assumes vol: "MinVolumeUSD p = Some f"
    and buckets: "0 \<le> MinBuckets p" "MinBuckets p \<le> max_int64 - 60"
    and span: "0 \<le> MinSpan p" "go_minute dvd MinSpan p"
    and H: "finite H" "H \<noteq> {}" "spread H < 1000000"
  shows "FailedFloor v (int (card H)) w (spread H * 3600) (hourGrainPolicy p) = Some FloorNone \<longleftrightarrow>
    (\<exists>M w'. finite M \<and> hours_of M = H \<and>
       FailedFloor v (int (card M)) w' (spread M * 60) p = Some FloorNone)"
  by (rule hour_grain_iff [OF assms])

definition default_policy :: SubstancePolicy where
  "default_policy = withDefaults \<lparr>MinVolumeUSD = None, MinBuckets = 0, MinSpan = 0, Window = 0\<rparr>"

lemma default_policy_values:
  "MinVolumeUSD default_policy = Some 1000" "MinBuckets default_policy = 20"
  "MinSpan default_policy = 6 * go_hour"
  by (simp_all add: default_policy_def withDefaults_def DefaultSubstanceMinVolumeUSD_def
    DefaultSubstanceMinBuckets_def DefaultSubstanceMinSpan_def)

theorem hour_grain_exact_witness:
  "FailedFloor (Some 5000) (int (card {0, 6 :: int})) 0 (spread {0, 6} * 3600) (hourGrainPolicy default_policy) = Some FloorNone \<longleftrightarrow>
    (\<exists>M w'. finite M \<and> hours_of M = {0, 6} \<and>
       FailedFloor (Some 5000) (int (card M)) w' (spread M * 60) default_policy = Some FloorNone)"
  by (rule hour_grain_exact [where f = 1000])
    (simp_all add: default_policy_values spread_def max_int64_def go_hour_def go_minute_def go_second_def)

section \<open>The configuration and the policy it gives\<close>

definition config_policy :: "PricingGuardConfig \<Rightarrow> SubstancePolicy" where
  "config_policy pg =
     withDefaults (SubstancePolicyFromValues (SubstanceMinVolumeUSD pg) (SubstanceMinBuckets pg)
       (SubstanceMinSpanMinutes pg) (SubstanceWindowHours pg))"

definition effective_hours :: "PricingGuardConfig \<Rightarrow> int" where
  "effective_hours pg = cmp_Or (SubstanceWindowHours pg) 24"

lemma durationOrZero_exact:
  assumes "0 \<le> n" "0 < unit" "n * unit \<le> max_int64"
  shows "durationOrZero n unit = n * unit"
proof -
  have "n \<le> max_int64 div unit" using zdiv_mono1 [OF assms(3,2)] assms(2) by simp
  moreover have "go_quo min_int64 unit \<le> 0"
    using assms(2) by (auto simp: go_quo_def min_int64_def sgn_if pos_imp_zdiv_nonneg_iff)
  moreover have "wrap64 (n * unit) = n * unit"
    using assms by (intro wrap64_id) (auto simp: min_int64_def intro: order_trans [OF _ mult_nonneg_nonneg])
  ultimately show ?thesis using assms by (simp add: durationOrZero_def go_quo_nonneg max_int64_def)
qed

text \<open>The knobs of a configuration without negative floors, as the gate sees them.\<close>

lemma config_policy_values:
  assumes "0 \<le> SubstanceMinSpanMinutes pg" "SubstanceMinSpanMinutes pg * go_minute \<le> max_int64"
  shows "MinBuckets (config_policy pg) = cmp_Or (SubstanceMinBuckets pg) 20"
    "MinSpan (config_policy pg) = cmp_Or (SubstanceMinSpanMinutes pg) 360 * go_minute"
    "MinVolumeUSD (config_policy pg) \<noteq> None"
  using durationOrZero_exact [OF assms(1) _ assms(2)]
  by (auto simp: config_policy_def withDefaults_def SubstancePolicyFromValues_def cmp_Or_def
    DefaultSubstanceMinBuckets_def DefaultSubstanceMinSpan_def go_hour_def go_minute_def go_second_def)

lemma satisfiable_iff:
  assumes "effective_hours pg \<le> maxSubstanceWindowHours"
  shows "validateSubstanceSatisfiable pg = None \<longleftrightarrow>
    cmp_Or (SubstanceMinSpanMinutes pg) 360 \<le> 60 * effective_hours pg - 2 \<and>
    cmp_Or (SubstanceMinBuckets pg) 20 \<le> 60 * effective_hours pg - 1"
  using assms
  by (auto simp: validateSubstanceSatisfiable_def Let_def defaultPricingGuardConfig_def effective_hours_def
    not_less mult.commute)

lemma interval_stats:
  fixes n :: int
  assumes "0 \<le> n"
  shows "spread {0..n} = n" "int (card {0..n}) = n + 1"
proof -
  have "Max {0..n} = n" "Min {0..n} = 0" using assms by (auto intro!: Max_eqI Min_eqI)
  then show "spread {0..n} = n" using assms by (simp add: spread_def)
  show "int (card {0..n}) = n + 1" using assms by simp
qed

text \<open>
  The satisfiability check of the configuration is exact: for non-negative knobs and a window of
  at most 400 days, it accepts the floors if and only if some market trading in the closed minutes of
  one window (60 times its hours less one) clears the policy the gate runs with. Whenever it accepts,
  the closed hours of a window can clear the hour-grain policy too.
\<close>

theorem satisfiable_exact:
  assumes nonneg: "0 \<le> SubstanceMinBuckets pg" "0 \<le> SubstanceMinSpanMinutes pg" "0 \<le> SubstanceWindowHours pg"
    and span: "SubstanceMinSpanMinutes pg * go_minute \<le> max_int64"
    and hours: "effective_hours pg \<le> maxSubstanceWindowHours"
  shows "(validateSubstanceSatisfiable pg = None \<longleftrightarrow>
      (\<exists>M v w. M \<subseteq> {0 .. 60 * effective_hours pg - 2} \<and>
        FailedFloor v (int (card M)) w (spread M * 60) (config_policy pg) = Some FloorNone)) \<and>
    (validateSubstanceSatisfiable pg = None \<longrightarrow>
      (\<exists>H v w. H \<subseteq> {0 .. effective_hours pg - 1} \<and>
        FailedFloor v (int (card H)) w (spread H * 3600) (hourGrainPolicy (config_policy pg)) = Some FloorNone))"
proof -
  let ?W = "effective_hours pg" and ?p = "config_policy pg"
  let ?M = "{0 .. 60 * ?W - 2}" and ?H = "{0 .. ?W - 1}"
  note pol = config_policy_values [OF nonneg(2) span]
  obtain f where f: "MinVolumeUSD ?p = Some f" using pol(3) by blast
  have W: "1 \<le> ?W" "?W \<le> 9600"
    using nonneg(3) hours by (auto simp: effective_hours_def cmp_Or_def maxSubstanceWindowHours_def)
  have statsM: "spread ?M = 60 * ?W - 2" "int (card ?M) = 60 * ?W - 1"
    using interval_stats [of "60 * ?W - 2"] W(1) by simp_all
  have stats: "spread ?H = ?W - 1" "int (card ?H) = ?W"
    using interval_stats [of "?W - 1"] W(1) by simp_all
  have exact: "wrap64 (s * 60 * go_second) = s * 60 * go_second" if "0 \<le> s" "s \<le> 60 * ?W" for s
    using that W by (intro span_exact) auto
  have minutes: "s * go_minute \<le> t * 60 * go_second \<longleftrightarrow> s \<le> t" for s t
    by (simp add: go_minute_def go_second_def)
  have clears: "FailedFloor (Some f) (int (card ?M)) w (spread ?M * 60) ?p = Some FloorNone"
    if "validateSubstanceSatisfiable pg = None" for w
  proof -
    have "MinSpan ?p \<le> wrap64 (spread ?M * 60 * go_second)"
      using that W unfolding pol statsM(1) satisfiable_iff [OF hours] by (subst exact) (simp_all only: minutes)
    then show ?thesis using that f unfolding FailedFloor_none pol(1) statsM(2) satisfiable_iff [OF hours] by simp
  qed
  have accepts: "validateSubstanceSatisfiable pg = None"
    if M: "M \<subseteq> ?M" and ok: "FailedFloor v (int (card M)) w (spread M * 60) ?p = Some FloorNone" for M v w
  proof -
    have sp: "spread M \<le> 60 * ?W - 2" "int (card M) \<le> 60 * ?W - 1" "finite M"
      using spread_mono [OF M] statsM(1) finite_subset [OF M] zle_int [THEN iffD2, OF card_mono [OF _ M]]
      unfolding statsM(2) by simp_all
    show ?thesis unfolding satisfiable_iff [OF hours]
      using ok sp spread_nonneg [OF sp(3)] unfolding FailedFloor_none pol
      by (subst (asm) exact) (auto simp: minutes)
  qed
  have hour: "FailedFloor (Some f) (int (card ?H)) w (spread ?H * 3600) (hourGrainPolicy ?p) = Some FloorNone"
    if ok: "validateSubstanceSatisfiable pg = None" for w
  proof (subst hour_grain_iff)
    show "MinVolumeUSD ?p = Some f" by (rule f)
    show "0 \<le> MinBuckets ?p" "0 \<le> MinSpan ?p" "go_minute dvd MinSpan ?p"
      unfolding pol using nonneg by (auto simp: cmp_Or_def go_minute_def go_second_def)
    show "MinBuckets ?p \<le> max_int64 - 60"
      using ok W unfolding pol satisfiable_iff [OF hours] by (simp add: max_int64_def)
    show "finite ?H" "?H \<noteq> {}" "spread ?H < 1000000" using W by (simp_all add: stats)
    have "hours_of ?M = ?H"
    proof
      show "hours_of ?M \<subseteq> ?H" by (auto simp: hours_of_def)
      show "?H \<subseteq> hours_of ?M"
        unfolding hours_of_def by (rule subsetI, rule image_eqI [where x = "60 * _"]) auto
    qed
    then show "\<exists>M w'. finite M \<and> hours_of M = ?H \<and>
        FailedFloor (Some f) (int (card M)) w' (spread M * 60) ?p = Some FloorNone"
      using clears [OF ok, of w] finite_atLeastAtMost_int [of 0 "60 * ?W - 2"] by blast
  qed
  show ?thesis
  proof (intro conjI iffI impI)
    show "\<exists>M v w. M \<subseteq> ?M \<and> FailedFloor v (int (card M)) w (spread M * 60) ?p = Some FloorNone"
      if "validateSubstanceSatisfiable pg = None"
      by (intro exI conjI, rule subset_refl, rule clears [OF that])
    show "\<exists>H v w. H \<subseteq> ?H \<and>
        FailedFloor v (int (card H)) w (spread H * 3600) (hourGrainPolicy ?p) = Some FloorNone"
      if "validateSubstanceSatisfiable pg = None"
      by (intro exI conjI, rule subset_refl, rule hour [OF that])
  qed (elim exE conjE, rule accepts)
qed

theorem satisfiable_exact_witness:
  "(validateSubstanceSatisfiable defaultPricingGuardConfig = None) =
    (\<exists>M v w. M \<subseteq> {0 .. 60 * effective_hours defaultPricingGuardConfig - 2} \<and>
        FailedFloor v (int (card M)) w (spread M * 60) (config_policy defaultPricingGuardConfig) = Some FloorNone)"
  by (rule conjunct1 [OF satisfiable_exact])
    (simp_all add: defaultPricingGuardConfig_def effective_hours_def cmp_Or_def max_int64_def
      go_minute_def go_second_def maxSubstanceWindowHours_def)

end
