(* ===== verification/SubstanceCache.thy ===== *)
theory SubstanceCache
  imports SubstanceGate
begin

text \<open>
  The verdict caches of the thin-market gate (\<open>internal/pricingguard/substance.go\<close>): what a cached
  verdict may say, in any interleaving of the critical sections of concurrent calls.
\<close>

section \<open>Cache keys\<close>

lemma split_at_sep:
  assumes "c \<notin> set xs" "c \<notin> set xs'"
  shows "xs @ c # ys = xs' @ c # ys' \<longleftrightarrow> xs = xs' \<and> ys = ys'"
proof
  assume eq: "xs @ c # ys = xs' @ c # ys'"
  have "takeWhile (\<lambda>x. x \<noteq> c) (us @ c # vs) = us" if "c \<notin> set us" for us vs
    using that by (induction us) auto
  from this [OF assms(1), of ys] this [OF assms(2), of ys'] eq show "xs = xs' \<and> ys = ys'" by simp
qed simp

lemma list_all_no_nul: "list_all P s \<Longrightarrow> \<not> P (CHR 0x00) \<Longrightarrow> CHR 0x00 \<notin> set s"
  by (auto simp: list_all_iff)

lemma asset_text_no_nul:
  assumes k: "strkey_ok k" and a: "Asset_Validate k a = None"
  shows "CHR 0x00 \<notin> set (Asset_String a)"
proof -
  have strkey: "CHR 0x00 \<notin> set s" if "strkey_Decode k v s \<noteq> None" for v s
    by (rule list_all_no_nul [of base32_char]) (use k that in \<open>auto simp: strkey_ok_def base32_char_def\<close>)
  have code: "CHR 0x00 \<notin> set c" if "validateClassicAssetCode c = None" for c
    by (rule list_all_no_nul [of alnum_char])
      (use that in \<open>auto simp: validateClassicAssetCode_def Let_def alnum_char_def split: if_splits\<close>)
  have sym: "CHR 0x00 \<notin> set c" if "validateRawSymbol c = None" for c
    by (rule list_all_no_nul [of "\<lambda>c. 33 \<le> (of_char c :: nat) \<and> (of_char c :: nat) \<le> 126"])
      (use that in \<open>auto simp: validateRawSymbol_def Let_def split: if_splits\<close>)
  have short: "CHR 0x00 \<notin> set c" if "short_code c" for c
    using that by (simp add: short_code_def)
  note shorts = short [OF fiat_codes_short] short [OF crypto_codes_short] short [OF rwa_codes_short]
  show ?thesis
    using a strkey code sym shorts
    by (auto simp: Asset_Validate_def Asset_String_def validateAccountID_def validateContractID_def
      IsAccountID_def IsContractID_def split: AssetType.splits if_splits option.splits)
qed

lemma pair_key_sides:
  obtains "pairCacheKey a b = Asset_String a @ CHR 0x00 # Asset_String b"
  | "pairCacheKey a b = Asset_String b @ CHR 0x00 # Asset_String a"
  by (cases "Asset_String b < Asset_String a") (auto simp: pairCacheKey_def Let_def)

lemma pairCacheKey_commute: "pairCacheKey a b = pairCacheKey b a"
  by (auto simp: pairCacheKey_def Let_def)

text \<open>A cache of verdicts about valid pairs never confuses two markets.\<close>

lemma pair_key_then:
  assumes k: "strkey_ok k"
    and valid: "Asset_Validate k a = None" "Asset_Validate k b = None"
      "Asset_Validate k c = None" "Asset_Validate k d = None"
    and eq: "pairCacheKey a b @ CHR 0x00 # xs = pairCacheKey c d @ CHR 0x00 # ys"
  shows "{a, b} = {c, d} \<and> xs = ys"
proof -
  note no_nul = valid [THEN asset_text_no_nul [OF k]]
  note inj = asset_wire_injective [OF k]
  show ?thesis
    by (rule pair_key_sides [of a b]; rule pair_key_sides [of c d])
      (use eq no_nul valid in \<open>auto simp: split_at_sep dest: inj\<close>)
qed

lemma pair_key_inject:
  assumes "strkey_ok k" "Asset_Validate k a = None" "Asset_Validate k b = None"
    "Asset_Validate k c = None" "Asset_Validate k d = None" "pairCacheKey a b = pairCacheKey c d"
  shows "{a, b} = {c, d}"
  using pair_key_then [OF assms(1-5), of "[]" "[]"] assms(6) by simp

lemma unix_of_minutes:
  assumes "go_minute dvd s" "go_minute dvd t" "time_Unix s = time_Unix t"
  shows "s = t"
proof -
  have unix: "time_Unix (go_minute * x) = 60 * x - unix_epoch_seconds" for x
    by (simp add: time_Unix_def go_minute_def go_second_def)
  obtain x y where "s = go_minute * x" "t = go_minute * y" using assms(1,2) by (auto elim!: dvdE)
  then show ?thesis using assms(3) by (simp add: unix)
qed

lemma at_key_inject:
  assumes k: "strkey_ok k"
    and valid: "Asset_Validate k a = None" "Asset_Validate k b = None"
      "Asset_Validate k c = None" "Asset_Validate k d = None"
    and grain: "g \<in> {Granularity1m, Granularity1h}" "h \<in> {Granularity1m, Granularity1h}"
    and whole: "go_minute dvd s" "go_minute dvd t"
    and eq: "at_key a b g s = at_key c d h t"
  shows "{a, b} = {c, d} \<and> g = h \<and> s = t"
proof -
  have "pairCacheKey a b @ CHR 0x00 # (g @ CHR 0x00 # int_String (time_Unix s)) =
      pairCacheKey c d @ CHR 0x00 # (h @ CHR 0x00 # int_String (time_Unix t))"
    using eq by (simp add: at_key_def)
  from pair_key_then [OF k valid this]
  have pair: "{a, b} = {c, d}"
    and tail: "g @ CHR 0x00 # int_String (time_Unix s) = h @ CHR 0x00 # int_String (time_Unix t)" by auto
  have "CHR 0x00 \<notin> set g" "CHR 0x00 \<notin> set h" using grain by auto
  with tail have "g = h" "time_Unix s = time_Unix t" by (simp_all add: split_at_sep int_String_inject)
  then show ?thesis using pair unix_of_minutes [OF whole] by simp
qed

section \<open>What a cache may hold\<close>

text \<open>The verdict of an entry is the floor its own evidence fails under its own policy.\<close>

definition judged :: "(string \<Rightarrow> rat option) \<Rightarrow> substanceVerdict \<Rightarrow> bool" where
  "judged parse e =
     (let ev = sv_evidence e in
      FailedFloor (Some (case parse (ev_VolumeUSD ev) of None \<Rightarrow> 0 | Some v \<Rightarrow> v)) (ev_Buckets ev)
        (ev_ValuedBuckets ev) (ev_SpanSeconds ev) (ev_Policy ev) = Some (sv_floor e) \<and>
      ev_Floor ev = sv_floor e \<and> sv_allowed e = (sv_floor e = FloorNone))"

definition live_entry :: "sdk \<Rightarrow> (string \<Rightarrow> rat option) \<Rightarrow> SubstancePolicy \<Rightarrow> string \<times> substanceVerdict \<Rightarrow> bool" where
  "live_entry k parse pol = (\<lambda>(key, e).
     let ev = sv_evidence e in
      key = pairCacheKey (ev_Base ev) (ev_Quote ev) \<and>
      Asset_Validate k (ev_Base ev) = None \<and> Asset_Validate k (ev_Quote ev) = None \<and>
      sv_expires e = ev_MeasuredAt ev + substanceCacheTTL \<and>
      ev_WindowEnd ev = ev_MeasuredAt ev \<and> ev_Policy ev = pol \<and> judged parse e)"

definition at_entry :: "sdk \<Rightarrow> (string \<Rightarrow> rat option) \<Rightarrow> SubstancePolicy \<Rightarrow> string \<times> substanceVerdict \<Rightarrow> bool" where
  "at_entry k parse pol = (\<lambda>(key, e).
     let ev = sv_evidence e in
      (\<exists>grain. key = at_key (ev_Base ev) (ev_Quote ev) grain (ev_WindowEnd ev) \<and>
        (grain, ev_Policy ev) \<in> {(Granularity1m, pol), (Granularity1h, hourGrainPolicy pol)}) \<and>
      Asset_Validate k (ev_Base ev) = None \<and> Asset_Validate k (ev_Quote ev) = None \<and>
      sv_expires e = ev_MeasuredAt ev + substanceCacheTTL \<and> go_minute dvd ev_WindowEnd ev \<and> judged parse e)"

definition gate_inv :: "sdk \<Rightarrow> (string \<Rightarrow> rat option) \<Rightarrow> SubstanceGate \<Rightarrow> bool" where
  "gate_inv k parse g \<longleftrightarrow>
     list_all (live_entry k parse (sg_policy g)) (sg_cache g) \<and>
     list_all (at_entry k parse (sg_policy g)) (sg_atCache g) \<and>
     length (sg_cache g) \<le> substanceCacheMax \<and> length (sg_atCache g) \<le> substanceCacheMax \<and>
     length (sg_logged g) \<le> substanceLoggedMax \<and> MinVolumeUSD (sg_policy g) \<noteq> None"

text \<open>
  Every gate a sequence of critical sections can produce. A publication may follow its own lookup
  after any number of others: it depends on the gate only through the policy, which never changes.
\<close>

inductive gate_reach :: "sdk \<Rightarrow> (string \<Rightarrow> rat option) \<Rightarrow> SubstancePolicy \<Rightarrow> SubstanceGate \<Rightarrow> bool"
  for k parse opts where
  new: "gate_reach k parse opts (NewSubstanceGate opts)"
| live: "gate_reach k parse opts (publish_live base quote now e g)"
    if "gate_reach k parse opts g" "Asset_Validate k base = None" "Asset_Validate k quote = None"
      "se_parse env = parse" "measureUnion env base quote (sg_policy g) now now read = Some (Some e)"
| point: "gate_reach k parse opts (publish_at (at_key base quote grain asOf) now e g)"
    if "gate_reach k parse opts g" "Asset_Validate k base = None" "Asset_Validate k quote = None"
      "se_parse env = parse" "at_question g now moment = (grain, pol, asOf)"
      "measureUnion env base quote pol now asOf read = Some (Some e)"

lemma measureUnion_entry:
  assumes "measureUnion env base quote pol m w read = Some (Some e)"
  shows "judged (se_parse env) e" "ev_Base (sv_evidence e) = base" "ev_Quote (sv_evidence e) = quote"
    "ev_MeasuredAt (sv_evidence e) = m" "ev_WindowEnd (sv_evidence e) = w" "ev_Policy (sv_evidence e) = pol"
  using assms by (auto simp: measureUnion_def judged_def Let_def split: option.splits)

lemma judged_expires [simp]: "judged parse (e\<lparr>sv_expires := t\<rparr>) = judged parse e"
  by (simp add: judged_def)

lemma sweepOrReset_room: "length (sweepOrReset m now) < substanceCacheMax"
  by (auto simp: sweepOrReset_def Let_def substanceCacheMax_def)

lemma sweepOrReset_subset: "set (sweepOrReset m now) \<subseteq> set m"
  by (auto simp: sweepOrReset_def Let_def)

lemma length_AList_update: "length (AList.update k v al) \<le> Suc (length al)"
  by (induction al) auto

lemma set_AList_update: "set (AList.update k v al) \<subseteq> insert (k, v) (set al)"
  by (induction al) auto

lemma cache_publish_all:
  assumes "list_all P m" "P (key, e)"
  shows "list_all P (AList.update key e (sweepOrReset m now))"
  using assms set_AList_update [of key e "sweepOrReset m now"] sweepOrReset_subset [of m now]
  unfolding list_all_iff by blast

lemma cache_publish_length: "length (AList.update key e (sweepOrReset m now)) \<le> substanceCacheMax"
  using length_AList_update [of key e "sweepOrReset m now"] sweepOrReset_room [of m now] by simp

lemma at_question_grain:
  assumes "at_question g now moment = (grain, pol, asOf)"
  shows "(grain, pol) \<in> {(Granularity1m, sg_policy g), (Granularity1h, hourGrainPolicy (sg_policy g))}"
    "go_minute dvd asOf"
proof -
  show "(grain, pol) \<in> {(Granularity1m, sg_policy g), (Granularity1h, hourGrainPolicy (sg_policy g))}"
    using assms by (auto simp: at_question_def policyAt_def Let_def split: if_splits)
  have "go_minute dvd t - t mod d" if "go_minute dvd d" for t d
    using that by (meson dvd_minus_mod dvd_trans)
  moreover have "go_minute dvd BucketDuration grain" "0 < BucketDuration grain"
    using assms by (auto simp: at_question_def policyAt_def Let_def BucketDuration_def go_hour_def
      go_minute_def go_second_def split: if_splits)
  ultimately show "go_minute dvd asOf"
    using assms by (auto simp: at_question_def time_Truncate_def Let_def split: prod.splits)
qed

lemma publish_live_inv:
  assumes "gate_inv k parse g" "Asset_Validate k base = None" "Asset_Validate k quote = None"
    "se_parse env = parse" "measureUnion env base quote (sg_policy g) now now read = Some (Some e)"
  shows "gate_inv k parse (publish_live base quote now e g)"
proof -
  have "live_entry k parse (sg_policy g) (pairCacheKey base quote, e\<lparr>sv_expires := now + substanceCacheTTL\<rparr>)"
    using measureUnion_entry [OF assms(5)] assms(2-4) by (simp add: live_entry_def Let_def)
  moreover have "length (AList.update key b (if substanceLoggedMax \<le> length m then [] else m)) \<le> substanceLoggedMax"
    for key b and m :: "(string \<times> bool) list"
    using length_AList_update [of key b m] by (auto simp: substanceLoggedMax_def)
  ultimately show ?thesis using assms(1) by (simp add: gate_inv_def publish_live_def Let_def cache_publish_all cache_publish_length)
qed

lemma publish_at_inv:
  assumes "gate_inv k parse g" "Asset_Validate k base = None" "Asset_Validate k quote = None"
    "se_parse env = parse" "at_question g now moment = (grain, pol, asOf)"
    "measureUnion env base quote pol now asOf read = Some (Some e)"
  shows "gate_inv k parse (publish_at (at_key base quote grain asOf) now e g)"
proof -
  have "at_entry k parse (sg_policy g) (at_key base quote grain asOf, e\<lparr>sv_expires := now + substanceCacheTTL\<rparr>)"
    using measureUnion_entry [OF assms(6)] assms(2-4) at_question_grain [OF assms(5)]
    by (auto simp: at_entry_def Let_def)
  then show ?thesis using assms(1) by (simp add: gate_inv_def publish_at_def cache_publish_all cache_publish_length)
qed

lemma gate_reach_inv: "gate_reach k parse opts g \<Longrightarrow> gate_inv k parse g \<and> sg_policy g = withDefaults opts"
proof (induction rule: gate_reach.induct)
  case new
  then show ?case by (simp add: gate_inv_def NewSubstanceGate_def withDefaults_def)
next
  case (live g base quote env now read e)
  then show ?case using publish_live_inv [of k parse g base quote env now read e]
    by (simp add: publish_live_def Let_def)
next
  case (point g base quote env now moment grain pol asOf read e)
  then show ?case using publish_at_inv [of k parse g base quote env now moment grain pol asOf read e]
    by (simp add: publish_at_def)
qed

section \<open>What the gate answers\<close>

text \<open>
  A verdict the gate may give at \<open>now\<close> on a pair, under the policy \<open>pol\<close> for the window ending at
  \<open>w\<close>: measured less than the cache's lifetime ago, on this market, judged by that policy.
\<close>

definition current_verdict ::
  "(string \<Rightarrow> rat option) \<Rightarrow> gotime \<Rightarrow> Asset \<Rightarrow> Asset \<Rightarrow> SubstancePolicy \<Rightarrow> (SubstanceEvidence \<Rightarrow> bool) \<Rightarrow>
     SubstanceVerdict \<Rightarrow> bool" where
  "current_verdict parse now base quote pol at_end v \<longleftrightarrow>
     (\<exists>ev. sub_Evidence v = Some ev \<and> {ev_Base ev, ev_Quote ev} = {base, quote} \<and>
        now < ev_MeasuredAt ev + substanceCacheTTL \<and> ev_Policy ev = pol \<and> at_end ev \<and>
        FailedFloor (Some (case parse (ev_VolumeUSD ev) of None \<Rightarrow> 0 | Some x \<Rightarrow> x)) (ev_Buckets ev)
          (ev_ValuedBuckets ev) (ev_SpanSeconds ev) pol = Some (sub_Floor v) \<and>
        sub_Measured v \<and> sub_Allowed v = (sub_Floor v = FloorNone))"

lemma entry_current:
  assumes "judged parse e" "{ev_Base (sv_evidence e), ev_Quote (sv_evidence e)} = {base, quote}"
    "now < ev_MeasuredAt (sv_evidence e) + substanceCacheTTL" "ev_Policy (sv_evidence e) = pol"
    "at_end (sv_evidence e)"
  shows "current_verdict parse now base quote pol at_end (entry_verdict e)"
  using assms unfolding current_verdict_def entry_verdict_def judged_def Let_def by simp

lemma cached_entry:
  assumes "cached m key now = Some v" "list_all P m"
  obtains e where "P (key, e)" "now < sv_expires e" "v = entry_verdict e"
  using assms by (auto simp: cached_def list_all_iff dest: map_of_SomeD split: option.splits if_splits)

lemma TTL_pos: "0 < substanceCacheTTL"
  by (simp add: substanceCacheTTL_def go_second_def)

lemma measureUnion_defined:
  assumes "MinVolumeUSD pol \<noteq> None"
  shows "measureUnion env base quote pol m w read \<noteq> None"
    "measureUnion env base quote pol m w read = Some None \<longleftrightarrow>
       read (AssetAliases (se_network env) base) (AssetAliases (se_network env) quote) = None"
  using assms by (auto simp: measureUnion_def FailedFloor_def Let_def split: option.splits)

lemma hour_policy_volume: "MinVolumeUSD (hourGrainPolicy p) = MinVolumeUSD p"
  by (simp add: hourGrainPolicy_def Let_def)

text \<open>The shape both questions share: a live cache entry, else a measurement that is published.\<close>

lemma verdict_or_failure:
  assumes r: "r = (case cached m key now of
        Some v \<Rightarrow> Some (v, Some g)
      | None \<Rightarrow>
          (case measureUnion env base quote pol now w read of
             None \<Rightarrow> None
           | Some None \<Rightarrow> Some (unmeasured, Some g)
           | Some (Some e) \<Rightarrow> Some (entry_verdict e, Some (pub e))))"
    and pol: "MinVolumeUSD pol \<noteq> None" and env: "se_parse env = parse"
    and cache: "list_all P m"
    and entry: "\<And>e. P (key, e) \<Longrightarrow> now < sv_expires e \<Longrightarrow>
        current_verdict parse now base quote pol at_end (entry_verdict e)"
    and fresh: "\<And>ev. ev_MeasuredAt ev = now \<Longrightarrow> ev_WindowEnd ev = w \<Longrightarrow> at_end ev"
    and same: "Q g" and published: "\<And>e. measureUnion env base quote pol now w read = Some (Some e) \<Longrightarrow> Q (pub e)"
  shows "\<exists>v g'. r = Some (v, Some g') \<and> Q g' \<and>
    (if v = unmeasured then read (AssetAliases (se_network env) base) (AssetAliases (se_network env) quote) = None
     else current_verdict parse now base quote pol at_end v)"
proof -
  have ne: "v \<noteq> unmeasured" if "current_verdict parse now base quote pol at_end v" for v
    using that by (auto simp: current_verdict_def unmeasured_def)
  consider (hit) v where "cached m key now = Some v"
    | (failed) "cached m key now = None" "measureUnion env base quote pol now w read = Some None"
    | (measured) e where "cached m key now = None" "measureUnion env base quote pol now w read = Some (Some e)"
    using measureUnion_defined(1) [OF pol, of env base quote now w read] by (metis not_None_eq)
  then show ?thesis
  proof cases
    case (hit v)
    obtain e where e: "P (key, e)" "now < sv_expires e" "v = entry_verdict e" by (rule cached_entry [OF hit cache])
    have "current_verdict parse now base quote pol at_end v" unfolding e(3) by (rule entry [OF e(1,2)])
    then show ?thesis using hit same ne by (simp add: r)
  next
    case failed
    then show ?thesis using same measureUnion_defined(2) [OF pol, of env base quote now w read] by (simp add: r)
  next
    case (measured e)
    have "current_verdict parse now base quote pol at_end (entry_verdict e)"
      using measureUnion_entry [OF measured(2)] env TTL_pos by (intro entry_current fresh) auto
    then show ?thesis using measured published [OF measured(2)] ne by (simp add: r)
  qed
qed

lemma live_entry_current:
  assumes k: "strkey_ok k" and valid: "Asset_Validate k base = None" "Asset_Validate k quote = None"
    and e: "live_entry k parse pol (pairCacheKey base quote, e)" "now < sv_expires e"
  shows "current_verdict parse now base quote pol (\<lambda>ev. ev_WindowEnd ev = ev_MeasuredAt ev) (entry_verdict e)"
proof -
  have "{base, quote} = {ev_Base (sv_evidence e), ev_Quote (sv_evidence e)}"
    by (rule pair_key_inject [OF k valid]) (use e(1) in \<open>auto simp: live_entry_def Let_def\<close>)
  then show ?thesis using e by (intro entry_current) (auto simp: live_entry_def Let_def)
qed

lemma at_entry_current:
  assumes k: "strkey_ok k" and valid: "Asset_Validate k base = None" "Asset_Validate k quote = None"
    and q: "at_question g now moment = (grain, pol, asOf)"
    and e: "at_entry k parse (sg_policy g) (at_key base quote grain asOf, e)" "now < sv_expires e"
  shows "current_verdict parse now base quote pol (\<lambda>ev. ev_WindowEnd ev = asOf) (entry_verdict e)"
proof -
  let ?ev = "sv_evidence e"
  obtain h where h: "at_key base quote grain asOf = at_key (ev_Base ?ev) (ev_Quote ?ev) h (ev_WindowEnd ?ev)"
    "(h, ev_Policy ?ev) \<in> {(Granularity1m, sg_policy g), (Granularity1h, hourGrainPolicy (sg_policy g))}"
    using e(1) by (auto simp: at_entry_def Let_def)
  note grain = at_question_grain [OF q]
  have "{base, quote} = {ev_Base ?ev, ev_Quote ?ev} \<and> grain = h \<and> asOf = ev_WindowEnd ?ev"
    by (rule at_key_inject [OF k valid _ _ _ _ grain(2) _ h(1)])
      (use e(1) h(2) grain(1) in \<open>auto simp: at_entry_def Let_def\<close>)
  moreover have "ev_Policy ?ev = pol" if "grain = h" using that h(2) grain(1) by auto
  ultimately show ?thesis using e by (intro entry_current) (auto simp: at_entry_def Let_def)
qed

definition within_bounds :: "SubstanceGate \<Rightarrow> bool" where
  "within_bounds g \<longleftrightarrow> length (sg_cache g) \<le> substanceCacheMax \<and> length (sg_atCache g) \<le> substanceCacheMax \<and>
     length (sg_logged g) \<le> substanceLoggedMax"

lemma reach_bounds: "gate_reach k parse opts g \<Longrightarrow> within_bounds g"
  using gate_reach_inv by (auto simp: within_bounds_def gate_inv_def)

lemma measured_verdict:
  assumes k: "strkey_ok k" and reach: "gate_reach k parse opts g" and env: "se_parse env = parse"
    and valid: "Asset_Validate k base = None" "Asset_Validate k quote = None" and scope: "SubstanceGated base quote"
  shows "\<exists>v g'. Measure env (Some g) now base quote = Some (v, Some g') \<and>
    (gate_reach k parse opts g' \<and> within_bounds g') \<and>
    (if v = unmeasured then PairMarketSubstance env (AssetAliases (se_network env) base)
        (AssetAliases (se_network env) quote) (Window (withDefaults opts)) = None
     else current_verdict parse now base quote (withDefaults opts) (\<lambda>ev. ev_WindowEnd ev = ev_MeasuredAt ev) v)"
proof -
  have inv: "gate_inv k parse g" and pol: "sg_policy g = withDefaults opts" using gate_reach_inv [OF reach] by auto
  let ?read = "\<lambda>bases quotes. PairMarketSubstance env bases quotes (Window (withDefaults opts))"
  show ?thesis
  proof (rule verdict_or_failure [where read = ?read])
    show "list_all (live_entry k parse (withDefaults opts)) (sg_cache g)" using inv pol by (simp add: gate_inv_def)
    show "gate_reach k parse opts g \<and> within_bounds g" using reach reach_bounds [OF reach] by blast
    show "gate_reach k parse opts (publish_live base quote now e g) \<and> within_bounds (publish_live base quote now e g)"
      if "measureUnion env base quote (withDefaults opts) now now ?read = Some (Some e)" for e
      using gate_reach.live [OF reach valid env, unfolded pol, OF that] reach_bounds by blast
    show "Measure env (Some g) now base quote =
      (case cached (sg_cache g) (pairCacheKey base quote) now of
        Some v \<Rightarrow> Some (v, Some g)
      | None \<Rightarrow>
          (case measureUnion env base quote (withDefaults opts) now now ?read of
             None \<Rightarrow> None
           | Some None \<Rightarrow> Some (unmeasured, Some g)
           | Some (Some e) \<Rightarrow> Some (entry_verdict e, Some (publish_live base quote now e g))))"
      unfolding Measure_def option.case pol using scope by simp
  qed (use env live_entry_current [OF k valid] in \<open>simp_all add: withDefaults_def\<close>)
qed

text \<open>
  C15. In whatever state concurrent callers have left the gate, \<open>Measure\<close> on a pair of valid assets
  with an on-chain leg never panics and keeps every cache within its bound. Either the store failed and
  there is no verdict, or the verdict was measured on this market (in one direction or the other) less
  than a minute ago and is the floor the measured figures fail under the gate's resolved policy.
\<close>

theorem measure_current:
  assumes k: "strkey_ok k" and reach: "gate_reach k parse opts g" and env: "se_parse env = parse"
    and valid: "Asset_Validate k base = None" "Asset_Validate k quote = None" and scope: "SubstanceGated base quote"
  shows "\<exists>v g'. Measure env (Some g) now base quote = Some (v, Some g') \<and>
    (gate_reach k parse opts g' \<and> within_bounds g') \<and>
    (if v = unmeasured then PairMarketSubstance env (AssetAliases (se_network env) base)
        (AssetAliases (se_network env) quote) (Window (withDefaults opts)) = None
     else current_verdict parse now base quote (withDefaults opts) (\<lambda>ev. ev_WindowEnd ev = ev_MeasuredAt ev) v)"
  by (rule measured_verdict [OF assms])

lemma measured_at_verdict:
  assumes k: "strkey_ok k" and reach: "gate_reach k parse opts g" and env: "se_parse env = parse"
    and valid: "Asset_Validate k base = None" "Asset_Validate k quote = None" and scope: "SubstanceGated base quote"
    and q: "at_question g now moment = (grain, pol, asOf)"
  shows "\<exists>v g'. MeasureAt env (Some g) now base quote moment = Some (v, Some g') \<and>
    (gate_reach k parse opts g' \<and> within_bounds g') \<and>
    (if v = unmeasured then PairMarketSubstanceAt env (AssetAliases (se_network env) base)
        (AssetAliases (se_network env) quote) asOf (Window pol) grain = None
     else current_verdict parse now base quote pol (\<lambda>ev. ev_WindowEnd ev = asOf) v)"
proof -
  have inv: "gate_inv k parse g" using gate_reach_inv [OF reach] by auto
  let ?read = "\<lambda>bases quotes. PairMarketSubstanceAt env bases quotes asOf (Window pol) grain"
  let ?pub = "\<lambda>e. publish_at (at_key base quote grain asOf) now e g"
  show ?thesis
  proof (rule verdict_or_failure [where read = ?read])
    show "list_all (at_entry k parse (sg_policy g)) (sg_atCache g)" using inv by (simp add: gate_inv_def)
    show "gate_reach k parse opts g \<and> within_bounds g" using reach reach_bounds [OF reach] by blast
    show "gate_reach k parse opts (?pub e) \<and> within_bounds (?pub e)"
      if "measureUnion env base quote pol now asOf ?read = Some (Some e)" for e
      using gate_reach.point [OF reach valid env q that] reach_bounds by blast
    show "MeasureAt env (Some g) now base quote moment =
      (case cached (sg_atCache g) (at_key base quote grain asOf) now of
        Some v \<Rightarrow> Some (v, Some g)
      | None \<Rightarrow>
          (case measureUnion env base quote pol now asOf ?read of
             None \<Rightarrow> None
           | Some None \<Rightarrow> Some (unmeasured, Some g)
           | Some (Some e) \<Rightarrow> Some (entry_verdict e, Some (?pub e))))"
      unfolding MeasureAt_def option.case q Let_def prod.case using scope by simp
    show "MinVolumeUSD pol \<noteq> None"
      using at_question_grain(1) [OF q] inv by (auto simp: gate_inv_def hour_policy_volume)
  qed (use env at_entry_current [OF k valid q] in simp_all)
qed

text \<open>
  \<open>MeasureAt\<close> likewise: its verdict is about the window that ends at the asked instant, cut to now
  and truncated to the grain, and is judged by the policy of that grain.
\<close>

theorem measure_at_current:
  assumes k: "strkey_ok k" and reach: "gate_reach k parse opts g" and env: "se_parse env = parse"
    and valid: "Asset_Validate k base = None" "Asset_Validate k quote = None" and scope: "SubstanceGated base quote"
    and q: "at_question g now moment = (grain, pol, asOf)"
  shows "\<exists>v g'. MeasureAt env (Some g) now base quote moment = Some (v, Some g') \<and>
    (gate_reach k parse opts g' \<and> within_bounds g') \<and>
    (if v = unmeasured then PairMarketSubstanceAt env (AssetAliases (se_network env) base)
        (AssetAliases (se_network env) quote) asOf (Window pol) grain = None
     else current_verdict parse now base quote pol (\<lambda>ev. ev_WindowEnd ev = asOf) v)"
  by (rule measured_at_verdict [OF assms])

text \<open>A store with one liquid market: five thousand dollars over seven hours.\<close>

definition sample_env :: substance_env where
  "sample_env = \<lparr>se_network = no_network,
     se_parse = (\<lambda>s. if s = ''5000'' then Some 5000 else None),
     PairMarketSubstance = (\<lambda>_ _ _. Some \<lparr>ms_VolumeUSD = ''5000'', ms_Buckets = 40, ms_SpanSeconds = 25200,
       ms_ValuedBuckets = 40\<rparr>),
     PairMarketSubstanceAt = (\<lambda>_ _ _ _ _. None)\<rparr>"

definition no_options :: SubstancePolicy where
  "no_options = \<lparr>MinVolumeUSD = None, MinBuckets = 0, MinSpan = 0, Window = 0\<rparr>"

lemma sample_scope: "SubstanceGated sample_usdc NativeAsset"
  by (simp add: SubstanceGated_def onChain_def NativeAsset_def)

theorem measure_current_witness:
  "\<exists>v g'. Measure sample_env (Some (NewSubstanceGate no_options)) 7 sample_usdc NativeAsset = Some (v, Some g') \<and>
     within_bounds g'"
  using measure_current [OF sample_sdk_ok gate_reach.new refl sample_usdc_valid NativeAsset_valid sample_scope,
    of sample_env no_options 7] by blast

theorem measure_at_current_witness:
  "\<exists>v g'. MeasureAt sample_env (Some (NewSubstanceGate no_options)) 7 sample_usdc NativeAsset 3 = Some (v, Some g') \<and>
     within_bounds g'"
proof -
  obtain grain pol asOf where q: "at_question (NewSubstanceGate no_options) 7 3 = (grain, pol, asOf)"
    by (metis prod_cases3)
  show ?thesis
    using measure_at_current [OF sample_sdk_ok gate_reach.new refl sample_usdc_valid NativeAsset_valid sample_scope q,
      of sample_env] by blast
qed

section \<open>The verdict on an asset\<close>

text \<open>The outcome of the fold over quotes: one cleared market, or the answers of all of them.\<close>

definition fold_outcome ::
  "(Asset \<Rightarrow> Asset \<Rightarrow> bool \<times> bool \<times> SubstanceFloor \<Rightarrow> bool) \<Rightarrow> Asset \<Rightarrow> Asset set \<Rightarrow> bool \<Rightarrow> bool \<times> bool \<times> SubstanceFloor \<Rightarrow> bool" where
  "fold_outcome sound a Q measured = (\<lambda>(ok, m, f).
     if ok then m \<and> f = FloorNone \<and> (\<exists>q \<in> Q. q \<noteq> a \<and> (\<exists>f. sound a q (True, True, f)))
     else if m then measured \<and> (\<forall>q \<in> Q. q \<noteq> a \<longrightarrow> (\<exists>f. sound a q (False, True, f)))
     else \<not> measured \<or> (\<exists>q \<in> Q. q \<noteq> a \<and> (\<exists>ok f. sound a q (ok, False, f))))"

text \<open>
  What the asset-level fold asks of a \<open>SubstanceVerdicter\<close>: a probe of two assets of its domain
  returns, keeps the implementation's invariant, and its answer is sound.
\<close>

locale substance_verdicter =
  fixes prb :: "'s prober" and inv :: "'s \<Rightarrow> bool" and dmn :: "Asset \<Rightarrow> bool"
    and sound :: "Asset \<Rightarrow> Asset \<Rightarrow> bool \<times> bool \<times> SubstanceFloor \<Rightarrow> bool"
  assumes probe: "inv s \<Longrightarrow> dmn a \<Longrightarrow> dmn q \<Longrightarrow> Type a \<in> {AssetClassic, AssetSoroban} \<Longrightarrow>
      \<exists>r s'. prb a q s = Some (r, s') \<and> inv s' \<and> sound a q r"
begin

lemma asset_loop_outcome:
  assumes "inv s" "dmn a" "\<forall>q \<in> set qs. dmn q" "Type a \<in> {AssetClassic, AssetSoroban}"
  shows "\<exists>r s'. asset_loop prb a qs measured furthest s = Some (r, s') \<and> inv s' \<and> fold_outcome sound a (set qs) measured r"
  using assms
proof (induction qs arbitrary: measured furthest s)
  case Nil
  then show ?case by (cases measured) (auto simp: fold_outcome_def)
next
  case (Cons q qs)
  show ?case
  proof (cases "a = q")
    case True
    then have "asset_loop prb a (q # qs) measured furthest s = asset_loop prb a qs measured furthest s"
      by (simp add: Asset_Equal_def)
    then show ?thesis using Cons.IH [of s measured furthest] Cons.prems True
      by (fastforce simp: fold_outcome_def split: if_splits)
  next
    case False
    then have ne: "\<not> Asset_Equal a q" by (auto simp: Asset_Equal_def intro: Asset.equality)
    obtain ok m f s1 where p: "prb a q s = Some ((ok, m, f), s1)" "inv s1" "sound a q (ok, m, f)"
      using probe [of s a q] Cons.prems by auto
    show ?thesis
    proof (cases "ok \<and> m")
      case True
      then show ?thesis using p ne False by (auto simp: fold_outcome_def)
    next
      case refused: False
      obtain r s2 where r: "asset_loop prb a qs (measured \<and> m) (furthestFloor furthest f) s1 = Some (r, s2)"
        "inv s2" "fold_outcome sound a (set qs) (measured \<and> m) r"
        using Cons.IH [of s1 "measured \<and> m" "furthestFloor furthest f"] Cons.prems p(2) by auto
      have "fold_outcome sound a (set (q # qs)) measured r"
        using r(3) p(3) refused False by (cases r; cases ok; cases m) (auto simp: fold_outcome_def split: if_splits)
      then show ?thesis using p(1) r(1,2) refused ne by (cases r) auto
    qed
  qed
qed

end

text \<open>The gate itself is such a verdicter.\<close>

definition probe_sound ::
  "(string \<Rightarrow> rat option) \<Rightarrow> gotime \<Rightarrow> SubstancePolicy \<Rightarrow> Asset \<Rightarrow> Asset \<Rightarrow> bool \<times> bool \<times> SubstanceFloor \<Rightarrow> bool" where
  "probe_sound parse now pol a q = (\<lambda>(ok, m, f).
     if m then \<exists>v. current_verdict parse now a q pol (\<lambda>ev. ev_WindowEnd ev = ev_MeasuredAt ev) v \<and>
         sub_Allowed v = ok \<and> sub_Floor v = f
     else \<not> ok)"

definition gate_state :: "sdk \<Rightarrow> (string \<Rightarrow> rat option) \<Rightarrow> SubstancePolicy \<Rightarrow> SubstanceGate option \<Rightarrow> bool" where
  "gate_state k parse opts s \<longleftrightarrow> strkey_ok k \<and> (\<exists>g. s = Some g \<and> gate_reach k parse opts g)"

lemma fiatUSD_valid: "Asset_Validate k fiatUSD = None"
proof -
  have "IsKnownFiat ''USD''" by code_simp
  then show ?thesis by (simp add: fiatUSD_def Asset_Validate_def zeroAsset_def)
qed

lemma probe_answers:
  assumes s: "gate_state k (se_parse env) opts s" and a: "Asset_Validate k a = None" and q: "Asset_Validate k q = None"
    and t: "Type a \<in> {AssetClassic, AssetSoroban}"
  shows "\<exists>r s'. Probe env now a q s = Some (r, s') \<and> gate_state k (se_parse env) opts s' \<and>
    probe_sound (se_parse env) now (withDefaults opts) a q r"
proof -
  obtain g where k: "strkey_ok k" and g: "s = Some g" "gate_reach k (se_parse env) opts g"
    using s by (auto simp: gate_state_def)
  have scope: "SubstanceGated a q" using t by (auto simp: SubstanceGated_def onChain_def)
  obtain v g' where m: "Measure env (Some g) now a q = Some (v, Some g')" "gate_reach k (se_parse env) opts g'"
    and v: "v \<noteq> unmeasured \<Longrightarrow>
      current_verdict (se_parse env) now a q (withDefaults opts) (\<lambda>ev. ev_WindowEnd ev = ev_MeasuredAt ev) v"
    using measured_verdict [OF k g(2) refl a q scope, of now] by (metis (mono_tags))
  have "probe_sound (se_parse env) now (withDefaults opts) a q (sub_Allowed v, sub_Measured v, sub_Floor v)"
    using v by (cases "v = unmeasured") (auto simp: probe_sound_def unmeasured_def current_verdict_def)
  then show ?thesis using m k g by (auto simp: Probe_def gate_state_def)
qed

interpretation live_gate: substance_verdicter "Probe env now" "gate_state k (se_parse env) opts"
  "\<lambda>a. Asset_Validate k a = None" "probe_sound (se_parse env) now (withDefaults opts)"
  for env now k opts
  by unfold_locales (rule probe_answers)

text \<open>
  The substance verdict on a classic or contract asset's dollar value, asked of the live gate in any
  reachable state with valid pegs, returns and leaves a reachable state. It allows the asset only on a
  backing quote other than the asset itself whose market was measured less than a minute ago and clears
  every floor; it refuses as measured only when every such market was measured and fails one; and it is
  unmeasured only when some market could not be.
\<close>

theorem asset_verdict_backed:
  assumes k: "strkey_ok k" and reach: "gate_reach k (se_parse env) opts g" and a: "Asset_Validate k a = None"
    and pegs: "\<forall>q \<in> set usdPegs. Asset_Validate k q = None" and t: "Type a \<in> {AssetClassic, AssetSoroban}"
  shows "\<exists>r g'. assetSubstance (Some (Probe env now)) a usdPegs (Some g) = Some (r, Some g') \<and>
    gate_reach k (se_parse env) opts g' \<and>
    fold_outcome (probe_sound (se_parse env) now (withDefaults opts)) a ({NativeAsset, fiatUSD} \<union> set usdPegs) True r"
proof -
  have "Asset_Validate k fiatUSD = None" by (simp add: fiatUSD_valid)
  then have "\<forall>q \<in> set ([NativeAsset, fiatUSD] @ usdPegs). Asset_Validate k q = None"
    using pegs NativeAsset_valid by auto
  moreover have "gate_state k (se_parse env) opts (Some g)" using k reach by (auto simp: gate_state_def)
  ultimately obtain r s' where
    "asset_loop (Probe env now) a ([NativeAsset, fiatUSD] @ usdPegs) True FloorNone (Some g) = Some (r, s')"
    "gate_state k (se_parse env) opts s'"
    "fold_outcome (probe_sound (se_parse env) now (withDefaults opts)) a (set ([NativeAsset, fiatUSD] @ usdPegs)) True r"
    using live_gate.asset_loop_outcome [OF _ a _ t] by metis
  then show ?thesis using t by (auto simp: assetSubstance_def gate_state_def)
qed

theorem asset_verdict_backed_witness:
  "\<exists>r g'. assetSubstance (Some (Probe sample_env 7)) sample_usdc [] (Some (NewSubstanceGate no_options)) = Some (r, Some g') \<and>
    fold_outcome (probe_sound (se_parse sample_env) 7 (withDefaults no_options)) sample_usdc {NativeAsset, fiatUSD} True r"
  using asset_verdict_backed [OF sample_sdk_ok gate_reach.new sample_usdc_valid, where usdPegs = "[]" and env = sample_env and opts = no_options and now = 7]
  by (simp add: sample_usdc_def) blast

section \<open>Point-in-time prices and the floor they are judged by\<close>

definition rung_serves ::
  "(HistoryGranularity \<Rightarrow> 'e + (gotime \<times> string) option) \<Rightarrow> gotime \<Rightarrow> duration \<Rightarrow> HistoryGranularity \<Rightarrow>
     gotime \<Rightarrow> string \<Rightarrow> bool" where
  "rung_serves clsd ts maxStaleness g b v \<longleftrightarrow>
     clsd g = Inr (Some (b, v)) \<and> time_Sub ts (b + BucketDuration g) \<le> maxStaleness"

lemma ladder_walk_first:
  assumes "ladder_walk clsd ts maxStaleness gs = Inr row"
  shows "\<exists>pre post. gs = pre @ at_Resolution row # post \<and>
    rung_serves clsd ts maxStaleness (at_Resolution row) (at_Bucket row) (at_VWAP row) \<and>
    (\<forall>g \<in> set pre. \<not> (\<exists>b v. rung_serves clsd ts maxStaleness g b v))"
  using assms
proof (induction gs)
  case Nil
  then show ?case by simp
next
  case (Cons g gs)
  show ?case
  proof (cases "\<exists>b v. rung_serves clsd ts maxStaleness g b v")
    case True
    then have "at_Resolution row = g \<and> rung_serves clsd ts maxStaleness g (at_Bucket row) (at_VWAP row)"
      using Cons.prems by (auto simp: rung_serves_def)
    then show ?thesis by - (rule exI [of _ "[]"], rule exI [of _ gs], auto)
  next
    case False
    then have "ladder_walk clsd ts maxStaleness gs = Inr row"
      using Cons.prems by (auto simp: rung_serves_def split: sum.splits option.splits if_splits)
    then obtain pre post where "gs = pre @ at_Resolution row # post"
      "rung_serves clsd ts maxStaleness (at_Resolution row) (at_Bucket row) (at_VWAP row)"
      "\<forall>g \<in> set pre. \<not> (\<exists>b v. rung_serves clsd ts maxStaleness g b v)"
      using Cons.IH by blast
    then show ?thesis using False by - (rule exI [of _ "g # pre"], rule exI [of _ post], auto)
  qed
qed

text \<open>
  A point-in-time price comes from the finest rung of the ladder whose nearest bucket closes within
  the staleness bound, and whenever that is a raw one-minute bucket the substance gate, asked about the
  same instant, counts minutes and applies its undiluted live policy: a bucket anyone can author is
  never judged by the looser hour-grain floor.
\<close>

theorem minute_price_minute_floor:
  assumes "ClosedVWAPAtOrBefore clsd now ts maxStaleness = Inr row"
  shows "rung_serves clsd ts maxStaleness (at_Resolution row) (at_Bucket row) (at_VWAP row) \<and>
    (\<forall>h \<in> set AllHistoryGranularities. BucketDuration h < BucketDuration (at_Resolution row) \<longrightarrow>
       h \<in> set (priceAtResolutionLadder (max 0 (time_Sub now ts))) \<longrightarrow>
       \<not> (\<exists>b v. rung_serves clsd ts maxStaleness h b v)) \<and>
    (at_Resolution row = Granularity1m \<longrightarrow>
       (\<exists>asOf. at_question g now ts = (Granularity1m, sg_policy g, asOf)))"
proof -
  define age where "age = max 0 (time_Sub now ts)"
  have "ladder_walk clsd ts maxStaleness (priceAtResolutionLadder age) = Inr row"
  proof -
    have if_not_swap: "(if 0 \<le> x then x else 0) = (if x < 0 then 0 else x)" for x :: int by auto
    have "age = (if time_Sub now ts < 0 then 0 else time_Sub now ts)" unfolding age_def max_def by (rule if_not_swap)
    then show ?thesis using assms unfolding ClosedVWAPAtOrBefore_def Let_def by (simp only:)
  qed
  then obtain pre post where l: "priceAtResolutionLadder age = pre @ at_Resolution row # post"
    and serves: "rung_serves clsd ts maxStaleness (at_Resolution row) (at_Bucket row) (at_VWAP row)"
    and first: "\<forall>g \<in> set pre. \<not> (\<exists>b v. rung_serves clsd ts maxStaleness g b v)"
    using ladder_walk_first by blast
  have "sorted_wrt (\<lambda>g h. BucketDuration g < BucketDuration h) (priceAtResolutionLadder age)"
    by (simp add: priceAtResolutionLadder_def BucketDuration_def go_hour_def go_minute_def go_second_def)
  then have finer: "h \<in> set pre" if "h \<in> set (priceAtResolutionLadder age)"
    "BucketDuration h < BucketDuration (at_Resolution row)" for h
    using that unfolding l by (auto simp: sorted_wrt_append)
  have age_asked: "time_Sub now (if now < ts then now else ts) = age"
    by (auto simp: age_def time_Sub_def max_int64_def min_int64_def)
  have "age \<le> PriceAtMinuteRungMaxAge" if "at_Resolution row = Granularity1m"
  proof (rule ccontr)
    assume "\<not> age \<le> PriceAtMinuteRungMaxAge"
    then have "Granularity1m \<notin> set (priceAtResolutionLadder age)" by (simp add: priceAtResolutionLadder_def)
    then show False using l that by simp
  qed
  then have "\<exists>asOf. at_question g now ts = (Granularity1m, sg_policy g, asOf)"
    if "at_Resolution row = Granularity1m"
    using that by (simp add: at_question_def policyAt_def Let_def age_asked)
  then show ?thesis using serves first finer by (auto simp: age_def)
qed

theorem minute_price_minute_floor_witness:
  "\<exists>asOf. at_question (NewSubstanceGate no_options) (10 * go_minute) (9 * go_minute) =
     (Granularity1m, sg_policy (NewSubstanceGate no_options), asOf)"
proof -
  let ?closed = "\<lambda>g :: HistoryGranularity. Inr (if g = Granularity1m then Some (8 * go_minute, ''10'') else None) :: unit + (gotime \<times> string) option"
  have "ClosedVWAPAtOrBefore ?closed (10 * go_minute) (9 * go_minute) go_hour =
      Inr \<lparr>at_VWAP = ''10'', at_Bucket = 8 * go_minute, at_Resolution = Granularity1m\<rparr>"
    by (simp add: ClosedVWAPAtOrBefore_def priceAtResolutionLadder_def PriceAtMinuteRungMaxAge_def Let_def
      BucketDuration_def time_Sub_def max_int64_def min_int64_def go_hour_def go_minute_def go_second_def)
  from minute_price_minute_floor [OF this] show ?thesis by simp
qed

end
