(* ===== verification/ScamGate.thy ===== *)
theory ScamGate
  imports SubstanceCache
begin

text \<open>
  \<open>internal/pricingguard/scam.go\<close>: the gate that withholds every price with a leg whose issuer the
  curated directory flags, and the one decision \<open>Gate.Judge\<close> folds from it and the thin-market gate.
  The tag vocabulary and its helpers are those of \<open>internal/storage/timescale/account_directory.go\<close>.

  The directory lookup and the listing of flagged classic assets are parameters, an error is \<open>None\<close>;
  \<open>strings.TrimSpace\<close> and \<open>strings.ToLower\<close> are modelled on ASCII text, the alphabet of the
  directory's tags. The background rebuild of the SAC index is a step of its own.
\<close>

section \<open>Directory tags\<close>

record DirectoryEntry =
  de_Address :: string
  de_Name :: string
  de_Domain :: string
  de_Tags :: "string list"
  de_Source :: string

definition DirectoryScamFlagTags :: "string list" where
  "DirectoryScamFlagTags = [''malicious'', ''unsafe'', ''fraud'', ''scam'', ''hack'', ''phishing'']"

definition ToLower :: "string \<Rightarrow> string" where
  "ToLower s = map ascii_lower s"

definition CanonicalDirectoryTag :: "string \<Rightarrow> string" where
  "CanonicalDirectoryTag tag = ToLower (TrimSpace tag)"

fun canonical_tags :: "string list \<Rightarrow> string list \<Rightarrow> string list" where
  "canonical_tags [] out = out"
| "canonical_tags (t # ts) out =
     (let c = CanonicalDirectoryTag t in
      canonical_tags ts (if c \<noteq> [] \<and> c \<notin> set out then out @ [c] else out))"

definition CanonicalDirectoryTags :: "string list \<Rightarrow> string list" where
  "CanonicalDirectoryTags tags = canonical_tags tags []"

definition isDirectoryScamFlagTag :: "string \<Rightarrow> bool" where
  "isDirectoryScamFlagTag tag = list_ex (\<lambda>f. CanonicalDirectoryTag tag = f) DirectoryScamFlagTags"

definition DirectoryTagsWithoutScamFlags :: "string list \<Rightarrow> string list" where
  "DirectoryTagsWithoutScamFlags tags = filter (\<lambda>t. \<not> isDirectoryScamFlagTag t) tags"

definition IsDirectoryScamFlagged :: "string list \<Rightarrow> bool" where
  "IsDirectoryScamFlagged tags = list_ex (\<lambda>t. CanonicalDirectoryTag t \<in> set DirectoryScamFlagTags) tags"

section \<open>The gate\<close>

record scamVerdict =
  scv_withheld :: bool
  scv_expires :: gotime

record ScamGate =
  sc_cache :: "(string \<times> scamVerdict) list"
  sc_lists :: bool
  sc_index :: "string list option"
  sc_expires :: gotime
  sc_refreshing :: bool

text \<open>
  One call's surroundings: the aliases and the SDK, the clock when it starts and after a listing, what
  the two reads answer, and whether its context is still live.
\<close>

record scam_env =
  ce_sdk :: sdk
  ce_network :: network
  ce_now :: gotime
  ce_later :: gotime
  ce_dir :: "string \<Rightarrow> DirectoryEntry option option"
  ce_flagged :: "Asset list option"
  ce_live :: bool

datatype scam_metric = ScamWithheld string | ScamLookupFailed string

definition scamCacheTTL :: duration where
  "scamCacheTTL = 60 * go_second"

definition scamCacheMax :: nat where
  "scamCacheMax = 8192"

definition NewScamGate :: "bool \<Rightarrow> ScamGate" where
  "NewScamGate lister =
     \<lparr>sc_cache = [], sc_lists = lister, sc_index = None, sc_expires = 0, sc_refreshing = False\<rparr>"

definition sacIndexOf :: "sdk \<Rightarrow> network \<Rightarrow> Asset list \<Rightarrow> string list" where
  "sacIndexOf k n assets =
     List.map_filter (\<lambda>a. case SacContractID k n a of Inl _ \<Rightarrow> None | Inr cid \<Rightarrow> Some cid) assets"

definition buildSACIndexLocked :: "scam_env \<Rightarrow> ScamGate \<Rightarrow> string list option \<times> ScamGate" where
  "buildSACIndexLocked env g =
     (case ce_flagged env of
        None \<Rightarrow> (None, g)
      | Some assets \<Rightarrow>
          let ix = sacIndexOf (ce_sdk env) (ce_network env) assets
          in (Some ix, g\<lparr>sc_index := Some ix, sc_expires := ce_later env + scamCacheTTL\<rparr>))"

definition flaggedSACIndex :: "scam_env \<Rightarrow> ScamGate \<Rightarrow> string list option \<times> ScamGate" where
  "flaggedSACIndex env g =
     (case sc_index g of
        None \<Rightarrow> buildSACIndexLocked env g
      | Some ix \<Rightarrow>
          (Some ix, if \<not> ce_now env < sc_expires g \<and> \<not> sc_refreshing g then g\<lparr>sc_refreshing := True\<rparr> else g))"

text \<open>The goroutine an expired index starts, when its listing has answered.\<close>

definition refreshSACIndex :: "scam_env \<Rightarrow> ScamGate \<Rightarrow> scam_metric list \<times> ScamGate" where
  "refreshSACIndex env g =
     (case ce_flagged env of
        None \<Rightarrow> ([ScamLookupFailed ''sac_index_refresh''], g\<lparr>sc_refreshing := False\<rparr>)
      | Some assets \<Rightarrow>
          ([], g\<lparr>sc_refreshing := False, sc_index := Some (sacIndexOf (ce_sdk env) (ce_network env) assets),
             sc_expires := ce_later env + scamCacheTTL\<rparr>))"

definition WarmSACIndex :: "scam_env \<Rightarrow> ScamGate option \<Rightarrow> ScamGate option" where
  "WarmSACIndex env gate =
     (case gate of
        None \<Rightarrow> None
      | Some g \<Rightarrow> Some (if \<not> sc_lists g then g else snd (flaggedSACIndex env g)))"

definition flaggedSAC :: "scam_env \<Rightarrow> string \<Rightarrow> string \<Rightarrow> ScamGate \<Rightarrow> bool \<times> scam_metric list \<times> ScamGate" where
  "flaggedSAC env contractID surface g =
     (if \<not> sc_lists g \<or> contractID = [] then (False, [], g)
      else case flaggedSACIndex env g of
        (None, g') \<Rightarrow> (False, if ce_live env then [ScamLookupFailed surface] else [], g')
      | (Some ix, g') \<Rightarrow>
          if contractID \<notin> set ix then (False, [], g') else (True, [ScamWithheld surface], g'))"

text \<open>The publication of a directory verdict; the lookup before it only reads the cache.\<close>

definition publish_scam :: "string \<Rightarrow> gotime \<Rightarrow> bool \<Rightarrow> ScamGate \<Rightarrow> ScamGate" where
  "publish_scam key now withheld g =
     g\<lparr>sc_cache := AList.update key \<lparr>scv_withheld = withheld, scv_expires = now + scamCacheTTL\<rparr>
         (if scamCacheMax \<le> length (sc_cache g) then [] else sc_cache g)\<rparr>"

definition entry_flagged :: "DirectoryEntry option \<Rightarrow> bool" where
  "entry_flagged e = (case e of None \<Rightarrow> False | Some e \<Rightarrow> IsDirectoryScamFlagged (de_Tags e))"

definition directoryFlagged :: "scam_env \<Rightarrow> string \<Rightarrow> string \<Rightarrow> ScamGate \<Rightarrow> bool \<times> scam_metric list \<times> ScamGate" where
  "directoryFlagged env key surface g =
     (let now = ce_now env;
          fresh = (case ce_dir env key of
             None \<Rightarrow> (False, if ce_live env then [ScamLookupFailed surface] else [], g)
           | Some e \<Rightarrow>
               let withheld = entry_flagged e
               in (withheld, if withheld then [ScamWithheld surface] else [], publish_scam key now withheld g))
      in case map_of (sc_cache g) key of
           None \<Rightarrow> fresh
         | Some v \<Rightarrow>
             if now < scv_expires v
             then (scv_withheld v, if scv_withheld v then [ScamWithheld surface] else [], g)
             else fresh)"

definition withheldLeg :: "scam_env \<Rightarrow> Asset \<Rightarrow> string \<Rightarrow> ScamGate option \<Rightarrow> bool \<times> scam_metric list \<times> ScamGate option" where
  "withheldLeg env asset0 surface gate =
     (case gate of
        None \<Rightarrow> (False, [], None)
      | Some g \<Rightarrow>
          let asset = CanonicalAsset (ce_network env) asset0 in
          if Type asset = AssetSoroban then
            if ContractID asset = [] then (False, [], gate)
            else (case flaggedSAC env (ContractID asset) surface g of
                    (True, ms, g') \<Rightarrow> (True, ms, Some g')
                  | (False, ms, g') \<Rightarrow>
                      (case directoryFlagged env (ContractID asset) surface g' of
                         (w, ms', g'') \<Rightarrow> (w, ms @ ms', Some g'')))
          else if Type asset \<noteq> AssetClassic \<or> Issuer asset = [] then (False, [], gate)
          else (case directoryFlagged env (Issuer asset) surface g of (w, ms, g') \<Rightarrow> (w, ms, Some g')))"

definition WithheldPair ::
  "scam_env \<Rightarrow> Asset \<Rightarrow> Asset \<Rightarrow> string \<Rightarrow> ScamGate option \<Rightarrow> bool \<times> scam_metric list \<times> ScamGate option" where
  "WithheldPair env base quote surface gate =
     (case withheldLeg env base surface gate of
        (True, ms, g) \<Rightarrow> (True, ms, g)
      | (False, ms, g) \<Rightarrow>
          (case withheldLeg env quote surface g of (w, ms', g') \<Rightarrow> (w, ms @ ms', g')))"

section \<open>The one withholding decision\<close>

datatype Withholding = NotWithheld | WithheldThinMarket | WithheldFlaggedIssuer

definition WithholdingFor :: "bool \<Rightarrow> bool \<Rightarrow> Withholding" where
  "WithholdingFor scamFlagged substanceAllowed =
     (if scamFlagged then WithheldFlaggedIssuer
      else if \<not> substanceAllowed then WithheldThinMarket
      else NotWithheld)"

record Query =
  q_PointInTime :: bool
  q_At :: gotime
  q_AdmitThin :: bool

record Verdict =
  vd_Withholding :: Withholding
  vd_Substance :: "SubstanceEvidence option"
  vd_ThinAdmitted :: bool

definition Fold :: "bool \<Rightarrow> SubstanceVerdict \<Rightarrow> bool \<Rightarrow> string \<Rightarrow> Verdict \<times> substance_metric list" where
  "Fold scamFlagged v admitThin surface =
     (if scamFlagged then (\<lparr>vd_Withholding = WithheldFlaggedIssuer, vd_Substance = None, vd_ThinAdmitted = False\<rparr>, [])
      else (\<lparr>vd_Withholding =
               (if sub_Measured v \<and> \<not> sub_Allowed v \<and> \<not> admitThin then WithheldThinMarket else NotWithheld),
             vd_Substance = sub_Evidence v,
             vd_ThinAdmitted = (sub_Measured v \<and> \<not> sub_Allowed v \<and> admitThin)\<rparr>,
            if \<not> sub_Measured v then [SubstanceUnmeasured surface]
            else if \<not> sub_Allowed v \<and> admitThin then [ThinAdmitted surface (sub_Floor v)]
            else if \<not> sub_Allowed v then [SubstanceWithheld surface (sub_Floor v)]
            else []))"

record Gate =
  g_Substance :: "SubstanceGate option"
  g_Scam :: "ScamGate option"

text \<open>The clock of the thin-market half is the one its question reads.\<close>

definition Judge ::
  "scam_env \<Rightarrow> substance_env \<Rightarrow> gotime \<Rightarrow> Asset \<Rightarrow> Asset \<Rightarrow> string \<Rightarrow> Query \<Rightarrow> Gate \<Rightarrow>
     (Verdict \<times> scam_metric list \<times> substance_metric list \<times> Gate) option" where
  "Judge cenv senv now base quote surface q g =
     (case WithheldPair cenv base quote surface (g_Scam g) of
        (True, ms, scam) \<Rightarrow>
          (case Fold True unmeasured False surface of
             (v, ss) \<Rightarrow> Some (v, ms, ss, g\<lparr>g_Scam := scam\<rparr>))
      | (False, ms, scam) \<Rightarrow>
          (case (if q_PointInTime q then MeasureAt senv (g_Substance g) now base quote (q_At q)
                 else Measure senv (g_Substance g) now base quote) of
             None \<Rightarrow> None
           | Some (sv, sg) \<Rightarrow>
               (case Fold False sv (q_AdmitThin q) surface of
                  (v, ss) \<Rightarrow> Some (v, ms, ss, \<lparr>g_Substance = sg, g_Scam = scam\<rparr>))))"

definition live_query :: Query where
  "live_query = \<lparr>q_PointInTime = False, q_At = 0, q_AdmitThin = False\<rparr>"

definition PriceWithholding ::
  "scam_env \<Rightarrow> substance_env \<Rightarrow> gotime \<Rightarrow> Asset \<Rightarrow> Asset \<Rightarrow> string \<Rightarrow> Gate \<Rightarrow> (Withholding \<times> Gate) option" where
  "PriceWithholding cenv senv now base quote surface g =
     map_option (\<lambda>(v, _, _, g). (vd_Withholding v, g)) (Judge cenv senv now base quote surface live_query g)"

definition PriceWithholdingAt ::
  "scam_env \<Rightarrow> substance_env \<Rightarrow> gotime \<Rightarrow> Asset \<Rightarrow> Asset \<Rightarrow> gotime \<Rightarrow> string \<Rightarrow> Gate \<Rightarrow> (Withholding \<times> Gate) option" where
  "PriceWithholdingAt cenv senv now base quote moment surface g =
     map_option (\<lambda>(v, _, _, g). (vd_Withholding v, g))
       (Judge cenv senv now base quote surface
         \<lparr>q_PointInTime = True, q_At = moment, q_AdmitThin = False\<rparr> g)"

definition PriceWithheld ::
  "scam_env \<Rightarrow> substance_env \<Rightarrow> gotime \<Rightarrow> Asset \<Rightarrow> Asset \<Rightarrow> string \<Rightarrow> Gate \<Rightarrow> (bool \<times> Gate) option" where
  "PriceWithheld cenv senv now base quote surface g =
     map_option (\<lambda>(w, g). (w \<noteq> NotWithheld, g)) (PriceWithholding cenv senv now base quote surface g)"

text \<open>
  The asset-level question. A nil \<open>*SubstanceGate\<close> reaches the fold as a non-nil interface, whose
  probes of the nil gate all allow.
\<close>

definition AssetValueWithholding ::
  "scam_env \<Rightarrow> substance_env \<Rightarrow> gotime \<Rightarrow> Asset \<Rightarrow> Asset list \<Rightarrow> string \<Rightarrow> Gate \<Rightarrow> (Withholding \<times> Gate) option" where
  "AssetValueWithholding cenv senv now asset usdPegs surface g =
     (case withheldLeg cenv asset surface (g_Scam g) of
        (True, _, scam) \<Rightarrow> Some (WithheldFlaggedIssuer, g\<lparr>g_Scam := scam\<rparr>)
      | (False, _, scam) \<Rightarrow>
          map_option (\<lambda>((allowed, measured), _, sg).
              (WithholdingFor False (allowed \<or> \<not> measured), \<lparr>g_Substance = sg, g_Scam = scam\<rparr>))
            (AssetSubstanceVerdict (Some (Probe senv now)) asset usdPegs surface (g_Substance g)))"

section \<open>Tags\<close>

lemma isScamFlagTag_iff: "isDirectoryScamFlagTag t \<longleftrightarrow> CanonicalDirectoryTag t \<in> set DirectoryScamFlagTags"
  by (auto simp: isDirectoryScamFlagTag_def list_ex_iff)

text \<open>Clearing the scam tags of an entry clears its flag and nothing else.\<close>

lemma cleared_tags:
  "\<not> IsDirectoryScamFlagged (DirectoryTagsWithoutScamFlags tags)"
  "\<not> IsDirectoryScamFlagged tags \<Longrightarrow> DirectoryTagsWithoutScamFlags tags = tags"
  by (auto simp: IsDirectoryScamFlagged_def DirectoryTagsWithoutScamFlags_def isScamFlagTag_iff list_ex_iff
    filter_id_conv)

section \<open>States concurrent callers can reach\<close>

text \<open>
  \<open>dir t a\<close> is the directory's answer for the address \<open>a\<close> at the instant \<open>t\<close>; every listing that
  answers contains the SAC ids \<open>lo\<close> and no other than \<open>hi\<close>.
\<close>

type_synonym directory = "gotime \<Rightarrow> string \<Rightarrow> DirectoryEntry option option"

definition env_ok :: "directory \<Rightarrow> string set \<Rightarrow> string set \<Rightarrow> scam_env \<Rightarrow> bool" where
  "env_ok dir lo hi env \<longleftrightarrow> ce_dir env = dir (ce_now env) \<and>
     (\<forall>assets. ce_flagged env = Some assets \<longrightarrow>
        lo \<subseteq> set (sacIndexOf (ce_sdk env) (ce_network env) assets) \<and>
        set (sacIndexOf (ce_sdk env) (ce_network env) assets) \<subseteq> hi)"

inductive scam_reach :: "directory \<Rightarrow> string set \<Rightarrow> string set \<Rightarrow> bool \<Rightarrow> ScamGate \<Rightarrow> bool"
  for dir lo hi lister where
  new: "scam_reach dir lo hi lister (NewScamGate lister)"
| publish: "scam_reach dir lo hi lister (publish_scam key t (entry_flagged e) g)"
    if "scam_reach dir lo hi lister g" "dir t key = Some e"
| index: "scam_reach dir lo hi lister (snd (flaggedSACIndex env g))"
    if "scam_reach dir lo hi lister g" "env_ok dir lo hi env"
| refresh: "scam_reach dir lo hi lister (snd (refreshSACIndex env g))"
    if "scam_reach dir lo hi lister g" "env_ok dir lo hi env"

definition verdict_of :: "directory \<Rightarrow> string \<times> scamVerdict \<Rightarrow> bool" where
  "verdict_of dir = (\<lambda>(key, v). \<exists>t e. scv_expires v = t + scamCacheTTL \<and> dir t key = Some e \<and>
     scv_withheld v = entry_flagged e)"

definition scam_inv :: "directory \<Rightarrow> string set \<Rightarrow> string set \<Rightarrow> bool \<Rightarrow> ScamGate \<Rightarrow> bool" where
  "scam_inv dir lo hi lister g \<longleftrightarrow> sc_lists g = lister \<and> length (sc_cache g) \<le> scamCacheMax \<and>
     (\<forall>ix. sc_index g = Some ix \<longrightarrow> lo \<subseteq> set ix \<and> set ix \<subseteq> hi) \<and>
     list_all (verdict_of dir) (sc_cache g)"

lemma scam_reach_inv: "scam_reach dir lo hi lister g \<Longrightarrow> scam_inv dir lo hi lister g"
proof (induction rule: scam_reach.induct)
  case new
  then show ?case by (simp add: scam_inv_def NewScamGate_def)
next
  case (publish g t key e)
  let ?old = "if scamCacheMax \<le> length (sc_cache g) then [] else sc_cache g"
  let ?v = "\<lparr>scv_withheld = entry_flagged e, scv_expires = t + scamCacheTTL\<rparr>"
  have "length (AList.update key ?v ?old) \<le> scamCacheMax"
    using length_AList_update [of key ?v ?old] by (auto simp: scamCacheMax_def split: if_splits)
  moreover have "verdict_of dir (key, ?v)" using publish.hyps(2) by (auto simp: verdict_of_def)
  moreover have "list_all P (AList.update key ?v ?old)" if "list_all P (sc_cache g)" "P (key, ?v)" for P
    using that set_AList_update [of key ?v ?old] unfolding list_all_iff by (auto split: if_splits)
  ultimately show ?case using publish.IH unfolding scam_inv_def publish_scam_def by simp
next
  case (index g env)
  then show ?case
    by (auto simp: scam_inv_def flaggedSACIndex_def buildSACIndexLocked_def env_ok_def Let_def split: option.splits)
next
  case (refresh g env)
  then show ?case by (auto simp: scam_inv_def refreshSACIndex_def env_ok_def split: option.splits)
qed

section \<open>What a leg is judged by\<close>

text \<open>The address the directory is asked about: a contract, or the issuer of a classic asset.\<close>

definition leg_address :: "network \<Rightarrow> Asset \<Rightarrow> string option" where
  "leg_address n a =
     (let c = CanonicalAsset n a in
      if Type c = AssetSoroban then (if ContractID c = [] then None else Some (ContractID c))
      else if Type c = AssetClassic \<and> Issuer c \<noteq> [] then Some (Issuer c) else None)"

text \<open>
  A leg is suspect when within the cache's lifetime the directory flagged its address, or it is a
  contract some listing may have named; it is surely flagged when the directory has flagged its address
  all that time, or it is a contract every listing names and the listing answers.
\<close>

definition suspect :: "directory \<Rightarrow> string set \<Rightarrow> network \<Rightarrow> gotime \<Rightarrow> Asset \<Rightarrow> bool" where
  "suspect dir hi n now a \<longleftrightarrow> (\<exists>addr. leg_address n a = Some addr \<and>
     ((\<exists>t e. now < t + scamCacheTTL \<and> dir t addr = Some e \<and> entry_flagged e) \<or>
      (Type (CanonicalAsset n a) = AssetSoroban \<and> addr \<in> hi)))"

definition surely_flagged :: "directory \<Rightarrow> string set \<Rightarrow> bool \<Rightarrow> network \<Rightarrow> gotime \<Rightarrow> Asset \<Rightarrow> bool" where
  "surely_flagged dir lo listed n now a \<longleftrightarrow> (\<exists>addr. leg_address n a = Some addr \<and>
     ((\<forall>t. now < t + scamCacheTTL \<longrightarrow> (\<exists>e. dir t addr = Some e \<and> entry_flagged e)) \<or>
      (Type (CanonicalAsset n a) = AssetSoroban \<and> addr \<in> lo \<and> listed)))"

lemma scam_TTL_pos: "0 < scamCacheTTL"
  by (simp add: scamCacheTTL_def go_second_def)

lemma directoryFlagged_current:
  assumes reach: "scam_reach dir lo hi lister g" and env: "env_ok dir lo hi env"
    and r: "directoryFlagged env key surface g = (w, ms, g')"
  shows "scam_reach dir lo hi lister g'"
    "(\<exists>t e. ce_now env < t + scamCacheTTL \<and> dir t key = Some e \<and> w = entry_flagged e) \<or>
     (dir (ce_now env) key = None \<and> \<not> w)"
proof -
  have d: "ce_dir env = dir (ce_now env)" using env by (simp add: env_ok_def)
  consider (hit) v where "map_of (sc_cache g) key = Some v" "ce_now env < scv_expires v" "w = scv_withheld v" "g' = g"
    | (failed) "dir (ce_now env) key = None" "\<not> w" "g' = g"
    | (fresh) e where "dir (ce_now env) key = Some e" "w = entry_flagged e"
        "g' = publish_scam key (ce_now env) (entry_flagged e) g"
    using r d by (auto simp: directoryFlagged_def Let_def split: option.splits if_splits)
  then have "scam_reach dir lo hi lister g' \<and>
    ((\<exists>t e. ce_now env < t + scamCacheTTL \<and> dir t key = Some e \<and> w = entry_flagged e) \<or>
     (dir (ce_now env) key = None \<and> \<not> w))"
  proof cases
    case (hit v)
    have "verdict_of dir (key, v)"
      using scam_reach_inv [OF reach] map_of_SomeD [OF hit(1)] by (auto simp: scam_inv_def list_all_iff)
    then show ?thesis using hit reach by (auto simp: verdict_of_def)
  next
    case failed
    then show ?thesis using reach by simp
  next
    case (fresh e)
    have "scam_reach dir lo hi lister g'" unfolding fresh(3) by (rule scam_reach.publish [where dir = dir, OF reach fresh(1)])
    moreover have "ce_now env < ce_now env + scamCacheTTL" using scam_TTL_pos by simp
    ultimately show ?thesis using fresh(1,2) by blast
  qed
  then show "scam_reach dir lo hi lister g'"
    "(\<exists>t e. ce_now env < t + scamCacheTTL \<and> dir t key = Some e \<and> w = entry_flagged e) \<or>
     (dir (ce_now env) key = None \<and> \<not> w)" by auto
qed

lemma directoryFlagged_bounds:
  assumes "scam_reach dir lo hi lister g" "env_ok dir lo hi env" "directoryFlagged env key surface g = (w, ms, g')"
  shows "w \<Longrightarrow> \<exists>t e. ce_now env < t + scamCacheTTL \<and> dir t key = Some e \<and> entry_flagged e"
    "\<forall>t. ce_now env < t + scamCacheTTL \<longrightarrow> (\<exists>e. dir t key = Some e \<and> entry_flagged e) \<Longrightarrow> w"
proof -
  note cur = directoryFlagged_current(2) [OF assms]
  show "\<exists>t e. ce_now env < t + scamCacheTTL \<and> dir t key = Some e \<and> entry_flagged e" if w
    using cur that by blast
  show w if "\<forall>t. ce_now env < t + scamCacheTTL \<longrightarrow> (\<exists>e. dir t key = Some e \<and> entry_flagged e)"
    using cur
  proof
    assume "\<exists>t e. ce_now env < t + scamCacheTTL \<and> dir t key = Some e \<and> w = entry_flagged e"
    then show w using that by fastforce
  next
    assume "dir (ce_now env) key = None \<and> \<not> w"
    moreover have "ce_now env < ce_now env + scamCacheTTL" using scam_TTL_pos by simp
    ultimately show w using that by fastforce
  qed
qed

lemma flaggedSAC_current:
  assumes reach: "scam_reach dir lo hi lister g" and env: "env_ok dir lo hi env"
    and r: "flaggedSAC env c surface g = (w, ms, g')" and c: "c \<noteq> []"
  shows "scam_reach dir lo hi lister g'" "w \<Longrightarrow> c \<in> hi"
    "c \<in> lo \<Longrightarrow> lister \<Longrightarrow> ce_flagged env \<noteq> None \<Longrightarrow> w"
proof -
  have inv: "scam_inv dir lo hi lister g" by (rule scam_reach_inv [OF reach])
  have l: "sc_lists g = lister" using inv by (simp add: scam_inv_def)
  have inv': "scam_inv dir lo hi lister (snd (flaggedSACIndex env g))"
    by (rule scam_reach_inv [OF scam_reach.index [OF reach env]])
  show "scam_reach dir lo hi lister g'"
    using r reach scam_reach.index [OF reach env]
    by (auto simp: flaggedSAC_def split: if_splits prod.splits option.splits)
  have ix: "sc_index (snd (flaggedSACIndex env g)) = Some i" if "fst (flaggedSACIndex env g) = Some i" for i
    using that by (auto simp: flaggedSACIndex_def buildSACIndexLocked_def Let_def split: option.splits)
  show "c \<in> hi" if w
    using that r inv' ix by (auto simp: flaggedSAC_def scam_inv_def split: if_splits prod.splits option.splits)
  show w if "c \<in> lo" lister "ce_flagged env \<noteq> None"
  proof -
    obtain i where i: "fst (flaggedSACIndex env g) = Some i"
      using \<open>ce_flagged env \<noteq> None\<close>
      by (cases "sc_index g") (auto simp: flaggedSACIndex_def buildSACIndexLocked_def Let_def)
    then have "c \<in> set i" using ix [OF i] inv' that(1) by (auto simp: scam_inv_def)
    then show w using r i l c that(2) by (auto simp: flaggedSAC_def split: if_splits prod.splits option.splits)
  qed
qed

text \<open>One leg, in any reachable state.\<close>

lemma withheldLeg_current:
  assumes reach: "scam_reach dir lo hi lister g" and env: "env_ok dir lo hi env"
    and r: "withheldLeg env a surface (Some g) = (w, ms, gate')"
  shows "\<exists>g'. gate' = Some g' \<and> scam_reach dir lo hi lister g' \<and>
    (w \<longrightarrow> suspect dir hi (ce_network env) (ce_now env) a) \<and>
    (surely_flagged dir lo (lister \<and> ce_flagged env \<noteq> None) (ce_network env) (ce_now env) a \<longrightarrow> w)"
proof -
  let ?c = "CanonicalAsset (ce_network env) a" and ?now = "ce_now env"
  show ?thesis
  proof (cases "leg_address (ce_network env) a")
    case None
    then show ?thesis using r reach
      by (auto simp: withheldLeg_def leg_address_def suspect_def surely_flagged_def Let_def split: if_splits)
  next
    case (Some addr)
    show ?thesis
    proof (cases "Type ?c = AssetSoroban")
      case True
      have addr: "ContractID ?c = addr" "addr \<noteq> []" using Some True by (auto simp: leg_address_def Let_def split: if_splits)
      obtain w1 ms1 g1 where s: "flaggedSAC env addr surface g = (w1, ms1, g1)" by (metis prod_cases3)
      obtain w2 ms2 g2 where d: "directoryFlagged env addr surface g1 = (w2, ms2, g2)" by (metis prod_cases3)
      note S = flaggedSAC_current [OF reach env s addr(2)]
      note D = directoryFlagged_current(1) [OF S(1) env d] directoryFlagged_bounds [OF S(1) env d]
      have "w = (w1 \<or> w2) \<and> gate' = Some (if w1 then g1 else g2)"
        using r True addr s d by (auto simp: withheldLeg_def Let_def split: if_splits bool.splits)
      then show ?thesis using S D Some True unfolding suspect_def surely_flagged_def by (cases w1) auto
    next
      case False
      have addr: "Type ?c = AssetClassic" "Issuer ?c = addr" "addr \<noteq> []"
        using Some False by (auto simp: leg_address_def Let_def split: if_splits)
      obtain ms2 g2 where d: "directoryFlagged env addr surface g = (w, ms2, g2)" "gate' = Some g2"
        using r False addr by (auto simp: withheldLeg_def Let_def split: prod.splits)
      show ?thesis using directoryFlagged_current(1) [OF reach env d(1)] directoryFlagged_bounds [OF reach env d(1)]
          d(2) Some False
        unfolding suspect_def surely_flagged_def by auto
    qed
  qed
qed

lemma pair_current:
  assumes reach: "scam_reach dir lo hi lister g" and env: "env_ok dir lo hi env"
    and r: "WithheldPair env base quote surface (Some g) = (w, ms, gate')"
  shows "\<exists>g'. gate' = Some g' \<and> scam_reach dir lo hi lister g' \<and>
    (w \<longrightarrow> (\<exists>a \<in> {base, quote}. suspect dir hi (ce_network env) (ce_now env) a)) \<and>
    ((\<exists>a \<in> {base, quote}. surely_flagged dir lo (lister \<and> ce_flagged env \<noteq> None) (ce_network env) (ce_now env) a) \<longrightarrow> w)"
proof -
  obtain w1 ms1 g1 where b: "withheldLeg env base surface (Some g) = (w1, ms1, g1)" by (metis prod_cases3)
  obtain h1 where h1: "g1 = Some h1" "scam_reach dir lo hi lister h1"
    and B: "w1 \<longrightarrow> suspect dir hi (ce_network env) (ce_now env) base"
      "surely_flagged dir lo (lister \<and> ce_flagged env \<noteq> None) (ce_network env) (ce_now env) base \<longrightarrow> w1"
    using withheldLeg_current [OF reach env b] by blast
  obtain w2 ms2 g2 where q: "withheldLeg env quote surface (Some h1) = (w2, ms2, g2)" by (metis prod_cases3)
  obtain h2 where h2: "g2 = Some h2" "scam_reach dir lo hi lister h2"
    and Q: "w2 \<longrightarrow> suspect dir hi (ce_network env) (ce_now env) quote"
      "surely_flagged dir lo (lister \<and> ce_flagged env \<noteq> None) (ce_network env) (ce_now env) quote \<longrightarrow> w2"
    using withheldLeg_current [OF h1(2) env q] by blast
  have "w = (w1 \<or> w2) \<and> gate' = (if w1 then g1 else g2)"
    using r b q h1(1) by (cases w1) (auto simp: WithheldPair_def)
  then show ?thesis using B Q h1 h2 by (cases w1) auto
qed

text \<open>Every form of an asset has the issuer or contract of its canonical form judged.\<close>

lemma suspect_alias:
  assumes "CanonicalAsset n b = CanonicalAsset n a"
  shows "suspect dir hi n now b = suspect dir hi n now a"
    "surely_flagged dir lo listed n now b = surely_flagged dir lo listed n now a"
  using assms by (simp_all add: suspect_def surely_flagged_def leg_address_def)

text \<open>
  On an installed network, in any state concurrent callers and the background rebuild can leave the
  scam gate in, whichever alias forms a pair is asked for with and whichever leg comes first: the price
  is withheld whenever the issuer or contract of either leg has been flagged throughout the last
  minute, or is a contract every listing of flagged issuances names; and it is withheld only if one leg
  was flagged within the last minute or may be on a listing. The verdict cache stays within its bound.
\<close>

theorem scam_withholding_exact:
  assumes net: "strkey_ok k" "strkey_codec k" "InstallNetwork k passphrase ws n = Inr (ce_network env)"
    and reach: "scam_reach dir lo hi lister g" and env: "env_ok dir lo hi env"
    and forms: "base' \<in> set (AssetAliases (ce_network env) base)" "quote' \<in> set (AssetAliases (ce_network env) quote)"
  shows "\<exists>w ms g'. WithheldPair env base' quote' surface (Some g) = (w, ms, Some g') \<and>
    scam_reach dir lo hi lister g' \<and> length (sc_cache g') \<le> scamCacheMax \<and>
    (w \<longrightarrow> (\<exists>a \<in> {base, quote}. suspect dir hi (ce_network env) (ce_now env) a)) \<and>
    ((\<exists>a \<in> {base, quote}. surely_flagged dir lo (lister \<and> ce_flagged env \<noteq> None) (ce_network env) (ce_now env) a) \<longrightarrow> w)"
proof -
  obtain w ms gate' where r: "WithheldPair env base' quote' surface (Some g) = (w, ms, gate')" by (metis prod_cases3)
  note same = alias_class_of(2) [OF net forms(1)] alias_class_of(2) [OF net forms(2)]
  obtain g' where "gate' = Some g'" "scam_reach dir lo hi lister g'"
    "w \<longrightarrow> (\<exists>a \<in> {base', quote'}. suspect dir hi (ce_network env) (ce_now env) a)"
    "(\<exists>a \<in> {base', quote'}. surely_flagged dir lo (lister \<and> ce_flagged env \<noteq> None) (ce_network env) (ce_now env) a) \<longrightarrow> w"
    using pair_current [OF reach env r] by blast
  moreover have "length (sc_cache g') \<le> scamCacheMax" if "scam_reach dir lo hi lister g'" for g'
    using scam_reach_inv [OF that] by (simp add: scam_inv_def)
  ultimately show ?thesis using r suspect_alias [OF same(1)] suspect_alias [OF same(2)] by simp
qed

text \<open>A directory that flags the sample issuer, asked through the contract form of its asset.\<close>

definition flagged_entry :: DirectoryEntry where
  "flagged_entry = \<lparr>de_Address = sample_issuer, de_Name = [], de_Domain = [], de_Tags = ['' Scam ''], de_Source = []\<rparr>"

definition sample_scam_env :: scam_env where
  "sample_scam_env = \<lparr>ce_sdk = alias_sdk, ce_network = sample_network, ce_now = 5, ce_later = 6,
     ce_dir = (\<lambda>_. Some (Some flagged_entry)), ce_flagged = None, ce_live = True\<rparr>"

lemma flagged_entry_flagged: "entry_flagged (Some flagged_entry)"
  by (simp add: entry_flagged_def flagged_entry_def) code_simp

lemma sample_flagged: "surely_flagged (\<lambda>_ _. Some (Some flagged_entry)) {} b sample_network now sample_usdc"
proof -
  have "CanonicalAsset sample_network sample_usdc = sample_usdc"
    by (simp add: CanonicalAsset_def Registry_Canonical_def familyMap_def sample_usdc_family)
  then have "leg_address sample_network sample_usdc = Some sample_issuer"
    by (simp add: leg_address_def sample_usdc_def sample_issuer_def)
  then show ?thesis using flagged_entry_flagged by (auto simp: surely_flagged_def)
qed

theorem scam_withholding_exact_witness:
  "fst (WithheldPair sample_scam_env NativeAsset sample_sac ''x'' (Some (NewScamGate False)))"
proof -
  have net: "InstallNetwork alias_sdk ''Test'' sample_wrappers no_network = Inr (ce_network sample_scam_env)"
    by (simp add: sample_scam_env_def sample_network_installed)
  have env: "env_ok (\<lambda>_ _. Some (Some flagged_entry)) {} {} sample_scam_env"
    by (simp add: env_ok_def sample_scam_env_def)
  have "sample_sac \<in> set (AssetAliases (ce_network sample_scam_env) sample_usdc)"
    by (simp add: sample_scam_env_def sample_sac_alias)
  moreover have "NativeAsset \<in> set (AssetAliases (ce_network sample_scam_env) NativeAsset)"
    by (simp add: AssetAliases_def Registry_Aliases_def split: option.splits)
  moreover have "surely_flagged (\<lambda>_ _. Some (Some flagged_entry)) {} (False \<and> ce_flagged sample_scam_env \<noteq> None)
      (ce_network sample_scam_env) (ce_now sample_scam_env) sample_usdc"
    by (simp add: sample_scam_env_def sample_flagged)
  ultimately show ?thesis
    using scam_withholding_exact [OF alias_sdk_ok net scam_reach.new env,
      of NativeAsset NativeAsset sample_sac sample_usdc "''x''" False]
    by auto
qed

section \<open>The folded decision\<close>

text \<open>
  What the thin-market half may answer: out of scope, no verdict because the store failed, or a verdict
  less than a minute old on this market under the policy of its question.
\<close>

definition substance_answer ::
  "substance_env \<Rightarrow> SubstanceGate \<Rightarrow> gotime \<Rightarrow> Asset \<Rightarrow> Asset \<Rightarrow> Query \<Rightarrow> SubstanceVerdict \<Rightarrow> bool" where
  "substance_answer env g now base quote q v \<longleftrightarrow>
     (if \<not> SubstanceGated base quote then v = out_of_scope
      else v = unmeasured \<or>
        (\<exists>pol w. current_verdict (se_parse env) now base quote pol w v \<and>
           pol = (if q_PointInTime q then fst (snd (at_question g now (q_At q))) else sg_policy g)))"

lemma substance_half:
  assumes k: "strkey_ok k" and reach: "gate_reach k (se_parse env) opts g"
    and valid: "Asset_Validate k base = None" "Asset_Validate k quote = None"
  shows "\<exists>v g'. (if q_PointInTime q then MeasureAt env (Some g) now base quote (q_At q)
      else Measure env (Some g) now base quote) = Some (v, Some g') \<and>
    gate_reach k (se_parse env) opts g' \<and> substance_answer env g now base quote q v"
proof (cases "SubstanceGated base quote")
  case False
  then show ?thesis using reach by (auto simp: MeasureAt_def Measure_def substance_answer_def)
next
  case scope: True
  show ?thesis
  proof (cases "q_PointInTime q")
    case True
    obtain grain pol asOf where a: "at_question g now (q_At q) = (grain, pol, asOf)" by (metis prod_cases3)
    obtain v g' where "MeasureAt env (Some g) now base quote (q_At q) = Some (v, Some g')"
      "gate_reach k (se_parse env) opts g'"
      "v \<noteq> unmeasured \<Longrightarrow> current_verdict (se_parse env) now base quote pol (\<lambda>ev. ev_WindowEnd ev = asOf) v"
      using measured_at_verdict [OF k reach refl valid scope a] by (metis (mono_tags))
    then show ?thesis using True scope a by (auto simp: substance_answer_def)
  next
    case False
    have pol: "sg_policy g = withDefaults opts" using gate_reach_inv [OF reach] by simp
    obtain v g' where "Measure env (Some g) now base quote = Some (v, Some g')" "gate_reach k (se_parse env) opts g'"
      "v \<noteq> unmeasured \<Longrightarrow> current_verdict (se_parse env) now base quote (sg_policy g)
         (\<lambda>ev. ev_WindowEnd ev = ev_MeasuredAt ev) v"
      using measured_verdict [OF k reach refl valid scope, of now] unfolding pol by (metis (mono_tags))
    then show ?thesis using False scope by (auto simp: substance_answer_def)
  qed
qed

text \<open>
  C14. The decision every surface consults, with both gates armed and in any reachable state, is total
  and keeps them reachable. A pair with a leg flagged throughout the last minute is withheld as a
  flagged issuer whatever the query, an admitted thin market included. Otherwise the answer rests on a
  current substance answer: it is withheld as thin exactly when that is a measured refusal and thin
  markets are not admitted, marked as admitted when they are, and served in every other case. A pair
  withheld as flagged had a suspect leg.
\<close>

theorem judge_sound:
  assumes k: "strkey_ok k" and sub: "gate_reach k (se_parse senv) opts sg"
    and scam: "scam_reach dir lo hi lister cg" "env_ok dir lo hi cenv"
    and valid: "Asset_Validate k base = None" "Asset_Validate k quote = None"
  shows "\<exists>v ms ss sg' cg'. Judge cenv senv now base quote surface q \<lparr>g_Substance = Some sg, g_Scam = Some cg\<rparr> =
      Some (v, ms, ss, \<lparr>g_Substance = Some sg', g_Scam = Some cg'\<rparr>) \<and>
    gate_reach k (se_parse senv) opts sg' \<and> scam_reach dir lo hi lister cg' \<and>
    ((\<exists>a \<in> {base, quote}. surely_flagged dir lo (lister \<and> ce_flagged cenv \<noteq> None) (ce_network cenv) (ce_now cenv) a) \<longrightarrow>
       vd_Withholding v = WithheldFlaggedIssuer) \<and>
    (if vd_Withholding v = WithheldFlaggedIssuer
     then \<exists>a \<in> {base, quote}. suspect dir hi (ce_network cenv) (ce_now cenv) a
     else \<exists>s. substance_answer senv sg now base quote q s \<and>
       (vd_Withholding v = WithheldThinMarket \<longleftrightarrow> sub_Measured s \<and> \<not> sub_Allowed s \<and> \<not> q_AdmitThin q) \<and>
       (vd_ThinAdmitted v \<longleftrightarrow> sub_Measured s \<and> \<not> sub_Allowed s \<and> q_AdmitThin q) \<and>
       vd_Substance v = sub_Evidence s)"
proof -
  obtain w ms gate where r: "WithheldPair cenv base quote surface (Some cg) = (w, ms, gate)" by (metis prod_cases3)
  obtain cg' where cg': "gate = Some cg'" "scam_reach dir lo hi lister cg'"
    and P: "w \<longrightarrow> (\<exists>a \<in> {base, quote}. suspect dir hi (ce_network cenv) (ce_now cenv) a)"
      "(\<exists>a \<in> {base, quote}. surely_flagged dir lo (lister \<and> ce_flagged cenv \<noteq> None) (ce_network cenv) (ce_now cenv) a) \<longrightarrow> w"
    using pair_current [OF scam r] by blast
  show ?thesis
  proof (cases w)
    case True
    then show ?thesis using r cg' P sub by (simp add: Judge_def Fold_def)
  next
    case False
    obtain s sg' where s: "(if q_PointInTime q then MeasureAt senv (Some sg) now base quote (q_At q)
        else Measure senv (Some sg) now base quote) = Some (s, Some sg')"
      and reach: "gate_reach k (se_parse senv) opts sg'" and ans: "substance_answer senv sg now base quote q s"
      using substance_half [OF k sub valid, of q now] by blast
    have j: "Judge cenv senv now base quote surface q \<lparr>g_Substance = Some sg, g_Scam = Some cg\<rparr> =
        Some (fst (Fold False s (q_AdmitThin q) surface), ms, snd (Fold False s (q_AdmitThin q) surface),
          \<lparr>g_Substance = Some sg', g_Scam = Some cg'\<rparr>)"
      using False r cg'(1) s by (cases "q_PointInTime q") (simp_all add: Judge_def split: prod.splits)
    have f: "vd_Withholding (fst (Fold False s (q_AdmitThin q) surface)) \<noteq> WithheldFlaggedIssuer"
      "vd_Withholding (fst (Fold False s (q_AdmitThin q) surface)) = WithheldThinMarket \<longleftrightarrow>
         sub_Measured s \<and> \<not> sub_Allowed s \<and> \<not> q_AdmitThin q"
      "vd_ThinAdmitted (fst (Fold False s (q_AdmitThin q) surface)) \<longleftrightarrow>
         sub_Measured s \<and> \<not> sub_Allowed s \<and> q_AdmitThin q"
      "vd_Substance (fst (Fold False s (q_AdmitThin q) surface)) = sub_Evidence s"
      by (auto simp: Fold_def)
    show ?thesis using False P(2) f ans reach cg'(2) unfolding j by auto
  qed
qed

theorem judge_sound_witness:
  "\<exists>v ms ss g'. Judge sample_scam_env sample_env 7 sample_usdc NativeAsset ''x'' live_query
     \<lparr>g_Substance = Some (NewSubstanceGate no_options), g_Scam = Some (NewScamGate False)\<rparr> = Some (v, ms, ss, g') \<and>
     vd_Withholding v = WithheldFlaggedIssuer"
proof -
  have env: "env_ok (\<lambda>_ _. Some (Some flagged_entry)) {} {} sample_scam_env"
    by (simp add: env_ok_def sample_scam_env_def)
  have "surely_flagged (\<lambda>_ _. Some (Some flagged_entry)) {} (False \<and> ce_flagged sample_scam_env \<noteq> None)
      (ce_network sample_scam_env) (ce_now sample_scam_env) sample_usdc"
    by (simp add: sample_scam_env_def sample_flagged)
  then show ?thesis
    using judge_sound [OF sample_sdk_ok gate_reach.new [of sample_sdk "se_parse sample_env" no_options]
      scam_reach.new env sample_usdc_valid NativeAsset_valid, of 7 "''x''" live_query] by fast
qed

end
