(* ===== verification/Holds.thy ===== *)
theory Holds
  imports Aliases GoErr
begin

text \<open>
  \<open>internal/holds/holds.go\<close>: the operator's list of holds, how one matches a response, and the poll
  that reloads the file. The TOML decoder is a parameter; what a poll finds on disk is a value of
  \<open>poll\<close>. A \<open>uint32\<close> ledger is only compared and is a \<^typ>\<open>nat\<close>.
\<close>

section \<open>Data\<close>

record Hold =
  h_Asset :: string
  h_ContractID :: string
  h_LedgerFrom :: nat
  h_LedgerTo :: nat
  h_Reason :: string

record Subject =
  s_Assets :: "string list"
  s_Ledger :: nat

datatype hold_invalid = NoReason | NoSelector | BadAsset error | BadContract | LedgersReversed

datatype 'e hold_error = Undecodable 'e | UnknownKeys "string list" | InvalidHold nat hold_invalid

section \<open>Parsing\<close>

definition Hold_validate :: "sdk \<Rightarrow> Hold \<Rightarrow> hold_invalid option" where
  "Hold_validate k h =
     (if h_Reason h = [] then Some NoReason
      else if h_Asset h = [] \<and> h_ContractID h = [] \<and> h_LedgerFrom h = 0 \<and> h_LedgerTo h = 0 then Some NoSelector
      else case (if h_Asset h = [] then None
                 else case ParseAsset k (h_Asset h) of Inl e \<Rightarrow> Some (BadAsset e) | Inr _ \<Rightarrow> None) of
        Some e \<Rightarrow> Some e
      | None \<Rightarrow>
          if h_ContractID h \<noteq> [] \<and> (length (h_ContractID h) \<noteq> 56 \<or> hd (h_ContractID h) \<noteq> CHR ''C'')
          then Some BadContract
          else if h_LedgerTo h \<noteq> 0 \<and> h_LedgerTo h < h_LedgerFrom h then Some LedgersReversed
          else None)"

fun validate_all :: "sdk \<Rightarrow> nat \<Rightarrow> Hold list \<Rightarrow> 'e hold_error option" where
  "validate_all k i [] = None"
| "validate_all k i (h # hs) =
     (case Hold_validate k h of Some e \<Rightarrow> Some (InvalidHold i e) | None \<Rightarrow> validate_all k (Suc i) hs)"

text \<open>\<open>decode doc\<close> gives the holds of the document and the keys the decoder left over.\<close>

definition Parse :: "sdk \<Rightarrow> (string \<Rightarrow> 'e + Hold list \<times> string list) \<Rightarrow> string \<Rightarrow> 'e hold_error + Hold list" where
  "Parse k decode doc =
     (case decode doc of
        Inl e \<Rightarrow> Inl (Undecodable e)
      | Inr (hs, undec) \<Rightarrow>
          if undec \<noteq> [] then Inl (UnknownKeys undec)
          else (case validate_all k 0 hs of Some e \<Rightarrow> Inl e | None \<Rightarrow> Inr hs))"

section \<open>Matching\<close>

text \<open>The derived contract of a classic asset, as the list the last branch appends.\<close>

definition derived_sac :: "sdk \<Rightarrow> network \<Rightarrow> Asset \<Rightarrow> string list" where
  "derived_sac k n a =
     (if Type a \<noteq> AssetClassic then []
      else case SacContractID k n a of Inl _ \<Rightarrow> [] | Inr sac \<Rightarrow> [sac])"

definition identityForms :: "sdk \<Rightarrow> network \<Rightarrow> string \<Rightarrow> string list" where
  "identityForms k n s =
     (case ParseAsset k s of
        Inl _ \<Rightarrow> [s]
      | Inr a \<Rightarrow>
          [s, Asset_String a] @ map Asset_String (AssetAliases n a) @
          map Asset_String (AssetAliases n (CanonicalAsset n a)) @
          derived_sac k n a)"

definition subjectForms :: "sdk \<Rightarrow> network \<Rightarrow> string list \<Rightarrow> string set" where
  "subjectForms k n assets = set (concat (map (identityForms k n) assets))"

definition overlaps :: "sdk \<Rightarrow> network \<Rightarrow> string set \<Rightarrow> string \<Rightarrow> bool" where
  "overlaps k n subject i = list_ex (\<lambda>f. f \<in> subject) (identityForms k n i)"

definition hold_matches :: "sdk \<Rightarrow> network \<Rightarrow> Hold \<Rightarrow> Subject \<Rightarrow> bool" where
  "hold_matches k n h sub =
     (let forms = subjectForms k n (s_Assets sub) in
      if h_Asset h \<noteq> [] \<and> \<not> overlaps k n forms (h_Asset h) then False
      else if h_ContractID h \<noteq> [] \<and> \<not> overlaps k n forms (h_ContractID h) then False
      else if (h_LedgerFrom h \<noteq> 0 \<or> h_LedgerTo h \<noteq> 0) \<and>
        (s_Ledger sub = 0 \<or> s_Ledger sub < h_LedgerFrom h \<or> (h_LedgerTo h \<noteq> 0 \<and> h_LedgerTo h < s_Ledger sub))
      then False
      else True)"

definition Match :: "sdk \<Rightarrow> network \<Rightarrow> Hold list \<Rightarrow> Subject \<Rightarrow> Hold option" where
  "Match k n holds sub = find (\<lambda>h. hold_matches k n h sub) holds"

section \<open>Watching the file\<close>

datatype poll = Missing | Unreadable | Contents string

text \<open>\<open>w_last\<close> is nil until a document was accepted; \<open>w_force\<close> is the list last handed to \<open>apply\<close>.\<close>

record watcher =
  w_last :: "string option"
  w_force :: "Hold list"

definition Watch_start :: watcher where
  "Watch_start = \<lparr>w_last = None, w_force = []\<rparr>"

definition reload_doc :: "sdk \<Rightarrow> (string \<Rightarrow> 'e + Hold list \<times> string list) \<Rightarrow> string \<Rightarrow> watcher \<Rightarrow> watcher" where
  "reload_doc k decode doc w =
     (if w_last w = Some doc then w
      else case Parse k decode doc of
        Inl _ \<Rightarrow> w
      | Inr hs \<Rightarrow> \<lparr>w_last = Some doc, w_force = hs\<rparr>)"

definition reload :: "sdk \<Rightarrow> (string \<Rightarrow> 'e + Hold list \<times> string list) \<Rightarrow> poll \<Rightarrow> watcher \<Rightarrow> watcher" where
  "reload k decode p w =
     (case p of
        Missing \<Rightarrow> reload_doc k decode [] w
      | Unreadable \<Rightarrow> w
      | Contents doc \<Rightarrow>
          if doc = [] \<and> w_last w \<noteq> None \<and> w_last w \<noteq> Some [] then w
          else reload_doc k decode doc w)"

text \<open>One reload at the start, then one per tick.\<close>

definition Watch :: "sdk \<Rightarrow> (string \<Rightarrow> 'e + Hold list \<times> string list) \<Rightarrow> poll list \<Rightarrow> watcher" where
  "Watch k decode polls = foldl (\<lambda>w p. reload k decode p w) Watch_start polls"

definition DefaultReloadInterval :: duration where
  "DefaultReloadInterval = 15 * go_second"

section \<open>The forms of one identity\<close>

definition identity_set :: "sdk \<Rightarrow> network \<Rightarrow> Asset \<Rightarrow> string set" where
  "identity_set k n a = set (AssetAliasStrings n a) \<union>
     (if Type a = AssetClassic then {sac. SacContractID k n a = Inr sac} else {})"

lemma canonical_class:
  assumes "strkey_ok k" "strkey_codec k" "InstallNetwork k passphrase ws n0 = Inr n"
  shows "set (AssetAliasStrings n (CanonicalAsset n a)) = set (AssetAliasStrings n a)"
proof -
  let ?tbl = "map_of (familyMap n (Some (activeAliasRegistry n)))"
  have law: "alias_table ?tbl" using network_laws [OF assms] by (simp add: network_table_def)
  show ?thesis
  proof (cases "?tbl (Asset_String a)")
    case None
    then show ?thesis by (simp add: CanonicalAsset_def Registry_Canonical_def)
  next
    case (Some fam)
    obtain f rest where f: "fam = f # rest" "?tbl (Asset_String f) = Some fam"
      using alias_table.family_head [OF law Some] by blast
    then show ?thesis using Some
      by (simp add: AssetAliasStrings_def CanonicalAsset_def Registry_Canonical_def
        alias_table.lookup_AliasStrings [OF law refl])
  qed
qed

lemma identityForms_set:
  assumes net: "strkey_ok k" "strkey_codec k" "InstallNetwork k passphrase ws n0 = Inr n"
    and parse: "ParseAsset k s = Inr a"
  shows "set (identityForms k n s) = insert s (identity_set k n a)"
proof -
  have strings: "set (map Asset_String (AssetAliases n b)) = set (AssetAliasStrings n b)" for b
    by (simp add: AssetAliases_def AssetAliasStrings_def AliasStrings_def)
  have "hd (AssetAliases n a) = a \<and> AssetAliases n a \<noteq> []"
    by (auto simp: AssetAliases_def Registry_Aliases_def split: option.splits)
  then have "Asset_String a \<in> set (AssetAliasStrings n a)" by (metis hd_in_set imageI strings list.set_map)
  moreover have "set (derived_sac k n a) =
      (if Type a = AssetClassic then {sac. SacContractID k n a = Inr sac} else {})"
    by (cases "SacContractID k n a") (simp_all add: derived_sac_def)
  ultimately show ?thesis using strings [of a] strings [of "CanonicalAsset n a"] canonical_class [OF net, of a]
    by (auto simp: identityForms_def identity_set_def parse)
qed

lemma family_members_valid:
  assumes net: "strkey_ok k" "strkey_codec k" "InstallNetwork k passphrase ws n0 = Inr n"
    and kinds: "fam = xlmAliasFamilyFor (NativeSACContractID n) \<or> fam = eurcAliasFamily \<or>
      wrapper_family k (NetworkPassphrase n) (NativeSACContractID n) fam"
    and y: "y \<in> set fam"
  shows "Asset_Validate k y = None"
proof -
  have codes: "IsKnownCrypto ''XLM''" "IsKnownCrypto ''EURC''" "IsKnownCrypto ''EUROC''" by code_simp+
  have "IsContractID k (NativeSACContractID n)" using InstallNetwork_state [OF net] by simp
  then have contract: "Asset_Validate k (zeroAsset\<lparr>Type := AssetSoroban, ContractID := NativeSACContractID n\<rparr>) = None"
    by (simp add: zeroAsset_def Asset_Validate_def validateContractID_def)
  have crypto: "Asset_Validate k (zeroAsset\<lparr>Type := AssetCrypto, Code := c\<rparr>) = None" if "IsKnownCrypto c" for c
    using that by (simp add: zeroAsset_def Asset_Validate_def)
  have native: "Asset_Validate k (zeroAsset\<lparr>Type := AssetNative\<rparr>) = None" by (simp add: zeroAsset_def Asset_Validate_def)
  from kinds show ?thesis
  proof (elim disjE)
    assume "fam = xlmAliasFamilyFor (NativeSACContractID n)"
    then show ?thesis using y contract crypto [OF codes(1)] native unfolding xlmAliasFamilyFor_def by auto
  next
    assume "fam = eurcAliasFamily"
    then show ?thesis using y crypto [OF codes(2)] crypto [OF codes(3)] unfolding eurcAliasFamily_def by auto
  next
    assume "wrapper_family k (NetworkPassphrase n) (NativeSACContractID n) fam"
    then show ?thesis using y by (auto simp: wrapper_family_def)
  qed
qed

lemma identity_alias:
  assumes net: "strkey_ok k" "strkey_codec k" "InstallNetwork k passphrase ws n0 = Inr n"
    and a: "Asset_Validate k a = None" and b: "Asset_Validate k b = None" "b \<in> set (AssetAliases n a)"
  shows "identity_set k n b = identity_set k n a"
proof -
  let ?tbl = "map_of (familyMap n (Some (activeAliasRegistry n)))"
  note laws = network_laws [OF net]
  have law: "alias_table ?tbl" using laws by (simp add: network_table_def)
  note inj = asset_wire_injective [OF net(1)]
  show ?thesis
  proof (cases "?tbl (Asset_String a)")
    case None
    then have "b = a" using b(2) by (simp add: AssetAliases_def Registry_Aliases_def)
    then show ?thesis by simp
  next
    case (Some fam)
    have cls: "set (AssetAliasStrings n x) = Asset_String ` set fam" if "x \<in> {a, b}" for x
      using that Some alias_class_of(1) [OF net b(2)]
      by (auto simp: AssetAliasStrings_def alias_table.lookup_AliasStrings [OF law refl])
    have names: "Asset_String x \<in> Asset_String ` set fam" if "x \<in> {a, b}" for x
      using alias_table.key_form [OF law Some] that b(2) Some
      by (auto simp: AssetAliases_def Registry_Aliases_def)
    have kinds: "fam = xlmAliasFamilyFor (NativeSACContractID n) \<or> fam = eurcAliasFamily \<or>
        wrapper_family k (NetworkPassphrase n) (NativeSACContractID n) fam"
      using laws Some by (simp add: network_table_def)
    have "sac \<in> Asset_String ` set fam"
      if x: "x \<in> {a, b}" "Type x = AssetClassic" "SacContractID k n x = Inr sac" for x sac
    proof -
      obtain y where y: "y \<in> set fam" "Asset_String x = Asset_String y" using names [OF x(1)] by auto
      have "Asset_Validate k y = None" using family_members_valid [OF net kinds y(1)] .
      then have "x = y" using inj [OF _ _ y(2)] a b(1) x(1) by auto
      then show ?thesis using kinds y(1) x(2,3)
        by (auto simp: xlmAliasFamilyFor_def eurcAliasFamily_def wrapper_family_def zeroAsset_def
          SacContractID_def Asset_String_def)
    qed
    then show ?thesis using cls by (auto simp: identity_set_def)
  qed
qed

section \<open>Theorems\<close>

text \<open>Two lists of identifiers that name the same assets in alias forms.\<close>

definition respelled :: "sdk \<Rightarrow> network \<Rightarrow> string \<Rightarrow> string \<Rightarrow> bool" where
  "respelled k n s t \<longleftrightarrow> (\<exists>a b. Asset_Validate k a = None \<and> Asset_Validate k b = None \<and>
     b \<in> set (AssetAliases n a) \<and> s = Asset_String a \<and> t = Asset_String b)"

lemma respelled_forms:
  assumes net: "strkey_ok k" "strkey_codec k" "InstallNetwork k passphrase ws n0 = Inr n" and r: "respelled k n s t"
  shows "set (identityForms k n t) = set (identityForms k n s)"
proof -
  obtain a b where ab: "Asset_Validate k a = None" "Asset_Validate k b = None" "b \<in> set (AssetAliases n a)"
    "s = Asset_String a" "t = Asset_String b" using r by (auto simp: respelled_def)
  have own: "Asset_String x \<in> identity_set k n x" for x
    by (auto simp: identity_set_def AssetAliasStrings_def AliasStrings_def Registry_Aliases_def split: option.splits)
  have forms: "set (identityForms k n (Asset_String x)) = identity_set k n x" if "Asset_Validate k x = None" for x
    using identityForms_set [OF net asset_parse_string [OF net(1) that]] own [of x] by auto
  show ?thesis unfolding ab(4,5) forms [OF ab(1)] forms [OF ab(2)] by (rule identity_alias [OF net ab(1,2,3)])
qed

lemma respelled_subject:
  assumes net: "strkey_ok k" "strkey_codec k" "InstallNetwork k passphrase ws n0 = Inr n"
    and r: "list_all2 (respelled k n) xs ys"
  shows "subjectForms k n ys = subjectForms k n xs"
  using r by (induction rule: list_all2_induct) (auto simp: subjectForms_def respelled_forms [OF net])

text \<open>
  On an installed network a hold marks a response whichever alias forms name the asset, in the hold
  file or in the response: respelling either changes no match. A hold on a classic asset alone also
  marks every response that names the asset's derived contract, registered or not, and so does a hold on
  the contract for a response naming the asset.
\<close>

theorem holds_follow_identity:
  assumes net: "strkey_ok k" "strkey_codec k" "InstallNetwork k passphrase ws n0 = Inr n"
    and hold: "respelled k n (h_Asset h) s" "h_Asset h \<noteq> []" "s \<noteq> []"
    and sub: "list_all2 (respelled k n) (s_Assets sub) ys"
    and c: "Asset_Validate k c = None" "Type c = AssetClassic" "SacContractID k n c = Inr sac" "sac \<noteq> []"
  shows "hold_matches k n (h\<lparr>h_Asset := s\<rparr>) (sub\<lparr>s_Assets := ys\<rparr>) = hold_matches k n h sub \<and>
    (Asset_String c = h_Asset h \<and> sac \<in> set (s_Assets sub) \<or> sac = h_Asset h \<and> Asset_String c \<in> set (s_Assets sub) \<longrightarrow>
       overlaps k n (subjectForms k n (s_Assets sub)) (h_Asset h))"
proof (intro conjI impI)
  have "overlaps k n F s = overlaps k n F (h_Asset h)" for F
    using respelled_forms [OF net hold(1)] by (auto simp: overlaps_def list_ex_iff)
  then show "hold_matches k n (h\<lparr>h_Asset := s\<rparr>) (sub\<lparr>s_Assets := ys\<rparr>) = hold_matches k n h sub"
    using hold(2,3) respelled_subject [OF net sub] by (simp add: hold_matches_def Let_def)
next
  have own: "x \<in> set (identityForms k n x)" for x by (cases "ParseAsset k x") (simp_all add: identityForms_def)
  have classic: "sac \<in> set (identityForms k n (Asset_String c))"
    using identityForms_set [OF net asset_parse_string [OF net(1) c(1)]] c(2,3) by (simp add: identity_set_def)
  have shared: "overlaps k n (subjectForms k n xs) i"
    if "f \<in> set (identityForms k n i)" "y \<in> set xs" "f \<in> set (identityForms k n y)" for f i y xs
    using that by (auto simp: overlaps_def list_ex_iff subjectForms_def)
  assume "Asset_String c = h_Asset h \<and> sac \<in> set (s_Assets sub) \<or> sac = h_Asset h \<and> Asset_String c \<in> set (s_Assets sub)"
  then show "overlaps k n (subjectForms k n (s_Assets sub)) (h_Asset h)"
    using shared [of sac "h_Asset h" sac "s_Assets sub"] shared [of sac "h_Asset h" "Asset_String c" "s_Assets sub"]
      own [of sac] classic by auto
qed

section \<open>Reloading\<close>

text \<open>The list in force is that of the last accepted document.\<close>

definition watch_inv :: "sdk \<Rightarrow> (string \<Rightarrow> 'e + Hold list \<times> string list) \<Rightarrow> watcher \<Rightarrow> bool" where
  "watch_inv k decode w \<longleftrightarrow>
     (case w_last w of None \<Rightarrow> w_force w = [] | Some doc \<Rightarrow> Parse k decode doc = Inr (w_force w))"

lemma reload_inv [step_inv]: "watch_inv k decode w \<Longrightarrow> watch_inv k decode (reload k decode p w)"
  by (auto simp: watch_inv_def reload_def reload_doc_def split: poll.splits sum.splits option.splits)

lemma Watch_inv: "watch_inv k decode (Watch k decode polls)"
proof -
  have "watch_inv k decode (foldl (\<lambda>w p. reload k decode p w) w polls)" if "watch_inv k decode w" for w
    using that by (induction polls arbitrary: w) (auto intro: step_inv)
  then show ?thesis by (simp add: Watch_def Watch_start_def watch_inv_def)
qed

text \<open>
  C36. Whatever the polls found, the holds in force are those of an accepted document or none at all, and
  one more poll changes them only deliberately: to the holds of a valid non-empty document, or to those
  of the empty one when the file is missing. An unreadable or invalid file, or a file truncated to
  nothing while holds from a document are in force, changes nothing; deleting the file lifts every hold,
  and a valid document with content is in force after the poll that read it.
\<close>

theorem bad_edit_keeps_holds:
  assumes empty: "decode [] = Inr ([], [])"
  shows "(\<forall>doc. w_last (Watch k decode polls) = Some doc \<longrightarrow> Parse k decode doc = Inr (w_force (Watch k decode polls))) \<and>
    (w_force (Watch k decode (polls @ [p])) \<noteq> w_force (Watch k decode polls) \<longrightarrow>
       p = Missing \<and> w_force (Watch k decode (polls @ [p])) = [] \<or>
       (\<exists>doc. p = Contents doc \<and> doc \<noteq> [] \<and> Parse k decode doc = Inr (w_force (Watch k decode (polls @ [p]))))) \<and>
    (p = Missing \<longrightarrow> w_force (Watch k decode (polls @ [p])) = []) \<and>
    (\<forall>doc hs. p = Contents doc \<longrightarrow> doc \<noteq> [] \<longrightarrow> Parse k decode doc = Inr hs \<longrightarrow>
       w_force (Watch k decode (polls @ [p])) = hs)"
proof -
  let ?w = "Watch k decode polls"
  have step: "Watch k decode (polls @ [p]) = reload k decode p ?w" by (simp add: Watch_def)
  have none: "Parse k decode [] = Inr []" using empty by (simp add: Parse_def)
  have inv: "watch_inv k decode ?w" by (rule Watch_inv)
  have doc: "w_force (reload_doc k decode d ?w) = hs" if "Parse k decode d = Inr hs" for d hs
    using that inv by (auto simp: reload_doc_def watch_inv_def)
  have bad: "reload_doc k decode d ?w = ?w" if "Parse k decode d = Inl e" for d e
    using that by (simp add: reload_doc_def)
  have same: "w_force (reload_doc k decode [] ?w) = w_force ?w" if "w_last ?w = None \<or> w_last ?w = Some []"
    using that inv none doc [OF none] by (auto simp: watch_inv_def)
  show ?thesis unfolding step
  proof (intro conjI)
    show "\<forall>doc. w_last ?w = Some doc \<longrightarrow> Parse k decode doc = Inr (w_force ?w)"
      using inv by (auto simp: watch_inv_def)
    show "p = Missing \<longrightarrow> w_force (reload k decode p ?w) = []" using doc [OF none] by (simp add: reload_def)
    show "\<forall>doc hs. p = Contents doc \<longrightarrow> doc \<noteq> [] \<longrightarrow> Parse k decode doc = Inr hs \<longrightarrow> w_force (reload k decode p ?w) = hs"
      using doc by (auto simp: reload_def)
    show "w_force (reload k decode p ?w) \<noteq> w_force ?w \<longrightarrow>
       p = Missing \<and> w_force (reload k decode p ?w) = [] \<or>
       (\<exists>doc. p = Contents doc \<and> doc \<noteq> [] \<and> Parse k decode doc = Inr (w_force (reload k decode p ?w)))"
    proof (cases p)
      case (Contents d)
      then show ?thesis using doc [of d] bad [of d] same
        by (cases "Parse k decode d") (auto simp: reload_def split: if_splits)
    qed (use doc [OF none] in \<open>auto simp: reload_def\<close>)
  qed
qed

text \<open>A decoder that knows one document.\<close>

definition sample_hold :: Hold where
  "sample_hold = \<lparr>h_Asset = ''native'', h_ContractID = [], h_LedgerFrom = 0, h_LedgerTo = 0, h_Reason = ''audit''\<rparr>"

definition sample_decode :: "string \<Rightarrow> unit + Hold list \<times> string list" where
  "sample_decode doc =
     (if doc = [] then Inr ([], []) else if doc = ''native'' then Inr ([sample_hold], []) else Inl ())"

theorem bad_edit_keeps_holds_witness:
  "w_force (Watch sample_sdk sample_decode ([Contents ''native'', Contents ''broken'', Contents []] @ [Missing])) = []"
  using bad_edit_keeps_holds [of sample_decode sample_sdk "[Contents ''native'', Contents ''broken'', Contents []]" Missing]
  by (simp add: sample_decode_def)

lemma sample_wrapper: "wrapper_family alias_sdk (NetworkPassphrase sample_network) (NativeSACContractID sample_network) [sample_usdc, sample_sac]"
proof -
  have "[sample_usdc, sample_sac] = xlmAliasFamilyFor (NativeSACContractID sample_network) \<or>
      [sample_usdc, sample_sac] = eurcAliasFamily \<or>
      wrapper_family alias_sdk (NetworkPassphrase sample_network) (NativeSACContractID sample_network) [sample_usdc, sample_sac]"
    using network_laws [OF alias_sdk_ok sample_network_installed] sample_usdc_family
    unfolding network_table_def familyMap_def by (metis option.simps(5))
  moreover have "Type sample_usdc = AssetClassic" by (simp add: sample_usdc_def)
  ultimately show ?thesis by (auto simp: xlmAliasFamilyFor_def eurcAliasFamily_def dest: arg_cong [where f = Type])
qed

theorem holds_follow_identity_witness:
  "hold_matches alias_sdk sample_network (sample_hold\<lparr>h_Asset := Asset_String sample_sac\<rparr>)
      \<lparr>s_Assets = [Asset_String sample_usdc], s_Ledger = 0\<rparr> =
    hold_matches alias_sdk sample_network (sample_hold\<lparr>h_Asset := Asset_String sample_usdc\<rparr>)
      \<lparr>s_Assets = [Asset_String sample_usdc], s_Ledger = 0\<rparr>"
proof -
  note w = sample_wrapper [unfolded wrapper_family_def]
  have valid: "Asset_Validate alias_sdk sample_usdc = None" "Asset_Validate alias_sdk sample_sac = None"
    "SacContractID alias_sdk sample_network sample_usdc = Inr (ContractID sample_sac)" "ContractID sample_sac \<noteq> []"
    "Type sample_usdc = AssetClassic"
    using w by (auto simp: SacContractID_def sample_sac_def)
  have self: "a \<in> set (AssetAliases sample_network a)" for a
    by (cases "map_of (familyMap sample_network (Some (activeAliasRegistry sample_network))) (Asset_String a)")
      (simp_all add: AssetAliases_def Registry_Aliases_def)
  have r: "respelled alias_sdk sample_network (Asset_String sample_usdc) (Asset_String sample_sac)"
    "respelled alias_sdk sample_network (Asset_String sample_usdc) (Asset_String sample_usdc)"
    using valid(1,2) sample_sac_alias self unfolding respelled_def by blast+
  have ne: "Asset_String sample_usdc \<noteq> []" "Asset_String sample_sac \<noteq> []"
    by (simp_all add: sample_usdc_def sample_sac_def Asset_String_def zeroAsset_def)
  show ?thesis
    using holds_follow_identity [OF alias_sdk_ok sample_network_installed, of "sample_hold\<lparr>h_Asset := Asset_String sample_usdc\<rparr>"
        "Asset_String sample_sac" "\<lparr>s_Assets = [Asset_String sample_usdc], s_Ledger = 0\<rparr>" "[Asset_String sample_usdc]"
        sample_usdc "ContractID sample_sac"] r ne valid by simp
qed

end
