(* ===== verification/FreezeMarker.thy ===== *)
theory FreezeMarker
  imports FreezeLifecycle Assets "HOL-Library.AList"
begin

text \<open>
  The freeze marker of a pair (internal/aggregate/freeze/freeze.go): one Redis key per (asset, quote)
  whose presence is the served \<open>frozen\<close> flag and whose body carries the lifecycle state of every window
  of the pair, mirrored into a durable store when one is wired.

  The \<open>Writer\<close> is a record of its configuration; every method takes it, the instant its clock reads and
  the environment \<open>fenv\<close>, and returns its result with the environment after it. The environment holds
  the Redis keys with their expiry, the state of the durable store (of any type \<open>'d\<close>, the stores are
  records of functions on it), whether the context ends during the retry pause, and the counters that
  were incremented. Redis commands fail according to a schedule: a \<open>Lost\<close> command had no effect, an
  \<open>Unacked\<close> one took effect and still returned an error. A Go map is an association list.
\<close>

section \<open>Durations as text\<close>

text \<open>\<open>time.Duration.String\<close>: the fraction without trailing zeros, the largest unit that is not zero.\<close>

definition strip_zeros :: "string \<Rightarrow> string" where
  "strip_zeros s = rev (dropWhile (\<lambda>c. c = CHR ''0'') (rev s))"

definition fmtFrac :: "int \<Rightarrow> nat \<Rightarrow> string" where
  "fmtFrac v prec =
     (let f = int_String (v mod 10 ^ prec);
          ds = strip_zeros (replicate (prec - length f) (CHR ''0'') @ f)
      in if ds = [] then [] else CHR ''.'' # ds)"

definition Duration_abs_String :: "int \<Rightarrow> string" where
  "Duration_abs_String u =
     (if u = 0 then ''0s''
      else if u < 1000 then int_String u @ ''ns''
      else if u < 1000000 then int_String (u div 1000) @ fmtFrac u 3 @ [char_of (194 :: nat), char_of (181 :: nat), CHR ''s'']
      else if u < 1000000000 then int_String (u div 1000000) @ fmtFrac u 6 @ ''ms''
      else
        let secs = u div 1000000000; mins = secs div 60; hours = mins div 60 in
        (if 0 < mins then (if 0 < hours then int_String hours @ ''h'' else []) @ int_String (mins mod 60) @ ''m'' else []) @
        int_String (secs mod 60) @ fmtFrac u 9 @ ''s'')"

definition Duration_String :: "duration \<Rightarrow> string" where
  "Duration_String d = (if d < 0 then CHR ''-'' # Duration_abs_String (- d) else Duration_abs_String d)"

text \<open>The zero window is the unscoped sentinel.\<close>

definition windowLabel :: "duration \<Rightarrow> string" where
  "windowLabel window = (if window \<le> 0 then [] else Duration_String window)"

section \<open>The marker and the writer\<close>

text \<open>The fields of \<open>anomaly.Decision\<close> the freeze package reads.\<close>

record Decision =
  DAction :: string
  DClass :: string
  DDeviationPct :: f64
  DReason :: string

record Marker =
  MAssetID :: string
  MQuoteID :: string
  MAction :: string
  MClass :: string
  MDeviationPct :: f64
  MReason :: string
  FrozenAt :: gotime
  Windowed :: bool
  Ladders :: "(string \<times> State) list"
  UnownedLadder :: State
  UnownedSince :: gotime
  MState :: State

definition zeroMarker :: Marker where
  "zeroMarker = \<lparr>MAssetID = [], MQuoteID = [], MAction = [], MClass = [], MDeviationPct = FFin 0, MReason = [],
     FrozenAt = 0, Windowed = False, Ladders = [], UnownedLadder = zeroState, UnownedSince = 0, MState = zeroState\<rparr>"

record overrideRecord =
  OActor :: string
  OReason :: string
  OAt :: gotime

text \<open>
  The JSON documents under the freeze keys. A tombstone read as a marker shares the key \<open>reason\<close> with it;
  bytes that are no JSON object do not decode.
\<close>

datatype doc = MarkerDoc Marker | OverrideDoc overrideRecord | BadDoc

fun unmarshalMarker :: "doc \<Rightarrow> Marker option" where
  "unmarshalMarker (MarkerDoc m) = Some m"
| "unmarshalMarker (OverrideDoc r) = Some (zeroMarker\<lparr>MReason := OReason r\<rparr>)"
| "unmarshalMarker BadDoc = None"

text \<open>
  \<open>json.Marshal\<close> refuses a float64 that is not finite, and a time whose year is outside 0 to 9999; year 0
  has 366 days, the years 1 to 9999 have 3652059.
\<close>

definition json_time :: "gotime \<Rightarrow> bool" where
  "json_time t = (- (366 * 24 * go_hour) \<le> t \<and> t < 3652059 * 24 * go_hour)"

definition json_State :: "State \<Rightarrow> bool" where
  "json_State st = (json_time (FiredAt st) \<and> json_time (HoldUntil st) \<and> json_time (OverriddenAt st))"

definition marshalMarker :: "Marker \<Rightarrow> doc option" where
  "marshalMarker m =
     (if SetFloat64 (MDeviationPct m) \<noteq> None \<and> json_time (FrozenAt m) \<and> list_all (\<lambda>(l, st). json_State st) (Ladders m) \<and>
         json_State (UnownedLadder m) \<and> json_time (UnownedSince m) \<and> json_State (MState m)
      then Some (MarkerDoc m) else None)"

text \<open>The interfaces to the durable side: an error is \<open>True\<close> on a write and \<open>None\<close> on a read.\<close>

record 'd EventSink =
  RecordFreeze :: "'d \<Rightarrow> Asset \<Rightarrow> Asset \<Rightarrow> string \<Rightarrow> Decision \<Rightarrow> bool \<times> 'd"

record 'd LadderStore =
  SaveLadder :: "'d \<Rightarrow> Asset \<Rightarrow> Asset \<Rightarrow> State \<Rightarrow> bool \<times> 'd"
  LoadLadder :: "'d \<Rightarrow> Asset \<Rightarrow> Asset \<Rightarrow> (State \<times> bool) option"

record 'd WindowLadderStore =
  SaveWindowLadder :: "'d \<Rightarrow> Asset \<Rightarrow> Asset \<Rightarrow> duration \<Rightarrow> State \<Rightarrow> bool \<times> 'd"
  LoadWindowLadders :: "'d \<Rightarrow> Asset \<Rightarrow> Asset \<Rightarrow> ((duration \<times> State) list \<times> State \<times> bool) option"

record 'd Writer =
  ttl :: duration
  sink :: "'d EventSink option"
  ladder :: "'d LadderStore option"
  windowLadder :: "'d WindowLadderStore option"
  ladderGrace :: duration

datatype 'd WriterOption = WithEventSink "'d EventSink"
  | WithLadderStore "'d LadderStore" "'d WindowLadderStore option" duration

definition DefaultLadderGrace :: duration where
  "DefaultLadderGrace = DefaultMarkerGrace"

fun apply_option :: "'d Writer \<Rightarrow> 'd WriterOption \<Rightarrow> 'd Writer" where
  "apply_option w (WithEventSink s) = w\<lparr>sink := Some s\<rparr>"
| "apply_option w (WithLadderStore store ws grace) =
     w\<lparr>ladder := Some store, ladderGrace := grace, windowLadder := ws\<rparr>"

definition NewWriter :: "duration \<Rightarrow> 'd WriterOption list \<Rightarrow> 'd Writer" where
  "NewWriter t opts =
     (let t = (if t \<le> 0 then FreezeTTL else t);
          w = foldl apply_option \<lparr>ttl = t, sink = None, ladder = None, windowLadder = None, ladderGrace = 0\<rparr> opts
      in if ladderGrace w \<le> 0 then w\<lparr>ladderGrace := DefaultLadderGrace\<rparr> else w)"

section \<open>Redis\<close>

datatype fault = NoFault | Lost | Unacked

datatype metric = LadderWriteFailure string | LadderRehydrated

record 'd fenv =
  cells :: "string \<Rightarrow> (doc \<times> gotime) option"
  plan :: "fault list"
  durable :: 'd
  ctxEnds :: bool
  counters :: "metric list"

datatype freeze_error = CacheGet string | CacheSet string | CacheDel string | MarshalError | LoadDurable string

definition next_fault :: "'d fenv \<Rightarrow> fault \<times> 'd fenv" where
  "next_fault e = (case plan e of [] \<Rightarrow> (NoFault, e) | f # fs \<Rightarrow> (f, e\<lparr>plan := fs\<rparr>))"

definition live_doc :: "gotime \<Rightarrow> (doc \<times> gotime) option \<Rightarrow> doc option" where
  "live_doc now c = (case c of None \<Rightarrow> None | Some (d, t) \<Rightarrow> if now \<le> t then Some d else None)"

text \<open>The client sends an expiry in whole milliseconds, a shorter one as one millisecond.\<close>

definition px :: "duration \<Rightarrow> duration" where
  "px d = (if d < 1000000 then 1000000 else d - d mod 1000000)"

definition cache_Get :: "gotime \<Rightarrow> string \<Rightarrow> 'd fenv \<Rightarrow> (unit + doc option) \<times> 'd fenv" where
  "cache_Get now key e =
     (let (f, e') = next_fault e in
      (if f = NoFault then Inr (live_doc now (cells e' key)) else Inl (), e'))"

definition cache_effect :: "('d fenv \<Rightarrow> 'd fenv) \<Rightarrow> 'd fenv \<Rightarrow> bool \<times> 'd fenv" where
  "cache_effect f e =
     (let (fl, e') = next_fault e in (fl \<noteq> NoFault, if fl = Lost then e' else f e'))"

definition cache_Set :: "gotime \<Rightarrow> string \<Rightarrow> doc \<Rightarrow> duration \<Rightarrow> 'd fenv \<Rightarrow> bool \<times> 'd fenv" where
  "cache_Set now key d t = cache_effect (\<lambda>e. e\<lparr>cells := (cells e)(key := Some (d, now + px t))\<rparr>)"

text \<open>SET with XX and KEEPTTL: only a key that is there, and its expiry stays; redis.Nil is no error.\<close>

definition cache_SetXX :: "gotime \<Rightarrow> string \<Rightarrow> doc \<Rightarrow> 'd fenv \<Rightarrow> bool \<times> 'd fenv" where
  "cache_SetXX now key d =
     cache_effect (\<lambda>e. case cells e key of
         None \<Rightarrow> e
       | Some (_, t) \<Rightarrow> if now \<le> t then e\<lparr>cells := (cells e)(key := Some (d, t))\<rparr> else e)"

definition cache_Del :: "string \<Rightarrow> 'd fenv \<Rightarrow> bool \<times> 'd fenv" where
  "cache_Del key = cache_effect (\<lambda>e. e\<lparr>cells := (cells e)(key := None)\<rparr>)"

definition Freeze :: "Asset \<Rightarrow> Asset \<Rightarrow> string" where
  "Freeze asset quote = ''freeze:'' @ Asset_String asset @ '':'' @ Asset_String quote"

definition FreezeOverride :: "Asset \<Rightarrow> Asset \<Rightarrow> string" where
  "FreezeOverride asset quote = ''freeze:override:'' @ Asset_String asset @ '':'' @ Asset_String quote"

definition metric_inc :: "metric \<Rightarrow> 'd fenv \<Rightarrow> 'd fenv" where
  "metric_inc m e = e\<lparr>counters := counters e @ [m]\<rparr>"

section \<open>Liveness and the ladders of a marker\<close>

definition LadderStillLive :: "State \<Rightarrow> duration \<Rightarrow> gotime \<Rightarrow> bool" where
  "LadderStillLive st grace now = (if \<not> Active st then False else \<not> HoldUntil st + grace < now)"

definition readMarker :: "gotime \<Rightarrow> string \<Rightarrow> 'd fenv \<Rightarrow> (freeze_error + Marker option) \<times> 'd fenv" where
  "readMarker now key e =
     (case cache_Get now key e of
        (Inl _, e') \<Rightarrow> (Inl (CacheGet key), e')
      | (Inr None, e') \<Rightarrow> (Inr None, e')
      | (Inr (Some d), e') \<Rightarrow> (Inr (unmarshalMarker d), e'))"

definition liveDurableLadder :: "'d Writer \<Rightarrow> Asset \<Rightarrow> Asset \<Rightarrow> 'd \<Rightarrow> State" where
  "liveDurableLadder w asset quote d =
     (case ladder w of
        None \<Rightarrow> zeroState
      | Some s \<Rightarrow> (case LoadLadder s d asset quote of Some (st, True) \<Rightarrow> st | _ \<Rightarrow> zeroState))"

fun restore_ladders :: "'d Writer \<Rightarrow> gotime \<Rightarrow> (duration \<times> State) list \<Rightarrow> (string \<times> State) list \<Rightarrow> (string \<times> State) list" where
  "restore_ladders w now [] ls = ls"
| "restore_ladders w now ((window, st) # stored) ls =
     restore_ladders w now stored
       (if windowLabel window \<noteq> [] \<and> LadderStillLive st (ladderGrace w) now
        then AList.update (windowLabel window) st ls else ls)"

definition liveDurableLadders :: "'d Writer \<Rightarrow> gotime \<Rightarrow> Asset \<Rightarrow> Asset \<Rightarrow> 'd \<Rightarrow> (string \<times> State) list \<times> State" where
  "liveDurableLadders w now asset quote d =
     (case windowLadder w of
        None \<Rightarrow> ([], liveDurableLadder w asset quote d)
      | Some s \<Rightarrow>
          (case LoadWindowLadders s d asset quote of
             Some (stored, unowned, True) \<Rightarrow> (restore_ladders w now stored [], unowned)
           | _ \<Rightarrow> ([], zeroState)))"

text \<open>The five results of \<open>mergeLadders\<close>.\<close>

record merged =
  mWindowed :: bool
  mLadders :: "(string \<times> State) list"
  mUnowned :: State
  mUnownedSince :: gotime
  mPrior :: "Marker option"

definition merge_base :: "'d Writer \<Rightarrow> gotime \<Rightarrow> Asset \<Rightarrow> Asset \<Rightarrow> 'd \<Rightarrow> Marker option \<Rightarrow> merged" where
  "merge_base w now asset quote d prior =
     (case prior of
        None \<Rightarrow>
          let (ls, unowned) = liveDurableLadders w now asset quote d in
          \<lparr>mWindowed = ls \<noteq> [], mLadders = ls, mUnowned = unowned, mUnownedSince = now, mPrior = None\<rparr>
      | Some m \<Rightarrow>
          if Windowed m
          then \<lparr>mWindowed = True, mLadders = filter (\<lambda>(k, v). LadderStillLive v (ladderGrace w) now) (Ladders m),
                mUnowned = UnownedLadder m, mUnownedSince = UnownedSince m, mPrior = Some m\<rparr>
          else \<lparr>mWindowed = False, mLadders = [], mUnowned = MState m, mUnownedSince = now, mPrior = Some m\<rparr>)"

definition retire_unowned :: "'d Writer \<Rightarrow> gotime \<Rightarrow> merged \<Rightarrow> merged" where
  "retire_unowned w now g =
     (if \<not> LadderStillLive (mUnowned g) (ladderGrace w) now
      then g\<lparr>mUnowned := zeroState, mUnownedSince := 0\<rparr> else g)"

definition merge_ladders_of :: "'d Writer \<Rightarrow> gotime \<Rightarrow> Asset \<Rightarrow> Asset \<Rightarrow> string \<Rightarrow> State \<Rightarrow> 'd \<Rightarrow> Marker option \<Rightarrow> merged" where
  "merge_ladders_of w now asset quote label state d prior =
     (let g = retire_unowned w now (merge_base w now asset quote d prior) in
      if label = [] then g\<lparr>mWindowed := mWindowed g \<or> mLadders g \<noteq> [] \<or> Active (mUnowned g)\<rparr>
      else g\<lparr>mWindowed := True,
             mLadders := if Active state then AList.update label state (mLadders g) else AList.delete label (mLadders g)\<rparr>)"

definition mergeLadders :: "'d Writer \<Rightarrow> gotime \<Rightarrow> Asset \<Rightarrow> Asset \<Rightarrow> string \<Rightarrow> State \<Rightarrow> 'd fenv \<Rightarrow> merged \<times> 'd fenv" where
  "mergeLadders w now asset quote label state e =
     (let (r, e') = readMarker now (Freeze asset quote) e in
      (merge_ladders_of w now asset quote label state (durable e') (case r of Inl _ \<Rightarrow> None | Inr m \<Rightarrow> m), e'))"

definition ladder_need :: "'d Writer \<Rightarrow> gotime \<Rightarrow> State \<Rightarrow> duration \<Rightarrow> duration" where
  "ladder_need w now st acc =
     (if \<not> LadderStillLive st (ladderGrace w) now then acc
      else let need = wrap64 (time_Sub (HoldUntil st) now + ladderGrace w) in if acc < need then need else acc)"

definition lifecycleTTLFloor :: "'d Writer \<Rightarrow> Marker \<Rightarrow> string \<Rightarrow> gotime \<Rightarrow> duration" where
  "lifecycleTTLFloor w m own now =
     (let f = foldl (\<lambda>acc (label, st). if label \<noteq> own then ladder_need w now st acc else acc) 0 (Ladders m);
          f = ladder_need w now (UnownedLadder m) f
      in if Windowed m then f else ladder_need w now (MState m) f)"

section \<open>Marking\<close>

definition recordFreeze :: "'d EventSink \<Rightarrow> Asset \<Rightarrow> Asset \<Rightarrow> string \<Rightarrow> Decision \<Rightarrow> 'd fenv \<Rightarrow> 'd fenv" where
  "recordFreeze s asset quote frozenValue decision e =
     (let (err, d) = RecordFreeze s (durable e) asset quote frozenValue decision;
          e = e\<lparr>durable := d\<rparr>
      in if \<not> err then e
         else if ctxEnds e then metric_inc (LadderWriteFailure ''record_freeze'') e
         else let (err, d) = RecordFreeze s (durable e) asset quote frozenValue decision;
                  e = e\<lparr>durable := d\<rparr>
              in if \<not> err then e else metric_inc (LadderWriteFailure ''record_freeze'') e)"

definition saveWindowLadder :: "'d WindowLadderStore \<Rightarrow> Asset \<Rightarrow> Asset \<Rightarrow> duration \<Rightarrow> State \<Rightarrow> string \<Rightarrow> 'd fenv \<Rightarrow> 'd fenv" where
  "saveWindowLadder s asset quote window state op e =
     (let (err, d) = SaveWindowLadder s (durable e) asset quote window state; e = e\<lparr>durable := d\<rparr>
      in if err then metric_inc (LadderWriteFailure op) e else e)"

definition saveLadder :: "'d LadderStore \<Rightarrow> Asset \<Rightarrow> Asset \<Rightarrow> State \<Rightarrow> string \<Rightarrow> 'd fenv \<Rightarrow> 'd fenv" where
  "saveLadder s asset quote state op e =
     (let (err, d) = SaveLadder s (durable e) asset quote state; e = e\<lparr>durable := d\<rparr>
      in if err then metric_inc (LadderWriteFailure op) e else e)"

text \<open>The body and the expiry \<open>markHold\<close> decides on, from what it merged.\<close>

definition held_marker :: "'d Writer \<Rightarrow> gotime \<Rightarrow> Asset \<Rightarrow> Asset \<Rightarrow> string \<Rightarrow> Decision \<Rightarrow> State \<Rightarrow> merged \<Rightarrow> Marker" where
  "held_marker w now asset quote label decision state g =
     (let marker = \<lparr>MAssetID = Asset_String asset, MQuoteID = Asset_String quote, MAction = DAction decision,
            MClass = DClass decision, MDeviationPct = DDeviationPct decision, MReason = DReason decision,
            FrozenAt = now, Windowed = mWindowed g, Ladders = mLadders g, UnownedLadder = mUnowned g,
            UnownedSince = mUnownedSince g, MState = state\<rparr>
      in case mPrior g of
           Some prior \<Rightarrow>
             if label = [] \<and> \<not> Active state \<and> 0 < lifecycleTTLFloor w prior [] now then prior else marker
         | None \<Rightarrow> marker)"

definition mirror_ladder :: "'d Writer \<Rightarrow> Asset \<Rightarrow> Asset \<Rightarrow> duration \<Rightarrow> State \<Rightarrow> 'd fenv \<Rightarrow> 'd fenv" where
  "mirror_ladder w asset quote window state e =
     (if windowLadder w \<noteq> None \<and> 0 < window
      then saveWindowLadder (the (windowLadder w)) asset quote window state ''mark_hold'' e
      else if ladder w \<noteq> None \<and> Active state
      then saveLadder (the (ladder w)) asset quote state ''mark_hold'' e
      else e)"

definition markHold ::
  "'d Writer \<Rightarrow> gotime \<Rightarrow> Asset \<Rightarrow> Asset \<Rightarrow> duration \<Rightarrow> string \<Rightarrow> Decision \<Rightarrow> State \<Rightarrow> duration \<Rightarrow> 'd fenv \<Rightarrow>
   freeze_error option \<times> 'd fenv" where
  "markHold w now asset quote window frozenValue decision state t e =
     (let t = (if t \<le> 0 then ttl w else t);
          key = Freeze asset quote;
          label = windowLabel window;
          (g, e) = mergeLadders w now asset quote label state e;
          marker = held_marker w now asset quote label decision state g;
          bound = lifecycleTTLFloor w marker label now;
          t = (if t < bound then bound else t)
      in case marshalMarker marker of
           None \<Rightarrow> (Some MarshalError, e)
         | Some body \<Rightarrow>
             let (err, e) = cache_Set now key body t e in
             if err then (Some (CacheSet key), e)
             else let e = (case sink w of None \<Rightarrow> e | Some s \<Rightarrow> recordFreeze s asset quote frozenValue decision e)
                  in (None, mirror_ladder w asset quote window state e))"

definition MarkHold ::
  "'d Writer \<Rightarrow> gotime \<Rightarrow> Asset \<Rightarrow> Asset \<Rightarrow> string \<Rightarrow> Decision \<Rightarrow> State \<Rightarrow> duration \<Rightarrow> 'd fenv \<Rightarrow>
   freeze_error option \<times> 'd fenv" where
  "MarkHold w now asset quote = markHold w now asset quote 0"

definition MarkHoldForWindow ::
  "'d Writer \<Rightarrow> gotime \<Rightarrow> Asset \<Rightarrow> Asset \<Rightarrow> duration \<Rightarrow> string \<Rightarrow> Decision \<Rightarrow> State \<Rightarrow> duration \<Rightarrow> 'd fenv \<Rightarrow>
   freeze_error option \<times> 'd fenv" where
  "MarkHoldForWindow = markHold"

definition Mark ::
  "'d Writer \<Rightarrow> gotime \<Rightarrow> Asset \<Rightarrow> Asset \<Rightarrow> string \<Rightarrow> Decision \<Rightarrow> 'd fenv \<Rightarrow> freeze_error option \<times> 'd fenv" where
  "Mark w now asset quote frozenValue decision = MarkHold w now asset quote frozenValue decision zeroState (ttl w)"

section \<open>Releasing\<close>

definition RetireWindowLadder ::
  "'d Writer \<Rightarrow> gotime \<Rightarrow> Asset \<Rightarrow> Asset \<Rightarrow> duration \<Rightarrow> 'd fenv \<Rightarrow> freeze_error option \<times> 'd fenv" where
  "RetireWindowLadder w now asset quote window e =
     (let label = windowLabel window; key = Freeze asset quote in
      if label = [] then (None, e)
      else
        let e = (case windowLadder w of None \<Rightarrow> e | Some s \<Rightarrow> saveWindowLadder s asset quote window zeroState ''clear'' e) in
        case readMarker now key e of
          (Inl err, e) \<Rightarrow> (Some err, e)
        | (Inr None, e) \<Rightarrow> (None, e)
        | (Inr (Some m), e) \<Rightarrow>
            if \<not> Windowed m then (None, e)
            else if map_of (Ladders m) label = None then (None, e)
            else (case marshalMarker (m\<lparr>Ladders := AList.delete label (Ladders m)\<rparr>) of
                    None \<Rightarrow> (Some MarshalError, e)
                  | Some body \<Rightarrow>
                      let (err, e) = cache_SetXX now key body e in (if err then Some (CacheSet key) else None, e)))"

definition Clear :: "'d Writer \<Rightarrow> Asset \<Rightarrow> Asset \<Rightarrow> 'd fenv \<Rightarrow> freeze_error option \<times> 'd fenv" where
  "Clear w asset quote e =
     (let key = Freeze asset quote; (err, e) = cache_Del key e in
      if err then (Some (CacheDel key), e)
      else (None, case ladder w of None \<Rightarrow> e | Some s \<Rightarrow> saveLadder s asset quote zeroState ''clear'' e))"

definition siblingLadderHeld :: "'d Writer \<Rightarrow> gotime \<Rightarrow> Marker \<Rightarrow> string \<Rightarrow> bool" where
  "siblingLadderHeld w now m own =
     (list_ex (\<lambda>(label, st). label \<noteq> own \<and> LadderStillLive st (ladderGrace w) now) (Ladders m) \<or>
      LadderStillLive (UnownedLadder m) (ladderGrace w) now)"

definition durableSiblingHeld :: "'d Writer \<Rightarrow> gotime \<Rightarrow> Asset \<Rightarrow> Asset \<Rightarrow> duration \<Rightarrow> 'd \<Rightarrow> freeze_error + bool" where
  "durableSiblingHeld w now asset quote own d =
     (case windowLadder w of
        None \<Rightarrow> Inr False
      | Some s \<Rightarrow>
          (case LoadWindowLadders s d asset quote of
             None \<Rightarrow> Inl (LoadDurable (Freeze asset quote))
           | Some (stored, unowned, found) \<Rightarrow>
               if \<not> found then Inr False
               else Inr (list_ex (\<lambda>(window, st). window \<noteq> own \<and> LadderStillLive st (ladderGrace w) now) stored \<or>
                         LadderStillLive unowned (ladderGrace w) now)))"

text \<open>The result pairs whether the marker was kept with the error.\<close>

definition ReleaseWindow ::
  "'d Writer \<Rightarrow> gotime \<Rightarrow> Asset \<Rightarrow> Asset \<Rightarrow> duration \<Rightarrow> 'd fenv \<Rightarrow> (bool \<times> freeze_error option) \<times> 'd fenv" where
  "ReleaseWindow w now asset quote window e =
     (let label = windowLabel window in
      case readMarker now (Freeze asset quote) e of
        (Inl err, e) \<Rightarrow> ((True, Some err), e)
      | (Inr found, e) \<Rightarrow>
          let clear = (let (err, e) = Clear w asset quote e in ((False, err), e));
              retire = (let (err, e) = RetireWindowLadder w now asset quote window e in ((True, err), e))
          in if label = [] then clear
             else if (case found of None \<Rightarrow> False | Some m \<Rightarrow> Windowed m \<and> siblingLadderHeld w now m label) then retire
             else (case durableSiblingHeld w now asset quote window (durable e) of
                     Inl err \<Rightarrow> ((True, Some err), e)
                   | Inr held \<Rightarrow> if held then retire else clear))"

section \<open>Loading\<close>

definition unownedAdoptable :: "'d Writer \<Rightarrow> Marker \<Rightarrow> gotime \<Rightarrow> bool" where
  "unownedAdoptable w m now =
     (if \<not> LadderStillLive (UnownedLadder m) (ladderGrace w) now \<or> time_IsZero (UnownedSince m) then False
      else \<not> UnownedSince m + ladderGrace w < now)"

definition loadDurableLadder :: "'d Writer \<Rightarrow> gotime \<Rightarrow> Asset \<Rightarrow> Asset \<Rightarrow> 'd fenv \<Rightarrow> (State \<times> bool) \<times> 'd fenv" where
  "loadDurableLadder w now asset quote e =
     (case ladder w of
        None \<Rightarrow> ((zeroState, False), e)
      | Some s \<Rightarrow>
          (case LoadLadder s (durable e) asset quote of
             Some (st, True) \<Rightarrow>
               if \<not> LadderStillLive st (ladderGrace w) now then ((zeroState, False), e)
               else ((st, True), metric_inc LadderRehydrated e)
           | _ \<Rightarrow> ((zeroState, False), e)))"

definition loadDurableWindowLadder ::
  "'d Writer \<Rightarrow> 'd WindowLadderStore \<Rightarrow> gotime \<Rightarrow> Asset \<Rightarrow> Asset \<Rightarrow> duration \<Rightarrow> 'd fenv \<Rightarrow> (State \<times> bool) \<times> 'd fenv" where
  "loadDurableWindowLadder w s now asset quote window e =
     (case LoadWindowLadders s (durable e) asset quote of
        Some (stored, unowned, True) \<Rightarrow>
          if (case map_of stored window of None \<Rightarrow> False | Some own \<Rightarrow> LadderStillLive own (ladderGrace w) now)
          then ((the (map_of stored window), True), metric_inc LadderRehydrated e)
          else if LadderStillLive unowned (ladderGrace w) now then ((unowned, True), metric_inc LadderRehydrated e)
          else ((zeroState, list_ex (\<lambda>(k, st). LadderStillLive st (ladderGrace w) now) stored), e)
      | _ \<Rightarrow> ((zeroState, False), e))"

definition loadState ::
  "'d Writer \<Rightarrow> gotime \<Rightarrow> Asset \<Rightarrow> Asset \<Rightarrow> duration \<Rightarrow> 'd fenv \<Rightarrow> (freeze_error + State \<times> bool) \<times> 'd fenv" where
  "loadState w now asset quote window e =
     (let label = windowLabel window; key = Freeze asset quote in
      case cache_Get now key e of
        (Inl _, e) \<Rightarrow> (Inl (CacheGet key), e)
      | (Inr None, e) \<Rightarrow>
          let (r, e) = (if label \<noteq> [] \<and> windowLadder w \<noteq> None
                        then loadDurableWindowLadder w (the (windowLadder w)) now asset quote window e
                        else loadDurableLadder w now asset quote e)
          in (Inr r, e)
      | (Inr (Some d), e) \<Rightarrow>
          (case unmarshalMarker d of
             None \<Rightarrow> (Inr (zeroState, True), e)
           | Some m \<Rightarrow>
               if label \<noteq> [] \<and> Windowed m
               then (if (case map_of (Ladders m) label of None \<Rightarrow> False | Some st \<Rightarrow> LadderStillLive st (ladderGrace w) now)
                     then (Inr (the (map_of (Ladders m) label), True), e)
                     else if unownedAdoptable w m now then (Inr (UnownedLadder m, True), e)
                     else (Inr (zeroState, True), e))
               else (Inr (MState m, True), e)))"

definition LoadState ::
  "'d Writer \<Rightarrow> gotime \<Rightarrow> Asset \<Rightarrow> Asset \<Rightarrow> 'd fenv \<Rightarrow> (freeze_error + State \<times> bool) \<times> 'd fenv" where
  "LoadState w now asset quote = loadState w now asset quote 0"

definition LoadStateForWindow ::
  "'d Writer \<Rightarrow> gotime \<Rightarrow> Asset \<Rightarrow> Asset \<Rightarrow> duration \<Rightarrow> 'd fenv \<Rightarrow> (freeze_error + State \<times> bool) \<times> 'd fenv" where
  "LoadStateForWindow = loadState"

definition RecordOverride ::
  "gotime \<Rightarrow> Asset \<Rightarrow> Asset \<Rightarrow> string \<Rightarrow> string \<Rightarrow> 'd fenv \<Rightarrow> freeze_error option \<times> 'd fenv" where
  "RecordOverride now asset quote actor reason e =
     (let key = FreezeOverride asset quote in
      if \<not> json_time now then (Some MarshalError, e)
      else let (err, e) = cache_Set now key (OverrideDoc \<lparr>OActor = actor, OReason = reason, OAt = now\<rparr>) FreezeTTL e
           in (if err then Some (CacheSet key) else None, e))"

definition key_present :: "gotime \<Rightarrow> string \<Rightarrow> 'd fenv \<Rightarrow> (freeze_error + bool) \<times> 'd fenv" where
  "key_present now key e =
     (case cache_Get now key e of
        (Inl _, e) \<Rightarrow> (Inl (CacheGet key), e)
      | (Inr d, e) \<Rightarrow> (Inr (d \<noteq> None), e))"

definition OverrideRecorded :: "gotime \<Rightarrow> Asset \<Rightarrow> Asset \<Rightarrow> 'd fenv \<Rightarrow> (freeze_error + bool) \<times> 'd fenv" where
  "OverrideRecorded now asset quote = key_present now (FreezeOverride asset quote)"

definition FrozenForPair :: "gotime \<Rightarrow> Asset \<Rightarrow> Asset \<Rightarrow> 'd fenv \<Rightarrow> (freeze_error + bool) \<times> 'd fenv" where
  "FrozenForPair now asset quote = key_present now (Freeze asset quote)"


section \<open>Lemmas\<close>

named_theorems redis_ok \<open>commands of a Redis that answers\<close>

lemma next_fault_ok [redis_ok]: "plan e = [] \<Longrightarrow> next_fault e = (NoFault, e)"
  by (simp add: next_fault_def)

lemma cache_Get_ok [redis_ok]: "plan e = [] \<Longrightarrow> cache_Get now key e = (Inr (live_doc now (cells e key)), e)"
  by (simp add: cache_Get_def next_fault_ok)

lemma cache_Set_ok [redis_ok]:
  "plan e = [] \<Longrightarrow> cache_Set now key d t e = (False, e\<lparr>cells := (cells e)(key := Some (d, now + px t))\<rparr>)"
  by (simp add: cache_Set_def cache_effect_def next_fault_ok)

lemma cache_Del_ok [redis_ok]: "plan e = [] \<Longrightarrow> cache_Del key e = (False, e\<lparr>cells := (cells e)(key := None)\<rparr>)"
  by (simp add: cache_Del_def cache_effect_def next_fault_ok)

text \<open>The marker a writer reads: the live document, decoded.\<close>

definition marker_of :: "gotime \<Rightarrow> Asset \<Rightarrow> Asset \<Rightarrow> 'd fenv \<Rightarrow> Marker option" where
  "marker_of now asset quote e = Option.bind (live_doc now (cells e (Freeze asset quote))) unmarshalMarker"

lemma readMarker_ok [redis_ok]:
  "plan e = [] \<Longrightarrow> readMarker now (Freeze asset quote) e = (Inr (marker_of now asset quote e), e)"
  by (simp add: readMarker_def cache_Get_ok marker_of_def split: option.splits)

text \<open>The live ladder of each label of a windowed marker, and the view of them all.\<close>

definition marker_view :: "'d Writer \<Rightarrow> gotime \<Rightarrow> Marker \<Rightarrow> string \<Rightarrow> State option" where
  "marker_view w now m label =
     (if Windowed m
      then (case map_of (Ladders m) label of
              Some st \<Rightarrow> if LadderStillLive st (ladderGrace w) now then Some st else None
            | None \<Rightarrow> None)
      else None)"

definition ladder_view :: "'d Writer \<Rightarrow> gotime \<Rightarrow> Asset \<Rightarrow> Asset \<Rightarrow> 'd fenv \<Rightarrow> string \<Rightarrow> State option" where
  "ladder_view w now asset quote e =
     (case marker_of now asset quote e of Some m \<Rightarrow> marker_view w now m | None \<Rightarrow> Map.empty)"

lemma map_of_filter_live:
  "distinct (map fst ls) \<Longrightarrow>
   map_of (filter (\<lambda>(k, v). P v) ls) l = (case map_of ls l of Some v \<Rightarrow> if P v then Some v else None | None \<Rightarrow> None)"
  by (induction ls) (auto simp: map_of_eq_None_iff image_iff split: option.splits)

lemma distinct_filter_labels: "distinct (map fst ls) \<Longrightarrow> distinct (map fst (filter P ls))"
  by (induction ls) (auto simp: image_iff)

text \<open>No write of the durable side touches Redis.\<close>

lemma durable_writes [simp]:
  "cells (metric_inc m e) = cells e" "plan (metric_inc m e) = plan e"
  "cells (recordFreeze s asset quote v dec e) = cells e" "plan (recordFreeze s asset quote v dec e) = plan e"
  "cells (saveWindowLadder ws asset quote win st op e) = cells e" "plan (saveWindowLadder ws asset quote win st op e) = plan e"
  "cells (saveLadder ls asset quote st op e) = cells e" "plan (saveLadder ls asset quote st op e) = plan e"
  "cells (mirror_ladder w asset quote win st e) = cells e" "plan (mirror_ladder w asset quote win st e) = plan e"
  by (simp_all add: metric_inc_def recordFreeze_def saveWindowLadder_def saveLadder_def mirror_ladder_def Let_def
      split: prod.splits)

text \<open>The floor covers every ladder it considers.\<close>

lemma ladder_need_ge: "acc \<le> ladder_need w now st acc"
  by (simp add: ladder_need_def Let_def)

definition writer_ok :: "'d Writer \<Rightarrow> bool" where
  "writer_ok w = (0 < ttl w \<and> 0 < ladderGrace w \<and> ladderGrace w \<le> max_int64)"

lemma NewWriter_ok:
  fixes opts :: "'d WriterOption list"
  assumes "ladderGrace (NewWriter t opts) \<le> max_int64"
  shows "writer_ok (NewWriter t opts)"
proof -
  have "ttl (foldl apply_option w opts) = ttl w" for w :: "'d Writer"
  proof (induction opts arbitrary: w)
    case (Cons opt opts)
    have "ttl (apply_option w opt) = ttl w" by (cases opt) simp_all
    then show ?case using Cons.IH by simp
  qed simp
  then show ?thesis using assms
    by (simp add: writer_ok_def NewWriter_def Let_def FreezeTTL_def DefaultLadderGrace_def DefaultMarkerGrace_def
        go_minute_def go_second_def)
qed

lemma ladder_need_covers:
  assumes "writer_ok w" "LadderStillLive st (ladderGrace w) now" "HoldUntil st + ladderGrace w - now \<le> max_int64"
  shows "HoldUntil st + ladderGrace w - now \<le> ladder_need w now st acc"
proof -
  have r: "0 \<le> HoldUntil st + ladderGrace w - now" using assms(2) by (simp add: LadderStillLive_def split: if_splits)
  then have "time_Sub (HoldUntil st) now = HoldUntil st - now"
    using assms(1,3) by (simp add: time_Sub_def writer_ok_def min_int64_def max_int64_def)
  moreover have "wrap64 (HoldUntil st + ladderGrace w - now) = HoldUntil st + ladderGrace w - now"
    using r assms(3) by (intro wrap64_id) (simp_all add: min_int64_def)
  moreover have "HoldUntil st - now + ladderGrace w = HoldUntil st + ladderGrace w - now" by simp
  ultimately have "ladder_need w now st acc = (if acc < HoldUntil st + ladderGrace w - now then HoldUntil st + ladderGrace w - now else acc)"
    using assms(2) by (simp only: ladder_need_def Let_def not_not if_False simp_thms)
  then show ?thesis by simp
qed

lemma foldl_need_ge:
  "acc \<le> foldl (\<lambda>acc (label, st). if label \<noteq> own then ladder_need w now st acc else acc) acc ls"
proof (induction ls arbitrary: acc)
  case (Cons a ls)
  obtain label st where a: "a = (label, st)" by (cases a)
  show ?case
    using Cons.IH [of "if label \<noteq> own then ladder_need w now st acc else acc"] ladder_need_ge [of acc w now st]
    by (simp add: a split: if_splits)
qed simp

lemma foldl_need_covers:
  assumes "writer_ok w" "(label, st) \<in> set ls" "label \<noteq> own" "LadderStillLive st (ladderGrace w) now"
    "HoldUntil st + ladderGrace w - now \<le> max_int64"
  shows "HoldUntil st + ladderGrace w - now \<le>
    foldl (\<lambda>acc (label, st). if label \<noteq> own then ladder_need w now st acc else acc) acc ls"
  using assms(2)
proof (induction ls arbitrary: acc)
  case (Cons a ls)
  show ?case
  proof (cases "a = (label, st)")
    case True
    then show ?thesis
      using ladder_need_covers [OF assms(1,4,5), of acc] assms(3)
        foldl_need_ge [of "ladder_need w now st acc" own w now ls] by simp
  next
    case False
    then show ?thesis using Cons by simp
  qed
qed simp

text \<open>The ladders a marker's lifetime answers for: those of the other labels, the unowned one, and the
  pair's own on a marker that is not windowed.\<close>

definition owned_ladders :: "Marker \<Rightarrow> string \<Rightarrow> State set" where
  "owned_ladders m own =
     snd ` {x \<in> set (Ladders m). fst x \<noteq> own} \<union> {UnownedLadder m} \<union> (if Windowed m then {} else {MState m})"

lemma lifecycleTTLFloor_covers:
  assumes "writer_ok w" "st \<in> owned_ladders m own" "LadderStillLive st (ladderGrace w) now"
    "HoldUntil st + ladderGrace w - now \<le> max_int64"
  shows "HoldUntil st + ladderGrace w - now \<le> lifecycleTTLFloor w m own now"
proof -
  let ?f = "foldl (\<lambda>acc (label, st). if label \<noteq> own then ladder_need w now st acc else acc) 0 (Ladders m)"
  let ?need = "HoldUntil st + ladderGrace w - now"
  have u: "?f \<le> ladder_need w now (UnownedLadder m) ?f" by (rule ladder_need_ge)
  have s: "ladder_need w now (UnownedLadder m) ?f \<le> lifecycleTTLFloor w m own now"
    by (simp add: lifecycleTTLFloor_def Let_def ladder_need_ge)
  consider (label) l where "(l, st) \<in> set (Ladders m)" "l \<noteq> own" | (unowned) "st = UnownedLadder m"
    | (pair) "\<not> Windowed m" "st = MState m"
    using assms(2) by (auto simp: owned_ladders_def split: if_splits)
  then show ?thesis
  proof cases
    case label
    then show ?thesis using foldl_need_covers [OF assms(1) label assms(3,4), of 0] u s by linarith
  next
    case unowned
    then show ?thesis using ladder_need_covers [OF assms(1,3,4), of ?f] s by simp
  next
    case pair
    then show ?thesis using ladder_need_covers [OF assms(1,3,4)] by (simp add: lifecycleTTLFloor_def Let_def)
  qed
qed

lemma px_gt: "0 < d \<Longrightarrow> d - 1000000 < px d"
  using pos_mod_bound [of 1000000 d] by (simp add: px_def)

lemma px_mono: "d \<le> d' \<Longrightarrow> px d \<le> px d'"
proof -
  assume "d \<le> d'"
  then have "d div 1000000 \<le> d' div 1000000" by (rule zdiv_mono1) simp
  moreover have "x - x mod 1000000 = x div 1000000 * 1000000" for x :: int by (simp add: minus_mod_eq_div_mult)
  moreover have "1 \<le> d' div 1000000" if "1000000 \<le> d'" using zdiv_mono1 [OF that, of 1000000] by simp
  ultimately show ?thesis using \<open>d \<le> d'\<close> by (auto simp: px_def)
qed

section \<open>What a mark writes\<close>

text \<open>The marker and the lifetime a mark decides on, over the marker it read.\<close>

definition mark_body :: "'d Writer \<Rightarrow> gotime \<Rightarrow> Asset \<Rightarrow> Asset \<Rightarrow> duration \<Rightarrow> Decision \<Rightarrow> State \<Rightarrow> 'd \<Rightarrow> Marker option \<Rightarrow> Marker" where
  "mark_body w now asset quote window decision state d prior =
     held_marker w now asset quote (windowLabel window) decision state
       (merge_ladders_of w now asset quote (windowLabel window) state d prior)"

definition mark_ttl :: "'d Writer \<Rightarrow> gotime \<Rightarrow> duration \<Rightarrow> duration \<Rightarrow> Marker \<Rightarrow> duration" where
  "mark_ttl w now window t m = max (if t \<le> 0 then ttl w else t) (lifecycleTTLFloor w m (windowLabel window) now)"

lemma markHold_unfold:
  fixes w :: "'d Writer" and window :: duration and dec :: Decision and state :: State
  assumes "readMarker now (Freeze asset quote) e = (r, e1)"
  defines "mk \<equiv> mark_body w now asset quote window dec state (durable e1) (case r of Inl _ \<Rightarrow> None | Inr m \<Rightarrow> m)"
  shows "markHold w now asset quote window v dec state t e =
    (case marshalMarker mk of
       None \<Rightarrow> (Some MarshalError, e1)
     | Some body \<Rightarrow>
         let (err, e2) = cache_Set now (Freeze asset quote) body (mark_ttl w now window t mk) e1 in
         if err then (Some (CacheSet (Freeze asset quote)), e2)
         else (None, mirror_ladder w asset quote window state
                (case sink w of None \<Rightarrow> e2 | Some s \<Rightarrow> recordFreeze s asset quote v dec e2)))"
proof -
  have max: "(if x < y then y else x) = max x y" for x y :: int by (simp add: max_def)
  show ?thesis
    unfolding markHold_def mergeLadders_def assms(1) mk_def mark_body_def mark_ttl_def max Let_def prod.case ..
qed

lemma readMarker_cells: "readMarker now key e = (r, e1) \<Longrightarrow> cells e1 = cells e \<and> durable e1 = durable e"
  by (auto simp: readMarker_def cache_Get_def next_fault_def Let_def split: list.splits option.splits if_splits prod.splits)

lemma marshalMarker_Some [simp]: "marshalMarker m = Some b \<Longrightarrow> b = MarkerDoc m"
  by (simp add: marshalMarker_def split: if_splits)

lemma cache_Set_acked:
  "cache_Set now key d t e = (False, e') \<Longrightarrow> cells e' = (cells e)(key := Some (d, now + px t))"
  by (auto simp: cache_Set_def cache_effect_def next_fault_def Let_def split: list.splits prod.splits if_splits)

lemma markHold_body:
  assumes "markHold w now asset quote window v dec state t e = (None, e')"
  obtains prior where "prior = marker_of now asset quote e \<or> prior = None"
    and "marshalMarker (mark_body w now asset quote window dec state (durable e) prior) \<noteq> None"
    and "cells e' = (cells e)(Freeze asset quote :=
      Some (MarkerDoc (mark_body w now asset quote window dec state (durable e) prior),
            now + px (mark_ttl w now window t (mark_body w now asset quote window dec state (durable e) prior))))"
    and "plan e = [] \<Longrightarrow> prior = marker_of now asset quote e"
proof -
  obtain r e1 where r: "readMarker now (Freeze asset quote) e = (r, e1)" by fastforce
  note c1 = readMarker_cells [OF r]
  define prior where "prior = (case r of Inl _ \<Rightarrow> None | Inr m \<Rightarrow> m)"
  define mk where "mk = mark_body w now asset quote window dec state (durable e) prior"
  note u = markHold_unfold [OF r, where w = w and window = window and dec = dec and state = state and v = v and t = t, folded prior_def, unfolded c1 [THEN conjunct2], folded mk_def]
  from assms u obtain b where b: "marshalMarker mk = Some b" by (auto split: option.splits)
  then have b': "b = MarkerDoc mk" by simp
  obtain err e2 where s: "cache_Set now (Freeze asset quote) b (mark_ttl w now window t mk) e1 = (err, e2)" by fastforce
  have "\<not> err" using assms u by (simp add: b s Let_def split: if_splits)
  with s have "cells e2 = (cells e)(Freeze asset quote := Some (MarkerDoc mk, now + px (mark_ttl w now window t mk)))"
    using cache_Set_acked [of now "Freeze asset quote" b "mark_ttl w now window t mk" e1 e2] c1 b' by simp
  moreover have "cells e' = cells e2" using assms u \<open>\<not> err\<close> by (auto simp: b s Let_def split: option.splits)
  moreover have "prior = marker_of now asset quote e \<or> prior = None" "plan e = [] \<Longrightarrow> prior = marker_of now asset quote e"
    using r by (auto simp: prior_def readMarker_def cache_Get_def next_fault_def marker_of_def Let_def
        split: list.splits option.splits if_splits prod.splits)
  ultimately show ?thesis using that [of prior] b unfolding mk_def by auto
qed


lemma px_pos [simp]: "0 < px d"
proof -
  have "d mod 1000000 < 1000000" by (rule pos_mod_bound) simp
  then show ?thesis by (auto simp: px_def)
qed

definition wf_ladders :: "Marker option \<Rightarrow> bool" where
  "wf_ladders m = (case m of Some m \<Rightarrow> distinct (map fst (Ladders m)) | None \<Rightarrow> True)"

definition live_state :: "'d Writer \<Rightarrow> gotime \<Rightarrow> State \<Rightarrow> State option" where
  "live_state w now st = (if LadderStillLive st (ladderGrace w) now then Some st else None)"

lemma LadderStillLive_Active: "LadderStillLive st g now \<Longrightarrow> Active st"
  by (simp add: LadderStillLive_def split: if_splits)

text \<open>The ladders a mark starts from show the view of the marker it read.\<close>

lemma merge_base_view:
  fixes now :: gotime and asset :: Asset and quote :: Asset and d :: 'd
  assumes "wf_ladders prior" "windowLadder w = None \<or> prior \<noteq> None"
  defines "g \<equiv> merge_base w now asset quote d prior"
  shows "map_of (mLadders g) = (case prior of Some m \<Rightarrow> marker_view w now m | None \<Rightarrow> Map.empty)"
    "mPrior g = prior" "distinct (map fst (mLadders g))" "\<not> mWindowed g \<Longrightarrow> mLadders g = []"
    "\<forall>x \<in> set (mLadders g). LadderStillLive (snd x) (ladderGrace w) now"
  using assms(1,2)
  by (auto simp: g_def merge_base_def liveDurableLadders_def wf_ladders_def marker_view_def map_of_filter_live
      distinct_filter_labels fun_eq_iff split: option.splits)

lemma marker_view_map_of:
  assumes "Windowed m" "\<forall>x \<in> set (Ladders m). LadderStillLive (snd x) (ladderGrace w) now"
  shows "marker_view w now m = map_of (Ladders m)"
proof
  fix l
  show "marker_view w now m l = map_of (Ladders m) l"
    using assms map_of_SomeD [of "Ladders m" l] by (fastforce simp: marker_view_def split: option.splits)
qed

lemma held_marker_cases:
  obtains (prior) p where "mPrior g = Some p" "label = []" "\<not> Active state" "held_marker w now asset quote label dec state g = p"
  | (fresh) "Ladders (held_marker w now asset quote label dec state g) = mLadders g"
      "Windowed (held_marker w now asset quote label dec state g) = mWindowed g"
      "UnownedLadder (held_marker w now asset quote label dec state g) = mUnowned g"
      "UnownedSince (held_marker w now asset quote label dec state g) = mUnownedSince g"
      "MState (held_marker w now asset quote label dec state g) = state"
proof (cases "\<exists>p. mPrior g = Some p \<and> label = [] \<and> \<not> Active state \<and> 0 < lifecycleTTLFloor w p [] now")
  case True
  then show ?thesis using prior by (auto simp: held_marker_def)
next
  case False
  show ?thesis by (rule fresh) (use False in \<open>auto simp: held_marker_def Let_def split: option.splits\<close>)
qed

lemma mark_body_view:
  fixes now :: gotime
  assumes "wf_ladders prior" "windowLadder w = None \<or> prior \<noteq> None"
  defines "base \<equiv> (case prior of Some m \<Rightarrow> marker_view w now m | None \<Rightarrow> Map.empty)"
  shows "marker_view w now (mark_body w now asset quote window dec state d prior) =
    (if windowLabel window = [] then base else base(windowLabel window := live_state w now state))"
proof -
  define g where "g = retire_unowned w now (merge_base w now asset quote d prior)"
  have g: "map_of (mLadders g) = base" "mPrior g = prior" "distinct (map fst (mLadders g))" "\<not> mWindowed g \<Longrightarrow> mLadders g = []"
    "\<forall>x \<in> set (mLadders g). LadderStillLive (snd x) (ladderGrace w) now"
    using merge_base_view [OF assms(1,2), of now asset quote d] by (auto simp: g_def retire_unowned_def base_def)
  let ?l = "windowLabel window" and ?mk = "mark_body w now asset quote window dec state d prior"
  have body: "?mk = held_marker w now asset quote ?l dec state
     (if ?l = [] then g\<lparr>mWindowed := mWindowed g \<or> mLadders g \<noteq> [] \<or> Active (mUnowned g)\<rparr>
      else g\<lparr>mWindowed := True,
             mLadders := if Active state then AList.update ?l state (mLadders g) else AList.delete ?l (mLadders g)\<rparr>)"
    unfolding mark_body_def merge_ladders_of_def g_def Let_def ..
  show ?thesis
  proof (cases "?l = []")
    case True
    let ?g = "g\<lparr>mWindowed := mWindowed g \<or> mLadders g \<noteq> [] \<or> Active (mUnowned g)\<rparr>"
    show ?thesis
    proof (cases rule: held_marker_cases [of ?g ?l state w now asset quote dec])
      case (prior p)
      then show ?thesis using True g(2) body by (simp add: base_def)
    next
      case fresh
      show ?thesis
      proof (cases "mWindowed ?g")
        case True
        then show ?thesis using \<open>?l = []\<close> marker_view_map_of [of ?mk w now] g(1,5) fresh body by simp
      next
        case False
        then have "base = Map.empty" using g(1) by auto
        then show ?thesis using False \<open>?l = []\<close> fresh body by (simp add: marker_view_def fun_eq_iff)
      qed
    qed
  next
    case False
    then have mk: "Windowed ?mk"
      "Ladders ?mk = (if Active state then AList.update ?l state (mLadders g) else AList.delete ?l (mLadders g))"
      unfolding body by (simp_all add: held_marker_def Let_def split: option.splits)
    have b: "base l \<noteq> None \<Longrightarrow> LadderStillLive (the (base l)) (ladderGrace w) now" for l
      using g(5) map_of_SomeD [of "mLadders g" l] g(1) by fastforce
    show ?thesis
    proof
      fix l
      show "marker_view w now ?mk l = (if ?l = [] then base else base(?l := live_state w now state)) l"
        using False b [of l] LadderStillLive_Active [of state "ladderGrace w" now]
        by (auto simp: marker_view_def mk live_state_def update_conv' delete_conv' g(1) split: option.splits)
    qed
  qed
qed


lemma Duration_abs_String_nonempty: "Duration_abs_String u \<noteq> []"
  unfolding Duration_abs_String_def Let_def
  by (simp only: if_distrib [of "\<lambda>x. x = []"] append_is_Nil_conv list.distinct simp_thms if_cancel)

lemma Duration_String_nonempty: "Duration_String d \<noteq> []"
  by (simp add: Duration_String_def Duration_abs_String_nonempty)

lemma windowLabel_empty [simp]: "windowLabel window = [] \<longleftrightarrow> window \<le> 0"
  by (simp add: windowLabel_def Duration_String_nonempty)

text \<open>The marker a successful mark leaves, and how long it lasts.\<close>

lemma mark_lifetime:
  assumes "writer_ok w" "markHold w now asset quote window v dec state t e = (None, e')"
  obtains m lapse where "cells e' (Freeze asset quote) = Some (MarkerDoc m, lapse)" "now \<le> lapse"
    "now + (if t \<le> 0 then ttl w else t) - 1000000 < lapse"
    "\<And>st. st \<in> owned_ladders m (windowLabel window) \<Longrightarrow> LadderStillLive st (ladderGrace w) now \<Longrightarrow>
       HoldUntil st + ladderGrace w - now \<le> max_int64 \<Longrightarrow> HoldUntil st + ladderGrace w - 1000000 < lapse"
    "plan e = [] \<Longrightarrow> m = mark_body w now asset quote window dec state (durable e) (marker_of now asset quote e)"
proof -
  from assms(2) obtain prior where
    c: "cells e' = (cells e)(Freeze asset quote :=
      Some (MarkerDoc (mark_body w now asset quote window dec state (durable e) prior),
            now + px (mark_ttl w now window t (mark_body w now asset quote window dec state (durable e) prior))))"
    and p: "plan e = [] \<Longrightarrow> prior = marker_of now asset quote e"
    by (rule markHold_body) blast
  define m where "m = mark_body w now asset quote window dec state (durable e) prior"
  define T where "T = mark_ttl w now window t m"
  have T: "(if t \<le> 0 then ttl w else t) \<le> T" "lifecycleTTLFloor w m (windowLabel window) now \<le> T" "0 < T"
    using assms(1) by (auto simp: T_def mark_ttl_def writer_ok_def)
  show ?thesis
  proof
    show "cells e' (Freeze asset quote) = Some (MarkerDoc m, now + px T)" by (simp add: c m_def T_def)
    show "now \<le> now + px T" using px_pos [of T] by linarith
    show "now + (if t \<le> 0 then ttl w else t) - 1000000 < now + px T" using T(1) px_gt [OF T(3)] by linarith
    show "HoldUntil st + ladderGrace w - 1000000 < now + px T"
      if "st \<in> owned_ladders m (windowLabel window)" "LadderStillLive st (ladderGrace w) now"
        "HoldUntil st + ladderGrace w - now \<le> max_int64" for st
      using lifecycleTTLFloor_covers [OF assms(1) that] T(2) px_gt [OF T(3)] by linarith
    show "m = mark_body w now asset quote window dec state (durable e) (marker_of now asset quote e)" if "plan e = []"
      using p that by (simp add: m_def)
  qed
qed

lemma marker_of_live: "cells e (Freeze asset quote) = Some (MarkerDoc m, lapse) \<Longrightarrow> now \<le> lapse \<Longrightarrow> marker_of now asset quote e = Some m"
  by (simp add: marker_of_def live_doc_def)

lemma marker_view_SomeD:
  "marker_view w now m label = Some st \<Longrightarrow>
   Windowed m \<and> map_of (Ladders m) label = Some st \<and> LadderStillLive st (ladderGrace w) now"
  by (auto simp: marker_view_def split: if_splits option.splits)

section \<open>Properties of marking\<close>


text \<open>
  No write pulls the marker's expiry in under a freeze it records. Whatever the schedule of Redis
  failures, and whichever window or none the mark is for, the marker that a successful mark leaves lasts
  at least as long as the caller asked and as long as the hold plus the grace of every live ladder in it
  other than the caller's own, up to the millisecond Redis counts in.
\<close>

theorem mark_outlives_every_hold:
  "writer_ok w \<and> markHold w now asset quote window v dec state t e = (None, e') \<longrightarrow>
   (\<exists>m lapse. cells e' (Freeze asset quote) = Some (MarkerDoc m, lapse) \<and> now \<le> lapse \<and>
      now + (if t \<le> 0 then ttl w else t) - 1000000 < lapse \<and>
      (\<forall>st. st \<in> owned_ladders m (windowLabel window) \<and> LadderStillLive st (ladderGrace w) now \<and>
         HoldUntil st + ladderGrace w - now \<le> max_int64 \<longrightarrow> HoldUntil st + ladderGrace w - 1000000 < lapse))"
proof (intro impI, elim conjE)
  assume "writer_ok w" "markHold w now asset quote window v dec state t e = (None, e')"
  then obtain m lapse where "cells e' (Freeze asset quote) = Some (MarkerDoc m, lapse)" "now \<le> lapse"
    "now + (if t \<le> 0 then ttl w else t) - 1000000 < lapse"
    "\<And>st. st \<in> owned_ladders m (windowLabel window) \<Longrightarrow> LadderStillLive st (ladderGrace w) now \<Longrightarrow>
       HoldUntil st + ladderGrace w - now \<le> max_int64 \<Longrightarrow> HoldUntil st + ladderGrace w - 1000000 < lapse"
    by (rule mark_lifetime) blast
  then show "\<exists>m lapse. cells e' (Freeze asset quote) = Some (MarkerDoc m, lapse) \<and> now \<le> lapse \<and>
      now + (if t \<le> 0 then ttl w else t) - 1000000 < lapse \<and>
      (\<forall>st. st \<in> owned_ladders m (windowLabel window) \<and> LadderStillLive st (ladderGrace w) now \<and>
         HoldUntil st + ladderGrace w - now \<le> max_int64 \<longrightarrow> HoldUntil st + ladderGrace w - 1000000 < lapse)"
    by blast
qed

section \<open>Properties of releasing\<close>

text \<open>What a command on the marker's key can do to it, whether or not it is acknowledged.\<close>

lemma readMarker_result:
  assumes "readMarker now (Freeze asset quote) e = (r, e1)"
  shows "cells e1 = cells e" "durable e1 = durable e" "r = Inr (marker_of now asset quote e) \<or> (\<exists>err. r = Inl err)"
  using assms by (auto simp: readMarker_def cache_Get_def next_fault_def marker_of_def Let_def
      split: list.splits option.splits if_splits prod.splits)

lemma cache_SetXX_cells:
  "cache_SetXX now key d e = (err, e') \<Longrightarrow>
   cells e' = cells e \<or>
   (\<exists>d0 lapse. cells e key = Some (d0, lapse) \<and> now \<le> lapse \<and> cells e' = (cells e)(key := Some (d, lapse)))"
  by (auto simp: cache_SetXX_def cache_effect_def next_fault_def Let_def split: list.splits option.splits if_splits prod.splits)

lemma marker_of_cells: "cells e' = cells e \<Longrightarrow> marker_of now asset quote e' = marker_of now asset quote e"
  by (simp add: marker_of_def)

definition same_but :: "string \<Rightarrow> Marker \<Rightarrow> Marker \<Rightarrow> bool" where
  "same_but label m m' =
     (Windowed m' = Windowed m \<and> UnownedLadder m' = UnownedLadder m \<and> UnownedSince m' = UnownedSince m \<and>
      (\<forall>l. l \<noteq> label \<longrightarrow> map_of (Ladders m') l = map_of (Ladders m) l))"

lemma same_but_refl [simp]: "same_but label m m"
  by (simp add: same_but_def)

lemma retire_keeps_siblings:
  assumes "marker_of now asset quote e = Some m" "RetireWindowLadder w now asset quote window e = (err, e')"
  shows "\<exists>m'. marker_of now asset quote e' = Some m' \<and> same_but (windowLabel window) m m' \<and>
      map_option snd (cells e' (Freeze asset quote)) = map_option snd (cells e (Freeze asset quote))"
proof -
  let ?k = "Freeze asset quote" and ?l = "windowLabel window"
  define e0 where "e0 = (case windowLadder w of None \<Rightarrow> e | Some s \<Rightarrow> saveWindowLadder s asset quote window zeroState ''clear'' e)"
  have c0: "cells e0 = cells e" by (simp add: e0_def split: option.splits)
  obtain r e1 where r: "readMarker now ?k e0 = (r, e1)" by fastforce
  note rr = readMarker_result [OF r]
  show ?thesis
  proof (cases "cells e' = cells e")
    case True
    then show ?thesis using assms(1) by (auto simp: marker_of_def)
  next
    case False
    then have ne: "?l \<noteq> []" using assms(2) by (auto simp: RetireWindowLadder_def)
    have m0: "marker_of now asset quote e0 = Some m" using c0 assms(1) marker_of_cells by metis
    have "r = Inr (Some m)" "Windowed m" "map_of (Ladders m) ?l \<noteq> None"
      using False assms(2) rr c0 m0 ne
      by (auto simp: RetireWindowLadder_def Let_def e0_def [symmetric] r split: if_splits sum.splits option.splits)
    moreover obtain b where b: "marshalMarker (m\<lparr>Ladders := AList.delete ?l (Ladders m)\<rparr>) = Some b"
      using False assms(2) rr c0 m0 ne
      by (auto simp: RetireWindowLadder_def Let_def e0_def [symmetric] r split: if_splits sum.splits option.splits)
    ultimately have "\<exists>x. cache_SetXX now ?k b e1 = (x, e')"
      using assms(2) ne by (auto simp: RetireWindowLadder_def Let_def e0_def [symmetric] r split: prod.splits)
    then obtain d0 lapse where s: "cells e1 ?k = Some (d0, lapse)" "now \<le> lapse" "cells e' = (cells e1)(?k := Some (b, lapse))"
      using cache_SetXX_cells False rr(1) c0 by metis
    then have "marker_of now asset quote e' = Some (m\<lparr>Ladders := AList.delete ?l (Ladders m)\<rparr>)"
      using marshalMarker_Some [OF b] by (simp add: marker_of_live)
    then show ?thesis using s rr(1) c0 by (auto simp: same_but_def delete_conv')
  qed
qed

text \<open>
  C6. A release never takes a sibling's freeze with it. When the marker records a live ladder of another
  window, or one without an owner, then whatever Redis commands fail, acknowledged or not, the released
  window reports that the marker was kept, and the marker is still there with the same expiry and the
  same ladder for every other window.
\<close>

theorem release_never_drops_sibling:
  "marker_of now asset quote e = Some m \<and> Windowed m \<and> 0 < window \<and> siblingLadderHeld w now m (windowLabel window) \<longrightarrow>
   (let ((kept, err), e') = ReleaseWindow w now asset quote window e in
    kept \<and> (\<exists>m'. marker_of now asset quote e' = Some m' \<and> same_but (windowLabel window) m m' \<and>
      map_option snd (cells e' (Freeze asset quote)) = map_option snd (cells e (Freeze asset quote))))"
proof (intro impI, elim conjE)
  assume m: "marker_of now asset quote e = Some m" "Windowed m" "0 < window" "siblingLadderHeld w now m (windowLabel window)"
  obtain r e1 where r: "readMarker now (Freeze asset quote) e = (r, e1)" by fastforce
  note rr = readMarker_result [OF r]
  have m1: "marker_of now asset quote e1 = Some m" using rr(1) m(1) marker_of_cells by metis
  show "let ((kept, err), e') = ReleaseWindow w now asset quote window e in
    kept \<and> (\<exists>m'. marker_of now asset quote e' = Some m' \<and> same_but (windowLabel window) m m' \<and>
      map_option snd (cells e' (Freeze asset quote)) = map_option snd (cells e (Freeze asset quote)))"
  proof (cases r)
    case (Inl x)
    then show ?thesis using m1 rr(1) by (simp add: ReleaseWindow_def r Let_def)
  next
    case (Inr found)
    then have "r = Inr (Some m)" using rr(3) m(1) by auto
    moreover obtain err e' where "RetireWindowLadder w now asset quote window e1 = (err, e')" by fastforce
    ultimately show ?thesis using retire_keeps_siblings [OF m1] m rr(1) by (simp add: ReleaseWindow_def r Let_def)
  qed
qed

text \<open>
  And with Redis answering, a release ends exactly what is over. The marker is kept when and only when
  another window's ladder is live in it, or in the durable record when the marker shows none; otherwise
  the key is gone and the pair is no longer served as frozen. A durable record that cannot be read keeps
  the marker and reports the error.
\<close>

theorem release_decides:
  "plan e = [] \<and> 0 < window \<longrightarrow>
   (let ((kept, err), e') = ReleaseWindow w now asset quote window e;
        held = (case marker_of now asset quote e of
                  Some m \<Rightarrow> Windowed m \<and> siblingLadderHeld w now m (windowLabel window) | None \<Rightarrow> False);
        stored = durableSiblingHeld w now asset quote window (durable e)
    in (kept \<longleftrightarrow> held \<or> stored \<noteq> Inr False) \<and>
       (\<not> held \<and> (\<exists>x. stored = Inl x) \<longrightarrow> err \<noteq> None \<and> e' = e) \<and>
       (\<not> kept \<longrightarrow> err = None \<and> fst (FrozenForPair later asset quote e') = Inr False))"
proof (intro impI, elim conjE)
  assume p: "plan e = []" "0 < window"
  let ?held = "case marker_of now asset quote e of
                  Some m \<Rightarrow> Windowed m \<and> siblingLadderHeld w now m (windowLabel window) | None \<Rightarrow> False"
  let ?stored = "durableSiblingHeld w now asset quote window (durable e)"
  obtain err1 e1 where retire: "RetireWindowLadder w now asset quote window e = (err1, e1)" by fastforce
  obtain err2 e2 where clear: "Clear w asset quote e = (err2, e2)" by fastforce
  have c: "err2 = None" "fst (FrozenForPair later asset quote e2) = Inr False"
    using clear p(1) by (auto simp: Clear_def redis_ok Let_def FrozenForPair_def key_present_def live_doc_def split: option.splits)
  have release: "ReleaseWindow w now asset quote window e =
     (if ?held then ((True, err1), e1)
      else case ?stored of Inl x \<Rightarrow> ((True, Some x), e) | Inr h \<Rightarrow> if h then ((True, err1), e1) else ((False, err2), e2))"
    using p by (simp add: ReleaseWindow_def redis_ok retire clear Let_def split: sum.split)
  show "let ((kept, err), e') = ReleaseWindow w now asset quote window e; held = ?held; stored = ?stored
    in (kept \<longleftrightarrow> held \<or> stored \<noteq> Inr False) \<and> (\<not> held \<and> (\<exists>x. stored = Inl x) \<longrightarrow> err \<noteq> None \<and> e' = e) \<and>
       (\<not> kept \<longrightarrow> err = None \<and> fst (FrozenForPair later asset quote e') = Inr False)"
    unfolding release Let_def
    by (cases ?held; cases ?stored) (use c in \<open>auto\<close>)
qed


section \<open>Witnesses\<close>

definition sample_writer :: "unit Writer" where
  "sample_writer = NewWriter 0 []"

definition sample_env :: "unit fenv" where
  "sample_env = \<lparr>cells = \<lambda>_. None, plan = [], durable = (), ctxEnds = False, counters = []\<rparr>"

definition sample_decision :: Decision where
  "sample_decision = \<lparr>DAction = ''freeze'', DClass = ''default'', DDeviationPct = FFin 0, DReason = ''phase2''\<rparr>"

definition sample_hold :: "gotime \<Rightarrow> State" where
  "sample_hold t = zeroState\<lparr>FiredAt := go_hour, HoldUntil := t\<rparr>"

definition sample_mark :: "duration \<Rightarrow> gotime \<Rightarrow> unit fenv \<Rightarrow> freeze_error option \<times> unit fenv" where
  "sample_mark window t =
     MarkHoldForWindow sample_writer go_hour NativeAsset sample_usdc window ''1'' sample_decision (sample_hold t) (t - go_hour + 5 * go_minute)"

text \<open>A pair whose hour window is frozen for an hour.\<close>

definition sample_frozen_env :: "unit fenv" where
  "sample_frozen_env = snd (sample_mark go_hour (2 * go_hour) sample_env)"

lemma sample_writer_ok: "writer_ok sample_writer"
  by code_simp

lemma sample_writer_no_store: "windowLadder sample_writer = None"
  by (simp add: sample_writer_def NewWriter_def)

lemma sample_frozen_env_view:
  "plan sample_frozen_env = []" "wf_ladders (marker_of go_hour NativeAsset sample_usdc sample_frozen_env)"
  "ladder_view sample_writer go_hour NativeAsset sample_usdc sample_frozen_env ''1h0m0s'' = Some (sample_hold (2 * go_hour))"
  by code_simp+

lemma sample_remark: "fst (sample_mark (5 * go_minute) (go_hour + 10 * go_minute) sample_frozen_env) = None"
  by code_simp


theorem mark_outlives_every_hold_witness:
  "\<exists>m lapse. cells (snd (sample_mark (5 * go_minute) (go_hour + 10 * go_minute) sample_frozen_env)) (Freeze NativeAsset sample_usdc) =
      Some (MarkerDoc m, lapse) \<and> go_hour + 15 * go_minute - 1000000 < lapse"
proof -
  have "markHold sample_writer go_hour NativeAsset sample_usdc (5 * go_minute) ''1'' sample_decision
      (sample_hold (go_hour + 10 * go_minute)) (15 * go_minute) sample_frozen_env =
      (None, snd (sample_mark (5 * go_minute) (go_hour + 10 * go_minute) sample_frozen_env))"
    using sample_remark by (simp add: sample_mark_def MarkHoldForWindow_def prod_eq_iff)
  with sample_writer_ok mark_outlives_every_hold [of sample_writer go_hour NativeAsset sample_usdc "5 * go_minute" "''1''" sample_decision
      "sample_hold (go_hour + 10 * go_minute)" "15 * go_minute" sample_frozen_env]
  obtain m lapse where "cells (snd (sample_mark (5 * go_minute) (go_hour + 10 * go_minute) sample_frozen_env)) (Freeze NativeAsset sample_usdc) =
      Some (MarkerDoc m, lapse)" "go_hour + (if 15 * go_minute \<le> 0 then ttl sample_writer else 15 * go_minute) - 1000000 < lapse"
    by blast
  moreover have "\<not> 15 * go_minute \<le> 0" by code_simp
  ultimately show ?thesis by auto
qed

text \<open>A release of the five-minute window while every command after the first read is lost.\<close>

definition sample_faulty :: "unit fenv" where
  "sample_faulty = snd (sample_mark (5 * go_minute) (go_hour + 10 * go_minute) sample_frozen_env)\<lparr>plan := [NoFault, NoFault, Unacked]\<rparr>"

theorem release_never_drops_sibling_witness:
  "fst (fst (ReleaseWindow sample_writer go_hour NativeAsset sample_usdc (5 * go_minute) sample_faulty)) \<and>
   snd (fst (ReleaseWindow sample_writer go_hour NativeAsset sample_usdc (5 * go_minute) sample_faulty)) \<noteq> None"
proof -
  define m where "m = the (marker_of go_hour NativeAsset sample_usdc sample_faulty)"
  have s: "marker_of go_hour NativeAsset sample_usdc sample_faulty \<noteq> None" "Windowed m" "0 < 5 * go_minute"
    "siblingLadderHeld sample_writer go_hour m (windowLabel (5 * go_minute))"
    unfolding m_def by code_simp+
  then have "marker_of go_hour NativeAsset sample_usdc sample_faulty = Some m" by (auto simp: m_def)
  with s release_never_drops_sibling [of go_hour NativeAsset sample_usdc sample_faulty m "5 * go_minute" sample_writer]
  have "fst (fst (ReleaseWindow sample_writer go_hour NativeAsset sample_usdc (5 * go_minute) sample_faulty))"
    by (simp add: Let_def case_prod_beta)
  moreover have "snd (fst (ReleaseWindow sample_writer go_hour NativeAsset sample_usdc (5 * go_minute) sample_faulty)) \<noteq> None"
    by code_simp
  ultimately show ?thesis by blast
qed

theorem release_decides_witness:
  "fst (fst (ReleaseWindow sample_writer go_hour NativeAsset sample_usdc go_hour sample_frozen_env)) = False \<and>
   fst (FrozenForPair (go_hour + 1) NativeAsset sample_usdc
     (snd (ReleaseWindow sample_writer go_hour NativeAsset sample_usdc go_hour sample_frozen_env))) = Inr False"
proof -
  have "plan sample_frozen_env = [] \<and> 0 < go_hour"
    "\<not> fst (fst (ReleaseWindow sample_writer go_hour NativeAsset sample_usdc go_hour sample_frozen_env))" by code_simp+
  with release_decides [of sample_frozen_env go_hour sample_writer go_hour NativeAsset sample_usdc "go_hour + 1"]
  show ?thesis by (simp add: Let_def case_prod_beta)
qed

end
