(* ===== verification/FreezeStore.thy ===== *)
theory FreezeStore
  imports FreezeMarker
begin

text \<open>
  What the freeze writer relies on of the durable side, as two locales over the interfaces
  \<open>WindowLadderStore\<close> and \<open>EventSink\<close> of internal/aggregate/freeze/freeze.go, and what it gets from it: a
  freeze that was mirrored survives the loss of every Redis key.

  \<open>sane\<close> says that a pair's record can be read, \<open>ready\<close> that it has an open freeze to carry ladders;
  \<open>whole\<close> are the windows and \<open>fits\<close> the states the store can hold.
\<close>

text \<open>A Redis that lost everything.\<close>

definition flush :: "'d fenv \<Rightarrow> 'd fenv" where
  "flush e = e\<lparr>cells := \<lambda>_. None\<rparr>"

lemma flush_simps [simp]: "cells (flush e) = (\<lambda>_. None)" "plan (flush e) = plan e" "durable (flush e) = durable e"
  by (simp_all add: flush_def)

definition mirrored :: "State \<Rightarrow> State option" where
  "mirrored st = (if Active st then Some st else None)"

locale window_store =
  fixes s :: "'d WindowLadderStore"
    and sane :: "'d \<Rightarrow> Asset \<Rightarrow> Asset \<Rightarrow> bool"
    and ready :: "'d \<Rightarrow> Asset \<Rightarrow> Asset \<Rightarrow> bool"
    and whole :: "duration \<Rightarrow> bool"
    and fits :: "State \<Rightarrow> bool"
    and stored :: "'d \<Rightarrow> Asset \<Rightarrow> Asset \<Rightarrow> duration \<Rightarrow> State option"
  assumes ready_sane: "ready d asset quote \<Longrightarrow> sane d asset quote"
    and load: "sane d asset quote \<Longrightarrow>
      \<exists>ls unowned found. LoadWindowLadders s d asset quote = Some (ls, unowned, found) \<and>
        (\<forall>window. stored d asset quote window = (if found then map_of ls window else None))"
    and save: "ready d asset quote \<Longrightarrow> whole window \<Longrightarrow> fits st \<Longrightarrow>
      \<exists>d'. SaveWindowLadder s d asset quote window st = (False, d') \<and> ready d' asset quote \<and>
        stored d' asset quote = (stored d asset quote)(window := mirrored st)"
    and whole_pos: "whole window \<Longrightarrow> 0 < window"
begin

lemma durable_window:
  assumes "sane (durable e) asset quote" "stored (durable e) asset quote window = Some st"
    "LadderStillLive st (ladderGrace w) now"
  shows "fst (loadDurableWindowLadder w s now asset quote window e) = (st, True)"
proof -
  obtain ls unowned found where l: "LoadWindowLadders s (durable e) asset quote = Some (ls, unowned, found)"
    "stored (durable e) asset quote window = (if found then map_of ls window else None)"
    using load [OF assms(1)] by blast
  then have "found" "map_of ls window = Some st" using assms(2) by (simp_all split: if_splits)
  then show ?thesis using l(1) assms(3) by (simp add: loadDurableWindowLadder_def)
qed

text \<open>A window whose ladder is stored finds it again when Redis has lost the marker.\<close>

lemma rehydrates:
  assumes "windowLadder w = Some s" "plan e = []" "0 < window" "sane (durable e) asset quote"
    "stored (durable e) asset quote window = Some st" "LadderStillLive st (ladderGrace w) now"
  shows "fst (LoadStateForWindow w now asset quote window (flush e)) = Inr (st, True)"
proof -
  have "fst (loadDurableWindowLadder w s now asset quote window (flush e)) = (st, True)"
    using durable_window [of "flush e"] assms(4-6) by simp
  then show ?thesis
    using assms(1-3) by (simp add: LoadStateForWindow_def loadState_def redis_ok live_doc_def Let_def case_prod_beta)
qed

lemma mirror_saves:
  assumes "windowLadder w = Some s" "ready (durable e) asset quote" "whole window" "fits st"
  shows "ready (durable (mirror_ladder w asset quote window st e)) asset quote \<and>
    stored (durable (mirror_ladder w asset quote window st e)) asset quote =
      (stored (durable e) asset quote)(window := mirrored st)"
  using save [OF assms(2-4)] whole_pos [OF assms(3)] assms(1)
  by (auto simp: mirror_ladder_def saveWindowLadder_def Let_def)

end

locale durable_freezes = window_store +
  fixes sk :: "'a EventSink"
  assumes record_ok: "sane d asset quote \<Longrightarrow> RecordFreeze sk d asset quote v dec = (False, d') \<Longrightarrow>
      ready d' asset quote \<and> stored d' asset quote = stored d asset quote"
    and record_err: "RecordFreeze sk d asset quote v dec = (True, d') \<Longrightarrow> d' = d"
begin

lemma recordFreeze_ready:
  assumes "sane (durable e) asset quote" "counters (recordFreeze sk asset quote v dec e) = counters e"
  shows "ready (durable (recordFreeze sk asset quote v dec e)) asset quote \<and>
    stored (durable (recordFreeze sk asset quote v dec e)) asset quote = stored (durable e) asset quote"
proof -
  obtain err d where r: "RecordFreeze sk (durable e) asset quote v dec = (err, d)" by fastforce
  have "\<not> err"
  proof
    assume err
    then have "d = durable e" "RecordFreeze sk (durable e) asset quote v dec = (True, durable e)"
      using r record_err by auto
    then show False using assms(2) by (simp add: recordFreeze_def metric_inc_def Let_def split: if_splits)
  qed
  then show ?thesis using record_ok [OF assms(1)] r by (simp add: recordFreeze_def Let_def)
qed

text \<open>A mark that counted no failure has mirrored the window's ladder and left the others.\<close>

lemma mark_mirrors:
  assumes w: "windowLadder w = Some s" "sink w = Some sk"
    and "sane (durable e) asset quote" "whole window" "fits state"
    and m: "markHold w now asset quote window v dec state t e = (None, e')" "counters e' = counters e"
  shows "ready (durable e') asset quote \<and>
    stored (durable e') asset quote = (stored (durable e) asset quote)(window := mirrored state)"
proof -
  obtain r e1 where r: "readMarker now (Freeze asset quote) e = (r, e1)" by fastforce
  have e1: "durable e1 = durable e" "counters e1 = counters e"
    using r by (auto simp: readMarker_def cache_Get_def next_fault_def Let_def split: list.splits option.splits if_splits prod.splits)
  define mk where "mk = mark_body w now asset quote window dec state (durable e1) (case r of Inl _ \<Rightarrow> None | Inr m \<Rightarrow> m)"
  note unfold = markHold_unfold [OF r, where w = w and window = window and dec = dec and state = state and v = v and t = t,
      folded mk_def]
  then obtain b where b: "marshalMarker mk = Some b" using m(1) by (cases "marshalMarker mk") auto
  define T where "T = mark_ttl w now window t mk"
  have u: "markHold w now asset quote window v dec state t e =
      (let (err, e2) = cache_Set now (Freeze asset quote) b T e1 in
       if err then (Some (CacheSet (Freeze asset quote)), e2)
       else (None, mirror_ladder w asset quote window state (recordFreeze sk asset quote v dec e2)))"
    unfolding unfold b option.case w(2) T_def ..
  obtain err e2 where s: "cache_Set now (Freeze asset quote) b T e1 = (err, e2)" by fastforce
  have e2: "durable e2 = durable e" "counters e2 = counters e" using s e1
    by (auto simp: cache_Set_def cache_effect_def next_fault_def Let_def split: list.splits prod.splits if_splits)
  have e': "e' = mirror_ladder w asset quote window state (recordFreeze sk asset quote v dec e2)"
    using u m(1) s by (simp add: Let_def split: if_splits)
  have "length (counters (recordFreeze sk asset quote v dec e2)) \<le> length (counters e')"
    using e' w by (simp add: mirror_ladder_def saveWindowLadder_def saveLadder_def metric_inc_def Let_def split: prod.splits)
  then have "counters (recordFreeze sk asset quote v dec e2) = counters e2"
    using m(2) e2(2) by (auto simp: recordFreeze_def metric_inc_def Let_def split: prod.splits if_splits)
  then show ?thesis
    using recordFreeze_ready [of e2 asset quote v dec] mirror_saves [OF w(1) _ assms(4,5)] assms(3) e2(1) e' by simp
qed

text \<open>So after the loss of Redis the marked window, and every window mirrored before it, comes back with its
  own ladder for as long as that ladder is live.\<close>

lemma flush_survives:
  assumes "windowLadder w = Some s" "sink w = Some sk" "sane (durable e) asset quote" "whole window" "fits state"
    "markHold w now asset quote window v dec state t e = (None, e')" "counters e' = counters e" "plan e' = []"
    and other: "0 < other" "((stored (durable e) asset quote)(window := mirrored state)) other = Some st"
      "LadderStillLive st (ladderGrace w) later"
  shows "fst (LoadStateForWindow w later asset quote other (flush e')) = Inr (st, True)"
  using mark_mirrors [OF assms(1-7)] rehydrates [OF assms(1,8) other(1) _ _ other(3)] other(2) ready_sane by simp

end

end
