(* ===== verification/FreezeEvents.thy ===== *)
theory FreezeEvents
  imports FreezeStore
begin

text \<open>
  The durable record of freezes (internal/storage/timescale/freeze_events.go): the table \<open>freeze_events\<close>
  with one row per freeze, of which at most one per pair is open, and on the open row the ladder of the
  pair and of every window.

  \<open>fdb\<close> is the table with what the sink reads beside it: its clock, the latest ledger, the column
  precision of a \<open>timestamptz\<close> (a parameter, within a microsecond of the value), which strings the
  database casts to NUMERIC, and whether it answers at all; a statement or transaction that fails changes
  nothing. \<open>ORDER BY frozen_at DESC LIMIT 1\<close> is \<open>newest\<close>. The advisory lock makes each operation one
  step.
\<close>

section \<open>The table\<close>

datatype ladders_json = JNull | JMap "(string \<times> State) list" | JBad

record frow =
  fe_asset_id :: string
  fe_quote_id :: string
  fe_frozen_at :: gotime
  fe_frozen_at_ledger :: int
  fe_reason :: string
  fe_frozen_value :: string
  fe_detail :: "Decision option"
  fe_recovered_at :: "gotime option"
  fe_recovered_at_ledger :: "int option"
  fe_released_by :: "string option"
  fe_hold_until :: "gotime option"
  fe_extensions_used :: "int option"
  fe_escalated :: "bool option"
  fe_corroborated :: "bool option"
  fe_window_ladders :: "ladders_json option"

record fdb =
  frows :: "frow list"
  down :: bool
  stamp :: "gotime \<Rightarrow> gotime"
  numeric :: "string \<Rightarrow> bool"
  clockNow :: gotime
  ledgerNow :: int

definition open_row :: "Asset \<Rightarrow> Asset \<Rightarrow> frow \<Rightarrow> bool" where
  "open_row asset quote r =
     (fe_asset_id r = Asset_String asset \<and> fe_quote_id r = Asset_String quote \<and> fe_recovered_at r = None)"

fun newest :: "frow list \<Rightarrow> frow option" where
  "newest [] = None"
| "newest (r # rs) =
     (case newest rs of None \<Rightarrow> Some r | Some s \<Rightarrow> Some (if fe_frozen_at s \<le> fe_frozen_at r then r else s))"

text \<open>UPDATE of the open rows of a pair, and whether it matched any.\<close>

definition update_open :: "Asset \<Rightarrow> Asset \<Rightarrow> (frow \<Rightarrow> frow) \<Rightarrow> fdb \<Rightarrow> bool \<times> fdb" where
  "update_open asset quote f db =
     (list_ex (open_row asset quote) (frows db),
      db\<lparr>frows := map (\<lambda>r. if open_row asset quote r then f r else r) (frows db)\<rparr>)"

section \<open>Opening a row\<close>

definition encodeFreezeDetail :: "Decision \<Rightarrow> unit + Decision option" where
  "encodeFreezeDetail dec =
     (if DReason dec = [] \<and> f64_eq (DDeviationPct dec) (FFin 0) \<and> DClass dec = [] then Inr None
      else if SetFloat64 (DDeviationPct dec) = None then Inl () else Inr (Some dec))"

definition mapFreezeReason :: "Decision \<Rightarrow> string" where
  "mapFreezeReason dec =
     (if 7 < length (DReason dec) \<and> take 7 (DReason dec) = ''phase2:'' then ''divergence''
      else if DAction dec = ''freeze'' then ''outlier_storm'' else ''other'')"

text \<open>The error, whether a row was inserted (which runs the hook), and the table.\<close>

definition record_freeze :: "fdb \<Rightarrow> Asset \<Rightarrow> Asset \<Rightarrow> string \<Rightarrow> Decision \<Rightarrow> bool \<times> bool \<times> fdb" where
  "record_freeze db asset quote frozenValue dec =
     (let frozenValueArg = (if frozenValue = [] then ''0'' else frozenValue) in
      case encodeFreezeDetail dec of
        Inl _ \<Rightarrow> (True, False, db)
      | Inr d \<Rightarrow>
          if down db \<or> \<not> numeric db frozenValueArg then (True, False, db)
          else if list_ex (open_row asset quote) (frows db) \<or>
                  list_ex (\<lambda>r. fe_asset_id r = Asset_String asset \<and> fe_quote_id r = Asset_String quote \<and>
                             fe_frozen_at r = stamp db (clockNow db)) (frows db)
          then (False, False, db)
          else (False, True, db\<lparr>frows := frows db @
                 [\<lparr>fe_asset_id = Asset_String asset, fe_quote_id = Asset_String quote,
                   fe_frozen_at = stamp db (clockNow db), fe_frozen_at_ledger = ledgerNow db,
                   fe_reason = mapFreezeReason dec, fe_frozen_value = frozenValueArg, fe_detail = d,
                   fe_recovered_at = None, fe_recovered_at_ledger = None, fe_released_by = None,
                   fe_hold_until = None, fe_extensions_used = None, fe_escalated = None, fe_corroborated = None,
                   fe_window_ladders = None\<rparr>]\<rparr>))"

definition sink_RecordFreeze :: "fdb \<Rightarrow> Asset \<Rightarrow> Asset \<Rightarrow> string \<Rightarrow> Decision \<Rightarrow> bool \<times> fdb" where
  "sink_RecordFreeze db asset quote v dec = (case record_freeze db asset quote v dec of (err, inserted, db') \<Rightarrow> (err, db'))"

section \<open>The ladder of a pair\<close>

text \<open>An UPDATE that sets \<open>hold_until\<close>: NULL keeps the other ladder columns as history.\<close>

definition set_ladder :: "gotime option \<Rightarrow> State \<Rightarrow> frow \<Rightarrow> frow" where
  "set_ladder hold st r =
     r\<lparr>fe_hold_until := hold,
       fe_extensions_used := (if hold = None then fe_extensions_used r else Some (ExtensionsUsed st)),
       fe_escalated := (if hold = None then fe_escalated r else Some (Escalated st)),
       fe_corroborated := (if hold = None then fe_corroborated r else Some (Corroborated st))\<rparr>"

definition hold_column :: "fdb \<Rightarrow> State \<Rightarrow> gotime option" where
  "hold_column db st = (if \<not> time_IsZero (HoldUntil st) then Some (stamp db (HoldUntil st)) else None)"

definition sink_SaveLadder :: "fdb \<Rightarrow> Asset \<Rightarrow> Asset \<Rightarrow> State \<Rightarrow> bool \<times> fdb" where
  "sink_SaveLadder db asset quote st =
     (let hold = hold_column db st in
      if down db then (True, db)
      else let (found, db') = update_open asset quote
                 (\<lambda>r. (set_ladder hold st r)\<lparr>fe_window_ladders := (if hold = None then None else fe_window_ladders r)\<rparr>) db
           in (\<not> found, db'))"

definition row_ladder :: "frow \<Rightarrow> gotime \<Rightarrow> State" where
  "row_ladder r hold =
     zeroState\<lparr>FiredAt := fe_frozen_at r, HoldUntil := hold,
       ExtensionsUsed := case_option 0 (\<lambda>x. x) (fe_extensions_used r),
       Escalated := case_option False (\<lambda>x. x) (fe_escalated r),
       Corroborated := case_option False (\<lambda>x. x) (fe_corroborated r)\<rparr>"

definition sink_LoadLadder :: "fdb \<Rightarrow> Asset \<Rightarrow> Asset \<Rightarrow> (State \<times> bool) option" where
  "sink_LoadLadder db asset quote =
     (if down db then None
      else case newest (filter (\<lambda>r. open_row asset quote r \<and> fe_hold_until r \<noteq> None) (frows db)) of
             None \<Rightarrow> Some (zeroState, False)
           | Some r \<Rightarrow> Some (row_ladder r (the (fe_hold_until r)), True))"

section \<open>The ladders of the windows\<close>

definition unownedLadderKey :: string where
  "unownedLadderKey = ''0''"

record openLadderRow =
  olr_pair :: State
  olr_windows :: "(string \<times> State) list option"

definition loadOpenLadderRow :: "fdb \<Rightarrow> Asset \<Rightarrow> Asset \<Rightarrow> openLadderRow option option" where
  "loadOpenLadderRow db asset quote =
     (if down db then None
      else case newest (filter (open_row asset quote) (frows db)) of
             None \<Rightarrow> Some None
           | Some r \<Rightarrow>
               let p = (case fe_hold_until r of Some h \<Rightarrow> row_ladder r h | None \<Rightarrow> zeroState) in
               (case fe_window_ladders r of
                  None \<Rightarrow> Some (Some \<lparr>olr_pair = p, olr_windows = None\<rparr>)
                | Some JBad \<Rightarrow> None
                | Some JNull \<Rightarrow> Some (Some \<lparr>olr_pair = p, olr_windows = Some []\<rparr>)
                | Some (JMap ws) \<Rightarrow> Some (Some \<lparr>olr_pair = p, olr_windows = Some ws\<rparr>)))"

definition summarise_step :: "State \<Rightarrow> State \<Rightarrow> State" where
  "summarise_step out st =
     (if \<not> Active st then out
      else out\<lparr>FiredAt := (if time_IsZero (FiredAt out) \<or> FiredAt st < FiredAt out then FiredAt st else FiredAt out),
               HoldUntil := (if HoldUntil out < HoldUntil st then HoldUntil st else HoldUntil out),
               ExtensionsUsed := (if ExtensionsUsed out < ExtensionsUsed st then ExtensionsUsed st else ExtensionsUsed out),
               Escalated := Escalated out \<or> Escalated st,
               Corroborated := Corroborated out \<or> Corroborated st\<rparr>)"

definition summariseLadders :: "(string \<times> State) list \<Rightarrow> State" where
  "summariseLadders es = foldl summarise_step zeroState (map snd es)"

definition pairLadderAhead :: "State \<Rightarrow> State \<Rightarrow> bool" where
  "pairLadderAhead p summary =
     (if Escalated p \<and> \<not> Escalated summary then True
      else if ExtensionsUsed summary < ExtensionsUsed p then True
      else 1000 < time_Sub (HoldUntil p) (HoldUntil summary))"

definition foldPairLadderInto :: "(string \<times> State) list \<Rightarrow> State \<Rightarrow> (string \<times> State) list" where
  "foldPairLadderInto es p =
     (let es = map (\<lambda>(k, st). (k, if Active st then summariseLadders [(''entry'', st), (''pair'', p)] else st)) es
      in if map_of es unownedLadderKey = None then AList.update unownedLadderKey p es else es)"

definition olr_entries :: "openLadderRow \<Rightarrow> (string \<times> State) list" where
  "olr_entries r =
     (if \<not> Active (olr_pair r) then []
      else case olr_windows r of
             None \<Rightarrow> [(unownedLadderKey, olr_pair r)]
           | Some ws \<Rightarrow>
               if pairLadderAhead (olr_pair r) (summariseLadders ws) then foldPairLadderInto ws (olr_pair r) else ws)"

definition windowLadderKey :: "duration \<Rightarrow> string" where
  "windowLadderKey window = int_String (go_quo window go_second)"

definition writeWindowLadders :: "fdb \<Rightarrow> Asset \<Rightarrow> Asset \<Rightarrow> (string \<times> State) list \<Rightarrow> bool \<times> fdb" where
  "writeWindowLadders db asset quote es =
     (if \<not> list_all (\<lambda>(k, st). json_State st) es then (True, db)
      else let summary = summariseLadders es;
               hold = hold_column db summary;
               (_, db') = update_open asset quote (\<lambda>r. (set_ladder hold summary r)\<lparr>fe_window_ladders := Some (JMap es)\<rparr>) db
           in (False, db'))"

definition sink_SaveWindowLadder :: "fdb \<Rightarrow> Asset \<Rightarrow> Asset \<Rightarrow> duration \<Rightarrow> State \<Rightarrow> bool \<times> fdb" where
  "sink_SaveWindowLadder db asset quote window state =
     (if window < go_second then (True, db)
      else case loadOpenLadderRow db asset quote of
             None \<Rightarrow> (True, db)
           | Some None \<Rightarrow> (True, db)
           | Some (Some row) \<Rightarrow>
               let es = olr_entries row;
                   es = (if Active state then AList.update (windowLadderKey window) state es
                         else AList.delete (windowLadderKey window) es)
               in writeWindowLadders db asset quote es)"

text \<open>\<open>strconv.ParseInt(key, 10, 64)\<close>.\<close>

definition ParseInt64 :: "string \<Rightarrow> int option" where
  "ParseInt64 s = (case SetString10 s of Some i \<Rightarrow> if min_int64 \<le> i \<and> i \<le> max_int64 then Some i else None | None \<Rightarrow> None)"

definition window_entry :: "(duration \<times> State) list \<times> State \<Rightarrow> string \<times> State \<Rightarrow> (duration \<times> State) list \<times> State" where
  "window_entry acc x =
     (case x of (key, st) \<Rightarrow>
        if key = unownedLadderKey then (fst acc, st)
        else case ParseInt64 key of
               None \<Rightarrow> acc
             | Some secs \<Rightarrow> if secs \<le> 0 then acc else (AList.update (wrap64 (secs * go_second)) st (fst acc), snd acc))"

definition sink_LoadWindowLadders :: "fdb \<Rightarrow> Asset \<Rightarrow> Asset \<Rightarrow> ((duration \<times> State) list \<times> State \<times> bool) option" where
  "sink_LoadWindowLadders db asset quote =
     (case loadOpenLadderRow db asset quote of
        None \<Rightarrow> None
      | Some None \<Rightarrow> Some ([], zeroState, False)
      | Some (Some row) \<Rightarrow>
          if \<not> Active (olr_pair row) then Some ([], zeroState, False)
          else let (ladders, unowned) = foldl window_entry ([], zeroState) (olr_entries row) in Some (ladders, unowned, True))"

section \<open>Closing and listing\<close>

definition validReleasedBy :: "string \<Rightarrow> bool" where
  "validReleasedBy v =
     (case CutPrefix v ''operator:'' of
        Some rest \<Rightarrow> TrimSpace rest \<noteq> []
      | None \<Rightarrow> (case CutPrefix v ''system:'' of Some rest \<Rightarrow> TrimSpace rest \<noteq> [] | None \<Rightarrow> False))"

text \<open>The table's CHECK refuses a recovery ledger before the freeze's.\<close>

definition sink_MarkRecovered :: "fdb \<Rightarrow> Asset \<Rightarrow> Asset \<Rightarrow> string \<Rightarrow> bool \<times> fdb" where
  "sink_MarkRecovered db asset quote releasedBy =
     (if \<not> validReleasedBy releasedBy then (True, db)
      else if down db \<or> list_ex (\<lambda>r. open_row asset quote r \<and> ledgerNow db < fe_frozen_at_ledger r) (frows db) then (True, db)
      else let (found, db') = update_open asset quote
                 (\<lambda>r. r\<lparr>fe_recovered_at := Some (stamp db (clockNow db)), fe_recovered_at_ledger := Some (ledgerNow db),
                       fe_released_by := Some releasedBy\<rparr>) db
           in (\<not> found, db'))"

fun parse_pairs :: "sdk \<Rightarrow> frow list \<Rightarrow> (Asset \<times> Asset) list option" where
  "parse_pairs k [] = Some []"
| "parse_pairs k (r # rs) =
     (case (ParseAsset k (fe_asset_id r), ParseAsset k (fe_quote_id r)) of
        (Inr a, Inr q) \<Rightarrow> map_option (\<lambda>ps. (a, q) # ps) (parse_pairs k rs)
      | _ \<Rightarrow> None)"

definition sink_ListOpen :: "sdk \<Rightarrow> fdb \<Rightarrow> (Asset \<times> Asset) list option" where
  "sink_ListOpen k db = (if down db then None else parse_pairs k (filter (\<lambda>r. fe_recovered_at r = None) (frows db)))"

definition ListFreezeEvents :: "fdb \<Rightarrow> bool \<Rightarrow> int \<Rightarrow> frow list option" where
  "ListFreezeEvents db firingOnly n =
     (let n = (if n \<le> 0 \<or> 500 < n then 100 else n) in
      if down db then None
      else Some (take (nat n) (rev (sort_key fe_frozen_at
             (filter (\<lambda>r. firingOnly \<longrightarrow> fe_recovered_at r = None) (frows db))))))"

definition CountFiringFreezes :: "fdb \<Rightarrow> int option" where
  "CountFiringFreezes db =
     (if down db then None else Some (int (length (filter (\<lambda>r. fe_recovered_at r = None) (frows db)))))"

text \<open>The sink as the stores the freeze writer takes.\<close>

definition freeze_sink :: "fdb EventSink" where
  "freeze_sink = \<lparr>RecordFreeze = sink_RecordFreeze\<rparr>"

definition ladder_store :: "fdb LadderStore" where
  "ladder_store = \<lparr>SaveLadder = sink_SaveLadder, LoadLadder = sink_LoadLadder\<rparr>"

definition window_ladder_store :: "fdb WindowLadderStore" where
  "window_ladder_store = \<lparr>SaveWindowLadder = sink_SaveWindowLadder, LoadWindowLadders = sink_LoadWindowLadders\<rparr>"


section \<open>A well-formed record\<close>

definition whole_window :: "duration \<Rightarrow> bool" where
  "whole_window window = (0 < window \<and> window mod go_second = 0 \<and> window \<le> max_int64)"

definition storable :: "State \<Rightarrow> bool" where
  "storable st = (json_State st \<and> (Active st \<longrightarrow> 0 < HoldUntil st))"

definition key_ok :: "string \<Rightarrow> bool" where
  "key_ok k = (k = unownedLadderKey \<or>
     (case ParseInt64 k of Some secs \<Rightarrow> 0 < secs \<and> secs * go_second \<le> max_int64 \<and> k = int_String secs | None \<Rightarrow> False))"

definition good_entries :: "(string \<times> State) list \<Rightarrow> bool" where
  "good_entries es = (distinct (map fst es) \<and> list_all (\<lambda>(k, st). key_ok k \<and> Active st \<and> storable st) es)"

text \<open>The ladder columns of a row are the summary of its windows' ladders.\<close>

definition row_good :: "fdb \<Rightarrow> frow \<Rightarrow> bool" where
  "row_good db r =
     (fe_frozen_at r \<noteq> 0 \<and>
      (case fe_window_ladders r of
         None \<Rightarrow> (case fe_hold_until r of None \<Rightarrow> True | Some h \<Rightarrow> storable (row_ladder r h))
       | Some (JMap es) \<Rightarrow>
           good_entries es \<and>
           (if es = [] then fe_hold_until r = None
            else fe_hold_until r = Some (stamp db (HoldUntil (summariseLadders es))) \<and>
                 fe_extensions_used r = Some (ExtensionsUsed (summariseLadders es)) \<and>
                 fe_escalated r = Some (Escalated (summariseLadders es)))
       | _ \<Rightarrow> False))"

definition stamp_ok :: "fdb \<Rightarrow> bool" where
  "stamp_ok db = (\<forall>t. \<bar>stamp db t - t\<bar> \<le> 1000)"

definition record_ready :: "fdb \<Rightarrow> Asset \<Rightarrow> Asset \<Rightarrow> bool" where
  "record_ready db asset quote =
     (\<not> down db \<and> stamp_ok db \<and> (\<exists>r. filter (open_row asset quote) (frows db) = [r] \<and> row_good db r))"

text \<open>No open row, and the next one would be new.\<close>

definition record_clear :: "fdb \<Rightarrow> Asset \<Rightarrow> Asset \<Rightarrow> bool" where
  "record_clear db asset quote =
     (\<not> down db \<and> stamp_ok db \<and> stamp db (clockNow db) \<noteq> 0 \<and>
      list_all (\<lambda>r. \<not> (fe_asset_id r = Asset_String asset \<and> fe_quote_id r = Asset_String quote \<and>
        (fe_recovered_at r = None \<or> fe_frozen_at r = stamp db (clockNow db)))) (frows db))"

definition record_sane :: "fdb \<Rightarrow> Asset \<Rightarrow> Asset \<Rightarrow> bool" where
  "record_sane db asset quote = (record_ready db asset quote \<or> record_clear db asset quote)"

definition stored_ladder :: "fdb \<Rightarrow> Asset \<Rightarrow> Asset \<Rightarrow> duration \<Rightarrow> State option" where
  "stored_ladder db asset quote window =
     (case sink_LoadWindowLadders db asset quote of
        Some (ls, unowned, found) \<Rightarrow> if found then map_of ls window else None
      | None \<Rightarrow> None)"

section \<open>Lemmas on keys and summaries\<close>

lemma ParseInt64_int_String: "min_int64 \<le> i \<Longrightarrow> i \<le> max_int64 \<Longrightarrow> ParseInt64 (int_String i) = Some i"
  by (simp add: ParseInt64_def SetString10_int_String)

lemma unownedLadderKey_eq: "unownedLadderKey = int_String 0"
  by code_simp

lemma windowLadderKey_whole:
  assumes "whole_window window"
  obtains secs where "window = secs * go_second" "0 < secs" "secs * go_second \<le> max_int64" "windowLadderKey window = int_String secs"
proof
  have "0 < window" "window mod go_second = 0" "window \<le> max_int64" using assms by (simp_all add: whole_window_def)
  moreover have g: "0 < go_second" by (simp add: go_second_def)
  ultimately show "window = window div go_second * go_second" "window div go_second * go_second \<le> max_int64"
    using div_mult_mod_eq [of window go_second] by simp_all
  then show "0 < window div go_second" using \<open>0 < window\<close> g by (metis mult_pos_pos zero_less_mult_pos2)
  show "windowLadderKey window = int_String (window div go_second)"
    using \<open>0 < window\<close> g by (simp add: windowLadderKey_def go_quo_nonneg)
qed

lemma key_ok_int_String: "0 < secs \<Longrightarrow> secs * go_second \<le> max_int64 \<Longrightarrow> key_ok (int_String secs)"
proof -
  assume s: "0 < secs" "secs * go_second \<le> max_int64"
  then have "min_int64 \<le> secs" "secs \<le> max_int64" by (simp_all add: go_second_def min_int64_def max_int64_def)
  then show ?thesis using s by (simp add: key_ok_def ParseInt64_int_String)
qed

lemma key_ok_cases:
  assumes "key_ok k"
  obtains "k = unownedLadderKey"
  | secs where "0 < secs" "secs * go_second \<le> max_int64" "k = int_String secs" "ParseInt64 k = Some secs" "k \<noteq> unownedLadderKey"
  using assms unfolding key_ok_def by (auto simp: unownedLadderKey_eq int_String_inject split: option.splits)

lemma whole_window_secs: "0 < secs \<Longrightarrow> secs * go_second \<le> max_int64 \<Longrightarrow> whole_window (secs * go_second)"
  by (simp add: whole_window_def go_second_def)

lemma windowLadderKey_secs: "0 < secs \<Longrightarrow> windowLadderKey (secs * go_second) = int_String secs"
  by (simp add: windowLadderKey_def go_quo_nonneg go_second_def)

text \<open>What one entry of the JSON map adds to the windows.\<close>

lemma window_entry_view:
  assumes "key_ok k"
  shows "map_of (fst (window_entry acc (k, st))) window =
    (if whole_window window \<and> windowLadderKey window = k then Some st else map_of (fst acc) window)"
  using assms
proof (cases rule: key_ok_cases)
  case 1
  then have "\<not> (whole_window window \<and> windowLadderKey window = k)"
    by (metis windowLadderKey_whole unownedLadderKey_eq int_String_inject less_irrefl)
  then show ?thesis using 1 by (auto simp: window_entry_def)
next
  case (2 secs)
  have w: "wrap64 (secs * go_second) = secs * go_second"
    using 2 by (intro wrap64_id) (simp_all add: go_second_def min_int64_def)
  have "whole_window window \<and> windowLadderKey window = k \<longleftrightarrow> window = secs * go_second"
    using 2 whole_window_secs windowLadderKey_secs windowLadderKey_whole int_String_inject by metis
  then show ?thesis using 2 w by (auto simp: window_entry_def update_conv')
qed

lemma window_entries_view:
  assumes "distinct (map fst es)" "list_all (\<lambda>(k, st). key_ok k) es"
  shows "map_of (fst (foldl window_entry ([], z) es)) window =
    (if whole_window window then map_of es (windowLadderKey window) else None)"
  using assms
proof (induction es rule: rev_induct)
  case (snoc x es)
  obtain k st where x: "x = (k, st)" by (cases x)
  have "map_of es k = None" using snoc.prems(1) x by (auto simp: map_of_eq_None_iff)
  then show ?case using snoc window_entry_view [of k "foldl window_entry ([], z) es" st window]
    by (auto simp: x map_add_def split: option.splits)
qed simp

lemma summarise_step_ge:
  "HoldUntil out \<le> HoldUntil (summarise_step out st)" "ExtensionsUsed out \<le> ExtensionsUsed (summarise_step out st)"
  "Escalated out \<Longrightarrow> Escalated (summarise_step out st)"
  "Active st \<Longrightarrow> HoldUntil st \<le> HoldUntil (summarise_step out st) \<and>
     ExtensionsUsed st \<le> ExtensionsUsed (summarise_step out st) \<and> (Escalated st \<longrightarrow> Escalated (summarise_step out st))"
  by (auto simp: summarise_step_def)

lemma summarise_fold_ge:
  "HoldUntil out \<le> HoldUntil (foldl summarise_step out sts) \<and>
   ExtensionsUsed out \<le> ExtensionsUsed (foldl summarise_step out sts) \<and>
   (Escalated out \<longrightarrow> Escalated (foldl summarise_step out sts))"
proof (induction sts arbitrary: out)
  case (Cons st sts)
  show ?case using Cons.IH [of "summarise_step out st"] summarise_step_ge [of out st] by auto
qed simp

lemma summarise_fold_covers:
  "st \<in> set sts \<Longrightarrow> Active st \<Longrightarrow>
   HoldUntil st \<le> HoldUntil (foldl summarise_step out sts) \<and>
   ExtensionsUsed st \<le> ExtensionsUsed (foldl summarise_step out sts) \<and>
   (Escalated st \<longrightarrow> Escalated (foldl summarise_step out sts))"
proof (induction sts arbitrary: out)
  case (Cons st' sts)
  show ?case
  proof (cases "st = st'")
    case True
    then show ?thesis
      using summarise_step_ge(4) [OF Cons.prems(2), of out] summarise_fold_ge [of "summarise_step out st" sts] by auto
  next
    case False
    then show ?thesis using Cons by simp
  qed
qed simp

lemma summariseLadders_covers:
  "(k, st) \<in> set es \<Longrightarrow> Active st \<Longrightarrow>
   HoldUntil st \<le> HoldUntil (summariseLadders es) \<and> ExtensionsUsed st \<le> ExtensionsUsed (summariseLadders es) \<and>
   (Escalated st \<longrightarrow> Escalated (summariseLadders es))"
  unfolding summariseLadders_def by (rule summarise_fold_covers) force+

lemma summariseLadders_hold: "good_entries es \<Longrightarrow> es \<noteq> [] \<Longrightarrow> 0 < HoldUntil (summariseLadders es)"
proof -
  assume g: "good_entries es" "es \<noteq> []"
  then obtain k st where "(k, st) \<in> set es" "Active st" "storable st" by (cases es) (auto simp: good_entries_def)
  then show ?thesis using summariseLadders_covers [of k st es] by (simp add: storable_def)
qed

section \<open>Reading and writing a well-formed record\<close>

definition row_entries :: "frow \<Rightarrow> (string \<times> State) list" where
  "row_entries r =
     (case fe_window_ladders r of
        None \<Rightarrow> (case fe_hold_until r of None \<Rightarrow> [] | Some h \<Rightarrow> [(unownedLadderKey, row_ladder r h)])
      | Some (JMap es) \<Rightarrow> es
      | _ \<Rightarrow> [])"

lemma row_ladder_simps [simp]:
  "FiredAt (row_ladder r h) = fe_frozen_at r" "HoldUntil (row_ladder r h) = h"
  "ExtensionsUsed (row_ladder r h) = case_option 0 (\<lambda>x. x) (fe_extensions_used r)"
  "Escalated (row_ladder r h) = case_option False (\<lambda>x. x) (fe_escalated r)"
  "Active (row_ladder r h) \<longleftrightarrow> fe_frozen_at r \<noteq> 0"
  by (simp_all add: row_ladder_def Active_def time_IsZero_def)

text \<open>The precision of the column never makes the pair's ladder look ahead of its windows'.\<close>

lemma not_ahead:
  assumes "stamp_ok db" "fe_extensions_used r = Some (ExtensionsUsed s)" "fe_escalated r = Some (Escalated s)"
  shows "\<not> pairLadderAhead (row_ladder r (stamp db (HoldUntil s))) s"
proof -
  have "\<bar>stamp db (HoldUntil s) - HoldUntil s\<bar> \<le> 1000" using assms(1) by (simp add: stamp_ok_def)
  then have "time_Sub (stamp db (HoldUntil s)) (HoldUntil s) \<le> 1000"
    by (simp add: time_Sub_def min_int64_def max_int64_def)
  then show ?thesis using assms(2,3) by (simp add: pairLadderAhead_def)
qed

lemma row_good_read:
  assumes "\<not> down db" "stamp_ok db" "filter (open_row asset quote) (frows db) = [r]" "row_good db r"
  shows "\<exists>x. loadOpenLadderRow db asset quote = Some (Some x) \<and> olr_entries x = row_entries r \<and>
    (Active (olr_pair x) \<longleftrightarrow> row_entries r \<noteq> [])"
proof (cases "fe_window_ladders r")
  case None
  then show ?thesis
    using assms by (cases "fe_hold_until r") (simp_all add: loadOpenLadderRow_def row_good_def olr_entries_def row_entries_def)
next
  case (Some j)
  then obtain es where j: "j = JMap es" using assms(4) by (cases j) (auto simp: row_good_def)
  show ?thesis
  proof (cases "es = []")
    case True
    then show ?thesis
      using assms Some j by (simp add: loadOpenLadderRow_def row_good_def olr_entries_def row_entries_def)
  next
    case False
    then have "\<not> pairLadderAhead (row_ladder r (stamp db (HoldUntil (summariseLadders es)))) (summariseLadders es)"
      using assms(2,4) Some j by (intro not_ahead) (simp_all add: row_good_def)
    then show ?thesis
      using assms Some j False by (simp add: loadOpenLadderRow_def row_good_def olr_entries_def row_entries_def)
  qed
qed

lemma key_ok_unowned [simp]: "key_ok unownedLadderKey"
  by (simp add: key_ok_def)

lemma row_entries_good: "row_good db r \<Longrightarrow> good_entries (row_entries r)"
  by (auto simp: row_good_def row_entries_def good_entries_def split: option.splits ladders_json.splits)

lemma good_entries_update:
  assumes "good_entries es" "whole_window window" "storable st"
  shows "good_entries (if Active st then AList.update (windowLadderKey window) st es else AList.delete (windowLadderKey window) es)"
proof -
  obtain secs where "0 < secs" "secs * go_second \<le> max_int64" "windowLadderKey window = int_String secs"
    using windowLadderKey_whole [OF assms(2)] by metis
  then have k: "key_ok (windowLadderKey window)" by (simp add: key_ok_int_String)
  show ?thesis
  proof (cases "Active st")
    case True
    have "set (AList.update (windowLadderKey window) st es) \<subseteq> insert (windowLadderKey window, st) (set es)"
      by (induction es) auto
    then show ?thesis using True assms(1,3) k distinct_update [of es "windowLadderKey window" st]
      by (fastforce simp: good_entries_def list_all_iff)
  next
    case False
    then show ?thesis using assms(1)
      by (auto simp: good_entries_def list_all_iff distinct_filter_labels AList.delete_eq)
  qed
qed


lemma open_row_ladder [simp]:
  "open_row asset quote (set_ladder hold st r) = open_row asset quote r"
  "open_row asset quote (r\<lparr>fe_window_ladders := j\<rparr>) = open_row asset quote r"
  by (simp_all add: open_row_def set_ladder_def)

lemma filter_update_open:
  assumes "\<And>r. open_row asset quote (f r) = open_row asset quote r"
  shows "filter (open_row asset quote) (map (\<lambda>r. if open_row asset quote r then f r else r) rs) =
    map f (filter (open_row asset quote) rs)"
  using assms by (induction rs) auto

lemma row_good_write:
  fixes db :: fdb
  assumes "fe_frozen_at r \<noteq> 0" "good_entries es"
  defines "r' \<equiv> (set_ladder (hold_column db (summariseLadders es)) (summariseLadders es) r)\<lparr>fe_window_ladders := Some (JMap es)\<rparr>"
  shows "row_good db' r' \<longleftrightarrow> stamp db' (HoldUntil (summariseLadders es)) = stamp db (HoldUntil (summariseLadders es)) \<or> es = []"
    "row_entries r' = es"
proof -
  have h: "hold_column db (summariseLadders es) = (if es = [] then None else Some (stamp db (HoldUntil (summariseLadders es))))"
    using summariseLadders_hold [OF assms(2)]
    by (cases es) (auto simp: hold_column_def time_IsZero_def summariseLadders_def [of "[]"] zeroState_def)
  show "row_good db' r' \<longleftrightarrow> stamp db' (HoldUntil (summariseLadders es)) = stamp db (HoldUntil (summariseLadders es)) \<or> es = []"
    using assms(1,2) by (auto simp: r'_def row_good_def set_ladder_def h)
  show "row_entries r' = es" by (simp add: r'_def row_entries_def)
qed

lemma writeWindowLadders_ready:
  assumes "\<not> down db" "stamp_ok db" "filter (open_row asset quote) (frows db) = [r]" "row_good db r" "good_entries es"
  shows "\<exists>db' r'. writeWindowLadders db asset quote es = (False, db') \<and> \<not> down db' \<and> stamp_ok db' \<and>
    filter (open_row asset quote) (frows db') = [r'] \<and> row_good db' r' \<and> row_entries r' = es \<and>
    fe_frozen_at r' = fe_frozen_at r"
proof -
  let ?s = "summariseLadders es"
  let ?f = "\<lambda>r. (set_ladder (hold_column db ?s) ?s r)\<lparr>fe_window_ladders := Some (JMap es)\<rparr>"
  let ?db = "db\<lparr>frows := map (\<lambda>r. if open_row asset quote r then ?f r else r) (frows db)\<rparr>"
  have "list_all (\<lambda>(k, st). json_State st) es"
    using assms(5) by (auto simp: good_entries_def storable_def list_all_iff)
  then have "writeWindowLadders db asset quote es = (False, ?db)"
    by (simp add: writeWindowLadders_def update_open_def Let_def)
  moreover have "filter (open_row asset quote) (frows ?db) = [?f r]"
    using filter_update_open [of asset quote ?f "frows db"] assms(3) by simp
  moreover have "fe_frozen_at r \<noteq> 0" using assms(4) by (simp add: row_good_def)
  then have "row_good ?db (?f r)" "row_entries (?f r) = es" using row_good_write [of r es] assms(5) by simp_all
  moreover have "fe_frozen_at (?f r) = fe_frozen_at r" by (simp add: set_ladder_def)
  ultimately show ?thesis using assms(1,2) by (intro exI [of _ ?db] exI [of _ "?f r"]) (simp add: stamp_ok_def)
qed

lemma stored_ready:
  assumes "\<not> down db" "stamp_ok db" "filter (open_row asset quote) (frows db) = [r]" "row_good db r"
  shows "stored_ladder db asset quote window =
    (if whole_window window then map_of (row_entries r) (windowLadderKey window) else None)"
    "\<exists>ls u found. sink_LoadWindowLadders db asset quote = Some (ls, u, found)"
proof -
  obtain x where x: "loadOpenLadderRow db asset quote = Some (Some x)" "olr_entries x = row_entries r"
    "Active (olr_pair x) \<longleftrightarrow> row_entries r \<noteq> []"
    using row_good_read [OF assms] by blast
  have g: "distinct (map fst (row_entries r))" "list_all (\<lambda>(k, st). key_ok k) (row_entries r)"
    using row_entries_good [OF assms(4)] by (auto simp: good_entries_def list_all_iff)
  have l: "sink_LoadWindowLadders db asset quote =
      (if row_entries r = [] then Some ([], zeroState, False)
       else Some (fst (foldl window_entry ([], zeroState) (row_entries r)),
                  snd (foldl window_entry ([], zeroState) (row_entries r)), True))"
    using x by (simp add: sink_LoadWindowLadders_def case_prod_beta)
  show "stored_ladder db asset quote window =
    (if whole_window window then map_of (row_entries r) (windowLadderKey window) else None)"
    using window_entries_view [OF g, of zeroState window] by (simp add: stored_ladder_def l)
  show "\<exists>ls u found. sink_LoadWindowLadders db asset quote = Some (ls, u, found)" by (auto simp: l)
qed

lemma stored_clear:
  assumes "record_clear db asset quote"
  shows "sink_LoadWindowLadders db asset quote = Some ([], zeroState, False)"
proof -
  have "filter (open_row asset quote) (frows db) = []"
    using assms by (auto simp: record_clear_def filter_empty_conv list_all_iff open_row_def)
  then show ?thesis
    using assms by (simp add: sink_LoadWindowLadders_def loadOpenLadderRow_def record_clear_def)
qed

lemma SaveWindowLadder_ready:
  assumes "record_ready db asset quote" "whole_window window" "storable st"
  shows "\<exists>db'. sink_SaveWindowLadder db asset quote window st = (False, db') \<and> record_ready db' asset quote \<and>
    stored_ladder db' asset quote = (stored_ladder db asset quote)(window := mirrored st)"
proof -
  obtain r where r: "\<not> down db" "stamp_ok db" "filter (open_row asset quote) (frows db) = [r]" "row_good db r"
    using assms(1) by (auto simp: record_ready_def)
  obtain x where x: "loadOpenLadderRow db asset quote = Some (Some x)" "olr_entries x = row_entries r"
    using row_good_read [OF r] by blast
  define es where "es = (if Active st then AList.update (windowLadderKey window) st (row_entries r)
      else AList.delete (windowLadderKey window) (row_entries r))"
  have "good_entries es"
    unfolding es_def by (rule good_entries_update [OF row_entries_good [OF r(4)] assms(2,3)])
  from writeWindowLadders_ready [OF r this] obtain db' r' where
    w: "writeWindowLadders db asset quote es = (False, db')" and
    r': "\<not> down db'" "stamp_ok db'" "filter (open_row asset quote) (frows db') = [r']" "row_good db' r'" and
    es: "row_entries r' = es" by blast
  obtain secs where secs: "window = secs * go_second" "0 < secs" "windowLadderKey window = int_String secs"
    using windowLadderKey_whole [OF assms(2)] by metis
  then have "\<not> window < go_second" by (simp add: go_second_def)
  then have "sink_SaveWindowLadder db asset quote window st = (False, db')"
    using x w by (simp add: sink_SaveWindowLadder_def es_def)
  moreover have "record_ready db' asset quote" using r' by (auto simp: record_ready_def)
  moreover have "stored_ladder db' asset quote = (stored_ladder db asset quote)(window := mirrored st)"
  proof
    fix other
    have "windowLadderKey other = windowLadderKey window \<longleftrightarrow> other = window" if "whole_window other"
      using windowLadderKey_whole [OF that] secs by (metis int_String_inject)
    then show "stored_ladder db' asset quote other = ((stored_ladder db asset quote)(window := mirrored st)) other"
      using stored_ready(1) [OF r] stored_ready(1) [OF r'] assms(2)
      by (auto simp: es es_def update_conv' delete_conv' mirrored_def)
  qed
  ultimately show ?thesis by blast
qed

lemma RecordFreeze_ready:
  assumes "record_sane db asset quote" "sink_RecordFreeze db asset quote v dec = (False, db')"
  shows "record_ready db' asset quote \<and> stored_ladder db' asset quote = stored_ladder db asset quote"
  using assms(1) unfolding record_sane_def
proof
  assume r: "record_ready db asset quote"
  then have "list_ex (open_row asset quote) (frows db)"
    by (auto simp: record_ready_def list_ex_iff filter_eq_Cons_iff)
  then have "db' = db" using assms(2)
    by (auto simp: sink_RecordFreeze_def record_freeze_def Let_def split: sum.splits if_splits)
  then show ?thesis using r by simp
next
  assume c: "record_clear db asset quote"
  then have none: "\<not> list_ex (open_row asset quote) (frows db)" "filter (open_row asset quote) (frows db) = []"
    "\<not> list_ex (\<lambda>r. fe_asset_id r = Asset_String asset \<and> fe_quote_id r = Asset_String quote \<and>
       fe_frozen_at r = stamp db (clockNow db)) (frows db)"
    by (auto simp: record_clear_def list_all_iff list_ex_iff filter_empty_conv open_row_def)
  obtain r where "frows db' = frows db @ [r]" "stamp db' = stamp db" "\<not> down db'" "open_row asset quote r"
    "fe_frozen_at r = stamp db (clockNow db)" "fe_window_ladders r = None" "fe_hold_until r = None"
    using assms(2) none(1,3)
    by (auto simp: sink_RecordFreeze_def record_freeze_def Let_def open_row_def split: sum.splits if_splits)
  then have r: "\<not> down db'" "stamp_ok db'" "filter (open_row asset quote) (frows db') = [r]" "row_good db' r" "row_entries r = []"
    using c none(2) by (auto simp: record_clear_def stamp_ok_def row_good_def row_entries_def)
  then show ?thesis
    using stored_ready(1) [OF r(1-4)] stored_clear [OF c] by (auto simp: record_ready_def fun_eq_iff stored_ladder_def)
qed

lemma RecordFreeze_err: "sink_RecordFreeze db asset quote v dec = (True, db') \<Longrightarrow> db' = db"
  by (auto simp: sink_RecordFreeze_def record_freeze_def Let_def split: sum.splits if_splits)


text \<open>The sink keeps the writer's side of the bargain.\<close>

interpretation freeze_events: durable_freezes window_ladder_store record_sane record_ready whole_window storable stored_ladder
  freeze_sink
proof unfold_locales
  fix db :: fdb and asset quote v dec db' and window :: duration and st :: State
  show "record_sane db asset quote" if "record_ready db asset quote" using that by (simp add: record_sane_def)
  show "\<exists>ls unowned found. LoadWindowLadders window_ladder_store db asset quote = Some (ls, unowned, found) \<and>
      (\<forall>window. stored_ladder db asset quote window = (if found then map_of ls window else None))"
    if s: "record_sane db asset quote"
  proof -
    have "\<exists>ls u found. sink_LoadWindowLadders db asset quote = Some (ls, u, found)"
      using s stored_ready(2) stored_clear unfolding record_sane_def record_ready_def by metis
    then show ?thesis by (auto simp: window_ladder_store_def stored_ladder_def)
  qed
  show "\<exists>d'. SaveWindowLadder window_ladder_store db asset quote window st = (False, d') \<and> record_ready d' asset quote \<and>
      stored_ladder d' asset quote = (stored_ladder db asset quote)(window := mirrored st)"
    if "record_ready db asset quote" "whole_window window" "storable st"
    using SaveWindowLadder_ready [OF that] by (simp add: window_ladder_store_def)
  show "0 < window" if "whole_window window" using that by (simp add: whole_window_def)
  show "record_ready db' asset quote \<and> stored_ladder db' asset quote = stored_ladder db asset quote"
    if "record_sane db asset quote" "RecordFreeze freeze_sink db asset quote v dec = (False, db')"
    using RecordFreeze_ready that by (simp add: freeze_sink_def)
  show "db' = db" if "RecordFreeze freeze_sink db asset quote v dec = (True, db')"
    using RecordFreeze_err that by (simp add: freeze_sink_def)
qed

section \<open>Properties\<close>

definition save_ladder :: "Asset \<Rightarrow> Asset \<Rightarrow> fdb \<Rightarrow> duration \<times> State \<Rightarrow> fdb" where
  "save_ladder asset quote db x = snd (sink_SaveWindowLadder db asset quote (fst x) (snd x))"

definition write_ladder :: "(duration \<Rightarrow> State option) \<Rightarrow> duration \<times> State \<Rightarrow> duration \<Rightarrow> State option" where
  "write_ladder m x = m(fst x := if Active (snd x) then Some (snd x) else None)"

text \<open>
  The open row is a faithful map from windows to ladders. From any well-formed record, after any
  sequence of ladder writes for whole-second windows, reading the windows back gives exactly the last
  ladder written for each window, nothing for a window whose last write retired it, and what was there
  before for the others: no write is lost to the pair-level summary it also updates, nor to the
  microsecond the column keeps.
\<close>

theorem stored_ladders_exact:
  "record_ready db asset quote \<and> list_all (\<lambda>x. whole_window (fst x) \<and> storable (snd x)) writes \<longrightarrow>
   (let db' = foldl (save_ladder asset quote) db writes in
    record_ready db' asset quote \<and>
    stored_ladder db' asset quote = foldl write_ladder (stored_ladder db asset quote) writes)"
proof (induction writes arbitrary: db)
  case (Cons x writes)
  show ?case
  proof
    assume a: "record_ready db asset quote \<and> list_all (\<lambda>x. whole_window (fst x) \<and> storable (snd x)) (x # writes)"
    then obtain db1 where "save_ladder asset quote db x = db1" "record_ready db1 asset quote"
      "stored_ladder db1 asset quote = write_ladder (stored_ladder db asset quote) x"
      using SaveWindowLadder_ready [of db asset quote "fst x" "snd x"]
      by (auto simp: save_ladder_def write_ladder_def mirrored_def)
    then show "let db' = foldl (save_ladder asset quote) db (x # writes) in
      record_ready db' asset quote \<and>
      stored_ladder db' asset quote = foldl write_ladder (stored_ladder db asset quote) (x # writes)"
      using Cons.IH [of db1] a by simp
  qed
qed (simp add: Let_def)

text \<open>
  The pair-level ladder fails closed: what a reader without windows (the recovery sweep, an older
  binary) is told never understates a window's freeze. Whenever a window has a stored ladder, the pair has
  one, escalated if the window's is, with at least as many extensions used, and with a hold no more than a
  microsecond earlier.
\<close>

theorem pair_ladder_fails_closed:
  "record_ready db asset quote \<and> stored_ladder db asset quote window = Some st \<longrightarrow>
   (\<exists>p. sink_LoadLadder db asset quote = Some (p, True) \<and> Active p \<and> (Escalated st \<longrightarrow> Escalated p) \<and>
      ExtensionsUsed st \<le> ExtensionsUsed p \<and> HoldUntil st - 1000 \<le> HoldUntil p)"
proof (intro impI, elim conjE)
  assume "record_ready db asset quote" and st: "stored_ladder db asset quote window = Some st"
  then obtain r where r: "\<not> down db" "stamp_ok db" "filter (open_row asset quote) (frows db) = [r]" "row_good db r"
    by (auto simp: record_ready_def)
  have key: "whole_window window" "map_of (row_entries r) (windowLadderKey window) = Some st"
    using st stored_ready(1) [OF r, of window] by (auto split: if_splits)
  obtain secs where "0 < secs" "windowLadderKey window = int_String secs" using windowLadderKey_whole [OF key(1)] by metis
  then have "windowLadderKey window \<noteq> unownedLadderKey" by (simp add: unownedLadderKey_eq int_String_inject)
  then obtain es where j: "fe_window_ladders r = Some (JMap es)" "map_of es (windowLadderKey window) = Some st"
    using key(2) by (auto simp: row_entries_def split: option.splits ladders_json.splits if_splits)
  then have es: "fe_window_ladders r = Some (JMap es)" "(windowLadderKey window, st) \<in> set es" "es \<noteq> []"
    using map_of_SomeD [OF j(2)] by auto
  let ?s = "summariseLadders es"
  have c: "fe_hold_until r = Some (stamp db (HoldUntil ?s))" "fe_extensions_used r = Some (ExtensionsUsed ?s)"
    "fe_escalated r = Some (Escalated ?s)" "fe_frozen_at r \<noteq> 0" "Active st"
    using r(4) es by (auto simp: row_good_def good_entries_def list_all_iff)
  have "filter (\<lambda>r. open_row asset quote r \<and> fe_hold_until r \<noteq> None) (frows db) = [r]"
    using arg_cong [OF r(3), of "filter (\<lambda>r. fe_hold_until r \<noteq> None)"] c(1) by (simp add: conj_commute)
  then have "sink_LoadLadder db asset quote = Some (row_ladder r (stamp db (HoldUntil ?s)), True)"
    using r(1) c(1) by (simp add: sink_LoadLadder_def)
  moreover have "HoldUntil ?s - 1000 \<le> stamp db (HoldUntil ?s)"
    using spec [OF r(2) [unfolded stamp_ok_def], of "HoldUntil ?s"] by linarith
  ultimately show "\<exists>p. sink_LoadLadder db asset quote = Some (p, True) \<and> Active p \<and> (Escalated st \<longrightarrow> Escalated p) \<and>
      ExtensionsUsed st \<le> ExtensionsUsed p \<and> HoldUntil st - 1000 \<le> HoldUntil p"
    using summariseLadders_covers [OF es(2) c(5)] c(2-4) by auto
qed

text \<open>The aggregator's writer: Redis, the event sink and the window ladders of one table.\<close>

definition durable_writer :: "duration \<Rightarrow> fdb Writer" where
  "durable_writer grace = NewWriter 0 [WithEventSink freeze_sink, WithLadderStore ladder_store (Some window_ladder_store) grace]"

text \<open>
  C3. A Redis flush is not a release. After a mark that counted no failed durable write, and from any
  well-formed record, losing every Redis key leaves each window its own freeze: the marked window reads
  back the state it was marked with, and every other window the ladder mirrored for it before, for as long
  as that ladder is live.
\<close>

theorem flush_never_releases:
  "record_sane (durable e) asset quote \<and> whole_window window \<and> storable state \<and>
   MarkHoldForWindow (durable_writer grace) now asset quote window v dec state t e = (None, e') \<and>
   counters e' = counters e \<and> plan e' = [] \<and> 0 < other \<and>
   (if other = window then Active state \<and> st = state else stored_ladder (durable e) asset quote other = Some st) \<and>
   LadderStillLive st (ladderGrace (durable_writer grace)) later \<longrightarrow>
   fst (LoadStateForWindow (durable_writer grace) later asset quote other (flush e')) = Inr (st, True)"
proof (intro impI, elim conjE)
  assume a: "record_sane (durable e) asset quote" "whole_window window" "storable state"
    "MarkHoldForWindow (durable_writer grace) now asset quote window v dec state t e = (None, e')"
    "counters e' = counters e" "plan e' = []" "0 < other"
    "if other = window then Active state \<and> st = state else stored_ladder (durable e) asset quote other = Some st"
    "LadderStillLive st (ladderGrace (durable_writer grace)) later"
  have "windowLadder (durable_writer grace) = Some window_ladder_store" "sink (durable_writer grace) = Some freeze_sink"
    by (simp_all add: durable_writer_def NewWriter_def Let_def)
  then show "fst (LoadStateForWindow (durable_writer grace) later asset quote other (flush e')) = Inr (st, True)"
    using freeze_events.flush_survives [OF _ _ a(1-3) a(4) [unfolded MarkHoldForWindow_def] a(5-7), of st later] a(8,9)
    by (auto simp: mirrored_def split: if_splits)
qed


text \<open>The states of the table: every operation of the sink in any order, with the clock, the ledger and the
  availability of the database free to change in between.\<close>

inductive table_reach :: "fdb \<Rightarrow> bool" where
  table_empty: "frows db = [] \<Longrightarrow> table_reach db"
| table_later: "table_reach db \<Longrightarrow> frows db' = frows db \<Longrightarrow> table_reach db'"
| table_record: "table_reach db \<Longrightarrow> table_reach (snd (sink_RecordFreeze db asset quote v dec))"
| table_save: "table_reach db \<Longrightarrow> table_reach (snd (sink_SaveLadder db asset quote st))"
| table_save_window: "table_reach db \<Longrightarrow> table_reach (snd (sink_SaveWindowLadder db asset quote window st))"
| table_recovered: "table_reach db \<Longrightarrow> table_reach (snd (sink_MarkRecovered db asset quote by_whom))"

definition one_open :: "frow list \<Rightarrow> bool" where
  "one_open rs = (\<forall>asset quote. length (filter (open_row asset quote) rs) \<le> 1)"

lemma length_filter_map_le:
  assumes "\<And>x. P (f x) \<Longrightarrow> P x"
  shows "length (filter P (map f xs)) \<le> length (filter P xs)"
  using assms by (induction xs) auto

lemma one_open_update:
  assumes "one_open (frows db)" "\<And>a q r. open_row a q (f r) \<Longrightarrow> open_row a q r"
  shows "one_open (frows (snd (update_open asset quote f db)))"
proof -
  have "length (filter (open_row a q) (map (\<lambda>r. if open_row asset quote r then f r else r) (frows db))) \<le>
      length (filter (open_row a q) (frows db))" for a q
    by (rule length_filter_map_le) (use assms(2) in \<open>auto split: if_splits\<close>)
  then have "length (filter (open_row a q) (map (\<lambda>r. if open_row asset quote r then f r else r) (frows db))) \<le> 1" for a q
    using assms(1) order_trans unfolding one_open_def by blast
  then show ?thesis by (simp add: one_open_def update_open_def)
qed

lemma one_open_SaveWindowLadder:
  "one_open (frows db) \<Longrightarrow> one_open (frows (snd (sink_SaveWindowLadder db asset quote window st)))"
proof -
  assume o: "one_open (frows db)"
  have "one_open (frows (snd (writeWindowLadders db asset quote es)))" for es
    using one_open_update [OF o, of "\<lambda>r. (set_ladder (hold_column db (summariseLadders es)) (summariseLadders es) r)\<lparr>fe_window_ladders := Some (JMap es)\<rparr>" asset quote] o
    by (simp add: writeWindowLadders_def Let_def case_prod_beta)
  then show ?thesis using o by (simp add: sink_SaveWindowLadder_def Let_def split: option.splits)
qed

text \<open>
  At most one freeze of a pair is open at any moment, whatever sequence of records, ladder writes,
  recoveries and outages the table has seen: a second freeze of a pair that is still firing adds no row.
\<close>

theorem one_open_row: "table_reach db \<Longrightarrow> length (filter (open_row asset quote) (frows db)) \<le> 1"
proof -
  assume "table_reach db"
  then have "one_open (frows db)"
  proof induction
    case (table_record db asset quote v dec)
    show ?case
    proof (cases "frows (snd (sink_RecordFreeze db asset quote v dec)) = frows db")
      case False
      then obtain r where r: "frows (snd (sink_RecordFreeze db asset quote v dec)) = frows db @ [r]"
        "\<not> list_ex (open_row asset quote) (frows db)" "fe_asset_id r = Asset_String asset" "fe_quote_id r = Asset_String quote"
        by (auto simp: sink_RecordFreeze_def record_freeze_def Let_def split: sum.splits if_splits)
      then have "open_row a q r \<Longrightarrow> filter (open_row a q) (frows db) = []" for a q
        by (auto simp: open_row_def list_ex_iff filter_empty_conv)
      then show ?thesis using table_record.IH r(1) by (auto simp: one_open_def)
    qed (use table_record.IH in simp)
  next
    case (table_save db asset quote st)
    show ?case using table_save.IH
        one_open_update [OF table_save.IH, of "\<lambda>r. (set_ladder (hold_column db st) st r)\<lparr>fe_window_ladders := (if hold_column db st = None then None else fe_window_ladders r)\<rparr>" asset quote]
      by (simp add: sink_SaveLadder_def Let_def case_prod_beta)
  next
    case (table_save_window db asset quote window st)
    then show ?case by (simp add: one_open_SaveWindowLadder)
  next
    case (table_recovered db asset quote by_whom)
    show ?case using table_recovered.IH
        one_open_update [OF table_recovered.IH, of "\<lambda>r. r\<lparr>fe_recovered_at := Some (stamp db (clockNow db)), fe_recovered_at_ledger := Some (ledgerNow db), fe_released_by := Some by_whom\<rparr>" asset quote]
      by (simp add: sink_MarkRecovered_def Let_def case_prod_beta open_row_def)
  qed (simp_all add: one_open_def)
  then show ?thesis by (simp add: one_open_def)
qed

section \<open>Witnesses\<close>

definition sample_fdb :: fdb where
  "sample_fdb = \<lparr>frows = [], down = False, stamp = (\<lambda>t. t - t mod 1000), numeric = (\<lambda>_. True), clockNow = go_hour, ledgerNow = 7\<rparr>"

lemma sample_clear: "record_clear sample_fdb NativeAsset sample_usdc"
proof -
  have "0 \<le> t mod (1000 :: int)" "t mod (1000 :: int) < 1000" for t by simp_all
  then have "stamp_ok sample_fdb" unfolding stamp_ok_def sample_fdb_def by (auto simp: abs_le_iff intro: order_less_imp_le)
  moreover have "stamp sample_fdb (clockNow sample_fdb) \<noteq> 0" by code_simp
  ultimately show ?thesis by (simp add: record_clear_def sample_fdb_def)
qed

definition sample_row_db :: fdb where
  "sample_row_db = snd (sink_RecordFreeze sample_fdb NativeAsset sample_usdc ''1'' sample_decision)"

lemma sample_ready: "record_ready sample_row_db NativeAsset sample_usdc"
proof -
  have "fst (sink_RecordFreeze sample_fdb NativeAsset sample_usdc ''1'' sample_decision) = False" by code_simp
  then have "sink_RecordFreeze sample_fdb NativeAsset sample_usdc ''1'' sample_decision = (False, sample_row_db)"
    by (simp add: sample_row_db_def prod_eq_iff)
  then show ?thesis using RecordFreeze_ready [of sample_fdb] sample_clear by (auto simp: record_sane_def)
qed

definition sample_writes :: "(duration \<times> State) list" where
  "sample_writes =
     [(5 * go_minute, sample_hold (go_hour + 10 * go_minute)), (go_hour, (sample_hold (2 * go_hour))\<lparr>Escalated := True\<rparr>),
      (5 * go_minute, zeroState)]"

theorem stored_ladders_exact_witness:
  "stored_ladder (foldl (save_ladder NativeAsset sample_usdc) sample_row_db sample_writes) NativeAsset sample_usdc go_hour =
     Some ((sample_hold (2 * go_hour))\<lparr>Escalated := True\<rparr>) \<and>
   stored_ladder (foldl (save_ladder NativeAsset sample_usdc) sample_row_db sample_writes) NativeAsset sample_usdc (5 * go_minute) = None"
proof -
  have "list_all (\<lambda>x. whole_window (fst x) \<and> storable (snd x)) sample_writes" by code_simp
  moreover have "foldl write_ladder (stored_ladder sample_row_db NativeAsset sample_usdc) sample_writes go_hour =
      Some ((sample_hold (2 * go_hour))\<lparr>Escalated := True\<rparr>)"
    "foldl write_ladder (stored_ladder sample_row_db NativeAsset sample_usdc) sample_writes (5 * go_minute) = None"
    by code_simp+
  ultimately show ?thesis
    using stored_ladders_exact [of sample_row_db NativeAsset sample_usdc sample_writes] sample_ready by (simp add: Let_def)
qed

definition sample_ladder_db :: fdb where
  "sample_ladder_db = snd (sink_SaveWindowLadder sample_row_db NativeAsset sample_usdc go_hour ((sample_hold (2 * go_hour))\<lparr>Escalated := True\<rparr>))"

theorem pair_ladder_fails_closed_witness:
  "\<exists>p. sink_LoadLadder sample_ladder_db NativeAsset sample_usdc = Some (p, True) \<and> Escalated p \<and> 2 * go_hour - 1000 \<le> HoldUntil p"
proof -
  let ?st = "(sample_hold (2 * go_hour))\<lparr>Escalated := True\<rparr>"
  have w: "whole_window go_hour" "storable ?st" "Escalated ?st" "HoldUntil ?st = 2 * go_hour" "mirrored ?st = Some ?st"
    by code_simp+
  then obtain db' where "sink_SaveWindowLadder sample_row_db NativeAsset sample_usdc go_hour ?st = (False, db')"
    "record_ready db' NativeAsset sample_usdc"
    "stored_ladder db' NativeAsset sample_usdc = (stored_ladder sample_row_db NativeAsset sample_usdc)(go_hour := mirrored ?st)"
    using SaveWindowLadder_ready [OF sample_ready w(1,2)] by blast
  then have "record_ready sample_ladder_db NativeAsset sample_usdc"
    "stored_ladder sample_ladder_db NativeAsset sample_usdc go_hour = Some ?st"
    using w(5) by (simp_all add: sample_ladder_db_def)
  with pair_ladder_fails_closed [of sample_ladder_db NativeAsset sample_usdc go_hour ?st] w(3,4)
  show ?thesis by metis
qed

definition sample_durable_env :: "fdb fenv" where
  "sample_durable_env = \<lparr>cells = \<lambda>_. None, plan = [], durable = sample_fdb, ctxEnds = False, counters = []\<rparr>"

definition sample_durable_mark :: "freeze_error option \<times> fdb fenv" where
  "sample_durable_mark = MarkHoldForWindow (durable_writer 0) go_hour NativeAsset sample_usdc (5 * go_second) ''1'' sample_decision
     (sample_hold (2 * go_hour)) (65 * go_minute) sample_durable_env"

theorem flush_never_releases_witness:
  "fst (LoadStateForWindow (durable_writer 0) (2 * go_hour) NativeAsset sample_usdc (5 * go_second) (flush (snd sample_durable_mark))) =
     Inr (sample_hold (2 * go_hour), True)"
proof -
  have f: "fst sample_durable_mark = None" "counters (snd sample_durable_mark) = counters sample_durable_env"
    "plan (snd sample_durable_mark) = []" "whole_window (5 * go_second)" "storable (sample_hold (2 * go_hour))"
    "Active (sample_hold (2 * go_hour))" "0 < 5 * go_second"
    "LadderStillLive (sample_hold (2 * go_hour)) (ladderGrace (durable_writer 0)) (2 * go_hour)"
    by code_simp+
  have m: "MarkHoldForWindow (durable_writer 0) go_hour NativeAsset sample_usdc (5 * go_second) ''1'' sample_decision
     (sample_hold (2 * go_hour)) (65 * go_minute) sample_durable_env = (None, snd sample_durable_mark)"
    using f(1) by (simp add: sample_durable_mark_def prod_eq_iff)
  have s: "record_sane (durable sample_durable_env) NativeAsset sample_usdc"
    using sample_clear by (simp add: record_sane_def sample_durable_env_def)
  show ?thesis
    by (rule flush_never_releases [of sample_durable_env NativeAsset sample_usdc "5 * go_second" "sample_hold (2 * go_hour)" 0 go_hour
        "''1''" sample_decision "65 * go_minute" "snd sample_durable_mark" "5 * go_second" "sample_hold (2 * go_hour)" "2 * go_hour", THEN mp])
      (use f m s in simp)
qed

theorem one_open_row_witness:
  "length (filter (open_row NativeAsset sample_usdc)
     (frows (snd (sink_RecordFreeze sample_row_db NativeAsset sample_usdc ''2'' sample_decision)))) = 1"
proof -
  have "table_reach sample_fdb" by (rule table_empty) (simp add: sample_fdb_def)
  then have "table_reach (snd (sink_RecordFreeze sample_row_db NativeAsset sample_usdc ''2'' sample_decision))"
    unfolding sample_row_db_def by (intro table_record)
  from one_open_row [OF this, of NativeAsset sample_usdc]
  have "length (filter (open_row NativeAsset sample_usdc)
     (frows (snd (sink_RecordFreeze sample_row_db NativeAsset sample_usdc ''2'' sample_decision)))) \<le> 1" .
  moreover have "1 \<le> length (filter (open_row NativeAsset sample_usdc)
     (frows (snd (sink_RecordFreeze sample_row_db NativeAsset sample_usdc ''2'' sample_decision))))" by code_simp
  ultimately show ?thesis by simp
qed

end
