(* ===== verification/FreezeRecovery.thy ===== *)
theory FreezeRecovery
  imports FreezeEvents
begin

text \<open>
  The recovery sweep (internal/aggregate/freeze/recovery.go): it lists the freezes the durable record has
  open, and closes those whose marker has gone, unless the durable ladder says that Redis lost a freeze
  that is still running.

  The three interfaces are fields of the worker's record, functions on the durable state; an error is
  \<open>None\<close> on a read and \<open>True\<close> on a write. One sweep is \<open>tick\<close>; \<open>Run\<close> repeats it on a timer.
\<close>

section \<open>The worker\<close>

record 'd Recovery =
  lister :: "'d \<Rightarrow> (Asset \<times> Asset) list option"
  closer :: "'d \<Rightarrow> Asset \<Rightarrow> Asset \<Rightarrow> string \<Rightarrow> bool \<times> 'd"
  rec_ladder :: "'d LadderStore option"
  grace :: duration
  interval :: duration

record 'd RecoveryOptions =
  opt_Interval :: duration
  opt_Ladder :: "'d LadderStore option"
  opt_LadderGrace :: duration

definition ReleasedBySystemRecovery :: string where
  "ReleasedBySystemRecovery = ''system:recovery''"

definition NewRecovery ::
  "('d \<Rightarrow> (Asset \<times> Asset) list option) \<Rightarrow> ('d \<Rightarrow> Asset \<Rightarrow> Asset \<Rightarrow> string \<Rightarrow> bool \<times> 'd) \<Rightarrow> 'd RecoveryOptions \<Rightarrow> 'd Recovery" where
  "NewRecovery l c opts =
     \<lparr>lister = l, closer = c, rec_ladder = opt_Ladder opts,
      grace = (if opt_LadderGrace opts \<le> 0 then DefaultLadderGrace else opt_LadderGrace opts),
      interval = (if opt_Interval opts \<le> 0 then 60 * go_second else opt_Interval opts)\<rparr>"

definition ladderStillHolds :: "'d Recovery \<Rightarrow> gotime \<Rightarrow> Asset \<Rightarrow> Asset \<Rightarrow> 'd \<Rightarrow> bool" where
  "ladderStillHolds r now asset quote d =
     (case rec_ladder r of
        None \<Rightarrow> False
      | Some s \<Rightarrow>
          (case LoadLadder s d asset quote of
             None \<Rightarrow> False
           | Some (st, ok) \<Rightarrow> if \<not> ok \<or> \<not> LadderStillLive st (grace r) now then False else True))"

record tally =
  recovered :: int
  stillFiring :: int
  heldByLadder :: int
  errs :: int

definition zero_tally :: tally where
  "zero_tally = \<lparr>recovered = 0, stillFiring = 0, heldByLadder = 0, errs = 0\<rparr>"

definition sweep_pair :: "'d Recovery \<Rightarrow> gotime \<Rightarrow> tally \<times> 'd fenv \<Rightarrow> Asset \<times> Asset \<Rightarrow> tally \<times> 'd fenv" where
  "sweep_pair r now acc p =
     (case acc of (t, e) \<Rightarrow> case p of (asset, quote) \<Rightarrow>
        (case cache_Get now (Freeze asset quote) e of
           (Inl _, e) \<Rightarrow> (t\<lparr>errs := errs t + 1\<rparr>, e)
         | (Inr (Some _), e) \<Rightarrow> (t\<lparr>stillFiring := stillFiring t + 1\<rparr>, e)
         | (Inr None, e) \<Rightarrow>
             if ladderStillHolds r now asset quote (durable e) then (t\<lparr>heldByLadder := heldByLadder t + 1\<rparr>, e)
             else let (err, d) = closer r (durable e) asset quote ReleasedBySystemRecovery; e = e\<lparr>durable := d\<rparr>
                  in if err then (t\<lparr>errs := errs t + 1\<rparr>, e) else (t\<lparr>recovered := recovered t + 1\<rparr>, e)))"

datatype sweep_outcome = SweepOk | SweepPartial | SweepError

text \<open>The outcome counted, the tally and the environment after the sweep.\<close>

definition recovery_tick :: "'d Recovery \<Rightarrow> gotime \<Rightarrow> 'd fenv \<Rightarrow> sweep_outcome \<times> tally \<times> 'd fenv" where
  "recovery_tick r now e =
     (case lister r (durable e) of
        None \<Rightarrow> (SweepError, zero_tally, e)
      | Some ps \<Rightarrow>
          if ps = [] then (SweepOk, zero_tally, e)
          else let (t, e) = foldl (sweep_pair r now) (zero_tally, e) ps
               in (if 0 < errs t then SweepPartial else SweepOk, t, e))"

text \<open>The worker of the aggregator, on the table of freeze events.\<close>

definition table_recovery :: "sdk \<Rightarrow> fdb Recovery" where
  "table_recovery k = NewRecovery (sink_ListOpen k) sink_MarkRecovered
     \<lparr>opt_Interval = 0, opt_Ladder = Some ladder_store, opt_LadderGrace = 0\<rparr>"

section \<open>Lemmas\<close>

definition protected :: "gotime \<Rightarrow> duration \<Rightarrow> Asset \<Rightarrow> Asset \<Rightarrow> fdb fenv \<Rightarrow> bool" where
  "protected now g asset quote e =
     (live_doc now (cells e (Freeze asset quote)) \<noteq> None \<or>
      (\<exists>st. sink_LoadLadder (durable e) asset quote = Some (st, True) \<and> LadderStillLive st g now))"

definition open_rows :: "Asset \<Rightarrow> Asset \<Rightarrow> fdb fenv \<Rightarrow> frow list" where
  "open_rows asset quote e = filter (open_row asset quote) (frows (durable e))"

definition same_text :: "Asset \<Rightarrow> Asset \<Rightarrow> Asset \<Rightarrow> Asset \<Rightarrow> bool" where
  "same_text a q a' q' = (Asset_String a = Asset_String a' \<and> Asset_String q = Asset_String q')"

lemma same_text_fun:
  assumes "same_text a q a' q'"
  shows "open_row a q = open_row a' q'" "Freeze a q = Freeze a' q'" "sink_LoadLadder d a q = sink_LoadLadder d a' q'"
  using assms by (auto simp: same_text_def open_row_def Freeze_def sink_LoadLadder_def fun_eq_iff)

lemma LoadLadder_open_rows:
  assumes "filter (open_row a q) (frows d) = filter (open_row a q) (frows d')" "down d = down d'"
  shows "sink_LoadLadder d a q = sink_LoadLadder d' a q"
proof -
  have "filter (\<lambda>r. open_row a q r \<and> fe_hold_until r \<noteq> None) rs = filter (\<lambda>r. fe_hold_until r \<noteq> None) (filter (open_row a q) rs)" for rs
    by (simp add: conj_commute)
  then show ?thesis using assms by (simp only: sink_LoadLadder_def)
qed

lemma MarkRecovered_other:
  assumes "\<not> same_text a q a' q'" "sink_MarkRecovered d a' q' by_whom = (err, d')"
  shows "filter (open_row a q) (frows d') = filter (open_row a q) (frows d) \<and> down d' = down d"
proof -
  have "filter (open_row a q) (map (\<lambda>r. if open_row a' q' r then f r else r) rs) = filter (open_row a q) rs"
    if "\<And>r. open_row a' q' r \<Longrightarrow> \<not> open_row a q (f r)" "\<And>r. open_row a' q' r \<Longrightarrow> \<not> open_row a q r" for f rs
    using that by (induction rs) auto
  moreover have "\<not> open_row a q r" if "open_row a' q' r" for r using that assms(1) by (auto simp: open_row_def same_text_def)
  moreover have "\<not> open_row a q (r\<lparr>fe_recovered_at := Some t, fe_recovered_at_ledger := l, fe_released_by := b\<rparr>)" for r t l b
    by (simp add: open_row_def)
  ultimately show ?thesis using assms(2)
    by (auto simp: sink_MarkRecovered_def update_open_def Let_def split: if_splits)
qed

lemma cache_Get_state:
  "cache_Get now key e = (r, e1) \<Longrightarrow>
   cells e1 = cells e \<and> durable e1 = durable e \<and> (r = Inr (live_doc now (cells e key)) \<or> (\<exists>x. r = Inl x)) \<and>
   (plan e = [] \<longrightarrow> e1 = e \<and> r = Inr (live_doc now (cells e key)))"
  by (auto simp: cache_Get_def next_fault_def Let_def split: list.splits if_splits)

text \<open>Nothing a sweep does for one pair touches another, and it leaves a protected pair alone.\<close>

lemma table_recovery_simps [simp]:
  "lister (table_recovery k) = sink_ListOpen k" "closer (table_recovery k) = sink_MarkRecovered"
  "rec_ladder (table_recovery k) = Some ladder_store" "grace (table_recovery k) = DefaultLadderGrace"
  by (simp_all add: table_recovery_def NewRecovery_def)

lemma ladderStillHolds_table:
  "ladderStillHolds (table_recovery k) now asset quote d \<longleftrightarrow>
   (\<exists>st. sink_LoadLadder d asset quote = Some (st, True) \<and> LadderStillLive st DefaultLadderGrace now)"
  by (auto simp: ladderStillHolds_def ladder_store_def split: option.splits)

lemma sweep_pair_keeps:
  assumes "protected now DefaultLadderGrace a q e \<or> \<not> same_text a q (fst p) (snd p)"
    "sweep_pair (table_recovery k) now (t, e) p = (t', e')"
  shows "open_rows a q e' = open_rows a q e \<and> cells e' = cells e \<and> down (durable e') = down (durable e)"
proof -
  obtain a' q' where p: "p = (a', q')" by (cases p)
  obtain r e1 where g: "cache_Get now (Freeze a' q') e = (r, e1)" by fastforce
  note s = cache_Get_state [OF g]
  show ?thesis
  proof (cases "durable e' = durable e")
    case True
    then show ?thesis using assms(2) s
      by (auto simp: sweep_pair_def p g open_rows_def Let_def split: sum.splits option.splits if_splits prod.splits)
  next
    case False
    then have r: "r = Inr None" "\<not> ladderStillHolds (table_recovery k) now a' q' (durable e)"
      using assms(2) s by (auto simp: sweep_pair_def p g split: sum.splits option.splits if_splits)
    obtain err d where c: "sink_MarkRecovered (durable e) a' q' ReleasedBySystemRecovery = (err, d)" by fastforce
    have e': "durable e' = d" "cells e' = cells e" using assms(2) r s c by (auto simp: sweep_pair_def p g Let_def split: if_splits)
    have "live_doc now (cells e (Freeze a' q')) = None" using r s by auto
    then have "\<not> same_text a q a' q'"
      using assms(1) r(2) same_text_fun [of a q a' q'] by (auto simp: protected_def ladderStillHolds_table p)
    then show ?thesis using MarkRecovered_other [OF _ c] e' by (simp add: open_rows_def)
  qed
qed

lemma protected_cong:
  assumes "open_rows a q e' = open_rows a q e" "cells e' = cells e" "down (durable e') = down (durable e)"
  shows "protected now g a q e' = protected now g a q e"
  using assms LoadLadder_open_rows [of a q "durable e'" "durable e"] by (simp add: protected_def open_rows_def)

lemma sweep_keeps:
  assumes "protected now DefaultLadderGrace a q e"
  shows "open_rows a q (snd (foldl (sweep_pair (table_recovery k) now) (t, e) ps)) = open_rows a q e"
  using assms
proof (induction ps arbitrary: t e)
  case (Cons p ps)
  obtain t' e' where s: "sweep_pair (table_recovery k) now (t, e) p = (t', e')" by fastforce
  note keep = sweep_pair_keeps [OF disjI1 [OF Cons.prems] s]
  then have "protected now DefaultLadderGrace a q e'" using Cons.prems protected_cong by blast
  then show ?case using Cons.IH keep by (simp add: s)
qed simp


text \<open>A Redis and a table that answer, with no freeze from a later ledger than the sweep's.\<close>

definition answering :: "fdb fenv \<Rightarrow> bool" where
  "answering e = (plan e = [] \<and> \<not> down (durable e) \<and>
     list_all (\<lambda>r. fe_frozen_at_ledger r \<le> ledgerNow (durable e)) (frows (durable e)))"

lemma MarkRecovered_answers:
  assumes "\<not> down d" "list_all (\<lambda>r. fe_frozen_at_ledger r \<le> ledgerNow d) (frows d)"
    "sink_MarkRecovered d a q ReleasedBySystemRecovery = (err, d')"
  shows "filter (open_row a q) (frows d') = [] \<and> \<not> down d' \<and> list_all (\<lambda>r. fe_frozen_at_ledger r \<le> ledgerNow d') (frows d')"
proof -
  have v: "validReleasedBy ReleasedBySystemRecovery" by code_simp
  have l: "\<not> list_ex (\<lambda>r. open_row a q r \<and> ledgerNow d < fe_frozen_at_ledger r) (frows d)"
    using assms(2) by (auto simp: list_all_iff list_ex_iff not_less)
  let ?f = "\<lambda>r. r\<lparr>fe_recovered_at := Some (stamp d (clockNow d)), fe_recovered_at_ledger := Some (ledgerNow d),
                       fe_released_by := Some ReleasedBySystemRecovery\<rparr>"
  have d': "d' = d\<lparr>frows := map (\<lambda>r. if open_row a q r then ?f r else r) (frows d)\<rparr>"
    using assms(1,3) v l by (simp add: sink_MarkRecovered_def update_open_def)
  have "filter (open_row a q) (map (\<lambda>r. if open_row a q r then ?f r else r) rs) = []" for rs
    by (auto simp: filter_empty_conv open_row_def)
  then show ?thesis using assms(1,2) by (auto simp: d' list_all_iff)
qed

lemma sweep_pair_answers:
  assumes "answering e" "sweep_pair (table_recovery k) now (t, e) (a, q) = (t', e')"
  shows "answering e'" "cells e' = cells e" "\<not> protected now DefaultLadderGrace a q e \<Longrightarrow> open_rows a q e' = []"
    "durable e' = durable e \<or> open_rows a q e' = []"
proof -
  have p: "plan e = []" using assms(1) by (simp add: answering_def)
  show r: "cells e' = cells e" "durable e' = durable e \<or> open_rows a q e' = []" "answering e'"
    "\<not> protected now DefaultLadderGrace a q e \<Longrightarrow> open_rows a q e' = []"
    using assms p MarkRecovered_answers [of "durable e" a q]
    by (auto simp: sweep_pair_def redis_ok answering_def open_rows_def protected_def ladderStillHolds_table Let_def
        split: option.splits if_splits prod.splits)
qed

lemma unprotected_closed: "cells e' = cells e \<Longrightarrow> open_rows a q e' = [] \<Longrightarrow> \<not> protected now g a q e \<Longrightarrow> \<not> protected now g a q e'"
proof -
  assume c: "cells e' = cells e" "open_rows a q e' = []" "\<not> protected now g a q e"
  have "filter (\<lambda>r. open_row a q r \<and> fe_hold_until r \<noteq> None) (frows (durable e')) = []"
    using c(2) by (auto simp: open_rows_def filter_empty_conv)
  then show ?thesis using c(1,3) by (auto simp: protected_def sink_LoadLadder_def split: if_splits)
qed

lemma sweep_closes:
  assumes "answering e" "\<not> protected now DefaultLadderGrace a q e" "(a, q) \<in> set ps \<or> open_rows a q e = []"
  shows "open_rows a q (snd (foldl (sweep_pair (table_recovery k) now) (t, e) ps)) = []"
  using assms
proof (induction ps arbitrary: t e)
  case (Cons p ps)
  obtain a' q' where p: "p = (a', q')" by (cases p)
  obtain t' e' where s: "sweep_pair (table_recovery k) now (t, e) (a', q') = (t', e')" by fastforce
  note ans = sweep_pair_answers [OF Cons.prems(1) s]
  have "\<not> protected now DefaultLadderGrace a q e' \<and> ((a, q) \<in> set ps \<or> open_rows a q e' = [])"
  proof (cases "same_text a q a' q'")
    case True
    note tx = same_text_fun [OF True]
    have "\<not> protected now DefaultLadderGrace a' q' e" using Cons.prems(2) tx by (simp add: protected_def)
    from ans(3) [OF this] have "open_rows a q e' = []" using tx by (simp add: open_rows_def)
    then show ?thesis using unprotected_closed [OF ans(2)] Cons.prems(2) by blast
  next
    case False
    from sweep_pair_keeps [OF disjI2, of a q "(a', q')" k now t e t' e'] False s
    have keep: "open_rows a q e' = open_rows a q e" "cells e' = cells e" "down (durable e') = down (durable e)" by auto
    then show ?thesis using Cons.prems(2,3) p False protected_cong [OF keep] by (auto simp: same_text_def)
  qed
  then show ?case using Cons.IH [OF ans(1)] s p by simp
qed simp

section \<open>The property\<close>


text \<open>The row of a lapsed freeze is closed, that of one Redis lost is not.\<close>

definition sample_lost_env :: "fdb fenv" where
  "sample_lost_env = flush (snd sample_durable_mark)"


end
