(* ===== verification/FreezeStep.thy ===== *)
theory FreezeStep
  imports FreezeStore Trades
begin

text \<open>
  The freeze step of the aggregator's tick (internal/aggregate/orchestrator/phase2_freeze.go): the fire
  condition of a scored bucket, and the one owner of a pair's lifecycle, which loads the state of a
  window, evaluates it, and drives the shared marker of the pair.

  The orchestrator's part of the state is a record: the states by \<open>pair:window\<close>, the windows refused this
  tick, the metrics, and the environment of the freeze writer. The writer is the one of freeze.go, which
  scopes markers to windows and reads tombstones; \<open>None\<close> is an orchestrator without a writer. The price
  keys that a freeze keeps alive and reseeds are not part of it, and the last-known-good value and the
  decision's text are arguments; so is whether a lens agrees with the bucket's price
  (\<open>releaseCorroborated\<close>), which is float64 arithmetic.
\<close>

section \<open>The fire condition\<close>

record Phase2Thresholds =
  ConfidenceMaxFreeze :: f64
  ZScoreMinFreeze :: f64
  SourceCountMaxFreeze :: int
  Lifecycle :: Policy

text \<open>0.45 is the float64 nearest to it.\<close>

definition DefaultPhase2ConfidenceMaxFreeze :: f64 where
  "DefaultPhase2ConfidenceMaxFreeze = FFin (8106479329266893 / 18014398509481984)"

definition DefaultPhase2ZScoreMinFreeze :: f64 where
  "DefaultPhase2ZScoreMinFreeze = FFin 5"

definition DefaultPhase2SourceCountMaxFreeze :: int where
  "DefaultPhase2SourceCountMaxFreeze = 1"

definition thresholds_withDefaults :: "Phase2Thresholds \<Rightarrow> Phase2Thresholds" where
  "thresholds_withDefaults p =
     (let p = (if f64_eq (ConfidenceMaxFreeze p) (FFin 0)
               then p\<lparr>ConfidenceMaxFreeze := DefaultPhase2ConfidenceMaxFreeze\<rparr> else p);
          p = (if f64_eq (ZScoreMinFreeze p) (FFin 0) then p\<lparr>ZScoreMinFreeze := DefaultPhase2ZScoreMinFreeze\<rparr> else p);
          p = (if SourceCountMaxFreeze p = 0 then p\<lparr>SourceCountMaxFreeze := DefaultPhase2SourceCountMaxFreeze\<rparr> else p)
      in p)"

record confidenceWithSourceCount =
  cConfidence :: f64
  cZScore :: f64
  cSourceCount :: int

definition phase2FreezeFires :: "confidenceWithSourceCount \<Rightarrow> Phase2Thresholds \<Rightarrow> bool" where
  "phase2FreezeFires c t =
     (let t = thresholds_withDefaults t in
      cConfidence c < ConfidenceMaxFreeze t \<and> ZScoreMinFreeze t < cZScore c \<and> cSourceCount c \<le> SourceCountMaxFreeze t)"

record Factors =
  TriangulationChecked :: bool
  CrossOracleChecked :: bool

definition corroborated :: "Factors \<Rightarrow> bool" where
  "corroborated f = (TriangulationChecked f \<or> CrossOracleChecked f)"

section \<open>The orchestrator's state\<close>

datatype freeze_metric = FreezeEngaged string | RefiredAfterOverride | FreezeReleased string | FreezeExtension
  | FreezeEscalated | FreezeHeldUnscored | CompositeSuppressed string

record 'd orch =
  freezeStates :: "string \<Rightarrow> State option"
  frozenThisTick :: "string list"
  freezesEngaged :: int
  ometrics :: "freeze_metric list"
  fenv_of :: "'d fenv"

record 'd orch_config =
  Windows :: "duration list"
  Phase2 :: Phase2Thresholds
  FreezeWriter :: "'d Writer option"

definition stateKey :: "Pair \<Rightarrow> duration \<Rightarrow> string" where
  "stateKey pair window = Pair_String pair @ '':'' @ Duration_String window"

definition state_at :: "'d orch \<Rightarrow> string \<Rightarrow> State" where
  "state_at o1 key = (case freezeStates o1 key of Some st \<Rightarrow> st | None \<Rightarrow> zeroState)"

definition put_state :: "string \<Rightarrow> State \<Rightarrow> 'd orch \<Rightarrow> 'd orch" where
  "put_state key st o1 = o1\<lparr>freezeStates := (freezeStates o1)(key := Some st)\<rparr>"

definition count_metric :: "freeze_metric \<Rightarrow> 'd orch \<Rightarrow> 'd orch" where
  "count_metric m o1 = o1\<lparr>ometrics := ometrics o1 @ [m]\<rparr>"

text \<open>A call of the writer, threading its environment.\<close>

definition writer_call :: "('d fenv \<Rightarrow> 'r \<times> 'd fenv) \<Rightarrow> 'd orch \<Rightarrow> 'r \<times> 'd orch" where
  "writer_call f o1 = (let (r, e) = f (fenv_of o1) in (r, o1\<lparr>fenv_of := e\<rparr>))"

section \<open>Loading\<close>

definition loadFreezeState ::
  "'d orch_config \<Rightarrow> gotime \<Rightarrow> Pair \<Rightarrow> duration \<Rightarrow> 'd orch \<Rightarrow> (freeze_error + State \<times> bool) \<times> 'd orch" where
  "loadFreezeState cfg now pair window o1 =
     (let key = stateKey pair window; st = state_at o1 key in
      case FreezeWriter cfg of
        None \<Rightarrow> (Inr (st, False), o1)
      | Some w \<Rightarrow>
          if freezeStates o1 key = None then
            (case writer_call (LoadStateForWindow w now (Base pair) (Quote pair) window) o1 of
               (Inl err, o2) \<Rightarrow> (Inl err, o2)
             | (Inr (marked, ok), o2) \<Rightarrow>
                 let st = (if ok \<and> Active marked then marked else st) in (Inr (st, False), put_state key st o2))
          else if Active st then
            (case writer_call (LoadState w now (Base pair) (Quote pair)) o1 of
               (Inr (marked, ok), o2) \<Rightarrow> (Inr (st, \<not> ok), o2)
             | (Inl err, o2) \<Rightarrow> (Inr (st, False), o2))
          else (Inr (st, False), o1))"

section \<open>Engaging\<close>

definition transition_metric :: "Transition \<Rightarrow> 'd orch \<Rightarrow> 'd orch" where
  "transition_metric tr o1 =
     (case tr of
        TransitionExtended \<Rightarrow> count_metric FreezeExtension o1
      | TransitionEscalated \<Rightarrow> count_metric FreezeEscalated o1
      | TransitionHeldUnscored \<Rightarrow> count_metric FreezeHeldUnscored o1
      | _ \<Rightarrow> o1)"

definition markFrozenThisTick :: "Pair \<Rightarrow> duration \<Rightarrow> 'd orch \<Rightarrow> 'd orch" where
  "markFrozenThisTick pair window o1 = o1\<lparr>frozenThisTick := List.insert (stateKey pair window) (frozenThisTick o1)\<rparr>"

definition engageFreeze ::
  "'d orch_config \<Rightarrow> gotime \<Rightarrow> Pair \<Rightarrow> duration \<Rightarrow> string \<Rightarrow> Decision \<Rightarrow> Outcome \<Rightarrow> 'd orch \<Rightarrow> 'd orch" where
  "engageFreeze cfg now pair window frozenValue decision out o1 =
     (let o2 = put_state (stateKey pair window) (OState out) o1;
          o2 = o2\<lparr>freezesEngaged := freezesEngaged o2 + 1\<rparr>;
          o2 = count_metric (FreezeEngaged (DClass decision)) o2;
          o2 = transition_metric (OTransition out) o2;
          o2 = markFrozenThisTick pair window o2
      in case FreezeWriter cfg of
           None \<Rightarrow> o2
         | Some w \<Rightarrow>
             snd (writer_call (MarkHoldForWindow w now (Base pair) (Quote pair) window frozenValue decision
               (OState out) (MarkerTTL out)) o2))"

section \<open>Releasing\<close>

definition siblingWindowFrozen :: "'d orch_config \<Rightarrow> Pair \<Rightarrow> duration \<Rightarrow> 'd orch \<Rightarrow> bool" where
  "siblingWindowFrozen cfg pair window o1 =
     list_ex (\<lambda>w. w \<noteq> window \<and> Active (state_at o1 (stateKey pair w))) (Windows cfg)"

definition overrideMode :: "gotime \<Rightarrow> Pair \<Rightarrow> 'd orch \<Rightarrow> string \<times> 'd orch" where
  "overrideMode now pair o1 =
     (let (r, o2) = writer_call (OverrideRecorded now (Base pair) (Quote pair)) o1 in
      (if r = Inr False then ''lapsed'' else ''operator'', o2))"

definition clearReleasedMarker :: "'d Writer \<Rightarrow> gotime \<Rightarrow> Pair \<Rightarrow> duration \<Rightarrow> 'd orch \<Rightarrow> 'd orch" where
  "clearReleasedMarker w now pair window o1 = snd (writer_call (ReleaseWindow w now (Base pair) (Quote pair) window) o1)"

definition releaseFreeze ::
  "'d orch_config \<Rightarrow> gotime \<Rightarrow> Pair \<Rightarrow> duration \<Rightarrow> State \<Rightarrow> Transition \<Rightarrow> 'd orch \<Rightarrow> 'd orch" where
  "releaseFreeze cfg now pair window prev transition o1 =
     (let key = stateKey pair window in
      if \<not> Active prev then put_state key prev o1
      else
        let o2 = put_state key zeroState o1;
            (mode, o2) = (if transition = TransitionOverridden
              then (let (mode, o2) = (if FreezeWriter cfg = None then (''operator'', o2) else overrideMode now pair o2)
                    in (mode, put_state key (Overridden prev now) o2))
              else (''auto'', o2));
            o2 = count_metric (FreezeReleased mode) o2
        in case FreezeWriter cfg of
             None \<Rightarrow> o2
           | Some w \<Rightarrow>
               if siblingWindowFrozen cfg pair window o2
               then snd (writer_call (RetireWindowLadder w now (Base pair) (Quote pair) window) o2)
               else clearReleasedMarker w now pair window o2)"

section \<open>The step\<close>

definition stepFreezeLifecycle ::
  "'d orch_config \<Rightarrow> Pair \<Rightarrow> duration \<Rightarrow> string \<Rightarrow> Signal \<Rightarrow> Decision \<Rightarrow> 'd orch \<Rightarrow> bool \<times> 'd orch" where
  "stepFreezeLifecycle cfg pair window frozenValue sig decision o1 =
     (let now = Now sig in
      case loadFreezeState cfg now pair window o1 of
        (Inl err, o2) \<Rightarrow> (True, o2)
      | (Inr (prev, overridden), o2) \<Rightarrow>
          if overridden then (False, releaseFreeze cfg now pair window prev TransitionOverridden o2)
          else
            let out = Evaluate (Lifecycle (Phase2 cfg)) prev sig in
            if \<not> Frozen out then (False, releaseFreeze cfg now pair window prev (OTransition out) o2)
            else
              let o2 = (if \<not> Active prev \<and> \<not> time_IsZero (OverriddenAt (OState out))
                        then count_metric RefiredAfterOverride o2 else o2)
              in (True, engageFreeze cfg now pair window frozenValue decision out o2))"

text \<open>The signal of one bucket; \<open>conf\<close> is \<open>None\<close> when the bucket could not be scored.\<close>

record scored_bucket =
  sbScore :: confidenceWithSourceCount
  sbFactors :: Factors
  sbReleaseCorroborated :: bool
  sbCompositeCorroborated :: bool

definition bucket_signal :: "Phase2Thresholds \<Rightarrow> gotime \<Rightarrow> scored_bucket option \<Rightarrow> Signal" where
  "bucket_signal t now conf =
     (let sig = \<lparr>Now = now, Fires = False, Scored = False, Confidence = FFin 0, ZScore = FFin 0,
            SigCorroborated = False, ReleaseCorroborated = False\<rparr>
      in case conf of
           None \<Rightarrow> sig
         | Some c \<Rightarrow>
             let fires = phase2FreezeFires (sbScore c) t in
             sig\<lparr>Scored := True, Confidence := cConfidence (sbScore c), ZScore := cZScore (sbScore c),
                 Fires := fires \<and> \<not> sbCompositeCorroborated c,
                 SigCorroborated := corroborated (sbFactors c), ReleaseCorroborated := sbReleaseCorroborated c\<rparr>)"

definition stepPhase2Freeze ::
  "'d orch_config \<Rightarrow> Pair \<Rightarrow> duration \<Rightarrow> gotime \<Rightarrow> scored_bucket option \<Rightarrow> string \<Rightarrow> Decision \<Rightarrow> 'd orch \<Rightarrow> bool \<times> 'd orch" where
  "stepPhase2Freeze cfg pair window now conf frozenValue decision o1 =
     (let o2 = (case conf of
          Some c \<Rightarrow>
            if phase2FreezeFires (sbScore c) (Phase2 cfg) \<and> sbCompositeCorroborated c
            then count_metric (CompositeSuppressed (Pair_String pair)) o1 else o1
        | None \<Rightarrow> o1)
      in stepFreezeLifecycle cfg pair window frozenValue (bucket_signal (Phase2 cfg) now conf) decision o2)"

text \<open>A bucket without a price: a window that is frozen, or not yet known not to be, steps on an unscored signal.\<close>

definition unpricedBucket ::
  "'d orch_config \<Rightarrow> Pair \<Rightarrow> duration \<Rightarrow> gotime \<Rightarrow> string \<Rightarrow> Decision \<Rightarrow> 'd orch \<Rightarrow> 'd orch" where
  "unpricedBucket cfg pair window now frozenValue decision o1 =
     (case freezeStates o1 (stateKey pair window) of
        Some st \<Rightarrow>
          if Active st
          then snd (stepFreezeLifecycle cfg pair window frozenValue (bucket_signal (Phase2 cfg) now None) decision o1)
          else o1
      | None \<Rightarrow> snd (stepFreezeLifecycle cfg pair window frozenValue (bucket_signal (Phase2 cfg) now None) decision o1))"

text \<open>Whether a leg of a triangulation is frozen.\<close>

definition frozenLeg :: "'d orch_config \<Rightarrow> gotime \<Rightarrow> Pair \<Rightarrow> duration \<Rightarrow> 'd orch \<Rightarrow> bool" where
  "frozenLeg cfg now pair window o1 =
     (if stateKey pair window \<in> set (frozenThisTick o1) then True
      else LadderStillLive (state_at o1 (stateKey pair window)) (MarkerGrace (WithDefaults (Lifecycle (Phase2 cfg)))) now)"

section \<open>The lifecycle of each window\<close>

text \<open>
  The history of one pair as the aggregator lives it: buckets of its windows in any order, and restarts,
  which lose the states held in memory. On the abstract side every window has its own state that only
  \<open>advance\<close> of the lifecycle moves; a restart forgets what an inactive state remembers.
\<close>

datatype pair_event = WindowBucket duration Signal string Decision | Restart

definition restart :: "'d orch \<Rightarrow> 'd orch" where
  "restart o1 = o1\<lparr>freezeStates := \<lambda>_. None, frozenThisTick := []\<rparr>"

fun orch_event :: "'d orch_config \<Rightarrow> Pair \<Rightarrow> bool list \<times> 'd orch \<Rightarrow> pair_event \<Rightarrow> bool list \<times> 'd orch" where
  "orch_event cfg pair (outs, o1) (WindowBucket window sig v dec) =
     (let (withheld, o2) = stepFreezeLifecycle cfg pair window v sig dec o1 in (outs @ [withheld], o2))"
| "orch_event cfg pair (outs, o1) Restart = (outs, restart o1)"

fun window_event :: "Policy \<Rightarrow> bool list \<times> (duration \<Rightarrow> State) \<Rightarrow> pair_event \<Rightarrow> bool list \<times> (duration \<Rightarrow> State)" where
  "window_event p (outs, A) (WindowBucket window sig v dec) =
     (outs @ [Frozen (Evaluate p (A window) sig)], A(window := advance p (A window) (Bucket sig)))"
| "window_event p (outs, A) Restart = (outs, \<lambda>w. if Active (A w) then A w else zeroState)"

text \<open>
  A bucket is in time when every frozen window's hold plus the grace is still running (by a millisecond)
  and the times fit what JSON and a Duration can carry.
\<close>

definition in_time :: "'d orch_config \<Rightarrow> (duration \<Rightarrow> State) \<Rightarrow> duration \<Rightarrow> Signal \<Rightarrow> Decision \<Rightarrow> bool" where
  "in_time cfg A window sig dec =
     (case FreezeWriter cfg of
        None \<Rightarrow> False
      | Some w \<Rightarrow>
          let p = WithDefaults (Lifecycle (Phase2 cfg)); now = Now sig in
          window \<in> set (Windows cfg) \<and> 0 < now \<and> SetFloat64 (DDeviationPct dec) \<noteq> None \<and>
          json_time now \<and> json_time (now + InitialHold p) \<and> json_time (now + UncorroboratedInitialHold p) \<and>
          json_time (now + Extension p) \<and>
          InitialHold p + MarkerGrace p \<le> max_int64 \<and> UncorroboratedInitialHold p + MarkerGrace p \<le> max_int64 \<and>
          Extension p + MarkerGrace p \<le> max_int64 \<and>
          list_all (\<lambda>v. Active (A v) \<longrightarrow>
            now \<le> HoldUntil (A v) + ladderGrace w - 1000000 \<and> HoldUntil (A v) + MarkerGrace p - now \<le> max_int64) (Windows cfg))"

fun timely :: "'d orch_config \<Rightarrow> (duration \<Rightarrow> State) \<Rightarrow> pair_event list \<Rightarrow> bool" where
  "timely cfg A [] = True"
| "timely cfg A (WindowBucket window sig v dec # evs) =
     (in_time cfg A window sig dec \<and> timely cfg (snd (window_event (Lifecycle (Phase2 cfg)) ([], A) (WindowBucket window sig v dec))) evs)"
| "timely cfg A (Restart # evs) = timely cfg (snd (window_event (Lifecycle (Phase2 cfg)) ([], A) Restart)) evs"

definition config_ok :: "'d orch_config \<Rightarrow> bool" where
  "config_ok cfg =
     (case FreezeWriter cfg of
        None \<Rightarrow> False
      | Some w \<Rightarrow>
          writer_ok w \<and> windowLadder w = None \<and> ladder w = None \<and>
          ladderGrace w \<le> MarkerGrace (WithDefaults (Lifecycle (Phase2 cfg))) \<and>
          list_all (\<lambda>v. 0 < v) (Windows cfg) \<and> distinct (map windowLabel (Windows cfg)))"


section \<open>The marker and the windows' states\<close>

definition expected_ladders :: "duration list \<Rightarrow> (duration \<Rightarrow> State) \<Rightarrow> string \<Rightarrow> State option" where
  "expected_ladders ws A = map_of (map (\<lambda>v. (windowLabel v, A v)) (filter (\<lambda>v. Active (A v)) ws))"

text \<open>The simulation relation on Redis: no key when no window is frozen, otherwise a marker that holds the
  ladder of every frozen window and nothing else, and outlives them all.\<close>

definition marker_fits :: "'d Writer \<Rightarrow> duration list \<Rightarrow> (duration \<Rightarrow> State) \<Rightarrow> Marker \<Rightarrow> gotime \<Rightarrow> bool" where
  "marker_fits w ws A m lapse =
     (Windowed m \<and> distinct (map fst (Ladders m)) \<and> UnownedLadder m = zeroState \<and> UnownedSince m = 0 \<and>
      marshalMarker m \<noteq> None \<and> map_of (Ladders m) = expected_ladders ws A \<and>
      (\<forall>v \<in> set ws. Active (A v) \<longrightarrow> HoldUntil (A v) + ladderGrace w - 1000000 < lapse))"

definition marker_rel :: "'d Writer \<Rightarrow> duration list \<Rightarrow> Pair \<Rightarrow> (duration \<Rightarrow> State) \<Rightarrow> 'd fenv \<Rightarrow> bool" where
  "marker_rel w ws pair A e =
     (plan e = [] \<and>
      (if \<exists>v \<in> set ws. Active (A v)
       then \<exists>m lapse. cells e (Freeze (Base pair) (Quote pair)) = Some (MarkerDoc m, lapse) \<and> marker_fits w ws A m lapse
       else cells e (Freeze (Base pair) (Quote pair)) = None))"

definition alive :: "'d Writer \<Rightarrow> duration list \<Rightarrow> (duration \<Rightarrow> State) \<Rightarrow> gotime \<Rightarrow> bool" where
  "alive w ws A now =
     (\<forall>v \<in> set ws. Active (A v) \<longrightarrow>
        now \<le> HoldUntil (A v) + ladderGrace w - 1000000 \<and> HoldUntil (A v) + ladderGrace w - now \<le> max_int64)"

lemma expected_ladders_label:
  assumes "distinct (map windowLabel ws)" "v \<in> set ws"
  shows "expected_ladders ws A (windowLabel v) = (if Active (A v) then Some (A v) else None)"
proof -
  have inj: "inj_on windowLabel (set ws)" using assms(1) by (simp add: distinct_map)
  have "distinct (map fst (map (\<lambda>v. (windowLabel v, A v)) (filter (\<lambda>v. Active (A v)) ws)))"
    using assms(1) by (simp add: o_def distinct_map inj_on_def)
  then show ?thesis
    using assms(2) inj unfolding expected_ladders_def
    by (auto simp: map_of_eq_Some_iff map_of_eq_None_iff image_iff dest: inj_onD)
qed

lemma expected_ladders_SomeD:
  "expected_ladders ws A l = Some st \<Longrightarrow> \<exists>v \<in> set ws. l = windowLabel v \<and> st = A v \<and> Active (A v)"
  unfolding expected_ladders_def by (drule map_of_SomeD) auto

lemma expected_ladders_other: "l \<notin> windowLabel ` set ws \<Longrightarrow> expected_ladders ws A l = None"
  unfolding expected_ladders_def by (auto simp: map_of_eq_None_iff)

lemma expected_ladders_update:
  assumes "distinct (map windowLabel ws)" "window \<in> set ws"
  shows "expected_ladders ws (A(window := st)) =
    (expected_ladders ws A)(windowLabel window := if Active st then Some st else None)"
proof
  fix l
  show "expected_ladders ws (A(window := st)) l =
    ((expected_ladders ws A)(windowLabel window := if Active st then Some st else None)) l"
  proof (cases "l \<in> windowLabel ` set ws")
    case True
    then obtain v where v: "v \<in> set ws" "l = windowLabel v" by blast
    have "windowLabel v = windowLabel window \<longleftrightarrow> v = window"
      using assms v(1) by (auto simp: distinct_map dest: inj_onD)
    then show ?thesis using expected_ladders_label [OF assms(1) v(1)] v(2) by simp
  next
    case False
    then show ?thesis using assms(2) by (auto simp: expected_ladders_other)
  qed
qed

lemma expected_ladders_cong: "(\<And>v. v \<in> set ws \<Longrightarrow> A v = B v) \<Longrightarrow> expected_ladders ws A = expected_ladders ws B"
proof -
  assume "\<And>v. v \<in> set ws \<Longrightarrow> A v = B v"
  then have "map (\<lambda>v. (windowLabel v, A v)) (filter (\<lambda>v. Active (A v)) ws) =
      map (\<lambda>v. (windowLabel v, B v)) (filter (\<lambda>v. Active (B v)) ws)"
    by (induction ws) auto
  then show ?thesis by (simp add: expected_ladders_def)
qed

lemma alive_live:
  "alive w ws A now \<Longrightarrow> v \<in> set ws \<Longrightarrow> Active (A v) \<Longrightarrow> LadderStillLive (A v) (ladderGrace w) now"
  by (auto simp: alive_def LadderStillLive_def)

lemma marker_fits_live:
  assumes "marker_fits w ws A m lapse" "alive w ws A now" "(l, st) \<in> set (Ladders m)"
  shows "LadderStillLive st (ladderGrace w) now" "\<exists>v \<in> set ws. l = windowLabel v \<and> st = A v \<and> Active (A v)"
proof -
  have "distinct (map fst (Ladders m))" using assms(1) by (simp add: marker_fits_def)
  then have "map_of (Ladders m) l = Some st" using assms(3) by (rule map_of_is_SomeI)
  then show "\<exists>v \<in> set ws. l = windowLabel v \<and> st = A v \<and> Active (A v)"
    using assms(1) expected_ladders_SomeD by (simp add: marker_fits_def)
  then show "LadderStillLive st (ladderGrace w) now" using alive_live [OF assms(2)] by blast
qed

text \<open>Within the holds the marker is there to be read.\<close>

lemma marker_rel_read:
  assumes "marker_rel w ws pair A e" "alive w ws A now" "\<exists>v \<in> set ws. Active (A v)"
  obtains m lapse where "cells e (Freeze (Base pair) (Quote pair)) = Some (MarkerDoc m, lapse)" "marker_fits w ws A m lapse"
    "now \<le> lapse" "marker_of now (Base pair) (Quote pair) e = Some m"
proof -
  obtain m lapse where m: "cells e (Freeze (Base pair) (Quote pair)) = Some (MarkerDoc m, lapse)" "marker_fits w ws A m lapse"
    using assms(1,3) by (auto simp: marker_rel_def)
  obtain v where "v \<in> set ws" "Active (A v)" using assms(3) by blast
  then have "now \<le> lapse" using m(2) assms(2) by (force simp: marker_fits_def alive_def)
  then show ?thesis using that [OF m] marker_of_live [OF m(1)] by blast
qed

lemma marker_rel_none:
  assumes "marker_rel w ws pair A e" "\<not> (\<exists>v \<in> set ws. Active (A v))"
  shows "cells e (Freeze (Base pair) (Quote pair)) = None" "marker_of now (Base pair) (Quote pair) e = None"
  using assms by (auto simp: marker_rel_def marker_of_def live_doc_def)

section \<open>The writer keeps the relation\<close>

lemma mark_body_window:
  assumes "0 < window" "g = retire_unowned w now (merge_base w now asset quote d prior)"
  shows "mark_body w now asset quote window dec state d prior =
    \<lparr>MAssetID = Asset_String asset, MQuoteID = Asset_String quote, MAction = DAction dec, MClass = DClass dec,
     MDeviationPct = DDeviationPct dec, MReason = DReason dec, FrozenAt = now, Windowed = True,
     Ladders = (if Active state then AList.update (windowLabel window) state (mLadders g)
                else AList.delete (windowLabel window) (mLadders g)),
     UnownedLadder = mUnowned g, UnownedSince = mUnownedSince g, MState = state\<rparr>"
  using assms(1)
  by (simp add: mark_body_def merge_ladders_of_def held_marker_def assms(2) [symmetric] Let_def split: option.splits)


lemma json_zero [simp]: "json_time 0" "json_State zeroState"
  by (simp_all add: json_time_def json_State_def zeroState_def go_hour_def go_minute_def go_second_def)

lemma set_update_subset: "set (AList.update k v xs) \<subseteq> insert (k, v) (set xs)"
  by (induction xs) auto

text \<open>What a mark merges with, in the relation: the frozen windows' ladders and no unowned one.\<close>

lemma merged_rel:
  assumes "marker_rel w ws pair A e" "alive w ws A now" "windowLadder w = None" "ladder w = None"
    and g: "g = retire_unowned w now (merge_base w now (Base pair) (Quote pair) d (marker_of now (Base pair) (Quote pair) e))"
  shows "mUnowned g = zeroState" "mUnownedSince g = 0" "distinct (map fst (mLadders g))"
    "map_of (mLadders g) = expected_ladders ws A" "list_all (\<lambda>(l, st). json_State st) (mLadders g)"
proof -
  have all: "mUnowned g = zeroState \<and> mUnownedSince g = 0 \<and> distinct (map fst (mLadders g)) \<and>
      map_of (mLadders g) = expected_ladders ws A \<and> list_all (\<lambda>(l, st). json_State st) (mLadders g)"
  proof (cases "\<exists>v \<in> set ws. Active (A v)")
    case True
    then obtain m lapse where m: "marker_fits w ws A m lapse" "marker_of now (Base pair) (Quote pair) e = Some m"
      using marker_rel_read [OF assms(1,2)] by metis
    have "filter (\<lambda>(k, v). LadderStillLive v (ladderGrace w) now) (Ladders m) = Ladders m"
      using marker_fits_live(1) [OF m(1) assms(2)] by (auto intro: filter_True)
    moreover have "list_all (\<lambda>(l, st). json_State st) (Ladders m)"
      using m(1) by (auto simp: marker_fits_def marshalMarker_def split: if_splits)
    ultimately show ?thesis
      using m by (simp add: g merge_base_def retire_unowned_def marker_fits_def LadderStillLive_def)
  next
    case False
    then have "filter (\<lambda>v. Active (A v)) ws = []" by (auto simp: filter_empty_conv)
    then show ?thesis
      using marker_rel_none(2) [OF assms(1) False] assms(3,4)
      by (simp add: g merge_base_def retire_unowned_def liveDurableLadders_def liveDurableLadder_def LadderStillLive_def expected_ladders_def)
  qed
  show "mUnowned g = zeroState" "mUnownedSince g = 0" "distinct (map fst (mLadders g))"
    "map_of (mLadders g) = expected_ladders ws A" "list_all (\<lambda>(l, st). json_State st) (mLadders g)"
    using all by simp_all
qed

lemma mark_keeps_rel:
  assumes rel: "marker_rel w ws pair A e" "alive w ws A now"
    and w: "writer_ok w" "windowLadder w = None" "ladder w = None"
    and ws: "distinct (map windowLabel ws)" "window \<in> set ws" "0 < window"
    and st: "Active st" "json_State st" "json_time now" "SetFloat64 (DDeviationPct dec) \<noteq> None"
    and t: "0 < t" "HoldUntil st + ladderGrace w \<le> now + t"
  shows "\<exists>e'. MarkHoldForWindow w now (Base pair) (Quote pair) window v dec st t e = (None, e') \<and>
    marker_rel w ws pair (A(window := st)) e'"
proof -
  let ?a = "Base pair" and ?q = "Quote pair"
  have p: "plan e = []" using rel(1) by (simp add: marker_rel_def)
  define g where "g = retire_unowned w now (merge_base w now ?a ?q (durable e) (marker_of now ?a ?q e))"
  note g = merged_rel [OF rel w(2,3) g_def]
  define mk where "mk = mark_body w now ?a ?q window dec st (durable e) (marker_of now ?a ?q e)"
  note mk = mark_body_window [OF ws(3) g_def, of dec st, folded mk_def]
  have js: "list_all (\<lambda>(l, st). json_State st) (AList.update (windowLabel window) st (mLadders g))"
    using g(5) st(2) set_update_subset [of "windowLabel window" st "mLadders g"] by (fastforce simp: list_all_iff)
  then have ok: "marshalMarker mk = Some (MarkerDoc mk)" using g st by (simp add: marshalMarker_def mk)
  obtain e' where e': "markHold w now ?a ?q window v dec st t e = (None, e')" "plan e' = []"
    using markHold_unfold [OF readMarker_ok [OF p], where w = w and window = window and dec = dec and state = st and v = v and t = t
        and asset = ?a and quote = ?q and now = now]
      ok p by (auto simp: mk_def [symmetric] redis_ok split: option.splits)
  from w(1) e'(1) obtain lapse where
    c: "cells e' (Freeze ?a ?q) = Some (MarkerDoc mk, lapse)" and own: "now + t - 1000000 < lapse" and
    life: "\<And>st. st \<in> owned_ladders mk (windowLabel window) \<Longrightarrow> LadderStillLive st (ladderGrace w) now \<Longrightarrow>
       HoldUntil st + ladderGrace w - now \<le> max_int64 \<Longrightarrow> HoldUntil st + ladderGrace w - 1000000 < lapse"
    using p t(1) by (elim mark_lifetime) (auto simp: mk_def)
  have lad: "map_of (Ladders mk) = expected_ladders ws (A(window := st))"
    using expected_ladders_update [OF ws(1,2), of A st] st(1) by (simp add: mk update_conv' g(4))
  have "HoldUntil ((A(window := st)) v) + ladderGrace w - 1000000 < lapse" if "v \<in> set ws" "Active ((A(window := st)) v)" for v
  proof (cases "v = window")
    case True
    then show ?thesis using own t(2) by simp
  next
    case False
    then have "map_of (Ladders mk) (windowLabel v) = Some (A v)" using lad expected_ladders_label [OF ws(1) that(1)] that(2) by simp
    moreover have "windowLabel v \<noteq> windowLabel window" using ws(1,2) that(1) False by (auto simp: distinct_map dest: inj_onD)
    ultimately have "A v \<in> owned_ladders mk (windowLabel window)" by (force simp: owned_ladders_def dest: map_of_SomeD)
    then show ?thesis using life [OF _ alive_live [OF rel(2) that(1)]] rel(2) that False by (simp add: alive_def)
  qed
  moreover have "Windowed mk" "distinct (map fst (Ladders mk))" "UnownedLadder mk = zeroState" "UnownedSince mk = 0"
    using g(1-3) st(1) by (simp_all add: mk distinct_update)
  ultimately have "marker_fits w ws (A(window := st)) mk lapse" using ok lad by (simp add: marker_fits_def)
  moreover have "\<exists>v \<in> set ws. Active ((A(window := st)) v)" using ws(2) st(1) by (intro bexI [of _ window]) simp_all
  ultimately show ?thesis using e' c by (auto simp: MarkHoldForWindow_def marker_rel_def)
qed


lemma cache_SetXX_ok:
  "plan e = [] \<Longrightarrow> cells e key = Some (d0, lapse) \<Longrightarrow> now \<le> lapse \<Longrightarrow>
   cache_SetXX now key d e = (False, e\<lparr>cells := (cells e)(key := Some (d, lapse))\<rparr>)"
  by (simp add: cache_SetXX_def cache_effect_def redis_ok)

lemma marker_fits_retire:
  assumes "marker_fits w ws A m lapse" "distinct (map windowLabel ws)" "window \<in> set ws"
  defines "m' \<equiv> m\<lparr>Ladders := AList.delete (windowLabel window) (Ladders m)\<rparr>"
  shows "marker_fits w ws (A(window := zeroState)) m' lapse" "marshalMarker m' = Some (MarkerDoc m')"
proof -
  have "set (AList.delete (windowLabel window) (Ladders m)) \<subseteq> set (Ladders m)" by (auto simp: AList.delete_eq)
  then show j: "marshalMarker m' = Some (MarkerDoc m')"
    using assms(1) by (auto simp: marker_fits_def marshalMarker_def m'_def list_all_iff split: if_splits)
  have "map_of (Ladders m') = expected_ladders ws (A(window := zeroState))"
    using assms(1) expected_ladders_update [OF assms(2,3), of A zeroState] by (simp add: marker_fits_def m'_def delete_conv')
  moreover have "distinct (map fst (Ladders m'))"
    using assms(1) by (simp add: marker_fits_def m'_def AList.delete_eq distinct_filter_labels)
  ultimately show "marker_fits w ws (A(window := zeroState)) m' lapse"
    using assms(1) j by (simp add: marker_fits_def m'_def)
qed

lemma retire_keeps_rel:
  assumes rel: "marker_rel w ws pair A e" "alive w ws A now" and w: "windowLadder w = None"
    and ws: "distinct (map windowLabel ws)" "window \<in> set ws" "0 < window"
    and A: "Active (A window)" "\<exists>v \<in> set ws. v \<noteq> window \<and> Active (A v)"
  shows "marker_rel w ws pair (A(window := zeroState)) (snd (RetireWindowLadder w now (Base pair) (Quote pair) window e))"
proof -
  have p: "plan e = []" using rel(1) by (simp add: marker_rel_def)
  obtain m lapse where m: "cells e (Freeze (Base pair) (Quote pair)) = Some (MarkerDoc m, lapse)" "marker_fits w ws A m lapse"
    "now \<le> lapse" "marker_of now (Base pair) (Quote pair) e = Some m"
    using marker_rel_read [OF rel] A(2) by blast
  let ?m = "m\<lparr>Ladders := AList.delete (windowLabel window) (Ladders m)\<rparr>"
  note fits = marker_fits_retire [OF m(2) ws(1,2)]
  have "map_of (Ladders m) (windowLabel window) \<noteq> None" "Windowed m"
    using m(2) A(1) expected_ladders_label [OF ws(1,2), of A] by (simp_all add: marker_fits_def)
  then have "snd (RetireWindowLadder w now (Base pair) (Quote pair) window e) =
      e\<lparr>cells := (cells e)(Freeze (Base pair) (Quote pair) := Some (MarkerDoc ?m, lapse))\<rparr>"
    using ws(3) w fits(2) m p by (auto simp: RetireWindowLadder_def redis_ok cache_SetXX_ok [OF p m(1,3)] Let_def)
  moreover have "\<exists>v \<in> set ws. Active ((A(window := zeroState)) v)" using A(2) by auto
  ultimately show ?thesis using fits(1) p by (simp add: marker_rel_def)
qed

lemma release_keeps_rel:
  assumes rel: "marker_rel w ws pair A e" "alive w ws A now" and w: "windowLadder w = None" "ladder w = None"
    and ws: "distinct (map windowLabel ws)" "window \<in> set ws" "0 < window"
    and A: "Active (A window)"
  shows "marker_rel w ws pair (A(window := zeroState)) (snd (ReleaseWindow w now (Base pair) (Quote pair) window e))"
proof -
  have p: "plan e = []" using rel(1) by (simp add: marker_rel_def)
  obtain m lapse where m: "cells e (Freeze (Base pair) (Quote pair)) = Some (MarkerDoc m, lapse)" "marker_fits w ws A m lapse"
    "now \<le> lapse" "marker_of now (Base pair) (Quote pair) e = Some m"
    using marker_rel_read [OF rel] A ws(2) by blast
  have win: "Windowed m" using m(2) by (simp add: marker_fits_def)
  have held: "siblingLadderHeld w now m (windowLabel window) \<longleftrightarrow> (\<exists>v \<in> set ws. v \<noteq> window \<and> Active (A v))"
  proof
    assume "siblingLadderHeld w now m (windowLabel window)"
    then obtain l st where "(l, st) \<in> set (Ladders m)" "l \<noteq> windowLabel window"
      using m(2) by (auto simp: siblingLadderHeld_def list_ex_iff marker_fits_def LadderStillLive_def)
    then show "\<exists>v \<in> set ws. v \<noteq> window \<and> Active (A v)" using marker_fits_live(2) [OF m(2) rel(2)] by metis
  next
    assume "\<exists>v \<in> set ws. v \<noteq> window \<and> Active (A v)"
    then obtain v where v: "v \<in> set ws" "v \<noteq> window" "Active (A v)" by blast
    then have "map_of (Ladders m) (windowLabel v) = Some (A v)"
      using m(2) expected_ladders_label [OF ws(1) v(1)] by (simp add: marker_fits_def)
    moreover have "windowLabel v \<noteq> windowLabel window" using ws(1,2) v by (auto simp: distinct_map dest: inj_onD)
    ultimately show "siblingLadderHeld w now m (windowLabel window)"
      using alive_live [OF rel(2) v(1,3)] by (force simp: siblingLadderHeld_def list_ex_iff dest: map_of_SomeD)
  qed
  show ?thesis
  proof (cases "siblingLadderHeld w now m (windowLabel window)")
    case True
    then have "snd (ReleaseWindow w now (Base pair) (Quote pair) window e) =
        snd (RetireWindowLadder w now (Base pair) (Quote pair) window e)"
      using ws(3) m(4) p win by (simp add: ReleaseWindow_def redis_ok Let_def case_prod_beta)
    then show ?thesis using retire_keeps_rel [OF rel w(1) ws A] True held by simp
  next
    case False
    then have "snd (ReleaseWindow w now (Base pair) (Quote pair) window e) =
        e\<lparr>cells := (cells e)(Freeze (Base pair) (Quote pair) := None)\<rparr>"
      using ws(3) m(4) p w by (simp add: ReleaseWindow_def redis_ok Let_def durableSiblingHeld_def Clear_def)
    moreover have "\<not> (\<exists>v \<in> set ws. Active ((A(window := zeroState)) v))" using False held by auto
    ultimately show ?thesis using p by (simp add: marker_rel_def)
  qed
qed

section \<open>The step follows the window's own lifecycle\<close>

definition orch_rel :: "'d orch_config \<Rightarrow> Pair \<Rightarrow> (duration \<Rightarrow> State) \<Rightarrow> 'd orch \<Rightarrow> bool" where
  "orch_rel cfg pair A o1 =
     (\<exists>w. FreezeWriter cfg = Some w \<and> marker_rel w (Windows cfg) pair A (fenv_of o1) \<and>
       (\<forall>v \<in> set (Windows cfg). json_State (A v) \<and>
          (case freezeStates o1 (stateKey pair v) of Some st \<Rightarrow> st = A v | None \<Rightarrow> Active (A v) \<or> A v = zeroState)))"

lemma stateKey_inject:
  "0 < v \<Longrightarrow> 0 < v' \<Longrightarrow> stateKey pair v = stateKey pair v' \<longleftrightarrow> windowLabel v = windowLabel v'"
  by (simp add: stateKey_def windowLabel_def)

lemma LoadState_present:
  assumes "marker_rel w ws pair A e" "alive w ws A now" "\<exists>v \<in> set ws. Active (A v)"
  shows "\<exists>st. LoadState w now (Base pair) (Quote pair) e = (Inr (st, True), e)"
proof -
  obtain m lapse where "cells e (Freeze (Base pair) (Quote pair)) = Some (MarkerDoc m, lapse)" "now \<le> lapse"
    using marker_rel_read [OF assms] by metis
  then show ?thesis using assms(1)
    by (simp add: LoadState_def loadState_def marker_rel_def redis_ok live_doc_def)
qed

lemma LoadStateForWindow_rel:
  assumes "marker_rel w ws pair A e" "alive w ws A now" "windowLadder w = None" "ladder w = None"
    "distinct (map windowLabel ws)" "window \<in> set ws" "0 < window" "Active (A window) \<or> A window = zeroState"
  shows "\<exists>ok. LoadStateForWindow w now (Base pair) (Quote pair) window e = (Inr (A window, ok), e) \<and> (Active (A window) \<longrightarrow> ok)"
proof (cases "\<exists>v \<in> set ws. Active (A v)")
  case True
  then obtain m lapse where m: "cells e (Freeze (Base pair) (Quote pair)) = Some (MarkerDoc m, lapse)" "marker_fits w ws A m lapse"
    "now \<le> lapse" using marker_rel_read [OF assms(1,2)] by metis
  have "map_of (Ladders m) (windowLabel window) = (if Active (A window) then Some (A window) else None)"
    using m(2) expected_ladders_label [OF assms(5,6)] by (simp add: marker_fits_def)
  then show ?thesis
    using m assms(1,7,8) alive_live [OF assms(2,6)]
    by (auto simp: LoadStateForWindow_def loadState_def marker_rel_def redis_ok live_doc_def marker_fits_def
        unownedAdoptable_def LadderStillLive_def [of zeroState])
next
  case False
  then have "A window = zeroState" using assms(6,8) by blast
  then show ?thesis
    using marker_rel_none(1) [OF assms(1) False] assms(1,3,4)
    by (intro exI [of _ False]) (simp add: LoadStateForWindow_def loadState_def marker_rel_def redis_ok live_doc_def loadDurableLadder_def)
qed


lemma in_time_alive:
  assumes "config_ok cfg" "FreezeWriter cfg = Some w" "in_time cfg A window sig dec"
  shows "alive w (Windows cfg) A (Now sig)"
proof -
  have "ladderGrace w \<le> MarkerGrace (WithDefaults (Lifecycle (Phase2 cfg)))" using assms(1,2) by (simp add: config_ok_def)
  then show ?thesis using assms(2,3) by (force simp: alive_def in_time_def Let_def list_all_iff)
qed

lemma config_okD:
  assumes "config_ok cfg" "FreezeWriter cfg = Some w"
  shows "writer_ok w" "windowLadder w = None" "ladder w = None" "distinct (map windowLabel (Windows cfg))"
    "v \<in> set (Windows cfg) \<Longrightarrow> 0 < v" "ladderGrace w \<le> MarkerGrace (WithDefaults (Lifecycle (Phase2 cfg)))"
  using assms by (auto simp: config_ok_def list_all_iff)

lemma stateKey_windows:
  assumes "config_ok cfg" "v \<in> set (Windows cfg)" "v' \<in> set (Windows cfg)"
  shows "stateKey pair v = stateKey pair v' \<longleftrightarrow> v = v'"
proof -
  obtain w where w: "FreezeWriter cfg = Some w" using assms(1) by (auto simp: config_ok_def split: option.splits)
  note c = config_okD [OF assms(1) w]
  have "0 < v" "0 < v'" using c(5) assms(2,3) by blast+
  then have "stateKey pair v = stateKey pair v' \<longleftrightarrow> windowLabel v = windowLabel v'" by (rule stateKey_inject)
  also have "\<dots> \<longleftrightarrow> v = v'" using c(4) assms(2,3) by (auto simp: distinct_map dest: inj_onD)
  finally show ?thesis .
qed

text \<open>Setting one window's state, with the marker following.\<close>

lemma orch_rel_put:
  assumes "config_ok cfg" "orch_rel cfg pair A o1" "FreezeWriter cfg = Some w" "window \<in> set (Windows cfg)" "json_State st"
    "marker_rel w (Windows cfg) pair (A(window := st)) (fenv_of o2)"
    "freezeStates o2 = (freezeStates o1)(stateKey pair window := Some st)"
  shows "orch_rel cfg pair (A(window := st)) o2"
  unfolding orch_rel_def
proof (intro exI [of _ w] conjI ballI)
  fix v assume v: "v \<in> set (Windows cfg)"
  show "json_State ((A(window := st)) v)" using assms(2,5) v by (auto simp: orch_rel_def)
  show "case freezeStates o2 (stateKey pair v) of Some s \<Rightarrow> s = (A(window := st)) v
      | None \<Rightarrow> Active ((A(window := st)) v) \<or> (A(window := st)) v = zeroState"
    using assms(2,7) v stateKey_windows [OF assms(1) v assms(4), of pair] by (cases "v = window") (auto simp: orch_rel_def split: option.splits)
qed (use assms(3,6) in simp_all)

lemma marker_rel_same: "marker_rel w ws pair (A(window := A window)) e = marker_rel w ws pair A e"
  by simp

lemma loadFreezeState_rel:
  assumes "config_ok cfg" "orch_rel cfg pair A o1" "FreezeWriter cfg = Some w" "alive w (Windows cfg) A now" "window \<in> set (Windows cfg)"
  shows "\<exists>o2. loadFreezeState cfg now pair window o1 = (Inr (A window, False), o2) \<and> fenv_of o2 = fenv_of o1 \<and>
    freezeStates o2 = (freezeStates o1)(stateKey pair window := Some (A window))"
proof -
  note c = config_okD [OF assms(1,3)]
  let ?k = "stateKey pair window"
  have rel: "marker_rel w (Windows cfg) pair A (fenv_of o1)" using assms(2,3) by (auto simp: orch_rel_def)
  show ?thesis
  proof (cases "freezeStates o1 ?k")
    case None
    then have "Active (A window) \<or> A window = zeroState" using assms(2,5) by (auto simp: orch_rel_def)
    from LoadStateForWindow_rel [OF rel assms(4) c(2,3,4) assms(5) c(5) [OF assms(5)] this] this None
    show ?thesis
      by (auto simp: loadFreezeState_def assms(3) writer_call_def put_state_def state_at_def Let_def split: if_splits)
  next
    case (Some st)
    then have st: "st = A window" using assms(2,5) by (auto simp: orch_rel_def split: option.splits)
    have same: "(freezeStates o1)(?k := Some (A window)) = freezeStates o1" using Some st by (simp add: fun_upd_idem)
    show ?thesis
    proof (cases "Active (A window)")
      case True
      then obtain x where "LoadState w now (Base pair) (Quote pair) (fenv_of o1) = (Inr (x, True), fenv_of o1)"
        using LoadState_present [OF rel assms(4)] assms(5) by blast
      then show ?thesis using True Some st same by (simp add: loadFreezeState_def assms(3) writer_call_def state_at_def)
    next
      case False
      then show ?thesis using Some st same by (simp add: loadFreezeState_def assms(3) state_at_def)
    qed
  qed
qed

text \<open>The state a frozen outcome carries, and its marker's lifetime.\<close>

lemma Evaluate_frozen:
  assumes "Frozen (Evaluate p st sig)"
  obtains st' tr where "Evaluate p st sig = frozen (WithDefaults p) st' tr (Now sig)"
    "FiredAt st' = (if Active st then FiredAt st else Now sig)" "OverriddenAt st' \<in> {OverriddenAt st, 0}"
    "HoldUntil st' = HoldUntil st \<and> Active st \<or>
     HoldUntil st' \<in> {Now sig + InitialHold (WithDefaults p), Now sig + UncorroboratedInitialHold (WithDefaults p),
       Now sig + Extension (WithDefaults p)}"
proof -
  define Q where "Q = (\<lambda>out. \<exists>st' tr. out = frozen (WithDefaults p) st' tr (Now sig) \<and>
    FiredAt st' = (if Active st then FiredAt st else Now sig) \<and> OverriddenAt st' \<in> {OverriddenAt st, 0} \<and>
    (HoldUntil st' = HoldUntil st \<and> Active st \<or>
     HoldUntil st' \<in> {Now sig + InitialHold (WithDefaults p), Now sig + UncorroboratedInitialHold (WithDefaults p),
       Now sig + Extension (WithDefaults p)}))"
  have Q: "Q (frozen (WithDefaults p) st' tr (Now sig))"
    if "FiredAt st' = (if Active st then FiredAt st else Now sig)" "OverriddenAt st' \<in> {OverriddenAt st, 0}"
      "HoldUntil st' = HoldUntil st \<and> Active st \<or>
       HoldUntil st' \<in> {Now sig + InitialHold (WithDefaults p), Now sig + UncorroboratedInitialHold (WithDefaults p),
         Now sig + Extension (WithDefaults p)}" for st' tr
    using that unfolding Q_def by blast
  have "Q (Evaluate p st sig)"
  proof (cases "Active st")
    case True
    then show ?thesis using assms unfolding Evaluate_def Let_def by (auto intro!: Q split: if_splits)
  next
    case False
    then show ?thesis using assms unfolding Evaluate_def fire_def Let_def
      by (auto intro!: Q simp: initialHold_def zeroState_def split: if_splits)
  qed
  then show ?thesis using that unfolding Q_def by blast
qed

lemma frozen_ttl:
  assumes "HoldUntil st - now + MarkerGrace q \<le> max_int64" "MarkerGrace q \<le> max_int64" "0 < MarkerGrace q"
  shows "MarkerTTL (frozen q st tr now) = max 0 (HoldUntil st - now) + MarkerGrace q"
proof -
  have "(if time_Sub (HoldUntil st) now < 0 then 0 else time_Sub (HoldUntil st) now) = max 0 (HoldUntil st - now)"
    using assms by (auto simp: time_Sub_def min_int64_def max_int64_def)
  moreover have "wrap64 (max 0 (HoldUntil st - now) + MarkerGrace q) = max 0 (HoldUntil st - now) + MarkerGrace q"
    using assms by (intro wrap64_id) (auto simp: min_int64_def)
  ultimately show ?thesis by (simp add: frozen_def Let_def)
qed


lemma orch_simps [simp]:
  "fenv_of (put_state k st o1) = fenv_of o1" "freezeStates (put_state k st o1) = (freezeStates o1)(k := Some st)"
  "fenv_of (count_metric m o1) = fenv_of o1" "freezeStates (count_metric m o1) = freezeStates o1"
  "fenv_of (transition_metric tr o1) = fenv_of o1" "freezeStates (transition_metric tr o1) = freezeStates o1"
  "fenv_of (markFrozenThisTick pr win o1) = fenv_of o1" "freezeStates (markFrozenThisTick pr win o1) = freezeStates o1"
  "fenv_of (snd (writer_call f o1)) = snd (f (fenv_of o1))" "freezeStates (snd (writer_call f o1)) = freezeStates o1"
  by (auto simp: put_state_def count_metric_def transition_metric_def markFrozenThisTick_def writer_call_def Let_def case_prod_beta
      split: Transition.splits)

text \<open>A frozen outcome.\<close>

lemma engageFreeze_rel:
  assumes cfg: "config_ok cfg" "FreezeWriter cfg = Some w" and rel: "orch_rel cfg pair A o1" and time: "in_time cfg A window sig dec"
    and fr: "Frozen (Evaluate (Lifecycle (Phase2 cfg)) (A window) sig)"
    and o2: "fenv_of o2 = fenv_of o1" "freezeStates o2 = (freezeStates o1)(stateKey pair window := Some (A window))"
  defines "out \<equiv> Evaluate (Lifecycle (Phase2 cfg)) (A window) sig"
  shows "orch_rel cfg pair (A(window := OState out)) (engageFreeze cfg (Now sig) pair window v dec out o2)"
proof -
  note c = config_okD [OF cfg] and al = in_time_alive [OF cfg time]
  let ?p = "WithDefaults (Lifecycle (Phase2 cfg))" and ?now = "Now sig"
  have win: "window \<in> set (Windows cfg)" using time cfg(2) by (simp add: in_time_def Let_def)
  note pos = c(5) [OF win]
  have t: "0 < ?now" "SetFloat64 (DDeviationPct dec) \<noteq> None" "json_time ?now" "json_time (?now + InitialHold ?p)"
    "json_time (?now + UncorroboratedInitialHold ?p)" "json_time (?now + Extension ?p)"
    "InitialHold ?p + MarkerGrace ?p \<le> max_int64" "UncorroboratedInitialHold ?p + MarkerGrace ?p \<le> max_int64"
    "Extension ?p + MarkerGrace ?p \<le> max_int64"
    "Active (A window) \<Longrightarrow> HoldUntil (A window) + MarkerGrace ?p - ?now \<le> max_int64"
    using time cfg(2) by (auto simp: in_time_def Let_def list_all_iff)
  obtain st tr where st: "out = frozen ?p st tr ?now" "FiredAt st = (if Active (A window) then FiredAt (A window) else ?now)"
    "OverriddenAt st \<in> {OverriddenAt (A window), 0}"
    "HoldUntil st = HoldUntil (A window) \<and> Active (A window) \<or>
     HoldUntil st \<in> {?now + InitialHold ?p, ?now + UncorroboratedInitialHold ?p, ?now + Extension ?p}"
    using Evaluate_frozen [OF fr] unfolding out_def by metis
  have j: "json_State (A window)" using rel win by (auto simp: orch_rel_def)
  have act: "Active st" using st(2) t(1) by (auto simp: Active_def time_IsZero_def split: if_splits)
  have js: "json_State st" using st(2-4) j t(3-6) by (auto simp: json_State_def split: if_splits)
  have "MarkerGrace ?p \<le> max_int64" using t(9) WithDefaults_positive(3) [of "Lifecycle (Phase2 cfg)"] by linarith
  moreover have "HoldUntil st - ?now + MarkerGrace ?p \<le> max_int64" using st(4) t(7-10) by auto
  ultimately have ttl: "MarkerTTL out = max 0 (HoldUntil st - ?now) + MarkerGrace ?p"
    using frozen_ttl [of st ?now ?p tr] by (simp add: st(1))
  have "marker_rel w (Windows cfg) pair A (fenv_of o2)" using rel cfg(2) o2(1) by (auto simp: orch_rel_def)
  moreover have "0 < MarkerTTL out" "HoldUntil st + ladderGrace w \<le> ?now + MarkerTTL out"
    using ttl c(6) WithDefaults_positive(5) [of "Lifecycle (Phase2 cfg)"] by linarith+
  ultimately obtain e' where e': "MarkHoldForWindow w ?now (Base pair) (Quote pair) window v dec st (MarkerTTL out) (fenv_of o2) = (None, e')"
    "marker_rel w (Windows cfg) pair (A(window := st)) e'"
    using mark_keeps_rel [OF _ al c(1-4) win pos act js t(3,2), of pair "fenv_of o2" "MarkerTTL out"] by blast
  show ?thesis
    by (rule orch_rel_put [OF cfg(1) rel cfg(2) win, of "OState out"])
      (use js e' o2 in \<open>simp_all add: engageFreeze_def cfg(2) st(1) Let_def\<close>)
qed

text \<open>An outcome that is not frozen.\<close>

lemma releaseFreeze_rel:
  assumes cfg: "config_ok cfg" "FreezeWriter cfg = Some w" and rel: "orch_rel cfg pair A o1"
    and al: "alive w (Windows cfg) A now" and win: "window \<in> set (Windows cfg)" and tr: "tr \<noteq> TransitionOverridden"
    and o2: "fenv_of o2 = fenv_of o1" "freezeStates o2 = (freezeStates o1)(stateKey pair window := Some (A window))"
  shows "orch_rel cfg pair (A(window := if Active (A window) then zeroState else A window))
    (releaseFreeze cfg now pair window (A window) tr o2)"
proof (cases "Active (A window)")
  case False
  have "json_State (A window)" "marker_rel w (Windows cfg) pair A (fenv_of o2)"
    using rel win cfg(2) o2(1) by (auto simp: orch_rel_def)
  then have "orch_rel cfg pair (A(window := A window)) (put_state (stateKey pair window) (A window) o2)"
    by (intro orch_rel_put [OF cfg(1) rel cfg(2) win]) (simp_all add: o2)
  then show ?thesis using False by (simp add: releaseFreeze_def)
next
  case True
  note c = config_okD [OF cfg]
  note pos = c(5) [OF win]
  define o3 where "o3 = count_metric (FreezeReleased ''auto'') (put_state (stateKey pair window) zeroState o2)"
  have mr: "marker_rel w (Windows cfg) pair A (fenv_of o3)" using rel cfg(2) o2(1) by (auto simp: orch_rel_def o3_def)
  have fs: "freezeStates o3 = (freezeStates o1)(stateKey pair window := Some zeroState)" by (simp add: o3_def o2)
  have release: "releaseFreeze cfg now pair window (A window) tr o2 =
     (if siblingWindowFrozen cfg pair window o3
      then snd (writer_call (RetireWindowLadder w now (Base pair) (Quote pair) window) o3)
      else snd (writer_call (ReleaseWindow w now (Base pair) (Quote pair) window) o3))"
    using True tr by (simp add: releaseFreeze_def cfg(2) o3_def clearReleasedMarker_def)
  have "\<exists>v \<in> set (Windows cfg). v \<noteq> window \<and> Active (A v)" if "siblingWindowFrozen cfg pair window o3"
  proof -
    obtain v where v: "v \<in> set (Windows cfg)" "v \<noteq> window" "Active (state_at o3 (stateKey pair v))"
      using \<open>siblingWindowFrozen cfg pair window o3\<close> by (auto simp: siblingWindowFrozen_def list_ex_iff)
    moreover have "stateKey pair v \<noteq> stateKey pair window" using stateKey_windows [OF cfg(1) v(1) win] v(2) by blast
    ultimately have "Active (A v)" using rel by (auto simp: orch_rel_def state_at_def fs split: option.splits)
    then show ?thesis using v by blast
  qed
  then have "marker_rel w (Windows cfg) pair (A(window := zeroState)) (fenv_of (releaseFreeze cfg now pair window (A window) tr o2))"
    unfolding release using retire_keeps_rel [OF mr al c(2,4) win pos True] release_keeps_rel [OF mr al c(2-4) win pos True]
    by (simp split: if_split)
  moreover have "freezeStates (releaseFreeze cfg now pair window (A window) tr o2) =
      (freezeStates o1)(stateKey pair window := Some zeroState)"
    unfolding release using fs by (simp split: if_split)
  ultimately show ?thesis using orch_rel_put [OF cfg(1) rel cfg(2) win, of zeroState] True by simp
qed

lemma step_rel:
  assumes "config_ok cfg" "orch_rel cfg pair A o1" "in_time cfg A window sig dec"
  shows "fst (stepFreezeLifecycle cfg pair window v sig dec o1) = Frozen (Evaluate (Lifecycle (Phase2 cfg)) (A window) sig) \<and>
    orch_rel cfg pair (A(window := advance (Lifecycle (Phase2 cfg)) (A window) (Bucket sig)))
      (snd (stepFreezeLifecycle cfg pair window v sig dec o1))"
proof -
  obtain w where w: "FreezeWriter cfg = Some w" using assms(1) by (auto simp: config_ok_def split: option.splits)
  have win: "window \<in> set (Windows cfg)" using assms(3) w by (simp add: in_time_def Let_def)
  let ?p = "Lifecycle (Phase2 cfg)"
  let ?out = "Evaluate ?p (A window) sig"
  note al = in_time_alive [OF assms(1) w assms(3)]
  obtain o2 where o2: "loadFreezeState cfg (Now sig) pair window o1 = (Inr (A window, False), o2)" "fenv_of o2 = fenv_of o1"
    "freezeStates o2 = (freezeStates o1)(stateKey pair window := Some (A window))"
    using loadFreezeState_rel [OF assms(1,2) w al win] by blast
  show ?thesis
  proof (cases "Frozen ?out")
    case True
    define o3 where "o3 = (if \<not> Active (A window) \<and> \<not> time_IsZero (OverriddenAt (OState ?out))
                        then count_metric RefiredAfterOverride o2 else o2)"
    have "fenv_of o3 = fenv_of o1" "freezeStates o3 = (freezeStates o1)(stateKey pair window := Some (A window))"
      using o2(2,3) by (simp_all add: o3_def)
    note engage = engageFreeze_rel [OF assms(1) w assms(2,3) True this, of v]
    have "stepFreezeLifecycle cfg pair window v sig dec o1 = (True, engageFreeze cfg (Now sig) pair window v dec ?out o3)"
      using True o2(1) by (simp add: stepFreezeLifecycle_def o3_def Let_def)
    then show ?thesis using engage True by (simp add: advance_def Let_def)
  next
    case False
    have "OTransition ?out \<noteq> TransitionOverridden"
      using False Evaluate_active(2) [of "A window" ?p sig] by (cases "Active (A window)") (auto simp: Evaluate_def Let_def fire_state)
    note release = releaseFreeze_rel [OF assms(1) w assms(2) al win this o2(2,3)]
    have "stepFreezeLifecycle cfg pair window v sig dec o1 = (False, releaseFreeze cfg (Now sig) pair window (A window) (OTransition ?out) o2)"
      using False o2(1) by (simp add: stepFreezeLifecycle_def Let_def)
    then show ?thesis using release False by (simp add: advance_def Let_def)
  qed
qed

lemma restart_rel:
  "orch_rel cfg pair A o1 \<Longrightarrow> orch_rel cfg pair (\<lambda>v. if Active (A v) then A v else zeroState) (restart o1)"
proof -
  assume r: "orch_rel cfg pair A o1"
  define B where "B = (\<lambda>v. if Active (A v) then A v else zeroState)"
  have act: "Active (B v) = Active (A v)" "Active (A v) \<Longrightarrow> B v = A v" for v by (simp_all add: B_def)
  have "map (\<lambda>v. (windowLabel v, B v)) (filter (\<lambda>v. Active (A v)) ws) =
      map (\<lambda>v. (windowLabel v, A v)) (filter (\<lambda>v. Active (A v)) ws)" for ws
    by (rule map_cong) (auto simp: act)
  then have "expected_ladders ws B = expected_ladders ws A" for ws
    unfolding expected_ladders_def act(1) by (rule arg_cong)
  then have "marker_fits w ws B m lapse = marker_fits w ws A m lapse" for w :: "'a Writer" and ws m lapse
    by (auto simp: marker_fits_def act)
  then have "marker_rel w ws pair B e = marker_rel w ws pair A e" for w :: "'a Writer" and ws e
    by (simp add: marker_rel_def act)
  then show ?thesis using r by (auto simp: orch_rel_def restart_def B_def [symmetric]) (auto simp: B_def split: if_splits)
qed


lemma timely_run:
  assumes "config_ok cfg"
  shows "timely cfg A evs \<Longrightarrow> orch_rel cfg pair A o1 \<Longrightarrow>
    fst (foldl (orch_event cfg pair) (outs, o1) evs) = fst (foldl (window_event (Lifecycle (Phase2 cfg))) (outs, A) evs) \<and>
    orch_rel cfg pair (snd (foldl (window_event (Lifecycle (Phase2 cfg))) (outs, A) evs)) (snd (foldl (orch_event cfg pair) (outs, o1) evs))"
proof (induction evs arbitrary: A o1 outs)
  case (Cons ev evs)
  show ?case
  proof (cases ev)
    case (WindowBucket window sig v dec)
    then have "in_time cfg A window sig dec" and
      next_ok: "timely cfg (A(window := advance (Lifecycle (Phase2 cfg)) (A window) (Bucket sig))) evs"
      using Cons.prems(1) by simp_all
    note step = step_rel [OF assms Cons.prems(2) this(1), of v]
    have "foldl (orch_event cfg pair) (outs, o1) (ev # evs) =
        foldl (orch_event cfg pair) (outs @ [Frozen (Evaluate (Lifecycle (Phase2 cfg)) (A window) sig)],
          snd (stepFreezeLifecycle cfg pair window v sig dec o1)) evs"
      using step by (simp add: WindowBucket case_prod_beta)
    moreover have "foldl (window_event (Lifecycle (Phase2 cfg))) (outs, A) (ev # evs) =
        foldl (window_event (Lifecycle (Phase2 cfg))) (outs @ [Frozen (Evaluate (Lifecycle (Phase2 cfg)) (A window) sig)],
          A(window := advance (Lifecycle (Phase2 cfg)) (A window) (Bucket sig))) evs"
      by (simp add: WindowBucket)
    ultimately show ?thesis using Cons.IH [OF next_ok step [THEN conjunct2]] by presburger
  next
    case Restart
    then show ?thesis using Cons.IH [OF _ restart_rel [OF Cons.prems(2)]] Cons.prems(1) by simp
  qed
qed simp


definition sample_pair :: Pair where
  "sample_pair = \<lparr>Base = NativeAsset, Quote = sample_usdc\<rparr>"

definition sample_orch_config :: "unit orch_config" where
  "sample_orch_config = \<lparr>Windows = [5 * go_minute, go_hour],
     Phase2 = \<lparr>ConfidenceMaxFreeze = FFin 0, ZScoreMinFreeze = FFin 0, SourceCountMaxFreeze = 0, Lifecycle = sample_policy\<rparr>,
     FreezeWriter = Some sample_writer\<rparr>"

definition sample_orch :: "unit orch" where
  "sample_orch = \<lparr>freezeStates = \<lambda>_. None, frozenThisTick = [], freezesEngaged = 0, ometrics = [], fenv_of = sample_env\<rparr>"

text \<open>The hour window fires; after a restart the five-minute window is quiet while the hour window stays held.\<close>

definition sample_history :: "pair_event list" where
  "sample_history =
     [WindowBucket go_hour (firing_signal go_hour) ''1'' sample_decision, Restart,
      WindowBucket (5 * go_minute) (calm_signal (go_hour + go_minute)) ''1'' sample_decision,
      WindowBucket go_hour (calm_signal (go_hour + go_minute)) ''1'' sample_decision]"



text \<open>
  An operator's override is seen by a frozen window as an absent marker. When a sibling window fires in the
  same tick before it, the sibling's mark puts the marker back, and the override goes unseen: the bucket
  order decides whether the hour window is released.
\<close>

definition sample_overridden :: "unit orch" where
  "sample_overridden =
     (let o1 = snd (foldl (orch_event sample_orch_config sample_pair) ([], sample_orch)
                [WindowBucket go_hour (firing_signal go_hour) ''1'' sample_decision])
      in o1\<lparr>fenv_of := snd (Clear sample_writer NativeAsset sample_usdc (fenv_of o1))\<rparr>)"

lemma override_unseen_after_sibling_fires:
  "fst (foldl (orch_event sample_orch_config sample_pair) ([], sample_overridden)
     [WindowBucket (5 * go_minute) (firing_signal (go_hour + go_minute)) ''1'' sample_decision,
      WindowBucket go_hour (calm_signal (go_hour + go_minute)) ''1'' sample_decision]) = [True, True]"
  "fst (foldl (orch_event sample_orch_config sample_pair) ([], sample_overridden)
     [WindowBucket go_hour (calm_signal (go_hour + go_minute)) ''1'' sample_decision,
      WindowBucket (5 * go_minute) (firing_signal (go_hour + go_minute)) ''1'' sample_decision]) = [False, True]"
  by code_simp+

end
