(* ===== verification/HashDB.thy ===== *)
theory HashDB
  imports GoText GoErr
begin

text \<open>
  \<open>internal/hashdb/hashdb.go\<close>: the file that remembers the hash of every ledger as it was first seen.
  A file is its list of bytes, a disk maps paths to files. What the operating system may answer to a call
  (a refused open, a write that stops after some bytes, a failed sync or read) is the argument \<open>os\<close> of
  the operation. \<open>Hash\<close> is \<open>crypto/sha256\<close> and is left to the callers.
\<close>

unbundle bit_operations_syntax

type_synonym byte = "8 word"
type_synonym bytes = "byte list"
type_synonym disk = "string \<Rightarrow> bytes option"

datatype hash_error = ErrOutOfRange | ErrMissing | ErrDrift | ErrBadMagic | ErrBadVersion
  | ErrNotExist | ErrShortRead | ErrOS

text \<open>\<open>os_write = Some k\<close>: the write reports an error after \<open>k\<close> bytes reached the file.\<close>

record os_answer =
  os_open :: bool
  os_write :: "nat option"
  os_sync :: bool
  os_read :: bool

definition os_fine :: os_answer where
  "os_fine = \<lparr>os_open = True, os_write = None, os_sync = True, os_read = True\<rparr>"

section \<open>Files\<close>

text \<open>\<open>WriteAt\<close> past the end leaves a hole of zeros; an empty write changes nothing.\<close>

definition write_at :: "bytes \<Rightarrow> nat \<Rightarrow> bytes \<Rightarrow> bytes" where
  "write_at f off b =
     (if b = [] then f
      else take off (f @ replicate (off - length f) 0) @ b @ drop (off + length b) f)"

definition os_WriteAt :: "os_answer \<Rightarrow> bytes \<Rightarrow> nat \<Rightarrow> bytes \<Rightarrow> bytes \<times> bool" where
  "os_WriteAt os f off b =
     (case os_write os of None \<Rightarrow> (write_at f off b, True) | Some k \<Rightarrow> (write_at f off (take k b), False))"

text \<open>\<open>binary.BigEndian\<close>.\<close>

definition PutUint32 :: "32 word \<Rightarrow> bytes" where
  "PutUint32 v = [ucast (drop_bit 24 v), ucast (drop_bit 16 v), ucast (drop_bit 8 v), ucast v]"

definition Uint32 :: "bytes \<Rightarrow> 32 word" where
  "Uint32 b = ucast (b ! 3) OR push_bit 8 (ucast (b ! 2)) OR push_bit 16 (ucast (b ! 1)) OR push_bit 24 (ucast (b ! 0))"

section \<open>hashdb.go\<close>

definition magic :: bytes where
  "magic = map (\<lambda>c. of_nat (of_char c)) ''rxhashdb''"

definition formatVersion :: "32 word" where
  "formatVersion = 1"

definition headerSize :: nat where
  "headerSize = 16"

definition recordSize :: nat where
  "recordSize = 32"

text \<open>The handle: \<open>db_f\<close> is the path the file was opened at, \<open>None\<close> once closed.\<close>

record DB =
  db_f :: "string option"
  startLedger :: "32 word"

definition header :: "32 word \<Rightarrow> bytes" where
  "header start = magic @ PutUint32 formatVersion @ PutUint32 start"

definition Create :: "os_answer \<Rightarrow> disk \<Rightarrow> string \<Rightarrow> 32 word \<Rightarrow> disk \<times> (hash_error + DB)" where
  "Create os d path start =
     (if d path \<noteq> None \<or> \<not> os_open os then (d, Inl ErrOS)
      else let (f, ok) = os_WriteAt os [] 0 (header start) in
        if \<not> ok then (d(path := None), Inl ErrOS)
        else if \<not> os_sync os then (d(path := None), Inl ErrOS)
        else (d(path := Some f), Inr \<lparr>db_f = Some path, startLedger = start\<rparr>))"

definition Open :: "os_answer \<Rightarrow> disk \<Rightarrow> string \<Rightarrow> hash_error + DB" where
  "Open os d path =
     (case d path of
        None \<Rightarrow> Inl ErrNotExist
      | Some f \<Rightarrow>
          if \<not> os_open os \<or> \<not> os_read os then Inl ErrOS
          else if length f < headerSize then Inl ErrShortRead
          else let hdr = take headerSize f in
            if take 8 hdr \<noteq> magic then Inl ErrBadMagic
            else if Uint32 (take 4 (drop 8 hdr)) \<noteq> formatVersion then Inl ErrBadVersion
            else Inr \<lparr>db_f = Some path, startLedger = Uint32 (take 4 (drop 12 hdr))\<rparr>)"

definition Close :: "DB \<Rightarrow> DB" where
  "Close db = db\<lparr>db_f := None\<rparr>"

definition recordOffset :: "DB \<Rightarrow> 32 word \<Rightarrow> hash_error + nat" where
  "recordOffset db seq =
     (if seq < startLedger db then Inl ErrOutOfRange
      else Inr (headerSize + unat (seq - startLedger db) * recordSize))"

text \<open>The bytes behind an open handle; every call on a closed one reports an error.\<close>

definition db_file :: "disk \<Rightarrow> DB \<Rightarrow> bytes option" where
  "db_file d db = Option.bind (db_f db) d"

definition Append :: "os_answer \<Rightarrow> disk \<Rightarrow> DB \<Rightarrow> 32 word \<Rightarrow> bytes \<Rightarrow> disk \<times> hash_error option" where
  "Append os d db seq h =
     (case recordOffset db seq of
        Inl e \<Rightarrow> (d, Some e)
      | Inr off \<Rightarrow>
          (case (db_f db, db_file d db) of
             (Some path, Some f) \<Rightarrow>
               let (f', ok) = os_WriteAt os f off h in
               (d(path := Some f'), if ok then None else Some ErrOS)
           | _ \<Rightarrow> (d, Some ErrOS)))"

definition zero_hash :: bytes where
  "zero_hash = replicate recordSize 0"

definition Get :: "os_answer \<Rightarrow> disk \<Rightarrow> DB \<Rightarrow> 32 word \<Rightarrow> hash_error + bytes" where
  "Get os d db seq =
     err_bind (recordOffset db seq) (\<lambda>off.
       case db_file d db of
         None \<Rightarrow> Inl ErrOS
       | Some f \<Rightarrow>
           if \<not> os_read os then Inl ErrOS
           else let b = take recordSize (drop off f) in
             if length b < recordSize then Inl ErrMissing
             else if b = zero_hash then Inl ErrMissing
             else Inr b)"

definition Verify :: "os_answer \<Rightarrow> disk \<Rightarrow> DB \<Rightarrow> 32 word \<Rightarrow> bytes \<Rightarrow> hash_error option" where
  "Verify os d db seq observed =
     (case Get os d db seq of Inl e \<Rightarrow> Some e | Inr stored \<Rightarrow> if stored \<noteq> observed then Some ErrDrift else None)"

section \<open>Files and headers\<close>

lemma length_write_at: "length (write_at f off b) = (if b = [] then length f else max (length f) (off + length b))"
  by (auto simp: write_at_def max_def min_def)

lemma nth_write_at:
  assumes "i < length (write_at f off b)"
  shows "write_at f off b ! i =
       (if off \<le> i \<and> i < off + length b then b ! (i - off) else if i < length f then f ! i else 0)"
proof -
  have "min (length f) off + (off - length f) = off" by simp
  then show ?thesis using assms by (auto simp: write_at_def nth_append split: if_splits)
qed

text \<open>A window of the file that the write does not touch reads as before, except that the hole it may
  have opened reads as zeros.\<close>

definition window :: "bytes \<Rightarrow> nat \<Rightarrow> nat \<Rightarrow> bytes" where
  "window f off n = take n (drop off f)"

lemma window_nth: "i < length (window f off n) \<Longrightarrow> window f off n ! i = f ! (off + i)"
  by (auto simp: window_def)

lemma length_window: "length (window f off n) = min n (length f - off)"
  by (auto simp: window_def)

lemma window_written:
  "b \<noteq> [] \<Longrightarrow> window (write_at f off b) off (length b) = b"
  by (rule nth_equalityI) (auto simp: length_window length_write_at window_nth nth_write_at)

lemma window_elsewhere:
  assumes "off + length b \<le> o' \<or> o' + n \<le> off" "o' + n \<le> length f"
  shows "window (write_at f off b) o' n = window f o' n"
  using assms by (intro nth_equalityI) (auto simp: length_window length_write_at window_nth nth_write_at)

lemma window_hole:
  assumes "off + length b \<le> o' \<or> o' + n \<le> off" "length f \<le> o'" "length (window (write_at f off b) o' n) = n"
  shows "window (write_at f off b) o' n = replicate n 0"
  using assms by (intro nth_equalityI) (auto simp: length_window length_write_at window_nth nth_write_at split: if_splits)

lemma Uint32_Put: "Uint32 (PutUint32 v) = v"
proof (rule bit_word_eqI)
  fix n :: nat
  assume "n < LENGTH(32)"
  then consider "n < 8" | "8 \<le> n \<and> n < 16" | "16 \<le> n \<and> n < 24" | "24 \<le> n \<and> n < 32" by fastforce
  then show "bit (Uint32 (PutUint32 v)) n \<longleftrightarrow> bit v n"
    by cases (auto simp: Uint32_def PutUint32_def bit_simps)
qed

lemma length_magic [simp]: "length magic = 8"
  by (simp add: magic_def)

lemma length_Put [simp]: "length (PutUint32 v) = 4"
  by (simp add: PutUint32_def)

lemma length_header [simp]: "length (header s) = headerSize"
  by (simp add: header_def headerSize_def)

section \<open>Records\<close>

definition slot :: "DB \<Rightarrow> 32 word \<Rightarrow> nat" where
  "slot db seq = headerSize + unat (seq - startLedger db) * recordSize"

text \<open>What the bytes of the file say of a ledger.\<close>

definition record_of :: "bytes \<Rightarrow> DB \<Rightarrow> 32 word \<Rightarrow> bytes option" where
  "record_of f db seq =
     (let b = window f (slot db seq) recordSize in
      if length b < recordSize \<or> b = zero_hash then None else Some b)"

text \<open>No record is cut by the end of the file.\<close>

definition whole_records :: "bytes \<Rightarrow> bool" where
  "whole_records f \<longleftrightarrow> headerSize \<le> length f \<and> recordSize dvd length f - headerSize"

lemma recordOffset_slot: "recordOffset db seq = (if seq < startLedger db then Inl ErrOutOfRange else Inr (slot db seq))"
  by (simp add: recordOffset_def slot_def)

text \<open>The offset fits the \<open>int64\<close> the code computes it in.\<close>

lemma slot_bound: "slot db seq < 2 ^ 63"
proof -
  have "unat (seq - startLedger db) < 2 ^ 32" using unsigned_less [of "seq - startLedger db"] by simp
  then show ?thesis by (simp add: slot_def headerSize_def recordSize_def)
qed

lemma slots_apart:
  assumes "s \<noteq> t"
  shows "slot db s + recordSize \<le> slot db t \<or> slot db t + recordSize \<le> slot db s"
proof -
  have "unat (s - startLedger db) \<noteq> unat (t - startLedger db)"
    using assms by (metis diff_add_cancel word_unat_eq_iff)
  then show ?thesis by (auto simp: slot_def recordSize_def)
qed

lemma Get_record_of:
  assumes "db_file d db = Some f" "os_read os"
  shows "Get os d db seq =
    (if seq < startLedger db then Inl ErrOutOfRange
     else case record_of f db seq of None \<Rightarrow> Inl ErrMissing | Some b \<Rightarrow> Inr b)"
  using assms by (simp add: Get_def recordOffset_slot record_of_def window_def Let_def err_bind_def)

lemma record_of_length: "record_of f db seq = Some h \<Longrightarrow> length h = recordSize \<and> h \<noteq> zero_hash"
  by (auto simp: record_of_def Let_def length_window split: if_splits)

lemma record_written:
  assumes "length h = recordSize"
  shows "record_of (write_at f (slot db s) h) db s = (if h = zero_hash then None else Some h)"
proof -
  have "h \<noteq> []" using assms by (auto simp: recordSize_def)
  then have "window (write_at f (slot db s) h) (slot db s) recordSize = h"
    using window_written [of h f "slot db s"] assms by simp
  then show ?thesis using assms by (simp add: record_of_def Let_def)
qed

text \<open>A write into a slot, torn or whole, never changes what is recorded for another ledger.\<close>

lemma record_elsewhere_kept:
  assumes "s \<noteq> t" "length b \<le> recordSize" "record_of f db t = Some h"
  shows "record_of (write_at f (slot db s) b) db t = Some h"
proof -
  have full: "slot db t + recordSize \<le> length f"
    using assms(3) by (auto simp: record_of_def Let_def length_window recordSize_def split: if_splits)
  have "slot db s + length b \<le> slot db t \<or> slot db t + recordSize \<le> slot db s"
    using slots_apart [OF assms(1), of db] assms(2) by linarith
  from window_elsewhere [OF this full] assms(3) show ?thesis by (simp add: record_of_def)
qed

lemma whole_records_full:
  assumes "whole_records f"
  shows "slot db t + recordSize \<le> length f \<or> length f \<le> slot db t"
proof -
  obtain k where "length f = headerSize + recordSize * k"
    using assms by (auto simp: whole_records_def dvd_def) (metis le_add_diff_inverse)
  then show ?thesis by (cases "k \<le> unat (t - startLedger db)") (auto simp: slot_def recordSize_def)
qed

lemma record_elsewhere:
  assumes "s \<noteq> t" "length b \<le> recordSize" "whole_records f"
  shows "record_of (write_at f (slot db s) b) db t = record_of f db t"
proof (cases "slot db t + recordSize \<le> length f")
  case True
  have "slot db s + length b \<le> slot db t \<or> slot db t + recordSize \<le> slot db s"
    using slots_apart [OF assms(1), of db] assms(2) by linarith
  from window_elsewhere [OF this True] show ?thesis by (simp add: record_of_def)
next
  case False
  then have end_of: "length f \<le> slot db t" using whole_records_full [OF assms(3)] by blast
  have "slot db s + length b \<le> slot db t \<or> slot db t + recordSize \<le> slot db s"
    using slots_apart [OF assms(1), of db] assms(2) by linarith
  from window_hole [OF this end_of]
  have "length (window (write_at f (slot db s) b) (slot db t) recordSize) < recordSize
     \<or> window (write_at f (slot db s) b) (slot db t) recordSize = zero_hash"
    by (metis length_window min.cobounded1 nat_less_le zero_hash_def)
  then have "record_of (write_at f (slot db s) b) db t = None" by (auto simp: record_of_def Let_def)
  moreover have "record_of f db t = None" using end_of by (simp add: record_of_def Let_def length_window recordSize_def)
  ultimately show ?thesis by simp
qed

lemma whole_records_written:
  assumes "whole_records f" "length h = recordSize"
  shows "whole_records (write_at f (slot db s) h)"
  using assms by (auto simp: whole_records_def length_write_at slot_def headerSize_def recordSize_def max_def)

lemma header_kept:
  assumes "headerSize \<le> length f"
  shows "take headerSize (write_at f (slot db s) b) = take headerSize f"
  using window_elsewhere [of "slot db s" b 0 headerSize f] assms by (simp add: window_def slot_def)

section \<open>What the database remembers\<close>

text \<open>A handle on a file this build wrote: the header is the one \<open>Create\<close> put there.\<close>

definition db_ok :: "disk \<Rightarrow> DB \<Rightarrow> bool" where
  "db_ok d db \<longleftrightarrow> (\<exists>path f. db_f db = Some path \<and> d path = Some f \<and> take headerSize f = header (startLedger db))"

definition file_whole :: "disk \<Rightarrow> DB \<Rightarrow> bool" where
  "file_whole d db \<longleftrightarrow> (\<exists>f. db_file d db = Some f \<and> whole_records f)"

definition recorded :: "disk \<Rightarrow> DB \<Rightarrow> 32 word \<Rightarrow> bytes option" where
  "recorded d db seq = (case Get os_fine d db seq of Inl e \<Rightarrow> None | Inr h \<Rightarrow> Some h)"

lemma os_fine_simps [simp]: "os_open os_fine" "os_write os_fine = None" "os_sync os_fine" "os_read os_fine"
  by (simp_all add: os_fine_def)

lemma db_okE:
  assumes "db_ok d db"
  obtains path f where "db_f db = Some path" "d path = Some f" "take headerSize f = header (startLedger db)"
    "headerSize \<le> length f" "db_file d db = Some f"
proof -
  obtain path f where f: "db_f db = Some path" "d path = Some f" "take headerSize f = header (startLedger db)"
    using assms by (auto simp: db_ok_def)
  then have "headerSize \<le> length f" by (metis length_header length_take min.absorb_iff2)
  with f that show thesis by (simp add: db_file_def)
qed

lemma recorded_record_of:
  assumes "db_file d db = Some f"
  shows "recorded d db seq = (if seq < startLedger db then None else record_of f db seq)"
  using assms by (simp add: recorded_def Get_record_of split: option.splits)

lemma Get_recorded:
  assumes "db_ok d db"
  shows "Get os_fine d db seq =
    (if seq < startLedger db then Inl ErrOutOfRange
     else case recorded d db seq of None \<Rightarrow> Inl ErrMissing | Some h \<Rightarrow> Inr h)"
  using assms by (elim db_okE) (auto simp: Get_record_of recorded_record_of split: option.splits)

lemma recorded_length: "recorded d db seq = Some h \<Longrightarrow> length h = recordSize \<and> h \<noteq> zero_hash"
  by (auto simp: recorded_def Get_def err_bind_def Let_def zero_hash_def split: sum.splits option.splits if_splits)

text \<open>The file after an append: the slot is overwritten by as many bytes as the system took.\<close>

definition taken :: "os_answer \<Rightarrow> bytes \<Rightarrow> bytes" where
  "taken os h = (case os_write os of None \<Rightarrow> h | Some k \<Rightarrow> take k h)"

lemma length_taken: "length (taken os h) \<le> length h"
  by (simp add: taken_def split: option.splits)

lemma Append_file:
  assumes "db_f db = Some path" "d path = Some f" "\<not> seq < startLedger db"
  shows "Append os d db seq h =
    (d(path := Some (write_at f (slot db seq) (taken os h))), if os_write os = None then None else Some ErrOS)"
  using assms by (auto simp: Append_def recordOffset_slot db_file_def os_WriteAt_def taken_def split: option.splits)

lemma Append_refused: "seq < startLedger db \<Longrightarrow> Append os d db seq h = (d, Some ErrOutOfRange)"
  by (simp add: Append_def recordOffset_slot)

lemma db_ok_Append:
  assumes "db_ok d db"
  shows "db_ok (fst (Append os d db seq h)) db"
proof (cases "seq < startLedger db")
  case True
  then show ?thesis using assms by (simp add: Append_refused)
next
  case False
  from assms show ?thesis
    by (rule db_okE) (auto simp: db_ok_def Append_file [OF _ _ False] header_kept)
qed

lemma file_whole_Append:
  assumes "db_ok d db" "file_whole d db" "length h = recordSize"
  shows "file_whole (fst (Append os_fine d db seq h)) db"
proof (cases "seq < startLedger db")
  case True
  then show ?thesis using assms by (simp add: Append_refused)
next
  case False
  from assms(1) show ?thesis
    by (rule db_okE) (use assms(2,3) in \<open>auto simp: file_whole_def db_file_def Append_file [OF _ _ False] taken_def
      whole_records_written\<close>)
qed

text \<open>A successful append is a map update; a zero hash erases, since a zero slot reads as unwritten.\<close>

lemma recorded_Append:
  assumes "db_ok d db" "file_whole d db" "length h = recordSize" "\<not> seq < startLedger db"
  shows "recorded (fst (Append os_fine d db seq h)) db = (recorded d db)(seq := if h = zero_hash then None else Some h)"
proof -
  obtain path f where f: "db_f db = Some path" "d path = Some f" "db_file d db = Some f"
    using assms(1) by (rule db_okE)
  have w: "whole_records f" using assms(2) f by (simp add: file_whole_def)
  let ?d = "fst (Append os_fine d db seq h)"
  have "db_file ?d db = Some (write_at f (slot db seq) h)"
    using f assms(4) by (simp add: Append_file db_file_def taken_def)
  then have r: "recorded ?d db t = (if t < startLedger db then None else record_of (write_at f (slot db seq) h) db t)" for t
    by (rule recorded_record_of)
  show ?thesis
  proof
    fix t
    show "recorded ?d db t = ((recorded d db)(seq := if h = zero_hash then None else Some h)) t"
      using r [of t] record_written [OF assms(3)] record_elsewhere [of seq t h f db] w assms(3,4) recorded_record_of [OF f(3), of t]
      by (cases "t = seq") simp_all
  qed
qed

text \<open>Whatever the system did with the write, the records of the other ledgers stand.\<close>

lemma recorded_kept_elsewhere:
  assumes "db_ok d db" "length h = recordSize" "recorded d db t = Some h'" "t \<noteq> seq"
  shows "recorded (fst (Append os d db seq h)) db t = Some h'"
proof (cases "seq < startLedger db")
  case True
  then show ?thesis using assms(3) by (simp add: Append_refused)
next
  case False
  obtain path f where f: "db_f db = Some path" "d path = Some f" "db_file d db = Some f"
    using assms(1) by (rule db_okE)
  have "db_file (fst (Append os d db seq h)) db = Some (write_at f (slot db seq) (taken os h))"
    using f False by (simp add: Append_file db_file_def)
  moreover have "record_of (write_at f (slot db seq) (taken os h)) db t = Some h'" if "\<not> t < startLedger db"
    using record_elsewhere_kept [of seq t "taken os h" f db h'] assms f that length_taken [of os h]
    by (simp add: recorded_record_of)
  ultimately show ?thesis using assms(3) f by (auto simp: recorded_record_of split: if_splits)
qed

section \<open>Writing, closing and reopening\<close>

fun append_all :: "disk \<Rightarrow> DB \<Rightarrow> (32 word \<times> bytes) list \<Rightarrow> disk" where
  "append_all d db [] = d"
| "append_all d db ((seq, h) # ops) = append_all (fst (Append os_fine d db seq h)) db ops"

lemma Create_fine:
  assumes "d path = None"
  shows "Create os_fine d path start =
    (d(path := Some (header start)), Inr \<lparr>db_f = Some path, startLedger = start\<rparr>)"
proof -
  have "header start \<noteq> []" by (simp add: header_def PutUint32_def)
  then show ?thesis using assms by (simp add: Create_def os_WriteAt_def write_at_def)
qed

lemma Open_header:
  assumes "d path = Some f" "take headerSize f = header start"
  shows "Open os_fine d path = Inr \<lparr>db_f = Some path, startLedger = start\<rparr>"
proof -
  have len: "headerSize \<le> length f" using assms(2) by (metis length_header length_take min.absorb_iff2)
  have "take 8 (header start) = magic" "take 4 (drop 8 (header start)) = PutUint32 formatVersion"
    "take 4 (drop 12 (header start)) = PutUint32 start"
    by (simp_all add: header_def)
  then show ?thesis using assms len by (simp add: Open_def Uint32_Put)
qed

lemma append_all_ok:
  assumes "db_ok d db" "file_whole d db" "\<forall>(seq, h) \<in> set ops. length h = recordSize"
  shows "db_ok (append_all d db ops) db"
    "recorded (append_all d db ops) db seq =
      (case map_of (rev ops) seq of
         None \<Rightarrow> recorded d db seq
       | Some h \<Rightarrow> if seq < startLedger db \<or> h = zero_hash then None else Some h)"
  using assms
proof (induction ops arbitrary: d)
  case Nil
  { case 1 then show ?case by simp }
  { case 2 then show ?case by simp }
next
  case (Cons x ops)
  obtain s h where x: "x = (s, h)" by fastforce
  { case 1
    then show ?case using x by (simp add: Cons.IH(1) db_ok_Append file_whole_Append) }
  { case 2
    let ?d = "fst (Append os_fine d db s h)"
    have below: "seq < startLedger db \<Longrightarrow> recorded d db seq = None"
      using 2(1) by (auto elim!: db_okE simp: recorded_record_of)
    have "db_ok ?d db" "file_whole ?d db"
      using 2 x by (auto intro: db_ok_Append file_whole_Append)
    then have "recorded (append_all ?d db ops) db seq =
      (case map_of (rev ops) seq of
         None \<Rightarrow> recorded ?d db seq
       | Some h \<Rightarrow> if seq < startLedger db \<or> h = zero_hash then None else Some h)"
      using 2(3) x by (intro Cons.IH(2)) auto
    moreover have "recorded ?d db seq =
      (if seq = s then (if seq < startLedger db \<or> h = zero_hash then None else Some h) else recorded d db seq)"
      using 2 x below by (cases "s < startLedger db") (auto simp: Append_refused recorded_Append)
    ultimately show ?case using x by (auto split: option.splits) }
qed

text \<open>
  C22. What is written comes back: a database created at a free path, given any sequence of appends (in
  any order, with gaps, below its start or repeated), closed and opened again answers for every ledger
  sequence with the last hash appended for it; a sequence below the start is refused as out of range, and
  one that was never appended (also one inside a gap, or past the end) is reported as missing.
\<close>

theorem reopened_database_answers:
  assumes "d path = None" "\<forall>(seq, h) \<in> set ops. length h = recordSize \<and> h \<noteq> zero_hash"
    "Create os_fine d path start = (d0, Inr db)" "d' = append_all d0 db ops" "Open os_fine d' path = r"
  shows "\<exists>db'. r = Inr db' \<and>
    (\<forall>seq. Get os_fine d' db' seq =
       (if seq < start then Inl ErrOutOfRange
        else case map_of (rev ops) seq of None \<Rightarrow> Inl ErrMissing | Some h \<Rightarrow> Inr h))"
proof -
  have d0: "d0 = d(path := Some (header start))" and db: "db = \<lparr>db_f = Some path, startLedger = start\<rparr>"
    using assms(1,3) by (simp_all add: Create_fine)
  have f0: "db_file d0 db = Some (header start)" by (simp add: d0 db db_file_def)
  have ok: "db_ok d0 db" by (simp add: db_ok_def d0 db)
  have whole: "file_whole d0 db" using f0 by (simp add: file_whole_def whole_records_def)
  have ops: "\<forall>(seq, h) \<in> set ops. length h = recordSize" using assms(2) by auto
  have fresh: "recorded d0 db seq = None" for seq
    using recorded_record_of [OF f0] by (simp add: record_of_def Let_def length_window slot_def recordSize_def)
  have ok': "db_ok d' db" using append_all_ok(1) [OF ok whole ops] assms(4) by simp
  then have r: "r = Inr db" using assms(5) by (elim db_okE) (simp add: Open_header db)
  have "recorded d' db seq = (if seq < start then None else map_of (rev ops) seq)" for seq
  proof -
    have "h \<noteq> zero_hash" if "map_of (rev ops) seq = Some h" for h
      using assms(2) map_of_SomeD [OF that] by auto
    then show ?thesis
      using append_all_ok(2) [OF ok whole ops, of seq] assms(4) fresh by (auto simp: db split: option.splits)
  qed
  then show ?thesis using r Get_recorded [OF ok'] by (simp add: db)
qed

theorem reopened_database_answers_witness:
  "Get os_fine
     (append_all (fst (Create os_fine (\<lambda>_. None) ''h'' 5)) \<lparr>db_f = Some ''h'', startLedger = 5\<rparr>
        [(7, replicate 32 1), (6, replicate 32 2), (7, replicate 32 3)])
     \<lparr>db_f = Some ''h'', startLedger = 5\<rparr> 7 = Inr (replicate 32 3)"
proof -
  let ?ops = "[(7, replicate 32 1), (6, replicate 32 2), (7, replicate 32 3)] :: (32 word \<times> bytes) list"
  let ?d = "append_all (fst (Create os_fine (\<lambda>_. None) ''h'' 5)) \<lparr>db_f = Some ''h'', startLedger = 5\<rparr> ?ops"
  have "\<exists>db'. Open os_fine ?d ''h'' = Inr db' \<and>
    (\<forall>seq. Get os_fine ?d db' seq =
       (if seq < 5 then Inl ErrOutOfRange
        else case map_of (rev ?ops) seq of None \<Rightarrow> Inl ErrMissing | Some h \<Rightarrow> Inr h))"
    by (rule reopened_database_answers [of "\<lambda>_. None" "''h''" ?ops 5 "fst (Create os_fine (\<lambda>_. None) ''h'' 5)"
          "\<lparr>db_f = Some ''h'', startLedger = 5\<rparr>"])
      (simp_all add: Create_fine recordSize_def zero_hash_def)
  moreover have "Open os_fine ?d ''h'' = Inr \<lparr>db_f = Some ''h'', startLedger = 5\<rparr>" by code_simp
  ultimately show ?thesis by auto
qed

text \<open>
  A torn append at the end of the file is remembered as a wrong hash once the next ledger is written: the
  slot then reads as a complete record, the part of the hash that reached the disk filled up with zeros.
\<close>

lemma torn_append_becomes_a_record:
  assumes "length f = slot db seq" "\<not> seq < startLedger db" "seq + 1 \<noteq> 0"
    "length h = recordSize" "length h' = recordSize" "k < recordSize" "take k h \<noteq> replicate k 0"
  shows "record_of (write_at (write_at f (slot db seq) (take k h)) (slot db (seq + 1)) h') db seq
    = Some (take k h @ replicate (recordSize - k) 0)"
proof -
  let ?b = "take k h" and ?n = "recordSize - k"
  have k: "?b \<noteq> []" "length ?b = k" using assms(4,6,7) by (cases "k = 0"; auto)+
  have one: "write_at f (slot db seq) ?b = f @ ?b" using k assms(1) by (simp add: write_at_def)
  have "seq - startLedger db + 1 \<noteq> 0"
  proof
    assume "seq - startLedger db + 1 = 0"
    then have "startLedger db = seq + 1" by (simp add: diff_add_eq)
    then show False using assms(2,3) by (simp add: word_less_nat_alt unatSuc add.commute [of _ 1])
  qed
  then have "unat (seq + 1 - startLedger db) = Suc (unat (seq - startLedger db))"
    using unatSuc [of "seq - startLedger db"] by (simp add: add.commute [of _ 1] add_diff_eq)
  then have "slot db (seq + 1) = slot db seq + recordSize" by (simp add: slot_def)
  then have two: "write_at (f @ ?b) (slot db (seq + 1)) h' = f @ (?b @ replicate ?n 0) @ h'"
    using k assms(1,5,6) by (auto simp: write_at_def recordSize_def)
  have "?b @ replicate ?n 0 \<noteq> zero_hash"
    using assms(7) k(2) by (metis append_eq_append_conv length_replicate replicate_add zero_hash_def le_add_diff_inverse assms(6) less_imp_le)
  then show ?thesis
    using one two k assms(1,6) by (simp add: record_of_def window_def Let_def)
qed

end
