(* ===== verification/HashSweep.thy ===== *)
theory HashSweep
  imports HashDB
begin

text \<open>
  The drift detector around the hash file: \<open>internal/archivecompleteness/hashdb_verify.go\<close> and, of
  \<open>cmd/stellarindex-indexer\<close>, the functions that open the file, record each ledger as it is ingested and
  compare a trailing window of ledgers with the records (\<open>main.go\<close>, \<open>hashdb_verify_sweep.go\<close>). The hash
  is the argument \<open>sha\<close>; a ledger arrives as its sequence and its marshalled bytes, \<open>None\<close> when marshalling
  failed. What the object store streams for a window is the list of ledgers it delivered and how the
  stream ended. Durations and log lines are left out, counters are kept.
\<close>

section \<open>hashdb_verify.go\<close>

record HashDBVerifyResult =
  hv_From :: "32 word"
  hv_To :: "32 word"
  Verified :: nat
  Drifted :: nat
  Missing :: nat
  OutOfRange :: nat
  DriftSeqs :: "32 word list"

definition AnyDrift :: "HashDBVerifyResult \<Rightarrow> bool" where
  "AnyDrift r = (0 < Drifted r)"

definition MaxHashDBDriftSeqsReported :: nat where
  "MaxHashDBDriftSeqsReported = 64"

definition NewHashDBWindowVerifier :: "32 word \<Rightarrow> 32 word \<Rightarrow> HashDBVerifyResult" where
  "NewHashDBWindowVerifier from to =
     \<lparr>hv_From = from, hv_To = to, Verified = 0, Drifted = 0, Missing = 0, OutOfRange = 0, DriftSeqs = []\<rparr>"

definition Observe ::
  "os_answer \<Rightarrow> disk \<Rightarrow> DB option \<Rightarrow> HashDBVerifyResult \<Rightarrow> 32 word \<Rightarrow> bytes \<Rightarrow> HashDBVerifyResult \<times> hash_error option" where
  "Observe os d db r seq observed =
     (case db of
        None \<Rightarrow> (r, Some ErrOS)
      | Some db \<Rightarrow>
          (case Verify os d db seq observed of
             None \<Rightarrow> (r\<lparr>Verified := Verified r + 1\<rparr>, None)
           | Some ErrDrift \<Rightarrow>
               (r\<lparr>Drifted := Drifted r + 1,
                 DriftSeqs := (if length (DriftSeqs r) < MaxHashDBDriftSeqsReported then DriftSeqs r @ [seq] else DriftSeqs r)\<rparr>,
                None)
           | Some ErrMissing \<Rightarrow> (r\<lparr>Missing := Missing r + 1\<rparr>, None)
           | Some ErrOutOfRange \<Rightarrow> (r\<lparr>OutOfRange := OutOfRange r + 1\<rparr>, None)
           | Some e \<Rightarrow> (r, Some e)))"

section \<open>main.go: opening and recording\<close>

definition openOrCreateHashDB :: "os_answer \<Rightarrow> bool \<Rightarrow> disk \<Rightarrow> string \<Rightarrow> 32 word \<Rightarrow> disk \<times> (hash_error + DB)" where
  "openOrCreateHashDB os removed d path start =
     (case Open os d path of
        Inr db \<Rightarrow> (d, Inr db)
      | Inl ErrNotExist \<Rightarrow> Create os d path start
      | Inl ErrShortRead \<Rightarrow> if removed then Create os (d(path := None)) path start else (d, Inl ErrOS)
      | Inl e \<Rightarrow> (d, Inl e))"

record recorder =
  rec_disk :: disk
  lastAppended :: "32 word"
  HashdbDriftTotal :: nat
  append_ok :: nat
  append_error :: nat

text \<open>The bytes of one ledger against the file: verify, and append only when nothing was recorded.\<close>

definition verify_or_append :: "os_answer \<Rightarrow> DB \<Rightarrow> 32 word \<Rightarrow> bytes \<Rightarrow> recorder \<Rightarrow> recorder \<times> hash_error option" where
  "verify_or_append os hdb seq h st =
     (case Verify os (rec_disk st) hdb seq h of
        None \<Rightarrow> (st, None)
      | Some ErrMissing \<Rightarrow> (let (d, e) = Append os (rec_disk st) hdb seq h in (st\<lparr>rec_disk := d\<rparr>, e))
      | Some ErrDrift \<Rightarrow> (st\<lparr>HashdbDriftTotal := HashdbDriftTotal st + 1\<rparr>, Some ErrDrift)
      | Some e \<Rightarrow> (st, Some e))"

definition recordHashdb :: "(bytes \<Rightarrow> bytes) \<Rightarrow> os_answer \<Rightarrow> DB \<Rightarrow> 32 word \<Rightarrow> bytes option \<Rightarrow> recorder \<Rightarrow> recorder" where
  "recordHashdb sha os hdb seq raw st =
     (let (st, err) = (case raw of None \<Rightarrow> (st, Some ErrOS) | Some b \<Rightarrow> verify_or_append os hdb seq (sha b) st) in
      if err \<noteq> None then st\<lparr>append_error := append_error st + 1\<rparr>
      else st\<lparr>append_ok := append_ok st + 1, lastAppended := seq\<rparr>)"

section \<open>main.go: the sweep\<close>

definition hashDBVerifyWindow :: "32 word" where
  "hashDBVerifyWindow = 20000"

definition hashDBVerifySafetyMargin :: "32 word" where
  "hashDBVerifySafetyMargin = 16"

definition hashDBSweepComplete :: "HashDBVerifyResult \<Rightarrow> nat \<Rightarrow> 32 word \<Rightarrow> 32 word \<Rightarrow> bool" where
  "hashDBSweepComplete r observed from to = (observed = unat (to - from) + 1 \<and> 0 < Verified r)"

text \<open>\<open>seen\<close> is the set of counted sequences as a list, \<open>None\<close> for the nil map of a one-off pass.\<close>

definition countNewDrift :: "HashDBVerifyResult \<Rightarrow> 32 word list option \<Rightarrow> nat \<times> 32 word list option" where
  "countNewDrift r seen =
     (case seen of
        None \<Rightarrow> (Drifted r, None)
      | Some s \<Rightarrow>
          (let (newly, s') = foldl (\<lambda>(n, s) seq. if seq \<in> set s then (n, s) else (n + 1, seq # s)) (0, s) (DriftSeqs r) in
           (newly + (Drifted r - length (DriftSeqs r)), Some s')))"

datatype stream_error = Canceled | StreamFailed

datatype sweepOutcome = sweepOutcomeShutdown | sweepOutcomeDrift | sweepOutcomeError
  | sweepOutcomeIncomplete | sweepOutcomeOK

definition classifyHashDBVerifySweep ::
  "HashDBVerifyResult \<Rightarrow> stream_error option \<Rightarrow> 32 word \<Rightarrow> 32 word \<Rightarrow> sweepOutcome" where
  "classifyHashDBVerifySweep r streamErr from to =
     (if AnyDrift r then sweepOutcomeDrift
      else if streamErr = Some Canceled then sweepOutcomeShutdown
      else if streamErr \<noteq> None then sweepOutcomeError
      else if \<not> hashDBSweepComplete r (Verified r + Drifted r + Missing r + OutOfRange r) from to
      then sweepOutcomeIncomplete
      else sweepOutcomeOK)"

text \<open>The callback of the stream: it stops at the first ledger it cannot marshal or compare.\<close>

fun stream_observe ::
  "(bytes \<Rightarrow> bytes) \<Rightarrow> os_answer \<Rightarrow> disk \<Rightarrow> DB \<Rightarrow> stream_error option \<Rightarrow> (32 word \<times> bytes option) list \<Rightarrow>
   HashDBVerifyResult \<Rightarrow> HashDBVerifyResult \<times> stream_error option" where
  "stream_observe sha os d db ended [] r = (r, ended)"
| "stream_observe sha os d db ended ((seq, raw) # ls) r =
     (case raw of
        None \<Rightarrow> (r, Some StreamFailed)
      | Some b \<Rightarrow>
          (let (r', e) = Observe os d (Some db) r seq (sha b) in
           if e \<noteq> None then (r', Some StreamFailed) else stream_observe sha os d db ended ls r'))"

record sweeper =
  seenDrifted :: "32 word list option"
  drift_counted :: nat
  runs_drift :: nat
  runs_error :: nat
  runs_ok :: nat

definition hashDBVerifyPass ::
  "(bytes \<Rightarrow> bytes) \<Rightarrow> os_answer \<Rightarrow> disk \<Rightarrow> DB \<Rightarrow> 32 word \<Rightarrow> 32 word \<Rightarrow> (32 word \<times> bytes option) list \<Rightarrow>
   stream_error option \<Rightarrow> sweeper \<Rightarrow> sweeper \<times> sweepOutcome" where
  "hashDBVerifyPass sha os d db from to ledgers ended sw =
     (let (r, streamErr) = stream_observe sha os d db ended ledgers (NewHashDBWindowVerifier from to);
          outcome = classifyHashDBVerifySweep r streamErr from to in
      (case outcome of
         sweepOutcomeShutdown \<Rightarrow> sw
       | sweepOutcomeDrift \<Rightarrow>
           (let (n, seen) = countNewDrift r (seenDrifted sw) in
            sw\<lparr>runs_drift := runs_drift sw + 1, drift_counted := drift_counted sw + n, seenDrifted := seen\<rparr>)
       | sweepOutcomeError \<Rightarrow> sw\<lparr>runs_error := runs_error sw + 1\<rparr>
       | sweepOutcomeIncomplete \<Rightarrow> sw\<lparr>runs_error := runs_error sw + 1\<rparr>
       | sweepOutcomeOK \<Rightarrow> sw\<lparr>runs_ok := runs_ok sw + 1\<rparr>,
       outcome))"

section \<open>The window of a sweep\<close>

text \<open>The window of a sweep behind the newest recorded ledger; \<open>None\<close> is the early return.\<close>

definition sweep_window :: "DB \<Rightarrow> 32 word \<Rightarrow> 32 word \<Rightarrow> (32 word \<times> 32 word) option" where
  "sweep_window verifyDB tip win =
     (if tip \<le> hashDBVerifySafetyMargin then None
      else let to = tip - hashDBVerifySafetyMargin;
               from = (if win < to \<and> startLedger verifyDB < to - win + 1 then to - win + 1 else startLedger verifyDB) in
        if to < from then None else Some (from, to))"

definition hashDBVerifySweep ::
  "(bytes \<Rightarrow> bytes) \<Rightarrow> os_answer \<Rightarrow> disk \<Rightarrow> DB \<Rightarrow> 32 word \<Rightarrow> 32 word \<Rightarrow>
   (32 word \<Rightarrow> 32 word \<Rightarrow> (32 word \<times> bytes option) list \<times> stream_error option) \<Rightarrow> sweeper \<Rightarrow> sweeper" where
  "hashDBVerifySweep sha os d verifyDB tip win stream sw =
     (case sweep_window verifyDB tip win of
        None \<Rightarrow> sw
      | Some (from, to) \<Rightarrow>
          (let (ledgers, ended) = stream from to in fst (hashDBVerifyPass sha os d verifyDB from to ledgers ended sw)))"

section \<open>Recording\<close>

lemma Verify_recorded:
  assumes "db_ok d db"
  shows "Verify os d db seq h =
    (if seq < startLedger db then Some ErrOutOfRange
     else if \<not> os_read os then Some ErrOS
     else case recorded d db seq of
       None \<Rightarrow> Some ErrMissing
     | Some g \<Rightarrow> if g \<noteq> h then Some ErrDrift else None)"
proof (cases "os_read os")
  case True
  from assms show ?thesis
    by (rule db_okE) (use True in \<open>auto simp: Verify_def Get_record_of recorded_record_of split: option.splits\<close>)
next
  case False
  from assms show ?thesis
    by (rule db_okE) (use False in \<open>auto simp: Verify_def Get_def recordOffset_slot\<close>)
qed

lemmas verify_or_append_recorded = verify_or_append_def Verify_recorded

lemma verify_or_append_ok:
  assumes "db_ok (rec_disk st) hdb"
  shows "db_ok (rec_disk (fst (verify_or_append os hdb seq h st))) hdb"
  using assms db_ok_Append [OF assms, of os seq h]
  by (auto simp: verify_or_append_recorded split: option.splits prod.splits)

lemma verify_or_append_keeps:
  assumes "db_ok (rec_disk st) hdb" "length h = recordSize" "recorded (rec_disk st) hdb t = Some g"
  shows "recorded (rec_disk (fst (verify_or_append os hdb seq h st))) hdb t = Some g"
proof (cases "t = seq")
  case True
  then show ?thesis using assms by (simp add: verify_or_append_recorded)
next
  case False
  then show ?thesis
    using assms recorded_kept_elsewhere [OF assms(1,2,3), of seq os]
    by (auto simp: verify_or_append_recorded split: option.splits prod.splits)
qed

lemma recordHashdb_disk:
  "rec_disk (recordHashdb sha os hdb seq raw st) =
     (case raw of None \<Rightarrow> rec_disk st | Some b \<Rightarrow> rec_disk (fst (verify_or_append os hdb seq (sha b) st)))"
  by (auto simp: recordHashdb_def split: option.splits prod.splits)

lemma recordHashdb_drift:
  "HashdbDriftTotal (recordHashdb sha os hdb seq raw st) =
     (case raw of None \<Rightarrow> HashdbDriftTotal st | Some b \<Rightarrow> HashdbDriftTotal (fst (verify_or_append os hdb seq (sha b) st)))"
  by (auto simp: recordHashdb_def split: option.splits prod.splits)

lemma drift_monotone: "HashdbDriftTotal st \<le> HashdbDriftTotal (fst (verify_or_append os hdb seq h st))"
  by (auto simp: verify_or_append_def split: option.splits prod.splits hash_error.splits)

lemma drift_counts:
  assumes "db_ok (rec_disk st) hdb" "recorded (rec_disk st) hdb seq = Some g" "g \<noteq> h" "os_read os"
  shows "HashdbDriftTotal (fst (verify_or_append os hdb seq h st)) = HashdbDriftTotal st + 1"
proof -
  have "\<not> seq < startLedger hdb"
    using assms(1,2) by (auto elim!: db_okE simp: recorded_record_of)
  then show ?thesis using assms by (simp add: verify_or_append_recorded)
qed

fun ingest :: "(bytes \<Rightarrow> bytes) \<Rightarrow> DB \<Rightarrow> (os_answer \<times> 32 word \<times> bytes option) list \<Rightarrow> recorder \<Rightarrow> recorder" where
  "ingest sha hdb [] st = st"
| "ingest sha hdb ((os, seq, raw) # ls) st = ingest sha hdb ls (recordHashdb sha os hdb seq raw st)"

text \<open>A later ledger that contradicts a record, in a reading the system answered.\<close>

definition contradicts :: "(bytes \<Rightarrow> bytes) \<Rightarrow> 32 word \<Rightarrow> bytes \<Rightarrow> os_answer \<times> 32 word \<times> bytes option \<Rightarrow> bool" where
  "contradicts sha t h x = (case x of (os, seq, raw) \<Rightarrow> os_read os \<and> seq = t \<and> (case raw of None \<Rightarrow> False | Some b \<Rightarrow> sha b \<noteq> h))"

text \<open>
  C19. The first hash recorded for a ledger stands: whatever is ingested afterwards, in any order, with
  re-deliveries and rewrites of the same ledger, marshalling failures, refused reads and writes torn
  after any number of bytes, the file still answers with that hash, and every delivery that contradicts
  it in a reading that succeeded has been counted as drift.
\<close>

theorem first_seen_hash_stands:
  assumes "\<And>b. length (sha b) = recordSize" "db_ok (rec_disk st) hdb" "recorded (rec_disk st) hdb t = Some h"
  shows "recorded (rec_disk (ingest sha hdb ls st)) hdb t = Some h \<and>
    HashdbDriftTotal st + length (filter (contradicts sha t h) ls) \<le> HashdbDriftTotal (ingest sha hdb ls st)"
  using assms(2,3)
proof (induction ls arbitrary: st)
  case Nil
  then show ?case by simp
next
  case (Cons x ls)
  obtain os seq raw where x: "x = (os, seq, raw)" by (cases x)
  let ?st = "recordHashdb sha os hdb seq raw st"
  have ok: "db_ok (rec_disk ?st) hdb"
    using Cons.prems(1) verify_or_append_ok by (auto simp: recordHashdb_disk split: option.splits)
  have kept: "recorded (rec_disk ?st) hdb t = Some h"
    using Cons.prems verify_or_append_keeps assms(1) by (auto simp: recordHashdb_disk split: option.splits)
  have "HashdbDriftTotal st + (if contradicts sha t h x then 1 else 0) \<le> HashdbDriftTotal ?st"
    using Cons.prems drift_counts [of st hdb t h] drift_monotone
    by (auto simp: contradicts_def x recordHashdb_drift split: option.splits)
  with Cons.IH [OF ok kept] show ?case by (auto simp: x)
qed

definition sample_sha :: "bytes \<Rightarrow> bytes" where
  "sample_sha b = replicate recordSize (of_nat (length b) + 1)"

definition sample_db :: DB where
  "sample_db = \<lparr>db_f = Some ''h'', startLedger = 5\<rparr>"

definition sample_recorder :: recorder where
  "sample_recorder =
     \<lparr>rec_disk = append_all [''h'' \<mapsto> header 5] sample_db [(5, sample_sha [])],
      lastAppended = 5, HashdbDriftTotal = 0, append_ok = 1, append_error = 0\<rparr>"

lemma length_sample_sha [simp]: "length (sample_sha b) = recordSize"
  by (simp add: sample_sha_def)

lemma sample_db_ok: "db_ok (append_all [''h'' \<mapsto> header 5] sample_db ops) sample_db" if "\<forall>(seq, h) \<in> set ops. length h = recordSize"
proof -
  have "db_ok [''h'' \<mapsto> header 5] sample_db" by (simp add: db_ok_def sample_db_def)
  moreover have "file_whole [''h'' \<mapsto> header 5] sample_db"
    by (simp add: file_whole_def db_file_def sample_db_def whole_records_def)
  ultimately show ?thesis using append_all_ok(1) that by blast
qed

theorem first_seen_hash_stands_witness:
  "recorded (rec_disk (ingest sample_sha sample_db
       [(os_fine\<lparr>os_write := Some 3\<rparr>, 6, Some [1]), (os_fine, 5, Some [1, 1]), (os_fine, 5, None)] sample_recorder))
     sample_db 5 = Some (sample_sha []) \<and>
   1 \<le> HashdbDriftTotal (ingest sample_sha sample_db
       [(os_fine\<lparr>os_write := Some 3\<rparr>, 6, Some [1]), (os_fine, 5, Some [1, 1]), (os_fine, 5, None)] sample_recorder)"
proof -
  have "recorded (rec_disk sample_recorder) sample_db 5 = Some (sample_sha [])" by code_simp
  moreover have "db_ok (rec_disk sample_recorder) sample_db"
    using sample_db_ok [of "[(5, sample_sha [])]"] by (simp add: sample_recorder_def)
  moreover have "length (filter (contradicts sample_sha 5 (sample_sha []))
      [(os_fine\<lparr>os_write := Some 3\<rparr>, 6, Some [1]), (os_fine, 5, Some [1, 1]), (os_fine, 5, None)]) = 1" by code_simp
  moreover have "HashdbDriftTotal sample_recorder = 0" by (simp add: sample_recorder_def)
  ultimately show ?thesis
    using first_seen_hash_stands [of sample_sha sample_recorder sample_db 5 "sample_sha []"
      "[(os_fine\<lparr>os_write := Some 3\<rparr>, 6, Some [1]), (os_fine, 5, Some [1, 1]), (os_fine, 5, None)]"] by simp
qed

section \<open>Sweeping\<close>

definition differs :: "(bytes \<Rightarrow> bytes) \<Rightarrow> (32 word \<Rightarrow> bytes option) \<Rightarrow> 32 word \<times> bytes \<Rightarrow> bool" where
  "differs sha R l = (case R (fst l) of None \<Rightarrow> False | Some h \<Rightarrow> h \<noteq> sha (snd l))"

definition agrees :: "(bytes \<Rightarrow> bytes) \<Rightarrow> (32 word \<Rightarrow> bytes option) \<Rightarrow> 32 word \<times> bytes \<Rightarrow> bool" where
  "agrees sha R l = (R (fst l) = Some (sha (snd l)))"

definition delivered :: "(32 word \<times> bytes) list \<Rightarrow> (32 word \<times> bytes option) list" where
  "delivered ls = map (\<lambda>(seq, b). (seq, Some b)) ls"

text \<open>The verdict of a pass as a specification over what was recorded.\<close>

definition sweep_verdict ::
  "(bytes \<Rightarrow> bytes) \<Rightarrow> (32 word \<Rightarrow> bytes option) \<Rightarrow> 32 word \<Rightarrow> 32 word \<Rightarrow> (32 word \<times> bytes) list \<Rightarrow>
   stream_error option \<Rightarrow> sweepOutcome" where
  "sweep_verdict sha R from to ls ended =
     (if \<exists>l \<in> set ls. differs sha R l then sweepOutcomeDrift
      else case ended of
        Some Canceled \<Rightarrow> sweepOutcomeShutdown
      | Some StreamFailed \<Rightarrow> sweepOutcomeError
      | None \<Rightarrow>
          if length ls = unat (to - from) + 1 \<and> (\<exists>l \<in> set ls. agrees sha R l) then sweepOutcomeOK
          else sweepOutcomeIncomplete)"

lemma Observe_recorded:
  assumes "db_ok d db"
  shows "Observe os_fine d (Some db) r seq (sha b) =
    ((if seq < startLedger db then r\<lparr>OutOfRange := OutOfRange r + 1\<rparr>
      else if recorded d db seq = None then r\<lparr>Missing := Missing r + 1\<rparr>
      else if agrees sha (recorded d db) (seq, b) then r\<lparr>Verified := Verified r + 1\<rparr>
      else r\<lparr>Drifted := Drifted r + 1,
             DriftSeqs := (if length (DriftSeqs r) < MaxHashDBDriftSeqsReported then DriftSeqs r @ [seq] else DriftSeqs r)\<rparr>),
     None)"
  using assms by (auto simp: Observe_def Verify_recorded agrees_def split: option.splits)

lemma recorded_below_start: "db_ok d db \<Longrightarrow> seq < startLedger db \<Longrightarrow> recorded d db seq = None"
  by (auto elim!: db_okE simp: recorded_record_of)

lemma stream_observe_counts:
  assumes "db_ok d db" "stream_observe sha os_fine d db ended (delivered ls) r = (r', e)"
  shows "e = ended"
    "Verified r' = Verified r + length (filter (agrees sha (recorded d db)) ls)"
    "Drifted r' = Drifted r + length (filter (differs sha (recorded d db)) ls)"
    "Verified r' + Drifted r' + Missing r' + OutOfRange r' = Verified r + Drifted r + Missing r + OutOfRange r + length ls"
    "length (DriftSeqs r) \<le> MaxHashDBDriftSeqsReported \<Longrightarrow>
       DriftSeqs r' = take MaxHashDBDriftSeqsReported (DriftSeqs r @ map fst (filter (differs sha (recorded d db)) ls))"
  using assms(2)
proof (induction ls arbitrary: r)
  case Nil
  { case 1 then show ?case by (simp add: delivered_def) }
  { case 2 then show ?case by (simp add: delivered_def) }
  { case 3 then show ?case by (simp add: delivered_def) }
  { case 4 then show ?case by (simp add: delivered_def) }
  { case 5 then show ?case by (simp add: delivered_def) }
next
  case (Cons l ls)
  obtain seq b where l: "l = (seq, b)" by fastforce
  let ?next = "\<lambda>r. fst (Observe os_fine d (Some db) r seq (sha b))"
  have step: "stream_observe sha os_fine d db ended (delivered (l # ls)) r
      = stream_observe sha os_fine d db ended (delivered ls) (?next r)" for r
    by (simp add: delivered_def l Observe_recorded [OF assms(1)])
  note obs = Observe_recorded [OF assms(1), of r seq sha b for r] l differs_def agrees_def recorded_below_start [OF assms(1), of seq]
  { case 1 then show ?case using Cons.IH(1) step by simp }
  { case 2 then show ?case using Cons.IH(2) [of "?next r"] step by (auto simp: obs split: option.splits) }
  { case 3 then show ?case using Cons.IH(3) [of "?next r"] step by (auto simp: obs split: option.splits) }
  { case 4 then show ?case using Cons.IH(4) [of "?next r"] step by (auto simp: obs split: option.splits) }
  { case 5
    have "DriftSeqs (?next r) = (if differs sha (recorded d db) l \<and> length (DriftSeqs r) < MaxHashDBDriftSeqsReported
        then DriftSeqs r @ [seq] else DriftSeqs r)"
      by (auto simp: obs split: option.splits)
    then show ?case using 5 Cons.IH(5) [of "?next r"] step l by (cases "length (DriftSeqs r) < MaxHashDBDriftSeqsReported") (simp_all add: take_Cons') }
qed

lemma filter_length_pos: "(0 < length (filter P xs)) = (\<exists>x \<in> set xs. P x)"
  by (induction xs) auto

lemma pass_verdict:
  assumes "db_ok d db"
  shows "snd (hashDBVerifyPass sha os_fine d db from to (delivered ls) ended sw)
    = sweep_verdict sha (recorded d db) from to ls ended"
proof -
  obtain r e where so: "stream_observe sha os_fine d db ended (delivered ls) (NewHashDBWindowVerifier from to) = (r, e)"
    by fastforce
  note c = stream_observe_counts [OF assms so]
  have "AnyDrift r = (\<exists>l \<in> set ls. differs sha (recorded d db) l)"
    using c(3) by (simp add: AnyDrift_def NewHashDBWindowVerifier_def filter_length_pos [symmetric])
  moreover have "hashDBSweepComplete r (Verified r + Drifted r + Missing r + OutOfRange r) from to
      = (length ls = unat (to - from) + 1 \<and> (\<exists>l \<in> set ls. agrees sha (recorded d db) l))"
    using c(2,4) by (simp add: hashDBSweepComplete_def NewHashDBWindowVerifier_def filter_length_pos [symmetric])
  ultimately show ?thesis
    using so c(1) by (auto simp: hashDBVerifyPass_def classifyHashDBVerifySweep_def sweep_verdict_def
        split: option.splits stream_error.splits)
qed

text \<open>Ingesting ledgers with a system that answers: the file holds, for each ledger, the hash of its first delivery.\<close>

definition arrivals :: "(32 word \<times> bytes) list \<Rightarrow> (os_answer \<times> 32 word \<times> bytes option) list" where
  "arrivals ls = map (\<lambda>(seq, b). (os_fine, seq, Some b)) ls"

lemma recorded_verify_or_append:
  assumes "db_ok (rec_disk st) hdb" "file_whole (rec_disk st) hdb" "length h = recordSize" "h \<noteq> zero_hash"
    "st' = fst (verify_or_append os_fine hdb seq h st)"
  shows "recorded (rec_disk st') hdb t =
      (case recorded (rec_disk st) hdb t of
         Some g \<Rightarrow> Some g
       | None \<Rightarrow> if t = seq \<and> \<not> seq < startLedger hdb then Some h else None)"
    "file_whole (rec_disk st') hdb"
  using assms recorded_Append [OF assms(1-3), of seq] file_whole_Append [OF assms(1-3), of seq]
  by (auto simp: verify_or_append_recorded split: option.splits prod.splits)

lemma ingest_records_first:
  assumes "\<And>b. length (sha b) = recordSize" "\<forall>(seq, b) \<in> set ls. sha b \<noteq> zero_hash"
    "db_ok (rec_disk st) hdb" "file_whole (rec_disk st) hdb"
  shows "db_ok (rec_disk (ingest sha hdb (arrivals ls) st)) hdb"
    "recorded (rec_disk (ingest sha hdb (arrivals ls) st)) hdb t =
      (case recorded (rec_disk st) hdb t of
         Some g \<Rightarrow> Some g
       | None \<Rightarrow> if t < startLedger hdb then None else map_option sha (map_of ls t))"
  using assms(2-4)
proof (induction ls arbitrary: st)
  case Nil
  { case 1 then show ?case by (simp add: arrivals_def) }
  { case 2 then show ?case by (simp add: arrivals_def split: option.splits) }
next
  case (Cons l ls)
  obtain seq b where l: "l = (seq, b)" by fastforce
  have step: "ingest sha hdb (arrivals (l # ls)) st = ingest sha hdb (arrivals ls) (recordHashdb sha os_fine hdb seq (Some b) st)" for st
    by (simp add: arrivals_def l)
  have disk: "rec_disk (recordHashdb sha os_fine hdb seq (Some b) st) = rec_disk (fst (verify_or_append os_fine hdb seq (sha b) st))" for st
    by (simp add: recordHashdb_disk)
  note r = recorded_verify_or_append [OF _ _ assms(1) _ refl, where hdb = hdb and seq = seq]
  { case 1
    then show ?case unfolding step
      by (intro Cons.IH(1)) (auto simp: disk l intro: verify_or_append_ok r(2)) }
  { case 2
    let ?st = "recordHashdb sha os_fine hdb seq (Some b) st"
    have IH: "recorded (rec_disk (ingest sha hdb (arrivals ls) ?st)) hdb t =
        (case recorded (rec_disk ?st) hdb t of
           Some g \<Rightarrow> Some g
         | None \<Rightarrow> if t < startLedger hdb then None else map_option sha (map_of ls t))"
      using 2 by (intro Cons.IH(2)) (auto simp: disk l intro: verify_or_append_ok r(2))
    have "recorded (rec_disk ?st) hdb t =
        (case recorded (rec_disk st) hdb t of Some g \<Rightarrow> Some g | None \<Rightarrow> if t = seq \<and> \<not> seq < startLedger hdb then Some (sha b) else None)"
      unfolding disk using 2 by (intro r(1)) (auto simp: l)
    with IH show ?case unfolding step by (auto simp: l split: option.splits) }
qed

text \<open>
  C18. A rewritten ledger is caught: a hash file opened on a fresh path and fed every ingested ledger
  remembers the first delivery of each; a later sweep over any window reports drift exactly when some
  ledger the store now delivers has another hash than its first delivery had, in whatever way the stream
  ended; it reports a clean pass exactly when nothing differs, the stream ended without error, every
  ledger of the window was delivered and at least one was compared.
\<close>

theorem rewritten_ledger_is_caught:
  assumes "\<And>b. length (sha b) = recordSize" "\<forall>(seq, b) \<in> set ls. sha b \<noteq> zero_hash"
    "d path = None" "openOrCreateHashDB os_fine removed d path start = (d0, Inr db)"
    "st = ingest sha db (arrivals ls) \<lparr>rec_disk = d0, lastAppended = 0, HashdbDriftTotal = 0, append_ok = 0, append_error = 0\<rparr>"
  shows "snd (hashDBVerifyPass sha os_fine (rec_disk st) db from to (delivered now) ended sw)
    = sweep_verdict sha (\<lambda>seq. if seq < start then None else map_option sha (map_of ls seq)) from to now ended"
proof -
  have d0: "d0 = d(path := Some (header start))" and db: "db = \<lparr>db_f = Some path, startLedger = start\<rparr>"
    using assms(3,4) by (simp_all add: openOrCreateHashDB_def Open_def Create_fine)
  have f0: "db_file d0 db = Some (header start)" by (simp add: d0 db db_file_def)
  have ok: "db_ok d0 db" by (simp add: db_ok_def d0 db)
  have whole: "file_whole d0 db" using f0 by (simp add: file_whole_def whole_records_def)
  have fresh: "recorded d0 db seq = None" for seq
    using recorded_record_of [OF f0] by (simp add: record_of_def Let_def length_window slot_def recordSize_def)
  note r = ingest_records_first [OF assms(1,2), of "\<lparr>rec_disk = d0, lastAppended = 0, HashdbDriftTotal = 0, append_ok = 0, append_error = 0\<rparr>" db]
  have "recorded (rec_disk st) db = (\<lambda>seq. if seq < start then None else map_option sha (map_of ls seq))"
    using r(2) ok whole fresh assms(5) by (auto simp: fun_eq_iff db)
  then show ?thesis using pass_verdict [of "rec_disk st" db sha "from" to now ended sw] r(1) ok whole assms(5) by simp
qed

theorem rewritten_ledger_is_caught_witness:
  "snd (hashDBVerifyPass sample_sha os_fine
      (rec_disk (ingest sample_sha sample_db (arrivals [(5, [1]), (6, []), (5, [1, 2])])
        \<lparr>rec_disk = fst (openOrCreateHashDB os_fine True (\<lambda>_. None) ''h'' 5), lastAppended = 0, HashdbDriftTotal = 0,
         append_ok = 0, append_error = 0\<rparr>))
      sample_db 5 6 (delivered [(5, [1, 2]), (6, [])]) None
      \<lparr>seenDrifted = None, drift_counted = 0, runs_drift = 0, runs_error = 0, runs_ok = 0\<rparr>) = sweepOutcomeDrift"
proof -
  have "openOrCreateHashDB os_fine True (\<lambda>_. None) ''h'' 5
      = (fst (openOrCreateHashDB os_fine True (\<lambda>_. None) ''h'' 5), Inr sample_db)"
    by (simp add: openOrCreateHashDB_def Open_def Create_fine sample_db_def)
  moreover have "sweep_verdict sample_sha
      (\<lambda>seq. if seq < 5 then None else map_option sample_sha (map_of [(5, [1]), (6, []), (5, [1, 2])] seq)) 5 6
      [(5, [1, 2]), (6, [])] None = sweepOutcomeDrift" by code_simp
  moreover have "sample_sha [1] \<noteq> zero_hash" "sample_sha [] \<noteq> zero_hash" "sample_sha [1, 2] \<noteq> zero_hash" by code_simp+
  ultimately show ?thesis
    using rewritten_ledger_is_caught [of sample_sha "[(5, [1]), (6, []), (5, [1, 2])]" "\<lambda>_. None" "''h''" True 5
      "fst (openOrCreateHashDB os_fine True (\<lambda>_. None) ''h'' 5)" sample_db, OF _ _ _ _ refl] by simp
qed

section \<open>The rest of the detector\<close>

text \<open>A file that holds at least a header is never replaced, whatever it contains.\<close>

lemma openOrCreate_keeps_content:
  assumes "d path = Some f" "headerSize \<le> length f"
  shows "fst (openOrCreateHashDB os removed d path start) = d"
proof -
  have "Open os d path \<noteq> Inl ErrNotExist \<and> Open os d path \<noteq> Inl ErrShortRead"
    using assms by (simp add: Open_def Let_def)
  then show ?thesis by (auto simp: openOrCreateHashDB_def split: sum.splits hash_error.splits)
qed

text \<open>
  The window of a sweep lies inside the file, ends the safety margin behind the newest record and spans
  at most the configured number of ledgers; no 32-bit subtraction wraps.
\<close>

lemma sweep_window_bounds:
  assumes "sweep_window db tip win = Some (from, to)"
  shows "startLedger db \<le> from \<and> from \<le> to \<and> unat to + 16 = unat tip \<and>
    (unat to - unat from < unat win \<or> from = startLedger db \<and> to \<le> win)"
proof -
  have tip: "16 < tip" and to: "to = tip - 16" and le: "from \<le> to"
    using assms by (auto simp: sweep_window_def hashDBVerifySafetyMargin_def Let_def split: if_splits)
  have unat_to: "unat to = unat tip - 16" using tip to by (simp add: unat_sub less_imp_le)
  have from_cases: "win < to \<and> startLedger db < to - win + 1 \<and> from = to - win + 1
      \<or> \<not> (win < to \<and> startLedger db < to - win + 1) \<and> from = startLedger db"
    using assms by (auto simp: sweep_window_def hashDBVerifySafetyMargin_def Let_def split: if_splits)
  have "unat (to - win + 1) = unat to - unat win + 1" if "win < to"
  proof -
    have "unat (to - win) = unat to - unat win" using that by (simp add: unat_sub less_imp_le)
    moreover have "unat to + 1 < 2 ^ 32" using tip unat_to unsigned_less [of tip, where 'a = nat] by simp
    ultimately show ?thesis by (simp add: unat_word_ariths(1) [of "to - win"])
  qed
  then show ?thesis
    using from_cases tip unat_to le
    by (cases "win < to"; auto simp: word_less_nat_alt word_le_nat_alt linorder_not_less)
qed

lemma seen_fold:
  "foldl (\<lambda>(n, s) seq. if seq \<in> set s then (n, s) else (n + 1, seq # s)) (n, s) xs = (n', s') \<Longrightarrow>
     set s' = set s \<union> set xs \<and> n' = n + card (set xs - set s)"
proof (induction xs arbitrary: n s)
  case (Cons x xs)
  show ?case
  proof (cases "x \<in> set s")
    case True
    then show ?thesis using Cons.IH [of n s] Cons.prems by (auto simp: insert_absorb insert_Diff_if)
  next
    case False
    then have "set (x # xs) - set s = insert x (set xs - set (x # s))" by auto
    then have "card (set (x # xs) - set s) = 1 + card (set xs - set (x # s))" by simp
    then show ?thesis using Cons.IH [of "n + 1" "x # s"] Cons.prems False by auto
  qed
qed simp

text \<open>Over overlapping sweeps each drifted ledger is counted once, as long as the capped list names them all.\<close>

lemma countNewDrift_distinct:
  assumes "Drifted r = length (DriftSeqs r)" "countNewDrift r (Some s) = (n, Some s')"
  shows "set s' = set s \<union> set (DriftSeqs r) \<and> n = card (set (DriftSeqs r) - set s)"
  using assms seen_fold [of 0 s "DriftSeqs r"] by (auto simp: countNewDrift_def split: prod.splits)

end
