(* ===== verification/CrossAnchor.thy ===== *)
theory CrossAnchor
  imports GoText GoErr
begin

text \<open>
  \<open>internal/archivecompleteness/cross_anchor.go\<close> and \<open>report.go\<close>: the scan of a history archive for
  missing checkpoint files, one at every ledger whose sequence is 63 modulo 64, and the report on it.
  An archive is a map from cleaned paths to bytes; the decompression of a file is the argument \<open>gz\<close>. The
  loop over the checkpoints advances a \<open>uint32\<close> and is a \<open>partial_function\<close>: \<open>None\<close> means it never ends.
\<close>

unbundle bit_operations_syntax

type_synonym bytes = "8 word list"
type_synonym files = "string \<Rightarrow> bytes option"

section \<open>path/filepath\<close>

fun split_slash :: "string \<Rightarrow> string list" where
  "split_slash [] = [[]]"
| "split_slash (c # s) =
     (if c = CHR ''/'' then [] # split_slash s else (c # hd (split_slash s)) # tl (split_slash s))"

text \<open>\<open>filepath.Clean\<close>: the stack of kept elements, the innermost first.\<close>

definition clean_elem :: "bool \<Rightarrow> string list \<Rightarrow> string \<Rightarrow> string list" where
  "clean_elem rooted st e =
     (if e = [] \<or> e = ''.'' then st
      else if e = ''..'' then
        (if st \<noteq> [] \<and> hd st \<noteq> ''..'' then tl st else if rooted then st else e # st)
      else e # st)"

fun slash_join :: "string list \<Rightarrow> string" where
  "slash_join [] = []"
| "slash_join [e] = e"
| "slash_join (e # es) = e @ ''/'' @ slash_join es"

definition Clean :: "string \<Rightarrow> string" where
  "Clean s =
     (let rooted = HasPrefix s ''/'';
          out = (if rooted then ''/'' else '''') @ slash_join (rev (foldl (clean_elem rooted) [] (split_slash s))) in
      if out = [] then ''.'' else out)"

definition Join :: "string list \<Rightarrow> string" where
  "Join es = (case dropWhile (\<lambda>e. e = []) es of [] \<Rightarrow> [] | es' \<Rightarrow> Clean (slash_join es'))"

section \<open>cross_anchor.go\<close>

record CrossAnchorResult =
  ca_From :: "32 word"
  ca_To :: "32 word"
  Expected :: nat
  Found :: nat
  ca_Missing :: "32 word list"
  Truncated :: bool

definition empty_result :: "32 word \<Rightarrow> 32 word \<Rightarrow> CrossAnchorResult" where
  "empty_result from to = \<lparr>ca_From = from, ca_To = to, Expected = 0, Found = 0, ca_Missing = [], Truncated = False\<rparr>"

definition MaxMissingReported :: nat where
  "MaxMissingReported = 65536"

definition alignFirstCheckpoint :: "32 word \<Rightarrow> 32 word" where
  "alignFirstCheckpoint from =
     (let rem = from mod 64 in
      if rem = 63 then from
      else if rem < 63 then from - rem + 63
      else from + (64 - rem) + 63)"

definition alignLastCheckpoint :: "32 word \<Rightarrow> 32 word" where
  "alignLastCheckpoint to =
     (let rem = to mod 64 in
      if rem = 63 then to
      else if rem \<ge> 63 \<or> rem < 63 then (if to < 63 then 0 else to - rem - 1)
      else 0)"

fun hex_loop :: "nat \<Rightarrow> 32 word \<Rightarrow> string" where
  "hex_loop 0 seq = []"
| "hex_loop (Suc n) seq = hex_loop n (drop_bit 4 seq) @ [''0123456789abcdef'' ! unat (seq AND 15)]"

definition hexSeq8 :: "32 word \<Rightarrow> string" where
  "hexSeq8 seq = hex_loop 8 seq"

definition checkpointPath :: "string \<Rightarrow> 32 word \<Rightarrow> string" where
  "checkpointPath archiveRoot seq =
     (let hex = hexSeq8 seq in
      Join [archiveRoot, ''ledger'', take 2 hex, take 2 (drop 2 hex), take 2 (drop 4 hex),
            ''ledger-'' @ hex @ ''.xdr.gz''])"

text \<open>
  What \<open>compress/gzip\<close> makes of a file: \<open>None\<close> when its header is refused, else the number of bytes that
  decompress and whether the stream ended with an intact footer.
\<close>

type_synonym gunzip = "bytes \<Rightarrow> (nat \<times> bool) option"

definition maxDecompressedBytes :: nat where
  "maxDecompressedBytes = 2 ^ 22"

definition validateGzip :: "gunzip \<Rightarrow> bytes option \<Rightarrow> unit + nat" where
  "validateGzip gz f =
     (case f of
        None \<Rightarrow> Inl ()
      | Some b \<Rightarrow>
          (case gz b of
             None \<Rightarrow> Inl ()
           | Some (n, footer) \<Rightarrow>
               (let copied = min n (maxDecompressedBytes + 1) in
                if n \<le> maxDecompressedBytes \<and> \<not> footer then Inl ()
                else if maxDecompressedBytes < copied then Inl ()
                else Inr copied)))"

definition probeCheckpointFile :: "gunzip \<Rightarrow> bytes \<Rightarrow> bool" where
  "probeCheckpointFile gz b =
     (if length b = 0 then False else case validateGzip gz (Some b) of Inl _ \<Rightarrow> False | Inr n \<Rightarrow> 0 < n)"

datatype root_kind = RootMissing | RootFile | RootDir

datatype scan_error = ErrNoRoot | ErrRange | ErrStatRoot | ErrNotDir | ErrStat "32 word"

text \<open>The archive as the scan sees it; \<open>stat_fails\<close> marks the paths whose \<open>Stat\<close> fails for another reason than absence.\<close>

record archive =
  ar_root :: string
  ar_kind :: root_kind
  ar_files :: files
  stat_fails :: "string \<Rightarrow> bool"

definition note_missing :: "32 word \<Rightarrow> CrossAnchorResult \<Rightarrow> CrossAnchorResult" where
  "note_missing seq res =
     (if length (ca_Missing res) < MaxMissingReported then res\<lparr>ca_Missing := ca_Missing res @ [seq]\<rparr>
      else if \<not> Truncated res then res\<lparr>Truncated := True\<rparr>
      else res)"

definition scan_slot :: "gunzip \<Rightarrow> archive \<Rightarrow> 32 word \<Rightarrow> CrossAnchorResult \<Rightarrow> CrossAnchorResult option" where
  "scan_slot gz ar seq res =
     (let path = checkpointPath (ar_root ar) seq in
      if stat_fails ar path then None
      else case ar_files ar path of
        Some b \<Rightarrow> Some (if probeCheckpointFile gz b then res\<lparr>Found := Found res + 1\<rparr> else note_missing seq res)
      | None \<Rightarrow> Some (note_missing seq res))"

partial_function (option) scan_loop ::
  "gunzip \<Rightarrow> archive \<Rightarrow> 32 word \<Rightarrow> 32 word \<Rightarrow> CrossAnchorResult \<Rightarrow> (CrossAnchorResult \<times> scan_error option) option" where
  [code]: "scan_loop gz ar seq lastCP res =
     (if seq \<le> lastCP then
        (case scan_slot gz ar seq res of
           None \<Rightarrow> Some (res, Some (ErrStat seq))
         | Some res' \<Rightarrow> scan_loop gz ar (seq + 64) lastCP res')
      else Some (res, None))"

definition no_result :: CrossAnchorResult where
  "no_result = empty_result 0 0"

definition Check :: "gunzip \<Rightarrow> archive \<Rightarrow> 32 word \<Rightarrow> 32 word \<Rightarrow> (CrossAnchorResult \<times> scan_error option) option" where
  "Check gz ar from to =
     (if ar_root ar = [] then Some (no_result, Some ErrNoRoot)
      else if to < from then Some (no_result, Some ErrRange)
      else if ar_kind ar = RootMissing then Some (no_result, Some ErrStatRoot)
      else if ar_kind ar = RootFile then Some (no_result, Some ErrNotDir)
      else let firstCP = alignFirstCheckpoint from; lastCP = alignLastCheckpoint to in
        if firstCP > lastCP then Some (empty_result from to, None)
        else scan_loop gz ar firstCP lastCP
               ((empty_result from to)\<lparr>Expected := unat ((lastCP - firstCP) div 64) + 1\<rparr>))"

section \<open>report.go\<close>

record CrossAnchorReportSection =
  ArchiveRoot :: string
  xs_Expected :: nat
  xs_Found :: nat
  xs_MissingCount :: int
  xs_Missing :: "32 word list"
  xs_Truncated :: bool

record PrimaryReportSection =
  BucketName :: string
  ps_Expected :: nat
  ps_Found :: nat
  ps_MissingCount :: int
  MissingRanges :: "(32 word \<times> 32 word) list"

record Report =
  Range :: "32 word \<times> 32 word"
  CrossAnchor :: "CrossAnchorReportSection option"
  Primary :: "PrimaryReportSection option"

definition NewReport :: "32 word \<Rightarrow> 32 word \<Rightarrow> Report" where
  "NewReport from to = \<lparr>Range = (from, to), CrossAnchor = None, Primary = None\<rparr>"

definition SetCrossAnchor :: "string \<Rightarrow> CrossAnchorResult \<Rightarrow> Report \<Rightarrow> Report" where
  "SetCrossAnchor archiveRoot res r =
     r\<lparr>CrossAnchor := Some
        \<lparr>ArchiveRoot = archiveRoot, xs_Expected = Expected res, xs_Found = Found res,
         xs_MissingCount = int (Expected res) - int (Found res),
         xs_Missing = ca_Missing res, xs_Truncated = Truncated res\<rparr>\<rparr>"

definition AnyMissing :: "Report \<Rightarrow> bool" where
  "AnyMissing r =
     ((case CrossAnchor r of None \<Rightarrow> False | Some c \<Rightarrow> 0 < xs_MissingCount c)
      \<or> (case Primary r of None \<Rightarrow> False | Some c \<Rightarrow> 0 < ps_MissingCount c))"

definition Vacuous :: "Report \<Rightarrow> bool" where
  "Vacuous r =
     (if (case CrossAnchor r of None \<Rightarrow> False | Some c \<Rightarrow> 0 < xs_Expected c) then False
      else if (case Primary r of None \<Rightarrow> False | Some c \<Rightarrow> 0 < ps_Expected c) then False
      else CrossAnchor r \<noteq> None \<or> Primary r \<noteq> None)"

section \<open>The checkpoints of a range\<close>

definition checkpoints :: "32 word \<Rightarrow> 32 word \<Rightarrow> 32 word list" where
  "checkpoints from to = map of_nat (filter (\<lambda>n. n mod 64 = 63) [unat from..<Suc (unat to)])"

lemma checkpoints_set: "set (checkpoints from to) = {s. from \<le> s \<and> s \<le> to \<and> s mod 64 = 63}"
proof -
  have "s \<in> set (checkpoints from to) \<longleftrightarrow> from \<le> s \<and> s \<le> to \<and> s mod 64 = 63" for s
  proof -
    have "s \<in> set (checkpoints from to) \<longleftrightarrow> (\<exists>n. unat from \<le> n \<and> n \<le> unat to \<and> n mod 64 = 63 \<and> s = of_nat n)"
      by (auto simp: checkpoints_def)
    also have "\<dots> \<longleftrightarrow> unat from \<le> unat s \<and> unat s \<le> unat to \<and> unat s mod 64 = 63"
    proof
      assume "\<exists>n. unat from \<le> n \<and> n \<le> unat to \<and> n mod 64 = 63 \<and> s = of_nat n"
      then obtain n where n: "unat from \<le> n" "n \<le> unat to" "n mod 64 = 63" "s = of_nat n" by blast
      have "n < 2 ^ 32" using n(2) unsigned_less [of to, where 'a = nat] by simp
      then have "unat s = n" using n(4) by (simp add: unat_of_nat)
      with n show "unat from \<le> unat s \<and> unat s \<le> unat to \<and> unat s mod 64 = 63" by simp
    next
      assume "unat from \<le> unat s \<and> unat s \<le> unat to \<and> unat s mod 64 = 63"
      then show "\<exists>n. unat from \<le> n \<and> n \<le> unat to \<and> n mod 64 = 63 \<and> s = of_nat n" by (intro exI [of _ "unat s"]) simp
    qed
    also have "\<dots> \<longleftrightarrow> from \<le> s \<and> s \<le> to \<and> s mod 64 = 63"
      by (auto simp: word_le_nat_alt word_unat_eq_iff unat_mod)
    finally show ?thesis .
  qed
  then show ?thesis by blast
qed

lemma unat_mod_64: "unat ((w :: 32 word) mod 64) = unat w mod 64"
  by (simp add: unat_mod)

lemma word_mod_64_eq: "(w :: 32 word) mod 64 = 63 \<longleftrightarrow> unat w mod 64 = 63"
  by (simp add: word_unat_eq_iff unat_mod_64)

lemma unat_bound: "unat (w :: 32 word) < 2 ^ 32"
  using unsigned_less [of w, where 'a = nat] by simp

lemma align_up: "(n :: nat) < 2 ^ 32 \<Longrightarrow> n - n mod 64 + 63 < 2 ^ 32"
  using div_le_mono [of n "2 ^ 32 - 1" 64] minus_mod_eq_mult_div [of n 64] by simp

lemma mod_64_le: "(n :: nat) mod 64 \<le> n"
  by simp

lemma unat_alignFirst: "unat (alignFirstCheckpoint from) = unat from - unat from mod 64 + 63"
proof -
  have r: "unat (from mod 64) \<le> unat from" by (simp add: unat_mod_64)
  have lt: "unat from mod 64 < 64" by simp
  show ?thesis
  proof (cases "unat from mod 64 = 63")
    case True
    then have "63 \<le> unat from" using mod_64_le [of "unat from"] by simp
    then show ?thesis using True by (simp add: alignFirstCheckpoint_def Let_def word_mod_64_eq)
  next
    case False
    then have "unat from mod 64 < 63" using lt by linarith
    then have "alignFirstCheckpoint from = from - from mod 64 + 63"
      using False by (simp add: alignFirstCheckpoint_def Let_def word_mod_64_eq word_less_nat_alt unat_mod_64)
    moreover have "unat (from - from mod 64) = unat from - unat from mod 64"
      using r by (simp add: unat_sub word_le_nat_alt unat_mod_64)
    ultimately show ?thesis
      using align_up [OF unat_bound, of "from"] by (simp add: unat_word_ariths(1) [of "from - from mod 64"])
  qed
qed

lemma unat_alignLast: "unat (alignLastCheckpoint to) = (if unat to < 63 then 0 else unat to - (unat to + 1) mod 64)"
proof -
  consider (cp) "unat to mod 64 = 63" | (low) "unat to < 63" | (high) "63 \<le> unat to" "unat to mod 64 < 63" by fastforce
  then show ?thesis
  proof cases
    case cp
    then have "\<not> unat to < 63" "(unat to + 1) mod 64 = 0"
      using mod_64_le [of "unat to"] by (simp_all add: mod_Suc)
    then show ?thesis using cp by (simp add: alignLastCheckpoint_def Let_def word_mod_64_eq)
  next
    case low
    then show ?thesis by (auto simp: alignLastCheckpoint_def Let_def word_mod_64_eq word_less_nat_alt word_le_nat_alt unat_mod_64)
  next
    case high
    then have "alignLastCheckpoint to = to - to mod 64 - 1"
      by (auto simp: alignLastCheckpoint_def Let_def word_mod_64_eq word_less_nat_alt word_le_nat_alt unat_mod_64)
    moreover have d: "unat (to - to mod 64) = unat to - unat to mod 64"
      by (simp add: unat_sub word_le_nat_alt unat_mod_64)
    moreover have "(unat to + 1) mod 64 = unat to mod 64 + 1" using high(2) by (simp add: mod_Suc)
    moreover have "1 \<le> unat to - unat to mod 64" using high by linarith
    ultimately show ?thesis using high by (simp add: unat_sub word_le_nat_alt d)
  qed
qed

section \<open>The loop\<close>

fun cp_run :: "nat \<Rightarrow> 32 word \<Rightarrow> 32 word list" where
  "cp_run 0 seq = []"
| "cp_run (Suc k) seq = seq # cp_run k (seq + 64)"

lemma cp_run_nat: "cp_run k (of_nat n) = map (\<lambda>i. of_nat (n + 64 * i)) [0..<k]"
proof (induction k arbitrary: n)
  case (Suc k)
  have "[0..<Suc k] = 0 # map Suc [0..<k]" by (simp add: upt_conv_Cons map_Suc_upt del: upt_Suc)
  then show ?case using Suc.IH [of "n + 64"] by (simp add: comp_def algebra_simps del: upt_Suc)
qed simp

text \<open>The numbers 63 modulo 64 of an interval, counted from the first.\<close>

definition cp_count :: "nat \<Rightarrow> nat \<Rightarrow> nat" where
  "cp_count x y = (y + 1) div 64 - x div 64"

lemma filter_mod_64:
  "filter (\<lambda>n. n mod 64 = 63) [x..<Suc y] = map (\<lambda>i. 64 * (x div 64) + 63 + 64 * i) [0..<cp_count x y]"
proof (rule sorted_distinct_set_unique)
  show "sorted (filter (\<lambda>n. n mod 64 = 63) [x..<Suc y])"
    using sorted_filter [of "\<lambda>n. n" "[x..<Suc y]"] by (simp del: upt_Suc)
  show "sorted (map (\<lambda>i. 64 * (x div 64) + 63 + 64 * i) [0..<cp_count x y])"
    by (simp add: sorted_wrt_iff_nth_less)
  show "distinct (map (\<lambda>i. 64 * (x div 64) + 63 + 64 * i) [0..<cp_count x y])"
    by (simp add: distinct_map inj_on_def)
  have in_range: "x \<le> 64 * m + 63 \<and> 64 * m + 63 \<le> y \<longleftrightarrow> x div 64 \<le> m \<and> m < (y + 1) div 64" for m
  proof -
    have low: "x div 64 < m + 1 \<longleftrightarrow> x < (m + 1) * 64" by (rule div_less_iff_less_mult) simp
    have high: "m + 1 \<le> (y + 1) div 64 \<longleftrightarrow> (m + 1) * 64 \<le> y + 1" by (rule less_eq_div_iff_mult_less_eq) simp
    have "x \<le> 64 * m + 63 \<longleftrightarrow> x < (m + 1) * 64" "64 * m + 63 \<le> y \<longleftrightarrow> (m + 1) * 64 \<le> y + 1" by auto
    then show ?thesis unfolding low [symmetric] high [symmetric] by (simp only: Suc_eq_plus1 [symmetric] less_Suc_eq_le Suc_le_eq)
  qed
  show "set (filter (\<lambda>n. n mod 64 = 63) [x..<Suc y]) = set (map (\<lambda>i. 64 * (x div 64) + 63 + 64 * i) [0..<cp_count x y])"
  proof (intro equalityI subsetI)
    fix n
    assume "n \<in> set (filter (\<lambda>n. n mod 64 = 63) [x..<Suc y])"
    then have n: "n mod 64 = 63" "x \<le> n" "n \<le> y"
      by (simp_all only: set_filter mem_Collect_eq set_upt atLeastLessThan_iff less_Suc_eq_le)
    let ?m = "n div 64"
    have m: "n = 64 * ?m + 63" using n(1) by (metis mult_div_mod_eq)
    then have "x div 64 \<le> ?m" "?m < (y + 1) div 64" using in_range [of ?m] n by auto
    then have "?m - x div 64 < cp_count x y" "n = 64 * (x div 64) + 63 + 64 * (?m - x div 64)"
      using m unfolding cp_count_def by linarith+
    then show "n \<in> set (map (\<lambda>i. 64 * (x div 64) + 63 + 64 * i) [0..<cp_count x y])"
      unfolding set_map by (metis atLeastLessThan_iff image_eqI le0 set_upt)
  next
    fix n
    assume "n \<in> set (map (\<lambda>i. 64 * (x div 64) + 63 + 64 * i) [0..<cp_count x y])"
    then obtain i where i: "i < cp_count x y" "n = 64 * (x div 64 + i) + 63" by auto
    then have "x \<le> n" "n \<le> y" using in_range [of "x div 64 + i"] by (auto simp: cp_count_def)
    moreover have "n mod 64 = 63" by (simp only: i(2) mod_mult_self4) simp
    ultimately show "n \<in> set (filter (\<lambda>n. n mod 64 = 63) [x..<Suc y])"
      by (simp only: set_filter mem_Collect_eq set_upt atLeastLessThan_iff less_Suc_eq_le)
  qed
qed (simp del: upt_Suc)

lemma unat_first: "unat (alignFirstCheckpoint from) = 64 * (unat from div 64) + 63"
  by (simp add: unat_alignFirst minus_mod_eq_mult_div)

lemma unat_last: "63 \<le> unat to \<Longrightarrow> unat (alignLastCheckpoint to) + 1 = 64 * ((unat to + 1) div 64)"
proof -
  assume "63 \<le> unat to"
  moreover have "64 * ((unat to + 1) div 64) = unat to + 1 - (unat to + 1) mod 64" by (simp add: minus_mod_eq_mult_div)
  moreover have "(unat to + 1) mod 64 < 64" by simp
  then have "(unat to + 1) mod 64 \<le> unat to" using calculation(1) by linarith
  ultimately show ?thesis by (simp add: unat_alignLast)
qed

lemma checkpoints_run: "checkpoints from to = cp_run (cp_count (unat from) (unat to)) (alignFirstCheckpoint from)"
proof -
  have "alignFirstCheckpoint from = of_nat (unat (alignFirstCheckpoint from))" by simp
  then have "alignFirstCheckpoint from = of_nat (64 * (unat from div 64) + 63)" by (simp only: unat_first)
  then show ?thesis by (simp only: checkpoints_def filter_mod_64 cp_run_nat map_map comp_def)
qed

text \<open>One slot, and the fold of the loop body over the slots.\<close>

definition holds_checkpoint :: "gunzip \<Rightarrow> archive \<Rightarrow> 32 word \<Rightarrow> bool" where
  "holds_checkpoint gz ar seq =
     (case ar_files ar (checkpointPath (ar_root ar) seq) of None \<Rightarrow> False | Some b \<Rightarrow> probeCheckpointFile gz b)"

definition note_slot :: "gunzip \<Rightarrow> archive \<Rightarrow> CrossAnchorResult \<Rightarrow> 32 word \<Rightarrow> CrossAnchorResult" where
  "note_slot gz ar res seq = (if holds_checkpoint gz ar seq then res\<lparr>Found := Found res + 1\<rparr> else note_missing seq res)"

definition readable :: "archive \<Rightarrow> 32 word \<Rightarrow> bool" where
  "readable ar seq = (\<not> stat_fails ar (checkpointPath (ar_root ar) seq))"

lemma scan_slot_note: "scan_slot gz ar seq res = (if readable ar seq then Some (note_slot gz ar res seq) else None)"
  by (simp add: scan_slot_def note_slot_def holds_checkpoint_def readable_def Let_def split: option.splits)

lemma scan_loop_run:
  assumes "unat seq + 64 * k = unat lastCP + 64" "unat lastCP + 64 < 2 ^ 32" "\<forall>s \<in> set (cp_run k seq). readable ar s"
  shows "scan_loop gz ar seq lastCP res = Some (foldl (note_slot gz ar) res (cp_run k seq), None)"
  using assms
proof (induction k arbitrary: seq res)
  case 0
  then have "\<not> seq \<le> lastCP" by (simp add: word_le_nat_alt)
  then show ?case by (simp add: scan_loop.simps)
next
  case (Suc k)
  then have le: "seq \<le> lastCP" by (simp add: word_le_nat_alt)
  have "unat (seq + 64) = unat seq + 64" using Suc.prems(1,2) by (simp add: unat_word_ariths)
  then have "scan_loop gz ar (seq + 64) lastCP (note_slot gz ar res seq)
      = Some (foldl (note_slot gz ar) (note_slot gz ar res seq) (cp_run k (seq + 64)), None)"
    using Suc.prems by (intro Suc.IH) simp_all
  then show ?case using le Suc.prems(3) by (simp add: scan_loop.simps [of gz ar seq] scan_slot_note)
qed

text \<open>At the largest sequence the increment wraps and the loop condition never fails.\<close>

lemma scan_loop_wraps:
  assumes "\<And>s. readable ar s"
  shows "scan_loop gz ar seq (- 1) res = None"
proof -
  have "scan_loop gz ar seq lastCP res = Some r \<Longrightarrow> lastCP = - 1 \<longrightarrow> (\<exists>s. \<not> readable ar s)"
    for gz ar seq lastCP res r
    by (erule scan_loop.raw_induct [where P = "\<lambda>gz ar seq lastCP res r. lastCP = - 1 \<longrightarrow> (\<exists>s. \<not> readable ar s)", rotated])
      (auto simp: scan_slot_note split: if_splits)
  then show ?thesis using assms by (metis not_Some_eq)
qed

text \<open>What a scan should report of a range.\<close>

definition scan_spec :: "gunzip \<Rightarrow> archive \<Rightarrow> 32 word \<Rightarrow> 32 word \<Rightarrow> CrossAnchorResult" where
  "scan_spec gz ar from to =
     (let cps = checkpoints from to; bad = filter (\<lambda>s. \<not> holds_checkpoint gz ar s) cps in
      \<lparr>ca_From = from, ca_To = to, Expected = length cps, Found = length (filter (holds_checkpoint gz ar) cps),
       ca_Missing = take MaxMissingReported bad, Truncated = MaxMissingReported < length bad\<rparr>)"

lemma foldl_note_slot:
  assumes "length (ca_Missing res) \<le> MaxMissingReported" "Truncated res \<longrightarrow> length (ca_Missing res) = MaxMissingReported"
  shows "foldl (note_slot gz ar) res cps =
    res\<lparr>Found := Found res + length (filter (holds_checkpoint gz ar) cps),
        ca_Missing := take MaxMissingReported (ca_Missing res @ filter (\<lambda>s. \<not> holds_checkpoint gz ar s) cps),
        Truncated := (Truncated res \<or>
          MaxMissingReported < length (ca_Missing res) + length (filter (\<lambda>s. \<not> holds_checkpoint gz ar s) cps))\<rparr>"
  using assms
proof (induction cps arbitrary: res)
  case Nil
  then show ?case by auto
next
  case (Cons s cps)
  show ?case
  proof (cases "holds_checkpoint gz ar s")
    case True
    then show ?thesis using Cons.IH [of "note_slot gz ar res s"] Cons.prems by (simp add: note_slot_def)
  next
    case False
    show ?thesis
    proof (cases "length (ca_Missing res) < MaxMissingReported")
      case True
      then show ?thesis
        using Cons.IH [of "note_slot gz ar res s"] Cons.prems False by (auto simp: note_slot_def note_missing_def take_Cons')
    next
      case full: False
      then show ?thesis
        using Cons.IH [of "note_slot gz ar res s"] Cons.prems False by (auto simp: note_slot_def note_missing_def)
    qed
  qed
qed

lemma cp_run_length [simp]: "length (cp_run k seq) = k"
  by (induction k arbitrary: seq) simp_all

lemma cp_count_aligned:
  assumes "63 \<le> unat to" "alignFirstCheckpoint from \<le> alignLastCheckpoint to"
  shows "unat (alignFirstCheckpoint from) + 64 * cp_count (unat from) (unat to) = unat (alignLastCheckpoint to) + 64"
    "unat ((alignLastCheckpoint to - alignFirstCheckpoint from) div 64) + 1 = cp_count (unat from) (unat to)"
proof -
  let ?p = "unat from div 64" and ?q = "(unat to + 1) div 64"
  have f: "unat (alignFirstCheckpoint from) = 64 * ?p + 63" and l: "unat (alignLastCheckpoint to) + 1 = 64 * ?q"
    by (rule unat_first) (rule unat_last [OF assms(1)])
  have le: "64 * ?p + 63 \<le> unat (alignLastCheckpoint to)" using assms(2) f by (simp add: word_le_nat_alt)
  then have pq: "?p + 1 \<le> ?q" using l by linarith
  then show "unat (alignFirstCheckpoint from) + 64 * cp_count (unat from) (unat to) = unat (alignLastCheckpoint to) + 64"
    using f l by (simp add: cp_count_def diff_mult_distrib2)
  have "unat (alignLastCheckpoint to - alignFirstCheckpoint from) = 64 * (?q - 1 - ?p)"
    using assms(2) f l pq by (simp add: unat_sub diff_mult_distrib2)
  then have "unat ((alignLastCheckpoint to - alignFirstCheckpoint from) div 64) = ?q - 1 - ?p"
    by (simp add: unat_div)
  then show "unat ((alignLastCheckpoint to - alignFirstCheckpoint from) div 64) + 1 = cp_count (unat from) (unat to)"
    using pq unfolding cp_count_def by linarith
qed

lemma no_checkpoint:
  assumes "alignLastCheckpoint to < alignFirstCheckpoint from"
  shows "checkpoints from to = []"
proof (cases "63 \<le> unat to")
  case True
  then have "64 * ((unat to + 1) div 64) \<le> 64 * (unat from div 64) + 63"
    using assms unat_last [OF True] unat_first [of "from"] by (simp add: word_less_nat_alt)
  then have "cp_count (unat from) (unat to) = 0" unfolding cp_count_def by linarith
  then show ?thesis by (simp add: checkpoints_run)
next
  case False
  then have "cp_count (unat from) (unat to) = 0" by (simp add: cp_count_def)
  then show ?thesis by (simp add: checkpoints_run)
qed

lemma scan_spec_of_check:
  assumes "ar_root ar \<noteq> []" "ar_kind ar = RootDir" "from \<le> to" "to \<noteq> - 1"
    "\<forall>s \<in> set (checkpoints from to). readable ar s"
  shows "Check gz ar from to = Some (scan_spec gz ar from to, None)"
proof (cases "alignLastCheckpoint to < alignFirstCheckpoint from")
  case True
  then show ?thesis
    using assms(1-3) no_checkpoint [OF True]
    by (simp add: Check_def scan_spec_def empty_result_def Let_def linorder_not_less)
next
  case False
  then have le: "alignFirstCheckpoint from \<le> alignLastCheckpoint to" by simp
  have big: "63 \<le> unat to"
    using le unat_first [of "from"] by (cases "unat to < 63") (simp_all add: unat_alignLast word_le_nat_alt)
  note c = cp_count_aligned [OF big le]
  have "unat (alignLastCheckpoint to) + 64 < 2 ^ 32"
  proof -
    have q: "unat (alignLastCheckpoint to) + 1 = 64 * ((unat to + 1) div 64)" by (rule unat_last [OF big])
    have "unat (- 1 :: 32 word) = 2 ^ 32 - 1" by (simp add: unsigned_minus_1_eq_mask mask_eq_exp_minus_1)
    then have "unat to \<noteq> 2 ^ 32 - 1" using assms(4) by (metis word_unat_eq_iff)
    then have "unat to + 1 < 64 * 67108864" using unat_bound [of to] by simp
    then have "(unat to + 1) div 64 < 67108864" by (simp add: div_less_iff_less_mult)
    then show ?thesis using q by simp
  qed
  from scan_loop_run [OF c(1) this] assms(5)
  have "scan_loop gz ar (alignFirstCheckpoint from) (alignLastCheckpoint to) res
      = Some (foldl (note_slot gz ar) res (checkpoints from to), None)" for res
    by (simp add: checkpoints_run)
  then show ?thesis
    using assms(1-3) le c(2) foldl_note_slot
    by (simp add: Check_def scan_spec_def empty_result_def Let_def linorder_not_less checkpoints_run foldl_note_slot)
qed

text \<open>
  C21. The scan is exact: over a readable archive and any range that does not end at the very last
  sequence, \<open>Check\<close> returns, it expects one file for each sequence of the range that is 63 modulo 64,
  counts as found exactly those whose file is present, non-empty and decompresses within the limit to at
  least one byte, lists the others in ascending order up to the cap, and says so when the list is cut.
\<close>

theorem scan_reports_exactly:
  assumes "ar_root ar \<noteq> []" "ar_kind ar = RootDir" "from \<le> to" "to \<noteq> - 1"
    "\<forall>s \<in> set (checkpoints from to). readable ar s"
  shows "Check gz ar from to = Some (scan_spec gz ar from to, None)"
  using assms by (rule scan_spec_of_check)

section \<open>Paths\<close>

lemma split_slash_nonempty [simp]: "split_slash s \<noteq> []"
  by (cases s) auto

lemma split_slash_append: "split_slash (s @ CHR ''/'' # t) = split_slash s @ split_slash t"
  by (induction s) auto

lemma split_slash_plain: "CHR ''/'' \<notin> set s \<Longrightarrow> split_slash s = [s]"
  by (induction s) auto

lemma slash_join_Cons: "es \<noteq> [] \<Longrightarrow> slash_join (e # es) = e @ ''/'' @ slash_join es"
  by (cases es) auto

lemma slash_join_append: "ds \<noteq> [] \<Longrightarrow> es \<noteq> [] \<Longrightarrow> slash_join (ds @ es) = slash_join ds @ ''/'' @ slash_join es"
proof (induction ds)
  case (Cons d ds)
  then show ?case by (cases ds) (simp_all add: slash_join_Cons)
qed simp

lemma split_slash_join: "es \<noteq> [] \<Longrightarrow> \<forall>e \<in> set es. CHR ''/'' \<notin> set e \<Longrightarrow> split_slash (slash_join es) = es"
proof (induction es)
  case (Cons e es)
  then show ?case by (cases es) (auto simp: split_slash_append split_slash_plain)
qed simp

definition plain_elem :: "string \<Rightarrow> bool" where
  "plain_elem e \<longleftrightarrow> e \<noteq> [] \<and> e \<noteq> ''.'' \<and> e \<noteq> ''..'' \<and> CHR ''/'' \<notin> set e"

lemma foldl_clean_plain: "list_all plain_elem es \<Longrightarrow> foldl (clean_elem r) st es = rev es @ st"
  by (induction es arbitrary: st) (auto simp: clean_elem_def plain_elem_def)

text \<open>Cleaned, a path below the root is the cleaned root followed by its elements.\<close>

definition root_stem :: "string \<Rightarrow> string" where
  "root_stem r =
     (let rooted = HasPrefix r ''/''; st = foldl (clean_elem rooted) [] (split_slash r) in
      (if rooted then ''/'' else '''') @ (if st = [] then [] else slash_join (rev st) @ ''/''))"

lemma Join_below_root:
  assumes "r \<noteq> []" "es \<noteq> []" "list_all plain_elem es"
  shows "Join (r # es) = root_stem r @ slash_join es"
proof -
  let ?p = "slash_join (r # es)"
  have p: "?p = r @ CHR ''/'' # slash_join es" using assms(2) by (simp add: slash_join_Cons)
  have rooted: "HasPrefix ?p ''/'' = HasPrefix r ''/''"
    unfolding p using assms(1) by (cases r) (simp_all add: HasPrefix_def)
  have "\<forall>e \<in> set es. CHR ''/'' \<notin> set e" using assms(3) by (auto simp: list_all_iff plain_elem_def)
  then have split: "split_slash ?p = split_slash r @ es"
    unfolding p split_slash_append using split_slash_join [OF assms(2)] by simp
  have "slash_join es \<noteq> []" using assms(2,3) by (cases es rule: slash_join.cases) (auto simp: plain_elem_def)
  then show ?thesis
    using assms(1,2) rooted split foldl_clean_plain [OF assms(3)]
    by (simp add: Join_def Clean_def root_stem_def Let_def slash_join_append)
qed

lemma unat_nibble: "unat ((s :: 32 word) AND 15) = unat s mod 16"
proof -
  have "s AND 15 = take_bit 4 s" by (simp add: take_bit_eq_mask mask_eq_exp_minus_1)
  then show ?thesis by (simp add: take_bit_eq_mod unat_mod)
qed

lemma unat_shift_nibble: "unat (drop_bit 4 (s :: 32 word)) = unat s div 16"
  by (simp add: drop_bit_eq_div unat_div)

lemma length_hex_loop [simp]: "length (hex_loop n s) = n"
  by (induction n arbitrary: s) simp_all

lemma hex_loop_inject: "hex_loop n s = hex_loop n t \<Longrightarrow> unat s mod 16 ^ n = unat t mod 16 ^ n"
proof (induction n arbitrary: s t)
  case (Suc n)
  have d: "distinct ''0123456789abcdef''" "length ''0123456789abcdef'' = 16" by simp_all
  have lt: "unat s mod 16 < 16" "unat t mod 16 < 16" by simp_all
  have "''0123456789abcdef'' ! (unat s mod 16) = ''0123456789abcdef'' ! (unat t mod 16)"
    using Suc.prems by (simp only: hex_loop.simps append1_eq_conv unat_nibble)
  then have low: "unat s mod 16 = unat t mod 16" using nth_eq_iff_index_eq [OF d(1)] d(2) lt by metis
  have "unat s div 16 mod 16 ^ n = unat t div 16 mod 16 ^ n"
    using Suc.IH [of "drop_bit 4 s" "drop_bit 4 t"] Suc.prems by (simp add: unat_shift_nibble)
  then show ?case using low by (simp add: mod_mult2_eq)
qed simp

lemma hexSeq8_inject: "hexSeq8 s = hexSeq8 t \<longleftrightarrow> s = t"
proof
  assume "hexSeq8 s = hexSeq8 t"
  from hex_loop_inject [OF this [unfolded hexSeq8_def]] have "unat s = unat t"
    using unat_bound [of s] unat_bound [of t] by simp
  then show "s = t" by (simp add: word_unat_eq_iff)
qed simp

lemma length_hexSeq8 [simp]: "length (hexSeq8 s) = 8"
  by (simp add: hexSeq8_def)

lemma hex_loop_digits: "set (hex_loop n s) \<subseteq> set ''0123456789abcdef''"
proof (induction n arbitrary: s)
  case (Suc n)
  have "''0123456789abcdef'' ! (unat s mod 16) \<in> set ''0123456789abcdef''" by (rule nth_mem) simp
  then show ?case using Suc.IH [of "drop_bit 4 s"] by (simp only: hex_loop.simps unat_nibble) auto
qed simp

definition cp_elems :: "32 word \<Rightarrow> string list" where
  "cp_elems seq = (let hex = hexSeq8 seq in
     [''ledger'', take 2 hex, take 2 (drop 2 hex), take 2 (drop 4 hex), ''ledger-'' @ hex @ ''.xdr.gz''])"

lemma cp_elems_plain: "list_all plain_elem (cp_elems seq)"
proof -
  have hex: "set (hexSeq8 seq) \<subseteq> set ''0123456789abcdef''" using hex_loop_digits by (simp only: hexSeq8_def)
  have no: "CHR ''/'' \<notin> set ''0123456789abcdef''" "CHR ''.'' \<notin> set ''0123456789abcdef''" by simp_all
  have part: "plain_elem x" if "set x \<subseteq> set (hexSeq8 seq)" "x \<noteq> []" for x
  proof -
    have "CHR ''/'' \<notin> set x" "CHR ''.'' \<notin> set x" using that(1) hex no by blast+
    then show ?thesis using that(2) by (auto simp: plain_elem_def)
  qed
  have "plain_elem (take 2 (drop k (hexSeq8 seq)))" if "k < 8" for k
    using that by (intro part) (auto dest: in_set_takeD in_set_dropD)
  from this [of 0] this [of 2] this [of 4]
  have "plain_elem (take 2 (hexSeq8 seq))" "plain_elem (take 2 (drop 2 (hexSeq8 seq)))" "plain_elem (take 2 (drop 4 (hexSeq8 seq)))"
    by simp_all
  moreover have "CHR ''/'' \<notin> set (hexSeq8 seq)" using hex no by blast
  then have "plain_elem (''ledger-'' @ hexSeq8 seq @ ''.xdr.gz'')" by (simp add: plain_elem_def)
  moreover have "plain_elem ''ledger''" by (simp add: plain_elem_def)
  ultimately show ?thesis by (simp add: cp_elems_def Let_def)
qed

lemma checkpointPath_stem: "r \<noteq> [] \<Longrightarrow> checkpointPath r seq = root_stem r @ slash_join (cp_elems seq)"
  using Join_below_root [of r "cp_elems seq"] cp_elems_plain [of seq]
  by (simp add: checkpointPath_def cp_elems_def Let_def)

text \<open>No two checkpoints share a file.\<close>

lemma checkpointPath_inject: "r \<noteq> [] \<Longrightarrow> checkpointPath r s = checkpointPath r t \<longleftrightarrow> s = t"
proof
  assume r: "r \<noteq> []" and eq: "checkpointPath r s = checkpointPath r t"
  then have "slash_join (cp_elems s) = slash_join (cp_elems t)" by (simp add: checkpointPath_stem)
  then have "take 8 (drop 23 (slash_join (cp_elems s))) = take 8 (drop 23 (slash_join (cp_elems t)))" by simp
  moreover have "take 8 (drop 23 (slash_join (cp_elems u))) = hexSeq8 u" for u
    by (simp add: cp_elems_def Let_def)
  ultimately show "s = t" by (simp add: hexSeq8_inject)
qed simp

section \<open>Instances and the report\<close>

definition sample_gz :: gunzip where
  "sample_gz b = Some (length b, True)"

definition sample_archive :: archive where
  "sample_archive =
     \<lparr>ar_root = ''/a'', ar_kind = RootDir,
      ar_files = (\<lambda>p. if p = checkpointPath ''/a'' 63 then Some [1] else if p = checkpointPath ''/a'' 127 then Some [] else None),
      stat_fails = (\<lambda>_. False)\<rparr>"

lemma sample_checkpoints: "checkpoints 60 130 = [63, 127]"
proof -
  have "cp_count (unat (60 :: 32 word)) (unat (130 :: 32 word)) = 2" by (simp add: cp_count_def)
  moreover have "alignFirstCheckpoint 60 = 63" by (simp add: alignFirstCheckpoint_def)
  ultimately show ?thesis by (simp add: checkpoints_run numeral_2_eq_2)
qed

lemma sample_holds: "holds_checkpoint sample_gz sample_archive 63" "\<not> holds_checkpoint sample_gz sample_archive 127"
proof -
  have "checkpointPath ''/a'' 127 \<noteq> checkpointPath ''/a'' 63" by (simp add: checkpointPath_inject)
  then show "holds_checkpoint sample_gz sample_archive 63" "\<not> holds_checkpoint sample_gz sample_archive 127"
    by (simp_all add: holds_checkpoint_def sample_archive_def probeCheckpointFile_def validateGzip_def sample_gz_def
        maxDecompressedBytes_def)
qed

lemma sample_scan:
  "scan_spec sample_gz sample_archive 60 130 =
     \<lparr>ca_From = 60, ca_To = 130, Expected = 2, Found = 1, ca_Missing = [127], Truncated = False\<rparr>"
  using sample_checkpoints sample_holds by (simp add: scan_spec_def MaxMissingReported_def)

theorem scan_reports_exactly_witness:
  "Check sample_gz sample_archive 60 130 =
     Some (\<lparr>ca_From = 60, ca_To = 130, Expected = 2, Found = 1, ca_Missing = [127], Truncated = False\<rparr>, None)"
  using scan_reports_exactly [of sample_archive 60 130 sample_gz]
  by (simp add: sample_scan) (simp add: sample_archive_def readable_def)

text \<open>
  C39. A range that ends at the largest ledger sequence is never finished: the counter of the loop wraps
  around and the scan starts over, so that \<open>Check\<close> returns nothing, whatever the archive holds.
\<close>

theorem scan_to_last_sequence_never_ends:
  assumes "ar_root ar \<noteq> []" "ar_kind ar = RootDir" "\<And>s. readable ar s"
  shows "Check gz ar from (- 1) = None"
proof -
  have "unat (- 1 :: 32 word) = 2 ^ 32 - 1" by (simp add: unsigned_minus_1_eq_mask mask_eq_exp_minus_1)
  then have "(- 1 :: 32 word) mod 64 = 63" by (simp add: word_mod_64_eq)
  then have "alignLastCheckpoint (- 1) = - 1" by (simp add: alignLastCheckpoint_def)
  moreover have "\<not> (- 1 :: 32 word) < w" for w by (simp add: linorder_not_less)
  ultimately show ?thesis using assms by (simp add: Check_def Let_def scan_loop_wraps)
qed

theorem scan_to_last_sequence_never_ends_witness: "Check sample_gz sample_archive 2 (- 1) = None"
  by (rule scan_to_last_sequence_never_ends) (simp_all add: sample_archive_def readable_def)

text \<open>A clean report means that every checkpoint of the range is there; a range without one is vacuous.\<close>

lemma spec_counts: "Found (scan_spec gz ar from to) + length (filter (\<lambda>s. \<not> holds_checkpoint gz ar s) (checkpoints from to))
    = Expected (scan_spec gz ar from to)"
  using sum_length_filter_compl [of "holds_checkpoint gz ar" "checkpoints from to"] by (simp add: scan_spec_def Let_def)

lemma report_of_scan:
  assumes "r = SetCrossAnchor root' (scan_spec gz ar from to) (NewReport from to)"
  shows "AnyMissing r \<longleftrightarrow> (\<exists>s \<in> set (checkpoints from to). \<not> holds_checkpoint gz ar s)"
    "Vacuous r \<longleftrightarrow> checkpoints from to = []"
proof -
  have "AnyMissing r \<longleftrightarrow> Found (scan_spec gz ar from to) < Expected (scan_spec gz ar from to)"
    by (simp add: assms AnyMissing_def SetCrossAnchor_def NewReport_def)
  also have "\<dots> \<longleftrightarrow> 0 < length (filter (\<lambda>s. \<not> holds_checkpoint gz ar s) (checkpoints from to))"
    using spec_counts [of gz ar "from" to] by linarith
  also have "\<dots> \<longleftrightarrow> (\<exists>s \<in> set (checkpoints from to). \<not> holds_checkpoint gz ar s)"
    by (auto simp: filter_empty_conv)
  finally show "AnyMissing r \<longleftrightarrow> (\<exists>s \<in> set (checkpoints from to). \<not> holds_checkpoint gz ar s)" .
  show "Vacuous r \<longleftrightarrow> checkpoints from to = []"
    by (simp add: assms Vacuous_def SetCrossAnchor_def NewReport_def scan_spec_def Let_def)
qed

end
