(* ===== verification/AnchorFill.thy ===== *)
theory AnchorFill
  imports CrossAnchor
begin

text \<open>
  \<open>internal/archivecompleteness/cross_anchor_fill.go\<close>: the fetch of missing checkpoint files from a chain
  of mirrors, and \<open>internal/ops/archive/archive_completeness.go\<close>: the run that checks, fills and checks
  again. A mirror's reply, and what the file system answers while it is stored, is a \<open>fetch_world\<close> for
  each try; the XDR reader of the Stellar SDK is the argument \<open>xdr\<close>, the sequences of the ledger entries
  it can read from a file. Every job touches the two files of its own checkpoint, so a pool of workers is
  the list of its jobs in the order they finished. File ownership, error texts and logging are left out.
\<close>

section \<open>Sources and options\<close>

record Source =
  src_Name :: string
  src_URL :: string

definition DefaultCrossAnchorSources :: "Source list" where
  "DefaultCrossAnchorSources =
     [\<lparr>src_Name = ''sdf-core-live-001'', src_URL = ''https://history.stellar.org/prd/core-live/core_live_001''\<rparr>,
      \<lparr>src_Name = ''sdf-core-live-002'', src_URL = ''https://history.stellar.org/prd/core-live/core_live_002''\<rparr>,
      \<lparr>src_Name = ''sdf-core-live-003'', src_URL = ''https://history.stellar.org/prd/core-live/core_live_003''\<rparr>,
      \<lparr>src_Name = ''publicnode-bootes'', src_URL = ''https://bootes-history.publicnode.org''\<rparr>,
      \<lparr>src_Name = ''publicnode-lyra'', src_URL = ''https://lyra-history.publicnode.org''\<rparr>,
      \<lparr>src_Name = ''publicnode-hercules'', src_URL = ''https://hercules-history.publicnode.org''\<rparr>,
      \<lparr>src_Name = ''lobstr-v1'', src_URL = ''https://archive.v1.stellar.lobstr.co''\<rparr>,
      \<lparr>src_Name = ''lobstr-v2'', src_URL = ''https://archive.v2.stellar.lobstr.co''\<rparr>,
      \<lparr>src_Name = ''lobstr-v5'', src_URL = ''https://archive.v5.stellar.lobstr.co''\<rparr>]"

record FillerOptions =
  fo_ArchiveRoot :: string
  fo_Sources :: "Source list"
  fo_Network :: string
  fo_Workers :: int
  fo_OwnerUser :: string
  fo_OwnerGroup :: string

record CrossAnchorFiller =
  cf_archiveRoot :: string
  cf_sources :: "Source list"
  cf_workers :: int
  ownerUID :: int
  ownerGID :: int
  chownEnabled :: bool

datatype filler_error = ErrRootRequired | ErrRootStat | ErrRootNotDir | ErrPubnetOnly | ErrUser | ErrGroup

text \<open>\<open>user.Lookup\<close> and \<open>user.LookupGroup\<close> with the parse of the id they return.\<close>

definition NewCrossAnchorFiller ::
  "(string \<Rightarrow> int option) \<Rightarrow> (string \<Rightarrow> int option) \<Rightarrow> root_kind \<Rightarrow> FillerOptions \<Rightarrow> filler_error + CrossAnchorFiller" where
  "NewCrossAnchorFiller users groups kind opts =
     (if fo_ArchiveRoot opts = [] then Inl ErrRootRequired
      else if kind = RootMissing then Inl ErrRootStat
      else if kind = RootFile then Inl ErrRootNotDir
      else if fo_Sources opts = [] \<and> fo_Network opts \<noteq> [] \<and> fo_Network opts \<noteq> ''pubnet'' then Inl ErrPubnetOnly
      else
        let sources = (if fo_Sources opts = [] then DefaultCrossAnchorSources else fo_Sources opts);
            workers = (if fo_Workers opts \<le> 0 then 8 else fo_Workers opts);
            f = \<lparr>cf_archiveRoot = fo_ArchiveRoot opts, cf_sources = sources, cf_workers = workers,
                 ownerUID = - 1, ownerGID = - 1, chownEnabled = False\<rparr> in
        err_bind
          (if fo_OwnerUser opts = [] then Inr f
           else case users (fo_OwnerUser opts) of
             None \<Rightarrow> Inl ErrUser | Some uid \<Rightarrow> Inr (f\<lparr>ownerUID := uid, chownEnabled := True\<rparr>))
          (\<lambda>f. if fo_OwnerGroup opts = [] then Inr f
           else case groups (fo_OwnerGroup opts) of
             None \<Rightarrow> Inl ErrGroup | Some gid \<Rightarrow> Inr (f\<lparr>ownerGID := gid, chownEnabled := True\<rparr>)))"

section \<open>One checkpoint\<close>

datatype http_answer = RequestFails | Reply nat bytes bool

record fetch_world =
  fw_cancelled :: bool
  fw_answer :: http_answer
  fw_create :: bool
  fw_close :: bool
  fw_rename :: bool

type_synonym xdr_reader = "bytes \<Rightarrow> 32 word list"

definition maxSize :: nat where
  "maxSize = 2 ^ 24"

definition maxCheckpointEntries :: nat where
  "maxCheckpointEntries = 64"

fun entry_loop :: "nat \<Rightarrow> 32 word list \<Rightarrow> 32 word \<Rightarrow> bool" where
  "entry_loop 0 es wantSeq = False"
| "entry_loop (Suc n) [] wantSeq = False"
| "entry_loop (Suc n) (e # es) wantSeq = (e = wantSeq \<or> entry_loop n es wantSeq)"

definition validateCheckpointContent :: "xdr_reader \<Rightarrow> bytes \<Rightarrow> 32 word \<Rightarrow> bool" where
  "validateCheckpointContent xdr b wantSeq = entry_loop maxCheckpointEntries (xdr b) wantSeq"

definition fetchAndValidate ::
  "gunzip \<Rightarrow> xdr_reader \<Rightarrow> fetch_world \<Rightarrow> files \<Rightarrow> string \<Rightarrow> 32 word \<Rightarrow> files \<times> bool" where
  "fetchAndValidate gz xdr w fs tmpPath seq =
     (case fw_answer w of
        RequestFails \<Rightarrow> (fs, False)
      | Reply status body read_all \<Rightarrow>
          if status \<noteq> 200 then (fs, False)
          else if \<not> fw_create w then (fs, False)
          else
            let written = take (maxSize + 1) body; fs' = fs(tmpPath := Some written) in
            if length body \<le> maxSize \<and> \<not> read_all then (fs', False)
            else if maxSize < length written then (fs', False)
            else if length written = 0 then (fs', False)
            else if \<not> fw_close w then (fs', False)
            else case validateGzip gz (fs' tmpPath) of
              Inl _ \<Rightarrow> (fs', False)
            | Inr n \<Rightarrow> if n = 0 then (fs', False) else (fs', validateCheckpointContent xdr written seq))"

record fetchTries =
  winner :: string
  attempted :: "string list"
  failed :: "string list"

definition no_tries :: fetchTries where
  "no_tries = \<lparr>winner = [], attempted = [], failed = []\<rparr>"

fun fetch_walk ::
  "gunzip \<Rightarrow> xdr_reader \<Rightarrow> string \<Rightarrow> string \<Rightarrow> 32 word \<Rightarrow> (Source \<times> fetch_world) list \<Rightarrow> files \<Rightarrow> fetchTries \<Rightarrow>
   files \<times> fetchTries \<times> bool" where
  "fetch_walk gz xdr finalPath tmpPath seq [] fs tries = (fs, tries, False)"
| "fetch_walk gz xdr finalPath tmpPath seq ((src, w) # rest) fs tries =
     (if fw_cancelled w then (fs, tries, False)
      else
        let tries = tries\<lparr>attempted := attempted tries @ [src_Name src]\<rparr>;
            (fs', ok) = fetchAndValidate gz xdr w fs tmpPath seq in
        if ok then
          (if \<not> fw_rename w
           then (fs'(tmpPath := None), tries\<lparr>failed := failed tries @ [src_Name src]\<rparr>, False)
           else (fs'(finalPath := fs' tmpPath, tmpPath := None), tries\<lparr>winner := src_Name src\<rparr>, True))
        else fetch_walk gz xdr finalPath tmpPath seq rest (fs'(tmpPath := None))
               (tries\<lparr>failed := failed tries @ [src_Name src]\<rparr>))"

text \<open>One job: the checkpoint, the shuffle of the sources, and the world it meets.\<close>

record job =
  job_seq :: "32 word"
  job_shuffle :: "Source list \<Rightarrow> Source list"
  job_mkdir :: bool
  job_world :: "nat \<Rightarrow> fetch_world"

definition relPath :: "32 word \<Rightarrow> string" where
  "relPath seq =
     (let hex = hexSeq8 seq in
      ''ledger/'' @ take 2 hex @ ''/'' @ take 2 (drop 2 hex) @ ''/'' @ take 2 (drop 4 hex) @ ''/ledger-'' @ hex @ ''.xdr.gz'')"

definition fetchOne ::
  "gunzip \<Rightarrow> xdr_reader \<Rightarrow> CrossAnchorFiller \<Rightarrow> job \<Rightarrow> files \<Rightarrow> files \<times> fetchTries \<times> bool" where
  "fetchOne gz xdr f j fs =
     (let finalPath = Join [cf_archiveRoot f, relPath (job_seq j)]; tmpPath = finalPath @ ''.new'' in
      if \<not> job_mkdir j then (fs, no_tries, False)
      else let shuffled = job_shuffle j (cf_sources f) in
        fetch_walk gz xdr finalPath tmpPath (job_seq j) (zip shuffled (map (job_world j) [0..<length shuffled])) fs no_tries)"

section \<open>The pool\<close>

record FillResult =
  Filled :: nat
  Failed :: "32 word list"
  PerSourceSuccess :: "string \<Rightarrow> nat"
  PerSourceAttempt :: "string \<Rightarrow> nat"
  PerSourceFailure :: "string \<Rightarrow> nat"

definition newFillAccumulator :: FillResult where
  "newFillAccumulator =
     \<lparr>Filled = 0, Failed = [], PerSourceSuccess = (\<lambda>_. 0), PerSourceAttempt = (\<lambda>_. 0), PerSourceFailure = (\<lambda>_. 0)\<rparr>"

definition bump :: "('k \<Rightarrow> nat) \<Rightarrow> 'k \<Rightarrow> 'k \<Rightarrow> nat" where
  "bump m k = m(k := m k + 1)"

definition record_fetch :: "FillResult \<Rightarrow> 32 word \<Rightarrow> fetchTries \<Rightarrow> bool \<Rightarrow> FillResult" where
  "record_fetch a seq tries ok =
     (let a = a\<lparr>PerSourceAttempt := foldl bump (PerSourceAttempt a) (attempted tries),
                PerSourceFailure := foldl bump (PerSourceFailure a) (failed tries)\<rparr> in
      if \<not> ok then a\<lparr>Failed := Failed a @ [seq]\<rparr>
      else a\<lparr>Filled := Filled a + 1, PerSourceSuccess := bump (PerSourceSuccess a) (winner tries)\<rparr>)"

fun fill_jobs ::
  "gunzip \<Rightarrow> xdr_reader \<Rightarrow> CrossAnchorFiller \<Rightarrow> job list \<Rightarrow> files \<Rightarrow> FillResult \<Rightarrow> files \<times> FillResult" where
  "fill_jobs gz xdr f [] fs a = (fs, a)"
| "fill_jobs gz xdr f (j # js) fs a =
     (let (fs', tries, ok) = fetchOne gz xdr f j fs in fill_jobs gz xdr f js fs' (record_fetch a (job_seq j) tries ok))"

definition Fill :: "gunzip \<Rightarrow> xdr_reader \<Rightarrow> CrossAnchorFiller \<Rightarrow> job list \<Rightarrow> files \<Rightarrow> files \<times> FillResult" where
  "Fill gz xdr f js fs = fill_jobs gz xdr f js fs newFillAccumulator"

section \<open>archive_completeness.go: the daily run\<close>

datatype run_error = ErrInitialCheck scan_error | ErrFiller filler_error | ErrPostCheck scan_error

record verify_opts =
  vo_fill :: FillerOptions
  vo_from :: "32 word"
  vo_to :: "32 word"
  vo_write :: bool

definition archiveCompletenessVerifyFill ::
  "gunzip \<Rightarrow> xdr_reader \<Rightarrow> (string \<Rightarrow> int option) \<Rightarrow> (string \<Rightarrow> int option) \<Rightarrow> root_kind \<Rightarrow> bool \<Rightarrow> 32 word list \<Rightarrow>
   FillerOptions \<Rightarrow> (32 word list \<Rightarrow> job list) \<Rightarrow> files \<Rightarrow> run_error + files \<times> FillResult" where
  "archiveCompletenessVerifyFill gz xdr users groups kind write missing opts pool fs =
     (if missing = [] then Inr (fs, newFillAccumulator)
      else if \<not> write then Inr (fs, newFillAccumulator)
      else case NewCrossAnchorFiller users groups kind opts of
        Inl e \<Rightarrow> Inl (ErrFiller e)
      | Inr f \<Rightarrow> Inr (Fill gz xdr f (pool missing) fs))"

record verify_result =
  vr_report :: Report
  vr_fill :: FillResult
  vr_stamped :: bool
  vr_clean :: bool
  vr_archive :: archive

text \<open>\<open>vr_stamped\<close>: the success timestamp is set; \<open>vr_clean\<close>: the run exits with status 0.\<close>

definition archiveCompletenessVerify ::
  "gunzip \<Rightarrow> xdr_reader \<Rightarrow> (string \<Rightarrow> int option) \<Rightarrow> (string \<Rightarrow> int option) \<Rightarrow> (32 word list \<Rightarrow> job list) \<Rightarrow> verify_opts \<Rightarrow>
   archive \<Rightarrow> (run_error + verify_result) option" where
  "archiveCompletenessVerify gz xdr users groups pool opts ar =
     (case Check gz ar (vo_from opts) (vo_to opts) of
        None \<Rightarrow> None
      | Some (pre, Some e) \<Rightarrow> Some (Inl (ErrInitialCheck e))
      | Some (pre, None) \<Rightarrow>
          (case archiveCompletenessVerifyFill gz xdr users groups (ar_kind ar) (vo_write opts) (ca_Missing pre) (vo_fill opts) pool (ar_files ar) of
             Inl e \<Rightarrow> Some (Inl e)
           | Inr (fs, fillRes) \<Rightarrow>
               let ar' = ar\<lparr>ar_files := fs\<rparr> in
               (case Check gz ar' (vo_from opts) (vo_to opts) of
                  None \<Rightarrow> None
                | Some (post, Some e) \<Rightarrow> Some (Inl (ErrPostCheck e))
                | Some (post, None) \<Rightarrow>
                    let report = SetCrossAnchor (ar_root ar) post (NewReport (vo_from opts) (vo_to opts)) in
                    Some (Inr \<lparr>vr_report = report, vr_fill = fillRes,
                               vr_stamped = (\<not> AnyMissing report \<and> \<not> Vacuous report),
                               vr_clean = (\<not> Vacuous report \<and> \<not> AnyMissing report), vr_archive = ar'\<rparr>))))"

section \<open>What a fetch places\<close>

definition valid_checkpoint :: "gunzip \<Rightarrow> xdr_reader \<Rightarrow> bytes \<Rightarrow> 32 word \<Rightarrow> bool" where
  "valid_checkpoint gz xdr b seq \<longleftrightarrow>
     length b \<le> maxSize \<and> probeCheckpointFile gz b \<and> seq \<in> set (take maxCheckpointEntries (xdr b))"

lemma entry_loop_mem: "entry_loop n es w \<longleftrightarrow> w \<in> set (take n es)"
  by (induction n es w rule: entry_loop.induct) auto

lemma fetchAndValidate_effect:
  assumes "fetchAndValidate gz xdr w fs tmp seq = (fs', ok)"
  shows "p \<noteq> tmp \<Longrightarrow> fs' p = fs p"
    "ok \<Longrightarrow> \<exists>b. fs' tmp = Some b \<and> valid_checkpoint gz xdr b seq"
proof -
  show "fs' p = fs p" if "p \<noteq> tmp"
    using assms that by (auto simp: fetchAndValidate_def Let_def split: http_answer.splits if_splits sum.splits)
  show "\<exists>b. fs' tmp = Some b \<and> valid_checkpoint gz xdr b seq" if ok: ok
  proof -
    obtain status body read_all where a: "fw_answer w = Reply status body read_all"
      using assms ok by (cases "fw_answer w") (auto simp: fetchAndValidate_def)
    let ?b = "take (maxSize + 1) body"
    have "\<not> maxSize < length ?b" "?b \<noteq> []" "fs' = fs(tmp := Some ?b)"
      "\<exists>n. validateGzip gz (Some ?b) = Inr n \<and> 0 < n" "validateCheckpointContent xdr ?b seq"
      using assms ok a by (auto simp: fetchAndValidate_def Let_def split: if_splits sum.splits)
    then show ?thesis
      by (intro exI [of _ ?b])
        (auto simp: valid_checkpoint_def probeCheckpointFile_def validateCheckpointContent_def entry_loop_mem)
  qed
qed

lemma fetch_walk_effect:
  assumes "fetch_walk gz xdr final tmp seq walk fs tries = (fs', tries', ok)" "final \<noteq> tmp"
  shows "p \<noteq> tmp \<Longrightarrow> p \<noteq> final \<or> \<not> ok \<Longrightarrow> fs' p = fs p"
    "ok \<Longrightarrow> \<exists>b. fs' final = Some b \<and> valid_checkpoint gz xdr b seq"
    "\<exists>F. failed tries' = failed tries @ F \<and>
       attempted tries' = attempted tries @ F @ (if ok then [winner tries'] else [])"
  using assms(1)
proof (induction walk arbitrary: fs tries)
  case Nil
  { case 1 then show ?case by simp }
  { case 2 then show ?case by simp }
  { case 3 then show ?case by simp }
next
  case (Cons x walk)
  obtain src w where x: "x = (src, w)" by fastforce
  { case 1
    obtain fs1 ok1 where f: "fetchAndValidate gz xdr w fs tmp seq = (fs1, ok1)" by fastforce
    show ?case
    proof (cases "fw_cancelled w \<or> ok1")
      case True
      then show ?thesis using 1 fetchAndValidate_effect(1) [OF f] by (auto simp: x f Let_def split: if_splits)
    next
      case False
      then have "fetch_walk gz xdr final tmp seq walk (fs1(tmp := None))
          (tries\<lparr>attempted := attempted tries @ [src_Name src], failed := failed tries @ [src_Name src]\<rparr>) = (fs', tries', ok)"
        using 1(3) by (simp add: x f Let_def)
      from Cons.IH(1) [OF 1(1,2) this] show ?thesis using fetchAndValidate_effect(1) [OF f] 1(1) by simp
    qed }
  { case 2
    obtain fs1 ok1 where f: "fetchAndValidate gz xdr w fs tmp seq = (fs1, ok1)" by fastforce
    show ?case
    proof (cases "fw_cancelled w \<or> ok1")
      case True
      then show ?thesis using 2 fetchAndValidate_effect(2) [OF f] assms(2) by (auto simp: x f Let_def split: if_splits)
    next
      case False
      then show ?thesis using Cons.IH(2) [OF 2(1)] 2(2) by (simp add: x f Let_def)
    qed }
  { case 3
    obtain fs1 ok1 where f: "fetchAndValidate gz xdr w fs tmp seq = (fs1, ok1)" by fastforce
    show ?case
    proof (cases "fw_cancelled w \<or> ok1")
      case True
      then show ?thesis using 3 by (auto simp: x f Let_def split: if_splits)
    next
      case False
      then have "fetch_walk gz xdr final tmp seq walk (fs1(tmp := None))
          (tries\<lparr>attempted := attempted tries @ [src_Name src], failed := failed tries @ [src_Name src]\<rparr>) = (fs', tries', ok)"
        using 3 by (simp add: x f Let_def)
      from Cons.IH(3) [OF this] show ?thesis by auto
    qed }
qed

lemma relPath_elems: "relPath seq = slash_join (cp_elems seq)"
  by (simp add: relPath_def cp_elems_def Let_def)

lemma finalPath_eq:
  assumes "cf_archiveRoot f \<noteq> []"
  shows "Join [cf_archiveRoot f, relPath seq] = checkpointPath (cf_archiveRoot f) seq"
proof -
  have "slash_join [cf_archiveRoot f, relPath seq] = slash_join (cf_archiveRoot f # cp_elems seq)"
    by (simp add: relPath_elems slash_join_Cons cp_elems_def Let_def)
  moreover have "checkpointPath (cf_archiveRoot f) seq = Join (cf_archiveRoot f # cp_elems seq)"
    by (simp add: checkpointPath_def cp_elems_def Let_def)
  ultimately show ?thesis using assms by (simp add: Join_def)
qed

text \<open>A temporary name is the name of no checkpoint.\<close>

lemma tmp_apart:
  assumes "r \<noteq> []"
  shows "checkpointPath r s \<noteq> checkpointPath r t @ ''.new''"
proof
  assume eq: "checkpointPath r s = checkpointPath r t @ ''.new''"
  have "last (checkpointPath r s) = CHR ''z''"
    using assms by (simp add: checkpointPath_stem cp_elems_def Let_def)
  then show False unfolding eq by simp
qed

lemma fetchOne_effect:
  assumes "fetchOne gz xdr f j fs = (fs', tries, ok)" "cf_archiveRoot f \<noteq> []"
  shows "s \<noteq> job_seq j \<or> \<not> ok \<Longrightarrow> fs' (checkpointPath (cf_archiveRoot f) s) = fs (checkpointPath (cf_archiveRoot f) s)"
    "ok \<Longrightarrow> \<exists>b. fs' (checkpointPath (cf_archiveRoot f) (job_seq j)) = Some b \<and> valid_checkpoint gz xdr b (job_seq j)"
    "attempted tries = failed tries @ (if ok then [winner tries] else [])"
proof -
  let ?r = "cf_archiveRoot f" and ?final = "checkpointPath (cf_archiveRoot f) (job_seq j)"
  have apart: "?final \<noteq> ?final @ ''.new''" by simp
  consider "\<not> job_mkdir j" "fs' = fs" "tries = no_tries" "\<not> ok"
    | walk where "fetch_walk gz xdr ?final (?final @ ''.new'') (job_seq j) walk fs no_tries = (fs', tries, ok)"
    using assms(1) unfolding fetchOne_def finalPath_eq [OF assms(2)] Let_def by (cases "job_mkdir j") auto
  note cs = this
  show "fs' (checkpointPath ?r s) = fs (checkpointPath ?r s)" if "s \<noteq> job_seq j \<or> \<not> ok"
    using cs
  proof cases
    case (2 walk)
    show ?thesis
      by (rule fetch_walk_effect(1) [OF 2 apart]) (use that assms(2) in \<open>auto simp: checkpointPath_inject tmp_apart\<close>)
  qed simp
  show "\<exists>b. fs' ?final = Some b \<and> valid_checkpoint gz xdr b (job_seq j)" if ok
    using cs fetch_walk_effect(2) [OF _ apart that] that by cases blast+
  show "attempted tries = failed tries @ (if ok then [winner tries] else [])"
    using cs
  proof cases
    case (2 walk)
    from fetch_walk_effect(3) [OF 2 apart] show ?thesis by (auto simp: no_tries_def)
  qed (simp add: no_tries_def)
qed

section \<open>What a fill leaves behind\<close>

text \<open>The checkpoints whose fetch succeeded, in the order of the jobs.\<close>

fun placed :: "gunzip \<Rightarrow> xdr_reader \<Rightarrow> CrossAnchorFiller \<Rightarrow> job list \<Rightarrow> files \<Rightarrow> 32 word list" where
  "placed gz xdr f [] fs = []"
| "placed gz xdr f (j # js) fs =
     (let (fs', tries, ok) = fetchOne gz xdr f j fs in (if ok then [job_seq j] else []) @ placed gz xdr f js fs')"

lemma fill_files:
  assumes "fill_jobs gz xdr f js fs a = (fs', a')" "cf_archiveRoot f \<noteq> []"
  shows "s \<notin> set (placed gz xdr f js fs) \<Longrightarrow>
      fs' (checkpointPath (cf_archiveRoot f) s) = fs (checkpointPath (cf_archiveRoot f) s)"
    "s \<in> set (placed gz xdr f js fs) \<Longrightarrow>
      \<exists>b. fs' (checkpointPath (cf_archiveRoot f) s) = Some b \<and> valid_checkpoint gz xdr b s"
  using assms(1)
proof (induction js arbitrary: fs a)
  case Nil
  { case 1 then show ?case by simp }
  { case 2 then show ?case by simp }
next
  case (Cons j js)
  { case 1
    obtain fs1 tries ok where f: "fetchOne gz xdr f j fs = (fs1, tries, ok)" by (cases "fetchOne gz xdr f j fs")
    show ?case using 1 Cons.IH(1) [of fs1] fetchOne_effect(1) [OF f assms(2), of s] by (auto simp: f split: if_splits) }
  { case 2
    obtain fs1 tries ok where f: "fetchOne gz xdr f j fs = (fs1, tries, ok)" by (cases "fetchOne gz xdr f j fs")
    have rest: "fill_jobs gz xdr f js fs1 (record_fetch a (job_seq j) tries ok) = (fs', a')" using 2(2) by (simp add: f)
    show ?case
    proof (cases "s \<in> set (placed gz xdr f js fs1)")
      case True
      then show ?thesis using Cons.IH(2) rest by blast
    next
      case False
      then have "ok" "s = job_seq j" using 2(1) by (auto simp: f split: if_splits)
      then show ?thesis using Cons.IH(1) [OF False rest] fetchOne_effect(2) [OF f assms(2)] by simp
    qed }
qed

lemma foldl_bump: "foldl bump m xs n = m n + count_list xs n"
  by (induction xs arbitrary: m) (auto simp: bump_def)

lemma fetchOne_tries:
  assumes "fetchOne gz xdr f j fs = (fs', tries, ok)"
  shows "attempted tries = failed tries @ (if ok then [winner tries] else [])"
proof (cases "job_mkdir j")
  case True
  let ?final = "Join [cf_archiveRoot f, relPath (job_seq j)]"
  have "\<exists>walk. fetch_walk gz xdr ?final (?final @ ''.new'') (job_seq j) walk fs no_tries = (fs', tries, ok)"
    using assms True by (auto simp: fetchOne_def Let_def)
  then obtain walk where "fetch_walk gz xdr ?final (?final @ ''.new'') (job_seq j) walk fs no_tries = (fs', tries, ok)" ..
  from fetch_walk_effect(3) [OF this] show ?thesis by (auto simp: no_tries_def)
next
  case False
  then show ?thesis using assms by (auto simp: fetchOne_def no_tries_def)
qed

lemma fill_accounts:
  assumes "fill_jobs gz xdr f js fs a = (fs', a')"
    "\<And>n. PerSourceAttempt a n = PerSourceSuccess a n + PerSourceFailure a n"
  shows "PerSourceAttempt a' n = PerSourceSuccess a' n + PerSourceFailure a' n"
    "Filled a' = Filled a + length (placed gz xdr f js fs)"
    "Filled a' + length (Failed a') = Filled a + length (Failed a) + length js"
  using assms
proof (induction js arbitrary: fs a)
  case Nil
  { case 1 then show ?case by simp }
  { case 2 then show ?case by simp }
  { case 3 then show ?case by simp }
next
  case (Cons j js)
  have step: "PerSourceAttempt (record_fetch a s tries ok) n
      = PerSourceSuccess (record_fetch a s tries ok) n + PerSourceFailure (record_fetch a s tries ok) n"
    if "fetchOne gz xdr f j fs = (fs1, tries, ok)" "\<And>n. PerSourceAttempt a n = PerSourceSuccess a n + PerSourceFailure a n"
    for a s tries ok fs fs1 n
    using fetchOne_tries [OF that(1)] that(2) [of n] by (auto simp: record_fetch_def Let_def foldl_bump bump_def)
  { case 1
    obtain fs1 tries ok where f: "fetchOne gz xdr f j fs = (fs1, tries, ok)" by (cases "fetchOne gz xdr f j fs")
    show ?case by (rule Cons.IH(1)) (use 1 f step [OF f 1(2)] in simp_all) }
  { case 2
    obtain fs1 tries ok where f: "fetchOne gz xdr f j fs = (fs1, tries, ok)" by (cases "fetchOne gz xdr f j fs")
    show ?case using Cons.IH(2) [of fs1 "record_fetch a (job_seq j) tries ok"] 2 step [OF f 2(2)]
      by (auto simp: f record_fetch_def Let_def) }
  { case 3
    obtain fs1 tries ok where f: "fetchOne gz xdr f j fs = (fs1, tries, ok)" by (cases "fetchOne gz xdr f j fs")
    show ?case using Cons.IH(3) [of fs1 "record_fetch a (job_seq j) tries ok"] 3 step [OF f 3(2)]
      by (auto simp: f record_fetch_def Let_def split: if_splits) }
qed

text \<open>
  The tallies of a fill add up: whatever the mirrors and the file system answer and whenever the
  run is cancelled, each job ends filled or failed, and for each source the tries counted are its
  successes plus its failures, also when a fetched file could not be moved into place.
\<close>

theorem fill_tallies_balance:
  "(\<forall>n. PerSourceAttempt (snd (Fill gz xdr f js fs)) n
      = PerSourceSuccess (snd (Fill gz xdr f js fs)) n + PerSourceFailure (snd (Fill gz xdr f js fs)) n) \<and>
   Filled (snd (Fill gz xdr f js fs)) + length (Failed (snd (Fill gz xdr f js fs))) = length js"
proof -
  obtain fs' a' where r: "fill_jobs gz xdr f js fs newFillAccumulator = (fs', a')" by fastforce
  have "PerSourceAttempt newFillAccumulator n = PerSourceSuccess newFillAccumulator n + PerSourceFailure newFillAccumulator n" for n
    by (simp add: newFillAccumulator_def)
  from fill_accounts(1,3) [OF r this] show ?thesis by (simp add: Fill_def r) (simp add: newFillAccumulator_def)
qed

text \<open>After a fill a checkpoint is there exactly when it was there before or has just been placed.\<close>

lemma fill_then_holds:
  assumes "Fill gz xdr f js (ar_files ar) = (fs', r)" "cf_archiveRoot f = ar_root ar" "ar_root ar \<noteq> []"
  shows "holds_checkpoint gz (ar\<lparr>ar_files := fs'\<rparr>) s \<longleftrightarrow>
    holds_checkpoint gz ar s \<or> s \<in> set (placed gz xdr f js (ar_files ar))"
    "s \<in> set (placed gz xdr f js (ar_files ar)) \<Longrightarrow>
      \<exists>b. fs' (checkpointPath (ar_root ar) s) = Some b \<and> valid_checkpoint gz xdr b s"
proof -
  have fj: "fill_jobs gz xdr f js (ar_files ar) newFillAccumulator = (fs', r)" using assms(1) by (simp add: Fill_def)
  have root': "cf_archiveRoot f \<noteq> []" using assms(2,3) by simp
  show placed: "\<exists>b. fs' (checkpointPath (ar_root ar) s) = Some b \<and> valid_checkpoint gz xdr b s"
    if "s \<in> set (placed gz xdr f js (ar_files ar))"
    using fill_files(2) [OF fj root' that] assms(2) by simp
  show "holds_checkpoint gz (ar\<lparr>ar_files := fs'\<rparr>) s \<longleftrightarrow>
    holds_checkpoint gz ar s \<or> s \<in> set (placed gz xdr f js (ar_files ar))"
  proof (cases "s \<in> set (placed gz xdr f js (ar_files ar))")
    case True
    from placed [OF this] show ?thesis using True by (auto simp: holds_checkpoint_def valid_checkpoint_def)
  next
    case False
    from fill_files(1) [OF fj root' False] show ?thesis using False assms(2) by (simp add: holds_checkpoint_def)
  qed
qed

section \<open>The daily run\<close>

lemma NewCrossAnchorFiller_root:
  "NewCrossAnchorFiller users groups kind opts = Inr f \<Longrightarrow> cf_archiveRoot f = fo_ArchiveRoot opts"
  by (auto simp: NewCrossAnchorFiller_def Let_def returns split: if_splits option.splits)

text \<open>A test network is never filled from the built-in mirrors of the public network.\<close>

lemma filler_refuses_other_networks:
  assumes "NewCrossAnchorFiller users groups kind opts = Inr f" "fo_Sources opts = []"
  shows "fo_Network opts = [] \<or> fo_Network opts = ''pubnet''"
  using assms by (auto simp: NewCrossAnchorFiller_def split: if_splits)

lemma verify_runE:
  assumes "archiveCompletenessVerify gz xdr users groups pool opts ar = Some (Inr v)"
  obtains pre fs fr post r where
    "Check gz ar (vo_from opts) (vo_to opts) = Some (pre, None)"
    "archiveCompletenessVerifyFill gz xdr users groups (ar_kind ar) (vo_write opts) (ca_Missing pre) (vo_fill opts) pool (ar_files ar)
      = Inr (fs, fr)"
    "Check gz (ar\<lparr>ar_files := fs\<rparr>) (vo_from opts) (vo_to opts) = Some (post, None)"
    "r = SetCrossAnchor (ar_root ar) post (NewReport (vo_from opts) (vo_to opts))"
    "v = \<lparr>vr_report = r, vr_fill = fr, vr_stamped = (\<not> AnyMissing r \<and> \<not> Vacuous r),
         vr_clean = (\<not> Vacuous r \<and> \<not> AnyMissing r), vr_archive = ar\<lparr>ar_files := fs\<rparr>\<rparr>"
  using assms by (auto simp: archiveCompletenessVerify_def Let_def split: option.splits prod.splits sum.splits)

text \<open>
  C20. The daily run is honest: over a readable archive it stamps its success and exits cleanly exactly
  when the range has a checkpoint and, at its end, every checkpoint of the range is present and intact;
  it never loses a checkpoint that was there; every one it added passed the full validation (size, gzip
  and a ledger entry of that very sequence); and without the write flag the archive is left as it was.
\<close>

theorem verify_run_is_honest:
  assumes "archiveCompletenessVerify gz xdr users groups pool opts ar = Some (Inr v)"
    "\<And>s. readable ar s" "vo_to opts \<noteq> - 1" "fo_ArchiveRoot (vo_fill opts) = ar_root ar"
  shows "(vr_stamped v \<longleftrightarrow> checkpoints (vo_from opts) (vo_to opts) \<noteq> [] \<and>
      (\<forall>s \<in> set (checkpoints (vo_from opts) (vo_to opts)). holds_checkpoint gz (vr_archive v) s)) \<and>
    (vr_clean v \<longleftrightarrow> vr_stamped v) \<and>
    (\<forall>s. holds_checkpoint gz ar s \<longrightarrow> holds_checkpoint gz (vr_archive v) s) \<and>
    (\<forall>s. holds_checkpoint gz (vr_archive v) s \<and> \<not> holds_checkpoint gz ar s \<longrightarrow>
      (\<exists>b. ar_files (vr_archive v) (checkpointPath (ar_root ar) s) = Some b \<and> valid_checkpoint gz xdr b s)) \<and>
    (\<not> vo_write opts \<longrightarrow> vr_archive v = ar)"
proof -
  let ?from = "vo_from opts" and ?to = "vo_to opts"
  obtain pre fs fr post where
    pre: "Check gz ar ?from ?to = Some (pre, None)" and
    fill: "archiveCompletenessVerifyFill gz xdr users groups (ar_kind ar) (vo_write opts) (ca_Missing pre) (vo_fill opts) pool (ar_files ar)
      = Inr (fs, fr)" and
    post: "Check gz (ar\<lparr>ar_files := fs\<rparr>) ?from ?to = Some (post, None)" and
    v: "vr_archive v = ar\<lparr>ar_files := fs\<rparr>"
      "vr_stamped v = (\<not> AnyMissing (SetCrossAnchor (ar_root ar) post (NewReport ?from ?to))
         \<and> \<not> Vacuous (SetCrossAnchor (ar_root ar) post (NewReport ?from ?to)))"
      "vr_clean v = vr_stamped v"
    using assms(1) by (rule verify_runE) auto
  have ok: "ar_root ar \<noteq> []" "ar_kind ar = RootDir" "?from \<le> ?to"
    using pre by (auto simp: Check_def Let_def split: if_splits root_kind.splits intro: root_kind.exhaust [of "ar_kind ar"])
  have "\<And>s. readable (ar\<lparr>ar_files := fs\<rparr>) s" using assms(2) by (simp add: readable_def)
  then have "post = scan_spec gz (ar\<lparr>ar_files := fs\<rparr>) ?from ?to"
    using post scan_spec_of_check [of "ar\<lparr>ar_files := fs\<rparr>" ?from ?to gz] ok assms(3) by simp
  note rep = report_of_scan [OF arg_cong [where f = "\<lambda>p. SetCrossAnchor (ar_root ar) p (NewReport ?from ?to)", OF this]]
  have stamped: "vr_stamped v \<longleftrightarrow> checkpoints ?from ?to \<noteq> [] \<and>
      (\<forall>s \<in> set (checkpoints ?from ?to). holds_checkpoint gz (vr_archive v) s)"
    using rep v by auto
  consider (same) "fs = ar_files ar"
    | (filled) f where "NewCrossAnchorFiller users groups (ar_kind ar) (vo_fill opts) = Inr f"
        "Fill gz xdr f (pool (ca_Missing pre)) (ar_files ar) = (fs, fr)" "vo_write opts"
    using fill by (auto simp: archiveCompletenessVerifyFill_def split: if_splits sum.splits)
  then show ?thesis
  proof cases
    case same
    then show ?thesis using stamped v by simp
  next
    case (filled f)
    have "cf_archiveRoot f = ar_root ar" using NewCrossAnchorFiller_root [OF filled(1)] assms(4) by simp
    note h = fill_then_holds [OF filled(2) this ok(1)]
    show ?thesis using stamped v filled(3) h by auto
  qed
qed

definition sample_world :: fetch_world where
  "sample_world = \<lparr>fw_cancelled = False, fw_answer = Reply 200 [7] True, fw_create = True, fw_close = True, fw_rename = True\<rparr>"

definition sample_pool :: "32 word list \<Rightarrow> job list" where
  "sample_pool = map (\<lambda>s. \<lparr>job_seq = s, job_shuffle = (\<lambda>x. x), job_mkdir = True, job_world = (\<lambda>_. sample_world)\<rparr>)"

definition sample_opts :: verify_opts where
  "sample_opts =
     \<lparr>vo_fill = \<lparr>fo_ArchiveRoot = ''/a'', fo_Sources = [\<lparr>src_Name = ''m'', src_URL = ''https://m''\<rparr>], fo_Network = ''pubnet'',
        fo_Workers = 0, fo_OwnerUser = [], fo_OwnerGroup = []\<rparr>, vo_from = 60, vo_to = 130, vo_write = True\<rparr>"

definition sample_filler :: CrossAnchorFiller where
  "sample_filler =
     \<lparr>cf_archiveRoot = ''/a'', cf_sources = [\<lparr>src_Name = ''m'', src_URL = ''https://m''\<rparr>], cf_workers = 8,
      ownerUID = - 1, ownerGID = - 1, chownEnabled = False\<rparr>"

lemma sample_filler_new:
  "NewCrossAnchorFiller u g (ar_kind sample_archive) (vo_fill sample_opts) = Inr sample_filler"
  by (simp add: NewCrossAnchorFiller_def sample_opts_def sample_filler_def sample_archive_def)

lemma sample_placed: "placed sample_gz (\<lambda>b. [127]) sample_filler (sample_pool [127]) (ar_files sample_archive) = [127]"
  by (simp add: sample_pool_def fetchOne_def sample_filler_def sample_world_def fetchAndValidate_def Let_def maxSize_def
      validateGzip_def sample_gz_def maxDecompressedBytes_def validateCheckpointContent_def entry_loop_mem
      maxCheckpointEntries_def)

theorem verify_run_is_honest_witness:
  "\<exists>v. archiveCompletenessVerify sample_gz (\<lambda>b. [127]) (\<lambda>_. None) (\<lambda>_. None) sample_pool sample_opts sample_archive = Some (Inr v)
     \<and> vr_stamped v \<and> vr_clean v"
proof -
  let ?ar = sample_archive
  obtain fs fr where f: "Fill sample_gz (\<lambda>b. [127]) sample_filler (sample_pool [127]) (ar_files ?ar) = (fs, fr)" by fastforce
  let ?ar' = "?ar\<lparr>ar_files := fs\<rparr>"
  have ok: "ar_root ?ar \<noteq> []" "ar_kind ?ar = RootDir" "\<And>s. readable ?ar s" "\<And>s. readable ?ar' s"
    by (simp_all add: sample_archive_def readable_def)
  have opts: "vo_from sample_opts = 60" "vo_to sample_opts = 130" "vo_write sample_opts"
    "fo_ArchiveRoot (vo_fill sample_opts) = ar_root ?ar"
    by (simp_all add: sample_opts_def sample_archive_def)
  have pre: "Check sample_gz ?ar 60 130 = Some (scan_spec sample_gz ?ar 60 130, None)"
    using ok by (intro scan_spec_of_check) simp_all
  have post: "Check sample_gz ?ar' 60 130 = Some (scan_spec sample_gz ?ar' 60 130, None)"
    using ok by (intro scan_spec_of_check) simp_all
  have fill: "archiveCompletenessVerifyFill sample_gz (\<lambda>b. [127]) (\<lambda>_. None) (\<lambda>_. None) (ar_kind ?ar) True [127]
      (vo_fill sample_opts) sample_pool (ar_files ?ar) = Inr (fs, fr)"
    by (simp add: archiveCompletenessVerifyFill_def sample_filler_new f)
  have "\<exists>v. archiveCompletenessVerify sample_gz (\<lambda>b. [127]) (\<lambda>_. None) (\<lambda>_. None) sample_pool sample_opts ?ar = Some (Inr v)
      \<and> vr_archive v = ?ar'"
    by (simp add: archiveCompletenessVerify_def opts pre sample_scan fill post Let_def)
  then obtain v where v:
    "archiveCompletenessVerify sample_gz (\<lambda>b. [127]) (\<lambda>_. None) (\<lambda>_. None) sample_pool sample_opts ?ar = Some (Inr v)"
    "vr_archive v = ?ar'" by blast
  have root': "cf_archiveRoot sample_filler = ar_root ?ar" by (simp add: sample_filler_def sample_archive_def)
  have "holds_checkpoint sample_gz ?ar' s" if "s = 63 \<or> s = 127" for s
    using fill_then_holds(1) [OF f root' ok(1), of s] sample_placed sample_holds that by auto
  then have "\<forall>s \<in> set (checkpoints 60 130). holds_checkpoint sample_gz (vr_archive v) s"
    using sample_checkpoints v(2) by simp
  then show ?thesis using verify_run_is_honest [OF v(1) ok(3)] v(1) sample_checkpoints opts by auto
qed

end
