(* ===== verification/DecimalsGuard.thy ===== *)
theory DecimalsGuard
  imports PriceWindow "HOL-Library.AList"
begin

text \<open>
  \<open>internal/decimalsguard/guard.go\<close> with the table it writes
  (\<open>storage/timescale/nonstandard_decimals_assets.go\<close>) and the snapshot the API serves from
  (\<open>api/v1/nonstandard_decimals_cache.go\<close>): the guard finds traded tokens whose on-chain decimals are not
  seven, raises one alarm for each, and keeps the table the price correction of \<open>PriceWindow\<close> reads. The
  lake is a function from a contract to what it declares, write failures are a predicate on assets, a
  query that fails is \<open>None\<close>. The table is a list of rows by asset; its CHECK constraint and the range of
  its \<open>integer\<close> column make a write fail. Logging, timers and the time of a confirmation are left out.
\<close>

datatype lake_answer = LakeError | NotDerivable | Declares "32 word"

type_synonym lake = "string \<Rightarrow> lake_answer"

record SorobanDEXTradeRef =
  ref_Source :: string
  ref_Asset :: string

section \<open>The table\<close>

record NonstandardDecimalsAsset =
  nd_Decimals :: int
  nd_Source :: string

type_synonym decimals_table = "(string \<times> NonstandardDecimalsAsset) list"

definition UpsertNonstandardDecimalsAsset ::
  "(string \<Rightarrow> bool) \<Rightarrow> string \<Rightarrow> 32 word \<Rightarrow> string \<Rightarrow> decimals_table \<Rightarrow> decimals_table option" where
  "UpsertNonstandardDecimalsAsset fails asset decimals source t =
     (if fails asset \<or> decimals = 7 \<or> 2 ^ 31 \<le> uint decimals then None
      else Some (AList.update asset \<lparr>nd_Decimals = uint decimals, nd_Source = source\<rparr> t))"

definition DeleteNonstandardDecimalsAsset :: "(string \<Rightarrow> bool) \<Rightarrow> string \<Rightarrow> decimals_table \<Rightarrow> decimals_table option" where
  "DeleteNonstandardDecimalsAsset fails asset t = (if fails asset then None else Some (AList.delete asset t))"

section \<open>guard.go\<close>

definition guard_StandardDecimals :: "32 word" where
  "guard_StandardDecimals = 7"

text \<open>The guard with the table it writes and the increments of its two metrics, newest first.\<close>

record Guard =
  g_writer :: bool
  g_reconciler :: bool
  resolved :: "string \<Rightarrow> 32 word option"
  alarmed :: "string list"
  persisted :: "string list"
  g_table :: decimals_table
  alarms :: "(string \<times> string) list"
  mismatches :: "string list"

text \<open>\<open>New\<close> with a writer that may also be able to read and delete.\<close>

definition resolveReconciler :: "bool \<Rightarrow> bool \<Rightarrow> bool" where
  "resolveReconciler has_writer reconciles = (has_writer \<and> reconciles)"

definition New :: "bool \<Rightarrow> bool \<Rightarrow> decimals_table \<Rightarrow> Guard" where
  "New has_writer reconciles t =
     \<lparr>g_writer = has_writer, g_reconciler = resolveReconciler has_writer reconciles, resolved = (\<lambda>_. None),
      alarmed = [], persisted = [], g_table = t, alarms = [], mismatches = []\<rparr>"

definition isCached :: "Guard \<Rightarrow> string \<Rightarrow> bool" where
  "isCached g asset = (resolved g asset \<noteq> None)"

definition remember :: "string \<Rightarrow> 32 word \<Rightarrow> Guard \<Rightarrow> Guard" where
  "remember asset decimals g = g\<lparr>resolved := (resolved g)(asset \<mapsto> decimals)\<rparr>"

definition classify :: "lake \<Rightarrow> string \<Rightarrow> Guard \<Rightarrow> 32 word option \<times> Guard" where
  "classify lk asset g =
     (case resolved g asset of
        Some d \<Rightarrow> (Some d, g)
      | None \<Rightarrow>
          (case lk asset of
             LakeError \<Rightarrow> (None, g)
           | NotDerivable \<Rightarrow> (None, g)
           | Declares d \<Rightarrow> (Some d, remember asset d g)))"

definition ref_key :: "string \<Rightarrow> string \<Rightarrow> string" where
  "ref_key source asset = source @ [CHR 0x00] @ asset"

definition raise_alarm :: "SorobanDEXTradeRef \<Rightarrow> Guard \<Rightarrow> Guard" where
  "raise_alarm ref g =
     (let key = ref_key (ref_Source ref) (ref_Asset ref) in
      if key \<in> set (alarmed g) then g
      else g\<lparr>alarmed := key # alarmed g, alarms := (ref_Source ref, ref_Asset ref) # alarms g\<rparr>)"

definition report :: "(string \<Rightarrow> bool) \<Rightarrow> SorobanDEXTradeRef \<Rightarrow> 32 word \<Rightarrow> Guard \<Rightarrow> Guard" where
  "report fails ref decimals g =
     (let key = ref_key (ref_Source ref) (ref_Asset ref);
          done_before = key \<in> set (persisted g);
          g = raise_alarm ref g in
      if \<not> g_writer g \<or> done_before then g
      else case UpsertNonstandardDecimalsAsset fails (ref_Asset ref) decimals (ref_Source ref) (g_table g) of
        None \<Rightarrow> g
      | Some t \<Rightarrow> g\<lparr>g_table := t, persisted := key # persisted g\<rparr>)"

definition sweep_ref :: "lake \<Rightarrow> (string \<Rightarrow> bool) \<Rightarrow> Guard \<Rightarrow> SorobanDEXTradeRef \<Rightarrow> Guard" where
  "sweep_ref lk fails g ref =
     (case classify lk (ref_Asset ref) g of
        (None, g) \<Rightarrow> g
      | (Some d, g) \<Rightarrow> if d = guard_StandardDecimals then g else report fails ref d g)"

definition Sweep :: "SorobanDEXTradeRef list option \<Rightarrow> lake \<Rightarrow> (string \<Rightarrow> bool) \<Rightarrow> Guard \<Rightarrow> Guard" where
  "Sweep refs lk fails g = (case refs of None \<Rightarrow> g | Some rs \<Rightarrow> foldl (sweep_ref lk fails) g rs)"

text \<open>\<open>budget\<close>: how many throttled lookups pass before the context is cancelled, \<open>None\<close> for never.\<close>

fun backfill_loop :: "lake \<Rightarrow> (string \<Rightarrow> bool) \<Rightarrow> SorobanDEXTradeRef list \<Rightarrow> nat option \<Rightarrow> Guard \<Rightarrow> Guard" where
  "backfill_loop lk fails [] budget g = g"
| "backfill_loop lk fails (r # rs) budget g =
     (if isCached g (ref_Asset r) then backfill_loop lk fails rs budget (sweep_ref lk fails g r)
      else case budget of
        Some 0 \<Rightarrow> g
      | Some (Suc n) \<Rightarrow> backfill_loop lk fails rs (Some n) (sweep_ref lk fails g r)
      | None \<Rightarrow> backfill_loop lk fails rs None (sweep_ref lk fails g r))"

definition Backfill :: "SorobanDEXTradeRef list option \<Rightarrow> lake \<Rightarrow> (string \<Rightarrow> bool) \<Rightarrow> nat option \<Rightarrow> Guard \<Rightarrow> Guard" where
  "Backfill refs lk fails budget g = (case refs of None \<Rightarrow> g | Some rs \<Rightarrow> backfill_loop lk fails rs budget g)"

definition HasSuffix :: "string \<Rightarrow> string \<Rightarrow> bool" where
  "HasSuffix s suf = (length suf \<le> length s \<and> drop (length s - length suf) s = suf)"

definition forgetPersisted :: "string \<Rightarrow> Guard \<Rightarrow> Guard" where
  "forgetPersisted asset g =
     g\<lparr>persisted := filter (\<lambda>key. \<not> HasSuffix key ([CHR 0x00] @ asset)) (persisted g)\<rparr>"

definition reconcileRow :: "lake \<Rightarrow> (string \<Rightarrow> bool) \<Rightarrow> Guard \<Rightarrow> string \<times> NonstandardDecimalsAsset \<Rightarrow> Guard" where
  "reconcileRow lk fails g row =
     (let asset = fst row in
      case lk asset of
        LakeError \<Rightarrow> g
      | NotDerivable \<Rightarrow> g
      | Declares d \<Rightarrow>
          if uint d = nd_Decimals (snd row) then remember asset d g
          else
            let g = g\<lparr>mismatches := asset # mismatches g\<rparr> in
            if d = guard_StandardDecimals then
              (case DeleteNonstandardDecimalsAsset fails asset (g_table g) of
                 None \<Rightarrow> g
               | Some t \<Rightarrow> remember asset d (forgetPersisted asset (g\<lparr>g_table := t\<rparr>)))
            else
              (case UpsertNonstandardDecimalsAsset fails asset d (nd_Source (snd row)) (g_table g) of
                 None \<Rightarrow> g
               | Some t \<Rightarrow> remember asset d (g\<lparr>g_table := t\<rparr>)))"

text \<open>\<open>loaded = None\<close>: the rows could not be read; \<open>Some n\<close>: the context is cancelled after \<open>n\<close> rows.\<close>

definition Reconcile :: "nat option \<Rightarrow> lake \<Rightarrow> (string \<Rightarrow> bool) \<Rightarrow> Guard \<Rightarrow> Guard" where
  "Reconcile loaded lk fails g =
     (if \<not> g_reconciler g then g
      else case loaded of None \<Rightarrow> g | Some n \<Rightarrow> foldl (reconcileRow lk fails) g (take n (g_table g)))"

definition tick :: "SorobanDEXTradeRef list option \<Rightarrow> nat option \<Rightarrow> lake \<Rightarrow> (string \<Rightarrow> bool) \<Rightarrow> Guard \<Rightarrow> Guard" where
  "tick refs loaded lk fails g = Reconcile loaded lk fails (Sweep refs lk fails g)"

definition skewDecades :: "32 word \<Rightarrow> int" where
  "skewDecades decimals = (let d = uint decimals - 7 in if d < 0 then - d else d)"

section \<open>The snapshot the API serves from\<close>

type_synonym NonstandardDecimalsCache = "string \<Rightarrow> NonstandardDecimalsAsset option"

text \<open>The map of a snapshot is filled in the order of the rows, so a later row would win.\<close>

definition Refresh :: "decimals_table option \<Rightarrow> NonstandardDecimalsCache \<Rightarrow> NonstandardDecimalsCache" where
  "Refresh rows c = (case rows of None \<Rightarrow> c | Some rs \<Rightarrow> map_of (rev rs))"

definition cache_Lookup :: "NonstandardDecimalsCache option \<Rightarrow> string \<Rightarrow> int option" where
  "cache_Lookup c assetID = (case c of None \<Rightarrow> None | Some assets \<Rightarrow> map_option nd_Decimals (assets assetID))"

section \<open>The table under the operations\<close>

text \<open>Contract ids hold no NUL, so the key of a (source, asset) pair determines the asset.\<close>

definition plain_id :: "string \<Rightarrow> bool" where
  "plain_id a \<longleftrightarrow> CHR 0x00 \<notin> set a"

lemma ref_key_inject:
  assumes "ref_key s a = ref_key t b" "plain_id a" "plain_id b"
  shows "a = b"
proof -
  have "takeWhile (\<lambda>c. c \<noteq> CHR 0x00) (rev (ref_key u x)) = rev x" if "plain_id x" for u x
  proof -
    have "takeWhile (\<lambda>c. c \<noteq> CHR 0x00) (rev x @ CHR 0x00 # rev u) = rev x"
      using that by (subst takeWhile_append2) (auto simp: plain_id_def)
    then show ?thesis by (simp add: ref_key_def)
  qed
  then show ?thesis using assms by (metis rev_rev_ident)
qed

text \<open>The primary key holds, and a latched write has its row.\<close>

definition guard_inv :: "Guard \<Rightarrow> bool" where
  "guard_inv g \<longleftrightarrow> distinct (map fst (g_table g)) \<and>
     (\<forall>k \<in> set (persisted g). \<exists>s a. k = ref_key s a \<and> plain_id a \<and> map_of (g_table g) a \<noteq> None)"

text \<open>Nothing cached contradicts the lake: a contract does not change its decimals.\<close>

definition cache_agrees :: "Guard \<Rightarrow> lake \<Rightarrow> bool" where
  "cache_agrees g lk \<longleftrightarrow> (\<forall>a d. resolved g a = Some d \<longrightarrow> lk a = Declares d)"

definition storable :: "32 word \<Rightarrow> bool" where
  "storable d \<longleftrightarrow> d \<noteq> 7 \<and> uint d < 2 ^ 31"

lemma Upsert_map:
  "UpsertNonstandardDecimalsAsset fails asset d s t = Some t' \<Longrightarrow>
     storable d \<and> map_of t' = (map_of t)(asset \<mapsto> \<lparr>nd_Decimals = uint d, nd_Source = s\<rparr>)
     \<and> (distinct (map fst t) \<longrightarrow> distinct (map fst t'))"
  by (auto simp: UpsertNonstandardDecimalsAsset_def storable_def AList.update_conv' AList.distinct_update split: if_splits)

lemma Upsert_ok:
  "storable d \<Longrightarrow> \<not> fails asset \<Longrightarrow> \<exists>t'. UpsertNonstandardDecimalsAsset fails asset d s t = Some t'"
  by (simp add: UpsertNonstandardDecimalsAsset_def storable_def)

lemma Delete_map:
  "DeleteNonstandardDecimalsAsset fails asset t = Some t' \<Longrightarrow>
     map_of t' = (map_of t)(asset := None) \<and> (distinct (map fst t) \<longrightarrow> distinct (map fst t'))"
  by (auto simp: DeleteNonstandardDecimalsAsset_def AList.delete_conv' AList.distinct_delete split: if_splits)

lemma HasSuffix_append: "HasSuffix (s @ t) t"
  by (simp add: HasSuffix_def)

lemma raise_alarm_simps [simp]:
  "g_table (raise_alarm r g) = g_table g" "persisted (raise_alarm r g) = persisted g"
  "resolved (raise_alarm r g) = resolved g" "g_writer (raise_alarm r g) = g_writer g"
  "g_reconciler (raise_alarm r g) = g_reconciler g"
  by (simp_all add: raise_alarm_def Let_def)

lemma remember_simps [simp]:
  "g_table (remember a d g) = g_table g" "persisted (remember a d g) = persisted g"
  "g_writer (remember a d g) = g_writer g" "g_reconciler (remember a d g) = g_reconciler g"
  "alarms (remember a d g) = alarms g" "alarmed (remember a d g) = alarmed g"
  by (simp_all add: remember_def)

lemma forgetPersisted_simps [simp]:
  "g_table (forgetPersisted a g) = g_table g" "resolved (forgetPersisted a g) = resolved g"
  "g_writer (forgetPersisted a g) = g_writer g" "g_reconciler (forgetPersisted a g) = g_reconciler g"
  "alarms (forgetPersisted a g) = alarms g" "alarmed (forgetPersisted a g) = alarmed g"
  by (simp_all add: forgetPersisted_def)

lemma report_table:
  "map_of (g_table (report fails ref d g)) =
     (if g_writer g \<and> ref_key (ref_Source ref) (ref_Asset ref) \<notin> set (persisted g) \<and> storable d \<and> \<not> fails (ref_Asset ref)
      then (map_of (g_table g))(ref_Asset ref \<mapsto> \<lparr>nd_Decimals = uint d, nd_Source = ref_Source ref\<rparr>)
      else map_of (g_table g))"
  by (auto simp: report_def Let_def UpsertNonstandardDecimalsAsset_def storable_def AList.update_conv')

lemma report_inv:
  assumes "guard_inv g" "plain_id (ref_Asset ref)"
  shows "guard_inv (report fails ref d g)"
proof (cases "UpsertNonstandardDecimalsAsset fails (ref_Asset ref) d (ref_Source ref) (g_table g)")
  case None
  then show ?thesis using assms by (auto simp: report_def Let_def guard_inv_def)
next
  case (Some t)
  note u = Upsert_map [OF Some]
  have rows: "map_of t a \<noteq> None" if "map_of (g_table g) a \<noteq> None" for a using u that by simp
  let ?key = "ref_key (ref_Source ref) (ref_Asset ref)"
  have latch: "\<exists>s a. k = ref_key s a \<and> plain_id a \<and> map_of t a \<noteq> None" if "k \<in> set (?key # persisted g)" for k
  proof (cases "k = ?key")
    case True
    then show ?thesis using u assms(2) by (intro exI [of _ "ref_Source ref"] exI [of _ "ref_Asset ref"]) simp
  next
    case False
    then show ?thesis using that assms(1) rows unfolding guard_inv_def by (metis set_ConsD)
  qed
  show ?thesis
  proof (cases "\<not> g_writer g \<or> ?key \<in> set (persisted g)")
    case True
    then have "g_table (report fails ref d g) = g_table g" "persisted (report fails ref d g) = persisted g"
      by (auto simp: report_def Let_def)
    then have "guard_inv (report fails ref d g) = guard_inv g" unfolding guard_inv_def by (simp only:)
    then show ?thesis using assms(1) by simp
  next
    case False
    then have "g_table (report fails ref d g) = t" "persisted (report fails ref d g) = ?key # persisted g"
      using Some by (auto simp: report_def Let_def)
    then show ?thesis using assms(1) u latch by (simp only: guard_inv_def) blast
  qed
qed

lemma report_keeps [simp]:
  "resolved (report fails ref d g) = resolved g" "g_writer (report fails ref d g) = g_writer g"
  "g_reconciler (report fails ref d g) = g_reconciler g"
  by (simp_all add: report_def Let_def split: option.splits)

lemma classify_cases:
  assumes "cache_agrees g lk" "classify lk asset g = (v, g')"
  shows "v = (case lk asset of Declares d \<Rightarrow> Some d | _ \<Rightarrow> None)" "cache_agrees g' lk"
    "g_table g' = g_table g" "persisted g' = persisted g" "g_writer g' = g_writer g" "g_reconciler g' = g_reconciler g"
proof -
  have "v = (case lk asset of Declares d \<Rightarrow> Some d | _ \<Rightarrow> None) \<and> cache_agrees g' lk \<and>
    g_table g' = g_table g \<and> persisted g' = persisted g \<and> g_writer g' = g_writer g \<and> g_reconciler g' = g_reconciler g"
  proof (cases "resolved g asset")
    case (Some d)
    then have "lk asset = Declares d" "v = Some d" "g' = g" using assms by (auto simp: classify_def cache_agrees_def)
    then show ?thesis using assms(1) by simp
  next
    case None
    then have eq: "(v, g') = (case lk asset of Declares d \<Rightarrow> (Some d, remember asset d g) | _ \<Rightarrow> (None, g))"
      using assms(2) by (simp add: classify_def split: lake_answer.splits)
    then have "cache_agrees g' lk"
      using assms(1) by (auto simp: cache_agrees_def remember_def split: lake_answer.splits if_splits)
    then show ?thesis using eq by (auto split: lake_answer.splits)
  qed
  then show "v = (case lk asset of Declares d \<Rightarrow> Some d | _ \<Rightarrow> None)" "cache_agrees g' lk"
    "g_table g' = g_table g" "persisted g' = persisted g" "g_writer g' = g_writer g" "g_reconciler g' = g_reconciler g"
    by blast+
qed

lemma guard_inv_classify: "classify lk asset g = (v, g') \<Longrightarrow> guard_inv g \<Longrightarrow> guard_inv g'"
  by (auto simp: classify_def guard_inv_def split: option.splits lake_answer.splits)

text \<open>What one traded token does to the table.\<close>

lemma sweep_ref_effect:
  assumes "guard_inv g" "cache_agrees g lk" "g_writer g" "\<And>a. \<not> fails a" "plain_id (ref_Asset ref)"
  defines "g' \<equiv> sweep_ref lk fails g ref"
  shows "guard_inv g'" "cache_agrees g' lk" "g_writer g'" "g_reconciler g' = g_reconciler g"
    "a \<noteq> ref_Asset ref \<Longrightarrow> map_of (g_table g') a = map_of (g_table g) a"
    "map_of (g_table g) a \<noteq> None \<Longrightarrow> map_of (g_table g') a \<noteq> None"
    "lk (ref_Asset ref) = Declares d \<Longrightarrow> storable d \<Longrightarrow> map_of (g_table g') (ref_Asset ref) \<noteq> None"
    "\<forall>d. lk (ref_Asset ref) = Declares d \<longrightarrow> \<not> storable d \<Longrightarrow> map_of (g_table g') a = map_of (g_table g) a"
proof -
  obtain v g1 where c: "classify lk (ref_Asset ref) g = (v, g1)" by fastforce
  note cc = classify_cases [OF assms(2) c]
  have inv1: "guard_inv g1" using guard_inv_classify [OF c assms(1)] .
  have g': "g' = (case v of None \<Rightarrow> g1 | Some d \<Rightarrow> if d = guard_StandardDecimals then g1 else report fails ref d g1)"
    by (simp add: g'_def sweep_ref_def c split: option.splits)
  show "guard_inv g'" using inv1 report_inv assms(5) by (simp add: g' split: option.splits)
  show "cache_agrees g' lk" using cc(2) by (simp add: g' cache_agrees_def split: option.splits)
  show "g_writer g'" "g_reconciler g' = g_reconciler g" using cc assms(3) by (simp_all add: g' split: option.splits)
  show "a \<noteq> ref_Asset ref \<Longrightarrow> map_of (g_table g') a = map_of (g_table g) a"
    using cc by (simp add: g' report_table split: option.splits)
  show "map_of (g_table g) a \<noteq> None \<Longrightarrow> map_of (g_table g') a \<noteq> None"
    using cc by (auto simp: g' report_table split: option.splits)
  show "map_of (g_table g') (ref_Asset ref) \<noteq> None" if "lk (ref_Asset ref) = Declares d" "storable d"
  proof (cases "ref_key (ref_Source ref) (ref_Asset ref) \<in> set (persisted g1)")
    case True
    then obtain s a where k: "ref_key (ref_Source ref) (ref_Asset ref) = ref_key s a" "plain_id a" "map_of (g_table g1) a \<noteq> None"
      using inv1 unfolding guard_inv_def by metis
    then have "a = ref_Asset ref" using ref_key_inject assms(5) by metis
    then show ?thesis using that cc k(3) by (auto simp: g' report_table split: option.splits)
  next
    case False
    then show ?thesis using that cc assms(3,4) by (simp add: g' report_table storable_def guard_StandardDecimals_def)
  qed
  show "\<forall>d. lk (ref_Asset ref) = Declares d \<longrightarrow> \<not> storable d \<Longrightarrow> map_of (g_table g') a = map_of (g_table g) a"
    using cc by (auto simp: g' report_table split: option.splits lake_answer.splits)
qed

lemma sweep_effect:
  assumes "guard_inv g" "cache_agrees g lk" "g_writer g" "\<And>a. \<not> fails a" "\<forall>r \<in> set rs. plain_id (ref_Asset r)"
  defines "g' \<equiv> foldl (sweep_ref lk fails) g rs"
  shows "guard_inv g' \<and> cache_agrees g' lk \<and> g_reconciler g' = g_reconciler g \<and>
    (\<forall>a. map_of (g_table g) a \<noteq> None \<longrightarrow> map_of (g_table g') a \<noteq> None) \<and>
    (\<forall>a d. a \<in> ref_Asset ` set rs \<longrightarrow> lk a = Declares d \<longrightarrow> storable d \<longrightarrow> map_of (g_table g') a \<noteq> None) \<and>
    (\<forall>a. a \<notin> ref_Asset ` set rs \<or> (\<forall>d. lk a = Declares d \<longrightarrow> \<not> storable d) \<longrightarrow>
      map_of (g_table g') a = map_of (g_table g) a)"
  unfolding g'_def using assms(1-3,5)
proof (induction rs arbitrary: g)
  case Nil
  then show ?case by simp
next
  case (Cons r rs)
  note e = sweep_ref_effect [OF Cons.prems(1-3) assms(4), where ref = r]
  have p: "plain_id (ref_Asset r)" using Cons.prems(4) by simp
  let ?g = "sweep_ref lk fails g r"
  have IH: "guard_inv (foldl (sweep_ref lk fails) ?g rs) \<and> cache_agrees (foldl (sweep_ref lk fails) ?g rs) lk \<and>
    g_reconciler (foldl (sweep_ref lk fails) ?g rs) = g_reconciler ?g \<and>
    (\<forall>a. map_of (g_table ?g) a \<noteq> None \<longrightarrow> map_of (g_table (foldl (sweep_ref lk fails) ?g rs)) a \<noteq> None) \<and>
    (\<forall>a d. a \<in> ref_Asset ` set rs \<longrightarrow> lk a = Declares d \<longrightarrow> storable d \<longrightarrow>
      map_of (g_table (foldl (sweep_ref lk fails) ?g rs)) a \<noteq> None) \<and>
    (\<forall>a. a \<notin> ref_Asset ` set rs \<or> (\<forall>d. lk a = Declares d \<longrightarrow> \<not> storable d) \<longrightarrow>
      map_of (g_table (foldl (sweep_ref lk fails) ?g rs)) a = map_of (g_table ?g) a)"
    using Cons.prems(4) e(1-3) [OF p] by (intro Cons.IH) auto
  have same: "map_of (g_table ?g) a = map_of (g_table g) a"
    if "a \<notin> ref_Asset ` set (r # rs) \<or> (\<forall>d. lk a = Declares d \<longrightarrow> \<not> storable d)" for a
    using that e(5,8) [OF p, where a = a] by (cases "a = ref_Asset r") auto
  show ?case unfolding foldl_Cons
  proof (intro conjI allI impI)
    fix a d
    assume a: "a \<in> ref_Asset ` set (r # rs)" "lk a = Declares d" "storable d"
    show "map_of (g_table (foldl (sweep_ref lk fails) ?g rs)) a \<noteq> None"
    proof (cases "a \<in> ref_Asset ` set rs")
      case True
      then show ?thesis using IH a by blast
    next
      case False
      then have "a = ref_Asset r" using a(1) by auto
      then have "map_of (g_table ?g) a \<noteq> None" using e(7) [OF p] a(2,3) by simp
      then show ?thesis using IH by blast
    qed
  next
    fix a
    assume "a \<notin> ref_Asset ` set (r # rs) \<or> (\<forall>d. lk a = Declares d \<longrightarrow> \<not> storable d)"
    then show "map_of (g_table (foldl (sweep_ref lk fails) ?g rs)) a = map_of (g_table g) a"
      using IH same by (metis image_eqI list.set_intros(2) insertCI list.simps(15) image_insert)
  qed (use IH e(4,6) [OF p] in \<open>simp_all add: e(4) [OF p]\<close>)
qed

text \<open>What the lake makes of one row.\<close>

definition reconciled :: "lake_answer \<Rightarrow> NonstandardDecimalsAsset \<Rightarrow> NonstandardDecimalsAsset option \<Rightarrow> NonstandardDecimalsAsset option" where
  "reconciled ans row old =
     (case ans of
        Declares d \<Rightarrow>
          if uint d = nd_Decimals row then old
          else if d = 7 then None
          else if storable d then Some \<lparr>nd_Decimals = uint d, nd_Source = nd_Source row\<rparr>
          else old
      | _ \<Rightarrow> old)"

lemma reconcileRow_table:
  assumes "\<And>a. \<not> fails a"
  shows "map_of (g_table (reconcileRow lk fails g (b, row))) a =
    (if a = b then reconciled (lk b) row (map_of (g_table g) b) else map_of (g_table g) a)"
  using assms
  by (auto simp: reconcileRow_def reconciled_def Let_def DeleteNonstandardDecimalsAsset_def UpsertNonstandardDecimalsAsset_def
      storable_def guard_StandardDecimals_def AList.update_conv' AList.delete_conv' split: lake_answer.splits)

lemma reconcile_table:
  assumes "\<And>a. \<not> fails a" "distinct (map fst rows)"
  shows "map_of (g_table (foldl (reconcileRow lk fails) g rows)) a =
    (case map_of rows a of None \<Rightarrow> map_of (g_table g) a | Some row \<Rightarrow> reconciled (lk a) row (map_of (g_table g) a))"
  using assms(2)
proof (induction rows arbitrary: g)
  case Nil
  then show ?case by simp
next
  case (Cons x rows)
  obtain b row where x: "x = (b, row)" by fastforce
  have "b \<notin> fst ` set rows" using Cons.prems by (simp add: x)
  then have "map_of rows b = None" by (simp add: map_of_eq_None_iff)
  then show ?case
    using Cons.IH [of "reconcileRow lk fails g x"] Cons.prems reconcileRow_table [OF assms(1), where lk = lk and g = g and b = b and row = row]
    by (auto simp: x split: option.splits)
qed

section \<open>From the lake to the served price\<close>

text \<open>The decimals a price is corrected with: the row's, else seven.\<close>

definition shown_decimals :: "decimals_table \<Rightarrow> string \<Rightarrow> int" where
  "shown_decimals t a = (case map_of t a of None \<Rightarrow> 7 | Some row \<Rightarrow> nd_Decimals row)"

lemma ResolveDecimals_snapshot:
  assumes "distinct (map fst t)"
  shows "ResolveDecimals (Some (cache_Lookup (Some (Refresh (Some t) c)))) x = shown_decimals t (Asset_String x)"
proof -
  have "map_of (rev t) = map_of t" using assms map_of_inject_set [of "rev t" t] by (simp add: rev_map [symmetric])
  then show ?thesis
    by (simp add: ResolveDecimals_def cache_Lookup_def Refresh_def shown_decimals_def PriceWindow.StandardDecimals_def split: option.splits)
qed

text \<open>
  The true decimals of a token the guard can know: the lake declares them and it traded in the sweep or
  already has a row; or it neither traded nor has a row and has the standard seven.
\<close>

definition true_decimals :: "lake \<Rightarrow> SorobanDEXTradeRef list \<Rightarrow> Guard \<Rightarrow> string \<Rightarrow> int \<Rightarrow> bool" where
  "true_decimals lk rs g a n \<longleftrightarrow>
     (let seen = (a \<in> ref_Asset ` set rs \<or> map_of (g_table g) a \<noteq> None) in
      (\<exists>d. lk a = Declares d \<and> n = uint d \<and> n < 2 ^ 31 \<and> seen) \<or> n = 7 \<and> \<not> seen)"

lemma tick_table:
  assumes "guard_inv g" "cache_agrees g lk" "g_writer g" "g_reconciler g" "\<And>a. \<not> fails a"
    "\<forall>r \<in> set rs. plain_id (ref_Asset r)" "length (g_table (Sweep (Some rs) lk fails g)) \<le> n"
    "true_decimals lk rs g a m"
  shows "shown_decimals (g_table (tick (Some rs) (Some n) lk fails g)) a = m"
proof -
  let ?s = "Sweep (Some rs) lk fails g"
  have s: "guard_inv ?s" "g_reconciler ?s"
    "\<And>d. a \<in> ref_Asset ` set rs \<or> map_of (g_table g) a \<noteq> None \<Longrightarrow> lk a = Declares d \<Longrightarrow> storable d \<Longrightarrow> map_of (g_table ?s) a \<noteq> None"
    "a \<notin> ref_Asset ` set rs \<or> (\<forall>d. lk a = Declares d \<longrightarrow> \<not> storable d) \<Longrightarrow> map_of (g_table ?s) a = map_of (g_table g) a"
    using sweep_effect [OF assms(1-3,5,6)] assms(4) by (auto simp: Sweep_def)
  have dist: "distinct (map fst (g_table ?s))" using s(1) by (simp add: guard_inv_def)
  have t: "map_of (g_table (tick (Some rs) (Some n) lk fails g)) a =
      (case map_of (g_table ?s) a of None \<Rightarrow> None | Some row \<Rightarrow> reconciled (lk a) row (map_of (g_table ?s) a))"
    using s(2) assms(7) reconcile_table [OF assms(5) dist, where lk = lk and g = ?s and a = a]
    by (auto simp: tick_def Reconcile_def split: option.splits)
  consider (declared) d where "lk a = Declares d" "m = uint d" "m < 2 ^ 31" "a \<in> ref_Asset ` set rs \<or> map_of (g_table g) a \<noteq> None"
    | (unseen) "m = 7" "a \<notin> ref_Asset ` set rs" "map_of (g_table g) a = None"
    using assms(8) by (auto simp: true_decimals_def)
  then show ?thesis
  proof cases
    case declared
    show ?thesis
    proof (cases "d = 7")
      case True
      then show ?thesis
        using t declared(1,2) by (auto simp: shown_decimals_def reconciled_def split: option.splits)
    next
      case False
      then have "storable d" using declared(2,3) by (simp add: storable_def)
      then obtain row where "map_of (g_table ?s) a = Some row" using s(3) [OF declared(4,1)] by blast
      then show ?thesis using t declared(1,2) False \<open>storable d\<close> by (auto simp: shown_decimals_def reconciled_def)
    qed
  next
    case unseen
    then have "map_of (g_table ?s) a = None" using s(4) by simp
    then show ?thesis using t unseen(1) by (simp add: shown_decimals_def)
  qed
qed

lemma reconcileRow_distinct: "distinct (map fst (g_table g)) \<Longrightarrow> distinct (map fst (g_table (reconcileRow lk fails g row)))"
  by (auto simp: reconcileRow_def Let_def dest: Upsert_map Delete_map split: lake_answer.splits option.splits)

lemma tick_distinct:
  assumes "guard_inv (Sweep refs lk fails g)"
  shows "distinct (map fst (g_table (tick refs loaded lk fails g)))"
proof -
  have "distinct (map fst (g_table (foldl (reconcileRow lk fails) g rows)))" if "distinct (map fst (g_table g))" for g rows
    using that by (induction rows arbitrary: g) (simp_all add: reconcileRow_distinct)
  then show ?thesis using assms by (auto simp: tick_def Reconcile_def guard_inv_def split: option.splits)
qed

text \<open>
  C11. A skewed ratio is served as the true price: after one tick of the guard whose queries and writes
  succeed, and one refresh of the API's snapshot, the raw ratio of a pair is corrected by the decimals the
  lake declares for each leg that traded in the window or already had a row, whatever row it had before,
  and by the standard seven for the others, exactly.
\<close>

theorem served_price_has_true_scale:
  assumes "guard_inv g" "cache_agrees g lk" "g_writer g" "g_reconciler g" "\<And>a. \<not> fails a"
    "\<forall>r \<in> set rs. plain_id (ref_Asset r)" "length (g_table (Sweep (Some rs) lk fails g)) \<le> n"
    "g' = tick (Some rs) (Some n) lk fails g" "look = Some (cache_Lookup (Some (Refresh (Some (g_table g')) c)))"
    "true_decimals lk rs g (Asset_String base) db" "true_decimals lk rs g (Asset_String quote) dq"
  shows "AdjustPrice (Some raw) (ResolveDecimals look base) (ResolveDecimals look quote)
    = Some (raw * 10 powi db / 10 powi dq)"
proof -
  have "guard_inv (Sweep (Some rs) lk fails g)"
    using sweep_effect [OF assms(1-3,5,6)] by (simp add: Sweep_def)
  then have d: "distinct (map fst (g_table g'))" using tick_distinct assms(8) by simp
  have "ResolveDecimals look base = db" "ResolveDecimals look quote = dq"
    using ResolveDecimals_snapshot [OF d] tick_table [OF assms(1-7,10)] tick_table [OF assms(1-7,11)] assms(8,9) by simp_all
  then show ?thesis by (auto simp: AdjustPrice_def DecimalsAdjustment_powi)
qed

definition sample_contract :: "char \<Rightarrow> Asset" where
  "sample_contract c = zeroAsset\<lparr>Type := AssetSoroban, ContractID := [c]\<rparr>"

definition sample_lake :: lake where
  "sample_lake a = (if a = ''A'' then Declares 9 else if a = ''B'' then Declares 7 else NotDerivable)"

definition sample_guard :: Guard where
  "sample_guard = New True True [(''B'', \<lparr>nd_Decimals = 6, nd_Source = ''x''\<rparr>)]"

theorem served_price_has_true_scale_witness:
  "AdjustPrice (Some 3)
     (ResolveDecimals (Some (cache_Lookup (Some (Refresh (Some (g_table
        (tick (Some [\<lparr>ref_Source = ''s'', ref_Asset = ''A''\<rparr>]) (Some 5) sample_lake (\<lambda>_. False) sample_guard))) Map.empty))))
        (sample_contract CHR ''A''))
     (ResolveDecimals (Some (cache_Lookup (Some (Refresh (Some (g_table
        (tick (Some [\<lparr>ref_Source = ''s'', ref_Asset = ''A''\<rparr>]) (Some 5) sample_lake (\<lambda>_. False) sample_guard))) Map.empty))))
        (sample_contract CHR ''B''))
   = Some (3 * 10 powi 9 / 10 powi 7)"
proof (rule served_price_has_true_scale [where lk = sample_lake and g = sample_guard and fails = "\<lambda>_. False" and n = 5
        and rs = "[\<lparr>ref_Source = ''s'', ref_Asset = ''A''\<rparr>]", OF _ _ _ _ _ _ _ refl refl])
  show "guard_inv sample_guard" by (simp add: guard_inv_def sample_guard_def New_def)
  show "cache_agrees sample_guard sample_lake" by (simp add: cache_agrees_def sample_guard_def New_def)
  show "g_writer sample_guard" "g_reconciler sample_guard" by (simp_all add: sample_guard_def New_def resolveReconciler_def)
  show "length (g_table (Sweep (Some [\<lparr>ref_Source = ''s'', ref_Asset = ''A''\<rparr>]) sample_lake (\<lambda>_. False) sample_guard)) \<le> 5"
    by code_simp
  show "true_decimals sample_lake [\<lparr>ref_Source = ''s'', ref_Asset = ''A''\<rparr>] sample_guard (Asset_String (sample_contract CHR ''A'')) 9"
    by (simp add: true_decimals_def sample_lake_def sample_contract_def Asset_String_def zeroAsset_def)
  show "true_decimals sample_lake [\<lparr>ref_Source = ''s'', ref_Asset = ''A''\<rparr>] sample_guard (Asset_String (sample_contract CHR ''B'')) 7"
    by (simp add: true_decimals_def sample_lake_def sample_contract_def Asset_String_def zeroAsset_def sample_guard_def New_def)
qed (simp_all add: plain_id_def)

section \<open>Alarms\<close>

datatype guard_event =
    EvSweep "SorobanDEXTradeRef list option" lake "string \<Rightarrow> bool"
  | EvBackfill "SorobanDEXTradeRef list option" lake "string \<Rightarrow> bool" "nat option"
  | EvReconcile "nat option" lake "string \<Rightarrow> bool"

fun ev_lake :: "guard_event \<Rightarrow> lake" where
  "ev_lake (EvSweep refs lk fails) = lk"
| "ev_lake (EvBackfill refs lk fails budget) = lk"
| "ev_lake (EvReconcile loaded lk fails) = lk"

fun guard_step :: "Guard \<Rightarrow> guard_event \<Rightarrow> Guard" where
  "guard_step g (EvSweep refs lk fails) = Sweep refs lk fails g"
| "guard_step g (EvBackfill refs lk fails budget) = Backfill refs lk fails budget g"
| "guard_step g (EvReconcile loaded lk fails) = Reconcile loaded lk fails g"

text \<open>Every alarm is latched under its key, and whatever the guard believes was declared by a lake it asked.\<close>

definition alarms_inv :: "lake set \<Rightarrow> Guard \<Rightarrow> bool" where
  "alarms_inv L g \<longleftrightarrow> alarmed g = map (\<lambda>(s, a). ref_key s a) (alarms g) \<and> distinct (map (\<lambda>(s, a). ref_key s a) (alarms g)) \<and>
     (\<forall>a d. resolved g a = Some d \<longrightarrow> (\<exists>lk \<in> L. lk a = Declares d)) \<and>
     (\<forall>(s, a) \<in> set (alarms g). \<exists>lk \<in> L. \<exists>d. lk a = Declares d \<and> d \<noteq> 7)"

lemma alarms_inv_remember: "alarms_inv L g \<Longrightarrow> lk \<in> L \<Longrightarrow> lk a = Declares d \<Longrightarrow> alarms_inv L (remember a d g)"
  by (auto simp: alarms_inv_def remember_def)

lemma alarms_inv_same:
  "alarms_inv L g \<Longrightarrow> alarms g' = alarms g \<Longrightarrow> alarmed g' = alarmed g \<Longrightarrow> resolved g' = resolved g \<Longrightarrow> alarms_inv L g'"
  by (simp add: alarms_inv_def)

lemma alarms_inv_raise:
  assumes "alarms_inv L g" "lk \<in> L" "lk (ref_Asset r) = Declares d" "d \<noteq> 7"
  shows "alarms_inv L (raise_alarm r g)"
  using assms by (auto simp: alarms_inv_def raise_alarm_def Let_def)

lemma alarms_inv_report:
  assumes "alarms_inv L g" "lk \<in> L" "lk (ref_Asset r) = Declares d" "d \<noteq> 7"
  shows "alarms_inv L (report fails r d' g)"
  by (rule alarms_inv_same [OF alarms_inv_raise [OF assms]]) (simp_all add: report_def Let_def split: option.splits)

lemma alarms_inv_sweep_ref:
  assumes "alarms_inv L g" "lk \<in> L"
  shows "alarms_inv L (sweep_ref lk fails g r)"
proof -
  obtain v g1 where c: "classify lk (ref_Asset r) g = (v, g1)" by fastforce
  have g1: "alarms_inv L g1"
    using c assms alarms_inv_remember by (auto simp: classify_def split: option.splits lake_answer.splits)
  have "\<exists>lk \<in> L. lk (ref_Asset r) = Declares d" if "v = Some d" for d
    using c assms that by (auto simp: classify_def alarms_inv_def split: option.splits lake_answer.splits)
  then show ?thesis
    using g1 alarms_inv_report c by (fastforce simp: sweep_ref_def guard_StandardDecimals_def split: option.splits)
qed

lemma alarms_inv_reconcileRow:
  assumes "alarms_inv L g" "lk \<in> L"
  shows "alarms_inv L (reconcileRow lk fails g row)"
proof -
  have base: "alarms_inv L (g\<lparr>mismatches := m\<rparr>)" "alarms_inv L (g\<lparr>mismatches := m, g_table := t\<rparr>)"
    "alarms_inv L (forgetPersisted a (g\<lparr>mismatches := m, g_table := t\<rparr>))" for m t a
    using assms(1) by (auto intro: alarms_inv_same)
  then show ?thesis
    using assms alarms_inv_remember [OF _ assms(2)]
    by (auto simp: reconcileRow_def Let_def split: lake_answer.splits option.splits)
qed

lemma alarms_inv_step:
  assumes "alarms_inv L g" "ev_lake ev \<in> L"
  shows "alarms_inv L (guard_step g ev)"
proof (cases ev)
  case (EvSweep refs lk fails)
  have "alarms_inv L (foldl (sweep_ref lk fails) g rs)" if "alarms_inv L g" "lk \<in> L" for rs g
    using that by (induction rs arbitrary: g) (simp_all add: alarms_inv_sweep_ref)
  then show ?thesis using assms by (simp add: EvSweep Sweep_def split: option.splits)
next
  case (EvBackfill refs lk fails budget)
  have "alarms_inv L (backfill_loop lk fails rs budget g)" if "alarms_inv L g" "lk \<in> L" for rs budget g
    using that by (induction lk fails rs budget g rule: backfill_loop.induct) (simp_all add: alarms_inv_sweep_ref split: option.splits nat.splits)
  then show ?thesis using assms by (simp add: EvBackfill Backfill_def split: option.splits)
next
  case (EvReconcile loaded lk fails)
  have "alarms_inv L (foldl (reconcileRow lk fails) g rows)" if "alarms_inv L g" "lk \<in> L" for rows g
    using that by (induction rows arbitrary: g) (simp_all add: alarms_inv_reconcileRow)
  then show ?thesis using assms by (simp add: EvReconcile Reconcile_def split: option.splits)
qed

text \<open>
  The alarm of the guard is raised at most once for a source and a token in the life of a process, and
  only for a token some lake reading declared with other than seven decimals: never on a failed reading,
  nor for a token whose decimals cannot be derived.
\<close>

theorem alarm_once_and_only_confirmed:
  "distinct (alarms (foldl guard_step (New w r t) evs)) \<and>
   (\<forall>(s, a) \<in> set (alarms (foldl guard_step (New w r t) evs)). \<exists>ev \<in> set evs. \<exists>d. ev_lake ev a = Declares d \<and> d \<noteq> 7)"
proof -
  let ?L = "ev_lake ` set evs"
  have run: "alarms_inv L (foldl guard_step g evs)" if "alarms_inv L g" "ev_lake ` set evs \<subseteq> L" for L g evs
    using that by (induction evs arbitrary: g) (simp_all add: alarms_inv_step)
  have "alarms_inv ?L (New w r t)" by (simp add: alarms_inv_def New_def)
  from run [OF this order_refl] have "alarms_inv ?L (foldl guard_step (New w r t) evs)" .
  then have "distinct (map (\<lambda>(s, a). ref_key s a) (alarms (foldl guard_step (New w r t) evs)))"
    "\<forall>(s, a) \<in> set (alarms (foldl guard_step (New w r t) evs)). \<exists>lk \<in> ?L. \<exists>d. lk a = Declares d \<and> d \<noteq> 7"
    unfolding alarms_inv_def by blast+
  then have "distinct (alarms (foldl guard_step (New w r t) evs))"
    "\<forall>x \<in> set (alarms (foldl guard_step (New w r t) evs)). \<exists>ev \<in> set evs. \<exists>d. ev_lake ev (snd x) = Declares d \<and> d \<noteq> 7"
    by (simp add: distinct_map, fastforce)
  then show ?thesis by (simp add: case_prod_beta)
qed

end
