(* ===== verification/TradeReads.thy ===== *)
theory TradeReads
  imports PriceWindow GoErr "HOL-Library.Product_Lexorder" "HOL-Library.Multiset"
begin

text \<open>
  The two reads of a market the aggregator prices a window from:
  \<open>TradesInRange\<close> (\<open>internal/storage/timescale/trades.go\<close>), the newest trades of a range up to a limit, and
  \<open>TradeSums1mInRange\<close> (\<open>trade_sums_1m.go\<close>), sums by source and minute from a continuous aggregate with the
  mark below which it can be trusted (\<open>cagg_invalidation_backlog.go\<close>). The SQL text of both is modelled over
  the list of rows of the table and of the view; \<open>collation\<close> is the rank a text has in the collation of the
  database. What TimescaleDB keeps of the view is the predicate
  \<open>materialised\<close>. Any query may fail. The interface \<open>capped_trades\<close> states what the reads promise.
\<close>

section \<open>The tables\<close>

record trade_row =
  r_source :: string
  r_ledger :: "32 word"
  r_tx_hash :: string
  r_op_index :: "32 word"
  r_ts :: gotime
  r_base_asset :: string
  r_quote_asset :: string
  r_base_amount :: int
  r_quote_amount :: int
  r_maker :: string
  r_taker :: string
  r_routed_via :: string

record view_row =
  v_source :: string
  v_bucket :: gotime
  v_base_asset :: string
  v_quote_asset :: string
  v_base_sum :: int
  v_quote_sum :: int
  v_count :: int
  v_min :: rat
  v_max :: rat

text \<open>
  \<open>inval\<close>: the pending invalidations of the view and of its source table, in microseconds of Unix time, both
  ends inclusive. \<open>refused\<close>: the ranges whose read fails; the other three reads answer \<open>None\<close> when they fail.
\<close>

record pg =
  trades_table :: "trade_row list"
  sums_view :: "view_row list option"
  nonVWAP :: "string list"
  collation :: "string \<Rightarrow> int"
  refused :: "gotime \<Rightarrow> gotime \<Rightarrow> bool"
  cagg_watermark :: "gotime option"
  inval :: "(int \<times> int) list option"

section \<open>trades.go\<close>

definition orientTradeTo :: "Trade \<Rightarrow> Pair \<Rightarrow> Trade" where
  "orientTradeTo t want =
     (if \<not> Pair_Equal (TPair t) (Flip want) then t
      else t\<lparr>TPair := want, BaseAmount := QuoteAmount t, QuoteAmount := BaseAmount t\<rparr>)"

definition row_trade :: "trade_row \<Rightarrow> Pair \<Rightarrow> Trade" where
  "row_trade r p =
     \<lparr>Source = r_source r, Ledger = r_ledger r, TxHash = r_tx_hash r, OpIndex = r_op_index r, Timestamp = r_ts r,
      TPair = p, BaseAmount = NewAmount (Some (r_base_amount r)), QuoteAmount = NewAmount (Some (r_quote_amount r)),
      Maker = r_maker r, Taker = r_taker r, RoutedVia = r_routed_via r\<rparr>"

definition scanTradeOriented :: "sdk \<Rightarrow> Pair \<Rightarrow> trade_row \<Rightarrow> error + Trade" where
  "scanTradeOriented k want r =
     err_bind (ParseAsset k (r_base_asset r)) (\<lambda>base.
     err_bind (ParseAsset k (r_quote_asset r)) (\<lambda>quote.
     err_bind (NewPair k base quote) (\<lambda>pair. Inr (orientTradeTo (row_trade r pair) want))))"

text \<open>\<open>ORDER BY ts, ledger, tx_hash, op_index, source\<close>, all descending, with a \<open>LIMIT\<close>.\<close>

definition row_rank :: "(string \<Rightarrow> int) \<Rightarrow> trade_row \<Rightarrow> int \<times> nat \<times> int \<times> nat \<times> int" where
  "row_rank ord r = (r_ts r, unat (r_ledger r), ord (r_tx_hash r), unat (r_op_index r), ord (r_source r))"

definition newest :: "('a \<Rightarrow> 'k :: linorder) \<Rightarrow> nat \<Rightarrow> 'a list \<Rightarrow> 'a list" where
  "newest key n rows = take n (rev (sort_key key rows))"

text \<open>One arm of the \<open>UNION ALL\<close>: a stored direction of the market.\<close>

definition arm :: "pg \<Rightarrow> string \<Rightarrow> string \<Rightarrow> gotime \<Rightarrow> gotime \<Rightarrow> trade_row list" where
  "arm q base quote from to =
     filter (\<lambda>r. r_base_asset r = base \<and> r_quote_asset r = quote \<and> from \<le> r_ts r \<and> r_ts r < to
               \<and> r_source r \<notin> set (nonVWAP q)) (trades_table q)"

definition MaxTradesInRangeLimit :: int where
  "MaxTradesInRangeLimit = 10000"

definition range_limit :: "int \<Rightarrow> int" where
  "range_limit limit =
     (let limit = (if limit \<le> 0 then 1000 else limit) in if MaxTradesInRangeLimit < limit then MaxTradesInRangeLimit else limit)"

definition TradesInRange :: "sdk \<Rightarrow> pg \<Rightarrow> Pair \<Rightarrow> gotime \<Rightarrow> gotime \<Rightarrow> int \<Rightarrow> error + Trade list" where
  "TradesInRange k q p from to limit =
     (let n = nat (range_limit limit); base = Asset_String (Base p); quote = Asset_String (Quote p);
          rank = row_rank (collation q) in
      if to < from \<or> refused q from to then Inl []
      else err_bind (err_list (scanTradeOriented k p)
                       (newest rank n (newest rank n (arm q base quote from to) @ newest rank n (arm q quote base from to))))
             (\<lambda>out. Inr (rev out)))"

section \<open>cagg_invalidation_backlog.go\<close>

definition UnixMicro :: "gotime \<Rightarrow> int" where
  "UnixMicro t = t div 1000 - unix_epoch_seconds * 1000000"

definition of_UnixMicro :: "int \<Rightarrow> gotime" where
  "of_UnixMicro u = (u + unix_epoch_seconds * 1000000) * 1000"

definition CAGGInvalidatedRanges :: "pg \<Rightarrow> gotime \<Rightarrow> gotime \<Rightarrow> error + (gotime \<times> gotime) list" where
  "CAGGInvalidatedRanges q from to =
     (case inval q of
        None \<Rightarrow> Inl []
      | Some entries \<Rightarrow>
          Inr (map (\<lambda>(lo, hi). (of_UnixMicro lo, of_UnixMicro hi + 1000))
                 (sort_key fst (map (\<lambda>(lo, hi). (max lo (UnixMicro from), min hi (UnixMicro to - 1)))
                    (filter (\<lambda>(lo, hi). lo < UnixMicro to \<and> UnixMicro from \<le> hi) entries)))))"

section \<open>trade_sums_1m.go\<close>

record TradeMinuteSum =
  tm_Source :: string
  tm_Bucket :: gotime
  BaseSum :: Amount
  QuoteSum :: Amount
  tm_Count :: int
  MinPrice :: rat
  MaxPrice :: rat

definition scan_sum :: "bool \<times> view_row \<Rightarrow> error + TradeMinuteSum" where
  "scan_sum fr =
     (case fr of (forward, v) \<Rightarrow>
        if v_min v \<le> 0 \<or> v_max v \<le> 0 then Inl []
        else if forward then
          Inr \<lparr>tm_Source = v_source v, tm_Bucket = v_bucket v, BaseSum = NewAmount (Some (v_base_sum v)),
               QuoteSum = NewAmount (Some (v_quote_sum v)), tm_Count = v_count v, MinPrice = v_min v, MaxPrice = v_max v\<rparr>
        else
          Inr \<lparr>tm_Source = v_source v, tm_Bucket = v_bucket v, BaseSum = NewAmount (Some (v_quote_sum v)),
               QuoteSum = NewAmount (Some (v_base_sum v)), tm_Count = v_count v, MinPrice = inverse (v_max v), MaxPrice = inverse (v_min v)\<rparr>)"

definition sums_arm :: "pg \<Rightarrow> view_row list \<Rightarrow> string \<Rightarrow> string \<Rightarrow> gotime \<Rightarrow> gotime \<Rightarrow> view_row list" where
  "sums_arm q vs base quote from to =
     filter (\<lambda>v. v_base_asset v = base \<and> v_quote_asset v = quote \<and> from \<le> v_bucket v \<and> v_bucket v < to
               \<and> 0 < v_count v \<and> v_source v \<notin> set (nonVWAP q)) vs"

definition trust_mark :: "pg \<Rightarrow> gotime \<Rightarrow> error + gotime" where
  "trust_mark q from =
     (case cagg_watermark q of
        None \<Rightarrow> Inl []
      | Some watermark \<Rightarrow>
          if from < watermark then
            err_bind (CAGGInvalidatedRanges q from watermark)
              (\<lambda>dirty. Inr (case dirty of [] \<Rightarrow> watermark | d # _ \<Rightarrow> time_Truncate (fst d) go_minute))
          else Inr watermark)"

definition TradeSums1mInRange :: "pg \<Rightarrow> Pair \<Rightarrow> gotime \<Rightarrow> gotime \<Rightarrow> error + (TradeMinuteSum list \<times> gotime)" where
  "TradeSums1mInRange q p from to =
     err_bind (trust_mark q from) (\<lambda>watermark.
       case sums_view q of
         None \<Rightarrow> Inl []
       | Some vs \<Rightarrow>
           let base = Asset_String (Base p); quote = Asset_String (Quote p) in
           err_bind (err_list scan_sum
             (sort_key (\<lambda>(_, v). (v_bucket v, collation q (v_source v)))
                (map (Pair True) (sums_arm q vs base quote from to) @ map (Pair False) (sums_arm q vs quote base from to))))
             (\<lambda>out. Inr (out, watermark)))"

section \<open>The newest part of a list\<close>

text \<open>\<open>xs\<close> are the \<open>n\<close> greatest of \<open>ys\<close>, all of them when there are fewer.\<close>

definition top_part :: "('a \<Rightarrow> 'k :: linorder) \<Rightarrow> nat \<Rightarrow> 'a list \<Rightarrow> 'a multiset \<Rightarrow> bool" where
  "top_part key n xs ys \<longleftrightarrow> length xs \<le> n \<and>
     (\<exists>older. mset xs + older = ys \<and> (length xs < n \<longrightarrow> older = {#}) \<and>
        (\<forall>x \<in># older. \<forall>y \<in> set xs. key x \<le> key y))"

lemma newest_top: "top_part key n (newest key n ys) (mset ys)"
proof -
  define zs where "zs = rev (sort_key key ys)"
  have "sorted_wrt (\<lambda>x y. key y \<le> key x) zs"
    unfolding zs_def sorted_wrt_rev using sorted_sort_key [of key ys] by (simp add: sorted_map)
  then have "\<forall>y \<in> set (take n zs). \<forall>x \<in> set (drop n zs). key x \<le> key y"
    by (metis append_take_drop_id sorted_wrt_append)
  moreover have "mset (take n zs) + mset (drop n zs) = mset ys"
    by (metis zs_def append_take_drop_id mset_append mset_rev mset_sort)
  ultimately show ?thesis
    unfolding top_part_def newest_def zs_def [symmetric] by (intro conjI exI [of _ "mset (drop n zs)"]) auto
qed

lemma top_part_bound:
  assumes "top_part key n zs (mset xs + B)" "length xs = n" "y \<in> set zs" "\<forall>x \<in> set xs. c \<le> key x"
  shows "c \<le> key y"
proof (rule ccontr)
  assume y: "\<not> c \<le> key y"
  obtain older where o: "mset zs + older = mset xs + B" "length zs \<le> n" "\<forall>x \<in># older. key x \<le> key y"
    using assms(1,3) by (auto simp: top_part_def)
  let ?above = "filter_mset (\<lambda>x. key y < key x)"
  have "?above older = {#}" using o(3) by (auto simp: filter_mset_eq_conv)
  then have "?above (mset zs) = ?above (mset xs) + ?above B"
    using arg_cong [OF o(1), of ?above] by (simp only: filter_union_mset) simp
  moreover have "?above (mset xs) = mset xs" using assms(4) y by (auto simp: filter_mset_eq_conv)
  ultimately have "n \<le> size (?above (mset zs))" using assms(2) by simp
  also have "\<dots> = length (filter (\<lambda>x. key y < key x) zs)" by (metis mset_filter size_mset)
  also have "\<dots> < length zs" using assms(3) by (intro length_filter_less) auto
  finally show False using o(2) by simp
qed

text \<open>Limiting each arm of the union by \<open>n\<close> loses nothing of the \<open>n\<close> newest of the whole.\<close>

lemma top_part_union:
  assumes A: "top_part key n as A" and B: "top_part key n bs B" and Z: "top_part key n zs (mset as + mset bs)"
  shows "top_part key n zs (A + B)"
proof -
  obtain ra where ra: "mset as + ra = A" "length as < n \<longrightarrow> ra = {#}" "\<forall>x \<in># ra. \<forall>y \<in> set as. key x \<le> key y"
    using A by (auto simp: top_part_def)
  obtain rb where rb: "mset bs + rb = B" "length bs < n \<longrightarrow> rb = {#}" "\<forall>x \<in># rb. \<forall>y \<in> set bs. key x \<le> key y"
    using B by (auto simp: top_part_def)
  obtain rz where rz: "mset zs + rz = mset as + mset bs" "length zs < n \<longrightarrow> rz = {#}" "\<forall>x \<in># rz. \<forall>y \<in> set zs. key x \<le> key y"
    using Z by (auto simp: top_part_def)
  have n: "length as \<le> n" "length bs \<le> n" "length zs \<le> n" using A B Z by (auto simp: top_part_def)
  have below: "key x \<le> key y" if "x \<in># ra + rb" "y \<in> set zs" for x y
  proof (cases "x \<in># ra")
    case True
    then have "length as = n" using ra(2) n(1) by fastforce
    then show ?thesis using top_part_bound [OF Z _ that(2)] ra(3) True by blast
  next
    case False
    then have x: "x \<in># rb" using that(1) by simp
    then have "length bs = n" using rb(2) n(2) by fastforce
    moreover have "top_part key n zs (mset bs + mset as)" using Z by (simp add: add.commute)
    ultimately show ?thesis using top_part_bound [OF _ _ that(2)] rb(3) x by blast
  qed
  have few: "rz + ra + rb = {#}" if "length zs < n"
  proof -
    have "rz = {#}" using rz(2) that by simp
    then have "length zs = length as + length bs" using arg_cong [OF rz(1), of size] by simp
    then show ?thesis using that ra(2) rb(2) \<open>rz = {#}\<close> by simp
  qed
  have "mset zs + (rz + ra + rb) = (mset zs + rz) + (ra + rb)" by (simp add: ac_simps)
  also have "\<dots> = A + B" unfolding rz(1) ra(1) [symmetric] rb(1) [symmetric] by (simp add: ac_simps)
  finally have parts: "mset zs + (rz + ra + rb) = A + B" .
  show ?thesis
    unfolding top_part_def using n(3) parts few below rz(3)
    by (intro conjI exI [of _ "rz + ra + rb"]) auto
qed

lemma top_part_map:
  assumes "top_part key n xs ys" "\<And>x y. key x \<le> key y \<Longrightarrow> key' (f x) \<le> key' (f y)"
  shows "top_part key' n (map f xs) (image_mset f ys)"
proof -
  obtain r where r: "mset xs + r = ys" "length xs < n \<longrightarrow> r = {#}" "\<forall>x \<in># r. \<forall>y \<in> set xs. key x \<le> key y" "length xs \<le> n"
    using assms(1) by (auto simp: top_part_def)
  then show ?thesis unfolding top_part_def using assms(2) by (intro conjI exI [of _ "image_mset f r"]) auto
qed

lemma top_part_perm: "top_part key n xs ys \<Longrightarrow> mset zs = mset xs \<Longrightarrow> top_part key n zs ys"
  unfolding top_part_def by (metis mset_eq_setD size_mset)

section \<open>The market a pair names\<close>

definition oriented :: "Pair \<Rightarrow> trade_row \<Rightarrow> Trade" where
  "oriented p r =
     (if r_base_asset r = Asset_String (Base p) then row_trade r p
      else (row_trade r p)\<lparr>BaseAmount := NewAmount (Some (r_quote_amount r)), QuoteAmount := NewAmount (Some (r_base_amount r))\<rparr>)"

definition of_market :: "pg \<Rightarrow> Pair \<Rightarrow> trade_row \<Rightarrow> bool" where
  "of_market q p r \<longleftrightarrow> r_source r \<notin> set (nonVWAP q) \<and>
     (r_base_asset r = Asset_String (Base p) \<and> r_quote_asset r = Asset_String (Quote p)
      \<or> r_base_asset r = Asset_String (Quote p) \<and> r_quote_asset r = Asset_String (Base p))"

text \<open>Every trade of the table that counts for the pair, in the direction asked for.\<close>

definition market :: "pg \<Rightarrow> Pair \<Rightarrow> Trade list" where
  "market q p = map (oriented p) (filter (of_market q p) (trades_table q))"

definition in_range :: "gotime \<Rightarrow> gotime \<Rightarrow> Trade \<Rightarrow> bool" where
  "in_range from to t \<longleftrightarrow> from \<le> Timestamp t \<and> Timestamp t < to"

lemma oriented_simps [simp]: "Timestamp (oriented p r) = r_ts r" "Source (oriented p r) = r_source r"
  by (simp_all add: oriented_def row_trade_def)

lemma pair_texts:
  assumes "strkey_ok k" "Pair_Validate k p = None"
  shows "Asset_String (Base p) \<noteq> Asset_String (Quote p)" "ParseAsset k (Asset_String (Base p)) = Inr (Base p)"
    "ParseAsset k (Asset_String (Quote p)) = Inr (Quote p)"
proof -
  have v: "Asset_Validate k (Base p) = None" "Asset_Validate k (Quote p) = None" "Base p \<noteq> Quote p"
    using assms(2) by (auto simp: Pair_Validate_None)
  then show "Asset_String (Base p) \<noteq> Asset_String (Quote p)" using asset_wire_injective [OF assms(1)] by blast
  show "ParseAsset k (Asset_String (Base p)) = Inr (Base p)" "ParseAsset k (Asset_String (Quote p)) = Inr (Quote p)"
    using v asset_parse_string [OF assms(1)] by auto
qed

lemma scan_oriented:
  assumes "strkey_ok k" "Pair_Validate k p = None" "of_market q p r"
  shows "scanTradeOriented k p r = Inr (oriented p r)"
proof -
  note t = pair_texts [OF assms(1,2)]
  have f: "Pair_Validate k (Flip p) = None" "\<not> Pair_Equal p (Flip p)" "Pair_Equal (Flip p) (Flip p)"
    using assms(2) by (auto simp: Pair_Validate_None Flip_def Pair_Equal_def Asset_Equal_iff)
  have n: "NewPair k (Base p) (Quote p) = Inr p" "NewPair k (Quote p) (Base p) = Inr (Flip p)"
    using assms(2) f(1) by (simp_all add: NewPair_def Pair_eta Flip_def)
  show ?thesis
    using assms(3) t f n
    by (auto simp: of_market_def scanTradeOriented_def orientTradeTo_def oriented_def row_trade_def)
qed

lemma err_list_map: "(\<And>x. x \<in> set xs \<Longrightarrow> f x = Inr (g x)) \<Longrightarrow> err_list f xs = Inr (map g xs)"
  by (induction xs) auto

lemma filter_disjoint_mset:
  "(\<And>x. \<not> (P x \<and> Q x)) \<Longrightarrow> mset (filter P xs) + mset (filter Q xs) = mset (filter (\<lambda>x. P x \<or> Q x) xs)"
  by (induction xs) auto

lemma arms_market:
  assumes "strkey_ok k" "Pair_Validate k p = None"
  defines "base \<equiv> Asset_String (Base p)" and "quote \<equiv> Asset_String (Quote p)"
  shows "image_mset (oriented p) (mset (arm q base quote from to) + mset (arm q quote base from to))
           = mset (filter (in_range from to) (market q p))"
    and "r \<in> set (arm q base quote from to) \<or> r \<in> set (arm q quote base from to) \<Longrightarrow> of_market q p r"
proof -
  have ne: "base \<noteq> quote" using pair_texts [OF assms(1,2)] by (simp add: base_def quote_def)
  then have disj: "\<not> ((r_base_asset r = base \<and> r_quote_asset r = quote \<and> from \<le> r_ts r \<and> r_ts r < to \<and> r_source r \<notin> set (nonVWAP q))
      \<and> (r_base_asset r = quote \<and> r_quote_asset r = base \<and> from \<le> r_ts r \<and> r_ts r < to \<and> r_source r \<notin> set (nonVWAP q)))" for r by auto
  have "mset (arm q base quote from to) + mset (arm q quote base from to)
      = mset (filter (\<lambda>r. of_market q p r \<and> from \<le> r_ts r \<and> r_ts r < to) (trades_table q))"
    unfolding arm_def filter_disjoint_mset [OF disj]
    by (intro arg_cong [where f = mset] filter_cong) (auto simp: of_market_def base_def quote_def)
  then show "image_mset (oriented p) (mset (arm q base quote from to) + mset (arm q quote base from to))
           = mset (filter (in_range from to) (market q p))"
    by (simp add: market_def filter_map o_def in_range_def conj_commute)
  show "r \<in> set (arm q base quote from to) \<or> r \<in> set (arm q quote base from to) \<Longrightarrow> of_market q p r"
    by (auto simp: arm_def of_market_def base_def quote_def)
qed

lemma set_newest: "set (newest key n xs) \<subseteq> set xs"
  unfolding newest_def using set_take_subset by fastforce

text \<open>A read that returns gives the newest trades of the market in the range, up to the limit.\<close>

lemma TradesInRange_top:
  assumes "strkey_ok k" "Pair_Validate k p = None" "TradesInRange k q p from to limit = Inr ts"
  shows "top_part Timestamp (nat (range_limit limit)) ts (mset (filter (in_range from to) (market q p)))"
proof -
  let ?a = "arm q (Asset_String (Base p)) (Asset_String (Quote p)) from to"
    and ?b = "arm q (Asset_String (Quote p)) (Asset_String (Base p)) from to"
  let ?rank = "row_rank (collation q)" and ?n = "nat (range_limit limit)"
  define rows where "rows = newest ?rank ?n (newest ?rank ?n ?a @ newest ?rank ?n ?b)"
  note arms = arms_market [OF assms(1,2)]
  have "\<forall>r \<in> set rows. of_market q p r"
    using arms(2) set_newest unfolding rows_def by (metis (no_types, lifting) Un_iff set_append subset_code(1))
  then have scan: "err_list (scanTradeOriented k p) rows = Inr (map (oriented p) rows)"
    by (intro err_list_map scan_oriented [OF assms(1,2)]) auto
  have "top_part ?rank ?n rows (mset ?a + mset ?b)"
    using top_part_union [OF newest_top newest_top] newest_top unfolding rows_def by (metis mset_append)
  then have "top_part Timestamp ?n (map (oriented p) rows) (mset (filter (in_range from to) (market q p)))"
    unfolding arms(1) [symmetric] by (rule top_part_map) (auto simp: row_rank_def less_eq_prod_def)
  then have "top_part Timestamp ?n (rev (map (oriented p) rows)) (mset (filter (in_range from to) (market q p)))"
    by (rule top_part_perm) simp
  then show ?thesis using assms(3) scan by (auto simp: TradesInRange_def Let_def rows_def split: if_splits)
qed

section \<open>What the view can be trusted for\<close>

definition aligned :: "gotime \<Rightarrow> bool" where
  "aligned t \<longleftrightarrow> t mod go_minute = 0"

text \<open>A bucket below the watermark that no pending invalidation touches.\<close>

definition clean :: "pg \<Rightarrow> gotime \<Rightarrow> bool" where
  "clean q b \<longleftrightarrow> (\<exists>w entries. cagg_watermark q = Some w \<and> inval q = Some entries \<and> b + go_minute \<le> w \<and>
     (\<forall>(lo, hi) \<in> set entries. \<not> (lo < UnixMicro (b + go_minute) \<and> UnixMicro b \<le> hi)))"

definition bucket_rows :: "pg \<Rightarrow> string \<Rightarrow> string \<Rightarrow> string \<Rightarrow> gotime \<Rightarrow> trade_row list" where
  "bucket_rows q source base quote b =
     filter (\<lambda>r. r_source r = source \<and> r_base_asset r = base \<and> r_quote_asset r = quote
               \<and> time_Truncate (r_ts r) go_minute = b \<and> 0 < r_base_amount r \<and> 0 < r_quote_amount r) (trades_table q)"

text \<open>
  The view as \<open>0217_trade_sums_1m.up.sql\<close> defines it: in a clean bucket one row for each source and stored
  direction with a priceable trade, holding the sums over those trades. Elsewhere its rows are arbitrary.
\<close>

definition materialised :: "pg \<Rightarrow> bool" where
  "materialised q \<longleftrightarrow> (\<forall>vs. sums_view q = Some vs \<longrightarrow> (\<forall>v \<in> set vs. aligned (v_bucket v)) \<and>
     (\<forall>source base quote b. clean q b \<longrightarrow>
        (let rows = bucket_rows q source base quote b;
             kept = filter (\<lambda>v. v_source v = source \<and> v_base_asset v = base \<and> v_quote_asset v = quote
                              \<and> v_bucket v = b \<and> 0 < v_count v) vs in
         if rows = [] then kept = []
         else \<exists>v. kept = [v] \<and> v_base_sum v = sum_list (map r_base_amount rows)
                \<and> v_quote_sum v = sum_list (map r_quote_amount rows) \<and> v_count v = int (length rows))))"

lemma go_minute_value: "go_minute = 60000000000"
  by (simp add: go_minute_def go_second_def)

lemma aligned_dvd: "aligned t \<longleftrightarrow> go_minute dvd t"
  by (simp add: aligned_def dvd_eq_mod_eq_0)

lemma truncate_minute: "time_Truncate t go_minute = b \<longleftrightarrow> aligned b \<and> b \<le> t \<and> t < b + go_minute"
proof -
  have pos: "0 < go_minute" by (simp add: go_minute_value)
  have "t mod go_minute = t - b" if b: "aligned b" "b \<le> t" "t < b + go_minute"
  proof -
    have "t mod go_minute = (b mod go_minute + (t - b)) mod go_minute" by (simp add: mod_simps)
    also have "\<dots> = t - b" using b by (simp add: aligned_def)
    finally show ?thesis .
  qed
  moreover have "aligned (t - t mod go_minute)" by (simp add: aligned_dvd)
  ultimately show ?thesis
    using pos pos_mod_sign [OF pos, of t] pos_mod_bound [OF pos, of t] by (auto simp: time_Truncate_def)
qed

lemma UnixMicro_mono: "s \<le> t \<Longrightarrow> UnixMicro s \<le> UnixMicro t"
  by (simp add: UnixMicro_def zdiv_mono1)

lemma of_UnixMicro_mono: "u \<le> v \<Longrightarrow> of_UnixMicro u \<le> of_UnixMicro v"
  by (simp add: of_UnixMicro_def)

lemma of_UnixMicro_UnixMicro: "of_UnixMicro (UnixMicro t) \<le> t"
  by (simp add: of_UnixMicro_def UnixMicro_def)

lemma UnixMicro_minute: "UnixMicro t < UnixMicro (t + go_minute)"
proof -
  have "(t + 60000000 * 1000) div 1000 = 60000000 + t div 1000" by (rule div_mult_self1) simp
  then show ?thesis by (simp add: UnixMicro_def go_minute_value)
qed

lemma of_UnixMicro_less: "u < UnixMicro t \<Longrightarrow> of_UnixMicro u < t"
  using of_UnixMicro_UnixMicro [of t] by (simp add: of_UnixMicro_def)

lemma aligned_next: "aligned b \<Longrightarrow> aligned (b + go_minute)"
  by (simp add: aligned_def)

lemma aligned_gap:
  assumes "aligned a" "aligned b" "a < b"
  shows "a + go_minute \<le> b"
proof -
  have "go_minute dvd b - a" using assms by (simp add: aligned_dvd)
  then show ?thesis using zdvd_imp_le [of go_minute "b - a"] assms(3) by simp
qed

text \<open>The mark the read returns is lowered below every pending invalidation of the range.\<close>

lemma CAGGInvalidatedRanges_first:
  assumes "CAGGInvalidatedRanges q from to = Inr dirty" "inval q = Some entries" "(lo, hi) \<in> set entries"
    "lo < UnixMicro to" "UnixMicro from \<le> hi"
  shows "\<exists>d ds. dirty = d # ds \<and> fst d \<le> of_UnixMicro (max lo (UnixMicro from))"
proof -
  define es where "es = map (\<lambda>(lo, hi). (max lo (UnixMicro from), min hi (UnixMicro to - 1)))
    (filter (\<lambda>(lo, hi). lo < UnixMicro to \<and> UnixMicro from \<le> hi) entries)"
  have m: "(max lo (UnixMicro from), min hi (UnixMicro to - 1)) \<in> set (sort_key fst es)"
    using assms(3-5) by (force simp: es_def)
  then obtain e rest where e: "sort_key fst es = e # rest" by (cases "sort_key fst es") auto
  have "sorted (map fst (e # rest))" using sorted_sort_key [of fst es] e by simp
  then have "fst e \<le> max lo (UnixMicro from)" using m unfolding e by force
  then show ?thesis
    using assms(1,2) e by (auto simp: CAGGInvalidatedRanges_def es_def case_prod_beta intro!: of_UnixMicro_mono)
qed

lemma trust_mark_clean:
  assumes "trust_mark q from = Inr w" "to \<le> w" "aligned from" "aligned to" "aligned b" "from \<le> b" "b < to"
  shows "clean q b"
proof -
  obtain wm where wm: "cagg_watermark q = Some wm" using assms(1) by (auto simp: trust_mark_def split: option.splits)
  have bt: "b + go_minute \<le> to" using aligned_gap assms(4,5,7) by simp
  have lt: "from < wm"
  proof (rule ccontr)
    assume "\<not> from < wm"
    then have "w = wm" using assms(1) wm by (simp add: trust_mark_def)
    then show False using \<open>\<not> from < wm\<close> assms(2,6,7) by simp
  qed
  then obtain dirty where d: "CAGGInvalidatedRanges q from wm = Inr dirty"
    "w = (case dirty of [] \<Rightarrow> wm | d # _ \<Rightarrow> time_Truncate (fst d) go_minute)"
    using assms(1) wm by (auto simp: trust_mark_def err_bind_Inr)
  then obtain entries where en: "inval q = Some entries" by (auto simp: CAGGInvalidatedRanges_def split: option.splits)
  have low: "w \<le> b" if e: "(lo, hi) \<in> set entries" "lo < UnixMicro wm" "UnixMicro from \<le> hi" "lo < UnixMicro (b + go_minute)" for lo hi
  proof -
    obtain d' ds where f: "dirty = d' # ds" "fst d' \<le> of_UnixMicro (max lo (UnixMicro from))"
      using CAGGInvalidatedRanges_first [OF d(1) en e(1-3)] by blast
    have "max lo (UnixMicro from) < UnixMicro (b + go_minute)"
      using e(4) UnixMicro_mono [OF assms(6)] UnixMicro_minute [of b] by simp
    then have "fst d' < b + go_minute" using f(2) of_UnixMicro_less by fastforce
    moreover have "time_Truncate (fst d') go_minute \<le> fst d'" by (simp add: time_Truncate_def go_minute_value)
    moreover have "aligned (time_Truncate (fst d') go_minute)" using truncate_minute by blast
    ultimately have "time_Truncate (fst d') go_minute \<le> b"
      using aligned_gap [OF assms(5), of "time_Truncate (fst d') go_minute"] by force
    then show ?thesis using d(2) f(1) by simp
  qed
  have wmt: "to \<le> wm"
  proof (cases dirty)
    case Nil
    then show ?thesis using d(2) assms(2) by simp
  next
    case (Cons d' ds)
    let ?clip = "map (\<lambda>(lo, hi). (max lo (UnixMicro from), min hi (UnixMicro wm - 1)))
      (filter (\<lambda>(lo, hi). lo < UnixMicro wm \<and> UnixMicro from \<le> hi) entries)"
    have "d' \<in> set (map (\<lambda>(lo, hi). (of_UnixMicro lo, of_UnixMicro hi + 1000)) (sort_key fst ?clip))"
      using d(1) en Cons by (auto simp: CAGGInvalidatedRanges_def)
    then obtain u where u: "fst d' = of_UnixMicro u" "u \<le> UnixMicro wm"
      using UnixMicro_mono [OF less_imp_le [OF lt]] by auto
    have "w \<le> fst d'" using d(2) Cons by (simp add: time_Truncate_def go_minute_value)
    also have "\<dots> \<le> wm" unfolding u(1) using of_UnixMicro_mono [OF u(2)] of_UnixMicro_UnixMicro [of wm] by simp
    finally show ?thesis using assms(2) by simp
  qed
  have "\<not> (lo < UnixMicro (b + go_minute) \<and> UnixMicro b \<le> hi)" if "(lo, hi) \<in> set entries" for lo hi
    using low [OF that] UnixMicro_mono [of "b + go_minute" wm] UnixMicro_mono [OF assms(6)] bt wmt assms(2,7) by force
  then show ?thesis using wm en bt wmt by (auto simp: clean_def)
qed

section \<open>The sums are those of the market\<close>

definition source_volume :: "(Trade \<Rightarrow> int) \<Rightarrow> string \<Rightarrow> Trade list \<Rightarrow> int" where
  "source_volume leg s ts = sum_list (map leg (filter (\<lambda>t. Source t = s) (priced ts)))"

abbreviation minute_of :: "Trade \<Rightarrow> gotime" where
  "minute_of t \<equiv> time_Truncate (Timestamp t) go_minute"

lemma oriented_forward:
  "r_base_asset r = Asset_String (Base p) \<Longrightarrow> base_of (oriented p r) = r_base_amount r \<and> quote_of (oriented p r) = r_quote_amount r"
  by (simp add: oriented_def row_trade_def)

lemma oriented_backward:
  "r_base_asset r \<noteq> Asset_String (Base p) \<Longrightarrow> base_of (oriented p r) = r_quote_amount r \<and> quote_of (oriented p r) = r_base_amount r"
  by (simp add: oriented_def row_trade_def)

lemma sum_filter_disjoint:
  "(\<And>x. \<not> (P x \<and> Q x)) \<Longrightarrow>
     sum_list (map f (filter (\<lambda>x. P x \<or> Q x) xs)) = sum_list (map f (filter P xs)) + sum_list (map f (filter Q xs :: 'a list)) "
  for f :: "'a \<Rightarrow> int"
  by (induction xs) auto

lemma market_bucket:
  assumes "strkey_ok k" "Pair_Validate k p = None" "s \<notin> set (nonVWAP q)"
  defines "base \<equiv> Asset_String (Base p)" and "quote \<equiv> Asset_String (Quote p)"
  shows "source_volume base_of s (filter (\<lambda>t. minute_of t = b) (market q p))
           = sum_list (map r_base_amount (bucket_rows q s base quote b)) + sum_list (map r_quote_amount (bucket_rows q s quote base b))"
    and "source_volume quote_of s (filter (\<lambda>t. minute_of t = b) (market q p))
           = sum_list (map r_quote_amount (bucket_rows q s base quote b)) + sum_list (map r_base_amount (bucket_rows q s quote base b))"
proof -
  have ne: "base \<noteq> quote" using pair_texts [OF assms(1,2)] by (simp add: base_def quote_def)
  let ?P = "\<lambda>x y r. r_source r = s \<and> r_base_asset r = x \<and> r_quote_asset r = y
               \<and> time_Truncate (r_ts r) go_minute = b \<and> 0 < r_base_amount r \<and> 0 < r_quote_amount r"
  have rows: "filter (\<lambda>r. (of_market q p r \<and> minute_of (oriented p r) = b) \<and> priceable (oriented p r) \<and> Source (oriented p r) = s) (trades_table q)
      = filter (\<lambda>r. ?P base quote r \<or> ?P quote base r) (trades_table q)"
  proof (rule filter_cong [OF refl])
    fix r
    have "priceable (oriented p r) \<longleftrightarrow> 0 < r_base_amount r \<and> 0 < r_quote_amount r"
      using oriented_forward [of r p] oriented_backward [of r p] by (cases "r_base_asset r = base") (auto simp: priceable_def base_def)
    then show "((of_market q p r \<and> minute_of (oriented p r) = b) \<and> priceable (oriented p r) \<and> Source (oriented p r) = s)
        \<longleftrightarrow> ?P base quote r \<or> ?P quote base r"
      using assms(3) by (auto simp: of_market_def base_def quote_def)
  qed
  have disj: "\<not> (?P base quote r \<and> ?P quote base r)" for r using ne by auto
  have legs: "(\<Sum>r\<leftarrow>bucket_rows q s base quote b. base_of (oriented p r)) = sum_list (map r_base_amount (bucket_rows q s base quote b))"
    "(\<Sum>r\<leftarrow>bucket_rows q s base quote b. quote_of (oriented p r)) = sum_list (map r_quote_amount (bucket_rows q s base quote b))"
    "(\<Sum>r\<leftarrow>bucket_rows q s quote base b. base_of (oriented p r)) = sum_list (map r_quote_amount (bucket_rows q s quote base b))"
    "(\<Sum>r\<leftarrow>bucket_rows q s quote base b. quote_of (oriented p r)) = sum_list (map r_base_amount (bucket_rows q s quote base b))"
    using ne oriented_forward [of _ p] oriented_backward [of _ p]
    by (auto intro!: arg_cong [where f = sum_list] simp: bucket_rows_def base_def quote_def)
  have "source_volume leg s (filter (\<lambda>t. minute_of t = b) (market q p))
      = (\<Sum>r\<leftarrow>filter (\<lambda>r. ?P base quote r \<or> ?P quote base r) (trades_table q). leg (oriented p r))" for leg
    unfolding rows [symmetric] by (simp add: source_volume_def market_def filter_map o_def conj_ac)
  then have "source_volume leg s (filter (\<lambda>t. minute_of t = b) (market q p))
      = (\<Sum>r\<leftarrow>bucket_rows q s base quote b. leg (oriented p r)) + (\<Sum>r\<leftarrow>bucket_rows q s quote base b. leg (oriented p r))" for leg
    unfolding sum_filter_disjoint [OF disj] bucket_rows_def .
  then show "source_volume base_of s (filter (\<lambda>t. minute_of t = b) (market q p))
           = sum_list (map r_base_amount (bucket_rows q s base quote b)) + sum_list (map r_quote_amount (bucket_rows q s quote base b))"
    "source_volume quote_of s (filter (\<lambda>t. minute_of t = b) (market q p))
           = sum_list (map r_quote_amount (bucket_rows q s base quote b)) + sum_list (map r_base_amount (bucket_rows q s quote base b))"
    by (simp_all add: legs)
qed

lemma err_list_InrD: "err_list f xs = Inr ys \<Longrightarrow> ys = map (\<lambda>x. projr (f x)) xs \<and> (\<forall>x \<in> set xs. f x = Inr (projr (f x)))"
  by (induction xs arbitrary: ys) (auto simp: returns)

lemma sum_of_positive: "xs \<noteq> [] \<Longrightarrow> (\<And>x. x \<in> set xs \<Longrightarrow> 0 < f x) \<Longrightarrow> 0 < sum_list (map f xs)" for f :: "'a \<Rightarrow> int"
proof (induction xs)
  case (Cons x xs)
  then show ?case by (cases "xs = []") (auto intro: add_pos_pos)
qed simp

text \<open>The rows of a source in a clean bucket, one stored direction.\<close>

lemma arm_bucket:
  assumes "materialised q" "sums_view q = Some vs" "clean q b" "from \<le> b" "b < to" "s \<notin> set (nonVWAP q)"
  shows "sum_list (map v_base_sum (filter (\<lambda>v. v_source v = s \<and> v_bucket v = b) (sums_arm q vs x y from to)))
           = sum_list (map r_base_amount (bucket_rows q s x y b))"
    and "sum_list (map v_quote_sum (filter (\<lambda>v. v_source v = s \<and> v_bucket v = b) (sums_arm q vs x y from to)))
           = sum_list (map r_quote_amount (bucket_rows q s x y b))"
    and "v \<in> set (sums_arm q vs x y from to) \<Longrightarrow> v_source v = s \<Longrightarrow> v_bucket v = b \<Longrightarrow> 0 < v_base_sum v \<and> 0 < v_quote_sum v"
proof -
  define kept where "kept = filter (\<lambda>v. v_source v = s \<and> v_base_asset v = x \<and> v_quote_asset v = y \<and> v_bucket v = b \<and> 0 < v_count v) vs"
  have eq: "filter (\<lambda>v. v_source v = s \<and> v_bucket v = b) (sums_arm q vs x y from to) = kept"
    unfolding kept_def sums_arm_def filter_filter using assms(4-6) by (intro filter_cong) auto
  have one: "if bucket_rows q s x y b = [] then kept = []
      else \<exists>v. kept = [v] \<and> v_base_sum v = sum_list (map r_base_amount (bucket_rows q s x y b))
             \<and> v_quote_sum v = sum_list (map r_quote_amount (bucket_rows q s x y b)) \<and> v_count v = int (length (bucket_rows q s x y b))"
    using assms(1-3) unfolding materialised_def Let_def kept_def by blast
  then show "sum_list (map v_base_sum (filter (\<lambda>v. v_source v = s \<and> v_bucket v = b) (sums_arm q vs x y from to)))
           = sum_list (map r_base_amount (bucket_rows q s x y b))"
    "sum_list (map v_quote_sum (filter (\<lambda>v. v_source v = s \<and> v_bucket v = b) (sums_arm q vs x y from to)))
           = sum_list (map r_quote_amount (bucket_rows q s x y b))"
    unfolding eq by (auto split: if_splits)
  assume "v \<in> set (sums_arm q vs x y from to)" "v_source v = s" "v_bucket v = b"
  then have "v \<in> set kept" unfolding eq [symmetric] by simp
  then have v: "bucket_rows q s x y b \<noteq> []" "v_base_sum v = sum_list (map r_base_amount (bucket_rows q s x y b))"
    "v_quote_sum v = sum_list (map r_quote_amount (bucket_rows q s x y b))"
    using one by (auto split: if_splits)
  have "\<forall>r \<in> set (bucket_rows q s x y b). 0 < r_base_amount r \<and> 0 < r_quote_amount r" by (simp add: bucket_rows_def)
  then show "0 < v_base_sum v \<and> 0 < v_quote_sum v"
    unfolding v(2,3) using v(1) by (intro conjI sum_of_positive) auto
qed

text \<open>What a read of the sums up to a trusted mark says about the market.\<close>

definition sums_ok :: "Trade list \<Rightarrow> gotime \<Rightarrow> gotime \<Rightarrow> TradeMinuteSum list \<Rightarrow> bool" where
  "sums_ok ms from to ss \<longleftrightarrow>
     (\<forall>x \<in> set ss. aligned (tm_Bucket x) \<and> from \<le> tm_Bucket x \<and> tm_Bucket x < to
        \<and> 0 < BigInt (BaseSum x) \<and> 0 < BigInt (QuoteSum x) \<and> 0 < MinPrice x) \<and>
     (\<forall>s b. aligned b \<and> from \<le> b \<and> b < to \<longrightarrow>
        sum_list (map (\<lambda>x. BigInt (BaseSum x)) (filter (\<lambda>x. tm_Source x = s \<and> tm_Bucket x = b) ss))
          = source_volume base_of s (filter (\<lambda>t. minute_of t = b) ms) \<and>
        sum_list (map (\<lambda>x. BigInt (QuoteSum x)) (filter (\<lambda>x. tm_Source x = s \<and> tm_Bucket x = b) ss))
          = source_volume quote_of s (filter (\<lambda>t. minute_of t = b) ms))"

lemma scan_sum_Inr:
  assumes "scan_sum (fwd, v) = Inr x"
  shows "tm_Source x = v_source v \<and> tm_Bucket x = v_bucket v \<and> 0 < MinPrice x \<and>
    BigInt (BaseSum x) = (if fwd then v_base_sum v else v_quote_sum v) \<and>
    BigInt (QuoteSum x) = (if fwd then v_quote_sum v else v_base_sum v)"
  using assms by (auto simp: scan_sum_def split: if_splits)

lemma mset_err_list_sort:
  assumes "err_list f (sort_key key xs) = Inr ys"
  shows "mset ys = image_mset (\<lambda>x. projr (f x)) (mset xs) \<and> (\<forall>x \<in> set xs. f x = Inr (projr (f x)))"
  using err_list_InrD [OF assms] by simp

lemma sum_list_mset_cong: "mset xs = mset ys \<Longrightarrow> sum_list (map f xs) = sum_list (map f ys)" for f :: "'a \<Rightarrow> int"
  by (metis mset_map sum_mset_sum_list)

lemma nonVWAP_absent: "s \<in> set (nonVWAP q) \<Longrightarrow> source_volume leg s (filter P (market q p)) = 0"
proof -
  assume "s \<in> set (nonVWAP q)"
  then have "filter (\<lambda>t. Source t = s) (priced (filter P (market q p))) = []"
    by (auto simp: market_def of_market_def filter_empty_conv)
  then show ?thesis by (simp add: source_volume_def)
qed

lemma sums_by_direction:
  fixes h :: "TradeMinuteSum \<Rightarrow> int"
  assumes "mset ss = image_mset g (mset (map (Pair True) as @ map (Pair False) bs))"
    "\<And>fwd v. (fwd, v) \<in> set (map (Pair True) as @ map (Pair False) bs) \<Longrightarrow>
       tm_Source (g (fwd, v)) = v_source v \<and> tm_Bucket (g (fwd, v)) = v_bucket v"
  shows "sum_list (map h (filter (\<lambda>z. tm_Source z = s \<and> tm_Bucket z = b) ss))
      = (\<Sum>v\<leftarrow>filter (\<lambda>v. v_source v = s \<and> v_bucket v = b) as. h (g (True, v)))
      + (\<Sum>v\<leftarrow>filter (\<lambda>v. v_source v = s \<and> v_bucket v = b) bs. h (g (False, v)))"
proof -
  let ?P = "\<lambda>z. tm_Source z = s \<and> tm_Bucket z = b" and ?Q = "\<lambda>v. v_source v = s \<and> v_bucket v = b"
  have "mset (filter ?P ss) = filter_mset ?P (mset (map g (map (Pair True) as @ map (Pair False) bs)))"
    using assms(1) by (simp del: map_append)
  then have "mset (filter ?P ss) = mset (filter ?P (map (\<lambda>v. g (True, v)) as @ map (\<lambda>v. g (False, v)) bs))"
    by (simp add: o_def)
  then have "sum_list (map h (filter ?P ss)) = sum_list (map h (filter ?P (map (\<lambda>v. g (True, v)) as @ map (\<lambda>v. g (False, v)) bs)))"
    by (rule sum_list_mset_cong)
  moreover have "filter (\<lambda>v. ?P (g (True, v))) as = filter ?Q as" "filter (\<lambda>v. ?P (g (False, v))) bs = filter ?Q bs"
    using assms(2) by (auto intro!: filter_cong)
  ultimately show ?thesis by (simp add: filter_map o_def)
qed

lemma TradeSums1mInRange_ok:
  assumes "strkey_ok k" "Pair_Validate k p = None" "materialised q" "TradeSums1mInRange q p from to = Inr (ss, w)"
    "to \<le> w" "aligned from" "aligned to"
  shows "sums_ok (market q p) from to ss"
proof -
  define x y where "x = Asset_String (Base p)" and "y = Asset_String (Quote p)"
  obtain vs where vs: "sums_view q = Some vs" using assms(4) by (auto simp: TradeSums1mInRange_def returns split: option.splits)
  let ?in = "map (Pair True) (sums_arm q vs x y from to) @ map (Pair False) (sums_arm q vs y x from to)"
  have mark: "trust_mark q from = Inr w" and
    out: "err_list scan_sum (sort_key (\<lambda>(_, v). (v_bucket v, collation q (v_source v))) ?in) = Inr ss"
    using assms(4) vs by (auto simp: TradeSums1mInRange_def Let_def returns x_def y_def)
  note io = mset_err_list_sort [OF out]
  have row: "scan_sum fv = Inr (projr (scan_sum fv))" if "fv \<in> set ?in" for fv using io that by blast
  have cl: "clean q b" if "aligned b" "from \<le> b" "b < to" for b
    using trust_mark_clean [OF mark assms(5-7) that] .
  have ends: "aligned (v_bucket v) \<and> from \<le> v_bucket v \<and> v_bucket v < to \<and> v_source v \<notin> set (nonVWAP q)"
    if "(fwd, v) \<in> set ?in" for fwd v
    using that assms(3) vs by (auto simp: sums_arm_def materialised_def)
  have pos: "0 < v_base_sum v \<and> 0 < v_quote_sum v" if "(fwd, v) \<in> set ?in" for fwd v
    using that ends [OF that] cl arm_bucket(3) [OF assms(3) vs _ _ _ _ _ refl refl, where v = v] by auto
  have elems: "aligned (tm_Bucket z) \<and> from \<le> tm_Bucket z \<and> tm_Bucket z < to
      \<and> 0 < BigInt (BaseSum z) \<and> 0 < BigInt (QuoteSum z) \<and> 0 < MinPrice z" if z: "z \<in> set ss" for z
  proof -
    have "z \<in># mset ss" using z by simp
    then have "z \<in> (\<lambda>fv. projr (scan_sum fv)) ` set ?in" unfolding io [THEN conjunct1] by (simp only: set_image_mset set_mset_mset)
    then obtain fwd v where v: "(fwd, v) \<in> set ?in" "z = projr (scan_sum (fwd, v))" by fast
    then show ?thesis using scan_sum_Inr [of fwd v z] row [OF v(1)] ends [OF v(1)] pos [OF v(1)] by simp
  qed
  have part: "sum_list (map h (filter (\<lambda>z. tm_Source z = s \<and> tm_Bucket z = b) ss))
      = (\<Sum>v\<leftarrow>filter (\<lambda>v. v_source v = s \<and> v_bucket v = b) (sums_arm q vs x y from to). h (projr (scan_sum (True, v))))
      + (\<Sum>v\<leftarrow>filter (\<lambda>v. v_source v = s \<and> v_bucket v = b) (sums_arm q vs y x from to). h (projr (scan_sum (False, v))))"
    for h :: "TradeMinuteSum \<Rightarrow> int" and s b
    by (rule sums_by_direction [OF io [THEN conjunct1]]) (use scan_sum_Inr row in fastforce)
  have volumes: "sum_list (map (\<lambda>z. BigInt (BaseSum z)) (filter (\<lambda>z. tm_Source z = s \<and> tm_Bucket z = b) ss))
        = source_volume base_of s (filter (\<lambda>t. minute_of t = b) (market q p)) \<and>
      sum_list (map (\<lambda>z. BigInt (QuoteSum z)) (filter (\<lambda>z. tm_Source z = s \<and> tm_Bucket z = b) ss))
        = source_volume quote_of s (filter (\<lambda>t. minute_of t = b) (market q p))"
    if b: "aligned b" "from \<le> b" "b < to" for s b
  proof (cases "s \<in> set (nonVWAP q)")
    case True
    then have "filter (\<lambda>v. v_source v = s \<and> v_bucket v = b) (sums_arm q vs u u' from to) = []" for u u'
      by (auto simp: sums_arm_def filter_empty_conv)
    then show ?thesis by (simp add: part nonVWAP_absent [OF True])
  next
    case False
    have legs: "(\<Sum>v\<leftarrow>filter P (sums_arm q vs x y from to). BigInt (BaseSum (projr (scan_sum (True, v))))) = sum_list (map v_base_sum (filter P (sums_arm q vs x y from to)))"
      "(\<Sum>v\<leftarrow>filter P (sums_arm q vs x y from to). BigInt (QuoteSum (projr (scan_sum (True, v))))) = sum_list (map v_quote_sum (filter P (sums_arm q vs x y from to)))"
      "(\<Sum>v\<leftarrow>filter P (sums_arm q vs y x from to). BigInt (BaseSum (projr (scan_sum (False, v))))) = sum_list (map v_quote_sum (filter P (sums_arm q vs y x from to)))"
      "(\<Sum>v\<leftarrow>filter P (sums_arm q vs y x from to). BigInt (QuoteSum (projr (scan_sum (False, v))))) = sum_list (map v_base_sum (filter P (sums_arm q vs y x from to)))" for P
      using scan_sum_Inr [OF row] by (auto intro!: arg_cong [where f = sum_list])
    show ?thesis
      using arm_bucket(1,2) [OF assms(3) vs cl [OF b] b(2,3) False] market_bucket [OF assms(1,2) False, folded x_def y_def]
      unfolding part legs by simp
  qed
  show ?thesis unfolding sums_ok_def using elems volumes by blast
qed

section \<open>The interface\<close>

text \<open>The store as the aggregator sees it; the second read is an optional interface in the code.\<close>

record trade_store =
  read_trades :: "Pair \<Rightarrow> gotime \<Rightarrow> gotime \<Rightarrow> int \<Rightarrow> error + Trade list"
  read_sums :: "(Pair \<Rightarrow> gotime \<Rightarrow> gotime \<Rightarrow> error + (TradeMinuteSum list \<times> gotime)) option"

text \<open>
  What the two reads promise about the trades \<open>whole p\<close> of a market: a limited read is the newest part of the
  range, and sums up to the returned mark are those of the market.
\<close>

locale capped_trades =
  fixes st :: trade_store and whole :: "Pair \<Rightarrow> Trade list" and good :: "Pair \<Rightarrow> bool"
  assumes trades_top: "good p \<Longrightarrow> read_trades st p f t n = Inr ts \<Longrightarrow> 0 < n \<Longrightarrow> n \<le> MaxTradesInRangeLimit \<Longrightarrow>
      top_part Timestamp (nat n) ts (mset (filter (in_range f t) (whole p)))"
    and sums_market: "good p \<Longrightarrow> read_sums st = Some rd \<Longrightarrow> rd p f t = Inr (ss, w) \<Longrightarrow> t \<le> w \<Longrightarrow> aligned f \<Longrightarrow> aligned t \<Longrightarrow>
      sums_ok (whole p) f t ss"

definition pg_store :: "sdk \<Rightarrow> pg \<Rightarrow> trade_store" where
  "pg_store k q = \<lparr>read_trades = TradesInRange k q, read_sums = Some (TradeSums1mInRange q)\<rparr>"

definition pg_good :: "sdk \<Rightarrow> pg \<Rightarrow> Pair \<Rightarrow> bool" where
  "pg_good k q p \<longleftrightarrow> strkey_ok k \<and> materialised q \<and> Pair_Validate k p = None"

interpretation timescale: capped_trades "pg_store k q" "market q" "pg_good k q" for k q
proof
  fix p f t n ts
  assume "pg_good k q p" "read_trades (pg_store k q) p f t n = Inr ts" "0 < n" "n \<le> MaxTradesInRangeLimit"
  then show "top_part Timestamp (nat n) ts (mset (filter (in_range f t) (market q p)))"
    using TradesInRange_top [of k p q f t n ts] by (simp add: pg_good_def pg_store_def range_limit_def Let_def)
next
  fix p rd f t ss w
  assume "pg_good k q p" "read_sums (pg_store k q) = Some rd" "rd p f t = Inr (ss, w)" "t \<le> w" "aligned f" "aligned t"
  then show "sums_ok (market q p) f t ss"
    using TradeSums1mInRange_ok [of k p q f t ss w] by (auto simp: pg_good_def pg_store_def)
qed

end
