(* ===== verification/WindowCoverage.thy ===== *)
theory WindowCoverage
  imports TradeReads GoTime
begin

text \<open>
  \<open>internal/aggregate/orchestrator/window_coverage.go\<close>: the read of a window's trades under a row cap. When
  the cap was hit, the older part is replaced by one row for each source and minute from the stored minute
  sums; minutes with a wide price spread are read again trade by trade, and what cannot be resolved ends the
  coverage there. The registry of sources is an argument. A division by zero is a panic, \<open>None\<close>. The
  warning and its counter are left out.
\<close>

section \<open>Configuration\<close>

text \<open>The fields of a registry record that pricing reads.\<close>

record source_meta =
  md_Class :: string
  md_Subclass :: string
  IncludeInVWAP :: bool
  AmountDecimals :: int

definition ClassExchange :: string where
  "ClassExchange = ''exchange''"

record coverage_config =
  MaxTradesPerWindow :: int
  OutlierSigmaThreshold :: f64
  ExcludedSources :: "string list"
  DisableClassFilter :: bool
  external_Lookup :: "string \<Rightarrow> source_meta"

definition tradeSumsHorizon :: duration where
  "tradeSumsHorizon = 25 * go_hour"

definition minuteRawBudget :: nat where
  "minuteRawBudget = 10"

definition minuteSumTxPrefix :: string where
  "minuteSumTxPrefix = ''sum1m:''"

section \<open>Minute rows\<close>

record minuteRow =
  mr_source :: string
  mr_bucket :: gotime
  mr_base :: int
  mr_quote :: int
  mr_count :: int
  mr_lo :: rat
  mr_hi :: rat
  mr_wide :: bool

definition minute_key :: "string \<Rightarrow> gotime \<Rightarrow> string" where
  "minute_key source bucket = source @ ''|'' @ Format_RFC3339 bucket"

definition new_row :: "TradeMinuteSum \<Rightarrow> minuteRow" where
  "new_row s =
     \<lparr>mr_source = tm_Source s, mr_bucket = tm_Bucket s, mr_base = 0, mr_quote = 0, mr_count = 0,
      mr_lo = MinPrice s, mr_hi = MaxPrice s, mr_wide = False\<rparr>"

definition add_sum :: "TradeMinuteSum \<Rightarrow> minuteRow \<Rightarrow> minuteRow" where
  "add_sum s r =
     r\<lparr>mr_base := mr_base r + BigInt (BaseSum s), mr_quote := mr_quote r + BigInt (QuoteSum s),
       mr_count := wrap64 (mr_count r + tm_Count s),
       mr_lo := (if MinPrice s < mr_lo r then MinPrice s else mr_lo r),
       mr_hi := (if mr_hi r < MaxPrice s then MaxPrice s else mr_hi r)\<rparr>"

text \<open>A row is found by its key; a key seen for the first time appends its row.\<close>

fun fold_row :: "TradeMinuteSum \<Rightarrow> minuteRow list \<Rightarrow> minuteRow list" where
  "fold_row s [] = [add_sum s (new_row s)]"
| "fold_row s (r # rs) =
     (if minute_key (mr_source r) (mr_bucket r) = minute_key (tm_Source s) (tm_Bucket s)
      then add_sum s r # rs else r # fold_row s rs)"

definition foldMinuteSums :: "TradeMinuteSum list \<Rightarrow> minuteRow list" where
  "foldMinuteSums ms = sort_key mr_bucket (fold fold_row ms [])"

section \<open>Wide minutes\<close>

definition minuteSpreadBand :: "coverage_config \<Rightarrow> rat option" where
  "minuteSpreadBand cfg =
     (if OutlierSigmaThreshold cfg \<le> FFin 0 then None
      else map_option (\<lambda>sigma. sigma / 400) (SetFloat64 (OutlierSigmaThreshold cfg)))"

definition spreadExceeds :: "rat \<Rightarrow> rat \<Rightarrow> rat \<Rightarrow> bool option" where
  "spreadExceeds lo hi band = (if lo = 0 then None else let r = hi / lo; rm1 = r - 1 in Some (band < r * rm1))"

definition votesInVWAP :: "coverage_config \<Rightarrow> string \<Rightarrow> bool" where
  "votesInVWAP cfg source =
     (if source \<in> set (ExcludedSources cfg) then False
      else if DisableClassFilter cfg then True
      else let md = external_Lookup cfg source in md_Class md = ClassExchange \<and> IncludeInVWAP md)"

fun wide_loop :: "coverage_config \<Rightarrow> rat \<Rightarrow> minuteRow list \<Rightarrow> gotime list \<Rightarrow> gotime list option" where
  "wide_loop cfg band [] wide = Some wide"
| "wide_loop cfg band (r # rows) wide =
     (if \<not> votesInVWAP cfg (mr_source r) then wide_loop cfg band rows wide
      else case spreadExceeds (mr_lo r) (mr_hi r) band of
        None \<Rightarrow> None
      | Some exceeds \<Rightarrow> wide_loop cfg band rows (if exceeds then List.insert (mr_bucket r) wide else wide))"

fun reread_loop ::
  "trade_store \<Rightarrow> coverage_config \<Rightarrow> Pair \<Rightarrow> nat \<Rightarrow> gotime list \<Rightarrow> Trade list \<Rightarrow> gotime \<times> Trade list" where
  "reread_loop st cfg fetch i [] extra = (0, extra)"
| "reread_loop st cfg fetch i (b # bs) extra =
     (if minuteRawBudget \<le> i then (b + go_minute, extra)
      else case read_trades st fetch b (b + go_minute) (MaxTradesPerWindow cfg) of
        Inl e \<Rightarrow> (b + go_minute, extra)
      | Inr t \<Rightarrow>
          if MaxTradesPerWindow cfg \<le> int (length t) then (b + go_minute, extra)
          else reread_loop st cfg fetch (i + 1) bs (extra @ t))"

definition resolveWideMinutes ::
  "trade_store \<Rightarrow> coverage_config \<Rightarrow> Pair \<Rightarrow> minuteRow list \<Rightarrow> (minuteRow list \<times> gotime \<times> Trade list) option" where
  "resolveWideMinutes st cfg fetch rows =
     (case minuteSpreadBand cfg of
        None \<Rightarrow> Some (rows, 0, [])
      | Some band \<Rightarrow>
          map_option (\<lambda>wide.
            (map (\<lambda>r. r\<lparr>mr_wide := mr_bucket r \<in> set wide\<rparr>) rows, reread_loop st cfg fetch 0 (rev (sort wide)) []))
            (wide_loop cfg band rows []))"

section \<open>Filling a capped read\<close>

text \<open>The count by trade identifier; a later assignment stands in front.\<close>

type_synonym weights = "(string \<times> int) list"

definition minute_trade :: "Pair \<Rightarrow> minuteRow \<Rightarrow> Trade" where
  "minute_trade fetch r =
     \<lparr>Source = mr_source r, Ledger = 0, TxHash = minuteSumTxPrefix @ Pair_String fetch, OpIndex = 0,
      Timestamp = mr_bucket r, TPair = fetch, BaseAmount = NewAmount (Some (mr_base r)),
      QuoteAmount = NewAmount (Some (mr_quote r)), Maker = [], Taker = [], RoutedVia = []\<rparr>"

text \<open>The outer \<open>None\<close> is a panic, the inner one \<open>ok = false\<close>.\<close>

definition fillFromMinuteSums ::
  "trade_store \<Rightarrow> coverage_config \<Rightarrow> Pair \<Rightarrow> gotime \<Rightarrow> gotime \<Rightarrow> Trade list \<Rightarrow> gotime \<Rightarrow>
   (Trade list \<times> weights \<times> gotime) option option" where
  "fillFromMinuteSums st cfg fetch from to raw coveredFrom =
     (case read_sums st of
        None \<Rightarrow> Some None
      | Some sums_of \<Rightarrow>
          if tradeSumsHorizon < time_Sub to from \<or> from \<noteq> time_Truncate from go_minute then Some None
          else let m = time_Truncate coveredFrom go_minute + go_minute in
            if to < m then Some None
            else case sums_of fetch from m of
              Inl e \<Rightarrow> Some None
            | Inr (ms, watermark) \<Rightarrow>
                if watermark < m then Some None
                else map_option (\<lambda>(rows, cut, extra).
                  let kept = filter (\<lambda>r. \<not> (mr_bucket r < cut \<or> mr_wide r)) rows;
                      weights = rev (map (\<lambda>r. (Trade_ID (minute_trade fetch r), mr_count r)) kept);
                      trades = map (minute_trade fetch) kept @ filter (\<lambda>t. \<not> Timestamp t < cut) extra
                                 @ filter (\<lambda>t. \<not> Timestamp t < m) raw in
                  Some (sort_key Timestamp trades, weights, cut))
                  (resolveWideMinutes st cfg fetch (foldMinuteSums ms)))"

fun oldest :: "gotime \<Rightarrow> Trade list \<Rightarrow> gotime" where
  "oldest coveredFrom [] = coveredFrom"
| "oldest coveredFrom (t # ts) = oldest (if Timestamp t < coveredFrom then Timestamp t else coveredFrom) ts"

text \<open>The trades, the counts of the minute rows and the start of coverage, zero when the window is whole.\<close>

definition fetchTradesDetectTruncation ::
  "trade_store \<Rightarrow> coverage_config \<Rightarrow> Pair \<Rightarrow> gotime \<Rightarrow> gotime \<Rightarrow> (error + (Trade list \<times> weights \<times> gotime)) option" where
  "fetchTradesDetectTruncation st cfg fetch from to =
     (case read_trades st fetch from to (MaxTradesPerWindow cfg) of
        Inl e \<Rightarrow> Some (Inl e)
      | Inr t \<Rightarrow>
          if length t = 0 \<or> int (length t) < MaxTradesPerWindow cfg then Some (Inr (t, [], 0))
          else let coveredFrom = oldest (Timestamp (hd t)) t in
            map_option (\<lambda>fill. case fill of
                Some (filled, w, cf) \<Rightarrow> Inr (filled, w, cf)
              | None \<Rightarrow> Inr (t, [], coveredFrom))
              (fillFromMinuteSums st cfg fetch from to t coveredFrom))"

record WindowCoverage =
  wc_Truncated :: bool
  wc_CoveredFrom :: gotime

definition widenCoverage :: "WindowCoverage \<Rightarrow> gotime \<Rightarrow> WindowCoverage" where
  "widenCoverage c coveredFrom =
     (if time_IsZero coveredFrom then c
      else if \<not> wc_Truncated c \<or> wc_CoveredFrom c < coveredFrom then \<lparr>wc_Truncated = True, wc_CoveredFrom = coveredFrom\<rparr>
      else c)"

section \<open>Volumes by source\<close>

lemma source_volume_append [simp]: "source_volume leg s (xs @ ys) = source_volume leg s xs + source_volume leg s ys"
  by (simp add: source_volume_def)

lemma source_volume_Nil [simp]: "source_volume leg s [] = 0"
  by (simp add: source_volume_def)

lemma source_volume_mset: "mset xs = mset ys \<Longrightarrow> source_volume leg s xs = source_volume leg s ys"
  unfolding source_volume_def by (intro sum_list_mset_cong) (metis mset_filter)

lemma source_volume_split:
  "source_volume leg s xs = source_volume leg s (filter P xs) + source_volume leg s (filter (\<lambda>t. \<not> P t) xs)"
proof -
  have "mset xs = mset (filter P xs @ filter (\<lambda>t. \<not> P t) xs)" by simp
  then have "source_volume leg s xs = source_volume leg s (filter P xs @ filter (\<lambda>t. \<not> P t) xs)" by (rule source_volume_mset)
  then show ?thesis by simp
qed

lemma whole_units_by_source:
  assumes "finite S" "Source ` set ts \<subseteq> S"
  shows "(\<Sum>t\<leftarrow>priced ts. whole_units dec t (leg t)) = (\<Sum>s\<in>S. of_int (source_volume leg s ts) / 10 powi dec s)"
  using assms(2)
proof (induction ts)
  case (Cons t ts)
  have "(\<Sum>s\<in>S. of_int (source_volume leg s (t # ts)) / 10 powi dec s)
      = (\<Sum>s\<in>S. (of_int (source_volume leg s ts) / 10 powi dec s :: rat) + (if Source t = s then if priceable t then of_int (leg t) / 10 powi dec s else 0 else 0))"
    by (intro sum.cong) (auto simp: source_volume_def add_divide_distrib add.commute)
  then show ?case
    using Cons assms(1) by (simp add: sum.distrib sum.delta' whole_units_def)
qed (simp add: assms)

lemma source_volume_filter: "source_volume leg s (filter (\<lambda>t. P (Source t)) ts) = (if P s then source_volume leg s ts else 0)"
  by (induction ts) (auto simp: source_volume_def)

lemma priced_empty_iff: "priced ts = [] \<longleftrightarrow> (\<forall>s. source_volume base_of s ts = 0)"
proof
  assume z: "\<forall>s. source_volume base_of s ts = 0"
  show "priced ts = []"
  proof (rule ccontr)
    assume "priced ts \<noteq> []"
    then obtain t where t: "t \<in> set ts" "priceable t" by (auto simp: filter_empty_conv)
    then have "0 < source_volume base_of (Source t) ts"
      unfolding source_volume_def by (intro sum_of_positive) (auto simp: filter_empty_conv priceable_def)
    then show False using z by simp
  qed
qed (simp add: source_volume_def)

text \<open>Lists with the same volumes by source have the same price, under every choice of sources and of scales.\<close>

definition same_volumes :: "Trade list \<Rightarrow> Trade list \<Rightarrow> bool" where
  "same_volumes xs ys \<longleftrightarrow>
     (\<forall>s. source_volume base_of s xs = source_volume base_of s ys \<and> source_volume quote_of s xs = source_volume quote_of s ys)"

lemma same_volumes_filter: "same_volumes xs ys \<Longrightarrow> same_volumes (filter (\<lambda>t. P (Source t)) xs) (filter (\<lambda>t. P (Source t)) ys)"
  by (simp add: same_volumes_def source_volume_filter)

lemma same_volumes_VWAP:
  assumes "same_volumes xs ys"
  shows "VWAP (NormalizeAmountScale xs dec) = VWAP (NormalizeAmountScale ys dec)"
proof -
  let ?S = "Source ` set (xs @ ys)"
  have "priced xs = [] \<longleftrightarrow> priced ys = []" using assms by (simp add: priced_empty_iff same_volumes_def)
  moreover have "(\<Sum>t\<leftarrow>priced xs. whole_units dec t (leg t)) = (\<Sum>t\<leftarrow>priced ys. whole_units dec t (leg t))"
    if "\<And>s. source_volume leg s xs = source_volume leg s ys" for leg
    using whole_units_by_source [of ?S xs dec leg] whole_units_by_source [of ?S ys dec leg] that by (simp add: image_mono)
  ultimately show ?thesis using assms by (simp add: VWAP_normalized same_volumes_def)
qed

lemma sum_over_keys:
  fixes f :: "'a \<Rightarrow> int"
  assumes "finite B"
  shows "(\<Sum>b\<in>B. sum_list (map f (filter (\<lambda>x. key x = b \<and> P x) xs))) = sum_list (map f (filter (\<lambda>x. key x \<in> B \<and> P x) xs))"
proof (induction xs)
  case (Cons x xs)
  have "(\<Sum>b\<in>B. sum_list (map f (filter (\<lambda>x. key x = b \<and> P x) (x # xs))))
      = (\<Sum>b\<in>B. sum_list (map f (filter (\<lambda>x. key x = b \<and> P x) xs)) + (if key x = b then if P x then f x else 0 else 0))"
    by (intro sum.cong) auto
  also have "\<dots> = sum_list (map f (filter (\<lambda>x. key x \<in> B \<and> P x) (x # xs)))"
    using Cons assms by (simp add: sum.distrib sum.delta')
  finally show ?case .
qed simp

lemma volume_by_minute:
  assumes "finite B"
  shows "(\<Sum>b\<in>B. source_volume leg s (filter (\<lambda>t. minute_of t = b) ts)) = source_volume leg s (filter (\<lambda>t. minute_of t \<in> B) ts)"
  using sum_over_keys [OF assms, of leg minute_of "\<lambda>t. priceable t \<and> Source t = s" ts]
  by (simp add: source_volume_def conj_ac)

section \<open>Folding the sums\<close>

lemma Format_RFC3339_no_bar: "CHR ''|'' \<notin> set (Format_RFC3339 t)"
proof -
  have "CHR ''|'' \<notin> set (pad w n)" for w n using pad_digits [of "CHR ''|''"] by (auto simp: is_digit_char_def)
  then show ?thesis by (simp add: Format_RFC3339_def Let_def case_prod_beta)
qed

lemma minute_key_inject:
  assumes "aligned b" "aligned c" "0 \<le> b" "0 \<le> c"
  shows "minute_key s b = minute_key t c \<longleftrightarrow> s = t \<and> b = c"
proof
  assume eq: "minute_key s b = minute_key t c"
  have tail: "takeWhile (\<lambda>x. x \<noteq> CHR ''|'') (rev (u @ ''|'' @ v)) = rev v" "dropWhile (\<lambda>x. x \<noteq> CHR ''|'') (rev (u @ ''|'' @ v)) = CHR ''|'' # rev u"
    if "CHR ''|'' \<notin> set v" for u v :: string
    using that by (simp_all, subst takeWhile_append2, auto, subst dropWhile_append2, auto)
  have f: "Format_RFC3339 b = Format_RFC3339 c" "s = t"
    using arg_cong [OF eq, of "\<lambda>x. takeWhile (\<lambda>x. x \<noteq> CHR ''|'') (rev x)"] arg_cong [OF eq, of "\<lambda>x. dropWhile (\<lambda>x. x \<noteq> CHR ''|'') (rev x)"]
    unfolding minute_key_def tail [OF Format_RFC3339_no_bar] by simp_all
  then have sec: "b div 1000000000 = c div 1000000000" using Format_RFC3339_inject [OF assms(3,4), of "[]" "[]"] by simp
  have "1000000000 dvd b" "1000000000 dvd c"
    using assms(1,2) dvd_trans [of 1000000000 go_minute] by (auto simp: aligned_dvd go_minute_value)
  then have "b = c" using sec by (metis dvd_mult_div_cancel)
  then show "s = t \<and> b = c" using f(2) by simp
qed simp

abbreviation row_key :: "minuteRow \<Rightarrow> string \<times> gotime" where
  "row_key r \<equiv> (mr_source r, mr_bucket r)"

abbreviation sum_key :: "TradeMinuteSum \<Rightarrow> string \<times> gotime" where
  "sum_key x \<equiv> (tm_Source x, tm_Bucket x)"

definition bucket_ok :: "gotime \<Rightarrow> bool" where
  "bucket_ok b \<longleftrightarrow> aligned b \<and> 0 \<le> b"

lemma fold_row_keys:
  assumes "bucket_ok (tm_Bucket x)" "\<forall>r \<in> set rows. bucket_ok (mr_bucket r)"
  shows "map row_key (fold_row x rows) = (if sum_key x \<in> set (map row_key rows) then map row_key rows else map row_key rows @ [sum_key x])"
  using assms
proof (induction rows)
  case (Cons r rows)
  then show ?case
    using minute_key_inject [of "mr_bucket r" "tm_Bucket x" "mr_source r" "tm_Source x"] by (auto simp: bucket_ok_def add_sum_def)
qed (simp add: add_sum_def new_row_def)

lemma fold_row_sums:
  assumes "\<And>r. leg (add_sum x r) = leg r + amt x" "leg (new_row x) = (0 :: int)"
    and "bucket_ok (tm_Bucket x)" "\<forall>r \<in> set rows. bucket_ok (mr_bucket r)"
  shows "sum_list (map leg (filter (\<lambda>r. row_key r = k) (fold_row x rows)))
           = sum_list (map leg (filter (\<lambda>r. row_key r = k) rows)) + (if sum_key x = k then amt x else 0)"
  using assms(4)
proof (induction rows)
  case Nil
  then show ?case using assms(1) [of "new_row x"] assms(2) by (simp add: add_sum_def new_row_def)
next
  case (Cons r rows)
  have key: "minute_key (mr_source r) (mr_bucket r) = minute_key (tm_Source x) (tm_Bucket x) \<longleftrightarrow> row_key r = sum_key x"
    using Cons.prems assms(3) minute_key_inject [of "mr_bucket r" "tm_Bucket x" "mr_source r" "tm_Source x"] by (auto simp: bucket_ok_def)
  have "row_key (add_sum x r) = row_key r" by (simp add: add_sum_def)
  then show ?case using Cons assms(1) [of r] by (auto simp: key)
qed

lemma fold_row_elems:
  assumes "0 < BigInt (BaseSum x)" "0 < BigInt (QuoteSum x)" "0 < MinPrice x"
    "\<forall>r \<in> set rows. 0 < mr_base r \<and> 0 < mr_quote r \<and> 0 < mr_lo r \<and> \<not> mr_wide r"
  shows "\<forall>r \<in> set (fold_row x rows). 0 < mr_base r \<and> 0 < mr_quote r \<and> 0 < mr_lo r \<and> \<not> mr_wide r"
  using assms by (induction rows) (auto simp: add_sum_def new_row_def)

text \<open>What the folded rows are, given sums that are sound for a range from \<open>lo\<close> to \<open>hi\<close>.\<close>

definition rows_ok :: "gotime \<Rightarrow> gotime \<Rightarrow> TradeMinuteSum list \<Rightarrow> minuteRow list \<Rightarrow> bool" where
  "rows_ok lo hi ms rows \<longleftrightarrow> distinct (map row_key rows) \<and>
     (\<forall>r \<in> set rows. bucket_ok (mr_bucket r) \<and> lo \<le> mr_bucket r \<and> mr_bucket r < hi \<and> 0 < mr_base r \<and> 0 < mr_quote r \<and> 0 < mr_lo r \<and> \<not> mr_wide r) \<and>
     (\<forall>k. sum_list (map mr_base (filter (\<lambda>r. row_key r = k) rows)) = sum_list (map (\<lambda>x. BigInt (BaseSum x)) (filter (\<lambda>x. sum_key x = k) ms)) \<and>
          sum_list (map mr_quote (filter (\<lambda>r. row_key r = k) rows)) = sum_list (map (\<lambda>x. BigInt (QuoteSum x)) (filter (\<lambda>x. sum_key x = k) ms)))"

definition sum_ok :: "gotime \<Rightarrow> gotime \<Rightarrow> TradeMinuteSum \<Rightarrow> bool" where
  "sum_ok lo hi x \<longleftrightarrow> bucket_ok (tm_Bucket x) \<and> lo \<le> tm_Bucket x \<and> tm_Bucket x < hi
     \<and> 0 < BigInt (BaseSum x) \<and> 0 < BigInt (QuoteSum x) \<and> 0 < MinPrice x"

lemma rows_ok_step:
  assumes "rows_ok lo hi ms rows" "sum_ok lo hi x"
  shows "rows_ok lo hi (ms @ [x]) (fold_row x rows)"
proof -
  have b: "bucket_ok (tm_Bucket x)" "\<forall>r \<in> set rows. bucket_ok (mr_bucket r)" using assms by (auto simp: rows_ok_def sum_ok_def)
  note keys = fold_row_keys [OF b]
  have "row_key ` set (fold_row x rows) \<subseteq> insert (sum_key x) (row_key ` set rows)"
    using arg_cong [OF keys, of set] by (auto split: if_splits)
  then have "\<forall>r \<in> set (fold_row x rows). bucket_ok (mr_bucket r) \<and> lo \<le> mr_bucket r \<and> mr_bucket r < hi"
    using assms by (fastforce simp: rows_ok_def sum_ok_def)
  moreover have "distinct (map row_key (fold_row x rows))" unfolding keys using assms(1) by (auto simp: rows_ok_def)
  moreover have "\<forall>r \<in> set (fold_row x rows). 0 < mr_base r \<and> 0 < mr_quote r \<and> 0 < mr_lo r \<and> \<not> mr_wide r"
    using assms by (intro fold_row_elems) (auto simp: rows_ok_def sum_ok_def)
  moreover note fold_row_sums [where leg = mr_base and amt = "\<lambda>x. BigInt (BaseSum x)" and x = x, OF _ _ b]
    fold_row_sums [where leg = mr_quote and amt = "\<lambda>x. BigInt (QuoteSum x)" and x = x, OF _ _ b]
  ultimately show ?thesis using assms(1) by (simp add: rows_ok_def add_sum_def new_row_def)
qed

lemma rows_ok_perm:
  assumes "rows_ok lo hi ms rows" "mset rows' = mset rows"
  shows "rows_ok lo hi ms rows'"
proof -
  have "set rows' = set rows" "distinct (map row_key rows') \<longleftrightarrow> distinct (map row_key rows)"
    using assms(2) by (auto dest: mset_eq_setD intro!: mset_eq_imp_distinct_iff)
  moreover have "sum_list (map f (filter P rows')) = sum_list (map f (filter P rows))" for f :: "minuteRow \<Rightarrow> int" and P
    using assms(2) by (intro sum_list_mset_cong) simp
  ultimately show ?thesis using assms(1) unfolding rows_ok_def by presburger
qed

lemma foldMinuteSums_ok: "(\<And>x. x \<in> set ms \<Longrightarrow> sum_ok lo hi x) \<Longrightarrow> rows_ok lo hi ms (foldMinuteSums ms)"
proof -
  have "(\<And>x. x \<in> set ms \<Longrightarrow> sum_ok lo hi x) \<Longrightarrow> rows_ok lo hi ms (fold fold_row ms [])"
  proof (induction ms rule: rev_induct)
    case (snoc x ms)
    then show ?case by (simp add: rows_ok_step)
  qed (simp add: rows_ok_def)
  then show "(\<And>x. x \<in> set ms \<Longrightarrow> sum_ok lo hi x) \<Longrightarrow> rows_ok lo hi ms (foldMinuteSums ms)"
    by (rule rows_ok_perm) (simp_all add: foldMinuteSums_def)
qed

lemma wide_loop_total:
  assumes "\<forall>r \<in> set rows. 0 < mr_lo r"
  shows "\<exists>w. wide_loop cfg band rows wide = Some w \<and> set wide \<subseteq> set w \<and> set w \<subseteq> set wide \<union> mr_bucket ` set rows \<and> (distinct wide \<longrightarrow> distinct w)"
  using assms
proof (induction rows arbitrary: wide)
  case (Cons r rows)
  have "\<exists>e. spreadExceeds (mr_lo r) (mr_hi r) band = Some e" using Cons.prems by (simp add: spreadExceeds_def Let_def)
  then obtain e where e: "spreadExceeds (mr_lo r) (mr_hi r) band = Some e" by blast
  define wide1 where "wide1 = (if votesInVWAP cfg (mr_source r) \<and> e then List.insert (mr_bucket r) wide else wide)"
  have "wide_loop cfg band (r # rows) wide = wide_loop cfg band rows wide1" using e by (simp add: wide1_def)
  moreover have "set wide \<subseteq> set wide1" "set wide1 \<subseteq> insert (mr_bucket r) (set wide)" "distinct wide \<longrightarrow> distinct wide1"
    by (auto simp: wide1_def)
  moreover obtain w where "wide_loop cfg band rows wide1 = Some w" "set wide1 \<subseteq> set w" "set w \<subseteq> set wide1 \<union> mr_bucket ` set rows"
    "distinct wide1 \<longrightarrow> distinct w"
    using Cons.IH [of wide1] Cons.prems by auto
  ultimately show ?case by auto
qed simp

section \<open>Reading wide minutes again\<close>

abbreviation minute_trades :: "Trade list \<Rightarrow> gotime \<Rightarrow> Trade list" where
  "minute_trades ts b \<equiv> filter (\<lambda>t. minute_of t = b) ts"

lemma in_range_minute: "aligned b \<Longrightarrow> in_range b (b + go_minute) t \<longleftrightarrow> minute_of t = b"
  by (simp add: in_range_def truncate_minute)

lemma aligned_truncate: "aligned (time_Truncate t go_minute)"
  using truncate_minute by blast

lemma minute_between:
  assumes "aligned lo"
  shows "lo \<le> minute_of t \<longleftrightarrow> lo \<le> Timestamp t" "minute_of t < lo \<longleftrightarrow> Timestamp t < lo"
proof -
  have t: "minute_of t \<le> Timestamp t" "Timestamp t < minute_of t + go_minute" "aligned (minute_of t)"
    using truncate_minute [of "Timestamp t" "minute_of t"] by auto
  have "lo \<le> minute_of t \<or> minute_of t + go_minute \<le> lo" using aligned_gap [OF t(3) assms] by linarith
  then show "lo \<le> minute_of t \<longleftrightarrow> lo \<le> Timestamp t" "minute_of t < lo \<longleftrightarrow> Timestamp t < lo"
    using t(1,2) by auto
qed

definition cap_ok :: "coverage_config \<Rightarrow> bool" where
  "cap_ok cfg \<longleftrightarrow> 0 < MaxTradesPerWindow cfg \<and> MaxTradesPerWindow cfg \<le> MaxTradesInRangeLimit"

context capped_trades
begin

text \<open>A read below the cap is the whole minute.\<close>

lemma read_minute:
  assumes "good p" "cap_ok cfg" "aligned b" "read_trades st p b (b + go_minute) (MaxTradesPerWindow cfg) = Inr t"
    "int (length t) < MaxTradesPerWindow cfg"
  shows "mset t = mset (minute_trades (whole p) b)"
proof -
  have "top_part Timestamp (nat (MaxTradesPerWindow cfg)) t (mset (filter (in_range b (b + go_minute)) (whole p)))"
    using trades_top assms(1,2,4) by (simp add: cap_ok_def)
  moreover have "length t < nat (MaxTradesPerWindow cfg)" using assms(5) by simp
  ultimately show ?thesis unfolding top_part_def using in_range_minute [OF assms(3)] by auto
qed

lemma reread_volume:
  assumes "good p" "cap_ok cfg" "\<forall>b \<in> set bs. bucket_ok b" "sorted_wrt (>) bs"
    "reread_loop st cfg p i bs extra = (edge, extra')"
  shows "bucket_ok edge" "edge = 0 \<or> (\<exists>b \<in> set bs. edge = b + go_minute)"
    "source_volume leg s (filter (\<lambda>t. \<not> Timestamp t < edge) extra')
       = source_volume leg s (filter (\<lambda>t. \<not> Timestamp t < edge) extra) + (\<Sum>b\<leftarrow>filter (\<lambda>b. edge \<le> b) bs. source_volume leg s (minute_trades (whole p) b))"
proof -
  have "bucket_ok edge \<and> (edge = 0 \<or> (\<exists>b \<in> set bs. edge = b + go_minute)) \<and>
    source_volume leg s (filter (\<lambda>t. \<not> Timestamp t < edge) extra')
       = source_volume leg s (filter (\<lambda>t. \<not> Timestamp t < edge) extra) + (\<Sum>b\<leftarrow>filter (\<lambda>b. edge \<le> b) bs. source_volume leg s (minute_trades (whole p) b))"
    using assms(3-)
  proof (induction bs arbitrary: i extra)
    case (Cons b bs)
    have b: "bucket_ok b" "bucket_ok (b + go_minute)" "filter (\<lambda>c. b + go_minute \<le> c) (b # bs) = []"
      using Cons.prems(1,2) aligned_next by (auto simp: bucket_ok_def go_minute_value filter_empty_conv)
    show ?case
    proof (cases "minuteRawBudget \<le> i \<or> isl (read_trades st p b (b + go_minute) (MaxTradesPerWindow cfg)) \<or>
        MaxTradesPerWindow cfg \<le> int (length (projr (read_trades st p b (b + go_minute) (MaxTradesPerWindow cfg))))")
      case True
      then have "edge = b + go_minute" "extra' = extra" using Cons.prems(3) by (auto split: if_splits sum.splits)
      then show ?thesis using b by simp
    next
      case False
      then obtain t where t: "read_trades st p b (b + go_minute) (MaxTradesPerWindow cfg) = Inr t" "int (length t) < MaxTradesPerWindow cfg"
        by (auto simp: not_le) (metis sum.collapse(2) sum.disc(1) not_le)
      then have rec: "reread_loop st cfg p (i + 1) bs (extra @ t) = (edge, extra')" using False Cons.prems(3) by (auto split: if_splits)
      note IH = Cons.IH [OF _ _ rec]
      have edge: "edge \<le> b" using IH Cons.prems(1,2) aligned_gap b(1) by (fastforce simp: bucket_ok_def)
      have "mset t = mset (minute_trades (whole p) b)" using read_minute [OF assms(1,2) _ t] b(1) by (simp add: bucket_ok_def)
      moreover have "\<forall>x \<in> set (minute_trades (whole p) b). \<not> Timestamp x < edge"
        using edge truncate_minute by fastforce
      ultimately have "source_volume leg s (filter (\<lambda>t. \<not> Timestamp t < edge) t) = source_volume leg s (minute_trades (whole p) b)"
        by (metis (no_types, lifting) filter_True mset_eq_setD source_volume_mset)
      then show ?thesis using IH Cons.prems(1,2) edge by auto
    qed
  qed (simp add: bucket_ok_def aligned_def)
  then show "bucket_ok edge" "edge = 0 \<or> (\<exists>b \<in> set bs. edge = b + go_minute)"
    "source_volume leg s (filter (\<lambda>t. \<not> Timestamp t < edge) extra')
       = source_volume leg s (filter (\<lambda>t. \<not> Timestamp t < edge) extra) + (\<Sum>b\<leftarrow>filter (\<lambda>b. edge \<le> b) bs. source_volume leg s (minute_trades (whole p) b))"
    by blast+
qed

end

section \<open>The filled read\<close>

lemma minute_trade_simps [simp]:
  "Source (minute_trade p r) = mr_source r" "Timestamp (minute_trade p r) = mr_bucket r"
  "base_of (minute_trade p r) = mr_base r" "quote_of (minute_trade p r) = mr_quote r"
  by (simp_all add: minute_trade_def)

lemma minutes_volume:
  fixes ml :: "minuteRow \<Rightarrow> int"
  assumes sums: "\<And>b. aligned b \<Longrightarrow> lo \<le> b \<Longrightarrow> b < hi \<Longrightarrow>
      sum_list (map ml (filter (\<lambda>r. row_key r = (s, b)) rows)) = source_volume leg s (minute_trades ts b)"
    and leg: "\<And>r. leg (minute_trade p r) = ml r"
    and rows: "\<forall>r \<in> set rows. aligned (mr_bucket r) \<and> lo \<le> mr_bucket r \<and> mr_bucket r < hi \<and> 0 < mr_base r \<and> 0 < mr_quote r"
    and al: "aligned lo" "aligned hi" "aligned edge" and wide: "W \<subseteq> mr_bucket ` set rows"
  shows "source_volume leg s (map (minute_trade p) (filter (\<lambda>r. \<not> (mr_bucket r < edge \<or> mr_bucket r \<in> W)) rows))
       + (\<Sum>b\<in>{b \<in> W. edge \<le> b}. source_volume leg s (minute_trades ts b))
     = source_volume leg s (filter (\<lambda>t. in_range lo hi t \<and> edge \<le> Timestamp t) ts)"
proof -
  define B where "B = {b \<in> minute_of ` set ts \<union> mr_bucket ` set rows. lo \<le> b \<and> b < hi \<and> edge \<le> b}"
  have fin: "finite B" by (simp add: B_def)
  have Bal: "aligned b" if "b \<in> B" for b using that rows aligned_truncate by (auto simp: B_def)
  have "filter (\<lambda>t. in_range lo hi t \<and> edge \<le> Timestamp t) ts = filter (\<lambda>t. minute_of t \<in> B) ts"
    by (intro filter_cong) (auto simp: B_def in_range_def minute_between al)
  then have all: "source_volume leg s (filter (\<lambda>t. in_range lo hi t \<and> edge \<le> Timestamp t) ts) = (\<Sum>b\<in>B. source_volume leg s (minute_trades ts b))"
    using volume_by_minute [OF fin] by simp
  have W: "B \<inter> W = {b \<in> W. edge \<le> b}" using wide rows by (auto simp: B_def)
  have "(\<Sum>b\<in>B - W. source_volume leg s (minute_trades ts b)) = (\<Sum>b\<in>B - W. sum_list (map ml (filter (\<lambda>r. mr_bucket r = b \<and> mr_source r = s) rows)))"
    using sums Bal by (intro sum.cong) (auto simp: B_def conj_commute)
  also have "\<dots> = sum_list (map ml (filter (\<lambda>r. mr_bucket r \<in> B - W \<and> mr_source r = s) rows))"
    using fin by (intro sum_over_keys) simp
  also have "filter (\<lambda>r. mr_bucket r \<in> B - W \<and> mr_source r = s) rows
      = filter (\<lambda>r. (\<not> (mr_bucket r < edge \<or> mr_bucket r \<in> W)) \<and> priceable (minute_trade p r) \<and> mr_source r = s) rows"
    using rows by (intro filter_cong) (auto simp: B_def priceable_def)
  also have "sum_list (map ml \<dots>) = source_volume leg s (map (minute_trade p) (filter (\<lambda>r. \<not> (mr_bucket r < edge \<or> mr_bucket r \<in> W)) rows))"
    by (simp add: source_volume_def filter_map o_def leg conj_ac)
  finally have "(\<Sum>b\<in>B - W. source_volume leg s (minute_trades ts b))
      = source_volume leg s (map (minute_trade p) (filter (\<lambda>r. \<not> (mr_bucket r < edge \<or> mr_bucket r \<in> W)) rows))" .
  then show ?thesis unfolding all W [symmetric] using sum.Int_Diff [OF fin, of "\<lambda>b. source_volume leg s (minute_trades ts b)" W] by simp
qed

context capped_trades
begin

lemma resolve_parts:
  assumes "good p" "cap_ok cfg" "rows_ok lo hi ms rows"
  obtains W rows' edge extra where "resolveWideMinutes st cfg p rows = Some (rows', edge, extra)"
    "W \<subseteq> mr_bucket ` set rows" "rows' = map (\<lambda>r. r\<lparr>mr_wide := mr_bucket r \<in> W\<rparr>) rows"
    "bucket_ok edge" "edge = 0 \<or> (\<exists>b \<in> W. edge = b + go_minute)"
    "\<And>leg s. source_volume leg s (filter (\<lambda>t. \<not> Timestamp t < edge) extra)
       = (\<Sum>b\<in>{b \<in> W. edge \<le> b}. source_volume leg s (minute_trades (whole p) b))"
proof (cases "minuteSpreadBand cfg")
  case None
  have "r\<lparr>mr_wide := False\<rparr> = r" if "r \<in> set rows" for r using that assms(3) by (cases r) (auto simp: rows_ok_def)
  then have "map (\<lambda>r. r\<lparr>mr_wide := mr_bucket r \<in> {}\<rparr>) rows = rows" by (simp add: map_idI)
  then show ?thesis using None by (intro that [of rows 0 "[]" "{}"]) (simp_all add: resolveWideMinutes_def bucket_ok_def aligned_def)
next
  case (Some band)
  obtain w where w: "wide_loop cfg band rows [] = Some w" "set w \<subseteq> mr_bucket ` set rows" "distinct w"
    using wide_loop_total [of rows cfg band "[]"] assms(3) by (auto simp: rows_ok_def)
  obtain edge extra where r: "reread_loop st cfg p 0 (rev (sort w)) [] = (edge, extra)" by fastforce
  have b: "\<forall>b \<in> set (rev (sort w)). bucket_ok b" using w(2) assms(3) by (auto simp: rows_ok_def)
  have d: "sorted_wrt (>) (rev (sort w))" using w(3) by (simp add: sorted_wrt_rev strict_sorted_iff)
  note re = reread_volume [OF assms(1,2) b d r]
  have "(\<Sum>b\<leftarrow>filter (\<lambda>b. edge \<le> b) (rev (sort w)). f b) = (\<Sum>b\<in>{b \<in> set w. edge \<le> b}. f b)" for f :: "gotime \<Rightarrow> int"
    using w(3) by (subst sum_list_distinct_conv_sum_set) auto
  then show ?thesis
    using Some w r re by (intro that [of "map (\<lambda>r. r\<lparr>mr_wide := mr_bucket r \<in> set w\<rparr>) rows" edge extra "set w"])
      (simp_all add: resolveWideMinutes_def)
qed

end

lemma source_volume_sort: "source_volume leg s (sort_key key ts) = source_volume leg s ts"
  by (rule source_volume_mset) simp

lemma oldest_bounds: "oldest c ts \<le> c \<and> (\<forall>t \<in> set ts. oldest c ts \<le> Timestamp t) \<and> (oldest c ts = c \<or> (\<exists>t \<in> set ts. oldest c ts = Timestamp t))"
proof (induction ts arbitrary: c)
  case (Cons t ts)
  show ?case using Cons [of "if Timestamp t < c then Timestamp t else c"] by (cases "Timestamp t < c") auto
qed simp

lemma oldest_hd:
  assumes "ts \<noteq> []"
  shows "\<forall>t \<in> set ts. oldest (Timestamp (hd ts)) ts \<le> Timestamp t" "\<exists>t \<in> set ts. oldest (Timestamp (hd ts)) ts = Timestamp t"
  using oldest_bounds [of "Timestamp (hd ts)" ts] assms hd_in_set by blast+

text \<open>After the cut of a limited read everything is there.\<close>

lemma top_part_after:
  assumes "top_part Timestamp n raw (mset W)" "t \<in> set raw" "Timestamp t < m"
  shows "mset (filter (\<lambda>t. \<not> Timestamp t < m) raw) = mset (filter (\<lambda>t. \<not> Timestamp t < m) W)"
proof -
  obtain older where o: "mset raw + older = mset W" "\<forall>x \<in># older. Timestamp x < m"
    using assms by (fastforce simp: top_part_def)
  have "filter_mset (\<lambda>t. \<not> Timestamp t < m) older = {#}" using o(2) by (simp add: filter_mset_eq_conv)
  then show ?thesis using arg_cong [OF o(1), of "filter_mset (\<lambda>t. \<not> Timestamp t < m)"] by (simp only: filter_union_mset) simp
qed

lemma filled_volume:
  fixes ts lo to
  defines "W \<equiv> filter (in_range lo to) ts"
  assumes so: "sums_ok ts lo m ms" and ro: "rows_ok lo m ms rows"
    and al: "aligned lo" "aligned m" "aligned edge" "edge \<le> m" "m \<le> to" and V: "V \<subseteq> mr_bucket ` set rows"
    and ex: "\<And>leg s. source_volume leg s extra = (\<Sum>b\<in>{b \<in> V. edge \<le> b}. source_volume leg s (minute_trades ts b))"
    and raw: "mset raw = mset (filter (\<lambda>t. \<not> Timestamp t < m) W)"
  shows "same_volumes (map (minute_trade p) (filter (\<lambda>r. \<not> (mr_bucket r < edge \<or> mr_bucket r \<in> V)) rows) @ extra @ raw)
     (filter (\<lambda>t. edge \<le> Timestamp t) W)"
proof -
  let ?minutes = "map (minute_trade p) (filter (\<lambda>r. \<not> (mr_bucket r < edge \<or> mr_bucket r \<in> V)) rows)"
  have rows: "\<forall>r \<in> set rows. aligned (mr_bucket r) \<and> lo \<le> mr_bucket r \<and> mr_bucket r < m \<and> 0 < mr_base r \<and> 0 < mr_quote r"
    using ro by (auto simp: rows_ok_def bucket_ok_def)
  have "filter (\<lambda>t. Timestamp t < m) (filter (\<lambda>t. edge \<le> Timestamp t) W) = filter (\<lambda>t. in_range lo m t \<and> edge \<le> Timestamp t) ts"
    "filter (\<lambda>t. \<not> Timestamp t < m) (filter (\<lambda>t. edge \<le> Timestamp t) W) = filter (\<lambda>t. \<not> Timestamp t < m) W"
    unfolding W_def filter_filter using al(4,5) by (auto intro!: filter_cong simp: in_range_def)
  then have split: "source_volume leg s (filter (\<lambda>t. edge \<le> Timestamp t) W)
      = source_volume leg s (filter (\<lambda>t. in_range lo m t \<and> edge \<le> Timestamp t) ts) + source_volume leg s raw" for leg s
    using source_volume_split [of leg s "filter (\<lambda>t. edge \<le> Timestamp t) W" "\<lambda>t. Timestamp t < m"] source_volume_mset [OF raw, of leg s] by simp
  have "source_volume base_of s ?minutes + source_volume base_of s extra = source_volume base_of s (filter (\<lambda>t. in_range lo m t \<and> edge \<le> Timestamp t) ts)" for s
    unfolding ex using so ro by (intro minutes_volume [OF _ _ rows al(1-3) V, where ml = mr_base]) (simp_all add: sums_ok_def rows_ok_def)
  moreover have "source_volume quote_of s ?minutes + source_volume quote_of s extra = source_volume quote_of s (filter (\<lambda>t. in_range lo m t \<and> edge \<le> Timestamp t) ts)" for s
    unfolding ex using so ro by (intro minutes_volume [OF _ _ rows al(1-3) V, where ml = mr_quote]) (simp_all add: sums_ok_def rows_ok_def)
  ultimately show ?thesis by (simp add: same_volumes_def split)
qed

context capped_trades
begin

lemma fill_volume:
  fixes raw p "from" to
  defines "W \<equiv> filter (in_range from to) (whole p)"
  assumes ok: "good p" "cap_ok cfg" "0 \<le> from" and raw: "top_part Timestamp n raw (mset W)" "t \<in> set raw" "Timestamp t = coveredFrom"
  shows "fillFromMinuteSums st cfg p from to raw coveredFrom \<noteq> None"
    and "fillFromMinuteSums st cfg p from to raw coveredFrom = Some (Some (filled, w, cf)) \<Longrightarrow>
      same_volumes filled (filter (\<lambda>t. cf \<le> Timestamp t) W)"
proof -
  define m where "m = time_Truncate coveredFrom go_minute + go_minute"
  have m: "aligned m" "coveredFrom < m"
    using aligned_next [OF aligned_truncate] truncate_minute [of coveredFrom "time_Truncate coveredFrom go_minute"] by (auto simp: m_def)
  have "fillFromMinuteSums st cfg p from to raw coveredFrom = Some None \<or>
    (\<exists>filled w cf. fillFromMinuteSums st cfg p from to raw coveredFrom = Some (Some (filled, w, cf)) \<and> same_volumes filled (filter (\<lambda>t. cf \<le> Timestamp t) W))"
  proof (cases "\<exists>rd ms wm. read_sums st = Some rd \<and> \<not> (tradeSumsHorizon < time_Sub to from \<or> from \<noteq> time_Truncate from go_minute)
      \<and> m \<le> to \<and> rd p from m = Inr (ms, wm) \<and> m \<le> wm")
    case False
    then show ?thesis by (auto simp: fillFromMinuteSums_def m_def [symmetric] Let_def split: option.splits sum.splits)
  next
    case True
    then obtain rd ms wm where rd: "read_sums st = Some rd" "\<not> (tradeSumsHorizon < time_Sub to from \<or> from \<noteq> time_Truncate from go_minute)"
      "m \<le> to" "rd p from m = Inr (ms, wm)" "m \<le> wm" by blast
    have f: "aligned from" using rd(2) truncate_minute by metis
    have so: "sums_ok (whole p) from m ms" using sums_market [OF ok(1) rd(1,4,5) f m(1)] .
    then have ro: "rows_ok from m ms (foldMinuteSums ms)"
      using ok(3) by (intro foldMinuteSums_ok) (auto simp: sums_ok_def sum_ok_def bucket_ok_def)
    obtain V rows' edge extra where rs: "resolveWideMinutes st cfg p (foldMinuteSums ms) = Some (rows', edge, extra)"
      and V: "V \<subseteq> mr_bucket ` set (foldMinuteSums ms)" "rows' = map (\<lambda>r. r\<lparr>mr_wide := mr_bucket r \<in> V\<rparr>) (foldMinuteSums ms)"
        "bucket_ok edge" "edge = 0 \<or> (\<exists>b \<in> V. edge = b + go_minute)"
      and ex: "\<And>leg s. source_volume leg s (filter (\<lambda>t. \<not> Timestamp t < edge) extra)
         = (\<Sum>b\<in>{b \<in> V. edge \<le> b}. source_volume leg s (minute_trades (whole p) b))"
      by (rule resolve_parts [OF ok(1,2) ro]) (rule that)
    define kept where "kept = filter (\<lambda>r. \<not> (mr_bucket r < edge \<or> mr_wide r)) rows'"
    define filled where "filled = sort_key Timestamp (map (minute_trade p) kept @ filter (\<lambda>t. \<not> Timestamp t < edge) extra @ filter (\<lambda>t. \<not> Timestamp t < m) raw)"
    have kept: "map (minute_trade p) kept = map (minute_trade p) (filter (\<lambda>r. \<not> (mr_bucket r < edge \<or> mr_bucket r \<in> V)) (foldMinuteSums ms))"
      unfolding kept_def V(2) by (simp add: filter_map o_def minute_trade_def)
    obtain older where "mset raw + older = mset W" using raw(1) by (auto simp: top_part_def)
    then have "t \<in> set W" using raw(2) by (metis set_mset_mset union_iff)
    then have "0 \<le> coveredFrom" using raw(3) ok(3) by (simp add: W_def in_range_def)
    then have em: "edge \<le> m"
      using V(1,4) ro m aligned_gap [OF _ m(1)] by (fastforce simp: rows_ok_def bucket_ok_def)
    have "mset (filter (\<lambda>t. \<not> Timestamp t < m) raw) = mset (filter (\<lambda>t. \<not> Timestamp t < m) W)"
      using top_part_after [OF raw(1,2)] raw(3) m(2) by simp
    then have "same_volumes (map (minute_trade p) kept @ filter (\<lambda>t. \<not> Timestamp t < edge) extra @ filter (\<lambda>t. \<not> Timestamp t < m) raw)
        (filter (\<lambda>t. edge \<le> Timestamp t) W)"
      unfolding kept W_def using V(3) by (intro filled_volume [OF so ro f m(1) _ em rd(3) V(1) ex]) (simp_all add: bucket_ok_def)
    then have "same_volumes filled (filter (\<lambda>t. edge \<le> Timestamp t) W)"
      unfolding filled_def same_volumes_def source_volume_sort .
    moreover have "fillFromMinuteSums st cfg p from to raw coveredFrom
        = Some (Some (filled, rev (map (\<lambda>r. (Trade_ID (minute_trade p r), mr_count r)) kept), edge))"
      using rd rs unfolding fillFromMinuteSums_def by (simp add: m_def [symmetric] Let_def filled_def kept_def)
    ultimately show ?thesis by blast
  qed
  then show "fillFromMinuteSums st cfg p from to raw coveredFrom \<noteq> None"
    "fillFromMinuteSums st cfg p from to raw coveredFrom = Some (Some (filled, w, cf)) \<Longrightarrow> same_volumes filled (filter (\<lambda>t. cf \<le> Timestamp t) W)"
    by auto
qed

end

text \<open>
  \<open>D\<close> is what a read returning \<open>ts\<close> with start of coverage \<open>cf\<close> stands for: the whole window \<open>W\<close> when \<open>cf\<close>
  is zero, else at least everything after \<open>cf\<close> and nothing before it.
\<close>

definition stands_for :: "Trade list \<Rightarrow> gotime \<Rightarrow> Trade list \<Rightarrow> Trade list \<Rightarrow> bool" where
  "stands_for ts cf W D \<longleftrightarrow> same_volumes ts D \<and> mset D \<subseteq># mset W \<and> (cf = 0 \<longrightarrow> mset D = mset W) \<and>
     (\<forall>t \<in> set D. cf \<le> Timestamp t) \<and> filter_mset (\<lambda>t. cf < Timestamp t) (mset W) \<subseteq># mset D"

lemma same_volumes_refl: "same_volumes ts ts"
  by (simp add: same_volumes_def)

lemma filter_from:
  assumes "same_volumes ts (filter (\<lambda>t. cf \<le> Timestamp t) W)" "\<forall>t \<in> set W. 0 \<le> Timestamp t"
  shows "stands_for ts cf W (filter (\<lambda>t. cf \<le> Timestamp t) W)"
proof -
  have "filter_mset (\<lambda>t. cf < Timestamp t) (mset W) \<subseteq># filter_mset (\<lambda>t. cf \<le> Timestamp t) (mset W)"
    by (rule filter_mset_mono_strong) auto
  moreover have "cf = 0 \<Longrightarrow> filter (\<lambda>t. cf \<le> Timestamp t) W = W" using assms(2) by (simp add: filter_id_conv)
  ultimately show ?thesis using assms(1) by (auto simp: stands_for_def)
qed

lemma capped_from:
  assumes "top_part Timestamp n raw (mset W)" "t \<in> set raw" "Timestamp t = cf" "\<forall>t \<in> set raw. cf \<le> Timestamp t" "0 < cf"
  shows "stands_for raw cf W raw"
proof -
  obtain older where o: "mset raw + older = mset W" "\<forall>x \<in># older. Timestamp x \<le> cf"
    using assms(1-3) by (fastforce simp: top_part_def)
  have "filter_mset (\<lambda>t. cf < Timestamp t) older = {#}" using o(2) by (auto simp: filter_mset_eq_conv)
  then have "filter_mset (\<lambda>t. cf < Timestamp t) (mset W) = filter_mset (\<lambda>t. cf < Timestamp t) (mset raw)"
    using arg_cong [OF o(1), of "filter_mset (\<lambda>t. cf < Timestamp t)"] by (simp only: filter_union_mset) simp
  moreover have "mset raw \<subseteq># mset W" unfolding o(1) [symmetric] by simp
  ultimately show ?thesis using assms(4,5) by (simp add: stands_for_def same_volumes_refl multiset_filter_subset)
qed

context capped_trades
begin

lemma fetch_stands_for:
  assumes "good p" "cap_ok cfg" "0 < from"
  shows "fetchTradesDetectTruncation st cfg p from to \<noteq> None"
    "fetchTradesDetectTruncation st cfg p from to = Some (Inr (ts, w, cf)) \<Longrightarrow>
       \<exists>D. stands_for ts cf (filter (in_range from to) (whole p)) D"
proof -
  let ?W = "filter (in_range from to) (whole p)"
  have "(\<exists>e. fetchTradesDetectTruncation st cfg p from to = Some (Inl e)) \<or>
    (\<exists>ts w cf D. fetchTradesDetectTruncation st cfg p from to = Some (Inr (ts, w, cf)) \<and> stands_for ts cf ?W D)"
  proof (cases "read_trades st p from to (MaxTradesPerWindow cfg)")
    case (Inl e)
    then show ?thesis by (simp add: fetchTradesDetectTruncation_def)
  next
    case (Inr t)
    have top: "top_part Timestamp (nat (MaxTradesPerWindow cfg)) t (mset ?W)"
      using trades_top [OF assms(1) Inr] assms(2) by (simp add: cap_ok_def)
    have pos: "\<forall>x \<in> set ?W. 0 \<le> Timestamp x" using assms(3) by (auto simp: in_range_def)
    show ?thesis
    proof (cases "length t = 0 \<or> int (length t) < MaxTradesPerWindow cfg")
      case True
      then have "length t < nat (MaxTradesPerWindow cfg)" using assms(2) by (auto simp: cap_ok_def)
      then have "mset t = mset ?W" using top by (auto simp: top_part_def)
      then have "stands_for t 0 ?W t" using pos mset_eq_setD [of t ?W] by (auto simp: stands_for_def same_volumes_refl)
      then show ?thesis using True Inr by (auto simp: fetchTradesDetectTruncation_def)
    next
      case False
      define cf0 where "cf0 = oldest (Timestamp (hd t)) t"
      have ne: "t \<noteq> []" using False by auto
      obtain x where x: "x \<in> set t" "Timestamp x = cf0" using oldest_hd(2) [OF ne] by (auto simp: cf0_def)
      obtain older where "mset t + older = mset ?W" using top by (auto simp: top_part_def)
      then have "x \<in> set ?W" using x(1) by (metis set_mset_mset union_iff)
      then have "0 < cf0" using x(2) assms(3) by (auto simp: in_range_def)
      then have raw: "stands_for t cf0 ?W t" using capped_from [OF top x] oldest_hd(1) [OF ne] by (simp add: cf0_def)
      have fetch: "fetchTradesDetectTruncation st cfg p from to
          = map_option (\<lambda>fill. case fill of Some (filled, w, cf) \<Rightarrow> Inr (filled, w, cf) | None \<Rightarrow> Inr (t, [], cf0)) (fillFromMinuteSums st cfg p from to t cf0)"
        using False Inr unfolding fetchTradesDetectTruncation_def by (simp only: sum.case if_False Let_def cf0_def)
      note fill = fill_volume [OF assms(1,2) less_imp_le [OF assms(3)] top x]
      then show ?thesis
      proof (cases "fillFromMinuteSums st cfg p from to t cf0 = Some None")
        case True
        then show ?thesis unfolding fetch using raw by auto
      next
        case False
        then obtain filled w cf where f: "fillFromMinuteSums st cfg p from to t cf0 = Some (Some (filled, w, cf))" using fill(1) by auto
        then show ?thesis unfolding fetch using filter_from [OF fill(2) [OF f] pos] by auto
      qed
    qed
  qed
  then show "fetchTradesDetectTruncation st cfg p from to \<noteq> None"
    "fetchTradesDetectTruncation st cfg p from to = Some (Inr (ts, w, cf)) \<Longrightarrow> \<exists>D. stands_for ts cf ?W D"
    by auto
qed

end

section \<open>The price of a capped window\<close>

text \<open>
  C9. The price of a window is the price of its trades, cap or no cap: a fetch never panics, and when it
  returns, the trades it gives have, under every choice of sources and of scales, exactly the volume weighted
  price of part \<open>D\<close> of the market's trades in the window. \<open>D\<close> is all of them when the fetch says it is whole, and
  otherwise holds everything after the reported start of coverage and nothing before it, however many trades
  the cap cut off, whichever minutes were summed, read again or given up, and whichever reads failed.
\<close>

theorem capped_window_price:
  assumes "strkey_ok k" "materialised q" "Pair_Validate k p = None" "0 < MaxTradesPerWindow cfg"
    "MaxTradesPerWindow cfg \<le> MaxTradesInRangeLimit" "0 < from"
  shows "fetchTradesDetectTruncation (pg_store k q) cfg p from to \<noteq> None \<and>
    (fetchTradesDetectTruncation (pg_store k q) cfg p from to = Some (Inr (ts, w, cf)) \<longrightarrow>
      (\<exists>D. mset D \<subseteq># mset (filter (in_range from to) (market q p)) \<and>
        (cf = 0 \<longrightarrow> mset D = mset (filter (in_range from to) (market q p))) \<and>
        (\<forall>t \<in> set D. cf \<le> Timestamp t) \<and>
        filter_mset (\<lambda>t. cf < Timestamp t) (mset (filter (in_range from to) (market q p))) \<subseteq># mset D \<and>
        (\<forall>P dec. VWAP (NormalizeAmountScale (filter (\<lambda>t. P (Source t)) ts) dec)
                = VWAP (NormalizeAmountScale (filter (\<lambda>t. P (Source t)) D) dec))))"
proof -
  let ?W = "mset (filter (in_range from to) (market q p))"
  have ok: "pg_good k q p" "cap_ok cfg" using assms by (simp_all add: pg_good_def cap_ok_def)
  have "\<exists>D. mset D \<subseteq># ?W \<and> (cf = 0 \<longrightarrow> mset D = ?W) \<and> (\<forall>t \<in> set D. cf \<le> Timestamp t) \<and>
      filter_mset (\<lambda>t. cf < Timestamp t) ?W \<subseteq># mset D \<and>
      (\<forall>P dec. VWAP (NormalizeAmountScale (filter (\<lambda>t. P (Source t)) ts) dec) = VWAP (NormalizeAmountScale (filter (\<lambda>t. P (Source t)) D) dec))"
    if f: "fetchTradesDetectTruncation (pg_store k q) cfg p from to = Some (Inr (ts, w, cf))"
  proof -
    obtain D where "stands_for ts cf (filter (in_range from to) (market q p)) D"
      using timescale.fetch_stands_for(2) [OF ok assms(6) f] by blast
    then show ?thesis unfolding stands_for_def using same_volumes_VWAP [OF same_volumes_filter] by (intro exI [of _ D]) blast
  qed
  then show ?thesis using timescale.fetch_stands_for(1) [OF ok assms(6)] by blast
qed

definition sample_row :: "gotime \<Rightarrow> int \<Rightarrow> int \<Rightarrow> trade_row" where
  "sample_row ts base quote =
     \<lparr>r_source = ''sdex'', r_ledger = 7, r_tx_hash = ''t'', r_op_index = 0, r_ts = ts, r_base_asset = Asset_String (Base sample_pair),
      r_quote_asset = Asset_String (Quote sample_pair), r_base_amount = base, r_quote_amount = quote, r_maker = [], r_taker = [], r_routed_via = []\<rparr>"

definition sample_pg :: pg where
  "sample_pg =
     \<lparr>trades_table = [sample_row 60000000001 100 10, sample_row 60000000002 300 33, sample_row 120000000001 50 6, sample_row 120000000002 50 5],
      sums_view = Some [\<lparr>v_source = ''sdex'', v_bucket = 60000000000, v_base_asset = Asset_String (Base sample_pair),
        v_quote_asset = Asset_String (Quote sample_pair), v_base_sum = 400, v_quote_sum = 43, v_count = 2, v_min = 1/10, v_max = 11/100\<rparr>],
      nonVWAP = [], collation = (\<lambda>_. 0), refused = (\<lambda>_ _. False), cagg_watermark = Some 120000000000, inval = Some []\<rparr>"

definition sample_coverage :: coverage_config where
  "sample_coverage =
     \<lparr>MaxTradesPerWindow = 3, OutlierSigmaThreshold = FFin 0, ExcludedSources = [], DisableClassFilter = True,
      external_Lookup = (\<lambda>_. \<lparr>md_Class = ClassExchange, md_Subclass = ''dex'', IncludeInVWAP = True, AmountDecimals = 7\<rparr>)\<rparr>"

lemma sample_materialised: "materialised sample_pg"
proof -
  have "\<not> clean sample_pg b" if "60000000000 < b" for b
    using that by (simp add: clean_def sample_pg_def go_minute_value)
  moreover have "time_Truncate 60000000001 go_minute = 60000000000" "time_Truncate 60000000002 go_minute = 60000000000"
    "time_Truncate 120000000001 go_minute = 120000000000" "time_Truncate 120000000002 go_minute = 120000000000"
    by (simp_all add: time_Truncate_def go_minute_value)
  ultimately show ?thesis
    unfolding materialised_def Let_def bucket_rows_def
    by (auto simp: sample_pg_def sample_row_def aligned_def go_minute_value)
qed

lemma sample_read:
  "TradesInRange sample_sdk sample_pg sample_pair 60000000000 180000000000 3
   = Inr (map (oriented sample_pair) [sample_row 60000000002 300 33, sample_row 120000000001 50 6, sample_row 120000000002 50 5])"
proof -
  let ?rows = "[sample_row 120000000002 50 5, sample_row 120000000001 50 6, sample_row 60000000002 300 33]"
  have arms: "newest (row_rank (collation sample_pg)) 3
      (newest (row_rank (collation sample_pg)) 3 (arm sample_pg (Asset_String (Base sample_pair)) (Asset_String (Quote sample_pair)) 60000000000 180000000000) @
       newest (row_rank (collation sample_pg)) 3 (arm sample_pg (Asset_String (Quote sample_pair)) (Asset_String (Base sample_pair)) 60000000000 180000000000)) = ?rows"
    by code_simp
  have "of_market sample_pg sample_pair r" if "r \<in> set ?rows" for r
    using that by (auto simp: of_market_def sample_row_def sample_pg_def)
  then have "err_list (scanTradeOriented sample_sdk sample_pair) ?rows = Inr (map (oriented sample_pair) ?rows)"
    by (intro err_list_map scan_oriented [OF sample_sdk_ok sample_pair_valid])
  moreover have "nat (range_limit 3) = 3" by (simp add: range_limit_def MaxTradesInRangeLimit_def)
  ultimately show ?thesis unfolding TradesInRange_def Let_def arms by (simp add: arms) (simp add: sample_pg_def)
qed

definition sample_minute :: minuteRow where
  "sample_minute = \<lparr>mr_source = ''sdex'', mr_bucket = 60000000000, mr_base = 400, mr_quote = 43, mr_count = 2, mr_lo = 1 / 10, mr_hi = 11 / 100, mr_wide = False\<rparr>"

lemma sample_sums:
  "TradeSums1mInRange sample_pg sample_pair 60000000000 120000000000
   = Inr ([\<lparr>tm_Source = ''sdex'', tm_Bucket = 60000000000, BaseSum = NewAmount (Some 400), QuoteSum = NewAmount (Some 43), tm_Count = 2, MinPrice = 1 / 10, MaxPrice = 11 / 100\<rparr>], 120000000000)"
  by code_simp

lemma sample_fetch:
  "fetchTradesDetectTruncation (pg_store sample_sdk sample_pg) sample_coverage sample_pair 60000000000 180000000000
   = Some (Inr ([minute_trade sample_pair sample_minute, oriented sample_pair (sample_row 120000000001 50 6), oriented sample_pair (sample_row 120000000002 50 5)],
      [(Trade_ID (minute_trade sample_pair sample_minute), 2)], 0))"
proof -
  have fold: "foldMinuteSums [\<lparr>tm_Source = ''sdex'', tm_Bucket = 60000000000, BaseSum = NewAmount (Some 400), QuoteSum = NewAmount (Some 43), tm_Count = 2, MinPrice = 1 / 10, MaxPrice = 11 / 100\<rparr>]
      = [sample_minute]" by code_simp
  have m: "time_Truncate 60000000002 go_minute + go_minute = 120000000000" "time_Truncate 60000000000 go_minute = 60000000000"
    "\<not> tradeSumsHorizon < time_Sub 180000000000 60000000000" "minuteSpreadBand sample_coverage = None"
    by code_simp+
  have r: "r_ts (sample_row a b c) = a" for a b c by (simp add: sample_row_def)
  have "Timestamp (minute_trade sample_pair sample_minute) = 60000000000" "\<not> mr_wide sample_minute" "mr_bucket sample_minute = 60000000000" "mr_count sample_minute = 2"
    by (simp_all add: sample_minute_def)
  then have "fillFromMinuteSums (pg_store sample_sdk sample_pg) sample_coverage sample_pair 60000000000 180000000000
      (map (oriented sample_pair) [sample_row 60000000002 300 33, sample_row 120000000001 50 6, sample_row 120000000002 50 5]) 60000000002
      = Some (Some ([minute_trade sample_pair sample_minute, oriented sample_pair (sample_row 120000000001 50 6), oriented sample_pair (sample_row 120000000002 50 5)],
        [(Trade_ID (minute_trade sample_pair sample_minute), 2)], 0))"
    using m fold by (simp add: fillFromMinuteSums_def pg_store_def resolveWideMinutes_def sample_sums r)
  then show ?thesis
    by (simp add: fetchTradesDetectTruncation_def sample_read r) (simp add: pg_store_def sample_coverage_def sample_read r)
qed

text \<open>Four trades in two minutes under a cap of three: the older minute is one row of sums, and the price is that of all four.\<close>

theorem capped_window_price_witness:
  "\<exists>ts w. fetchTradesDetectTruncation (pg_store sample_sdk sample_pg) sample_coverage sample_pair 60000000000 180000000000 = Some (Inr (ts, w, 0)) \<and>
     length ts = 3 \<and> length (filter (in_range 60000000000 180000000000) (market sample_pg sample_pair)) = 4 \<and>
     VWAP (NormalizeAmountScale ts (\<lambda>_. 7)) = VWAP (NormalizeAmountScale (filter (in_range 60000000000 180000000000) (market sample_pg sample_pair)) (\<lambda>_. 7))"
proof -
  let ?W = "filter (in_range 60000000000 180000000000) (market sample_pg sample_pair)"
  have "0 < MaxTradesPerWindow sample_coverage" "MaxTradesPerWindow sample_coverage \<le> MaxTradesInRangeLimit"
    by (simp_all add: sample_coverage_def MaxTradesInRangeLimit_def)
  note price = capped_window_price [OF sample_sdk_ok sample_materialised sample_pair_valid this, of 60000000000 180000000000]
  obtain D where D: "mset D = mset ?W" "\<forall>P dec. VWAP (NormalizeAmountScale (filter (\<lambda>t. P (Source t))
      [minute_trade sample_pair sample_minute, oriented sample_pair (sample_row 120000000001 50 6), oriented sample_pair (sample_row 120000000002 50 5)]) dec)
      = VWAP (NormalizeAmountScale (filter (\<lambda>t. P (Source t)) D) dec)"
    using price sample_fetch by fastforce
  have "same_volumes D ?W" using source_volume_mset [OF D(1)] by (simp add: same_volumes_def)
  then have "VWAP (NormalizeAmountScale D (\<lambda>_. 7)) = VWAP (NormalizeAmountScale ?W (\<lambda>_. 7))" by (rule same_volumes_VWAP)
  moreover have "length ?W = 4" by code_simp
  ultimately show ?thesis using D(2) [THEN spec, of "\<lambda>_. True"] sample_fetch by simp
qed

end
