(* ===== verification/BucketPrice.thy ===== *)
theory BucketPrice
  imports WindowCoverage Outliers Stablecoin
begin

text \<open>
  The pricing of one closed bucket in \<open>internal/aggregate/orchestrator/orchestrator.go\<close>: the trades of the
  target and of its stablecoin legs (\<open>fetchForTarget\<close>), their value in USD, the source, class, zero-leg and
  outlier filters, the volume floor, and the price (\<open>decideBucket\<close> up to its first freeze decision). Maps keyed
  by trade identifier are association lists with the latest assignment in front. Metrics and log records are
  left out; the FX snapshot is an argument.
\<close>

section \<open>Configuration and registry\<close>

definition md_AmountScaleDecimals :: "source_meta \<Rightarrow> int" where
  "md_AmountScaleDecimals m = (if 0 < AmountDecimals m then AmountDecimals m else 8)"

definition IsFXSource :: "(string \<Rightarrow> source_meta) \<Rightarrow> string \<Rightarrow> bool" where
  "IsFXSource lookup source = (md_Subclass (lookup source) = ''fx'')"

text \<open>\<open>shortest\<close>: the decimal that \<open>strconv.FormatFloat(x, 'g', -1, 64)\<close> prints for a finite value.\<close>

record price_config = coverage_config +
  EnableStablecoinFiatProxy :: bool
  USDPeggedClassicAssets :: "Asset list"
  USDPeggedSorobanAssets :: "Asset list"
  cfg_DecimalsLookup :: DecimalsLookup
  MinUSDVolume :: f64
  shortest :: "rat \<Rightarrow> rat"
  FXMaxAge :: duration

abbreviation base_cfg :: "price_config \<Rightarrow> coverage_config" where
  "base_cfg cfg \<equiv> coverage_config.truncate cfg"

definition amountScaleDecimalsFor :: "price_config \<Rightarrow> string \<Rightarrow> int" where
  "amountScaleDecimalsFor cfg source = md_AmountScaleDecimals (external_Lookup cfg source)"

section \<open>Counting trades\<close>

definition tradeWeight :: "Trade \<Rightarrow> weights \<Rightarrow> int" where
  "tradeWeight t w = (case map_of w (Trade_ID t) of Some n \<Rightarrow> n | None \<Rightarrow> 1)"

definition tradeCount :: "Trade list \<Rightarrow> weights \<Rightarrow> int" where
  "tradeCount trades w = (if w = [] then int (length trades) else foldl (\<lambda>n t. n + tradeWeight t w) 0 trades)"

section \<open>Value in USD\<close>

fun isUSDPeggedClassic :: "Asset \<Rightarrow> Asset list \<Rightarrow> bool" where
  "isUSDPeggedClassic asset [] = False"
| "isUSDPeggedClassic asset (p # pegs) =
     (if Type p \<noteq> AssetClassic then isUSDPeggedClassic asset pegs
      else if Code p = Code asset \<and> Issuer p = Issuer asset then True
      else isUSDPeggedClassic asset pegs)"

fun isUSDPeggedSoroban :: "Asset \<Rightarrow> Asset list \<Rightarrow> bool" where
  "isUSDPeggedSoroban asset [] = False"
| "isUSDPeggedSoroban asset (p # pegs) =
     (if Type p \<noteq> AssetSoroban then isUSDPeggedSoroban asset pegs
      else if ContractID p = ContractID asset then True
      else isUSDPeggedSoroban asset pegs)"

definition usdQuoteDecimals :: "price_config \<Rightarrow> Asset \<Rightarrow> int option" where
  "usdQuoteDecimals cfg quote =
     (if Type quote = AssetFiat \<and> Code quote = ''USD'' then Some 8
      else if IsFiatProxyFor quote ''USD'' then Some 8
      else if Type quote = AssetClassic \<and> isUSDPeggedClassic quote (USDPeggedClassicAssets cfg) then Some 7
      else if Type quote = AssetSoroban \<and> isUSDPeggedSoroban quote (USDPeggedSorobanAssets cfg) then Some 7
      else None)"

definition usdQuoteDecimalsForTrade :: "price_config \<Rightarrow> Asset \<Rightarrow> string \<Rightarrow> int option" where
  "usdQuoteDecimalsForTrade cfg quote source =
     (if Type quote = AssetFiat \<and> Code quote = ''USD'' \<or> IsFiatProxyFor quote ''USD''
      then Some (md_AmountScaleDecimals (external_Lookup cfg source))
      else usdQuoteDecimals cfg quote)"

type_synonym usd_map = "(string \<times> rat) list"

fun usd_loop :: "price_config \<Rightarrow> Asset \<Rightarrow> Trade list \<Rightarrow> usd_map \<Rightarrow> usd_map" where
  "usd_loop cfg quote [] m = m"
| "usd_loop cfg quote (t # ts) m =
     (if BigInt (QuoteAmount t) = 0 then usd_loop cfg quote ts m
      else case usdQuoteDecimalsForTrade cfg quote (Source t) of
        None \<Rightarrow> usd_loop cfg quote ts m
      | Some decimals \<Rightarrow> usd_loop cfg quote ts ((Trade_ID t, SetFrac (BigInt (QuoteAmount t)) (10 ^ nat decimals)) # m))"

definition usdVolumeForPairPerTrade :: "price_config \<Rightarrow> Pair \<Rightarrow> Trade list \<Rightarrow> usd_map" where
  "usdVolumeForPairPerTrade cfg pair batch =
     (if batch = [] \<or> usdQuoteDecimals cfg (Quote pair) = None then [] else usd_loop cfg (Quote pair) batch [])"

definition survivorUSDVolume :: "Trade list \<Rightarrow> usd_map \<Rightarrow> rat" where
  "survivorUSDVolume trades m =
     foldl (\<lambda>acc t. case map_of m (Trade_ID t) of Some v \<Rightarrow> acc + v | None \<Rightarrow> acc) 0 trades"

section \<open>Fetching a target\<close>

record fetched =
  f_trades :: "Trade list"
  tradeUSD :: usd_map
  proxied :: "string list"
  f_weights :: weights
  coverage :: WindowCoverage

definition no_coverage :: WindowCoverage where
  "no_coverage = \<lparr>wc_Truncated = False, wc_CoveredFrom = 0\<rparr>"

definition merge_leg :: "price_config \<Rightarrow> Pair \<Rightarrow> Pair \<Rightarrow> Trade list \<times> weights \<times> gotime \<Rightarrow> fetched \<Rightarrow> fetched" where
  "merge_leg cfg target src leg f =
     (case leg of (batch, w, coveredFrom) \<Rightarrow>
        let f = f\<lparr>coverage := widenCoverage (coverage f) coveredFrom, f_weights := w @ f_weights f,
                  tradeUSD := usdVolumeForPairPerTrade cfg src batch @ tradeUSD f\<rparr> in
        if Pair_Equal src target then f\<lparr>f_trades := f_trades f @ batch\<rparr>
        else let batch = map (\<lambda>t. t\<lparr>TPair := target\<rparr>) batch in
          f\<lparr>f_trades := f_trades f @ batch, proxied := map Trade_ID batch @ proxied f\<rparr>)"

fun legs_loop ::
  "trade_store \<Rightarrow> price_config \<Rightarrow> Pair \<Rightarrow> gotime \<Rightarrow> gotime \<Rightarrow> Pair list \<Rightarrow> fetched \<Rightarrow> nat \<Rightarrow> (fetched \<times> nat) option" where
  "legs_loop st cfg target from to [] f errs = Some (f, errs)"
| "legs_loop st cfg target from to (src # srcs) f errs =
     (case fetchTradesDetectTruncation st (base_cfg cfg) src from to of
        None \<Rightarrow> None
      | Some (Inl e) \<Rightarrow> legs_loop st cfg target from to srcs f (errs + 1)
      | Some (Inr leg) \<Rightarrow> legs_loop st cfg target from to srcs (merge_leg cfg target src leg f) errs)"

definition fetchForTarget ::
  "sdk \<Rightarrow> trade_store \<Rightarrow> price_config \<Rightarrow> Pair \<Rightarrow> gotime \<Rightarrow> gotime \<Rightarrow> (error + fetched) option" where
  "fetchForTarget k st cfg target from to =
     (if \<not> EnableStablecoinFiatProxy cfg then
        map_option (\<lambda>r. err_bind r (\<lambda>(t, w, coveredFrom).
          Inr \<lparr>f_trades = t, tradeUSD = usdVolumeForPairPerTrade cfg target t, proxied = [], f_weights = w,
               coverage = widenCoverage no_coverage coveredFrom\<rparr>))
          (fetchTradesDetectTruncation st (base_cfg cfg) target from to)
      else case ExpandTargetPairWithClassicPegs k target (USDPeggedClassicAssets cfg) of
        Inl e \<Rightarrow> Some (Inl e)
      | Inr sources \<Rightarrow>
          map_option (\<lambda>(f, errs). if errs = length sources then Inl [] else Inr f)
            (legs_loop st cfg target from to sources
               \<lparr>f_trades = [], tradeUSD = [], proxied = [], f_weights = [], coverage = no_coverage\<rparr> 0))"

section \<open>Filters\<close>

definition dropExcludedSources :: "Trade list \<Rightarrow> string list \<Rightarrow> Trade list" where
  "dropExcludedSources trades excluded =
     (if excluded = [] then trades else filter (\<lambda>t. Source t \<notin> set excluded) trades)"

definition filterForVWAP :: "price_config \<Rightarrow> Trade list \<Rightarrow> Trade list" where
  "filterForVWAP cfg trades =
     filter (\<lambda>t. let md = external_Lookup cfg (Source t) in md_Class md = ClassExchange \<and> IncludeInVWAP md) trades"

definition dropUnpriceable :: "Trade list \<Rightarrow> Trade list" where
  "dropUnpriceable trades = filter (\<lambda>t. 0 < BigInt (BaseAmount t) \<and> 0 < BigInt (QuoteAmount t)) trades"

definition outlierOptions :: "price_config \<Rightarrow> weights \<Rightarrow> LocalOutlierOptions" where
  "outlierOptions cfg w =
     \<lparr>Sigma = OutlierSigmaThreshold cfg, Bucket = 0, MinBucket = 0, Neighbours = 0,
      Weight = (if w = [] then None else Some (\<lambda>t. tradeWeight t w)), AmountScaleDecimals = Some (amountScaleDecimalsFor cfg)\<rparr>"

definition bucket_filters :: "price_config \<Rightarrow> weights \<Rightarrow> Trade list \<Rightarrow> Trade list" where
  "bucket_filters cfg w trades =
     (let trades = dropExcludedSources trades (ExcludedSources cfg);
          trades = (if DisableClassFilter cfg then trades else filterForVWAP cfg trades);
          trades = dropUnpriceable trades in
      if FFin 0 < OutlierSigmaThreshold cfg then FilterOutliersLocal trades (outlierOptions cfg w) else trades)"

section \<open>The volume floor\<close>

datatype fx_answer = FXMissing | FXError | FXQuote "rat option" gotime string

type_synonym fx_store = "(Pair \<Rightarrow> gotime \<Rightarrow> fx_answer) option"

fun strings_Split :: "char \<Rightarrow> string \<Rightarrow> string list" where
  "strings_Split c [] = [[]]"
| "strings_Split c (x # s) =
     (if x = c then [] # strings_Split c s
      else case strings_Split c s of [] \<Rightarrow> [[x]] | f # fs \<Rightarrow> (x # f) # fs)"

definition fxSnapRejected :: "price_config \<Rightarrow> gotime \<Rightarrow> gotime \<Rightarrow> string \<Rightarrow> bool" where
  "fxSnapRejected cfg now observedAt source =
     (if time_IsZero observedAt \<or> FXMaxAge cfg < time_Sub now observedAt then True
      else list_ex (\<lambda>p. \<not> IsFXSource (external_Lookup cfg) p) (strings_Split (CHR ''+'') source))"

definition fiat_units :: "price_config \<Rightarrow> Trade list \<Rightarrow> rat" where
  "fiat_units cfg trades =
     foldl (\<lambda>acc t. if BigInt (QuoteAmount t) = 0 then acc
                    else acc + SetFrac (BigInt (QuoteAmount t)) (10 ^ nat (amountScaleDecimalsFor cfg (Source t)))) 0 trades"

text \<open>\<open>None\<close>: a refusal with its reason.\<close>

definition fiatWindowUSDVolume :: "sdk \<Rightarrow> fx_store \<Rightarrow> price_config \<Rightarrow> Asset \<Rightarrow> Trade list \<Rightarrow> gotime \<Rightarrow> rat option" where
  "fiatWindowUSDVolume k fx cfg quote trades now =
     (case fx of
        None \<Rightarrow> None
      | Some read \<Rightarrow>
          (case NewFiatAsset ''USD'' of
             Inl e \<Rightarrow> None
           | Inr usd \<Rightarrow>
               (case NewPair k quote usd of
                  Inl e \<Rightarrow> None
                | Inr leg \<Rightarrow>
                    (case read leg now of
                       FXMissing \<Rightarrow> None
                     | FXError \<Rightarrow> None
                     | FXQuote rate observedAt source \<Rightarrow>
                         (case rate of
                            None \<Rightarrow> None
                          | Some r \<Rightarrow>
                              if r \<le> 0 \<or> fxSnapRejected cfg now observedAt source then None
                              else Some (fiat_units cfg trades * r))))))"

fun minUSDVolumeRat :: "price_config \<Rightarrow> f64 \<Rightarrow> rat option" where
  "minUSDVolumeRat cfg (FFin x) = Some (shortest cfg x)"
| "minUSDVolumeRat cfg x = None"

definition below_floor :: "price_config \<Rightarrow> rat \<Rightarrow> bool" where
  "below_floor cfg usdVolume =
     (case minUSDVolumeRat cfg (MinUSDVolume cfg) of Some fl \<Rightarrow> \<not> fl \<le> usdVolume | None \<Rightarrow> True)"

definition dropForMinUSDVolume ::
  "sdk \<Rightarrow> fx_store \<Rightarrow> price_config \<Rightarrow> Pair \<Rightarrow> Trade list \<Rightarrow> rat \<Rightarrow> gotime \<Rightarrow> bool" where
  "dropForMinUSDVolume k fx cfg pair trades usdVolume now =
     (if MinUSDVolume cfg \<le> FFin 0 then False
      else if usdQuoteDecimals cfg (Quote pair) \<noteq> None then below_floor cfg usdVolume
      else if Type (Quote pair) = AssetClassic \<or> Type (Quote pair) = AssetSoroban then True
      else if Type (Quote pair) = AssetFiat then
        (case fiatWindowUSDVolume k fx cfg (Quote pair) trades now of None \<Rightarrow> True | Some v \<Rightarrow> below_floor cfg v)
      else False)"

section \<open>The price of a bucket\<close>

definition computeNormalizedVWAP :: "price_config \<Rightarrow> Trade list \<Rightarrow> Pair \<Rightarrow> aggregate_error + rat option" where
  "computeNormalizedVWAP cfg trades pair =
     err_bind (VWAP (NormalizeAmountScale trades (amountScaleDecimalsFor cfg)))
       (\<lambda>vwap. Inr (AdjustPrice (Some vwap) (ResolveDecimals (cfg_DecimalsLookup cfg) (Base pair))
                      (ResolveDecimals (cfg_DecimalsLookup cfg) (Quote pair))))"

datatype bucket_outcome =
    BucketError error
  | VWAPError aggregate_error
  | Unpriced
  | BucketPrice "rat option" "Trade list" fetched

definition decideBucket_price ::
  "sdk \<Rightarrow> trade_store \<Rightarrow> fx_store \<Rightarrow> price_config \<Rightarrow> Pair \<Rightarrow> duration \<Rightarrow> gotime \<Rightarrow> gotime \<Rightarrow> bucket_outcome option" where
  "decideBucket_price k st fx cfg pair window bucketEnd now =
     map_option (\<lambda>r. case r of
         Inl e \<Rightarrow> BucketError e
       | Inr f \<Rightarrow>
           let trades = bucket_filters cfg (f_weights f) (f_trades f) in
           if trades = [] then Unpriced
           else if dropForMinUSDVolume k fx cfg pair trades (survivorUSDVolume trades (tradeUSD f)) now then Unpriced
           else case computeNormalizedVWAP cfg trades pair of
             Inl e \<Rightarrow> if e = ErrNoTrades then Unpriced else VWAPError e
           | Inr vwap \<Rightarrow> BucketPrice vwap trades f)
       (fetchForTarget k st cfg pair (bucketEnd - window) bucketEnd)"

section \<open>What was read\<close>

definition target_legs :: "sdk \<Rightarrow> price_config \<Rightarrow> Pair \<Rightarrow> Pair list" where
  "target_legs k cfg target =
     (if EnableStablecoinFiatProxy cfg
      then (case ExpandTargetPairWithClassicPegs k target (USDPeggedClassicAssets cfg) of Inl e \<Rightarrow> [] | Inr srcs \<Rightarrow> srcs)
      else [target])"

lemma target_legs_valid:
  assumes "Pair_Validate k target = None" "p \<in> set (target_legs k cfg target)"
  shows "Pair_Validate k p = None"
  using assms backer_pairs_mem [OF backers_known]
  by (auto simp: target_legs_def ExpandTargetPairWithClassicPegs_def peg_pairs_mem split: if_splits option.splits)

definition leg_read :: "trade_store \<Rightarrow> price_config \<Rightarrow> gotime \<Rightarrow> gotime \<Rightarrow> Pair \<Rightarrow> bool" where
  "leg_read st cfg from to p \<longleftrightarrow> (\<exists>leg. fetchTradesDetectTruncation st (base_cfg cfg) p from to = Some (Inr leg))"

definition leg_result :: "trade_store \<Rightarrow> price_config \<Rightarrow> gotime \<Rightarrow> gotime \<Rightarrow> Pair \<Rightarrow> Trade list \<times> weights \<times> gotime" where
  "leg_result st cfg from to p = projr (the (fetchTradesDetectTruncation st (base_cfg cfg) p from to))"

definition onto :: "Pair \<Rightarrow> Pair \<Rightarrow> Trade list \<Rightarrow> Trade list" where
  "onto target src batch = (if Pair_Equal src target then batch else map (\<lambda>t. t\<lparr>TPair := target\<rparr>) batch)"

lemma legs_loop_parts:
  assumes "legs_loop st cfg target from to srcs f errs = Some (f', errs')"
  shows "f_trades f' = f_trades f @ concat (map (\<lambda>p. onto target p (fst (leg_result st cfg from to p))) (filter (leg_read st cfg from to) srcs)) \<and>
    coverage f' = foldl widenCoverage (coverage f) (map (\<lambda>p. snd (snd (leg_result st cfg from to p))) (filter (leg_read st cfg from to) srcs)) \<and>
    errs' + length (filter (leg_read st cfg from to) srcs) = errs + length srcs"
  using assms
proof (induction srcs arbitrary: f errs)
  case (Cons src srcs)
  show ?case
  proof (cases "leg_read st cfg from to src")
    case True
    then obtain batch w c where leg: "fetchTradesDetectTruncation st (base_cfg cfg) src from to = Some (Inr (batch, w, c))"
      by (auto simp: leg_read_def)
    then have "leg_result st cfg from to src = (batch, w, c)" by (simp add: leg_result_def)
    moreover have "legs_loop st cfg target from to srcs (merge_leg cfg target src (batch, w, c) f) errs = Some (f', errs')"
      using Cons.prems leg by simp
    moreover have "f_trades (merge_leg cfg target src (batch, w, c) f) = f_trades f @ onto target src batch"
      "coverage (merge_leg cfg target src (batch, w, c) f) = widenCoverage (coverage f) c"
      by (auto simp: merge_leg_def onto_def Let_def)
    ultimately show ?thesis using Cons.IH True by fastforce
  next
    case False
    then have "legs_loop st cfg target from to srcs f (errs + 1) = Some (f', errs')"
      using Cons.prems by (auto simp: leg_read_def split: option.splits sum.splits)
    then show ?thesis using Cons.IH False by fastforce
  qed
qed simp

lemma fetchForTarget_parts:
  assumes "fetchForTarget k st cfg target from to = Some (Inr f)"
  defines "legs \<equiv> filter (leg_read st cfg from to) (target_legs k cfg target)"
  shows "f_trades f = concat (map (\<lambda>p. onto target p (fst (leg_result st cfg from to p))) legs)"
    "coverage f = foldl widenCoverage no_coverage (map (\<lambda>p. snd (snd (leg_result st cfg from to p))) legs)" "legs \<noteq> []"
proof -
  have "f_trades f = concat (map (\<lambda>p. onto target p (fst (leg_result st cfg from to p))) legs) \<and>
    coverage f = foldl widenCoverage no_coverage (map (\<lambda>p. snd (snd (leg_result st cfg from to p))) legs) \<and> legs \<noteq> []"
  proof (cases "EnableStablecoinFiatProxy cfg")
    case False
    then obtain batch w c where leg: "fetchTradesDetectTruncation st (base_cfg cfg) target from to = Some (Inr (batch, w, c))"
      "f_trades f = batch" "coverage f = widenCoverage no_coverage c"
      using assms(1) by (auto simp: fetchForTarget_def returns)
    then have "legs = [target]" "leg_result st cfg from to target = (batch, w, c)"
      using False by (auto simp: legs_def target_legs_def leg_read_def leg_result_def)
    then show ?thesis using leg by (simp add: onto_def Pair_Equal_def Asset_Equal_iff)
  next
    case True
    then obtain srcs errs where s: "ExpandTargetPairWithClassicPegs k target (USDPeggedClassicAssets cfg) = Inr srcs"
      "legs_loop st cfg target from to srcs \<lparr>f_trades = [], tradeUSD = [], proxied = [], f_weights = [], coverage = no_coverage\<rparr> 0 = Some (f, errs)"
      "errs \<noteq> length srcs"
      using assms(1) by (auto simp: fetchForTarget_def split: sum.splits if_splits)
    then have "legs = filter (leg_read st cfg from to) srcs" using True by (simp add: legs_def target_legs_def)
    then show ?thesis using legs_loop_parts [OF s(2)] s(3) by auto
  qed
  then show "f_trades f = concat (map (\<lambda>p. onto target p (fst (leg_result st cfg from to p))) legs)"
    "coverage f = foldl widenCoverage no_coverage (map (\<lambda>p. snd (snd (leg_result st cfg from to p))) legs)" "legs \<noteq> []" by simp_all
qed

text \<open>The coverage of several legs is that of the worst.\<close>

definition covers :: "WindowCoverage \<Rightarrow> gotime \<Rightarrow> bool" where
  "covers c cf \<longleftrightarrow> cf = 0 \<or> wc_Truncated c \<and> cf \<le> wc_CoveredFrom c"

lemma widen_covers: "covers c cf \<Longrightarrow> covers (widenCoverage c cf') cf" "covers (widenCoverage c cf') cf'"
  by (auto simp: covers_def widenCoverage_def time_IsZero_def)

lemma foldl_widen_covers: "covers c cf \<or> cf \<in> set cfs \<Longrightarrow> covers (foldl widenCoverage c cfs) cf"
  by (induction cfs arbitrary: c) (auto intro: widen_covers)

section \<open>What the filters keep\<close>

lemma same_volumes_append: "same_volumes xs ys \<Longrightarrow> same_volumes xs' ys' \<Longrightarrow> same_volumes (xs @ xs') (ys @ ys')"
  by (simp add: same_volumes_def)

lemma same_volumes_trans: "same_volumes xs ys \<Longrightarrow> same_volumes ys zs \<Longrightarrow> same_volumes xs zs"
  by (simp add: same_volumes_def)

lemma same_volumes_concat:
  "(\<And>p. p \<in> set ps \<Longrightarrow> same_volumes (f p) (g p)) \<Longrightarrow> same_volumes (concat (map f ps)) (concat (map g ps))"
  by (induction ps) (auto intro: same_volumes_append same_volumes_refl)

lemma source_volume_retarget:
  "source_volume base_of s (onto target src ts) = source_volume base_of s ts"
  "source_volume quote_of s (onto target src ts) = source_volume quote_of s ts"
  by (auto simp: onto_def source_volume_def filter_map o_def priceable_def)

lemma same_volumes_onto: "same_volumes (onto target src ts) ts"
  by (simp add: same_volumes_def source_volume_retarget)

lemma same_volumes_priceable: "same_volumes (dropUnpriceable ts) ts"
  by (simp add: same_volumes_def source_volume_def dropUnpriceable_def priceable_def conj_ac)

lemma bucket_filters_eq:
  "bucket_filters cfg w ts =
     (let voting = dropUnpriceable (filter (\<lambda>t. votesInVWAP (base_cfg cfg) (Source t)) ts) in
      if FFin 0 < OutlierSigmaThreshold cfg then FilterOutliersLocal voting (outlierOptions cfg w) else voting)"
proof -
  have "(if DisableClassFilter cfg then dropExcludedSources ts (ExcludedSources cfg) else filterForVWAP cfg (dropExcludedSources ts (ExcludedSources cfg)))
      = filter (\<lambda>t. votesInVWAP (base_cfg cfg) (Source t)) ts"
    by (auto simp: dropExcludedSources_def filterForVWAP_def votesInVWAP_def Let_def coverage_config.truncate_def intro!: filter_cong)
  then show ?thesis by (simp add: bucket_filters_def Let_def)
qed

lemma bucket_filters_keep:
  assumes "bucket_filters cfg w ts \<noteq> []"
  shows "subseq (bucket_filters cfg w ts) ts"
    "\<forall>t \<in> set (bucket_filters cfg w ts). priceable t \<and> votesInVWAP (base_cfg cfg) (Source t)"
    "base_units (amountScaleDecimalsFor cfg) (filter (\<lambda>t. votesInVWAP (base_cfg cfg) (Source t)) ts)
       \<le> 2 * base_units (amountScaleDecimalsFor cfg) (bucket_filters cfg w ts)"
proof -
  define voting where "voting = dropUnpriceable (filter (\<lambda>t. votesInVWAP (base_cfg cfg) (Source t)) ts)"
  have v: "subseq voting ts" "\<forall>t \<in> set voting. priceable t \<and> votesInVWAP (base_cfg cfg) (Source t)"
    by (auto simp: voting_def dropUnpriceable_def priceable_def)
  have b: "base_units dec (filter (\<lambda>t. votesInVWAP (base_cfg cfg) (Source t)) ts) = base_units dec voting" for dec
    by (simp add: voting_def dropUnpriceable_def priceable_def conj_ac)
  have "subseq (bucket_filters cfg w ts) voting \<and> base_units (amountScaleDecimalsFor cfg) voting \<le> 2 * base_units (amountScaleDecimalsFor cfg) (bucket_filters cfg w ts)"
  proof (cases "FFin 0 < OutlierSigmaThreshold cfg")
    case True
    then have "bucket_filters cfg w ts = FilterOutliersLocal voting (outlierOptions cfg w)" by (simp add: bucket_filters_eq voting_def)
    moreover have "vote_dec (AmountScaleDecimals (outlierOptions cfg w)) = amountScaleDecimalsFor cfg" by (simp add: vote_dec_def outlierOptions_def)
    ultimately show ?thesis
      using local_filter.keeps_order [of voting "outlierOptions cfg w"] local_filter.volume_vote [of voting "outlierOptions cfg w"] assms by simp
  next
    case False
    have "0 \<le> base_units (amountScaleDecimalsFor cfg) voting" by (rule sum_list_nonneg) (auto simp: whole_units_def priceable_def)
    then show ?thesis using False by (simp add: bucket_filters_eq voting_def [symmetric])
  qed
  then show "subseq (bucket_filters cfg w ts) ts" "\<forall>t \<in> set (bucket_filters cfg w ts). priceable t \<and> votesInVWAP (base_cfg cfg) (Source t)"
    "base_units (amountScaleDecimalsFor cfg) (filter (\<lambda>t. votesInVWAP (base_cfg cfg) (Source t)) ts)
       \<le> 2 * base_units (amountScaleDecimalsFor cfg) (bucket_filters cfg w ts)"
    using v subseq_set b by (auto intro: subseq_order.order_trans)
qed
section \<open>The price of a bucket\<close>

text \<open>The part \<open>D\<close> of a market's window \<open>W\<close> that a coverage \<open>c\<close> answers for.\<close>

definition covered_part :: "WindowCoverage \<Rightarrow> Trade list \<Rightarrow> Trade list \<Rightarrow> bool" where
  "covered_part c W D \<longleftrightarrow> mset D \<subseteq># mset W \<and> (\<not> wc_Truncated c \<longrightarrow> mset D = mset W) \<and>
     filter_mset (\<lambda>t. wc_CoveredFrom c < Timestamp t) (mset W) \<subseteq># mset D"

lemma stands_for_covered:
  assumes "stands_for ts cf W D" "covers c cf"
  shows "covered_part c W D"
proof (cases "cf = 0")
  case True
  then show ?thesis using assms(1) by (simp add: stands_for_def covered_part_def multiset_filter_subset)
next
  case False
  then have c: "wc_Truncated c" "cf \<le> wc_CoveredFrom c" using assms(2) by (auto simp: covers_def)
  then have "filter_mset (\<lambda>t. wc_CoveredFrom c < Timestamp t) (mset W) \<subseteq># filter_mset (\<lambda>t. cf < Timestamp t) (mset W)"
    by (intro filter_mset_mono_strong) auto
  then show ?thesis using assms(1) c by (auto simp: stands_for_def covered_part_def intro: subset_mset.order_trans)
qed

context capped_trades
begin

lemma fetched_parts:
  assumes "\<forall>p \<in> set (target_legs k cfg target). good p" "cap_ok (base_cfg cfg)" "0 < from" "fetchForTarget k st cfg target from to = Some (Inr f)"
  obtains D where "\<And>p. p \<in> set (filter (leg_read st cfg from to) (target_legs k cfg target)) \<Longrightarrow> covered_part (coverage f) (filter (in_range from to) (whole p)) (D p)"
    "same_volumes (f_trades f) (concat (map D (filter (leg_read st cfg from to) (target_legs k cfg target))))"
proof -
  define legs where "legs = filter (leg_read st cfg from to) (target_legs k cfg target)"
  note f = fetchForTarget_parts [OF assms(4), folded legs_def]
  have "\<exists>D. stands_for (fst (leg_result st cfg from to p)) (snd (snd (leg_result st cfg from to p))) (filter (in_range from to) (whole p)) D"
    if "p \<in> set legs" for p
  proof -
    have "good p" "leg_read st cfg from to p" using that assms(1) by (auto simp: legs_def)
    then show ?thesis using fetch_stands_for(2) [OF _ assms(2,3)] by (fastforce simp: leg_read_def leg_result_def)
  qed
  then obtain D where D: "\<And>p. p \<in> set legs \<Longrightarrow>
      stands_for (fst (leg_result st cfg from to p)) (snd (snd (leg_result st cfg from to p))) (filter (in_range from to) (whole p)) (D p)"
    by metis
  have "covered_part (coverage f) (filter (in_range from to) (whole p)) (D p)" if "p \<in> set legs" for p
    using that by (intro stands_for_covered [OF D]) (auto simp: f(2) intro!: foldl_widen_covers)
  moreover have "same_volumes (f_trades f) (concat (map D legs))"
    unfolding f(1) using D by (intro same_volumes_concat) (auto simp: stands_for_def intro: same_volumes_trans same_volumes_onto)
  ultimately show ?thesis using that unfolding legs_def by blast
qed

end

lemma decideBucket_priced:
  assumes "decideBucket_price k st fx cfg target window bucketEnd now = Some (BucketPrice price trades f)"
  shows "fetchForTarget k st cfg target (bucketEnd - window) bucketEnd = Some (Inr f)" "trades = bucket_filters cfg (f_weights f) (f_trades f)"
    "\<not> dropForMinUSDVolume k fx cfg target trades (survivorUSDVolume trades (tradeUSD f)) now"
    "computeNormalizedVWAP cfg trades target = Inr price" "trades \<noteq> []"
proof -
  obtain r where r: "fetchForTarget k st cfg target (bucketEnd - window) bucketEnd = Some r"
    using assms by (auto simp: decideBucket_price_def)
  obtain f' where f': "r = Inr f'" using assms r by (cases r) (simp_all add: decideBucket_price_def)
  define ts where "ts = bucket_filters cfg (f_weights f') (f_trades f')"
  have "(if ts = [] then Unpriced
      else if dropForMinUSDVolume k fx cfg target ts (survivorUSDVolume ts (tradeUSD f')) now then Unpriced
      else case computeNormalizedVWAP cfg ts target of Inl e \<Rightarrow> if e = ErrNoTrades then Unpriced else VWAPError e | Inr vwap \<Rightarrow> BucketPrice vwap ts f')
      = BucketPrice price trades f"
    using assms unfolding decideBucket_price_def r f' ts_def Let_def by simp
  then have "f' = f" "trades = ts" "\<not> dropForMinUSDVolume k fx cfg target ts (survivorUSDVolume ts (tradeUSD f')) now"
    "computeNormalizedVWAP cfg ts target = Inr price" "ts \<noteq> []"
    by (auto split: if_splits sum.splits)
  then show "fetchForTarget k st cfg target (bucketEnd - window) bucketEnd = Some (Inr f)" "trades = bucket_filters cfg (f_weights f) (f_trades f)"
    "\<not> dropForMinUSDVolume k fx cfg target trades (survivorUSDVolume trades (tradeUSD f)) now"
    "computeNormalizedVWAP cfg trades target = Inr price" "trades \<noteq> []"
    using r f' by (simp_all add: ts_def)
qed

lemma computeNormalizedVWAP_Inr:
  "computeNormalizedVWAP cfg trades pair = Inr price \<longleftrightarrow>
     (\<exists>v. VWAP (NormalizeAmountScale trades (amountScaleDecimalsFor cfg)) = Inr v \<and>
        price = Some (v * 10 powi ResolveDecimals (cfg_DecimalsLookup cfg) (Base pair) / 10 powi ResolveDecimals (cfg_DecimalsLookup cfg) (Quote pair)))"
  by (auto simp: computeNormalizedVWAP_def returns AdjustPrice_exact)

lemma base_cfg_simps [simp]:
  "MaxTradesPerWindow (base_cfg cfg) = MaxTradesPerWindow cfg"
  by (simp add: coverage_config.truncate_def)

text \<open>
  C8. The price of a closed bucket, with outlier trimming off, is exact over everything that counts: it is the
  volume weighted price, corrected for the decimals of both assets, of the voting trades of the target market
  and of its stablecoin and peg markets, taken over the legs that could be read, in both stored directions and
  at each source's own scale. Each leg contributes its whole window unless the coverage says truncated, and then
  at least everything after the reported start; there is always at least one leg.
\<close>

theorem bucket_price_exact:
  assumes "strkey_ok k" "materialised q" "Pair_Validate k target = None" "0 < MaxTradesPerWindow cfg"
    "MaxTradesPerWindow cfg \<le> MaxTradesInRangeLimit" "0 < bucketEnd - window" "\<not> FFin 0 < OutlierSigmaThreshold cfg"
    "decideBucket_price k (pg_store k q) fx cfg target window bucketEnd now = Some (BucketPrice price trades f)"
    "legs = filter (leg_read (pg_store k q) cfg (bucketEnd - window) bucketEnd) (target_legs k cfg target)"
  shows "legs \<noteq> [] \<and> (\<exists>D v.
    (\<forall>p \<in> set legs. covered_part (coverage f) (filter (in_range (bucketEnd - window) bucketEnd) (market q p)) (D p)) \<and>
    VWAP (NormalizeAmountScale (filter (\<lambda>t. votesInVWAP (base_cfg cfg) (Source t)) (concat (map D legs))) (amountScaleDecimalsFor cfg)) = Inr v \<and>
    price = Some (v * 10 powi ResolveDecimals (cfg_DecimalsLookup cfg) (Base target) / 10 powi ResolveDecimals (cfg_DecimalsLookup cfg) (Quote target)))"
proof -
  note b = decideBucket_priced [OF assms(8)]
  have good: "\<forall>p \<in> set (target_legs k cfg target). pg_good k q p" using assms(1-3) target_legs_valid by (auto simp: pg_good_def)
  have cap: "cap_ok (base_cfg cfg)" using assms(4,5) by (simp add: cap_ok_def)
  obtain D where D: "\<And>p. p \<in> set legs \<Longrightarrow> covered_part (coverage f) (filter (in_range (bucketEnd - window) bucketEnd) (market q p)) (D p)"
    "same_volumes (f_trades f) (concat (map D legs))"
    using timescale.fetched_parts [OF good cap assms(6) b(1)] unfolding assms(9) by blast
  have "same_volumes trades (filter (\<lambda>t. votesInVWAP (base_cfg cfg) (Source t)) (concat (map D legs)))"
    using assms(7) unfolding b(2) bucket_filters_eq Let_def
    by simp (rule same_volumes_trans [OF same_volumes_priceable same_volumes_filter [OF D(2)]])
  from same_volumes_VWAP [OF this] show ?thesis
    using D(1) b(4) fetchForTarget_parts(3) [OF b(1)] unfolding computeNormalizedVWAP_Inr assms(9) by metis
qed
definition sample_price_config :: price_config where
  "sample_price_config = coverage_config.extend sample_coverage
     \<lparr>EnableStablecoinFiatProxy = False, USDPeggedClassicAssets = [sample_usdc], USDPeggedSorobanAssets = [], cfg_DecimalsLookup = None,
      MinUSDVolume = FFin (1 / 1000000), shortest = (\<lambda>x. x), FXMaxAge = go_hour\<rparr>"

definition sample_filled :: "Trade list" where
  "sample_filled = [minute_trade sample_pair sample_minute, oriented sample_pair (sample_row 120000000001 50 6), oriented sample_pair (sample_row 120000000002 50 5)]"

definition sample_fetched :: fetched where
  "sample_fetched =
     \<lparr>f_trades = sample_filled, tradeUSD = usdVolumeForPairPerTrade sample_price_config sample_pair sample_filled, proxied = [],
      f_weights = [(Trade_ID (minute_trade sample_pair sample_minute), 2)], coverage = no_coverage\<rparr>"

lemma sample_config: "base_cfg sample_price_config = sample_coverage" "\<not> EnableStablecoinFiatProxy sample_price_config"
  "MaxTradesPerWindow sample_price_config = 3" "OutlierSigmaThreshold sample_price_config = FFin 0"
  by (simp_all add: sample_price_config_def coverage_config.truncate_def coverage_config.extend_def sample_coverage_def)

lemma sample_fetched_target:
  "fetchForTarget sample_sdk (pg_store sample_sdk sample_pg) sample_price_config sample_pair 60000000000 180000000000 = Some (Inr sample_fetched)"
  using sample_fetch
  by (simp add: fetchForTarget_def sample_config sample_fetched_def sample_filled_def widenCoverage_def time_IsZero_def no_coverage_def)

lemma sample_usd_map:
  "tradeUSD sample_fetched = map (\<lambda>t. (Trade_ID t, of_int (quote_of t) / 10000000)) (rev sample_filled)"
proof -
  have q: "usdQuoteDecimals sample_price_config (Quote sample_pair) = Some 7" by code_simp
  have "\<not> (Type (Quote sample_pair) = AssetFiat \<and> Code (Quote sample_pair) = ''USD'' \<or> IsFiatProxyFor (Quote sample_pair) ''USD'')" by code_simp
  then have "usdQuoteDecimalsForTrade sample_price_config (Quote sample_pair) s = Some 7" for s
    using q unfolding usdQuoteDecimalsForTrade_def by (simp only: if_False)
  then show ?thesis
    using q by (simp add: sample_fetched_def usdVolumeForPairPerTrade_def sample_filled_def SetFrac_def oriented_def row_trade_def sample_row_def sample_minute_def)
qed

lemma sample_usd: "1 / 1000000 \<le> survivorUSDVolume sample_filled (tradeUSD sample_fetched)"
  by (simp add: survivorUSDVolume_def sample_usd_map) (simp add: sample_filled_def oriented_def row_trade_def sample_row_def sample_minute_def)

lemma sample_vwap: "computeNormalizedVWAP sample_price_config sample_filled sample_pair = Inr (Some (27 / 250))"
  by code_simp

lemma sample_filters: "bucket_filters sample_price_config w sample_filled = sample_filled"
proof -
  have "votesInVWAP sample_coverage s" for s by (simp add: votesInVWAP_def sample_coverage_def)
  then show ?thesis
    by (simp add: bucket_filters_eq sample_config dropUnpriceable_def)
      (simp add: sample_filled_def oriented_def row_trade_def sample_row_def sample_minute_def)
qed

lemma sample_bucket:
  "decideBucket_price sample_sdk (pg_store sample_sdk sample_pg) None sample_price_config sample_pair 120000000000 180000000000 now
   = Some (BucketPrice (Some (27 / 250)) sample_filled sample_fetched)"
proof -
  have "usdQuoteDecimals sample_price_config (Quote sample_pair) = Some 7" by code_simp
  then have "\<not> dropForMinUSDVolume sample_sdk None sample_price_config sample_pair sample_filled (survivorUSDVolume sample_filled (tradeUSD sample_fetched)) now"
    using sample_usd by (simp add: dropForMinUSDVolume_def below_floor_def sample_price_config_def coverage_config.extend_def)
  moreover have "f_trades sample_fetched = sample_filled" "sample_filled \<noteq> []" by (simp_all add: sample_fetched_def sample_filled_def)
  ultimately show ?thesis
    by (simp add: decideBucket_price_def sample_fetched_target sample_filters sample_vwap)
qed

text \<open>Four trades of one market under a cap of three, above a floor of a millionth of a dollar.\<close>

theorem bucket_price_exact_witness:
  "\<exists>D. mset D = mset (filter (in_range 60000000000 180000000000) (market sample_pg sample_pair)) \<and>
     VWAP (NormalizeAmountScale (filter (\<lambda>t. votesInVWAP sample_coverage (Source t)) D) (amountScaleDecimalsFor sample_price_config)) = Inr (27 / 250)"
proof -
  let ?st = "pg_store sample_sdk sample_pg"
  have "leg_read ?st sample_price_config 60000000000 180000000000 sample_pair" using sample_fetch by (simp add: leg_read_def sample_config)
  then have legs: "filter (leg_read ?st sample_price_config 60000000000 180000000000) (target_legs sample_sdk sample_price_config sample_pair) = [sample_pair]"
    by (simp add: target_legs_def sample_config)
  have cfg: "0 < MaxTradesPerWindow sample_price_config" "MaxTradesPerWindow sample_price_config \<le> MaxTradesInRangeLimit" "0 < 180000000000 - (120000000000 :: int)"
    "\<not> FFin 0 < OutlierSigmaThreshold sample_price_config"
    by (simp_all add: sample_config MaxTradesInRangeLimit_def)
  have "cfg_DecimalsLookup sample_price_config = None" "\<not> wc_Truncated (coverage sample_fetched)"
    by (simp_all add: sample_price_config_def coverage_config.extend_def sample_fetched_def no_coverage_def)
  then show ?thesis
    using bucket_price_exact [OF sample_sdk_ok sample_materialised sample_pair_valid cfg sample_bucket refl] legs
    by (auto simp: covered_part_def sample_config ResolveDecimals_def)
qed


end
