(* ===== verification/Spec2Isabelle.thy ===== *)
theory Spec2Isabelle
  imports RobustStat Trades PriceWindow FreezeLifecycle Router Outliers Aliases Stablecoin GlobalPrice RateLimit Completeness MEVWorker SupplyRefresh PricingGuard ScamGate Holds FreezeRecovery FreezeStep HashSweep AnchorFill DecimalsGuard BucketPrice
begin

text \<open>
  \<^bold>\<open>Verification of the pricing, supply and detection core of StellarIndex.\<close>

  StellarIndex indexes the Stellar network, aggregates trades and oracle updates into prices, and serves them
  with provenance. The indexer decodes ledgers into canonical trades, updates and supply observations; the
  aggregator turns windows of trades into prices, guards them with robust statistics, freezes suspicious
  ones, routes cross rates, refreshes supply snapshots and looks for extractable value; completeness jobs
  certify that projections lost nothing; the API serves the result under rate limits. This development models
  the parts whose results are published and whose rules are the program's own, function by function, from the
  Go sources under \<open>src/internal\<close>.

  \<^bold>\<open>Theories and sources.\<close>

  \<^item> \<open>SI_Prelude\<close>, \<open>GoText\<close>, \<open>GoTime\<close>, \<open>GoErr\<close>, \<open>NetIP\<close>: the values of the Go language and library that the
    sources use (float64 as far as it is compared, int64 durations with saturation and wrap-around, strings and
    decimal text, RFC 3339 times, error returns, addresses), and the lemmas and rule collections the components
    share.
  \<^item> \<open>Amounts\<close>, \<open>Assets\<close>, \<open>Trades\<close> (canonical): amounts of any size with their i128 parts and wire forms,
    the seven shapes of an asset with parser and validation, pairs, trades and oracle updates. The Stellar SDK is
    a record of functions with named hypotheses (\<open>strkey_ok\<close>).
  \<^item> \<open>Aliases\<close> (canonical): contract addresses of classic assets, the alias registry, the installed network and
    the orientation of a market.
  \<^item> \<open>RobustStat\<close> (robuststat): medians, deviations and the guard of a served price.
  \<^item> \<open>PriceWindow\<close>, \<open>Outliers\<close>, \<open>Stablecoin\<close>, \<open>GlobalPrice\<close> (aggregate): window prices over exact rationals,
    outlier trimming with the volume vote, the stablecoin policy, and the three price tiers.
  \<^item> \<open>RouteGraph\<close>, \<open>Router\<close> (aggregate/router.go): the quote graph and its route search, then the choice among
    routes and the count of independent corroborations.
  \<^item> \<open>FreezeLifecycle\<close> (aggregate/freeze/lifecycle.go): the freeze state machine and its histories.
  \<^item> \<open>FreezeMarker\<close>, \<open>FreezeStore\<close> (aggregate/freeze/freeze.go): the pair-level Redis marker with its envelope of
    window ladders, written by \<open>Mark\<close>, read by \<open>LoadWindow\<close> and \<open>PairLadder\<close>, dropped by \<open>Release\<close>, and the store
    the windows of a pair share.
  \<^item> \<open>FreezeEvents\<close> (storage/timescale/freeze_events.go), \<open>FreezeRecovery\<close> (aggregate/freeze/recovery.go): the durable
    rows of the freezes, and the worker that closes them.
  \<^item> \<open>FreezeStep\<close> (aggregate/orchestrator/phase2_freeze.go): one evaluation of a window in the aggregator's tick, over
    the marker, the rows, the evidence and the state machine.
  \<^item> \<open>TradeReads\<close> (storage/timescale/trades.go, trade_sums_1m.go), \<open>WindowCoverage\<close>
    (aggregate/orchestrator/window_coverage.go), \<open>BucketPrice\<close> (aggregate/orchestrator/orchestrator.go): the limited read
    of a market and its minute sums, the window assembled from both, and the pricing of a closed bucket from all
    its legs through the filters and the volume floor.
  \<^item> \<open>RateLimit\<close> (ratelimit): the in-process store, the shared bucket with its fallback and breaker.
  \<^item> \<open>Completeness\<close> (completeness): watermark, re-derivation and reconciliation of counts, recognition audit.
  \<^item> \<open>MEVInputs\<close>, \<open>MEVArb\<close>, \<open>MEVSandwich\<close>, \<open>MEVWash\<close>, \<open>MEVWorker\<close> (aggregate/mev): the five detectors and a run
    of the worker.
  \<^item> \<open>Supply\<close>, \<open>SupplyReaders\<close>, \<open>SupplyRefresh\<close> (supply): the keys, the operator policy and the three supply
    algorithms; the reserve and table readers; the refresher with its freshness gates and the cross-check.
  \<^item> \<open>PricingGuard\<close>, \<open>SubstanceGate\<close>, \<open>SubstanceCache\<close>, \<open>ScamGate\<close> (pricingguard): the guard of raw buckets, the
    thin-market gate with its configuration and caches, the scam gate, and the one decision that withholds a
    price.
  \<^item> \<open>Holds\<close> (holds): the operator's hold list, its matching and its reload.
  \<^item> \<open>HashDB\<close> (hashdb), \<open>HashSweep\<close> (archivecompleteness/hashdb_verify.go and the indexer's \<open>main.go\<close>): the file of
    first-seen ledger hashes on a disk that may tear writes, and the detector that records and re-checks ledgers.
  \<^item> \<open>CrossAnchor\<close>, \<open>AnchorFill\<close> (archivecompleteness, ops/archive): the scan of a history archive for missing
    checkpoints with its report, the fetch of missing ones from mirrors, and the daily run.
  \<^item> \<open>DecimalsGuard\<close> (decimalsguard, with its table in storage/timescale and the snapshot in api/v1): detection and
    repair of tokens with other than seven decimals, on which the scale correction of \<open>PriceWindow\<close> rests.

  Each theory gives the data of its files as records and datatypes with the names of the source, then one
  definition for each function, loops as structural recursion in the order of the code, then the lemmas.
  Fallible functions return a sum with the error on the left; an error is the list of sentinels that
  \<open>errors.Is\<close> finds in it. A panic or nil dereference is \<open>None\<close>. Maps are association lists or partial
  functions; where Go iterates over a map in random order, the model iterates in table order and the
  theorems do not depend on it. Databases, Redis, clocks and the Stellar SDK are arguments.

  \<^bold>\<open>Interfaces.\<close> Where components share a contract it is a locale, interpreted on the model's own
  definitions: \<open>central_statistic\<close> for the two medians, \<open>volume_sum\<close> for base and quote volumes,
  \<open>trade_filter\<close> for the two outlier filters, \<open>alias_table\<close> for the alias registry, \<open>window_store\<close> and \<open>durable_freezes\<close> for the freeze
  state the windows share and its durable record, \<open>capped_trades\<close> for the reads a window is assembled from, \<open>snapshot_computer\<close> for the
  supply computers behind a refresher, \<open>substance_verdicter\<close> for the gate behind the asset-level verdict.

  \<^bold>\<open>What the theorems show.\<close> A freeze is released only on evidence and an escalated one only by an
  operator; the windows of a pair, sharing one marker, each live the lifecycle of their own signals, no write loses
  or outlives a sibling's freeze, and an unreadable store freezes rather than clears; a pair has at most one open
  row and recovery closes exactly the finished ones; window prices are the exact weighted figures they claim to be,
  also when a row cap cut the window and over every leg of a target, and a priced bucket is backed by volume; the guard and the filters cannot be
  moved by a minority; a cross rate is the exact rate of a best route and corroborations are independent; the
  three price tiers refine their specification; limits hold in every window and an outage fails closed; a
  completeness certificate means every event was decoded and has its rows; each detector reports exactly its
  pattern and a repeated run publishes nothing twice; supply figures are what is held outside the excluded
  holders, supply rows are fresh, a missing baseline is never read as corruption, and the cross-check never
  shows a stale agreement. A raw bucket is served only inside the band of its baseline; a price is withheld
  whenever a leg's issuer stayed flagged, and as thin exactly on a current measured refusal, in any
  interleaving of callers; a bad edit of the hold file lifts nothing. The first hash recorded for a
  ledger stands and a rewritten ledger is caught; an archive run reports success only on a complete range. The
  decimals guard makes the served ratio of odd-scaled tokens exact. The identities the data is keyed by (assets, aliases, supply keys) are faithful.
  Theorems also state where the code departs from its intent: a policy its own loader rejects, and an archive
  scan that never ends on the last ledger sequence.

  \<^bold>\<open>Bounds and termination.\<close> Loops are structural except three: the union-find search of \<open>MEVArb\<close> is a
  \<open>partial_function\<close> whose result \<open>assetComponents_exact\<close> shows to exist on every input, the archive scan of
  \<open>CrossAnchor\<close> is one because its 32-bit counter may wrap, and the route search recurses on the hop budget the code passes. No definition uses fuel beyond that. Ledger sequences are 32-bit
  words, Redis expiries are whole milliseconds and stored times whole microseconds, durations wrap or saturate at 64 bits as in Go, amounts are unbounded as in \<open>math/big\<close>.

  \<^bold>\<open>Not modelled.\<close> Decoders of XDR events (over generated SDK types), most SQL and all ClickHouse statements, HTTP
  handlers and clients, goroutines and timers, metrics, logging and message texts, and the wiring of the binaries:
  they are thin layers over I/O or over types generated outside the repository. The confidence score, the baselines and
  the anomaly thresholds are float64 arithmetic whose results depend on IEEE rounding; the freeze step takes
  their signals as inputs. Of the orchestrator the publication to Redis, the last-known-good keys and the float64
  test of a corroborated release are left out; of the freeze records the reports by group; of the archive
  tools file ownership and the node-exporter text files, of the supply package the latter too; of the
  canonical package the JSON object form of a pair and one \<open>big.Float\<close> conversion.
\<close>

end
